(* ===== verification/Ams_Prelude.thy ===== *)
theory Ams_Prelude
  imports Main "HOL-Library.Word"
begin

text \<open>
  Shared vocabulary of the development: the integer types of the sources, the bit-field
  helpers the decoders use, little-endian views of 64-bit values, and the generic list
  lemmas that the component proofs lean on.
\<close>

unbundle bit_operations_syntax

section \<open>Integer types of the sources\<close>

type_synonym u8 = "8 word"
type_synonym u16 = "16 word"
type_synonym u32 = "32 word"
type_synonym u64 = "64 word"

named_theorems width_simps \<open>facts about truncation to a byte width\<close>
named_theorems inv_intros \<open>preservation of the state invariants by single operations\<close>

section \<open>Bit fields\<close>

text \<open>The idiom \<^verbatim>\<open>(w >> k) & 0xF\<close> of the decoders.\<close>

definition nybble :: "u32 \<Rightarrow> nat \<Rightarrow> u32" where
  "nybble w k = drop_bit k w AND 0xF"

lemma word_and_mask_bound:
  fixes w :: "'a::len word"
  assumes "m = mask n"
  shows "unat (w AND m) < 2 ^ n"
proof -
  have "unat (w AND m) = take_bit n (unat w)"
    by (simp add: assms(1) take_bit_eq_mask [symmetric] unsigned_take_bit_eq)
  then show ?thesis
    by (simp add: take_bit_nat_less_exp)
qed

lemma nybble_less [simp]: "unat (nybble w k) < 16"
proof -
  have "(0xF :: u32) = mask 4"
    by (simp add: mask_eq_exp_minus_1)
  from word_and_mask_bound [OF this, of "drop_bit k w"] show ?thesis
    by (simp add: nybble_def)
qed

lemma nybble_less_length: "length xs = 16 \<Longrightarrow> unat (nybble w k) < length xs"
  by simp

section \<open>Truncation to a byte width\<close>

text \<open>
  The casts \<^verbatim>\<open>static_cast<u8>\<close>, \<^verbatim>\<open>static_cast<u16>\<close> and
  \<^verbatim>\<open>static_cast<u32>\<close> of a 64-bit value, widened back to 64 bits.
\<close>

definition cast_u8 :: "u64 \<Rightarrow> u64" where
  "cast_u8 v = ucast (ucast v :: u8)"

definition cast_u16 :: "u64 \<Rightarrow> u64" where
  "cast_u16 v = ucast (ucast v :: u16)"

definition cast_u32 :: "u64 \<Rightarrow> u64" where
  "cast_u32 v = ucast (ucast v :: u32)"

lemma cast_u8_take [width_simps]: "cast_u8 v = take_bit 8 v"
  by (simp add: cast_u8_def unsigned_ucast_eq)

lemma cast_u16_take [width_simps]: "cast_u16 v = take_bit 16 v"
  by (simp add: cast_u16_def unsigned_ucast_eq)

lemma cast_u32_take [width_simps]: "cast_u32 v = take_bit 32 v"
  by (simp add: cast_u32_def unsigned_ucast_eq)

lemma unat_bound: "unat (w :: 'a::len word) < 2 ^ LENGTH('a)"
  by (rule unsigned_less)

lemma unat_take_bit_less:
  fixes v :: "'a::len word"
  shows "unat (take_bit n v) < 2 ^ n"
  by (simp add: unsigned_take_bit_eq take_bit_nat_less_exp)

section \<open>Little-endian bytes of a 64-bit value\<close>

text \<open>The first \<open>n\<close> bytes in memory of a \<^verbatim>\<open>u64\<close> variable.\<close>

definition u64_bytes :: "u64 \<Rightarrow> nat \<Rightarrow> u8 list" where
  "u64_bytes v n = map (\<lambda>i. ucast (drop_bit (8 * i) v)) [0..<n]"

text \<open>Reading bytes as a little-endian number.\<close>

fun bytes_u64 :: "u8 list \<Rightarrow> u64" where
  "bytes_u64 [] = 0"
| "bytes_u64 (b # bs) = ucast b OR push_bit 8 (bytes_u64 bs)"

text \<open>
  The effect on a \<^verbatim>\<open>u64\<close> variable of a \<^verbatim>\<open>memcpy\<close> of \<open>bs\<close> (at most eight bytes) to
  its address: the low bytes are replaced, the others are kept.
\<close>

definition overlay_bytes :: "u64 \<Rightarrow> u8 list \<Rightarrow> u64" where
  "overlay_bytes v bs =
     (v AND NOT (mask (8 * length bs))) OR take_bit (8 * length bs) (bytes_u64 bs)"

lemma length_u64_bytes [simp]: "length (u64_bytes v n) = n"
  by (simp add: u64_bytes_def)

lemma overlay_bytes_Nil [simp]: "overlay_bytes v [] = v"
  by (simp add: overlay_bytes_def)

lemma bit_bytes_u64:
  "bit (bytes_u64 bs) k \<longleftrightarrow> k < 64 \<and> k div 8 < length bs \<and> bit (bs ! (k div 8)) (k mod 8)"
proof (induction bs arbitrary: k)
  case Nil
  then show ?case by simp
next
  case (Cons b bs)
  show ?case
  proof (cases "k < 8")
    case True
    then show ?thesis
      by (simp add: bit_simps)
  next
    case False
    then have "k div 8 = Suc ((k - 8) div 8)" and "(k - 8) mod 8 = k mod 8"
      by (simp_all add: le_div_geq le_mod_geq)
    with False show ?thesis
      by (auto simp: bit_simps Cons.IH not_less dest: bit_imp_le_length)
  qed
qed

lemma bit_overlay_bytes:
  "bit (overlay_bytes v bs) k \<longleftrightarrow>
     (if k < 8 * length bs then k < 64 \<and> bit (bs ! (k div 8)) (k mod 8) else bit v k)"
  by (auto simp: overlay_bytes_def bit_simps bit_bytes_u64 dest: bit_imp_le_length)

lemma bit_u64_bytes:
  assumes "i < n"
  shows "bit (u64_bytes v n ! i) j \<longleftrightarrow> j < 8 \<and> bit v (8 * i + j)"
  using assms by (auto simp: u64_bytes_def bit_simps)

lemma overlay_u64_bytes:
  "overlay_bytes w (u64_bytes v n) = (w AND NOT (mask (8 * n))) OR take_bit (8 * n) v"
proof (rule bit_word_eqI)
  fix k
  assume "k < LENGTH(64)"
  then have k: "k < 64" by simp
  show "bit (overlay_bytes w (u64_bytes v n)) k =
        bit (w AND NOT (mask (8 * n)) OR take_bit (8 * n) v) k"
  proof (cases "k < 8 * n")
    case True
    then have "k div 8 < n" by auto
    then have "bit (u64_bytes v n ! (k div 8)) (k mod 8) = bit v k"
      by (simp add: bit_u64_bytes)
    with True k show ?thesis
      by (simp add: bit_overlay_bytes bit_simps)
  next
    case False
    with k show ?thesis
      by (auto simp: bit_overlay_bytes bit_simps)
  qed
qed

lemma overlay_zero_u64_bytes: "overlay_bytes 0 (u64_bytes v n) = take_bit (8 * n) v"
  by (simp add: overlay_u64_bytes)

section \<open>Lists\<close>

lemma take_Suc_update:
  "n < length xs \<Longrightarrow> take (Suc n) (xs[n := v]) = take n xs @ [v]"
  by (simp add: take_Suc_conv_app_nth)

section \<open>Alignment\<close>

text \<open>
  \<^verbatim>\<open>util::AlignUp\<close> and \<^verbatim>\<open>util::AlignDown\<close> on addresses and sizes. Clearing the bits of
  \<open>m\<close> in \<open>x\<close> is subtracting \<open>x AND m\<close>.
\<close>

definition AlignDown :: "nat \<Rightarrow> nat \<Rightarrow> nat" where
  "AlignDown v alignment = (let invmask = alignment - 1 in v - (v AND invmask))"

definition AlignUp :: "nat \<Rightarrow> nat \<Rightarrow> nat" where
  "AlignUp v alignment = (let invmask = alignment - 1 in (v + invmask) - ((v + invmask) AND invmask))"

definition IsAligned :: "nat \<Rightarrow> nat \<Rightarrow> bool" where
  "IsAligned v alignment \<longleftrightarrow> v AND (alignment - 1) = 0"

lemma nat_and_le: "(x AND y :: nat) \<le> y" "(x AND y :: nat) \<le> x"
  by (simp_all add: and_nat_def nat_le_iff AND_upper1 AND_upper2)

lemma AlignDown_le: "AlignDown v a \<le> v"
  by (simp add: AlignDown_def Let_def)

lemma AlignUp_ge: "v \<le> AlignUp v a"
  using nat_and_le(1) [of "v + (a - 1)" "a - 1"] by (simp add: AlignUp_def Let_def)

lemma AlignUp_less: "AlignUp v a \<le> v + (a - 1)"
  by (simp add: AlignUp_def Let_def)

lemma nat_and_pow2: "x AND (2 ^ k - 1) = (x :: nat) mod 2 ^ k"
  by (simp only: mask_eq_exp_minus_1 [symmetric] take_bit_eq_mask [symmetric] take_bit_eq_mod)

lemma AlignUp_pow2: "AlignUp v (2 ^ k) = (v + (2 ^ k - 1)) div 2 ^ k * 2 ^ k"
  by (simp only: AlignUp_def Let_def nat_and_pow2 minus_mod_eq_div_mult)

lemma AlignDown_pow2: "AlignDown v (2 ^ k) = v div 2 ^ k * 2 ^ k"
  by (simp only: AlignDown_def Let_def nat_and_pow2 minus_mod_eq_div_mult)

lemma AlignUp_dvd: "2 ^ k dvd AlignUp v (2 ^ k)"
  by (simp add: AlignUp_pow2)

section \<open>Linked lists in memory\<close>

text \<open>The list from \<open>p\<close> along the next pointers \<open>m\<close> visits exactly the nodes \<open>xs\<close> and ends in the null pointer.\<close>

fun chain :: "(nat \<Rightarrow> nat) \<Rightarrow> nat \<Rightarrow> nat list \<Rightarrow> bool" where
  "chain m p [] = (p = 0)"
| "chain m p (x # xs) = (p = x \<and> x \<noteq> 0 \<and> chain m (m x) xs)"

lemma chain_update [simp]: "a \<notin> set xs \<Longrightarrow> chain (m(a := b)) p xs = chain m p xs"
  by (induction xs arbitrary: p) auto

lemma chain_cong: "(\<And>x. x \<in> set xs \<Longrightarrow> m x = m' x) \<Longrightarrow> chain m p xs = chain m' p xs"
  by (induction xs arbitrary: p) auto

section \<open>Runs of a labelled step relation\<close>

inductive runs :: "('s \<Rightarrow> 'e \<Rightarrow> 's \<Rightarrow> bool) \<Rightarrow> 's \<Rightarrow> 'e list \<Rightarrow> 's \<Rightarrow> bool"
  for step where
  runs_nil: "runs step s [] s"
| runs_cons: "step s e s' \<Longrightarrow> runs step s' es s'' \<Longrightarrow> runs step s (e # es) s''"

lemma runs_append: "runs step s es s' \<Longrightarrow> runs step s' fs s'' \<Longrightarrow> runs step s (es @ fs) s''"
  by (induction rule: runs.induct) (auto intro: runs.intros)

text \<open>A relation that every step of one system carries along a step of another, with the same label.\<close>

locale simulation =
  fixes step :: "'s \<Rightarrow> 'e \<Rightarrow> 's \<Rightarrow> bool"
    and spec :: "'t \<Rightarrow> 'e \<Rightarrow> 't \<Rightarrow> bool"
    and rel :: "'s \<Rightarrow> 't \<Rightarrow> bool"
  assumes simulates: "rel s t \<Longrightarrow> step s e s' \<Longrightarrow> \<exists>t'. spec t e t' \<and> rel s' t'"
begin

lemma runs_simulate:
  assumes "runs step s es s'" "rel s t"
  shows "\<exists>t'. runs spec t es t' \<and> rel s' t'"
  using assms
proof (induction arbitrary: t rule: runs.induct)
  case (runs_nil s)
  then show ?case by (intro exI [of _ t] conjI runs.runs_nil)
next
  case (runs_cons s e s1 es s')
  obtain t1 where t1: "spec t e t1" "rel s1 t1"
    using simulates [OF runs_cons.prems runs_cons.hyps(1)] by (elim exE conjE)
  obtain t' where t': "runs spec t1 es t'" "rel s' t'"
    using runs_cons.IH [OF t1(2)] by (elim exE conjE)
  show ?case
    using runs.runs_cons [OF t1(1) t'(1)] t'(2) by (intro exI [of _ t'] conjI)
qed

end

section \<open>The contract of a block allocator\<close>

text \<open>
  What a client of a pool of blocks relies on: \<open>live h U\<close> says that \<open>h\<close> is a state of the
  allocator whose allocated blocks are \<open>U\<close>.
\<close>

locale block_allocator =
  fixes pool :: "nat set"
    and live :: "'h \<Rightarrow> nat set \<Rightarrow> bool"
    and alloc :: "'h \<Rightarrow> nat \<times> 'h"
    and release :: "nat \<Rightarrow> 'h \<Rightarrow> 'h"
  assumes live_pool: "live h U \<Longrightarrow> U \<subseteq> pool"
    and pool_valid: "live h U \<Longrightarrow> 0 \<notin> pool"
    and alloc_fresh: "live h U \<Longrightarrow> alloc h = (p, h') \<Longrightarrow> p \<noteq> 0 \<Longrightarrow>
      p \<in> pool - U \<and> live h' (insert p U)"
    and alloc_exhausted: "live h U \<Longrightarrow> alloc h = (0, h') \<Longrightarrow> U = pool \<and> live h' U"
    and release_live: "live h U \<Longrightarrow> p \<in> U \<Longrightarrow> live (release p h) (U - {p})"
begin

lemma release_all:
  "live h U \<Longrightarrow> distinct ps \<Longrightarrow> set ps \<subseteq> U \<Longrightarrow> live (fold release ps h) (U - set ps)"
proof (induction ps arbitrary: h U)
  case (Cons p ps)
  then have "live (release p h) (U - {p})"
    by (simp add: release_live)
  with Cons.prems have "live (fold release ps (release p h)) (U - {p} - set ps)"
    by (intro Cons.IH) auto
  then show ?case
    by (simp add: set_diff_eq insert_commute Diff_insert2 [symmetric] Diff_insert [of U p "set ps"])
qed simp

lemma alloc_succeeds:
  assumes "live h U" "U \<noteq> pool"
  shows "fst (alloc h) \<noteq> 0"
  using assms alloc_exhausted [of h U "snd (alloc h)"] by (metis prod.collapse)

lemma alloc_release:
  assumes "live h U" "alloc h = (p, h')" "p \<noteq> 0"
  shows "live (release p h') U"
proof -
  have "p \<notin> U" "live h' (insert p U)"
    using alloc_fresh [OF assms] by auto
  then show ?thesis
    using release_live [of h' "insert p U" p] by simp
qed

end

end
