(* ===== verification/Cheat_Types.thy ===== *)
theory Cheat_Types
  imports Ams_Prelude
begin

text \<open>
  The data the cheat service of \<^verbatim>\<open>dmnt\<close> exchanges with its clients
  (\<^verbatim>\<open>stratosphere/dmnt/dmnt_cheat_types.hpp\<close>): process metadata, cheat
  definitions, cheat entries and frozen values.
\<close>

record MemoryRegionExtents =
  ext_base :: u64
  ext_size :: u64

record CheatProcessMetadata =
  process_id :: u64
  program_id :: u64
  main_nso_extents :: MemoryRegionExtents
  heap_extents :: MemoryRegionExtents
  alias_extents :: MemoryRegionExtents
  aslr_extents :: MemoryRegionExtents
  main_nso_module_id :: "u8 list"

text \<open>
  \<open>readable_name\<close> is the array of 0x40 characters, \<open>opcodes\<close> the array of 0x100 words;
  their lengths are part of the manager's invariant.
\<close>

record CheatDefinition =
  readable_name :: "char list"
  num_opcodes :: u32
  opcodes :: "u32 list"

record CheatEntry =
  enabled :: bool
  cheat_id :: u32
  cheat_definition :: CheatDefinition

record FrozenAddressValue =
  frz_value :: u64
  frz_width :: u8

definition ReadableNameSize :: nat where
  "ReadableNameSize = 0x40"

definition CheatOpcodesSize :: nat where
  "CheatOpcodesSize = 0x100"

definition wf_CheatDefinition :: "CheatDefinition \<Rightarrow> bool" where
  "wf_CheatDefinition d \<longleftrightarrow>
     length (readable_name d) = ReadableNameSize \<and> length (opcodes d) = CheatOpcodesSize \<and>
     unat (num_opcodes d) \<le> CheatOpcodesSize"

end
