(* ===== verification/Cheat_VM_Decode.thy ===== *)
theory Cheat_VM_Decode
  imports Cheat_Types
begin

text \<open>
  The instruction decoder of the cheat virtual machine:
  \<^verbatim>\<open>CheatVirtualMachine::DecodeNextOpcode\<close> of \<^verbatim>\<open>dmnt_cheat_vm.cpp\<close>, over the
  opcode structures of \<^verbatim>\<open>dmnt_cheat_vm.hpp\<close>.

  The members of the union \<^verbatim>\<open>CheatVmOpcode\<close> are the constructors of one datatype.
  Where the C++ structure holds fields that only some operand kinds fill in, the operand
  is a datatype of its own, so that a field the decoder leaves unset does not exist in
  the model. An enumeration filled by a cast from a nybble keeps the values that are
  none of its enumerators, because the executor's \<^verbatim>\<open>default\<close> branches see them.
\<close>

section \<open>Enumerations\<close>

datatype CheatVmOpcodeType =
    OpStoreStatic | OpBeginConditionalBlock | OpEndConditionalBlock | OpControlLoop
  | OpLoadRegisterStatic | OpLoadRegisterMemory | OpStoreStaticToAddress
  | OpPerformArithmeticStatic | OpBeginKeypressConditionalBlock
  | OpPerformArithmeticRegister | OpStoreRegisterToAddress
  | OpBeginRegisterConditionalBlock | OpSaveRestoreRegister | OpSaveRestoreRegisterMask
  | OpReadWriteStaticRegister | OpPauseProcess | OpResumeProcess | OpDebugLog
  | OpUnrecognized u32

definition CheatVmOpcodeType_of :: "u32 \<Rightarrow> CheatVmOpcodeType" where
  "CheatVmOpcodeType_of n =
     (if n = 0 then OpStoreStatic
      else if n = 1 then OpBeginConditionalBlock
      else if n = 2 then OpEndConditionalBlock
      else if n = 3 then OpControlLoop
      else if n = 4 then OpLoadRegisterStatic
      else if n = 5 then OpLoadRegisterMemory
      else if n = 6 then OpStoreStaticToAddress
      else if n = 7 then OpPerformArithmeticStatic
      else if n = 8 then OpBeginKeypressConditionalBlock
      else if n = 9 then OpPerformArithmeticRegister
      else if n = 10 then OpStoreRegisterToAddress
      else if n = 0xC0 then OpBeginRegisterConditionalBlock
      else if n = 0xC1 then OpSaveRestoreRegister
      else if n = 0xC2 then OpSaveRestoreRegisterMask
      else if n = 0xC3 then OpReadWriteStaticRegister
      else if n = 0xFF0 then OpPauseProcess
      else if n = 0xFF1 then OpResumeProcess
      else if n = 0xFFF then OpDebugLog
      else OpUnrecognized n)"

datatype MemoryAccessType = MainNso | Heap | Alias | Aslr | MemoryAccessOther u32

definition MemoryAccessType_of :: "u32 \<Rightarrow> MemoryAccessType" where
  "MemoryAccessType_of n =
     (if n = 0 then MainNso else if n = 1 then Heap else if n = 2 then Alias
      else if n = 3 then Aslr else MemoryAccessOther n)"

datatype ConditionalComparisonType =
  CondGT | CondGE | CondLT | CondLE | CondEQ | CondNE | CondOther u32

definition ConditionalComparisonType_of :: "u32 \<Rightarrow> ConditionalComparisonType" where
  "ConditionalComparisonType_of n =
     (if n = 1 then CondGT else if n = 2 then CondGE else if n = 3 then CondLT
      else if n = 4 then CondLE else if n = 5 then CondEQ else if n = 6 then CondNE
      else CondOther n)"

datatype RegisterArithmeticType =
    Addition | Subtraction | Multiplication | LeftShift | RightShift
  | LogicalAnd | LogicalOr | LogicalNot | LogicalXor | ArithNone | ArithOther u32

definition RegisterArithmeticType_of :: "u32 \<Rightarrow> RegisterArithmeticType" where
  "RegisterArithmeticType_of n =
     (if n = 0 then Addition else if n = 1 then Subtraction else if n = 2 then Multiplication
      else if n = 3 then LeftShift else if n = 4 then RightShift else if n = 5 then LogicalAnd
      else if n = 6 then LogicalOr else if n = 7 then LogicalNot else if n = 8 then LogicalXor
      else if n = 9 then ArithNone else ArithOther n)"

datatype SaveRestoreRegisterOpType =
  SrRestore | SrSave | SrClearSaved | SrClearRegs | SrOther u32

definition SaveRestoreRegisterOpType_of :: "u32 \<Rightarrow> SaveRestoreRegisterOpType" where
  "SaveRestoreRegisterOpType_of n =
     (if n = 0 then SrRestore else if n = 1 then SrSave else if n = 2 then SrClearSaved
      else if n = 3 then SrClearRegs else SrOther n)"

section \<open>Operands and opcodes\<close>

text \<open>\<^verbatim>\<open>StoreRegisterOffsetType\<close> with the operands that each kind reads.\<close>

datatype StoreRegisterOffset =
    OfsNone
  | OfsReg u32
  | OfsImm u64
  | OfsMemReg MemoryAccessType
  | OfsMemImm MemoryAccessType u64
  | OfsMemImmReg MemoryAccessType u64

text \<open>\<^verbatim>\<open>CompareRegisterValueType\<close> with the operands that each kind reads.\<close>

datatype CompareRegisterValue =
    CmpMemoryRelAddr MemoryAccessType u64
  | CmpMemoryOfsReg MemoryAccessType u32
  | CmpRegisterRelAddr u32 u64
  | CmpRegisterOfsReg u32 u32
  | CmpStaticValue u64
  | CmpOtherRegister u32
  | CmpOther u32

text \<open>\<^verbatim>\<open>DebugLogValueType\<close> with the operands that each kind reads.\<close>

datatype DebugLogValue =
    LogMemoryRelAddr MemoryAccessType u64
  | LogMemoryOfsReg MemoryAccessType u32
  | LogRegisterRelAddr u32 u64
  | LogRegisterOfsReg u32 u32
  | LogRegisterValue u32
  | LogOther u32

text \<open>
  One constructor per opcode structure. The fields come in the order of the
  structure's declaration; register indices are the \<^verbatim>\<open>u32\<close> values the decoder
  extracts. A \<^verbatim>\<open>VmInt\<close> is the zero-extended value of the union member that the
  opcode's own bit width selects, which is the only member ever read back.
\<close>

datatype CheatVmOpcode =
    StoreStatic u32 MemoryAccessType u32 u64 u64
      \<comment> \<open>bit_width, mem_type, offset_register, rel_address, value\<close>
  | BeginConditionalBlock u32 MemoryAccessType ConditionalComparisonType u64 u64
      \<comment> \<open>bit_width, mem_type, cond_type, rel_address, value\<close>
  | EndConditionalBlock bool
      \<comment> \<open>is_else\<close>
  | StartLoop u32 u32
      \<comment> \<open>ControlLoop with start_loop: reg_index, num_iters\<close>
  | EndLoop u32
      \<comment> \<open>ControlLoop without start_loop: reg_index\<close>
  | LoadRegisterStatic u32 u64
      \<comment> \<open>reg_index, value\<close>
  | LoadRegisterMemory u32 MemoryAccessType u32 bool u64
      \<comment> \<open>bit_width, mem_type, reg_index, load_from_reg, rel_address\<close>
  | StoreStaticToAddress u32 u32 bool bool u32 u64
      \<comment> \<open>bit_width, reg_index, increment_reg, add_offset_reg, offset_reg_index, value\<close>
  | PerformArithmeticStatic u32 u32 RegisterArithmeticType u32
      \<comment> \<open>bit_width, reg_index, math_type, value\<close>
  | BeginKeypressConditionalBlock u32
      \<comment> \<open>key_mask\<close>
  | PerformArithmeticRegister u32 RegisterArithmeticType u32 u32 "u32 + u64"
      \<comment> \<open>bit_width, math_type, dst_reg_index, src_reg_1_index,
        and src_reg_2_index or the immediate\<close>
  | StoreRegisterToAddress u32 u32 u32 bool StoreRegisterOffset
      \<comment> \<open>bit_width, str_reg_index, addr_reg_index, increment_reg, offset\<close>
  | BeginRegisterConditionalBlock u32 ConditionalComparisonType u32 CompareRegisterValue
      \<comment> \<open>bit_width, cond_type, val_reg_index, operand\<close>
  | SaveRestoreRegister u32 u32 SaveRestoreRegisterOpType
      \<comment> \<open>dst_index, src_index, op_type\<close>
  | SaveRestoreRegisterMask SaveRestoreRegisterOpType "bool list"
      \<comment> \<open>op_type, should_operate\<close>
  | ReadWriteStaticRegister u32 u32
      \<comment> \<open>static_idx, idx\<close>
  | PauseProcess
  | ResumeProcess
  | DebugLog u32 u32 DebugLogValue
      \<comment> \<open>bit_width, log_id, operand\<close>

text \<open>The flag \<^verbatim>\<open>begin_conditional_block\<close> that the decoder stores in the opcode.\<close>

fun begin_conditional_block :: "CheatVmOpcode \<Rightarrow> bool" where
  "begin_conditional_block (BeginConditionalBlock _ _ _ _ _) = True"
| "begin_conditional_block (BeginKeypressConditionalBlock _) = True"
| "begin_conditional_block (BeginRegisterConditionalBlock _ _ _ _) = True"
| "begin_conditional_block _ = False"

section \<open>The machine\<close>

text \<open>
  The members of \<^verbatim>\<open>CheatVirtualMachine\<close>. The counters of type \<^verbatim>\<open>size_t\<close> are natural
  numbers: the instruction pointer and the loop tops never pass the program size, and
  the condition depth grows by one per executed instruction.
\<close>

record CheatVirtualMachine =
  m_num_opcodes :: nat
  m_instruction_ptr :: nat
  m_condition_depth :: nat
  m_decode_success :: bool
  m_program :: "u32 list"
  m_registers :: "u64 list"
  m_saved_values :: "u64 list"
  m_static_registers :: "u64 list"
  m_loop_tops :: "nat list"

definition MaximumProgramOpcodeCount :: nat where
  "MaximumProgramOpcodeCount = 0x400"

definition NumRegisters :: nat where
  "NumRegisters = 0x10"

definition NumReadableStaticRegisters :: nat where
  "NumReadableStaticRegisters = 0x80"

definition NumWritableStaticRegisters :: nat where
  "NumWritableStaticRegisters = 0x80"

definition NumStaticRegisters :: nat where
  "NumStaticRegisters = NumReadableStaticRegisters + NumWritableStaticRegisters"

lemmas vm_sizes = MaximumProgramOpcodeCount_def NumRegisters_def NumReadableStaticRegisters_def
  NumWritableStaticRegisters_def NumStaticRegisters_def

section \<open>Reading dwords\<close>

text \<open>
  The decoder's local state: the instruction pointer and the flag \<open>valid\<close>. A read past
  the end clears the flag, yields zero and leaves the pointer alone.
\<close>

type_synonym decoder = "nat \<times> bool"

definition GetNextDword :: "CheatVirtualMachine \<Rightarrow> decoder \<Rightarrow> u32 \<times> decoder" where
  "GetNextDword vm d =
     (case d of (ip, valid) \<Rightarrow>
        if m_num_opcodes vm \<le> ip then (0, (ip, False))
        else (m_program vm ! ip, (Suc ip, valid)))"

text \<open>Two consecutive dwords as \<^verbatim>\<open>((u64)first << 32) | (u64)second\<close>.\<close>

definition join_dwords :: "u32 \<Rightarrow> u32 \<Rightarrow> u64" where
  "join_dwords hi lo = push_bit 32 (ucast hi) OR ucast lo"

definition GetNextVmInt :: "CheatVirtualMachine \<Rightarrow> u32 \<Rightarrow> decoder \<Rightarrow> u64 \<times> decoder" where
  "GetNextVmInt vm bit_width d =
     (let (first_dword, d1) = GetNextDword vm d in
      if bit_width = 1 then (ucast (ucast first_dword :: u8), d1)
      else if bit_width = 2 then (ucast (ucast first_dword :: u16), d1)
      else if bit_width = 4 then (ucast first_dword, d1)
      else if bit_width = 8 then
        (let (second_dword, d2) = GetNextDword vm d1
         in (join_dwords first_dword second_dword, d2))
      else (0, d1))"

definition GetNextQword :: "CheatVirtualMachine \<Rightarrow> decoder \<Rightarrow> u64 \<times> decoder" where
  "GetNextQword vm d =
     (let (hi, d1) = GetNextDword vm d; (lo, d2) = GetNextDword vm d1
      in (join_dwords hi lo, d2))"

section \<open>One decoder per opcode\<close>

type_synonym opcode_decoder =
  "CheatVirtualMachine \<Rightarrow> u32 \<Rightarrow> decoder \<Rightarrow> CheatVmOpcode \<times> decoder"

definition decode_StoreStatic :: opcode_decoder where
  "decode_StoreStatic vm fd d =
     (let (second_dword, d1) = GetNextDword vm d;
          bit_width = nybble fd 24;
          (value, d2) = GetNextVmInt vm bit_width d1
      in (StoreStatic bit_width (MemoryAccessType_of (nybble fd 20)) (nybble fd 16)
            (join_dwords (fd AND 0xFF) second_dword) value, d2))"

definition decode_BeginConditional :: opcode_decoder where
  "decode_BeginConditional vm fd d =
     (let (second_dword, d1) = GetNextDword vm d;
          bit_width = nybble fd 24;
          (value, d2) = GetNextVmInt vm bit_width d1
      in (BeginConditionalBlock bit_width (MemoryAccessType_of (nybble fd 20))
            (ConditionalComparisonType_of (nybble fd 16))
            (join_dwords (fd AND 0xFF) second_dword) value, d2))"

definition decode_EndConditional :: opcode_decoder where
  "decode_EndConditional vm fd d = (EndConditionalBlock (nybble fd 24 = 1), d)"

definition decode_ControlLoop :: opcode_decoder where
  "decode_ControlLoop vm fd d =
     (if nybble fd 24 = 0
      then (let (num_iters, d1) = GetNextDword vm d in (StartLoop (nybble fd 16) num_iters, d1))
      else (EndLoop (nybble fd 16), d))"

definition decode_LoadRegisterStatic :: opcode_decoder where
  "decode_LoadRegisterStatic vm fd d =
     (let (value, d1) = GetNextQword vm d in (LoadRegisterStatic (nybble fd 16) value, d1))"

definition decode_LoadRegisterMemory :: opcode_decoder where
  "decode_LoadRegisterMemory vm fd d =
     (let (second_dword, d1) = GetNextDword vm d
      in (LoadRegisterMemory (nybble fd 24) (MemoryAccessType_of (nybble fd 20)) (nybble fd 16)
            (nybble fd 12 \<noteq> 0) (join_dwords (fd AND 0xFF) second_dword), d1))"

definition decode_StoreStaticToAddress :: opcode_decoder where
  "decode_StoreStaticToAddress vm fd d =
     (let (value, d1) = GetNextQword vm d
      in (StoreStaticToAddress (nybble fd 24) (nybble fd 16) (nybble fd 12 \<noteq> 0)
            (nybble fd 8 \<noteq> 0) (nybble fd 4) value, d1))"

definition decode_PerformArithmeticStatic :: opcode_decoder where
  "decode_PerformArithmeticStatic vm fd d =
     (let (value, d1) = GetNextDword vm d
      in (PerformArithmeticStatic (nybble fd 24) (nybble fd 16)
            (RegisterArithmeticType_of (nybble fd 12)) value, d1))"

definition decode_BeginKeypressConditional :: opcode_decoder where
  "decode_BeginKeypressConditional vm fd d =
     (BeginKeypressConditionalBlock (fd AND 0x0FFFFFFF), d)"

definition decode_PerformArithmeticRegister :: opcode_decoder where
  "decode_PerformArithmeticRegister vm fd d =
     (let bit_width = nybble fd 24;
          math_type = RegisterArithmeticType_of (nybble fd 20)
      in if nybble fd 8 \<noteq> 0
         then (let (value, d1) = GetNextVmInt vm bit_width d
               in (PerformArithmeticRegister bit_width math_type (nybble fd 16) (nybble fd 12)
                     (Inr value), d1))
         else (PerformArithmeticRegister bit_width math_type (nybble fd 16) (nybble fd 12)
                 (Inl (nybble fd 4)), d))"

definition decode_StoreRegisterOffset ::
    "CheatVirtualMachine \<Rightarrow> u32 \<Rightarrow> decoder \<Rightarrow> StoreRegisterOffset \<times> decoder" where
  "decode_StoreRegisterOffset vm fd d =
     (let ofs_type = nybble fd 8; mem_type = MemoryAccessType_of (nybble fd 4)
      in if ofs_type = 0 then (OfsNone, d)
         else if ofs_type = 1 then (OfsReg (nybble fd 4), d)
         else if ofs_type = 2 then
           (let (lo, d1) = GetNextDword vm d in (OfsImm (join_dwords (fd AND 0xF) lo), d1))
         else if ofs_type = 3 then (OfsMemReg mem_type, d)
         else if ofs_type = 4 then
           (let (lo, d1) = GetNextDword vm d
            in (OfsMemImm mem_type (join_dwords (fd AND 0xF) lo), d1))
         else if ofs_type = 5 then
           (let (lo, d1) = GetNextDword vm d
            in (OfsMemImmReg mem_type (join_dwords (fd AND 0xF) lo), d1))
         else (OfsNone, d))"

definition decode_StoreRegisterToAddress :: opcode_decoder where
  "decode_StoreRegisterToAddress vm fd d =
     (let (ofs, d1) = decode_StoreRegisterOffset vm fd d
      in (StoreRegisterToAddress (nybble fd 24) (nybble fd 20) (nybble fd 16)
            (nybble fd 12 \<noteq> 0) ofs, d1))"

definition decode_CompareRegisterValue ::
    "CheatVirtualMachine \<Rightarrow> u32 \<Rightarrow> u32 \<Rightarrow> decoder \<Rightarrow> CompareRegisterValue \<times> decoder" where
  "decode_CompareRegisterValue vm bit_width fd d =
     (let comp_type = nybble fd 8; mem_type = MemoryAccessType_of (nybble fd 4)
      in if comp_type = 4 then
           (let (value, d1) = GetNextVmInt vm bit_width d in (CmpStaticValue value, d1))
         else if comp_type = 5 then (CmpOtherRegister (nybble fd 4), d)
         else if comp_type = 0 then
           (let (lo, d1) = GetNextDword vm d
            in (CmpMemoryRelAddr mem_type (join_dwords (fd AND 0xF) lo), d1))
         else if comp_type = 1 then (CmpMemoryOfsReg mem_type (nybble fd 0), d)
         else if comp_type = 2 then
           (let (lo, d1) = GetNextDword vm d
            in (CmpRegisterRelAddr (nybble fd 4) (join_dwords (fd AND 0xF) lo), d1))
         else if comp_type = 3 then (CmpRegisterOfsReg (nybble fd 4) (nybble fd 0), d)
         else (CmpOther comp_type, d))"

definition decode_BeginRegisterConditional :: opcode_decoder where
  "decode_BeginRegisterConditional vm fd d =
     (let bit_width = nybble fd 20;
          (operand, d1) = decode_CompareRegisterValue vm bit_width fd d
      in (BeginRegisterConditionalBlock bit_width (ConditionalComparisonType_of (nybble fd 16))
            (nybble fd 12) operand, d1))"

definition decode_SaveRestoreRegister :: opcode_decoder where
  "decode_SaveRestoreRegister vm fd d =
     (SaveRestoreRegister (nybble fd 16) (nybble fd 8)
        (SaveRestoreRegisterOpType_of (nybble fd 4)), d)"

definition decode_SaveRestoreRegisterMask :: opcode_decoder where
  "decode_SaveRestoreRegisterMask vm fd d =
     (SaveRestoreRegisterMask (SaveRestoreRegisterOpType_of (nybble fd 20))
        (map (\<lambda>i. fd AND push_bit i 1 \<noteq> 0) [0..<NumRegisters]), d)"

definition decode_ReadWriteStaticRegister :: opcode_decoder where
  "decode_ReadWriteStaticRegister vm fd d =
     (ReadWriteStaticRegister (drop_bit 4 fd AND 0xFF) (nybble fd 0), d)"

definition decode_DebugLogValue ::
    "CheatVirtualMachine \<Rightarrow> u32 \<Rightarrow> decoder \<Rightarrow> DebugLogValue \<times> decoder" where
  "decode_DebugLogValue vm fd d =
     (let val_type = nybble fd 8; mem_type = MemoryAccessType_of (nybble fd 4)
      in if val_type = 4 then (LogRegisterValue (nybble fd 4), d)
         else if val_type = 0 then
           (let (lo, d1) = GetNextDword vm d
            in (LogMemoryRelAddr mem_type (join_dwords (fd AND 0xF) lo), d1))
         else if val_type = 1 then (LogMemoryOfsReg mem_type (nybble fd 0), d)
         else if val_type = 2 then
           (let (lo, d1) = GetNextDword vm d
            in (LogRegisterRelAddr (nybble fd 4) (join_dwords (fd AND 0xF) lo), d1))
         else if val_type = 3 then (LogRegisterOfsReg (nybble fd 4) (nybble fd 0), d)
         else (LogOther val_type, d))"

definition decode_DebugLog :: opcode_decoder where
  "decode_DebugLog vm fd d =
     (let (operand, d1) = decode_DebugLogValue vm fd d
      in (DebugLog (nybble fd 16) (nybble fd 12) operand, d1))"

section \<open>The decoder\<close>

text \<open>The opcode number: one, two or three leading nybbles of the first dword.\<close>

definition opcode_number :: "u32 \<Rightarrow> u32" where
  "opcode_number fd =
     (let op1 = nybble fd 28;
          op2 = (if 12 \<le> op1 then push_bit 4 op1 OR nybble fd 24 else op1)
      in if 0xF0 \<le> op2 then push_bit 4 op2 OR nybble fd 20 else op2)"

definition decode_opcode ::
    "CheatVirtualMachine \<Rightarrow> u32 \<Rightarrow> decoder \<Rightarrow> CheatVmOpcode option \<times> decoder" where
  "decode_opcode vm fd d =
     (let some = (\<lambda>(op, d'). (Some op, d'))
      in case CheatVmOpcodeType_of (opcode_number fd) of
        OpStoreStatic \<Rightarrow> some (decode_StoreStatic vm fd d)
      | OpBeginConditionalBlock \<Rightarrow> some (decode_BeginConditional vm fd d)
      | OpEndConditionalBlock \<Rightarrow> some (decode_EndConditional vm fd d)
      | OpControlLoop \<Rightarrow> some (decode_ControlLoop vm fd d)
      | OpLoadRegisterStatic \<Rightarrow> some (decode_LoadRegisterStatic vm fd d)
      | OpLoadRegisterMemory \<Rightarrow> some (decode_LoadRegisterMemory vm fd d)
      | OpStoreStaticToAddress \<Rightarrow> some (decode_StoreStaticToAddress vm fd d)
      | OpPerformArithmeticStatic \<Rightarrow> some (decode_PerformArithmeticStatic vm fd d)
      | OpBeginKeypressConditionalBlock \<Rightarrow> some (decode_BeginKeypressConditional vm fd d)
      | OpPerformArithmeticRegister \<Rightarrow> some (decode_PerformArithmeticRegister vm fd d)
      | OpStoreRegisterToAddress \<Rightarrow> some (decode_StoreRegisterToAddress vm fd d)
      | OpBeginRegisterConditionalBlock \<Rightarrow> some (decode_BeginRegisterConditional vm fd d)
      | OpSaveRestoreRegister \<Rightarrow> some (decode_SaveRestoreRegister vm fd d)
      | OpSaveRestoreRegisterMask \<Rightarrow> some (decode_SaveRestoreRegisterMask vm fd d)
      | OpReadWriteStaticRegister \<Rightarrow> some (decode_ReadWriteStaticRegister vm fd d)
      | OpPauseProcess \<Rightarrow> (Some PauseProcess, d)
      | OpResumeProcess \<Rightarrow> (Some ResumeProcess, d)
      | OpDebugLog \<Rightarrow> some (decode_DebugLog vm fd d)
      | OpUnrecognized _ \<Rightarrow> (None, (fst d, False)))"

text \<open>
  The whole function: the opcode is returned only when every read stayed in bounds, the
  opcode is known and no earlier decode failed; the failure flag is sticky.
\<close>

definition DecodeNextOpcode ::
    "CheatVirtualMachine \<Rightarrow> CheatVmOpcode option \<times> CheatVirtualMachine" where
  "DecodeNextOpcode vm =
     (let (fd, d) = GetNextDword vm (m_instruction_ptr vm, m_decode_success vm)
      in if \<not> snd d
         then (None, vm\<lparr>m_instruction_ptr := fst d, m_decode_success := False\<rparr>)
         else (let (op, d') = decode_opcode vm fd d
               in (if snd d' then op else None,
                   vm\<lparr>m_instruction_ptr := fst d',
                      m_decode_success := (m_decode_success vm \<and> snd d')\<rparr>)))"

section \<open>Bounds and progress\<close>

text \<open>
  What every read keeps: the pointer only grows and stays within the program, and a
  cleared flag stays cleared.
\<close>

definition dec_step :: "CheatVirtualMachine \<Rightarrow> decoder \<Rightarrow> decoder \<Rightarrow> bool" where
  "dec_step vm d d' \<longleftrightarrow>
     fst d \<le> fst d' \<and> (fst d \<le> m_num_opcodes vm \<longrightarrow> fst d' \<le> m_num_opcodes vm) \<and>
     (snd d' \<longrightarrow> snd d)"

lemma dec_step_refl [simp]: "dec_step vm d d"
  by (simp add: dec_step_def)

lemma dec_step_trans: "dec_step vm d1 d2 \<Longrightarrow> dec_step vm d2 d3 \<Longrightarrow> dec_step vm d1 d3"
  by (auto simp: dec_step_def)

lemma GetNextDword_step: "dec_step vm d (snd (GetNextDword vm d))"
  by (auto simp: GetNextDword_def dec_step_def split: prod.splits)

lemma GetNextDword_stepD: "GetNextDword vm d = (w, d') \<Longrightarrow> dec_step vm d d'"
  using GetNextDword_step [of vm d] by simp

lemma GetNextVmInt_stepD: "GetNextVmInt vm bw d = (v, d') \<Longrightarrow> dec_step vm d d'"
  by (auto simp: GetNextVmInt_def split: prod.splits if_splits
      dest!: GetNextDword_stepD intro: dec_step_trans)

lemma GetNextQword_stepD: "GetNextQword vm d = (v, d') \<Longrightarrow> dec_step vm d d'"
  by (auto simp: GetNextQword_def split: prod.splits
      dest!: GetNextDword_stepD intro: dec_step_trans)

lemmas dword_stepD = GetNextDword_stepD GetNextVmInt_stepD GetNextQword_stepD

lemmas opcode_decoder_defs =
  decode_StoreStatic_def decode_BeginConditional_def decode_EndConditional_def
  decode_ControlLoop_def decode_LoadRegisterStatic_def decode_LoadRegisterMemory_def
  decode_StoreStaticToAddress_def decode_PerformArithmeticStatic_def
  decode_BeginKeypressConditional_def decode_PerformArithmeticRegister_def
  decode_StoreRegisterOffset_def decode_StoreRegisterToAddress_def
  decode_CompareRegisterValue_def decode_BeginRegisterConditional_def
  decode_SaveRestoreRegister_def decode_SaveRestoreRegisterMask_def
  decode_ReadWriteStaticRegister_def decode_DebugLogValue_def decode_DebugLog_def

text \<open>The register indices an opcode carries are in range of the arrays they index.\<close>

abbreviation reg_ok :: "u32 \<Rightarrow> bool" where
  "reg_ok r \<equiv> unat r < NumRegisters"

fun wf_offset :: "StoreRegisterOffset \<Rightarrow> bool" where
  "wf_offset (OfsReg r) = reg_ok r"
| "wf_offset _ = True"

fun wf_compare :: "CompareRegisterValue \<Rightarrow> bool" where
  "wf_compare (CmpMemoryOfsReg _ r) = reg_ok r"
| "wf_compare (CmpRegisterRelAddr r _) = reg_ok r"
| "wf_compare (CmpRegisterOfsReg r s) = (reg_ok r \<and> reg_ok s)"
| "wf_compare (CmpOtherRegister r) = reg_ok r"
| "wf_compare _ = True"

fun wf_log :: "DebugLogValue \<Rightarrow> bool" where
  "wf_log (LogMemoryOfsReg _ r) = reg_ok r"
| "wf_log (LogRegisterRelAddr r _) = reg_ok r"
| "wf_log (LogRegisterOfsReg r s) = (reg_ok r \<and> reg_ok s)"
| "wf_log (LogRegisterValue r) = reg_ok r"
| "wf_log _ = True"

fun wf_opcode :: "CheatVmOpcode \<Rightarrow> bool" where
  "wf_opcode (StoreStatic _ _ r _ _) = reg_ok r"
| "wf_opcode (StartLoop r _) = reg_ok r"
| "wf_opcode (EndLoop r) = reg_ok r"
| "wf_opcode (LoadRegisterStatic r _) = reg_ok r"
| "wf_opcode (LoadRegisterMemory _ _ r _ _) = reg_ok r"
| "wf_opcode (StoreStaticToAddress _ r _ _ s _) = (reg_ok r \<and> reg_ok s)"
| "wf_opcode (PerformArithmeticStatic _ r _ _) = reg_ok r"
| "wf_opcode (PerformArithmeticRegister _ _ r s t) =
     (reg_ok r \<and> reg_ok s \<and> (case t of Inl u \<Rightarrow> reg_ok u | Inr _ \<Rightarrow> True))"
| "wf_opcode (StoreRegisterToAddress _ r s _ ofs) = (reg_ok r \<and> reg_ok s \<and> wf_offset ofs)"
| "wf_opcode (BeginRegisterConditionalBlock _ _ r v) = (reg_ok r \<and> wf_compare v)"
| "wf_opcode (SaveRestoreRegister r s _) = (reg_ok r \<and> reg_ok s)"
| "wf_opcode (SaveRestoreRegisterMask _ bs) = (length bs = NumRegisters)"
| "wf_opcode (ReadWriteStaticRegister s r) = (unat s < NumStaticRegisters \<and> reg_ok r)"
| "wf_opcode (DebugLog _ _ v) = wf_log v"
| "wf_opcode _ = True"

lemma static_index_less: "unat (drop_bit 4 fd AND 0xFF :: u32) < 256"
proof -
  have "(0xFF :: u32) = mask 8"
    by (simp add: mask_eq_exp_minus_1)
  from word_and_mask_bound [OF this, of "drop_bit 4 fd"] show ?thesis
    by simp
qed

lemma decode_opcode_step:
  "decode_opcode vm fd d = (op, d') \<Longrightarrow> dec_step vm d d'"
  by (auto simp: decode_opcode_def Let_def opcode_decoder_defs
      split: CheatVmOpcodeType.splits prod.splits if_splits
      dest!: dword_stepD intro: dec_step_trans simp: dec_step_def)

lemma decode_opcode_wf:
  "decode_opcode vm fd d = (Some op, d') \<Longrightarrow> wf_opcode op"
  by (auto simp: decode_opcode_def Let_def opcode_decoder_defs vm_sizes static_index_less
      split: CheatVmOpcodeType.splits prod.splits if_splits)

lemma DecodeNextOpcode_Some:
  assumes "DecodeNextOpcode vm = (Some op, vm')"
  shows "m_decode_success vm"
    and "m_instruction_ptr vm < m_instruction_ptr vm'"
    and "m_instruction_ptr vm' \<le> m_num_opcodes vm"
    and "wf_opcode op"
    and "vm' = vm\<lparr>m_instruction_ptr := m_instruction_ptr vm'\<rparr>"
proof -
  obtain fd d where fd: "GetNextDword vm (m_instruction_ptr vm, m_decode_success vm) = (fd, d)"
    by (cases "GetNextDword vm (m_instruction_ptr vm, m_decode_success vm)")
  obtain op' d' where d': "decode_opcode vm fd d = (op', d')"
    by (cases "decode_opcode vm fd d")
  from assms fd d' have valid: "snd d" "snd d'" "op' = Some op"
    and vm': "vm' = vm\<lparr>m_instruction_ptr := fst d', m_decode_success := m_decode_success vm\<rparr>"
    by (auto simp: DecodeNextOpcode_def split: if_splits)
  from fd valid have ip: "m_instruction_ptr vm < m_num_opcodes vm"
    and d: "d = (Suc (m_instruction_ptr vm), m_decode_success vm)"
    by (auto simp: GetNextDword_def split: if_splits)
  show "m_decode_success vm"
    using d valid by simp
  from decode_opcode_step [OF d'] have "fst d \<le> fst d'" "fst d' \<le> m_num_opcodes vm"
    using d ip by (auto simp: dec_step_def)
  then show "m_instruction_ptr vm < m_instruction_ptr vm'"
    and "m_instruction_ptr vm' \<le> m_num_opcodes vm"
    using d vm' by auto
  show "wf_opcode op"
    using decode_opcode_wf d' valid by simp
  show "vm' = vm\<lparr>m_instruction_ptr := m_instruction_ptr vm'\<rparr>"
    using vm' by simp
qed

lemma DecodeNextOpcode_None:
  assumes "DecodeNextOpcode vm = (None, vm')"
  shows "\<not> m_decode_success vm'"
    and "m_instruction_ptr vm \<le> m_instruction_ptr vm'"
    and "m_instruction_ptr vm \<le> m_num_opcodes vm \<Longrightarrow> m_instruction_ptr vm' \<le> m_num_opcodes vm"
    and "vm' = vm\<lparr>m_instruction_ptr := m_instruction_ptr vm', m_decode_success := False\<rparr>"
proof -
  obtain fd d where fd: "GetNextDword vm (m_instruction_ptr vm, m_decode_success vm) = (fd, d)"
    by (cases "GetNextDword vm (m_instruction_ptr vm, m_decode_success vm)")
  obtain op' d' where d': "decode_opcode vm fd d = (op', d')"
    by (cases "decode_opcode vm fd d")
  have none: "op' = None \<Longrightarrow> \<not> snd d'"
    using d' by (auto simp: decode_opcode_def Let_def split: CheatVmOpcodeType.splits prod.splits)
  have s1: "dec_step vm (m_instruction_ptr vm, m_decode_success vm) d"
    using fd by (rule GetNextDword_stepD)
  note s2 = dec_step_trans [OF s1 decode_opcode_step [OF d']]
  show "\<not> m_decode_success vm'"
    using assms fd d' none by (auto simp: DecodeNextOpcode_def split: if_splits)
  show "m_instruction_ptr vm \<le> m_instruction_ptr vm'"
    using assms fd d' s1 s2 by (auto simp: DecodeNextOpcode_def dec_step_def split: if_splits)
  show "m_instruction_ptr vm \<le> m_num_opcodes vm \<Longrightarrow> m_instruction_ptr vm' \<le> m_num_opcodes vm"
    using assms fd d' s1 s2 by (auto simp: DecodeNextOpcode_def dec_step_def split: if_splits)
  show "vm' = vm\<lparr>m_instruction_ptr := m_instruction_ptr vm', m_decode_success := False\<rparr>"
    using assms fd d' none by (auto simp: DecodeNextOpcode_def split: if_splits)
qed

section \<open>The documented encoding\<close>

text \<open>
  An assembler for the instruction formats of \<^verbatim>\<open>docs/features/cheats.md\<close>. It is the
  specification the decoder is compared with: eight nybbles \<open>a b c d e f\<close> and a low
  byte make the first dword, as in \<^verbatim>\<open>0TMR00AA\<close>.
\<close>

definition dword :: "u32 \<Rightarrow> u32 \<Rightarrow> u32 \<Rightarrow> u32 \<Rightarrow> u32 \<Rightarrow> u32 \<Rightarrow> u32 \<Rightarrow> u32" where
  "dword a b c d e f lo = (((((a * 16 + b) * 16 + c) * 16 + d) * 16 + e) * 16 + f) * 256 + lo"

definition mask_dword :: "u32 \<Rightarrow> bool list \<Rightarrow> u32" where
  "mask_dword x bs = (0xC200 + 16 * x) * 0x10000 + horner_sum of_bool 2 bs"

definition hi32 :: "u64 \<Rightarrow> u32" where
  "hi32 v = ucast (drop_bit 32 v)"

definition lo32 :: "u64 \<Rightarrow> u32" where
  "lo32 v = ucast v"

fun MemoryAccessType_num :: "MemoryAccessType \<Rightarrow> u32" where
  "MemoryAccessType_num MainNso = 0"
| "MemoryAccessType_num Heap = 1"
| "MemoryAccessType_num Alias = 2"
| "MemoryAccessType_num Aslr = 3"
| "MemoryAccessType_num (MemoryAccessOther n) = n"

fun ConditionalComparisonType_num :: "ConditionalComparisonType \<Rightarrow> u32" where
  "ConditionalComparisonType_num CondGT = 1"
| "ConditionalComparisonType_num CondGE = 2"
| "ConditionalComparisonType_num CondLT = 3"
| "ConditionalComparisonType_num CondLE = 4"
| "ConditionalComparisonType_num CondEQ = 5"
| "ConditionalComparisonType_num CondNE = 6"
| "ConditionalComparisonType_num (CondOther n) = n"

fun RegisterArithmeticType_num :: "RegisterArithmeticType \<Rightarrow> u32" where
  "RegisterArithmeticType_num Addition = 0"
| "RegisterArithmeticType_num Subtraction = 1"
| "RegisterArithmeticType_num Multiplication = 2"
| "RegisterArithmeticType_num LeftShift = 3"
| "RegisterArithmeticType_num RightShift = 4"
| "RegisterArithmeticType_num LogicalAnd = 5"
| "RegisterArithmeticType_num LogicalOr = 6"
| "RegisterArithmeticType_num LogicalNot = 7"
| "RegisterArithmeticType_num LogicalXor = 8"
| "RegisterArithmeticType_num ArithNone = 9"
| "RegisterArithmeticType_num (ArithOther n) = n"

fun SaveRestoreRegisterOpType_num :: "SaveRestoreRegisterOpType \<Rightarrow> u32" where
  "SaveRestoreRegisterOpType_num SrRestore = 0"
| "SaveRestoreRegisterOpType_num SrSave = 1"
| "SaveRestoreRegisterOpType_num SrClearSaved = 2"
| "SaveRestoreRegisterOpType_num SrClearRegs = 3"
| "SaveRestoreRegisterOpType_num (SrOther n) = n"

definition encode_vmint :: "u32 \<Rightarrow> u64 \<Rightarrow> u32 list" where
  "encode_vmint bw v = (if bw = 8 then [hi32 v, lo32 v] else [lo32 v])"

fun encode_opcode :: "CheatVmOpcode \<Rightarrow> u32 list" where
  "encode_opcode (StoreStatic bw mt r rel v) =
     dword 0 bw (MemoryAccessType_num mt) r 0 0 (hi32 rel) # lo32 rel # encode_vmint bw v"
| "encode_opcode (BeginConditionalBlock bw mt c rel v) =
     dword 1 bw (MemoryAccessType_num mt) (ConditionalComparisonType_num c) 0 0 (hi32 rel)
       # lo32 rel # encode_vmint bw v"
| "encode_opcode (EndConditionalBlock is_else) = [dword 2 (of_bool is_else) 0 0 0 0 0]"
| "encode_opcode (StartLoop r n) = [dword 3 0 0 r 0 0 0, n]"
| "encode_opcode (EndLoop r) = [dword 3 1 0 r 0 0 0]"
| "encode_opcode (LoadRegisterStatic r v) = [dword 4 0 0 r 0 0 0, hi32 v, lo32 v]"
| "encode_opcode (LoadRegisterMemory bw mt r from_reg rel) =
     [dword 5 bw (MemoryAccessType_num mt) r (of_bool from_reg) 0 (hi32 rel), lo32 rel]"
| "encode_opcode (StoreStaticToAddress bw r inc add_ofs s v) =
     [dword 6 bw 0 r (of_bool inc) (of_bool add_ofs) (16 * s), hi32 v, lo32 v]"
| "encode_opcode (PerformArithmeticStatic bw r m v) =
     [dword 7 bw 0 r (RegisterArithmeticType_num m) 0 0, v]"
| "encode_opcode (BeginKeypressConditionalBlock k) = [0x80000000 + k]"
| "encode_opcode (PerformArithmeticRegister bw m r s (Inl t)) =
     [dword 9 bw (RegisterArithmeticType_num m) r s 0 (16 * t)]"
| "encode_opcode (PerformArithmeticRegister bw m r s (Inr v)) =
     dword 9 bw (RegisterArithmeticType_num m) r s 1 0 # encode_vmint bw v"
| "encode_opcode (StoreRegisterToAddress bw s r inc ofs) =
     (case ofs of
        OfsNone \<Rightarrow> [dword 10 bw s r (of_bool inc) 0 0]
      | OfsReg x \<Rightarrow> [dword 10 bw s r (of_bool inc) 1 (16 * x)]
      | OfsImm a \<Rightarrow> [dword 10 bw s r (of_bool inc) 2 (hi32 a), lo32 a]
      | OfsMemReg mt \<Rightarrow> [dword 10 bw s r (of_bool inc) 3 (16 * MemoryAccessType_num mt)]
      | OfsMemImm mt a \<Rightarrow>
          [dword 10 bw s r (of_bool inc) 4 (16 * MemoryAccessType_num mt + hi32 a), lo32 a]
      | OfsMemImmReg mt a \<Rightarrow>
          [dword 10 bw s r (of_bool inc) 5 (16 * MemoryAccessType_num mt + hi32 a), lo32 a])"
| "encode_opcode (BeginRegisterConditionalBlock bw c s v) =
     (let w = dword 0xC 0 bw (ConditionalComparisonType_num c) s
      in case v of
        CmpMemoryRelAddr mt a \<Rightarrow> [w 0 (16 * MemoryAccessType_num mt + hi32 a), lo32 a]
      | CmpMemoryOfsReg mt r \<Rightarrow> [w 1 (16 * MemoryAccessType_num mt + r)]
      | CmpRegisterRelAddr r a \<Rightarrow> [w 2 (16 * r + hi32 a), lo32 a]
      | CmpRegisterOfsReg r t \<Rightarrow> [w 3 (16 * r + t)]
      | CmpStaticValue x \<Rightarrow> w 4 0 # encode_vmint bw x
      | CmpOtherRegister r \<Rightarrow> [w 5 (16 * r)]
      | CmpOther n \<Rightarrow> [w n 0])"
| "encode_opcode (SaveRestoreRegister d s x) =
     [dword 0xC 1 0 d 0 s (16 * SaveRestoreRegisterOpType_num x)]"
| "encode_opcode (SaveRestoreRegisterMask x bs) =
     [mask_dword (SaveRestoreRegisterOpType_num x) bs]"
| "encode_opcode (ReadWriteStaticRegister s r) = [0xC3000000 + 16 * s + r]"
| "encode_opcode PauseProcess = [0xFF000000]"
| "encode_opcode ResumeProcess = [0xFF100000]"
| "encode_opcode (DebugLog bw i v) =
     (let w = dword 0xF 0xF 0xF bw i
      in case v of
        LogMemoryRelAddr mt a \<Rightarrow> [w 0 (16 * MemoryAccessType_num mt + hi32 a), lo32 a]
      | LogMemoryOfsReg mt r \<Rightarrow> [w 1 (16 * MemoryAccessType_num mt + r)]
      | LogRegisterRelAddr r a \<Rightarrow> [w 2 (16 * r + hi32 a), lo32 a]
      | LogRegisterOfsReg r t \<Rightarrow> [w 3 (16 * r + t)]
      | LogRegisterValue r \<Rightarrow> [w 4 (16 * r)]
      | LogOther n \<Rightarrow> [w n 0])"

text \<open>The values each format has room for.\<close>

abbreviation nyb :: "u32 \<Rightarrow> bool" where
  "nyb n \<equiv> unat n < 16"

definition mem_ok :: "MemoryAccessType \<Rightarrow> bool" where
  "mem_ok mt \<longleftrightarrow> (case mt of MemoryAccessOther n \<Rightarrow> 3 < unat n \<and> nyb n | _ \<Rightarrow> True)"

definition cond_ok :: "ConditionalComparisonType \<Rightarrow> bool" where
  "cond_ok c \<longleftrightarrow> (case c of CondOther n \<Rightarrow> (n = 0 \<or> 6 < unat n) \<and> nyb n | _ \<Rightarrow> True)"

definition arith_ok :: "RegisterArithmeticType \<Rightarrow> bool" where
  "arith_ok m \<longleftrightarrow> (case m of ArithOther n \<Rightarrow> 9 < unat n \<and> nyb n | _ \<Rightarrow> True)"

definition sr_ok :: "SaveRestoreRegisterOpType \<Rightarrow> bool" where
  "sr_ok x \<longleftrightarrow> (case x of SrOther n \<Rightarrow> 3 < unat n \<and> nyb n | _ \<Rightarrow> True)"

definition vmint_ok :: "u32 \<Rightarrow> u64 \<Rightarrow> bool" where
  "vmint_ok bw v \<longleftrightarrow>
     (if bw = 1 then unat v < 2 ^ 8 else if bw = 2 then unat v < 2 ^ 16
      else if bw = 4 then unat v < 2 ^ 32 else if bw = 8 then True else v = 0)"

definition addr40_ok :: "u64 \<Rightarrow> bool" where
  "addr40_ok a \<longleftrightarrow> unat a < 2 ^ 40"

definition addr36_ok :: "u64 \<Rightarrow> bool" where
  "addr36_ok a \<longleftrightarrow> unat a < 2 ^ 36"

fun encodable :: "CheatVmOpcode \<Rightarrow> bool" where
  "encodable (StoreStatic bw mt r rel v) =
     (nyb bw \<and> mem_ok mt \<and> nyb r \<and> addr40_ok rel \<and> vmint_ok bw v)"
| "encodable (BeginConditionalBlock bw mt c rel v) =
     (nyb bw \<and> mem_ok mt \<and> cond_ok c \<and> addr40_ok rel \<and> vmint_ok bw v)"
| "encodable (StartLoop r n) = nyb r"
| "encodable (EndLoop r) = nyb r"
| "encodable (LoadRegisterStatic r v) = nyb r"
| "encodable (LoadRegisterMemory bw mt r from_reg rel) =
     (nyb bw \<and> mem_ok mt \<and> nyb r \<and> addr40_ok rel)"
| "encodable (StoreStaticToAddress bw r inc add_ofs s v) = (nyb bw \<and> nyb r \<and> nyb s)"
| "encodable (PerformArithmeticStatic bw r m v) = (nyb bw \<and> nyb r \<and> arith_ok m)"
| "encodable (BeginKeypressConditionalBlock k) = (unat k < 2 ^ 28)"
| "encodable (PerformArithmeticRegister bw m r s t) =
     (nyb bw \<and> arith_ok m \<and> nyb r \<and> nyb s \<and> (case t of Inl u \<Rightarrow> nyb u | Inr v \<Rightarrow> vmint_ok bw v))"
| "encodable (StoreRegisterToAddress bw s r inc ofs) =
     (nyb bw \<and> nyb s \<and> nyb r \<and>
      (case ofs of OfsNone \<Rightarrow> True | OfsReg x \<Rightarrow> nyb x | OfsImm a \<Rightarrow> addr36_ok a
        | OfsMemReg mt \<Rightarrow> mem_ok mt | OfsMemImm mt a \<Rightarrow> mem_ok mt \<and> addr36_ok a
        | OfsMemImmReg mt a \<Rightarrow> mem_ok mt \<and> addr36_ok a))"
| "encodable (BeginRegisterConditionalBlock bw c s v) =
     (nyb bw \<and> cond_ok c \<and> nyb s \<and>
      (case v of CmpMemoryRelAddr mt a \<Rightarrow> mem_ok mt \<and> addr36_ok a
        | CmpMemoryOfsReg mt r \<Rightarrow> mem_ok mt \<and> nyb r
        | CmpRegisterRelAddr r a \<Rightarrow> nyb r \<and> addr36_ok a
        | CmpRegisterOfsReg r t \<Rightarrow> nyb r \<and> nyb t
        | CmpStaticValue x \<Rightarrow> vmint_ok bw x
        | CmpOtherRegister r \<Rightarrow> nyb r
        | CmpOther n \<Rightarrow> 5 < unat n \<and> nyb n))"
| "encodable (SaveRestoreRegister d s x) = (nyb d \<and> nyb s \<and> sr_ok x)"
| "encodable (SaveRestoreRegisterMask x bs) = (sr_ok x \<and> length bs = 16)"
| "encodable (ReadWriteStaticRegister s r) = (unat s < 256 \<and> nyb r)"
| "encodable (DebugLog bw i v) =
     (nyb bw \<and> nyb i \<and>
      (case v of LogMemoryRelAddr mt a \<Rightarrow> mem_ok mt \<and> addr36_ok a
        | LogMemoryOfsReg mt r \<Rightarrow> mem_ok mt \<and> nyb r
        | LogRegisterRelAddr r a \<Rightarrow> nyb r \<and> addr36_ok a
        | LogRegisterOfsReg r t \<Rightarrow> nyb r \<and> nyb t
        | LogRegisterValue r \<Rightarrow> nyb r
        | LogOther n \<Rightarrow> 4 < unat n \<and> nyb n))"
| "encodable _ = True"

section \<open>Decoding the documented encoding\<close>

text \<open>The dwords \<open>ws\<close> stand in the program at index \<open>ip\<close>.\<close>

fun code_at :: "CheatVirtualMachine \<Rightarrow> nat \<Rightarrow> u32 list \<Rightarrow> bool" where
  "code_at vm ip [] = (ip \<le> m_num_opcodes vm)"
| "code_at vm ip (w # ws) =
     (ip < m_num_opcodes vm \<and> m_program vm ! ip = w \<and> code_at vm (Suc ip) ws)"

lemma code_at_append:
  "code_at vm ip (us @ ws) \<longleftrightarrow> code_at vm ip us \<and> code_at vm (ip + length us) ws"
proof (induction us arbitrary: ip)
  case Nil
  then show ?case by (cases ws) auto
qed auto

lemma unat_take_bit_self: "take_bit 32 (unat (w :: u32)) = unat w"
  using unat_bound [of w] by (simp add: take_bit_nat_eq_self)

lemma unat_nybble: "unat (nybble w k) = unat w div 2 ^ k mod 16"
proof -
  have "nybble w k = take_bit 4 (drop_bit k w)"
    by (simp add: nybble_def take_bit_eq_mask mask_eq_exp_minus_1)
  then have "unat (nybble w k) = take_bit 4 (drop_bit k (unat w))"
    by (simp only: unsigned_take_bit_eq) (simp add: unsigned_drop_bit_eq unat_take_bit_self)
  then show ?thesis
    by (simp add: take_bit_eq_mod drop_bit_eq_div)
qed

lemma unat_and_FF: "unat (w AND 0xFF :: u32) = unat w mod 256"
proof -
  have "w AND 0xFF = take_bit 8 w"
    by (simp add: take_bit_eq_mask mask_eq_exp_minus_1)
  then have "unat (w AND 0xFF) = take_bit 8 (unat w)"
    by (simp only: unsigned_take_bit_eq)
  then show ?thesis
    by (simp add: take_bit_eq_mod)
qed

lemma and_F_nybble: "w AND 0xF = nybble w 0"
  by (simp add: nybble_def)

lemma unat_times_add:
  fixes x k y :: u32
  assumes "unat x * unat k + unat y < 2 ^ 32"
  shows "unat (x * k + y) = unat x * unat k + unat y"
  using assms by (simp add: unat_word_ariths)

lemma horner_div_mod:
  fixes z :: nat
  assumes "z = x * k + y" "y < k"
  shows "z div k = x" "z mod k = y"
  using assms by simp_all

text \<open>The successive prefixes of the first dword, as numbers.\<close>

lemma dword_prefixes:
  assumes "nyb a" "nyb b" "nyb c" "nyb d" "nyb e" "nyb f" "unat lo < 256"
  obtains x1 x2 x3 x4 x5 where
    "unat (dword a b c d e f lo) = x5 * 256 + unat lo"
    "x5 = x4 * 16 + unat f" "x4 = x3 * 16 + unat e" "x3 = x2 * 16 + unat d"
    "x2 = x1 * 16 + unat c" "x1 = unat a * 16 + unat b"
proof -
  define w1 w2 w3 w4 w5 where w: "w1 = a * 16 + b" "w2 = w1 * 16 + c" "w3 = w2 * 16 + d"
    "w4 = w3 * 16 + e" "w5 = w4 * 16 + f"
  have 1: "unat w1 = unat a * 16 + unat b"
    using unat_times_add [of a 16 b] assms w(1) by simp
  have 2: "unat w2 = unat w1 * 16 + unat c"
    using unat_times_add [of w1 16 c] assms w(2) 1 by simp
  have 3: "unat w3 = unat w2 * 16 + unat d"
    using unat_times_add [of w2 16 d] assms w(3) 1 2 by simp
  have 4: "unat w4 = unat w3 * 16 + unat e"
    using unat_times_add [of w3 16 e] assms w(4) 1 2 3 by simp
  have 5: "unat w5 = unat w4 * 16 + unat f"
    using unat_times_add [of w4 16 f] assms w(5) 1 2 3 4 by simp
  have "unat (w5 * 256 + lo) = unat w5 * 256 + unat lo"
    using unat_times_add [of w5 256 lo] assms 1 2 3 4 5 by simp
  moreover have "dword a b c d e f lo = w5 * 256 + lo"
    by (simp only: dword_def w)
  ultimately show ?thesis
    using 1 2 3 4 5 that by metis
qed

lemma nybble_dword:
  assumes "nyb a" "nyb b" "nyb c" "nyb d" "nyb e" "nyb f" "unat lo < 256"
  shows "nybble (dword a b c d e f lo) 28 = a"
    and "nybble (dword a b c d e f lo) 24 = b"
    and "nybble (dword a b c d e f lo) 20 = c"
    and "nybble (dword a b c d e f lo) 16 = d"
    and "nybble (dword a b c d e f lo) 12 = e"
    and "nybble (dword a b c d e f lo) 8 = f"
    and "dword a b c d e f lo AND 0xFF = lo"
proof -
  obtain x1 x2 x3 x4 x5 where x:
    "unat (dword a b c d e f lo) = x5 * 256 + unat lo"
    "x5 = x4 * 16 + unat f" "x4 = x3 * 16 + unat e" "x3 = x2 * 16 + unat d"
    "x2 = x1 * 16 + unat c" "x1 = unat a * 16 + unat b"
    by (rule dword_prefixes [OF assms])
  have "x div 268435456 = x div 256 div 16 div 16 div 16 div 16 div 16"
    "x div 16777216 = x div 256 div 16 div 16 div 16 div 16"
    "x div 1048576 = x div 256 div 16 div 16 div 16" "x div 65536 = x div 256 div 16 div 16"
    "x div 4096 = x div 256 div 16" for x :: nat
    by (simp_all add: div_mult2_eq [symmetric])
  note divs = this
  note dm = horner_div_mod [OF x(1) assms(7)] horner_div_mod [OF x(2) assms(6)]
    horner_div_mod [OF x(3) assms(5)] horner_div_mod [OF x(4) assms(4)]
    horner_div_mod [OF x(5) assms(3)] horner_div_mod [OF x(6) assms(2)]
  show "nybble (dword a b c d e f lo) 28 = a" "nybble (dword a b c d e f lo) 24 = b"
    "nybble (dword a b c d e f lo) 20 = c" "nybble (dword a b c d e f lo) 16 = d"
    "nybble (dword a b c d e f lo) 12 = e" "nybble (dword a b c d e f lo) 8 = f"
    using assms(1) by (simp_all add: word_unat_eq_iff unat_nybble divs dm)
  show "dword a b c d e f lo AND 0xFF = lo"
    by (simp add: word_unat_eq_iff unat_and_FF dm)
qed

lemma unat_16_times_add:
  assumes "nyb g" "nyb h"
  shows "unat (16 * g + h) = 16 * unat g + unat h"
  using assms by (simp add: unat_word_ariths)

lemma nybble_dword_low:
  assumes "nyb a" "nyb b" "nyb c" "nyb d" "nyb e" "nyb f" "nyb g" "nyb h"
  shows "nybble (dword a b c d e f (16 * g + h)) 4 = g"
    and "nybble (dword a b c d e f (16 * g + h)) 0 = h"
proof -
  have low: "unat (16 * g + h) = 16 * unat g + unat h"
    using assms by (intro unat_16_times_add)
  then have small: "unat (16 * g + h) < 256"
    using assms by simp
  obtain x5 where "unat (dword a b c d e f (16 * g + h)) = x5 * 256 + unat (16 * g + h)"
    by (rule dword_prefixes [OF assms(1-6) small])
  then have "unat (dword a b c d e f (16 * g + h)) = (x5 * 16 + unat g) * 16 + unat h"
    by (simp add: low)
  note dm = horner_div_mod [OF this assms(8)] horner_div_mod [OF refl assms(7)]
  show "nybble (dword a b c d e f (16 * g + h)) 4 = g"
    "nybble (dword a b c d e f (16 * g + h)) 0 = h"
    using assms(7) by (simp_all add: word_unat_eq_iff unat_nybble dm)
qed

lemmas nybble_dword_low0 = nybble_dword_low [where h = 0, simplified]
  nybble_dword_low [where g = 0, simplified]

lemma low_byte_bound: "nyb g \<Longrightarrow> nyb h \<Longrightarrow> unat (16 * g + h) < 256"
  by (simp add: unat_16_times_add)

lemma low_byte_bound0: "nyb g \<Longrightarrow> unat (16 * g) < 256"
  using low_byte_bound [of g 0] by simp

text \<open>The enumerations are read back.\<close>

lemma MemoryAccessType_num:
  "mem_ok mt \<Longrightarrow> MemoryAccessType_of (MemoryAccessType_num mt) = mt"
  "mem_ok mt \<Longrightarrow> nyb (MemoryAccessType_num mt)"
  by (cases mt; auto simp: mem_ok_def MemoryAccessType_of_def)+

lemma ConditionalComparisonType_num:
  "cond_ok c \<Longrightarrow> ConditionalComparisonType_of (ConditionalComparisonType_num c) = c"
  "cond_ok c \<Longrightarrow> nyb (ConditionalComparisonType_num c)"
  by (cases c; auto simp: cond_ok_def ConditionalComparisonType_of_def)+

lemma RegisterArithmeticType_num:
  "arith_ok m \<Longrightarrow> RegisterArithmeticType_of (RegisterArithmeticType_num m) = m"
  "arith_ok m \<Longrightarrow> nyb (RegisterArithmeticType_num m)"
  by (cases m; auto simp: arith_ok_def RegisterArithmeticType_of_def)+

lemma SaveRestoreRegisterOpType_num:
  "sr_ok x \<Longrightarrow> SaveRestoreRegisterOpType_of (SaveRestoreRegisterOpType_num x) = x"
  "sr_ok x \<Longrightarrow> nyb (SaveRestoreRegisterOpType_num x)"
  by (cases x; auto simp: sr_ok_def SaveRestoreRegisterOpType_of_def)+

lemmas enum_num = MemoryAccessType_num ConditionalComparisonType_num
  RegisterArithmeticType_num SaveRestoreRegisterOpType_num

lemma join_hi_lo [simp]: "join_dwords (hi32 v) (lo32 v) = v"
  by (rule bit_word_eqI) (auto simp: join_dwords_def hi32_def lo32_def bit_simps)

lemma unat_hi32: "unat (hi32 v) = unat v div 2 ^ 32"
proof -
  have "unat v div 2 ^ 32 < 2 ^ 32"
    using unat_bound [of v] by (simp add: less_mult_imp_div_less)
  moreover have "unat (hi32 v) = take_bit 32 (drop_bit 32 (take_bit 64 (unat v)))"
    by (simp add: hi32_def unsigned_ucast_eq unsigned_drop_bit_eq)
  moreover have "take_bit 64 (unat v) = unat v"
    using unat_bound [of v] by (simp add: take_bit_nat_eq_self)
  ultimately show ?thesis
    by (simp add: drop_bit_eq_div take_bit_nat_eq_self)
qed

lemma hi32_bound:
  "addr40_ok a \<Longrightarrow> unat (hi32 a) < 256" "addr36_ok a \<Longrightarrow> unat (hi32 a) < 256"
  "addr36_ok a \<Longrightarrow> nyb (hi32 a)"
  by (simp_all add: addr40_ok_def addr36_ok_def unat_hi32 less_mult_imp_div_less)

lemma GetNextVmInt_code_at:
  assumes "code_at vm ip (encode_vmint bw v)" "vmint_ok bw v"
  shows "GetNextVmInt vm bw (ip, True) = (v, (ip + length (encode_vmint bw v), True))"
proof -
  have small: "take_bit n v = v" if "unat v < 2 ^ n" for n
    using that by (simp add: word_unat_eq_iff unsigned_take_bit_eq take_bit_nat_eq_self)
  have trunc: "ucast (ucast (lo32 v) :: u8) = take_bit 8 v"
    "ucast (ucast (lo32 v) :: u16) = take_bit 16 v" "ucast (lo32 v) = take_bit 32 v"
    by (rule bit_word_eqI, auto simp: lo32_def bit_simps)+
  show ?thesis
    using assms small [of 8] small [of 16] small [of 32]
    by (auto simp: trunc GetNextVmInt_def encode_vmint_def vmint_ok_def GetNextDword_def
        split: if_splits)
qed

text \<open>What the formats of the debugger opcodes look like to the field extractors.\<close>

lemma nybble_literals:
  "nybble 0xFF000000 28 = 0xF" "nybble 0xFF000000 24 = 0xF" "nybble 0xFF000000 20 = 0"
  "nybble 0xFF100000 28 = 0xF" "nybble 0xFF100000 24 = 0xF" "nybble 0xFF100000 20 = 1"
  by (simp_all add: word_unat_eq_iff unat_nybble)

lemma keypress_fields:
  assumes "unat k < 2 ^ 28"
  shows "nybble (0x80000000 + k) 28 = 8" "(0x80000000 + k) AND 0x0FFFFFFF = (k :: u32)"
proof -
  have u: "unat (0x80000000 + k) = 8 * 2 ^ 28 + unat k"
    using assms by (simp add: unat_word_ariths)
  show "nybble (0x80000000 + k) 28 = 8"
    using assms by (simp add: word_unat_eq_iff unat_nybble u)
  have "(0x80000000 + k) AND 0x0FFFFFFF = take_bit 28 (0x80000000 + k)"
    by (simp add: take_bit_eq_mask mask_eq_exp_minus_1)
  also have "\<dots> = k"
    using horner_div_mod [of "8 * 2 ^ 28 + unat k" 8 268435456 "unat k"] assms
    by (simp only: word_unat_eq_iff unsigned_take_bit_eq u) (simp add: take_bit_eq_mod)
  finally show "(0x80000000 + k) AND 0x0FFFFFFF = k" .
qed

lemma rwstatic_fields:
  assumes "unat s < 256" "nyb r"
  shows "nybble (0xC3000000 + 16 * s + r) 28 = 0xC" "nybble (0xC3000000 + 16 * s + r) 24 = 3"
    "drop_bit 4 (0xC3000000 + 16 * s + r) AND 0xFF = s" "nybble (0xC3000000 + 16 * s + r) 0 = r"
proof -
  have u: "unat (0xC3000000 + 16 * s + r) = 0xC3000000 + 16 * unat s + unat r"
    using assms by (simp add: unat_word_ariths)
  have b: "16 * unat s + unat r < 4096"
    using assms by simp
  show "nybble (0xC3000000 + 16 * s + r) 28 = 0xC" "nybble (0xC3000000 + 16 * s + r) 24 = 3"
    using horner_div_mod [of "0xC3000000 + 16 * unat s + unat r" 12 268435456
        "0x3000000 + 16 * unat s + unat r"]
      horner_div_mod [of "0xC3000000 + 16 * unat s + unat r" 195 16777216
        "16 * unat s + unat r"] b
    by (simp_all add: word_unat_eq_iff unat_nybble u)
  show "nybble (0xC3000000 + 16 * s + r) 0 = r"
    using assms horner_div_mod [of "0xC3000000 + 16 * unat s + unat r" "0xC300000 + unat s" 16
        "unat r"] by (simp add: word_unat_eq_iff unat_nybble u)
  have "unat (drop_bit 4 (0xC3000000 + 16 * s + r)) = (0xC3000000 + 16 * unat s + unat r) div 16"
    by (simp only: unsigned_drop_bit_eq len_num1 u [symmetric])
      (simp add: unat_take_bit_self drop_bit_eq_div del: u)
  then show "drop_bit 4 (0xC3000000 + 16 * s + r) AND 0xFF = s"
    using assms horner_div_mod [of "0xC3000000 + 16 * unat s + unat r" "0xC300000 + unat s" 16
        "unat r"] horner_div_mod [of "0xC300000 + unat s" 798720 256 "unat s"]
    by (simp add: word_unat_eq_iff unat_and_FF)
qed

lemma mask_fields:
  fixes x :: u32
  assumes "nyb x" "length bs = 16"
  defines "fd \<equiv> mask_dword x bs"
  shows "nybble fd 28 = 0xC" "nybble fd 24 = 2" "nybble fd 20 = x"
    "map (\<lambda>i. fd AND push_bit i 1 \<noteq> 0) [0..<16] = bs"
proof -
  define m :: u32 where "m = horner_sum of_bool 2 bs"
  have bits: "bit m i \<longleftrightarrow> i < 16 \<and> bs ! i" for i
    using assms(2) by (auto simp: m_def bit_horner_sum_bit_iff)
  have "m = take_bit 16 m"
    by (rule bit_eqI) (auto simp: bit_simps bits)
  then have m: "unat m < 65536"
    using unat_take_bit_less [of 16 m] by simp
  have x: "unat (0xC200 + 16 * x) = 0xC200 + 16 * unat x"
    using assms(1) by (simp add: unat_word_ariths)
  then have fd: "unat fd = (0xC200 + 16 * unat x) * 65536 + unat m"
    using unat_times_add [of "0xC200 + 16 * x" 65536 m] assms(1) m
    by (simp add: fd_def mask_dword_def m_def)
  have b: "unat x * 1048576 + unat m < 16777216"
    using assms(1) m by simp
  have "unat fd div 268435456 = 12"
    using b fd by (intro horner_div_mod(1) [where y = "0x2000000 + unat x * 1048576 + unat m"])
      simp_all
  moreover have "unat fd div 16777216 = 194"
    using b fd by (intro horner_div_mod(1) [where y = "unat x * 1048576 + unat m"]) simp_all
  moreover have "unat fd div 1048576 = 0xC20 + unat x"
    using m fd by (intro horner_div_mod(1) [where y = "unat m"]) simp_all
  moreover have "unat fd mod 65536 = unat m"
    using m by (intro horner_div_mod(2) [OF fd]) simp
  ultimately have div: "unat fd div 268435456 = 12" "unat fd div 16777216 = 194"
    "unat fd div 1048576 = 0xC20 + unat x" "unat fd mod 65536 = unat m" .
  show "nybble fd 28 = 0xC" "nybble fd 24 = 2"
    by (simp_all add: word_unat_eq_iff unat_nybble div)
  show "nybble fd 20 = x"
    using horner_div_mod [of "0xC20 + unat x" 194 16 "unat x"] assms(1)
    by (simp add: word_unat_eq_iff unat_nybble div)
  have "take_bit 16 fd = m"
    by (simp only: word_unat_eq_iff unsigned_take_bit_eq) (simp add: take_bit_eq_mod div)
  then have "bit fd i \<longleftrightarrow> bs ! i" if "i < 16" for i
    using bits [of i] that bit_take_bit_iff [of 16 fd i] by simp
  then have "(fd AND push_bit i 1 \<noteq> 0) \<longleftrightarrow> bs ! i" if "i < 16" for i
    using that bit_iff_and_push_bit_not_eq_0 [of fd i] by simp
  then show "map (\<lambda>i. fd AND push_bit i 1 \<noteq> 0) [0..<16] = bs"
    using assms(2) by (intro nth_equalityI) simp_all
qed

lemma DecodeNextOpcode_eq:
  assumes "m_decode_success vm" "code_at vm (m_instruction_ptr vm) (fd # ws)"
    and "decode_opcode vm fd (Suc (m_instruction_ptr vm), True) = (Some op, (ip, True))"
  shows "DecodeNextOpcode vm = (Some op, vm\<lparr>m_instruction_ptr := ip\<rparr>)"
  using assms by (simp add: DecodeNextOpcode_def GetNextDword_def)

lemma opcode_number_short:
  "unat (nybble fd 28) < 12 \<Longrightarrow> opcode_number fd = nybble fd 28"
  by (simp add: opcode_number_def word_le_nat_alt)

lemma opcode_number_extended:
  assumes "nybble fd 28 = 0xC"
  shows "nybble fd 24 = 0 \<Longrightarrow> opcode_number fd = 0xC0"
    "nybble fd 24 = 1 \<Longrightarrow> opcode_number fd = 0xC1"
    "nybble fd 24 = 2 \<Longrightarrow> opcode_number fd = 0xC2"
    "nybble fd 24 = 3 \<Longrightarrow> opcode_number fd = 0xC3"
  using assms by (simp_all add: opcode_number_def)

lemma opcode_number_double_extended:
  assumes "nybble fd 28 = 0xF" "nybble fd 24 = 0xF"
  shows "nybble fd 20 = 0 \<Longrightarrow> opcode_number fd = 0xFF0"
    "nybble fd 20 = 1 \<Longrightarrow> opcode_number fd = 0xFF1"
    "nybble fd 20 = 0xF \<Longrightarrow> opcode_number fd = 0xFFF"
  using assms by (simp_all add: opcode_number_def)

lemmas type_eval = decode_opcode_def opcode_number_short opcode_number_extended
  opcode_number_double_extended CheatVmOpcodeType_of_def

lemmas nybble_eval = nybble_dword nybble_dword_low nybble_dword_low0 low_byte_bound
  low_byte_bound0 hi32_bound enum_num

lemma large_neq:
  "5 < unat (n :: u32) \<Longrightarrow> n \<noteq> 0 \<and> n \<noteq> 1 \<and> n \<noteq> 2 \<and> n \<noteq> 3 \<and> n \<noteq> 4 \<and> n \<noteq> 5"
  "4 < unat n \<Longrightarrow> n \<noteq> 0 \<and> n \<noteq> 1 \<and> n \<noteq> 2 \<and> n \<noteq> 3 \<and> n \<noteq> 4"
  by auto

lemma nyb_of_bool [simp]: "nyb (of_bool b)"
  by simp

lemma decode_encode:
  assumes "encodable op" "code_at vm ip (encode_opcode op)"
  shows "decode_opcode vm (hd (encode_opcode op)) (Suc ip, True) =
    (Some op, (ip + length (encode_opcode op), True))"
proof (cases op)
  case (StoreStatic bw mt r rel v)
  with assms show ?thesis
    by (simp add: type_eval nybble_eval decode_StoreStatic_def GetNextDword_def
        GetNextVmInt_code_at [where v = v])
next
  case (BeginConditionalBlock bw mt c rel v)
  with assms show ?thesis
    by (simp add: type_eval nybble_eval decode_BeginConditional_def GetNextDword_def
        GetNextVmInt_code_at [where v = v])
next
  case (EndConditionalBlock e)
  with assms show ?thesis
    by (simp add: type_eval nybble_eval decode_EndConditional_def)
next
  case (StartLoop r n)
  with assms show ?thesis
    by (simp add: type_eval nybble_eval decode_ControlLoop_def GetNextDword_def)
next
  case (EndLoop r)
  with assms show ?thesis
    by (simp add: type_eval nybble_eval decode_ControlLoop_def)
next
  case (LoadRegisterStatic r v)
  with assms show ?thesis
    by (simp add: type_eval nybble_eval decode_LoadRegisterStatic_def GetNextQword_def
        GetNextDword_def)
next
  case (LoadRegisterMemory bw mt r b rel)
  with assms show ?thesis
    by (simp add: type_eval nybble_eval decode_LoadRegisterMemory_def GetNextDword_def)
next
  case (StoreStaticToAddress bw r i a s v)
  with assms show ?thesis
    by (simp add: type_eval nybble_eval decode_StoreStaticToAddress_def GetNextQword_def
        GetNextDword_def)
next
  case (PerformArithmeticStatic bw r m v)
  with assms show ?thesis
    by (simp add: type_eval nybble_eval decode_PerformArithmeticStatic_def GetNextDword_def)
next
  case (BeginKeypressConditionalBlock k)
  with assms show ?thesis
    by (simp add: type_eval keypress_fields decode_BeginKeypressConditional_def)
next
  case (PerformArithmeticRegister bw m r s t)
  with assms show ?thesis
    using GetNextVmInt_code_at [of vm "Suc ip" bw "projr t"]
    by (cases t) (simp_all add: type_eval nybble_eval decode_PerformArithmeticRegister_def)
next
  case (StoreRegisterToAddress bw s r i ofs)
  with assms show ?thesis
    by (cases ofs) (simp_all add: type_eval nybble_eval decode_StoreRegisterToAddress_def
        decode_StoreRegisterOffset_def GetNextDword_def and_F_nybble)
next
  case (BeginRegisterConditionalBlock bw c s v)
  with assms show ?thesis
    using GetNextVmInt_code_at [of vm "Suc ip" bw "case v of CmpStaticValue x \<Rightarrow> x | _ \<Rightarrow> 0"]
    by (cases v) (simp_all add: type_eval nybble_eval decode_BeginRegisterConditional_def
        decode_CompareRegisterValue_def GetNextDword_def and_F_nybble large_neq)
next
  case (SaveRestoreRegister d s x)
  with assms show ?thesis
    by (simp add: type_eval nybble_eval decode_SaveRestoreRegister_def)
next
  case (SaveRestoreRegisterMask x bs)
  with assms show ?thesis
    using mask_fields [of "SaveRestoreRegisterOpType_num x" bs]
    by (simp add: type_eval enum_num decode_SaveRestoreRegisterMask_def vm_sizes)
next
  case (ReadWriteStaticRegister s r)
  with assms show ?thesis
    by (simp add: type_eval rwstatic_fields decode_ReadWriteStaticRegister_def)
next
  case PauseProcess
  then show ?thesis
    by (simp add: type_eval nybble_literals)
next
  case ResumeProcess
  then show ?thesis
    by (simp add: type_eval nybble_literals)
next
  case (DebugLog bw i v)
  with assms show ?thesis
    by (cases v) (simp_all add: type_eval nybble_eval decode_DebugLog_def
        decode_DebugLogValue_def GetNextDword_def and_F_nybble large_neq)
qed

lemma encode_opcode_neq_Nil: "encode_opcode op \<noteq> []"
  by (cases op rule: encode_opcode.cases)
     (auto simp: Let_def split: StoreRegisterOffset.split CompareRegisterValue.split
       DebugLogValue.split)

lemma DecodeNextOpcode_encode:
  assumes "encodable op" "m_decode_success vm"
    and "code_at vm (m_instruction_ptr vm) (encode_opcode op)"
  shows "DecodeNextOpcode vm =
    (Some op, vm\<lparr>m_instruction_ptr := m_instruction_ptr vm + length (encode_opcode op)\<rparr>)"
proof -
  obtain fd ws where ws: "encode_opcode op = fd # ws"
    using encode_opcode_neq_Nil [of op] by (cases "encode_opcode op") auto
  show ?thesis
    using DecodeNextOpcode_eq [of vm fd ws] decode_encode [of op vm "m_instruction_ptr vm"] assms
    by (simp add: ws)
qed

lemma DecodeNextOpcode_None_bound:
  assumes "DecodeNextOpcode vm = (None, vm')"
  shows "m_instruction_ptr vm' \<le> max (m_instruction_ptr vm) (m_num_opcodes vm)"
proof (cases "m_instruction_ptr vm \<le> m_num_opcodes vm")
  case True
  then show ?thesis
    using DecodeNextOpcode_None(3) [OF assms] by simp
next
  case False
  with assms show ?thesis
    by (auto simp: DecodeNextOpcode_def GetNextDword_def split: if_splits)
qed

section \<open>Properties of the decoder\<close>

definition zeroed_vm :: "u32 list \<Rightarrow> CheatVirtualMachine" where
  "zeroed_vm ws =
     \<lparr>m_num_opcodes = length ws, m_instruction_ptr = 0, m_condition_depth = 0,
      m_decode_success = True,
      m_program = ws @ replicate (MaximumProgramOpcodeCount - length ws) 0,
      m_registers = replicate NumRegisters 0, m_saved_values = replicate NumRegisters 0,
      m_static_registers = replicate NumStaticRegisters 0,
      m_loop_tops = replicate NumRegisters 0\<rparr>"

text \<open>
  C10. Decoding is sound and makes progress. A decoded opcode means that no earlier
  decode failed, that the instruction pointer moved forward and stayed within the
  program, that every register index in the opcode is in range, and that nothing else
  of the machine changed. Otherwise the machine remembers the failure, the pointer does
  not leave the program, and nothing else changed either.
\<close>

theorem DecodeNextOpcode_sound:
  "case DecodeNextOpcode vm of
     (Some op, vm') \<Rightarrow>
       m_decode_success vm \<and> wf_opcode op \<and>
       m_instruction_ptr vm < m_instruction_ptr vm' \<and>
       m_instruction_ptr vm' \<le> m_num_opcodes vm \<and>
       vm' = vm\<lparr>m_instruction_ptr := m_instruction_ptr vm'\<rparr>
   | (None, vm') \<Rightarrow>
       m_instruction_ptr vm \<le> m_instruction_ptr vm' \<and>
       m_instruction_ptr vm' \<le> max (m_instruction_ptr vm) (m_num_opcodes vm) \<and>
       vm' = vm\<lparr>m_instruction_ptr := m_instruction_ptr vm', m_decode_success := False\<rparr>"
proof (cases "DecodeNextOpcode vm")
  case (Pair r vm')
  show ?thesis
  proof (cases r)
    case None
    with Pair show ?thesis
      using DecodeNextOpcode_None [of vm vm'] DecodeNextOpcode_None_bound [of vm vm'] by simp
  next
    case (Some op)
    with Pair show ?thesis
      using DecodeNextOpcode_Some [of vm op vm'] by simp
  qed
qed

text \<open>
  C15. The decoder inverts the documented encoding. Wherever the dwords of an
  instruction's documented format stand in the program, decoding there yields exactly
  that instruction, operands included, and moves the pointer past those dwords.
\<close>

theorem decode_documented_encoding:
  assumes "encodable op" "m_decode_success vm"
    and "code_at vm (m_instruction_ptr vm) (encode_opcode op)"
  shows "DecodeNextOpcode vm =
    (Some op, vm\<lparr>m_instruction_ptr := m_instruction_ptr vm + length (encode_opcode op)\<rparr>)"
  by (rule DecodeNextOpcode_encode [OF assms])

theorem decode_documented_encoding_witness:
  "DecodeNextOpcode (zeroed_vm [0x08130012, 0x3456789A, 0xDEADBEEF, 0xCAFEF00D, 0x20000000]) =
     (Some (StoreStatic 8 Heap 3 0x123456789A 0xDEADBEEFCAFEF00D),
      (zeroed_vm [0x08130012, 0x3456789A, 0xDEADBEEF, 0xCAFEF00D, 0x20000000])
        \<lparr>m_instruction_ptr := 4\<rparr>)"
proof -
  let ?vm = "zeroed_vm [0x08130012, 0x3456789A, 0xDEADBEEF, 0xCAFEF00D, 0x20000000]"
  let ?op = "StoreStatic 8 Heap 3 0x123456789A 0xDEADBEEFCAFEF00D"
  have enc: "encode_opcode ?op = [0x08130012, 0x3456789A, 0xDEADBEEF, 0xCAFEF00D]"
    by (simp add: dword_def encode_vmint_def hi32_def lo32_def)
  have "encodable ?op"
    by (simp add: mem_ok_def addr40_ok_def vmint_ok_def)
  moreover have "m_decode_success ?vm" "m_instruction_ptr ?vm = 0"
    by (simp_all add: zeroed_vm_def)
  moreover have "code_at ?vm 0 (encode_opcode ?op)"
    unfolding enc by (simp add: zeroed_vm_def)
  ultimately show ?thesis
    using decode_documented_encoding [of ?op ?vm] unfolding enc by simp
qed

end
