(* ===== verification/Cheat_Process.thy ===== *)
theory Cheat_Process
  imports Cheat_Types
begin

text \<open>
  Access of the cheat service to the attached process: the \<^verbatim>\<open>...Unsafe\<close> members of
  \<^verbatim>\<open>CheatProcessManager\<close> (\<^verbatim>\<open>dmnt_cheat_api.cpp\<close>), which run with the cheat lock held
  and are the interface the virtual machine calls.

  The kernel's debug calls are parameters, collected in the record \<open>debug_svc\<close> over an
  arbitrary type \<open>'m\<close> of target states. \<open>svc_Read\<close> yields the result and the bytes
  that were stored to the caller's buffer, a prefix of the requested range.
\<close>

record 'm debug_svc =
  svc_Read :: "'m \<Rightarrow> u32 \<Rightarrow> u64 \<Rightarrow> nat \<Rightarrow> bool \<times> u8 list"
    \<comment> \<open>ReadDebugProcessMemory: handle, address, size\<close>
  svc_Write :: "'m \<Rightarrow> u32 \<Rightarrow> u8 list \<Rightarrow> u64 \<Rightarrow> bool \<times> 'm"
    \<comment> \<open>WriteDebugProcessMemory: handle, data, address\<close>
  svc_Break :: "'m \<Rightarrow> u32 \<Rightarrow> bool \<times> 'm"
    \<comment> \<open>BreakDebugProcess\<close>
  svc_Continue :: "'m \<Rightarrow> u32 \<Rightarrow> bool \<times> 'm"
    \<comment> \<open>ContinueCheatProcess of the debug events manager\<close>

text \<open>
  A node of the frozen address map. \<open>fe_node\<close> is the address of the node itself, a unit
  of the frozen address heap.
\<close>

record FrozenAddressMapEntry =
  fe_node :: nat
  m_address :: u64
  m_value :: FrozenAddressValue

text \<open>
  The members of the manager that the unsafe operations use, with the target and the
  values handed to \<^verbatim>\<open>DebugLog\<close> so far. The red-black tree \<^verbatim>\<open>m_frozen_addresses_map\<close>
  is the sequence of its nodes in iteration order.
\<close>

record 'm process_state =
  target :: 'm
  m_cheat_process_debug_handle :: u32
  m_broken_unsafe :: bool
  m_unsafe_break_event :: bool
  m_frozen_addresses_map :: "FrozenAddressMapEntry list"
  debug_log_calls :: "(u32 \<times> u64) list"

definition ReadCheatProcessMemoryUnsafe ::
    "'m debug_svc \<Rightarrow> 'm process_state \<Rightarrow> u64 \<Rightarrow> nat \<Rightarrow> bool \<times> u8 list" where
  "ReadCheatProcessMemoryUnsafe svc ps proc_addr sz =
     svc_Read svc (target ps) (m_cheat_process_debug_handle ps) proc_addr sz"

text \<open>
  The loop of \<^verbatim>\<open>WriteCheatProcessMemoryUnsafe\<close> over the frozen map, with its early
  exit. Address arithmetic wraps as in the source.
\<close>

definition frozen_entry_write :: "u64 \<Rightarrow> u8 list \<Rightarrow> FrozenAddressMapEntry \<Rightarrow> FrozenAddressMapEntry" where
  "frozen_entry_write proc_addr data e =
     (let offset = unat (m_address e - proc_addr);
          copy_size = min 8 (length data - offset)
      in e\<lparr>m_value := (m_value e)\<lparr>frz_value :=
            overlay_bytes (frz_value (m_value e)) (take copy_size (drop offset data))\<rparr>\<rparr>)"

fun update_frozen :: "u64 \<Rightarrow> u8 list \<Rightarrow> FrozenAddressMapEntry list \<Rightarrow> FrozenAddressMapEntry list" where
  "update_frozen proc_addr data [] = []"
| "update_frozen proc_addr data (e # es) =
     (if proc_addr + of_nat (length data) \<le> m_address e then e # es
      else (if proc_addr \<le> m_address e \<and> m_address e < proc_addr + of_nat (length data)
            then frozen_entry_write proc_addr data e else e)
           # update_frozen proc_addr data es)"

definition WriteCheatProcessMemoryUnsafe ::
    "'m debug_svc \<Rightarrow> 'm process_state \<Rightarrow> u64 \<Rightarrow> u8 list \<Rightarrow> bool \<times> 'm process_state" where
  "WriteCheatProcessMemoryUnsafe svc ps proc_addr data =
     (let (ok, t) = svc_Write svc (target ps) (m_cheat_process_debug_handle ps) data proc_addr;
          ps' = ps\<lparr>target := t\<rparr>
      in if ok
         then (True, ps'\<lparr>m_frozen_addresses_map :=
                 update_frozen proc_addr data (m_frozen_addresses_map ps)\<rparr>)
         else (False, ps'))"

definition PauseCheatProcessUnsafe :: "'m debug_svc \<Rightarrow> 'm process_state \<Rightarrow> bool \<times> 'm process_state" where
  "PauseCheatProcessUnsafe svc ps =
     (let (ok, t) = svc_Break svc (target ps) (m_cheat_process_debug_handle ps)
      in (ok, ps\<lparr>m_broken_unsafe := True, m_unsafe_break_event := False, target := t\<rparr>))"

definition ResumeCheatProcessUnsafe :: "'m debug_svc \<Rightarrow> 'm process_state \<Rightarrow> bool \<times> 'm process_state" where
  "ResumeCheatProcessUnsafe svc ps =
     (let (ok, t) = svc_Continue svc (target ps) (m_cheat_process_debug_handle ps)
      in (True, ps\<lparr>m_broken_unsafe := False, m_unsafe_break_event := True, target := t\<rparr>))"

section \<open>The frozen map under writes\<close>

text \<open>The keys of the map are strictly increasing in iteration order.\<close>

definition frozen_sorted :: "FrozenAddressMapEntry list \<Rightarrow> bool" where
  "frozen_sorted es \<longleftrightarrow> sorted_wrt (\<lambda>a b. m_address a < m_address b) es"

text \<open>What a write changes of an entry: its value, never its node, address or width.\<close>

definition frozen_key :: "FrozenAddressMapEntry \<Rightarrow> nat \<times> u64 \<times> u8" where
  "frozen_key e = (fe_node e, m_address e, frz_width (m_value e))"

lemma frozen_key_write [simp]: "frozen_key (frozen_entry_write a d e) = frozen_key e"
  by (simp add: frozen_key_def frozen_entry_write_def Let_def)

lemma update_frozen_keys [simp]:
  "map frozen_key (update_frozen a d es) = map frozen_key es"
  by (induction es) auto

lemma frozen_sorted_keys:
  assumes "map frozen_key es = map frozen_key fs"
  shows "frozen_sorted es \<longleftrightarrow> frozen_sorted fs"
proof -
  have "frozen_sorted xs \<longleftrightarrow> sorted_wrt (<) (map (\<lambda>k. fst (snd k)) (map frozen_key xs))" for xs
    by (simp add: frozen_sorted_def sorted_wrt_map comp_def frozen_key_def)
  then show ?thesis
    by (simp only: assms)
qed

lemma update_frozen_sorted [simp]: "frozen_sorted (update_frozen a d es) \<longleftrightarrow> frozen_sorted es"
  by (rule frozen_sorted_keys) simp

text \<open>Without the early exit: each entry inside the written range, and no other, is updated.\<close>

definition in_write_range :: "u64 \<Rightarrow> nat \<Rightarrow> u64 \<Rightarrow> bool" where
  "in_write_range proc_addr sz a \<longleftrightarrow> unat proc_addr \<le> unat a \<and> unat a < unat proc_addr + sz"

lemma write_end_unat:
  fixes a :: u64
  assumes "unat a + n < 2 ^ 64"
  shows "unat (a + of_nat n) = unat a + n"
  using assms by (simp add: unat_word_ariths unat_of_nat)

lemma update_frozen_eq_map:
  assumes "frozen_sorted es" "unat proc_addr + length data < 2 ^ 64"
  shows "update_frozen proc_addr data es =
    map (\<lambda>e. if in_write_range proc_addr (length data) (m_address e)
             then frozen_entry_write proc_addr data e else e) es"
  using assms(1)
proof (induction es)
  case Nil
  then show ?case by simp
next
  case (Cons e es)
  note fin = write_end_unat [OF assms(2)]
  show ?case
  proof (cases "proc_addr + of_nat (length data) \<le> m_address e")
    case True
    have above: "\<not> in_write_range proc_addr (length data) (m_address x)" if "x \<in> set (e # es)" for x
    proof -
      have "m_address e \<le> m_address x"
        using Cons.prems that by (auto simp: frozen_sorted_def)
      with True have "proc_addr + of_nat (length data) \<le> m_address x"
        by simp
      then show ?thesis
        by (simp add: in_write_range_def word_le_nat_alt fin)
    qed
    then have "map (\<lambda>e. if in_write_range proc_addr (length data) (m_address e)
             then frozen_entry_write proc_addr data e else e) (e # es) = e # es"
      by (intro map_idI) auto
    with True show ?thesis
      by simp
  next
    case False
    with Cons show ?thesis
      by (simp add: frozen_sorted_def in_write_range_def word_le_nat_alt word_less_nat_alt fin)
  qed
qed

text \<open>The new value of an updated entry, byte by byte.\<close>

lemma frozen_entry_write_value:
  assumes "in_write_range proc_addr (length data) (m_address e)"
  shows "frz_value (m_value (frozen_entry_write proc_addr data e)) =
    (let offset = unat (m_address e) - unat proc_addr
     in overlay_bytes (frz_value (m_value e)) (take 8 (drop offset data)))"
proof -
  have "unat (m_address e - proc_addr) = unat (m_address e) - unat proc_addr"
    using assms by (simp add: in_write_range_def unat_sub_if_size)
  then show ?thesis
    by (simp add: frozen_entry_write_def Let_def min_def)
qed

lemma WriteCheatProcessMemoryUnsafe_frame:
  assumes "WriteCheatProcessMemoryUnsafe svc ps a d = (ok, ps')"
  shows "m_cheat_process_debug_handle ps' = m_cheat_process_debug_handle ps"
    and "m_broken_unsafe ps' = m_broken_unsafe ps"
    and "m_unsafe_break_event ps' = m_unsafe_break_event ps"
    and "debug_log_calls ps' = debug_log_calls ps"
    and "map frozen_key (m_frozen_addresses_map ps') = map frozen_key (m_frozen_addresses_map ps)"
  using assms by (auto simp: WriteCheatProcessMemoryUnsafe_def Let_def split: prod.splits if_splits)

section \<open>A flat target\<close>

text \<open>
  A target that is a plain byte array starting at address zero, with debug calls that
  succeed exactly on the ranges inside it. It instantiates the parameter in concrete
  runs.
\<close>

definition ram_svc :: "u8 list debug_svc" where
  "ram_svc =
     \<lparr>svc_Read = (\<lambda>m h a n. if unat a + n \<le> length m then (True, take n (drop (unat a) m))
                            else (False, [])),
      svc_Write = (\<lambda>m h d a. if unat a + length d \<le> length m
                             then (True, take (unat a) m @ d @ drop (unat a + length d) m)
                             else (False, m)),
      svc_Break = (\<lambda>m h. (True, m)), svc_Continue = (\<lambda>m h. (True, m))\<rparr>"

definition ram_process :: "u8 list \<Rightarrow> u8 list process_state" where
  "ram_process m =
     \<lparr>target = m, m_cheat_process_debug_handle = 1, m_broken_unsafe = False,
      m_unsafe_break_event = True, m_frozen_addresses_map = [], debug_log_calls = []\<rparr>"

definition ram_metadata :: CheatProcessMetadata where
  "ram_metadata =
     (let e = \<lparr>ext_base = 0, ext_size = 0x1000\<rparr>
      in \<lparr>process_id = 0x51, program_id = 0x0100000000001000, main_nso_extents = e,
          heap_extents = e, alias_extents = e, aslr_extents = e,
          main_nso_module_id = replicate 32 0\<rparr>)"

text \<open>
  C19. Writing memory keeps the frozen values current. A write that succeeds overlays the bytes
  it wrote on the value of every frozen address inside the written range and leaves every
  other entry alone, although the loop stops at the first address behind the range; a write
  that fails changes no frozen value. Neither touches the handle, the break state or the log.
\<close>

theorem WriteCheatProcessMemory_updates_frozen:
  assumes sorted: "frozen_sorted (m_frozen_addresses_map ps)"
    and no_wrap: "unat proc_addr + length data < 2 ^ 64"
    and res: "WriteCheatProcessMemoryUnsafe svc ps proc_addr data = (ok, ps')"
  shows "(ok, target ps') = svc_Write svc (target ps) (m_cheat_process_debug_handle ps) data proc_addr \<and>
    m_frozen_addresses_map ps' =
      map (\<lambda>e. if ok \<and> in_write_range proc_addr (length data) (m_address e)
               then frozen_entry_write proc_addr data e else e) (m_frozen_addresses_map ps) \<and>
    ps' = ps\<lparr>target := target ps', m_frozen_addresses_map := m_frozen_addresses_map ps'\<rparr>"
  using res
  by (auto simp: WriteCheatProcessMemoryUnsafe_def Let_def update_frozen_eq_map [OF sorted no_wrap]
      split: prod.splits if_splits)

definition two_frozen :: "u8 list process_state" where
  "two_frozen = (ram_process (replicate 64 0))
     \<lparr>m_frozen_addresses_map :=
        [\<lparr>fe_node = 0x100, m_address = 0x10, m_value = \<lparr>frz_value = 0, frz_width = 4\<rparr>\<rparr>,
         \<lparr>fe_node = 0x200, m_address = 0x20, m_value = \<lparr>frz_value = 9, frz_width = 4\<rparr>\<rparr>]\<rparr>"

theorem WriteCheatProcessMemory_updates_frozen_witness:
  "map (\<lambda>e. frz_value (m_value e))
     (m_frozen_addresses_map (snd (WriteCheatProcessMemoryUnsafe ram_svc two_frozen 0x0E [1, 2, 3, 4])))
   = [0x0403, 9]"
proof -
  have "frozen_sorted (m_frozen_addresses_map two_frozen)" "unat (0x0E :: u64) + length [1, 2, 3, 4 :: u8] < 2 ^ 64"
    by (simp_all add: two_frozen_def frozen_sorted_def)
  from WriteCheatProcessMemory_updates_frozen [OF this prod.collapse [symmetric], of ram_svc]
  show ?thesis
    by (simp add: two_frozen_def WriteCheatProcessMemoryUnsafe_def ram_svc_def ram_process_def
        in_write_range_def frozen_entry_write_def overlay_bytes_def)
qed

end
