(* ===== verification/Cheat_VM_Exec.thy ===== *)
theory Cheat_VM_Exec
  imports Cheat_VM_Decode Cheat_Process
begin

text \<open>
  The executor of the cheat virtual machine: \<^verbatim>\<open>SkipConditionalBlock\<close>,
  \<^verbatim>\<open>GetVmInt\<close>, \<^verbatim>\<open>GetCheatProcessAddress\<close>, \<^verbatim>\<open>ResetState\<close>, \<^verbatim>\<open>LoadProgram\<close> and
  \<^verbatim>\<open>Execute\<close> of \<^verbatim>\<open>dmnt_cheat_vm.cpp\<close>, with one definition per case of the
  executor's switch.

  The state is the machine together with the process it is attached to. An abort of the
  service (\<^verbatim>\<open>R_ABORT_UNLESS\<close>) is the value \<open>None\<close>. The results of the debug calls are
  ignored, as the source ignores them.
\<close>

type_synonym 'm exec_state = "CheatVirtualMachine \<times> 'm process_state"

section \<open>Skipping a conditional block\<close>

text \<open>
  The loop of \<^verbatim>\<open>SkipConditionalBlock\<close>. It ends because every decoded opcode moves the
  instruction pointer towards the end of the program.
\<close>

function skip_loop :: "bool \<Rightarrow> nat \<Rightarrow> CheatVirtualMachine \<Rightarrow> CheatVirtualMachine" where
  "skip_loop is_if desired_depth vm =
     (if desired_depth < m_condition_depth vm then
        (case DecodeNextOpcode vm of
           (None, vm') \<Rightarrow> vm'
         | (Some op, vm') \<Rightarrow>
             if begin_conditional_block op then
               skip_loop is_if desired_depth
                 (vm'\<lparr>m_condition_depth := Suc (m_condition_depth vm')\<rparr>)
             else if op = EndConditionalBlock False then
               skip_loop is_if desired_depth
                 (vm'\<lparr>m_condition_depth := m_condition_depth vm' - 1\<rparr>)
             else if op = EndConditionalBlock True \<and> is_if \<and>
                     m_condition_depth vm' - 1 = desired_depth then vm'
             else skip_loop is_if desired_depth vm')
      else vm)"
  by pat_completeness auto

lemma DecodeNextOpcode_measure:
  assumes "(Some op, vm') = DecodeNextOpcode vm"
  shows "m_num_opcodes vm' - m_instruction_ptr vm' < m_num_opcodes vm - m_instruction_ptr vm"
proof -
  note d = DecodeNextOpcode_Some [OF assms [symmetric]]
  have "m_num_opcodes vm' = m_num_opcodes vm"
    by (subst d(5)) simp
  then show ?thesis
    using d(2,3) by linarith
qed

termination skip_loop
  by (relation "measure (\<lambda>(_, _, vm). m_num_opcodes vm - m_instruction_ptr vm)")
     (auto dest: DecodeNextOpcode_measure)

declare skip_loop.simps [simp del]

text \<open>\<open>None\<close> is the abort with \<^verbatim>\<open>ResultVirtualMachineInvalidConditionDepth\<close>.\<close>

definition SkipConditionalBlock :: "bool \<Rightarrow> CheatVirtualMachine \<Rightarrow> CheatVirtualMachine option" where
  "SkipConditionalBlock is_if vm =
     (if 0 < m_condition_depth vm
      then Some (skip_loop is_if (m_condition_depth vm - 1) vm) else None)"

section \<open>Values and addresses\<close>

definition GetVmInt :: "u64 \<Rightarrow> u32 \<Rightarrow> u64" where
  "GetVmInt val bit_width =
     (if bit_width = 1 then cast_u8 val else if bit_width = 2 then cast_u16 val
      else if bit_width = 4 then cast_u32 val else if bit_width = 8 then val else 0)"

definition GetCheatProcessAddress :: "CheatProcessMetadata \<Rightarrow> MemoryAccessType \<Rightarrow> u64 \<Rightarrow> u64" where
  "GetCheatProcessAddress metadata mem_type rel_address =
     (case mem_type of
        Heap \<Rightarrow> ext_base (heap_extents metadata) + rel_address
      | Alias \<Rightarrow> ext_base (alias_extents metadata) + rel_address
      | Aslr \<Rightarrow> ext_base (aslr_extents metadata) + rel_address
      | _ \<Rightarrow> ext_base (main_nso_extents metadata) + rel_address)"

text \<open>The widths on which the executor accesses memory: \<^verbatim>\<open>case 1: case 2: case 4: case 8:\<close>.\<close>

definition valid_width :: "u32 \<Rightarrow> bool" where
  "valid_width bw \<longleftrightarrow> bw = 1 \<or> bw = 2 \<or> bw = 4 \<or> bw = 8"

definition reg :: "CheatVirtualMachine \<Rightarrow> u32 \<Rightarrow> u64" where
  "reg vm r = m_registers vm ! unat r"

definition set_reg :: "u32 \<Rightarrow> u64 \<Rightarrow> CheatVirtualMachine \<Rightarrow> CheatVirtualMachine" where
  "set_reg r v vm = vm\<lparr>m_registers := (m_registers vm)[unat r := v]\<rparr>"

text \<open>A guarded read into a 64-bit variable, and a guarded write of a 64-bit variable.\<close>

definition read_width :: "'m debug_svc \<Rightarrow> 'm process_state \<Rightarrow> u64 \<Rightarrow> u64 \<Rightarrow> u32 \<Rightarrow> u64" where
  "read_width svc ps addr old bw =
     (if valid_width bw
      then overlay_bytes old (snd (ReadCheatProcessMemoryUnsafe svc ps addr (unat bw))) else old)"

definition write_width :: "'m debug_svc \<Rightarrow> 'm process_state \<Rightarrow> u64 \<Rightarrow> u64 \<Rightarrow> u32 \<Rightarrow> 'm process_state" where
  "write_width svc ps addr v bw =
     (if valid_width bw
      then snd (WriteCheatProcessMemoryUnsafe svc ps addr (u64_bytes v (unat bw))) else ps)"

definition check_condition :: "ConditionalComparisonType \<Rightarrow> u64 \<Rightarrow> u64 \<Rightarrow> bool" where
  "check_condition cond_type src_value cond_value =
     (case cond_type of
        CondGT \<Rightarrow> src_value > cond_value
      | CondGE \<Rightarrow> src_value \<ge> cond_value
      | CondLT \<Rightarrow> src_value < cond_value
      | CondLE \<Rightarrow> src_value \<le> cond_value
      | CondEQ \<Rightarrow> src_value = cond_value
      | CondNE \<Rightarrow> src_value \<noteq> cond_value
      | CondOther _ \<Rightarrow> False)"

text \<open>A register read at a bit width; an invalid width yields zero.\<close>

definition reg_at_width :: "CheatVirtualMachine \<Rightarrow> u32 \<Rightarrow> u32 \<Rightarrow> u64" where
  "reg_at_width vm r bw =
     (if bw = 1 then cast_u8 (reg vm r AND 0xFF)
      else if bw = 2 then cast_u16 (reg vm r AND 0xFFFF)
      else if bw = 4 then cast_u32 (reg vm r AND 0xFFFFFFFF)
      else if bw = 8 then reg vm r AND 0xFFFFFFFFFFFFFFFF else 0)"

text \<open>The casts that apply the bit width to a result; an invalid width changes nothing.\<close>

definition apply_width :: "u32 \<Rightarrow> u64 \<Rightarrow> u64" where
  "apply_width bw v =
     (if bw = 1 then cast_u8 v else if bw = 2 then cast_u16 v
      else if bw = 4 then cast_u32 v else v)"

text \<open>
  Shifts of a 64-bit register. C++ leaves amounts of 64 and more undefined; the model
  takes what the target processor does, which uses the low six bits of the amount.
\<close>

definition shl64 :: "u64 \<Rightarrow> u64 \<Rightarrow> u64" where
  "shl64 v amount = push_bit (unat (amount AND 63)) v"

definition shr64 :: "u64 \<Rightarrow> u64 \<Rightarrow> u64" where
  "shr64 v amount = drop_bit (unat (amount AND 63)) v"

section \<open>Conditions\<close>

definition eval_BeginConditional ::
    "'m debug_svc \<Rightarrow> CheatProcessMetadata \<Rightarrow> 'm process_state \<Rightarrow>
     u32 \<Rightarrow> MemoryAccessType \<Rightarrow> ConditionalComparisonType \<Rightarrow> u64 \<Rightarrow> u64 \<Rightarrow> bool" where
  "eval_BeginConditional svc metadata ps bit_width mem_type cond_type rel_address val =
     (let src_address = GetCheatProcessAddress metadata mem_type rel_address;
          src_value = read_width svc ps src_address 0 bit_width;
          cond_value = GetVmInt val bit_width
      in check_condition cond_type src_value cond_value)"

definition eval_Keypress :: "u64 \<Rightarrow> u32 \<Rightarrow> bool" where
  "eval_Keypress kHeld key_mask \<longleftrightarrow> ucast key_mask AND kHeld = ucast key_mask"

definition compare_address ::
    "CheatProcessMetadata \<Rightarrow> CheatVirtualMachine \<Rightarrow> CompareRegisterValue \<Rightarrow> u64" where
  "compare_address metadata vm operand =
     (case operand of
        CmpMemoryRelAddr mem_type rel_address \<Rightarrow> GetCheatProcessAddress metadata mem_type rel_address
      | CmpMemoryOfsReg mem_type ofs_reg \<Rightarrow> GetCheatProcessAddress metadata mem_type (reg vm ofs_reg)
      | CmpRegisterRelAddr addr_reg rel_address \<Rightarrow> reg vm addr_reg + rel_address
      | CmpRegisterOfsReg addr_reg ofs_reg \<Rightarrow> reg vm addr_reg + reg vm ofs_reg
      | _ \<Rightarrow> 0)"

definition eval_BeginRegisterConditional ::
    "'m debug_svc \<Rightarrow> CheatProcessMetadata \<Rightarrow> 'm exec_state \<Rightarrow>
     u32 \<Rightarrow> ConditionalComparisonType \<Rightarrow> u32 \<Rightarrow> CompareRegisterValue \<Rightarrow> bool" where
  "eval_BeginRegisterConditional svc metadata s bit_width cond_type val_reg operand =
     (let (vm, ps) = s;
          src_value = reg_at_width vm val_reg bit_width;
          cond_value =
            (case operand of
               CmpStaticValue val \<Rightarrow> GetVmInt val bit_width
             | CmpOtherRegister other_reg \<Rightarrow> reg_at_width vm other_reg bit_width
             | _ \<Rightarrow> read_width svc ps (compare_address metadata vm operand) 0 bit_width)
      in check_condition cond_type src_value cond_value)"

text \<open>
  The three opcodes that open a block: the condition they test, and what the executor
  does with it (the block's depth is already counted).
\<close>

fun eval_condition ::
    "'m debug_svc \<Rightarrow> CheatProcessMetadata \<Rightarrow> u64 \<Rightarrow> 'm exec_state \<Rightarrow> CheatVmOpcode \<Rightarrow> bool" where
  "eval_condition svc metadata kHeld s (BeginConditionalBlock bw mt c rel v) =
     eval_BeginConditional svc metadata (snd s) bw mt c rel v"
| "eval_condition svc metadata kHeld s (BeginKeypressConditionalBlock key_mask) =
     eval_Keypress kHeld key_mask"
| "eval_condition svc metadata kHeld s (BeginRegisterConditionalBlock bw c r operand) =
     eval_BeginRegisterConditional svc metadata s bw c r operand"
| "eval_condition svc metadata kHeld s _ = True"

definition exec_begin_block :: "bool \<Rightarrow> 'm exec_state \<Rightarrow> 'm exec_state option" where
  "exec_begin_block cond_met s =
     (if cond_met then Some s
      else map_option (\<lambda>vm. (vm, snd s)) (SkipConditionalBlock True (fst s)))"

section \<open>Control opcodes\<close>

definition exec_EndConditional :: "bool \<Rightarrow> 'm exec_state \<Rightarrow> 'm exec_state option" where
  "exec_EndConditional is_else s =
     (if is_else then map_option (\<lambda>vm. (vm, snd s)) (SkipConditionalBlock False (fst s))
      else if 0 < m_condition_depth (fst s)
      then Some ((fst s)\<lparr>m_condition_depth := m_condition_depth (fst s) - 1\<rparr>, snd s)
      else Some s)"

definition exec_StartLoop :: "u32 \<Rightarrow> u32 \<Rightarrow> CheatVirtualMachine \<Rightarrow> CheatVirtualMachine" where
  "exec_StartLoop r num_iters vm =
     (set_reg r (ucast num_iters) vm)
       \<lparr>m_loop_tops := (m_loop_tops vm)[unat r := m_instruction_ptr vm]\<rparr>"

definition exec_EndLoop :: "u32 \<Rightarrow> CheatVirtualMachine \<Rightarrow> CheatVirtualMachine" where
  "exec_EndLoop r vm =
     (let vm' = set_reg r (reg vm r - 1) vm
      in if reg vm' r \<noteq> 0 then vm'\<lparr>m_instruction_ptr := m_loop_tops vm' ! unat r\<rparr> else vm')"

section \<open>Data opcodes\<close>

definition exec_StoreStatic ::
    "'m debug_svc \<Rightarrow> CheatProcessMetadata \<Rightarrow>
     u32 \<Rightarrow> MemoryAccessType \<Rightarrow> u32 \<Rightarrow> u64 \<Rightarrow> u64 \<Rightarrow> 'm exec_state \<Rightarrow> 'm exec_state" where
  "exec_StoreStatic svc metadata bw mt r rel v s =
     (let (vm, ps) = s;
          dst_address = GetCheatProcessAddress metadata mt (rel + reg vm r);
          dst_value = GetVmInt v bw
      in (vm, write_width svc ps dst_address dst_value bw))"

definition exec_LoadRegisterMemory ::
    "'m debug_svc \<Rightarrow> CheatProcessMetadata \<Rightarrow>
     u32 \<Rightarrow> MemoryAccessType \<Rightarrow> u32 \<Rightarrow> bool \<Rightarrow> u64 \<Rightarrow> 'm exec_state \<Rightarrow> 'm exec_state" where
  "exec_LoadRegisterMemory svc metadata bw mt r load_from_reg rel s =
     (let (vm, ps) = s;
          src_address = (if load_from_reg then reg vm r + rel
                         else GetCheatProcessAddress metadata mt rel)
      in (set_reg r (read_width svc ps src_address (reg vm r) bw) vm, ps))"

definition exec_StoreStaticToAddress ::
    "'m debug_svc \<Rightarrow> u32 \<Rightarrow> u32 \<Rightarrow> bool \<Rightarrow> bool \<Rightarrow> u32 \<Rightarrow> u64 \<Rightarrow> 'm exec_state \<Rightarrow> 'm exec_state" where
  "exec_StoreStaticToAddress svc bw r increment_reg add_offset_reg offset_reg v s =
     (let (vm, ps) = s;
          dst_address = reg vm r + (if add_offset_reg then reg vm offset_reg else 0);
          ps' = write_width svc ps dst_address v bw
      in (if increment_reg then set_reg r (reg vm r + ucast bw) vm else vm, ps'))"

definition math_static :: "RegisterArithmeticType \<Rightarrow> u64 \<Rightarrow> u32 \<Rightarrow> u64" where
  "math_static math_type a v =
     (case math_type of
        Addition \<Rightarrow> a + ucast v
      | Subtraction \<Rightarrow> a - ucast v
      | Multiplication \<Rightarrow> a * ucast v
      | LeftShift \<Rightarrow> shl64 a (ucast v)
      | RightShift \<Rightarrow> shr64 a (ucast v)
      | _ \<Rightarrow> a)"

definition exec_PerformArithmeticStatic ::
    "u32 \<Rightarrow> u32 \<Rightarrow> RegisterArithmeticType \<Rightarrow> u32 \<Rightarrow> CheatVirtualMachine \<Rightarrow> CheatVirtualMachine" where
  "exec_PerformArithmeticStatic bw r math_type v vm =
     set_reg r (apply_width bw (math_static math_type (reg vm r) v)) vm"

definition math_register :: "RegisterArithmeticType \<Rightarrow> u64 \<Rightarrow> u64 \<Rightarrow> u64" where
  "math_register math_type a b =
     (case math_type of
        Addition \<Rightarrow> a + b
      | Subtraction \<Rightarrow> a - b
      | Multiplication \<Rightarrow> a * b
      | LeftShift \<Rightarrow> shl64 a b
      | RightShift \<Rightarrow> shr64 a b
      | LogicalAnd \<Rightarrow> a AND b
      | LogicalOr \<Rightarrow> a OR b
      | LogicalNot \<Rightarrow> NOT a
      | LogicalXor \<Rightarrow> a XOR b
      | ArithNone \<Rightarrow> a
      | ArithOther _ \<Rightarrow> 0)"

definition exec_PerformArithmeticRegister ::
    "u32 \<Rightarrow> RegisterArithmeticType \<Rightarrow> u32 \<Rightarrow> u32 \<Rightarrow> u32 + u64 \<Rightarrow>
     CheatVirtualMachine \<Rightarrow> CheatVirtualMachine" where
  "exec_PerformArithmeticRegister bw math_type dst src1 src2 vm =
     (let operand_1_value = reg vm src1;
          operand_2_value = (case src2 of Inl r \<Rightarrow> reg vm r | Inr v \<Rightarrow> GetVmInt v bw)
      in set_reg dst (apply_width bw (math_register math_type operand_1_value operand_2_value)) vm)"

definition store_register_address ::
    "CheatProcessMetadata \<Rightarrow> CheatVirtualMachine \<Rightarrow> u32 \<Rightarrow> StoreRegisterOffset \<Rightarrow> u64" where
  "store_register_address metadata vm addr_reg ofs =
     (case ofs of
        OfsNone \<Rightarrow> reg vm addr_reg
      | OfsReg ofs_reg \<Rightarrow> reg vm addr_reg + reg vm ofs_reg
      | OfsImm rel \<Rightarrow> reg vm addr_reg + rel
      | OfsMemReg mt \<Rightarrow> GetCheatProcessAddress metadata mt (reg vm addr_reg)
      | OfsMemImm mt rel \<Rightarrow> GetCheatProcessAddress metadata mt rel
      | OfsMemImmReg mt rel \<Rightarrow> GetCheatProcessAddress metadata mt (reg vm addr_reg + rel))"

definition exec_StoreRegisterToAddress ::
    "'m debug_svc \<Rightarrow> CheatProcessMetadata \<Rightarrow>
     u32 \<Rightarrow> u32 \<Rightarrow> u32 \<Rightarrow> bool \<Rightarrow> StoreRegisterOffset \<Rightarrow> 'm exec_state \<Rightarrow> 'm exec_state" where
  "exec_StoreRegisterToAddress svc metadata bw str_reg addr_reg increment_reg ofs s =
     (let (vm, ps) = s;
          dst_value = reg vm str_reg;
          dst_address = store_register_address metadata vm addr_reg ofs;
          ps' = write_width svc ps dst_address dst_value bw
      in (if increment_reg then set_reg addr_reg (reg vm addr_reg + ucast bw) vm else vm, ps'))"

definition exec_SaveRestoreRegister ::
    "u32 \<Rightarrow> u32 \<Rightarrow> SaveRestoreRegisterOpType \<Rightarrow> CheatVirtualMachine \<Rightarrow> CheatVirtualMachine" where
  "exec_SaveRestoreRegister dst src op_type vm =
     (case op_type of
        SrClearRegs \<Rightarrow> set_reg dst 0 vm
      | SrClearSaved \<Rightarrow> vm\<lparr>m_saved_values := (m_saved_values vm)[unat dst := 0]\<rparr>
      | SrSave \<Rightarrow> vm\<lparr>m_saved_values := (m_saved_values vm)[unat dst := reg vm src]\<rparr>
      | _ \<Rightarrow> set_reg dst (m_saved_values vm ! unat src) vm)"

text \<open>
  The loop over \<^verbatim>\<open>dst[i]\<close> and \<^verbatim>\<open>src[i]\<close>: the two arrays are different members, and
  each index is visited once.
\<close>

definition masked_copy :: "bool list \<Rightarrow> u64 list \<Rightarrow> u64 list \<Rightarrow> u64 list" where
  "masked_copy should_operate src dst =
     foldl (\<lambda>d i. if should_operate ! i then d[i := src ! i] else d) dst [0..<NumRegisters]"

definition masked_clear :: "bool list \<Rightarrow> u64 list \<Rightarrow> u64 list" where
  "masked_clear should_operate dst =
     foldl (\<lambda>d i. if should_operate ! i then d[i := 0] else d) dst [0..<NumRegisters]"

definition exec_SaveRestoreRegisterMask ::
    "SaveRestoreRegisterOpType \<Rightarrow> bool list \<Rightarrow> CheatVirtualMachine \<Rightarrow> CheatVirtualMachine" where
  "exec_SaveRestoreRegisterMask op_type should_operate vm =
     (case op_type of
        SrClearSaved \<Rightarrow> vm\<lparr>m_saved_values := masked_clear should_operate (m_saved_values vm)\<rparr>
      | SrSave \<Rightarrow> vm\<lparr>m_saved_values :=
                    masked_copy should_operate (m_registers vm) (m_saved_values vm)\<rparr>
      | SrClearRegs \<Rightarrow> vm\<lparr>m_registers := masked_clear should_operate (m_registers vm)\<rparr>
      | _ \<Rightarrow> vm\<lparr>m_registers :=
               masked_copy should_operate (m_saved_values vm) (m_registers vm)\<rparr>)"

definition exec_ReadWriteStaticRegister ::
    "u32 \<Rightarrow> u32 \<Rightarrow> CheatVirtualMachine \<Rightarrow> CheatVirtualMachine" where
  "exec_ReadWriteStaticRegister static_idx idx vm =
     (if unat static_idx < NumReadableStaticRegisters
      then set_reg idx (m_static_registers vm ! unat static_idx) vm
      else vm\<lparr>m_static_registers := (m_static_registers vm)[unat static_idx := reg vm idx]\<rparr>)"

definition log_address ::
    "CheatProcessMetadata \<Rightarrow> CheatVirtualMachine \<Rightarrow> DebugLogValue \<Rightarrow> u64" where
  "log_address metadata vm operand =
     (case operand of
        LogMemoryRelAddr mt rel \<Rightarrow> GetCheatProcessAddress metadata mt rel
      | LogMemoryOfsReg mt ofs_reg \<Rightarrow> GetCheatProcessAddress metadata mt (reg vm ofs_reg)
      | LogRegisterRelAddr addr_reg rel \<Rightarrow> reg vm addr_reg + rel
      | LogRegisterOfsReg addr_reg ofs_reg \<Rightarrow> reg vm addr_reg + reg vm ofs_reg
      | _ \<Rightarrow> 0)"

definition exec_DebugLog ::
    "'m debug_svc \<Rightarrow> CheatProcessMetadata \<Rightarrow>
     u32 \<Rightarrow> u32 \<Rightarrow> DebugLogValue \<Rightarrow> 'm exec_state \<Rightarrow> 'm exec_state" where
  "exec_DebugLog svc metadata bw log_id operand s =
     (let (vm, ps) = s;
          log_value =
            (case operand of
               LogRegisterValue r \<Rightarrow> reg_at_width vm r bw
             | _ \<Rightarrow> read_width svc ps (log_address metadata vm operand) 0 bw)
      in (vm, ps\<lparr>debug_log_calls := debug_log_calls ps @ [(log_id, log_value)]\<rparr>))"

section \<open>The executor\<close>

fun execute_opcode ::
    "'m debug_svc \<Rightarrow> CheatProcessMetadata \<Rightarrow> u64 \<Rightarrow> CheatVmOpcode \<Rightarrow>
     'm exec_state \<Rightarrow> 'm exec_state option" where
  "execute_opcode svc md kHeld (StoreStatic bw mt r rel v) s =
     Some (exec_StoreStatic svc md bw mt r rel v s)"
| "execute_opcode svc md kHeld (BeginConditionalBlock bw mt c rel v) s =
     exec_begin_block (eval_condition svc md kHeld s (BeginConditionalBlock bw mt c rel v)) s"
| "execute_opcode svc md kHeld (EndConditionalBlock is_else) s = exec_EndConditional is_else s"
| "execute_opcode svc md kHeld (StartLoop r n) s = Some (exec_StartLoop r n (fst s), snd s)"
| "execute_opcode svc md kHeld (EndLoop r) s = Some (exec_EndLoop r (fst s), snd s)"
| "execute_opcode svc md kHeld (LoadRegisterStatic r v) s = Some (set_reg r v (fst s), snd s)"
| "execute_opcode svc md kHeld (LoadRegisterMemory bw mt r b rel) s =
     Some (exec_LoadRegisterMemory svc md bw mt r b rel s)"
| "execute_opcode svc md kHeld (StoreStaticToAddress bw r inc add ofs v) s =
     Some (exec_StoreStaticToAddress svc bw r inc add ofs v s)"
| "execute_opcode svc md kHeld (PerformArithmeticStatic bw r m v) s =
     Some (exec_PerformArithmeticStatic bw r m v (fst s), snd s)"
| "execute_opcode svc md kHeld (BeginKeypressConditionalBlock k) s =
     exec_begin_block (eval_condition svc md kHeld s (BeginKeypressConditionalBlock k)) s"
| "execute_opcode svc md kHeld (PerformArithmeticRegister bw m d a b) s =
     Some (exec_PerformArithmeticRegister bw m d a b (fst s), snd s)"
| "execute_opcode svc md kHeld (StoreRegisterToAddress bw sr ar inc ofs) s =
     Some (exec_StoreRegisterToAddress svc md bw sr ar inc ofs s)"
| "execute_opcode svc md kHeld (BeginRegisterConditionalBlock bw c r x) s =
     exec_begin_block (eval_condition svc md kHeld s (BeginRegisterConditionalBlock bw c r x)) s"
| "execute_opcode svc md kHeld (SaveRestoreRegister d a x) s =
     Some (exec_SaveRestoreRegister d a x (fst s), snd s)"
| "execute_opcode svc md kHeld (SaveRestoreRegisterMask x bs) s =
     Some (exec_SaveRestoreRegisterMask x bs (fst s), snd s)"
| "execute_opcode svc md kHeld (ReadWriteStaticRegister si i) s =
     Some (exec_ReadWriteStaticRegister si i (fst s), snd s)"
| "execute_opcode svc md kHeld PauseProcess s =
     Some (fst s, snd (PauseCheatProcessUnsafe svc (snd s)))"
| "execute_opcode svc md kHeld ResumeProcess s =
     Some (fst s, snd (ResumeCheatProcessUnsafe svc (snd s)))"
| "execute_opcode svc md kHeld (DebugLog bw i x) s = Some (exec_DebugLog svc md bw i x s)"

text \<open>The body of the executor's loop: count the block an opcode opens, then act.\<close>

definition execute_instruction ::
    "'m debug_svc \<Rightarrow> CheatProcessMetadata \<Rightarrow> u64 \<Rightarrow> CheatVmOpcode \<Rightarrow>
     'm exec_state \<Rightarrow> 'm exec_state option" where
  "execute_instruction svc md kHeld op s =
     execute_opcode svc md kHeld op
       (if begin_conditional_block op
        then ((fst s)\<lparr>m_condition_depth := Suc (m_condition_depth (fst s))\<rparr>, snd s) else s)"

definition ResetState :: "CheatVirtualMachine \<Rightarrow> CheatVirtualMachine" where
  "ResetState vm =
     vm\<lparr>m_registers := replicate NumRegisters 0, m_saved_values := replicate NumRegisters 0,
        m_loop_tops := replicate NumRegisters 0, m_instruction_ptr := 0,
        m_condition_depth := 0, m_decode_success := True\<rparr>"

text \<open>
  The loop of \<^verbatim>\<open>Execute\<close>. A cheat may loop forever, so the loop is given a number of
  instructions it may execute.
\<close>

datatype 'a outcome = Finished 'a | Aborted | OutOfFuel

fun ExecuteLoop ::
    "nat \<Rightarrow> 'm debug_svc \<Rightarrow> CheatProcessMetadata \<Rightarrow> u64 \<Rightarrow> 'm exec_state \<Rightarrow> 'm exec_state outcome" where
  "ExecuteLoop 0 svc md kHeld s = OutOfFuel"
| "ExecuteLoop (Suc n) svc md kHeld s =
     (case DecodeNextOpcode (fst s) of
        (None, vm') \<Rightarrow> Finished (vm', snd s)
      | (Some op, vm') \<Rightarrow>
          (case execute_instruction svc md kHeld op (vm', snd s) of
             None \<Rightarrow> Aborted
           | Some s' \<Rightarrow> ExecuteLoop n svc md kHeld s'))"

definition Execute ::
    "nat \<Rightarrow> 'm debug_svc \<Rightarrow> CheatProcessMetadata \<Rightarrow> u64 \<Rightarrow> 'm exec_state \<Rightarrow> 'm exec_state outcome" where
  "Execute n svc md kHeld s = ExecuteLoop n svc md kHeld (ResetState (fst s), snd s)"

section \<open>Programs and static registers\<close>

text \<open>Copying the opcodes of one cheat behind the program.\<close>

fun append_opcodes :: "u32 list \<Rightarrow> CheatVirtualMachine \<Rightarrow> CheatVirtualMachine" where
  "append_opcodes [] vm = vm"
| "append_opcodes (w # ws) vm =
     append_opcodes ws
       (vm\<lparr>m_program := (m_program vm)[m_num_opcodes vm := w],
           m_num_opcodes := Suc (m_num_opcodes vm)\<rparr>)"

text \<open>The opcodes a cheat contributes: the loop over \<^verbatim>\<open>n < num_opcodes\<close>.\<close>

definition cheat_opcodes :: "CheatEntry \<Rightarrow> u32 list" where
  "cheat_opcodes c =
     map (\<lambda>n. opcodes (cheat_definition c) ! n) [0..<unat (num_opcodes (cheat_definition c))]"

fun LoadProgram_loop :: "CheatEntry list \<Rightarrow> CheatVirtualMachine \<Rightarrow> bool \<times> CheatVirtualMachine" where
  "LoadProgram_loop [] vm = (True, vm)"
| "LoadProgram_loop (c # cs) vm =
     (if enabled c then
        (if MaximumProgramOpcodeCount < unat (num_opcodes (cheat_definition c)) + m_num_opcodes vm
         then (False, vm\<lparr>m_num_opcodes := 0\<rparr>)
         else LoadProgram_loop cs (append_opcodes (cheat_opcodes c) vm))
      else LoadProgram_loop cs vm)"

definition LoadProgram :: "CheatEntry list \<Rightarrow> CheatVirtualMachine \<Rightarrow> bool \<times> CheatVirtualMachine" where
  "LoadProgram cheats vm = LoadProgram_loop cheats (vm\<lparr>m_num_opcodes := 0\<rparr>)"

definition GetProgramSize :: "CheatVirtualMachine \<Rightarrow> nat" where
  "GetProgramSize vm = m_num_opcodes vm"

definition GetStaticRegister :: "CheatVirtualMachine \<Rightarrow> nat \<Rightarrow> u64" where
  "GetStaticRegister vm which = m_static_registers vm ! which"

definition SetStaticRegister :: "nat \<Rightarrow> u64 \<Rightarrow> CheatVirtualMachine \<Rightarrow> CheatVirtualMachine" where
  "SetStaticRegister which v vm = vm\<lparr>m_static_registers := (m_static_registers vm)[which := v]\<rparr>"

definition ResetStaticRegisters_vm :: "CheatVirtualMachine \<Rightarrow> CheatVirtualMachine" where
  "ResetStaticRegisters_vm vm = vm\<lparr>m_static_registers := replicate NumStaticRegisters 0\<rparr>"

section \<open>The machine invariant\<close>

text \<open>The arrays have their declared sizes and the program fits.\<close>

definition vm_arrays :: "CheatVirtualMachine \<Rightarrow> bool" where
  "vm_arrays vm \<longleftrightarrow>
     length (m_program vm) = MaximumProgramOpcodeCount \<and>
     m_num_opcodes vm \<le> MaximumProgramOpcodeCount \<and>
     length (m_registers vm) = NumRegisters \<and> length (m_saved_values vm) = NumRegisters \<and>
     length (m_static_registers vm) = NumStaticRegisters \<and>
     length (m_loop_tops vm) = NumRegisters"

text \<open>During execution the pointer and every loop top stay within the program.\<close>

definition vm_inv :: "CheatVirtualMachine \<Rightarrow> bool" where
  "vm_inv vm \<longleftrightarrow>
     vm_arrays vm \<and> m_instruction_ptr vm \<le> m_num_opcodes vm \<and>
     (\<forall>t \<in> set (m_loop_tops vm). t \<le> m_num_opcodes vm)"

lemma vm_arrays_control [simp]:
  "vm_arrays (vm\<lparr>m_instruction_ptr := ip\<rparr>) = vm_arrays vm"
  "vm_arrays (vm\<lparr>m_condition_depth := d\<rparr>) = vm_arrays vm"
  "vm_arrays (vm\<lparr>m_decode_success := b\<rparr>) = vm_arrays vm"
  by (simp_all add: vm_arrays_def)

lemma vm_inv_control [simp]:
  "vm_inv (vm\<lparr>m_condition_depth := d\<rparr>) = vm_inv vm"
  "vm_inv (vm\<lparr>m_decode_success := b\<rparr>) = vm_inv vm"
  by (simp_all add: vm_inv_def)

lemma vm_inv_data:
  assumes "vm_inv vm"
  shows "length rs = NumRegisters \<Longrightarrow> vm_inv (vm\<lparr>m_registers := rs\<rparr>)"
    and "length ss = NumRegisters \<Longrightarrow> vm_inv (vm\<lparr>m_saved_values := ss\<rparr>)"
    and "length ts = NumStaticRegisters \<Longrightarrow> vm_inv (vm\<lparr>m_static_registers := ts\<rparr>)"
  using assms by (simp_all add: vm_inv_def vm_arrays_def)

lemma vm_inv_lengths:
  "vm_inv vm \<Longrightarrow> length (m_registers vm) = NumRegisters"
  "vm_inv vm \<Longrightarrow> length (m_saved_values vm) = NumRegisters"
  "vm_inv vm \<Longrightarrow> length (m_static_registers vm) = NumStaticRegisters"
  "vm_inv vm \<Longrightarrow> length (m_loop_tops vm) = NumRegisters"
  by (simp_all add: vm_inv_def vm_arrays_def)

lemma set_reg_inv [inv_intros]: "vm_inv vm \<Longrightarrow> vm_inv (set_reg r v vm)"
  by (simp add: set_reg_def vm_inv_data vm_inv_lengths)

lemma ResetState_inv [inv_intros]: "vm_arrays vm \<Longrightarrow> vm_inv (ResetState vm)"
  by (auto simp: ResetState_def vm_inv_def vm_arrays_def)

lemma DecodeNextOpcode_inv:
  assumes "vm_inv vm" "DecodeNextOpcode vm = (r, vm')"
  shows "vm_inv vm'"
proof (cases r)
  case None
  with assms have "vm' = vm\<lparr>m_instruction_ptr := m_instruction_ptr vm', m_decode_success := False\<rparr>"
    "m_instruction_ptr vm' \<le> m_num_opcodes vm"
    using DecodeNextOpcode_None [of vm vm'] by (auto simp: vm_inv_def)
  moreover have "vm_inv (vm\<lparr>m_instruction_ptr := m_instruction_ptr vm', m_decode_success := False\<rparr>)"
    using assms(1) calculation(2) by (simp add: vm_inv_def)
  ultimately show ?thesis
    by simp
next
  case (Some op)
  with assms have "vm' = vm\<lparr>m_instruction_ptr := m_instruction_ptr vm'\<rparr>"
    "m_instruction_ptr vm' \<le> m_num_opcodes vm"
    using DecodeNextOpcode_Some [of vm op vm'] by auto
  moreover have "vm_inv (vm\<lparr>m_instruction_ptr := m_instruction_ptr vm'\<rparr>)"
    using assms(1) calculation(2) by (simp add: vm_inv_def)
  ultimately show ?thesis
    by simp
qed

lemma skip_loop_inv [inv_intros]: "vm_inv vm \<Longrightarrow> vm_inv (skip_loop is_if d vm)"
proof (induction is_if d vm rule: skip_loop.induct)
  case (1 is_if d vm)
  show ?case
  proof (cases "DecodeNextOpcode vm")
    case (Pair r vm')
    have inv: "vm_inv vm'"
      using "1.prems" Pair by (rule DecodeNextOpcode_inv)
    show ?thesis
    proof (cases "d < m_condition_depth vm")
      case False
      then show ?thesis
        using "1.prems" by (subst skip_loop.simps) simp
    next
      case True
      show ?thesis
      proof (cases r)
        case None
        then show ?thesis
          using True Pair inv by (subst skip_loop.simps) simp
      next
        case (Some op)
        note IH = "1.IH" [OF True Pair [symmetric] Some]
        show ?thesis
          using True Pair Some inv IH
          by (subst skip_loop.simps) auto
      qed
    qed
  qed
qed

section \<open>Masked saves and restores\<close>

lemma masked_fold:
  assumes "n \<le> length d"
  shows "foldl (\<lambda>d i. if p i then d[i := f i] else d) d [0..<n] =
    map (\<lambda>i. if i < n \<and> p i then f i else d ! i) [0..<length d]"
  using assms
proof (induction n)
  case 0
  then show ?case by (simp add: map_nth)
next
  case (Suc n)
  then show ?case
    by (auto intro!: nth_equalityI simp: nth_list_update less_Suc_eq)
qed

lemma masked_copy_eq:
  assumes "length dst = NumRegisters"
  shows "masked_copy bs src dst =
    map (\<lambda>i. if bs ! i then src ! i else dst ! i) [0..<NumRegisters]"
  using assms by (simp add: masked_copy_def masked_fold)

lemma masked_clear_eq:
  assumes "length dst = NumRegisters"
  shows "masked_clear bs dst = map (\<lambda>i. if bs ! i then 0 else dst ! i) [0..<NumRegisters]"
  using assms by (simp add: masked_clear_def masked_fold)

lemma length_masked [simp]:
  "length dst = NumRegisters \<Longrightarrow> length (masked_copy bs src dst) = NumRegisters"
  "length dst = NumRegisters \<Longrightarrow> length (masked_clear bs dst) = NumRegisters"
  by (simp_all add: masked_copy_eq masked_clear_eq)

section \<open>Preservation of the invariant\<close>

lemma SkipConditionalBlock_inv:
  "SkipConditionalBlock is_if vm = Some vm' \<Longrightarrow> vm_inv vm \<Longrightarrow> vm_inv vm'"
  by (auto simp: SkipConditionalBlock_def skip_loop_inv split: if_splits)

lemma exec_begin_block_inv:
  "exec_begin_block c s = Some s' \<Longrightarrow> vm_inv (fst s) \<Longrightarrow> vm_inv (fst s')"
  by (auto simp: exec_begin_block_def SkipConditionalBlock_inv split: if_splits)

lemma exec_EndConditional_inv:
  "exec_EndConditional e s = Some s' \<Longrightarrow> vm_inv (fst s) \<Longrightarrow> vm_inv (fst s')"
  by (auto simp: exec_EndConditional_def SkipConditionalBlock_inv split: if_splits)

lemma exec_StartLoop_inv [inv_intros]:
  assumes "vm_inv vm"
  shows "vm_inv (exec_StartLoop r n vm)"
proof -
  have "set ((m_loop_tops vm)[unat r := m_instruction_ptr vm]) \<subseteq>
      insert (m_instruction_ptr vm) (set (m_loop_tops vm))"
    by (rule set_update_subset_insert)
  with assms show ?thesis
    by (auto simp: exec_StartLoop_def set_reg_def vm_inv_def vm_arrays_def)
qed

lemma exec_EndLoop_inv [inv_intros]:
  assumes "vm_inv vm" "reg_ok r"
  shows "vm_inv (exec_EndLoop r vm)"
proof -
  have "m_loop_tops vm ! unat r \<le> m_num_opcodes vm"
    using assms by (simp add: vm_inv_def vm_arrays_def)
  moreover have "vm_inv (set_reg r v vm)" for v
    using assms(1) by (rule set_reg_inv)
  ultimately show ?thesis
    by (auto simp: exec_EndLoop_def Let_def vm_inv_def set_reg_def)
qed

lemma exec_data_inv:
  assumes "vm_inv (fst s)"
  shows "vm_inv (fst (exec_StoreStatic svc md bw mt r rel v s))"
    "vm_inv (fst (exec_LoadRegisterMemory svc md bw mt r b rel s))"
    "vm_inv (fst (exec_StoreStaticToAddress svc bw r inc add ofs v s))"
    "vm_inv (exec_PerformArithmeticStatic bw r m i (fst s))"
    "vm_inv (exec_PerformArithmeticRegister bw m d a x (fst s))"
    "vm_inv (fst (exec_StoreRegisterToAddress svc md bw sr ar inc off s))"
    "vm_inv (exec_SaveRestoreRegister d a t (fst s))"
    "vm_inv (exec_SaveRestoreRegisterMask t bs (fst s))"
    "vm_inv (exec_ReadWriteStaticRegister si i (fst s))"
    "vm_inv (fst (exec_DebugLog svc md bw l y s))"
  using assms
  by (cases s; simp add: exec_StoreStatic_def exec_LoadRegisterMemory_def
      exec_StoreStaticToAddress_def exec_PerformArithmeticStatic_def
      exec_PerformArithmeticRegister_def exec_StoreRegisterToAddress_def
      exec_SaveRestoreRegister_def exec_SaveRestoreRegisterMask_def
      exec_ReadWriteStaticRegister_def exec_DebugLog_def Let_def set_reg_inv vm_inv_data
      vm_inv_lengths split: SaveRestoreRegisterOpType.splits)+

lemma execute_opcode_inv:
  assumes "execute_opcode svc md kHeld op s = Some s'" "vm_inv (fst s)" "wf_opcode op"
  shows "vm_inv (fst s')"
  using assms
  by (cases op)
     (auto simp: exec_data_inv exec_StartLoop_inv exec_EndLoop_inv set_reg_inv
       dest: exec_begin_block_inv exec_EndConditional_inv)

lemma execute_instruction_inv:
  assumes "execute_instruction svc md kHeld op s = Some s'" "vm_inv (fst s)" "wf_opcode op"
  shows "vm_inv (fst s')"
  using assms by (auto simp: execute_instruction_def dest!: execute_opcode_inv split: if_splits)

section \<open>What an instruction leaves alone\<close>

text \<open>
  The machine never attaches or detaches, and never adds, drops, moves or resizes a
  frozen address.
\<close>

definition process_frame :: "'m process_state \<Rightarrow> 'm process_state \<Rightarrow> bool" where
  "process_frame ps ps' \<longleftrightarrow>
     m_cheat_process_debug_handle ps' = m_cheat_process_debug_handle ps \<and>
     map frozen_key (m_frozen_addresses_map ps') = map frozen_key (m_frozen_addresses_map ps)"

lemma process_frame_refl [simp]: "process_frame ps ps"
  by (simp add: process_frame_def)

lemma process_frame_trans: "process_frame a b \<Longrightarrow> process_frame b c \<Longrightarrow> process_frame a c"
  by (simp add: process_frame_def)

lemma write_width_frame [simp]: "process_frame ps (write_width svc ps addr v bw)"
  using WriteCheatProcessMemoryUnsafe_frame
    [of svc ps addr "u64_bytes v (unat bw)"
      "fst (WriteCheatProcessMemoryUnsafe svc ps addr (u64_bytes v (unat bw)))"
      "snd (WriteCheatProcessMemoryUnsafe svc ps addr (u64_bytes v (unat bw)))"]
  by (simp add: write_width_def process_frame_def)

lemma pause_resume_frame [simp]:
  "process_frame ps (snd (PauseCheatProcessUnsafe svc ps))"
  "process_frame ps (snd (ResumeCheatProcessUnsafe svc ps))"
  by (simp_all add: process_frame_def PauseCheatProcessUnsafe_def ResumeCheatProcessUnsafe_def
      split: prod.splits)

lemma debug_log_frame [simp]: "process_frame ps (ps\<lparr>debug_log_calls := l\<rparr>)"
  by (simp add: process_frame_def)

lemma execute_opcode_frame:
  "execute_opcode svc md kHeld op s = Some s' \<Longrightarrow> process_frame (snd s) (snd s')"
  by (cases op)
     (auto simp: exec_StoreStatic_def exec_LoadRegisterMemory_def exec_StoreStaticToAddress_def
       exec_StoreRegisterToAddress_def exec_DebugLog_def exec_begin_block_def
       exec_EndConditional_def Let_def
       split: prod.splits if_splits)

lemma DecodeNextOpcode_program:
  "DecodeNextOpcode vm = (r, vm') \<Longrightarrow>
   m_program vm' = m_program vm \<and> m_num_opcodes vm' = m_num_opcodes vm"
  by (auto simp: DecodeNextOpcode_def split: prod.splits if_splits)

lemma skip_loop_program:
  "m_program (skip_loop is_if d vm) = m_program vm \<and>
   m_num_opcodes (skip_loop is_if d vm) = m_num_opcodes vm"
proof (induction is_if d vm rule: skip_loop.induct)
  case (1 is_if d vm)
  show ?case
  proof (cases "DecodeNextOpcode vm")
    case (Pair r vm')
    have same: "m_program vm' = m_program vm" "m_num_opcodes vm' = m_num_opcodes vm"
      using DecodeNextOpcode_program [OF Pair] by auto
    show ?thesis
    proof (cases "d < m_condition_depth vm \<and> r \<noteq> None")
      case False
      with Pair same show ?thesis
        by (subst (1 2) skip_loop.simps) auto
    next
      case True
      then obtain op where op: "r = Some op" and d: "d < m_condition_depth vm"
        by auto
      note IH = "1.IH" [OF d Pair [symmetric] op]
      show ?thesis
        using d Pair op same IH
        by (subst (1 2) skip_loop.simps) auto
    qed
  qed
qed

lemma skip_loop_ip: "m_instruction_ptr vm \<le> m_instruction_ptr (skip_loop is_if d vm)"
proof (induction is_if d vm rule: skip_loop.induct)
  case (1 is_if d vm)
  show ?case
  proof (cases "DecodeNextOpcode vm")
    case (Pair r vm')
    have le: "m_instruction_ptr vm \<le> m_instruction_ptr vm'"
      using DecodeNextOpcode_None(2) [of vm vm'] DecodeNextOpcode_Some(2) [of vm _ vm'] Pair
      by (cases r) (auto intro: less_imp_le)
    show ?thesis
    proof (cases "d < m_condition_depth vm \<and> r \<noteq> None")
      case False
      with Pair le show ?thesis
        by (subst skip_loop.simps) auto
    next
      case True
      then obtain op where op: "r = Some op" and d: "d < m_condition_depth vm"
        by auto
      note IH = "1.IH" [OF d Pair [symmetric] op]
      show ?thesis
        using d Pair op le IH
        by (subst skip_loop.simps) (auto intro: order_trans)
    qed
  qed
qed

lemma set_reg_control [simp]:
  "m_program (set_reg r v vm) = m_program vm"
  "m_num_opcodes (set_reg r v vm) = m_num_opcodes vm"
  "m_instruction_ptr (set_reg r v vm) = m_instruction_ptr vm"
  "m_condition_depth (set_reg r v vm) = m_condition_depth vm"
  "m_decode_success (set_reg r v vm) = m_decode_success vm"
  "m_loop_tops (set_reg r v vm) = m_loop_tops vm"
  "m_saved_values (set_reg r v vm) = m_saved_values vm"
  "m_static_registers (set_reg r v vm) = m_static_registers vm"
  by (simp_all add: set_reg_def)

text \<open>
  The opcodes that only move data: they leave the pointer, the depth, the loop tops and
  the program alone.
\<close>

fun data_opcode :: "CheatVmOpcode \<Rightarrow> bool" where
  "data_opcode (EndConditionalBlock _) = False"
| "data_opcode (StartLoop _ _) = False"
| "data_opcode (EndLoop _) = False"
| "data_opcode op = (\<not> begin_conditional_block op)"

definition control_part :: "CheatVirtualMachine \<Rightarrow> nat \<times> nat \<times> nat \<times> bool \<times> u32 list \<times> nat list" where
  "control_part vm = (m_num_opcodes vm, m_instruction_ptr vm, m_condition_depth vm,
     m_decode_success vm, m_program vm, m_loop_tops vm)"

lemma data_opcode_control:
  assumes "data_opcode op"
  shows "\<exists>s'. execute_opcode svc md kHeld op s = Some s' \<and> control_part (fst s') = control_part (fst s)"
  using assms
  by (cases op; cases s)
     (auto simp: control_part_def exec_StoreStatic_def exec_LoadRegisterMemory_def
       exec_StoreStaticToAddress_def exec_PerformArithmeticStatic_def
       exec_PerformArithmeticRegister_def exec_StoreRegisterToAddress_def
       exec_SaveRestoreRegister_def exec_SaveRestoreRegisterMask_def
       exec_ReadWriteStaticRegister_def exec_DebugLog_def Let_def
       split: SaveRestoreRegisterOpType.splits)

lemma opcode_kinds:
  obtains (data) "data_opcode op" | (opens) "begin_conditional_block op"
    | (close) e where "op = EndConditionalBlock e"
    | (start) r n where "op = StartLoop r n" | (again) r where "op = EndLoop r"
  by (cases op) auto

lemma execute_begin_block:
  "begin_conditional_block op \<Longrightarrow>
   execute_opcode svc md kHeld op s = exec_begin_block (eval_condition svc md kHeld s op) s"
  by (cases op) auto

lemma data_not_begin: "data_opcode op \<Longrightarrow> \<not> begin_conditional_block op"
  by (cases op) auto

lemma execute_instruction_program:
  assumes "execute_instruction svc md kHeld op s = Some s'"
  shows "m_program (fst s') = m_program (fst s) \<and> m_num_opcodes (fst s') = m_num_opcodes (fst s)"
proof (cases op rule: opcode_kinds)
  case data
  then show ?thesis
    using assms data_opcode_control [OF data, of svc md kHeld s]
    by (auto simp: execute_instruction_def data_not_begin control_part_def)
next
  case opens
  with assms show ?thesis
    by (auto simp: execute_instruction_def execute_begin_block exec_begin_block_def
        SkipConditionalBlock_def skip_loop_program split: if_splits)
next
  case (close e)
  with assms show ?thesis
    by (auto simp: execute_instruction_def exec_EndConditional_def SkipConditionalBlock_def
        skip_loop_program split: if_splits)
qed (use assms in \<open>auto simp: execute_instruction_def exec_StartLoop_def exec_EndLoop_def Let_def\<close>)

text \<open>Only the end of a loop moves the pointer backwards.\<close>

lemma execute_instruction_ip:
  assumes "execute_instruction svc md kHeld op s = Some s'" "\<forall>r. op \<noteq> EndLoop r"
  shows "m_instruction_ptr (fst s) \<le> m_instruction_ptr (fst s')"
proof (cases op rule: opcode_kinds)
  case data
  then show ?thesis
    using assms data_opcode_control [OF data, of svc md kHeld s]
    by (auto simp: execute_instruction_def data_not_begin control_part_def)
next
  case opens
  with assms show ?thesis
    using skip_loop_ip [of "(fst s)\<lparr>m_condition_depth := Suc (m_condition_depth (fst s))\<rparr>" True
        "m_condition_depth (fst s)"]
    by (auto simp: execute_instruction_def execute_begin_block exec_begin_block_def
        SkipConditionalBlock_def split: if_splits)
next
  case (close e)
  with assms show ?thesis
    by (auto simp: execute_instruction_def exec_EndConditional_def SkipConditionalBlock_def
        skip_loop_ip split: if_splits)
qed (use assms in \<open>auto simp: execute_instruction_def exec_StartLoop_def\<close>)

section \<open>Steps and reachable states\<close>

inductive vm_steps ::
    "'m debug_svc \<Rightarrow> CheatProcessMetadata \<Rightarrow> u64 \<Rightarrow> 'm exec_state \<Rightarrow> 'm exec_state \<Rightarrow> bool"
  for svc md kHeld s where
  init: "vm_steps svc md kHeld s s"
| step: "vm_steps svc md kHeld s s' \<Longrightarrow> DecodeNextOpcode (fst s') = (Some op, vm) \<Longrightarrow>
    execute_instruction svc md kHeld op (vm, snd s') = Some s'' \<Longrightarrow> vm_steps svc md kHeld s s''"

lemma vm_steps_invariant:
  assumes "vm_steps svc md kHeld s s'" "vm_inv (fst s)"
  shows "vm_inv (fst s') \<and> m_program (fst s') = m_program (fst s) \<and>
    m_num_opcodes (fst s') = m_num_opcodes (fst s) \<and> process_frame (snd s) (snd s')"
  using assms
proof (induction rule: vm_steps.induct)
  case init
  then show ?case by simp
next
  case (step s' op vm s'')
  then have IH: "vm_inv (fst s')" "m_program (fst s') = m_program (fst s)"
    "m_num_opcodes (fst s') = m_num_opcodes (fst s)" "process_frame (snd s) (snd s')"
    by auto
  have "vm_inv vm" "wf_opcode op"
    using DecodeNextOpcode_inv [OF IH(1) step.hyps(2)] DecodeNextOpcode_Some(4) [OF step.hyps(2)]
    by auto
  then have "vm_inv (fst s'')"
    using execute_instruction_inv [OF step.hyps(3)] by simp
  moreover have "process_frame (snd s') (snd s'')"
    using step.hyps(3) execute_opcode_frame [of svc md kHeld op _ s'']
    by (fastforce simp: execute_instruction_def split: if_splits)
  ultimately show ?case
    using IH execute_instruction_program [OF step.hyps(3)] DecodeNextOpcode_program [OF step.hyps(2)]
    by (auto intro: process_frame_trans)
qed

lemma vm_steps_trans:
  assumes "vm_steps svc md kHeld b c" "vm_steps svc md kHeld a b"
  shows "vm_steps svc md kHeld a c"
  using assms by (induction rule: vm_steps.induct) (auto intro: vm_steps.intros)

lemma ExecuteLoop_steps:
  assumes "ExecuteLoop n svc md kHeld s = Finished s'"
  shows "\<exists>s1. vm_steps svc md kHeld s s1 \<and> DecodeNextOpcode (fst s1) = (None, fst s') \<and>
    snd s' = snd s1"
  using assms
proof (induction n arbitrary: s)
  case 0
  then show ?case by simp
next
  case (Suc n)
  show ?case
  proof (cases "DecodeNextOpcode (fst s)")
    case (Pair r vm)
    show ?thesis
    proof (cases r)
      case None
      with Suc.prems Pair show ?thesis
        by (intro exI [of _ s]) (auto intro: vm_steps.init)
    next
      case (Some op)
      then obtain s1 where s1: "execute_instruction svc md kHeld op (vm, snd s) = Some s1"
        and run: "ExecuteLoop n svc md kHeld s1 = Finished s'"
        using Suc.prems Pair by (auto split: option.splits)
      have "vm_steps svc md kHeld s s1"
        using vm_steps.step [OF vm_steps.init] Pair Some s1 by simp
      with Suc.IH [OF run] show ?thesis
        by (meson vm_steps_trans)
    qed
  qed
qed

section \<open>Fuel\<close>

lemma ExecuteLoop_more:
  "ExecuteLoop n svc md kHeld s \<noteq> OutOfFuel \<Longrightarrow> n \<le> m \<Longrightarrow>
   ExecuteLoop m svc md kHeld s = ExecuteLoop n svc md kHeld s"
proof (induction n arbitrary: m s)
  case 0
  then show ?case by simp
next
  case (Suc n)
  then obtain k where m: "m = Suc k" "n \<le> k"
    by (cases m) auto
  show ?case
    using Suc.prems(1) Suc.IH [OF _ m(2)] unfolding m(1)
    by (auto split: prod.splits option.splits)
qed

text \<open>A program none of whose positions decodes to the end of a loop.\<close>

definition ends_loop_at :: "CheatVirtualMachine \<Rightarrow> nat \<Rightarrow> bool" where
  "ends_loop_at vm ip =
     (case fst (DecodeNextOpcode (vm\<lparr>m_instruction_ptr := ip, m_decode_success := True\<rparr>)) of
        Some (EndLoop _) \<Rightarrow> True | _ \<Rightarrow> False)"

definition loop_free :: "CheatVirtualMachine \<Rightarrow> bool" where
  "loop_free vm = list_all (\<lambda>ip. \<not> ends_loop_at vm ip) [0..<m_num_opcodes vm]"

lemma GetNextDword_program_cong:
  "m_num_opcodes v = m_num_opcodes w \<Longrightarrow> m_program v = m_program w \<Longrightarrow>
   GetNextDword v = GetNextDword w"
  by (simp add: GetNextDword_def fun_eq_iff)

lemma decode_opcode_program_cong:
  assumes "m_num_opcodes v = m_num_opcodes w" "m_program v = m_program w"
  shows "decode_opcode v = decode_opcode w"
proof -
  have d: "GetNextDword v = GetNextDword w"
    using assms by (rule GetNextDword_program_cong)
  then have i: "GetNextVmInt v = GetNextVmInt w" and q: "GetNextQword v = GetNextQword w"
    by (intro ext, simp only: GetNextVmInt_def GetNextQword_def d)+
  show ?thesis
    by (intro ext) (simp only: decode_opcode_def opcode_decoder_defs d i q)
qed

lemma DecodeNextOpcode_cong:
  assumes "m_num_opcodes v = m_num_opcodes w" "m_program v = m_program w"
    "m_instruction_ptr v = m_instruction_ptr w" "m_decode_success v = m_decode_success w"
  shows "fst (DecodeNextOpcode v) = fst (DecodeNextOpcode w)"
  using assms GetNextDword_program_cong [OF assms(1,2)] decode_opcode_program_cong [OF assms(1,2)]
  by (simp add: DecodeNextOpcode_def split: prod.splits)

lemma loop_free_decode:
  assumes "loop_free vm" "DecodeNextOpcode vm = (Some op, vm')"
  shows "\<forall>r. op \<noteq> EndLoop r"
proof -
  have "m_instruction_ptr vm < m_num_opcodes vm" "m_decode_success vm"
    using DecodeNextOpcode_Some [OF assms(2)] by linarith+
  moreover have "fst (DecodeNextOpcode
      (vm\<lparr>m_instruction_ptr := m_instruction_ptr vm, m_decode_success := True\<rparr>)) = Some op"
    using DecodeNextOpcode_cong [of "vm\<lparr>m_instruction_ptr := m_instruction_ptr vm,
      m_decode_success := True\<rparr>" vm] assms(2) calculation by simp
  moreover have "\<not> ends_loop_at vm (m_instruction_ptr vm)"
    using assms(1) calculation(1) by (simp add: loop_free_def list_all_iff)
  ultimately show ?thesis
    unfolding ends_loop_at_def by auto
qed

lemma loop_free_cong:
  assumes "m_num_opcodes v = m_num_opcodes w" "m_program v = m_program w"
  shows "loop_free v = loop_free w"
  using assms DecodeNextOpcode_cong
    [of "v\<lparr>m_instruction_ptr := _, m_decode_success := True\<rparr>"
      "w\<lparr>m_instruction_ptr := _, m_decode_success := True\<rparr>"]
  by (simp add: loop_free_def ends_loop_at_def)

lemma loop_free_terminates:
  assumes "loop_free (fst s)" "m_num_opcodes (fst s) - m_instruction_ptr (fst s) < n"
  shows "ExecuteLoop n svc md kHeld s \<noteq> OutOfFuel"
  using assms
proof (induction n arbitrary: s)
  case 0
  then show ?case by simp
next
  case (Suc n)
  show ?case
  proof (cases "DecodeNextOpcode (fst s)")
    case (Pair r vm)
    show ?thesis
    proof (cases r)
      case None
      with Pair show ?thesis by simp
    next
      case (Some op)
      show ?thesis
      proof (cases "execute_instruction svc md kHeld op (vm, snd s)")
        case None
        with Pair Some show ?thesis by simp
      next
        case s1: (Some s1)
        note d = DecodeNextOpcode_Some [OF Pair [unfolded Some]]
        have same: "m_num_opcodes (fst s1) = m_num_opcodes (fst s)"
          "m_program (fst s1) = m_program (fst s)"
          using execute_instruction_program [OF s1] DecodeNextOpcode_program [OF Pair] by auto
        have "m_instruction_ptr vm \<le> m_instruction_ptr (fst s1)"
          using execute_instruction_ip [OF s1] loop_free_decode [OF Suc.prems(1)] Pair Some by simp
        with d have "m_num_opcodes (fst s1) - m_instruction_ptr (fst s1) < n"
          using Suc.prems(2) same by linarith
        moreover have "loop_free (fst s1)"
          using Suc.prems(1) loop_free_cong [OF same] by simp
        ultimately show ?thesis
          using Suc.IH [of s1] Pair Some s1 by simp
      qed
    qed
  qed
qed

section \<open>Loading\<close>

definition same_but_program :: "CheatVirtualMachine \<Rightarrow> CheatVirtualMachine \<Rightarrow> bool" where
  "same_but_program vm vm' \<longleftrightarrow>
     vm' = vm\<lparr>m_program := m_program vm', m_num_opcodes := m_num_opcodes vm'\<rparr>"

lemma same_but_program_trans:
  "same_but_program u v \<Longrightarrow> same_but_program v w \<Longrightarrow> same_but_program u w"
  by (cases u; cases v; cases w) (simp add: same_but_program_def)

lemma append_opcodes_same: "same_but_program vm (append_opcodes ws vm)"
proof (induction ws arbitrary: vm)
  case Nil
  then show ?case by (simp add: same_but_program_def)
next
  case (Cons w ws)
  have "same_but_program vm (vm\<lparr>m_program := p, m_num_opcodes := n\<rparr>)" for p n
    by (simp add: same_but_program_def)
  with Cons show ?case
    by (auto intro: same_but_program_trans)
qed

lemma append_opcodes_effect:
  assumes "m_num_opcodes vm + length ws \<le> length (m_program vm)"
  shows "m_num_opcodes (append_opcodes ws vm) = m_num_opcodes vm + length ws \<and>
    take (m_num_opcodes vm + length ws) (m_program (append_opcodes ws vm)) =
      take (m_num_opcodes vm) (m_program vm) @ ws \<and>
    length (m_program (append_opcodes ws vm)) = length (m_program vm)"
  using assms
proof (induction ws arbitrary: vm)
  case Nil
  then show ?case by simp
next
  case (Cons w ws)
  then show ?case
    using Cons.IH [of "vm\<lparr>m_program := (m_program vm)[m_num_opcodes vm := w],
        m_num_opcodes := Suc (m_num_opcodes vm)\<rparr>"]
    by (simp add: take_Suc_update)
qed

definition enabled_opcodes :: "CheatEntry list \<Rightarrow> u32 list" where
  "enabled_opcodes cs = concat (map cheat_opcodes (filter enabled cs))"

lemma enabled_opcodes_simps [simp]:
  "enabled_opcodes [] = []"
  "enabled_opcodes (c # cs) = (if enabled c then cheat_opcodes c else []) @ enabled_opcodes cs"
  by (simp_all add: enabled_opcodes_def)

lemma length_cheat_opcodes [simp]:
  "length (cheat_opcodes c) = unat (num_opcodes (cheat_definition c))"
  by (simp add: cheat_opcodes_def)

text \<open>What loading the opcodes \<open>ws\<close> behind the program of \<open>vm\<close> gives.\<close>

definition load_result :: "CheatVirtualMachine \<Rightarrow> u32 list \<Rightarrow> bool \<Rightarrow> CheatVirtualMachine \<Rightarrow> bool" where
  "load_result vm ws ok vm' \<longleftrightarrow>
     ok = (m_num_opcodes vm + length ws \<le> MaximumProgramOpcodeCount) \<and>
     m_num_opcodes vm' = (if ok then m_num_opcodes vm + length ws else 0) \<and>
     take (m_num_opcodes vm') (m_program vm') =
       (if ok then take (m_num_opcodes vm) (m_program vm) @ ws else []) \<and>
     length (m_program vm') = MaximumProgramOpcodeCount \<and> same_but_program vm vm'"

lemma LoadProgram_loop_effect:
  assumes "m_num_opcodes vm \<le> MaximumProgramOpcodeCount"
    "length (m_program vm) = MaximumProgramOpcodeCount"
    "LoadProgram_loop cs vm = (ok, vm')"
  shows "load_result vm (enabled_opcodes cs) ok vm'"
  using assms
proof (induction cs arbitrary: vm)
  case Nil
  then show ?case by (auto simp: load_result_def same_but_program_def)
next
  case (Cons c cs)
  show ?case
  proof (cases "enabled c")
    case False
    with Cons.IH [of vm] Cons.prems show ?thesis by simp
  next
    case True
    let ?n = "unat (num_opcodes (cheat_definition c))"
    have len: "length (enabled_opcodes (c # cs)) = ?n + length (enabled_opcodes cs)"
      using True by simp
    show ?thesis
    proof (cases "MaximumProgramOpcodeCount < ?n + m_num_opcodes vm")
      case big: True
      then have "\<not> m_num_opcodes vm + length (enabled_opcodes (c # cs)) \<le> MaximumProgramOpcodeCount"
        using len by simp
      with big True Cons.prems show ?thesis
        by (auto simp: load_result_def same_but_program_def)
    next
      case fits: False
      let ?vm = "append_opcodes (cheat_opcodes c) vm"
      have eff: "m_num_opcodes vm + length (cheat_opcodes c) \<le> length (m_program vm)"
        using fits Cons.prems(2) by simp
      note e = append_opcodes_effect [OF eff]
      have pre: "m_num_opcodes ?vm \<le> MaximumProgramOpcodeCount"
        "length (m_program ?vm) = MaximumProgramOpcodeCount"
        using e fits Cons.prems(2) by auto
      have run: "LoadProgram_loop cs ?vm = (ok, vm')"
        using Cons.prems(3) True fits by simp
      have "same_but_program vm ?vm"
        by (rule append_opcodes_same)
      moreover have "enabled_opcodes (c # cs) = cheat_opcodes c @ enabled_opcodes cs"
        using True by simp
      ultimately show ?thesis
        using Cons.IH [OF pre run] e len
        by (auto simp: load_result_def intro: same_but_program_trans)
    qed
  qed
qed

section \<open>Arithmetic at a width\<close>

lemma uint_apply_width:
  assumes "valid_width bw"
  shows "uint (apply_width bw v) = uint v mod 2 ^ (8 * unat bw)"
proof -
  have "uint v mod 2 ^ 64 = uint v"
    by (rule mod_pos_pos_trivial) (use uint_bounded [of v] in simp_all)
  moreover have "uint (take_bit n v) = uint v mod 2 ^ n" for n
    by (simp only: unsigned_take_bit_eq) (simp add: take_bit_eq_mod)
  ultimately show ?thesis
    using assms by (auto simp: valid_width_def apply_width_def width_simps)
qed

lemma take_bit_uint_self: "take_bit 64 (uint (v :: u64)) = uint v"
  by (simp add: take_bit_int_eq_self uint_bounded [of v, simplified])

lemma unat_and_63: "unat (b AND 63 :: u64) = unat b mod 64"
proof -
  have "b AND 63 = take_bit 6 b"
    by (simp add: take_bit_eq_mask mask_eq_exp_minus_1)
  then have "unat (b AND 63) = take_bit 6 (unat b)"
    by (simp only: unsigned_take_bit_eq)
  then show ?thesis
    by (simp add: take_bit_eq_mod)
qed

text \<open>The second operand of a register arithmetic opcode.\<close>

definition operand_2 :: "CheatVirtualMachine \<Rightarrow> u32 \<Rightarrow> u32 + u64 \<Rightarrow> u64" where
  "operand_2 vm bw x = (case x of Inl r \<Rightarrow> reg vm r | Inr v \<Rightarrow> GetVmInt v bw)"

lemma reg_set_reg:
  assumes "vm_inv vm" "reg_ok r"
  shows "reg (set_reg r v vm) r = v"
  using assms by (simp add: reg_def set_reg_def vm_inv_lengths)

lemma reg_set_reg_other:
  assumes "unat r \<noteq> unat q"
  shows "reg (set_reg r v vm) q = reg vm q"
  using assms by (simp add: reg_def set_reg_def)

lemma reg_PerformArithmeticRegister:
  assumes "vm_inv vm" "reg_ok d"
  shows "reg (exec_PerformArithmeticRegister bw m d a x vm) d =
    apply_width bw (math_register m (reg vm a) (operand_2 vm bw x))"
  using assms by (simp add: exec_PerformArithmeticRegister_def reg_set_reg operand_2_def)

lemma execute_instruction_None:
  "execute_instruction svc md kHeld op s = None \<longleftrightarrow>
   op = EndConditionalBlock True \<and> m_condition_depth (fst s) = 0"
proof (cases op rule: opcode_kinds)
  case data
  then show ?thesis
    using data_opcode_control [OF data, of svc md kHeld s]
    by (auto simp: execute_instruction_def data_not_begin)
next
  case opens
  then show ?thesis
    by (auto simp: execute_instruction_def execute_begin_block exec_begin_block_def
        SkipConditionalBlock_def)
qed (auto simp: execute_instruction_def exec_EndConditional_def SkipConditionalBlock_def)

lemma ExecuteLoop_Aborted:
  assumes "ExecuteLoop n svc md kHeld s = Aborted"
  shows "\<exists>s1 vm. vm_steps svc md kHeld s s1 \<and>
    DecodeNextOpcode (fst s1) = (Some (EndConditionalBlock True), vm) \<and>
    m_condition_depth (fst s1) = 0"
  using assms
proof (induction n arbitrary: s)
  case 0
  then show ?case by simp
next
  case (Suc n)
  then obtain op vm where d: "DecodeNextOpcode (fst s) = (Some op, vm)"
    by (auto split: prod.splits option.splits)
  show ?case
  proof (cases "execute_instruction svc md kHeld op (vm, snd s)")
    case None
    then have "op = EndConditionalBlock True" "m_condition_depth vm = 0"
      by (auto simp: execute_instruction_None)
    moreover have "m_condition_depth vm = m_condition_depth (fst s)"
      by (subst DecodeNextOpcode_Some(5) [OF d]) simp
    ultimately show ?thesis
      using d by (intro exI [of _ s]) (auto intro: vm_steps.init)
  next
    case (Some s1)
    then have "vm_steps svc md kHeld s s1"
      using vm_steps.step [OF vm_steps.init d] by simp
    moreover have "ExecuteLoop n svc md kHeld s1 = Aborted"
      using Suc.prems d Some by simp
    ultimately show ?thesis
      using Suc.IH [of s1] by (meson vm_steps_trans)
  qed
qed

lemma vm_steps_single:
  "DecodeNextOpcode vm = (Some op, vm') \<Longrightarrow>
   execute_instruction svc md kHeld op (vm', ps) = Some s' \<Longrightarrow> vm_steps svc md kHeld (vm, ps) s'"
  using vm_steps.step [OF vm_steps.init, of "(vm, ps)" op vm' svc md kHeld s'] by simp

section \<open>Properties of the executor\<close>

text \<open>
  C8. Memory safety of a run. From any machine whose arrays have their declared sizes,
  every state that \<^verbatim>\<open>Execute\<close> reaches keeps those sizes, has its instruction pointer and
  loop tops within the program, runs the program it was given, and leaves the debug
  handle and the set, addresses, nodes and widths of the frozen addresses unchanged.
\<close>

theorem Execute_reachable_safe:
  assumes "vm_arrays vm" "vm_steps svc md kHeld (ResetState vm, ps) (vm', ps')"
  shows "vm_inv vm' \<and> m_program vm' = m_program vm \<and> m_num_opcodes vm' = m_num_opcodes vm \<and>
    m_cheat_process_debug_handle ps' = m_cheat_process_debug_handle ps \<and>
    map frozen_key (m_frozen_addresses_map ps') = map frozen_key (m_frozen_addresses_map ps)"
  using vm_steps_invariant [OF assms(2)] ResetState_inv [OF assms(1)]
  by (simp add: ResetState_def process_frame_def)

theorem Execute_reachable_safe_witness:
  "vm_inv (set_reg 0 7 ((zeroed_vm [0x40000000, 0, 7])\<lparr>m_instruction_ptr := 3\<rparr>))"
proof -
  let ?vm = "zeroed_vm [0x40000000, 0, 7]"
  have arrays: "vm_arrays ?vm"
    by (simp add: zeroed_vm_def vm_arrays_def vm_sizes)
  have reset: "ResetState ?vm = ?vm"
    by (simp add: zeroed_vm_def ResetState_def)
  have enc: "encode_opcode (LoadRegisterStatic 0 7) = [0x40000000, 0, 7]"
    by (simp add: dword_def hi32_def lo32_def)
  have "DecodeNextOpcode ?vm = (Some (LoadRegisterStatic 0 7), ?vm\<lparr>m_instruction_ptr := 3\<rparr>)"
    using DecodeNextOpcode_encode [of "LoadRegisterStatic 0 7" ?vm] unfolding enc
    by (simp add: zeroed_vm_def)
  from vm_steps_single [OF this] have "vm_steps ram_svc ram_metadata 0 (?vm, ram_process [])
      (set_reg 0 7 (?vm\<lparr>m_instruction_ptr := 3\<rparr>), ram_process [])"
    by (simp add: execute_instruction_def)
  with Execute_reachable_safe [OF arrays, of ram_svc ram_metadata 0 "ram_process []"] reset
  show ?thesis
    by simp
qed

text \<open>
  C16. Loop-free cheats terminate. A program with no position that decodes to the end of
  a loop is finished, or aborted, after at most one instruction per opcode plus the
  failing decode; what it does is the same for every larger number of instructions.
\<close>

theorem Execute_loop_free_terminates:
  assumes "loop_free vm" "m_num_opcodes vm < n"
  shows "Execute n svc md kHeld (vm, ps) \<noteq> OutOfFuel \<and>
    Execute n svc md kHeld (vm, ps) = Execute (Suc (m_num_opcodes vm)) svc md kHeld (vm, ps)"
proof -
  let ?s = "(ResetState vm, ps)"
  have "loop_free (fst ?s)"
    using assms(1) loop_free_cong [of "ResetState vm" vm] by (simp add: ResetState_def)
  then have "ExecuteLoop (Suc (m_num_opcodes vm)) svc md kHeld ?s \<noteq> OutOfFuel"
    by (rule loop_free_terminates) (simp add: ResetState_def)
  then show ?thesis
    using ExecuteLoop_more [of "Suc (m_num_opcodes vm)" svc md kHeld ?s n] assms(2)
    by (simp add: Execute_def)
qed

theorem Execute_loop_free_terminates_witness:
  "Execute 9 ram_svc ram_metadata 0 (zeroed_vm [0x20000000], ram_process []) =
   Execute 2 ram_svc ram_metadata 0 (zeroed_vm [0x20000000], ram_process [])"
proof -
  have "loop_free (zeroed_vm [0x20000000])"
    by (simp add: loop_free_def ends_loop_at_def zeroed_vm_def DecodeNextOpcode_def
        GetNextDword_def decode_opcode_def opcode_number_def CheatVmOpcodeType_of_def nybble_def
        decode_EndConditional_def)
  then show ?thesis
    using Execute_loop_free_terminates
      [of "zeroed_vm [0x20000000]" 9 ram_svc ram_metadata 0 "ram_process []"]
    by (simp add: zeroed_vm_def numeral_2_eq_2)
qed



text \<open>
  Loading a program. Exactly when the opcodes of the enabled cheats fit in the
  program array, loading succeeds and the program is their concatenation in order;
  otherwise the program is left empty. Registers and static registers are untouched.
\<close>

theorem LoadProgram_correct:
  assumes "vm_arrays vm"
  shows "case LoadProgram cheats vm of (ok, vm') \<Rightarrow>
    ok = (length (enabled_opcodes cheats) \<le> MaximumProgramOpcodeCount) \<and>
    take (m_num_opcodes vm') (m_program vm') = (if ok then enabled_opcodes cheats else []) \<and>
    m_num_opcodes vm' = (if ok then length (enabled_opcodes cheats) else 0) \<and>
    vm_arrays vm' \<and> same_but_program vm vm'"
proof (cases "LoadProgram cheats vm")
  case (Pair ok vm')
  have "load_result (vm\<lparr>m_num_opcodes := 0\<rparr>) (enabled_opcodes cheats) ok vm'"
    using Pair assms by (intro LoadProgram_loop_effect) (auto simp: LoadProgram_def vm_arrays_def)
  moreover have "same_but_program vm (vm\<lparr>m_num_opcodes := 0\<rparr>)"
    by (simp add: same_but_program_def)
  ultimately have r: "ok = (length (enabled_opcodes cheats) \<le> MaximumProgramOpcodeCount)"
    "m_num_opcodes vm' = (if ok then length (enabled_opcodes cheats) else 0)"
    "take (m_num_opcodes vm') (m_program vm') = (if ok then enabled_opcodes cheats else [])"
    "length (m_program vm') = MaximumProgramOpcodeCount" and same: "same_but_program vm vm'"
    by (auto simp: load_result_def intro: same_but_program_trans)
  have "vm_arrays (vm\<lparr>m_program := m_program vm', m_num_opcodes := m_num_opcodes vm'\<rparr>)"
    using assms r by (auto simp: vm_arrays_def)
  then have "vm_arrays vm'"
    using same by (simp add: same_but_program_def)
  then show ?thesis
    using r same Pair by simp
qed

definition demo_cheats :: "CheatEntry list" where
  "demo_cheats =
     [\<lparr>enabled = True, cheat_id = 0, cheat_definition =
        \<lparr>readable_name = replicate 64 (CHR 0x00), num_opcodes = 2,
         opcodes = [0x40000000, 1] @ replicate 254 0\<rparr>\<rparr>,
      \<lparr>enabled = False, cheat_id = 1, cheat_definition =
        \<lparr>readable_name = replicate 64 (CHR 0x00), num_opcodes = 1,
         opcodes = 0x20000000 # replicate 255 0\<rparr>\<rparr>,
      \<lparr>enabled = True, cheat_id = 2, cheat_definition =
        \<lparr>readable_name = replicate 64 (CHR 0x00), num_opcodes = 1,
         opcodes = 2 # replicate 255 0\<rparr>\<rparr>]"

theorem LoadProgram_correct_witness:
  "fst (LoadProgram demo_cheats (zeroed_vm [])) \<and>
   take 3 (m_program (snd (LoadProgram demo_cheats (zeroed_vm [])))) = [0x40000000, 1, 2]"
proof -
  have "vm_arrays (zeroed_vm [])"
    by (simp add: zeroed_vm_def vm_arrays_def vm_sizes)
  moreover have "enabled_opcodes demo_cheats = [0x40000000, 1, 2]"
    by (simp add: demo_cheats_def cheat_opcodes_def upt_rec)
  ultimately show ?thesis
    using LoadProgram_correct [of "zeroed_vm []" demo_cheats]
    by (cases "LoadProgram demo_cheats (zeroed_vm [])")
       (auto simp: MaximumProgramOpcodeCount_def numeral_3_eq_3)
qed



end
