(* ===== verification/Cheat_VM_Blocks.thy ===== *)
theory Cheat_VM_Blocks
  imports Cheat_VM_Exec
begin

text \<open>
  Structured cheats: sequences of data opcodes, if and if-else blocks and counted loops,
  nested at will. The theory gives them a meaning that knows nothing of instruction
  pointers, and shows that the machine of \<^verbatim>\<open>dmnt_cheat_vm.cpp\<close>, with its condition
  depth, its skipping of blocks and its loop tops, implements that meaning on the
  assembled program.
\<close>

section \<open>Structured cheats\<close>

datatype stmt =
    Data CheatVmOpcode
  | IfBlock CheatVmOpcode "stmt list"
  | IfElseBlock CheatVmOpcode "stmt list" "stmt list"
  | Loop u32 u32 "stmt list"

text \<open>The opcodes of a structured cheat, in program order.\<close>

fun flat :: "stmt list \<Rightarrow> CheatVmOpcode list" where
  "flat [] = []"
| "flat (Data op # ss) = op # flat ss"
| "flat (IfBlock c b # ss) = c # flat b @ EndConditionalBlock False # flat ss"
| "flat (IfElseBlock c a b # ss) =
     c # flat a @ EndConditionalBlock True # flat b @ EndConditionalBlock False # flat ss"
| "flat (Loop r n b # ss) = StartLoop r n # flat b @ EndLoop r # flat ss"

definition assemble :: "CheatVmOpcode list \<Rightarrow> u32 list" where
  "assemble ops = concat (map encode_opcode ops)"

text \<open>The registers that count loops.\<close>

fun loop_regs :: "stmt list \<Rightarrow> nat set" where
  "loop_regs [] = {}"
| "loop_regs (Data op # ss) = loop_regs ss"
| "loop_regs (IfBlock c b # ss) = loop_regs b \<union> loop_regs ss"
| "loop_regs (IfElseBlock c a b # ss) = loop_regs a \<union> loop_regs b \<union> loop_regs ss"
| "loop_regs (Loop r n b # ss) = insert (unat r) (loop_regs b \<union> loop_regs ss)"

text \<open>
  Well-formed cheats: blocks are opened by conditional opcodes, leaves are data opcodes,
  every opcode has an encoding, and a loop's register counts no loop inside it.
\<close>

fun wf_stmts :: "stmt list \<Rightarrow> bool" where
  "wf_stmts [] = True"
| "wf_stmts (Data op # ss) = (data_opcode op \<and> encodable op \<and> wf_stmts ss)"
| "wf_stmts (IfBlock c b # ss) =
     (begin_conditional_block c \<and> encodable c \<and> wf_stmts b \<and> wf_stmts ss)"
| "wf_stmts (IfElseBlock c a b # ss) =
     (begin_conditional_block c \<and> encodable c \<and> wf_stmts a \<and> wf_stmts b \<and> wf_stmts ss)"
| "wf_stmts (Loop r n b # ss) =
     (nyb r \<and> unat r \<notin> loop_regs b \<and> wf_stmts b \<and> wf_stmts ss)"

section \<open>Code in the machine\<close>

lemma assemble_simps [simp]:
  "assemble [] = []"
  "assemble (op # ops) = encode_opcode op @ assemble ops"
  "assemble (as @ bs) = assemble as @ assemble bs"
  by (simp_all add: assemble_def)

text \<open>A machine placed at an instruction and a condition depth.\<close>

definition vm_at :: "CheatVirtualMachine \<Rightarrow> nat \<Rightarrow> nat \<Rightarrow> CheatVirtualMachine" where
  "vm_at vm i D = vm\<lparr>m_instruction_ptr := i, m_condition_depth := D\<rparr>"

lemma vm_at_simps [simp]:
  "m_instruction_ptr (vm_at vm i D) = i" "m_condition_depth (vm_at vm i D) = D"
  "m_decode_success (vm_at vm i D) = m_decode_success vm"
  "m_program (vm_at vm i D) = m_program vm" "m_num_opcodes (vm_at vm i D) = m_num_opcodes vm"
  "m_registers (vm_at vm i D) = m_registers vm" "m_saved_values (vm_at vm i D) = m_saved_values vm"
  "m_static_registers (vm_at vm i D) = m_static_registers vm"
  "m_loop_tops (vm_at vm i D) = m_loop_tops vm"
  "(vm_at vm i D)\<lparr>m_instruction_ptr := j\<rparr> = vm_at vm j D"
  "(vm_at vm i D)\<lparr>m_condition_depth := E\<rparr> = vm_at vm i E"
  by (simp_all add: vm_at_def)

lemma vm_at_self: "vm_at vm (m_instruction_ptr vm) (m_condition_depth vm) = vm"
  by (simp add: vm_at_def)

lemma code_at_cong:
  "m_num_opcodes v = m_num_opcodes w \<Longrightarrow> m_program v = m_program w \<Longrightarrow>
   code_at v ip ws = code_at w ip ws"
  by (induction ws arbitrary: ip) auto

lemma code_at_vm_at [simp]: "code_at (vm_at vm i D) = code_at vm"
  by (intro ext code_at_cong) simp_all

lemma decode_at:
  assumes "m_decode_success vm" "encodable op" "code_at vm i (encode_opcode op)"
  shows "DecodeNextOpcode (vm_at vm i D) = (Some op, vm_at vm (i + length (encode_opcode op)) D)"
  using DecodeNextOpcode_encode [of op "vm_at vm i D"] assms by simp

lemma length_encode_control [simp]:
  "length (encode_opcode (EndConditionalBlock e)) = 1"
  "length (encode_opcode (StartLoop r n)) = 2"
  "length (encode_opcode (EndLoop r)) = 1"
  by simp_all

section \<open>Skipping\<close>

lemma skip_loop_other:
  assumes "m_decode_success vm" "encodable op" "d < D" "code_at vm i (encode_opcode op)"
    "\<not> begin_conditional_block op" "\<forall>e. op \<noteq> EndConditionalBlock e"
  shows "skip_loop is_if d (vm_at vm i D) =
    skip_loop is_if d (vm_at vm (i + length (encode_opcode op)) D)"
  using assms decode_at [OF assms(1,2,4), of D] by (subst skip_loop.simps) simp

lemma skip_loop_begin:
  assumes "m_decode_success vm" "encodable op" "d < D" "code_at vm i (encode_opcode op)"
    "begin_conditional_block op"
  shows "skip_loop is_if d (vm_at vm i D) =
    skip_loop is_if d (vm_at vm (i + length (encode_opcode op)) (Suc D))"
  using assms decode_at [OF assms(1,2,4), of D] by (subst skip_loop.simps) simp

lemma skip_loop_end:
  assumes "m_decode_success vm" "d < D" "code_at vm i (encode_opcode (EndConditionalBlock False))"
  shows "skip_loop is_if d (vm_at vm i D) = skip_loop is_if d (vm_at vm (i + 1) (D - 1))"
  using assms(2) decode_at [OF assms(1) _ assms(3), of D] by (subst skip_loop.simps) simp

lemma skip_loop_else:
  assumes "m_decode_success vm" "d < D" "code_at vm i (encode_opcode (EndConditionalBlock True))"
  shows "skip_loop is_if d (vm_at vm i D) =
    (if is_if \<and> D = Suc d then vm_at vm (i + 1) D else skip_loop is_if d (vm_at vm (i + 1) D))"
  using assms(2) decode_at [OF assms(1) _ assms(3), of D] by (subst skip_loop.simps) auto

lemma skip_loop_done: "skip_loop is_if d (vm_at vm i d) = vm_at vm i d"
  by (subst skip_loop.simps) simp

text \<open>A structured cheat is skipped as a whole, nested blocks and loops included.\<close>

lemma skip_loop_flat:
  assumes "wf_stmts ss" "m_decode_success vm" "d < D" "code_at vm i (assemble (flat ss))"
  shows "skip_loop is_if d (vm_at vm i D) =
    skip_loop is_if d (vm_at vm (i + length (assemble (flat ss))) D)"
  using assms
proof (induction ss arbitrary: i D rule: flat.induct)
  case 1
  then show ?case by simp
next
  case (2 op ss)
  have "\<forall>e. op \<noteq> EndConditionalBlock e"
    using "2.prems"(1) by (cases op) auto
  then show ?case
    using "2.prems" "2.IH" skip_loop_other [of vm op d D i is_if]
    by (simp add: data_not_begin code_at_append add.assoc)
next
  case (3 c b ss)
  let ?n = "length (encode_opcode c)" and ?m = "length (assemble (flat b))"
  have code: "code_at vm i (encode_opcode c)" "code_at vm (i + ?n) (assemble (flat b))"
    "code_at vm (i + ?n + ?m) (encode_opcode (EndConditionalBlock False))"
    "code_at vm (i + ?n + ?m + 1) (assemble (flat ss))"
    using "3.prems"(4) by (simp_all add: code_at_append del: encode_opcode.simps)
  have "skip_loop is_if d (vm_at vm i D) = skip_loop is_if d (vm_at vm (i + ?n) (Suc D))"
    using "3.prems" code(1) by (intro skip_loop_begin) simp_all
  also have "\<dots> = skip_loop is_if d (vm_at vm (i + ?n + ?m) (Suc D))"
    using "3.prems" code(2) by (intro "3.IH"(1)) simp_all
  also have "\<dots> = skip_loop is_if d (vm_at vm (i + ?n + ?m + 1) D)"
    using "3.prems" skip_loop_end [OF _ _ code(3), of d "Suc D"] by simp
  also have "\<dots> = skip_loop is_if d (vm_at vm (i + ?n + ?m + 1 + length (assemble (flat ss))) D)"
    using "3.prems" code(4) by (intro "3.IH"(2)) simp_all
  finally show ?case
    by (simp add: add.assoc)
next
  case (4 c a b ss)
  let ?n = "length (encode_opcode c)" and ?m = "length (assemble (flat a))"
    and ?k = "length (assemble (flat b))"
  have code: "code_at vm i (encode_opcode c)" "code_at vm (i + ?n) (assemble (flat a))"
    "code_at vm (i + ?n + ?m) (encode_opcode (EndConditionalBlock True))"
    "code_at vm (i + ?n + ?m + 1) (assemble (flat b))"
    "code_at vm (i + ?n + ?m + 1 + ?k) (encode_opcode (EndConditionalBlock False))"
    "code_at vm (i + ?n + ?m + 1 + ?k + 1) (assemble (flat ss))"
    using "4.prems"(4) by (simp_all add: code_at_append del: encode_opcode.simps)
  have "skip_loop is_if d (vm_at vm i D) = skip_loop is_if d (vm_at vm (i + ?n) (Suc D))"
    using "4.prems" code(1) by (intro skip_loop_begin) simp_all
  also have "\<dots> = skip_loop is_if d (vm_at vm (i + ?n + ?m) (Suc D))"
    using "4.prems" code(2) by (intro "4.IH"(1)) simp_all
  also have "\<dots> = skip_loop is_if d (vm_at vm (i + ?n + ?m + 1) (Suc D))"
    using "4.prems" skip_loop_else [OF _ _ code(3), of d "Suc D"] by simp
  also have "\<dots> = skip_loop is_if d (vm_at vm (i + ?n + ?m + 1 + ?k) (Suc D))"
    using "4.prems" code(4) by (intro "4.IH"(2)) simp_all
  also have "\<dots> = skip_loop is_if d (vm_at vm (i + ?n + ?m + 1 + ?k + 1) D)"
    using "4.prems" skip_loop_end [OF _ _ code(5), of d "Suc D"] by simp
  also have "\<dots> = skip_loop is_if d
      (vm_at vm (i + ?n + ?m + 1 + ?k + 1 + length (assemble (flat ss))) D)"
    using "4.prems" code(6) by (intro "4.IH"(3)) simp_all
  finally show ?case
    by (simp add: add.assoc)
next
  case (5 r n b ss)
  let ?m = "length (assemble (flat b))"
  have code: "code_at vm i (encode_opcode (StartLoop r n))" "code_at vm (i + 2) (assemble (flat b))"
    "code_at vm (i + 2 + ?m) (encode_opcode (EndLoop r))"
    "code_at vm (i + 2 + ?m + 1) (assemble (flat ss))"
    using "5.prems"(4) by (simp_all add: code_at_append del: encode_opcode.simps)
  have "skip_loop is_if d (vm_at vm i D) = skip_loop is_if d (vm_at vm (i + 2) D)"
    using "5.prems" skip_loop_other [OF _ _ _ code(1), of d D] by simp
  also have "\<dots> = skip_loop is_if d (vm_at vm (i + 2 + ?m) D)"
    using "5.prems" code(2) by (intro "5.IH"(1)) simp_all
  also have "\<dots> = skip_loop is_if d (vm_at vm (i + 2 + ?m + 1) D)"
    using "5.prems" skip_loop_other [OF _ _ _ code(3), of d D] by simp
  also have "\<dots> = skip_loop is_if d (vm_at vm (i + 2 + ?m + 1 + length (assemble (flat ss))) D)"
    using "5.prems" code(4) by (intro "5.IH"(2)) simp_all
  finally show ?case
    by (simp add: add.assoc)
qed

section \<open>Structured semantics\<close>

text \<open>
  What a structured cheat means, with no reference to instruction pointers, depths or
  loop tops: a relation on the data of the machine and the process. The loop counter is
  an ordinary register, so a body may change it.
\<close>

inductive
  exec_stmts :: "'m debug_svc \<Rightarrow> CheatProcessMetadata \<Rightarrow> u64 \<Rightarrow> stmt list \<Rightarrow>
    'm exec_state \<Rightarrow> 'm exec_state \<Rightarrow> bool" and
  exec_iter :: "'m debug_svc \<Rightarrow> CheatProcessMetadata \<Rightarrow> u64 \<Rightarrow> u32 \<Rightarrow> stmt list \<Rightarrow>
    'm exec_state \<Rightarrow> 'm exec_state \<Rightarrow> bool"
  for svc md kHeld where
  Nil: "exec_stmts svc md kHeld [] s s"
| Data: "execute_opcode svc md kHeld op s = Some s1 \<Longrightarrow> exec_stmts svc md kHeld ss s1 s2 \<Longrightarrow>
    exec_stmts svc md kHeld (Data op # ss) s s2"
| IfTrue: "eval_condition svc md kHeld s c \<Longrightarrow> exec_stmts svc md kHeld b s s1 \<Longrightarrow>
    exec_stmts svc md kHeld ss s1 s2 \<Longrightarrow> exec_stmts svc md kHeld (IfBlock c b # ss) s s2"
| IfFalse: "\<not> eval_condition svc md kHeld s c \<Longrightarrow> exec_stmts svc md kHeld ss s s2 \<Longrightarrow>
    exec_stmts svc md kHeld (IfBlock c b # ss) s s2"
| ElseTrue: "eval_condition svc md kHeld s c \<Longrightarrow> exec_stmts svc md kHeld a s s1 \<Longrightarrow>
    exec_stmts svc md kHeld ss s1 s2 \<Longrightarrow> exec_stmts svc md kHeld (IfElseBlock c a b # ss) s s2"
| ElseFalse: "\<not> eval_condition svc md kHeld s c \<Longrightarrow> exec_stmts svc md kHeld b s s1 \<Longrightarrow>
    exec_stmts svc md kHeld ss s1 s2 \<Longrightarrow> exec_stmts svc md kHeld (IfElseBlock c a b # ss) s s2"
| Loop: "exec_iter svc md kHeld r b (set_reg r (ucast n) (fst s), snd s) s1 \<Longrightarrow>
    exec_stmts svc md kHeld ss s1 s2 \<Longrightarrow> exec_stmts svc md kHeld (Loop r n b # ss) s s2"
| Last: "exec_stmts svc md kHeld b s (u, ps) \<Longrightarrow> u' = set_reg r (reg u r - 1) u \<Longrightarrow>
    reg u' r = 0 \<Longrightarrow> exec_iter svc md kHeld r b s (u', ps)"
| Again: "exec_stmts svc md kHeld b s (u, ps) \<Longrightarrow> u' = set_reg r (reg u r - 1) u \<Longrightarrow>
    reg u' r \<noteq> 0 \<Longrightarrow> exec_iter svc md kHeld r b (u', ps) s2 \<Longrightarrow> exec_iter svc md kHeld r b s s2"

text \<open>A machine with the program of \<open>vm\<close>, the data of \<open>u\<close> and the given control state.\<close>

definition cfg :: "CheatVirtualMachine \<Rightarrow> nat list \<Rightarrow> nat \<Rightarrow> nat \<Rightarrow> CheatVirtualMachine \<Rightarrow>
    CheatVirtualMachine" where
  "cfg vm tops i D u =
     vm\<lparr>m_registers := m_registers u, m_saved_values := m_saved_values u,
        m_static_registers := m_static_registers u, m_loop_tops := tops,
        m_instruction_ptr := i, m_condition_depth := D\<rparr>"

lemma cfg_fields [simp]:
  "m_registers (cfg vm tops i D u) = m_registers u"
  "m_saved_values (cfg vm tops i D u) = m_saved_values u"
  "m_static_registers (cfg vm tops i D u) = m_static_registers u"
  "m_loop_tops (cfg vm tops i D u) = tops" "m_instruction_ptr (cfg vm tops i D u) = i"
  "m_condition_depth (cfg vm tops i D u) = D" "m_program (cfg vm tops i D u) = m_program vm"
  "m_num_opcodes (cfg vm tops i D u) = m_num_opcodes vm"
  "m_decode_success (cfg vm tops i D u) = m_decode_success vm"
  "reg (cfg vm tops i D u) = reg u"
  by (simp_all add: cfg_def reg_def fun_eq_iff)

lemma cfg_updates:
  "set_reg r v (cfg vm tops i D u) = cfg vm tops i D (set_reg r v u)"
  "(cfg vm tops i D u)\<lparr>m_registers := rs\<rparr> = cfg vm tops i D (u\<lparr>m_registers := rs\<rparr>)"
  "(cfg vm tops i D u)\<lparr>m_saved_values := rs\<rparr> = cfg vm tops i D (u\<lparr>m_saved_values := rs\<rparr>)"
  "(cfg vm tops i D u)\<lparr>m_static_registers := rs\<rparr> = cfg vm tops i D (u\<lparr>m_static_registers := rs\<rparr>)"
  "(cfg vm tops i D u)\<lparr>m_loop_tops := ts\<rparr> = cfg vm ts i D u"
  "(cfg vm tops i D u)\<lparr>m_instruction_ptr := j\<rparr> = cfg vm tops j D u"
  "(cfg vm tops i D u)\<lparr>m_condition_depth := E\<rparr> = cfg vm tops i E u"
  "vm_at (cfg vm tops i D u) j E = cfg vm tops j E u"
  by (simp_all add: cfg_def set_reg_def vm_at_def)

lemma code_at_cfg [simp]: "code_at (cfg vm tops i D u) = code_at vm"
  by (intro ext code_at_cong) simp_all

lemma reg_at_width_cfg [simp]: "reg_at_width (cfg vm tops i D u) = reg_at_width u"
  by (simp add: reg_at_width_def fun_eq_iff)

lemma address_cfg [simp]:
  "compare_address md (cfg vm tops i D u) = compare_address md u"
  "log_address md (cfg vm tops i D u) = log_address md u"
  "store_register_address md (cfg vm tops i D u) = store_register_address md u"
  by (auto simp: compare_address_def log_address_def store_register_address_def fun_eq_iff
      split: CompareRegisterValue.split DebugLogValue.split StoreRegisterOffset.split)

lemma eval_condition_cfg:
  "eval_condition svc md kHeld (cfg vm tops i D u, ps) c = eval_condition svc md kHeld (u, ps) c"
  by (cases c) (simp_all add: eval_BeginRegisterConditional_def split: CompareRegisterValue.split)

lemma data_opcode_cfg:
  assumes "data_opcode op" "execute_opcode svc md kHeld op (u, ps) = Some (u', ps')"
  shows "execute_opcode svc md kHeld op (cfg vm tops i D u, ps) = Some (cfg vm tops i D u', ps')"
  using assms
  by (cases op)
     (auto simp: exec_StoreStatic_def exec_LoadRegisterMemory_def exec_StoreStaticToAddress_def
       exec_PerformArithmeticStatic_def exec_PerformArithmeticRegister_def
       exec_StoreRegisterToAddress_def exec_SaveRestoreRegister_def
       exec_SaveRestoreRegisterMask_def exec_ReadWriteStaticRegister_def exec_DebugLog_def
       Let_def cfg_updates split: SaveRestoreRegisterOpType.splits sum.splits DebugLogValue.splits)

section \<open>Single steps of a configuration\<close>

lemma step_at:
  assumes "m_decode_success vm" "encodable op" "code_at vm i (encode_opcode op)"
    "execute_instruction svc md kHeld op (cfg vm tops (i + length (encode_opcode op)) D u, ps) = Some s'"
  shows "vm_steps svc md kHeld (cfg vm tops i D u, ps) s'"
  using decode_at [of "cfg vm tops i D u" op i D] assms
  by (intro vm_steps_single) (simp_all add: cfg_updates)

lemma step_data:
  assumes "m_decode_success vm" "encodable op" "code_at vm i (encode_opcode op)" "data_opcode op"
    "execute_opcode svc md kHeld op (u, ps) = Some (u', ps')"
  shows "vm_steps svc md kHeld (cfg vm tops i D u, ps)
    (cfg vm tops (i + length (encode_opcode op)) D u', ps')"
  using data_opcode_cfg [OF assms(4,5)] data_not_begin [OF assms(4)]
  by (intro step_at [OF assms(1-3)]) (simp add: execute_instruction_def)

lemma step_begin_true:
  assumes "m_decode_success vm" "encodable c" "code_at vm i (encode_opcode c)"
    "begin_conditional_block c" "eval_condition svc md kHeld (u, ps) c"
  shows "vm_steps svc md kHeld (cfg vm tops i D u, ps)
    (cfg vm tops (i + length (encode_opcode c)) (Suc D) u, ps)"
  using assms(4,5) by (intro step_at [OF assms(1-3)])
    (simp add: execute_instruction_def execute_begin_block cfg_updates eval_condition_cfg
      exec_begin_block_def)

lemma step_begin_false:
  assumes "m_decode_success vm" "encodable c" "code_at vm i (encode_opcode c)"
    "begin_conditional_block c" "\<not> eval_condition svc md kHeld (u, ps) c"
  shows "vm_steps svc md kHeld (cfg vm tops i D u, ps)
    (skip_loop True D (cfg vm tops (i + length (encode_opcode c)) (Suc D) u), ps)"
  using assms(4,5) by (intro step_at [OF assms(1-3)])
    (simp add: execute_instruction_def execute_begin_block cfg_updates eval_condition_cfg
      exec_begin_block_def SkipConditionalBlock_def)

lemma step_end:
  assumes "m_decode_success vm" "code_at vm i (encode_opcode (EndConditionalBlock False))"
  shows "vm_steps svc md kHeld (cfg vm tops i (Suc D) u, ps) (cfg vm tops (i + 1) D u, ps)"
  by (rule step_at [OF assms(1) _ assms(2)])
    (simp_all add: execute_instruction_def exec_EndConditional_def cfg_updates)

lemma step_else:
  assumes "m_decode_success vm" "code_at vm i (encode_opcode (EndConditionalBlock True))"
  shows "vm_steps svc md kHeld (cfg vm tops i (Suc D) u, ps)
    (skip_loop False D (cfg vm tops (i + 1) (Suc D) u), ps)"
  by (rule step_at [OF assms(1) _ assms(2)])
    (simp_all add: execute_instruction_def exec_EndConditional_def SkipConditionalBlock_def)

lemma step_start_loop:
  assumes "m_decode_success vm" "nyb r" "code_at vm i (encode_opcode (StartLoop r n))"
  shows "vm_steps svc md kHeld (cfg vm tops i D u, ps)
    (cfg vm (tops[unat r := i + 2]) (i + 2) D (set_reg r (ucast n) u), ps)"
  using assms(2) by (intro step_at [OF assms(1) _ assms(3)])
    (simp_all add: execute_instruction_def exec_StartLoop_def cfg_updates)

lemma step_end_loop:
  assumes "m_decode_success vm" "nyb r" "code_at vm i (encode_opcode (EndLoop r))"
    "u' = set_reg r (reg u r - 1) u"
  shows "vm_steps svc md kHeld (cfg vm tops i D u, ps)
    (cfg vm tops (if reg u' r \<noteq> 0 then tops ! unat r else i + 1) D u', ps)"
  using assms(2,4) by (intro step_at [OF assms(1) _ assms(3)])
    (auto simp: execute_instruction_def exec_EndLoop_def Let_def cfg_updates)

section \<open>Blocks as a whole\<close>

lemma skip_cfg_end:
  assumes "wf_stmts b" "m_decode_success vm"
    "code_at vm i (assemble (flat b) @ encode_opcode (EndConditionalBlock False))"
  shows "skip_loop is_if D (cfg vm tops i (Suc D) u) =
    cfg vm tops (i + length (assemble (flat b)) + 1) D u"
proof -
  let ?v = "cfg vm tops i (Suc D) u"
  have "skip_loop is_if D (vm_at ?v i (Suc D)) =
      skip_loop is_if D (vm_at ?v (i + length (assemble (flat b))) (Suc D))"
    using assms by (intro skip_loop_flat) (simp_all add: code_at_append)
  also have "\<dots> = skip_loop is_if D (vm_at ?v (i + length (assemble (flat b)) + 1) D)"
    using assms skip_loop_end [of ?v D "Suc D" "i + length (assemble (flat b))"]
    by (simp add: code_at_append del: encode_opcode.simps)
  finally show ?thesis
    using skip_loop_done [of is_if D ?v "i + length (assemble (flat b)) + 1"]
    by (simp add: cfg_updates)
qed

lemma skip_cfg_else:
  assumes "wf_stmts a" "m_decode_success vm"
    "code_at vm i (assemble (flat a) @ encode_opcode (EndConditionalBlock True))"
  shows "skip_loop True D (cfg vm tops i (Suc D) u) =
    cfg vm tops (i + length (assemble (flat a)) + 1) (Suc D) u"
proof -
  let ?v = "cfg vm tops i (Suc D) u"
  have "skip_loop True D (vm_at ?v i (Suc D)) =
      skip_loop True D (vm_at ?v (i + length (assemble (flat a))) (Suc D))"
    using assms by (intro skip_loop_flat) (simp_all add: code_at_append)
  also have "\<dots> = vm_at ?v (i + length (assemble (flat a)) + 1) (Suc D)"
    using assms skip_loop_else [of ?v D "Suc D" "i + length (assemble (flat a))" True]
    by (simp add: code_at_append del: encode_opcode.simps)
  finally show ?thesis
    by (simp add: cfg_updates)
qed

section \<open>The machine implements the structured semantics\<close>

text \<open>
  The machine runs code from \<open>i\<close> to \<open>j\<close> at every depth, changing the data as \<open>s\<close> to
  \<open>s'\<close> and only the loop tops of the registers \<open>R\<close>.
\<close>

definition runs ::
    "'m debug_svc \<Rightarrow> CheatProcessMetadata \<Rightarrow> u64 \<Rightarrow> CheatVirtualMachine \<Rightarrow> nat set \<Rightarrow>
     nat list \<Rightarrow> nat \<Rightarrow> nat \<Rightarrow> nat \<Rightarrow> 'm exec_state \<Rightarrow> 'm exec_state \<Rightarrow> bool" where
  "runs svc md kHeld vm R tops D i j s s' \<longleftrightarrow>
     (\<exists>tops'. length tops' = length tops \<and> (\<forall>q. q \<notin> R \<longrightarrow> tops' ! q = tops ! q) \<and>
       vm_steps svc md kHeld (cfg vm tops i D (fst s), snd s) (cfg vm tops' j D (fst s'), snd s'))"

lemma runs_step:
  "vm_steps svc md kHeld (cfg vm tops i D (fst s), snd s) (cfg vm tops j D (fst s'), snd s') \<Longrightarrow>
   runs svc md kHeld vm R tops D i j s s'"
  unfolding runs_def by (intro exI [of _ tops]) simp

lemma runs_after:
  assumes "vm_steps svc md kHeld (cfg vm tops i D (fst s), snd s) (cfg vm tops' j E (fst s1), snd s1)"
    "length tops' = length tops" "\<forall>q. q \<notin> R \<longrightarrow> tops' ! q = tops ! q"
    "runs svc md kHeld vm R' tops' E j k s1 s2" "R' \<subseteq> R"
    "\<And>ts. vm_steps svc md kHeld (cfg vm ts k E (fst s2), snd s2) (cfg vm ts l D (fst s2), snd s2)"
  shows "runs svc md kHeld vm R tops D i l s s2"
proof -
  from assms(4) obtain ts where ts: "length ts = length tops'" "\<forall>q. q \<notin> R' \<longrightarrow> ts ! q = tops' ! q"
    "vm_steps svc md kHeld (cfg vm tops' j E (fst s1), snd s1) (cfg vm ts k E (fst s2), snd s2)"
    by (auto simp: runs_def)
  have "vm_steps svc md kHeld (cfg vm tops i D (fst s), snd s) (cfg vm ts l D (fst s2), snd s2)"
    using assms(1) ts(3) assms(6) by (meson vm_steps_trans)
  with ts assms(2,3,5) show ?thesis
    unfolding runs_def by (intro exI [of _ ts]) auto
qed

lemma runs_trans:
  assumes "runs svc md kHeld vm R tops D i j s s1" "R \<subseteq> R''" "R' \<subseteq> R''"
    "\<And>ts. length ts = length tops \<Longrightarrow> \<forall>q. q \<notin> R \<longrightarrow> ts ! q = tops ! q \<Longrightarrow>
      runs svc md kHeld vm R' ts D j k s1 s2"
  shows "runs svc md kHeld vm R'' tops D i k s s2"
proof -
  from assms(1) obtain ts where ts: "length ts = length tops" "\<forall>q. q \<notin> R \<longrightarrow> ts ! q = tops ! q"
    "vm_steps svc md kHeld (cfg vm tops i D (fst s), snd s) (cfg vm ts j D (fst s1), snd s1)"
    by (auto simp: runs_def)
  show ?thesis
    using ts assms(2-4) vm_steps.init by (intro runs_after [OF ts(3), where R' = R']) auto
qed

text \<open>Where the parts of a compound statement stand.\<close>

lemma code_If:
  assumes "code_at vm i (assemble (flat (IfBlock c b # ss)))"
  defines "n \<equiv> length (encode_opcode c)" and "m \<equiv> length (assemble (flat b))"
  shows "code_at vm i (encode_opcode c)"
    and "code_at vm (i + n) (assemble (flat b))"
    and "code_at vm (i + n) (assemble (flat b) @ encode_opcode (EndConditionalBlock False))"
    and "code_at vm (i + n + m) (encode_opcode (EndConditionalBlock False))"
    and "code_at vm (i + n + m + 1) (assemble (flat ss))"
  using assms by (simp_all add: code_at_append del: encode_opcode.simps)

lemma code_IfElse:
  assumes "code_at vm i (assemble (flat (IfElseBlock c a b # ss)))"
  defines "n \<equiv> length (encode_opcode c)" and "m \<equiv> length (assemble (flat a))"
    and "k \<equiv> length (assemble (flat b))"
  shows "code_at vm i (encode_opcode c)"
    and "code_at vm (i + n) (assemble (flat a))"
    and "code_at vm (i + n) (assemble (flat a) @ encode_opcode (EndConditionalBlock True))"
    and "code_at vm (i + n + m) (encode_opcode (EndConditionalBlock True))"
    and "code_at vm (i + n + m + 1) (assemble (flat b))"
    and "code_at vm (i + n + m + 1) (assemble (flat b) @ encode_opcode (EndConditionalBlock False))"
    and "code_at vm (i + n + m + 1 + k) (encode_opcode (EndConditionalBlock False))"
    and "code_at vm (i + n + m + 1 + k + 1) (assemble (flat ss))"
  using assms by (simp_all add: code_at_append del: encode_opcode.simps)

lemma code_Loop:
  assumes "code_at vm i (assemble (flat (Loop r n b # ss)))"
  defines "m \<equiv> length (assemble (flat b))"
  shows "code_at vm i (encode_opcode (StartLoop r n))"
    and "code_at vm (i + 2) (assemble (flat b) @ encode_opcode (EndLoop r))"
    and "code_at vm (i + 2 + m + 1) (assemble (flat ss))"
  using assms by (simp_all add: code_at_append del: encode_opcode.simps)

text \<open>One lemma per rule of the structured semantics.\<close>

lemma runs_Data:
  assumes "m_decode_success vm" "data_opcode op" "encodable op"
    "code_at vm i (assemble (flat (Data op # ss)))"
    "execute_opcode svc md kHeld op s = Some s1"
    "runs svc md kHeld vm (loop_regs ss) tops D (i + length (encode_opcode op))
      (i + length (encode_opcode op) + length (assemble (flat ss))) s1 s2"
  shows "runs svc md kHeld vm (loop_regs (Data op # ss)) tops D i
    (i + length (assemble (flat (Data op # ss)))) s s2"
proof -
  have code: "code_at vm i (encode_opcode op)"
    using assms(4) by (simp add: code_at_append)
  have "vm_steps svc md kHeld (cfg vm tops i D (fst s), snd s)
      (cfg vm tops (i + length (encode_opcode op)) D (fst s1), snd s1)"
    using step_data [OF assms(1,3) code assms(2), of svc md kHeld "fst s" "snd s" "fst s1" "snd s1"]
      assms(5) by simp
  from runs_after [OF this refl _ assms(6) subset_refl vm_steps.init] show ?thesis
    by (simp add: add.assoc)
qed

lemma runs_If_true:
  assumes "m_decode_success vm" "begin_conditional_block c" "encodable c"
    "code_at vm i (assemble (flat (IfBlock c b # ss)))" "eval_condition svc md kHeld s c"
  defines "n \<equiv> i + length (encode_opcode c)" and "m \<equiv> length (assemble (flat b))"
  assumes "runs svc md kHeld vm (loop_regs b) tops (Suc D) n (n + m) s s1"
    "\<And>ts. length ts = length tops \<Longrightarrow>
      runs svc md kHeld vm (loop_regs ss) ts D (n + m + 1) (n + m + 1 + length (assemble (flat ss))) s1 s2"
  shows "runs svc md kHeld vm (loop_regs (IfBlock c b # ss)) tops D i
    (i + length (assemble (flat (IfBlock c b # ss)))) s s2"
proof -
  note code = code_If [OF assms(4), folded n_def m_def]
  have enter: "vm_steps svc md kHeld (cfg vm tops i D (fst s), snd s) (cfg vm tops n (Suc D) (fst s), snd s)"
    using step_begin_true [OF assms(1,3) code(1) assms(2), of svc md kHeld "fst s" "snd s"] assms(5)
    by (simp add: n_def)
  have "runs svc md kHeld vm (loop_regs b) tops D i (n + m + 1) s s1"
    by (rule runs_after [OF enter refl _ assms(8) subset_refl step_end [OF assms(1) code(4)]]) simp
  from runs_trans [OF this _ _ assms(9), of "loop_regs b \<union> loop_regs ss"] show ?thesis
    by (simp add: n_def m_def add.assoc)
qed

lemma runs_If_false:
  assumes "m_decode_success vm" "begin_conditional_block c" "encodable c" "wf_stmts b"
    "code_at vm i (assemble (flat (IfBlock c b # ss)))" "\<not> eval_condition svc md kHeld s c"
  defines "n \<equiv> i + length (encode_opcode c)" and "m \<equiv> length (assemble (flat b))"
  assumes "runs svc md kHeld vm (loop_regs ss) tops D (n + m + 1)
      (n + m + 1 + length (assemble (flat ss))) s s2"
  shows "runs svc md kHeld vm (loop_regs (IfBlock c b # ss)) tops D i
    (i + length (assemble (flat (IfBlock c b # ss)))) s s2"
proof -
  note code = code_If [OF assms(5), folded n_def m_def]
  have "vm_steps svc md kHeld (cfg vm tops i D (fst s), snd s) (cfg vm tops (n + m + 1) D (fst s), snd s)"
    using step_begin_false [OF assms(1,3) code(1) assms(2), of svc md kHeld "fst s" "snd s" tops D]
      skip_cfg_end [OF assms(4,1) code(3), of True D tops "fst s"] assms(6)
    by (simp add: n_def m_def)
  from runs_after [OF this refl _ assms(9) _ vm_steps.init, of "loop_regs b \<union> loop_regs ss"]
  show ?thesis
    by (simp add: n_def m_def add.assoc)
qed

lemma runs_IfElse_true:
  assumes "m_decode_success vm" "begin_conditional_block c" "encodable c" "wf_stmts b"
    "code_at vm i (assemble (flat (IfElseBlock c a b # ss)))" "eval_condition svc md kHeld s c"
  defines "n \<equiv> i + length (encode_opcode c)" and "m \<equiv> length (assemble (flat a))"
    and "k \<equiv> length (assemble (flat b))"
  assumes "runs svc md kHeld vm (loop_regs a) tops (Suc D) n (n + m) s s1"
    "\<And>ts. length ts = length tops \<Longrightarrow> runs svc md kHeld vm (loop_regs ss) ts D
      (n + m + 1 + k + 1) (n + m + 1 + k + 1 + length (assemble (flat ss))) s1 s2"
  shows "runs svc md kHeld vm (loop_regs (IfElseBlock c a b # ss)) tops D i
    (i + length (assemble (flat (IfElseBlock c a b # ss)))) s s2"
proof -
  note code = code_IfElse [OF assms(5), folded n_def m_def, folded k_def]
  have enter: "vm_steps svc md kHeld (cfg vm tops i D (fst s), snd s) (cfg vm tops n (Suc D) (fst s), snd s)"
    using step_begin_true [OF assms(1,3) code(1) assms(2), of svc md kHeld "fst s" "snd s"] assms(6)
    by (simp add: n_def)
  have leave: "vm_steps svc md kHeld (cfg vm ts (n + m) (Suc D) (fst s1), snd s1)
      (cfg vm ts (n + m + 1 + k + 1) D (fst s1), snd s1)" for ts
    using step_else [OF assms(1) code(4), of svc md kHeld ts D "fst s1" "snd s1"]
      skip_cfg_end [OF assms(4,1) code(6), of False D ts "fst s1"] by (simp add: k_def)
  have "runs svc md kHeld vm (loop_regs a) tops D i (n + m + 1 + k + 1) s s1"
    by (rule runs_after [OF enter refl _ assms(10) subset_refl leave]) simp
  then have "runs svc md kHeld vm (loop_regs a \<union> loop_regs b \<union> loop_regs ss) tops D i
      (n + m + 1 + k + 1 + length (assemble (flat ss))) s s2"
    by (rule runs_trans [OF _ _ _ assms(11)]) auto
  then show ?thesis
    by (simp add: n_def m_def k_def add.assoc)
qed

lemma runs_IfElse_false:
  assumes "m_decode_success vm" "begin_conditional_block c" "encodable c" "wf_stmts a"
    "code_at vm i (assemble (flat (IfElseBlock c a b # ss)))" "\<not> eval_condition svc md kHeld s c"
  defines "n \<equiv> i + length (encode_opcode c)" and "m \<equiv> length (assemble (flat a))"
    and "k \<equiv> length (assemble (flat b))"
  assumes "runs svc md kHeld vm (loop_regs b) tops (Suc D) (n + m + 1) (n + m + 1 + k) s s1"
    "\<And>ts. length ts = length tops \<Longrightarrow> runs svc md kHeld vm (loop_regs ss) ts D
      (n + m + 1 + k + 1) (n + m + 1 + k + 1 + length (assemble (flat ss))) s1 s2"
  shows "runs svc md kHeld vm (loop_regs (IfElseBlock c a b # ss)) tops D i
    (i + length (assemble (flat (IfElseBlock c a b # ss)))) s s2"
proof -
  note code = code_IfElse [OF assms(5), folded n_def m_def, folded k_def]
  have enter: "vm_steps svc md kHeld (cfg vm tops i D (fst s), snd s)
      (cfg vm tops (n + m + 1) (Suc D) (fst s), snd s)"
    using step_begin_false [OF assms(1,3) code(1) assms(2), of svc md kHeld "fst s" "snd s" tops D]
      skip_cfg_else [OF assms(4,1) code(3), of D tops "fst s"] assms(6)
    by (simp add: n_def m_def)
  have "runs svc md kHeld vm (loop_regs b) tops D i (n + m + 1 + k + 1) s s1"
    by (rule runs_after [OF enter refl _ assms(10) subset_refl step_end [OF assms(1) code(7)]]) simp
  then have "runs svc md kHeld vm (loop_regs a \<union> loop_regs b \<union> loop_regs ss) tops D i
      (n + m + 1 + k + 1 + length (assemble (flat ss))) s s2"
    by (rule runs_trans [OF _ _ _ assms(11)]) auto
  then show ?thesis
    by (simp add: n_def m_def k_def add.assoc)
qed

lemma runs_Loop:
  assumes "m_decode_success vm" "nyb r" "code_at vm i (assemble (flat (Loop r n b # ss)))"
  defines "m \<equiv> length (assemble (flat b))"
  assumes "runs svc md kHeld vm (loop_regs b) (tops[unat r := i + 2]) D (i + 2) (i + 2 + m + 1)
      (set_reg r (ucast n) (fst s), snd s) s1"
    "\<And>ts. length ts = length tops \<Longrightarrow> runs svc md kHeld vm (loop_regs ss) ts D
      (i + 2 + m + 1) (i + 2 + m + 1 + length (assemble (flat ss))) s1 s2"
  shows "runs svc md kHeld vm (loop_regs (Loop r n b # ss)) tops D i
    (i + length (assemble (flat (Loop r n b # ss)))) s s2"
proof -
  note code = code_Loop [OF assms(3), folded m_def]
  let ?s = "(set_reg r (ucast n) (fst s), snd s)"
  have enter: "vm_steps svc md kHeld (cfg vm tops i D (fst s), snd s)
      (cfg vm (tops[unat r := i + 2]) (i + 2) D (fst ?s), snd ?s)"
    using step_start_loop [OF assms(1,2) code(1)] by simp
  have "runs svc md kHeld vm (insert (unat r) (loop_regs b)) tops D i (i + 2 + m + 1) s s1"
    by (rule runs_after [OF enter _ _ assms(5) subset_insertI vm_steps.init]) auto
  from runs_trans [OF this _ _ assms(6), of "insert (unat r) (loop_regs b \<union> loop_regs ss)"]
  show ?thesis
    by (simp add: m_def add.assoc subset_insertI2)
qed

lemma runs_iter_last:
  assumes "m_decode_success vm" "nyb r"
    "code_at vm (i + m) (encode_opcode (EndLoop r))"
    "runs svc md kHeld vm R tops D i (i + m) s (u, ps)"
    "u' = set_reg r (reg u r - 1) u" "reg u' r = 0"
  shows "runs svc md kHeld vm R tops D i (i + m + 1) s (u', ps)"
proof (rule runs_trans [OF assms(4) subset_refl subset_refl])
  fix ts :: "nat list"
  have "vm_steps svc md kHeld (cfg vm ts (i + m) D u, ps) (cfg vm ts (i + m + 1) D u', ps)"
    using step_end_loop [OF assms(1,2,3,5), of svc md kHeld ts D ps] assms(6) by simp
  then show "runs svc md kHeld vm R ts D (i + m) (i + m + 1) (u, ps) (u', ps)"
    by (intro runs_step) simp
qed

lemma runs_iter_again:
  assumes "m_decode_success vm" "nyb r" "unat r \<notin> R" "tops ! unat r = i"
    "code_at vm (i + m) (encode_opcode (EndLoop r))"
    "runs svc md kHeld vm R tops D i (i + m) s (u, ps)"
    "u' = set_reg r (reg u r - 1) u" "reg u' r \<noteq> 0"
    "\<And>ts. length ts = length tops \<Longrightarrow> ts ! unat r = i \<Longrightarrow>
      runs svc md kHeld vm R ts D i (i + m + 1) (u', ps) s2"
  shows "runs svc md kHeld vm R tops D i (i + m + 1) s s2"
proof (rule runs_trans [OF assms(6) subset_refl subset_refl])
  fix ts
  assume len: "length ts = length tops" and same: "\<forall>q. q \<notin> R \<longrightarrow> ts ! q = tops ! q"
  then have top: "ts ! unat r = i"
    using assms(3,4) by simp
  have "vm_steps svc md kHeld (cfg vm ts (i + m) D (fst (u, ps)), snd (u, ps))
      (cfg vm ts i D (fst (u', ps)), snd (u', ps))"
    using step_end_loop [OF assms(1,2,5,7), of svc md kHeld ts D ps] assms(8) top by simp
  from runs_after [OF this refl _ assms(9) [OF len top] subset_refl vm_steps.init]
  show "runs svc md kHeld vm R ts D (i + m) (i + m + 1) (u, ps) s2"
    by simp
qed

lemma exec_stmts_runs:
  assumes "m_decode_success vm"
  shows "exec_stmts svc md kHeld ss s s' \<Longrightarrow> wf_stmts ss \<Longrightarrow> code_at vm i (assemble (flat ss)) \<Longrightarrow>
      length tops = NumRegisters \<Longrightarrow>
      runs svc md kHeld vm (loop_regs ss) tops D i (i + length (assemble (flat ss))) s s'"
    and "exec_iter svc md kHeld r b s s' \<Longrightarrow> wf_stmts b \<Longrightarrow> nyb r \<Longrightarrow> unat r \<notin> loop_regs b \<Longrightarrow>
      code_at vm i (assemble (flat b) @ encode_opcode (EndLoop r)) \<Longrightarrow>
      length tops = NumRegisters \<Longrightarrow> tops ! unat r = i \<Longrightarrow>
      runs svc md kHeld vm (loop_regs b) tops D i (i + length (assemble (flat b)) + 1) s s'"
proof (induction arbitrary: i tops D and i tops D rule: exec_stmts_exec_iter.inducts)
  case (Nil s)
  then show ?case by (intro runs_step) (simp add: vm_steps.init)
next
  case (Data op s s1 ss s2)
  show ?case
    using Data(4-6) by (intro runs_Data [OF assms _ _ _ Data(1) Data(3)])
      (simp_all add: code_at_append)
next
  case (IfTrue s c b s1 ss s2)
  note code = code_If [OF IfTrue(7)]
  show ?case
    using IfTrue(6,8) code(2,5)
    by (intro runs_If_true [OF assms _ _ IfTrue(7) IfTrue(1) IfTrue(3) IfTrue(5)]) simp_all
next
  case (IfFalse s c ss s2 b)
  note code = code_If [OF IfFalse(5)]
  show ?case
    using IfFalse(4,6) code(5)
    by (intro runs_If_false [OF assms _ _ _ IfFalse(5) IfFalse(1) IfFalse(3)]) simp_all
next
  case (ElseTrue s c a s1 ss s2 b)
  note code = code_IfElse [OF ElseTrue(7)]
  show ?case
    using ElseTrue(6,8) code(2,8)
    by (intro runs_IfElse_true [OF assms _ _ _ ElseTrue(7) ElseTrue(1) ElseTrue(3) ElseTrue(5)]) simp_all
next
  case (ElseFalse s c b s1 ss s2 a)
  note code = code_IfElse [OF ElseFalse(7)]
  show ?case
    using ElseFalse(6,8) code(5,8)
    by (intro runs_IfElse_false [OF assms _ _ _ ElseFalse(7) ElseFalse(1) ElseFalse(3) ElseFalse(5)]) simp_all
next
  case (Loop r b n s s1 ss s2)
  note code = code_Loop [OF Loop(6)]
  show ?case
    using Loop(5,7) code(2,3)
    by (intro runs_Loop [OF assms _ Loop(6) Loop(2) Loop(4)])
      (simp_all add: NumRegisters_def)
next
  case (Last b s u ps u' r)
  show ?case
    using Last(3-10)
    by (intro runs_iter_last [OF assms _ _ Last(2)])
      (simp_all add: code_at_append del: encode_opcode.simps)
next
  case (Again b s u ps u' r s2)
  show ?case
    using Again(5-12)
    by (intro runs_iter_again [OF assms _ _ _ _ Again(2) _ _ Again(4)])
      (simp_all add: code_at_append del: encode_opcode.simps)
qed

lemma vm_steps_ExecuteLoop:
  assumes "vm_steps svc md kHeld s s'"
  shows "\<exists>k. \<forall>m. ExecuteLoop (k + m) svc md kHeld s = ExecuteLoop m svc md kHeld s'"
  using assms
proof (induction rule: vm_steps.induct)
  case init
  then show ?case by (intro exI [of _ 0]) simp
next
  case (step s' op vm s'')
  then obtain k where k: "\<forall>m. ExecuteLoop (k + m) svc md kHeld s = ExecuteLoop m svc md kHeld s'"
    by blast
  have "ExecuteLoop (Suc k + m) svc md kHeld s = ExecuteLoop m svc md kHeld s''" for m
    using spec [OF k, of "Suc m"] step.hyps by simp
  then show ?case by blast
qed

lemma code_at_take:
  "ip + length ws \<le> m_num_opcodes vm \<Longrightarrow> m_num_opcodes vm \<le> length (m_program vm) \<Longrightarrow>
   take (length ws) (drop ip (m_program vm)) = ws \<Longrightarrow> code_at vm ip ws"
proof (induction ws arbitrary: ip)
  case Nil
  then show ?case by simp
next
  case (Cons w ws)
  then have "drop ip (m_program vm) = m_program vm ! ip # drop (Suc ip) (m_program vm)"
    by (intro Cons_nth_drop_Suc [symmetric]) simp
  with Cons show ?case by simp
qed

lemma DecodeNextOpcode_at_end:
  "m_num_opcodes vm \<le> m_instruction_ptr vm \<Longrightarrow>
   DecodeNextOpcode vm = (None, vm\<lparr>m_decode_success := False\<rparr>)"
  by (simp add: DecodeNextOpcode_def GetNextDword_def)

section \<open>Properties of blocks\<close>

text \<open>
  Skipping a block. When the machine skips a conditional block that holds a
  well-formed cheat and is closed by an end, it stops right after that end with the
  block's depth closed, whatever blocks and loops are nested inside, and changes nothing
  else.
\<close>

theorem SkipConditionalBlock_matches_end:
  assumes "wf_stmts b" "m_decode_success vm" "m_condition_depth vm = Suc D"
    "code_at vm (m_instruction_ptr vm) (assemble (flat b) @ encode_opcode (EndConditionalBlock False))"
  shows "SkipConditionalBlock is_if vm =
    Some (vm\<lparr>m_instruction_ptr := m_instruction_ptr vm + length (assemble (flat b)) + 1,
      m_condition_depth := D\<rparr>)"
proof -
  let ?i = "m_instruction_ptr vm"
  have self: "cfg vm (m_loop_tops vm) ?i (Suc D) vm = vm"
    using assms(3) by (simp add: cfg_def)
  have "skip_loop is_if D vm = cfg vm (m_loop_tops vm) (?i + length (assemble (flat b)) + 1) D vm"
    using skip_cfg_end [OF assms(1,2,4), of is_if D "m_loop_tops vm" vm] unfolding self .
  then show ?thesis
    using assms(3) by (simp add: SkipConditionalBlock_def cfg_def)
qed

theorem SkipConditionalBlock_matches_end_witness:
  "SkipConditionalBlock True ((zeroed_vm [0x80000001, 0x21000000, 0x20000000, 0x20000000])
     \<lparr>m_condition_depth := 1\<rparr>) =
   Some ((zeroed_vm [0x80000001, 0x21000000, 0x20000000, 0x20000000])
     \<lparr>m_instruction_ptr := 4, m_condition_depth := 0\<rparr>)"
proof -
  let ?vm = "(zeroed_vm [0x80000001, 0x21000000, 0x20000000, 0x20000000])\<lparr>m_condition_depth := 1\<rparr>"
  let ?b = "[IfElseBlock (BeginKeypressConditionalBlock 1) [] []]"
  have enc: "assemble (flat ?b) = [0x80000001, 0x21000000, 0x20000000]"
    "encode_opcode (EndConditionalBlock False) = [0x20000000]"
    by (simp_all add: dword_def)
  have "wf_stmts ?b" "m_decode_success ?vm" "m_condition_depth ?vm = Suc 0"
    by (simp_all add: zeroed_vm_def)
  moreover have "code_at ?vm (m_instruction_ptr ?vm)
      (assemble (flat ?b) @ encode_opcode (EndConditionalBlock False))"
    unfolding enc by (simp add: zeroed_vm_def)
  ultimately show ?thesis
    using SkipConditionalBlock_matches_end [of ?b ?vm 0 True] unfolding enc
    by (simp add: zeroed_vm_def)
qed

text \<open>
  C9. The machine implements structured cheats. Assemble a well-formed cheat of data
  opcodes, if blocks, if-else blocks and nested loops. If its structured meaning takes
  the reset registers and the process to some result, then for all large enough numbers
  of instructions \<^verbatim>\<open>Execute\<close> on that program finishes, with exactly these register,
  saved and static values, this process, and every conditional block closed.
\<close>

theorem Execute_implements_structured:
  assumes "wf_stmts ss" "vm_arrays vm"
    "take (m_num_opcodes vm) (m_program vm) = assemble (flat ss)"
    "exec_stmts svc md kHeld ss (ResetState vm, ps) (u, ps')"
  shows "\<exists>k vm'. (\<forall>n. Execute (k + Suc n) svc md kHeld (vm, ps) = Finished (vm', ps')) \<and>
    m_registers vm' = m_registers u \<and> m_saved_values vm' = m_saved_values u \<and>
    m_static_registers vm' = m_static_registers u \<and> m_condition_depth vm' = 0"
proof -
  let ?r = "ResetState vm"
  let ?ws = "assemble (flat ss)"
  have fits: "m_num_opcodes vm \<le> length (m_program vm)" "length ?ws = m_num_opcodes vm"
    using assms(2) arg_cong [OF assms(3), of length] by (simp_all add: vm_arrays_def)
  have "take (length ?ws) (drop 0 (m_program ?r)) = ?ws"
    using assms(3) fits(2) by (simp add: ResetState_def)
  then have code: "code_at ?r 0 ?ws"
    using fits by (intro code_at_take) (simp_all add: ResetState_def)
  have "runs svc md kHeld ?r (loop_regs ss) (m_loop_tops ?r) 0 0 (0 + length ?ws) (?r, ps) (u, ps')"
    by (rule exec_stmts_runs(1) [OF _ assms(4,1) code]) (simp_all add: ResetState_def)
  then obtain tops where steps: "vm_steps svc md kHeld
      (cfg ?r (m_loop_tops ?r) 0 0 ?r, ps) (cfg ?r tops (length ?ws) 0 u, ps')"
    by (auto simp: runs_def)
  have start: "cfg ?r (m_loop_tops ?r) 0 0 ?r = ?r"
    by (simp add: cfg_def ResetState_def)
  from vm_steps_ExecuteLoop [OF steps] obtain k where
    k: "\<forall>m. ExecuteLoop (k + m) svc md kHeld (?r, ps) =
      ExecuteLoop m svc md kHeld (cfg ?r tops (length ?ws) 0 u, ps')"
    unfolding start by blast
  let ?halt = "(cfg ?r tops (length ?ws) 0 u)\<lparr>m_decode_success := False\<rparr>"
  have "DecodeNextOpcode (cfg ?r tops (length ?ws) 0 u) = (None, ?halt)"
    using fits(2) by (intro DecodeNextOpcode_at_end) (simp add: ResetState_def)
  then have "Execute (k + Suc n) svc md kHeld (vm, ps) = Finished (?halt, ps')" for n
    using k by (simp add: Execute_def del: add_Suc_right)
  then show ?thesis
    by (intro exI [of _ k] exI [of _ ?halt]) simp
qed

text \<open>Two rounds of a loop that adds five to register zero.\<close>

theorem Execute_implements_structured_witness:
  "\<exists>k vm'. (\<forall>n. Execute (k + Suc n) ram_svc ram_metadata 0
      (zeroed_vm [0x30010000, 2, 0x78000000, 5, 0x31010000], ram_process []) =
      Finished (vm', ram_process [])) \<and> m_registers vm' = 10 # replicate 15 0"
proof -
  let ?ss = "[Loop 1 2 [Data (PerformArithmeticStatic 8 0 Addition 5)]]"
  let ?ws = "[0x30010000, 2, 0x78000000, 5, 0x31010000] :: u32 list"
  let ?vm = "zeroed_vm ?ws"
  let ?u = "\<lambda>a b. (ResetState ?vm)\<lparr>m_registers := a # b # replicate 14 0\<rparr>"
  have wf: "wf_stmts ?ss" "vm_arrays ?vm"
    by (simp_all add: zeroed_vm_def vm_arrays_def vm_sizes arith_ok_def)
  have "assemble (flat ?ss) = ?ws"
    by (simp add: dword_def)
  then have prog: "take (m_num_opcodes ?vm) (m_program ?vm) = assemble (flat ?ss)"
    by (simp only:) (simp add: zeroed_vm_def)
  have regs: "replicate NumRegisters 0 = (0 :: u64) # 0 # replicate 14 0"
    by (simp add: NumRegisters_def numeral_eq_Suc)
  have start: "set_reg 1 (ucast (2 :: u32)) (ResetState ?vm) = ?u 0 2"
    by (simp add: set_reg_def ResetState_def regs)
  have body: "exec_stmts ram_svc ram_metadata 0 [Data (PerformArithmeticStatic 8 0 Addition 5)]
      (?u a b, ram_process []) (?u (a + 5) b, ram_process [])" for a b
    by (rule exec_stmts_exec_iter.Data [OF _ exec_stmts_exec_iter.Nil])
      (simp add: exec_PerformArithmeticStatic_def set_reg_def reg_def apply_width_def math_static_def)
  have dec: "set_reg 1 (reg (?u a b) 1 - 1) (?u a b) = ?u a (b - 1)" "reg (?u a b) 1 = b" for a b
    by (simp_all add: set_reg_def reg_def)
  have "exec_iter ram_svc ram_metadata 0 1 [Data (PerformArithmeticStatic 8 0 Addition 5)]
      (?u 5 1, ram_process []) (?u 10 0, ram_process [])"
    using exec_stmts_exec_iter.Last [OF body [of 5 1] dec(1) [symmetric]] by (simp add: dec)
  then have "exec_iter ram_svc ram_metadata 0 1 [Data (PerformArithmeticStatic 8 0 Addition 5)]
      (?u 0 2, ram_process []) (?u 10 0, ram_process [])"
    using exec_stmts_exec_iter.Again [OF body [of 0 2] dec(1) [symmetric]] by (simp add: dec)
  then have "exec_stmts ram_svc ram_metadata 0 ?ss (ResetState ?vm, ram_process [])
      (?u 10 0, ram_process [])"
    by (intro exec_stmts_exec_iter.Loop [OF _ exec_stmts_exec_iter.Nil])
      (simp only: fst_conv snd_conv start)
  from Execute_implements_structured [OF wf prog this] show ?thesis
    by (auto simp: numeral_eq_Suc)
qed

end
