(* ===== verification/Cheat_Parser.thy ===== *)
theory Cheat_Parser
  imports Cheat_Types
begin

text \<open>
  The text formats of the cheat service: \<^verbatim>\<open>ParseCheats\<close>, \<^verbatim>\<open>ParseCheatToggles\<close> and the text
  that \<^verbatim>\<open>SaveCheatToggles\<close> writes (\<^verbatim>\<open>dmnt_cheat_api.cpp\<close>), over the array of cheat entries.

  The parsers read a buffer: the text, its terminating NUL and whatever the buffer held
  before. They return their verdict together with the entries, because a failed parse
  keeps what it already stored.
\<close>

section \<open>Characters\<close>

abbreviation NUL :: char where
  "NUL \<equiv> CHR 0x00"

definition isspace :: "char \<Rightarrow> bool" where
  "isspace c \<longleftrightarrow> of_char c = (32 :: nat) \<or> (9 :: nat) \<le> of_char c \<and> of_char c \<le> (13 :: nat)"

definition hex_value :: "char \<Rightarrow> nat option" where
  "hex_value c =
     (let n = of_char c :: nat
      in if 48 \<le> n \<and> n \<le> 57 then Some (n - 48)
         else if 65 \<le> n \<and> n \<le> 70 then Some (n - 55)
         else if 97 \<le> n \<and> n \<le> 102 then Some (n - 87) else None)"

definition isxdigit :: "char \<Rightarrow> bool" where
  "isxdigit c \<longleftrightarrow> hex_value c \<noteq> None"

definition tolower :: "char \<Rightarrow> char" where
  "tolower c = (let n = of_char c :: nat in if 65 \<le> n \<and> n \<le> 90 then char_of (n + 32) else c)"

text \<open>The C string an array holds.\<close>

definition c_string :: "char list \<Rightarrow> char list" where
  "c_string xs = takeWhile (\<lambda>c. c \<noteq> NUL) xs"

definition strcasecmp_eq :: "char list \<Rightarrow> char list \<Rightarrow> bool" where
  "strcasecmp_eq a b \<longleftrightarrow> map tolower (c_string a) = map tolower (c_string b)"

definition strncmp_eq :: "char list \<Rightarrow> char list \<Rightarrow> nat \<Rightarrow> bool" where
  "strncmp_eq a b n \<longleftrightarrow> take n (c_string a) = take n (c_string b)"

definition strtoul16 :: "char list \<Rightarrow> u32" where
  "strtoul16 xs = of_nat (foldl (\<lambda>a c. 16 * a + (case hex_value c of Some d \<Rightarrow> d | None \<Rightarrow> 0)) 0 xs)"

text \<open>Reading the buffer.\<close>

definition char_at :: "char list \<Rightarrow> nat \<Rightarrow> char" where
  "char_at s j = (if j < length s then s ! j else NUL)"

text \<open>The loop that looks for the bracket closing a name; \<open>None\<close> is the failing return.\<close>

function find_close :: "char \<Rightarrow> char list \<Rightarrow> nat \<Rightarrow> nat \<Rightarrow> nat option" where
  "find_close c s len j =
     (if char_at s j = c then Some j else if len \<le> Suc j then None else find_close c s len (Suc j))"
  by pat_completeness auto
termination
  by (relation "measure (\<lambda>(c, s, len, j). len - j)") auto

declare find_close.simps [simp del]

section \<open>Entries\<close>

definition MaxCheatCount :: nat where
  "MaxCheatCount = 0x80"

definition zero_definition :: CheatDefinition where
  "zero_definition = \<lparr>readable_name = replicate ReadableNameSize NUL, num_opcodes = 0,
     opcodes = replicate CheatOpcodesSize 0\<rparr>"

definition zero_entry :: "nat \<Rightarrow> CheatEntry" where
  "zero_entry i = \<lparr>enabled = False, cheat_id = of_nat i, cheat_definition = zero_definition\<rparr>"

abbreviation entry_opcodes :: "CheatEntry \<Rightarrow> u32" where
  "entry_opcodes e \<equiv> num_opcodes (cheat_definition e)"

abbreviation entry_name :: "CheatEntry \<Rightarrow> char list" where
  "entry_name e \<equiv> readable_name (cheat_definition e)"

text \<open>The first index from 1 on whose entry satisfies a test.\<close>

definition first_entry :: "(CheatEntry \<Rightarrow> bool) \<Rightarrow> CheatEntry list \<Rightarrow> nat option" where
  "first_entry P entries = find (\<lambda>i. P (entries ! i)) [1..<MaxCheatCount]"

definition GetFreeCheatEntry :: "CheatEntry list \<Rightarrow> nat option" where
  "GetFreeCheatEntry entries = first_entry (\<lambda>e. entry_opcodes e = 0) entries"

definition GetCheatEntryByReadableName :: "char list \<Rightarrow> CheatEntry list \<Rightarrow> nat option" where
  "GetCheatEntryByReadableName name entries =
     first_entry (\<lambda>e. strncmp_eq (entry_name e) name ReadableNameSize) entries"

section \<open>Parsing cheats\<close>

text \<open>
  Storing a name. The terminator goes to index \<open>n\<close>; for a name of the array's size that
  is the first byte behind the array, which is the low byte of \<^verbatim>\<open>num_opcodes\<close>.
\<close>

definition store_name :: "char list \<Rightarrow> CheatDefinition \<Rightarrow> CheatDefinition" where
  "store_name name d =
     (let n = min (length name) ReadableNameSize;
          copied = take n name @ drop n (readable_name d)
      in if n < ReadableNameSize then d\<lparr>readable_name := copied[n := NUL]\<rparr>
         else d\<lparr>readable_name := copied, num_opcodes := num_opcodes d AND 0xFFFFFF00\<rparr>)"

definition store_opcode :: "u32 \<Rightarrow> CheatDefinition \<Rightarrow> CheatDefinition" where
  "store_opcode w d =
     d\<lparr>opcodes := (opcodes d)[unat (num_opcodes d) := w], num_opcodes := num_opcodes d + 1\<rparr>"

definition update_definition ::
    "nat \<Rightarrow> (CheatDefinition \<Rightarrow> CheatDefinition) \<Rightarrow> CheatEntry list \<Rightarrow> CheatEntry list" where
  "update_definition k f entries =
     entries[k := (entries ! k)\<lparr>cheat_definition := f (cheat_definition (entries ! k))\<rparr>]"

definition slice :: "char list \<Rightarrow> nat \<Rightarrow> nat \<Rightarrow> char list" where
  "slice s i j = map (char_at s) [i..<j]"

lemma find_close_ge: "find_close c s len j = Some k \<Longrightarrow> j \<le> k"
proof (induction c s len j rule: find_close.induct)
  case (1 c s len j)
  then show ?case
    by (subst (asm) find_close.simps) (fastforce split: if_splits)
qed

function ParseCheats_loop ::
    "char list \<Rightarrow> nat \<Rightarrow> nat \<Rightarrow> nat option \<Rightarrow> CheatEntry list \<Rightarrow> bool \<times> CheatEntry list" where
  "ParseCheats_loop s len i cur entries =
     (if len \<le> i then (True, entries)
      else if isspace (char_at s i) then ParseCheats_loop s len (Suc i) cur entries
      else if char_at s i = CHR ''['' then
        (case GetFreeCheatEntry entries of
           None \<Rightarrow> (False, entries)
         | Some k \<Rightarrow>
             (case find_close (CHR '']'') s len (Suc i) of
                None \<Rightarrow> (False, entries)
              | Some j \<Rightarrow>
                  ParseCheats_loop s len (Suc j) (Some k)
                    (update_definition k (store_name (slice s (Suc i) j)) entries)))
      else if char_at s i = CHR ''{'' then
        (if 0 < entry_opcodes (entries ! 0) then (False, entries)
         else
           (case find_close (CHR ''}'') s len (Suc i) of
              None \<Rightarrow> (False, entries)
            | Some j \<Rightarrow>
                ParseCheats_loop s len (Suc j) (Some 0)
                  (update_definition 0 (store_name (slice s (Suc i) j)) entries)))
      else if isxdigit (char_at s i) then
        (case cur of
           None \<Rightarrow> (False, entries)
         | Some k \<Rightarrow>
             if CheatOpcodesSize \<le> unat (entry_opcodes (entries ! k)) then (False, entries)
             else if \<not> list_all (\<lambda>j. i + j < len \<and> isxdigit (char_at s (i + j))) [1..<8]
             then (False, entries)
             else ParseCheats_loop s len (i + 8) cur
                    (update_definition k (store_opcode (strtoul16 (slice s i (i + 8)))) entries))
      else (False, entries))"
  by pat_completeness auto
termination
  by (relation "measure (\<lambda>(s, len, i, cur, entries). len - i)") (auto dest: find_close_ge)

declare ParseCheats_loop.simps [simp del]

text \<open>The two loops behind a successful parse.\<close>

definition enable_parsed :: "bool \<Rightarrow> CheatEntry list \<Rightarrow> CheatEntry list" where
  "enable_parsed enable_by_default entries =
     map (\<lambda>i. let e = entries ! i
               in if 0 < entry_opcodes e
                  then e\<lparr>enabled := (if i = 0 then True else enable_by_default)\<rparr> else e)
       [0..<length entries]"

definition ParseCheats :: "bool \<Rightarrow> char list \<Rightarrow> nat \<Rightarrow> CheatEntry list \<Rightarrow> bool \<times> CheatEntry list" where
  "ParseCheats enable_by_default s len entries =
     (case ParseCheats_loop s len 0 None entries of
        (False, es) \<Rightarrow> (False, es)
      | (True, es) \<Rightarrow> (True, enable_parsed enable_by_default es))"

section \<open>Parsing and saving toggles\<close>

text \<open>The loop that skips white space; it runs past the text only inside the buffer.\<close>

function skip_spaces :: "char list \<Rightarrow> nat \<Rightarrow> nat" where
  "skip_spaces s i = (if isspace (char_at s i) then skip_spaces s (Suc i) else i)"
  by pat_completeness auto
termination
proof (relation "measure (\<lambda>(s, i). length s - i)")
  fix s i
  assume "isspace (char_at s i)"
  then have "i < length s"
    by (auto simp: char_at_def isspace_def split: if_splits)
  then show "((s, Suc i), (s, i)) \<in> measure (\<lambda>(s, i). length s - i)"
    by simp
qed simp

declare skip_spaces.simps [simp del]

text \<open>The end of the toggle word that starts at \<open>i\<close>; \<open>ToggleSize\<close> is the buffer's size.\<close>

definition ToggleSize :: nat where
  "ToggleSize = 8"

function toggle_end :: "char list \<Rightarrow> nat \<Rightarrow> nat \<Rightarrow> nat \<Rightarrow> nat option" where
  "toggle_end s len i j =
     (if isspace (char_at s j) then Some j
      else if len \<le> Suc j \<or> ToggleSize \<le> Suc j - i then None
      else toggle_end s len i (Suc j))"
  by pat_completeness auto
termination
  by (relation "measure (\<lambda>(s, len, i, j). len - j)") auto

declare toggle_end.simps [simp del]

definition apply_toggle :: "char list \<Rightarrow> char list \<Rightarrow> CheatEntry list \<Rightarrow> CheatEntry list" where
  "apply_toggle name toggle entries =
     (case GetCheatEntryByReadableName name entries of
        None \<Rightarrow> entries
      | Some k \<Rightarrow>
          if strcasecmp_eq toggle ''1'' \<or> strcasecmp_eq toggle ''true'' \<or> strcasecmp_eq toggle ''on''
          then entries[k := (entries ! k)\<lparr>enabled := True\<rparr>]
          else if strcasecmp_eq toggle ''0'' \<or> strcasecmp_eq toggle ''false'' \<or>
                  strcasecmp_eq toggle ''off''
          then entries[k := (entries ! k)\<lparr>enabled := False\<rparr>]
          else entries)"

lemma skip_spaces_ge: "i \<le> skip_spaces s i"
proof (induction s i rule: skip_spaces.induct)
  case (1 s i)
  then show ?case by (subst skip_spaces.simps) (auto intro: Suc_leD)
qed

lemma toggle_end_ge: "toggle_end s len i j = Some k \<Longrightarrow> j \<le> k"
proof (induction s len i j rule: toggle_end.induct)
  case (1 s len i j)
  then show ?case
    by (subst (asm) toggle_end.simps) (fastforce split: if_splits)
qed

text \<open>
  The name buffer has the size of a readable name; its terminator is not modelled for a
  name that fills it, since the comparison stops at that size.
\<close>

function ParseCheatToggles_loop ::
    "char list \<Rightarrow> nat \<Rightarrow> nat \<Rightarrow> CheatEntry list \<Rightarrow> bool \<times> CheatEntry list" where
  "ParseCheatToggles_loop s len i entries =
     (if len \<le> i then (True, entries)
      else if isspace (char_at s i) then ParseCheatToggles_loop s len (Suc i) entries
      else if char_at s i = CHR ''['' then
        (case find_close (CHR '']'') s len (Suc i) of
           None \<Rightarrow> (False, entries)
         | Some j \<Rightarrow>
             (let cur_cheat_name = take ReadableNameSize (slice s (Suc i) j);
                  i' = skip_spaces s (Suc j)
              in case toggle_end s len i' (Suc i') of
                   None \<Rightarrow> (False, entries)
                 | Some j' \<Rightarrow>
                     ParseCheatToggles_loop s len (Suc j')
                       (apply_toggle cur_cheat_name (slice s i' j') entries)))
      else (False, entries))"
  by pat_completeness auto
termination
proof (relation "measure (\<lambda>(s, len, i, entries). len - i)", goal_cases)
  case (3 s len i entries j name i' j')
  have "Suc i \<le> j" "Suc j \<le> i'" "Suc i' \<le> j'"
    using 3 find_close_ge toggle_end_ge skip_spaces_ge by auto
  with 3 show ?case by simp
qed auto

declare ParseCheatToggles_loop.simps [simp del]

definition ParseCheatToggles :: "char list \<Rightarrow> nat \<Rightarrow> CheatEntry list \<Rightarrow> bool \<times> CheatEntry list" where
  "ParseCheatToggles s len entries = ParseCheatToggles_loop s len 0 entries"

text \<open>The text that \<^verbatim>\<open>SaveCheatToggles\<close> writes, when every write succeeds.\<close>

definition toggle_text :: "CheatEntry \<Rightarrow> char list" where
  "toggle_text e =
     (if entry_opcodes e \<noteq> 0
      then ''['' @ c_string (entry_name e) @ '']'' @ [CHR 0x0A] @
           (if enabled e then ''true'' else ''false'') @ [CHR 0x0A]
      else [])"

definition SaveCheatToggles_text :: "CheatEntry list \<Rightarrow> char list" where
  "SaveCheatToggles_text entries = concat (map (\<lambda>i. toggle_text (entries ! i)) [1..<MaxCheatCount])"

section \<open>Reading text\<close>

text \<open>The text still to be read from index \<open>i\<close> on is \<open>t\<close>.\<close>

definition rest_at :: "char list \<Rightarrow> nat \<Rightarrow> nat \<Rightarrow> char list \<Rightarrow> bool" where
  "rest_at s len i t \<longleftrightarrow> len \<le> length s \<and> i + length t = len \<and> drop i (take len s) = t"

lemma rest_at_char:
  assumes "rest_at s len i (c # t)"
  shows "char_at s i = c" "i < len" "rest_at s len (Suc i) t"
proof -
  have d: "drop i (take len s) = c # t" and l: "len \<le> length s" "i + Suc (length t) = len"
    using assms by (auto simp: rest_at_def)
  then show "i < len"
    by simp
  have "take len s ! i = c"
    using d l nth_via_drop [OF d] by simp
  then show "char_at s i = c"
    using l by (simp add: char_at_def)
  have "drop (Suc i) (take len s) = t"
    using d by (metis drop_Suc list.sel(3) tl_drop)
  then show "rest_at s len (Suc i) t"
    using l by (simp add: rest_at_def)
qed

lemma rest_at_append_conj:
  "rest_at s len i (u @ t) \<Longrightarrow> rest_at s len (i + length u) t \<and> slice s i (i + length u) = u"
proof (induction u arbitrary: i)
  case (Cons x u)
  note x = rest_at_char [of s len i x "u @ t"]
  show ?case
    using x Cons.prems Cons.IH [of "Suc i"] by (simp add: slice_def upt_conv_Cons del: upt_Suc)
qed (simp add: slice_def)

lemmas rest_at_append = rest_at_append_conj [THEN conjunct1] rest_at_append_conj [THEN conjunct2]

lemma rest_at_nth:
  assumes "rest_at s len i t" "k < length t"
  shows "char_at s (i + k) = t ! k" "i + k < len"
proof -
  have "rest_at s len i (take k t @ t ! k # drop (Suc k) t)"
    using assms by (simp add: id_take_nth_drop [symmetric])
  from rest_at_append(1) [OF this] have "rest_at s len (i + k) (t ! k # drop (Suc k) t)"
    using assms(2) by simp
  then show "char_at s (i + k) = t ! k" "i + k < len"
    by (auto dest: rest_at_char)
qed

lemma find_close_found:
  assumes "rest_at s len i (name @ c # t)" "c \<notin> set name"
  shows "find_close c s len i = Some (i + length name)"
  using assms
proof (induction name arbitrary: i)
  case Nil
  then show ?case
    using rest_at_char(1) [of s len i c t] by (subst find_close.simps) simp
next
  case (Cons x name)
  note x = rest_at_char [of s len i x "name @ c # t"]
  have "Suc i < len"
    using Cons.prems by (auto simp: rest_at_def)
  then show ?case
    using x Cons by (subst find_close.simps) auto
qed

lemma rest_at_text: "rest_at (t @ NUL # junk) (length t) 0 t"
  by (simp add: rest_at_def)

section \<open>Cheat files\<close>

text \<open>The layout of a cheat file: names in brackets, one opcode per line.\<close>

definition hex_digit :: "nat \<Rightarrow> char" where
  "hex_digit n = char_of (if n < 10 then 48 + n else 55 + n)"

definition hex8 :: "u32 \<Rightarrow> char list" where
  "hex8 w = map (\<lambda>k. hex_digit (unat w div 16 ^ (7 - k) mod 16)) [0..<8]"

definition opcode_lines :: "u32 list \<Rightarrow> char list" where
  "opcode_lines ws = concat (map (\<lambda>w. hex8 w @ [CHR 0x0A]) ws)"

definition cheat_text :: "char list \<times> u32 list \<Rightarrow> char list" where
  "cheat_text c = ''['' @ fst c @ '']'' @ [CHR 0x0A] @ opcode_lines (snd c)"

definition master_text :: "(char list \<times> u32 list) option \<Rightarrow> char list" where
  "master_text mc =
     (case mc of None \<Rightarrow> []
      | Some c \<Rightarrow> ''{'' @ fst c @ ''}'' @ [CHR 0x0A] @ opcode_lines (snd c))"

definition cheat_file :: "(char list \<times> u32 list) option \<Rightarrow> (char list \<times> u32 list) list \<Rightarrow> char list" where
  "cheat_file mc cs = master_text mc @ concat (map cheat_text cs)"

lemma of_char_hex_digit: "n < 16 \<Longrightarrow> of_char (hex_digit n) = (if n < 10 then 48 + n else 55 + n)"
  by (simp add: hex_digit_def)

lemma hex_digit_props:
  assumes "n < 16"
  shows "hex_value (hex_digit n) = Some n" "\<not> isspace (hex_digit n)"
    "hex_digit n \<noteq> CHR ''[''" "hex_digit n \<noteq> CHR ''{''"
proof -
  show "hex_value (hex_digit n) = Some n" "\<not> isspace (hex_digit n)"
    using assms by (auto simp: hex_value_def isspace_def Let_def of_char_hex_digit)
  have "of_char (hex_digit n) < (91 :: nat)"
    using assms by (simp add: of_char_hex_digit)
  then show "hex_digit n \<noteq> CHR ''[''" "hex_digit n \<noteq> CHR ''{''"
    by auto
qed

lemma length_hex8 [simp]: "length (hex8 w) = 8"
  by (simp add: hex8_def)

lemma isxdigit_hex8: "k < 8 \<Longrightarrow> isxdigit (hex8 w ! k)"
  by (simp add: hex8_def isxdigit_def hex_digit_props)

lemma hex8_head: "\<not> isspace (hex8 w ! 0)" "hex8 w ! 0 \<noteq> CHR ''[''" "hex8 w ! 0 \<noteq> CHR ''{''"
  by (simp_all add: hex8_def hex_digit_props)

lemma strtoul16_hex8: "strtoul16 (hex8 w) = w"
proof -
  let ?f = "\<lambda>a c. 16 * a + (case hex_value c of Some d \<Rightarrow> d | None \<Rightarrow> 0)"
  let ?W = "unat w"
  have "foldl ?f 0 (map (\<lambda>k. hex_digit (?W div 16 ^ (7 - k) mod 16)) [0..<n]) = ?W div 16 ^ (8 - n)"
    if "n \<le> 8" for n
    using that
  proof (induction n)
    case 0
    have "?W < 16 ^ 8"
      using unat_bound [of w] by simp
    then show ?case by simp
  next
    case (Suc n)
    have "8 - n = Suc (7 - n)"
      using Suc.prems by simp
    then have "16 ^ (8 - n) = 16 ^ (7 - n) * (16 :: nat)"
      by simp
    then have "?W div 16 ^ (8 - n) = ?W div 16 ^ (7 - n) div 16"
      by (simp add: div_mult2_eq)
    then show ?case
      using Suc by (simp add: hex_digit_props)
  qed
  from this [of 8] show ?thesis
    by (simp add: strtoul16_def hex8_def)
qed
section \<open>Parsing a cheat file\<close>

lemma parse_space:
  assumes "rest_at s len i (c # t)" "isspace c"
  shows "ParseCheats_loop s len i cur es = ParseCheats_loop s len (Suc i) cur es"
  using assms rest_at_char [OF assms(1)] by (subst ParseCheats_loop.simps) simp

lemma parse_opcode:
  assumes "rest_at s len i (hex8 w @ t)" "unat (entry_opcodes (es ! k)) < CheatOpcodesSize"
  shows "ParseCheats_loop s len i (Some k) es =
    ParseCheats_loop s len (i + 8) (Some k) (update_definition k (store_opcode w) es)"
proof -
  have nth: "char_at s (i + j) = hex8 w ! j" "i + j < len" if "j < 8" for j
    using rest_at_nth [OF assms(1), of j] that by (simp_all add: nth_append)
  have "list_all (\<lambda>j. i + j < len \<and> isxdigit (char_at s (i + j))) [1..<8]"
    using nth isxdigit_hex8 by (auto simp: list_all_iff)
  moreover have "isxdigit (char_at s i)" "\<not> isspace (char_at s i)"
    "char_at s i \<noteq> CHR ''[''" "char_at s i \<noteq> CHR ''{''" "i < len"
    using nth [of 0] isxdigit_hex8 [of 0 w] hex8_head [of w] by simp_all
  moreover have "strtoul16 (slice s i (i + 8)) = w"
    using rest_at_append(2) [OF assms(1)] by (simp add: strtoul16_hex8)
  ultimately show ?thesis
    using assms(2) by (subst ParseCheats_loop.simps) (simp del: upt_Suc add: not_le)
qed

lemma parse_opcode_lines:
  assumes "rest_at s len i (opcode_lines ws @ t)" "k < length es"
    "unat (entry_opcodes (es ! k)) + length ws \<le> CheatOpcodesSize"
  shows "ParseCheats_loop s len i (Some k) es =
    ParseCheats_loop s len (i + length (opcode_lines ws)) (Some k)
      (update_definition k (fold store_opcode ws) es)"
  using assms
proof (induction ws arbitrary: i es)
  case Nil
  then show ?case by (simp add: opcode_lines_def update_definition_def)
next
  case (Cons w ws)
  have line: "rest_at s len i (hex8 w @ CHR 0x0A # opcode_lines ws @ t)"
    using Cons.prems(1) by (simp add: opcode_lines_def)
  note nl = rest_at_append(1) [OF line, unfolded length_hex8]
  let ?es = "update_definition k (store_opcode w) es"
  have small: "unat (entry_opcodes (es ! k)) < CheatOpcodesSize"
    using Cons.prems(3) by simp
  have "unat (entry_opcodes (?es ! k)) = unat (entry_opcodes (es ! k)) + 1"
    using small Cons.prems(2)
    by (simp add: update_definition_def store_opcode_def unat_word_ariths CheatOpcodesSize_def)
  then have room: "unat (entry_opcodes (?es ! k)) + length ws \<le> CheatOpcodesSize"
    using Cons.prems(3) by simp
  have "ParseCheats_loop s len i (Some k) es = ParseCheats_loop s len (i + 8 + 1) (Some k) ?es"
    using parse_opcode [OF line small] parse_space [OF nl] by (simp add: isspace_def)
  also have "\<dots> = ParseCheats_loop s len (i + 8 + 1 + length (opcode_lines ws)) (Some k)
      (update_definition k (fold store_opcode ws) ?es)"
    using rest_at_char(3) [OF nl] Cons.prems(2) room
    by (intro Cons.IH) (simp_all add: update_definition_def)
  also have "update_definition k (fold store_opcode ws) ?es =
      update_definition k (fold store_opcode (w # ws)) es"
    using Cons.prems(2) by (simp add: update_definition_def)
  finally show ?case
    by (simp add: opcode_lines_def comp_def ac_simps)
qed

text \<open>The definition a cheat of a file leads to.\<close>

definition cheat_def :: "char list \<times> u32 list \<Rightarrow> CheatDefinition" where
  "cheat_def c =
     \<lparr>readable_name = fst c @ replicate (ReadableNameSize - length (fst c)) NUL,
      num_opcodes = of_nat (length (snd c)),
      opcodes = snd c @ replicate (CheatOpcodesSize - length (snd c)) 0\<rparr>"

definition cheat_ok :: "char list \<times> u32 list \<Rightarrow> bool" where
  "cheat_ok c \<longleftrightarrow> length (fst c) < ReadableNameSize \<and> CHR '']'' \<notin> set (fst c) \<and>
     CHR ''}'' \<notin> set (fst c) \<and> NUL \<notin> set (fst c) \<and>
     snd c \<noteq> [] \<and> length (snd c) \<le> CheatOpcodesSize"

lemma fold_store_opcode:
  assumes "unat (num_opcodes d) = length us" "length us + length ws \<le> CheatOpcodesSize"
    "opcodes d = us @ replicate (CheatOpcodesSize - length us) 0"
  shows "fold store_opcode ws d =
    d\<lparr>num_opcodes := of_nat (length us + length ws),
      opcodes := us @ ws @ replicate (CheatOpcodesSize - length us - length ws) 0\<rparr>"
  using assms
proof (induction ws arbitrary: us d)
  case Nil
  then have "of_nat (length us) = num_opcodes d"
    by (simp flip: Nil.prems(1))
  with Nil show ?case by simp
next
  case (Cons w ws)
  have len: "length us < CheatOpcodesSize"
    using Cons.prems(2) by simp
  have "(us @ replicate (CheatOpcodesSize - length us) 0)[length us := w] =
      (us @ [w]) @ replicate (CheatOpcodesSize - length (us @ [w])) 0"
    using len by (cases "CheatOpcodesSize - length us") (auto simp: list_update_append)
  moreover have "unat (num_opcodes d + 1) = length (us @ [w])"
    using Cons.prems(1) len by (simp add: unat_word_ariths CheatOpcodesSize_def)
  ultimately show ?case
    using Cons.prems Cons.IH [of "store_opcode w d" "us @ [w]"] by (simp add: store_opcode_def)
qed

lemma store_name_zero:
  assumes "length name < ReadableNameSize"
  shows "store_name name zero_definition =
    zero_definition\<lparr>readable_name := name @ replicate (ReadableNameSize - length name) NUL\<rparr>"
proof -
  have "(name @ replicate (ReadableNameSize - length name) NUL)[length name := NUL] =
      name @ replicate (ReadableNameSize - length name) NUL"
    using assms by (cases "ReadableNameSize - length name") (simp_all add: list_update_append)
  with assms show ?thesis
    by (simp add: store_name_def zero_definition_def Let_def)
qed

lemma cheat_def_stored:
  assumes "cheat_ok c"
  shows "fold store_opcode (snd c) (store_name (fst c) zero_definition) = cheat_def c"
proof -
  have "length (fst c) < ReadableNameSize" "length (snd c) \<le> CheatOpcodesSize"
    using assms by (simp_all add: cheat_ok_def)
  then show ?thesis
    using fold_store_opcode [of "store_name (fst c) zero_definition" "[]" "snd c"]
    by (simp add: store_name_zero) (simp add: zero_definition_def cheat_def_def)
qed

text \<open>The entries once a file's cheats are stored and before any is enabled.\<close>

definition stored_entry ::
    "(char list \<times> u32 list) option \<Rightarrow> (char list \<times> u32 list) list \<Rightarrow> nat \<Rightarrow> CheatEntry" where
  "stored_entry mc cs i =
     (zero_entry i)\<lparr>cheat_definition :=
        (if i = 0 then (case mc of None \<Rightarrow> zero_definition | Some c \<Rightarrow> cheat_def c)
         else if i \<le> length cs then cheat_def (cs ! (i - 1)) else zero_definition)\<rparr>"

definition stored_entries ::
    "(char list \<times> u32 list) option \<Rightarrow> (char list \<times> u32 list) list \<Rightarrow> CheatEntry list" where
  "stored_entries mc cs = map (stored_entry mc cs) [0..<MaxCheatCount]"

lemma cheat_def_opcodes:
  assumes "cheat_ok c"
  shows "unat (num_opcodes (cheat_def c)) = length (snd c)" "num_opcodes (cheat_def c) \<noteq> 0"
proof -
  have "length (snd c) < 2 ^ 32" "length (snd c) \<noteq> 0"
    using assms by (auto simp: cheat_ok_def CheatOpcodesSize_def)
  then show "unat (num_opcodes (cheat_def c)) = length (snd c)"
    by (simp add: cheat_def_def unat_of_nat)
  with \<open>length (snd c) \<noteq> 0\<close> show "num_opcodes (cheat_def c) \<noteq> 0"
    by auto
qed

lemma stored_entries_nth:
  "i < MaxCheatCount \<Longrightarrow> stored_entries mc cs ! i = stored_entry mc cs i"
  "length (stored_entries mc cs) = MaxCheatCount"
  by (simp_all add: stored_entries_def)

lemma GetFreeCheatEntry_stored:
  assumes "list_all cheat_ok cs" "Suc (length cs) < MaxCheatCount"
  shows "GetFreeCheatEntry (stored_entries mc cs) = Some (Suc (length cs))"
proof -
  let ?P = "\<lambda>i. entry_opcodes (stored_entries mc cs ! i) = 0"
  have used: "\<not> ?P i" if "i < Suc (length cs)" "1 \<le> i" for i
  proof -
    have "cheat_ok (cs ! (i - 1))"
      using assms(1) that by (auto simp: list_all_length)
    then show ?thesis
      using that assms(2) cheat_def_opcodes(2) by (simp add: stored_entries_nth stored_entry_def)
  qed
  have free: "?P (Suc (length cs))"
    using assms(2) by (simp add: stored_entries_nth stored_entry_def zero_definition_def)
  show ?thesis
    unfolding GetFreeCheatEntry_def first_entry_def find_Some_iff
    using assms(2) used free by (intro exI [of _ "length cs"]) (auto simp del: upt_Suc)
qed

lemma store_cheat:
  assumes "cheat_ok c" "Suc (length cs) < MaxCheatCount"
  shows "update_definition (Suc (length cs)) (fold store_opcode (snd c))
      (update_definition (Suc (length cs)) (store_name (fst c)) (stored_entries mc cs)) =
    stored_entries mc (cs @ [c])"
proof (rule nth_equalityI)
  fix i
  assume "i < length (update_definition (Suc (length cs)) (fold store_opcode (snd c))
      (update_definition (Suc (length cs)) (store_name (fst c)) (stored_entries mc cs)))"
  then have "i < MaxCheatCount"
    by (simp add: update_definition_def stored_entries_nth)
  then show "update_definition (Suc (length cs)) (fold store_opcode (snd c))
      (update_definition (Suc (length cs)) (store_name (fst c)) (stored_entries mc cs)) ! i =
    stored_entries mc (cs @ [c]) ! i"
    using assms
    by (cases "i = Suc (length cs)")
      (simp_all add: update_definition_def stored_entries_nth stored_entry_def zero_entry_def
        cheat_def_stored nth_append)
qed (simp add: update_definition_def stored_entries_nth)

lemma store_master:
  assumes "cheat_ok c"
  shows "update_definition 0 (fold store_opcode (snd c))
      (update_definition 0 (store_name (fst c)) (stored_entries None [])) =
    stored_entries (Some c) []"
proof (rule nth_equalityI)
  fix i
  assume "i < length (update_definition 0 (fold store_opcode (snd c))
      (update_definition 0 (store_name (fst c)) (stored_entries None [])))"
  then have "i < MaxCheatCount"
    by (simp add: update_definition_def stored_entries_nth)
  then show "update_definition 0 (fold store_opcode (snd c))
      (update_definition 0 (store_name (fst c)) (stored_entries None [])) ! i =
    stored_entries (Some c) [] ! i"
    using assms
    by (cases "i = 0")
      (simp_all add: update_definition_def stored_entries_nth stored_entry_def zero_entry_def
        cheat_def_stored)
qed (simp add: update_definition_def stored_entries_nth)

lemma fresh_opcodes:
  assumes "k < length es" "entry_opcodes (es ! k) = 0" "length name < ReadableNameSize"
  shows "entry_opcodes (update_definition k (store_name name) es ! k) = 0"
  using assms by (simp add: update_definition_def store_name_def Let_def)

lemma parse_cheat:
  assumes "rest_at s len i (cheat_text c @ t)" "cheat_ok c" "list_all cheat_ok cs"
    "Suc (length cs) < MaxCheatCount"
  shows "ParseCheats_loop s len i cur (stored_entries mc cs) =
    ParseCheats_loop s len (i + length (cheat_text c)) (Some (Suc (length cs)))
      (stored_entries mc (cs @ [c]))"
proof -
  let ?k = "Suc (length cs)" and ?es = "stored_entries mc cs" and ?n = "length (fst c)"
  let ?es' = "update_definition ?k (store_name (fst c)) ?es"
  have l0: "rest_at s len i (CHR ''['' # fst c @ CHR '']'' # CHR 0x0A # opcode_lines (snd c) @ t)"
    using assms(1) by (simp add: cheat_text_def)
  note l1 = rest_at_char [OF l0]
  note l2 = rest_at_append [OF l1(3)]
  note l3 = rest_at_char [OF l2(1)]
  note l4 = rest_at_char [OF l3(3)]
  have "find_close (CHR '']'') s len (Suc i) = Some (Suc i + ?n)"
    using find_close_found [OF l1(3)] assms(2) by (simp add: cheat_ok_def)
  then have "ParseCheats_loop s len i cur ?es = ParseCheats_loop s len (Suc (Suc i + ?n)) (Some ?k) ?es'"
    using l1 l2(2) GetFreeCheatEntry_stored [OF assms(3,4)]
    by (subst ParseCheats_loop.simps) (simp add: isspace_def)
  also have "\<dots> = ParseCheats_loop s len (Suc (Suc (Suc i + ?n))) (Some ?k) ?es'"
    by (rule parse_space [OF l3(3)]) (simp add: isspace_def)
  also have "\<dots> = ParseCheats_loop s len (Suc (Suc (Suc i + ?n)) + length (opcode_lines (snd c)))
      (Some ?k) (update_definition ?k (fold store_opcode (snd c)) ?es')"
  proof (rule parse_opcode_lines [OF l4(3)])
    have "entry_opcodes (?es' ! ?k) = 0"
      using assms(2,4) by (intro fresh_opcodes)
        (simp_all add: stored_entries_nth stored_entry_def zero_definition_def cheat_ok_def)
    then show "unat (entry_opcodes (?es' ! ?k)) + length (snd c) \<le> CheatOpcodesSize"
      using assms(2) by (simp add: cheat_ok_def)
  qed (use assms(4) in \<open>simp add: update_definition_def stored_entries_nth\<close>)
  finally show ?thesis
    by (simp add: store_cheat [OF assms(2,4)] cheat_text_def add.assoc)
qed

lemma parse_cheats:
  assumes "rest_at s len i (concat (map cheat_text cs'))" "list_all cheat_ok (cs @ cs')"
    "length cs + length cs' < MaxCheatCount"
  shows "ParseCheats_loop s len i cur (stored_entries mc cs) = (True, stored_entries mc (cs @ cs'))"
  using assms
proof (induction cs' arbitrary: i cur cs)
  case Nil
  then have "len \<le> i"
    by (auto simp: rest_at_def)
  then show ?case by (subst ParseCheats_loop.simps) simp
next
  case (Cons c cs')
  have input: "rest_at s len i (cheat_text c @ concat (map cheat_text cs'))"
    using Cons.prems(1) by simp
  show ?case
    using Cons.prems(2,3) parse_cheat [OF input, of cs cur mc]
      Cons.IH [OF rest_at_append(1) [OF input], of "cs @ [c]" "Some (Suc (length cs))"]
    by simp
qed

lemma parse_master:
  assumes "rest_at s len i (master_text (Some c) @ t)" "cheat_ok c"
  shows "ParseCheats_loop s len i cur (stored_entries None []) =
    ParseCheats_loop s len (i + length (master_text (Some c))) (Some 0) (stored_entries (Some c) [])"
proof -
  let ?es = "stored_entries None []" and ?n = "length (fst c)"
  let ?es' = "update_definition 0 (store_name (fst c)) ?es"
  have l0: "rest_at s len i (CHR ''{'' # fst c @ CHR ''}'' # CHR 0x0A # opcode_lines (snd c) @ t)"
    using assms(1) by (simp add: master_text_def)
  note l1 = rest_at_char [OF l0]
  note l2 = rest_at_append [OF l1(3)]
  note l3 = rest_at_char [OF l2(1)]
  note l4 = rest_at_char [OF l3(3)]
  have zero: "entry_opcodes (?es ! 0) = 0" "0 < length ?es"
    by (simp_all add: stored_entries_nth stored_entry_def zero_definition_def MaxCheatCount_def)
  have "find_close (CHR ''}'') s len (Suc i) = Some (Suc i + ?n)"
    using find_close_found [OF l1(3)] assms(2) by (simp add: cheat_ok_def)
  then have "ParseCheats_loop s len i cur ?es = ParseCheats_loop s len (Suc (Suc i + ?n)) (Some 0) ?es'"
    using l1 l2(2) zero by (subst ParseCheats_loop.simps) (simp add: isspace_def)
  also have "\<dots> = ParseCheats_loop s len (Suc (Suc (Suc i + ?n))) (Some 0) ?es'"
    by (rule parse_space [OF l3(3)]) (simp add: isspace_def)
  also have "\<dots> = ParseCheats_loop s len (Suc (Suc (Suc i + ?n)) + length (opcode_lines (snd c)))
      (Some 0) (update_definition 0 (fold store_opcode (snd c)) ?es')"
  proof (rule parse_opcode_lines [OF l4(3)])
    have "entry_opcodes (?es' ! 0) = 0"
      using assms(2) zero by (intro fresh_opcodes) (simp_all add: cheat_ok_def)
    then show "unat (entry_opcodes (?es' ! 0)) + length (snd c) \<le> CheatOpcodesSize"
      using assms(2) by (simp add: cheat_ok_def)
  qed (use zero in \<open>simp add: update_definition_def\<close>)
  finally show ?thesis
    by (simp add: store_master [OF assms(2)] master_text_def add.assoc)
qed

lemma stored_nothing: "stored_entries None [] = map zero_entry [0..<MaxCheatCount]"
  by (simp add: stored_entries_def stored_entry_def [abs_def] zero_entry_def cong: map_cong)

lemma parse_cheat_file:
  assumes "list_all cheat_ok cs" "pred_option cheat_ok mc" "length cs < MaxCheatCount"
  shows "ParseCheats en (cheat_file mc cs @ NUL # junk) (length (cheat_file mc cs))
      (map zero_entry [0..<MaxCheatCount]) =
    (True, map (\<lambda>i. (stored_entry mc cs i)\<lparr>enabled :=
        (if i = 0 then mc \<noteq> None else i \<le> length cs \<and> en)\<rparr>) [0..<MaxCheatCount])"
proof -
  let ?s = "cheat_file mc cs @ NUL # junk" and ?len = "length (cheat_file mc cs)"
  have input: "rest_at ?s ?len 0 (master_text mc @ concat (map cheat_text cs))"
    using rest_at_text [of "cheat_file mc cs" junk] by (simp add: cheat_file_def)
  have "ParseCheats_loop ?s ?len 0 None (stored_entries None []) = (True, stored_entries mc cs)"
  proof (cases mc)
    case None
    then show ?thesis
      using parse_cheats [of ?s ?len 0 cs "[]" None None] input assms by (simp add: master_text_def)
  next
    case (Some c)
    then have ok: "cheat_ok c"
      using assms(2) by simp
    show ?thesis
      using parse_master [OF input [unfolded Some] ok] assms(1,3)
        parse_cheats [OF rest_at_append(1) [OF input [unfolded Some]], of "[]" "Some 0" "Some c"] Some
      by simp
  qed
  moreover have "enable_parsed en (stored_entries mc cs) =
      map (\<lambda>i. (stored_entry mc cs i)\<lparr>enabled :=
        (if i = 0 then mc \<noteq> None else i \<le> length cs \<and> en)\<rparr>) [0..<MaxCheatCount]"
    unfolding enable_parsed_def stored_entries_nth(2)
  proof (rule map_cong [OF refl])
    fix i
    assume "i \<in> set [0..<MaxCheatCount]"
    moreover have "num_opcodes (cheat_def (cs ! (i - 1))) \<noteq> 0" if "i \<noteq> 0" "i \<le> length cs"
      using assms(1) that by (intro cheat_def_opcodes(2)) (auto simp: list_all_length)
    moreover have "num_opcodes (cheat_def c) \<noteq> 0" if "mc = Some c" for c
      using assms(2) that by (intro cheat_def_opcodes(2)) simp
    ultimately show "(let e = stored_entries mc cs ! i
        in if 0 < entry_opcodes e then e\<lparr>enabled := (if i = 0 then True else en)\<rparr> else e) =
      (stored_entry mc cs i)\<lparr>enabled :=
        (if i = 0 then mc \<noteq> None else i \<le> length cs \<and> en)\<rparr>"
      by (auto simp: stored_entries_nth stored_entry_def zero_entry_def zero_definition_def
          word_gt_0 split: option.splits)
  qed
  ultimately show ?thesis
    by (simp add: ParseCheats_def stored_nothing)
qed

text \<open>
  C12. Parsing the text of any well-formed cheat file (an optional master cheat in braces,
  up to 0x7F cheats in brackets, each with a name that fits and 1 to 0x100 opcodes) into
  cleared entries succeeds and gives exactly the entries the file describes: the master
  cheat in slot 0 and always enabled, the cheats in file order from slot 1 and enabled by
  the default setting, every other slot clear.
\<close>

theorem ParseCheats_roundtrip:
  assumes "list_all cheat_ok cs" "pred_option cheat_ok mc" "length cs < MaxCheatCount"
  shows "ParseCheats en (cheat_file mc cs @ NUL # junk) (length (cheat_file mc cs))
      (map zero_entry [0..<MaxCheatCount]) =
    (True, map (\<lambda>i. (stored_entry mc cs i)\<lparr>enabled :=
        (if i = 0 then mc \<noteq> None else i \<le> length cs \<and> en)\<rparr>) [0..<MaxCheatCount])"
  using assms by (rule parse_cheat_file)

theorem ParseCheats_roundtrip_witness:
  "list_all cheat_ok [(''Moon Jump'', [0x04000000, 0x00112233, 0x3F800000])] \<and>
   pred_option cheat_ok (Some (''setup'', [0x20000000])) \<and>
   ParseCheats False (cheat_file (Some (''setup'', [0x20000000]))
       [(''Moon Jump'', [0x04000000, 0x00112233, 0x3F800000])] @ NUL # ''old'')
     (length (cheat_file (Some (''setup'', [0x20000000]))
       [(''Moon Jump'', [0x04000000, 0x00112233, 0x3F800000])]))
     (map zero_entry [0..<MaxCheatCount]) =
   (True, map (\<lambda>i. (stored_entry (Some (''setup'', [0x20000000]))
       [(''Moon Jump'', [0x04000000, 0x00112233, 0x3F800000])] i)\<lparr>enabled := (i = 0)\<rparr>)
     [0..<MaxCheatCount])"
proof -
  have ok: "list_all cheat_ok [(''Moon Jump'', [0x04000000, 0x00112233, 0x3F800000])]"
    "pred_option cheat_ok (Some (''setup'', [0x20000000]))"
    "length [(''Moon Jump'', [0x04000000, 0x00112233, 0x3F800000 :: u32])] < MaxCheatCount"
    by (simp_all add: cheat_ok_def ReadableNameSize_def CheatOpcodesSize_def MaxCheatCount_def)
  show ?thesis
    using ok ParseCheats_roundtrip [OF ok, of False "''old''"] by simp
qed

section \<open>The entries stay well-formed\<close>

text \<open>
  The array of entries keeps its size, every entry keeps its id, and every definition its
  array sizes and an opcode count within them, whatever text is parsed.
\<close>

definition wf_entry :: "nat \<Rightarrow> CheatEntry \<Rightarrow> bool" where
  "wf_entry i e \<longleftrightarrow> cheat_id e = of_nat i \<and> wf_CheatDefinition (cheat_definition e)"

definition entries_wf :: "CheatEntry list \<Rightarrow> bool" where
  "entries_wf es \<longleftrightarrow> length es = MaxCheatCount \<and> list_all (\<lambda>i. wf_entry i (es ! i)) [0..<MaxCheatCount]"

lemma entries_wfD:
  assumes "entries_wf es"
  shows "length es = MaxCheatCount" "i < MaxCheatCount \<Longrightarrow> wf_entry i (es ! i)"
  using assms by (auto simp: entries_wf_def list_all_iff)

lemma entries_wfI:
  assumes "length es = MaxCheatCount" "\<And>i. i < MaxCheatCount \<Longrightarrow> wf_entry i (es ! i)"
  shows "entries_wf es"
  using assms by (auto simp: entries_wf_def list_all_iff)

lemma entries_wf_update:
  assumes "entries_wf es" "wf_entry k e"
  shows "entries_wf (es[k := e])"
proof (rule entries_wfI)
  fix i
  assume "i < MaxCheatCount"
  then show "wf_entry i (es[k := e] ! i)"
    using assms entries_wfD [OF assms(1)] by (cases "i = k") simp_all
qed (simp add: entries_wfD(1) [OF assms(1)])

lemma entries_wf_cleared: "entries_wf (map zero_entry [0..<MaxCheatCount])"
  by (intro entries_wfI) (simp_all add: wf_entry_def zero_entry_def wf_CheatDefinition_def
      zero_definition_def)

lemma wf_store_name:
  assumes "wf_CheatDefinition d"
  shows "wf_CheatDefinition (store_name name d)"
proof -
  have "unat (num_opcodes d AND 0xFFFFFF00) \<le> unat (num_opcodes d)"
    by (simp add: word_le_nat_alt [symmetric] word_and_le2)
  with assms show ?thesis
    by (auto simp: wf_CheatDefinition_def store_name_def Let_def)
qed

lemma wf_store_opcode:
  assumes "wf_CheatDefinition d" "unat (num_opcodes d) < CheatOpcodesSize"
  shows "wf_CheatDefinition (store_opcode w d)"
  using assms by (simp add: wf_CheatDefinition_def store_opcode_def unat_word_ariths CheatOpcodesSize_def)

lemma entries_wf_update_definition:
  assumes "entries_wf es" "k < MaxCheatCount"
    "wf_CheatDefinition (cheat_definition (es ! k)) \<Longrightarrow> wf_CheatDefinition (f (cheat_definition (es ! k)))"
  shows "entries_wf (update_definition k f es)"
  using assms entries_wfD(2) [OF assms(1,2)]
  by (auto simp: update_definition_def wf_entry_def intro!: entries_wf_update)

lemma first_entry_Some:
  assumes "first_entry P es = Some k"
  shows "1 \<le> k" "k < MaxCheatCount" "P (es ! k)"
proof -
  obtain j where j: "j < length [1..<MaxCheatCount]" "[1..<MaxCheatCount] ! j = k" "P (es ! k)"
    using assms by (auto simp: first_entry_def find_Some_iff)
  then have "k \<in> set [1..<MaxCheatCount]"
    using nth_mem by blast
  then show "1 \<le> k" "k < MaxCheatCount" "P (es ! k)"
    using j by auto
qed

lemma ParseCheats_loop_wf:
  assumes "entries_wf es" "pred_option (\<lambda>k. k < MaxCheatCount) cur"
  shows "entries_wf (snd (ParseCheats_loop s len i cur es))"
  using assms
proof (induction s len i cur es rule: ParseCheats_loop.induct)
  case (1 s len i cur es)
  have named: "entries_wf (update_definition k (store_name n) es)" if "k < MaxCheatCount" for k n
    using "1.prems"(1) that by (intro entries_wf_update_definition wf_store_name)
  have opcode: "entries_wf (update_definition k (store_opcode w) es)"
    if "k < MaxCheatCount" "unat (entry_opcodes (es ! k)) < CheatOpcodesSize" for k w
    using "1.prems"(1) that by (intro entries_wf_update_definition wf_store_opcode)
  have zero: "0 < MaxCheatCount"
    by (simp add: MaxCheatCount_def)
  note free = first_entry_Some(2) [of "\<lambda>e. entry_opcodes e = 0" es, folded GetFreeCheatEntry_def]
  show ?case
    using "1.IH" "1.prems" named opcode zero free
    by (subst ParseCheats_loop.simps) (auto simp: not_le split: option.splits)
qed

lemma enable_parsed_wf:
  assumes "entries_wf es"
  shows "entries_wf (enable_parsed en es)"
  using entries_wfD [OF assms]
  by (intro entries_wfI) (auto simp: enable_parsed_def wf_entry_def Let_def)

text \<open>
  C23. Whatever bytes the buffer holds, and whether the parse succeeds or fails half-way,
  \<^verbatim>\<open>ParseCheats\<close> leaves the entries well-formed: 0x80 of them, each under its own id, with
  arrays of the declared sizes and at most 0x100 opcodes.
\<close>

theorem ParseCheats_wf:
  assumes "entries_wf es"
  shows "entries_wf (snd (ParseCheats en s len es))"
  using ParseCheats_loop_wf [OF assms, of None s len 0] enable_parsed_wf
  by (auto simp: ParseCheats_def split: prod.splits bool.splits)

theorem ParseCheats_wf_witness:
  "entries_wf (map zero_entry [0..<MaxCheatCount]) \<and>
   entries_wf (snd (ParseCheats True ''[infinite lives]'' 16 (map zero_entry [0..<MaxCheatCount])))"
  using ParseCheats_wf [OF entries_wf_cleared] entries_wf_cleared by blast

section \<open>Toggles\<close>

text \<open>The names of an array of entries can be told apart by the toggle file.\<close>

definition toggle_name_ok :: "CheatEntry list \<Rightarrow> nat \<Rightarrow> bool" where
  "toggle_name_ok es k \<longleftrightarrow>
     CHR '']'' \<notin> set (c_string (entry_name (es ! k))) \<and>
     list_all (\<lambda>j. c_string (entry_name (es ! j)) \<noteq> c_string (entry_name (es ! k))) [1..<k]"

definition toggle_names_ok :: "CheatEntry list \<Rightarrow> bool" where
  "toggle_names_ok es \<longleftrightarrow>
     list_all (\<lambda>k. entry_opcodes (es ! k) = 0 \<or> toggle_name_ok es k) [1..<MaxCheatCount]"

text \<open>Entries with the enabled flags of \<open>es\<close> for the cheats at the indices \<open>ks\<close>.\<close>

definition with_toggles :: "CheatEntry list \<Rightarrow> nat list \<Rightarrow> CheatEntry list \<Rightarrow> CheatEntry list" where
  "with_toggles es ks es' =
     map (\<lambda>i. if i \<in> set ks \<and> entry_opcodes (es ! i) \<noteq> 0
               then (es' ! i)\<lparr>enabled := enabled (es ! i)\<rparr> else es' ! i) [0..<MaxCheatCount]"

lemma toggle_word_end:
  assumes "rest_at s len i (w @ CHR 0x0A # t)" "w = ''true'' \<or> w = ''false''"
  shows "skip_spaces s i = i" "toggle_end s len i (Suc i) = Some (i + length w)"
    "rest_at s len (Suc (i + length w)) t" "slice s i (i + length w) = w"
proof -
  note app = rest_at_append [OF assms(1)]
  show "rest_at s len (Suc (i + length w)) t" "slice s i (i + length w) = w"
    using app rest_at_char by blast+
  have c: "char_at s (i + k) = (w @ CHR 0x0A # t) ! k" "i + k < len" if "k \<le> length w" for k
    using rest_at_nth [OF assms(1), of k] that by simp_all
  show "skip_spaces s i = i"
    using c(1) [of 0] assms(2) by (subst skip_spaces.simps) (auto simp: isspace_def)
  have step: "toggle_end s len i (i + k) = toggle_end s len i (i + Suc k)"
    if "k < length w" for k
    using that c [of k] c(2) [of "Suc k"] assms(2)
    by (subst toggle_end.simps)
      (auto simp: isspace_def ToggleSize_def nth_append less_Suc_eq numeral_eq_Suc)
  have "toggle_end s len i (i + Suc k) = toggle_end s len i (i + length w)" if "Suc k \<le> length w" for k
    using that
  proof (induction "length w - Suc k" arbitrary: k)
    case (Suc m)
    then show ?case using step [of "Suc k"] Suc.hyps(1) [of "Suc k"] by simp
  next
    case 0
    then show ?case by (simp add: le_antisym)
  qed
  from this [of 0] have "toggle_end s len i (Suc i) = toggle_end s len i (i + length w)"
    using assms(2) by auto
  also have "\<dots> = Some (i + length w)"
    using c(1) [of "length w"] by (subst toggle_end.simps) (simp add: isspace_def)
  finally show "toggle_end s len i (Suc i) = Some (i + length w)" .
qed

lemma parse_toggle:
  assumes "rest_at s len i (toggle_text e @ t)" "entry_opcodes e \<noteq> 0"
    "CHR '']'' \<notin> set (c_string (entry_name e))" "length (entry_name e) \<le> ReadableNameSize"
    "GetCheatEntryByReadableName (c_string (entry_name e)) es = Some k"
  shows "ParseCheatToggles_loop s len i es =
    ParseCheatToggles_loop s len (i + length (toggle_text e)) (es[k := (es ! k)\<lparr>enabled := enabled e\<rparr>])"
proof -
  let ?n = "c_string (entry_name e)" and ?w = "if enabled e then ''true'' else ''false''"
  have l0: "rest_at s len i (CHR ''['' # ?n @ CHR '']'' # CHR 0x0A # ?w @ CHR 0x0A # t)"
    using assms(1,2) by (simp add: toggle_text_def)
  note l1 = rest_at_char [OF l0]
  note l2 = rest_at_append [OF l1(3)]
  note l3 = rest_at_char [OF l2(1)]
  note l4 = rest_at_char [OF l3(3)]
  let ?i = "Suc (Suc (Suc i + length ?n))"
  have word: "?w = ''true'' \<or> ?w = ''false''"
    by simp
  note w = toggle_word_end [OF l4(3) word]
  have close: "find_close (CHR '']'') s len (Suc i) = Some (Suc i + length ?n)"
    by (rule find_close_found [OF l1(3) assms(3)])
  have skip: "skip_spaces s (Suc (Suc i + length ?n)) = ?i"
    using l4(1) w(1) by (subst skip_spaces.simps) (simp add: isspace_def)
  have short: "take ReadableNameSize ?n = ?n"
    using assms(4) by (simp add: c_string_def le_trans [OF length_takeWhile_le])
  have toggled: "apply_toggle ?n ?w es = es[k := (es ! k)\<lparr>enabled := enabled e\<rparr>]"
    using assms(5) by (simp add: apply_toggle_def strcasecmp_eq_def c_string_def tolower_def)
  have "ParseCheatToggles_loop s len i es =
      ParseCheatToggles_loop s len (Suc (?i + length ?w)) (apply_toggle ?n ?w es)"
    using l1(1,2) close skip w(2,4) l2(2) short
    by (subst ParseCheatToggles_loop.simps) (simp add: isspace_def Let_def)
  then show ?thesis
    using assms(2) by (simp add: toggled toggle_text_def ac_simps)
qed

lemma GetCheatEntryByReadableName_own:
  assumes "toggle_name_ok es k" "k \<in> set [1..<MaxCheatCount]"
    "length es' = MaxCheatCount" "length es = MaxCheatCount" "map entry_name es' = map entry_name es"
    "list_all (\<lambda>e. length (entry_name e) = ReadableNameSize) es"
  shows "GetCheatEntryByReadableName (c_string (entry_name (es ! k))) es' = Some k"
proof -
  have same: "entry_name (es' ! j) = entry_name (es ! j)" if "j < MaxCheatCount" for j
    using assms(3-5) that by (metis nth_map)
  have idem: "c_string (c_string xs) = c_string xs" for xs
    by (simp add: c_string_def)
  have short: "take ReadableNameSize (c_string (entry_name (es ! j))) = c_string (entry_name (es ! j))"
    if "j < MaxCheatCount" for j
    using assms(4,6) that length_takeWhile_le [of _ "entry_name (es ! j)"]
    by (auto simp: c_string_def list_all_length)
  have eq: "strncmp_eq (entry_name (es' ! j)) (c_string (entry_name (es ! k))) ReadableNameSize \<longleftrightarrow>
      c_string (entry_name (es ! j)) = c_string (entry_name (es ! k))" if "j < MaxCheatCount" for j
    using assms(2) that by (simp add: strncmp_eq_def idem short same)
  have "\<not> strncmp_eq (entry_name (es' ! ([1..<MaxCheatCount] ! j)))
      (c_string (entry_name (es ! k))) ReadableNameSize" if "j < k - 1" for j
    using eq [of "1 + j"] assms(1,2) that by (auto simp: toggle_name_ok_def list_all_iff)
  then show ?thesis
    unfolding GetCheatEntryByReadableName_def first_entry_def find_Some_iff
    using assms(2) eq [of k] by (intro exI [of _ "k - 1"]) auto
qed

lemma parse_toggles:
  assumes "rest_at s len i (concat (map (\<lambda>k. toggle_text (es ! k)) ks))"
    "set ks \<subseteq> set [1..<MaxCheatCount]" "toggle_names_ok es"
    "length es' = MaxCheatCount" "length es = MaxCheatCount" "map entry_name es' = map entry_name es"
    "list_all (\<lambda>e. length (entry_name e) = ReadableNameSize) es"
  shows "ParseCheatToggles_loop s len i es' = (True, with_toggles es ks es')"
  using assms
proof (induction ks arbitrary: i es')
  case Nil
  then have "len \<le> i" "with_toggles es [] es' = es'"
    by (auto simp: rest_at_def with_toggles_def list_eq_iff_nth_eq)
  then show ?case by (subst ParseCheatToggles_loop.simps) simp
next
  case (Cons k ks)
  have k: "k < MaxCheatCount" "k \<in> set [1..<MaxCheatCount]"
    using Cons.prems(2) by auto
  show ?case
  proof (cases "entry_opcodes (es ! k) = 0")
    case True
    then have "toggle_text (es ! k) = []" "with_toggles es (k # ks) es' = with_toggles es ks es'"
      by (auto simp: toggle_text_def with_toggles_def)
    then show ?thesis
      using Cons by simp
  next
    case False
    have ok: "toggle_name_ok es k"
      using Cons.prems(3) k False by (auto simp: toggle_names_ok_def list_all_iff)
    have input: "rest_at s len i (toggle_text (es ! k) @ concat (map (\<lambda>k. toggle_text (es ! k)) ks))"
      using Cons.prems(1) by simp
    let ?es = "es'[k := (es' ! k)\<lparr>enabled := enabled (es ! k)\<rparr>]"
    have "map entry_name ?es = map entry_name es'"
      using k Cons.prems(4) by (auto simp: map_update list_eq_iff_nth_eq nth_list_update)
    moreover have "with_toggles es ks ?es = with_toggles es (k # ks) es'"
      using False k Cons.prems(4) by (auto simp: with_toggles_def nth_list_update)
    ultimately show ?thesis
      using parse_toggle [OF input False, of es' k] ok k Cons.prems
        GetCheatEntryByReadableName_own [OF ok k(2) Cons.prems(4-7)]
        Cons.IH [OF rest_at_append(1) [OF input], of ?es]
      by (simp add: toggle_name_ok_def list_all_length)
  qed
qed

lemma parse_saved_toggles:
  assumes "entries_wf es" "entries_wf es'" "map entry_name es' = map entry_name es"
    "toggle_names_ok es"
  shows "ParseCheatToggles (SaveCheatToggles_text es @ NUL # junk)
      (length (SaveCheatToggles_text es)) es' =
    (True, map (\<lambda>i. if 1 \<le> i \<and> entry_opcodes (es ! i) \<noteq> 0
        then (es' ! i)\<lparr>enabled := enabled (es ! i)\<rparr> else es' ! i) [0..<MaxCheatCount])"
proof -
  have names: "list_all (\<lambda>e. length (entry_name e) = ReadableNameSize) es"
    using entries_wfD [OF assms(1)] by (auto simp: list_all_length wf_entry_def wf_CheatDefinition_def)
  have "with_toggles es [1..<MaxCheatCount] es' =
      map (\<lambda>i. if 1 \<le> i \<and> entry_opcodes (es ! i) \<noteq> 0
        then (es' ! i)\<lparr>enabled := enabled (es ! i)\<rparr> else es' ! i) [0..<MaxCheatCount]"
    by (auto simp: with_toggles_def)
  then show ?thesis
    using rest_at_text [of "SaveCheatToggles_text es" junk] names assms(3,4)
      entries_wfD(1) [OF assms(1)] entries_wfD(1) [OF assms(2)]
      parse_toggles [of _ _ 0 es "[1..<MaxCheatCount]" es']
    by (simp add: ParseCheatToggles_def SaveCheatToggles_text_def)
qed

text \<open>
  Saving toggles and reading them back restores them: parsing the text that
  \<^verbatim>\<open>SaveCheatToggles\<close> writes for entries with distinguishable names, into entries with the
  same names, succeeds, gives every cheat the enabled flag it was saved with and changes
  nothing else; the master cheat in slot 0 is never touched.
\<close>

theorem toggles_roundtrip:
  assumes "entries_wf es" "entries_wf es'" "map entry_name es' = map entry_name es"
    "toggle_names_ok es"
  shows "ParseCheatToggles (SaveCheatToggles_text es @ NUL # junk)
      (length (SaveCheatToggles_text es)) es' =
    (True, map (\<lambda>i. if 1 \<le> i \<and> entry_opcodes (es ! i) \<noteq> 0
        then (es' ! i)\<lparr>enabled := enabled (es ! i)\<rparr> else es' ! i) [0..<MaxCheatCount])"
  using assms by (rule parse_saved_toggles)

text \<open>Entries with two cheats, in the slots 1 and 2.\<close>

definition demo_entries :: "bool \<Rightarrow> bool \<Rightarrow> CheatEntry list" where
  "demo_entries a b =
     (map zero_entry [0..<MaxCheatCount])
       [1 := (zero_entry 1)\<lparr>enabled := a, cheat_definition := cheat_def (''Moon Jump'', [0x20000000])\<rparr>,
        2 := (zero_entry 2)\<lparr>enabled := b, cheat_definition := cheat_def (''Max Coins'', [0x20000000])\<rparr>]"

lemma demo_entries_nth:
  "i < MaxCheatCount \<Longrightarrow> demo_entries a b ! i =
     (if i = 1 then (zero_entry 1)\<lparr>enabled := a, cheat_definition := cheat_def (''Moon Jump'', [0x20000000])\<rparr>
      else if i = 2 then (zero_entry 2)\<lparr>enabled := b, cheat_definition := cheat_def (''Max Coins'', [0x20000000])\<rparr>
      else zero_entry i)"
  "length (demo_entries a b) = MaxCheatCount"
  by (simp_all add: demo_entries_def nth_list_update)

lemma demo_entries_wf: "entries_wf (demo_entries a b)"
  unfolding demo_entries_def
  by (intro entries_wf_update entries_wf_cleared)
    (simp_all add: wf_entry_def zero_entry_def wf_CheatDefinition_def cheat_def_def
      ReadableNameSize_def CheatOpcodesSize_def)

lemma demo_entries_names: "toggle_names_ok (demo_entries a b)"
proof -
  have "entry_opcodes (demo_entries a b ! k) = 0" if "2 < k" "k < MaxCheatCount" for k
    using that by (simp add: demo_entries_def zero_entry_def zero_definition_def)
  moreover have "c_string (entry_name (demo_entries a b ! 1)) = ''Moon Jump''"
    "c_string (entry_name (demo_entries a b ! 2)) = ''Max Coins''"
    by (simp_all add: demo_entries_def MaxCheatCount_def cheat_def_def c_string_def)
  then have "toggle_name_ok (demo_entries a b) 1" "toggle_name_ok (demo_entries a b) 2"
    by (simp_all add: toggle_name_ok_def upt_rec)
  ultimately show ?thesis
    unfolding toggle_names_ok_def list_all_iff
    by (metis One_nat_def Suc_leI atLeastLessThan_iff less_2_cases_iff linorder_neqE_nat not_less_eq_eq set_upt)
qed

theorem toggles_roundtrip_witness:
  "map entry_name (demo_entries False False) = map entry_name (demo_entries True False) \<and>
   ParseCheatToggles (SaveCheatToggles_text (demo_entries True False) @ NUL # ''x'')
     (length (SaveCheatToggles_text (demo_entries True False))) (demo_entries False False) =
   (True, demo_entries True False)"
proof -
  have names: "map entry_name (demo_entries False False) = map entry_name (demo_entries True False)"
    by (simp add: demo_entries_def map_update)
  have "map (\<lambda>i. if 1 \<le> i \<and> entry_opcodes (demo_entries True False ! i) \<noteq> 0
      then (demo_entries False False ! i)\<lparr>enabled := enabled (demo_entries True False ! i)\<rparr>
      else demo_entries False False ! i) [0..<MaxCheatCount] = demo_entries True False"
  proof (rule nth_equalityI)
    have "num_opcodes (cheat_def (n, [w])) \<noteq> 0" for n w
      by (simp add: cheat_def_def)
    then show "map (\<lambda>i. if 1 \<le> i \<and> entry_opcodes (demo_entries True False ! i) \<noteq> 0
        then (demo_entries False False ! i)\<lparr>enabled := enabled (demo_entries True False ! i)\<rparr>
        else demo_entries False False ! i) [0..<MaxCheatCount] ! i = demo_entries True False ! i"
      if "i < length (map (\<lambda>i. if 1 \<le> i \<and> entry_opcodes (demo_entries True False ! i) \<noteq> 0
        then (demo_entries False False ! i)\<lparr>enabled := enabled (demo_entries True False ! i)\<rparr>
        else demo_entries False False ! i) [0..<MaxCheatCount])" for i
      using that by (simp add: demo_entries_nth zero_entry_def)
  qed (simp add: demo_entries_nth)
  then show ?thesis
    using toggles_roundtrip [OF demo_entries_wf demo_entries_wf names demo_entries_names, of "''x''"] names
    by simp
qed

end
