(* ===== verification/Lmem_UnitHeap.thy ===== *)
theory Lmem_UnitHeap
  imports Ams_Prelude
begin

text \<open>
  The unit heap of \<^verbatim>\<open>lmem\<close> (\<^verbatim>\<open>lmem_impl_unit_heap.cpp\<close>): fixed-size units threaded on a
  free list through their own first word.

  Addresses and sizes are natural numbers: the managed buffer lies in the address space,
  so no pointer of the heap wraps. The memory of the model holds, for every address, the
  \<^verbatim>\<open>UnitHead\<close> stored there, that is the 64-bit word a unit's \<^verbatim>\<open>next\<close> pointer occupies;
  the null pointer is 0. The debug fills write that word like the rest of the unit.
\<close>

section \<open>The heap\<close>

datatype FillType = FillType_Unallocated | FillType_Allocated | FillType_Freed

datatype InfoPlacement = InfoPlacement_Head | InfoPlacement_Tail

text \<open>The fields of \<^verbatim>\<open>HeapHead\<close> and \<^verbatim>\<open>UnitHeapHead\<close> that a unit heap uses, with the memory.\<close>

record UnitHeap =
  heap_handle :: nat
  heap_start :: nat
  heap_end :: nat
  heap_option :: u8
  free_head :: nat
  unit_size :: nat
  unit_alignment :: nat
  num_units :: int
  unit_next :: "nat \<Rightarrow> nat"

definition CreateOption_ZeroClear :: u8 where
  "CreateOption_ZeroClear = 1"

definition CreateOption_DebugFill :: u8 where
  "CreateOption_DebugFill = 2"

definition MinimumAlignment :: nat where
  "MinimumAlignment = 4"

text \<open>The word that \<^verbatim>\<open>FillMemory\<close> leaves: two copies of the 32-bit pattern.\<close>

definition fill_word :: "u32 \<Rightarrow> nat" where
  "fill_word v = unat v * 2 ^ 32 + unat v"

definition FillAllocatedMemory :: "(FillType \<Rightarrow> u32) \<Rightarrow> nat \<Rightarrow> UnitHeap \<Rightarrow> UnitHeap" where
  "FillAllocatedMemory fills p h =
     (if heap_option h AND CreateOption_ZeroClear \<noteq> 0
      then h\<lparr>unit_next := (unit_next h)(p := 0)\<rparr>
      else if heap_option h AND CreateOption_DebugFill \<noteq> 0
      then h\<lparr>unit_next := (unit_next h)(p := fill_word (fills FillType_Allocated))\<rparr>
      else h)"

definition FillFreedMemory :: "(FillType \<Rightarrow> u32) \<Rightarrow> nat \<Rightarrow> UnitHeap \<Rightarrow> UnitHeap" where
  "FillFreedMemory fills p h =
     (if heap_option h AND CreateOption_DebugFill \<noteq> 0
      then h\<lparr>unit_next := (unit_next h)(p := fill_word (fills FillType_Freed))\<rparr> else h)"

definition PopUnit :: "UnitHeap \<Rightarrow> nat \<times> UnitHeap" where
  "PopUnit h =
     (if free_head h \<noteq> 0 then (free_head h, h\<lparr>free_head := unit_next h (free_head h)\<rparr>)
      else (0, h))"

definition PushUnit :: "nat \<Rightarrow> UnitHeap \<Rightarrow> UnitHeap" where
  "PushUnit p h = h\<lparr>unit_next := (unit_next h)(p := free_head h), free_head := p\<rparr>"

text \<open>The loop that threads \<open>n\<close> further units behind \<open>cur_tail\<close>; it returns the last unit.\<close>

fun link_units :: "nat \<Rightarrow> nat \<Rightarrow> nat \<Rightarrow> (nat \<Rightarrow> nat) \<Rightarrow> nat \<times> (nat \<Rightarrow> nat)" where
  "link_units 0 sz cur_tail m = (cur_tail, m)"
| "link_units (Suc n) sz cur_tail m = link_units n sz (cur_tail + sz) (m(cur_tail := cur_tail + sz))"

definition thread_units :: "nat \<Rightarrow> nat \<Rightarrow> nat \<Rightarrow> (nat \<Rightarrow> nat) \<Rightarrow> nat \<Rightarrow> nat" where
  "thread_units n sz first m = (let (cur_tail, m') = link_units (n - 1) sz first m in m'(cur_tail := 0))"

text \<open>
  Where the heap lies in the buffer; \<open>head_size\<close> is \<^verbatim>\<open>sizeof(HeapHead)\<close>, \<open>ext\<close> the
  address of external metadata, if any.
\<close>

definition unit_heap_layout ::
    "nat \<Rightarrow> nat \<Rightarrow> nat \<Rightarrow> nat \<Rightarrow> InfoPlacement \<Rightarrow> nat option \<Rightarrow> nat \<times> nat \<times> nat" where
  "unit_heap_layout head_size address sz alignment info_placement ext =
     (case ext of
        None \<Rightarrow>
          (case info_placement of
             InfoPlacement_Head \<Rightarrow>
               (let heap_head = AlignUp address MinimumAlignment
                in (heap_head, AlignUp (heap_head + head_size) alignment,
                    AlignDown (address + sz) MinimumAlignment))
           | InfoPlacement_Tail \<Rightarrow>
               (let h_end = AlignDown (address + sz - head_size) MinimumAlignment
                in (h_end, AlignUp address alignment, h_end)))
      | Some heap_head \<Rightarrow>
          (heap_head, AlignUp address alignment, AlignDown (address + sz) MinimumAlignment))"

text \<open>\<open>None\<close> is the null handle of a buffer that holds no unit.\<close>

definition CreateUnitHeap ::
    "nat \<Rightarrow> nat \<Rightarrow> nat \<Rightarrow> nat \<Rightarrow> nat \<Rightarrow> u8 \<Rightarrow> InfoPlacement \<Rightarrow> nat option \<Rightarrow> (nat \<Rightarrow> nat) \<Rightarrow>
     UnitHeap option" where
  "CreateUnitHeap head_size address sz usize alignment opt info_placement ext m =
     (let align = (if alignment = 1 \<or> alignment = 2 then 4 else alignment);
          (handle, h_start, h_end) = unit_heap_layout head_size address sz align info_placement ext;
          us = AlignUp usize align;
          max_units = (h_end - h_start) div us
      in if h_end < h_start \<or> max_units = 0 then None
         else Some \<lparr>heap_handle = handle, heap_start = h_start, heap_end = h_start + max_units * us,
                    heap_option = opt, free_head = h_start, unit_size = us,
                    unit_alignment = align, num_units = 0,
                    unit_next = thread_units max_units us h_start m\<rparr>)"

definition InvalidateUnitHeap :: "UnitHeap \<Rightarrow> UnitHeap" where
  "InvalidateUnitHeap h = h\<lparr>free_head := 0\<rparr>"

definition DestroyUnitHeap :: "UnitHeap \<Rightarrow> UnitHeap" where
  "DestroyUnitHeap h = (if free_head h \<noteq> 0 then h\<lparr>free_head := 0\<rparr> else h)"

definition AllocateFromUnitHeap :: "(FillType \<Rightarrow> u32) \<Rightarrow> UnitHeap \<Rightarrow> nat \<times> UnitHeap" where
  "AllocateFromUnitHeap fills h =
     (let (p, h1) = PopUnit h
      in if p \<noteq> 0
         then (let h2 = FillAllocatedMemory fills p h1 in (p, h2\<lparr>num_units := num_units h2 + 1\<rparr>))
         else (p, h1))"

definition FreeToUnitHeap :: "(FillType \<Rightarrow> u32) \<Rightarrow> nat \<Rightarrow> UnitHeap \<Rightarrow> UnitHeap" where
  "FreeToUnitHeap fills p h =
     (if p = 0 then h
      else (let h1 = PushUnit p (FillFreedMemory fills p h)
            in h1\<lparr>num_units := num_units h1 - 1\<rparr>))"

text \<open>Walking the free list. A corrupted, cyclic list would be walked forever.\<close>

partial_function (option) count_units :: "(nat \<Rightarrow> nat) \<Rightarrow> nat \<Rightarrow> nat \<Rightarrow> nat option" where
  "count_units m cur count = (if cur = 0 then Some count else count_units m (m cur) (Suc count))"

definition GetUnitHeapFreeCount :: "UnitHeap \<Rightarrow> nat option" where
  "GetUnitHeapFreeCount h = count_units (unit_next h) (free_head h) 0"

partial_function (option) find_tail :: "(nat \<Rightarrow> nat) \<Rightarrow> nat \<Rightarrow> nat option" where
  "find_tail m cur = (if m cur = 0 then Some cur else find_tail m (m cur))"

definition GetUnitHeapUsedCount :: "UnitHeap \<Rightarrow> int" where
  "GetUnitHeapUsedCount h = num_units h"

definition ExtendUnitHeap :: "nat \<Rightarrow> UnitHeap \<Rightarrow> UnitHeap option" where
  "ExtendUnitHeap sz h =
     (let finish = (\<lambda>m fh.
            h\<lparr>free_head := fh,
              unit_next := thread_units (sz div unit_size h) (unit_size h) (heap_end h) (m(heap_end h := 0)),
              heap_end := heap_end h + sz\<rparr>)
      in if free_head h \<noteq> 0
         then (case find_tail (unit_next h) (free_head h) of
                 None \<Rightarrow> None
               | Some cur_tail \<Rightarrow> Some (finish ((unit_next h)(cur_tail := heap_end h)) (free_head h)))
         else Some (finish (unit_next h) (heap_end h)))"

definition GetUnitHeapRequiredSize :: "nat \<Rightarrow> nat \<Rightarrow> nat \<Rightarrow> nat \<Rightarrow> bool \<Rightarrow> nat" where
  "GetUnitHeapRequiredSize head_size usize unit_count alignment internal_metadata =
     (let align = (if alignment = 1 \<or> alignment = 2 then 4 else alignment)
      in (align - 1) + unit_count * AlignUp usize align + (if internal_metadata then head_size else 0))"

section \<open>Free lists\<close>

lemma chain_count: "chain m p xs \<Longrightarrow> count_units m p n = Some (n + length xs)"
proof (induction xs arbitrary: p n)
  case Nil
  then show ?case by (subst count_units.simps) simp
next
  case (Cons x xs)
  then show ?case by (subst count_units.simps) simp
qed

lemma chain_tail: "chain m p xs \<Longrightarrow> xs \<noteq> [] \<Longrightarrow> find_tail m p = Some (last xs)"
proof (induction xs arbitrary: p)
  case Nil
  then show ?case by simp
next
  case (Cons x xs)
  then show ?case
    by (cases xs) (subst find_tail.simps; auto)+
qed

text \<open>Appending behind the last unit.\<close>

lemma chain_append:
  assumes "chain m p xs" "xs \<noteq> []" "distinct xs" "chain m q ys" "last xs \<notin> set ys"
  shows "chain (m(last xs := q)) p (xs @ ys)"
  using assms
proof (induction xs arbitrary: p)
  case Nil
  then show ?case by simp
next
  case step: (Cons x xs)
  show ?case
  proof (cases xs)
    case Nil
    then show ?thesis
      using step.prems chain_update [of x ys m q q] by (simp add: fun_upd_def)
  next
    case (Cons y ys')
    then show ?thesis
      using step.prems step.IH by auto
  qed
qed

definition unit_addresses :: "nat \<Rightarrow> nat \<Rightarrow> nat \<Rightarrow> nat list" where
  "unit_addresses first sz n = map (\<lambda>k. first + k * sz) [0..<n]"

lemma unit_addresses_Suc:
  "unit_addresses first sz (Suc n) = first # unit_addresses (first + sz) sz n"
  by (simp add: unit_addresses_def upt_conv_Cons map_Suc_upt [symmetric] del: upt_Suc)

lemma link_units_other:
  "link_units n sz cur m = (t, m') \<Longrightarrow> 0 < sz \<Longrightarrow> a < cur \<Longrightarrow> m' a = m a"
  by (induction n arbitrary: cur m) auto

lemma link_units_tail: "link_units n sz cur m = (t, m') \<Longrightarrow> t = cur + n * sz"
proof (induction n arbitrary: cur m)
  case (Suc n)
  have "t = cur + sz + n * sz"
    using Suc.prems by (intro Suc.IH [of "cur + sz"]) simp
  then show ?case by simp
qed simp

lemma thread_units_Suc:
  "thread_units (Suc (Suc n)) sz cur m = thread_units (Suc n) sz (cur + sz) (m(cur := cur + sz))"
  by (simp add: thread_units_def)

lemma thread_units_other:
  assumes "0 < sz" "a < cur"
  shows "thread_units n sz cur m a = m a"
proof (cases "link_units (n - 1) sz cur m")
  case (Pair t m')
  then have "t = cur + (n - 1) * sz" "m' a = m a"
    using link_units_tail [OF Pair] link_units_other [OF Pair assms] by auto
  with assms Pair show ?thesis
    by (simp add: thread_units_def)
qed

lemma thread_units_chain:
  assumes "0 < n" "0 < sz" "0 < cur"
  shows "chain (thread_units n sz cur m) cur (unit_addresses cur sz n)"
  using assms
proof (induction n arbitrary: cur m rule: nat_induct_non_zero)
  case 1
  then show ?case by (simp add: thread_units_def unit_addresses_def)
next
  case (Suc n)
  then obtain k where n: "n = Suc k"
    by (cases n) auto
  let ?m = "thread_units n sz (cur + sz) (m(cur := cur + sz))"
  have "?m cur = cur + sz"
    using Suc.prems by (subst thread_units_other) simp_all
  moreover have "chain ?m (cur + sz) (unit_addresses (cur + sz) sz n)"
    using Suc by simp
  ultimately show ?case
    using Suc.prems by (simp add: n thread_units_Suc unit_addresses_Suc [of cur sz "Suc k"])
qed

section \<open>The heap invariant\<close>

text \<open>
  \<open>heap_inv h units used\<close>: the heap manages the addresses \<open>units\<close>, of which \<open>used\<close> are
  allocated. The free list visits the others, each once; the counter is right; units lie
  in the heap and do not overlap.
\<close>

definition apart :: "nat \<Rightarrow> nat set \<Rightarrow> bool" where
  "apart sz A \<longleftrightarrow> (\<forall>p \<in> A. \<forall>q \<in> A. p < q \<longrightarrow> p + sz \<le> q)"

definition heap_inv :: "UnitHeap \<Rightarrow> nat set \<Rightarrow> nat set \<Rightarrow> bool" where
  "heap_inv h units used \<longleftrightarrow>
     (\<exists>free. chain (unit_next h) (free_head h) free \<and> distinct free \<and>
        set free = units - used) \<and>
     used \<subseteq> units \<and> finite units \<and> num_units h = int (card used) \<and>
     0 < unit_size h \<and> apart (unit_size h) units \<and>
     (\<forall>p \<in> units. 0 < heap_start h \<and> heap_start h \<le> p \<and> p + unit_size h \<le> heap_end h)"

lemma heap_invE:
  assumes "heap_inv h units used"
  obtains free where "chain (unit_next h) (free_head h) free" "distinct free"
    "set free = units - used"
  using assms unfolding heap_inv_def by blast

lemma heap_inv_nonzero: "heap_inv h units used \<Longrightarrow> 0 \<notin> units"
  by (auto simp: heap_inv_def)

lemma apart_unit_addresses: "0 < sz \<Longrightarrow> apart sz (set (unit_addresses first sz n))"
proof -
  have "i * sz + sz \<le> j * sz" if "i * sz < j * sz" for i j
  proof -
    have "Suc i \<le> j"
      using that by (simp add: Suc_le_eq)
    then have "Suc i * sz \<le> j * sz"
      by (rule mult_le_mono1)
    then show ?thesis
      by simp
  qed
  then show ?thesis
    by (auto simp: apart_def unit_addresses_def)
qed

lemma unit_addresses_bounds:
  assumes "p \<in> set (unit_addresses first sz n)"
  shows "first \<le> p" "p + sz \<le> first + n * sz"
proof -
  obtain k where k: "k < n" "p = first + k * sz"
    using assms by (auto simp: unit_addresses_def)
  then have "Suc k * sz \<le> n * sz"
    by (intro mult_le_mono1) simp
  with k show "first \<le> p" "p + sz \<le> first + n * sz"
    by simp_all
qed

lemma distinct_unit_addresses: "0 < sz \<Longrightarrow> distinct (unit_addresses first sz n)"
  by (auto simp: unit_addresses_def distinct_map inj_on_def)

lemma set_option_fields [simp]:
  "free_head (FillAllocatedMemory fills p h) = free_head h"
  "free_head (FillFreedMemory fills p h) = free_head h"
  "num_units (FillAllocatedMemory fills p h) = num_units h"
  "num_units (FillFreedMemory fills p h) = num_units h"
  "unit_size (FillAllocatedMemory fills p h) = unit_size h"
  "unit_size (FillFreedMemory fills p h) = unit_size h"
  "heap_start (FillAllocatedMemory fills p h) = heap_start h"
  "heap_start (FillFreedMemory fills p h) = heap_start h"
  "heap_end (FillAllocatedMemory fills p h) = heap_end h"
  "heap_end (FillFreedMemory fills p h) = heap_end h"
  by (simp_all add: FillAllocatedMemory_def FillFreedMemory_def)

lemma fills_chain:
  "p \<notin> set xs \<Longrightarrow> chain (unit_next (FillAllocatedMemory fills p h)) q xs = chain (unit_next h) q xs"
  "p \<notin> set xs \<Longrightarrow> chain (unit_next (FillFreedMemory fills p h)) q xs = chain (unit_next h) q xs"
  by (simp_all add: FillAllocatedMemory_def FillFreedMemory_def)

lemma Allocate_spec:
  assumes "heap_inv h units used" "AllocateFromUnitHeap fills h = (p, h')"
  shows "if p = 0 then used = units \<and> h' = h
    else p \<in> units - used \<and> heap_inv h' units (insert p used)"
proof -
  obtain free where f: "chain (unit_next h) (free_head h) free" "distinct free"
    "set free = units - used"
    using assms(1) by (rule heap_invE)
  have sub: "used \<subseteq> units" and fin: "finite used"
    using assms(1) by (auto simp: heap_inv_def intro: finite_subset)
  show ?thesis
  proof (cases free)
    case Nil
    then show ?thesis
      using f sub assms(2) by (auto simp: AllocateFromUnitHeap_def PopUnit_def)
  next
    case (Cons x xs)
    have head: "free_head h = x" "x \<noteq> 0" "chain (unit_next h) (unit_next h x) xs" "x \<notin> set xs"
      using f Cons by auto
    define h1 where "h1 = FillAllocatedMemory fills x (h\<lparr>free_head := unit_next h x\<rparr>)"
    have p: "p = x" "h' = h1\<lparr>num_units := num_units h + 1\<rparr>"
      using assms(2) head by (auto simp: AllocateFromUnitHeap_def PopUnit_def h1_def)
    have "chain (unit_next h1) (free_head h1) xs"
      using head by (simp add: h1_def fills_chain)
    moreover have "set xs = units - insert x used" "distinct xs" "x \<in> units - used"
      using f Cons by auto
    ultimately show ?thesis
      using assms(1) p head(2) fin
      by (auto simp: heap_inv_def h1_def intro!: exI [of _ xs])
  qed
qed

lemma Free_spec:
  assumes "heap_inv h units used" "p \<in> used"
  shows "heap_inv (FreeToUnitHeap fills p h) units (used - {p})"
proof -
  obtain free where f: "chain (unit_next h) (free_head h) free" "distinct free"
    "set free = units - used"
    using assms(1) by (rule heap_invE)
  have p: "p \<noteq> 0" "p \<in> units" "p \<notin> set free"
    using assms f heap_inv_nonzero [OF assms(1)] by (auto simp: heap_inv_def)
  let ?h = "FillFreedMemory fills p h"
  have "chain ((unit_next ?h)(p := free_head h)) p (p # free)"
    using p f(1) by (simp add: fills_chain del: fun_upd_apply) (simp add: fills_chain)
  moreover have "set (p # free) = units - (used - {p})" "distinct (p # free)"
    using f p assms(2) by auto
  moreover have "0 < card used" "finite used"
    using assms by (auto simp: heap_inv_def card_gt_0_iff intro: finite_subset)
  ultimately show ?thesis
    using assms p(1)
    by (auto simp: heap_inv_def FreeToUnitHeap_def PushUnit_def Let_def card_Diff_singleton
        of_nat_diff intro!: exI [of _ "p # free"])
qed

lemma Create_spec:
  assumes "CreateUnitHeap head_size address sz usize alignment opt placement ext m = Some h"
    "0 < address" "0 < usize"
  defines "n \<equiv> (heap_end h - heap_start h) div unit_size h"
  shows "heap_inv h (set (unit_addresses (heap_start h) (unit_size h) n)) {} \<and> 0 < n \<and>
    usize \<le> unit_size h \<and> address \<le> heap_start h \<and> heap_end h \<le> address + sz \<and>
    heap_end h = heap_start h + n * unit_size h"
proof -
  define al where "al = (if alignment = 1 \<or> alignment = 2 then 4 else alignment)"
  obtain hd st en where lay: "unit_heap_layout head_size address sz al placement ext = (hd, st, en)"
    by (cases "unit_heap_layout head_size address sz al placement ext")
  define us where "us = AlignUp usize al"
  define k where "k = (en - st) div us"
  have "CreateUnitHeap head_size address sz usize alignment opt placement ext m =
      (if en < st \<or> k = 0 then None
       else Some \<lparr>heap_handle = hd, heap_start = st, heap_end = st + k * us, heap_option = opt,
         free_head = st, unit_size = us, unit_alignment = al, num_units = 0,
         unit_next = thread_units k us st m\<rparr>)"
    by (simp only: CreateUnitHeap_def Let_def al_def us_def k_def lay [unfolded al_def] prod.case)
  then have h: "heap_start h = st" "heap_end h = st + k * us" "unit_size h = us" "free_head h = st"
    "num_units h = 0" "unit_next h = thread_units k us st m" and ok: "st \<le> en" "0 < k"
    using assms(1) by (auto split: if_splits)
  have us: "usize \<le> us" "0 < us"
    using AlignUp_ge [of usize al] assms(3) by (auto simp: us_def)
  have "address \<le> st \<and> en \<le> address + sz"
    using lay AlignUp_ge [of address MinimumAlignment] AlignUp_ge [of address al]
      AlignUp_ge [of "AlignUp address MinimumAlignment + head_size" al]
      AlignDown_le [of "address + sz" MinimumAlignment]
      AlignDown_le [of "address + sz - head_size" MinimumAlignment]
    by (auto simp: unit_heap_layout_def Let_def split: option.splits InfoPlacement.splits)
  then have st: "address \<le> st" "0 < st" and en: "en \<le> address + sz"
    using assms(2) by auto
  have ku: "st + k * us \<le> en"
    using ok(1) div_times_less_eq_dividend [of "en - st" us] unfolding k_def by linarith
  have n: "n = k"
    using us(2) h by (simp add: n_def)
  let ?A = "unit_addresses st us k"
  have "chain (unit_next h) (free_head h) ?A" "distinct ?A"
    using thread_units_chain ok(2) us(2) st(2) distinct_unit_addresses by (auto simp: h)
  then have "heap_inv h (set ?A) {}"
    using us(2) st(2) unit_addresses_bounds [of _ st us k]
    by (auto simp: heap_inv_def h apart_unit_addresses intro!: exI [of _ ?A])
  then show ?thesis
    using n h ok us st en ku by auto
qed

lemma FreeCount_spec:
  assumes "heap_inv h units used"
  shows "GetUnitHeapFreeCount h = Some (card units - card used)"
proof -
  obtain free where f: "chain (unit_next h) (free_head h) free" "distinct free"
    "set free = units - used"
    using assms by (rule heap_invE)
  have "length free = card (units - used)"
    using f distinct_card by metis
  also have "\<dots> = card units - card used"
    using assms by (intro card_Diff_subset) (auto simp: heap_inv_def intro: finite_subset)
  finally show ?thesis
    using chain_count [OF f(1), of 0] by (simp add: GetUnitHeapFreeCount_def)
qed

section \<open>The allocator contract\<close>

interpretation unit_heap: block_allocator units "\<lambda>h. heap_inv h units" "AllocateFromUnitHeap fills"
    "FreeToUnitHeap fills" for units fills
proof
  fix h U p h'
  assume inv: "heap_inv h units U"
  show "U \<subseteq> units" "0 \<notin> units"
    using inv heap_inv_nonzero [OF inv] by (auto simp: heap_inv_def)
  show "p \<in> units - U \<and> heap_inv h' units (insert p U)"
    if "AllocateFromUnitHeap fills h = (p, h')" "p \<noteq> 0"
    using Allocate_spec [OF inv that(1)] that(2) by simp
  show "U = units \<and> heap_inv h' units U" if "AllocateFromUnitHeap fills h = (0, h')"
    using Allocate_spec [OF inv that] inv by simp
  show "heap_inv (FreeToUnitHeap fills p h) units (U - {p})" if "p \<in> U"
    using Free_spec [OF inv that] .
qed

section \<open>Extending the heap\<close>

lemma Extend_chain:
  assumes "chain m p free" "free \<noteq> []" "distinct free" "\<forall>x \<in> set free. x < e"
    "0 < n" "0 < sz" "0 < e"
  shows "chain (thread_units n sz e ((m(last free := e))(e := 0))) p (free @ unit_addresses e sz n)"
proof -
  let ?F = "thread_units n sz e ((m(last free := e))(e := 0))"
  have F: "?F a = (m(last free := e)) a" if "a < e" for a
    using thread_units_other [OF assms(6) that] that by simp
  have below: "last free < e"
    using assms(2,4) by simp
  let ?m = "?F(last free := m (last free))"
  have fresh: "last free \<notin> set (unit_addresses e sz n)"
    using below unit_addresses_bounds(1) by (metis leD)
  have "chain ?m p free"
    using assms(1,4) F by (subst chain_cong [of free ?m m]) auto
  moreover have "chain ?m e (unit_addresses e sz n)"
    using thread_units_chain [OF assms(5-7)] fresh by simp
  ultimately have "chain (?m(last free := e)) p (free @ unit_addresses e sz n)"
    using assms(2,3) fresh by (intro chain_append)
  moreover have "?m(last free := e) = ?F"
    using F [OF below] by (simp add: fun_eq_iff)
  ultimately show ?thesis
    by simp
qed

lemma apart_Un:
  assumes "apart sz A" "apart sz B" "\<And>p q. p \<in> A \<Longrightarrow> q \<in> B \<Longrightarrow> p + sz \<le> q"
  shows "apart sz (A \<union> B)"
  unfolding apart_def
proof (intro ballI impI)
  fix p q
  assume "p \<in> A \<union> B" "q \<in> A \<union> B" "p < q"
  then show "p + sz \<le> q"
    using assms(1,2) assms(3) [of p q] assms(3) [of q p] unfolding apart_def by auto
qed

lemma Extend_spec:
  assumes "heap_inv h units used" "0 < heap_start h" "heap_start h \<le> heap_end h"
    "0 < sz div unit_size h"
  defines "new \<equiv> set (unit_addresses (heap_end h) (unit_size h) (sz div unit_size h))"
  shows "\<exists>h'. ExtendUnitHeap sz h = Some h' \<and> heap_inv h' (units \<union> new) used \<and>
    heap_end h' = heap_end h + sz"
proof -
  obtain free where f: "chain (unit_next h) (free_head h) free" "distinct free"
    "set free = units - used"
    using assms(1) by (rule heap_invE)
  let ?us = "unit_size h" and ?e = "heap_end h" and ?n = "sz div unit_size h"
  let ?new = "unit_addresses ?e ?us ?n"
  have us: "0 < ?us" and e: "0 < ?e" and sub: "used \<subseteq> units" and fin: "finite units"
    and bounds: "\<forall>p \<in> units. heap_start h \<le> p \<and> p + ?us \<le> ?e"
    and ap: "apart ?us units" and cnt: "num_units h = int (card used)"
    using assms by (auto simp: heap_inv_def)
  have old_new: "p + ?us \<le> q" if "p \<in> units" "q \<in> new" for p q
    using that bounds unit_addresses_bounds(1) [of q ?e ?us ?n] by (fastforce simp: new_def)
  have fresh: "units \<inter> new = {}"
    using old_new us by fastforce
  have "\<exists>h'. ExtendUnitHeap sz h = Some h' \<and> chain (unit_next h') (free_head h') (free @ ?new) \<and>
      h' = h\<lparr>free_head := free_head h', unit_next := unit_next h', heap_end := ?e + sz\<rparr>"
  proof (cases "free = []")
    case True
    with f(1) show ?thesis
      using thread_units_chain [OF assms(4) us e] by (auto simp: ExtendUnitHeap_def Let_def)
  next
    case False
    have "\<forall>x \<in> set free. x < ?e"
      using bounds f(3) us by fastforce
    from Extend_chain [OF f(1) False f(2) this assms(4) us e] False f(1)
    show ?thesis
      using chain_tail [OF f(1) False] by (cases free) (auto simp: ExtendUnitHeap_def Let_def)
  qed
  then obtain h' where h': "ExtendUnitHeap sz h = Some h'"
    "chain (unit_next h') (free_head h') (free @ ?new)"
    "h' = h\<lparr>free_head := free_head h', unit_next := unit_next h', heap_end := ?e + sz\<rparr>"
    by blast
  have fields: "heap_start h' = heap_start h" "heap_end h' = ?e + sz" "unit_size h' = ?us"
    "num_units h' = num_units h"
    by (subst h'(3); simp)+
  have "apart ?us (units \<union> new)"
    using ap apart_unit_addresses [OF us, of ?e ?n] old_new unfolding new_def
    by (rule apart_Un)
  moreover have "p + ?us \<le> ?e + sz" if "p \<in> new" for p
    using unit_addresses_bounds(2) [of p ?e ?us ?n] that div_times_less_eq_dividend [of sz ?us]
    unfolding new_def by linarith
  moreover have "heap_start h \<le> p" if "p \<in> new" for p
    using unit_addresses_bounds(1) [of p ?e ?us ?n] that assms(3) by (simp add: new_def)
  moreover have "set (free @ ?new) = units \<union> new - used" "distinct (free @ ?new)"
    using f fresh sub distinct_unit_addresses [OF us] by (auto simp: new_def)
  moreover have "finite (units \<union> new)"
    using fin by (simp add: new_def)
  ultimately have "heap_inv h' (units \<union> new) used"
    using h'(2) us sub cnt bounds assms(2) unfolding heap_inv_def fields
    by (intro conjI exI [of _ "free @ ?new"]) auto
  then show ?thesis
    using h'(1) fields by blast
qed

section \<open>Properties of the unit heap\<close>

text \<open>The states a client reaches by allocating and by freeing what it holds.\<close>

inductive heap_run :: "(FillType \<Rightarrow> u32) \<Rightarrow> UnitHeap \<Rightarrow> UnitHeap \<Rightarrow> nat set \<Rightarrow> bool"
  for fills h0 where
  init: "heap_run fills h0 h0 {}"
| alloc: "heap_run fills h0 h U \<Longrightarrow> AllocateFromUnitHeap fills h = (p, h') \<Longrightarrow> p \<noteq> 0 \<Longrightarrow>
    heap_run fills h0 h' (insert p U)"
| free: "heap_run fills h0 h U \<Longrightarrow> p \<in> U \<Longrightarrow> heap_run fills h0 (FreeToUnitHeap fills p h) (U - {p})"

lemma heap_run_inv:
  assumes "heap_run fills h0 h U" "heap_inv h0 units {}"
  shows "heap_inv h units U"
  using assms
  by (induction rule: heap_run.induct)
    (auto dest: unit_heap.alloc_fresh intro: unit_heap.release_live)

lemma unit_heap_geometry:
  assumes "heap_run fills h0 h U" "heap_inv h0 units {}"
  shows "unit_size h = unit_size h0 \<and> heap_start h = heap_start h0 \<and> heap_end h = heap_end h0"
  using assms(1)
  by (induction rule: heap_run.induct)
    (auto simp: AllocateFromUnitHeap_def FreeToUnitHeap_def PopUnit_def PushUnit_def Let_def
      split: prod.splits if_splits)


lemma demo_unit_heap:
  "\<exists>h0. CreateUnitHeap 0x60 0x1000 0x100 0x28 8 0 InfoPlacement_Head None (\<lambda>_. 0) = Some h0 \<and>
     heap_start h0 = 0x1060 \<and> heap_end h0 = 0x1100 \<and> unit_size h0 = 0x28"
  by (simp add: CreateUnitHeap_def unit_heap_layout_def AlignUp_def AlignDown_def
      MinimumAlignment_def)


text \<open>
  C22. Extending a heap adds units and keeps the rest. The new units start at the old end
  of the heap, are free, and overlap neither each other nor the units that were there;
  what was allocated stays allocated.
\<close>

theorem ExtendUnitHeap_correct:
  assumes "heap_inv h units used" "0 < heap_start h" "heap_start h \<le> heap_end h"
    "0 < sz div unit_size h"
  shows "\<exists>h'. ExtendUnitHeap sz h = Some h' \<and> heap_end h' = heap_end h + sz \<and>
    heap_inv h' (units \<union> set (unit_addresses (heap_end h) (unit_size h) (sz div unit_size h))) used"
  using Extend_spec [OF assms] by blast

theorem ExtendUnitHeap_correct_witness:
  "\<exists>h0 h'. CreateUnitHeap 0x60 0x1000 0x100 0x28 8 0 InfoPlacement_Head None (\<lambda>_. 0) = Some h0 \<and>
     ExtendUnitHeap 0x50 h0 = Some h' \<and> heap_end h' = 0x1150"
proof -
  obtain h0 where h0: "CreateUnitHeap 0x60 0x1000 0x100 0x28 8 0 InfoPlacement_Head None (\<lambda>_. 0) = Some h0"
    "heap_start h0 = 0x1060" "heap_end h0 = 0x1100" "unit_size h0 = 0x28"
    using demo_unit_heap by blast
  have "heap_inv h0 (set (unit_addresses 0x1060 0x28 4)) {}"
    using Create_spec [OF h0(1)] h0(2-4) by simp
  from ExtendUnitHeap_correct [OF this, of "0x50"] show ?thesis
    using h0 by auto
qed

end
