(* ===== verification/Cheat_Frozen.thy ===== *)
theory Cheat_Frozen
  imports Cheat_Process Lmem_UnitHeap "HOL-Library.Multiset"
begin

text \<open>
  The frozen addresses of the cheat service: the ordered map from addresses to frozen
  values, whose nodes are units of a unit heap (\<^verbatim>\<open>AllocateFrozenAddress\<close>,
  \<^verbatim>\<open>DeallocateFrozenAddress\<close> and the map operations that \<^verbatim>\<open>CheatProcessManager\<close> uses,
  \<^verbatim>\<open>dmnt_cheat_api.cpp\<close>). The intrusive tree is the list of its nodes in key order.
\<close>

section \<open>Operations\<close>

fun find_key :: "u64 \<Rightarrow> FrozenAddressMapEntry list \<Rightarrow> FrozenAddressMapEntry option" where
  "find_key a [] = None"
| "find_key a (e # es) = (if m_address e = a then Some e else find_key a es)"

text \<open>The tree's insertion returns the present node when the key is taken.\<close>

fun insert_entry ::
    "FrozenAddressMapEntry \<Rightarrow> FrozenAddressMapEntry list \<Rightarrow> FrozenAddressMapEntry list" where
  "insert_entry e [] = [e]"
| "insert_entry e (x # xs) =
     (if m_address e < m_address x then e # x # xs
      else if m_address e = m_address x then x # xs
      else x # insert_entry e xs)"

fun erase_key :: "u64 \<Rightarrow> FrozenAddressMapEntry list \<Rightarrow> FrozenAddressMapEntry list" where
  "erase_key a [] = []"
| "erase_key a (e # es) = (if m_address e = a then es else e # erase_key a es)"

definition AllocateFrozenAddress ::
    "(FillType \<Rightarrow> u32) \<Rightarrow> u64 \<Rightarrow> FrozenAddressValue \<Rightarrow> UnitHeap \<Rightarrow>
     FrozenAddressMapEntry option \<times> UnitHeap" where
  "AllocateFrozenAddress fills address v h =
     (let (p, h') = AllocateFromUnitHeap fills h
      in if p \<noteq> 0 then (Some \<lparr>fe_node = p, m_address = address, m_value = v\<rparr>, h') else (None, h'))"

definition DeallocateFrozenAddress ::
    "(FillType \<Rightarrow> u32) \<Rightarrow> FrozenAddressMapEntry \<Rightarrow> UnitHeap \<Rightarrow> UnitHeap" where
  "DeallocateFrozenAddress fills e h = FreeToUnitHeap fills (fe_node e) h"

text \<open>The loop of \<^verbatim>\<open>CloseActiveCheatProcess\<close> that erases and frees every node.\<close>

fun clear_frozen ::
    "(FillType \<Rightarrow> u32) \<Rightarrow> FrozenAddressMapEntry list \<Rightarrow> UnitHeap \<Rightarrow> FrozenAddressMapEntry list \<times> UnitHeap" where
  "clear_frozen fills [] h = ([], h)"
| "clear_frozen fills (e # es) h = clear_frozen fills es (DeallocateFrozenAddress fills e h)"

section \<open>The map as an interface\<close>

text \<open>
  An ordered container with unique keys: what a lookup finds, and what insertion of a new
  key and erasure of a present one do to the elements.
\<close>

locale ordered_map =
  fixes ok :: "'s \<Rightarrow> bool"
    and elems :: "'s \<Rightarrow> 'e list"
    and key :: "'e \<Rightarrow> 'k::linorder"
    and find :: "'k \<Rightarrow> 's \<Rightarrow> 'e option"
    and ins :: "'e \<Rightarrow> 's \<Rightarrow> 's"
    and erase :: "'k \<Rightarrow> 's \<Rightarrow> 's"
  assumes keys_sorted: "ok s \<Longrightarrow> sorted_wrt (<) (map key (elems s))"
    and find_Some: "ok s \<Longrightarrow> find k s = Some e \<longleftrightarrow> e \<in> set (elems s) \<and> key e = k"
    and ins_ok: "ok s \<Longrightarrow> find (key e) s = None \<Longrightarrow> ok (ins e s)"
    and ins_elems: "ok s \<Longrightarrow> find (key e) s = None \<Longrightarrow>
      mset (elems (ins e s)) = add_mset e (mset (elems s))"
    and erase_ok: "ok s \<Longrightarrow> ok (erase k s)"
    and erase_elems: "ok s \<Longrightarrow> find k s = Some e \<Longrightarrow>
      mset (elems (erase k s)) = mset (elems s) - {#e#}"
begin

lemma find_eqI:
  assumes "ok s" "ok s'" "\<And>e. key e = k \<Longrightarrow> e \<in> set (elems s) \<longleftrightarrow> e \<in> set (elems s')"
  shows "find k s = find k s'"
proof (cases "find k s'")
  case None
  then have "find k s \<noteq> Some e" for e
    using assms find_Some by (metis option.distinct(1))
  with None show ?thesis by (cases "find k s") auto
next
  case (Some e)
  then show ?thesis
    using assms find_Some by metis
qed

lemma elems_distinct:
  assumes "ok s"
  shows "distinct (elems s)"
  using keys_sorted [OF assms] by (simp add: distinct_map strict_sorted_iff)

lemma find_ins:
  assumes "ok s" "find (key e) s = None"
  shows "find k (ins e s) = (if k = key e then Some e else find k s)"
proof (cases "k = key e")
  case True
  have "e \<in> set (elems (ins e s))"
    using ins_elems [OF assms] by (metis set_mset_mset union_single_eq_member)
  then show ?thesis
    using True find_Some [OF ins_ok [OF assms]] by simp
next
  case False
  then show ?thesis
    using ins_elems [OF assms] ins_ok [OF assms] assms(1)
    by (auto intro!: find_eqI simp flip: set_mset_mset)
qed

lemma find_erase:
  assumes "ok s" "find k s = Some e"
  shows "find k' (erase k s) = (if k' = k then None else find k' s)"
proof -
  have inj: "x = e" if "x \<in> set (elems s)" "key x = k" for x
    using that assms find_Some by (metis option.inject)
  have "set (elems (erase k s)) = set (elems s) - {e}"
  proof -
    have "mset (elems (erase k s)) = mset (remove1 e (elems s))"
      using erase_elems [OF assms] by simp
    then have "set (elems (erase k s)) = set (remove1 e (elems s))"
      by (rule mset_eq_setD)
    then show ?thesis
      using elems_distinct [OF assms(1)] by (simp add: set_remove1_eq)
  qed
  moreover have "key e = k"
    using assms find_Some by blast
  ultimately have elems: "x \<in> set (elems (erase k s)) \<longleftrightarrow> x \<in> set (elems s) \<and> key x \<noteq> k" for x
    using inj by auto
  show ?thesis
  proof (cases "k' = k")
    case True
    then have "find k' (erase k s) \<noteq> Some x" for x
      using elems find_Some [OF erase_ok [OF assms(1)]] by auto
    with True show ?thesis by (cases "find k' (erase k s)") auto
  next
    case False
    then show ?thesis
      using elems assms(1) by (auto intro!: find_eqI erase_ok)
  qed
qed

end

lemma find_key_Some:
  "frozen_sorted es \<Longrightarrow> find_key a es = Some e \<longleftrightarrow> e \<in> set es \<and> m_address e = a"
  by (induction es) (auto simp: frozen_sorted_def)

lemma find_key_SomeD: "find_key a es = Some e \<Longrightarrow> e \<in> set es \<and> m_address e = a"
  by (induction es) (auto split: if_splits)

lemma find_key_None: "find_key a es = None \<longleftrightarrow> a \<notin> m_address ` set es"
  by (induction es) auto

lemma insert_entry_mset:
  "find_key (m_address e) es = None \<Longrightarrow> mset (insert_entry e es) = add_mset e (mset es)"
  by (induction es) (auto split: if_splits)

lemma insert_entry_sorted:
  assumes "frozen_sorted es"
  shows "frozen_sorted (insert_entry e es)"
proof -
  have sub: "set (insert_entry e xs) \<subseteq> insert e (set xs)" for xs
    by (induction xs) auto
  show ?thesis
    using assms
  proof (induction es)
    case (Cons x xs)
    then show ?case
      using sub [of xs] by (auto simp: frozen_sorted_def)
  qed (simp add: frozen_sorted_def)
qed

lemma erase_key_sorted:
  assumes "frozen_sorted es"
  shows "frozen_sorted (erase_key a es)"
proof -
  have sub: "set (erase_key a xs) \<subseteq> set xs" for xs
    by (induction xs) auto
  show ?thesis
    using assms
  proof (induction es)
    case (Cons x xs)
    then show ?case
      using sub [of xs] by (auto simp: frozen_sorted_def)
  qed (simp add: frozen_sorted_def)
qed

lemma erase_key_mset: "find_key a es = Some e \<Longrightarrow> mset (erase_key a es) = mset es - {#e#}"
proof (induction es)
  case (Cons x xs)
  show ?case
  proof (cases "m_address x = a")
    case False
    with Cons.prems have "find_key a xs = Some e"
      by simp
    moreover from this have "x \<noteq> e"
      using find_key_SomeD False by blast
    ultimately show ?thesis
      using False Cons.IH by simp
  qed (use Cons in simp)
qed simp

interpretation frozen_map: ordered_map frozen_sorted "\<lambda>es. es" m_address find_key insert_entry erase_key
proof
  fix s k e
  assume ok: "frozen_sorted s"
  then show "sorted_wrt (<) (map m_address s)"
    by (simp add: frozen_sorted_def sorted_wrt_map)
  show "find_key k s = Some e \<longleftrightarrow> e \<in> set s \<and> m_address e = k"
    by (rule find_key_Some [OF ok])
  show "frozen_sorted (insert_entry e s)" "frozen_sorted (erase_key k s)"
    by (rule insert_entry_sorted [OF ok] erase_key_sorted [OF ok])+
  show "mset (insert_entry e s) = add_mset e (mset s)" if "find_key (m_address e) s = None"
    by (rule insert_entry_mset [OF that])
  show "mset (erase_key k s) = mset s - {#e#}" if "find_key k s = Some e"
    by (rule erase_key_mset [OF that])
qed

section \<open>Nodes and the unit heap\<close>

text \<open>
  The nodes of the map are exactly the units in use, each used once, and the keys are
  strictly increasing.
\<close>

definition frozen_inv :: "nat set \<Rightarrow> UnitHeap \<Rightarrow> FrozenAddressMapEntry list \<Rightarrow> bool" where
  "frozen_inv units h es \<longleftrightarrow>
     frozen_sorted es \<and> distinct (map fe_node es) \<and> heap_inv h units (fe_node ` set es)"

lemma frozen_inv_keys:
  assumes "map frozen_key es = map frozen_key fs"
  shows "frozen_inv units h es \<longleftrightarrow> frozen_inv units h fs"
proof -
  have "map fe_node xs = map fst (map frozen_key xs)" for xs
    by (simp add: frozen_key_def)
  then have nodes: "map fe_node es = map fe_node fs"
    by (simp only: assms)
  then have "fe_node ` set es = fe_node ` set fs"
    by (metis list.set_map)
  then show ?thesis
    using nodes frozen_sorted_keys [OF assms] by (simp add: frozen_inv_def)
qed

lemma insert_entry_nodes:
  assumes "find_key (m_address e) es = None"
  shows "mset (map fe_node (insert_entry e es)) = mset (map fe_node (e # es))"
    "set (insert_entry e es) = insert e (set es)"
  using insert_entry_mset [OF assms] mset_eq_setD [of "insert_entry e es" "e # es"] by simp_all

lemma freeze_inv:
  assumes "frozen_inv units h es" "find_key a es = None" "AllocateFrozenAddress fills a v h = (Some e, h')"
  shows "frozen_inv units h' (insert_entry e es)" "m_address e = a" "m_value e = v"
proof -
  obtain p where p: "AllocateFromUnitHeap fills h = (p, h')" "p \<noteq> 0"
    "e = \<lparr>fe_node = p, m_address = a, m_value = v\<rparr>"
    using assms(3) by (auto simp: AllocateFrozenAddress_def split: prod.splits if_splits)
  show e: "m_address e = a" "m_value e = v"
    using p(3) by simp_all
  have inv: "heap_inv h units (fe_node ` set es)" "frozen_sorted es" "distinct (map fe_node es)"
    using assms(1) by (simp_all add: frozen_inv_def)
  note fresh = unit_heap.alloc_fresh [OF inv(1) p(1,2)]
  have free: "find_key (m_address e) es = None"
    using assms(2) e by simp
  note nodes = insert_entry_nodes [OF free]
  have "distinct (map fe_node (e # es))"
    using inv(3) fresh p(3) by auto
  then have "distinct (map fe_node (insert_entry e es))"
    using nodes(1) by (metis mset_eq_imp_distinct_iff)
  moreover have "heap_inv h' units (fe_node ` set (insert_entry e es))"
    unfolding nodes(2) using fresh p(3) by simp
  ultimately show "frozen_inv units h' (insert_entry e es)"
    using inv(2) by (simp add: frozen_inv_def insert_entry_sorted)
qed

lemma freeze_exhausted:
  assumes "frozen_inv units h es" "AllocateFrozenAddress fills a v h = (None, h')"
  shows "h' = h" "length es = card units"
proof -
  have inv: "heap_inv h units (fe_node ` set es)" "distinct (map fe_node es)"
    using assms(1) by (simp_all add: frozen_inv_def)
  have "AllocateFromUnitHeap fills h = (0, h')"
    using assms(2) by (auto simp: AllocateFrozenAddress_def split: prod.splits if_splits)
  from Allocate_spec [OF inv(1) this] have "fe_node ` set es = units" "h' = h"
    by simp_all
  then show "h' = h" "length es = card units"
    using distinct_card [OF inv(2)] by simp_all
qed

lemma unfreeze_inv:
  assumes "frozen_inv units h es" "find_key a es = Some e"
  shows "frozen_inv units (DeallocateFrozenAddress fills e h) (erase_key a es)"
proof -
  have inv: "heap_inv h units (fe_node ` set es)" "frozen_sorted es" "distinct (map fe_node es)"
    using assms(1) by (simp_all add: frozen_inv_def)
  have e: "e \<in> set es"
    using find_key_Some [OF inv(2)] assms(2) by simp
  have d: "distinct es"
    using inv(3) by (simp add: distinct_map)
  have m: "mset (erase_key a es) = mset (remove1 e es)"
    using erase_key_mset [OF assms(2)] by simp
  then have "set (erase_key a es) = set es - {e}"
    using d by (metis mset_eq_setD set_remove1_eq)
  moreover have "distinct (map fe_node (erase_key a es))"
  proof -
    have "distinct (map fe_node (remove1 e es))"
      using inv(3) by (auto simp: distinct_map inj_on_diff)
    then show ?thesis
      using m by (metis mset_eq_imp_distinct_iff mset_map)
  qed
  moreover have "fe_node ` (set es - {e}) = fe_node ` set es - {fe_node e}"
    using inv(3) e by (auto simp: distinct_map inj_on_def)
  ultimately show ?thesis
    using unit_heap.release_live [OF inv(1), of "fe_node e" fills] e erase_key_sorted [OF inv(2)]
    by (simp add: frozen_inv_def DeallocateFrozenAddress_def)
qed

lemma clear_frozen_fold:
  "clear_frozen fills es h = ([], fold (FreeToUnitHeap fills) (map fe_node es) h)"
  by (induction es arbitrary: h) (simp_all add: DeallocateFrozenAddress_def)

lemma clear_frozen_inv:
  assumes "frozen_inv units h es"
  shows "\<exists>h'. clear_frozen fills es h = ([], h') \<and> frozen_inv units h' []"
  using assms unit_heap.release_all [of h units "fe_node ` set es" "map fe_node es" fills]
  by (simp add: clear_frozen_fold frozen_inv_def frozen_sorted_def)

lemma frozen_inv_bound:
  assumes "frozen_inv units h es"
  shows "length es \<le> card units"
proof -
  have "fe_node ` set es \<subseteq> units" "finite units" "distinct (map fe_node es)"
    using assms unit_heap.live_pool by (auto simp: frozen_inv_def heap_inv_def)
  then show ?thesis
    using card_mono [of units "fe_node ` set es"] distinct_card [of "map fe_node es"] by simp
qed

end
