(* ===== verification/Cheat_Manager.thy ===== *)
theory Cheat_Manager
  imports Cheat_VM_Exec Cheat_Parser Cheat_Frozen "HOL-Library.Monad_Syntax"
begin

text \<open>
  The cheat process manager (\<^verbatim>\<open>CheatProcessManager\<close> of \<^verbatim>\<open>dmnt_cheat_api.cpp\<close>): attaching to
  the application and detaching from it, the cheat list, the static registers, the frozen
  addresses, and one round of the virtual machine thread.

  An operation runs with the cheat lock held, so it is one step on the manager's state.
  \<open>None\<close> is an abort of the service (\<^verbatim>\<open>R_ABORT_UNLESS\<close>) or, in the two walks over the
  address space, a walk that never ends; otherwise an operation returns its
  result, an error on the left, with the new state. The services the manager calls are
  parameters in the record \<open>cheat_env\<close>.
\<close>

section \<open>State and environment\<close>

record MemoryInfo =
  mi_base_address :: u64
  mi_size :: u64
  mi_state :: u32
  mi_attribute :: u32
  mi_permission :: u32
  mi_ipc_count :: u32
  mi_device_count :: u32

record ModuleInfo =
  module_id :: "u8 list"
  module_address :: u64
  module_size :: u64

text \<open>A file opened for reading: its size, and the outcome of reading it with the bytes stored.\<close>

record sd_file =
  sd_size :: "int option"
  sd_read :: "bool \<times> char list"

datatype InfoType = InfoType_HeapRegionAddress | InfoType_HeapRegionSize
  | InfoType_AliasRegionAddress | InfoType_AliasRegionSize
  | InfoType_AslrRegionAddress | InfoType_AslrRegionSize

text \<open>
  What the manager asks of the system, over the state \<open>'m\<close> of everything outside the
  service; a failing result is \<open>None\<close> or \<open>False\<close>.
\<close>

datatype continue_result = Continued | ProcessTerminated | ContinueFailed

record 'm cheat_env =
  env_svc :: "'m debug_svc"
  env_fills :: "FillType \<Rightarrow> u32"
  env_ContinueCheatProcess :: "'m \<Rightarrow> u32 \<Rightarrow> continue_result \<times> 'm"
    \<comment> \<open>ContinueCheatProcess with the result the debug events thread looks at\<close>
  env_GetProcessId :: "'m \<Rightarrow> u32 \<Rightarrow> u64 option"
  env_GetApplicationProcessId :: "'m \<Rightarrow> u64 option"
  env_CloseHandle :: "'m \<Rightarrow> u32 \<Rightarrow> bool \<times> 'm"
  env_QueryDebugProcessMemory :: "'m \<Rightarrow> u32 \<Rightarrow> u64 \<Rightarrow> MemoryInfo option"
  env_AtmosphereGetProcessInfo :: "'m \<Rightarrow> u64 \<Rightarrow> (u32 \<times> u64 \<times> bool) option"
    \<comment> \<open>process handle, program id, whether cheats are enabled\<close>
  env_GetInfo :: "'m \<Rightarrow> InfoType \<Rightarrow> u32 \<Rightarrow> u64 option"
  env_GetProcessModuleInfo :: "'m \<Rightarrow> u64 \<Rightarrow> nat \<Rightarrow> ModuleInfo list option"
  env_DebugActiveProcess :: "'m \<Rightarrow> u64 \<Rightarrow> u32 option \<times> 'm"
  env_StartProcess :: "'m \<Rightarrow> u64 \<Rightarrow> bool \<times> 'm"
  env_OpenRead :: "'m \<Rightarrow> string \<Rightarrow> sd_file option"
  env_DeleteFile :: "'m \<Rightarrow> string \<Rightarrow> 'm"
  env_CreateFile :: "'m \<Rightarrow> string \<Rightarrow> 'm"
  env_OpenWrite :: "'m \<Rightarrow> string \<Rightarrow> bool"
  env_WriteFile :: "'m \<Rightarrow> string \<Rightarrow> nat \<Rightarrow> char list \<Rightarrow> bool \<times> 'm"

record 'm CheatProcessManager =
  m_process :: "'m process_state"
  m_debug_events_event :: bool
  m_cheat_process_event :: bool
  m_cheat_process_metadata :: CheatProcessMetadata
  m_needs_reload_vm :: bool
  m_cheat_vm :: CheatVirtualMachine
  m_enable_cheats_by_default :: bool
  m_always_save_cheat_toggles :: bool
  m_should_save_cheat_toggles :: bool
  m_cheat_entries :: "CheatEntry list"
  g_frozen_address_map_heap :: UnitHeap
  g_text_file_buffer :: "char list"

datatype cheat_error = CheatNotAttached | CheatNullBuffer | CheatInvalidBuffer | CheatUnknownId
  | CheatOutOfResource | CheatInvalid | CheatCannotDisable | FrozenAddressInvalidWidth
  | FrozenAddressAlreadyExists | FrozenAddressNotFound | FrozenAddressOutOfResource
  | ExternalFailure

type_synonym ('m, 'a) cheat_op =
  "'m CheatProcessManager \<Rightarrow> ((cheat_error + 'a) \<times> 'm CheatProcessManager) option"

abbreviation frozen :: "'m CheatProcessManager \<Rightarrow> FrozenAddressMapEntry list" where
  "frozen m \<equiv> m_frozen_addresses_map (m_process m)"

abbreviation debug_handle :: "'m CheatProcessManager \<Rightarrow> u32" where
  "debug_handle m \<equiv> m_cheat_process_debug_handle (m_process m)"

abbreviation world :: "'m CheatProcessManager \<Rightarrow> 'm" where
  "world m \<equiv> target (m_process m)"

definition with_process_state ::
    "('m process_state \<Rightarrow> 'm process_state) \<Rightarrow> 'm CheatProcessManager \<Rightarrow> 'm CheatProcessManager" where
  "with_process_state f m = m\<lparr>m_process := f (m_process m)\<rparr>"

definition set_world :: "'m \<Rightarrow> 'm CheatProcessManager \<Rightarrow> 'm CheatProcessManager" where
  "set_world t m = with_process_state (\<lambda>p. p\<lparr>target := t\<rparr>) m"

definition zero_extents :: MemoryRegionExtents where
  "zero_extents = \<lparr>ext_base = 0, ext_size = 0\<rparr>"

definition zero_metadata :: CheatProcessMetadata where
  "zero_metadata =
     \<lparr>process_id = 0, program_id = 0, main_nso_extents = zero_extents, heap_extents = zero_extents,
      alias_extents = zero_extents, aslr_extents = zero_extents, main_nso_module_id = replicate 32 0\<rparr>"

section \<open>Entries\<close>

definition SetNeedsReloadVm :: "bool \<Rightarrow> 'm CheatProcessManager \<Rightarrow> 'm CheatProcessManager" where
  "SetNeedsReloadVm b m = m\<lparr>m_needs_reload_vm := b\<rparr>"

definition ResetCheatEntry :: "nat \<Rightarrow> 'm CheatProcessManager \<Rightarrow> 'm CheatProcessManager" where
  "ResetCheatEntry i m =
     (if i < MaxCheatCount
      then SetNeedsReloadVm True (m\<lparr>m_cheat_entries := (m_cheat_entries m)[i := zero_entry i]\<rparr>) else m)"

definition ResetAllCheatEntries :: "'m CheatProcessManager \<Rightarrow> 'm CheatProcessManager" where
  "ResetAllCheatEntries m =
     (let m' = fold ResetCheatEntry [0..<MaxCheatCount] m
      in m'\<lparr>m_cheat_vm := ResetStaticRegisters_vm (m_cheat_vm m')\<rparr>)"

definition GetCheatEntryById :: "nat \<Rightarrow> 'm CheatProcessManager \<Rightarrow> CheatEntry option" where
  "GetCheatEntryById i m = (if i < MaxCheatCount then Some (m_cheat_entries m ! i) else None)"

section \<open>Files\<close>

text \<open>Lower-case hexadecimal with leading zeros, as \<^verbatim>\<open>%016lx\<close> and \<^verbatim>\<open>%02x\<close> print it.\<close>

definition hex_lower :: "nat \<Rightarrow> nat \<Rightarrow> string" where
  "hex_lower digits n =
     map (\<lambda>k. let d = n div 16 ^ (digits - 1 - k) mod 16
               in char_of (if d < 10 then 48 + d else 87 + d :: nat)) [0..<digits]"

definition cheats_directory :: "u64 \<Rightarrow> string" where
  "cheats_directory program = ''sdmc:/atmosphere/contents/'' @ hex_lower 16 (unat program) @ ''/cheats/''"

definition cheats_path :: "u64 \<Rightarrow> u8 list \<Rightarrow> string" where
  "cheats_path program mid =
     cheats_directory program @ concat (map (\<lambda>b. hex_lower 2 (unat b)) (take 8 mid)) @ ''.txt''"

definition toggles_path :: "u64 \<Rightarrow> string" where
  "toggles_path program = cheats_directory program @ ''toggles.txt''"

definition TextBufferSize :: nat where
  "TextBufferSize = 0x10000"

text \<open>
  The part \<^verbatim>\<open>LoadCheats\<close> and \<^verbatim>\<open>LoadCheatToggles\<close> share behind opening the file: the size check, the
  read into the text buffer, and the terminator.
\<close>

definition read_text_file :: "sd_file \<Rightarrow> char list \<Rightarrow> bool \<times> char list" where
  "read_text_file f buf =
     (case sd_size f of
        None \<Rightarrow> (False, buf)
      | Some file_size \<Rightarrow>
          if file_size < 0 \<or> int TextBufferSize \<le> file_size then (False, buf)
          else (let (ok, bytes) = sd_read f;
                    stored = take (nat file_size) bytes;
                    buf' = stored @ drop (length stored) buf
                in if ok then (True, buf'[nat file_size := NUL]) else (False, buf')))"

definition LoadCheats ::
    "'m cheat_env \<Rightarrow> u64 \<Rightarrow> u8 list \<Rightarrow> 'm CheatProcessManager \<Rightarrow> bool \<times> 'm CheatProcessManager" where
  "LoadCheats env program mid m =
     (let m = ResetAllCheatEntries m
      in case env_OpenRead env (world m) (cheats_path program mid) of
           None \<Rightarrow> (False, m)
         | Some f \<Rightarrow>
             (let (ok, buf) = read_text_file f (g_text_file_buffer m);
                  m = m\<lparr>g_text_file_buffer := buf\<rparr>
              in if \<not> ok then (False, m)
                 else (let (parsed, es) = ParseCheats (m_enable_cheats_by_default m) buf
                             (length (c_string buf)) (m_cheat_entries m)
                       in (parsed, m\<lparr>m_cheat_entries := es\<rparr>))))"

definition LoadCheatToggles ::
    "'m cheat_env \<Rightarrow> u64 \<Rightarrow> 'm CheatProcessManager \<Rightarrow> bool \<times> 'm CheatProcessManager" where
  "LoadCheatToggles env program m =
     (let m = m\<lparr>m_should_save_cheat_toggles := False\<rparr>
      in case env_OpenRead env (world m) (toggles_path program) of
           None \<Rightarrow> (True, m)
         | Some f \<Rightarrow>
             (let (ok, buf) = read_text_file f (g_text_file_buffer m);
                  m = m\<lparr>g_text_file_buffer := buf\<rparr>
              in if \<not> ok then (False, m)
                 else (let (parsed, es) = ParseCheatToggles buf (length (c_string buf)) (m_cheat_entries m)
                       in (parsed, m\<lparr>m_cheat_entries := es, m_should_save_cheat_toggles := parsed\<rparr>))))"

text \<open>Writing toggles: a failed write leaves the offset where it was.\<close>

definition save_write :: "'m cheat_env \<Rightarrow> string \<Rightarrow> char list \<Rightarrow> 'm \<times> nat \<Rightarrow> 'm \<times> nat" where
  "save_write env path bytes st =
     (let (ok, t) = env_WriteFile env (fst st) path (snd st) bytes
      in (t, if ok then snd st + length bytes else snd st))"

definition save_entry :: "'m cheat_env \<Rightarrow> string \<Rightarrow> CheatEntry \<Rightarrow> 'm \<times> nat \<Rightarrow> 'm \<times> nat" where
  "save_entry env path e st =
     (if entry_opcodes e \<noteq> 0
      then save_write env path ((if enabled e then ''true'' else ''false'') @ [CHR 0x0A])
             (save_write env path
                (take (0x100 - 1) (''['' @ c_string (entry_name e) @ '']'' @ [CHR 0x0A])) st)
      else st)"

definition SaveCheatToggles ::
    "'m cheat_env \<Rightarrow> u64 \<Rightarrow> 'm CheatProcessManager \<Rightarrow> 'm CheatProcessManager" where
  "SaveCheatToggles env program m =
     (let path = toggles_path program;
          t = env_CreateFile env (env_DeleteFile env (world m) path) path
      in if env_OpenWrite env t path
         then set_world (fst (fold (\<lambda>i. save_entry env path (m_cheat_entries m ! i))
                                [1..<MaxCheatCount] (t, 0))) m
         else set_world t m)"

section \<open>Detaching and the check for an active process\<close>

definition ClearFrozenAddresses :: "'m cheat_env \<Rightarrow> 'm CheatProcessManager \<Rightarrow> 'm CheatProcessManager" where
  "ClearFrozenAddresses env m =
     (let (es, h) = clear_frozen (env_fills env) (frozen m) (g_frozen_address_map_heap m)
      in with_process_state (\<lambda>p. p\<lparr>m_frozen_addresses_map := es\<rparr>) (m\<lparr>g_frozen_address_map_heap := h\<rparr>))"

definition CloseActiveCheatProcess ::
    "'m cheat_env \<Rightarrow> 'm CheatProcessManager \<Rightarrow> 'm CheatProcessManager option" where
  "CloseActiveCheatProcess env m =
     (if debug_handle m \<noteq> 0 then
        (let (ok, t) = env_CloseHandle env (world m) (debug_handle m)
         in if \<not> ok then None
            else
              (let m = with_process_state (\<lambda>p. p\<lparr>m_broken_unsafe := False, m_unsafe_break_event := True,
                          target := t, m_cheat_process_debug_handle := 0\<rparr>) m;
                   m = (if m_always_save_cheat_toggles m \<or> m_should_save_cheat_toggles m
                        then (SaveCheatToggles env (program_id (m_cheat_process_metadata m)) m)
                               \<lparr>m_should_save_cheat_toggles := False\<rparr>
                        else m);
                   m = m\<lparr>m_cheat_process_metadata := zero_metadata\<rparr>;
                   m = ResetAllCheatEntries m;
                   m = ClearFrozenAddresses env m
               in Some (m\<lparr>m_cheat_process_event := True\<rparr>)))
      else Some m)"

text \<open>Whether the debug handle still belongs to the running application.\<close>

definition process_is_active :: "'m cheat_env \<Rightarrow> 'm CheatProcessManager \<Rightarrow> bool" where
  "process_is_active env m \<longleftrightarrow>
     debug_handle m \<noteq> 0 \<and> env_GetProcessId env (world m) (debug_handle m) \<noteq> None \<and>
     env_GetApplicationProcessId env (world m) = Some (process_id (m_cheat_process_metadata m))"

definition HasActiveCheatProcess ::
    "'m cheat_env \<Rightarrow> 'm CheatProcessManager \<Rightarrow> (bool \<times> 'm CheatProcessManager) option" where
  "HasActiveCheatProcess env m =
     (if process_is_active env m then Some (True, m)
      else do { m' \<leftarrow> CloseActiveCheatProcess env m; Some (False, m') })"

text \<open>\<^verbatim>\<open>R_TRY(this->EnsureCheatProcess())\<close> in front of a body.\<close>

definition EnsureCheatProcess :: "'m cheat_env \<Rightarrow> ('m, 'a) cheat_op \<Rightarrow> ('m, 'a) cheat_op" where
  "EnsureCheatProcess env body m =
     do { (active, m') \<leftarrow> HasActiveCheatProcess env m;
          if active then body m' else Some (Inl CheatNotAttached, m') }"

definition fails :: "cheat_error \<Rightarrow> ('m, 'a) cheat_op" where
  "fails e m = Some (Inl e, m)"

definition returns :: "'a \<Rightarrow> ('m, 'a) cheat_op" where
  "returns a m = Some (Inr a, m)"

definition GetHasActiveCheatProcess :: "'m cheat_env \<Rightarrow> ('m, bool) cheat_op" where
  "GetHasActiveCheatProcess env m = do { (b, m') \<leftarrow> HasActiveCheatProcess env m; returns b m' }"

definition GetCheatProcessMetadata :: "'m cheat_env \<Rightarrow> ('m, CheatProcessMetadata) cheat_op" where
  "GetCheatProcessMetadata env =
     EnsureCheatProcess env (\<lambda>m. returns (m_cheat_process_metadata m) m)"

definition ForceCloseCheatProcess :: "'m cheat_env \<Rightarrow> ('m, unit) cheat_op" where
  "ForceCloseCheatProcess env m = do { m' \<leftarrow> CloseActiveCheatProcess env m; returns () m' }"

section \<open>Memory of the process\<close>

definition ReadCheatProcessMemory :: "'m cheat_env \<Rightarrow> u64 \<Rightarrow> nat \<Rightarrow> ('m, u8 list) cheat_op" where
  "ReadCheatProcessMemory env proc_addr sz =
     EnsureCheatProcess env (\<lambda>m.
       let (ok, bytes) = ReadCheatProcessMemoryUnsafe (env_svc env) (m_process m) proc_addr sz
       in if ok then returns bytes m else fails ExternalFailure m)"

definition WriteCheatProcessMemory :: "'m cheat_env \<Rightarrow> u64 \<Rightarrow> u8 list \<Rightarrow> ('m, unit) cheat_op" where
  "WriteCheatProcessMemory env proc_addr data =
     EnsureCheatProcess env (\<lambda>m.
       let (ok, p) = WriteCheatProcessMemoryUnsafe (env_svc env) (m_process m) proc_addr data
       in (if ok then returns () else fails ExternalFailure) (m\<lparr>m_process := p\<rparr>))"

definition QueryCheatProcessMemory :: "'m cheat_env \<Rightarrow> u64 \<Rightarrow> ('m, MemoryInfo) cheat_op" where
  "QueryCheatProcessMemory env address =
     EnsureCheatProcess env (\<lambda>m.
       case env_QueryDebugProcessMemory env (world m) (debug_handle m) address of
         None \<Rightarrow> fails ExternalFailure m | Some mi \<Rightarrow> returns mi m)"

definition PauseCheatProcess :: "'m cheat_env \<Rightarrow> ('m, unit) cheat_op" where
  "PauseCheatProcess env =
     EnsureCheatProcess env (\<lambda>m.
       let (ok, p) = PauseCheatProcessUnsafe (env_svc env) (m_process m)
       in (if ok then returns () else fails ExternalFailure) (m\<lparr>m_process := p\<rparr>))"

definition ResumeCheatProcess :: "'m cheat_env \<Rightarrow> ('m, unit) cheat_op" where
  "ResumeCheatProcess env =
     EnsureCheatProcess env (\<lambda>m.
       let (ok, p) = ResumeCheatProcessUnsafe (env_svc env) (m_process m)
       in (if ok then returns () else fails ExternalFailure) (m\<lparr>m_process := p\<rparr>))"

text \<open>
  The two walks over the address space. \<open>query\<close> is the memory query on the process; the
  walk ends at a failing query, at an address that wraps to zero or, for the listing, when
  the output is full. Nothing in the code bounds it otherwise, so it is a partial function.
\<close>

partial_function (option) mapping_count :: "(u64 \<Rightarrow> MemoryInfo option) \<Rightarrow> u64 \<Rightarrow> u64 \<Rightarrow> u64 option" where
  "mapping_count query address n =
     (case query address of
        None \<Rightarrow> Some n
      | Some mi \<Rightarrow>
          let n' = (if mi_permission mi \<noteq> 0 then n + 1 else n);
              address' = mi_base_address mi + mi_size mi
          in if address' \<noteq> 0 then mapping_count query address' n' else Some n')"

partial_function (option) mapping_list ::
    "(u64 \<Rightarrow> MemoryInfo option) \<Rightarrow> nat \<Rightarrow> nat \<Rightarrow> u64 \<Rightarrow> nat \<Rightarrow> MemoryInfo list \<Rightarrow> MemoryInfo list option" where
  "mapping_list query max_count offset address total_count written =
     (case query address of
        None \<Rightarrow> Some written
      | Some mi \<Rightarrow>
          let mapped = mi_permission mi \<noteq> 0;
              written' = (if mapped \<and> offset \<le> total_count \<and> length written < max_count
                          then written @ [mi] else written);
              total_count' = (if mapped then Suc total_count else total_count);
              address' = mi_base_address mi + mi_size mi
          in if address' \<noteq> 0 \<and> length written' < max_count
             then mapping_list query max_count offset address' total_count' written'
             else Some written')"

definition GetCheatProcessMappingCount :: "'m cheat_env \<Rightarrow> ('m, u64) cheat_op" where
  "GetCheatProcessMappingCount env =
     EnsureCheatProcess env (\<lambda>m.
       do { n \<leftarrow> mapping_count (env_QueryDebugProcessMemory env (world m) (debug_handle m)) 0 0;
            returns n m })"

definition GetCheatProcessMappings ::
    "'m cheat_env \<Rightarrow> nat \<Rightarrow> u64 \<Rightarrow> ('m, MemoryInfo list) cheat_op" where
  "GetCheatProcessMappings env max_count offset =
     EnsureCheatProcess env (\<lambda>m.
       do { ms \<leftarrow> mapping_list (env_QueryDebugProcessMemory env (world m) (debug_handle m))
                    max_count (unat offset) 0 0 [];
            returns ms m })"

section \<open>The cheat list\<close>

definition cheat_present :: "CheatEntry \<Rightarrow> bool" where
  "cheat_present e \<longleftrightarrow> entry_opcodes e \<noteq> 0"

definition GetCheatCount :: "'m cheat_env \<Rightarrow> ('m, nat) cheat_op" where
  "GetCheatCount env =
     EnsureCheatProcess env (\<lambda>m.
       returns (fold (\<lambda>i n. if cheat_present (m_cheat_entries m ! i) then Suc n else n) [0..<MaxCheatCount] 0) m)"

text \<open>The loop of \<^verbatim>\<open>GetCheats\<close> from index \<open>i\<close> on.\<close>

function get_cheats_loop ::
    "CheatEntry list \<Rightarrow> nat \<Rightarrow> nat \<Rightarrow> nat \<Rightarrow> nat \<Rightarrow> CheatEntry list \<Rightarrow> CheatEntry list" where
  "get_cheats_loop es max_count offset i total_count out =
     (if i < MaxCheatCount \<and> length out < max_count then
        (if cheat_present (es ! i) then
           get_cheats_loop es max_count offset (Suc i) (Suc total_count)
             (if offset < Suc total_count then out @ [es ! i] else out)
         else get_cheats_loop es max_count offset (Suc i) total_count out)
      else out)"
  by pat_completeness auto
termination
  by (relation "measure (\<lambda>(es, mc, off, i, t, out). MaxCheatCount - i)") auto

declare get_cheats_loop.simps [simp del]

definition GetCheats :: "'m cheat_env \<Rightarrow> nat \<Rightarrow> u64 \<Rightarrow> ('m, CheatEntry list) cheat_op" where
  "GetCheats env max_count offset =
     EnsureCheatProcess env (\<lambda>m.
       returns (get_cheats_loop (m_cheat_entries m) max_count (unat offset) 0 0 []) m)"

definition GetCheatById :: "'m cheat_env \<Rightarrow> u32 \<Rightarrow> ('m, CheatEntry) cheat_op" where
  "GetCheatById env cid =
     EnsureCheatProcess env (\<lambda>m.
       case GetCheatEntryById (unat cid) m of
         None \<Rightarrow> fails CheatUnknownId m
       | Some e \<Rightarrow> if cheat_present e then returns e m else fails CheatUnknownId m)"

definition ToggleCheat :: "'m cheat_env \<Rightarrow> u32 \<Rightarrow> ('m, unit) cheat_op" where
  "ToggleCheat env cid =
     EnsureCheatProcess env (\<lambda>m.
       case GetCheatEntryById (unat cid) m of
         None \<Rightarrow> fails CheatUnknownId m
       | Some e \<Rightarrow>
           if \<not> cheat_present e then fails CheatUnknownId m
           else if cid = 0 then fails CheatCannotDisable m
           else returns () (SetNeedsReloadVm True
             (m\<lparr>m_cheat_entries := (m_cheat_entries m)[unat cid := e\<lparr>enabled := \<not> enabled e\<rparr>]\<rparr>)))"

definition AddCheat :: "'m cheat_env \<Rightarrow> CheatDefinition \<Rightarrow> bool \<Rightarrow> ('m, u32) cheat_op" where
  "AddCheat env d en =
     EnsureCheatProcess env (\<lambda>m.
       if num_opcodes d = 0 then fails CheatInvalid m
       else if \<not> unat (num_opcodes d) \<le> CheatOpcodesSize then fails CheatInvalid m
       else (case GetFreeCheatEntry (m_cheat_entries m) of
               None \<Rightarrow> fails CheatOutOfResource m
             | Some k \<Rightarrow>
                 (let e = (m_cheat_entries m ! k)\<lparr>enabled := en, cheat_definition := d\<rparr>
                  in returns (cheat_id e)
                       (SetNeedsReloadVm True (m\<lparr>m_cheat_entries := (m_cheat_entries m)[k := e]\<rparr>)))))"

definition RemoveCheat :: "'m cheat_env \<Rightarrow> u32 \<Rightarrow> ('m, unit) cheat_op" where
  "RemoveCheat env cid =
     EnsureCheatProcess env (\<lambda>m.
       if \<not> unat cid < MaxCheatCount then fails CheatUnknownId m
       else returns () (SetNeedsReloadVm True (ResetCheatEntry (unat cid) m)))"

definition SetMasterCheat :: "'m cheat_env \<Rightarrow> CheatDefinition \<Rightarrow> ('m, unit) cheat_op" where
  "SetMasterCheat env d =
     EnsureCheatProcess env (\<lambda>m.
       if num_opcodes d = 0 then fails CheatInvalid m
       else if \<not> unat (num_opcodes d) \<le> CheatOpcodesSize then fails CheatInvalid m
       else returns () (SetNeedsReloadVm True
              (m\<lparr>m_cheat_entries := (m_cheat_entries m)
                   [0 := (m_cheat_entries m ! 0)\<lparr>enabled := True, cheat_definition := d\<rparr>]\<rparr>)))"

section \<open>Static registers\<close>

definition ReadStaticRegister :: "'m cheat_env \<Rightarrow> nat \<Rightarrow> ('m, u64) cheat_op" where
  "ReadStaticRegister env which =
     EnsureCheatProcess env (\<lambda>m.
       if which < NumStaticRegisters then returns (GetStaticRegister (m_cheat_vm m) which) m
       else fails CheatInvalid m)"

definition WriteStaticRegister :: "'m cheat_env \<Rightarrow> nat \<Rightarrow> u64 \<Rightarrow> ('m, unit) cheat_op" where
  "WriteStaticRegister env which v =
     EnsureCheatProcess env (\<lambda>m.
       if which < NumStaticRegisters
       then returns () (m\<lparr>m_cheat_vm := SetStaticRegister which v (m_cheat_vm m)\<rparr>)
       else fails CheatInvalid m)"

definition ResetStaticRegisters :: "'m cheat_env \<Rightarrow> ('m, unit) cheat_op" where
  "ResetStaticRegisters env =
     EnsureCheatProcess env (\<lambda>m. returns () (m\<lparr>m_cheat_vm := ResetStaticRegisters_vm (m_cheat_vm m)\<rparr>))"

section \<open>Frozen addresses\<close>

definition GetFrozenAddressCount :: "'m cheat_env \<Rightarrow> ('m, nat) cheat_op" where
  "GetFrozenAddressCount env = EnsureCheatProcess env (\<lambda>m. returns (length (frozen m)) m)"

fun get_frozen_loop ::
    "nat \<Rightarrow> nat \<Rightarrow> FrozenAddressMapEntry list \<Rightarrow> nat \<Rightarrow> (u64 \<times> FrozenAddressValue) list \<Rightarrow>
     (u64 \<times> FrozenAddressValue) list" where
  "get_frozen_loop max_count offset [] total_count out = out"
| "get_frozen_loop max_count offset (e # es) total_count out =
     (if max_count \<le> length out then out
      else get_frozen_loop max_count offset es (Suc total_count)
             (if offset \<le> total_count then out @ [(m_address e, m_value e)] else out))"

definition GetFrozenAddresses ::
    "'m cheat_env \<Rightarrow> nat \<Rightarrow> u64 \<Rightarrow> ('m, (u64 \<times> FrozenAddressValue) list) cheat_op" where
  "GetFrozenAddresses env max_count offset =
     EnsureCheatProcess env (\<lambda>m. returns (get_frozen_loop max_count (unat offset) (frozen m) 0 []) m)"

definition GetFrozenAddress :: "'m cheat_env \<Rightarrow> u64 \<Rightarrow> ('m, u64 \<times> FrozenAddressValue) cheat_op" where
  "GetFrozenAddress env address =
     EnsureCheatProcess env (\<lambda>m.
       case find_key address (frozen m) of
         None \<Rightarrow> fails FrozenAddressNotFound m
       | Some e \<Rightarrow> returns (m_address e, m_value e) m)"

definition set_frozen :: "FrozenAddressMapEntry list \<Rightarrow> 'm CheatProcessManager \<Rightarrow> 'm CheatProcessManager" where
  "set_frozen es m = with_process_state (\<lambda>p. p\<lparr>m_frozen_addresses_map := es\<rparr>) m"

definition EnableFrozenAddress :: "'m cheat_env \<Rightarrow> u64 \<Rightarrow> u64 \<Rightarrow> ('m, u64) cheat_op" where
  "EnableFrozenAddress env address width =
     EnsureCheatProcess env (\<lambda>m.
       if find_key address (frozen m) \<noteq> None then fails FrozenAddressAlreadyExists m
       else
         (let (ok, bytes) = ReadCheatProcessMemoryUnsafe (env_svc env) (m_process m) address (unat width);
              v = \<lparr>frz_value = overlay_bytes 0 bytes, frz_width = ucast width\<rparr>
          in if \<not> ok then fails ExternalFailure m
             else
               (case AllocateFrozenAddress (env_fills env) address v (g_frozen_address_map_heap m) of
                  (None, h) \<Rightarrow> fails FrozenAddressOutOfResource (m\<lparr>g_frozen_address_map_heap := h\<rparr>)
                | (Some e, h) \<Rightarrow>
                    returns (frz_value v)
                      (set_frozen (insert_entry e (frozen m)) (m\<lparr>g_frozen_address_map_heap := h\<rparr>)))))"

definition DisableFrozenAddress :: "'m cheat_env \<Rightarrow> u64 \<Rightarrow> ('m, unit) cheat_op" where
  "DisableFrozenAddress env address =
     EnsureCheatProcess env (\<lambda>m.
       case find_key address (frozen m) of
         None \<Rightarrow> fails FrozenAddressNotFound m
       | Some e \<Rightarrow>
           returns ()
             (set_frozen (erase_key address (frozen m))
               (m\<lparr>g_frozen_address_map_heap :=
                   DeallocateFrozenAddress (env_fills env) e (g_frozen_address_map_heap m)\<rparr>)))"

section \<open>Attaching\<close>

definition set_process_id :: "u64 \<Rightarrow> 'm CheatProcessManager \<Rightarrow> 'm CheatProcessManager" where
  "set_process_id pid m =
     m\<lparr>m_cheat_process_metadata := (m_cheat_process_metadata m)\<lparr>process_id := pid\<rparr>\<rparr>"

definition StartProcess :: "'m cheat_env \<Rightarrow> 'm CheatProcessManager \<Rightarrow> 'm CheatProcessManager option" where
  "StartProcess env m =
     (let (ok, t) = env_StartProcess env (world m) (process_id (m_cheat_process_metadata m))
      in if ok then Some (set_world t m) else None)"

text \<open>Returning an error through the scope guard, and \<^verbatim>\<open>R_ABORT_UNLESS_IF_NEW_PROCESS\<close> on a failure.\<close>

definition attach_error :: "'m cheat_env \<Rightarrow> bool \<Rightarrow> cheat_error \<Rightarrow> ('m, unit) cheat_op" where
  "attach_error env on_process_launch err m =
     do { m' \<leftarrow> (if on_process_launch then StartProcess env m else Some m);
          fails err (set_process_id 0 m') }"

definition attach_failure :: "'m cheat_env \<Rightarrow> bool \<Rightarrow> ('m, unit) cheat_op" where
  "attach_failure env on_process_launch m =
     (if on_process_launch then None else attach_error env on_process_launch ExternalFailure m)"

definition attach_open :: "'m cheat_env \<Rightarrow> bool \<Rightarrow> ('m, unit) cheat_op" where
  "attach_open env on_process_launch m =
     (case env_DebugActiveProcess env (world m) (process_id (m_cheat_process_metadata m)) of
        (None, t) \<Rightarrow> attach_failure env on_process_launch (set_world t m)
      | (Some h, t) \<Rightarrow>
          do { let m = with_process_state (\<lambda>p. p\<lparr>target := t, m_cheat_process_debug_handle := h,
                           m_broken_unsafe := False, m_unsafe_break_event := True\<rparr>) m;
               m' \<leftarrow> (if on_process_launch then StartProcess env m else Some m);
               returns () (m'\<lparr>m_debug_events_event := True, m_cheat_process_event := True\<rparr>) })"

definition attach_load :: "'m cheat_env \<Rightarrow> bool \<Rightarrow> ('m, unit) cheat_op" where
  "attach_load env on_process_launch m =
     (let program = program_id (m_cheat_process_metadata m);
          (cheats, m) = LoadCheats env program (main_nso_module_id (m_cheat_process_metadata m)) m;
          (loaded, m) = (if cheats then LoadCheatToggles env program m else (False, m))
      in if \<not> loaded \<and> on_process_launch then attach_error env on_process_launch CheatNotAttached m
         else attach_open env on_process_launch m)"

definition attach_modules :: "'m cheat_env \<Rightarrow> bool \<Rightarrow> ('m, unit) cheat_op" where
  "attach_modules env on_process_launch m =
     (case env_GetProcessModuleInfo env (world m) (process_id (m_cheat_process_metadata m)) 2 of
        None \<Rightarrow> attach_failure env on_process_launch m
      | Some modules \<Rightarrow>
          (let attach = (\<lambda>pm. attach_load env on_process_launch
                 (m\<lparr>m_cheat_process_metadata := (m_cheat_process_metadata m)
                     \<lparr>main_nso_extents := \<lparr>ext_base = module_address pm, ext_size = module_size pm\<rparr>,
                      main_nso_module_id := module_id pm\<rparr>\<rparr>))
           in if length modules = 2 then attach (modules ! 1)
              else if length modules = 1 \<and> \<not> on_process_launch then attach (modules ! 0)
              else attach_error env on_process_launch CheatNotAttached m))"

definition attach_process :: "'m cheat_env \<Rightarrow> bool \<Rightarrow> ('m, unit) cheat_op" where
  "attach_process env on_process_launch m =
     (case env_AtmosphereGetProcessInfo env (world m) (process_id (m_cheat_process_metadata m)) of
        None \<Rightarrow> attach_failure env on_process_launch m
      | Some (proc_h, program, cheat_enabled) \<Rightarrow>
          do { let info = (\<lambda>i. env_GetInfo env (world m) i proc_h);
               hb \<leftarrow> info InfoType_HeapRegionAddress;
               hs \<leftarrow> info InfoType_HeapRegionSize;
               ab \<leftarrow> info InfoType_AliasRegionAddress;
               as \<leftarrow> info InfoType_AliasRegionSize;
               sb \<leftarrow> info InfoType_AslrRegionAddress;
               ss \<leftarrow> info InfoType_AslrRegionSize;
               let m = m\<lparr>m_cheat_process_metadata := (m_cheat_process_metadata m)
                     \<lparr>program_id := program,
                      heap_extents := \<lparr>ext_base = hb, ext_size = hs\<rparr>,
                      alias_extents := \<lparr>ext_base = ab, ext_size = as\<rparr>,
                      aslr_extents := \<lparr>ext_base = sb, ext_size = ss\<rparr>\<rparr>\<rparr>;
               if on_process_launch \<and> \<not> cheat_enabled
               then attach_error env on_process_launch CheatNotAttached m
               else attach_modules env on_process_launch m })"

definition AttachToApplicationProcess :: "'m cheat_env \<Rightarrow> bool \<Rightarrow> ('m, unit) cheat_op" where
  "AttachToApplicationProcess env on_process_launch m =
     do { (active, m) \<leftarrow> HasActiveCheatProcess env m;
          if active \<and> \<not> on_process_launch then returns () m
          else
            do { m \<leftarrow> CloseActiveCheatProcess env m;
                 case env_GetApplicationProcessId env (world m) of
                   None \<Rightarrow> if on_process_launch then None else fails ExternalFailure m
                 | Some pid \<Rightarrow> attach_process env on_process_launch (set_process_id pid m) } }"

definition ForceOpenCheatProcess :: "'m cheat_env \<Rightarrow> ('m, unit) cheat_op" where
  "ForceOpenCheatProcess env = AttachToApplicationProcess env False"

section \<open>The debug events thread\<close>

text \<open>
  What \<^verbatim>\<open>DebugEventsThread\<close> does when the debug handle is signalled: it stands back while the
  process is broken on purpose, continues the process otherwise, and detaches when the
  process has ended. The first component of the result tells whether it keeps waiting on
  the handle.
\<close>

definition DebugEventsThread_round ::
    "'m cheat_env \<Rightarrow> 'm CheatProcessManager \<Rightarrow> (bool \<times> 'm CheatProcessManager) option" where
  "DebugEventsThread_round env m =
     (if m_broken_unsafe (m_process m) then Some (debug_handle m \<noteq> 0, m)
      else
        do { (active, m) \<leftarrow> HasActiveCheatProcess env m;
             if active
             then (case env_ContinueCheatProcess env (world m) (debug_handle m) of
                     (Continued, t) \<Rightarrow> Some (debug_handle m \<noteq> 0, set_world t m)
                   | (ProcessTerminated, t) \<Rightarrow>
                       do { m' \<leftarrow> CloseActiveCheatProcess env (set_world t m); Some (False, m') }
                   | (ContinueFailed, t) \<Rightarrow> None)
             else Some (debug_handle m \<noteq> 0, m) })"

section \<open>The virtual machine thread\<close>

text \<open>The frozen values written back, in map order; the results are ignored.\<close>

definition write_frozen :: "'m debug_svc \<Rightarrow> 'm process_state \<Rightarrow> FrozenAddressMapEntry \<Rightarrow> 'm process_state" where
  "write_frozen svc p e =
     p\<lparr>target := snd (svc_Write svc (target p) (m_cheat_process_debug_handle p)
         (u64_bytes (frz_value (m_value e)) (unat (frz_width (m_value e)))) (m_address e))\<rparr>"

definition apply_frozen :: "'m debug_svc \<Rightarrow> 'm process_state \<Rightarrow> 'm process_state" where
  "apply_frozen svc p = foldl (write_frozen svc) p (m_frozen_addresses_map p)"

text \<open>One round of \<^verbatim>\<open>VirtualMachineThread\<close>; \<open>n\<close> bounds the instructions executed.\<close>

definition VirtualMachineThread_round ::
    "nat \<Rightarrow> 'm cheat_env \<Rightarrow> u64 \<Rightarrow> 'm CheatProcessManager \<Rightarrow> 'm CheatProcessManager outcome" where
  "VirtualMachineThread_round n env kHeld m =
     (case HasActiveCheatProcess env m of
        None \<Rightarrow> Aborted
      | Some (False, m) \<Rightarrow> Finished m
      | Some (True, m) \<Rightarrow>
          (let (ready, vm) = (if m_needs_reload_vm m then LoadProgram (m_cheat_entries m) (m_cheat_vm m)
                              else (True, m_cheat_vm m));
               m = m\<lparr>m_cheat_vm := vm\<rparr>;
               m = (if ready then SetNeedsReloadVm False m else m);
               freeze = (\<lambda>m. with_process_state (apply_frozen (env_svc env)) m)
           in if ready \<and> GetProgramSize vm \<noteq> 0
              then (case Execute n (env_svc env) (m_cheat_process_metadata m) kHeld (vm, m_process m) of
                      Finished (vm', p) \<Rightarrow> Finished (freeze (m\<lparr>m_cheat_vm := vm', m_process := p\<rparr>))
                    | Aborted \<Rightarrow> Aborted
                    | OutOfFuel \<Rightarrow> OutOfFuel)
              else Finished (freeze m)))"

end
