(* ===== verification/Cheat_Manager_Inv.thy ===== *)
theory Cheat_Manager_Inv
  imports Cheat_Manager
begin

text \<open>
  The invariant of the cheat process manager and its preservation by every operation of
  \<open>Cheat_Manager\<close>.
\<close>

section \<open>The invariant\<close>

definition valid_frozen_width :: "u8 \<Rightarrow> bool" where
  "valid_frozen_width w \<longleftrightarrow> w \<in> {1, 2, 4, 8}"

definition frozen_widths :: "FrozenAddressMapEntry list \<Rightarrow> bool" where
  "frozen_widths es \<longleftrightarrow> list_all (\<lambda>e. valid_frozen_width (frz_width (m_value e))) es"

text \<open>The program a machine would run.\<close>

definition loaded_program :: "CheatVirtualMachine \<Rightarrow> u32 list" where
  "loaded_program vm = take (m_num_opcodes vm) (m_program vm)"

text \<open>
  The arrays have their sizes; while attached, every entry is well-formed and carries its
  own id; the frozen map is sorted and its nodes are exactly the heap's units in use;
  while detached, nothing is frozen. The zero-initialised entries of a service that was
  never attached do not carry ids yet. Unless a reload is pending, an attached manager has
  exactly the opcodes of the enabled cheats loaded.
\<close>

definition manager_inv :: "nat set \<Rightarrow> 'm CheatProcessManager \<Rightarrow> bool" where
  "manager_inv units m \<longleftrightarrow>
     length (m_cheat_entries m) = MaxCheatCount \<and>
     (debug_handle m = 0 \<or> entries_wf (m_cheat_entries m)) \<and>
     vm_arrays (m_cheat_vm m) \<and>
     frozen_inv units (g_frozen_address_map_heap m) (frozen m) \<and>
     frozen_widths (frozen m) \<and>
     (debug_handle m = 0 \<longrightarrow> frozen m = []) \<and>
     length (g_text_file_buffer m) = TextBufferSize \<and>
     (m_needs_reload_vm m \<or> debug_handle m = 0 \<or>
      loaded_program (m_cheat_vm m) = enabled_opcodes (m_cheat_entries m))"

lemma frozen_widths_keys:
  assumes "map frozen_key es = map frozen_key fs"
  shows "frozen_widths es \<longleftrightarrow> frozen_widths fs"
proof -
  have "frozen_widths xs \<longleftrightarrow> list_all (\<lambda>k. valid_frozen_width (snd (snd k))) (map frozen_key xs)" for xs
    by (simp add: frozen_widths_def list_all_iff frozen_key_def)
  then show ?thesis
    by (simp only: assms)
qed

text \<open>Changes of the process state that keep the handle and the keys of the frozen map.\<close>

lemma manager_inv_frame:
  assumes "manager_inv units m" "process_frame (m_process m) p"
  shows "manager_inv units (m\<lparr>m_process := p\<rparr>)"
proof -
  have keys: "map frozen_key (m_frozen_addresses_map p) = map frozen_key (frozen m)"
    and h: "m_cheat_process_debug_handle p = debug_handle m"
    using assms(2) by (simp_all add: process_frame_def)
  have "frozen m = [] \<Longrightarrow> m_frozen_addresses_map p = []"
    using keys by simp
  then show ?thesis
    using assms(1) frozen_inv_keys [OF keys] frozen_widths_keys [OF keys] h
    by (auto simp: manager_inv_def)
qed

lemma manager_inv_set_world [simp]: "manager_inv units (set_world t m) = manager_inv units m"
  by (simp add: manager_inv_def set_world_def with_process_state_def)

lemma set_world_simps [simp]:
  "debug_handle (set_world t m) = debug_handle m"
  "frozen (set_world t m) = frozen m"
  "world (set_world t m) = t"
  "m_cheat_entries (set_world t m) = m_cheat_entries m"
  "m_cheat_vm (set_world t m) = m_cheat_vm m"
  "m_cheat_process_metadata (set_world t m) = m_cheat_process_metadata m"
  "g_frozen_address_map_heap (set_world t m) = g_frozen_address_map_heap m"
  "g_text_file_buffer (set_world t m) = g_text_file_buffer m"
  "m_needs_reload_vm (set_world t m) = m_needs_reload_vm m"
  "m_enable_cheats_by_default (set_world t m) = m_enable_cheats_by_default m"
  "m_always_save_cheat_toggles (set_world t m) = m_always_save_cheat_toggles m"
  "m_should_save_cheat_toggles (set_world t m) = m_should_save_cheat_toggles m"
  by (simp_all add: set_world_def with_process_state_def)

lemma manager_inv_unused [simp]:
  "manager_inv units (m\<lparr>m_cheat_process_metadata := md\<rparr>) = manager_inv units m"
  "manager_inv units (m\<lparr>m_should_save_cheat_toggles := b\<rparr>) = manager_inv units m"
  "manager_inv units (m\<lparr>m_cheat_process_event := b\<rparr>) = manager_inv units m"
  "manager_inv units (m\<lparr>m_debug_events_event := b\<rparr>) = manager_inv units m"
  "manager_inv units (set_process_id pid m) = manager_inv units m"
  by (simp_all add: manager_inv_def set_process_id_def)

section \<open>Resetting and detaching\<close>

lemma fold_ResetCheatEntry:
  assumes "n \<le> MaxCheatCount" "length (m_cheat_entries m) = MaxCheatCount"
  shows "fold ResetCheatEntry [0..<n] m =
    m\<lparr>m_cheat_entries := map zero_entry [0..<n] @ drop n (m_cheat_entries m),
      m_needs_reload_vm := (if n = 0 then m_needs_reload_vm m else True)\<rparr>"
  using assms(1)
proof (induction n)
  case (Suc n)
  have "(map zero_entry [0..<n] @ drop n (m_cheat_entries m))[n := zero_entry n] =
      map zero_entry [0..<Suc n] @ drop (Suc n) (m_cheat_entries m)"
    using Suc.prems assms(2) by (simp add: list_update_append Cons_nth_drop_Suc [symmetric])
  moreover have "n < MaxCheatCount"
    using Suc.prems by simp
  ultimately show ?case
    using Suc.IH by (cases m) (simp add: ResetCheatEntry_def SetNeedsReloadVm_def)
qed simp

lemma ResetAllCheatEntries_eq:
  assumes "length (m_cheat_entries m) = MaxCheatCount"
  shows "ResetAllCheatEntries m =
    m\<lparr>m_cheat_entries := map zero_entry [0..<MaxCheatCount], m_needs_reload_vm := True,
      m_cheat_vm := ResetStaticRegisters_vm (m_cheat_vm m)\<rparr>"
  using fold_ResetCheatEntry [OF order_refl assms] assms
  by (simp add: ResetAllCheatEntries_def Let_def MaxCheatCount_def [symmetric])
    (simp add: MaxCheatCount_def)

lemma vm_arrays_ResetStatic [simp]: "vm_arrays vm \<Longrightarrow> vm_arrays (ResetStaticRegisters_vm vm)"
  by (simp add: vm_arrays_def ResetStaticRegisters_vm_def)

lemma manager_inv_ResetAll:
  assumes "manager_inv units m"
  shows "manager_inv units (ResetAllCheatEntries m)"
  using assms entries_wf_cleared
  by (simp add: manager_inv_def ResetAllCheatEntries_eq)

lemma SaveCheatToggles_world: "\<exists>t. SaveCheatToggles env program m = set_world t m"
  by (auto simp: SaveCheatToggles_def Let_def)

text \<open>The state a detached manager is left in.\<close>

definition detached :: "'m CheatProcessManager \<Rightarrow> bool" where
  "detached m \<longleftrightarrow>
     debug_handle m = 0 \<and> frozen m = [] \<and> \<not> m_broken_unsafe (m_process m) \<and>
     m_unsafe_break_event (m_process m) \<and> m_cheat_process_metadata m = zero_metadata \<and>
     m_cheat_entries m = map zero_entry [0..<MaxCheatCount] \<and>
     m_static_registers (m_cheat_vm m) = replicate NumStaticRegisters 0 \<and>
     m_needs_reload_vm m \<and> m_cheat_process_event m"

lemma CloseActive_spec:
  assumes "manager_inv units m" "CloseActiveCheatProcess env m = Some m'"
  shows "manager_inv units m'" "debug_handle m \<noteq> 0 \<Longrightarrow> detached m'" "debug_handle m = 0 \<Longrightarrow> m' = m"
    "debug_handle m' = 0" "frozen m' = []"
proof -
  have "manager_inv units m' \<and> (debug_handle m \<noteq> 0 \<longrightarrow> detached m') \<and> (debug_handle m = 0 \<longrightarrow> m' = m)"
  proof (cases "debug_handle m = 0")
    case True
    with assms show ?thesis
      by (simp add: CloseActiveCheatProcess_def)
  next
    case False
    obtain t where t: "env_CloseHandle env (world m) (debug_handle m) = (True, t)"
      using assms(2) False by (auto simp: CloseActiveCheatProcess_def split: prod.splits if_splits)
    define m1 where "m1 = with_process_state (\<lambda>p. p\<lparr>m_broken_unsafe := False, m_unsafe_break_event := True,
      target := t, m_cheat_process_debug_handle := 0\<rparr>) m"
    define m2 where "m2 = (if m_always_save_cheat_toggles m1 \<or> m_should_save_cheat_toggles m1
      then (SaveCheatToggles env (program_id (m_cheat_process_metadata m1)) m1)\<lparr>m_should_save_cheat_toggles := False\<rparr>
      else m1)"
    have "CloseActiveCheatProcess env m =
        Some ((ClearFrozenAddresses env (ResetAllCheatEntries (m2\<lparr>m_cheat_process_metadata := zero_metadata\<rparr>)))
          \<lparr>m_cheat_process_event := True\<rparr>)"
      using False t by (simp add: CloseActiveCheatProcess_def Let_def m1_def m2_def)
    then have m': "m' = (ClearFrozenAddresses env
        (ResetAllCheatEntries (m2\<lparr>m_cheat_process_metadata := zero_metadata\<rparr>)))
          \<lparr>m_cheat_process_event := True\<rparr>"
      using assms(2) by simp
    obtain t2 b where m2: "m2 = (set_world t2 m1)\<lparr>m_should_save_cheat_toggles := b\<rparr>"
    proof -
      obtain t3 where t3: "SaveCheatToggles env (program_id (m_cheat_process_metadata m1)) m1 = set_world t3 m1"
        using SaveCheatToggles_world [of env _ m1] by blast
      show thesis
      proof (cases "m_always_save_cheat_toggles m1 \<or> m_should_save_cheat_toggles m1")
        case True
        then show thesis
          using that [of False t3] by (simp add: m2_def t3)
      next
        case no: False
        have "m1 = (set_world (world m1) m1)\<lparr>m_should_save_cheat_toggles := m_should_save_cheat_toggles m1\<rparr>"
          by (simp add: set_world_def with_process_state_def)
        then show thesis
          using that [of "m_should_save_cheat_toggles m1" "world m1"] no by (simp add: m2_def)
      qed
    qed
    have inv: "length (m_cheat_entries m) = MaxCheatCount" "vm_arrays (m_cheat_vm m)"
      "frozen_inv units (g_frozen_address_map_heap m) (frozen m)"
      "length (g_text_file_buffer m) = TextBufferSize"
      using assms(1) by (simp_all add: manager_inv_def)
    obtain h where h: "clear_frozen (env_fills env) (frozen m) (g_frozen_address_map_heap m) = ([], h)"
      "frozen_inv units h []"
      using clear_frozen_inv [OF inv(3)] by blast
    show ?thesis
      using inv h False
      by (simp add: m' m2 m1_def set_world_def with_process_state_def ResetAllCheatEntries_eq
          ClearFrozenAddresses_def manager_inv_def detached_def ResetStaticRegisters_vm_def
          vm_arrays_def frozen_widths_def)
  qed
  then show "manager_inv units m'" "debug_handle m \<noteq> 0 \<Longrightarrow> detached m'" "debug_handle m = 0 \<Longrightarrow> m' = m"
    by simp_all
  then show "debug_handle m' = 0" "frozen m' = []"
    using assms(1) by (cases "debug_handle m = 0"; simp add: detached_def manager_inv_def)+
qed

lemma HasActive_spec:
  assumes "manager_inv units m" "HasActiveCheatProcess env m = Some (active, m')"
  shows "manager_inv units m'" "active = process_is_active env m" "active \<Longrightarrow> m' = m"
    "\<not> active \<Longrightarrow> debug_handle m' = 0"
proof -
  have "manager_inv units m' \<and> active = process_is_active env m \<and> (active \<longrightarrow> m' = m) \<and>
      (\<not> active \<longrightarrow> debug_handle m' = 0)"
    using assms CloseActive_spec [OF assms(1)]
    by (auto simp: HasActiveCheatProcess_def bind_eq_Some_conv split: if_splits)
  then show "manager_inv units m'" "active = process_is_active env m" "active \<Longrightarrow> m' = m"
    "\<not> active \<Longrightarrow> debug_handle m' = 0"
    by auto
qed

section \<open>Preservation\<close>

text \<open>An operation that keeps the invariant; a body that does so on an attached manager.\<close>

definition preserves :: "nat set \<Rightarrow> ('m, 'a) cheat_op \<Rightarrow> bool" where
  "preserves units f \<longleftrightarrow> (\<forall>m r m'. manager_inv units m \<longrightarrow> f m = Some (r, m') \<longrightarrow> manager_inv units m')"

lemma preservesI:
  "(\<And>m r m'. manager_inv units m \<Longrightarrow> f m = Some (r, m') \<Longrightarrow> manager_inv units m') \<Longrightarrow> preserves units f"
  by (auto simp: preserves_def)

lemma preservesD: "preserves units f \<Longrightarrow> manager_inv units m \<Longrightarrow> f m = Some (r, m') \<Longrightarrow> manager_inv units m'"
  by (auto simp: preserves_def)

lemma preserves_Ensure:
  assumes "\<And>m r m'. manager_inv units m \<Longrightarrow> debug_handle m \<noteq> 0 \<Longrightarrow> body m = Some (r, m') \<Longrightarrow>
    manager_inv units m'"
  shows "preserves units (EnsureCheatProcess env body)"
proof (rule preservesI)
  fix m r m'
  assume inv: "manager_inv units m" and run: "EnsureCheatProcess env body m = Some (r, m')"
  obtain active m1 where has: "HasActiveCheatProcess env m = Some (active, m1)"
    and rest: "(if active then body m1 else Some (Inl CheatNotAttached, m1)) = Some (r, m')"
    using run by (auto simp: EnsureCheatProcess_def bind_eq_Some_conv)
  note spec = HasActive_spec [OF inv has]
  show "manager_inv units m'"
  proof (cases active)
    case True
    then have "debug_handle m1 \<noteq> 0"
      using spec by (simp add: process_is_active_def)
    then show ?thesis
      using assms [OF spec(1)] rest True by simp
  next
    case False
    with rest spec(1) show ?thesis by simp
  qed
qed


lemmas op_simps = fails_def returns_def SetNeedsReloadVm_def

lemma SetNeedsReloadVm_idem [simp]: "SetNeedsReloadVm b (SetNeedsReloadVm b' m) = SetNeedsReloadVm b m"
  by (simp add: SetNeedsReloadVm_def)

text \<open>Bodies that only look keep the state.\<close>

lemma preserves_query:
  assumes "\<And>m r m'. body m = Some (r, m') \<Longrightarrow> m' = m"
  shows "preserves units (EnsureCheatProcess env body)"
  by (rule preserves_Ensure) (use assms in blast)

lemma preserves_queries [inv_intros]:
  "preserves units (GetCheatProcessMetadata env)"
  "preserves units (ReadCheatProcessMemory env a n)"
  "preserves units (QueryCheatProcessMemory env a)"
  "preserves units (GetCheatProcessMappingCount env)"
  "preserves units (GetCheatProcessMappings env max_count off)"
  "preserves units (GetCheatCount env)"
  "preserves units (GetCheats env max_count off)"
  "preserves units (GetCheatById env cid)"
  "preserves units (ReadStaticRegister env which)"
  "preserves units (GetFrozenAddressCount env)"
  "preserves units (GetFrozenAddresses env max_count off)"
  "preserves units (GetFrozenAddress env a)"
  unfolding GetCheatProcessMetadata_def ReadCheatProcessMemory_def QueryCheatProcessMemory_def
    GetCheatProcessMappingCount_def GetCheatProcessMappings_def GetCheatCount_def GetCheats_def
    GetCheatById_def ReadStaticRegister_def GetFrozenAddressCount_def GetFrozenAddresses_def
    GetFrozenAddress_def
  by (rule preserves_query;
      auto simp: op_simps Let_def bind_eq_Some_conv split: prod.splits option.splits if_splits)+

lemma preserves_HasActive [inv_intros]: "preserves units (GetHasActiveCheatProcess env)"
  by (rule preservesI)
    (auto simp: GetHasActiveCheatProcess_def op_simps bind_eq_Some_conv dest: HasActive_spec)

lemma preserves_ForceClose [inv_intros]: "preserves units (ForceCloseCheatProcess env)"
  by (rule preservesI)
    (auto simp: ForceCloseCheatProcess_def op_simps bind_eq_Some_conv dest: CloseActive_spec)

lemma frame_unsafe:
  "process_frame p (snd (WriteCheatProcessMemoryUnsafe svc p a d))"
  "process_frame p (snd (PauseCheatProcessUnsafe svc p))"
  "process_frame p (snd (ResumeCheatProcessUnsafe svc p))"
  by (auto simp: process_frame_def WriteCheatProcessMemoryUnsafe_def PauseCheatProcessUnsafe_def
      ResumeCheatProcessUnsafe_def Let_def split: prod.splits)

lemma preserves_process [inv_intros]:
  "preserves units (WriteCheatProcessMemory env a d)"
  "preserves units (PauseCheatProcess env)"
  "preserves units (ResumeCheatProcess env)"
  unfolding WriteCheatProcessMemory_def PauseCheatProcess_def ResumeCheatProcess_def
  by (rule preserves_Ensure;
      auto simp: op_simps Let_def split: prod.splits if_splits
        intro!: manager_inv_frame dest: arg_cong [where f = snd] intro: frame_unsafe;
      metis frame_unsafe snd_conv)+

text \<open>Replacing one entry by a well-formed one.\<close>

lemma manager_inv_entry:
  assumes "manager_inv units m" "debug_handle m \<noteq> 0" "wf_entry k e"
  shows "manager_inv units (SetNeedsReloadVm True (m\<lparr>m_cheat_entries := (m_cheat_entries m)[k := e]\<rparr>))"
  using assms by (auto simp: manager_inv_def entries_wf_update SetNeedsReloadVm_def)

lemma manager_entry_wf:
  assumes "manager_inv units m" "debug_handle m \<noteq> 0" "k < MaxCheatCount"
  shows "wf_entry k (m_cheat_entries m ! k)"
  using assms entries_wfD(2) by (auto simp: manager_inv_def)

lemma wf_entry_zero: "wf_entry k (zero_entry k)"
  by (simp add: wf_entry_def zero_entry_def wf_CheatDefinition_def zero_definition_def)

lemma preserves_ToggleCheat [inv_intros]: "preserves units (ToggleCheat env cid)"
  unfolding ToggleCheat_def
proof (rule preserves_Ensure)
  fix m r m'
  assume inv: "manager_inv units m" and h: "debug_handle m \<noteq> 0"
    and run: "(case GetCheatEntryById (unat cid) m of
         None \<Rightarrow> fails CheatUnknownId m
       | Some e \<Rightarrow>
           if \<not> cheat_present e then fails CheatUnknownId m
           else if cid = 0 then fails CheatCannotDisable m
           else returns () (SetNeedsReloadVm True
             (m\<lparr>m_cheat_entries := (m_cheat_entries m)[unat cid := e\<lparr>enabled := \<not> enabled e\<rparr>]\<rparr>))) = Some (r, m')"
  show "manager_inv units m'"
  proof (cases "unat cid < MaxCheatCount")
    case True
    then have "wf_entry (unat cid)
        ((m_cheat_entries m ! unat cid)\<lparr>enabled := \<not> enabled (m_cheat_entries m ! unat cid)\<rparr>)"
      using manager_entry_wf [OF inv h] by (simp add: wf_entry_def)
    from manager_inv_entry [OF inv h this] show ?thesis
      using run True inv by (auto simp: GetCheatEntryById_def fails_def returns_def split: if_splits)
  qed (use run inv in \<open>simp add: GetCheatEntryById_def fails_def\<close>)
qed

text \<open>The array sizes of a definition are part of its type in the interface.\<close>

definition definition_sized :: "CheatDefinition \<Rightarrow> bool" where
  "definition_sized d \<longleftrightarrow>
     length (readable_name d) = ReadableNameSize \<and> length (opcodes d) = CheatOpcodesSize"

lemma preserves_AddCheat [inv_intros]:
  assumes "definition_sized d"
  shows "preserves units (AddCheat env d en)"
  unfolding AddCheat_def
proof (rule preserves_Ensure)
  fix m r m'
  assume inv: "manager_inv units m" and h: "debug_handle m \<noteq> 0"
    and run: "(if num_opcodes d = 0 then fails CheatInvalid m
       else if \<not> unat (num_opcodes d) \<le> CheatOpcodesSize then fails CheatInvalid m
       else (case GetFreeCheatEntry (m_cheat_entries m) of
               None \<Rightarrow> fails CheatOutOfResource m
             | Some k \<Rightarrow>
                 (let e = (m_cheat_entries m ! k)\<lparr>enabled := en, cheat_definition := d\<rparr>
                  in returns (cheat_id e)
                       (SetNeedsReloadVm True (m\<lparr>m_cheat_entries := (m_cheat_entries m)[k := e]\<rparr>))))) =
      Some (r, m')"
  have "manager_inv units (SetNeedsReloadVm True (m\<lparr>m_cheat_entries := (m_cheat_entries m)
      [k := (m_cheat_entries m ! k)\<lparr>enabled := en, cheat_definition := d\<rparr>]\<rparr>))"
    if "GetFreeCheatEntry (m_cheat_entries m) = Some k" "unat (num_opcodes d) \<le> CheatOpcodesSize" for k
  proof (rule manager_inv_entry [OF inv h])
    have "k < MaxCheatCount"
      using first_entry_Some(2) that(1) by (simp add: GetFreeCheatEntry_def)
    then show "wf_entry k ((m_cheat_entries m ! k)\<lparr>enabled := en, cheat_definition := d\<rparr>)"
      using manager_entry_wf [OF inv h] that(2) assms
      by (simp add: wf_entry_def wf_CheatDefinition_def definition_sized_def)
  qed
  then show "manager_inv units m'"
    using run inv by (auto simp: fails_def returns_def Let_def split: if_splits option.splits)
qed

lemma preserves_SetMasterCheat [inv_intros]:
  assumes "definition_sized d"
  shows "preserves units (SetMasterCheat env d)"
  unfolding SetMasterCheat_def
proof (rule preserves_Ensure)
  fix m r m'
  assume inv: "manager_inv units m" and h: "debug_handle m \<noteq> 0"
    and run: "(if num_opcodes d = 0 then fails CheatInvalid m
       else if \<not> unat (num_opcodes d) \<le> CheatOpcodesSize then fails CheatInvalid m
       else returns () (SetNeedsReloadVm True
              (m\<lparr>m_cheat_entries := (m_cheat_entries m)
                   [0 := (m_cheat_entries m ! 0)\<lparr>enabled := True, cheat_definition := d\<rparr>]\<rparr>))) = Some (r, m')"
  have "wf_entry 0 (m_cheat_entries m ! 0)"
    using manager_entry_wf [OF inv h] by (simp add: MaxCheatCount_def)
  then have "manager_inv units (SetNeedsReloadVm True (m\<lparr>m_cheat_entries := (m_cheat_entries m)
      [0 := (m_cheat_entries m ! 0)\<lparr>enabled := True, cheat_definition := d\<rparr>]\<rparr>))"
    if "unat (num_opcodes d) \<le> CheatOpcodesSize"
    using that assms by (intro manager_inv_entry [OF inv h])
      (simp add: wf_entry_def wf_CheatDefinition_def definition_sized_def)
  then show "manager_inv units m'"
    using run inv by (auto simp: fails_def returns_def split: if_splits)
qed

lemma preserves_RemoveCheat [inv_intros]: "preserves units (RemoveCheat env cid)"
  unfolding RemoveCheat_def
  by (rule preserves_Ensure)
    (auto simp: fails_def returns_def ResetCheatEntry_def wf_entry_zero intro!: manager_inv_entry
      split: if_splits)

lemma manager_inv_vm:
  "manager_inv units m \<Longrightarrow> vm_arrays vm \<Longrightarrow> loaded_program vm = loaded_program (m_cheat_vm m) \<Longrightarrow>
   manager_inv units (m\<lparr>m_cheat_vm := vm\<rparr>)"
  by (simp add: manager_inv_def)

lemma manager_vm_arrays: "manager_inv units m \<Longrightarrow> vm_arrays (m_cheat_vm m)"
  by (simp add: manager_inv_def)

lemma vm_arrays_SetStatic [simp]: "vm_arrays vm \<Longrightarrow> vm_arrays (SetStaticRegister k v vm)"
  by (simp add: vm_arrays_def SetStaticRegister_def)

lemma loaded_program_registers [simp]:
  "loaded_program (SetStaticRegister k v vm) = loaded_program vm"
  "loaded_program (ResetStaticRegisters_vm vm) = loaded_program vm"
  by (simp_all add: loaded_program_def SetStaticRegister_def ResetStaticRegisters_vm_def)

lemma preserves_registers [inv_intros]:
  "preserves units (WriteStaticRegister env which v)"
  "preserves units (ResetStaticRegisters env)"
  unfolding WriteStaticRegister_def ResetStaticRegisters_def
  by (rule preserves_Ensure;
      auto simp: fails_def returns_def manager_vm_arrays intro!: manager_inv_vm split: if_splits)+

section \<open>Frozen addresses\<close>

lemma set_frozen_inv:
  assumes "manager_inv units m" "debug_handle m \<noteq> 0" "frozen_inv units h es" "frozen_widths es"
  shows "manager_inv units (set_frozen es (m\<lparr>g_frozen_address_map_heap := h\<rparr>))"
  using assms by (simp add: manager_inv_def set_frozen_def with_process_state_def)

lemma frozen_widths_insert:
  assumes "find_key (m_address e) es = None"
  shows "frozen_widths (insert_entry e es) \<longleftrightarrow>
    valid_frozen_width (frz_width (m_value e)) \<and> frozen_widths es"
  by (simp add: frozen_widths_def list_all_iff insert_entry_nodes(2) [OF assms])

lemma frozen_widths_erase: "frozen_widths es \<Longrightarrow> frozen_widths (erase_key a es)"
proof -
  have "set (erase_key a es) \<subseteq> set es"
    by (induction es) auto
  then show "frozen_widths es \<Longrightarrow> frozen_widths (erase_key a es)"
    by (auto simp: frozen_widths_def list_all_iff)
qed

lemma manager_frozenD:
  assumes "manager_inv units m"
  shows "frozen_inv units (g_frozen_address_map_heap m) (frozen m)" "frozen_widths (frozen m)"
    "frozen_sorted (frozen m)"
  using assms by (simp_all add: manager_inv_def frozen_inv_def)

lemma manager_inv_same_heap [simp]: "m\<lparr>g_frozen_address_map_heap := g_frozen_address_map_heap m\<rparr> = m"
  by simp

lemma preserves_EnableFrozen [inv_intros]:
  assumes "valid_frozen_width (ucast width)"
  shows "preserves units (EnableFrozenAddress env address width)"
  unfolding EnableFrozenAddress_def
proof (rule preserves_Ensure)
  fix m r m'
  assume inv: "manager_inv units m" and h: "debug_handle m \<noteq> 0"
    and run: "(if find_key address (frozen m) \<noteq> None then fails FrozenAddressAlreadyExists m
       else
         (let (ok, bytes) = ReadCheatProcessMemoryUnsafe (env_svc env) (m_process m) address (unat width);
              v = \<lparr>frz_value = overlay_bytes 0 bytes, frz_width = ucast width\<rparr>
          in if \<not> ok then fails ExternalFailure m
             else
               (case AllocateFrozenAddress (env_fills env) address v (g_frozen_address_map_heap m) of
                  (None, h) \<Rightarrow> fails FrozenAddressOutOfResource (m\<lparr>g_frozen_address_map_heap := h\<rparr>)
                | (Some e, h) \<Rightarrow>
                    returns (frz_value v)
                      (set_frozen (insert_entry e (frozen m)) (m\<lparr>g_frozen_address_map_heap := h\<rparr>))))) =
      Some (r, m')"
  let ?read = "ReadCheatProcessMemoryUnsafe (env_svc env) (m_process m) address (unat width)"
  let ?v = "\<lparr>frz_value = overlay_bytes 0 (snd ?read), frz_width = ucast width\<rparr>"
  let ?alloc = "AllocateFrozenAddress (env_fills env) address ?v (g_frozen_address_map_heap m)"
  note fi = manager_frozenD [OF inv]
  show "manager_inv units m'"
  proof (cases "find_key address (frozen m) = None \<and> fst ?read")
    case True
    obtain eo h' where a: "?alloc = (eo, h')"
      by (cases ?alloc)
    show ?thesis
    proof (cases eo)
      case None
      then have "m' = m"
        using freeze_exhausted(1) [OF fi(1), of "env_fills env" address ?v h'] a run True
        by (auto simp: fails_def Let_def split: prod.splits)
      with inv show ?thesis by simp
    next
      case (Some e)
      have free: "find_key address (frozen m) = None"
        using True by simp
      note new = freeze_inv [OF fi(1) free, of "env_fills env" ?v e h', OF a [unfolded Some]]
      have "frozen_widths (insert_entry e (frozen m))"
        using fi(2) assms free new(2,3) by (simp add: frozen_widths_insert)
      then have "manager_inv units (set_frozen (insert_entry e (frozen m)) (m\<lparr>g_frozen_address_map_heap := h'\<rparr>))"
        by (rule set_frozen_inv [OF inv h new(1)])
      then show ?thesis
        using a Some run True by (auto simp: returns_def Let_def split: prod.splits)
    qed
  qed (use run inv in \<open>auto simp: fails_def Let_def split: prod.splits if_splits\<close>)
qed

lemma preserves_DisableFrozen [inv_intros]: "preserves units (DisableFrozenAddress env address)"
  unfolding DisableFrozenAddress_def
proof (rule preserves_Ensure)
  fix m r m'
  assume inv: "manager_inv units m" and h: "debug_handle m \<noteq> 0"
    and run: "(case find_key address (frozen m) of
         None \<Rightarrow> fails FrozenAddressNotFound m
       | Some e \<Rightarrow>
           returns ()
             (set_frozen (erase_key address (frozen m))
               (m\<lparr>g_frozen_address_map_heap :=
                   DeallocateFrozenAddress (env_fills env) e (g_frozen_address_map_heap m)\<rparr>))) = Some (r, m')"
  note fi = manager_frozenD [OF inv]
  show "manager_inv units m'"
    using run inv set_frozen_inv [OF inv h unfreeze_inv [OF fi(1)] frozen_widths_erase [OF fi(2)]]
    by (auto simp: fails_def returns_def split: option.splits)
qed

section \<open>Attaching\<close>

text \<open>
  Loading starts from cleared entries, so it leaves well-formed ones whatever the files
  hold. Until the debug handle is set, nothing is frozen.
\<close>

definition loading_inv :: "nat set \<Rightarrow> 'm CheatProcessManager \<Rightarrow> bool" where
  "loading_inv units m \<longleftrightarrow> manager_inv units m \<and> frozen m = [] \<and> debug_handle m = 0"

lemma read_text_file_length:
  assumes "length buf = TextBufferSize" "read_text_file f buf = (ok, buf')"
  shows "length buf' = TextBufferSize"
  using assms by (auto simp: read_text_file_def Let_def split: option.splits if_splits prod.splits)

lemma first_name_bound: "GetCheatEntryByReadableName name es = Some k \<Longrightarrow> k < MaxCheatCount"
  using first_entry_Some(2) by (simp add: GetCheatEntryByReadableName_def)

lemma apply_toggle_wf:
  assumes "entries_wf es"
  shows "entries_wf (apply_toggle name toggle es)"
proof -
  have "entries_wf (es[k := (es ! k)\<lparr>enabled := b\<rparr>])" if "k < MaxCheatCount" for k b
    using entries_wfD(2) [OF assms that] by (intro entries_wf_update [OF assms]) (simp add: wf_entry_def)
  with assms show ?thesis
    by (auto simp: apply_toggle_def dest: first_name_bound split: option.splits)
qed

lemma ParseCheatToggles_loop_wf:
  assumes "entries_wf es"
  shows "entries_wf (snd (ParseCheatToggles_loop s len i es))"
  using assms
proof (induction s len i es rule: ParseCheatToggles_loop.induct)
  case (1 s len i es)
  show ?case
    using "1.IH" "1.prems" apply_toggle_wf [OF "1.prems"]
    by (subst ParseCheatToggles_loop.simps) (auto simp: Let_def split: option.splits)
qed

lemma LoadCheats_spec:
  assumes "loading_inv units m" "LoadCheats env program mid m = (ok, m')"
  shows "loading_inv units m'" "entries_wf (m_cheat_entries m')" "m_needs_reload_vm m'"
proof -
  let ?m = "ResetAllCheatEntries m"
  have inv: "loading_inv units ?m" and cleared: "m_cheat_entries ?m = map zero_entry [0..<MaxCheatCount]"
    and h: "m_needs_reload_vm ?m"
    using assms(1) manager_inv_ResetAll [of units m]
    by (auto simp: loading_inv_def ResetAllCheatEntries_eq manager_inv_def)
  have "entries_wf (m_cheat_entries ?m)"
    by (simp add: cleared entries_wf_cleared)
  then have parsed: "entries_wf (snd (ParseCheats en s len (m_cheat_entries ?m)))" for en s len
    using ParseCheats_loop_wf [of "m_cheat_entries ?m" None s len 0] enable_parsed_wf
    by (auto simp: ParseCheats_def split: prod.splits bool.splits)
  have step: "loading_inv units (?m\<lparr>g_text_file_buffer := buf, m_cheat_entries := es\<rparr>)"
    if "length buf = TextBufferSize" "entries_wf es" for buf es
    using inv that entries_wfD(1) by (auto simp: loading_inv_def manager_inv_def)
  have keep: "?m\<lparr>g_text_file_buffer := buf\<rparr> = ?m\<lparr>g_text_file_buffer := buf, m_cheat_entries := m_cheat_entries ?m\<rparr>" for buf
    by simp
  have len: "length (g_text_file_buffer ?m) = TextBufferSize"
    using inv by (simp add: loading_inv_def manager_inv_def)
  have "loading_inv units m' \<and> entries_wf (m_cheat_entries m') \<and> m_needs_reload_vm m'"
  proof (cases "env_OpenRead env (world ?m) (cheats_path program mid)")
    case None
    then show ?thesis
      using assms(2) inv h \<open>entries_wf (m_cheat_entries ?m)\<close> by (auto simp: LoadCheats_def Let_def)
  next
    case (Some f)
    obtain okf buf where f: "read_text_file f (g_text_file_buffer ?m) = (okf, buf)"
      by (cases "read_text_file f (g_text_file_buffer ?m)")
    note blen = read_text_file_length [OF len f]
    obtain p es where pe: "ParseCheats (m_enable_cheats_by_default ?m) buf (length (c_string buf))
        (m_cheat_entries ?m) = (p, es)"
      by (cases "ParseCheats (m_enable_cheats_by_default ?m) buf (length (c_string buf)) (m_cheat_entries ?m)")
    have wf: "entries_wf es"
      using parsed [of "m_enable_cheats_by_default ?m" buf "length (c_string buf)"] pe by simp
    have "m' = (if okf then ?m\<lparr>g_text_file_buffer := buf, m_cheat_entries := es\<rparr>
        else ?m\<lparr>g_text_file_buffer := buf\<rparr>)"
      using assms(2) Some f pe by (auto simp: LoadCheats_def Let_def split: if_splits)
    then show ?thesis
      using step [OF blen wf] step [OF blen \<open>entries_wf (m_cheat_entries ?m)\<close>] keep wf h
        \<open>entries_wf (m_cheat_entries ?m)\<close> by (simp split: if_splits)
  qed
  then show "loading_inv units m'" "entries_wf (m_cheat_entries m')" "m_needs_reload_vm m'"
    by simp_all
qed

lemma LoadCheatToggles_spec:
  assumes "loading_inv units m" "entries_wf (m_cheat_entries m)" "LoadCheatToggles env program m = (ok, m')"
  shows "loading_inv units m'" "entries_wf (m_cheat_entries m')" "m_needs_reload_vm m' = m_needs_reload_vm m"
proof -
  have step: "loading_inv units (m\<lparr>m_should_save_cheat_toggles := b, g_text_file_buffer := buf, m_cheat_entries := es\<rparr>)"
    if "length buf = TextBufferSize" "entries_wf es" for buf es b
    using assms(1) that entries_wfD(1) by (auto simp: loading_inv_def manager_inv_def)
  have len: "length (g_text_file_buffer m) = TextBufferSize"
    using assms(1) by (simp add: loading_inv_def manager_inv_def)
  have parsed: "entries_wf (snd (ParseCheatToggles s len (m_cheat_entries m)))" for s len
    using ParseCheatToggles_loop_wf [OF assms(2)] by (simp add: ParseCheatToggles_def)
  have "\<exists>b buf es. length buf = TextBufferSize \<and> entries_wf es \<and>
      m' = m\<lparr>m_should_save_cheat_toggles := b, g_text_file_buffer := buf, m_cheat_entries := es\<rparr>"
  proof (cases "env_OpenRead env (world m) (toggles_path program)")
    case None
    then have "m' = m\<lparr>m_should_save_cheat_toggles := False, g_text_file_buffer := g_text_file_buffer m,
        m_cheat_entries := m_cheat_entries m\<rparr>"
      using assms(3) by (cases m) (auto simp: LoadCheatToggles_def Let_def)
    with len assms(2) show ?thesis by blast
  next
    case (Some f)
    obtain okf buf where f: "read_text_file f (g_text_file_buffer m) = (okf, buf)"
      by (cases "read_text_file f (g_text_file_buffer m)")
    obtain p es where pe: "ParseCheatToggles buf (length (c_string buf)) (m_cheat_entries m) = (p, es)"
      by (cases "ParseCheatToggles buf (length (c_string buf)) (m_cheat_entries m)")
    have "m' = (if okf then m\<lparr>m_should_save_cheat_toggles := p, g_text_file_buffer := buf, m_cheat_entries := es\<rparr>
        else m\<lparr>m_should_save_cheat_toggles := False, g_text_file_buffer := buf, m_cheat_entries := m_cheat_entries m\<rparr>)"
      using assms(3) Some f pe by (cases m) (auto simp: LoadCheatToggles_def Let_def split: if_splits)
    moreover have "entries_wf es"
      using parsed [of buf "length (c_string buf)"] pe by simp
    ultimately show ?thesis
      using read_text_file_length [OF len f] assms(2)
      by (cases okf) (simp only: if_True if_False simp_thms, blast)+
  qed
  then show "loading_inv units m'" "entries_wf (m_cheat_entries m')"
    "m_needs_reload_vm m' = m_needs_reload_vm m"
    using step by auto
qed

lemma StartProcess_world:
  assumes "StartProcess env m = Some m'"
  shows "\<exists>t. m' = set_world t m"
  using assms by (auto simp: StartProcess_def Let_def split: prod.splits if_splits)

lemma attach_error_inv:
  assumes "attach_error env launch err m = Some (r, m')" "manager_inv units m"
  shows "manager_inv units m'" "r = Inl err"
  using assms
  by (auto simp: attach_error_def fails_def bind_eq_Some_conv dest!: StartProcess_world split: if_splits)

lemma attach_failure_inv:
  assumes "attach_failure env launch m = Some (r, m')" "manager_inv units m"
  shows "manager_inv units m'" "r \<noteq> Inr x"
  using assms by (auto simp: attach_failure_def split: if_splits dest: attach_error_inv)

lemma attach_open_inv:
  assumes "attach_open env launch m = Some (r, m')" "loading_inv units m" "entries_wf (m_cheat_entries m)"
    "m_needs_reload_vm m"
  shows "manager_inv units m'"
proof -
  obtain ho t where d: "env_DebugActiveProcess env (world m) (process_id (m_cheat_process_metadata m)) = (ho, t)"
    by (cases "env_DebugActiveProcess env (world m) (process_id (m_cheat_process_metadata m))")
  show ?thesis
  proof (cases ho)
    case None
    then show ?thesis
      using assms(1,2) d attach_failure_inv(1) [of env launch "set_world t m" r m' units]
      by (simp add: attach_open_def loading_inv_def)
  next
    case (Some h)
    let ?m = "with_process_state (\<lambda>p. p\<lparr>target := t, m_cheat_process_debug_handle := h,
                           m_broken_unsafe := False, m_unsafe_break_event := True\<rparr>) m"
    have "manager_inv units ?m"
      using assms(2-4) by (auto simp: loading_inv_def manager_inv_def with_process_state_def)
    then show ?thesis
      using assms(1) d Some
      by (auto simp: attach_open_def returns_def Let_def bind_eq_Some_conv dest!: StartProcess_world split: if_splits)
  qed
qed

lemma attach_load_inv:
  assumes "attach_load env launch m = Some (r, m')" "loading_inv units m"
  shows "manager_inv units m'"
proof -
  let ?program = "program_id (m_cheat_process_metadata m)"
  obtain c m1 where c: "LoadCheats env ?program (main_nso_module_id (m_cheat_process_metadata m)) m = (c, m1)"
    by (cases "LoadCheats env ?program (main_nso_module_id (m_cheat_process_metadata m)) m")
  obtain l m2 where l: "(if c then LoadCheatToggles env ?program m1 else (False, m1)) = (l, m2)"
    by (cases "if c then LoadCheatToggles env ?program m1 else (False, m1)")
  note s1 = LoadCheats_spec [OF assms(2) c]
  have s2: "loading_inv units m2" "entries_wf (m_cheat_entries m2)" "m_needs_reload_vm m2"
    using s1 l LoadCheatToggles_spec [OF s1(1,2), of env ?program l m2] by (auto split: if_splits)
  have run: "(if \<not> l \<and> launch then attach_error env launch CheatNotAttached m2
      else attach_open env launch m2) = Some (r, m')"
    using assms(1) c l by (simp add: attach_load_def Let_def)
  show ?thesis
    using run s2 attach_open_inv [of env launch m2 r m' units]
      attach_error_inv(1) [of env launch CheatNotAttached m2 r m' units]
    by (auto simp: loading_inv_def split: if_splits)
qed

lemma loading_inv_metadata [simp]:
  "loading_inv units (m\<lparr>m_cheat_process_metadata := md\<rparr>) = loading_inv units m"
  "loading_inv units (set_process_id pid m) = loading_inv units m"
  by (simp_all add: loading_inv_def set_process_id_def)

lemma attach_modules_inv:
  assumes "attach_modules env launch m = Some (r, m')" "loading_inv units m"
  shows "manager_inv units m'"
  using assms
  by (auto simp: attach_modules_def Let_def loading_inv_def dest: attach_failure_inv(1) attach_error_inv(1)
      split: option.splits if_splits intro: attach_load_inv [where units = units])

lemma attach_process_inv:
  assumes "attach_process env launch m = Some (r, m')" "loading_inv units m"
  shows "manager_inv units m'"
proof -
  have inv: "manager_inv units m"
    using assms(2) by (simp add: loading_inv_def)
  have fail: "manager_inv units m'" if "attach_failure env launch m = Some (r, m')"
    using attach_failure_inv(1) [OF that inv] .
  have err: "manager_inv units m'" if "attach_error env launch e (m\<lparr>m_cheat_process_metadata := md\<rparr>) = Some (r, m')" for e md
    using attach_error_inv(1) [OF that, of units] inv by simp
  have mods: "manager_inv units m'" if "attach_modules env launch (m\<lparr>m_cheat_process_metadata := md\<rparr>) = Some (r, m')" for md
    using attach_modules_inv [OF that, of units] assms(2) by simp
  show ?thesis
    using assms(1) fail err mods
    by (auto simp: attach_process_def Let_def bind_eq_Some_conv split: option.splits if_splits)
qed

lemma preserves_Attach [inv_intros]: "preserves units (AttachToApplicationProcess env launch)"
proof (rule preservesI)
  fix m r m'
  assume inv: "manager_inv units m" and run: "AttachToApplicationProcess env launch m = Some (r, m')"
  obtain active m1 where has: "HasActiveCheatProcess env m = Some (active, m1)"
    using run by (auto simp: AttachToApplicationProcess_def bind_eq_Some_conv)
  note inv1 = HasActive_spec(1) [OF inv has]
  show "manager_inv units m'"
  proof (cases "active \<and> \<not> launch")
    case True
    then show ?thesis
      using run has inv1 by (simp add: AttachToApplicationProcess_def returns_def)
  next
    case False
    then obtain m2 where close: "CloseActiveCheatProcess env m1 = Some m2"
      and rest: "(case env_GetApplicationProcessId env (world m2) of
         None \<Rightarrow> if launch then None else fails ExternalFailure m2
       | Some pid \<Rightarrow> attach_process env launch (set_process_id pid m2)) = Some (r, m')"
      using run has by (auto simp: AttachToApplicationProcess_def bind_eq_Some_conv)
    note inv2 = CloseActive_spec [OF inv1 close]
    show ?thesis
      using rest inv2 attach_process_inv [of env launch _ r m' units]
      by (auto simp: fails_def loading_inv_def set_process_id_def split: option.splits if_splits)
  qed
qed

lemma preserves_ForceOpen [inv_intros]: "preserves units (ForceOpenCheatProcess env)"
  unfolding ForceOpenCheatProcess_def by (rule preserves_Attach)

section \<open>The threads\<close>

lemma Execute_frame:
  assumes "vm_arrays vm" "Execute n svc md kHeld (vm, p) = Finished (vm', p')"
  shows "vm_arrays vm'" "process_frame p p'" "loaded_program vm' = loaded_program vm"
proof -
  obtain s1 where s1: "vm_steps svc md kHeld (ResetState vm, p) s1"
    "DecodeNextOpcode (fst s1) = (None, vm')" "p' = snd s1"
    using ExecuteLoop_steps [of n svc md kHeld "(ResetState vm, p)" "(vm', p')"] assms(2)
    by (auto simp: Execute_def)
  have inv: "vm_inv (fst s1)" "process_frame p (snd s1)" "m_program (fst s1) = m_program vm"
    "m_num_opcodes (fst s1) = m_num_opcodes vm"
    using vm_steps_invariant [OF s1(1)] ResetState_inv [OF assms(1)] by (simp_all add: ResetState_def)
  show "process_frame p p'"
    using inv(2) s1(3) by simp
  show "vm_arrays vm'"
    using DecodeNextOpcode_inv [OF inv(1) s1(2)] by (simp add: vm_inv_def)
  show "loaded_program vm' = loaded_program vm"
    using DecodeNextOpcode_program [OF s1(2)] inv(3,4) by (simp add: loaded_program_def)
qed

lemma LoadProgram_arrays:
  assumes "vm_arrays vm" "LoadProgram es vm = (ok, vm')"
  shows "vm_arrays vm'" "ok \<Longrightarrow> loaded_program vm' = enabled_opcodes es" "\<not> ok \<Longrightarrow> loaded_program vm' = []"
proof -
  have load: "load_result (vm\<lparr>m_num_opcodes := 0\<rparr>) (enabled_opcodes es) ok vm'"
    using LoadProgram_loop_effect [OF _ _ assms(2) [unfolded LoadProgram_def]] assms(1)
    by (simp add: vm_arrays_def)
  then have "same_but_program (vm\<lparr>m_num_opcodes := 0\<rparr>) vm'"
    by (simp add: load_result_def)
  then obtain P N where vm': "vm' = vm\<lparr>m_program := P, m_num_opcodes := N\<rparr>"
    unfolding same_but_program_def by simp
  have "length P = MaximumProgramOpcodeCount" "N \<le> MaximumProgramOpcodeCount"
    using load by (auto simp: load_result_def vm' split: if_splits)
  then show "vm_arrays vm'"
    using assms(1) by (simp add: vm' vm_arrays_def)
  show "ok \<Longrightarrow> loaded_program vm' = enabled_opcodes es" "\<not> ok \<Longrightarrow> loaded_program vm' = []"
    using load by (auto simp: load_result_def loaded_program_def)
qed

lemma apply_frozen_frame: "process_frame p (apply_frozen svc p)"
proof -
  have "process_frame p (foldl (write_frozen svc) p es)" for es
  proof (induction es rule: rev_induct)
    case (snoc e es)
    then show ?case
      by (simp add: process_frame_def write_frozen_def)
  qed simp
  then show ?thesis
    by (simp add: apply_frozen_def)
qed

lemma VirtualMachineThread_round_inv:
  assumes "manager_inv units m" "VirtualMachineThread_round n env kHeld m = Finished m'"
  shows "manager_inv units m'"
proof -
  obtain active m1 where has: "HasActiveCheatProcess env m = Some (active, m1)"
    using assms(2) by (auto simp: VirtualMachineThread_round_def split: option.splits)
  note inv1 = HasActive_spec(1) [OF assms(1) has]
  obtain ready vm where load: "(if m_needs_reload_vm m1 then LoadProgram (m_cheat_entries m1) (m_cheat_vm m1)
      else (True, m_cheat_vm m1)) = (ready, vm)"
    by (cases "if m_needs_reload_vm m1 then LoadProgram (m_cheat_entries m1) (m_cheat_vm m1)
      else (True, m_cheat_vm m1)")
  have vm: "vm_arrays vm"
    using load LoadProgram_arrays(1) [OF manager_vm_arrays [OF inv1]] manager_vm_arrays [OF inv1]
    by (auto split: if_splits)
  define m2 where "m2 = (if ready then SetNeedsReloadVm False (m1\<lparr>m_cheat_vm := vm\<rparr>) else m1\<lparr>m_cheat_vm := vm\<rparr>)"
  have inv2: "manager_inv units m2"
    using inv1 vm load LoadProgram_arrays(2) [OF manager_vm_arrays [OF inv1], of "m_cheat_entries m1" ready vm]
    by (auto simp: m2_def manager_inv_def SetNeedsReloadVm_def split: if_splits)
  have vm2: "m_cheat_vm m2 = vm"
    by (simp add: m2_def SetNeedsReloadVm_def)
  have freeze: "manager_inv units (with_process_state (apply_frozen svc) x)" if "manager_inv units x" for svc x
    using manager_inv_frame [OF that apply_frozen_frame] by (simp add: with_process_state_def)
  have exec: "manager_inv units (m2\<lparr>m_cheat_vm := vm', m_process := p\<rparr>)"
    if "Execute n (env_svc env) (m_cheat_process_metadata m2) kHeld (vm, m_process m2) = Finished (vm', p)" for vm' p
    using manager_inv_frame [OF manager_inv_vm [OF inv2 Execute_frame(1) [OF vm that]], of p]
      Execute_frame(2,3) [OF vm that] vm2 by simp
  show ?thesis
  proof (cases active)
    case False
    then show ?thesis
      using assms(2) has inv1 by (simp add: VirtualMachineThread_round_def)
  next
    case True
    let ?freeze = "with_process_state (apply_frozen (env_svc env))"
    have "VirtualMachineThread_round n env kHeld m =
        (if ready \<and> GetProgramSize vm \<noteq> 0
         then (case Execute n (env_svc env) (m_cheat_process_metadata m2) kHeld (vm, m_process m2) of
                 Finished (vm', p) \<Rightarrow> Finished (?freeze (m2\<lparr>m_cheat_vm := vm', m_process := p\<rparr>))
               | Aborted \<Rightarrow> Aborted | OutOfFuel \<Rightarrow> OutOfFuel)
         else Finished (?freeze m2))"
      unfolding VirtualMachineThread_round_def m2_def using has True load
      by (cases ready) (simp_all add: Let_def)
    then show ?thesis
      using assms(2) freeze [OF exec] freeze [OF inv2] by (auto split: if_splits outcome.splits)
  qed
qed

lemma DebugEventsThread_round_inv:
  assumes "manager_inv units m" "DebugEventsThread_round env m = Some (b, m')"
  shows "manager_inv units m'"
proof (cases "m_broken_unsafe (m_process m)")
  case True
  with assms show ?thesis by (simp add: DebugEventsThread_round_def)
next
  case False
  then obtain active m1 where has: "HasActiveCheatProcess env m = Some (active, m1)"
    using assms(2) by (auto simp: DebugEventsThread_round_def bind_eq_Some_conv)
  note inv1 = HasActive_spec(1) [OF assms(1) has]
  have close: "manager_inv units m'" if "CloseActiveCheatProcess env (set_world t m1) = Some m'" for t
    using CloseActive_spec(1) [OF _ that] inv1 by simp
  show ?thesis
    using assms(2) has False inv1 close
    by (auto simp: DebugEventsThread_round_def bind_eq_Some_conv
        split: if_splits prod.splits continue_result.splits)
qed

end
