(* ===== verification/Cheat_Service.thy ===== *)
theory Cheat_Service
  imports Cheat_Manager_Inv
begin

text \<open>
  The cheat service as its clients see it: start-up (\<^verbatim>\<open>InitializeCheatManager\<close>), the commands of
  \<^verbatim>\<open>CheatService\<close> (\<^verbatim>\<open>dmnt_cheat_service.cpp\<close>) with their argument checks, and the interleaving
  of commands with the service's own threads and with everything outside it.
\<close>

section \<open>Start-up\<close>

definition CreateOption_ThreadSafe :: u8 where
  "CreateOption_ThreadSafe = 4"

definition DefaultAlignment :: nat where
  "DefaultAlignment = 8"

definition MaxFrozenAddressCount :: nat where
  "MaxFrozenAddressCount = 0x80"

text \<open>
  \<open>head_size\<close> and \<open>entry_size\<close> stand for \<^verbatim>\<open>sizeof\<close> of the heap head and of a map entry, \<open>address\<close>
  for the address of \<^verbatim>\<open>g_frozen_address_map_memory\<close>, and the two settings for what
  \<^verbatim>\<open>GetSettingsItemValue\<close> yields, \<open>None\<close> when it has no byte for the key.
\<close>

definition InitializeCheatManager ::
    "nat \<Rightarrow> nat \<Rightarrow> nat \<Rightarrow> (nat \<Rightarrow> nat) \<Rightarrow> u8 option \<Rightarrow> u8 option \<Rightarrow> 'm \<Rightarrow> 'm CheatProcessManager option" where
  "InitializeCheatManager head_size entry_size address mem by_default always_save t =
     (case CreateUnitHeap head_size address (entry_size * MaxFrozenAddressCount) entry_size DefaultAlignment
             CreateOption_ThreadSafe InfoPlacement_Head None mem of
        None \<Rightarrow> None
      | Some h \<Rightarrow>
          Some \<lparr>m_process = \<lparr>target = t, m_cheat_process_debug_handle = 0, m_broken_unsafe = False,
                  m_unsafe_break_event = False, m_frozen_addresses_map = [], debug_log_calls = []\<rparr>,
                m_debug_events_event = False, m_cheat_process_event = False,
                m_cheat_process_metadata = zero_metadata, m_needs_reload_vm = False,
                m_cheat_vm = zeroed_vm [],
                m_enable_cheats_by_default = (case by_default of None \<Rightarrow> True | Some en \<Rightarrow> en \<noteq> 0),
                m_always_save_cheat_toggles = (case always_save of None \<Rightarrow> False | Some en \<Rightarrow> en \<noteq> 0),
                m_should_save_cheat_toggles = False,
                m_cheat_entries = replicate MaxCheatCount (zero_entry 0),
                g_frozen_address_map_heap = h,
                g_text_file_buffer = replicate TextBufferSize NUL\<rparr>)"

section \<open>Commands\<close>

text \<open>Buffers are \<open>None\<close> when the client passed a null pointer.\<close>

datatype command =
    HasCheatProcessCmd | GetCheatProcessMetadataCmd | ForceOpenCheatProcessCmd
  | PauseCheatProcessCmd | ResumeCheatProcessCmd | ForceCloseCheatProcessCmd
  | GetCheatProcessMappingCountCmd | GetCheatProcessMappingsCmd "nat option" u64
  | ReadCheatProcessMemoryCmd "nat option" u64 u64
  | WriteCheatProcessMemoryCmd "u8 list option" u64 u64
  | QueryCheatProcessMemoryCmd u64
  | GetCheatCountCmd | GetCheatsCmd "nat option" u64 | GetCheatByIdCmd u32 | ToggleCheatCmd u32
  | AddCheatCmd CheatDefinition bool | RemoveCheatCmd u32
  | ReadStaticRegisterCmd u8 | WriteStaticRegisterCmd u8 u64 | ResetStaticRegistersCmd
  | SetMasterCheatCmd CheatDefinition
  | GetFrozenAddressCountCmd | GetFrozenAddressesCmd "nat option" u64 | GetFrozenAddressCmd u64
  | EnableFrozenAddressCmd u64 u64 | DisableFrozenAddressCmd u64

datatype reply = NoReply | BoolReply bool | CountReply nat | WordReply u64 | IdReply u32
  | MetadataReply CheatProcessMetadata | BytesReply "u8 list" | MappingReply MemoryInfo
  | MappingsReply "MemoryInfo list" | CheatReply CheatEntry | CheatsReply "CheatEntry list"
  | FrozenReply "u64 \<times> FrozenAddressValue" | FrozensReply "(u64 \<times> FrozenAddressValue) list"

definition replying :: "('a \<Rightarrow> reply) \<Rightarrow> ('m, 'a) cheat_op \<Rightarrow> ('m, reply) cheat_op" where
  "replying f op m = map_option (map_prod (map_sum (\<lambda>e. e) f) (\<lambda>m. m)) (op m)"

text \<open>\<^verbatim>\<open>ForceOpenCheatProcess\<close> of the service reports every failure as \<^verbatim>\<open>ResultCheatNotAttached\<close>.\<close>

definition ForceOpen_service :: "'m cheat_env \<Rightarrow> ('m, unit) cheat_op" where
  "ForceOpen_service env m =
     map_option (map_prod (map_sum (\<lambda>_. CheatNotAttached) (\<lambda>u. u)) (\<lambda>m. m)) (ForceOpenCheatProcess env m)"

definition EnableFrozenAddress_service :: "'m cheat_env \<Rightarrow> u64 \<Rightarrow> u64 \<Rightarrow> ('m, u64) cheat_op" where
  "EnableFrozenAddress_service env address width =
     (if \<not> 0 < width then fails FrozenAddressInvalidWidth
      else if \<not> width \<le> 8 then fails FrozenAddressInvalidWidth
      else if width AND (width - 1) \<noteq> 0 then fails FrozenAddressInvalidWidth
      else EnableFrozenAddress env address width)"

definition with_buffer :: "('b \<Rightarrow> ('m, 'a) cheat_op) \<Rightarrow> 'b option \<Rightarrow> ('m, 'a) cheat_op" where
  "with_buffer f buffer = (case buffer of None \<Rightarrow> fails CheatNullBuffer | Some b \<Rightarrow> f b)"

fun CheatService :: "'m cheat_env \<Rightarrow> command \<Rightarrow> ('m, reply) cheat_op" where
  "CheatService env HasCheatProcessCmd = replying BoolReply (GetHasActiveCheatProcess env)"
| "CheatService env GetCheatProcessMetadataCmd = replying MetadataReply (GetCheatProcessMetadata env)"
| "CheatService env ForceOpenCheatProcessCmd = replying (\<lambda>_. NoReply) (ForceOpen_service env)"
| "CheatService env PauseCheatProcessCmd = replying (\<lambda>_. NoReply) (PauseCheatProcess env)"
| "CheatService env ResumeCheatProcessCmd = replying (\<lambda>_. NoReply) (ResumeCheatProcess env)"
| "CheatService env ForceCloseCheatProcessCmd = replying (\<lambda>_. NoReply) (ForceCloseCheatProcess env)"
| "CheatService env GetCheatProcessMappingCountCmd = replying WordReply (GetCheatProcessMappingCount env)"
| "CheatService env (GetCheatProcessMappingsCmd buffer offset) =
     replying MappingsReply (with_buffer (\<lambda>n. GetCheatProcessMappings env n offset) buffer)"
| "CheatService env (ReadCheatProcessMemoryCmd buffer address out_size) =
     replying BytesReply
       (with_buffer (\<lambda>n. ReadCheatProcessMemory env address (min (unat out_size) n)) buffer)"
| "CheatService env (WriteCheatProcessMemoryCmd buffer address in_size) =
     replying (\<lambda>_. NoReply)
       (with_buffer (\<lambda>data. WriteCheatProcessMemory env address (take (unat in_size) data)) buffer)"
| "CheatService env (QueryCheatProcessMemoryCmd address) =
     replying MappingReply (QueryCheatProcessMemory env address)"
| "CheatService env GetCheatCountCmd = replying CountReply (GetCheatCount env)"
| "CheatService env (GetCheatsCmd buffer offset) =
     replying CheatsReply (with_buffer (\<lambda>n. GetCheats env n offset) buffer)"
| "CheatService env (GetCheatByIdCmd cid) = replying CheatReply (GetCheatById env cid)"
| "CheatService env (ToggleCheatCmd cid) = replying (\<lambda>_. NoReply) (ToggleCheat env cid)"
| "CheatService env (AddCheatCmd d en) = replying IdReply (AddCheat env d en)"
| "CheatService env (RemoveCheatCmd cid) = replying (\<lambda>_. NoReply) (RemoveCheat env cid)"
| "CheatService env (ReadStaticRegisterCmd which) = replying WordReply (ReadStaticRegister env (unat which))"
| "CheatService env (WriteStaticRegisterCmd which v) =
     replying (\<lambda>_. NoReply) (WriteStaticRegister env (unat which) v)"
| "CheatService env ResetStaticRegistersCmd = replying (\<lambda>_. NoReply) (ResetStaticRegisters env)"
| "CheatService env (SetMasterCheatCmd d) = replying (\<lambda>_. NoReply) (SetMasterCheat env d)"
| "CheatService env GetFrozenAddressCountCmd = replying CountReply (GetFrozenAddressCount env)"
| "CheatService env (GetFrozenAddressesCmd buffer offset) =
     replying FrozensReply (with_buffer (\<lambda>n. GetFrozenAddresses env n offset) buffer)"
| "CheatService env (GetFrozenAddressCmd address) = replying FrozenReply (GetFrozenAddress env address)"
| "CheatService env (EnableFrozenAddressCmd address width) =
     replying WordReply (EnableFrozenAddress_service env address width)"
| "CheatService env (DisableFrozenAddressCmd address) =
     replying (\<lambda>_. NoReply) (DisableFrozenAddress env address)"

text \<open>The definitions in a request have the array sizes of their type.\<close>

fun command_sized :: "command \<Rightarrow> bool" where
  "command_sized (AddCheatCmd d en) = definition_sized d"
| "command_sized (SetMasterCheatCmd d) = definition_sized d"
| "command_sized _ = True"

section \<open>Runs of the service\<close>

text \<open>
  The states reached by any interleaving of client commands, launches seen by
  \<^verbatim>\<open>DetectLaunchThread\<close>, rounds of the two other threads, and arbitrary changes of the world
  outside the service.
\<close>

inductive service_run :: "'m cheat_env \<Rightarrow> 'm CheatProcessManager \<Rightarrow> 'm CheatProcessManager \<Rightarrow> bool"
  for env m0 where
  start: "service_run env m0 m0"
| request: "service_run env m0 m \<Longrightarrow> command_sized c \<Longrightarrow> CheatService env c m = Some (r, m') \<Longrightarrow>
    service_run env m0 m'"
| launch: "service_run env m0 m \<Longrightarrow> AttachToApplicationProcess env True m = Some (r, m') \<Longrightarrow>
    service_run env m0 m'"
| vm_round: "service_run env m0 m \<Longrightarrow> VirtualMachineThread_round n env kHeld m = Finished m' \<Longrightarrow>
    service_run env m0 m'"
| debug_round: "service_run env m0 m \<Longrightarrow> DebugEventsThread_round env m = Some (b, m') \<Longrightarrow>
    service_run env m0 m'"
| outside: "service_run env m0 m \<Longrightarrow> service_run env m0 (set_world t m)"

lemma preserves_replying: "preserves units op \<Longrightarrow> preserves units (replying f op)"
  by (auto simp: preserves_def replying_def)

lemma preserves_ForceOpen_service: "preserves units (ForceOpen_service env)"
  using preserves_ForceOpen [of units env] by (auto simp: preserves_def ForceOpen_service_def)

lemma valid_frozen_widthI:
  fixes width :: u64
  assumes "0 < width" "width \<le> 8" "width AND (width - 1) = 0"
  shows "width \<in> {1, 2, 4, 8}" "valid_frozen_width (ucast width)"
proof -
  have "unat width \<le> 8" "unat width \<noteq> 0"
    using assms by (simp_all add: word_le_nat_alt unat_gt_0)
  then obtain n where "width = of_nat n" "n \<in> {1, 2, 3, 4, 5, 6, 7, 8}"
    by (intro that [of "unat width"]) auto
  then have "width \<in> {1, 2, 3, 4, 5, 6, 7, 8}"
    by auto
  then show "width \<in> {1, 2, 4, 8}"
    using assms(3) by auto
  then show "valid_frozen_width (ucast width)"
    by (auto simp: valid_frozen_width_def)
qed

lemma preserves_fails [simp]: "preserves units (fails e)"
  by (auto simp: preserves_def fails_def)

lemma preserves_EnableFrozen_service: "preserves units (EnableFrozenAddress_service env address width)"
  using preserves_EnableFrozen [OF valid_frozen_widthI(2)] by (auto simp: EnableFrozenAddress_service_def)

lemma preserves_with_buffer: "(\<And>b. preserves units (f b)) \<Longrightarrow> preserves units (with_buffer f buffer)"
  by (auto simp: with_buffer_def split: option.splits)

lemma preserves_CheatService:
  assumes "command_sized c"
  shows "preserves units (CheatService env c)"
  using assms
  by (cases c)
    (simp_all add: preserves_replying preserves_with_buffer preserves_ForceOpen_service
      preserves_EnableFrozen_service inv_intros)

lemma service_run_inv:
  assumes "service_run env m0 m" "manager_inv units m0"
  shows "manager_inv units m"
  using assms
  by (induction rule: service_run.induct)
    (auto intro: VirtualMachineThread_round_inv DebugEventsThread_round_inv
      preservesD [OF preserves_CheatService] preservesD [OF preserves_Attach])

definition frozen_units :: "'m CheatProcessManager \<Rightarrow> nat set" where
  "frozen_units m =
     (let h = g_frozen_address_map_heap m
      in set (unit_addresses (heap_start h) (unit_size h) ((heap_end h - heap_start h) div unit_size h)))"

lemma Initialize_inv:
  assumes "InitializeCheatManager head_size entry_size address mem by_default always_save t = Some m0"
    "0 < address" "0 < entry_size"
  shows "manager_inv (frozen_units m0) m0" "debug_handle m0 = 0" "0 < card (frozen_units m0)"
proof -
  obtain h where h: "CreateUnitHeap head_size address (entry_size * MaxFrozenAddressCount) entry_size
      DefaultAlignment CreateOption_ThreadSafe InfoPlacement_Head None mem = Some h"
    using assms(1) by (auto simp: InitializeCheatManager_def split: option.splits)
  have g: "g_frozen_address_map_heap m0 = h"
    using assms(1) h by (auto simp: InitializeCheatManager_def)
  have "heap_inv h (set (unit_addresses (heap_start h) (unit_size h)
      ((heap_end h - heap_start h) div unit_size h))) {}"
    and n: "0 < (heap_end h - heap_start h) div unit_size h"
    using Create_spec [OF h assms(2,3)] by blast+
  moreover have "vm_arrays (zeroed_vm [])"
    by (simp add: zeroed_vm_def vm_arrays_def vm_sizes)
  ultimately show "manager_inv (frozen_units m0) m0" "debug_handle m0 = 0"
    using assms(1) h
    by (auto simp: InitializeCheatManager_def manager_inv_def frozen_units_def frozen_inv_def
        frozen_sorted_def frozen_widths_def split: option.splits)
  have "frozen_units m0 \<noteq> {}" "finite (frozen_units m0)"
    using n by (simp_all add: frozen_units_def g Let_def unit_addresses_def)
  then show "0 < card (frozen_units m0)"
    by (simp add: card_gt_0_iff)
qed

end
