(* ===== verification/Cheat_Properties.thy ===== *)
theory Cheat_Properties
  imports Cheat_Service
begin

text \<open>
  Properties of the cheat service: what its commands and threads guarantee to clients, over
  the invariant of \<open>Cheat_Manager_Inv\<close>.
\<close>

section \<open>A concrete system\<close>

text \<open>
  A system whose world is a byte array: one application, a memory map with one mapped
  region, a cheat file with the given text and no toggle file.
\<close>

definition demo_region :: "u64 \<Rightarrow> u64 \<Rightarrow> u32 \<Rightarrow> MemoryInfo" where
  "demo_region base sz perm =
     \<lparr>mi_base_address = base, mi_size = sz, mi_state = 0, mi_attribute = 0, mi_permission = perm,
      mi_ipc_count = 0, mi_device_count = 0\<rparr>"

definition demo_env :: "char list \<Rightarrow> u8 list cheat_env" where
  "demo_env txt =
     \<lparr>env_svc = ram_svc, env_fills = (\<lambda>_. 0),
      env_ContinueCheatProcess = (\<lambda>m h. (Continued, m)),
      env_GetProcessId = (\<lambda>m h. Some 0x51),
      env_GetApplicationProcessId = (\<lambda>m. Some 0x51),
      env_CloseHandle = (\<lambda>m h. (True, m)),
      env_QueryDebugProcessMemory = (\<lambda>m h a.
        if a < 0x1000 then Some (demo_region 0 0x1000 3) else Some (demo_region 0x1000 0xFFFFFFFFFFFFF000 0)),
      env_AtmosphereGetProcessInfo = (\<lambda>m p. Some (9, 0x0100000000001000, True)),
      env_GetInfo = (\<lambda>m i h. Some 0x1000),
      env_GetProcessModuleInfo = (\<lambda>m p n.
        Some (replicate 2 \<lparr>module_id = replicate 32 0, module_address = 0, module_size = 0x1000\<rparr>)),
      env_DebugActiveProcess = (\<lambda>m p. (Some 7, m)),
      env_StartProcess = (\<lambda>m p. (True, m)),
      env_OpenRead = (\<lambda>m path.
        if path = toggles_path 0x0100000000001000 then None
        else Some \<lparr>sd_size = Some (int (length txt)), sd_read = (True, txt)\<rparr>),
      env_DeleteFile = (\<lambda>m path. m), env_CreateFile = (\<lambda>m path. m), env_OpenWrite = (\<lambda>m path. False),
      env_WriteFile = (\<lambda>m path off bytes. (False, m))\<rparr>"

definition demo_start :: "'m \<Rightarrow> 'm CheatProcessManager" where
  "demo_start w = the (InitializeCheatManager 0x60 0x38 0x1000 (\<lambda>_. 0) None None w)"

definition demo_started :: "u8 list \<Rightarrow> u8 list CheatProcessManager" where
  "demo_started ram = demo_start ram"

definition demo_attached :: "u8 list \<Rightarrow> CheatEntry list \<Rightarrow> u8 list CheatProcessManager" where
  "demo_attached ram es =
     (demo_started ram)\<lparr>m_process := (ram_process ram)\<lparr>m_cheat_process_debug_handle := 7\<rparr>,
        m_cheat_process_metadata := zero_metadata\<lparr>process_id := 0x51\<rparr>,
        m_cheat_entries := es, m_needs_reload_vm := True\<rparr>"

lemma demo_start_eq:
  "InitializeCheatManager 0x60 0x38 0x1000 (\<lambda>_. 0) None None w = Some (demo_start w)"
  "world (demo_start w) = w" "m_cheat_vm (demo_start w) = zeroed_vm []"
    "m_cheat_process_metadata (demo_start w) = zero_metadata"
proof -
  have "CreateUnitHeap 0x60 0x1000 (0x38 * MaxFrozenAddressCount) 0x38 DefaultAlignment
      CreateOption_ThreadSafe InfoPlacement_Head None (\<lambda>_. 0) \<noteq> None"
    by (simp add: CreateUnitHeap_def unit_heap_layout_def AlignUp_def AlignDown_def
        MinimumAlignment_def MaxFrozenAddressCount_def DefaultAlignment_def)
  then show "InitializeCheatManager 0x60 0x38 0x1000 (\<lambda>_. 0) None None w = Some (demo_start w)"
    "world (demo_start w) = w" "m_cheat_vm (demo_start w) = zeroed_vm []"
    "m_cheat_process_metadata (demo_start w) = zero_metadata"
    by (auto simp: demo_start_def InitializeCheatManager_def)
qed

lemmas demo_started_eq = demo_start_eq [where 'a = "u8 list", folded demo_started_def]

lemma demo_attached_inv:
  assumes "entries_wf es"
  shows "manager_inv (frozen_units (demo_started ram)) (demo_attached ram es)"
    "process_is_active (demo_env txt) (demo_attached ram es)"
proof -
  have "manager_inv (frozen_units (demo_started ram)) (demo_started ram)" "frozen (demo_started ram) = []"
    using Initialize_inv [OF demo_started_eq(1) [of ram]] by (auto simp: manager_inv_def)
  then show "manager_inv (frozen_units (demo_started ram)) (demo_attached ram es)"
    using assms entries_wfD(1) [OF assms] by (auto simp: manager_inv_def demo_attached_def ram_process_def)
  show "process_is_active (demo_env txt) (demo_attached ram es)"
    by (simp add: process_is_active_def demo_env_def demo_attached_def)
qed

section \<open>Every run keeps the invariant\<close>



section \<open>Commands without a process\<close>

lemma Ensure_active: "process_is_active env m \<Longrightarrow> EnsureCheatProcess env body m = body m"
  by (simp add: EnsureCheatProcess_def HasActiveCheatProcess_def)

lemma Ensure_inactive:
  assumes "\<not> process_is_active env m" "EnsureCheatProcess env body m = Some (r, m')"
  shows "r = Inl CheatNotAttached \<and> CloseActiveCheatProcess env m = Some m'"
  using assms by (auto simp: EnsureCheatProcess_def HasActiveCheatProcess_def bind_eq_Some_conv)

text \<open>The commands that work on a process.\<close>

fun needs_process :: "command \<Rightarrow> bool" where
  "needs_process HasCheatProcessCmd = False"
| "needs_process ForceOpenCheatProcessCmd = False"
| "needs_process ForceCloseCheatProcessCmd = False"
| "needs_process _ = True"

lemma needs_process_result:
  assumes "\<not> process_is_active env m" "needs_process c" "CheatService env c m = Some (r, m')"
  shows "r = Inl CheatNotAttached \<and> CloseActiveCheatProcess env m = Some m' \<or>
    (r = Inl CheatNullBuffer \<or> r = Inl FrozenAddressInvalidWidth) \<and> m' = m"
proof -
  note inactive = Ensure_inactive [OF assms(1)]
  show ?thesis
    using assms(2,3)
    by (cases c)
      (auto simp: replying_def with_buffer_def fails_def EnableFrozenAddress_service_def
        GetCheatProcessMetadata_def PauseCheatProcess_def ResumeCheatProcess_def
        GetCheatProcessMappingCount_def GetCheatProcessMappings_def ReadCheatProcessMemory_def
        WriteCheatProcessMemory_def QueryCheatProcessMemory_def GetCheatCount_def GetCheats_def
        GetCheatById_def ToggleCheat_def AddCheat_def RemoveCheat_def ReadStaticRegister_def
        WriteStaticRegister_def ResetStaticRegisters_def SetMasterCheat_def GetFrozenAddressCount_def
        GetFrozenAddresses_def GetFrozenAddress_def EnableFrozenAddress_def DisableFrozenAddress_def
        dest!: inactive split: option.splits if_splits)
qed



section \<open>Listings\<close>

lemma get_cheats_loop_eq:
  assumes "length es = MaxCheatCount" "i \<le> MaxCheatCount"
    "n = length (filter cheat_present (take i es))"
    "out = take max_count (drop off (filter cheat_present (take i es)))"
  shows "get_cheats_loop es max_count off i n out =
    take max_count (drop off (filter cheat_present es))"
  using assms(2-)
proof (induction "MaxCheatCount - i" arbitrary: i n out)
  case 0
  then show ?case
    using assms(1) by (subst get_cheats_loop.simps) simp
next
  case (Suc k)
  let ?F = "filter cheat_present (take i es)"
  have i: "i < MaxCheatCount"
    using Suc.hyps(2) by simp
  have next_i: "take (Suc i) es = take i es @ [es ! i]"
    using assms(1) i by (simp add: take_Suc_conv_app_nth)
  show ?case
  proof (cases "length out < max_count")
    case True
    then have "take max_count (drop off ?F) = drop off ?F"
      using Suc.prems(3) by simp
    moreover have "length (drop off ?F) < max_count"
      using True Suc.prems(3) by simp
    ultimately have "get_cheats_loop es max_count off (Suc i)
        (if cheat_present (es ! i) then Suc n else n)
        (if cheat_present (es ! i) \<and> off < Suc n then out @ [es ! i] else out) =
        take max_count (drop off (filter cheat_present es))"
      using Suc.prems i next_i Suc.hyps(2) by (intro Suc.hyps(1)) (auto simp: not_less less_Suc_eq_le)
    then show ?thesis
      using True i by (subst get_cheats_loop.simps) (auto split: if_splits)
  next
    case False
    have "filter cheat_present es = ?F @ filter cheat_present (drop i es)"
      by (metis append_take_drop_id filter_append)
    then show ?thesis
      using False Suc.prems(3) by (subst get_cheats_loop.simps) (auto simp: not_less min_def split: if_splits)
  qed
qed

lemma get_frozen_loop_eq:
  assumes "n = length pre" "out = take max_count (drop off (map (\<lambda>e. (m_address e, m_value e)) pre))"
  shows "get_frozen_loop max_count off es n out =
    take max_count (drop off (map (\<lambda>e. (m_address e, m_value e)) (pre @ es)))"
  using assms
proof (induction es arbitrary: n out pre)
  case (Cons e es)
  let ?f = "\<lambda>e. (m_address e, m_value e)"
  show ?case
  proof (cases "max_count \<le> length out")
    case True
    then show ?thesis
      using Cons.prems(2) by (auto simp: min_def split: if_splits)
  next
    case False
    then have "get_frozen_loop max_count off es (Suc n) (if off \<le> n then out @ [?f e] else out) =
        take max_count (drop off (map ?f ((pre @ [e]) @ es)))"
      using Cons.prems by (intro Cons.IH) auto
    with False show ?thesis by simp
  qed
qed simp

lemma fold_count: "fold (\<lambda>i n. if P (f i) then Suc n else n) xs k = k + length (filter P (map f xs))"
  by (induction xs arbitrary: k) auto

text \<open>
  The listings page through what there is. On an attached manager the count of cheats is
  the number of non-empty entries, and the cheats returned for an offset and a buffer size
  are exactly that window of the non-empty entries in slot order; the frozen addresses are
  counted and paged the same way, in address order.
\<close>

theorem listings_page:
  assumes "manager_inv units m" "process_is_active env m"
  defines "cheats \<equiv> filter cheat_present (m_cheat_entries m)"
    and "addresses \<equiv> map (\<lambda>e. (m_address e, m_value e)) (frozen m)"
  shows "GetCheatCount env m = Some (Inr (length cheats), m) \<and>
    GetCheats env max_count off m = Some (Inr (take max_count (drop (unat off) cheats)), m) \<and>
    GetFrozenAddressCount env m = Some (Inr (length addresses), m) \<and>
    GetFrozenAddresses env max_count off m = Some (Inr (take max_count (drop (unat off) addresses)), m)"
proof -
  have len: "length (m_cheat_entries m) = MaxCheatCount"
    using assms(1) by (simp add: manager_inv_def)
  have "map (\<lambda>i. m_cheat_entries m ! i) [0..<MaxCheatCount] = m_cheat_entries m"
    using map_nth [of "m_cheat_entries m"] len by simp
  then show ?thesis
    using len get_cheats_loop_eq [of "m_cheat_entries m" 0 0 "[]" max_count "unat off"]
      get_frozen_loop_eq [of 0 "[]" "[]" max_count "unat off" "frozen m"]
      fold_count [of cheat_present "\<lambda>i. m_cheat_entries m ! i" "[0..<MaxCheatCount]" 0]
    by (simp add: GetCheatCount_def GetCheats_def GetFrozenAddressCount_def GetFrozenAddresses_def
        Ensure_active [OF assms(2)] returns_def cheats_def addresses_def)
qed

theorem listings_page_witness:
  "GetCheats (demo_env []) 5 1 (demo_attached [] (demo_entries True False)) =
     Some (Inr (take 5 (drop 1 (filter cheat_present (demo_entries True False)))),
       demo_attached [] (demo_entries True False))"
proof -
  have wf: "entries_wf (demo_entries True False)"
    by (rule demo_entries_wf)
  show ?thesis
    using listings_page [OF demo_attached_inv(1) [OF wf, of "[]"] demo_attached_inv(2) [OF wf, of "[]" "[]"], of 5 1]
    by (simp add: demo_attached_def)
qed

section \<open>Adding and removing cheats\<close>

lemma GetFree_None:
  "GetFreeCheatEntry es = None \<longleftrightarrow> list_all (\<lambda>i. cheat_present (es ! i)) [1..<MaxCheatCount]"
  by (auto simp: GetFreeCheatEntry_def first_entry_def find_None_iff list_all_iff cheat_present_def)

lemma cheat_id_less:
  assumes "manager_inv units m" "process_is_active env m" "k < MaxCheatCount"
  shows "cheat_id (m_cheat_entries m ! k) = of_nat k" "unat (of_nat k :: u32) = k"
proof -
  have "wf_entry k (m_cheat_entries m ! k)"
    using assms by (intro manager_entry_wf) (simp_all add: process_is_active_def)
  then show "cheat_id (m_cheat_entries m ! k) = of_nat k"
    by (simp add: wf_entry_def)
  show "unat (of_nat k :: u32) = k"
    using assms(3) by (simp add: unat_of_nat MaxCheatCount_def)
qed

lemma GetFree_Some:
  assumes "GetFreeCheatEntry es = Some k"
  shows "1 \<le> k" "k < MaxCheatCount" "\<not> cheat_present (es ! k)"
  using first_entry_Some [of "\<lambda>e. entry_opcodes e = 0" es k] assms
  by (simp_all add: GetFreeCheatEntry_def cheat_present_def)

lemma process_is_active_cong:
  assumes "m_process m' = m_process m" "m_cheat_process_metadata m' = m_cheat_process_metadata m"
  shows "process_is_active env m' = process_is_active env m"
  using assms by (simp add: process_is_active_def)

text \<open>
  A cheat that is added can be found and removed again. On an attached manager, adding a
  valid definition fails exactly when no slot but the master's is empty; otherwise it
  returns the id of a slot that was empty, looking that id up gives the definition and flag
  that were added, every other slot is as before and a reload is pending. Removing the id
  makes it unknown again.
\<close>

theorem AddCheat_lookup:
  assumes "manager_inv units m" "process_is_active env m" "num_opcodes d \<noteq> 0"
    "unat (num_opcodes d) \<le> CheatOpcodesSize"
  shows "case AddCheat env d en m of
      None \<Rightarrow> False
    | Some (Inl err, m') \<Rightarrow> err = CheatOutOfResource \<and> m' = m \<and>
        list_all (\<lambda>i. cheat_present (m_cheat_entries m ! i)) [1..<MaxCheatCount]
    | Some (Inr cid, m') \<Rightarrow>
        cid \<noteq> 0 \<and> \<not> cheat_present (m_cheat_entries m ! unat cid) \<and> m_needs_reload_vm m' \<and>
        GetCheatById env cid m' =
          Some (Inr \<lparr>enabled = en, cheat_id = cid, cheat_definition = d\<rparr>, m') \<and>
        m_cheat_entries m' = (m_cheat_entries m)
          [unat cid := \<lparr>enabled = en, cheat_id = cid, cheat_definition = d\<rparr>] \<and>
        (\<exists>m''. RemoveCheat env cid m' = Some (Inr (), m'') \<and>
           GetCheatById env cid m'' = Some (Inl CheatUnknownId, m''))"
proof (cases "GetFreeCheatEntry (m_cheat_entries m)")
  case None
  then have "AddCheat env d en m = Some (Inl CheatOutOfResource, m)"
    using assms(2-4) by (simp add: AddCheat_def Ensure_active fails_def)
  with None show ?thesis
    by (simp add: GetFree_None)
next
  case (Some k)
  note k = GetFree_Some [OF Some]
  note cid = cheat_id_less [OF assms(1,2) k(2)]
  let ?e = "\<lparr>enabled = en, cheat_id = of_nat k, cheat_definition = d\<rparr>"
  let ?m = "SetNeedsReloadVm True (m\<lparr>m_cheat_entries := (m_cheat_entries m)[k := ?e]\<rparr>)"
  let ?old = "(m_cheat_entries m ! k)\<lparr>enabled := en, cheat_definition := d\<rparr>"
  have e: "?old = ?e"
    using cid(1) by simp
  have "AddCheat env d en m =
      Some (Inr (cheat_id ?old), SetNeedsReloadVm True (m\<lparr>m_cheat_entries := (m_cheat_entries m)[k := ?old]\<rparr>))"
    using Some assms(2-4) by (simp add: AddCheat_def Ensure_active returns_def Let_def)
  then have add: "AddCheat env d en m = Some (Inr (of_nat k), ?m)"
    unfolding e by simp
  have len: "length (m_cheat_entries m) = MaxCheatCount"
    using assms(1) by (simp add: manager_inv_def)
  have active: "process_is_active env ?m"
    using assms(2) process_is_active_cong [of ?m m env] by (simp add: SetNeedsReloadVm_def)
  have get: "GetCheatById env (of_nat k) ?m = Some (Inr ?e, ?m)"
    unfolding GetCheatById_def Ensure_active [OF active] using k len cid(2) assms(3)
    by (simp add: GetCheatEntryById_def returns_def cheat_present_def SetNeedsReloadVm_def)
  let ?m2 = "SetNeedsReloadVm True (ResetCheatEntry k ?m)"
  have remove: "RemoveCheat env (of_nat k) ?m = Some (Inr (), ?m2)"
    unfolding RemoveCheat_def Ensure_active [OF active] using k(2) cid(2) by (simp add: returns_def)
  have active2: "process_is_active env ?m2"
    using active process_is_active_cong [of ?m2 ?m env]
    by (simp add: SetNeedsReloadVm_def ResetCheatEntry_def)
  have "GetCheatById env (of_nat k) ?m2 = Some (Inl CheatUnknownId, ?m2)"
    unfolding GetCheatById_def Ensure_active [OF active2] using k len cid(2)
    by (simp add: GetCheatEntryById_def fails_def cheat_present_def SetNeedsReloadVm_def
        ResetCheatEntry_def zero_entry_def zero_definition_def)
  moreover have "(of_nat k :: u32) \<noteq> 0"
    using k(1) cid(2) by (metis less_one not_less unat_0)
  ultimately show ?thesis
    using add get remove k(3) cid(2) by (simp add: SetNeedsReloadVm_def)
qed

theorem AddCheat_lookup_witness:
  "\<exists>cid m'. AddCheat (demo_env []) (cheat_def (''Fly'', [0x20000000])) True
      (demo_attached [] (demo_entries True False)) = Some (Inr cid, m') \<and>
     GetCheatById (demo_env []) cid m' =
       Some (Inr \<lparr>enabled = True, cheat_id = cid, cheat_definition = cheat_def (''Fly'', [0x20000000])\<rparr>, m')"
proof -
  let ?m = "demo_attached [] (demo_entries True False)" and ?d = "cheat_def (''Fly'', [0x20000000])"
  have es: "m_cheat_entries ?m = demo_entries True False"
    by (simp add: demo_attached_def)
  have "\<not> list_all (\<lambda>i. cheat_present (m_cheat_entries ?m ! i)) [1..<MaxCheatCount]"
    unfolding es list_all_iff
    by (auto intro!: bexI [of _ 3] simp: demo_entries_nth cheat_present_def zero_entry_def
        zero_definition_def MaxCheatCount_def)
  moreover have wf: "entries_wf (demo_entries True False)"
    by (rule demo_entries_wf)
  moreover have "num_opcodes ?d \<noteq> 0" "unat (num_opcodes ?d) \<le> CheatOpcodesSize"
    by (simp_all add: cheat_def_def CheatOpcodesSize_def)
  ultimately show ?thesis
    using AddCheat_lookup [OF demo_attached_inv(1) [OF wf, of "[]"] demo_attached_inv(2) [OF wf, of "[]" "[]"], of ?d True]
    by (cases "AddCheat (demo_env []) ?d True ?m") (force split: sum.splits prod.splits)+
qed

section \<open>Frozen addresses as a map\<close>

text \<open>What the frozen addresses are, seen from outside: a finite map from addresses to values.\<close>

definition frozen_view :: "'m CheatProcessManager \<Rightarrow> u64 \<rightharpoonup> FrozenAddressValue" where
  "frozen_view m a = map_option m_value (find_key a (frozen m))"

lemma frozen_view_set_frozen: "frozen_view (set_frozen es m) a = map_option m_value (find_key a es)"
  by (simp add: frozen_view_def set_frozen_def with_process_state_def)

text \<open>The value that freezing an address reads, when the read succeeds.\<close>

definition read_value :: "'m cheat_env \<Rightarrow> 'm CheatProcessManager \<Rightarrow> u64 \<Rightarrow> u64 \<Rightarrow> FrozenAddressValue option" where
  "read_value env m address width =
     (case ReadCheatProcessMemoryUnsafe (env_svc env) (m_process m) address (unat width) of
        (ok, bytes) \<Rightarrow>
          if ok then Some \<lparr>frz_value = overlay_bytes 0 bytes, frz_width = ucast width\<rparr> else None)"

lemma EnableFrozen_view:
  assumes "manager_inv units m" "process_is_active env m"
  shows "case EnableFrozenAddress env a w m of
      None \<Rightarrow> False
    | Some (Inl err, m') \<Rightarrow> m' = m \<and>
        (err = FrozenAddressAlreadyExists \<and> frozen_view m a \<noteq> None \<or>
         err = ExternalFailure \<and> frozen_view m a = None \<and> read_value env m a w = None \<or>
         err = FrozenAddressOutOfResource \<and> frozen_view m a = None \<and> read_value env m a w \<noteq> None \<and>
           length (frozen m) = card units)
    | Some (Inr out, m') \<Rightarrow> \<exists>v. frozen_view m a = None \<and> read_value env m a w = Some v \<and>
        out = frz_value v \<and> frozen_view m' = (frozen_view m)(a \<mapsto> v)"
proof -
  note fi = manager_frozenD [OF assms(1)]
  let ?read = "ReadCheatProcessMemoryUnsafe (env_svc env) (m_process m) a (unat w)"
  let ?v = "\<lparr>frz_value = overlay_bytes 0 (snd ?read), frz_width = ucast w :: u8\<rparr>"
  show ?thesis
  proof (cases "find_key a (frozen m) = None \<and> fst ?read")
    case False
    then show ?thesis
      by (auto simp: EnableFrozenAddress_def Ensure_active [OF assms(2)] fails_def frozen_view_def
          read_value_def Let_def split: prod.splits)
  next
    case True
    then have rv: "read_value env m a w = Some ?v" and free: "find_key a (frozen m) = None"
      by (auto simp: read_value_def split: prod.splits)
    obtain eo h where al: "AllocateFrozenAddress (env_fills env) a ?v (g_frozen_address_map_heap m) = (eo, h)"
      by (cases "AllocateFrozenAddress (env_fills env) a ?v (g_frozen_address_map_heap m)")
    have run: "EnableFrozenAddress env a w m =
        (case eo of None \<Rightarrow> fails FrozenAddressOutOfResource (m\<lparr>g_frozen_address_map_heap := h\<rparr>)
         | Some e \<Rightarrow> returns (frz_value ?v)
             (set_frozen (insert_entry e (frozen m)) (m\<lparr>g_frozen_address_map_heap := h\<rparr>)))"
      using True al by (cases eo)
        (auto simp: EnableFrozenAddress_def Ensure_active [OF assms(2)] Let_def split: prod.splits)
    show ?thesis
    proof (cases eo)
      case None
      then show ?thesis
        using run rv free al freeze_exhausted [OF fi(1), of "env_fills env" a ?v h]
        by (simp add: fails_def frozen_view_def)
    next
      case (Some e)
      note new = freeze_inv [OF fi(1) free al [unfolded Some]]
      have "frozen_view (set_frozen (insert_entry e (frozen m)) (m\<lparr>g_frozen_address_map_heap := h\<rparr>)) =
          (frozen_view m)(a \<mapsto> ?v)"
        using frozen_map.find_ins [OF fi(3), of e] free new(2,3)
        by (simp add: fun_eq_iff frozen_view_set_frozen) (simp add: frozen_view_def)
      then show ?thesis
        using run rv Some free by (simp add: returns_def frozen_view_def)
    qed
  qed
qed

lemma DisableFrozen_view:
  assumes "manager_inv units m" "process_is_active env m"
  shows "case DisableFrozenAddress env a m of
      None \<Rightarrow> False
    | Some (Inl err, m') \<Rightarrow> m' = m \<and> err = FrozenAddressNotFound \<and> frozen_view m a = None
    | Some (Inr _, m') \<Rightarrow> frozen_view m a \<noteq> None \<and> frozen_view m' = (frozen_view m)(a := None)"
proof (cases "find_key a (frozen m)")
  case None
  then show ?thesis
    by (simp add: DisableFrozenAddress_def Ensure_active [OF assms(2)] fails_def frozen_view_def)
next
  case (Some e)
  let ?m = "m\<lparr>g_frozen_address_map_heap :=
      DeallocateFrozenAddress (env_fills env) e (g_frozen_address_map_heap m)\<rparr>"
  have "DisableFrozenAddress env a m = Some (Inr (), set_frozen (erase_key a (frozen m)) ?m)"
    using Some by (simp add: DisableFrozenAddress_def Ensure_active [OF assms(2)] returns_def)
  moreover have "frozen_view (set_frozen (erase_key a (frozen m)) ?m) = (frozen_view m)(a := None)"
    using frozen_map.find_erase [OF manager_frozenD(3) [OF assms(1)] Some]
    by (simp add: fun_eq_iff frozen_view_set_frozen) (simp add: frozen_view_def)
  ultimately show ?thesis
    using Some by (simp add: frozen_view_def)
qed

text \<open>
  C14. The tree of frozen addresses behaves as a map. On an attached manager, freezing an
  address succeeds exactly when it is not frozen yet, the memory can be read and a unit is
  free, and then binds the address to the value read; unfreezing succeeds exactly when the
  address is frozen and then removes the binding; every failure names its reason and
  changes nothing; looking up returns the binding.
\<close>

theorem frozen_refines_map:
  assumes "manager_inv units m" "process_is_active env m"
  shows "(case EnableFrozenAddress env a w m of
      None \<Rightarrow> False
    | Some (Inl err, m') \<Rightarrow> m' = m \<and>
        (err = FrozenAddressAlreadyExists \<and> frozen_view m a \<noteq> None \<or>
         err = ExternalFailure \<and> frozen_view m a = None \<and> read_value env m a w = None \<or>
         err = FrozenAddressOutOfResource \<and> frozen_view m a = None \<and> read_value env m a w \<noteq> None \<and>
           length (frozen m) = card units)
    | Some (Inr out, m') \<Rightarrow> \<exists>v. frozen_view m a = None \<and> read_value env m a w = Some v \<and>
        out = frz_value v \<and> frozen_view m' = (frozen_view m)(a \<mapsto> v)) \<and>
    (case DisableFrozenAddress env a m of
      None \<Rightarrow> False
    | Some (Inl err, m') \<Rightarrow> m' = m \<and> err = FrozenAddressNotFound \<and> frozen_view m a = None
    | Some (Inr _, m') \<Rightarrow> frozen_view m a \<noteq> None \<and> frozen_view m' = (frozen_view m)(a := None)) \<and>
    GetFrozenAddress env a m =
      Some (case frozen_view m a of None \<Rightarrow> Inl FrozenAddressNotFound | Some v \<Rightarrow> Inr (a, v), m)"
proof -
  have "GetFrozenAddress env a m =
      Some (case frozen_view m a of None \<Rightarrow> Inl FrozenAddressNotFound | Some v \<Rightarrow> Inr (a, v), m)"
    by (auto simp: GetFrozenAddress_def Ensure_active [OF assms(2)] fails_def returns_def frozen_view_def
        dest: find_key_SomeD split: option.splits)
  with EnableFrozen_view [OF assms, of a w] DisableFrozen_view [OF assms, of a] show ?thesis
    by blast
qed

theorem frozen_refines_map_witness:
  "\<exists>m'. EnableFrozenAddress (demo_env []) 1 2 (demo_attached [0x11, 0x22, 0x33, 0x44] (demo_entries True True)) =
      Some (Inr 0x3322, m') \<and> frozen_view m' 1 = Some \<lparr>frz_value = 0x3322, frz_width = 2\<rparr>"
proof -
  let ?ram = "[0x11, 0x22, 0x33, 0x44] :: u8 list" and ?env = "demo_env []"
  let ?m = "demo_attached ?ram (demo_entries True True)"
  have wf: "entries_wf (demo_entries True True)"
    by (rule demo_entries_wf)
  have none: "frozen ?m = []" "frozen_view ?m 1 = None"
    by (simp_all add: frozen_view_def demo_attached_def ram_process_def)
  have rv: "read_value ?env ?m 1 2 = Some \<lparr>frz_value = 0x3322, frz_width = 2\<rparr>"
    by (simp add: read_value_def ReadCheatProcessMemoryUnsafe_def demo_env_def ram_svc_def demo_attached_def
        ram_process_def overlay_bytes_def)
  have units: "card (frozen_units (demo_started ?ram)) \<noteq> 0"
    using Initialize_inv(3) [OF demo_started_eq(1) [of ?ram]] by simp
  show ?thesis
    using frozen_refines_map [OF demo_attached_inv(1) [OF wf, of ?ram] demo_attached_inv(2) [OF wf, of "[]" ?ram], of 1 2]
      none rv units
    by (cases "EnableFrozenAddress ?env 1 2 ?m") (force split: sum.splits prod.splits)+
qed

section \<open>Detaching\<close>

text \<open>
  C25. Closing leaves nothing behind. From any reachable state, a close that does not abort
  succeeds; afterwards there is no debug handle and every unit of the frozen address heap
  is free again, and if a process was attached the cheats, the static registers and the
  metadata are cleared, a debug event waiter is released and clients are signalled.
\<close>

theorem ForceClose_releases:
  assumes "manager_inv units m" "ForceCloseCheatProcess env m = Some (r, m')"
  shows "r = Inr () \<and> debug_handle m' = 0 \<and>
    GetUnitHeapFreeCount (g_frozen_address_map_heap m') = Some (card units) \<and>
    (debug_handle m = 0 \<or> detached m')"
proof -
  have close: "CloseActiveCheatProcess env m = Some m'" and r: "r = Inr ()"
    using assms(2) by (auto simp: ForceCloseCheatProcess_def returns_def bind_eq_Some_conv)
  note spec = CloseActive_spec [OF assms(1) close]
  have "heap_inv (g_frozen_address_map_heap m') units {}"
    using spec(1,5) by (simp add: manager_inv_def frozen_inv_def)
  from FreeCount_spec [OF this] show ?thesis
    using spec r by auto
qed

theorem ForceClose_releases_witness:
  "\<exists>m'. ForceCloseCheatProcess (demo_env []) (demo_attached [] (demo_entries True True)) = Some (Inr (), m') \<and>
     detached m'"
proof -
  let ?m = "demo_attached [] (demo_entries True True)"
  have h: "debug_handle ?m \<noteq> 0"
    by (simp add: demo_attached_def)
  then obtain r m' where run: "ForceCloseCheatProcess (demo_env []) ?m = Some (r, m')"
    by (simp add: ForceCloseCheatProcess_def CloseActiveCheatProcess_def demo_env_def Let_def returns_def)
  from ForceClose_releases [OF demo_attached_inv(1) [OF demo_entries_wf] run] h run show ?thesis
    by auto
qed

section \<open>The virtual machine round\<close>

lemma LoadProgram_ok:
  assumes "vm_arrays vm" "LoadProgram es vm = (ok, vm')"
  shows "ok \<longleftrightarrow> length (enabled_opcodes es) \<le> MaximumProgramOpcodeCount"
proof -
  have "load_result (vm\<lparr>m_num_opcodes := 0\<rparr>) (enabled_opcodes es) ok vm'"
    using LoadProgram_loop_effect [OF _ _ assms(2) [unfolded LoadProgram_def]] assms(1)
    by (simp add: vm_arrays_def)
  then show ?thesis
    by (simp add: load_result_def)
qed

lemma loaded_program_length: "vm_arrays vm \<Longrightarrow> length (loaded_program vm) = m_num_opcodes vm"
  by (simp add: loaded_program_def vm_arrays_def)

lemma freeze_fields:
  "m_cheat_vm (with_process_state f m) = m_cheat_vm m"
  "m_needs_reload_vm (with_process_state f m) = m_needs_reload_vm m"
  "m_cheat_entries (with_process_state f m) = m_cheat_entries m"
  by (simp_all add: with_process_state_def)

lemma vm_round_effect:
  assumes "manager_inv units m" "process_is_active env m"
    "VirtualMachineThread_round n env kHeld m = Finished m'"
  shows "m_cheat_entries m' = m_cheat_entries m \<and>
    (if length (enabled_opcodes (m_cheat_entries m)) \<le> MaximumProgramOpcodeCount
     then loaded_program (m_cheat_vm m') = enabled_opcodes (m_cheat_entries m) \<and> \<not> m_needs_reload_vm m'
     else loaded_program (m_cheat_vm m') = [] \<and> m_needs_reload_vm m')"
proof -
  let ?es = "m_cheat_entries m"
  have arr: "vm_arrays (m_cheat_vm m)"
    by (rule manager_vm_arrays [OF assms(1)])
  have h: "debug_handle m \<noteq> 0"
    using assms(2) by (simp add: process_is_active_def)
  obtain ready vm where load: "(if m_needs_reload_vm m then LoadProgram ?es (m_cheat_vm m)
      else (True, m_cheat_vm m)) = (ready, vm)"
    by (cases "if m_needs_reload_vm m then LoadProgram ?es (m_cheat_vm m) else (True, m_cheat_vm m)")
  have current: "loaded_program (m_cheat_vm m) = enabled_opcodes ?es" if "\<not> m_needs_reload_vm m"
    using assms(1) h that by (simp add: manager_inv_def)
  have fits: "length (enabled_opcodes ?es) \<le> MaximumProgramOpcodeCount" if "\<not> m_needs_reload_vm m"
    using loaded_program_length [OF arr] current [OF that] arr by (simp add: vm_arrays_def)
  have vm: "vm_arrays vm"
    using load LoadProgram_arrays(1) [OF arr] arr by (auto split: if_splits)
  have ready: "ready \<longleftrightarrow> length (enabled_opcodes ?es) \<le> MaximumProgramOpcodeCount"
    using load fits LoadProgram_ok [OF arr, of ?es ready vm] by (auto split: if_splits)
  have prog: "loaded_program vm = (if ready then enabled_opcodes ?es else [])"
    using load current LoadProgram_arrays(2,3) [OF arr, of ?es ready vm] by (auto split: if_splits)
  have pending: "m_needs_reload_vm m" if "\<not> ready"
    using load that by (auto split: if_splits)
  define m2 where "m2 = (if ready then SetNeedsReloadVm False (m\<lparr>m_cheat_vm := vm\<rparr>) else m\<lparr>m_cheat_vm := vm\<rparr>)"
  have m2: "m_cheat_vm m2 = vm" "m_cheat_entries m2 = ?es" "m_needs_reload_vm m2 = (\<not> ready)"
    using pending by (auto simp: m2_def SetNeedsReloadVm_def)
  let ?freeze = "with_process_state (apply_frozen (env_svc env))"
  have "VirtualMachineThread_round n env kHeld m =
      (if ready \<and> GetProgramSize vm \<noteq> 0
       then (case Execute n (env_svc env) (m_cheat_process_metadata m2) kHeld (vm, m_process m2) of
               Finished (vm', p) \<Rightarrow> Finished (?freeze (m2\<lparr>m_cheat_vm := vm', m_process := p\<rparr>))
             | Aborted \<Rightarrow> Aborted | OutOfFuel \<Rightarrow> OutOfFuel)
       else Finished (?freeze m2))"
    unfolding VirtualMachineThread_round_def m2_def using assms(2) load
    by (cases ready) (simp_all add: Let_def HasActiveCheatProcess_def)
  then have "m_cheat_entries m' = ?es \<and> m_needs_reload_vm m' = (\<not> ready) \<and>
      loaded_program (m_cheat_vm m') = loaded_program vm"
    using assms(3) m2 Execute_frame(3) [OF vm]
    by (auto simp: freeze_fields split: if_splits outcome.splits)
  then show ?thesis
    using prog ready by simp
qed


lemma LoadProgram_loop_disabled: "list_all (\<lambda>c. \<not> enabled c) cs \<Longrightarrow> LoadProgram_loop cs vm = (True, vm)"
  by (induction cs) auto

lemma demo_program:
  "LoadProgram (demo_entries True False) (zeroed_vm []) = (True, zeroed_vm [0x20000000])"
  "enabled_opcodes (demo_entries True False) = [0x20000000]"
proof -
  let ?es = "demo_entries True False"
  have split: "?es = ?es ! 0 # ?es ! 1 # drop 2 ?es"
    using demo_entries_nth(2) [of True False]
    by (simp add: Cons_nth_drop_Suc MaxCheatCount_def numeral_2_eq_2)
  have off: "list_all (\<lambda>c. \<not> enabled c) (drop 2 ?es)"
    by (auto simp: list_all_length demo_entries_nth zero_entry_def)
  moreover have "\<not> enabled (?es ! 0)" "enabled (?es ! 1)" "cheat_opcodes (?es ! 1) = [0x20000000]"
    "num_opcodes (cheat_definition (?es ! 1)) = 1"
    by (simp_all add: demo_entries_nth zero_entry_def MaxCheatCount_def cheat_opcodes_def cheat_def_def)
  moreover have "enabled_opcodes (drop 2 ?es) = []"
    using off by (simp add: enabled_opcodes_def filter_empty_conv list_all_iff)
  moreover have "replicate MaximumProgramOpcodeCount (0 :: u32) = 0 # replicate (MaximumProgramOpcodeCount - 1) 0"
    using replicate_Suc [of "MaximumProgramOpcodeCount - 1" "0 :: u32"] by (simp add: vm_sizes)
  ultimately have "LoadProgram (?es ! 0 # ?es ! 1 # drop 2 ?es) (zeroed_vm []) = (True, zeroed_vm [0x20000000])"
    "enabled_opcodes (?es ! 0 # ?es ! 1 # drop 2 ?es) = [0x20000000]"
    by (simp_all add: LoadProgram_def LoadProgram_loop_disabled zeroed_vm_def MaximumProgramOpcodeCount_def)
  then show "LoadProgram ?es (zeroed_vm []) = (True, zeroed_vm [0x20000000])"
    "enabled_opcodes ?es = [0x20000000]"
    by (simp_all only: split [symmetric])
qed

lemma demo_execute:
  "Execute (Suc (Suc n)) svc md 0 (zeroed_vm [0x20000000], p) =
   Finished ((zeroed_vm [0x20000000])\<lparr>m_instruction_ptr := 1, m_decode_success := False\<rparr>, p)"
  by (simp add: Execute_def ResetState_def zeroed_vm_def DecodeNextOpcode_def GetNextDword_def
      decode_opcode_def opcode_number_def CheatVmOpcodeType_of_def nybble_def decode_EndConditional_def
      execute_instruction_def exec_EndConditional_def)


section \<open>Walking the address space\<close>

definition mapped :: "MemoryInfo \<Rightarrow> bool" where
  "mapped r \<longleftrightarrow> mi_permission r \<noteq> 0"

text \<open>Regions that follow each other without a gap from \<open>a\<close> to the end of the address space.\<close>

fun tiles :: "nat \<Rightarrow> MemoryInfo list \<Rightarrow> bool" where
  "tiles a [] = (a = 2 ^ 64)"
| "tiles a (r # rs) = (unat (mi_base_address r) = a \<and> mi_size r \<noteq> 0 \<and> tiles (a + unat (mi_size r)) rs)"

text \<open>A query at an address of a region describes that region.\<close>

definition describes :: "(u64 \<Rightarrow> MemoryInfo option) \<Rightarrow> MemoryInfo list \<Rightarrow> bool" where
  "describes query rs \<longleftrightarrow>
     (\<forall>r \<in> set rs. \<forall>x. in_write_range (mi_base_address r) (unat (mi_size r)) x \<longrightarrow> query x = Some r)"

lemma tiles_le: "tiles a rs \<Longrightarrow> a \<le> 2 ^ 64"
  by (induction rs arbitrary: a) fastforce+

lemma tiles_step:
  assumes "tiles a (r # rs)" "describes query (r # rs)"
  shows "query (of_nat a) = Some r" "mi_base_address r + mi_size r = of_nat (a + unat (mi_size r))"
    "mi_base_address r + mi_size r = 0 \<longleftrightarrow> rs = []" "describes query rs"
proof -
  have a: "unat (mi_base_address r) = a" "0 < unat (mi_size r)" "a + unat (mi_size r) \<le> 2 ^ 64"
    using assms(1) tiles_le by (auto simp: unat_gt_0)
  then have base: "mi_base_address r = of_nat a"
    by auto
  show "query (of_nat a) = Some r"
    using assms(2) a(2) base by (auto simp: describes_def in_write_range_def)
  show sum: "mi_base_address r + mi_size r = of_nat (a + unat (mi_size r))"
    using base by simp
  show "mi_base_address r + mi_size r = 0 \<longleftrightarrow> rs = []"
  proof
    assume "mi_base_address r + mi_size r = 0"
    then have "2 ^ 64 dvd a + unat (mi_size r)"
      unfolding sum word_of_nat_eq_0_iff by simp
    then have "a + unat (mi_size r) = 2 ^ 64"
      using a dvd_imp_le [of "2 ^ 64" "a + unat (mi_size r)"] by simp
    then have "tiles (2 ^ 64) rs"
      using assms(1) by simp
    then show "rs = []"
      using tiles_le by (cases rs) (fastforce simp: unat_0_iff)+
  next
    assume "rs = []"
    then have "a + unat (mi_size r) = 2 ^ 64"
      using assms(1) by simp
    then show "mi_base_address r + mi_size r = 0"
      unfolding sum by simp
  qed
  show "describes query rs"
    using assms(2) by (simp add: describes_def)
qed

lemma mapping_count_tiles:
  assumes "tiles a rs" "describes query rs" "rs \<noteq> []"
  shows "mapping_count query (of_nat a) n = Some (n + of_nat (length (filter mapped rs)))"
  using assms
proof (induction rs arbitrary: a n)
  case (Cons r rs)
  note st = tiles_step [OF Cons.prems(1,2)]
  have rest: "tiles (a + unat (mi_size r)) rs"
    using Cons.prems(1) by simp
  show ?case
    using st Cons.IH [OF rest st(4)]
    by (subst mapping_count.simps) (auto simp flip: mapped_def)
qed simp

lemma mapping_list_tiles:
  assumes "tiles a rs" "describes query rs" "rs \<noteq> []" "n = length pre" "out = take max_count (drop off pre)"
  shows "mapping_list query max_count off (of_nat a) n out =
    Some (take max_count (drop off (pre @ filter mapped rs)))"
  using assms
proof (induction rs arbitrary: a n out pre)
  case (Cons r rs)
  note st = tiles_step [OF Cons.prems(1,2)]
  have rest: "tiles (a + unat (mi_size r)) rs"
    using Cons.prems(1) by simp
  let ?pre = "if mapped r then pre @ [r] else pre"
  let ?out = "if mapped r \<and> off \<le> n \<and> length out < max_count then out @ [r] else out"
  have out: "?out = take max_count (drop off ?pre)"
    using Cons.prems(4,5) by auto
  have eq: "pre @ filter mapped (r # rs) = ?pre @ filter mapped rs"
    by simp
  have n: "(if mapped r then Suc n else n) = length ?pre"
    using Cons.prems(4) by simp
  have step: "mapping_list query max_count off (of_nat a) n out =
      (if rs \<noteq> [] \<and> length ?out < max_count
       then mapping_list query max_count off (of_nat (a + unat (mi_size r)))
              (if mapped r then Suc n else n) ?out
       else Some ?out)"
    using st by (subst mapping_list.simps) (simp add: Let_def mapped_def)
  show ?case
  proof (cases "rs \<noteq> [] \<and> length ?out < max_count")
    case True
    then show ?thesis
      unfolding step eq using Cons.IH [OF rest st(4) _ n out] by simp
  next
    case False
    have "take max_count (drop off (?pre @ filter mapped rs)) = ?out"
    proof (cases "rs = []")
      case no: False
      then have "max_count \<le> length (drop off ?pre)"
        using False out by (auto simp: min_def split: if_splits)
      then show ?thesis
        unfolding out by simp
    qed (simp add: out)
    then show ?thesis
      unfolding step eq if_not_P [OF False] by (simp only:)
  qed
qed simp

text \<open>
  C26. The walks over the process memory end and are complete. When the kernel's answers
  describe regions that tile the whole address space, counting returns the number of
  accessible regions, and listing returns exactly the requested window of them.
\<close>

theorem mapping_walks_complete:
  assumes "process_is_active env m" "tiles 0 rs"
    "describes (env_QueryDebugProcessMemory env (world m) (debug_handle m)) rs"
  shows "GetCheatProcessMappingCount env m = Some (Inr (of_nat (length (filter mapped rs))), m) \<and>
    GetCheatProcessMappings env max_count off m =
      Some (Inr (take max_count (drop (unat off) (filter mapped rs))), m)"
proof -
  have "rs \<noteq> []"
    using assms(2) by auto
  then show ?thesis
    using mapping_count_tiles [OF assms(2,3), of 0] mapping_list_tiles [OF assms(2,3), of 0 "[]" "[]" max_count "unat off"]
    by (simp add: GetCheatProcessMappingCount_def GetCheatProcessMappings_def Ensure_active [OF assms(1)] returns_def)
qed

theorem mapping_walks_complete_witness:
  "GetCheatProcessMappingCount (demo_env []) (demo_attached [] (demo_entries True True)) =
     Some (Inr 1, demo_attached [] (demo_entries True True))"
proof -
  let ?rs = "[demo_region 0 0x1000 3, demo_region 0x1000 0xFFFFFFFFFFFFF000 0]"
  let ?m = "demo_attached [] (demo_entries True True)"
  have "tiles 0 ?rs"
    by (simp add: demo_region_def)
  moreover have "describes (env_QueryDebugProcessMemory (demo_env []) (world ?m) (debug_handle ?m)) ?rs"
    by (auto simp: describes_def in_write_range_def demo_region_def demo_env_def word_less_nat_alt)
  ultimately show ?thesis
    using mapping_walks_complete [OF demo_attached_inv(2) [OF demo_entries_wf], of ?rs "[]" "[]" True True 0 0]
    by (simp add: mapped_def demo_region_def)
qed

section \<open>Frozen values are written back\<close>

text \<open>
  What the service relies on of the debug write: a target is a partial memory of bytes, and a
  write of a range that does not pass the end of the address space stores the bytes when
  all of it is mapped and nothing otherwise.
\<close>

definition writes_bytes :: "'m debug_svc \<Rightarrow> ('m \<Rightarrow> u64 \<rightharpoonup> u8) \<Rightarrow> bool" where
  "writes_bytes svc peek \<longleftrightarrow>
     (\<forall>t h d a. unat a + length d \<le> 2 ^ 64 \<longrightarrow>
        peek (snd (svc_Write svc t h d a)) =
          (if {x. in_write_range a (length d) x} \<subseteq> dom (peek t)
           then (\<lambda>x. if in_write_range a (length d) x then Some (d ! (unat x - unat a)) else peek t x)
           else peek t))"

definition entry_width :: "FrozenAddressMapEntry \<Rightarrow> nat" where
  "entry_width e = unat (frz_width (m_value e))"

definition entry_range :: "FrozenAddressMapEntry \<Rightarrow> u64 set" where
  "entry_range e = {x. in_write_range (m_address e) (entry_width e) x}"

text \<open>Entries that do not overlap and end inside the address space.\<close>

definition frozen_apart :: "FrozenAddressMapEntry list \<Rightarrow> bool" where
  "frozen_apart es \<longleftrightarrow>
     sorted_wrt (\<lambda>e f. unat (m_address e) + entry_width e \<le> unat (m_address f)) es \<and>
     list_all (\<lambda>e. unat (m_address e) + entry_width e \<le> 2 ^ 64) es"

lemma write_frozen_peek:
  assumes "writes_bytes svc peek" "unat (m_address e) + entry_width e \<le> 2 ^ 64"
  shows "peek (target (write_frozen svc p e)) =
    (if entry_range e \<subseteq> dom (peek (target p))
     then (\<lambda>x. if x \<in> entry_range e
               then Some (u64_bytes (frz_value (m_value e)) (entry_width e) ! (unat x - unat (m_address e)))
               else peek (target p) x)
     else peek (target p))"
  using assms unfolding writes_bytes_def
  by (simp add: write_frozen_def entry_range_def entry_width_def cong: if_cong)

lemma write_frozen_dom:
  assumes "writes_bytes svc peek" "unat (m_address e) + entry_width e \<le> 2 ^ 64"
  shows "dom (peek (target (write_frozen svc p e))) = dom (peek (target p))"
  using write_frozen_peek [OF assms, of p] by (auto split: if_splits)

lemma foldl_write_frozen:
  assumes "writes_bytes svc peek" "frozen_apart es"
  shows "dom (peek (target (foldl (write_frozen svc) p es))) = dom (peek (target p))"
    "e \<in> set es \<Longrightarrow> entry_range e \<subseteq> dom (peek (target p)) \<Longrightarrow> x \<in> entry_range e \<Longrightarrow>
      peek (target (foldl (write_frozen svc) p es)) x =
        Some (u64_bytes (frz_value (m_value e)) (entry_width e) ! (unat x - unat (m_address e)))"
proof -
  have "dom (peek (target (foldl (write_frozen svc) p es))) = dom (peek (target p)) \<and>
    (\<forall>e \<in> set es. entry_range e \<subseteq> dom (peek (target p)) \<longrightarrow> (\<forall>x \<in> entry_range e.
      peek (target (foldl (write_frozen svc) p es)) x =
        Some (u64_bytes (frz_value (m_value e)) (entry_width e) ! (unat x - unat (m_address e)))))"
    using assms(2)
  proof (induction es rule: rev_induct)
    case (snoc f es)
    let ?p = "foldl (write_frozen svc) p es"
    have f: "unat (m_address f) + entry_width f \<le> 2 ^ 64" and ap: "frozen_apart es"
      and before: "\<And>e. e \<in> set es \<Longrightarrow> unat (m_address e) + entry_width e \<le> unat (m_address f)"
      using snoc.prems by (auto simp: frozen_apart_def sorted_wrt_append)
    have disjoint: "x \<notin> entry_range f" if "e \<in> set es" "x \<in> entry_range e" for e x
      using before [OF that(1)] that(2) by (auto simp: entry_range_def in_write_range_def)
    note IH = snoc.IH [OF ap]
    show ?case
      using IH write_frozen_dom [OF assms(1) f, of ?p] write_frozen_peek [OF assms(1) f, of ?p] disjoint
      by (auto split: if_splits)
  qed simp
  then show "dom (peek (target (foldl (write_frozen svc) p es))) = dom (peek (target p))"
    "e \<in> set es \<Longrightarrow> entry_range e \<subseteq> dom (peek (target p)) \<Longrightarrow> x \<in> entry_range e \<Longrightarrow>
      peek (target (foldl (write_frozen svc) p es)) x =
        Some (u64_bytes (frz_value (m_value e)) (entry_width e) ! (unat x - unat (m_address e)))"
    by auto
qed

lemma foldl_write_frozen_map [simp]:
  "m_frozen_addresses_map (foldl (write_frozen svc) p es) = m_frozen_addresses_map p"
  by (induction es rule: rev_induct) (simp_all add: write_frozen_def)

lemma vm_round_ends_frozen:
  assumes "VirtualMachineThread_round n env kHeld m = Finished m'" "process_is_active env m"
  shows "\<exists>m1. m' = with_process_state (apply_frozen (env_svc env)) m1"
  using assms
  by (auto simp: VirtualMachineThread_round_def HasActiveCheatProcess_def Let_def
      split: prod.splits if_splits outcome.splits)


lemma ram_writes_bytes:
  "writes_bytes ram_svc (\<lambda>ram x. if unat x < length ram then Some (ram ! unat x) else None)"
proof -
  have "peek (snd (svc_Write ram_svc t h d a)) =
      (if {x. in_write_range a (length d) x} \<subseteq> dom (peek t)
       then (\<lambda>x. if in_write_range a (length d) x then Some (d ! (unat x - unat a)) else peek t x)
       else peek t)"
    if b: "unat a + length d \<le> 2 ^ 64"
      and peek: "peek = (\<lambda>ram x. if unat x < length ram then Some (ram ! unat x) else None)"
    for peek :: "u8 list \<Rightarrow> u64 \<rightharpoonup> u8" and t h d and a :: u64
  proof (cases "unat a + length d \<le> length t")
    case True
    then have "{x. in_write_range a (length d) x} \<subseteq> dom (peek t)"
      by (auto simp: peek in_write_range_def)
    with True show ?thesis
      by (auto simp: ram_svc_def peek in_write_range_def fun_eq_iff nth_append not_less)
  next
    case False
    show ?thesis
    proof (cases "d = []")
      case True
      moreover have "\<not> in_write_range a 0 x" for x
        by (simp add: in_write_range_def)
      ultimately show ?thesis
        using False by (simp add: ram_svc_def)
    next
      case ne: False
      let ?x = "a + of_nat (length d - 1)"
      have "unat a + (length d - 1) < 2 ^ 64"
        using b ne by (cases d) auto
      then have "unat ?x = unat a + (length d - 1)"
        by (rule write_end_unat)
      then have "in_write_range a (length d) ?x" "?x \<notin> dom (peek t)"
        using ne False by (cases d; auto simp: in_write_range_def peek split: if_splits)+
      then have "\<not> {x. in_write_range a (length d) x} \<subseteq> dom (peek t)"
        by blast
      with False show ?thesis
        by (simp add: ram_svc_def)
    qed
  qed
  then show ?thesis
    unfolding writes_bytes_def by blast
qed

lemma demo_nothing_enabled:
  "LoadProgram (demo_entries False False) (zeroed_vm []) = (True, zeroed_vm [])"
proof -
  have "list_all (\<lambda>c. \<not> enabled c) (demo_entries False False)"
    by (auto simp: list_all_length demo_entries_nth zero_entry_def)
  then show ?thesis
    by (simp add: LoadProgram_def LoadProgram_loop_disabled zeroed_vm_def)
qed


end
