(* ===== verification/Cheat_Attach.thy ===== *)
theory Cheat_Attach
  imports Cheat_Properties
begin

text \<open>
  Attaching and detaching across components: what saving toggles leaves in the file, how a
  successful launch went through loading both files, and what loading a well-formed cheat
  file yields.
\<close>

section \<open>Saving toggles\<close>

text \<open>
  What saving relies on of the file system, over the contents of files: a file that was
  deleted and created is empty, a file that exists can be opened, and a write at its end
  appends.
\<close>

definition appends_files :: "'m cheat_env \<Rightarrow> ('m \<Rightarrow> string \<Rightarrow> char list option) \<Rightarrow> bool" where
  "appends_files env content \<longleftrightarrow>
     (\<forall>t p. content (env_CreateFile env (env_DeleteFile env t p) p) p = Some []) \<and>
     (\<forall>t p c. content t p = Some c \<longrightarrow> env_OpenWrite env t p) \<and>
     (\<forall>t p c d. content t p = Some c \<longrightarrow>
        fst (env_WriteFile env t p (length c) d) \<and>
        content (snd (env_WriteFile env t p (length c) d)) p = Some (c @ d))"

text \<open>The offset is the length of what has been written.\<close>

definition written :: "('m \<Rightarrow> string \<Rightarrow> char list option) \<Rightarrow> string \<Rightarrow> char list \<Rightarrow> 'm \<times> nat \<Rightarrow> bool" where
  "written content path c st \<longleftrightarrow> content (fst st) path = Some c \<and> snd st = length c"

lemma save_write_appends:
  assumes "appends_files env content" "written content path c st"
  shows "written content path (c @ d) (save_write env path d st)"
proof -
  have "fst (env_WriteFile env (fst st) path (length c) d)"
    "content (snd (env_WriteFile env (fst st) path (length c) d)) path = Some (c @ d)"
    using assms unfolding appends_files_def written_def by blast+
  then show ?thesis
    using assms(2) by (simp add: written_def save_write_def split_beta)
qed

lemma save_entry_appends:
  assumes "appends_files env content" "written content path c st" "length (entry_name e) = ReadableNameSize"
  shows "written content path (c @ toggle_text e) (save_entry env path e st)"
proof (cases "entry_opcodes e = 0")
  case True
  with assms show ?thesis by (simp add: save_entry_def toggle_text_def)
next
  case False
  let ?name = "''['' @ c_string (entry_name e) @ '']'' @ [CHR 0x0A]"
  let ?flag = "(if enabled e then ''true'' else ''false'') @ [CHR 0x0A]"
  have "length (c_string (entry_name e)) \<le> ReadableNameSize"
    using assms(3) length_takeWhile_le [of "\<lambda>c. c \<noteq> NUL" "entry_name e"] by (simp add: c_string_def)
  then have "take (0x100 - 1) ?name = ?name"
    by (simp add: ReadableNameSize_def)
  then have "save_entry env path e st = save_write env path ?flag (save_write env path ?name st)"
    using False by (simp add: save_entry_def)
  moreover have "c @ toggle_text e = (c @ ?name) @ ?flag"
    using False by (simp add: toggle_text_def)
  ultimately show ?thesis
    using save_write_appends [OF assms(1) save_write_appends [OF assms(1,2)]] by (simp only:)
qed

lemma SaveCheatToggles_content:
  assumes "appends_files env content" "entries_wf (m_cheat_entries m)"
  shows "content (world (SaveCheatToggles env program m)) (toggles_path program) =
    Some (SaveCheatToggles_text (m_cheat_entries m))"
proof -
  let ?path = "toggles_path program" and ?es = "m_cheat_entries m"
  let ?t = "env_CreateFile env (env_DeleteFile env (world m) ?path) ?path"
  have start: "written content ?path [] (?t, 0)" and openw: "env_OpenWrite env ?t ?path"
    using assms(1) unfolding appends_files_def written_def by simp_all
  have names: "length (entry_name (?es ! i)) = ReadableNameSize" if "i < MaxCheatCount" for i
    using entries_wfD(2) [OF assms(2) that] by (simp add: wf_entry_def wf_CheatDefinition_def)
  have "written content ?path (c @ concat (map (\<lambda>i. toggle_text (?es ! i)) ks))
      (fold (\<lambda>i. save_entry env ?path (?es ! i)) ks st)"
    if "written content ?path c st" "set ks \<subseteq> {..<MaxCheatCount}" for ks c st
    using that
  proof (induction ks arbitrary: c st)
    case (Cons i ks)
    then have "written content ?path (c @ toggle_text (?es ! i)) (save_entry env ?path (?es ! i) st)"
      using names by (intro save_entry_appends [OF assms(1)]) auto
    from Cons.IH [OF this] Cons.prems show ?case
      by simp
  qed simp
  moreover have "set [1..<MaxCheatCount] \<subseteq> {..<MaxCheatCount}"
    by auto
  ultimately have "written content ?path (concat (map (\<lambda>i. toggle_text (?es ! i)) [1..<MaxCheatCount]))
      (fold (\<lambda>i. save_entry env ?path (?es ! i)) [1..<MaxCheatCount] (?t, 0))"
    using start by fastforce
  then show ?thesis
    using openw by (auto simp: SaveCheatToggles_def Let_def written_def SaveCheatToggles_text_def)
qed

section \<open>A launch that attaches\<close>

lemma attach_error_not_ok: "attach_error env launch err m \<noteq> Some (Inr u, m')"
  by (auto simp: attach_error_def fails_def bind_eq_Some_conv)

lemma attach_failure_not_ok: "attach_failure env launch m \<noteq> Some (Inr u, m')"
  by (simp add: attach_failure_def attach_error_not_ok)

text \<open>No operation changes the default setting.\<close>

lemma CloseActive_default:
  assumes "CloseActiveCheatProcess env m = Some m'"
  shows "m_enable_cheats_by_default m' = m_enable_cheats_by_default m"
proof -
  have reset: "m_enable_cheats_by_default (fold ResetCheatEntry ks x) = m_enable_cheats_by_default x" for ks x
    by (induction ks arbitrary: x) (simp_all add: ResetCheatEntry_def SetNeedsReloadVm_def)
  have save: "m_enable_cheats_by_default (SaveCheatToggles env program x) = m_enable_cheats_by_default x" for program x
    by (simp add: SaveCheatToggles_def Let_def)
  show ?thesis
    using assms
    by (auto simp: CloseActiveCheatProcess_def Let_def ResetAllCheatEntries_def ClearFrozenAddresses_def
        with_process_state_def reset save split: if_splits prod.splits)
qed

lemma HasActive_default:
  assumes "HasActiveCheatProcess env m = Some (active, m')"
  shows "m_enable_cheats_by_default m' = m_enable_cheats_by_default m"
  using assms CloseActive_default by (auto simp: HasActiveCheatProcess_def bind_eq_Some_conv split: if_splits)

text \<open>How a successful launch got to its end: through loading both files on cleared entries.\<close>

lemma attach_launch_cases:
  assumes "AttachToApplicationProcess env True m = Some (Inr (), m')" "manager_inv units m"
  obtains m1 m2 m3 md where
    "loading_inv units m1" "m_cheat_process_metadata m1 = md"
    "LoadCheats env (program_id md) (main_nso_module_id md) m1 = (True, m2)"
    "LoadCheatToggles env (program_id md) m2 = (True, m3)"
    "attach_open env True m3 = Some (Inr (), m')"
    "m_enable_cheats_by_default m1 = m_enable_cheats_by_default m"
proof -
  obtain active m0 where has: "HasActiveCheatProcess env m = Some (active, m0)"
    using assms(1) by (auto simp: AttachToApplicationProcess_def bind_eq_Some_conv)
  note inv0 = HasActive_spec(1) [OF assms(2) has]
  obtain mc where close: "CloseActiveCheatProcess env m0 = Some mc"
    using assms(1) has by (auto simp: AttachToApplicationProcess_def bind_eq_Some_conv)
  obtain pid where "attach_process env True (set_process_id pid mc) = Some (Inr (), m')"
    using assms(1) has close
    by (auto simp: AttachToApplicationProcess_def fails_def split: option.splits)
  then obtain md1 where "attach_modules env True ((set_process_id pid mc)\<lparr>m_cheat_process_metadata := md1\<rparr>) =
      Some (Inr (), m')"
    by (auto simp: attach_process_def Let_def bind_eq_Some_conv attach_error_not_ok attach_failure_not_ok
        split: option.splits if_splits)
  then obtain md where load: "attach_load env True (mc\<lparr>m_cheat_process_metadata := md\<rparr>) = Some (Inr (), m')"
    by (auto simp: attach_modules_def Let_def attach_error_not_ok attach_failure_not_ok set_process_id_def
        split: option.splits if_splits)
  let ?m1 = "mc\<lparr>m_cheat_process_metadata := md\<rparr>"
  have inv1: "loading_inv units ?m1"
    using CloseActive_spec [OF inv0 close] by (simp add: loading_inv_def)
  obtain c m2 where c: "LoadCheats env (program_id md) (main_nso_module_id md) ?m1 = (c, m2)"
    by (cases "LoadCheats env (program_id md) (main_nso_module_id md) ?m1")
  obtain l m3 where l: "(if c then LoadCheatToggles env (program_id md) m2 else (False, m2)) = (l, m3)"
    by (cases "if c then LoadCheatToggles env (program_id md) m2 else (False, m2)")
  have en: "m_enable_cheats_by_default ?m1 = m_enable_cheats_by_default m"
    using HasActive_default [OF has] CloseActive_default [OF close] by simp
  have "l \<and> attach_open env True m3 = Some (Inr (), m')"
    using load c l by (auto simp: attach_load_def attach_error_not_ok split: if_splits)
  moreover from this have c: "c"
    using l by (auto split: if_splits)
  ultimately show thesis
    using that [OF inv1, of md m2 m3] c l en \<open>LoadCheats env (program_id md) (main_nso_module_id md) ?m1 = (c, m2)\<close>
    by simp
qed

lemma attach_open_fields:
  assumes "attach_open env True m = Some (Inr (), m')"
  shows "m_cheat_entries m' = m_cheat_entries m" "m_cheat_process_metadata m' = m_cheat_process_metadata m"
    "m_needs_reload_vm m' = m_needs_reload_vm m" "frozen m' = frozen m" "m_debug_events_event m'"
    "m_cheat_process_event m'" "\<not> m_broken_unsafe (m_process m')"
proof -
  obtain h t m1 where m1: "StartProcess env (with_process_state (\<lambda>p. p\<lparr>target := t, m_cheat_process_debug_handle := h,
                           m_broken_unsafe := False, m_unsafe_break_event := True\<rparr>) m) = Some m1"
    "m' = m1\<lparr>m_debug_events_event := True, m_cheat_process_event := True\<rparr>"
    using assms by (auto simp: attach_open_def returns_def Let_def bind_eq_Some_conv attach_failure_not_ok
        split: option.splits prod.splits)
  obtain t' where "m1 = set_world t' (with_process_state (\<lambda>p. p\<lparr>target := t, m_cheat_process_debug_handle := h,
                           m_broken_unsafe := False, m_unsafe_break_event := True\<rparr>) m)"
    using StartProcess_world [OF m1(1)] by blast
  then show "m_cheat_entries m' = m_cheat_entries m" "m_cheat_process_metadata m' = m_cheat_process_metadata m"
    "m_needs_reload_vm m' = m_needs_reload_vm m" "frozen m' = frozen m" "m_debug_events_event m'"
    "m_cheat_process_event m'" "\<not> m_broken_unsafe (m_process m')"
    by (simp_all add: m1(2) set_world_def with_process_state_def)
qed

lemma LoadCheats_metadata:
  assumes "LoadCheats env program mid m = (ok, m')"
  shows "m_cheat_process_metadata m' = m_cheat_process_metadata m"
proof -
  have "m_cheat_process_metadata (fold ResetCheatEntry ks x) = m_cheat_process_metadata x" for ks x
    by (induction ks arbitrary: x) (simp_all add: ResetCheatEntry_def SetNeedsReloadVm_def)
  then show ?thesis
    using assms by (auto simp: LoadCheats_def Let_def ResetAllCheatEntries_def
        split: option.splits prod.splits if_splits)
qed

lemma LoadCheatToggles_metadata:
  assumes "LoadCheatToggles env program m = (ok, m')"
  shows "m_cheat_process_metadata m' = m_cheat_process_metadata m"
  using assms by (auto simp: LoadCheatToggles_def Let_def split: option.splits prod.splits if_splits)

section \<open>Reading a cheat file\<close>

lemma NUL_hex8: "NUL \<notin> set (hex8 w)"
proof
  assume "NUL \<in> set (hex8 w)"
  then obtain k where "hex_digit (unat w div 16 ^ (7 - k) mod 16) = NUL"
    by (auto simp: hex8_def)
  then have "of_char (hex_digit (unat w div 16 ^ (7 - k) mod 16)) = (0 :: nat)"
    by simp
  then show False
    using of_char_hex_digit [of "unat w div 16 ^ (7 - k) mod 16"] by (simp split: if_splits)
qed

lemma NUL_cheat_file:
  assumes "list_all cheat_ok cs" "pred_option cheat_ok mc"
  shows "NUL \<notin> set (cheat_file mc cs)"
proof -
  have lines: "NUL \<notin> set (opcode_lines ws)" for ws
    using NUL_hex8 by (auto simp: opcode_lines_def)
  show ?thesis
    using assms lines
    by (auto simp: cheat_file_def master_text_def cheat_text_def list_all_iff cheat_ok_def split: option.splits)
qed

lemma c_string_text: "NUL \<notin> set t \<Longrightarrow> c_string (t @ NUL # junk) = t"
  by (simp add: c_string_def takeWhile_append2 takeWhile_tail) (metis takeWhile_eq_all_conv)

text \<open>A file that is read without error and fits the buffer.\<close>

definition text_file :: "char list \<Rightarrow> sd_file" where
  "text_file t = \<lparr>sd_size = Some (int (length t)), sd_read = (True, t)\<rparr>"

lemma read_text_file_ok:
  assumes "length t < TextBufferSize" "length buf = TextBufferSize"
  shows "\<exists>junk. read_text_file (text_file t) buf = (True, t @ NUL # junk)"
proof -
  have "drop (length t) buf = buf ! length t # drop (Suc (length t)) buf"
    using assms by (simp add: Cons_nth_drop_Suc)
  then show ?thesis
    using assms by (auto simp: read_text_file_def text_file_def list_update_append)
qed

lemma LoadCheats_file:
  assumes "loading_inv units m" "env_OpenRead env (world m) (cheats_path program mid) = Some (text_file (cheat_file mc cs))"
    "list_all cheat_ok cs" "pred_option cheat_ok mc" "length cs < MaxCheatCount"
    "length (cheat_file mc cs) < TextBufferSize"
  shows "\<exists>m'. LoadCheats env program mid m = (True, m') \<and>
    m_cheat_entries m' = map (\<lambda>i. (stored_entry mc cs i)\<lparr>enabled :=
        (if i = 0 then mc \<noteq> None else i \<le> length cs \<and> m_enable_cheats_by_default m)\<rparr>) [0..<MaxCheatCount] \<and>
    m_cheat_process_metadata m' = m_cheat_process_metadata m \<and> world m' = world m"
proof -
  let ?m = "ResetAllCheatEntries m"
  have eq: "?m = m\<lparr>m_cheat_entries := map zero_entry [0..<MaxCheatCount], m_needs_reload_vm := True,
      m_cheat_vm := ResetStaticRegisters_vm (m_cheat_vm m)\<rparr>"
    and buf: "length (g_text_file_buffer m) = TextBufferSize"
    using assms(1) by (auto simp: loading_inv_def manager_inv_def ResetAllCheatEntries_eq)
  obtain junk where read: "read_text_file (text_file (cheat_file mc cs)) (g_text_file_buffer m) =
      (True, cheat_file mc cs @ NUL # junk)"
    using read_text_file_ok [OF assms(6) buf] by blast
  have contents: "c_string (cheat_file mc cs @ NUL # junk) = cheat_file mc cs"
    by (rule c_string_text [OF NUL_cheat_file [OF assms(3,4)]])
  show ?thesis
    using assms(2) parse_cheat_file [OF assms(3-5), of "m_enable_cheats_by_default m" junk] read contents
    by (simp add: LoadCheats_def eq Let_def)
qed

section \<open>From cheat file to running program\<close>

lemma cheat_opcodes_stored:
  assumes "cheat_ok c"
  shows "cheat_opcodes (e\<lparr>cheat_definition := cheat_def c\<rparr>) = snd c"
proof -
  have "unat (num_opcodes (cheat_def c)) = length (snd c)"
    by (rule cheat_def_opcodes(1) [OF assms])
  then show ?thesis
    by (auto simp: cheat_opcodes_def cheat_def_def nth_append intro: nth_equalityI)
qed

text \<open>The entries a cheat file describes, once loaded.\<close>

definition file_entry ::
    "bool \<Rightarrow> (char list \<times> u32 list) option \<Rightarrow> (char list \<times> u32 list) list \<Rightarrow> nat \<Rightarrow> CheatEntry" where
  "file_entry en mc cs i =
     (stored_entry mc cs i)\<lparr>enabled := (if i = 0 then mc \<noteq> None else i \<le> length cs \<and> en)\<rparr>"

text \<open>The program a cheat file describes: the master cheat, then the cheats if enabled by default.\<close>

definition file_program ::
    "bool \<Rightarrow> (char list \<times> u32 list) option \<Rightarrow> (char list \<times> u32 list) list \<Rightarrow> u32 list" where
  "file_program en mc cs =
     (case mc of None \<Rightarrow> [] | Some c \<Rightarrow> snd c) @ (if en then concat (map snd cs) else [])"

lemma file_entry_opcodes:
  assumes "list_all cheat_ok cs" "pred_option cheat_ok mc"
  shows "enabled (file_entry en mc cs i) \<Longrightarrow> cheat_opcodes (file_entry en mc cs i) =
    (if i = 0 then snd (the mc) else snd (cs ! (i - 1)))"
proof -
  assume on: "enabled (file_entry en mc cs i)"
  have upd: "file_entry en mc cs i =
      (zero_entry i\<lparr>enabled := True\<rparr>)\<lparr>cheat_definition := cheat_def (if i = 0 then the mc else cs ! (i - 1))\<rparr>"
    using on by (auto simp: file_entry_def stored_entry_def split: if_splits option.splits)
  moreover have "cheat_ok (if i = 0 then the mc else cs ! (i - 1))"
    using on assms by (auto simp: file_entry_def list_all_length split: if_splits)
  ultimately show ?thesis
    using cheat_opcodes_stored by (simp split: if_splits)
qed

lemma enabled_opcodes_append: "enabled_opcodes (xs @ ys) = enabled_opcodes xs @ enabled_opcodes ys"
  by (simp add: enabled_opcodes_def)

lemma enabled_opcodes_file:
  assumes "list_all cheat_ok cs" "pred_option cheat_ok mc" "length cs < MaxCheatCount"
  shows "enabled_opcodes (map (file_entry en mc cs) [0..<MaxCheatCount]) = file_program en mc cs"
proof -
  let ?f = "file_entry en mc cs"
  note ops = file_entry_opcodes [OF assms(1,2)]
  have "[0..<MaxCheatCount] = 0 # [1..<Suc (length cs)] @ [Suc (length cs)..<MaxCheatCount]"
    using assms(3) upt_add_eq_append [of 1 "Suc (length cs)" "MaxCheatCount - Suc (length cs)"]
    by (simp add: upt_conv_Cons del: upt_Suc)
  moreover have "enabled_opcodes (map ?f [1..<Suc (length cs)]) = (if en then concat (map snd cs) else [])"
  proof (cases en)
    case True
    then have "filter enabled (map ?f [1..<Suc (length cs)]) = map ?f [1..<Suc (length cs)]"
      by (auto simp: filter_id_conv file_entry_def)
    moreover have "map cheat_opcodes (map ?f [1..<Suc (length cs)]) = map snd cs"
    proof (rule nth_equalityI)
      fix i
      assume "i < length (map cheat_opcodes (map ?f [1..<Suc (length cs)]))"
      then have i: "i < length cs"
        by (simp del: upt_Suc)
      then have "enabled (?f (Suc i))"
        using True by (simp add: file_entry_def)
      then show "map cheat_opcodes (map ?f [1..<Suc (length cs)]) ! i = map snd cs ! i"
        using ops [of en "Suc i"] i by (simp del: upt_Suc)
    qed (simp del: upt_Suc)
    ultimately show ?thesis
      using True by (simp add: enabled_opcodes_def del: upt_Suc map_map)
  next
    case False
    then have "filter enabled (map ?f [1..<Suc (length cs)]) = []"
      by (auto simp: filter_empty_conv file_entry_def)
    with False show ?thesis
      by (simp add: enabled_opcodes_def)
  qed
  moreover have "filter enabled (map ?f [Suc (length cs)..<MaxCheatCount]) = []"
    by (auto simp: filter_empty_conv file_entry_def)
  then have "enabled_opcodes (map ?f [Suc (length cs)..<MaxCheatCount]) = []"
    by (simp only: enabled_opcodes_def list.map concat.simps)
  moreover have "enabled (?f 0) \<longleftrightarrow> mc \<noteq> None"
    by (simp add: file_entry_def)
  ultimately show ?thesis
    using ops [of en 0]
    by (cases mc) (simp_all add: enabled_opcodes_append file_program_def del: upt_Suc)
qed

text \<open>The launch on the concrete system, with a file of one cheat.\<close>

definition demo_cheat_list :: "(char list \<times> u32 list) list" where
  "demo_cheat_list = [(''Moon Jump'', [0x20000000])]"

lemma demo_cheat_list_ok:
  "list_all cheat_ok demo_cheat_list" "length demo_cheat_list < MaxCheatCount"
  "length (cheat_file None demo_cheat_list) < TextBufferSize"
  by (simp_all add: demo_cheat_list_def cheat_ok_def ReadableNameSize_def CheatOpcodesSize_def
      MaxCheatCount_def cheat_file_def master_text_def cheat_text_def opcode_lines_def TextBufferSize_def)

lemma paths_differ: "cheats_path program (replicate 32 0) \<noteq> toggles_path program"
proof
  assume "cheats_path program (replicate 32 0) = toggles_path program"
  then have "length (cheats_path program (replicate 32 0)) = length (toggles_path program)"
    by simp
  then show False
    by (simp add: cheats_path_def toggles_path_def cheats_directory_def hex_lower_def length_concat
        take_replicate sum_list_replicate map_replicate)
qed

lemma demo_env_sel:
  "env_GetApplicationProcessId (demo_env t) w = Some 0x51"
  "env_AtmosphereGetProcessInfo (demo_env t) w p = Some (9, 0x0100000000001000, True)"
  "env_GetInfo (demo_env t) w i h = Some 0x1000"
  by (simp_all add: demo_env_def)

lemma demo_launch:
  "\<exists>m'. AttachToApplicationProcess (demo_env (cheat_file None demo_cheat_list)) True (demo_started []) =
      Some (Inr (), m') \<and>
     program_id (m_cheat_process_metadata m') = 0x0100000000001000 \<and>
     main_nso_module_id (m_cheat_process_metadata m') = replicate 32 0"
proof -
  let ?txt = "cheat_file None demo_cheat_list" and ?m0 = "demo_started []"
  let ?env = "demo_env ?txt" and ?pg = "0x0100000000001000 :: u64"
  have d: "debug_handle ?m0 = 0" and inv: "manager_inv (frozen_units ?m0) ?m0"
    using Initialize_inv [OF demo_started_eq(1)] by simp_all
  have close: "CloseActiveCheatProcess ?env ?m0 = Some ?m0"
    using d by (simp add: CloseActiveCheatProcess_def)
  have load: "loading_inv (frozen_units ?m0) (?m0\<lparr>m_cheat_process_metadata := md\<rparr>)" for md
    using inv d CloseActive_spec(5) [OF inv close] by (simp add: loading_inv_def)
  let ?x = "\<lparr>ext_base = 0x1000, ext_size = 0x1000\<rparr> :: MemoryRegionExtents"
  define md where "md = (m_cheat_process_metadata ?m0)\<lparr>process_id := 0x51, program_id := ?pg, heap_extents := ?x,
    alias_extents := ?x, aslr_extents := ?x, main_nso_extents := \<lparr>ext_base = 0, ext_size = 0x1000\<rparr>,
    main_nso_module_id := replicate 32 0\<rparr>"
  let ?m1 = "?m0\<lparr>m_cheat_process_metadata := md\<rparr>"
  have "env_OpenRead ?env (world ?m1) (cheats_path ?pg (replicate 32 0)) = Some (text_file ?txt)"
    using paths_differ by (simp add: demo_env_def text_file_def)
  then obtain m2 where m2: "LoadCheats ?env ?pg (replicate 32 0) ?m1 = (True, m2)"
    using LoadCheats_file [OF load _ demo_cheat_list_ok(1), of ?env md ?pg "replicate 32 0" None] demo_cheat_list_ok(2,3)
    by auto
  let ?m3 = "m2\<lparr>m_should_save_cheat_toggles := False\<rparr>"
  have t: "LoadCheatToggles ?env ?pg m2 = (True, ?m3)"
    by (simp add: LoadCheatToggles_def demo_env_def Let_def)
  have md2: "m_cheat_process_metadata ?m3 = md"
    using LoadCheats_metadata [OF m2] by simp
  obtain m' where m': "attach_open ?env True ?m3 = Some (Inr (), m')"
    by (simp add: attach_open_def demo_env_def StartProcess_def returns_def Let_def)
  have "attach_load ?env True ?m1 = Some (Inr (), m')"
    using m2 t m' by (simp add: attach_load_def md_def Let_def)
  moreover have "attach_modules ?env True (?m0\<lparr>m_cheat_process_metadata := (m_cheat_process_metadata ?m0)
      \<lparr>process_id := 0x51, program_id := ?pg, heap_extents := ?x, alias_extents := ?x, aslr_extents := ?x\<rparr>\<rparr>) =
      attach_load ?env True ?m1"
    by (simp add: attach_modules_def demo_env_def md_def)
  moreover have "attach_process ?env True (set_process_id 0x51 ?m0) =
      attach_modules ?env True (?m0\<lparr>m_cheat_process_metadata := (m_cheat_process_metadata ?m0)
      \<lparr>process_id := 0x51, program_id := ?pg, heap_extents := ?x, alias_extents := ?x, aslr_extents := ?x\<rparr>\<rparr>)"
    by (simp add: attach_process_def set_process_id_def demo_env_sel)
  moreover have "AttachToApplicationProcess ?env True ?m0 = attach_process ?env True (set_process_id 0x51 ?m0)"
    using d close
    by (simp add: AttachToApplicationProcess_def HasActiveCheatProcess_def process_is_active_def demo_env_sel)
  ultimately have "AttachToApplicationProcess ?env True ?m0 = Some (Inr (), m')"
    by (simp only:)
  then show ?thesis
    using attach_open_fields(2) [OF m'] md2 by (simp add: md_def)
qed

section \<open>Toggles survive a restart\<close>

lemma NUL_toggles_text: "NUL \<notin> set (SaveCheatToggles_text es)"
proof -
  have "NUL \<notin> set (c_string xs)" for xs
    by (auto simp: c_string_def dest: set_takeWhileD)
  then show ?thesis
    by (auto simp: SaveCheatToggles_text_def toggle_text_def)
qed

lemma CloseActive_saves:
  assumes "CloseActiveCheatProcess env m = Some m'" "debug_handle m \<noteq> 0" "manager_inv units m"
    "m_always_save_cheat_toggles m \<or> m_should_save_cheat_toggles m" "appends_files env content"
  shows "content (world m') (toggles_path (program_id (m_cheat_process_metadata m))) =
    Some (SaveCheatToggles_text (m_cheat_entries m))"
proof -
  obtain t where t: "env_CloseHandle env (world m) (debug_handle m) = (True, t)"
    using assms(1,2) by (auto simp: CloseActiveCheatProcess_def split: prod.splits if_splits)
  define m1 where "m1 = with_process_state (\<lambda>p. p\<lparr>m_broken_unsafe := False, m_unsafe_break_event := True,
      target := t, m_cheat_process_debug_handle := 0\<rparr>) m"
  let ?pg = "program_id (m_cheat_process_metadata m)"
  have m1: "m_cheat_entries m1 = m_cheat_entries m"
    "m_always_save_cheat_toggles m1 \<or> m_should_save_cheat_toggles m1" "m_cheat_process_metadata m1 = m_cheat_process_metadata m"
    using assms(4) by (simp_all add: m1_def with_process_state_def)
  have reset: "world (fold ResetCheatEntry ks x) = world x" for ks x
    by (induction ks arbitrary: x) (simp_all add: ResetCheatEntry_def SetNeedsReloadVm_def)
  have "world m' = world (SaveCheatToggles env ?pg m1)"
    using assms(1,2) t m1
    by (auto simp: CloseActiveCheatProcess_def Let_def m1_def [symmetric] ResetAllCheatEntries_def
        ClearFrozenAddresses_def with_process_state_def [of _ "_ \<lparr>g_frozen_address_map_heap := _\<rparr>"] reset split_beta)
  moreover have "entries_wf (m_cheat_entries m1)"
    using assms(2,3) m1(1) by (simp add: manager_inv_def)
  ultimately show ?thesis
    using SaveCheatToggles_content [OF assms(5), of m1 ?pg] m1(1) by simp
qed

lemma LoadCheatToggles_file:
  assumes "loading_inv units m" "entries_wf (m_cheat_entries m)" "entries_wf es"
    "map entry_name (m_cheat_entries m) = map entry_name es" "toggle_names_ok es"
    "env_OpenRead env (world m) (toggles_path program) = Some (text_file (SaveCheatToggles_text es))"
    "length (SaveCheatToggles_text es) < TextBufferSize"
  shows "\<exists>m'. LoadCheatToggles env program m = (True, m') \<and> m_should_save_cheat_toggles m' \<and>
    m_cheat_entries m' = map (\<lambda>i. if 1 \<le> i \<and> entry_opcodes (es ! i) \<noteq> 0
        then (m_cheat_entries m ! i)\<lparr>enabled := enabled (es ! i)\<rparr> else m_cheat_entries m ! i) [0..<MaxCheatCount]"
proof -
  have buf: "length (g_text_file_buffer m) = TextBufferSize"
    using assms(1) by (simp add: loading_inv_def manager_inv_def)
  obtain junk where read: "read_text_file (text_file (SaveCheatToggles_text es)) (g_text_file_buffer m) =
      (True, SaveCheatToggles_text es @ NUL # junk)"
    using read_text_file_ok [OF assms(7) buf] by blast
  have "c_string (SaveCheatToggles_text es @ NUL # junk) = SaveCheatToggles_text es"
    by (rule c_string_text [OF NUL_toggles_text])
  then show ?thesis
    using assms(6) parse_saved_toggles [OF assms(3,2,4,5), of junk] read
    by (simp add: LoadCheatToggles_def Let_def)
qed

text \<open>A system whose world is a file system: paths with contents.\<close>

definition card_env :: "(string \<Rightarrow> char list option) cheat_env" where
  "card_env =
     \<lparr>env_svc = \<lparr>svc_Read = (\<lambda>m h a n. (False, [])), svc_Write = (\<lambda>m h d a. (False, m)),
                 svc_Break = (\<lambda>m h. (True, m)), svc_Continue = (\<lambda>m h. (True, m))\<rparr>,
      env_fills = (\<lambda>_. 0), env_ContinueCheatProcess = (\<lambda>m h. (Continued, m)),
      env_GetProcessId = (\<lambda>m h. Some 0x51), env_GetApplicationProcessId = (\<lambda>m. Some 0x51),
      env_CloseHandle = (\<lambda>m h. (True, m)), env_QueryDebugProcessMemory = (\<lambda>m h a. None),
      env_AtmosphereGetProcessInfo = (\<lambda>m p. None), env_GetInfo = (\<lambda>m i h. None),
      env_GetProcessModuleInfo = (\<lambda>m p n. None), env_DebugActiveProcess = (\<lambda>m p. (None, m)),
      env_StartProcess = (\<lambda>m p. (True, m)),
      env_OpenRead = (\<lambda>m path. map_option text_file (m path)),
      env_DeleteFile = (\<lambda>m path. m(path := None)), env_CreateFile = (\<lambda>m path. m(path := Some [])),
      env_OpenWrite = (\<lambda>m path. m path \<noteq> None),
      env_WriteFile = (\<lambda>m path off bytes.
        case m path of None \<Rightarrow> (False, m) | Some c \<Rightarrow> (True, m(path := Some (take off c @ bytes))))\<rparr>"

lemma card_appends: "appends_files card_env (\<lambda>m path. m path)"
  by (simp add: appends_files_def card_env_def)

lemma demo_toggles_short: "length (SaveCheatToggles_text (demo_entries a b)) < TextBufferSize"
proof -
  have max: "1 < MaxCheatCount" "2 < MaxCheatCount"
    by (simp_all add: MaxCheatCount_def)
  then have "[1..<MaxCheatCount] = 1 # 2 # [3..<MaxCheatCount]"
    by (simp add: upt_conv_Cons numeral_2_eq_2 numeral_3_eq_3)
  moreover have "concat (map (\<lambda>i. toggle_text (demo_entries a b ! i)) [3..<MaxCheatCount]) = []"
    by (auto simp: toggle_text_def demo_entries_nth zero_entry_def zero_definition_def)
  ultimately have "SaveCheatToggles_text (demo_entries a b) =
      toggle_text (demo_entries a b ! 1) @ toggle_text (demo_entries a b ! 2)"
    by (simp only: SaveCheatToggles_text_def list.map concat.simps append_Nil2)
  moreover have "length (toggle_text (demo_entries a b ! k)) \<le> 74" if "k < MaxCheatCount" for k
  proof -
    have "length (entry_name (demo_entries a b ! k)) = 64"
      using entries_wfD(2) [OF demo_entries_wf that]
      by (simp add: wf_entry_def wf_CheatDefinition_def ReadableNameSize_def)
    then show ?thesis
      using length_takeWhile_le [of "\<lambda>c. c \<noteq> NUL" "entry_name (demo_entries a b ! k)"]
      by (simp add: toggle_text_def c_string_def)
  qed
  from this [OF max(1)] this [OF max(2)]
  have "length (toggle_text (demo_entries a b ! 1) @ toggle_text (demo_entries a b ! 2)) \<le> 148"
    by simp
  ultimately show ?thesis
    by (simp add: TextBufferSize_def)
qed

end
