(* ===== verification/Rb_Tree.thy ===== *)
theory Rb_Tree
  imports Ams_Prelude "HOL-Library.Monad_Syntax"
begin

text \<open>
  The intrusive red-black tree (\<^verbatim>\<open>vapours/freebsd/tree.hpp\<close>): nodes with left, right and
  parent pointers and a colour, updated in place. A node is its address, the null pointer is
  \<open>0\<close>, and the entries of all nodes are one store. An operation that dereferences the null
  pointer or never returns is \<open>None\<close>; the properties show that none does on a tree that
  the operations built.
\<close>

section \<open>Entries and the head\<close>

datatype RBColor = RB_RED | RB_BLACK

record RBEntry =
  m_rbe_left :: nat
  m_rbe_right :: nat
  m_rbe_parent :: nat
  m_rbe_color :: RBColor

record RBTree =
  rb_entry :: "nat \<Rightarrow> RBEntry"
  m_rbh_root :: nat

definition RB_LEFT :: "RBTree \<Rightarrow> nat \<Rightarrow> nat" where
  "RB_LEFT h t = m_rbe_left (rb_entry h t)"

definition RB_RIGHT :: "RBTree \<Rightarrow> nat \<Rightarrow> nat" where
  "RB_RIGHT h t = m_rbe_right (rb_entry h t)"

definition RB_PARENT :: "RBTree \<Rightarrow> nat \<Rightarrow> nat" where
  "RB_PARENT h t = m_rbe_parent (rb_entry h t)"

definition RB_COLOR :: "RBTree \<Rightarrow> nat \<Rightarrow> RBColor" where
  "RB_COLOR h t = m_rbe_color (rb_entry h t)"

definition RB_IS_BLACK :: "RBTree \<Rightarrow> nat \<Rightarrow> bool" where
  "RB_IS_BLACK h t \<longleftrightarrow> RB_COLOR h t = RB_BLACK"

definition RB_IS_RED :: "RBTree \<Rightarrow> nat \<Rightarrow> bool" where
  "RB_IS_RED h t \<longleftrightarrow> RB_COLOR h t = RB_RED"

definition SetRBEntry :: "nat \<Rightarrow> RBEntry \<Rightarrow> RBTree \<Rightarrow> RBTree" where
  "SetRBEntry t x h = h\<lparr>rb_entry := (rb_entry h)(t := x)\<rparr>"

definition RB_SET_LEFT :: "nat \<Rightarrow> nat \<Rightarrow> RBTree \<Rightarrow> RBTree" where
  "RB_SET_LEFT t e h = SetRBEntry t ((rb_entry h t)\<lparr>m_rbe_left := e\<rparr>) h"

definition RB_SET_RIGHT :: "nat \<Rightarrow> nat \<Rightarrow> RBTree \<Rightarrow> RBTree" where
  "RB_SET_RIGHT t e h = SetRBEntry t ((rb_entry h t)\<lparr>m_rbe_right := e\<rparr>) h"

definition RB_SET_PARENT :: "nat \<Rightarrow> nat \<Rightarrow> RBTree \<Rightarrow> RBTree" where
  "RB_SET_PARENT t e h = SetRBEntry t ((rb_entry h t)\<lparr>m_rbe_parent := e\<rparr>) h"

definition RB_SET_COLOR :: "nat \<Rightarrow> RBColor \<Rightarrow> RBTree \<Rightarrow> RBTree" where
  "RB_SET_COLOR t c h = SetRBEntry t ((rb_entry h t)\<lparr>m_rbe_color := c\<rparr>) h"

definition SetRoot :: "nat \<Rightarrow> RBTree \<Rightarrow> RBTree" where
  "SetRoot r h = h\<lparr>m_rbh_root := r\<rparr>"

definition RB_SET :: "nat \<Rightarrow> nat \<Rightarrow> RBTree \<Rightarrow> RBTree" where
  "RB_SET elm parent h =
     SetRBEntry elm \<lparr>m_rbe_left = 0, m_rbe_right = 0, m_rbe_parent = parent, m_rbe_color = RB_RED\<rparr> h"

definition RB_SET_BLACKRED :: "nat \<Rightarrow> nat \<Rightarrow> RBTree \<Rightarrow> RBTree" where
  "RB_SET_BLACKRED black red h = RB_SET_COLOR red RB_RED (RB_SET_COLOR black RB_BLACK h)"

section \<open>Rotations\<close>

definition RB_ROTATE_LEFT :: "RBTree \<Rightarrow> nat \<Rightarrow> RBTree option" where
  "RB_ROTATE_LEFT h elm =
     (let tmp = RB_RIGHT h elm
      in if tmp = 0 then None
         else
           (let h = RB_SET_RIGHT elm (RB_LEFT h tmp) h;
                h = (if RB_RIGHT h elm \<noteq> 0 then RB_SET_PARENT (RB_LEFT h tmp) elm h else h);
                h = RB_SET_PARENT tmp (RB_PARENT h elm) h;
                h = (if RB_PARENT h tmp \<noteq> 0
                     then if elm = RB_LEFT h (RB_PARENT h elm)
                          then RB_SET_LEFT (RB_PARENT h elm) tmp h
                          else RB_SET_RIGHT (RB_PARENT h elm) tmp h
                     else SetRoot tmp h)
            in Some (RB_SET_PARENT elm tmp (RB_SET_LEFT tmp elm h))))"

definition RB_ROTATE_RIGHT :: "RBTree \<Rightarrow> nat \<Rightarrow> RBTree option" where
  "RB_ROTATE_RIGHT h elm =
     (let tmp = RB_LEFT h elm
      in if tmp = 0 then None
         else
           (let h = RB_SET_LEFT elm (RB_RIGHT h tmp) h;
                h = (if RB_LEFT h elm \<noteq> 0 then RB_SET_PARENT (RB_RIGHT h tmp) elm h else h);
                h = RB_SET_PARENT tmp (RB_PARENT h elm) h;
                h = (if RB_PARENT h tmp \<noteq> 0
                     then if elm = RB_LEFT h (RB_PARENT h elm)
                          then RB_SET_LEFT (RB_PARENT h elm) tmp h
                          else RB_SET_RIGHT (RB_PARENT h elm) tmp h
                     else SetRoot tmp h)
            in Some (RB_SET_PARENT elm tmp (RB_SET_RIGHT tmp elm h))))"

section \<open>Removal\<close>

definition black_or_null :: "RBTree \<Rightarrow> nat \<Rightarrow> bool" where
  "black_or_null h t \<longleftrightarrow> t = 0 \<or> RB_IS_BLACK h t"

text \<open>
  One iteration of the loop of \<^verbatim>\<open>RB_REMOVE_COLOR\<close>, for an element on the left and on the right
  of its parent. The flag tells whether the iteration leaves the loop; then come the tree, the
  parent and the element.
\<close>

definition remove_color_left :: "RBTree \<Rightarrow> nat \<Rightarrow> (bool \<times> RBTree \<times> nat \<times> nat) option" where
  "remove_color_left h parent =
     (let tmp = RB_RIGHT h parent
      in if tmp = 0 then None
         else
           do { h \<leftarrow> (if RB_IS_RED h tmp then RB_ROTATE_LEFT (RB_SET_BLACKRED tmp parent h) parent
                     else Some h);
                let tmp = RB_RIGHT h parent;
                if tmp = 0 then None
                else if black_or_null h (RB_LEFT h tmp) \<and> black_or_null h (RB_RIGHT h tmp)
                then (let h = RB_SET_COLOR tmp RB_RED h in Some (False, h, RB_PARENT h parent, parent))
                else
                  do { h \<leftarrow> (if black_or_null h (RB_RIGHT h tmp)
                            then (let oleft = RB_LEFT h tmp;
                                      h = (if oleft \<noteq> 0 then RB_SET_COLOR oleft RB_BLACK h else h)
                                  in RB_ROTATE_RIGHT (RB_SET_COLOR tmp RB_RED h) tmp)
                            else Some h);
                       let tmp = RB_RIGHT h parent;
                       if tmp = 0 then None
                       else
                         (let h = RB_SET_COLOR tmp (RB_COLOR h parent) h;
                              h = RB_SET_COLOR parent RB_BLACK h;
                              h = (if RB_RIGHT h tmp \<noteq> 0 then RB_SET_COLOR (RB_RIGHT h tmp) RB_BLACK h else h)
                          in do { h \<leftarrow> RB_ROTATE_LEFT h parent; Some (True, h, parent, m_rbh_root h) }) } })"

definition remove_color_right :: "RBTree \<Rightarrow> nat \<Rightarrow> (bool \<times> RBTree \<times> nat \<times> nat) option" where
  "remove_color_right h parent =
     (let tmp = RB_LEFT h parent
      in if tmp = 0 then None
         else
           do { h \<leftarrow> (if RB_IS_RED h tmp then RB_ROTATE_RIGHT (RB_SET_BLACKRED tmp parent h) parent
                     else Some h);
                let tmp = RB_LEFT h parent;
                if tmp = 0 then None
                else if black_or_null h (RB_LEFT h tmp) \<and> black_or_null h (RB_RIGHT h tmp)
                then (let h = RB_SET_COLOR tmp RB_RED h in Some (False, h, RB_PARENT h parent, parent))
                else
                  do { h \<leftarrow> (if black_or_null h (RB_LEFT h tmp)
                            then (let oright = RB_RIGHT h tmp;
                                      h = (if oright \<noteq> 0 then RB_SET_COLOR oright RB_BLACK h else h)
                                  in RB_ROTATE_LEFT (RB_SET_COLOR tmp RB_RED h) tmp)
                            else Some h);
                       let tmp = RB_LEFT h parent;
                       if tmp = 0 then None
                       else
                         (let h = RB_SET_COLOR tmp (RB_COLOR h parent) h;
                              h = RB_SET_COLOR parent RB_BLACK h;
                              h = (if RB_LEFT h tmp \<noteq> 0 then RB_SET_COLOR (RB_LEFT h tmp) RB_BLACK h else h)
                          in do { h \<leftarrow> RB_ROTATE_RIGHT h parent; Some (True, h, parent, m_rbh_root h) }) } })"

partial_function (option) remove_color_loop :: "RBTree \<Rightarrow> nat \<Rightarrow> nat \<Rightarrow> (RBTree \<times> nat) option" where
  "remove_color_loop h parent elm =
     (if black_or_null h elm \<and> elm \<noteq> m_rbh_root h
      then if parent = 0 then None
           else
             do { (finished, h, parent, elm) \<leftarrow>
                    (if RB_LEFT h parent = elm then remove_color_left h parent
                     else remove_color_right h parent);
                  if finished then Some (h, elm) else remove_color_loop h parent elm }
      else Some (h, elm))"

definition RB_REMOVE_COLOR :: "RBTree \<Rightarrow> nat \<Rightarrow> nat \<Rightarrow> RBTree option" where
  "RB_REMOVE_COLOR h parent elm =
     do { (h, elm) \<leftarrow> remove_color_loop h parent elm;
          Some (if elm \<noteq> 0 then RB_SET_COLOR elm RB_BLACK h else h) }"

text \<open>The leftmost node below \<open>elm\<close>, which is not null, and its mirror image.\<close>

partial_function (option) leftmost :: "RBTree \<Rightarrow> nat \<Rightarrow> nat option" where
  "leftmost h elm = (if RB_LEFT h elm \<noteq> 0 then leftmost h (RB_LEFT h elm) else Some elm)"

partial_function (option) rightmost :: "RBTree \<Rightarrow> nat \<Rightarrow> nat option" where
  "rightmost h elm = (if RB_RIGHT h elm \<noteq> 0 then rightmost h (RB_RIGHT h elm) else Some elm)"

text \<open>\<open>child\<close> takes the place of \<open>elm\<close> below \<open>parent\<close>, or as the root.\<close>

definition relink :: "nat \<Rightarrow> nat \<Rightarrow> nat \<Rightarrow> RBTree \<Rightarrow> RBTree" where
  "relink parent elm child h =
     (if parent \<noteq> 0
      then if RB_LEFT h parent = elm then RB_SET_LEFT parent child h else RB_SET_RIGHT parent child h
      else SetRoot child h)"

definition splice_out :: "nat \<Rightarrow> nat \<Rightarrow> nat \<Rightarrow> RBTree \<Rightarrow> RBTree" where
  "splice_out parent elm child h =
     relink parent elm child (if child \<noteq> 0 then RB_SET_PARENT child parent h else h)"

definition RB_REMOVE :: "RBTree \<Rightarrow> nat \<Rightarrow> RBTree option" where
  "RB_REMOVE h old =
     (if RB_LEFT h old = 0 \<or> RB_RIGHT h old = 0
      then (let child = (if RB_LEFT h old = 0 then RB_RIGHT h old else RB_LEFT h old);
                parent = RB_PARENT h old;
                color = RB_COLOR h old;
                h = splice_out parent old child h
            in if color = RB_BLACK then RB_REMOVE_COLOR h parent child else Some h)
      else
        do { elm \<leftarrow> leftmost h (RB_RIGHT h old);
             let child = RB_RIGHT h elm;
             let parent = RB_PARENT h elm;
             let color = RB_COLOR h elm;
             let h = splice_out parent elm child h;
             let parent = (if RB_PARENT h elm = old then elm else parent);
             let h = SetRBEntry elm (rb_entry h old) h;
             let h = relink (RB_PARENT h old) old elm h;
             let h = RB_SET_PARENT (RB_LEFT h old) elm h;
             let h = (if RB_RIGHT h old \<noteq> 0 then RB_SET_PARENT (RB_RIGHT h old) elm h else h);
             if color = RB_BLACK then RB_REMOVE_COLOR h parent child else Some h })"

section \<open>Insertion\<close>

partial_function (option) insert_color_loop :: "RBTree \<Rightarrow> nat \<Rightarrow> RBTree option" where
  "insert_color_loop h elm =
     (let parent = RB_PARENT h elm
      in if parent \<noteq> 0 \<and> RB_IS_RED h parent
         then (let gparent = RB_PARENT h parent
               in if gparent = 0 then None
                  else if parent = RB_LEFT h gparent
                  then (let tmp = RB_RIGHT h gparent
                        in if tmp \<noteq> 0 \<and> RB_IS_RED h tmp
                           then insert_color_loop
                                  (RB_SET_BLACKRED parent gparent (RB_SET_COLOR tmp RB_BLACK h)) gparent
                           else
                             do { (h, parent, elm) \<leftarrow>
                                    (if RB_RIGHT h parent = elm
                                     then do { h \<leftarrow> RB_ROTATE_LEFT h parent; Some (h, elm, parent) }
                                     else Some (h, parent, elm));
                                  h \<leftarrow> RB_ROTATE_RIGHT (RB_SET_BLACKRED parent gparent h) gparent;
                                  insert_color_loop h elm })
                  else (let tmp = RB_LEFT h gparent
                        in if tmp \<noteq> 0 \<and> RB_IS_RED h tmp
                           then insert_color_loop
                                  (RB_SET_BLACKRED parent gparent (RB_SET_COLOR tmp RB_BLACK h)) gparent
                           else
                             do { (h, parent, elm) \<leftarrow>
                                    (if RB_LEFT h parent = elm
                                     then do { h \<leftarrow> RB_ROTATE_RIGHT h parent; Some (h, elm, parent) }
                                     else Some (h, parent, elm));
                                  h \<leftarrow> RB_ROTATE_LEFT (RB_SET_BLACKRED parent gparent h) gparent;
                                  insert_color_loop h elm }))
         else Some h)"

definition RB_INSERT_COLOR :: "RBTree \<Rightarrow> nat \<Rightarrow> RBTree option" where
  "RB_INSERT_COLOR h elm =
     do { h \<leftarrow> insert_color_loop h elm;
          if m_rbh_root h = 0 then None else Some (RB_SET_COLOR (m_rbh_root h) RB_BLACK h) }"

text \<open>
  The search of the insertion point. \<open>cmp\<close> is the comparison of the sought element or key
  with a node. The result is the node found, or else the last node seen and the comparison there.
\<close>

partial_function (option) insert_point ::
    "RBTree \<Rightarrow> (nat \<Rightarrow> int) \<Rightarrow> nat \<Rightarrow> nat \<Rightarrow> int \<Rightarrow> (nat + nat \<times> int) option" where
  "insert_point h cmp tmp parent c =
     (if tmp = 0 then Some (Inr (parent, c))
      else if cmp tmp < 0 then insert_point h cmp (RB_LEFT h tmp) tmp (cmp tmp)
      else if 0 < cmp tmp then insert_point h cmp (RB_RIGHT h tmp) tmp (cmp tmp)
      else Some (Inl tmp))"

definition RB_INSERT :: "RBTree \<Rightarrow> nat \<Rightarrow> (nat \<Rightarrow> int) \<Rightarrow> (nat \<times> RBTree) option" where
  "RB_INSERT h elm cmp =
     do { found \<leftarrow> insert_point h cmp (m_rbh_root h) 0 0;
          case found of
            Inl tmp \<Rightarrow> Some (tmp, h)
          | Inr (parent, c) \<Rightarrow>
              do { let h = RB_SET elm parent h;
                   let h = (if parent \<noteq> 0
                            then if c < 0 then RB_SET_LEFT parent elm h else RB_SET_RIGHT parent elm h
                            else SetRoot elm h);
                   h \<leftarrow> RB_INSERT_COLOR h elm;
                   Some (0, h) } }"

section \<open>Searching and walking\<close>

text \<open>
  \<^verbatim>\<open>RB_FIND\<close> and \<^verbatim>\<open>RB_FIND_KEY\<close> are the same loop over a comparison with an element or with a
  key, as are \<^verbatim>\<open>RB_NFIND\<close> and \<^verbatim>\<open>RB_NFIND_KEY\<close>, and the two searches for an existing node, which
  dereference the null pointer when there is none.
\<close>

partial_function (option) find_loop :: "RBTree \<Rightarrow> (nat \<Rightarrow> int) \<Rightarrow> nat \<Rightarrow> nat option" where
  "find_loop h cmp tmp =
     (if tmp = 0 then Some 0
      else if cmp tmp < 0 then find_loop h cmp (RB_LEFT h tmp)
      else if 0 < cmp tmp then find_loop h cmp (RB_RIGHT h tmp)
      else Some tmp)"

definition RB_FIND :: "RBTree \<Rightarrow> nat \<Rightarrow> (nat \<Rightarrow> nat \<Rightarrow> int) \<Rightarrow> nat option" where
  "RB_FIND h elm cmp = find_loop h (cmp elm) (m_rbh_root h)"

definition RB_FIND_KEY :: "RBTree \<Rightarrow> 'k \<Rightarrow> ('k \<Rightarrow> nat \<Rightarrow> int) \<Rightarrow> nat option" where
  "RB_FIND_KEY h key cmp = find_loop h (cmp key) (m_rbh_root h)"

partial_function (option) nfind_loop :: "RBTree \<Rightarrow> (nat \<Rightarrow> int) \<Rightarrow> nat \<Rightarrow> nat \<Rightarrow> nat option" where
  "nfind_loop h cmp tmp res =
     (if tmp = 0 then Some res
      else if cmp tmp < 0 then nfind_loop h cmp (RB_LEFT h tmp) tmp
      else if 0 < cmp tmp then nfind_loop h cmp (RB_RIGHT h tmp) res
      else Some tmp)"

definition RB_NFIND :: "RBTree \<Rightarrow> nat \<Rightarrow> (nat \<Rightarrow> nat \<Rightarrow> int) \<Rightarrow> nat option" where
  "RB_NFIND h elm cmp = nfind_loop h (cmp elm) (m_rbh_root h) 0"

definition RB_NFIND_KEY :: "RBTree \<Rightarrow> 'k \<Rightarrow> ('k \<Rightarrow> nat \<Rightarrow> int) \<Rightarrow> nat option" where
  "RB_NFIND_KEY h key cmp = nfind_loop h (cmp key) (m_rbh_root h) 0"

partial_function (option) find_existing_loop :: "RBTree \<Rightarrow> (nat \<Rightarrow> int) \<Rightarrow> nat \<Rightarrow> nat option" where
  "find_existing_loop h cmp tmp =
     (if tmp = 0 then None
      else if cmp tmp < 0 then find_existing_loop h cmp (RB_LEFT h tmp)
      else if 0 < cmp tmp then find_existing_loop h cmp (RB_RIGHT h tmp)
      else Some tmp)"

definition RB_FIND_EXISTING :: "RBTree \<Rightarrow> nat \<Rightarrow> (nat \<Rightarrow> nat \<Rightarrow> int) \<Rightarrow> nat option" where
  "RB_FIND_EXISTING h elm cmp = find_existing_loop h (cmp elm) (m_rbh_root h)"

definition RB_FIND_EXISTING_KEY :: "RBTree \<Rightarrow> 'k \<Rightarrow> ('k \<Rightarrow> nat \<Rightarrow> int) \<Rightarrow> nat option" where
  "RB_FIND_EXISTING_KEY h key cmp = find_existing_loop h (cmp key) (m_rbh_root h)"

text \<open>Climbing while the node is a right (left) child.\<close>

partial_function (option) climb_right :: "RBTree \<Rightarrow> nat \<Rightarrow> nat option" where
  "climb_right h elm =
     (if RB_PARENT h elm \<noteq> 0 \<and> elm = RB_RIGHT h (RB_PARENT h elm) then climb_right h (RB_PARENT h elm)
      else Some elm)"

partial_function (option) climb_left :: "RBTree \<Rightarrow> nat \<Rightarrow> nat option" where
  "climb_left h elm =
     (if RB_PARENT h elm \<noteq> 0 \<and> elm = RB_LEFT h (RB_PARENT h elm) then climb_left h (RB_PARENT h elm)
      else Some elm)"

definition RB_NEXT :: "RBTree \<Rightarrow> nat \<Rightarrow> nat option" where
  "RB_NEXT h elm =
     (if RB_RIGHT h elm \<noteq> 0 then leftmost h (RB_RIGHT h elm)
      else if RB_PARENT h elm \<noteq> 0 \<and> elm = RB_LEFT h (RB_PARENT h elm) then Some (RB_PARENT h elm)
      else do { elm \<leftarrow> climb_right h elm; Some (RB_PARENT h elm) })"

definition RB_PREV :: "RBTree \<Rightarrow> nat \<Rightarrow> nat option" where
  "RB_PREV h elm =
     (if RB_LEFT h elm \<noteq> 0 then rightmost h (RB_LEFT h elm)
      else if RB_PARENT h elm \<noteq> 0 \<and> elm = RB_RIGHT h (RB_PARENT h elm) then Some (RB_PARENT h elm)
      else do { elm \<leftarrow> climb_left h elm; Some (RB_PARENT h elm) })"

partial_function (option) min_loop :: "RBTree \<Rightarrow> nat \<Rightarrow> nat \<Rightarrow> nat option" where
  "min_loop h tmp parent = (if tmp = 0 then Some parent else min_loop h (RB_LEFT h tmp) tmp)"

definition RB_MIN :: "RBTree \<Rightarrow> nat option" where
  "RB_MIN h = min_loop h (m_rbh_root h) 0"

partial_function (option) max_loop :: "RBTree \<Rightarrow> nat \<Rightarrow> nat \<Rightarrow> nat option" where
  "max_loop h tmp parent = (if tmp = 0 then Some parent else max_loop h (RB_RIGHT h tmp) tmp)"

definition RB_MAX :: "RBTree \<Rightarrow> nat option" where
  "RB_MAX h = max_loop h (m_rbh_root h) 0"

section \<open>The tree behind the pointers\<close>

datatype ptree = Tip | Bin RBColor ptree nat ptree

fun inorder :: "ptree \<Rightarrow> nat list" where
  "inorder Tip = []"
| "inorder (Bin c l p r) = inorder l @ p # inorder r"

fun root_of :: "ptree \<Rightarrow> nat" where
  "root_of Tip = 0"
| "root_of (Bin c l p r) = p"

text \<open>\<open>rep h q t\<close>: below the node \<open>q\<close> the store holds the tree \<open>t\<close>.\<close>

fun rep :: "RBTree \<Rightarrow> nat \<Rightarrow> ptree \<Rightarrow> bool" where
  "rep h q Tip \<longleftrightarrow> True"
| "rep h q (Bin c l p r) \<longleftrightarrow>
     p \<noteq> 0 \<and> RB_LEFT h p = root_of l \<and> RB_RIGHT h p = root_of r \<and> RB_PARENT h p = q \<and>
     RB_COLOR h p = c \<and> rep h p l \<and> rep h p r"

text \<open>
  The path from a subtree to the root, innermost first: at each step the parent, with its
  colour and its other subtree.
\<close>

datatype frame = InLeft RBColor nat ptree | InRight RBColor ptree nat

fun up :: "frame \<Rightarrow> ptree \<Rightarrow> ptree" where
  "up (InLeft c p r) t = Bin c t p r"
| "up (InRight c l p) t = Bin c l p t"

definition plug :: "frame list \<Rightarrow> ptree \<Rightarrow> ptree" where
  "plug fs t = foldl (\<lambda>t f. up f t) t fs"

fun frame_node :: "frame \<Rightarrow> nat" where
  "frame_node (InLeft c p r) = p"
| "frame_node (InRight c l p) = p"

fun frame_color :: "frame \<Rightarrow> RBColor" where
  "frame_color (InLeft c p r) = c"
| "frame_color (InRight c l p) = c"

definition top_node :: "frame list \<Rightarrow> nat" where
  "top_node fs = (case fs of [] \<Rightarrow> 0 | f # _ \<Rightarrow> frame_node f)"

fun frame_rep :: "RBTree \<Rightarrow> nat \<Rightarrow> nat \<Rightarrow> frame \<Rightarrow> bool" where
  "frame_rep h q x (InLeft c p r) \<longleftrightarrow>
     p \<noteq> 0 \<and> RB_LEFT h p = x \<and> RB_RIGHT h p = root_of r \<and> RB_PARENT h p = q \<and> RB_COLOR h p = c \<and> rep h p r"
| "frame_rep h q x (InRight c l p) \<longleftrightarrow>
     p \<noteq> 0 \<and> RB_LEFT h p = root_of l \<and> RB_RIGHT h p = x \<and> RB_PARENT h p = q \<and> RB_COLOR h p = c \<and> rep h p l"

fun path_rep :: "RBTree \<Rightarrow> nat \<Rightarrow> frame list \<Rightarrow> bool" where
  "path_rep h x [] \<longleftrightarrow> m_rbh_root h = x"
| "path_rep h x (f # fs) \<longleftrightarrow> frame_rep h (top_node fs) x f \<and> path_rep h (frame_node f) fs"

fun left_part :: "frame list \<Rightarrow> nat list" where
  "left_part [] = []"
| "left_part (InLeft c p r # fs) = left_part fs"
| "left_part (InRight c l p # fs) = left_part fs @ inorder l @ [p]"

fun right_part :: "frame list \<Rightarrow> nat list" where
  "right_part [] = []"
| "right_part (InLeft c p r # fs) = p # inorder r @ right_part fs"
| "right_part (InRight c l p # fs) = right_part fs"

definition tree_rep :: "RBTree \<Rightarrow> ptree \<Rightarrow> bool" where
  "tree_rep h t \<longleftrightarrow> rep h 0 t \<and> m_rbh_root h = root_of t \<and> distinct (inorder t)"

text \<open>The focused form: a path and the subtree below it.\<close>

definition focus_rep :: "RBTree \<Rightarrow> frame list \<Rightarrow> ptree \<Rightarrow> bool" where
  "focus_rep h fs t \<longleftrightarrow> path_rep h (root_of t) fs \<and> rep h (top_node fs) t \<and>
     distinct (left_part fs @ inorder t @ right_part fs)"

lemma plug_simps [simp]:
  "plug [] t = t" "plug (f # fs) t = plug fs (up f t)"
  by (simp_all add: plug_def)

lemma plug_append: "plug (fs @ gs) t = plug gs (plug fs t)"
  by (simp add: plug_def)

lemma top_node_simps [simp]: "top_node [] = 0" "top_node (f # fs) = frame_node f"
  by (simp_all add: top_node_def)

lemma inorder_plug: "inorder (plug fs t) = left_part fs @ inorder t @ right_part fs"
proof (induction fs arbitrary: t)
  case (Cons f fs)
  then show ?case by (cases f) simp_all
qed simp

lemma focus_up: "focus_rep h (f # fs) t \<longleftrightarrow> focus_rep h fs (up f t)"
  by (cases f) (auto simp: focus_rep_def)

lemma tree_rep_focus: "tree_rep h (plug fs t) \<longleftrightarrow> focus_rep h fs t"
proof (induction fs arbitrary: t)
  case Nil
  then show ?case by (auto simp: tree_rep_def focus_rep_def)
next
  case (Cons f fs)
  then show ?case by (simp add: focus_up)
qed

section \<open>Frame lemmas of the store\<close>

lemmas entry_defs = RB_LEFT_def RB_RIGHT_def RB_PARENT_def RB_COLOR_def SetRBEntry_def SetRoot_def
  RB_SET_LEFT_def RB_SET_RIGHT_def RB_SET_PARENT_def RB_SET_COLOR_def RB_SET_def

lemma set_left_fields [simp]:
  "RB_LEFT (RB_SET_LEFT t e h) = (RB_LEFT h)(t := e)" "RB_RIGHT (RB_SET_LEFT t e h) = RB_RIGHT h"
  "RB_PARENT (RB_SET_LEFT t e h) = RB_PARENT h" "RB_COLOR (RB_SET_LEFT t e h) = RB_COLOR h"
  "m_rbh_root (RB_SET_LEFT t e h) = m_rbh_root h"
  by (auto simp: entry_defs fun_eq_iff)

lemma set_right_fields [simp]:
  "RB_LEFT (RB_SET_RIGHT t e h) = RB_LEFT h" "RB_RIGHT (RB_SET_RIGHT t e h) = (RB_RIGHT h)(t := e)"
  "RB_PARENT (RB_SET_RIGHT t e h) = RB_PARENT h" "RB_COLOR (RB_SET_RIGHT t e h) = RB_COLOR h"
  "m_rbh_root (RB_SET_RIGHT t e h) = m_rbh_root h"
  by (auto simp: entry_defs fun_eq_iff)

lemma set_parent_fields [simp]:
  "RB_LEFT (RB_SET_PARENT t e h) = RB_LEFT h" "RB_RIGHT (RB_SET_PARENT t e h) = RB_RIGHT h"
  "RB_PARENT (RB_SET_PARENT t e h) = (RB_PARENT h)(t := e)" "RB_COLOR (RB_SET_PARENT t e h) = RB_COLOR h"
  "m_rbh_root (RB_SET_PARENT t e h) = m_rbh_root h"
  by (auto simp: entry_defs fun_eq_iff)

lemma set_color_fields [simp]:
  "RB_LEFT (RB_SET_COLOR t c h) = RB_LEFT h" "RB_RIGHT (RB_SET_COLOR t c h) = RB_RIGHT h"
  "RB_PARENT (RB_SET_COLOR t c h) = RB_PARENT h" "RB_COLOR (RB_SET_COLOR t c h) = (RB_COLOR h)(t := c)"
  "m_rbh_root (RB_SET_COLOR t c h) = m_rbh_root h"
  by (auto simp: entry_defs fun_eq_iff)

lemma set_root_fields [simp]:
  "RB_LEFT (SetRoot r h) = RB_LEFT h" "RB_RIGHT (SetRoot r h) = RB_RIGHT h"
  "RB_PARENT (SetRoot r h) = RB_PARENT h" "RB_COLOR (SetRoot r h) = RB_COLOR h"
  "m_rbh_root (SetRoot r h) = r"
  by (auto simp: entry_defs fun_eq_iff)

text \<open>What a subtree and a path depend on.\<close>

definition same_at :: "RBTree \<Rightarrow> RBTree \<Rightarrow> nat \<Rightarrow> bool" where
  "same_at h h' p \<longleftrightarrow> RB_LEFT h' p = RB_LEFT h p \<and> RB_RIGHT h' p = RB_RIGHT h p \<and>
     RB_PARENT h' p = RB_PARENT h p \<and> RB_COLOR h' p = RB_COLOR h p"

lemma rep_frame:
  assumes "\<And>p. p \<in> set (inorder t) \<Longrightarrow> same_at h h' p"
  shows "rep h' q t \<longleftrightarrow> rep h q t"
  using assms by (induction t arbitrary: q) (auto simp: same_at_def)

text \<open>A subtree whose root gets another parent.\<close>

lemma rep_reparent:
  assumes "rep h q t" "distinct (inorder t)" "t \<noteq> Tip"
    and "\<And>p. p \<in> set (inorder t) \<Longrightarrow> p \<noteq> root_of t \<Longrightarrow> same_at h h' p"
    and "RB_LEFT h' (root_of t) = RB_LEFT h (root_of t)" "RB_RIGHT h' (root_of t) = RB_RIGHT h (root_of t)"
    and "RB_COLOR h' (root_of t) = RB_COLOR h (root_of t)" "RB_PARENT h' (root_of t) = q'"
  shows "rep h' q' t"
proof (cases t)
  case (Bin c l p r)
  have "rep h' p l = rep h p l" "rep h' p r = rep h p r"
    using assms(2,4) Bin by (intro rep_frame; auto)+
  with assms Bin show ?thesis by auto
qed (use assms in auto)

lemma path_nodes_simps [simp]:
  "set (left_part (InLeft c p r # fs)) \<union> set (right_part (InLeft c p r # fs)) =
   insert p (set (inorder r) \<union> (set (left_part fs) \<union> set (right_part fs)))"
  "set (left_part (InRight c l p # fs)) \<union> set (right_part (InRight c l p # fs)) =
   insert p (set (inorder l) \<union> (set (left_part fs) \<union> set (right_part fs)))"
  by auto

lemma path_frame:
  assumes "\<And>p. p \<in> set (left_part fs) \<union> set (right_part fs) \<Longrightarrow> same_at h h' p"
    and "m_rbh_root h' = m_rbh_root h"
  shows "path_rep h' x fs \<longleftrightarrow> path_rep h x fs"
  using assms(1)
proof (induction fs arbitrary: x)
  case Nil
  then show ?case using assms(2) by simp
next
  case (Cons f fs)
  have "path_rep h' y fs = path_rep h y fs" for y
    using Cons.prems by (cases f) (auto intro!: Cons.IH)
  moreover have "frame_rep h' q x f = frame_rep h q x f" for q
  proof (cases f)
    case (InLeft c p r)
    then have "rep h' p r = rep h p r" using Cons.prems by (intro rep_frame) auto
    moreover have "same_at h h' p" using Cons.prems InLeft by auto
    ultimately show ?thesis using InLeft by (simp add: same_at_def)
  next
    case (InRight c l p)
    then have "rep h' p l = rep h p l" using Cons.prems by (intro rep_frame) auto
    moreover have "same_at h h' p" using Cons.prems InRight by auto
    ultimately show ?thesis using InRight by (simp add: same_at_def)
  qed
  ultimately show ?case by simp
qed

lemma rep_set_other [simp]:
  assumes "p \<notin> set (inorder t)"
  shows "rep (RB_SET_LEFT p e h) q t \<longleftrightarrow> rep h q t" "rep (RB_SET_RIGHT p e h) q t \<longleftrightarrow> rep h q t"
    "rep (RB_SET_PARENT p e h) q t \<longleftrightarrow> rep h q t" "rep (RB_SET_COLOR p c h) q t \<longleftrightarrow> rep h q t"
    "rep (SetRBEntry p x h) q t \<longleftrightarrow> rep h q t"
  using assms by (intro rep_frame; auto simp: same_at_def entry_defs)+

lemma rep_SetRoot [simp]: "rep (SetRoot x h) q t \<longleftrightarrow> rep h q t"
  by (intro rep_frame) (auto simp: same_at_def)

lemma path_set_other [simp]:
  assumes "p \<notin> set (left_part fs)" "p \<notin> set (right_part fs)"
  shows "path_rep (RB_SET_LEFT p e h) x fs \<longleftrightarrow> path_rep h x fs"
    "path_rep (RB_SET_RIGHT p e h) x fs \<longleftrightarrow> path_rep h x fs"
    "path_rep (RB_SET_PARENT p e h) x fs \<longleftrightarrow> path_rep h x fs"
    "path_rep (RB_SET_COLOR p c h) x fs \<longleftrightarrow> path_rep h x fs"
    "path_rep (SetRBEntry p y h) x fs \<longleftrightarrow> path_rep h x fs"
  using assms by (intro path_frame; auto simp: same_at_def entry_defs)+

lemma rep_set_parent:
  "rep h q t \<Longrightarrow> distinct (inorder t) \<Longrightarrow> t \<noteq> Tip \<Longrightarrow> rep (RB_SET_PARENT (root_of t) q' h) q' t"
  by (cases t) auto

lemma rep_root: "rep h q t \<Longrightarrow> (root_of t = 0 \<longleftrightarrow> t = Tip) \<and> (t \<noteq> Tip \<longrightarrow> root_of t \<in> set (inorder t))"
  by (cases t) auto

lemma rep_nonzero: "rep h q t \<Longrightarrow> 0 \<notin> set (inorder t)"
  by (induction t arbitrary: q) auto

lemma top_node_path: "fs \<noteq> [] \<Longrightarrow> top_node fs \<in> set (left_part fs) \<union> set (right_part fs)"
  by (cases fs; cases "hd fs") auto

lemma path_top_nonzero: "path_rep h x fs \<Longrightarrow> top_node fs = 0 \<longleftrightarrow> fs = []"
  by (cases fs; cases "hd fs") auto

text \<open>Replacing the subtree below a path.\<close>

lemma relink_other [simp]: "q \<notin> set (inorder t) \<Longrightarrow> rep (relink q x y h) q' t \<longleftrightarrow> rep h q' t"
  by (simp add: relink_def)

lemma relink_fields [simp]:
  "RB_PARENT (relink q x y h) = RB_PARENT h" "RB_COLOR (relink q x y h) = RB_COLOR h"
  "p \<noteq> q \<Longrightarrow> RB_LEFT (relink q x y h) p = RB_LEFT h p"
  "p \<noteq> q \<Longrightarrow> RB_RIGHT (relink q x y h) p = RB_RIGHT h p"
  by (simp_all add: relink_def)

lemma path_relink:
  assumes "path_rep h x fs" "distinct (left_part fs @ right_part fs)"
    and "x \<notin> set (left_part fs) \<union> set (right_part fs)" "x \<noteq> 0"
  shows "path_rep (relink (top_node fs) x y h) y fs"
proof (cases fs)
  case (Cons f gs)
  show ?thesis
  proof (cases f)
    case (InLeft c p r)
    with Cons assms show ?thesis by (simp add: relink_def)
  next
    case (InRight c l p)
    with Cons assms have "root_of l \<noteq> x" using rep_root [of h p l] by auto
    with Cons InRight assms show ?thesis by (simp add: relink_def)
  qed
qed (use assms in \<open>simp add: relink_def\<close>)

lemma focus_node:
  assumes "focus_rep h fs (Bin c l p r)"
  shows "p \<noteq> 0" "RB_LEFT h p = root_of l" "RB_RIGHT h p = root_of r" "RB_PARENT h p = top_node fs"
    "RB_COLOR h p = c"
  using assms by (auto simp: focus_rep_def)

lemma focus_recolor:
  assumes "focus_rep h fs (Bin c l p r)"
  shows "focus_rep (RB_SET_COLOR p c' h) fs (Bin c' l p r)"
  using assms by (auto simp: focus_rep_def)

lemma rotate_left_eq:
  assumes "RB_RIGHT h elm = tmp" "tmp \<noteq> 0" "elm \<noteq> tmp"
  shows "RB_ROTATE_LEFT h elm =
    (let x = RB_LEFT h tmp;
         h = RB_SET_RIGHT elm x h;
         h = (if x \<noteq> 0 then RB_SET_PARENT x elm h else h);
         q = RB_PARENT h elm
     in Some (RB_SET_PARENT elm tmp (RB_SET_LEFT tmp elm (relink q elm tmp (RB_SET_PARENT tmp q h)))))"
  using assms by (auto simp: RB_ROTATE_LEFT_def relink_def Let_def)

lemma rotate_right_eq:
  assumes "RB_LEFT h elm = tmp" "tmp \<noteq> 0" "elm \<noteq> tmp"
  shows "RB_ROTATE_RIGHT h elm =
    (let x = RB_RIGHT h tmp;
         h = RB_SET_LEFT elm x h;
         h = (if x \<noteq> 0 then RB_SET_PARENT x elm h else h);
         q = RB_PARENT h elm
     in Some (RB_SET_PARENT elm tmp (RB_SET_RIGHT tmp elm (relink q elm tmp (RB_SET_PARENT tmp q h)))))"
  using assms by (auto simp: RB_ROTATE_RIGHT_def relink_def Let_def)

lemma focus_rotate_left:
  assumes f: "focus_rep h fs (Bin c l p (Bin c2 rl q rr))"
  shows "\<exists>h'. RB_ROTATE_LEFT h p = Some h' \<and> focus_rep h' fs (Bin c2 (Bin c l p rl) q rr)"
proof -
  have d: "distinct (left_part fs @ inorder l @ p # inorder rl @ q # inorder rr @ right_part fs)"
    and path: "path_rep h p fs"
    and r: "rep h p l" "rep h q rl" "rep h q rr" "RB_LEFT h q = root_of rl" "RB_RIGHT h q = root_of rr"
      "RB_LEFT h p = root_of l" "RB_RIGHT h p = q" "RB_PARENT h p = top_node fs"
      "RB_COLOR h p = c" "RB_COLOR h q = c2" "p \<noteq> 0" "q \<noteq> 0"
    using f by (simp_all add: focus_rep_def)
  have x: "root_of rl \<noteq> p" "root_of rl \<noteq> q" "root_of rl \<notin> set (left_part fs)" "root_of rl \<notin> set (right_part fs)"
      "root_of rl \<notin> set (inorder l)" "root_of rl \<notin> set (inorder rr)" if "rl \<noteq> Tip"
    using d rep_root [OF r(2)] that by auto
  have top: "fs \<noteq> [] \<Longrightarrow> top_node fs \<notin> set (inorder l) \<union> set (inorder rl) \<union> set (inorder rr) \<union> {p, q}"
    using d top_node_path [of fs] by auto
  have top0: "fs = [] \<Longrightarrow> top_node fs \<notin> set (inorder l) \<union> set (inorder rl) \<union> set (inorder rr) \<union> {p, q}"
    using rep_nonzero r by auto
  have tops: "top_node fs \<notin> set (inorder l)" "top_node fs \<notin> set (inorder rl)" "top_node fs \<notin> set (inorder rr)"
      "top_node fs \<noteq> p" "top_node fs \<noteq> q"
    using top top0 by (cases "fs = []"; blast)+
  define h1 where "h1 = RB_SET_RIGHT p (root_of rl) h"
  define h2 where "h2 = (if root_of rl \<noteq> 0 then RB_SET_PARENT (root_of rl) p h1 else h1)"
  define h3 where "h3 = relink (top_node fs) p q (RB_SET_PARENT q (top_node fs) h2)"
  have fields: "RB_PARENT h2 p = top_node fs" "RB_COLOR h2 = RB_COLOR h" "RB_LEFT h2 = RB_LEFT h"
      "RB_RIGHT h2 = (RB_RIGHT h)(p := root_of rl)"
    using x r rep_root [OF r(2)] by (auto simp: h2_def h1_def)
  have "RB_ROTATE_LEFT h p = Some (RB_SET_PARENT p q (RB_SET_LEFT q p h3))"
    using r d x(1) by (cases "rl = Tip"; subst rotate_left_eq [of _ _ q]) (auto simp: h3_def h2_def h1_def Let_def)
  moreover have "focus_rep (RB_SET_PARENT p q (RB_SET_LEFT q p h3)) fs (Bin c2 (Bin c l p rl) q rr)"
  proof -
    have "path_rep h2 p fs" "rep h2 p l" "rep h2 p rl" "rep h2 q rr"
      using d x r path rep_root [OF r(2)] rep_set_parent [of h1 q rl p] by (auto simp: h2_def h1_def)
    then have "path_rep h3 q fs" "rep h3 p l" "rep h3 p rl" "rep h3 q rr"
      using d r tops by (auto simp: h3_def intro!: path_relink)
    then show ?thesis
      using d r tops fields by (auto simp: focus_rep_def h3_def)
  qed
  ultimately show ?thesis by blast
qed

lemma focus_rotate_right:
  assumes f: "focus_rep h fs (Bin c (Bin c2 ll q lr) p r)"
  shows "\<exists>h'. RB_ROTATE_RIGHT h p = Some h' \<and> focus_rep h' fs (Bin c2 ll q (Bin c lr p r))"
proof -
  have d: "distinct (left_part fs @ inorder ll @ q # inorder lr @ p # inorder r @ right_part fs)"
    and path: "path_rep h p fs"
    and r: "rep h p r" "rep h q lr" "rep h q ll" "RB_LEFT h q = root_of ll" "RB_RIGHT h q = root_of lr"
      "RB_RIGHT h p = root_of r" "RB_LEFT h p = q" "RB_PARENT h p = top_node fs"
      "RB_COLOR h p = c" "RB_COLOR h q = c2" "p \<noteq> 0" "q \<noteq> 0"
    using f by (simp_all add: focus_rep_def)
  have x: "root_of lr \<noteq> p" "root_of lr \<noteq> q" "root_of lr \<notin> set (left_part fs)" "root_of lr \<notin> set (right_part fs)"
      "root_of lr \<notin> set (inorder r)" "root_of lr \<notin> set (inorder ll)" if "lr \<noteq> Tip"
    using d rep_root [OF r(2)] that by auto
  have top: "fs \<noteq> [] \<Longrightarrow> top_node fs \<notin> set (inorder ll) \<union> set (inorder lr) \<union> set (inorder r) \<union> {p, q}"
    using d top_node_path [of fs] by auto
  have top0: "fs = [] \<Longrightarrow> top_node fs \<notin> set (inorder ll) \<union> set (inorder lr) \<union> set (inorder r) \<union> {p, q}"
    using rep_nonzero r by auto
  have tops: "top_node fs \<notin> set (inorder ll)" "top_node fs \<notin> set (inorder lr)" "top_node fs \<notin> set (inorder r)"
      "top_node fs \<noteq> p" "top_node fs \<noteq> q"
    using top top0 by (cases "fs = []"; blast)+
  define h1 where "h1 = RB_SET_LEFT p (root_of lr) h"
  define h2 where "h2 = (if root_of lr \<noteq> 0 then RB_SET_PARENT (root_of lr) p h1 else h1)"
  define h3 where "h3 = relink (top_node fs) p q (RB_SET_PARENT q (top_node fs) h2)"
  have fields: "RB_PARENT h2 p = top_node fs" "RB_COLOR h2 = RB_COLOR h" "RB_RIGHT h2 = RB_RIGHT h"
      "RB_LEFT h2 = (RB_LEFT h)(p := root_of lr)"
    using x r rep_root [OF r(2)] by (auto simp: h2_def h1_def)
  have "RB_ROTATE_RIGHT h p = Some (RB_SET_PARENT p q (RB_SET_RIGHT q p h3))"
    using r d x(1) by (cases "lr = Tip"; subst rotate_right_eq [of _ _ q]) (auto simp: h3_def h2_def h1_def Let_def)
  moreover have "focus_rep (RB_SET_PARENT p q (RB_SET_RIGHT q p h3)) fs (Bin c2 ll q (Bin c lr p r))"
  proof -
    have "path_rep h2 p fs" "rep h2 p r" "rep h2 p lr" "rep h2 q ll"
      using d x r path rep_root [OF r(2)] rep_set_parent [of h1 q lr p] by (auto simp: h2_def h1_def)
    then have "path_rep h3 q fs" "rep h3 p r" "rep h3 p lr" "rep h3 q ll"
      using d r tops by (auto simp: h3_def intro!: path_relink)
    then show ?thesis
      using d r tops fields by (auto simp: focus_rep_def h3_def)
  qed
  ultimately show ?thesis by blast
qed

lemma RBColor_neq [simp]: "c \<noteq> RB_RED \<longleftrightarrow> c = RB_BLACK" "c \<noteq> RB_BLACK \<longleftrightarrow> c = RB_RED"
  by (cases c; simp)+

lemma focus_recolor_left:
  "focus_rep h fs (Bin c (Bin c1 a x b) p r) \<Longrightarrow> focus_rep (RB_SET_COLOR x c' h) fs (Bin c (Bin c' a x b) p r)"
  using focus_recolor [of h "InLeft c p r # fs" c1 a x b c'] by (simp add: focus_up)

lemma focus_recolor_right:
  "focus_rep h fs (Bin c l p (Bin c1 a x b)) \<Longrightarrow> focus_rep (RB_SET_COLOR x c' h) fs (Bin c l p (Bin c' a x b))"
  using focus_recolor [of h "InRight c l p # fs" c1 a x b c'] by (simp add: focus_up)

lemma focus_rotate_left_below:
  "focus_rep h fs (Bin c (Bin c1 a x (Bin c2 b y d)) p r) \<Longrightarrow>
   \<exists>h'. RB_ROTATE_LEFT h x = Some h' \<and> focus_rep h' fs (Bin c (Bin c2 (Bin c1 a x b) y d) p r)"
  using focus_rotate_left [of h "InLeft c p r # fs" c1 a x c2 b y d] by (simp add: focus_up)

lemma focus_rotate_right_below:
  "focus_rep h fs (Bin c l p (Bin c1 (Bin c2 a y b) x d)) \<Longrightarrow>
   \<exists>h'. RB_ROTATE_RIGHT h x = Some h' \<and> focus_rep h' fs (Bin c l p (Bin c2 a y (Bin c1 b x d)))"
  using focus_rotate_right [of h "InRight c l p # fs" c1 c2 a y b x d] by (simp add: focus_up)

lemma focus_left: "focus_rep h fs (Bin c l p r) \<Longrightarrow> focus_rep h (InLeft c p r # fs) l"
  by (simp add: focus_up)

lemma focus_right: "focus_rep h fs (Bin c l p r) \<Longrightarrow> focus_rep h (InRight c l p # fs) r"
  by (simp add: focus_up)

lemma focus_children_neq:
  assumes "focus_rep h fs (Bin c l p r)" "l \<noteq> Tip \<or> r \<noteq> Tip"
  shows "root_of l \<noteq> root_of r"
proof -
  have "rep h p l" "rep h p r" "set (inorder l) \<inter> set (inorder r) = {}"
    using assms(1) by (auto simp: focus_rep_def)
  then show ?thesis
    using rep_root [of h p l] rep_root [of h p r] assms(2) by (metis disjoint_iff)
qed

section \<open>Balance\<close>

fun color_of :: "ptree \<Rightarrow> RBColor" where
  "color_of Tip = RB_BLACK"
| "color_of (Bin c l p r) = c"

fun weight :: "RBColor \<Rightarrow> nat" where
  "weight RB_BLACK = 1"
| "weight RB_RED = 0"

text \<open>The number of black nodes on the leftmost path, and that all paths have that many.\<close>

fun black_height :: "ptree \<Rightarrow> nat" where
  "black_height Tip = 0"
| "black_height (Bin c l p r) = black_height l + weight c"

fun balanced :: "ptree \<Rightarrow> bool" where
  "balanced Tip \<longleftrightarrow> True"
| "balanced (Bin c l p r) \<longleftrightarrow> black_height l = black_height r \<and> balanced l \<and> balanced r"

text \<open>No red node has a red child.\<close>

fun no_red_red :: "ptree \<Rightarrow> bool" where
  "no_red_red Tip \<longleftrightarrow> True"
| "no_red_red (Bin c l p r) \<longleftrightarrow>
     (c = RB_RED \<longrightarrow> color_of l = RB_BLACK \<and> color_of r = RB_BLACK) \<and> no_red_red l \<and> no_red_red r"

definition red_black :: "ptree \<Rightarrow> bool" where
  "red_black t \<longleftrightarrow> balanced t \<and> no_red_red t \<and> color_of t = RB_BLACK"

text \<open>The same for a path: \<open>n\<close> is the height its subtree must have.\<close>

fun frame_sibling :: "frame \<Rightarrow> ptree" where
  "frame_sibling (InLeft c p r) = r"
| "frame_sibling (InRight c l p) = l"

definition top_color :: "frame list \<Rightarrow> RBColor" where
  "top_color fs = (case fs of [] \<Rightarrow> RB_BLACK | f # _ \<Rightarrow> frame_color f)"

fun path_balanced :: "frame list \<Rightarrow> nat \<Rightarrow> bool" where
  "path_balanced [] n \<longleftrightarrow> True"
| "path_balanced (f # fs) n \<longleftrightarrow>
     balanced (frame_sibling f) \<and> black_height (frame_sibling f) = n \<and>
     path_balanced fs (n + weight (frame_color f))"

fun path_colors :: "frame list \<Rightarrow> bool" where
  "path_colors [] \<longleftrightarrow> True"
| "path_colors (f # fs) \<longleftrightarrow>
     no_red_red (frame_sibling f) \<and>
     (frame_color f = RB_RED \<longrightarrow> color_of (frame_sibling f) = RB_BLACK \<and> top_color fs = RB_BLACK) \<and>
     path_colors fs"

definition root_black :: "frame list \<Rightarrow> bool" where
  "root_black fs \<longleftrightarrow> fs \<noteq> [] \<longrightarrow> frame_color (last fs) = RB_BLACK"

lemma top_color_simps [simp]: "top_color [] = RB_BLACK" "top_color (f # fs) = frame_color f"
  by (simp_all add: top_color_def)

lemma balanced_plug: "balanced (plug fs t) \<longleftrightarrow> balanced t \<and> path_balanced fs (black_height t)"
proof (induction fs arbitrary: t)
  case (Cons f fs)
  then show ?case by (cases f) auto
qed simp

lemma colors_plug:
  "no_red_red (plug fs t) \<longleftrightarrow>
     no_red_red t \<and> path_colors fs \<and> (top_color fs = RB_RED \<longrightarrow> color_of t = RB_BLACK)"
proof (induction fs arbitrary: t)
  case (Cons f fs)
  then show ?case by (cases f) auto
qed simp

lemma color_plug: "color_of (plug fs t) = (if fs = [] then color_of t else frame_color (last fs))"
proof (induction fs arbitrary: t)
  case (Cons f fs)
  then show ?case by (cases f) auto
qed simp

lemma red_black_plug:
  "red_black (plug fs t) \<longleftrightarrow>
     balanced t \<and> path_balanced fs (black_height t) \<and> no_red_red t \<and> path_colors fs \<and>
     (top_color fs = RB_RED \<longrightarrow> color_of t = RB_BLACK) \<and> root_black fs \<and> (fs = [] \<longrightarrow> color_of t = RB_BLACK)"
  by (auto simp: red_black_def balanced_plug colors_plug color_plug root_black_def)

text \<open>The colour of a subtree read through its pointer.\<close>

lemma color_read: "rep h q t \<Longrightarrow> black_or_null h (root_of t) \<longleftrightarrow> color_of t = RB_BLACK"
  by (cases t) (auto simp: black_or_null_def RB_IS_BLACK_def)

lemma red_read: "rep h q t \<Longrightarrow> root_of t \<noteq> 0 \<and> RB_IS_RED h (root_of t) \<longleftrightarrow> color_of t = RB_RED"
  by (cases t) (auto simp: RB_IS_RED_def)

section \<open>Insertion\<close>

lemma insert_stop:
  "RB_PARENT h p = 0 \<or> RB_COLOR h (RB_PARENT h p) = RB_BLACK \<Longrightarrow> insert_color_loop h p = Some h"
  by (subst insert_color_loop.simps) (auto simp: RB_IS_RED_def)

lemma insert_left_red_uncle:
  assumes f: "focus_rep h hs (Bin RB_BLACK (Bin RB_RED a pp b) gp (Bin RB_RED ul q ur))"
    and p: "RB_PARENT h p = pp"
  shows "\<exists>h'. insert_color_loop h p = insert_color_loop h' gp \<and>
    focus_rep h' hs (Bin RB_RED (Bin RB_BLACK a pp b) gp (Bin RB_BLACK ul q ur))"
proof -
  note n = focus_node [OF f] and np = focus_node [OF focus_left [OF f]] and nu = focus_node [OF focus_right [OF f]]
  let ?h = "RB_SET_BLACKRED pp gp (RB_SET_COLOR q RB_BLACK h)"
  have "insert_color_loop h p = insert_color_loop ?h gp"
    using p n np nu by (subst insert_color_loop.simps) (simp add: RB_IS_RED_def)
  moreover have "focus_rep ?h hs (Bin RB_RED (Bin RB_BLACK a pp b) gp (Bin RB_BLACK ul q ur))"
    unfolding RB_SET_BLACKRED_def
    by (rule focus_recolor, rule focus_recolor_left, rule focus_recolor_right, rule f)
  ultimately show ?thesis by blast
qed

lemma insert_left_left:
  assumes f: "focus_rep h hs (Bin RB_BLACK (Bin RB_RED (Bin RB_RED l p r) pp s) gp u)"
    and u: "color_of u = RB_BLACK"
  shows "\<exists>h'. insert_color_loop h p = Some h' \<and>
    focus_rep h' hs (Bin RB_BLACK (Bin RB_RED l p r) pp (Bin RB_RED s gp u))"
proof -
  note n = focus_node [OF f] and np = focus_node [OF focus_left [OF f]]
    and nn = focus_node [OF focus_left [OF focus_left [OF f]]]
  have nu: "\<not> (root_of u \<noteq> 0 \<and> RB_IS_RED h (root_of u))"
    using f u red_read [of h gp u] by (auto simp: focus_rep_def)
  have neq: "root_of s \<noteq> p"
    using focus_children_neq [OF focus_left [OF f]] by simp
  let ?h = "RB_SET_BLACKRED pp gp h"
  have "focus_rep ?h hs (Bin RB_RED (Bin RB_BLACK (Bin RB_RED l p r) pp s) gp u)"
    unfolding RB_SET_BLACKRED_def
    by (rule focus_recolor, rule focus_recolor_left, rule f)
  from focus_rotate_right [OF this] obtain h' where
    h': "RB_ROTATE_RIGHT ?h gp = Some h'" "focus_rep h' hs (Bin RB_BLACK (Bin RB_RED l p r) pp (Bin RB_RED s gp u))"
    by blast
  have "insert_color_loop h' p = Some h'"
    using focus_node [OF h'(2)] focus_node [OF focus_left [OF h'(2)]] by (intro insert_stop) simp
  then have "insert_color_loop h p = Some h'"
    using n np nn nu neq h'(1) by (subst insert_color_loop.simps) (auto simp: RB_IS_RED_def Let_def)
  with h'(2) show ?thesis by blast
qed

lemma insert_left_right:
  assumes f: "focus_rep h hs (Bin RB_BLACK (Bin RB_RED s pp (Bin RB_RED l p r)) gp u)"
    and u: "color_of u = RB_BLACK"
  shows "\<exists>h'. insert_color_loop h p = Some h' \<and>
    focus_rep h' hs (Bin RB_BLACK (Bin RB_RED s pp l) p (Bin RB_RED r gp u))"
proof -
  note n = focus_node [OF f] and np = focus_node [OF focus_left [OF f]]
    and nn = focus_node [OF focus_right [OF focus_left [OF f]]]
  have nu: "\<not> (root_of u \<noteq> 0 \<and> RB_IS_RED h (root_of u))"
    using f u red_read [of h gp u] by (auto simp: focus_rep_def)
  from focus_rotate_left_below [OF f] obtain h1 where
    h1: "RB_ROTATE_LEFT h pp = Some h1" "focus_rep h1 hs (Bin RB_BLACK (Bin RB_RED (Bin RB_RED s pp l) p r) gp u)"
    by blast
  let ?h = "RB_SET_BLACKRED p gp h1"
  have "focus_rep ?h hs (Bin RB_RED (Bin RB_BLACK (Bin RB_RED s pp l) p r) gp u)"
    unfolding RB_SET_BLACKRED_def
    by (rule focus_recolor, rule focus_recolor_left, rule h1(2))
  from focus_rotate_right [OF this] obtain h' where
    h': "RB_ROTATE_RIGHT ?h gp = Some h'" "focus_rep h' hs (Bin RB_BLACK (Bin RB_RED s pp l) p (Bin RB_RED r gp u))"
    by blast
  have "insert_color_loop h' pp = Some h'"
    using focus_node [OF h'(2)] focus_node [OF focus_left [OF h'(2)]] by (intro insert_stop) simp
  then have "insert_color_loop h p = Some h'"
    using n np nn nu h1(1) h'(1) by (subst insert_color_loop.simps) (auto simp: RB_IS_RED_def Let_def)
  with h'(2) show ?thesis by blast
qed

lemma insert_right_red_uncle:
  assumes f: "focus_rep h hs (Bin RB_BLACK (Bin RB_RED ul q ur) gp (Bin RB_RED a pp b))"
    and p: "RB_PARENT h p = pp"
  shows "\<exists>h'. insert_color_loop h p = insert_color_loop h' gp \<and>
    focus_rep h' hs (Bin RB_RED (Bin RB_BLACK ul q ur) gp (Bin RB_BLACK a pp b))"
proof -
  note n = focus_node [OF f] and np = focus_node [OF focus_right [OF f]] and nu = focus_node [OF focus_left [OF f]]
  have neq: "pp \<noteq> q"
    using f by (auto simp: focus_rep_def)
  let ?h = "RB_SET_BLACKRED pp gp (RB_SET_COLOR q RB_BLACK h)"
  have "insert_color_loop h p = insert_color_loop ?h gp"
    using p n np nu neq by (subst insert_color_loop.simps) (simp add: RB_IS_RED_def)
  moreover have "focus_rep ?h hs (Bin RB_RED (Bin RB_BLACK ul q ur) gp (Bin RB_BLACK a pp b))"
    unfolding RB_SET_BLACKRED_def
    by (rule focus_recolor, rule focus_recolor_right, rule focus_recolor_left, rule f)
  ultimately show ?thesis by blast
qed

lemma insert_right_right:
  assumes f: "focus_rep h hs (Bin RB_BLACK u gp (Bin RB_RED s pp (Bin RB_RED l p r)))"
    and u: "color_of u = RB_BLACK"
  shows "\<exists>h'. insert_color_loop h p = Some h' \<and>
    focus_rep h' hs (Bin RB_BLACK (Bin RB_RED u gp s) pp (Bin RB_RED l p r))"
proof -
  note n = focus_node [OF f] and np = focus_node [OF focus_right [OF f]]
    and nn = focus_node [OF focus_right [OF focus_right [OF f]]]
  have nu: "\<not> (root_of u \<noteq> 0 \<and> RB_IS_RED h (root_of u))"
    using f u red_read [of h gp u] by (auto simp: focus_rep_def)
  have neq: "root_of s \<noteq> p" "root_of u \<noteq> pp"
    using focus_children_neq [OF focus_right [OF f]] focus_children_neq [OF f] by simp_all
  let ?h = "RB_SET_BLACKRED pp gp h"
  have "focus_rep ?h hs (Bin RB_RED u gp (Bin RB_BLACK s pp (Bin RB_RED l p r)))"
    unfolding RB_SET_BLACKRED_def
    by (rule focus_recolor, rule focus_recolor_right, rule f)
  from focus_rotate_left [OF this] obtain h' where
    h': "RB_ROTATE_LEFT ?h gp = Some h'" "focus_rep h' hs (Bin RB_BLACK (Bin RB_RED u gp s) pp (Bin RB_RED l p r))"
    by blast
  have "insert_color_loop h' p = Some h'"
    using focus_node [OF h'(2)] focus_node [OF focus_right [OF h'(2)]] by (intro insert_stop) simp
  then have "insert_color_loop h p = Some h'"
    using n np nn nu neq h'(1) by (subst insert_color_loop.simps) (auto simp: RB_IS_RED_def Let_def)
  with h'(2) show ?thesis by blast
qed

lemma insert_right_left:
  assumes f: "focus_rep h hs (Bin RB_BLACK u gp (Bin RB_RED (Bin RB_RED l p r) pp s))"
    and u: "color_of u = RB_BLACK"
  shows "\<exists>h'. insert_color_loop h p = Some h' \<and>
    focus_rep h' hs (Bin RB_BLACK (Bin RB_RED u gp l) p (Bin RB_RED r pp s))"
proof -
  note n = focus_node [OF f] and np = focus_node [OF focus_right [OF f]]
    and nn = focus_node [OF focus_left [OF focus_right [OF f]]]
  have nu: "\<not> (root_of u \<noteq> 0 \<and> RB_IS_RED h (root_of u))"
    using f u red_read [of h gp u] by (auto simp: focus_rep_def)
  have neq: "root_of u \<noteq> pp"
    using focus_children_neq [OF f] by simp
  from focus_rotate_right_below [OF f] obtain h1 where
    h1: "RB_ROTATE_RIGHT h pp = Some h1" "focus_rep h1 hs (Bin RB_BLACK u gp (Bin RB_RED l p (Bin RB_RED r pp s)))"
    by blast
  let ?h = "RB_SET_BLACKRED p gp h1"
  have "focus_rep ?h hs (Bin RB_RED u gp (Bin RB_BLACK l p (Bin RB_RED r pp s)))"
    unfolding RB_SET_BLACKRED_def
    by (rule focus_recolor, rule focus_recolor_right, rule h1(2))
  from focus_rotate_left [OF this] obtain h' where
    h': "RB_ROTATE_LEFT ?h gp = Some h'" "focus_rep h' hs (Bin RB_BLACK (Bin RB_RED u gp l) p (Bin RB_RED r pp s))"
    by blast
  have "insert_color_loop h' pp = Some h'"
    using focus_node [OF h'(2)] focus_node [OF focus_right [OF h'(2)]] by (intro insert_stop) simp
  then have "insert_color_loop h p = Some h'"
    using n np nn nu neq h1(1) h'(1) by (subst insert_color_loop.simps) (auto simp: RB_IS_RED_def Let_def)
  with h'(2) show ?thesis by blast
qed

text \<open>The loop ends on a tree without a red node below a red one, whatever the depth it starts at.\<close>

definition rebuilds :: "RBTree option \<Rightarrow> nat list \<Rightarrow> bool" where
  "rebuilds res ps \<longleftrightarrow> (\<exists>h' t'. res = Some h' \<and> tree_rep h' t' \<and> inorder t' = ps \<and>
     balanced t' \<and> no_red_red t' \<and> t' \<noteq> Tip)"

lemma plug_neq_Tip: "t \<noteq> Tip \<Longrightarrow> plug fs t \<noteq> Tip"
proof (induction fs arbitrary: t)
  case (Cons f fs)
  then show ?case by (cases f) auto
qed simp

lemma rebuildsI:
  assumes "focus_rep h' fs t" "balanced t" "path_balanced fs (black_height t)" "no_red_red t" "path_colors fs"
    and "top_color fs = RB_RED \<Longrightarrow> color_of t = RB_BLACK" "t \<noteq> Tip"
  shows "rebuilds (Some h') (left_part fs @ inorder t @ right_part fs)"
  unfolding rebuilds_def
  using assms
  by (intro exI [of _ h'] exI [of _ "plug fs t"])
     (simp add: tree_rep_focus inorder_plug balanced_plug colors_plug plug_neq_Tip)

lemma insert_fix_left:
  assumes F: "focus_rep h hs (Bin RB_BLACK (up g (Bin RB_RED l p r)) gp u)" and g: "frame_color g = RB_RED"
    and bal: "balanced (Bin RB_RED l p r)" and col: "no_red_red (Bin RB_RED l p r)"
    and pb: "path_balanced (g # InLeft RB_BLACK gp u # hs) (black_height l)" and pc: "path_colors (g # InLeft RB_BLACK gp u # hs)"
    and IH: "\<And>h' a b. focus_rep h' hs (Bin RB_RED a gp b) \<Longrightarrow> balanced (Bin RB_RED a gp b) \<Longrightarrow>
      no_red_red (Bin RB_RED a gp b) \<Longrightarrow> path_balanced hs (black_height a) \<Longrightarrow> path_colors hs \<Longrightarrow>
      rebuilds (insert_color_loop h' gp) (left_part hs @ inorder (Bin RB_RED a gp b) @ right_part hs)"
  shows "rebuilds (insert_color_loop h p)
    (left_part (g # InLeft RB_BLACK gp u # hs) @ inorder (Bin RB_RED l p r) @ right_part (g # InLeft RB_BLACK gp u # hs))"
proof (cases "color_of u")
  case RB_RED
  then obtain ul q ur where u: "u = Bin RB_RED ul q ur" by (cases u) auto
  have "RB_PARENT h p = frame_node g"
    using F focus_node(4) [of h "g # InLeft RB_BLACK gp u # hs" RB_RED l p r] by (simp add: focus_up)
  then obtain a pp b where P: "up g (Bin RB_RED l p r) = Bin RB_RED a pp b" "RB_PARENT h p = pp"
    using g by (cases g) auto
  from insert_left_red_uncle [of h hs a pp b gp ul q ur p] F P u obtain h' where
    h': "insert_color_loop h p = insert_color_loop h' gp"
      "focus_rep h' hs (Bin RB_RED (Bin RB_BLACK a pp b) gp (Bin RB_BLACK ul q ur))" by auto
  from IH [OF h'(2)] show ?thesis
    using P g u bal col pb pc h'(1) by (cases g) auto
next
  case RB_BLACK
  show ?thesis
  proof (cases g)
    case (InLeft gc pp s)
    with F g have "focus_rep h hs (Bin RB_BLACK (Bin RB_RED (Bin RB_RED l p r) pp s) gp u)" by simp
    from insert_left_left [OF this RB_BLACK] obtain h' where
      h': "insert_color_loop h p = Some h'" "focus_rep h' hs (Bin RB_BLACK (Bin RB_RED l p r) pp (Bin RB_RED s gp u))" by blast
    from rebuildsI [OF h'(2)] show ?thesis
      using InLeft g bal col pb pc h'(1) RB_BLACK by auto
  next
    case (InRight gc s pp)
    with F g have "focus_rep h hs (Bin RB_BLACK (Bin RB_RED s pp (Bin RB_RED l p r)) gp u)" by simp
    from insert_left_right [OF this RB_BLACK] obtain h' where
      h': "insert_color_loop h p = Some h'" "focus_rep h' hs (Bin RB_BLACK (Bin RB_RED s pp l) p (Bin RB_RED r gp u))" by blast
    from rebuildsI [OF h'(2)] show ?thesis
      using InRight g bal col pb pc h'(1) RB_BLACK by auto
  qed
qed

lemma insert_fix_right:
  assumes F: "focus_rep h hs (Bin RB_BLACK u gp (up g (Bin RB_RED l p r)))" and g: "frame_color g = RB_RED"
    and bal: "balanced (Bin RB_RED l p r)" and col: "no_red_red (Bin RB_RED l p r)"
    and pb: "path_balanced (g # InRight RB_BLACK u gp # hs) (black_height l)" and pc: "path_colors (g # InRight RB_BLACK u gp # hs)"
    and IH: "\<And>h' a b. focus_rep h' hs (Bin RB_RED a gp b) \<Longrightarrow> balanced (Bin RB_RED a gp b) \<Longrightarrow>
      no_red_red (Bin RB_RED a gp b) \<Longrightarrow> path_balanced hs (black_height a) \<Longrightarrow> path_colors hs \<Longrightarrow>
      rebuilds (insert_color_loop h' gp) (left_part hs @ inorder (Bin RB_RED a gp b) @ right_part hs)"
  shows "rebuilds (insert_color_loop h p)
    (left_part (g # InRight RB_BLACK u gp # hs) @ inorder (Bin RB_RED l p r) @ right_part (g # InRight RB_BLACK u gp # hs))"
proof (cases "color_of u")
  case RB_RED
  then obtain ul q ur where u: "u = Bin RB_RED ul q ur" by (cases u) auto
  have "RB_PARENT h p = frame_node g"
    using F focus_node(4) [of h "g # InRight RB_BLACK u gp # hs" RB_RED l p r] by (simp add: focus_up)
  then obtain a pp b where P: "up g (Bin RB_RED l p r) = Bin RB_RED a pp b" "RB_PARENT h p = pp"
    using g by (cases g) auto
  from insert_right_red_uncle [of h hs ul q ur gp a pp b p] F P u obtain h' where
    h': "insert_color_loop h p = insert_color_loop h' gp"
      "focus_rep h' hs (Bin RB_RED (Bin RB_BLACK ul q ur) gp (Bin RB_BLACK a pp b))" by auto
  from IH [OF h'(2)] show ?thesis
    using P g u bal col pb pc h'(1) by (cases g) auto
next
  case RB_BLACK
  show ?thesis
  proof (cases g)
    case (InLeft gc pp s)
    with F g have "focus_rep h hs (Bin RB_BLACK u gp (Bin RB_RED (Bin RB_RED l p r) pp s))" by simp
    from insert_right_left [OF this RB_BLACK] obtain h' where
      h': "insert_color_loop h p = Some h'" "focus_rep h' hs (Bin RB_BLACK (Bin RB_RED u gp l) p (Bin RB_RED r pp s))" by blast
    from rebuildsI [OF h'(2)] show ?thesis
      using InLeft g bal col pb pc h'(1) RB_BLACK by auto
  next
    case (InRight gc s pp)
    with F g have "focus_rep h hs (Bin RB_BLACK u gp (Bin RB_RED s pp (Bin RB_RED l p r)))" by simp
    from insert_right_right [OF this RB_BLACK] obtain h' where
      h': "insert_color_loop h p = Some h'" "focus_rep h' hs (Bin RB_BLACK (Bin RB_RED u gp s) pp (Bin RB_RED l p r))" by blast
    from rebuildsI [OF h'(2)] show ?thesis
      using InRight g bal col pb pc h'(1) RB_BLACK by auto
  qed
qed

lemma insert_color_loop_rebuilds:
  assumes "focus_rep h fs (Bin RB_RED l p r)" "balanced (Bin RB_RED l p r)" "no_red_red (Bin RB_RED l p r)"
    and "path_balanced fs (black_height l)" "path_colors fs" "root_black fs"
  shows "rebuilds (insert_color_loop h p) (left_part fs @ inorder (Bin RB_RED l p r) @ right_part fs)"
  using assms
proof (induction fs arbitrary: h l p r rule: length_induct)
  case (1 fs)
  note f = 1(2) and bal = 1(3) and col = 1(4) and pb = 1(5) and pc = 1(6) and rb = 1(7)
  note n = focus_node [OF f]
  show ?case
  proof (cases "top_color fs")
    case RB_BLACK
    have "RB_PARENT h p = 0 \<or> RB_COLOR h (RB_PARENT h p) = RB_BLACK"
      using f n RB_BLACK by (cases fs; cases "hd fs") (auto simp: focus_rep_def)
    then have "insert_color_loop h p = Some h" by (rule insert_stop)
    moreover have "rebuilds (Some h) (left_part fs @ inorder (Bin RB_RED l p r) @ right_part fs)"
      using f bal col pb pc RB_BLACK by (intro rebuildsI) auto
    ultimately show ?thesis by simp
  next
    case RB_RED
    then obtain g k hs where fs: "fs = g # k # hs" and g: "frame_color g = RB_RED"
      using rb by (cases fs; cases "tl fs") (auto simp: root_black_def)
    have k: "frame_color k = RB_BLACK" using pc g by (simp add: fs)
    have rb': "root_black hs" using rb by (auto simp: fs root_black_def)
    have IH: "rebuilds (insert_color_loop h' gp) (left_part hs @ inorder (Bin RB_RED a gp b) @ right_part hs)"
      if "focus_rep h' hs (Bin RB_RED a gp b)" "balanced (Bin RB_RED a gp b)" "no_red_red (Bin RB_RED a gp b)"
        "path_balanced hs (black_height a)" "path_colors hs" for h' a gp b
      using 1(1) that rb' by (simp add: fs)
    have F: "focus_rep h hs (up k (up g (Bin RB_RED l p r)))"
      using f by (simp add: fs focus_up)
    show ?thesis
    proof (cases k)
      case (InLeft kc gp u)
      with insert_fix_left [OF _ g bal col _ _ IH] F k pb pc show ?thesis by (simp add: fs)
    next
      case (InRight kc u gp)
      with insert_fix_right [OF _ g bal col _ _ IH] F k pb pc show ?thesis by (simp add: fs)
    qed
  qed
qed

lemma set_entry_fields [simp]:
  "RB_LEFT (SetRBEntry t x h) = (RB_LEFT h)(t := m_rbe_left x)"
  "RB_RIGHT (SetRBEntry t x h) = (RB_RIGHT h)(t := m_rbe_right x)"
  "RB_PARENT (SetRBEntry t x h) = (RB_PARENT h)(t := m_rbe_parent x)"
  "RB_COLOR (SetRBEntry t x h) = (RB_COLOR h)(t := m_rbe_color x)"
  "m_rbh_root (SetRBEntry t x h) = m_rbh_root h"
  by (auto simp: entry_defs fun_eq_iff)

text \<open>The comparison goes the way the path turned.\<close>

definition aims :: "frame list \<Rightarrow> int \<Rightarrow> bool" where
  "aims fs c \<longleftrightarrow> (case fs of InLeft _ _ _ # _ \<Rightarrow> c < 0 | InRight _ _ _ # _ \<Rightarrow> 0 < c | [] \<Rightarrow> True)"

text \<open>
  \<open>splits cmp xs ys\<close>: the sought place is behind the nodes \<open>xs\<close> and before the nodes \<open>ys\<close>.
\<close>

definition splits :: "(nat \<Rightarrow> int) \<Rightarrow> nat list \<Rightarrow> nat list \<Rightarrow> bool" where
  "splits cmp xs ys \<longleftrightarrow> (\<forall>x \<in> set xs. 0 < cmp x) \<and> (\<forall>y \<in> set ys. cmp y < 0)"

lemma splits_left:
  assumes "splits cmp xs ys" "as @ p # bs = xs @ ys" "cmp p < 0"
  obtains ys' where "as = xs @ ys'" "ys = ys' @ p # bs" "splits cmp xs ys'"
proof -
  from assms(2) consider us where "as = xs @ us" "us @ p # bs = ys" | us where "as @ us = xs" "p # bs = us @ ys"
    by (auto simp: append_eq_append_conv2)
  then show thesis
  proof cases
    case (1 us)
    then show ?thesis using assms(1) that [of us] by (auto simp: splits_def)
  next
    case (2 us)
    then have "us = []" using assms by (cases us) (auto simp: splits_def)
    then show ?thesis using 2 assms(1) that [of "[]"] by (auto simp: splits_def)
  qed
qed

lemma splits_right:
  assumes "splits cmp xs ys" "as @ p # bs = xs @ ys" "0 < cmp p"
  obtains xs' where "xs = as @ p # xs'" "bs = xs' @ ys" "splits cmp xs' ys"
proof -
  from assms(2) consider us where "as = xs @ us" "us @ p # bs = ys" | us where "as @ us = xs" "p # bs = us @ ys"
    by (auto simp: append_eq_append_conv2)
  then show thesis
  proof cases
    case (1 us)
    then show ?thesis using assms by (auto simp: splits_def)
  next
    case (2 us)
    then obtain us' where "us = p # us'" using assms by (cases us) (auto simp: splits_def)
    then show ?thesis using 2 assms(1) that [of us'] by (auto simp: splits_def)
  qed
qed

lemma insert_point_splits:
  assumes "focus_rep h fs t" "splits cmp xs ys" "inorder t = xs @ ys" "aims fs c"
  shows "\<exists>gs c'. insert_point h cmp (root_of t) (top_node fs) c = Some (Inr (top_node gs, c')) \<and>
    focus_rep h gs Tip \<and> plug gs Tip = plug fs t \<and> left_part gs = left_part fs @ xs \<and>
    right_part gs = ys @ right_part fs \<and> aims gs c'"
  using assms
proof (induction t arbitrary: fs xs ys c)
  case Tip
  then show ?case
    by (intro exI [of _ fs] exI [of _ c]) (simp add: insert_point.simps)
next
  case (Bin k l p r)
  note n = focus_node [OF Bin.prems(1)]
  have "cmp p < 0 \<or> 0 < cmp p"
    using Bin.prems(2,3) by (metis UnE in_set_conv_decomp inorder.simps(2) set_append splits_def)
  then show ?case
  proof
    assume lt: "cmp p < 0"
    then obtain ys' where y: "inorder l = xs @ ys'" "ys = ys' @ p # inorder r" "splits cmp xs ys'"
      using Bin.prems(2,3) splits_left [of cmp xs ys "inorder l" p "inorder r"] by auto
    from Bin.IH(1) [OF focus_left [OF Bin.prems(1)] y(3,1)] lt show ?thesis
      using n y(2) by (subst insert_point.simps) (simp add: aims_def)
  next
    assume gt: "0 < cmp p"
    then obtain xs' where x: "xs = inorder l @ p # xs'" "inorder r = xs' @ ys" "splits cmp xs' ys"
      using Bin.prems(2,3) splits_right [of cmp xs ys "inorder l" p "inorder r"] by auto
    from Bin.IH(2) [OF focus_right [OF Bin.prems(1)] x(3,2)] gt show ?thesis
      using n x(1) by (subst insert_point.simps) (simp add: aims_def)
  qed
qed

lemma insert_point_present:
  assumes "focus_rep h fs t" "splits cmp xs ys" "inorder t = xs @ p # ys" "cmp p = 0"
  shows "insert_point h cmp (root_of t) q c = Some (Inl p)"
  using assms
proof (induction t arbitrary: fs xs ys q c)
  case (Bin k l x r)
  note n = focus_node [OF Bin.prems(1)]
  from Bin.prems(3) consider us where "inorder l = xs @ p # us" "ys = us @ x # inorder r"
    | "x = p" | us where "xs = inorder l @ x # us" "inorder r = us @ p # ys"
    by (auto simp: append_eq_append_conv2 append_eq_Cons_conv Cons_eq_append_conv)
  then show ?case
  proof cases
    case (1 us)
    with Bin.IH(1) [OF focus_left [OF Bin.prems(1)], of xs us] Bin.prems n show ?thesis
      by (subst insert_point.simps) (auto simp: splits_def)
  next
    case 2
    with Bin.prems n show ?thesis by (subst insert_point.simps) auto
  next
    case (3 us)
    with Bin.IH(2) [OF focus_right [OF Bin.prems(1)], of us ys] Bin.prems n show ?thesis
      by (subst insert_point.simps) (auto simp: splits_def)
  qed
qed simp

lemma insert_link:
  assumes "focus_rep h gs Tip" "aims gs c" "elm \<noteq> 0" "elm \<notin> set (left_part gs) \<union> set (right_part gs)"
  shows "focus_rep (let h = RB_SET elm (top_node gs) h
      in if top_node gs \<noteq> 0 then if c < 0 then RB_SET_LEFT (top_node gs) elm h else RB_SET_RIGHT (top_node gs) elm h
         else SetRoot elm h) gs (Bin RB_RED Tip elm Tip)"
proof -
  define h1 where "h1 = RB_SET elm (top_node gs) h"
  have h1: "path_rep h1 0 gs" "RB_LEFT h1 elm = 0" "RB_RIGHT h1 elm = 0" "RB_PARENT h1 elm = top_node gs"
      "RB_COLOR h1 elm = RB_RED"
    using assms by (auto simp: h1_def RB_SET_def focus_rep_def)
  show ?thesis
    unfolding h1_def [symmetric] Let_def
    using assms h1 by (cases gs; cases "hd gs") (auto simp: focus_rep_def aims_def)
qed

lemma RB_INSERT_COLOR_red_black:
  assumes f: "focus_rep h fs (Bin RB_RED Tip p Tip)" and t: "red_black (plug fs Tip)"
  shows "\<exists>h' t'. RB_INSERT_COLOR h p = Some h' \<and> tree_rep h' t' \<and> red_black t' \<and>
    inorder t' = left_part fs @ p # right_part fs"
proof -
  from insert_color_loop_rebuilds [OF f] t obtain h1 t1 where
    1: "insert_color_loop h p = Some h1" "tree_rep h1 t1" "inorder t1 = left_part fs @ p # right_part fs"
      "balanced t1" "no_red_red t1" "t1 \<noteq> Tip"
    by (auto simp: red_black_plug rebuilds_def)
  then obtain c l q r where t1: "t1 = Bin c l q r" by (cases t1) auto
  have f1: "focus_rep h1 [] (Bin c l q r)"
    using 1(2) tree_rep_focus [of h1 "[]"] by (simp add: t1)
  have "tree_rep (RB_SET_COLOR q RB_BLACK h1) (Bin RB_BLACK l q r)"
    using focus_recolor [OF f1, of RB_BLACK] tree_rep_focus [of _ "[]"] by simp
  moreover have "m_rbh_root h1 = q" using 1(2) by (simp add: t1 tree_rep_def)
  ultimately show ?thesis
    using 1 focus_node(1) [OF f1]
    by (intro exI [of _ "RB_SET_COLOR q RB_BLACK h1"] exI [of _ "Bin RB_BLACK l q r"])
       (simp add: t1 RB_INSERT_COLOR_def red_black_def)
qed

lemma RB_INSERT_new:
  assumes t: "tree_rep h t" "red_black t" and place: "splits cmp xs ys" "inorder t = xs @ ys"
    and elm: "elm \<noteq> 0" "elm \<notin> set (inorder t)"
  shows "\<exists>h' t'. RB_INSERT h elm cmp = Some (0, h') \<and> tree_rep h' t' \<and> red_black t' \<and>
    inorder t' = xs @ elm # ys"
proof -
  have f: "focus_rep h [] t" using t(1) tree_rep_focus [of h "[]"] by simp
  from insert_point_splits [OF f place, of 0] obtain gs c where
    p: "insert_point h cmp (root_of t) 0 0 = Some (Inr (top_node gs, c))" "focus_rep h gs Tip"
      "plug gs Tip = t" "left_part gs = xs" "right_part gs = ys" "aims gs c"
    by (auto simp: aims_def)
  have "elm \<notin> set (left_part gs) \<union> set (right_part gs)"
    using elm(2) place(2) p by simp
  from RB_INSERT_COLOR_red_black [OF insert_link [OF p(2,6) elm(1) this]] p(3) t(2) obtain h' t' where
    "RB_INSERT_COLOR (let h = RB_SET elm (top_node gs) h
      in if top_node gs \<noteq> 0 then if c < 0 then RB_SET_LEFT (top_node gs) elm h else RB_SET_RIGHT (top_node gs) elm h
         else SetRoot elm h) elm = Some h'"
    "tree_rep h' t'" "red_black t'" "inorder t' = xs @ elm # ys"
    using p(4,5) by auto
  moreover have "m_rbh_root h = root_of t" using t(1) by (simp add: tree_rep_def)
  ultimately show ?thesis
    using p(1) by (auto simp: RB_INSERT_def Let_def)
qed

lemma RB_INSERT_present:
  assumes "tree_rep h t" "splits cmp xs ys" "inorder t = xs @ p # ys" "cmp p = 0"
  shows "RB_INSERT h elm cmp = Some (p, h)"
proof -
  have "focus_rep h [] t" using assms(1) tree_rep_focus [of h "[]"] by simp
  from insert_point_present [OF this assms(2-4)] assms(1) show ?thesis
    by (simp add: RB_INSERT_def tree_rep_def)
qed

section \<open>Removal\<close>

definition removes :: "RBTree option \<Rightarrow> nat list \<Rightarrow> bool" where
  "removes res ps \<longleftrightarrow> (\<exists>h' t'. res = Some h' \<and> tree_rep h' t' \<and> red_black t' \<and> inorder t' = ps)"

lemma removesI:
  assumes "focus_rep h' fs t" "red_black (plug fs t)"
  shows "removes (Some h') (left_part fs @ inorder t @ right_part fs)"
  using assms unfolding removes_def tree_rep_focus [symmetric]
  by (intro exI [of _ h'] exI [of _ "plug fs t"]) (simp add: inorder_plug)

lemma path_root:
  "path_rep h x fs \<Longrightarrow> fs \<noteq> [] \<Longrightarrow> m_rbh_root h \<noteq> 0 \<and> m_rbh_root h \<in> set (left_part fs) \<union> set (right_part fs)"
proof (induction fs arbitrary: x)
  case (Cons f fs)
  then show ?case
    by (cases "fs = []"; cases f) auto
qed simp

lemma focus_not_root: "focus_rep h fs t \<Longrightarrow> fs \<noteq> [] \<Longrightarrow> root_of t \<noteq> m_rbh_root h"
  using path_root [of h "root_of t" fs] rep_root [of h "top_node fs" t] by (auto simp: focus_rep_def)

lemma focus_color: "focus_rep h fs t \<Longrightarrow> black_or_null h (root_of t) \<longleftrightarrow> color_of t = RB_BLACK"
  by (auto simp: focus_rep_def color_read)

text \<open>The subtree that lacks a black node may have a red root below a red node.\<close>

definition inner_colors :: "ptree \<Rightarrow> bool" where
  "inner_colors t \<longleftrightarrow> (case t of Tip \<Rightarrow> True | Bin c l p r \<Rightarrow> no_red_red l \<and> no_red_red r)"

lemma inner_colors_black: "color_of t = RB_BLACK \<Longrightarrow> inner_colors t \<longleftrightarrow> no_red_red t"
  by (cases t) (auto simp: inner_colors_def)

lemma inner_colors_Bin [simp]: "inner_colors (Bin c l p r) \<longleftrightarrow> no_red_red l \<and> no_red_red r"
  by (simp add: inner_colors_def)

lemma remove_stop:
  assumes f: "focus_rep h fs t" and stop: "fs = [] \<or> color_of t = RB_RED"
    and inv: "balanced t" "path_balanced fs (Suc (black_height t))" "inner_colors t" "path_colors fs" "root_black fs"
  shows "removes (RB_REMOVE_COLOR h (top_node fs) (root_of t)) (left_part fs @ inorder t @ right_part fs)"
proof -
  have "remove_color_loop h (top_node fs) (root_of t) = Some (h, root_of t)"
  proof -
    have "\<not> (black_or_null h (root_of t) \<and> root_of t \<noteq> m_rbh_root h)"
      using stop f focus_color [OF f] by (auto simp: focus_rep_def)
    then show ?thesis by (subst remove_color_loop.simps) auto
  qed
  then have eq: "RB_REMOVE_COLOR h (top_node fs) (root_of t) =
      Some (if root_of t \<noteq> 0 then RB_SET_COLOR (root_of t) RB_BLACK h else h)"
    by (simp add: RB_REMOVE_COLOR_def)
  show ?thesis
  proof (cases t)
    case Tip
    then show ?thesis
      using f stop removesI [of h fs t] unfolding eq by (simp add: red_black_def)
  next
    case (Bin c l p r)
    from removesI [OF focus_recolor [OF f [unfolded Bin]], of RB_BLACK] show ?thesis
      using focus_node(1) [OF f [unfolded Bin]] stop inv unfolding eq by (auto simp: Bin red_black_plug)
  qed
qed

text \<open>One iteration of the loop, and leaving it.\<close>

lemma remove_step:
  assumes f: "focus_rep h (g # gs) t" and black: "color_of t = RB_BLACK" and sib: "frame_sibling g \<noteq> Tip"
  shows "RB_REMOVE_COLOR h (frame_node g) (root_of t) =
    do { (fin, h', parent', elm') \<leftarrow>
           (case g of InLeft _ p _ \<Rightarrow> remove_color_left h p | InRight _ _ p \<Rightarrow> remove_color_right h p);
         if fin then Some (if elm' \<noteq> 0 then RB_SET_COLOR elm' RB_BLACK h' else h')
         else RB_REMOVE_COLOR h' parent' elm' }"
proof -
  have c: "black_or_null h (root_of t) \<and> root_of t \<noteq> m_rbh_root h"
    using focus_color [OF f] focus_not_root [OF f] black by simp
  have d: "RB_LEFT h (frame_node g) = root_of t \<longleftrightarrow> (case g of InLeft _ _ _ \<Rightarrow> True | InRight _ _ _ \<Rightarrow> False)"
    "frame_node g \<noteq> 0"
    using f sib focus_children_neq [of h gs] by (cases g; fastforce simp: focus_up dest: focus_node)+
  have "remove_color_loop h (frame_node g) (root_of t) =
    do { (fin, h', parent', elm') \<leftarrow>
           (case g of InLeft _ p _ \<Rightarrow> remove_color_left h p | InRight _ _ p \<Rightarrow> remove_color_right h p);
         if fin then Some (h', elm') else remove_color_loop h' parent' elm' }"
    using c d by (subst remove_color_loop.simps) (cases g; simp)
  then show ?thesis
    by (cases g) (auto simp: RB_REMOVE_COLOR_def bind_eq_None_conv split: bind_splits)
qed

lemma root_recolor:
  assumes "focus_rep h fs t" "red_black (plug fs t)" "t \<noteq> Tip"
  shows "m_rbh_root h \<noteq> 0" "removes (Some (RB_SET_COLOR (m_rbh_root h) RB_BLACK h)) (left_part fs @ inorder t @ right_part fs)"
proof -
  obtain l p r where t: "plug fs t = Bin RB_BLACK l p r"
    using assms(2,3) plug_neq_Tip [of t fs] by (cases "plug fs t") (auto simp: red_black_def)
  have f: "focus_rep h [] (Bin RB_BLACK l p r)"
    using assms(1) tree_rep_focus [of h fs t] tree_rep_focus [of h "[]" "plug fs t"] t by simp
  have r: "m_rbh_root h = p" using f by (simp add: focus_rep_def)
  then show "m_rbh_root h \<noteq> 0" using focus_node(1) [OF f] by simp
  from removesI [OF focus_recolor [OF f, of RB_BLACK]] assms(2) show
    "removes (Some (RB_SET_COLOR (m_rbh_root h) RB_BLACK h)) (left_part fs @ inorder t @ right_part fs)"
    using r t inorder_plug [of fs t] by simp
qed

subsection \<open>The element on the left\<close>

lemma left_both_black:
  assumes f: "focus_rep h gs (Bin c t p (Bin RB_BLACK a q b))" and "color_of a = RB_BLACK" "color_of b = RB_BLACK"
  shows "\<exists>h'. remove_color_left h p = Some (False, h', top_node gs, p) \<and>
    focus_rep h' gs (Bin c t p (Bin RB_RED a q b))"
proof -
  note n = focus_node [OF f] and nq = focus_node [OF focus_right [OF f]]
  note fq = focus_right [OF f]
  have "black_or_null h (RB_LEFT h q)" "black_or_null h (RB_RIGHT h q)"
    using focus_color [OF focus_left [OF fq]] focus_color [OF focus_right [OF fq]] assms(2,3) nq by simp_all
  then have "remove_color_left h p = Some (False, RB_SET_COLOR q RB_RED h, top_node gs, p)"
    using n nq by (simp add: remove_color_left_def RB_IS_RED_def)
  with focus_recolor_right [OF f, of RB_RED] show ?thesis by blast
qed

lemma left_far_red:
  assumes f: "focus_rep h gs (Bin c t p (Bin RB_BLACK a q (Bin RB_RED b1 y b2)))"
  shows "\<exists>h'. remove_color_left h p = Some (True, h', p, m_rbh_root h') \<and>
    focus_rep h' gs (Bin c (Bin RB_BLACK t p a) q (Bin RB_BLACK b1 y b2))"
proof -
  note fq = focus_right [OF f] note fy = focus_right [OF fq]
  note n = focus_node [OF f] and nq = focus_node [OF fq] and ny = focus_node [OF fy]
  have red: "\<not> black_or_null h y" using focus_color [OF fy] by simp
  let ?h = "RB_SET_COLOR y RB_BLACK (RB_SET_COLOR p RB_BLACK (RB_SET_COLOR q c h))"
  have "focus_rep (RB_SET_COLOR p RB_BLACK (RB_SET_COLOR q c h)) gs (Bin RB_BLACK t p (Bin c a q (Bin RB_RED b1 y b2)))"
    by (rule focus_recolor, rule focus_recolor_right, rule f)
  from focus_recolor_right [OF focus_right [OF this], of RB_BLACK]
  have "focus_rep ?h gs (Bin RB_BLACK t p (Bin c a q (Bin RB_BLACK b1 y b2)))" by (simp add: focus_up)
  from focus_rotate_left [OF this] obtain h' where
    h': "RB_ROTATE_LEFT ?h p = Some h'" "focus_rep h' gs (Bin c (Bin RB_BLACK t p a) q (Bin RB_BLACK b1 y b2))"
    by blast
  have "remove_color_left h p = Some (True, h', p, m_rbh_root h')"
    using n nq ny red h'(1) by (simp add: remove_color_left_def RB_IS_RED_def Let_def)
  with h'(2) show ?thesis by blast
qed

lemma left_near_red:
  assumes f: "focus_rep h gs (Bin c t p (Bin RB_BLACK (Bin RB_RED a1 x a2) q b))" and b: "color_of b = RB_BLACK"
  shows "\<exists>h'. remove_color_left h p = Some (True, h', p, m_rbh_root h') \<and>
    focus_rep h' gs (Bin c (Bin RB_BLACK t p a1) x (Bin RB_BLACK a2 q b))"
proof -
  note fq = focus_right [OF f] note fx = focus_left [OF fq]
  note n = focus_node [OF f] and nq = focus_node [OF fq] and nx = focus_node [OF fx]
  have red: "\<not> black_or_null h x" "black_or_null h (root_of b)"
    using focus_color [OF fx] focus_color [OF focus_right [OF fq]] b by simp_all
  let ?h1 = "RB_SET_COLOR q RB_RED (RB_SET_COLOR x RB_BLACK h)"
  from focus_recolor [OF focus_recolor_left [OF fq, of RB_BLACK], of RB_RED]
  have "focus_rep ?h1 gs (Bin c t p (Bin RB_RED (Bin RB_BLACK a1 x a2) q b))" by (simp add: focus_up)
  from focus_rotate_right_below [OF this] obtain h2 where
    h2: "RB_ROTATE_RIGHT ?h1 q = Some h2" "focus_rep h2 gs (Bin c t p (Bin RB_BLACK a1 x (Bin RB_RED a2 q b)))"
    by blast
  note n2 = focus_node [OF h2(2)] and nx2 = focus_node [OF focus_right [OF h2(2)]]
  let ?h3 = "RB_SET_COLOR q RB_BLACK (RB_SET_COLOR p RB_BLACK (RB_SET_COLOR x c h2))"
  have "focus_rep (RB_SET_COLOR p RB_BLACK (RB_SET_COLOR x c h2)) gs (Bin RB_BLACK t p (Bin c a1 x (Bin RB_RED a2 q b)))"
    by (rule focus_recolor, rule focus_recolor_right, rule h2(2))
  from focus_recolor_right [OF focus_right [OF this], of RB_BLACK]
  have "focus_rep ?h3 gs (Bin RB_BLACK t p (Bin c a1 x (Bin RB_BLACK a2 q b)))" by (simp add: focus_up)
  from focus_rotate_left [OF this] obtain h' where
    h': "RB_ROTATE_LEFT ?h3 p = Some h'" "focus_rep h' gs (Bin c (Bin RB_BLACK t p a1) x (Bin RB_BLACK a2 q b))"
    by blast
  have "remove_color_left h p = Some (True, h', p, m_rbh_root h')"
    using n nq nx n2 nx2 red h2(1) h'(1) by (simp add: remove_color_left_def RB_IS_RED_def Let_def)
  with h'(2) show ?thesis by blast
qed

lemma left_red_sibling:
  assumes f: "focus_rep h gs (Bin RB_BLACK t p (Bin RB_RED sl q sr))" and sl: "color_of sl = RB_BLACK" "sl \<noteq> Tip"
  shows "\<exists>h'. remove_color_left h p = remove_color_left h' p \<and>
    focus_rep h' (InLeft RB_BLACK q sr # gs) (Bin RB_RED t p sl)"
proof -
  note n = focus_node [OF f] and nq = focus_node [OF focus_right [OF f]]
  let ?h = "RB_SET_BLACKRED q p h"
  have "focus_rep ?h gs (Bin RB_RED t p (Bin RB_BLACK sl q sr))"
    unfolding RB_SET_BLACKRED_def by (rule focus_recolor, rule focus_recolor_right, rule f)
  from focus_rotate_left [OF this] obtain h' where
    h': "RB_ROTATE_LEFT ?h p = Some h'" "focus_rep h' gs (Bin RB_BLACK (Bin RB_RED t p sl) q sr)" by blast
  note fp = focus_left [OF h'(2)]
  note np = focus_node [OF fp]
  have "RB_RIGHT h' p \<noteq> 0" "\<not> RB_IS_RED h' (RB_RIGHT h' p)"
    using focus_color [OF focus_right [OF fp]] np sl rep_root [of h' p sl] fp
    by (auto simp: focus_rep_def RB_IS_RED_def black_or_null_def RB_IS_BLACK_def)
  then have "remove_color_left h p = remove_color_left h' p"
    using n nq h'(1) by (simp add: remove_color_left_def RB_IS_RED_def)
  with fp show ?thesis by blast
qed

subsection \<open>The element on the right\<close>

lemma right_both_black:
  assumes f: "focus_rep h gs (Bin c (Bin RB_BLACK a q b) p t)" and "color_of a = RB_BLACK" "color_of b = RB_BLACK"
  shows "\<exists>h'. remove_color_right h p = Some (False, h', top_node gs, p) \<and>
    focus_rep h' gs (Bin c (Bin RB_RED a q b) p t)"
proof -
  note fq = focus_left [OF f]
  note n = focus_node [OF f] and nq = focus_node [OF fq]
  have "black_or_null h (RB_LEFT h q)" "black_or_null h (RB_RIGHT h q)"
    using focus_color [OF focus_left [OF fq]] focus_color [OF focus_right [OF fq]] assms(2,3) nq by simp_all
  then have "remove_color_right h p = Some (False, RB_SET_COLOR q RB_RED h, top_node gs, p)"
    using n nq by (simp add: remove_color_right_def RB_IS_RED_def)
  with focus_recolor_left [OF f, of RB_RED] show ?thesis by blast
qed

lemma right_far_red:
  assumes f: "focus_rep h gs (Bin c (Bin RB_BLACK (Bin RB_RED b1 y b2) q a) p t)"
  shows "\<exists>h'. remove_color_right h p = Some (True, h', p, m_rbh_root h') \<and>
    focus_rep h' gs (Bin c (Bin RB_BLACK b1 y b2) q (Bin RB_BLACK a p t))"
proof -
  note fq = focus_left [OF f] note fy = focus_left [OF fq]
  note n = focus_node [OF f] and nq = focus_node [OF fq] and ny = focus_node [OF fy]
  have red: "\<not> black_or_null h y" using focus_color [OF fy] by simp
  let ?h = "RB_SET_COLOR y RB_BLACK (RB_SET_COLOR p RB_BLACK (RB_SET_COLOR q c h))"
  have "focus_rep (RB_SET_COLOR p RB_BLACK (RB_SET_COLOR q c h)) gs (Bin RB_BLACK (Bin c (Bin RB_RED b1 y b2) q a) p t)"
    by (rule focus_recolor, rule focus_recolor_left, rule f)
  from focus_recolor_left [OF focus_left [OF this], of RB_BLACK]
  have "focus_rep ?h gs (Bin RB_BLACK (Bin c (Bin RB_BLACK b1 y b2) q a) p t)" by (simp add: focus_up)
  from focus_rotate_right [OF this] obtain h' where
    h': "RB_ROTATE_RIGHT ?h p = Some h'" "focus_rep h' gs (Bin c (Bin RB_BLACK b1 y b2) q (Bin RB_BLACK a p t))"
    by blast
  have "remove_color_right h p = Some (True, h', p, m_rbh_root h')"
    using n nq ny red h'(1) by (simp add: remove_color_right_def RB_IS_RED_def Let_def)
  with h'(2) show ?thesis by blast
qed

lemma right_near_red:
  assumes f: "focus_rep h gs (Bin c (Bin RB_BLACK b q (Bin RB_RED a1 x a2)) p t)" and b: "color_of b = RB_BLACK"
  shows "\<exists>h'. remove_color_right h p = Some (True, h', p, m_rbh_root h') \<and>
    focus_rep h' gs (Bin c (Bin RB_BLACK b q a1) x (Bin RB_BLACK a2 p t))"
proof -
  note fq = focus_left [OF f] note fx = focus_right [OF fq]
  note n = focus_node [OF f] and nq = focus_node [OF fq] and nx = focus_node [OF fx]
  have red: "\<not> black_or_null h x" "black_or_null h (root_of b)"
    using focus_color [OF fx] focus_color [OF focus_left [OF fq]] b by simp_all
  let ?h1 = "RB_SET_COLOR q RB_RED (RB_SET_COLOR x RB_BLACK h)"
  from focus_recolor [OF focus_recolor_right [OF fq, of RB_BLACK], of RB_RED]
  have "focus_rep ?h1 gs (Bin c (Bin RB_RED b q (Bin RB_BLACK a1 x a2)) p t)" by (simp add: focus_up)
  from focus_rotate_left_below [OF this] obtain h2 where
    h2: "RB_ROTATE_LEFT ?h1 q = Some h2" "focus_rep h2 gs (Bin c (Bin RB_BLACK (Bin RB_RED b q a1) x a2) p t)"
    by blast
  note n2 = focus_node [OF h2(2)] and nx2 = focus_node [OF focus_left [OF h2(2)]]
  let ?h3 = "RB_SET_COLOR q RB_BLACK (RB_SET_COLOR p RB_BLACK (RB_SET_COLOR x c h2))"
  have "focus_rep (RB_SET_COLOR p RB_BLACK (RB_SET_COLOR x c h2)) gs (Bin RB_BLACK (Bin c (Bin RB_RED b q a1) x a2) p t)"
    by (rule focus_recolor, rule focus_recolor_left, rule h2(2))
  from focus_recolor_left [OF focus_left [OF this], of RB_BLACK]
  have "focus_rep ?h3 gs (Bin RB_BLACK (Bin c (Bin RB_BLACK b q a1) x a2) p t)" by (simp add: focus_up)
  from focus_rotate_right [OF this] obtain h' where
    h': "RB_ROTATE_RIGHT ?h3 p = Some h'" "focus_rep h' gs (Bin c (Bin RB_BLACK b q a1) x (Bin RB_BLACK a2 p t))"
    by blast
  have "remove_color_right h p = Some (True, h', p, m_rbh_root h')"
    using n nq nx n2 nx2 red h2(1) h'(1) by (simp add: remove_color_right_def RB_IS_RED_def Let_def)
  with h'(2) show ?thesis by blast
qed

lemma right_red_sibling:
  assumes f: "focus_rep h gs (Bin RB_BLACK (Bin RB_RED sl q sr) p t)" and sr: "color_of sr = RB_BLACK" "sr \<noteq> Tip"
  shows "\<exists>h'. remove_color_right h p = remove_color_right h' p \<and>
    focus_rep h' (InRight RB_BLACK sl q # gs) (Bin RB_RED sr p t)"
proof -
  note n = focus_node [OF f] and nq = focus_node [OF focus_left [OF f]]
  let ?h = "RB_SET_BLACKRED q p h"
  have "focus_rep ?h gs (Bin RB_RED (Bin RB_BLACK sl q sr) p t)"
    unfolding RB_SET_BLACKRED_def by (rule focus_recolor, rule focus_recolor_left, rule f)
  from focus_rotate_right [OF this] obtain h' where
    h': "RB_ROTATE_RIGHT ?h p = Some h'" "focus_rep h' gs (Bin RB_BLACK sl q (Bin RB_RED sr p t))" by blast
  note fp = focus_right [OF h'(2)]
  note np = focus_node [OF fp]
  have "RB_LEFT h' p \<noteq> 0" "\<not> RB_IS_RED h' (RB_LEFT h' p)"
    using focus_color [OF focus_left [OF fp]] np sr rep_root [of h' p sr] fp
    by (auto simp: focus_rep_def RB_IS_RED_def black_or_null_def RB_IS_BLACK_def)
  then have "remove_color_right h p = remove_color_right h' p"
    using n nq h'(1) by (simp add: remove_color_right_def RB_IS_RED_def)
  with fp show ?thesis by blast
qed

subsection \<open>The loop\<close>

lemma red_tree: "color_of t = RB_RED \<Longrightarrow> \<exists>l p r. t = Bin RB_RED l p r"
  by (cases t) auto

lemma color_cases: "color_of t = RB_RED \<or> color_of t = RB_BLACK"
  by (cases "color_of t") auto

lemma remove_fix_left:
  assumes f: "focus_rep h gs (Bin c t p (Bin RB_BLACK a q b))" and black: "color_of t = RB_BLACK"
    and inv: "balanced t" "no_red_red t" "path_balanced (InLeft c p (Bin RB_BLACK a q b) # gs) (Suc (black_height t))"
      "path_colors (InLeft c p (Bin RB_BLACK a q b) # gs)" "root_black (InLeft c p (Bin RB_BLACK a q b) # gs)"
    and IH: "\<And>h'. focus_rep h' gs (Bin c t p (Bin RB_RED a q b)) \<Longrightarrow> color_of a = RB_BLACK \<Longrightarrow> color_of b = RB_BLACK \<Longrightarrow>
      removes (RB_REMOVE_COLOR h' (top_node gs) p) (left_part gs @ inorder (Bin c t p (Bin RB_RED a q b)) @ right_part gs)"
  shows "removes (RB_REMOVE_COLOR h p (root_of t)) (left_part gs @ inorder (Bin c t p (Bin RB_BLACK a q b)) @ right_part gs)"
proof -
  note step = remove_step [OF focus_left [OF f] black]
  have rb: "root_black gs" "gs = [] \<Longrightarrow> c = RB_BLACK"
    using inv(5) by (auto simp: root_black_def split: if_splits)
  have finish: ?thesis if r: "remove_color_left h p = Some (True, h', p, m_rbh_root h')" and f': "focus_rep h' gs t'"
      and t': "red_black (plug gs t')" "inorder t' = inorder (Bin c t p (Bin RB_BLACK a q b))" for h' t'
  proof -
    have "t' \<noteq> Tip" using t'(2) by auto
    from root_recolor [OF f' t'(1) this] t'(2) step r show ?thesis by simp
  qed
  consider b1 y b2 where "b = Bin RB_RED b1 y b2" | a1 x a2 where "a = Bin RB_RED a1 x a2" "color_of b = RB_BLACK"
    | "color_of a = RB_BLACK" "color_of b = RB_BLACK"
    using color_cases red_tree by blast
  then show ?thesis
  proof cases
    case (1 b1 y b2)
    from left_far_red [OF f [unfolded 1]] obtain h' where
      h': "remove_color_left h p = Some (True, h', p, m_rbh_root h')"
        "focus_rep h' gs (Bin c (Bin RB_BLACK t p a) q (Bin RB_BLACK b1 y b2))" by blast
    show ?thesis
      by (rule finish [OF h']) (use inv rb black 1 in \<open>auto simp: red_black_plug\<close>)
  next
    case (2 a1 x a2)
    from left_near_red [OF f [unfolded 2(1)] 2(2)] obtain h' where
      h': "remove_color_left h p = Some (True, h', p, m_rbh_root h')"
        "focus_rep h' gs (Bin c (Bin RB_BLACK t p a1) x (Bin RB_BLACK a2 q b))" by blast
    show ?thesis
      by (rule finish [OF h']) (use inv rb black 2 in \<open>auto simp: red_black_plug\<close>)
  next
    case 3
    from left_both_black [OF f 3] obtain h' where
      h': "remove_color_left h p = Some (False, h', top_node gs, p)" "focus_rep h' gs (Bin c t p (Bin RB_RED a q b))" by blast
    from IH [OF h'(2) 3] step h'(1) show ?thesis by simp
  qed
qed

lemma remove_fix_right:
  assumes f: "focus_rep h gs (Bin c (Bin RB_BLACK a q b) p t)" and black: "color_of t = RB_BLACK"
    and inv: "balanced t" "no_red_red t" "path_balanced (InRight c (Bin RB_BLACK a q b) p # gs) (Suc (black_height t))"
      "path_colors (InRight c (Bin RB_BLACK a q b) p # gs)" "root_black (InRight c (Bin RB_BLACK a q b) p # gs)"
    and IH: "\<And>h'. focus_rep h' gs (Bin c (Bin RB_RED a q b) p t) \<Longrightarrow> color_of a = RB_BLACK \<Longrightarrow> color_of b = RB_BLACK \<Longrightarrow>
      removes (RB_REMOVE_COLOR h' (top_node gs) p) (left_part gs @ inorder (Bin c (Bin RB_RED a q b) p t) @ right_part gs)"
  shows "removes (RB_REMOVE_COLOR h p (root_of t)) (left_part gs @ inorder (Bin c (Bin RB_BLACK a q b) p t) @ right_part gs)"
proof -
  note step = remove_step [OF focus_right [OF f] black]
  have rb: "root_black gs" "gs = [] \<Longrightarrow> c = RB_BLACK"
    using inv(5) by (auto simp: root_black_def split: if_splits)
  have finish: ?thesis if r: "remove_color_right h p = Some (True, h', p, m_rbh_root h')" and f': "focus_rep h' gs t'"
      and t': "red_black (plug gs t')" "inorder t' = inorder (Bin c (Bin RB_BLACK a q b) p t)" for h' t'
  proof -
    have "t' \<noteq> Tip" using t'(2) by auto
    from root_recolor [OF f' t'(1) this] t'(2) step r show ?thesis by simp
  qed
  consider b1 y b2 where "a = Bin RB_RED b1 y b2" | a1 x a2 where "b = Bin RB_RED a1 x a2" "color_of a = RB_BLACK"
    | "color_of a = RB_BLACK" "color_of b = RB_BLACK"
    using color_cases red_tree by blast
  then show ?thesis
  proof cases
    case (1 b1 y b2)
    from right_far_red [OF f [unfolded 1]] obtain h' where
      h': "remove_color_right h p = Some (True, h', p, m_rbh_root h')"
        "focus_rep h' gs (Bin c (Bin RB_BLACK b1 y b2) q (Bin RB_BLACK b p t))" by blast
    show ?thesis
      by (rule finish [OF h']) (use inv rb black 1 in \<open>auto simp: red_black_plug\<close>)
  next
    case (2 a1 x a2)
    from right_near_red [OF f [unfolded 2(1)] 2(2)] obtain h' where
      h': "remove_color_right h p = Some (True, h', p, m_rbh_root h')"
        "focus_rep h' gs (Bin c (Bin RB_BLACK a q a1) x (Bin RB_BLACK a2 p t))" by blast
    show ?thesis
      by (rule finish [OF h']) (use inv rb black 2 in \<open>auto simp: red_black_plug\<close>)
  next
    case 3
    from right_both_black [OF f 3] obtain h' where
      h': "remove_color_right h p = Some (False, h', top_node gs, p)" "focus_rep h' gs (Bin c (Bin RB_RED a q b) p t)" by blast
    from IH [OF h'(2) 3] step h'(1) show ?thesis by simp
  qed
qed

lemma black_sibling:
  assumes "path_balanced (g # gs) (Suc n)"
  obtains c a q b where "frame_sibling g = Bin c a q b"
  using assms by (cases "frame_sibling g") auto

lemma remove_red_sibling_left:
  assumes f: "focus_rep h gs (Bin RB_BLACK t p (Bin RB_RED a q b))" and black: "color_of t = RB_BLACK"
    and inv: "balanced t" "no_red_red t" "path_balanced (InLeft RB_BLACK p (Bin RB_RED a q b) # gs) (Suc (black_height t))"
      "path_colors (InLeft RB_BLACK p (Bin RB_RED a q b) # gs)" "root_black (InLeft RB_BLACK p (Bin RB_RED a q b) # gs)"
  shows "removes (RB_REMOVE_COLOR h p (root_of t)) (left_part gs @ inorder (Bin RB_BLACK t p (Bin RB_RED a q b)) @ right_part gs)"
proof -
  obtain a1 x a2 where a: "a = Bin RB_BLACK a1 x a2" using inv(3,4) by (cases a) auto
  from left_red_sibling [OF f] obtain h' where
    h': "remove_color_left h p = remove_color_left h' p" "focus_rep h' (InLeft RB_BLACK q b # gs) (Bin RB_RED t p a)"
    by (auto simp: a)
  have eq: "RB_REMOVE_COLOR h p (root_of t) = RB_REMOVE_COLOR h' p (root_of t)"
    using remove_step [OF focus_left [OF f] black] remove_step [OF focus_left [OF h'(2)] black] h'(1) a by simp
  have rb: "root_black (InLeft RB_BLACK q b # gs)" using inv(5) by (auto simp: root_black_def split: if_splits)
  have stop: "removes (RB_REMOVE_COLOR h'' (top_node (InLeft RB_BLACK q b # gs)) p)
      (left_part (InLeft RB_BLACK q b # gs) @ inorder (Bin RB_RED t p (Bin RB_RED a1 x a2)) @ right_part (InLeft RB_BLACK q b # gs))"
    if "focus_rep h'' (InLeft RB_BLACK q b # gs) (Bin RB_RED t p (Bin RB_RED a1 x a2))" "color_of a1 = RB_BLACK" "color_of a2 = RB_BLACK" for h''
    using remove_stop [OF that(1)] that inv a rb by auto
  from h'(2) have "removes (RB_REMOVE_COLOR h' p (root_of t))
      (left_part (InLeft RB_BLACK q b # gs) @ inorder (Bin RB_RED t p (Bin RB_BLACK a1 x a2)) @ right_part (InLeft RB_BLACK q b # gs))"
    unfolding a by (rule remove_fix_left [OF _ black inv(1,2) _ _ _ stop])
      (use inv a rb in \<open>auto simp: root_black_def\<close>)
  then show ?thesis by (simp add: eq a)
qed

lemma remove_red_sibling_right:
  assumes f: "focus_rep h gs (Bin RB_BLACK (Bin RB_RED b q a) p t)" and black: "color_of t = RB_BLACK"
    and inv: "balanced t" "no_red_red t" "path_balanced (InRight RB_BLACK (Bin RB_RED b q a) p # gs) (Suc (black_height t))"
      "path_colors (InRight RB_BLACK (Bin RB_RED b q a) p # gs)" "root_black (InRight RB_BLACK (Bin RB_RED b q a) p # gs)"
  shows "removes (RB_REMOVE_COLOR h p (root_of t)) (left_part gs @ inorder (Bin RB_BLACK (Bin RB_RED b q a) p t) @ right_part gs)"
proof -
  obtain a1 x a2 where a: "a = Bin RB_BLACK a1 x a2" using inv(3,4) by (cases a) auto
  from right_red_sibling [OF f] obtain h' where
    h': "remove_color_right h p = remove_color_right h' p" "focus_rep h' (InRight RB_BLACK b q # gs) (Bin RB_RED a p t)"
    by (auto simp: a)
  have eq: "RB_REMOVE_COLOR h p (root_of t) = RB_REMOVE_COLOR h' p (root_of t)"
    using remove_step [OF focus_right [OF f] black] remove_step [OF focus_right [OF h'(2)] black] h'(1) a by simp
  have rb: "root_black (InRight RB_BLACK b q # gs)" using inv(5) by (auto simp: root_black_def split: if_splits)
  have stop: "removes (RB_REMOVE_COLOR h'' (top_node (InRight RB_BLACK b q # gs)) p)
      (left_part (InRight RB_BLACK b q # gs) @ inorder (Bin RB_RED (Bin RB_RED a1 x a2) p t) @ right_part (InRight RB_BLACK b q # gs))"
    if "focus_rep h'' (InRight RB_BLACK b q # gs) (Bin RB_RED (Bin RB_RED a1 x a2) p t)" "color_of a1 = RB_BLACK" "color_of a2 = RB_BLACK" for h''
    using remove_stop [OF that(1)] that inv a rb by auto
  from h'(2) have "removes (RB_REMOVE_COLOR h' p (root_of t))
      (left_part (InRight RB_BLACK b q # gs) @ inorder (Bin RB_RED (Bin RB_BLACK a1 x a2) p t) @ right_part (InRight RB_BLACK b q # gs))"
    unfolding a by (rule remove_fix_right [OF _ black inv(1,2) _ _ _ stop])
      (use inv a rb in \<open>auto simp: root_black_def\<close>)
  then show ?thesis by (simp add: eq a)
qed

lemma RB_REMOVE_COLOR_removes:
  assumes "focus_rep h fs t" "balanced t" "inner_colors t" "path_balanced fs (Suc (black_height t))"
    and "path_colors fs" "root_black fs"
  shows "removes (RB_REMOVE_COLOR h (top_node fs) (root_of t)) (left_part fs @ inorder t @ right_part fs)"
  using assms
proof (induction fs arbitrary: h t rule: length_induct)
  case (1 fs)
  note f = 1(2) and inv = 1(3-7)
  show ?case
  proof (cases "fs = [] \<or> color_of t = RB_RED")
    case True
    then show ?thesis using remove_stop [OF f] inv by blast
  next
    case False
    then obtain g gs where fs: "fs = g # gs" and black: "color_of t = RB_BLACK" by (cases fs) auto
    have nrr: "no_red_red t" using inv(2) inner_colors_black [OF black] by simp
    have rb: "root_black gs" using inv(5) by (auto simp: root_black_def fs split: if_splits)
    have up: "removes (RB_REMOVE_COLOR h' (top_node gs) (root_of t')) (left_part gs @ inorder t' @ right_part gs)"
      if "focus_rep h' gs t'" "balanced t'" "inner_colors t'" "path_balanced gs (Suc (black_height t'))"
        "path_colors gs" for h' t'
      using 1(1) that rb by (simp add: fs)
    obtain sc a q b where s: "frame_sibling g = Bin sc a q b"
      using black_sibling inv(3) fs by blast
    have F: "focus_rep h gs (up g t)" using f by (simp add: fs focus_up)
    show ?thesis
    proof (cases g)
      case (InLeft c p r)
      with s have g: "g = InLeft c p (Bin sc a q b)" by simp
      show ?thesis
      proof (cases sc)
        case RB_RED
        with remove_red_sibling_left [of h gs t p a q b] F black nrr inv g show ?thesis by (simp add: fs)
      next
        case RB_BLACK
        have bh: "black_height a = black_height t" "black_height b = black_height t"
          using inv(3) by (auto simp: fs g RB_BLACK)
        have IH: "removes (RB_REMOVE_COLOR h' (top_node gs) p) (left_part gs @ inorder (Bin c t p (Bin RB_RED a q b)) @ right_part gs)"
          if "focus_rep h' gs (Bin c t p (Bin RB_RED a q b))" "color_of a = RB_BLACK" "color_of b = RB_BLACK" for h'
          using up [OF that(1)] that inv nrr bh by (simp add: fs g RB_BLACK)
        have "removes (RB_REMOVE_COLOR h p (root_of t)) (left_part gs @ inorder (Bin c t p (Bin RB_BLACK a q b)) @ right_part gs)"
          by (rule remove_fix_left [OF _ black inv(1) nrr _ _ _ IH])
             (use F inv in \<open>simp_all only: fs g RB_BLACK up.simps\<close>)
        then show ?thesis by (simp add: fs g)
      qed
    next
      case (InRight c l p)
      with s have g: "g = InRight c (Bin sc a q b) p" by simp
      show ?thesis
      proof (cases sc)
        case RB_RED
        with remove_red_sibling_right [of h gs a q b p t] F black nrr inv g show ?thesis by (simp add: fs)
      next
        case RB_BLACK
        have bh: "black_height a = black_height t" "black_height b = black_height t"
          using inv(3) by (auto simp: fs g RB_BLACK)
        have IH: "removes (RB_REMOVE_COLOR h' (top_node gs) p) (left_part gs @ inorder (Bin c (Bin RB_RED a q b) p t) @ right_part gs)"
          if "focus_rep h' gs (Bin c (Bin RB_RED a q b) p t)" "color_of a = RB_BLACK" "color_of b = RB_BLACK" for h'
          using up [OF that(1)] that inv nrr bh by (simp add: fs g RB_BLACK)
        have "removes (RB_REMOVE_COLOR h p (root_of t)) (left_part gs @ inorder (Bin c (Bin RB_BLACK a q b) p t) @ right_part gs)"
          by (rule remove_fix_right [OF _ black inv(1) nrr _ _ _ IH])
             (use F inv in \<open>simp_all only: fs g RB_BLACK up.simps\<close>)
        then show ?thesis by (simp add: fs g)
      qed
    qed
  qed
qed

subsection \<open>Unlinking a node\<close>

lemma parts_append:
  "left_part (ks @ fs) = left_part fs @ left_part ks" "right_part (ks @ fs) = right_part ks @ right_part fs"
proof (induction ks)
  case (Cons k ks)
  { case 1 show ?case using Cons by (cases k) simp_all }
  { case 2 show ?case using Cons by (cases k) simp_all }
qed simp_all

lemma focus_append: "focus_rep h (ks @ fs) t \<longleftrightarrow> focus_rep h fs (plug ks t)"
  by (simp flip: tree_rep_focus add: plug_append)

lemma node_focus: "p \<in> set (inorder t) \<Longrightarrow> \<exists>fs c l r. t = plug fs (Bin c l p r)"
proof (induction t)
  case (Bin c l x r)
  then consider "p = x" | fs k a b where "l = plug fs (Bin k a p b)" | fs k a b where "r = plug fs (Bin k a p b)"
    by auto
  then show ?case
  proof cases
    case 1
    then show ?thesis by (metis plug_simps(1))
  next
    case 2
    then show ?thesis by (metis plug_append plug_simps up.simps(1))
  next
    case 3
    then show ?thesis by (metis plug_append plug_simps up.simps(2))
  qed
qed simp

lemma focus_splice:
  assumes f: "focus_rep h fs (Bin c l p r)" and x: "x = l \<and> r = Tip \<or> x = r \<and> l = Tip"
  shows "focus_rep (splice_out (top_node fs) p (root_of x) h) fs x"
proof -
  define h1 where "h1 = (if root_of x \<noteq> 0 then RB_SET_PARENT (root_of x) (top_node fs) h else h)"
  have d: "distinct (left_part fs @ p # inorder x @ right_part fs) \<or> distinct (left_part fs @ inorder x @ p # right_part fs)"
    and r: "rep h p x" "path_rep h p fs" "p \<noteq> 0"
    using f x by (auto simp: focus_rep_def)
  have dx: "distinct (left_part fs @ right_part fs)" "distinct (inorder x)" "p \<notin> set (left_part fs) \<union> set (right_part fs)"
      "set (inorder x) \<inter> (set (left_part fs) \<union> set (right_part fs)) = {}"
    using d by auto
  have "path_rep h1 p fs" "rep h1 (top_node fs) x"
    using r dx rep_root [OF r(1)] rep_set_parent [OF r(1) dx(2)] by (cases x; auto simp: h1_def)+
  moreover have "top_node fs \<notin> set (inorder x)"
    using dx(4) top_node_path [of fs] rep_nonzero [OF r(1)] by (cases "fs = []") auto
  ultimately have "path_rep (relink (top_node fs) p (root_of x) h1) (root_of x) fs"
      "rep (relink (top_node fs) p (root_of x) h1) (top_node fs) x"
    using path_relink [of h1 p fs "root_of x"] dx r by auto
  then show ?thesis
    using d by (auto simp: focus_rep_def splice_out_def h1_def)
qed

lemma splice_fields [simp]:
  "p \<noteq> q \<Longrightarrow> p \<noteq> x \<Longrightarrow> rb_entry (splice_out q e x h) p = rb_entry h p"
  by (simp add: splice_out_def relink_def entry_defs)

definition replace_node :: "nat \<Rightarrow> nat \<Rightarrow> RBTree \<Rightarrow> RBTree" where
  "replace_node old elm h =
     (let h = SetRBEntry elm (rb_entry h old) h;
          h = relink (RB_PARENT h old) old elm h;
          h = RB_SET_PARENT (RB_LEFT h old) elm h
      in if RB_RIGHT h old \<noteq> 0 then RB_SET_PARENT (RB_RIGHT h old) elm h else h)"

lemma focus_replace:
  assumes f: "focus_rep h fs (Bin c l p r)" and l: "l \<noteq> Tip"
    and q: "q \<noteq> 0" "q \<notin> set (left_part fs @ inorder (Bin c l p r) @ right_part fs)"
  shows "focus_rep (replace_node p q h) fs (Bin c l q r)"
proof -
  have d: "distinct (left_part fs @ inorder l @ p # inorder r @ right_part fs)"
    and path: "path_rep h p fs" and r: "rep h p l" "rep h p r"
    using f by (auto simp: focus_rep_def)
  note n = focus_node [OF f]
  have e: "rb_entry h p = \<lparr>m_rbe_left = root_of l, m_rbe_right = root_of r, m_rbe_parent = top_node fs, m_rbe_color = c\<rparr>"
    using n by (cases "rb_entry h p") (simp add: RB_LEFT_def RB_RIGHT_def RB_PARENT_def RB_COLOR_def)
  define h1 where "h1 = SetRBEntry q (rb_entry h p) h"
  define h2 where "h2 = relink (top_node fs) p q h1"
  define h3 where "h3 = RB_SET_PARENT (root_of l) q h2"
  have tops: "top_node fs \<notin> set (inorder l)" "top_node fs \<notin> set (inorder r)" "top_node fs \<noteq> p" "top_node fs \<noteq> q"
    using d q top_node_path [of fs] rep_nonzero [OF r(1)] rep_nonzero [OF r(2)] n(1) by (cases "fs = []"; auto)+
  have pq: "p \<noteq> q" using q by auto
  have "path_rep h1 p fs" "rep h1 p l" "rep h1 p r"
    using path r q by (simp_all add: h1_def)
  then have h2: "path_rep h2 q fs" "rep h2 p l" "rep h2 p r"
    using d n(1) tops path_relink [of h1 p fs q] by (auto simp: h2_def)
  have f2: "RB_LEFT h2 q = root_of l" "RB_RIGHT h2 q = root_of r" "RB_PARENT h2 q = top_node fs" "RB_COLOR h2 q = c"
      "RB_LEFT h2 p = root_of l" "RB_RIGHT h2 p = root_of r"
    using tops pq n e by (simp_all add: h2_def h1_def)
  have rl: "root_of l \<in> set (inorder l)" using l rep_root [OF r(1)] by auto
  then have nl: "root_of l \<notin> set (left_part fs)" "root_of l \<notin> set (right_part fs)" "root_of l \<notin> set (inorder r)"
    using d by auto
  have rr: "r \<noteq> Tip \<Longrightarrow> root_of r \<in> set (inorder r)" "root_of r = 0 \<longleftrightarrow> r = Tip" using rep_root [OF r(2)] by auto
  then have nr: "root_of r \<notin> set (left_part fs)" "root_of r \<notin> set (right_part fs)" "root_of r \<notin> set (inorder l)"
    if "r \<noteq> Tip"
    using d that by auto
  have eq: "replace_node p q h = (if r \<noteq> Tip then RB_SET_PARENT (root_of r) q h3 else h3)"
    using n pq f2 rr(2) by (simp add: replace_node_def Let_def h3_def h2_def h1_def)
  have h3: "path_rep h3 q fs" "rep h3 q l" "rep h3 p r"
    using h2 d nl rep_set_parent [OF h2(2) _ l] by (simp_all add: h3_def)
  have h4: "path_rep (replace_node p q h) q fs" "rep (replace_node p q h) q l" "rep (replace_node p q h) q r"
    using h3 d nr rep_set_parent [OF h3(3)] unfolding eq by (cases "r = Tip"; simp)+
  have "RB_LEFT (replace_node p q h) q = root_of l" "RB_RIGHT (replace_node p q h) q = root_of r"
      "RB_PARENT (replace_node p q h) q = top_node fs" "RB_COLOR (replace_node p q h) q = c"
    using f2 q rl rr unfolding eq h3_def by auto
  with h4 q d show ?thesis by (auto simp: focus_rep_def)
qed

text \<open>The path down to the leftmost node.\<close>

definition all_left :: "frame list \<Rightarrow> bool" where
  "all_left ks \<longleftrightarrow> (\<forall>k \<in> set ks. \<exists>c p r. k = InLeft c p r)"

lemma leftmost_focus:
  assumes "focus_rep h fs t" "t \<noteq> Tip"
  shows "\<exists>ks c q r. leftmost h (root_of t) = Some q \<and> t = plug ks (Bin c Tip q r) \<and> all_left ks"
  using assms
proof (induction t arbitrary: fs)
  case (Bin c l p r)
  note n = focus_node [OF Bin.prems(1)]
  show ?case
  proof (cases "l = Tip")
    case True
    then show ?thesis using n by (subst leftmost.simps) (auto simp: all_left_def intro!: exI [of _ "[]"])
  next
    case False
    with Bin.IH(1) [OF focus_left [OF Bin.prems(1)]] obtain ks c2 q r2 where
      l: "leftmost h (root_of l) = Some q" "l = plug ks (Bin c2 Tip q r2)" "all_left ks" by auto
    have "root_of l \<noteq> 0"
      using False rep_root [of h p l] Bin.prems(1) by (auto simp: focus_rep_def)
    then have "leftmost h p = Some q" using n l(1) by (subst leftmost.simps) simp
    then show ?thesis
      using l by (intro exI [of _ "ks @ [InLeft c p r]"] exI [of _ c2] exI [of _ q] exI [of _ r2])
        (auto simp: plug_append all_left_def)
  qed
qed simp

lemma all_left_part: "all_left ks \<Longrightarrow> left_part ks = []"
  by (induction ks) (auto simp: all_left_def)

text \<open>Balance and colours do not depend on which nodes are on the path.\<close>

lemma path_swap_node:
  "path_balanced (ks @ InRight c l p # fs) n \<longleftrightarrow> path_balanced (ks @ InRight c l q # fs) n"
  "top_color (ks @ InRight c l p # fs) = top_color (ks @ InRight c l q # fs)"
  "path_colors (ks @ InRight c l p # fs) \<longleftrightarrow> path_colors (ks @ InRight c l q # fs)"
  "root_black (ks @ InRight c l p # fs) \<longleftrightarrow> root_black (ks @ InRight c l q # fs)"
proof -
  show "path_balanced (ks @ InRight c l p # fs) n \<longleftrightarrow> path_balanced (ks @ InRight c l q # fs) n"
    by (induction ks arbitrary: n) auto
  show top: "top_color (ks @ InRight c l p # fs) = top_color (ks @ InRight c l q # fs)" for ks
    by (cases ks) auto
  show "path_colors (ks @ InRight c l p # fs) \<longleftrightarrow> path_colors (ks @ InRight c l q # fs)"
    by (induction ks) (auto simp: top)
  show "root_black (ks @ InRight c l p # fs) \<longleftrightarrow> root_black (ks @ InRight c l q # fs)"
    by (auto simp: root_black_def)
qed

text \<open>Filling the place of an unlinked node, and rebalancing when it was black.\<close>

lemma removes_unlinked:
  assumes f: "focus_rep h fs x" and col: "c = RB_BLACK \<longrightarrow> path_balanced fs (Suc (black_height x))"
      "c = RB_RED \<longrightarrow> path_balanced fs (black_height x) \<and> top_color fs = RB_BLACK \<and> fs \<noteq> []"
    and inv: "balanced x" "no_red_red x" "path_colors fs" "root_black fs"
  shows "removes (if c = RB_BLACK then RB_REMOVE_COLOR h (top_node fs) (root_of x) else Some h)
    (left_part fs @ inorder x @ right_part fs)"
proof (cases c)
  case RB_BLACK
  moreover have "inner_colors x" using inv(2) by (cases x) (auto simp: inner_colors_def)
  ultimately show ?thesis using RB_REMOVE_COLOR_removes [OF f inv(1)] inv col by simp
next
  case RB_RED
  then show ?thesis using removesI [OF f] inv col by (simp add: red_black_plug)
qed

lemma remove_one_child:
  assumes f: "focus_rep h fs (Bin c l p r)" and rb: "red_black (plug fs (Bin c l p r))"
    and x: "x = l \<and> r = Tip \<or> x = r \<and> l = Tip"
  shows "removes (if c = RB_BLACK then RB_REMOVE_COLOR (splice_out (top_node fs) p (root_of x) h) (top_node fs) (root_of x)
      else Some (splice_out (top_node fs) p (root_of x) h))
    (left_part fs @ inorder x @ right_part fs)"
  by (rule removes_unlinked [OF focus_splice [OF f x]]) (use rb x in \<open>auto simp: red_black_plug\<close>)

lemma remove_two_children:
  assumes f: "focus_rep h fs (Bin c l p (plug ks (Bin c2 Tip q rr)))"
    and rb: "red_black (plug fs (Bin c l p (plug ks (Bin c2 Tip q rr))))"
    and l: "l \<noteq> Tip" and ks: "all_left ks"
  defines "gs \<equiv> ks @ InRight c l p # fs"
  defines "h' \<equiv> replace_node p q (splice_out (top_node gs) q (root_of rr) h)"
  shows "removes (if c2 = RB_BLACK then RB_REMOVE_COLOR h' (if ks = [] then q else top_node gs) (root_of rr) else Some h')
    (left_part fs @ inorder l @ inorder (plug ks (Bin c2 Tip q rr)) @ right_part fs)"
proof -
  have g: "focus_rep h gs (Bin c2 Tip q rr)"
    using f by (simp add: gs_def focus_append focus_up)
  have "red_black (plug gs (Bin c2 Tip q rr))"
    using rb by (simp add: gs_def plug_append)
  then have inv: "balanced rr" "no_red_red rr" "path_colors gs" "root_black gs" "gs \<noteq> []"
      "c2 = RB_BLACK \<longrightarrow> path_balanced gs (Suc (black_height rr))"
      "c2 = RB_RED \<longrightarrow> path_balanced gs (black_height rr) \<and> top_color gs = RB_BLACK"
    by (auto simp: red_black_plug gs_def)
  have "focus_rep (splice_out (top_node gs) q (root_of rr) h) fs (Bin c l p (plug ks rr))"
    using focus_splice [OF g, of rr] by (simp add: gs_def focus_append focus_up)
  moreover have "q \<noteq> 0" "q \<notin> set (left_part fs @ inorder (Bin c l p (plug ks rr)) @ right_part fs)"
    using g by (auto simp: focus_rep_def gs_def parts_append inorder_plug)
  ultimately have "focus_rep h' fs (Bin c l q (plug ks rr))"
    unfolding h'_def using focus_replace l by blast
  then have F: "focus_rep h' (ks @ InRight c l q # fs) rr"
    by (simp add: focus_append focus_up)
  have top: "top_node (ks @ InRight c l q # fs) = (if ks = [] then q else top_node gs)"
    by (cases ks) (simp_all add: gs_def)
  have "removes (if c2 = RB_BLACK then RB_REMOVE_COLOR h' (top_node (ks @ InRight c l q # fs)) (root_of rr) else Some h')
      (left_part (ks @ InRight c l q # fs) @ inorder rr @ right_part (ks @ InRight c l q # fs))"
    using inv by (intro removes_unlinked [OF F]) (simp_all add: gs_def path_swap_node(1) [of ks c l q fs _ p]
        path_swap_node(2) [of ks c l q fs p] path_swap_node(3) [of ks c l q fs p] path_swap_node(4) [of ks c l q fs p])
  then show ?thesis
    unfolding top using ks by (simp add: parts_append inorder_plug all_left_part split del: if_split)
qed

lemma RB_REMOVE_removes:
  assumes t: "tree_rep h t" "red_black t" and p: "inorder t = xs @ p # ys"
  shows "removes (RB_REMOVE h p) (xs @ ys)"
proof -
  obtain fs c l r where tp: "t = plug fs (Bin c l p r)" using node_focus [of p t] p by auto
  have f: "focus_rep h fs (Bin c l p r)" using t(1) by (simp add: tp tree_rep_focus)
  note n = focus_node [OF f]
  have rep: "rep h p l" "rep h p r" using f by (auto simp: focus_rep_def)
  have "distinct (xs @ p # ys)" using t(1) p by (simp add: tree_rep_def)
  then have "p \<notin> set xs" "p \<notin> set ys" by auto
  moreover have "xs @ p # ys = (left_part fs @ inorder l) @ p # (inorder r @ right_part fs)"
    using p by (simp add: tp inorder_plug)
  ultimately have parts: "xs = left_part fs @ inorder l" "ys = inorder r @ right_part fs"
    using append_Cons_eq_iff [of p xs ys "left_part fs @ inorder l" "inorder r @ right_part fs"] by simp_all
  show ?thesis
  proof (cases "l = Tip \<or> r = Tip")
    case True
    define x where "x = (if l = Tip then r else l)"
    have x: "x = l \<and> r = Tip \<or> x = r \<and> l = Tip" using True by (auto simp: x_def)
    have "RB_REMOVE h p = (if c = RB_BLACK
        then RB_REMOVE_COLOR (splice_out (top_node fs) p (root_of x) h) (top_node fs) (root_of x)
        else Some (splice_out (top_node fs) p (root_of x) h))"
      using True n rep_root [OF rep(1)] rep_root [OF rep(2)] by (auto simp: RB_REMOVE_def x_def Let_def)
    with remove_one_child [OF f t(2) [unfolded tp] x] x show ?thesis by (auto simp: parts)
  next
    case False
    then obtain ks c2 q rr where m: "leftmost h (root_of r) = Some q" "r = plug ks (Bin c2 Tip q rr)" "all_left ks"
      using leftmost_focus [OF focus_right [OF f]] by auto
    define gs where "gs = ks @ InRight c l p # fs"
    have g: "focus_rep h gs (Bin c2 Tip q rr)"
      using f m(2) by (simp add: gs_def focus_append focus_up)
    note ng = focus_node [OF g]
    have nz: "RB_LEFT h p \<noteq> 0" "RB_RIGHT h p \<noteq> 0"
      using False n rep_root [OF rep(1)] rep_root [OF rep(2)] by auto
    have "top_node gs \<noteq> q \<and> root_of rr \<noteq> q \<and> top_node gs \<noteq> 0"
      using g top_node_path [of gs] rep_root [of h q rr] path_top_nonzero [of h q gs]
      by (cases "rr = Tip") (auto simp: focus_rep_def gs_def)
    then have "rb_entry (splice_out (top_node gs) q (root_of rr) h) q = rb_entry h q" by simp
    then have par: "RB_PARENT (splice_out (top_node gs) q (root_of rr) h) q = top_node gs"
      using ng(4) by (simp add: RB_PARENT_def)
    have "p \<notin> set (inorder r)" using f by (simp add: focus_rep_def)
    then have "ks \<noteq> [] \<Longrightarrow> top_node ks \<noteq> p" using top_node_path [of ks] by (auto simp: m(2) inorder_plug)
    then have ks: "top_node gs = p \<longleftrightarrow> ks = []" by (cases ks) (auto simp: gs_def)
    have "RB_REMOVE h p = (let h' = replace_node p q (splice_out (top_node gs) q (root_of rr) h)
        in if c2 = RB_BLACK then RB_REMOVE_COLOR h' (if ks = [] then q else top_node gs) (root_of rr) else Some h')"
      using nz n(3) m(1) ng par ks by (simp add: RB_REMOVE_def replace_node_def Let_def)
    then show ?thesis
      using remove_two_children [OF f [unfolded m(2)] t(2) [unfolded tp m(2)] _ m(3)] False
      by (simp only: parts m(2) gs_def Let_def append_assoc de_Morgan_disj simp_thms)
  qed
qed

section \<open>Searching and walking\<close>

lemma splits_cases:
  assumes "as @ x # bs = xs @ p # ys"
  obtains us where "as = xs @ p # us" "ys = us @ x # bs" | "x = p" "as = xs" "bs = ys"
    | us where "xs = as @ x # us" "bs = us @ p # ys"
  using assms by (auto simp: append_eq_append_conv2 append_eq_Cons_conv Cons_eq_append_conv)

lemma search_present:
  assumes "rep h q t" "splits cmp xs ys" "inorder t = xs @ p # ys" "cmp p = 0"
  shows "find_loop h cmp (root_of t) = Some p \<and> nfind_loop h cmp (root_of t) res = Some p \<and>
    find_existing_loop h cmp (root_of t) = Some p"
  using assms
proof (induction t arbitrary: q xs ys res)
  case (Bin k l x r)
  from Bin.prems(3) have "inorder l @ x # inorder r = xs @ p # ys" by simp
  then show ?case
  proof (cases rule: splits_cases)
    case (1 us)
    have "splits cmp xs us" "cmp x < 0" using Bin.prems(2) 1 by (auto simp: splits_def)
    with Bin.IH(1) [of x xs us x] Bin.prems 1 show ?thesis
      by (subst find_loop.simps, subst nfind_loop.simps, subst find_existing_loop.simps) simp
  next
    case 2
    with Bin.prems show ?thesis
      by (subst find_loop.simps, subst nfind_loop.simps, subst find_existing_loop.simps) simp
  next
    case (3 us)
    have "splits cmp us ys" "0 < cmp x" using Bin.prems(2) 3 by (auto simp: splits_def)
    with Bin.IH(2) [of x us ys res] Bin.prems 3 show ?thesis
      by (subst find_loop.simps, subst nfind_loop.simps, subst find_existing_loop.simps) simp
  qed
qed simp

lemma search_absent:
  assumes "rep h q t" "splits cmp xs ys" "inorder t = xs @ ys"
  shows "find_loop h cmp (root_of t) = Some 0 \<and>
    nfind_loop h cmp (root_of t) res = Some (case ys of [] \<Rightarrow> res | y # _ \<Rightarrow> y)"
  using assms
proof (induction t arbitrary: q xs ys res)
  case (Bin k l x r)
  have "cmp x < 0 \<or> 0 < cmp x"
    using Bin.prems(2,3) by (metis UnE in_set_conv_decomp inorder.simps(2) set_append splits_def)
  then show ?case
  proof
    assume lt: "cmp x < 0"
    then obtain ys' where y: "inorder l = xs @ ys'" "ys = ys' @ x # inorder r" "splits cmp xs ys'"
      using Bin.prems(2,3) splits_left [of cmp xs ys "inorder l" x "inorder r"] by auto
    from Bin.IH(1) [OF _ y(3,1), of x x] Bin.prems lt show ?thesis
      by (subst find_loop.simps, subst nfind_loop.simps) (simp add: y(2) split: list.split)
  next
    assume gt: "0 < cmp x"
    then obtain xs' where y: "xs = inorder l @ x # xs'" "inorder r = xs' @ ys" "splits cmp xs' ys"
      using Bin.prems(2,3) splits_right [of cmp xs ys "inorder l" x "inorder r"] by auto
    from Bin.IH(2) [OF _ y(3,2), of x res] Bin.prems gt show ?thesis
      by (subst find_loop.simps, subst nfind_loop.simps) simp
  qed
qed (simp add: find_loop.simps nfind_loop.simps)

lemma min_max_loop:
  assumes "rep h q t"
  shows "min_loop h (root_of t) x = Some (hd (inorder t @ [x]))" "max_loop h (root_of t) x = Some (last (x # inorder t))"
proof -
  show "min_loop h (root_of t) x = Some (hd (inorder t @ [x]))"
    using assms
  proof (induction t arbitrary: q x)
    case (Bin c l p r)
    then show ?case using Bin.IH(1) [of p p] by (subst min_loop.simps) (cases "inorder l"; simp)
  qed (simp add: min_loop.simps)
  show "max_loop h (root_of t) x = Some (last (x # inorder t))"
    using assms
  proof (induction t arbitrary: q x)
    case (Bin c l p r)
    then show ?case using Bin.IH(2) [of p p] by (subst max_loop.simps) simp
  qed (simp add: max_loop.simps)
qed

lemma leftmost_hd:
  assumes "rep h q t" "t \<noteq> Tip"
  shows "leftmost h (root_of t) = Some (hd (inorder t))" "rightmost h (root_of t) = Some (last (inorder t))"
proof -
  show "leftmost h (root_of t) = Some (hd (inorder t))"
    using assms
  proof (induction t arbitrary: q)
    case (Bin c l p r)
    then show ?case using rep_root [of h p l] by (subst leftmost.simps) (cases "l = Tip"; auto simp: hd_append)
  qed simp
  show "rightmost h (root_of t) = Some (last (inorder t))"
    using assms
  proof (induction t arbitrary: q)
    case (Bin c l p r)
    then show ?case using rep_root [of h p r] by (subst rightmost.simps) (cases "r = Tip"; auto)
  qed simp
qed

text \<open>Climbing from a subtree to the node behind (before) it.\<close>

lemma climb_focus:
  assumes "focus_rep h fs t" "t \<noteq> Tip"
  shows "do { e \<leftarrow> climb_right h (root_of t); Some (RB_PARENT h e) } = Some (hd (right_part fs @ [0]))"
    "do { e \<leftarrow> climb_left h (root_of t); Some (RB_PARENT h e) } = Some (last (0 # left_part fs))"
proof -
  have parent: "RB_PARENT h (root_of t) = top_node fs" if "focus_rep h fs t" "t \<noteq> Tip" for fs t
    using that focus_node by (cases t) auto
  show "do { e \<leftarrow> climb_right h (root_of t); Some (RB_PARENT h e) } = Some (hd (right_part fs @ [0]))"
    using assms
  proof (induction fs arbitrary: t)
    case Nil
    then show ?case using parent [of "[]" t] by (subst climb_right.simps) simp
  next
    case (Cons f fs)
    have F: "focus_rep h fs (up f t)" using Cons.prems by (simp add: focus_up)
    note p = parent [OF Cons.prems]
    show ?case
    proof (cases f)
      case (InLeft c p r)
      note n = focus_node [OF F [unfolded InLeft up.simps]]
      have "root_of t \<noteq> root_of r"
        using focus_children_neq [of h fs c t p r] F Cons.prems by (auto simp: InLeft)
      then show ?thesis using n p InLeft by (subst climb_right.simps) simp
    next
      case (InRight c l p)
      note n = focus_node [OF F [unfolded InRight up.simps]]
      show ?thesis using Cons.IH [OF F] n p InRight by (subst climb_right.simps) simp
    qed
  qed
  show "do { e \<leftarrow> climb_left h (root_of t); Some (RB_PARENT h e) } = Some (last (0 # left_part fs))"
    using assms
  proof (induction fs arbitrary: t)
    case Nil
    then show ?case using parent [of "[]" t] by (subst climb_left.simps) simp
  next
    case (Cons f fs)
    have F: "focus_rep h fs (up f t)" using Cons.prems by (simp add: focus_up)
    note p = parent [OF Cons.prems]
    show ?case
    proof (cases f)
      case (InRight c l p)
      note n = focus_node [OF F [unfolded InRight up.simps]]
      have "root_of t \<noteq> root_of l"
        using focus_children_neq [of h fs c l p t] F Cons.prems by (auto simp: InRight)
      then show ?thesis using n p InRight by (subst climb_left.simps) simp
    next
      case (InLeft c p r)
      note n = focus_node [OF F [unfolded InLeft up.simps]]
      show ?thesis using Cons.IH [OF F] n p InLeft by (subst climb_left.simps) simp
    qed
  qed
qed

lemma hole_side:
  assumes "focus_rep h fs t" "t \<noteq> Tip"
  shows "top_node fs \<noteq> 0 \<and> root_of t = RB_LEFT h (top_node fs) \<longrightarrow> top_node fs = hd (right_part fs @ [0])"
    "top_node fs \<noteq> 0 \<and> root_of t = RB_RIGHT h (top_node fs) \<longrightarrow> top_node fs = last (0 # left_part fs)"
proof -
  have "(top_node fs \<noteq> 0 \<and> root_of t = RB_LEFT h (top_node fs) \<longrightarrow> top_node fs = hd (right_part fs @ [0])) \<and>
    (top_node fs \<noteq> 0 \<and> root_of t = RB_RIGHT h (top_node fs) \<longrightarrow> top_node fs = last (0 # left_part fs))"
  proof (cases fs)
    case (Cons f gs)
    show ?thesis
    proof (cases f)
      case (InLeft c p r)
      then have F: "focus_rep h gs (Bin c t p r)" using assms(1) Cons by (simp add: focus_up)
      with focus_node [OF F] focus_children_neq [OF F] assms(2) show ?thesis by (auto simp: Cons InLeft)
    next
      case (InRight c l p)
      then have F: "focus_rep h gs (Bin c l p t)" using assms(1) Cons by (simp add: focus_up)
      with focus_node [OF F] focus_children_neq [OF F] assms(2) show ?thesis by (auto simp: Cons InRight)
    qed
  qed simp
  then show "top_node fs \<noteq> 0 \<and> root_of t = RB_LEFT h (top_node fs) \<longrightarrow> top_node fs = hd (right_part fs @ [0])"
    "top_node fs \<noteq> 0 \<and> root_of t = RB_RIGHT h (top_node fs) \<longrightarrow> top_node fs = last (0 # left_part fs)"
    by blast+
qed

lemma next_prev:
  assumes t: "tree_rep h t" and p: "inorder t = xs @ p # ys"
  shows "RB_NEXT h p = Some (hd (ys @ [0]))" "RB_PREV h p = Some (last (0 # xs))"
proof -
  obtain fs c l r where tp: "t = plug fs (Bin c l p r)" using node_focus [of p t] p by auto
  have f: "focus_rep h fs (Bin c l p r)" using t by (simp add: tp tree_rep_focus)
  note n = focus_node [OF f]
  have rep: "rep h p l" "rep h p r" using f by (auto simp: focus_rep_def)
  have "distinct (xs @ p # ys)" using t p by (simp add: tree_rep_def)
  then have "p \<notin> set xs" "p \<notin> set ys" by auto
  moreover have "xs @ p # ys = (left_part fs @ inorder l) @ p # (inorder r @ right_part fs)"
    using p by (simp add: tp inorder_plug)
  ultimately have parts: "xs = left_part fs @ inorder l" "ys = inorder r @ right_part fs"
    using append_Cons_eq_iff [of p xs ys "left_part fs @ inorder l" "inorder r @ right_part fs"] by simp_all
  note root = rep_root [OF rep(1)] rep_root [OF rep(2)]
  note climb = climb_focus [OF f, simplified] and side = hole_side [OF f, simplified]
  have ne: "l \<noteq> Tip \<Longrightarrow> inorder l \<noteq> []" "r \<noteq> Tip \<Longrightarrow> inorder r \<noteq> []" by (cases l; simp) (cases r; simp)
  show "RB_NEXT h p = Some (hd (ys @ [0]))"
    using n root climb(1) side(1) leftmost_hd(1) [OF rep(2)] ne(2)
    by (cases "r = Tip") (auto simp: RB_NEXT_def parts)
  show "RB_PREV h p = Some (last (0 # xs))"
    using n root climb(2) side(2) leftmost_hd(2) [OF rep(1)] ne(1)
    by (cases "l = Tip") (auto simp: RB_PREV_def parts)
qed

end
