(* ===== verification/Rb_Map.thy ===== *)
theory Rb_Map
  imports Rb_Tree
begin

text \<open>
  The ordered container over the intrusive tree
  (\<^verbatim>\<open>vapours/util/util_intrusive_red_black_tree.hpp\<close>): insertion, erasure, lookup by key and
  iteration, for nodes embedded in objects that a comparator orders by a key. The properties
  of the pointer operations are stated here over the sequence of nodes in key order.
\<close>

section \<open>The container\<close>

text \<open>
  The comparators order by a key with the three-way result of \<^verbatim>\<open>FrozenAddressMapEntry::Compare\<close>;
  \<open>obj\<close> gives the object a node is embedded in.
\<close>

definition Compare :: "'k::linorder \<Rightarrow> 'k \<Rightarrow> int" where
  "Compare lval rval = (if lval < rval then - 1 else if lval = rval then 0 else 1)"

definition CompareKeyImpl :: "('e \<Rightarrow> 'k::linorder) \<Rightarrow> (nat \<Rightarrow> 'e) \<Rightarrow> 'k \<Rightarrow> nat \<Rightarrow> int" where
  "CompareKeyImpl key obj k rhs = Compare k (key (obj rhs))"

definition CompareImpl :: "('e \<Rightarrow> 'k::linorder) \<Rightarrow> (nat \<Rightarrow> 'e) \<Rightarrow> nat \<Rightarrow> nat \<Rightarrow> int" where
  "CompareImpl key obj lhs rhs = Compare (key (obj lhs)) (key (obj rhs))"

definition tree_begin :: "RBTree \<Rightarrow> nat option" where
  "tree_begin h = RB_MIN h"

definition tree_insert :: "('e \<Rightarrow> 'k::linorder) \<Rightarrow> (nat \<Rightarrow> 'e) \<Rightarrow> RBTree \<Rightarrow> nat \<Rightarrow> (nat \<times> RBTree) option" where
  "tree_insert key obj h node =
     do { (_, h) \<leftarrow> RB_INSERT h node (CompareImpl key obj node); Some (node, h) }"

definition tree_erase :: "RBTree \<Rightarrow> nat \<Rightarrow> (nat \<times> RBTree) option" where
  "tree_erase h cur = do { nxt \<leftarrow> RB_NEXT h cur; h \<leftarrow> RB_REMOVE h cur; Some (nxt, h) }"

definition tree_find_key :: "('e \<Rightarrow> 'k::linorder) \<Rightarrow> (nat \<Rightarrow> 'e) \<Rightarrow> RBTree \<Rightarrow> 'k \<Rightarrow> nat option" where
  "tree_find_key key obj h k = RB_FIND_KEY h k (CompareKeyImpl key obj)"

definition tree_nfind_key :: "('e \<Rightarrow> 'k::linorder) \<Rightarrow> (nat \<Rightarrow> 'e) \<Rightarrow> RBTree \<Rightarrow> 'k \<Rightarrow> nat option" where
  "tree_nfind_key key obj h k = RB_NFIND_KEY h k (CompareKeyImpl key obj)"

definition tree_find_existing_key :: "('e \<Rightarrow> 'k::linorder) \<Rightarrow> (nat \<Rightarrow> 'e) \<Rightarrow> RBTree \<Rightarrow> 'k \<Rightarrow> nat option" where
  "tree_find_existing_key key obj h k = RB_FIND_EXISTING_KEY h k (CompareKeyImpl key obj)"

text \<open>The loop \<^verbatim>\<open>for (it = begin(); it != end(); ++it)\<close>, as the list of nodes it visits.\<close>

partial_function (option) iterate_from :: "RBTree \<Rightarrow> nat \<Rightarrow> nat list option" where
  "iterate_from h it =
     (if it = 0 then Some []
      else do { nxt \<leftarrow> RB_NEXT h it; rest \<leftarrow> iterate_from h nxt; Some (it # rest) })"

definition iterate :: "RBTree \<Rightarrow> nat list option" where
  "iterate h = do { it \<leftarrow> tree_begin h; iterate_from h it }"

section \<open>The sequence a tree holds\<close>

definition key_sorted :: "('e \<Rightarrow> 'k::linorder) \<Rightarrow> (nat \<Rightarrow> 'e) \<Rightarrow> nat list \<Rightarrow> bool" where
  "key_sorted key obj ps \<longleftrightarrow> sorted_wrt (\<lambda>a b. key (obj a) < key (obj b)) ps"

text \<open>The tree is a red-black tree whose nodes, in order, are \<open>ps\<close>, with increasing keys.\<close>

definition holds :: "('e \<Rightarrow> 'k::linorder) \<Rightarrow> (nat \<Rightarrow> 'e) \<Rightarrow> RBTree \<Rightarrow> nat list \<Rightarrow> bool" where
  "holds key obj h ps \<longleftrightarrow> (\<exists>t. tree_rep h t \<and> red_black t \<and> inorder t = ps) \<and> key_sorted key obj ps"

definition below :: "('e \<Rightarrow> 'k::linorder) \<Rightarrow> (nat \<Rightarrow> 'e) \<Rightarrow> 'k \<Rightarrow> nat list \<Rightarrow> nat list" where
  "below key obj k ps = filter (\<lambda>p. key (obj p) < k) ps"

definition above :: "('e \<Rightarrow> 'k::linorder) \<Rightarrow> (nat \<Rightarrow> 'e) \<Rightarrow> 'k \<Rightarrow> nat list \<Rightarrow> nat list" where
  "above key obj k ps = filter (\<lambda>p. k < key (obj p)) ps"

definition at_key :: "('e \<Rightarrow> 'k::linorder) \<Rightarrow> (nat \<Rightarrow> 'e) \<Rightarrow> 'k \<Rightarrow> nat list \<Rightarrow> nat list" where
  "at_key key obj k ps = filter (\<lambda>p. key (obj p) = k) ps"

lemma Compare_sign [simp]: "Compare a b < 0 \<longleftrightarrow> a < b" "0 < Compare a b \<longleftrightarrow> b < a" "Compare a b = 0 \<longleftrightarrow> a = b"
  by (auto simp: Compare_def)

lemma key_sorted_split:
  assumes "key_sorted key obj ps"
  shows "ps = below key obj k ps @ at_key key obj k ps @ above key obj k ps"
  using assms
proof (induction ps)
  case (Cons p ps)
  have s: "key (obj p) < key (obj q)" if "q \<in> set ps" for q
    using Cons.prems that by (auto simp: key_sorted_def)
  have IH: "ps = below key obj k ps @ at_key key obj k ps @ above key obj k ps"
    using Cons by (auto simp: key_sorted_def)
  show ?case
  proof (cases "key (obj p) < k")
    case True
    then show ?thesis using IH by (auto simp: below_def at_key_def above_def)
  next
    case False
    then have "k < key (obj q)" if "q \<in> set ps" for q using s [OF that] by simp
    then have "below key obj k ps = []" "at_key key obj k ps = []" "above key obj k ps = ps"
      by (auto simp: below_def at_key_def above_def filter_empty_conv filter_id_conv dest: less_asym)
    then show ?thesis using False by (auto simp: below_def at_key_def above_def)
  qed
qed (simp add: below_def at_key_def above_def)

lemma key_sorted_at:
  assumes "key_sorted key obj ps" "p \<in> set ps"
  shows "at_key key obj (key (obj p)) ps = [p]"
  using assms
proof (induction ps)
  case (Cons q ps)
  show ?case
  proof (cases "p = q")
    case True
    then have "at_key key obj (key (obj p)) ps = []"
      using Cons.prems by (auto simp: at_key_def key_sorted_def filter_empty_conv)
    then show ?thesis using True by (simp add: at_key_def)
  next
    case False
    then have "key (obj q) < key (obj p)" "key_sorted key obj ps" "p \<in> set ps"
      using Cons.prems by (auto simp: key_sorted_def)
    then show ?thesis using Cons.IH by (simp add: at_key_def)
  qed
qed simp

lemma splits_key:
  "splits (CompareKeyImpl key obj k) (below key obj k ps) (above key obj k ps)"
  by (auto simp: splits_def CompareKeyImpl_def below_def above_def)

lemma CompareImpl_eq: "CompareImpl key obj n = CompareKeyImpl key obj (key (obj n))"
  by (simp add: fun_eq_iff CompareImpl_def CompareKeyImpl_def)

lemma holdsE:
  assumes "holds key obj h ps"
  obtains t where "tree_rep h t" "red_black t" "inorder t = ps" "rep h 0 t" "m_rbh_root h = root_of t" "distinct ps"
  using assms by (auto simp: holds_def tree_rep_def)

lemma holds_nonzero:
  assumes "holds key obj h ps" "p \<in> set ps"
  shows "p \<noteq> 0"
  using assms by (elim holdsE) (metis rep_nonzero)

lemma holds_cong:
  assumes "\<And>p. p \<in> set ps \<Longrightarrow> obj' p = obj p"
  shows "holds key obj' h ps \<longleftrightarrow> holds key obj h ps"
proof -
  have "key_sorted key o2 ps \<longleftrightarrow> sorted_wrt (<) (map (\<lambda>p. key (o2 p)) ps)" for o2
    by (simp add: key_sorted_def sorted_wrt_map)
  moreover have "map (\<lambda>p. key (obj' p)) ps = map (\<lambda>p. key (obj p)) ps"
    using assms by simp
  ultimately have "key_sorted key obj' ps \<longleftrightarrow> key_sorted key obj ps" by metis
  then show ?thesis by (simp add: holds_def)
qed

section \<open>Properties of the tree\<close>

lemma insert_holds:
  assumes h: "holds key obj h ps" and elm: "elm \<noteq> 0" "elm \<notin> set ps"
  shows "case at_key key obj (key (obj elm)) ps of
      [] \<Rightarrow> \<exists>h'. RB_INSERT h elm (CompareImpl key obj elm) = Some (0, h') \<and>
        holds key obj h' (below key obj (key (obj elm)) ps @ elm # above key obj (key (obj elm)) ps)
    | p # _ \<Rightarrow> RB_INSERT h elm (CompareImpl key obj elm) = Some (p, h)"
proof -
  let ?k = "key (obj elm)"
  from h obtain t where t: "tree_rep h t" "red_black t" "inorder t = ps" by (rule holdsE)
  have s: "key_sorted key obj ps" using h by (simp add: holds_def)
  note split = key_sorted_split [OF s, of ?k]
  show ?thesis
  proof (cases "at_key key obj ?k ps")
    case Nil
    with split t(3) have "inorder t = below key obj ?k ps @ above key obj ?k ps" by simp
    from RB_INSERT_new [OF t(1,2) splits_key this elm(1)] elm(2) t(3) obtain h' t' where
      "RB_INSERT h elm (CompareKeyImpl key obj ?k) = Some (0, h')" "tree_rep h' t'" "red_black t'"
      "inorder t' = below key obj ?k ps @ elm # above key obj ?k ps" by auto
    moreover have "key_sorted key obj (below key obj ?k ps @ elm # above key obj ?k ps)"
      using s by (auto simp: key_sorted_def below_def above_def sorted_wrt_append sorted_wrt_filter)
    ultimately show ?thesis using Nil by (auto simp: holds_def CompareImpl_eq)
  next
    case (Cons p rest)
    then have p: "p \<in> set ps" "key (obj p) = ?k" by (auto simp: at_key_def filter_eq_Cons_iff)
    with key_sorted_at [OF s p(1)] Cons split t(3)
    have "inorder t = below key obj ?k ps @ p # above key obj ?k ps" by simp
    from RB_INSERT_present [OF t(1) splits_key this] p(2) Cons show ?thesis
      by (simp add: CompareImpl_eq CompareKeyImpl_def)
  qed
qed

text \<open>
  C27. Insertion keeps a red-black tree. On a tree that holds the nodes \<open>ps\<close> in key order,
  inserting a node with a new key never faults, always returns, reports success, and leaves a
  red-black tree with the node in its place; with a key that is present it returns the node
  that has it and changes nothing.
\<close>

theorem RB_INSERT_correct:
  assumes h: "holds key obj h ps" and elm: "elm \<noteq> 0" "elm \<notin> set ps"
  shows "case at_key key obj (key (obj elm)) ps of
      [] \<Rightarrow> \<exists>h'. RB_INSERT h elm (CompareImpl key obj elm) = Some (0, h') \<and>
        holds key obj h' (below key obj (key (obj elm)) ps @ elm # above key obj (key (obj elm)) ps)
    | p # _ \<Rightarrow> RB_INSERT h elm (CompareImpl key obj elm) = Some (p, h)"
  using assms by (rule insert_holds)

lemma remove_holds:
  assumes h: "holds key obj h (xs @ p # ys)"
  shows "\<exists>h'. RB_REMOVE h p = Some h' \<and> holds key obj h' (xs @ ys) \<and>
    tree_erase h p = Some (case ys of [] \<Rightarrow> 0 | y # _ \<Rightarrow> y, h')"
proof -
  from h obtain t where t: "tree_rep h t" "red_black t" "inorder t = xs @ p # ys" by (rule holdsE)
  from RB_REMOVE_removes [OF t] obtain h' t' where
    h': "RB_REMOVE h p = Some h'" "tree_rep h' t'" "red_black t'" "inorder t' = xs @ ys"
    by (auto simp: removes_def)
  moreover have "key_sorted key obj (xs @ ys)"
    using h by (auto simp: holds_def key_sorted_def sorted_wrt_append)
  ultimately show ?thesis
    using next_prev(1) [OF t(1,3)] by (cases ys) (auto simp: holds_def tree_erase_def)
qed

text \<open>
  C28. Removal keeps a red-black tree. Removing a node of the tree never faults, always
  returns, and leaves a red-black tree with the other nodes in their order; erasing through
  an iterator also returns the node behind it, or the end.
\<close>

theorem RB_REMOVE_correct:
  assumes h: "holds key obj h (xs @ p # ys)"
  shows "\<exists>h'. RB_REMOVE h p = Some h' \<and> holds key obj h' (xs @ ys) \<and>
    tree_erase h p = Some (case ys of [] \<Rightarrow> 0 | y # _ \<Rightarrow> y, h')"
  using assms by (rule remove_holds)

lemma iterate_from_holds:
  assumes "tree_rep h t" "inorder t = xs @ ys"
  shows "iterate_from h (hd (ys @ [0])) = Some ys"
  using assms(2)
proof (induction ys arbitrary: xs)
  case Nil
  then show ?case by (simp add: iterate_from.simps)
next
  case (Cons y ys)
  have "y \<noteq> 0" using rep_nonzero assms(1) Cons.prems by (metis in_set_conv_decomp tree_rep_def)
  moreover have "iterate_from h (hd (ys @ [0])) = Some ys" using Cons.IH [of "xs @ [y]"] Cons.prems by simp
  ultimately show ?case
    using next_prev(1) [OF assms(1) Cons.prems] by (subst iterate_from.simps) simp
qed

lemma search_holds:
  assumes h: "holds key obj h ps"
  shows "tree_find_key key obj h k = Some (hd (at_key key obj k ps @ [0])) \<and>
    tree_nfind_key key obj h k = Some (hd (filter (\<lambda>p. k \<le> key (obj p)) ps @ [0])) \<and>
    (at_key key obj k ps \<noteq> [] \<longrightarrow>
      tree_find_existing_key key obj h k = Some (hd (at_key key obj k ps))) \<and>
    iterate h = Some ps \<and> tree_begin h = Some (hd (ps @ [0])) \<and> RB_MAX h = Some (last (0 # ps))"
proof -
  from h obtain t where t: "tree_rep h t" "inorder t = ps" "rep h 0 t" "m_rbh_root h = root_of t"
    by (rule holdsE)
  have s: "key_sorted key obj ps" using h by (simp add: holds_def)
  note split = key_sorted_split [OF s, of k]
  have ge: "filter (\<lambda>p. k \<le> key (obj p)) ps = at_key key obj k ps @ above key obj k ps"
  proof -
    have "filter (\<lambda>p. k \<le> key (obj p)) (below key obj k ps) = []"
      "filter (\<lambda>p. k \<le> key (obj p)) (at_key key obj k ps) = at_key key obj k ps"
      "filter (\<lambda>p. k \<le> key (obj p)) (above key obj k ps) = above key obj k ps"
      by (auto simp: below_def at_key_def above_def filter_empty_conv filter_id_conv simp del: filter_filter)
    then show ?thesis by (subst split) (simp only: filter_append append_Nil)
  qed
  have walk: "tree_begin h = Some (hd (ps @ [0]))" "RB_MAX h = Some (last (0 # ps))" "iterate h = Some ps"
    using min_max_loop [OF t(3), of 0] t(2,4) iterate_from_holds [OF t(1), of "[]" ps]
    by (simp_all add: tree_begin_def RB_MIN_def RB_MAX_def iterate_def)
  show ?thesis
  proof (cases "at_key key obj k ps")
    case Nil
    with split t(2) have "inorder t = below key obj k ps @ above key obj k ps" by simp
    from search_absent [OF t(3) splits_key this, of 0] Nil ge walk t(4) show ?thesis
      by (simp add: tree_find_key_def tree_nfind_key_def RB_FIND_KEY_def RB_NFIND_KEY_def hd_append split: list.splits)
  next
    case (Cons p rest)
    then have p: "p \<in> set ps" "key (obj p) = k" by (auto simp: at_key_def filter_eq_Cons_iff)
    with key_sorted_at [OF s p(1)] Cons split t(2)
    have "inorder t = below key obj k ps @ p # above key obj k ps" by simp
    from search_present [OF t(3) splits_key this, of 0] p(2) Cons ge walk t(4) show ?thesis
      by (simp add: tree_find_key_def tree_nfind_key_def tree_find_existing_key_def RB_FIND_KEY_def
          RB_NFIND_KEY_def RB_FIND_EXISTING_KEY_def CompareKeyImpl_def)
  qed
qed

text \<open>
  C29. Lookup and iteration agree with the sequence. A lookup by key finds the node with that
  key or the end, the lower-bound search finds the first node whose key is not less, and the
  iteration from the first node visits every node once, in key order, and ends.
\<close>

theorem tree_search_and_walk:
  assumes h: "holds key obj h ps"
  shows "tree_find_key key obj h k = Some (hd (at_key key obj k ps @ [0])) \<and>
    tree_nfind_key key obj h k = Some (hd (filter (\<lambda>p. k \<le> key (obj p)) ps @ [0])) \<and>
    (at_key key obj k ps \<noteq> [] \<longrightarrow>
      tree_find_existing_key key obj h k = Some (hd (at_key key obj k ps))) \<and>
    iterate h = Some ps \<and> tree_begin h = Some (hd (ps @ [0])) \<and> RB_MAX h = Some (last (0 # ps))"
  using assms by (rule search_holds)

section \<open>Height\<close>

text \<open>The length of the longest path of pointers down from the root.\<close>

fun depth :: "ptree \<Rightarrow> nat" where
  "depth Tip = 0"
| "depth (Bin c l p r) = Suc (max (depth l) (depth r))"

lemma depth_le_black_height:
  "balanced t \<Longrightarrow> no_red_red t \<Longrightarrow>
     depth t \<le> 2 * black_height t + (if color_of t = RB_RED then 1 else 0)"
  by (induction t) (auto split: if_splits)

lemma black_height_size: "balanced t \<Longrightarrow> 2 ^ black_height t \<le> Suc (length (inorder t))"
proof (induction t)
  case (Bin c l p r)
  then have "2 ^ black_height l \<le> Suc (length (inorder l))" "2 ^ black_height l \<le> Suc (length (inorder r))"
    by auto
  then show ?case by (cases c) auto
qed simp

text \<open>A chain of child pointers down from a node.\<close>

fun descends :: "RBTree \<Rightarrow> nat \<Rightarrow> nat list \<Rightarrow> bool" where
  "descends h p [] \<longleftrightarrow> True"
| "descends h p (q # qs) \<longleftrightarrow> q = p \<and> p \<noteq> 0 \<and> (descends h (RB_LEFT h p) qs \<or> descends h (RB_RIGHT h p) qs)"

lemma descends_depth: "rep h q t \<Longrightarrow> descends h (root_of t) qs \<Longrightarrow> length qs \<le> depth t"
proof (induction t arbitrary: q qs)
  case Tip
  then show ?case by (cases qs) auto
next
  case (Bin c l p r)
  then show ?case
    by (cases qs) (auto simp: le_max_iff_disj)
qed


section \<open>A concrete tree\<close>

text \<open>Two nodes keyed by their own addresses: a black root with a red right child.\<close>

definition demo_tree :: RBTree where
  "demo_tree =
     \<lparr>rb_entry = (\<lambda>p. if p = 1 then \<lparr>m_rbe_left = 0, m_rbe_right = 2, m_rbe_parent = 0, m_rbe_color = RB_BLACK\<rparr>
                      else \<lparr>m_rbe_left = 0, m_rbe_right = 0, m_rbe_parent = 1, m_rbe_color = RB_RED\<rparr>),
      m_rbh_root = 1\<rparr>"

definition own_key :: "nat \<Rightarrow> nat" where
  "own_key p = p"

lemma demo_tree_holds: "holds own_key own_key demo_tree [1, 2]"
proof -
  have "tree_rep demo_tree (Bin RB_BLACK Tip 1 (Bin RB_RED Tip 2 Tip))"
    by (simp add: tree_rep_def demo_tree_def RB_LEFT_def RB_RIGHT_def RB_PARENT_def RB_COLOR_def)
  moreover have "red_black (Bin RB_BLACK Tip 1 (Bin RB_RED Tip 2 Tip))"
    by (simp add: red_black_def)
  ultimately show ?thesis
    by (force simp: holds_def key_sorted_def own_key_def)
qed

lemma RB_INSERT_correct_witness:
  "\<exists>h'. RB_INSERT demo_tree 3 (CompareImpl own_key own_key 3) = Some (0, h') \<and> holds own_key own_key h' [1, 2, 3]"
  using RB_INSERT_correct [OF demo_tree_holds, of 3]
  by (simp add: at_key_def below_def above_def own_key_def)

lemma RB_REMOVE_correct_witness:
  "\<exists>h'. RB_REMOVE demo_tree 1 = Some h' \<and> holds own_key own_key h' [2] \<and> tree_erase demo_tree 1 = Some (2, h')"
  using RB_REMOVE_correct [of own_key own_key demo_tree "[]" 1 "[2]"] demo_tree_holds by simp

lemma tree_search_and_walk_witness:
  "tree_find_key own_key own_key demo_tree 2 = Some 2 \<and> tree_find_key own_key own_key demo_tree 7 = Some 0 \<and>
   iterate demo_tree = Some [1, 2]"
  using tree_search_and_walk [OF demo_tree_holds, of 2] tree_search_and_walk [OF demo_tree_holds, of 7]
  by (simp add: at_key_def own_key_def)


end
