(* ===== verification/Cheat_Frozen_Tree.thy ===== *)
theory Cheat_Frozen_Tree
  imports Cheat_Frozen Rb_Map
begin

text \<open>
  The frozen addresses as the source keeps them: an intrusive red-black tree of
  \<^verbatim>\<open>FrozenAddressMapEntry\<close> nodes ordered by address. The list in address order that the manager
  model uses is the abstraction of this tree; every map operation of the manager on the tree
  has the effect of the list operation.
\<close>

text \<open>The tree at \<open>h\<close>, with the objects \<open>obj\<close> around its nodes, is the map \<open>es\<close>.\<close>

definition frozen_tree :: "(nat \<Rightarrow> FrozenAddressMapEntry) \<Rightarrow> RBTree \<Rightarrow> FrozenAddressMapEntry list \<Rightarrow> bool" where
  "frozen_tree obj h es \<longleftrightarrow>
     holds m_address obj h (map fe_node es) \<and> (\<forall>e \<in> set es. obj (fe_node e) = e)"

lemma frozen_tree_sorted: "frozen_tree obj h es \<Longrightarrow> frozen_sorted es"
  by (auto simp: frozen_tree_def holds_def key_sorted_def frozen_sorted_def sorted_wrt_map
      elim!: sorted_wrt_mono_rel [rotated])

lemma frozen_tree_at:
  assumes "frozen_tree obj h es"
  shows "at_key m_address obj a (map fe_node es) = map fe_node (case find_key a es of None \<Rightarrow> [] | Some e \<Rightarrow> [e])"
proof -
  have "at_key m_address obj a (map fe_node es) = map fe_node (filter (\<lambda>e. m_address e = a) es)"
    using assms by (auto simp: at_key_def filter_map comp_def frozen_tree_def
        intro!: arg_cong [where f = "map fe_node"] filter_cong)
  moreover have "filter (\<lambda>e. m_address e = a) es = (case find_key a es of None \<Rightarrow> [] | Some e \<Rightarrow> [e])"
    using frozen_tree_sorted [OF assms]
  proof (induction es)
    case (Cons x xs)
    have "filter (\<lambda>e. m_address e = a) xs = []" if "m_address x = a"
      using Cons.prems that by (auto simp: frozen_sorted_def filter_empty_conv)
    then show ?case using Cons by (auto simp: frozen_sorted_def)
  qed simp
  ultimately show ?thesis by simp
qed

lemma insert_entry_split:
  assumes "frozen_sorted es" "find_key (m_address e) es = None"
  shows "insert_entry e es = filter (\<lambda>x. m_address x < m_address e) es @ e # filter (\<lambda>x. m_address e < m_address x) es"
  using assms
proof (induction es)
  case (Cons x xs)
  show ?case
  proof (cases "m_address e < m_address x")
    case True
    then have "\<forall>y \<in> set xs. m_address e < m_address y"
      using Cons.prems by (auto simp: frozen_sorted_def)
    then have "filter (\<lambda>y. m_address y < m_address e) xs = []" "filter (\<lambda>y. m_address e < m_address y) xs = xs"
      by (auto simp: filter_empty_conv filter_id_conv dest: less_asym)
    then show ?thesis using True by auto
  next
    case False
    then show ?thesis using Cons by (auto simp: frozen_sorted_def split: if_splits)
  qed
qed simp

lemma erase_key_split:
  assumes "frozen_sorted es" "find_key a es = Some e"
  obtains xs ys where "es = xs @ e # ys" "erase_key a es = xs @ ys"
  using assms
proof (induction es arbitrary: thesis)
  case (Cons x xs)
  show ?case
  proof (cases "m_address x = a")
    case True
    then show ?thesis using Cons.prems(1) [of "[]" xs] Cons.prems by simp
  next
    case False
    then obtain us vs where "xs = us @ e # vs" "erase_key a xs = us @ vs"
      using Cons by (auto simp: frozen_sorted_def)
    then show ?thesis using Cons.prems(1) [of "x # us" vs] False by simp
  qed
qed simp

lemma frozen_tree_new_object:
  assumes "frozen_tree obj h es" "fe_node new \<notin> fe_node ` set es"
  shows "frozen_tree (obj(fe_node new := new)) h es"
proof -
  have other: "fe_node e \<noteq> fe_node new" if "e \<in> set es" for e using assms(2) that by (metis imageI)
  then have "holds m_address (obj(fe_node new := new)) h (map fe_node es) \<longleftrightarrow> holds m_address obj h (map fe_node es)"
    by (intro holds_cong) auto
  with assms(1) other show ?thesis by (simp add: frozen_tree_def)
qed

lemma frozen_tree_sides:
  assumes "frozen_tree obj h es"
  shows "below m_address obj a (map fe_node es) = map fe_node (filter (\<lambda>x. m_address x < a) es)"
    "above m_address obj a (map fe_node es) = map fe_node (filter (\<lambda>x. a < m_address x) es)"
  using assms by (auto simp: below_def above_def filter_map comp_def frozen_tree_def
      intro!: arg_cong [where f = "map fe_node"] filter_cong)

lemma frozen_tree_insert:
  assumes T: "frozen_tree obj h es" and key: "find_key (m_address new) es = None"
    and node: "fe_node new \<noteq> 0" "fe_node new \<notin> fe_node ` set es" "obj (fe_node new) = new"
  shows "\<exists>h'. tree_insert m_address obj h (fe_node new) = Some (fe_node new, h') \<and>
    frozen_tree obj h' (insert_entry new es)"
proof -
  have H: "holds m_address obj h (map fe_node es)" and objs: "\<forall>e \<in> set es. obj (fe_node e) = e"
    using T by (simp_all add: frozen_tree_def)
  have eq: "insert_entry new es = filter (\<lambda>x. m_address x < m_address new) es @ new # filter (\<lambda>x. m_address new < m_address x) es"
    using insert_entry_split [OF frozen_tree_sorted [OF T] key] .
  from insert_holds [OF H node(1)] node(2,3) frozen_tree_at [OF T, of "m_address new"] key obtain h' where
    h': "RB_INSERT h (fe_node new) (CompareImpl m_address obj (fe_node new)) = Some (0, h')"
      "holds m_address obj h' (below m_address obj (m_address new) (map fe_node es) @ fe_node new #
         above m_address obj (m_address new) (map fe_node es))" by auto
  from h'(2) have "frozen_tree obj h' (insert_entry new es)"
    using objs node(3) by (auto simp: frozen_tree_def eq frozen_tree_sides [OF T])
  with h'(1) show ?thesis by (simp add: tree_insert_def)
qed

lemma frozen_tree_erase:
  assumes T: "frozen_tree obj h es" and e: "find_key a es = Some e"
  shows "\<exists>nxt h'. tree_erase h (fe_node e) = Some (nxt, h') \<and> frozen_tree obj h' (erase_key a es)"
proof -
  from frozen_tree_sorted [OF T] e obtain xs ys where s: "es = xs @ e # ys" "erase_key a es = xs @ ys"
    by (rule erase_key_split)
  have "holds m_address obj h (map fe_node xs @ fe_node e # map fe_node ys)"
    using T s(1) by (simp add: frozen_tree_def)
  from remove_holds [OF this] T s show ?thesis by (auto simp: frozen_tree_def)
qed

text \<open>
  C31. The tree of frozen addresses implements the map. While the tree represents the map
  \<open>es\<close>: lookup by address finds the node of the entry or the end; inserting an entry at a
  fresh node returns and the tree then represents the map with the entry; erasing the node
  found for an address returns and the tree then represents the map without it; and the loop
  over the tree visits the nodes of \<open>es\<close> in order.
\<close>

theorem frozen_tree_refines:
  assumes T: "frozen_tree obj h es"
  shows "tree_find_key m_address obj h a = Some (case find_key a es of None \<Rightarrow> 0 | Some e \<Rightarrow> fe_node e) \<and>
    (find_key (m_address new) es = None \<and> fe_node new \<noteq> 0 \<and> fe_node new \<notin> fe_node ` set es \<longrightarrow>
      (\<exists>h'. tree_insert m_address (obj(fe_node new := new)) h (fe_node new) = Some (fe_node new, h') \<and>
            frozen_tree (obj(fe_node new := new)) h' (insert_entry new es))) \<and>
    (\<forall>e. find_key a es = Some e \<longrightarrow>
      (\<exists>nxt h'. tree_erase h (fe_node e) = Some (nxt, h') \<and> frozen_tree obj h' (erase_key a es))) \<and>
    iterate h = Some (map fe_node es)"
proof (intro conjI impI allI)
  have H: "holds m_address obj h (map fe_node es)" using T by (simp add: frozen_tree_def)
  note find = search_holds [OF H, of a] and at = frozen_tree_at [OF T, of a]
  show "tree_find_key m_address obj h a = Some (case find_key a es of None \<Rightarrow> 0 | Some e \<Rightarrow> fe_node e)"
    using find at by (cases "find_key a es") simp_all
  show "iterate h = Some (map fe_node es)"
    using find by blast
next
  assume new: "find_key (m_address new) es = None \<and> fe_node new \<noteq> 0 \<and> fe_node new \<notin> fe_node ` set es"
  with frozen_tree_new_object [OF T] show
    "\<exists>h'. tree_insert m_address (obj(fe_node new := new)) h (fe_node new) = Some (fe_node new, h') \<and>
      frozen_tree (obj(fe_node new := new)) h' (insert_entry new es)"
    by (intro frozen_tree_insert) simp_all
next
  show "\<exists>nxt h'. tree_erase h (fe_node e) = Some (nxt, h') \<and> frozen_tree obj h' (erase_key a es)"
    if "find_key a es = Some e" for e
    using frozen_tree_erase [OF T that] .
qed

definition demo_frozen :: "nat \<Rightarrow> FrozenAddressMapEntry" where
  "demo_frozen p = \<lparr>fe_node = p, m_address = of_nat p, m_value = \<lparr>frz_value = 7, frz_width = 4\<rparr>\<rparr>"

lemma frozen_tree_refines_witness:
  "tree_find_key m_address demo_frozen demo_tree 2 = Some 2 \<and>
   (\<exists>h'. tree_insert m_address (demo_frozen(3 := demo_frozen 3)) demo_tree 3 = Some (3, h') \<and>
     frozen_tree (demo_frozen(3 := demo_frozen 3)) h' [demo_frozen 1, demo_frozen 2, demo_frozen 3])"
proof -
  have "frozen_tree demo_frozen demo_tree [demo_frozen 1, demo_frozen 2]"
    using demo_tree_holds by (auto simp: frozen_tree_def holds_def key_sorted_def demo_frozen_def)
  from frozen_tree_refines [OF this, of 2 "demo_frozen 3"] show ?thesis
    by (simp add: demo_frozen_def)
qed

end
