(* ===== verification/Kern_HandleTable.thy ===== *)
theory Kern_HandleTable
  imports Ams_Prelude "HOL-Library.Monad_Syntax"
begin

text \<open>
  The handle table of a process (\<^verbatim>\<open>KHandleTable\<close>, \<^verbatim>\<open>kern_k_handle_table.hpp\<close> and
  \<^verbatim>\<open>kern_k_handle_table.cpp\<close>) and the reference counts of the objects it holds
  (\<^verbatim>\<open>kern_k_auto_object.hpp\<close>). An object is its address, null is \<open>0\<close>. Every operation runs
  under the table's lock, so it is one step; \<open>None\<close> is a kernel abort.
  The conditions of \<^verbatim>\<open>MESOSPHERE_ASSERT\<close> and \<^verbatim>\<open>MESOSPHERE_AUDIT\<close> are not checks of a release build
  and are not part of the definitions.
\<close>

unbundle bit_operations_syntax

section \<open>Bit fields\<close>

text \<open>\<^verbatim>\<open>BitPack32\<close>: the fields of a 32-bit value.\<close>

definition BitPack_Mask :: "nat \<Rightarrow> nat \<Rightarrow> u32" where
  "BitPack_Mask index cnt = (if cnt = 32 then NOT 0 else push_bit index (push_bit cnt 1 - 1))"

definition BitPack_Get :: "nat \<Rightarrow> nat \<Rightarrow> u32 \<Rightarrow> u32" where
  "BitPack_Get index cnt v = drop_bit index (v AND BitPack_Mask index cnt)"

definition BitPack_Set :: "nat \<Rightarrow> nat \<Rightarrow> u32 \<Rightarrow> u32 \<Rightarrow> u32" where
  "BitPack_Set index cnt x v =
     (v AND NOT (BitPack_Mask index cnt)) OR (push_bit index x AND BitPack_Mask index cnt)"

section \<open>Reference-counted objects\<close>

record KAutoObjects =
  m_ref_count :: "nat \<Rightarrow> u32"
  m_class_token :: "nat \<Rightarrow> u16"
  scheduled :: "nat list" \<comment> \<open>objects handed to \<^verbatim>\<open>ScheduleDestruction\<close>\<close>

definition IsClassTokenDerivedFrom :: "u16 \<Rightarrow> u16 \<Rightarrow> bool" where
  "IsClassTokenDerivedFrom derived base \<longleftrightarrow> derived OR base = derived"

definition DynamicCast :: "u16 \<Rightarrow> KAutoObjects \<Rightarrow> nat \<Rightarrow> nat" where
  "DynamicCast token s obj = (if IsClassTokenDerivedFrom (m_class_token s obj) token then obj else 0)"

definition ReferenceCount_Open :: "u32 \<Rightarrow> (bool \<times> u32) option" where
  "ReferenceCount_Open cur =
     (if cur = 0 then Some (False, cur) else if cur < cur + 1 then Some (True, cur + 1) else None)"

definition ReferenceCount_Close :: "u32 \<Rightarrow> (bool \<times> u32) option" where
  "ReferenceCount_Close cur = (if 0 < cur then Some (cur - 1 = 0, cur - 1) else None)"

definition KAutoObject_Open :: "nat \<Rightarrow> KAutoObjects \<Rightarrow> KAutoObjects option" where
  "KAutoObject_Open obj s =
     do { (_, v) \<leftarrow> ReferenceCount_Open (m_ref_count s obj);
          Some (s\<lparr>m_ref_count := (m_ref_count s)(obj := v)\<rparr>) }"

definition KAutoObject_Close :: "nat \<Rightarrow> KAutoObjects \<Rightarrow> KAutoObjects option" where
  "KAutoObject_Close obj s =
     do { (closed, v) \<leftarrow> ReferenceCount_Close (m_ref_count s obj);
          let s = s\<lparr>m_ref_count := (m_ref_count s)(obj := v)\<rparr>;
          Some (if closed then s\<lparr>scheduled := scheduled s @ [obj]\<rparr> else s) }"

definition KAutoObject_Create :: "nat \<Rightarrow> u16 \<Rightarrow> KAutoObjects \<Rightarrow> KAutoObjects" where
  "KAutoObject_Create obj token s =
     s\<lparr>m_class_token := (m_class_token s)(obj := token), m_ref_count := (m_ref_count s)(obj := 1)\<rparr>"

text \<open>What constructing a \<^verbatim>\<open>KScopedAutoObject\<close> from a pointer does.\<close>

definition KScopedAutoObject :: "nat \<Rightarrow> KAutoObjects \<Rightarrow> KAutoObjects option" where
  "KScopedAutoObject obj s = (if obj \<noteq> 0 then KAutoObject_Open obj s else Some s)"

section \<open>The table\<close>

type_synonym Handle = u32

definition MaxTableSize :: nat where
  "MaxTableSize = 1024"

definition HandleIndex :: "Handle \<Rightarrow> u16" where
  "HandleIndex h = ucast (BitPack_Get 0 15 h)"

definition HandleLinearId :: "Handle \<Rightarrow> u16" where
  "HandleLinearId h = ucast (BitPack_Get 15 15 h)"

definition HandleReserved :: "Handle \<Rightarrow> u32" where
  "HandleReserved h = BitPack_Get 30 2 h"

definition MinLinearId :: u16 where
  "MinLinearId = 1"

definition MaxLinearId :: u16 where
  "MaxLinearId = HandleLinearId (- 1)"

definition EncodeHandle :: "u16 \<Rightarrow> u16 \<Rightarrow> Handle" where
  "EncodeHandle index linear_id =
     BitPack_Set 30 2 0 (BitPack_Set 15 15 (ucast linear_id) (BitPack_Set 0 15 (ucast index) 0))"

definition CurrentThread :: Handle where
  "CurrentThread = 0xFFFF8000"

definition CurrentProcess :: Handle where
  "CurrentProcess = 0xFFFF8001"

definition IsPseudoHandle :: "Handle \<Rightarrow> bool" where
  "IsPseudoHandle h \<longleftrightarrow> h = CurrentProcess \<or> h = CurrentThread"

text \<open>
  An entry's \<^verbatim>\<open>EntryInfo\<close> is the union of the linear id and the index of the next free entry:
  its 16 bits, read in either way.
\<close>

record KHandleTable =
  m_entry_infos :: "u16 list"
  m_objects :: "nat list"
  m_free_head_index :: int
  m_table_size :: u16
  m_max_count :: u16
  m_next_linear_id :: u16
  m_count :: u16

datatype handle_error = OutOfMemory | OutOfHandles

definition GetNextFreeIndex :: "u16 \<Rightarrow> int" where
  "GetNextFreeIndex info = sint info"

text \<open>The loop of \<^verbatim>\<open>Initialize\<close> for one entry.\<close>

definition initialize_entry :: "nat \<Rightarrow> KHandleTable \<Rightarrow> KHandleTable" where
  "initialize_entry i t =
     t\<lparr>m_objects := (m_objects t)[i := 0],
       m_entry_infos := (m_entry_infos t)[i := word_of_int (int i - 1)],
       m_free_head_index := int i\<rparr>"

definition KHandleTable_Initialize :: "int \<Rightarrow> KHandleTable \<Rightarrow> (handle_error + unit) \<times> KHandleTable" where
  "KHandleTable_Initialize sz t =
     (if int MaxTableSize < sz then (Inl OutOfMemory, t)
      else
        (let t = t\<lparr>m_max_count := 0,
                   m_table_size := (if sz \<le> 0 then of_nat MaxTableSize else word_of_int sz),
                   m_next_linear_id := MinLinearId, m_count := 0, m_free_head_index := - 1\<rparr>
         in (Inr (), fold initialize_entry [0..<unat (m_table_size t)] t)))"

definition AllocateEntry :: "KHandleTable \<Rightarrow> int \<times> KHandleTable" where
  "AllocateEntry t =
     (let index = m_free_head_index t;
          c = m_count t + 1
      in (index, t\<lparr>m_free_head_index := GetNextFreeIndex (m_entry_infos t ! nat index),
                   m_count := c, m_max_count := max (m_max_count t) c\<rparr>))"

definition FreeEntry :: "nat \<Rightarrow> KHandleTable \<Rightarrow> KHandleTable" where
  "FreeEntry index t =
     t\<lparr>m_objects := (m_objects t)[index := 0],
       m_entry_infos := (m_entry_infos t)[index := word_of_int (m_free_head_index t)],
       m_free_head_index := int index,
       m_count := m_count t - 1\<rparr>"

definition AllocateLinearId :: "KHandleTable \<Rightarrow> u16 \<times> KHandleTable" where
  "AllocateLinearId t =
     (let i = m_next_linear_id t;
          n = i + 1
      in (i, t\<lparr>m_next_linear_id := (if MaxLinearId < n then MinLinearId else n)\<rparr>))"

definition IsValidHandle :: "KHandleTable \<Rightarrow> Handle \<Rightarrow> bool" where
  "IsValidHandle t h \<longleftrightarrow>
     h \<noteq> 0 \<and> HandleLinearId h \<noteq> 0 \<and> HandleIndex h < m_table_size t \<and>
     m_objects t ! unat (HandleIndex h) \<noteq> 0 \<and>
     m_entry_infos t ! unat (HandleIndex h) = HandleLinearId h"

definition GetObjectImpl :: "KHandleTable \<Rightarrow> Handle \<Rightarrow> nat" where
  "GetObjectImpl t h =
     (if HandleReserved h \<noteq> 0 then 0
      else if IsValidHandle t h then m_objects t ! unat (HandleIndex h) else 0)"

definition GetObjectByIndexImpl :: "KHandleTable \<Rightarrow> nat \<Rightarrow> (Handle \<times> nat) option" where
  "GetObjectByIndexImpl t index =
     (if unat (m_table_size t) \<le> index then None
      else if m_objects t ! index \<noteq> 0
      then Some (EncodeHandle (of_nat index) (m_entry_infos t ! index), m_objects t ! index)
      else None)"

section \<open>Operations\<close>

definition set_entry :: "nat \<Rightarrow> u16 \<Rightarrow> nat \<Rightarrow> KHandleTable \<Rightarrow> KHandleTable" where
  "set_entry index linear_id obj t =
     t\<lparr>m_entry_infos := (m_entry_infos t)[index := linear_id], m_objects := (m_objects t)[index := obj]\<rparr>"

definition KHandleTable_Add ::
    "nat \<Rightarrow> KHandleTable \<Rightarrow> KAutoObjects \<Rightarrow> ((handle_error + Handle) \<times> KHandleTable \<times> KAutoObjects) option" where
  "KHandleTable_Add obj t s =
     (if \<not> m_count t < m_table_size t then Some (Inl OutOfHandles, t, s)
      else
        (let (linear_id, t) = AllocateLinearId t;
             (index, t) = AllocateEntry t;
             t = set_entry (nat index) linear_id obj t
         in do { s \<leftarrow> KAutoObject_Open obj s;
                 Some (Inr (EncodeHandle (word_of_int index) linear_id), t, s) }))"

definition KHandleTable_Reserve :: "KHandleTable \<Rightarrow> (handle_error + Handle) \<times> KHandleTable" where
  "KHandleTable_Reserve t =
     (if \<not> m_count t < m_table_size t then (Inl OutOfHandles, t)
      else
        (let (index, t) = AllocateEntry t;
             (linear_id, t) = AllocateLinearId t
         in (Inr (EncodeHandle (word_of_int index) linear_id), t)))"

definition KHandleTable_Unreserve :: "Handle \<Rightarrow> KHandleTable \<Rightarrow> KHandleTable" where
  "KHandleTable_Unreserve h t =
     (if HandleIndex h < m_table_size t then FreeEntry (unat (HandleIndex h)) t else t)"

definition KHandleTable_Register ::
    "Handle \<Rightarrow> nat \<Rightarrow> KHandleTable \<Rightarrow> KAutoObjects \<Rightarrow> (KHandleTable \<times> KAutoObjects) option" where
  "KHandleTable_Register h obj t s =
     (if HandleIndex h < m_table_size t
      then do { s \<leftarrow> KAutoObject_Open obj s;
                Some (set_entry (unat (HandleIndex h)) (HandleLinearId h) obj t, s) }
      else Some (t, s))"

definition KHandleTable_Remove ::
    "Handle \<Rightarrow> KHandleTable \<Rightarrow> KAutoObjects \<Rightarrow> (bool \<times> KHandleTable \<times> KAutoObjects) option" where
  "KHandleTable_Remove h t s =
     (if IsPseudoHandle h then Some (False, t, s)
      else if HandleReserved h \<noteq> 0 then Some (False, t, s)
      else if IsValidHandle t h
      then (let obj = m_objects t ! unat (HandleIndex h);
                t = FreeEntry (unat (HandleIndex h)) t
            in do { s \<leftarrow> KAutoObject_Close obj s; Some (True, t, s) })
      else Some (False, t, s))"

fun close_all :: "nat list \<Rightarrow> KAutoObjects \<Rightarrow> KAutoObjects option" where
  "close_all [] s = Some s"
| "close_all (obj # objs) s =
     do { s \<leftarrow> (if obj \<noteq> 0 then KAutoObject_Close obj s else Some s); close_all objs s }"

definition KHandleTable_Finalize :: "KHandleTable \<Rightarrow> KAutoObjects \<Rightarrow> (KHandleTable \<times> KAutoObjects) option" where
  "KHandleTable_Finalize t s =
     do { let saved_table_size = m_table_size t;
          s \<leftarrow> close_all (take (unat saved_table_size) (m_objects t)) s;
          Some (t\<lparr>m_table_size := 0\<rparr>, s) }"

text \<open>Lookups open a reference to what they return.\<close>

definition GetObjectWithoutPseudoHandle ::
    "u16 option \<Rightarrow> KHandleTable \<Rightarrow> Handle \<Rightarrow> KAutoObjects \<Rightarrow> (nat \<times> KAutoObjects) option" where
  "GetObjectWithoutPseudoHandle token t h s =
     (let obj = GetObjectImpl t h;
          obj = (case token of None \<Rightarrow> obj | Some k \<Rightarrow> if obj \<noteq> 0 then DynamicCast k s obj else 0)
      in do { s \<leftarrow> KScopedAutoObject obj s; Some (obj, s) })"

text \<open>
  \<^verbatim>\<open>GetObject<T>\<close>: \<open>process_T\<close> is \<^verbatim>\<open>std::derived_from<KProcess, T>\<close>, \<open>thread_T\<close> the same of
  \<^verbatim>\<open>KThread\<close>, the two compile-time conditions of the template.
\<close>

definition GetObject ::
    "bool \<Rightarrow> bool \<Rightarrow> u16 option \<Rightarrow> nat \<Rightarrow> nat \<Rightarrow> KHandleTable \<Rightarrow> Handle \<Rightarrow> KAutoObjects \<Rightarrow>
     (nat \<times> KAutoObjects) option" where
  "GetObject process_T thread_T token cur_process cur_thread t h s =
     (if process_T \<and> h = CurrentProcess
      then do { s \<leftarrow> KScopedAutoObject cur_process s; Some (cur_process, s) }
      else if \<not> process_T \<and> thread_T \<and> h = CurrentThread
      then do { s \<leftarrow> KScopedAutoObject cur_thread s; Some (cur_thread, s) }
      else GetObjectWithoutPseudoHandle token t h s)"

definition GetObjectForIpcWithoutPseudoHandle ::
    "u16 \<Rightarrow> KHandleTable \<Rightarrow> Handle \<Rightarrow> KAutoObjects \<Rightarrow> (nat \<times> KAutoObjects) option" where
  "GetObjectForIpcWithoutPseudoHandle interrupt_event_token t h s =
     (let obj = GetObjectImpl t h;
          obj = (if obj \<noteq> 0 \<and> DynamicCast interrupt_event_token s obj \<noteq> 0 then 0 else obj)
      in do { s \<leftarrow> KScopedAutoObject obj s; Some (obj, s) })"

definition GetObjectForIpc ::
    "u16 \<Rightarrow> KHandleTable \<Rightarrow> Handle \<Rightarrow> nat \<Rightarrow> nat \<Rightarrow> KAutoObjects \<Rightarrow> (nat \<times> KAutoObjects) option" where
  "GetObjectForIpc interrupt_event_token t h cur_thread owner_process s =
     (if h = CurrentProcess then do { s \<leftarrow> KScopedAutoObject owner_process s; Some (owner_process, s) }
      else if h = CurrentThread then do { s \<leftarrow> KScopedAutoObject cur_thread s; Some (cur_thread, s) }
      else GetObjectForIpcWithoutPseudoHandle interrupt_event_token t h s)"

definition GetObjectByIndex ::
    "KHandleTable \<Rightarrow> nat \<Rightarrow> KAutoObjects \<Rightarrow> ((Handle \<times> nat) option \<times> KAutoObjects) option" where
  "GetObjectByIndex t index s =
     (case GetObjectByIndexImpl t index of
        None \<Rightarrow> Some (None, s)
      | Some (h, obj) \<Rightarrow> do { s \<leftarrow> KScopedAutoObject obj s; Some (Some (h, obj), s) })"

text \<open>
  The loop of \<^verbatim>\<open>GetMultipleObjects\<close>: the objects opened so far, in order, until a handle does not
  resolve to an object of the class.
\<close>

fun open_handles :: "u16 \<Rightarrow> KHandleTable \<Rightarrow> Handle list \<Rightarrow> KAutoObjects \<Rightarrow> (nat list \<times> KAutoObjects) option" where
  "open_handles token t [] s = Some ([], s)"
| "open_handles token t (h # hs) s =
     (let obj = GetObjectImpl t h
      in if obj = 0 \<or> DynamicCast token s obj = 0 then Some ([], s)
         else do { s \<leftarrow> KAutoObject_Open obj s;
                   (objs, s) \<leftarrow> open_handles token t hs s;
                   Some (obj # objs, s) })"

definition GetMultipleObjects ::
    "u16 \<Rightarrow> KHandleTable \<Rightarrow> Handle list \<Rightarrow> KAutoObjects \<Rightarrow> (bool \<times> nat list \<times> KAutoObjects) option" where
  "GetMultipleObjects token t handles s =
     do { (out, s) \<leftarrow> open_handles token t handles s;
          if length out = length handles then Some (True, out, s)
          else do { s \<leftarrow> close_all out s; Some (False, out, s) } }"

section \<open>Packing and unpacking\<close>

lemma BitPack_Mask_fields:
  "BitPack_Mask 0 15 = mask 15" "BitPack_Mask 15 15 = push_bit 15 (mask 15)" "BitPack_Mask 30 2 = push_bit 30 (mask 2)"
  by (simp_all add: BitPack_Mask_def mask_eq_exp_minus_1 push_bit_eq_mult)

lemma bit_u16_small: "i < 0x8000 \<Longrightarrow> bit (i :: u16) n \<Longrightarrow> n < 15"
proof -
  assume a: "i < 0x8000" "bit i n"
  have "unat i < 2 ^ 15" using a(1) by (simp add: word_less_nat_alt)
  then have "take_bit 15 i = i" by (simp add: word_unat_eq_iff unsigned_take_bit_eq take_bit_nat_eq_self_iff)
  then show ?thesis using a(2) by (metis bit_take_bit_iff)
qed

lemma HandleIndex_Encode: "i < 0x8000 \<Longrightarrow> HandleIndex (EncodeHandle i l) = i"
  unfolding EncodeHandle_def HandleIndex_def BitPack_Set_def BitPack_Get_def BitPack_Mask_fields
  by (rule bit_word_eqI) (auto simp: bit_simps dest: bit_u16_small)

lemma HandleLinearId_Encode: "l < 0x8000 \<Longrightarrow> HandleLinearId (EncodeHandle i l) = l"
  unfolding EncodeHandle_def HandleLinearId_def BitPack_Set_def BitPack_Get_def BitPack_Mask_fields
  by (rule bit_word_eqI) (auto simp: bit_simps dest: bit_u16_small)

lemma HandleReserved_Encode: "HandleReserved (EncodeHandle i l) = 0"
  unfolding EncodeHandle_def HandleReserved_def BitPack_Set_def BitPack_Get_def BitPack_Mask_fields
  by (rule bit_word_eqI) (auto simp: bit_simps)

lemma Encode_fields: "HandleReserved h = 0 \<Longrightarrow> EncodeHandle (HandleIndex h) (HandleLinearId h) = h"
proof -
  assume r: "HandleReserved h = 0"
  have hi: "\<not> bit h n" if "30 \<le> n" for n
  proof -
    have "\<not> bit (HandleReserved h) (n - 30)" using r by simp
    then show ?thesis using that bit_imp_le_length [of h n]
      unfolding HandleReserved_def BitPack_Get_def BitPack_Mask_fields by (auto simp: bit_simps)
  qed
  have lo: "n < 30" if "bit h n" for n using hi that not_less by blast
  show ?thesis
    unfolding EncodeHandle_def HandleIndex_def HandleLinearId_def BitPack_Set_def BitPack_Get_def BitPack_Mask_fields
    by (rule bit_word_eqI) (auto simp: bit_simps not_less dest: lo)
qed

lemma Handle_fields_less: "HandleIndex h < 0x8000" "HandleLinearId h < 0x8000"
proof -
  have "HandleIndex h = take_bit 15 (HandleIndex h)" "HandleLinearId h = take_bit 15 (HandleLinearId h)"
    unfolding HandleIndex_def HandleLinearId_def BitPack_Get_def BitPack_Mask_fields
    by (rule bit_word_eqI; auto simp: bit_simps)+
  then have "unat (HandleIndex h) < 2 ^ 15" "unat (HandleLinearId h) < 2 ^ 15"
    by (metis unsigned_take_bit_eq take_bit_nat_less_exp)+
  then show "HandleIndex h < 0x8000" "HandleLinearId h < 0x8000" by (simp_all add: word_less_nat_alt)
qed

lemma MaxLinearId_eq: "MaxLinearId = 0x7FFF"
  by (simp add: MaxLinearId_def HandleLinearId_def BitPack_Get_def BitPack_Mask_fields mask_eq_exp_minus_1 push_bit_eq_mult drop_bit_eq_div)

end
