(* ===== verification/Kern_HandleTable_Inv.thy ===== *)
theory Kern_HandleTable_Inv
  imports Kern_HandleTable
begin

text \<open>
  The invariant of \<^verbatim>\<open>KHandleTable\<close> and what its operations do to the map from handles to objects
  that a process sees.
\<close>

section \<open>The free chain and the invariant\<close>

primrec free_chain :: "u16 list \<Rightarrow> int \<Rightarrow> nat list \<Rightarrow> bool" where
  "free_chain infos head [] \<longleftrightarrow> head = - 1"
| "free_chain infos head (i # is) \<longleftrightarrow> head = int i \<and> free_chain infos (GetNextFreeIndex (infos ! i)) is"

definition table_wf :: "KHandleTable \<Rightarrow> nat list \<Rightarrow> Handle set \<Rightarrow> bool" where
  "table_wf t fs rs \<longleftrightarrow>
     length (m_entry_infos t) = MaxTableSize \<and> length (m_objects t) = MaxTableSize \<and>
     unat (m_table_size t) \<le> MaxTableSize \<and>
     free_chain (m_entry_infos t) (m_free_head_index t) fs \<and> distinct fs \<and>
     (\<forall>i \<in> set fs. i < unat (m_table_size t)) \<and>
     (\<forall>h \<in> rs. HandleReserved h = 0 \<and> HandleLinearId h \<noteq> 0 \<and> HandleIndex h < m_table_size t \<and>
        unat (HandleIndex h) \<notin> set fs) \<and>
     inj_on HandleIndex rs \<and>
     (\<forall>i < unat (m_table_size t). m_objects t ! i \<noteq> 0 \<longleftrightarrow>
        i \<notin> set fs \<and> (\<forall>h \<in> rs. unat (HandleIndex h) \<noteq> i)) \<and>
     (\<forall>i < unat (m_table_size t). m_objects t ! i \<noteq> 0 \<longrightarrow>
        m_entry_infos t ! i \<noteq> 0 \<and> m_entry_infos t ! i \<le> MaxLinearId) \<and>
     m_next_linear_id t \<noteq> 0 \<and> m_next_linear_id t \<le> MaxLinearId \<and>
     unat (m_count t) + length fs = unat (m_table_size t) \<and>
     m_count t \<le> m_max_count t \<and> m_max_count t \<le> m_table_size t"

definition handles :: "KHandleTable \<Rightarrow> Handle \<Rightarrow> nat option" where
  "handles t h = (if GetObjectImpl t h = 0 then None else Some (GetObjectImpl t h))"

lemma HandleLinearId_0 [simp]: "HandleLinearId 0 = 0"
  by (simp add: HandleLinearId_def BitPack_Get_def)

lemma handles_unfold:
  "handles t h =
     (if HandleReserved h = 0 \<and> HandleLinearId h \<noteq> 0 \<and> HandleIndex h < m_table_size t \<and>
         m_objects t ! unat (HandleIndex h) \<noteq> 0 \<and>
         m_entry_infos t ! unat (HandleIndex h) = HandleLinearId h
      then Some (m_objects t ! unat (HandleIndex h)) else None)"
  by (auto simp: handles_def GetObjectImpl_def IsValidHandle_def)

lemma sint_u16_index: "- 1 \<le> i \<Longrightarrow> i < 0x8000 \<Longrightarrow> sint (word_of_int i :: u16) = i"
  by (simp add: signed_take_bit_int_eq_self signed_of_int)

lemma free_chain_update [simp]:
  "i \<notin> set fs \<Longrightarrow> free_chain (infos[i := v]) head fs = free_chain infos head fs"
  by (induction fs arbitrary: head) auto

lemma free_chain_head: "free_chain infos head fs \<Longrightarrow> head = (case fs of [] \<Rightarrow> - 1 | i # _ \<Rightarrow> int i)"
  by (cases fs) auto

text \<open>Two handles with the same fields are the same handle.\<close>

lemma handle_eqI:
  "HandleReserved h = 0 \<Longrightarrow> HandleReserved h' = 0 \<Longrightarrow> HandleIndex h = HandleIndex h' \<Longrightarrow>
   HandleLinearId h = HandleLinearId h' \<Longrightarrow> h = h'"
  by (metis Encode_fields)

lemma handles_set_entry:
  assumes "HandleReserved h = 0" "HandleLinearId h \<noteq> 0" "HandleIndex h < m_table_size t"
    "unat (HandleIndex h) < length (m_objects t)" "unat (HandleIndex h) < length (m_entry_infos t)"
    "m_objects t ! unat (HandleIndex h) = 0" "obj \<noteq> 0"
  shows "handles (set_entry (unat (HandleIndex h)) (HandleLinearId h) obj t) = (handles t)(h \<mapsto> obj)"
proof
  fix g
  show "handles (set_entry (unat (HandleIndex h)) (HandleLinearId h) obj t) g = ((handles t)(h \<mapsto> obj)) g"
  proof (cases "HandleIndex g = HandleIndex h")
    case True
    then show ?thesis
      using assms handle_eqI [of g h] by (auto simp: handles_unfold set_entry_def)
  next
    case False
    then have "unat (HandleIndex g) \<noteq> unat (HandleIndex h)" "g \<noteq> h"
      by (simp add: word_unat_eq_iff, blast)
    then show ?thesis
      by (simp add: handles_unfold set_entry_def)
  qed
qed

lemma handles_FreeEntry:
  assumes "HandleReserved h = 0" "unat (HandleIndex h) < length (m_objects t)"
    "m_objects t ! unat (HandleIndex h) = 0 \<or> m_entry_infos t ! unat (HandleIndex h) = HandleLinearId h"
  shows "handles (FreeEntry (unat (HandleIndex h)) t) = (handles t)(h := None)"
proof
  fix g
  show "handles (FreeEntry (unat (HandleIndex h)) t) g = ((handles t)(h := None)) g"
  proof (cases "HandleIndex g = HandleIndex h")
    case True
    have "handles t g = None" if "g \<noteq> h"
      using that assms(1,3) True handle_eqI [of g h] by (auto simp: handles_unfold)
    moreover have "handles (FreeEntry (unat (HandleIndex h)) t) g = None"
      using assms(2) True by (simp add: handles_unfold FreeEntry_def)
    ultimately show ?thesis
      by simp
  next
    case False
    then have "unat (HandleIndex g) \<noteq> unat (HandleIndex h)" "g \<noteq> h"
      by (simp add: word_unat_eq_iff, blast)
    then show ?thesis
      by (simp add: handles_unfold FreeEntry_def)
  qed
qed

section \<open>The operations keep the invariant\<close>

definition next_handle :: "KHandleTable \<Rightarrow> Handle" where
  "next_handle t = EncodeHandle (word_of_int (m_free_head_index t)) (m_next_linear_id t)"

definition allocated :: "KHandleTable \<Rightarrow> KHandleTable" where
  "allocated t = snd (AllocateLinearId (snd (AllocateEntry t)))"

lemma allocated_sel:
  "m_objects (allocated t) = m_objects t" "m_entry_infos (allocated t) = m_entry_infos t"
  "m_table_size (allocated t) = m_table_size t" "m_count (allocated t) = m_count t + 1"
  "m_free_head_index (allocated t) = GetNextFreeIndex (m_entry_infos t ! nat (m_free_head_index t))"
  "m_max_count (allocated t) = max (m_max_count t) (m_count t + 1)"
  "m_next_linear_id (allocated t) =
     (if MaxLinearId < m_next_linear_id t + 1 then MinLinearId else m_next_linear_id t + 1)"
  by (simp_all add: allocated_def AllocateLinearId_def AllocateEntry_def Let_def)

lemma table_wfD:
  assumes "table_wf t fs rs"
  shows "length (m_entry_infos t) = MaxTableSize" "length (m_objects t) = MaxTableSize"
    "unat (m_table_size t) \<le> MaxTableSize"
    "free_chain (m_entry_infos t) (m_free_head_index t) fs" "distinct fs"
    "i \<in> set fs \<Longrightarrow> i < unat (m_table_size t)"
    "h \<in> rs \<Longrightarrow> HandleReserved h = 0" "h \<in> rs \<Longrightarrow> HandleLinearId h \<noteq> 0"
    "h \<in> rs \<Longrightarrow> HandleIndex h < m_table_size t" "h \<in> rs \<Longrightarrow> unat (HandleIndex h) \<notin> set fs"
    "h \<in> rs \<Longrightarrow> g \<in> rs \<Longrightarrow> unat (HandleIndex h) = unat (HandleIndex g) \<Longrightarrow> h = g"
    "i < unat (m_table_size t) \<Longrightarrow> m_objects t ! i \<noteq> 0 \<longleftrightarrow>
       i \<notin> set fs \<and> (\<forall>h \<in> rs. unat (HandleIndex h) \<noteq> i)"
    "i < unat (m_table_size t) \<Longrightarrow> m_objects t ! i \<noteq> 0 \<Longrightarrow> m_entry_infos t ! i \<noteq> 0"
    "i < unat (m_table_size t) \<Longrightarrow> m_objects t ! i \<noteq> 0 \<Longrightarrow> m_entry_infos t ! i \<le> MaxLinearId"
    "m_next_linear_id t \<noteq> 0" "m_next_linear_id t \<le> MaxLinearId"
    "unat (m_count t) + length fs = unat (m_table_size t)"
    "m_count t \<le> m_max_count t" "m_max_count t \<le> m_table_size t"
  using assms unfolding table_wf_def inj_on_def word_unat_eq_iff by blast+

lemma table_wfI:
  assumes "length (m_entry_infos t) = MaxTableSize" "length (m_objects t) = MaxTableSize"
    "unat (m_table_size t) \<le> MaxTableSize"
    "free_chain (m_entry_infos t) (m_free_head_index t) fs" "distinct fs"
    "\<And>i. i \<in> set fs \<Longrightarrow> i < unat (m_table_size t)"
    "\<And>h. h \<in> rs \<Longrightarrow> HandleReserved h = 0" "\<And>h. h \<in> rs \<Longrightarrow> HandleLinearId h \<noteq> 0"
    "\<And>h. h \<in> rs \<Longrightarrow> HandleIndex h < m_table_size t"
    "\<And>h. h \<in> rs \<Longrightarrow> unat (HandleIndex h) \<notin> set fs"
    "\<And>h g. h \<in> rs \<Longrightarrow> g \<in> rs \<Longrightarrow> unat (HandleIndex h) = unat (HandleIndex g) \<Longrightarrow> h = g"
    "\<And>i. i < unat (m_table_size t) \<Longrightarrow> m_objects t ! i \<noteq> 0 \<longleftrightarrow>
       i \<notin> set fs \<and> (\<forall>h \<in> rs. unat (HandleIndex h) \<noteq> i)"
    "\<And>i. i < unat (m_table_size t) \<Longrightarrow> m_objects t ! i \<noteq> 0 \<Longrightarrow> m_entry_infos t ! i \<noteq> 0"
    "\<And>i. i < unat (m_table_size t) \<Longrightarrow> m_objects t ! i \<noteq> 0 \<Longrightarrow> m_entry_infos t ! i \<le> MaxLinearId"
    "m_next_linear_id t \<noteq> 0" "m_next_linear_id t \<le> MaxLinearId"
    "unat (m_count t) + length fs = unat (m_table_size t)"
    "m_count t \<le> m_max_count t" "m_max_count t \<le> m_table_size t"
  shows "table_wf t fs rs"
  using assms unfolding table_wf_def inj_on_def word_unat_eq_iff by blast

lemma table_wf_count: "table_wf t fs rs \<Longrightarrow> m_count t < m_table_size t \<longleftrightarrow> fs \<noteq> []"
  unfolding table_wf_def word_less_nat_alt length_greater_0_conv [symmetric] by linarith

lemma table_size_le: "table_wf t fs rs \<Longrightarrow> m_table_size t \<le> 0x400"
  by (simp add: table_wf_def MaxTableSize_def word_le_nat_alt)

lemma next_handle_fields:
  assumes "table_wf t (i # fs) rs"
  shows "unat (HandleIndex (next_handle t)) = i" "HandleLinearId (next_handle t) = m_next_linear_id t"
    "HandleReserved (next_handle t) = 0"
proof -
  have i: "i < 1024" "m_free_head_index t = int i"
    using table_wfD(3,4) [OF assms] table_wfD(6) [OF assms, of i] by (simp_all add: MaxTableSize_def)
  then have u: "unat (of_nat i :: u16) = i"
    by (simp add: unat_of_nat)
  then have "HandleIndex (next_handle t) = of_nat i"
    unfolding next_handle_def using i by (subst HandleIndex_Encode) (simp_all add: word_less_nat_alt)
  then show "unat (HandleIndex (next_handle t)) = i"
    using u by simp
  have "m_next_linear_id t < 0x8000"
    using table_wfD(16) [OF assms] by (simp add: MaxLinearId_eq word_le_nat_alt word_less_nat_alt)
  then show "HandleLinearId (next_handle t) = m_next_linear_id t"
    unfolding next_handle_def by (rule HandleLinearId_Encode)
  show "HandleReserved (next_handle t) = 0"
    unfolding next_handle_def by (rule HandleReserved_Encode)
qed

lemma next_linear_id_bounds:
  assumes "(n :: u16) \<noteq> 0" "n \<le> MaxLinearId"
  defines "n' \<equiv> (if MaxLinearId < n + 1 then MinLinearId else n + 1)"
  shows "n' \<noteq> 0" "n' \<le> MaxLinearId" "unat n' - 1 = Suc (unat n - 1) mod 0x7FFF"
proof -
  have le: "unat n \<le> 0x7FFF" and pos: "0 < unat n"
    using assms(1,2) by (auto simp: MaxLinearId_eq word_le_nat_alt unat_gt_0)
  then have suc: "unat (n + 1) = Suc (unat n)"
    by (simp add: unat_word_ariths)
  have gt: "MaxLinearId < n + 1 \<longleftrightarrow> unat n = 0x7FFF"
    using le by (auto simp: MaxLinearId_eq word_less_nat_alt suc)
  have n': "unat n' = (if unat n = 0x7FFF then 1 else Suc (unat n))"
    using suc gt by (simp add: n'_def MinLinearId_def)
  show "n' \<noteq> 0"
    using n' by (metis One_nat_def nat.distinct(1) unat_0)
  show "n' \<le> MaxLinearId"
    using n' le by (auto simp: MaxLinearId_eq word_le_nat_alt)
  show "unat n' - 1 = Suc (unat n - 1) mod 0x7FFF"
    using n' le pos by auto
qed

lemma allocated_wf:
  assumes wf: "table_wf t (i # fs) rs"
  shows "table_wf (allocated t) fs (insert (next_handle t) rs)" "handles (allocated t) = handles t"
    "next_handle t \<notin> rs" "handles t (next_handle t) = None" "m_objects t ! i = 0"
proof -
  note D = table_wfD [OF wf]
  note h = next_handle_fields [OF wf]
  note n = next_linear_id_bounds [OF D(15,16)]
  have i: "i < unat (m_table_size t)" "i \<notin> set fs"
    using D(5,6) by simp_all
  have "unat (m_count t) < 1024"
    using D(3,17) by (simp add: MaxTableSize_def)
  then have c: "unat (m_count t + 1) = Suc (unat (m_count t))"
    by (simp add: unat_word_ariths)
  have rs: "unat (HandleIndex g) \<noteq> i" if "g \<in> rs" for g
    using D(10) [OF that] by auto
  then show new: "next_handle t \<notin> rs"
    using h(1) by blast
  show o: "m_objects t ! i = 0"
    using D(12) [OF i(1)] by simp
  then show "handles t (next_handle t) = None"
    by (simp add: handles_unfold h(1))
  show "handles (allocated t) = handles t"
    by (rule ext) (simp add: handles_unfold allocated_sel)
  have objs: "m_objects t ! j \<noteq> 0 \<longleftrightarrow>
      j \<notin> set fs \<and> (\<forall>g \<in> insert (next_handle t) rs. unat (HandleIndex g) \<noteq> j)"
    if "j < unat (m_table_size t)" for j
    using D(12) [OF that] h(1) o by auto
  have m: "max (m_max_count t) (m_count t + 1) \<le> m_table_size t"
    using D(17,19) c by (simp add: word_le_nat_alt max_def)
  show "table_wf (allocated t) fs (insert (next_handle t) rs)"
  proof (rule table_wfI, unfold allocated_sel)
    show "free_chain (m_entry_infos t) (GetNextFreeIndex (m_entry_infos t ! nat (m_free_head_index t))) fs"
      using D(4) by simp
    show "g = g'" if "g \<in> insert (next_handle t) rs" "g' \<in> insert (next_handle t) rs"
        "unat (HandleIndex g) = unat (HandleIndex g')" for g g'
      using that D(11) [of g g'] rs [of g] rs [of g'] h(1) by (metis insertE)
    show "HandleIndex g < m_table_size t" if "g \<in> insert (next_handle t) rs" for g
      using that D(9) h(1) i(1) by (auto simp: word_less_nat_alt)
    show "HandleReserved g = 0" "HandleLinearId g \<noteq> 0" "unat (HandleIndex g) \<notin> set fs"
      if "g \<in> insert (next_handle t) rs" for g
      using that D(7,8,10,15) h i(2) by auto
    show "unat (m_count t + 1) + length fs = unat (m_table_size t)"
      using D(17) c by simp
  qed (use D(1-3,5) D(6) D(13,14) n(1,2) m objs in \<open>simp_all split del: if_split\<close>)
qed

lemma register_wf:
  assumes wf: "table_wf t fs rs" and h: "h \<in> rs" and obj: "obj \<noteq> 0"
  defines "t' \<equiv> set_entry (unat (HandleIndex h)) (HandleLinearId h) obj t"
  shows "table_wf t' fs (rs - {h})" "handles t' = (handles t)(h \<mapsto> obj)" "handles t h = None"
proof -
  note D = table_wfD [OF wf]
  have i: "unat (HandleIndex h) < unat (m_table_size t)" "unat (HandleIndex h) < MaxTableSize"
    using D(9) [OF h] D(3) by (simp_all add: word_less_nat_alt)
  have o: "m_objects t ! unat (HandleIndex h) = 0"
    using D(12) [OF i(1)] h by blast
  then show "handles t h = None"
    by (simp add: handles_unfold)
  show "handles t' = (handles t)(h \<mapsto> obj)"
    unfolding t'_def using D(1,2) i(2) o obj
    by (intro handles_set_entry D(7) [OF h] D(8) [OF h] D(9) [OF h]) simp_all
  have lin: "HandleLinearId h \<le> MaxLinearId"
    using Handle_fields_less(2) [of h] by (simp add: MaxLinearId_eq word_le_nat_alt word_less_nat_alt)
  have sel: "m_objects t' = (m_objects t)[unat (HandleIndex h) := obj]"
      "m_entry_infos t' = (m_entry_infos t)[unat (HandleIndex h) := HandleLinearId h]"
      "m_table_size t' = m_table_size t" "m_count t' = m_count t" "m_max_count t' = m_max_count t"
      "m_free_head_index t' = m_free_head_index t" "m_next_linear_id t' = m_next_linear_id t"
    by (simp_all add: t'_def set_entry_def)
  show "table_wf t' fs (rs - {h})"
  proof (rule table_wfI, unfold sel)
    show "free_chain ((m_entry_infos t)[unat (HandleIndex h) := HandleLinearId h]) (m_free_head_index t) fs"
      using D(4) D(10) [OF h] by simp
    show "g = g'" if "g \<in> rs - {h}" "g' \<in> rs - {h}" "unat (HandleIndex g) = unat (HandleIndex g')" for g g'
      using that D(11) by blast
    fix j assume j: "j < unat (m_table_size t)"
    show "(m_objects t)[unat (HandleIndex h) := obj] ! j \<noteq> 0 \<longleftrightarrow>
        j \<notin> set fs \<and> (\<forall>g \<in> rs - {h}. unat (HandleIndex g) \<noteq> j)"
    proof (cases "j = unat (HandleIndex h)")
      case True
      then show ?thesis
        using obj i D(2) D(10) [OF h] D(11) [OF _ h] by auto
    next
      case False
      then show ?thesis
        using D(12) [OF j] by auto
    qed
    assume "(m_objects t)[unat (HandleIndex h) := obj] ! j \<noteq> 0"
    then show "(m_entry_infos t)[unat (HandleIndex h) := HandleLinearId h] ! j \<noteq> 0"
        "(m_entry_infos t)[unat (HandleIndex h) := HandleLinearId h] ! j \<le> MaxLinearId"
      using D(13,14) [OF j] D(1) D(8) [OF h] lin i
      by (cases "unat (HandleIndex h) = j"; auto)+
  qed (use D(1-3,5,15-19) D(6-10) in \<open>simp_all\<close>)
qed

lemma free_wf:
  assumes wf: "table_wf t fs rs" and i: "i < unat (m_table_size t)" "i \<notin> set fs"
    and rs': "rs' = rs - {h. unat (HandleIndex h) = i}"
  shows "table_wf (FreeEntry i t) (i # fs) rs'"
proof -
  note D = table_wfD [OF wf]
  have head: "- 1 \<le> m_free_head_index t" "m_free_head_index t < 0x8000"
    using free_chain_head [OF D(4)] D(3) D(6) [of "hd fs"] by (auto simp: MaxTableSize_def split: list.splits)
  have "card (set (i # fs)) \<le> card {..<unat (m_table_size t)}"
    using D(6) i by (intro card_mono) auto
  then have "0 < unat (m_count t)"
    using D(5,17) i by (simp add: distinct_card)
  then have c: "unat (m_count t - 1) = unat (m_count t) - 1" "0 < unat (m_count t)"
    by (simp_all add: unat_sub word_le_nat_alt)
  have len: "i < MaxTableSize"
    using i(1) D(3) by simp
  have sel: "m_objects (FreeEntry i t) = (m_objects t)[i := 0]"
      "m_entry_infos (FreeEntry i t) = (m_entry_infos t)[i := word_of_int (m_free_head_index t)]"
      "m_table_size (FreeEntry i t) = m_table_size t" "m_count (FreeEntry i t) = m_count t - 1"
      "m_max_count (FreeEntry i t) = m_max_count t" "m_free_head_index (FreeEntry i t) = int i"
      "m_next_linear_id (FreeEntry i t) = m_next_linear_id t"
    by (simp_all add: FreeEntry_def)
  show ?thesis
  proof (rule table_wfI, unfold sel)
    show "free_chain ((m_entry_infos t)[i := word_of_int (m_free_head_index t)]) (int i) (i # fs)"
      using D(1,4) i len sint_u16_index [OF head] by (simp add: GetNextFreeIndex_def)
    show "unat (m_count t - 1) + length (i # fs) = unat (m_table_size t)"
      using D(17) c by simp
    show "m_count t - 1 \<le> m_max_count t"
      using D(18) c by (simp add: word_le_nat_alt)
    show "g = g'" if "g \<in> rs'" "g' \<in> rs'" "unat (HandleIndex g) = unat (HandleIndex g')" for g g'
      using that D(11) unfolding rs' by blast
    show "k < unat (m_table_size t)" if "k \<in> set (i # fs)" for k
      using that D(6) i(1) by auto
    fix j assume j: "j < unat (m_table_size t)"
    show "(m_objects t)[i := 0] ! j \<noteq> 0 \<longleftrightarrow>
        j \<notin> set (i # fs) \<and> (\<forall>h \<in> rs'. unat (HandleIndex h) \<noteq> j)"
      using D(2) D(12) [OF j] len by (cases "j = i") (auto simp: rs')
    assume "(m_objects t)[i := 0] ! j \<noteq> 0"
    then show "(m_entry_infos t)[i := word_of_int (m_free_head_index t)] ! j \<noteq> 0"
        "(m_entry_infos t)[i := word_of_int (m_free_head_index t)] ! j \<le> MaxLinearId"
      using D(13,14) [OF j] D(2) len by (cases "i = j"; auto)+
  qed (use D(1-3,5,15-19) D(7-10) i(2) in \<open>auto simp: rs'\<close>)
qed

section \<open>Initialization\<close>

lemma fold_initialize:
  assumes "length (m_entry_infos t) = MaxTableSize" "length (m_objects t) = MaxTableSize" "n \<le> MaxTableSize"
    "m_free_head_index t = - 1"
  defines "u \<equiv> fold initialize_entry [0..<n] t"
  shows "free_chain (m_entry_infos u) (m_free_head_index u) (rev [0..<n])"
    "m_free_head_index u = int n - 1"
    "\<forall>i < n. m_objects u ! i = 0" "length (m_entry_infos u) = MaxTableSize" "length (m_objects u) = MaxTableSize"
    "m_table_size u = m_table_size t" "m_max_count u = m_max_count t" "m_count u = m_count t"
    "m_next_linear_id u = m_next_linear_id t"
  unfolding u_def using assms(3)
proof (induction n)
  case 0
  case 1 show ?case using assms by simp
  case 2 show ?case using assms by simp
  case 3 show ?case by simp
  case 4 show ?case using assms by simp
  case 5 show ?case using assms by simp
  case 6 show ?case by simp
  case 7 show ?case by simp
  case 8 show ?case by simp
  case 9 show ?case by simp
next
  case (Suc n)
  have le: "n \<le> MaxTableSize" if "Suc n \<le> MaxTableSize" using that by simp
  let ?u = "fold initialize_entry [0..<n] t"
  case 1
  then have "n < MaxTableSize" by simp
  then have "sint (word_of_int (int n - 1) :: u16) = int n - 1"
    by (intro sint_u16_index) (auto simp: MaxTableSize_def)
  then show ?case using Suc.IH(1,2,4) 1 by (simp add: initialize_entry_def GetNextFreeIndex_def)
  case 2 show ?case by (simp add: initialize_entry_def)
  case 3 then show ?case using Suc.IH(3,5) by (auto simp: initialize_entry_def less_Suc_eq nth_list_update)
  case 4 then show ?case using Suc.IH(4) by (simp add: initialize_entry_def)
  case 5 then show ?case using Suc.IH(5) by (simp add: initialize_entry_def)
  case 6 then show ?case using Suc.IH(6) by (simp add: initialize_entry_def)
  case 7 then show ?case using Suc.IH(7) by (simp add: initialize_entry_def)
  case 8 then show ?case using Suc.IH(8) by (simp add: initialize_entry_def)
  case 9 then show ?case using Suc.IH(9) by (simp add: initialize_entry_def)
qed

definition requested_size :: "int \<Rightarrow> nat" where
  "requested_size sz = (if sz \<le> 0 then MaxTableSize else nat sz)"

lemma Initialize_wf:
  assumes "length (m_entry_infos t) = MaxTableSize" "length (m_objects t) = MaxTableSize"
    "sz \<le> int MaxTableSize"
  obtains t' where "KHandleTable_Initialize sz t = (Inr (), t')"
    "table_wf t' (rev [0..<requested_size sz]) {}" "handles t' = Map.empty"
    "unat (m_table_size t') = requested_size sz" "m_next_linear_id t' = MinLinearId"
proof -
  let ?n = "requested_size sz"
  define w where "w = (if sz \<le> 0 then of_nat MaxTableSize else word_of_int sz :: u16)"
  define v where "v = t\<lparr>m_max_count := 0, m_table_size := w, m_next_linear_id := MinLinearId, m_count := 0,
    m_free_head_index := - 1\<rparr>"
  define u where "u = fold initialize_entry [0..<?n] v"
  have n: "unat w = ?n" "?n \<le> MaxTableSize"
  proof -
    show "?n \<le> MaxTableSize"
      using assms(3) by (auto simp: requested_size_def)
    have "unat (word_of_int sz :: u16) = nat sz" if "0 < sz"
      using that assms(3) unat_of_nat [where 'a = 16, of "nat sz"] by (simp add: MaxTableSize_def)
    then show "unat w = ?n"
      by (auto simp: w_def requested_size_def MaxTableSize_def)
  qed
  have v: "length (m_entry_infos v) = MaxTableSize" "length (m_objects v) = MaxTableSize"
      "m_free_head_index v = - 1" "m_table_size v = w" "m_max_count v = 0" "m_count v = 0"
      "m_next_linear_id v = MinLinearId"
    using assms(1,2) by (simp_all add: v_def)
  note F = fold_initialize [OF v(1,2) n(2) v(3), folded u_def, unfolded v(4-7)]
  have "m_table_size v = w" by (rule v(4))
  then have init: "KHandleTable_Initialize sz t = (Inr (), u)"
    using assms(3) n(1) by (simp add: KHandleTable_Initialize_def Let_def w_def [symmetric] v_def [symmetric] u_def)
  have min: "MinLinearId \<noteq> 0" "MinLinearId \<le> MaxLinearId"
    by (simp_all add: MinLinearId_def MaxLinearId_eq)
  have "table_wf u (rev [0..<?n]) {}"
    by (rule table_wfI) (use F(1,4,5) F(3) min n in \<open>simp_all add: F(6-9)\<close>)
  moreover have "handles u = Map.empty"
    by (rule ext) (use F(3) n in \<open>simp add: handles_unfold word_less_nat_alt F(6)\<close>)
  ultimately show ?thesis
    using that [OF init] F(6,9) n(1) by simp
qed

section \<open>Each operation, on every branch\<close>

lemma Add_full: "table_wf t [] rs \<Longrightarrow> KHandleTable_Add obj t s = Some (Inl OutOfHandles, t, s)"
  using table_wf_count [of t "[]" rs] by (simp add: KHandleTable_Add_def)

lemma Reserve_full: "table_wf t [] rs \<Longrightarrow> KHandleTable_Reserve t = (Inl OutOfHandles, t)"
  using table_wf_count [of t "[]" rs] by (simp add: KHandleTable_Reserve_def)

definition holding :: "Handle \<Rightarrow> nat \<Rightarrow> KHandleTable \<Rightarrow> KHandleTable" where
  "holding h obj t = set_entry (unat (HandleIndex h)) (HandleLinearId h) obj t"

lemma Add_free:
  assumes "table_wf t (i # fs) rs"
  shows "KHandleTable_Add obj t s =
    map_option (\<lambda>s. (Inr (next_handle t), holding (next_handle t) obj (allocated t), s)) (KAutoObject_Open obj s)"
proof -
  have "m_free_head_index t = int i"
    using table_wfD(4) [OF assms] by simp
  moreover from this have "EncodeHandle (of_nat i) (m_next_linear_id t) = next_handle t"
    by (simp add: next_handle_def)
  ultimately show ?thesis
    using table_wf_count [OF assms] next_handle_fields [OF assms]
    by (cases "KAutoObject_Open obj s")
      (simp_all add: KHandleTable_Add_def AllocateLinearId_def AllocateEntry_def allocated_def Let_def
        holding_def set_entry_def)
qed

lemma Reserve_free:
  assumes "table_wf t (i # fs) rs"
  shows "KHandleTable_Reserve t = (Inr (next_handle t), allocated t)"
  using table_wf_count [OF assms]
  by (simp add: KHandleTable_Reserve_def AllocateLinearId_def AllocateEntry_def allocated_def Let_def
      next_handle_def)

lemma Register_reserved:
  assumes "table_wf t fs rs" "h \<in> rs"
  shows "KHandleTable_Register h obj t s = map_option (\<lambda>s. (holding h obj t, s)) (KAutoObject_Open obj s)"
  using table_wfD(9) [OF assms]
  by (cases "KAutoObject_Open obj s") (simp_all add: KHandleTable_Register_def holding_def)

lemma Unreserve_reserved:
  assumes "table_wf t fs rs" "h \<in> rs"
  shows "KHandleTable_Unreserve h t = FreeEntry (unat (HandleIndex h)) t"
  using table_wfD(9) [OF assms] by (simp add: KHandleTable_Unreserve_def)

lemma Unreserve_wf:
  assumes wf: "table_wf t fs rs" and h: "h \<in> rs"
  shows "table_wf (FreeEntry (unat (HandleIndex h)) t) (unat (HandleIndex h) # fs) (rs - {h})"
    "handles (FreeEntry (unat (HandleIndex h)) t) = handles t"
proof -
  note D = table_wfD [OF wf]
  have i: "unat (HandleIndex h) < unat (m_table_size t)"
    using D(9) [OF h] by (simp add: word_less_nat_alt)
  have "rs - {h} = rs - {g. unat (HandleIndex g) = unat (HandleIndex h)}"
    using D(11) [OF _ h] by auto
  then show "table_wf (FreeEntry (unat (HandleIndex h)) t) (unat (HandleIndex h) # fs) (rs - {h})"
    by (intro free_wf [OF wf i D(10) [OF h]])
  have o: "m_objects t ! unat (HandleIndex h) = 0"
    using D(12) [OF i] h by blast
  then have "handles t h = None"
    by (simp add: handles_unfold)
  then show "handles (FreeEntry (unat (HandleIndex h)) t) = handles t"
    using handles_FreeEntry [OF D(7) [OF h], of t] o i D(2,3) by (simp add: fun_upd_idem)
qed

lemma pseudo_reserved: "IsPseudoHandle h \<Longrightarrow> HandleReserved h \<noteq> 0"
  by (auto simp: IsPseudoHandle_def CurrentProcess_def CurrentThread_def HandleReserved_def
      BitPack_Get_def BitPack_Mask_fields mask_eq_exp_minus_1 push_bit_eq_mult drop_bit_eq_div)

lemma handles_SomeD:
  assumes "handles t h = Some obj"
  shows "IsValidHandle t h" "HandleReserved h = 0" "\<not> IsPseudoHandle h" "obj \<noteq> 0"
    "m_objects t ! unat (HandleIndex h) = obj" "m_entry_infos t ! unat (HandleIndex h) = HandleLinearId h"
    "unat (HandleIndex h) < unat (m_table_size t)" "HandleLinearId h \<noteq> 0"
  using assms pseudo_reserved [of h]
  by (auto simp: handles_def GetObjectImpl_def IsValidHandle_def word_less_nat_alt split: if_splits)

lemma handles_NoneD: "handles t h = None \<Longrightarrow> HandleReserved h \<noteq> 0 \<or> \<not> IsValidHandle t h"
  by (auto simp: handles_def GetObjectImpl_def IsValidHandle_def split: if_splits)

lemma Remove_unknown: "handles t h = None \<Longrightarrow> KHandleTable_Remove h t s = Some (False, t, s)"
  using handles_NoneD [of t h] by (auto simp: KHandleTable_Remove_def)

lemma Remove_known:
  "handles t h = Some obj \<Longrightarrow> KHandleTable_Remove h t s =
     map_option (\<lambda>s. (True, FreeEntry (unat (HandleIndex h)) t, s)) (KAutoObject_Close obj s)"
  using handles_SomeD [of t h obj]
  by (cases "KAutoObject_Close obj s") (simp_all add: KHandleTable_Remove_def)

lemma Remove_wf:
  assumes wf: "table_wf t fs rs" and h: "handles t h = Some obj"
  shows "table_wf (FreeEntry (unat (HandleIndex h)) t) (unat (HandleIndex h) # fs) rs"
    "handles (FreeEntry (unat (HandleIndex h)) t) = (handles t)(h := None)"
proof -
  note D = table_wfD [OF wf]
  note S = handles_SomeD [OF h]
  have o: "unat (HandleIndex h) \<notin> set fs" "\<And>g. g \<in> rs \<Longrightarrow> unat (HandleIndex g) \<noteq> unat (HandleIndex h)"
    using D(12) [OF S(7)] S(4,5) by auto
  then have "rs = rs - {g. unat (HandleIndex g) = unat (HandleIndex h)}"
    by blast
  then show "table_wf (FreeEntry (unat (HandleIndex h)) t) (unat (HandleIndex h) # fs) rs"
    by (rule free_wf [OF wf S(7) o(1)])
  show "handles (FreeEntry (unat (HandleIndex h)) t) = (handles t)(h := None)"
    using S D(2,3) by (intro handles_FreeEntry) auto
qed

section \<open>How many handles there are\<close>

definition live_indices :: "KHandleTable \<Rightarrow> nat set" where
  "live_indices t = {i. i < unat (m_table_size t) \<and> m_objects t ! i \<noteq> 0}"

lemma dom_handles:
  assumes wf: "table_wf t fs rs"
  shows "bij_betw (\<lambda>h. unat (HandleIndex h)) (dom (handles t)) (live_indices t)"
proof (rule bij_betwI')
  note D = table_wfD [OF wf]
  fix g h assume "g \<in> dom (handles t)" "h \<in> dom (handles t)"
  then obtain o1 o2 where gh: "handles t g = Some o1" "handles t h = Some o2"
    by blast
  show "unat (HandleIndex g) = unat (HandleIndex h) \<longleftrightarrow> g = h"
    using handles_SomeD(2,6) [OF gh(1)] handles_SomeD(2,6) [OF gh(2)] handle_eqI [of g h]
    by (auto simp: word_unat_eq_iff [of "HandleIndex g"])
next
  fix h assume "h \<in> dom (handles t)"
  then show "unat (HandleIndex h) \<in> live_indices t"
    using handles_SomeD [of t h] by (auto simp: live_indices_def)
next
  note D = table_wfD [OF wf]
  fix i assume "i \<in> live_indices t"
  then have i: "i < unat (m_table_size t)" "m_objects t ! i \<noteq> 0"
    by (auto simp: live_indices_def)
  then have "i < 1024" using D(3) by (simp add: MaxTableSize_def)
  then have u: "unat (of_nat i :: u16) = i" by (simp add: unat_of_nat)
  let ?h = "EncodeHandle (of_nat i) (m_entry_infos t ! i)"
  have "HandleIndex ?h = of_nat i"
    using u \<open>i < 1024\<close> by (intro HandleIndex_Encode) (simp add: word_less_nat_alt)
  moreover have "HandleLinearId ?h = m_entry_infos t ! i"
    using D(14) [OF i] by (intro HandleLinearId_Encode) (simp add: MaxLinearId_eq word_le_nat_alt word_less_nat_alt)
  ultimately have "handles t ?h \<noteq> None"
    using i u D(13) [OF i] by (simp add: handles_unfold HandleReserved_Encode word_less_nat_alt)
  then show "\<exists>h \<in> dom (handles t). i = unat (HandleIndex h)"
    using \<open>HandleIndex ?h = of_nat i\<close> u by (intro bexI [of _ ?h]) auto
qed

lemma handles_count:
  assumes wf: "table_wf t fs rs"
  shows "finite (dom (handles t))" "finite rs" "card (dom (handles t)) + card rs = unat (m_count t)"
proof -
  note D = table_wfD [OF wf]
  let ?ix = "\<lambda>h. unat (HandleIndex h)"
  have fin: "finite (live_indices t)"
    by (simp add: live_indices_def)
  then show "finite (dom (handles t))"
    using bij_betw_finite [OF dom_handles [OF wf]] by simp
  have inj: "inj_on ?ix rs"
    using D(11) by (auto intro: inj_onI)
  have sub: "?ix ` rs \<subseteq> {..<unat (m_table_size t)}"
    using D(9) by (auto simp: word_less_nat_alt)
  then have fin': "finite (?ix ` rs)"
    by (rule finite_subset) simp
  then show "finite rs"
    using inj by (rule finite_imageD)
  have all: "{..<unat (m_table_size t)} = live_indices t \<union> ?ix ` rs \<union> set fs"
    using sub D(6) D(12) by (auto simp: live_indices_def)
  have dis: "live_indices t \<inter> ?ix ` rs = {}" "(live_indices t \<union> ?ix ` rs) \<inter> set fs = {}"
    using D(12) D(10) by (auto simp: live_indices_def)
  have "unat (m_table_size t) = card (live_indices t) + card (?ix ` rs) + card (set fs)"
    using arg_cong [OF all, of card] dis fin fin' by (simp add: card_Un_disjoint)
  then show "card (dom (handles t)) + card rs = unat (m_count t)"
    using D(5,17) bij_betw_same_card [OF dom_handles [OF wf]] card_image [OF inj] by (simp add: distinct_card)
qed

section \<open>Reference counts\<close>

definition table_refs :: "KHandleTable \<Rightarrow> nat \<Rightarrow> nat" where
  "table_refs t x = count_list (take (unat (m_table_size t)) (m_objects t)) x"

lemma count_list_update:
  "i < length xs \<Longrightarrow>
   count_list (xs[i := v]) x + (if xs ! i = x then 1 else 0) = count_list xs x + (if v = x then 1 else 0)"
proof (induction xs arbitrary: i)
  case (Cons a xs)
  show ?case
  proof (cases i)
    case (Suc j)
    then show ?thesis
      using Cons.IH [of j] Cons.prems by (simp split: if_splits)
  qed simp
qed simp

lemma table_refs_allocated [simp]: "table_refs (allocated t) x = table_refs t x"
  by (simp add: table_refs_def allocated_sel)

lemma table_refs_holding:
  assumes wf: "table_wf t fs rs" and h: "h \<in> rs" and "x \<noteq> 0"
  shows "table_refs (holding h obj t) x = table_refs t x + (if obj = x then 1 else 0)"
proof -
  note D = table_wfD [OF wf]
  have i: "unat (HandleIndex h) < unat (m_table_size t)"
    using D(9) [OF h] by (simp add: word_less_nat_alt)
  have "m_objects t ! unat (HandleIndex h) = 0"
    using D(12) [OF i] h by blast
  then show ?thesis
    using count_list_update [of "unat (HandleIndex h)" "take (unat (m_table_size t)) (m_objects t)" obj x]
      i D(2,3) assms(3)
    by (simp add: table_refs_def holding_def set_entry_def take_update_swap)
qed

lemma table_refs_free:
  assumes "table_wf t fs rs" "i < unat (m_table_size t)" "x \<noteq> 0"
  shows "table_refs (FreeEntry i t) x + (if m_objects t ! i = x then 1 else 0) = table_refs t x"
  using count_list_update [of i "take (unat (m_table_size t)) (m_objects t)" 0 x]
    assms(2,3) table_wfD(2,3) [OF assms(1)]
  by (simp add: table_refs_def FreeEntry_def take_update_swap)

lemma table_refs_known:
  assumes "table_wf t fs rs" "handles t h = Some obj"
  shows "0 < table_refs t obj"
proof -
  have "obj \<in> set (take (unat (m_table_size t)) (m_objects t))"
    using handles_SomeD(5,7) [OF assms(2)] table_wfD(2,3) [OF assms(1)]
    by (auto simp: in_set_conv_nth intro!: exI [of _ "unat (HandleIndex h)"])
  then show ?thesis
    by (simp add: table_refs_def) (metis count_list_0_iff neq0_conv)
qed

lemma Open_SomeD:
  assumes "KAutoObject_Open obj s = Some s'" "m_ref_count s obj \<noteq> 0"
  shows "unat (m_ref_count s' x) = unat (m_ref_count s x) + (if obj = x then 1 else 0)"
    "m_class_token s' = m_class_token s" "scheduled s' = scheduled s"
proof -
  have lt: "m_ref_count s obj < m_ref_count s obj + 1"
    and s': "s' = s\<lparr>m_ref_count := (m_ref_count s)(obj := m_ref_count s obj + 1)\<rparr>"
    using assms by (auto simp: KAutoObject_Open_def ReferenceCount_Open_def split: if_splits)
  have "unat (m_ref_count s obj + 1) = unat (m_ref_count s obj) + 1"
    using lt unat_bound [of "m_ref_count s obj"]
    by (cases "unat (m_ref_count s obj) + 1 = 2 ^ 32") (simp_all add: word_less_nat_alt unat_word_ariths)
  then show "unat (m_ref_count s' x) = unat (m_ref_count s x) + (if obj = x then 1 else 0)"
    by (auto simp: s')
  show "m_class_token s' = m_class_token s" "scheduled s' = scheduled s"
    by (simp_all add: s')
qed

lemma Open_Some:
  assumes "unat (m_ref_count s obj) + 1 < 2 ^ 32"
  shows "\<exists>s'. KAutoObject_Open obj s = Some s'"
proof -
  have "m_ref_count s obj < m_ref_count s obj + 1"
    using assms by (simp add: word_less_nat_alt unat_word_ariths)
  then show ?thesis
    by (auto simp: KAutoObject_Open_def ReferenceCount_Open_def)
qed

lemma Close_Some:
  assumes "m_ref_count s obj \<noteq> 0"
  shows "\<exists>s'. KAutoObject_Close obj s = Some s' \<and>
    (\<forall>x. unat (m_ref_count s' x) + (if obj = x then 1 else 0) = unat (m_ref_count s x)) \<and>
    m_class_token s' = m_class_token s \<and>
    scheduled s' = scheduled s @ (if m_ref_count s' obj = 0 then [obj] else [])"
proof -
  have "unat (m_ref_count s obj - 1) + 1 = unat (m_ref_count s obj)"
    using assms unat_gt_0 [of "m_ref_count s obj"] by (simp add: unat_minus_one)
  moreover have "0 < m_ref_count s obj"
    using assms by (simp add: word_gt_0)
  ultimately show ?thesis
    by (auto simp: KAutoObject_Close_def ReferenceCount_Close_def Let_def)
qed

lemma close_all_spec:
  assumes "\<And>x. x \<noteq> 0 \<Longrightarrow> count_list xs x \<le> unat (m_ref_count s x)"
  shows "\<exists>s' new. close_all xs s = Some s' \<and>
    (\<forall>x. x \<noteq> 0 \<longrightarrow> unat (m_ref_count s' x) + count_list xs x = unat (m_ref_count s x)) \<and>
    m_ref_count s' 0 = m_ref_count s 0 \<and> m_class_token s' = m_class_token s \<and>
    scheduled s' = scheduled s @ new \<and> distinct new \<and>
    set new = {x \<in> set xs. x \<noteq> 0 \<and> m_ref_count s' x = 0}"
  using assms
proof (induction xs arbitrary: s)
  case (Cons y ys)
  show ?case
  proof (cases "y = 0")
    case True
    then have "\<And>x. x \<noteq> 0 \<Longrightarrow> count_list ys x \<le> unat (m_ref_count s x)"
      using Cons.prems by force
    from Cons.IH [OF this] show ?thesis
      using True by (auto simp: conj_disj_distribR)
  next
    case False
    have "m_ref_count s y \<noteq> 0"
      using Cons.prems [OF False] by auto
    from Close_Some [OF this] obtain s1 where s1: "KAutoObject_Close y s = Some s1"
      "\<And>x. unat (m_ref_count s1 x) + (if y = x then 1 else 0) = unat (m_ref_count s x)"
      "m_class_token s1 = m_class_token s"
      "scheduled s1 = scheduled s @ (if m_ref_count s1 y = 0 then [y] else [])"
      by blast
    have "count_list ys x \<le> unat (m_ref_count s1 x)" if "x \<noteq> 0" for x
      using Cons.prems [OF that] s1(2) [of x] by (auto split: if_splits)
    from Cons.IH [OF this] obtain s2 new where s2: "close_all ys s1 = Some s2"
      "\<And>x. x \<noteq> 0 \<Longrightarrow> unat (m_ref_count s2 x) + count_list ys x = unat (m_ref_count s1 x)"
      "m_ref_count s2 0 = m_ref_count s1 0" "m_class_token s2 = m_class_token s1"
      "scheduled s2 = scheduled s1 @ new" "distinct new"
      "set new = {x \<in> set ys. x \<noteq> 0 \<and> m_ref_count s2 x = 0}"
      by blast
    let ?new = "(if m_ref_count s1 y = 0 then [y] else []) @ new"
    have y: "y \<notin> set ys \<and> m_ref_count s2 y = 0" if "m_ref_count s1 y = 0"
    proof -
      have "unat (m_ref_count s2 y) + count_list ys y = 0"
        using s2(2) [OF False] that by simp
      then show ?thesis
        by (simp add: count_list_0_iff unat_eq_0)
    qed
    have z: "y \<in> set ys" if "m_ref_count s1 y \<noteq> 0" "m_ref_count s2 y = 0"
    proof (rule ccontr)
      assume "y \<notin> set ys"
      then have "unat (m_ref_count s2 y) = unat (m_ref_count s1 y)"
        using s2(2) [OF False] by (simp add: count_list_0_iff)
      then show False
        using that by (simp add: unat_eq_0)
    qed
    have "distinct ?new"
      using y s2(6,7) by auto
    moreover have "set ?new = {x \<in> set (y # ys). x \<noteq> 0 \<and> m_ref_count s2 x = 0}"
      using y z s2(7) False by (cases "m_ref_count s1 y = 0") auto
    moreover have "unat (m_ref_count s2 x) + count_list (y # ys) x = unat (m_ref_count s x)" if "x \<noteq> 0" for x
      using s2(2) [OF that] s1(2) [of x] by (simp split: if_splits)
    moreover have "m_ref_count s2 0 = m_ref_count s 0"
      using s2(3) s1(2) [of 0] False by (simp add: word_unat_eq_iff)
    ultimately show ?thesis
      using False s1(1,3,4) s2(1,4,5) by (intro exI [of _ s2] exI [of _ ?new]) simp
  qed
qed simp

section \<open>Opening several handles at once\<close>

definition of_class :: "u16 \<Rightarrow> KHandleTable \<Rightarrow> KAutoObjects \<Rightarrow> Handle \<Rightarrow> bool" where
  "of_class token t s h \<longleftrightarrow> GetObjectImpl t h \<noteq> 0 \<and> DynamicCast token s (GetObjectImpl t h) \<noteq> 0"

lemma of_class_cong: "m_class_token s' = m_class_token s \<Longrightarrow> of_class token t s' = of_class token t s"
  by (rule ext) (simp add: of_class_def DynamicCast_def)

lemma open_handles_spec:
  assumes "open_handles token t hs s = Some (out, s')"
    "\<And>h. GetObjectImpl t h \<noteq> 0 \<Longrightarrow> m_ref_count s (GetObjectImpl t h) \<noteq> 0"
  shows "out = map (GetObjectImpl t) (takeWhile (of_class token t s) hs) \<and>
    (\<forall>x. unat (m_ref_count s' x) = unat (m_ref_count s x) + count_list out x) \<and>
    m_class_token s' = m_class_token s \<and> scheduled s' = scheduled s"
  using assms
proof (induction hs arbitrary: s out)
  case (Cons h hs)
  let ?x = "GetObjectImpl t h"
  show ?case
  proof (cases "of_class token t s h")
    case False
    then show ?thesis
      using Cons.prems(1) by (auto simp: of_class_def Let_def)
  next
    case True
    then obtain s1 out1 where s1: "KAutoObject_Open ?x s = Some s1"
      "open_handles token t hs s1 = Some (out1, s')" "out = ?x # out1"
      using Cons.prems(1) by (auto simp: of_class_def Let_def bind_eq_Some_conv)
    have pos: "m_ref_count s ?x \<noteq> 0"
      using True Cons.prems(2) by (simp add: of_class_def)
    note O = Open_SomeD [OF s1(1) pos]
    have "m_ref_count s1 (GetObjectImpl t g) \<noteq> 0" if "GetObjectImpl t g \<noteq> 0" for g
    proof -
      have "0 < unat (m_ref_count s (GetObjectImpl t g))"
        using Cons.prems(2) [OF that] unat_gt_0 by blast
      then have "0 < unat (m_ref_count s1 (GetObjectImpl t g))"
        using O(1) by simp
      then show ?thesis
        by (simp add: unat_gt_0)
    qed
    from Cons.IH [OF s1(2) this] show ?thesis
      using True O of_class_cong [OF O(2)] s1(3) by auto
  qed
qed simp

lemma open_handles_returns:
  assumes "\<And>x. unat (m_ref_count s x) + length hs < 2 ^ 32"
    "\<And>h. GetObjectImpl t h \<noteq> 0 \<Longrightarrow> m_ref_count s (GetObjectImpl t h) \<noteq> 0"
  shows "\<exists>out s'. open_handles token t hs s = Some (out, s')"
  using assms
proof (induction hs arbitrary: s)
  case (Cons h hs)
  let ?x = "GetObjectImpl t h"
  show ?case
  proof (cases "of_class token t s h")
    case True
    have "unat (m_ref_count s ?x) + 1 < 2 ^ 32"
      using Cons.prems(1) [of ?x] by simp
    from Open_Some [OF this] obtain s1 where s1: "KAutoObject_Open ?x s = Some s1"
      by blast
    have pos: "m_ref_count s ?x \<noteq> 0"
      using True Cons.prems(2) by (simp add: of_class_def)
    note O = Open_SomeD(1) [OF s1 pos]
    have "unat (m_ref_count s1 x) + length hs < 2 ^ 32" for x
      using Cons.prems(1) [of x] O [of x] by (simp split: if_splits)
    moreover have "m_ref_count s1 (GetObjectImpl t g) \<noteq> 0" if "GetObjectImpl t g \<noteq> 0" for g
    proof -
      have "0 < unat (m_ref_count s (GetObjectImpl t g))"
        using Cons.prems(2) [OF that] unat_gt_0 by blast
      then have "0 < unat (m_ref_count s1 (GetObjectImpl t g))"
        using O by simp
      then show ?thesis
        by (simp add: unat_gt_0)
    qed
    ultimately obtain out s2 where "open_handles token t hs s1 = Some (out, s2)"
      using Cons.IH by blast
    then show ?thesis
      using True s1 by (auto simp: of_class_def Let_def)
  qed (auto simp: of_class_def Let_def)
qed simp

lemma takeWhile_length: "length (takeWhile P xs) = length xs \<longleftrightarrow> (\<forall>x \<in> set xs. P x)"
  by (metis takeWhile_eq_all_conv takeWhile_eq_take take_all_iff length_takeWhile_le le_refl)

lemma GetMultipleObjects_spec:
  assumes alive: "\<And>h. GetObjectImpl t h \<noteq> 0 \<Longrightarrow> m_ref_count s (GetObjectImpl t h) \<noteq> 0"
    and op: "open_handles token t hs s = Some (out, s1)"
  shows "\<exists>s'. GetMultipleObjects token t hs s = Some (\<forall>h \<in> set hs. of_class token t s h, out, s') \<and>
    m_class_token s' = m_class_token s \<and> scheduled s' = scheduled s \<and>
    ((\<forall>h \<in> set hs. of_class token t s h) \<longrightarrow> out = map (GetObjectImpl t) hs \<and>
       (\<forall>x. unat (m_ref_count s' x) = unat (m_ref_count s x) + count_list out x)) \<and>
    (\<not> (\<forall>h \<in> set hs. of_class token t s h) \<longrightarrow> s' = s)"
proof -
  have O: "out = map (GetObjectImpl t) (takeWhile (of_class token t s) hs) \<and>
      (\<forall>x. unat (m_ref_count s1 x) = unat (m_ref_count s x) + count_list out x) \<and>
      m_class_token s1 = m_class_token s \<and> scheduled s1 = scheduled s"
    by (rule open_handles_spec [OF op]) (rule alive)
  have len: "length out = length hs \<longleftrightarrow> (\<forall>h \<in> set hs. of_class token t s h)"
    using O takeWhile_length [of "of_class token t s" hs] by simp
  show ?thesis
  proof (cases "\<forall>h \<in> set hs. of_class token t s h")
    case True
    then have "takeWhile (of_class token t s) hs = hs"
      by (simp add: takeWhile_eq_all_conv)
    then have "out = map (GetObjectImpl t) hs"
      using O by argo
    then show ?thesis
      using True len op O by (simp add: GetMultipleObjects_def)
  next
    case False
    have "count_list out x \<le> unat (m_ref_count s1 x)" for x
      using O by simp
    from close_all_spec [OF this] obtain s' new where s': "close_all out s1 = Some s'"
      "\<And>x. x \<noteq> 0 \<Longrightarrow> unat (m_ref_count s' x) + count_list out x = unat (m_ref_count s1 x)"
      "m_ref_count s' 0 = m_ref_count s1 0" "m_class_token s' = m_class_token s1"
      "scheduled s' = scheduled s1 @ new" "set new = {x \<in> set out. x \<noteq> 0 \<and> m_ref_count s' x = 0}"
      by blast
    have "0 \<notin> set out"
      using O by (auto simp: of_class_def dest: set_takeWhileD)
    then have "m_ref_count s' x = m_ref_count s x" for x
      using s'(2,3) O by (cases "x = 0") (simp_all add: word_unat_eq_iff count_list_0_iff)
    then have eq: "m_ref_count s' = m_ref_count s" by blast
    moreover have "m_ref_count s x \<noteq> 0" if "x \<in> set out" for x
      using that O alive by (auto simp: of_class_def dest!: set_takeWhileD)
    ultimately have "new = []"
      using s'(6) by (cases new) auto
    then have "s' = s"
      using eq s'(4,5) O by (simp add: KAutoObjects.equality)
    moreover have "length out \<noteq> length hs"
      using False len by blast
    ultimately show ?thesis
      using False op s'(1) by (auto simp: GetMultipleObjects_def)
  qed
qed

end
