(* ===== verification/Kern_HandleTable_Spec.thy ===== *)
theory Kern_HandleTable_Spec
  imports Kern_HandleTable_Inv
begin

text \<open>
  The contract of \<^verbatim>\<open>KHandleTable\<close>: a bounded map from handles to reference-counted objects. The
  operations, run in any order, simulate it; the handles they issue are tickets with wrapping
  serial numbers, so a stale handle stays stale.
\<close>

section \<open>Serial numbers that wrap\<close>

text \<open>
  A system hands out tickets numbered cyclically from \<open>0\<close> to \<open>period - 1\<close>. A ticket that is not
  known any more cannot become known again before its number comes up again.
\<close>

locale ticket_issuer =
  fixes step :: "'s \<Rightarrow> 'e \<Rightarrow> 's \<Rightarrow> bool"
    and good :: "'s \<Rightarrow> bool"
    and tickets :: "'e \<Rightarrow> 't list"
    and known :: "'s \<Rightarrow> 't set"
    and number :: "'t \<Rightarrow> nat"
    and upcoming :: "'s \<Rightarrow> nat"
    and period :: nat
  assumes good_step: "good s \<Longrightarrow> step s e s' \<Longrightarrow> good s'"
    and known_step: "good s \<Longrightarrow> step s e s' \<Longrightarrow> known s' \<subseteq> known s \<union> set (tickets e)"
    and numbered: "good s \<Longrightarrow> step s e s' \<Longrightarrow>
      tickets e = [] \<and> upcoming s' = upcoming s \<or>
      (\<exists>t. tickets e = [t] \<and> number t = upcoming s \<and> upcoming s' = Suc (upcoming s) mod period)"
    and upcoming_less: "good s \<Longrightarrow> upcoming s < period"
begin

lemma run_good: "runs step s es s' \<Longrightarrow> good s \<Longrightarrow> good s'"
  by (induction rule: runs.induct) (auto intro: good_step)

lemma run_known: "runs step s es s' \<Longrightarrow> good s \<Longrightarrow> known s' \<subseteq> known s \<union> (\<Union>e \<in> set es. set (tickets e))"
proof (induction rule: runs.induct)
  case (runs_cons s e s' es s'')
  then show ?case
    using known_step [OF runs_cons.prems runs_cons.hyps(1)] good_step by fastforce
qed simp

lemma run_numbers:
  "runs step s es s' \<Longrightarrow> good s \<Longrightarrow>
   map number (concat (map tickets es)) =
     map (\<lambda>k. (upcoming s + k) mod period) [0..<length (concat (map tickets es))] \<and>
   upcoming s' = (upcoming s + length (concat (map tickets es))) mod period"
proof (induction rule: runs.induct)
  case (runs_nil s)
  then show ?case
    using upcoming_less by simp
next
  case (runs_cons s e s' es s'')
  note IH = runs_cons.IH [OF good_step [OF runs_cons.prems runs_cons.hyps(1)]]
  from numbered [OF runs_cons.prems runs_cons.hyps(1)] show ?case
  proof
    assume "tickets e = [] \<and> upcoming s' = upcoming s"
    then show ?thesis
      using IH by simp
  next
    assume "\<exists>t. tickets e = [t] \<and> number t = upcoming s \<and> upcoming s' = Suc (upcoming s) mod period"
    then obtain t where t: "tickets e = [t]" "number t = upcoming s" "upcoming s' = Suc (upcoming s) mod period"
      by blast
    let ?n = "length (concat (map tickets es))"
    have "map (\<lambda>k. (upcoming s + k) mod period) [0..<Suc ?n] =
        upcoming s # map (\<lambda>k. (upcoming s' + k) mod period) [0..<?n]"
      using upcoming_less [OF runs_cons.prems] t(3)
      by (simp add: upt_conv_Cons map_Suc_upt [symmetric] mod_add_left_eq del: upt_Suc)
    then show ?thesis
      using IH t by (simp add: mod_add_left_eq del: upt_Suc)
  qed
qed

lemma mod_window_distinct:
  assumes "n \<le> period"
  shows "distinct (map (\<lambda>k. (a + k) mod period) [0..<n])"
proof -
  have "i = j" if "i < n" "j < n" "(a + i) mod period = (a + j) mod period" for i j
  proof -
    have "int period dvd int i - int j"
      using that(3) by (metis add_diff_cancel_left mod_eq_dvd_iff of_nat_add zmod_int)
    moreover have "\<bar>int i - int j\<bar> < int period"
      using that(1,2) assms by simp
    ultimately show ?thesis
      using zdvd_imp_le [of "int period" "\<bar>int i - int j\<bar>"] by (cases "i = j") auto
  qed
  then show ?thesis
    by (auto simp: distinct_map inj_on_def)
qed

lemma window_distinct:
  assumes "runs step s es s'" "good s" "length (concat (map tickets es)) \<le> period"
  shows "distinct (concat (map tickets es))"
  using run_numbers [OF assms(1,2)] mod_window_distinct [OF assms(3), of "upcoming s"]
  by (metis distinct_map)

lemma stale_ticket:
  assumes good: "good s" and issue: "step s e s1" "tickets e = [t]"
    and life: "runs step s1 es s2" "t \<notin> known s2" and later: "runs step s2 fs s3"
    and window: "length (concat (map tickets (es @ fs))) < period"
  shows "t \<notin> known s3"
proof
  assume "t \<in> known s3"
  have good1: "good s1" by (rule good_step [OF good issue(1)])
  have good2: "good s2" by (rule run_good [OF life(1) good1])
  have all: "runs step s (e # es @ fs) s3"
  proof -
    have "runs step s1 (es @ fs) s3"
      using life(1) later by (rule runs_append)
    then show ?thesis
      by (rule runs_cons [where step = step, OF issue(1)])
  qed
  have "t \<in> (\<Union>e \<in> set fs. set (tickets e))"
    using run_known [OF later good2] life(2) \<open>t \<in> known s3\<close> by blast
  then have "t \<in> set (concat (map tickets (es @ fs)))"
    by auto
  moreover have "distinct (concat (map tickets (e # es @ fs)))"
    using window issue(2) by (intro window_distinct [OF all good]) simp
  ultimately show False
    using issue(2) by auto
qed

end

section \<open>The table at work\<close>

text \<open>
  The state of a process's table with two ghost components: the handles reserved and not yet
  registered, and for each object the references held outside of the table.
\<close>

record ht_state =
  tab :: KHandleTable
  kobjs :: KAutoObjects
  rsv :: "Handle set"
  ext_refs :: "nat \<Rightarrow> nat"

datatype ht_event =
    Added Handle nat
  | AddRefused nat
  | Reserved Handle
  | ReserveRefused
  | Registered Handle nat
  | Unreserved Handle
  | Removed Handle bool
  | Looked Handle nat
  | LookedAll "Handle list" bool "nat list"
  | Created nat
  | Closed nat

fun issued :: "ht_event \<Rightarrow> Handle list" where
  "issued (Added h _) = [h]"
| "issued (Reserved h) = [h]"
| "issued _ = []"

text \<open>
  The caller of \<^verbatim>\<open>Add\<close> and \<^verbatim>\<open>Register\<close> holds a reference to the object; \<^verbatim>\<open>Register\<close> and
  \<^verbatim>\<open>Unreserve\<close> are for handles that \<^verbatim>\<open>Reserve\<close> returned. The handles given to \<^verbatim>\<open>Remove\<close> and to the
  lookups come from the process and are arbitrary.
\<close>

inductive ht_step :: "ht_state \<Rightarrow> ht_event \<Rightarrow> ht_state \<Rightarrow> bool" where
  add: "obj \<noteq> 0 \<Longrightarrow> 0 < ext_refs s obj \<Longrightarrow>
    KHandleTable_Add obj (tab s) (kobjs s) = Some (Inr h, t', o') \<Longrightarrow>
    ht_step s (Added h obj) (s\<lparr>tab := t', kobjs := o'\<rparr>)"
| add_refused: "obj \<noteq> 0 \<Longrightarrow> 0 < ext_refs s obj \<Longrightarrow>
    KHandleTable_Add obj (tab s) (kobjs s) = Some (Inl e, t', o') \<Longrightarrow>
    ht_step s (AddRefused obj) (s\<lparr>tab := t', kobjs := o'\<rparr>)"
| reserve: "KHandleTable_Reserve (tab s) = (Inr h, t') \<Longrightarrow>
    ht_step s (Reserved h) (s\<lparr>tab := t', rsv := insert h (rsv s)\<rparr>)"
| reserve_refused: "KHandleTable_Reserve (tab s) = (Inl e, t') \<Longrightarrow>
    ht_step s ReserveRefused (s\<lparr>tab := t'\<rparr>)"
| register: "obj \<noteq> 0 \<Longrightarrow> 0 < ext_refs s obj \<Longrightarrow> h \<in> rsv s \<Longrightarrow>
    KHandleTable_Register h obj (tab s) (kobjs s) = Some (t', o') \<Longrightarrow>
    ht_step s (Registered h obj) (s\<lparr>tab := t', kobjs := o', rsv := rsv s - {h}\<rparr>)"
| unreserve: "h \<in> rsv s \<Longrightarrow>
    ht_step s (Unreserved h) (s\<lparr>tab := KHandleTable_Unreserve h (tab s), rsv := rsv s - {h}\<rparr>)"
| remove: "KHandleTable_Remove h (tab s) (kobjs s) = Some (b, t', o') \<Longrightarrow>
    ht_step s (Removed h b) (s\<lparr>tab := t', kobjs := o'\<rparr>)"
| look: "GetObjectWithoutPseudoHandle token (tab s) h (kobjs s) = Some (obj, o') \<Longrightarrow>
    ht_step s (Looked h obj) (s\<lparr>kobjs := o',
      ext_refs := (if obj = 0 then ext_refs s else (ext_refs s)(obj := ext_refs s obj + 1))\<rparr>)"
| look_all: "GetMultipleObjects token (tab s) hs (kobjs s) = Some (b, out, o') \<Longrightarrow>
    ht_step s (LookedAll hs b (if b then out else [])) (s\<lparr>kobjs := o',
      ext_refs := (if b then (\<lambda>x. ext_refs s x + count_list out x) else ext_refs s)\<rparr>)"
| create: "obj \<noteq> 0 \<Longrightarrow> m_ref_count (kobjs s) obj = 0 \<Longrightarrow> obj \<notin> set (scheduled (kobjs s)) \<Longrightarrow>
    ht_step s (Created obj) (s\<lparr>kobjs := KAutoObject_Create obj token (kobjs s),
      ext_refs := (ext_refs s)(obj := 1)\<rparr>)"
| close: "obj \<noteq> 0 \<Longrightarrow> 0 < ext_refs s obj \<Longrightarrow> KAutoObject_Close obj (kobjs s) = Some o' \<Longrightarrow>
    ht_step s (Closed obj) (s\<lparr>kobjs := o', ext_refs := (ext_refs s)(obj := ext_refs s obj - 1)\<rparr>)"

definition ht_inv :: "ht_state \<Rightarrow> bool" where
  "ht_inv s \<longleftrightarrow>
     (\<exists>fs. table_wf (tab s) fs (rsv s)) \<and>
     (\<forall>x. x \<noteq> 0 \<longrightarrow> unat (m_ref_count (kobjs s) x) = ext_refs s x + table_refs (tab s) x) \<and>
     distinct (scheduled (kobjs s)) \<and>
     (\<forall>x \<in> set (scheduled (kobjs s)). x \<noteq> 0 \<and> m_ref_count (kobjs s) x = 0)"

section \<open>What it implements\<close>

record ht_spec =
  sp_map :: "Handle \<Rightarrow> nat option"
  sp_reserved :: "Handle set"
  sp_held :: "nat \<Rightarrow> nat"
  sp_dead :: "nat set"
  sp_capacity :: nat

definition sp_used :: "ht_spec \<Rightarrow> nat" where
  "sp_used a = card (dom (sp_map a)) + card (sp_reserved a)"

text \<open>An object dies when its last holder lets go: no reference outside and no handle.\<close>

definition bury :: "nat \<Rightarrow> ht_spec \<Rightarrow> ht_spec" where
  "bury x a = (if sp_held a x = 0 \<and> x \<notin> ran (sp_map a) then a\<lparr>sp_dead := insert x (sp_dead a)\<rparr> else a)"

inductive spec_step :: "ht_spec \<Rightarrow> ht_event \<Rightarrow> ht_spec \<Rightarrow> bool" where
  sp_add: "h \<notin> dom (sp_map a) \<Longrightarrow> h \<notin> sp_reserved a \<Longrightarrow> sp_used a < sp_capacity a \<Longrightarrow>
    spec_step a (Added h obj) (a\<lparr>sp_map := (sp_map a)(h \<mapsto> obj)\<rparr>)"
| sp_add_refused: "sp_used a = sp_capacity a \<Longrightarrow> spec_step a (AddRefused obj) a"
| sp_reserve: "h \<notin> dom (sp_map a) \<Longrightarrow> h \<notin> sp_reserved a \<Longrightarrow> sp_used a < sp_capacity a \<Longrightarrow>
    spec_step a (Reserved h) (a\<lparr>sp_reserved := insert h (sp_reserved a)\<rparr>)"
| sp_reserve_refused: "sp_used a = sp_capacity a \<Longrightarrow> spec_step a ReserveRefused a"
| sp_register: "h \<in> sp_reserved a \<Longrightarrow> spec_step a (Registered h obj)
    (a\<lparr>sp_map := (sp_map a)(h \<mapsto> obj), sp_reserved := sp_reserved a - {h}\<rparr>)"
| sp_unreserve: "h \<in> sp_reserved a \<Longrightarrow>
    spec_step a (Unreserved h) (a\<lparr>sp_reserved := sp_reserved a - {h}\<rparr>)"
| sp_remove: "sp_map a h = Some obj \<Longrightarrow>
    spec_step a (Removed h True) (bury obj (a\<lparr>sp_map := (sp_map a)(h := None)\<rparr>))"
| sp_remove_unknown: "sp_map a h = None \<Longrightarrow> spec_step a (Removed h False) a"
| sp_look: "sp_map a h = Some obj \<Longrightarrow>
    spec_step a (Looked h obj) (a\<lparr>sp_held := (sp_held a)(obj := sp_held a obj + 1)\<rparr>)"
| sp_look_null: "spec_step a (Looked h 0) a"
| sp_look_all: "map (sp_map a) hs = map Some objs \<Longrightarrow>
    spec_step a (LookedAll hs True objs) (a\<lparr>sp_held := (\<lambda>x. sp_held a x + count_list objs x)\<rparr>)"
| sp_look_all_fails: "spec_step a (LookedAll hs False []) a"
| sp_create: "sp_held a obj = 0 \<Longrightarrow> obj \<notin> ran (sp_map a) \<Longrightarrow> obj \<notin> sp_dead a \<Longrightarrow>
    spec_step a (Created obj) (a\<lparr>sp_held := (sp_held a)(obj := 1)\<rparr>)"
| sp_close: "0 < sp_held a obj \<Longrightarrow>
    spec_step a (Closed obj) (bury obj (a\<lparr>sp_held := (sp_held a)(obj := sp_held a obj - 1)\<rparr>))"

definition ht_abs :: "ht_state \<Rightarrow> ht_spec" where
  "ht_abs s = \<lparr>sp_map = handles (tab s), sp_reserved = rsv s, sp_held = ext_refs s,
     sp_dead = set (scheduled (kobjs s)), sp_capacity = unat (m_table_size (tab s))\<rparr>"

text \<open>The part of the invariant that concerns the counts.\<close>

definition refs_ok :: "KHandleTable \<Rightarrow> KAutoObjects \<Rightarrow> (nat \<Rightarrow> nat) \<Rightarrow> bool" where
  "refs_ok t s held \<longleftrightarrow>
     (\<forall>x. x \<noteq> 0 \<longrightarrow> unat (m_ref_count s x) = held x + table_refs t x) \<and>
     distinct (scheduled s) \<and> (\<forall>x \<in> set (scheduled s). x \<noteq> 0 \<and> m_ref_count s x = 0)"

lemma ht_inv_iff: "ht_inv s \<longleftrightarrow> (\<exists>fs. table_wf (tab s) fs (rsv s)) \<and> refs_ok (tab s) (kobjs s) (ext_refs s)"
  by (simp add: ht_inv_def refs_ok_def)

lemma ran_handles:
  assumes "table_wf t fs rs" "x \<noteq> 0"
  shows "x \<in> ran (handles t) \<longleftrightarrow> 0 < table_refs t x"
proof
  assume "x \<in> ran (handles t)"
  then show "0 < table_refs t x"
    using table_refs_known [OF assms(1)] by (auto simp: ran_def)
next
  assume "0 < table_refs t x"
  then have "x \<in> set (take (unat (m_table_size t)) (m_objects t))"
    by (metis count_list_0_iff neq0_conv table_refs_def)
  then obtain i where i: "i < unat (m_table_size t)" "m_objects t ! i = x"
    using table_wfD(2,3) [OF assms(1)] by (auto simp: in_set_conv_nth)
  then have "i \<in> live_indices t"
    using assms(2) by (simp add: live_indices_def)
  then obtain h where h: "h \<in> dom (handles t)" "unat (HandleIndex h) = i"
    using dom_handles [OF assms(1)] unfolding bij_betw_def by (metis (no_types, lifting) imageE)
  then obtain y where "handles t h = Some y" by blast
  then show "x \<in> ran (handles t)"
    using handles_SomeD(5) [of t h y] h(2) i(2) by (auto simp: ran_def)
qed

lemma refs_open:
  assumes ok: "refs_ok t s held" and op: "KAutoObject_Open obj s = Some s'"
    and obj: "obj \<noteq> 0" "0 < held obj + table_refs t obj"
    and more: "\<And>x. x \<noteq> 0 \<Longrightarrow> held' x + table_refs t' x = held x + table_refs t x + (if obj = x then 1 else 0)"
  shows "refs_ok t' s' held'" "scheduled s' = scheduled s"
proof -
  have "unat (m_ref_count s obj) \<noteq> 0"
    using ok obj by (simp add: refs_ok_def)
  then have pos: "m_ref_count s obj \<noteq> 0"
    by (simp add: unat_eq_0)
  note O = Open_SomeD [OF op pos]
  show "scheduled s' = scheduled s" by (rule O(3))
  have "obj \<notin> set (scheduled s)"
    using ok pos by (auto simp: refs_ok_def)
  then have "m_ref_count s' x = 0" if "x \<in> set (scheduled s)" for x
  proof -
    have "obj \<noteq> x" "m_ref_count s x = 0" using that \<open>obj \<notin> _\<close> ok by (auto simp: refs_ok_def)
    then have "unat (m_ref_count s' x) = 0" using O(1) [of x] by simp
    then show ?thesis by (simp add: unat_eq_0)
  qed
  then show "refs_ok t' s' held'"
    using ok O(1,3) more by (simp add: refs_ok_def)
qed

lemma refs_close:
  assumes ok: "refs_ok t s held" and obj: "obj \<noteq> 0" "0 < held obj + table_refs t obj"
    and less: "\<And>x. x \<noteq> 0 \<Longrightarrow> held' x + table_refs t' x + (if obj = x then 1 else 0) = held x + table_refs t x"
  obtains s' where "KAutoObject_Close obj s = Some s'" "refs_ok t' s' held'"
    "set (scheduled s') = set (scheduled s) \<union> (if held' obj + table_refs t' obj = 0 then {obj} else {})"
proof -
  have "unat (m_ref_count s obj) \<noteq> 0"
    using ok obj by (simp add: refs_ok_def)
  then have pos: "m_ref_count s obj \<noteq> 0"
    by (simp add: unat_eq_0)
  from Close_Some [OF this] obtain s' where s': "KAutoObject_Close obj s = Some s'"
    "\<And>x. unat (m_ref_count s' x) + (if obj = x then 1 else 0) = unat (m_ref_count s x)"
    "scheduled s' = scheduled s @ (if m_ref_count s' obj = 0 then [obj] else [])"
    by blast
  have new: "obj \<notin> set (scheduled s)"
    using ok pos by (auto simp: refs_ok_def)
  have cnt: "unat (m_ref_count s' x) = held' x + table_refs t' x" if "x \<noteq> 0" for x
    using s'(2) [of x] less [OF that] ok that by (simp add: refs_ok_def)
  then have zero: "m_ref_count s' obj = 0 \<longleftrightarrow> held' obj + table_refs t' obj = 0"
    using obj(1) by (metis unat_eq_0)
  have "m_ref_count s' x = 0" if "x \<in> set (scheduled s)" for x
  proof -
    have "obj \<noteq> x" "m_ref_count s x = 0" using that new ok by (auto simp: refs_ok_def)
    then have "unat (m_ref_count s' x) = 0" using s'(2) [of x] by simp
    then show ?thesis by (simp add: unat_eq_0)
  qed
  then have "refs_ok t' s' held'"
    using ok cnt new s'(3) obj(1) by (auto simp: refs_ok_def)
  then show ?thesis
    using that [OF s'(1)] s'(3) zero by simp
qed

section \<open>The simulation\<close>

lemma ht_abs_sel [simp]:
  "sp_map (ht_abs s) = handles (tab s)" "sp_reserved (ht_abs s) = rsv s" "sp_held (ht_abs s) = ext_refs s"
  "sp_dead (ht_abs s) = set (scheduled (kobjs s))" "sp_capacity (ht_abs s) = unat (m_table_size (tab s))"
  by (simp_all add: ht_abs_def)

lemma sp_used_abs: "table_wf (tab s) fs (rsv s) \<Longrightarrow> sp_used (ht_abs s) = unat (m_count (tab s))"
  by (simp add: sp_used_def handles_count(3))

lemma sp_room:
  "table_wf (tab s) fs (rsv s) \<Longrightarrow> sp_used (ht_abs s) < sp_capacity (ht_abs s) \<longleftrightarrow> fs \<noteq> []"
  "table_wf (tab s) [] (rsv s) \<Longrightarrow> sp_used (ht_abs s) = sp_capacity (ht_abs s)"
  using table_wfD(17) [of "tab s" fs "rsv s"] table_wfD(17) [of "tab s" "[]" "rsv s"]
  by (auto simp: sp_used_abs length_greater_0_conv [symmetric] simp del: length_greater_0_conv)

lemma holding_wf:
  assumes "table_wf t fs rs" "h \<in> rs" "obj \<noteq> 0"
  shows "table_wf (holding h obj t) fs (rs - {h})" "handles (holding h obj t) = (handles t)(h \<mapsto> obj)"
    "handles t h = None"
  using register_wf [OF assms] by (simp_all add: holding_def)

lemma holding_size [simp]: "m_table_size (holding h obj t) = m_table_size t"
  "m_next_linear_id (holding h obj t) = m_next_linear_id t"
  by (simp_all add: holding_def set_entry_def)

lemma free_size [simp]: "m_table_size (FreeEntry i t) = m_table_size t"
  "m_next_linear_id (FreeEntry i t) = m_next_linear_id t"
  by (simp_all add: FreeEntry_def)

definition simulated :: "ht_state \<Rightarrow> ht_event \<Rightarrow> ht_state \<Rightarrow> bool" where
  "simulated s e s' \<longleftrightarrow> ht_inv s' \<and> spec_step (ht_abs s) e (ht_abs s') \<and>
     m_next_linear_id (tab s') =
       (if issued e = [] then m_next_linear_id (tab s) else m_next_linear_id (allocated (tab s))) \<and>
     issued e = (if issued e = [] then [] else [next_handle (tab s)])"

lemma sim_add:
  assumes inv: "ht_inv s" and pre: "obj \<noteq> 0" "0 < ext_refs s obj"
    and add: "KHandleTable_Add obj (tab s) (kobjs s) = Some (r, t', o')"
  shows "simulated s (case r of Inl _ \<Rightarrow> AddRefused obj | Inr h \<Rightarrow> Added h obj) (s\<lparr>tab := t', kobjs := o'\<rparr>)"
proof -
  obtain fs where wf: "table_wf (tab s) fs (rsv s)" and ok: "refs_ok (tab s) (kobjs s) (ext_refs s)"
    using inv by (auto simp: ht_inv_iff)
  show ?thesis
  proof (cases fs)
    case Nil
    then have "r = Inl OutOfHandles" "t' = tab s" "o' = kobjs s"
      using Add_full [of "tab s" "rsv s" obj "kobjs s"] wf add by auto
    then show ?thesis
      using inv sp_add_refused sp_room(2) wf Nil by (simp add: simulated_def)
  next
    case (Cons i fs')
    note wf' = wf [unfolded Cons]
    note A = allocated_wf [OF wf']
    let ?h = "next_handle (tab s)"
    have op: "KAutoObject_Open obj (kobjs s) = Some o'"
        "r = Inr ?h" "t' = holding ?h obj (allocated (tab s))"
      using add Add_free [OF wf', of obj "kobjs s"] by auto
    note H = holding_wf [OF A(1) insertI1 pre(1)]
    have "rsv s = insert ?h (rsv s) - {?h}"
      using A(3) by simp
    with H(1) have wf2: "table_wf t' fs' (rsv s)"
      by (simp add: op(3))
    have ok2: "refs_ok t' o' (ext_refs s)" "scheduled o' = scheduled (kobjs s)"
      using refs_open [OF ok op(1) pre(1), of "ext_refs s" t'] pre(2)
        table_refs_holding [OF A(1) insertI1] by (simp_all add: op(3))
    have "ht_abs (s\<lparr>tab := t', kobjs := o'\<rparr>) = ht_abs s\<lparr>sp_map := (sp_map (ht_abs s))(?h \<mapsto> obj)\<rparr>"
      using H(2) A(2) ok2(2) by (simp add: ht_abs_def op(3) allocated_sel)
    moreover have "spec_step (ht_abs s) (Added ?h obj) (ht_abs s\<lparr>sp_map := (sp_map (ht_abs s))(?h \<mapsto> obj)\<rparr>)"
      using A(3,4) sp_room(1) [OF wf] Cons by (intro sp_add) auto
    ultimately show ?thesis
      using wf2 ok2(1) op(2,3) by (auto simp: simulated_def ht_inv_iff)
  qed
qed

lemma sim_reserve:
  assumes inv: "ht_inv s" and res: "KHandleTable_Reserve (tab s) = (r, t')"
  shows "case r of Inl _ \<Rightarrow> simulated s ReserveRefused (s\<lparr>tab := t'\<rparr>)
    | Inr h \<Rightarrow> simulated s (Reserved h) (s\<lparr>tab := t', rsv := insert h (rsv s)\<rparr>)"
proof -
  obtain fs where wf: "table_wf (tab s) fs (rsv s)" and ok: "refs_ok (tab s) (kobjs s) (ext_refs s)"
    using inv by (auto simp: ht_inv_iff)
  show ?thesis
  proof (cases fs)
    case Nil
    then have "r = Inl OutOfHandles" "t' = tab s"
      using Reserve_full [of "tab s" "rsv s"] wf res by auto
    then show ?thesis
      using inv sp_reserve_refused sp_room(2) wf Nil by (simp add: simulated_def)
  next
    case (Cons i fs')
    note wf' = wf [unfolded Cons]
    note A = allocated_wf [OF wf']
    let ?h = "next_handle (tab s)"
    have r: "r = Inr ?h" "t' = allocated (tab s)"
      using res Reserve_free [OF wf'] by auto
    have "ht_abs (s\<lparr>tab := t', rsv := insert ?h (rsv s)\<rparr>) =
        ht_abs s\<lparr>sp_reserved := insert ?h (sp_reserved (ht_abs s))\<rparr>"
      using A(2) by (simp add: ht_abs_def r(2) allocated_sel)
    moreover have "spec_step (ht_abs s) (Reserved ?h)
        (ht_abs s\<lparr>sp_reserved := insert ?h (sp_reserved (ht_abs s))\<rparr>)"
      using A(3,4) sp_room(1) [OF wf] Cons by (intro sp_reserve) auto
    moreover have "refs_ok t' (kobjs s) (ext_refs s)"
      using ok by (simp add: refs_ok_def r(2))
    ultimately show ?thesis
      using A(1) r by (auto simp: simulated_def ht_inv_iff)
  qed
qed

lemma sim_register:
  assumes inv: "ht_inv s" and pre: "obj \<noteq> 0" "0 < ext_refs s obj" "h \<in> rsv s"
    and reg: "KHandleTable_Register h obj (tab s) (kobjs s) = Some (t', o')"
  shows "simulated s (Registered h obj) (s\<lparr>tab := t', kobjs := o', rsv := rsv s - {h}\<rparr>)"
proof -
  obtain fs where wf: "table_wf (tab s) fs (rsv s)" and ok: "refs_ok (tab s) (kobjs s) (ext_refs s)"
    using inv by (auto simp: ht_inv_iff)
  have op: "KAutoObject_Open obj (kobjs s) = Some o'" "t' = holding h obj (tab s)"
    using reg Register_reserved [OF wf pre(3), of obj "kobjs s"] by auto
  note H = holding_wf [OF wf pre(3,1)]
  have ok2: "refs_ok t' o' (ext_refs s)" "scheduled o' = scheduled (kobjs s)"
    using refs_open [OF ok op(1) pre(1), of "ext_refs s" t'] pre(2)
      table_refs_holding [OF wf pre(3)] by (simp_all add: op(2))
  have "ht_abs (s\<lparr>tab := t', kobjs := o', rsv := rsv s - {h}\<rparr>) =
      ht_abs s\<lparr>sp_map := (sp_map (ht_abs s))(h \<mapsto> obj), sp_reserved := sp_reserved (ht_abs s) - {h}\<rparr>"
    using H(2) ok2(2) by (simp add: ht_abs_def op(2))
  moreover have "h \<in> sp_reserved (ht_abs s)"
    using pre(3) by (simp add: ht_abs_def)
  ultimately show ?thesis
    using sp_register [of h "ht_abs s" obj] H(1) ok2(1) by (auto simp: simulated_def ht_inv_iff op(2))
qed

lemma sim_unreserve:
  assumes inv: "ht_inv s" and h: "h \<in> rsv s"
  shows "simulated s (Unreserved h) (s\<lparr>tab := KHandleTable_Unreserve h (tab s), rsv := rsv s - {h}\<rparr>)"
proof -
  obtain fs where wf: "table_wf (tab s) fs (rsv s)" and ok: "refs_ok (tab s) (kobjs s) (ext_refs s)"
    using inv by (auto simp: ht_inv_iff)
  let ?i = "unat (HandleIndex h)"
  have i: "?i < unat (m_table_size (tab s))"
    using table_wfD(9) [OF wf h] by (simp add: word_less_nat_alt)
  have "m_objects (tab s) ! ?i = 0"
    using table_wfD(12) [OF wf i] h by blast
  then have "refs_ok (FreeEntry ?i (tab s)) (kobjs s) (ext_refs s)"
    using ok table_refs_free [OF wf i] by (simp add: refs_ok_def)
  moreover have "ht_abs (s\<lparr>tab := FreeEntry ?i (tab s), rsv := rsv s - {h}\<rparr>) =
      ht_abs s\<lparr>sp_reserved := sp_reserved (ht_abs s) - {h}\<rparr>"
    using Unreserve_wf(2) [OF wf h] by (simp add: ht_abs_def)
  moreover have "h \<in> sp_reserved (ht_abs s)"
    using h by (simp add: ht_abs_def)
  ultimately show ?thesis
    using sp_unreserve [of h "ht_abs s"] Unreserve_wf(1) [OF wf h] Unreserve_reserved [OF wf h]
    by (auto simp: simulated_def ht_inv_iff)
qed

lemma sim_remove:
  assumes inv: "ht_inv s" and rem: "KHandleTable_Remove h (tab s) (kobjs s) = Some (b, t', o')"
  shows "simulated s (Removed h b) (s\<lparr>tab := t', kobjs := o'\<rparr>)"
proof -
  obtain fs where wf: "table_wf (tab s) fs (rsv s)" and ok: "refs_ok (tab s) (kobjs s) (ext_refs s)"
    using inv by (auto simp: ht_inv_iff)
  show ?thesis
  proof (cases "handles (tab s) h")
    case None
    then have "b = False" "t' = tab s" "o' = kobjs s"
      using rem Remove_unknown [OF None, of "kobjs s"] by auto
    moreover have "sp_map (ht_abs s) h = None"
      using None by (simp add: ht_abs_def)
    ultimately show ?thesis
      using inv sp_remove_unknown by (simp add: simulated_def)
  next
    case (Some obj)
    let ?i = "unat (HandleIndex h)"
    let ?t = "FreeEntry ?i (tab s)"
    note S = handles_SomeD [OF Some]
    have less: "ext_refs s x + table_refs ?t x + (if obj = x then 1 else 0) = ext_refs s x + table_refs (tab s) x"
      if "x \<noteq> 0" for x
      using table_refs_free [OF wf S(7) that] S(5) by simp
    have pos: "0 < ext_refs s obj + table_refs (tab s) obj"
      using table_refs_known [OF wf Some] by simp
    obtain o1 where o1: "KAutoObject_Close obj (kobjs s) = Some o1" "refs_ok ?t o1 (ext_refs s)"
      "set (scheduled o1) = set (scheduled (kobjs s)) \<union>
         (if ext_refs s obj + table_refs ?t obj = 0 then {obj} else {})"
      using refs_close [OF ok S(4) pos less] by blast
    then have r: "b = True" "t' = ?t" "o' = o1"
      using rem Remove_known [OF Some, of "kobjs s"] by auto
    note R = Remove_wf [OF wf Some]
    have "obj \<in> ran ((handles (tab s))(h := None)) \<longleftrightarrow> 0 < table_refs ?t obj"
      using ran_handles [OF R(1) S(4)] R(2) by simp
    then have "ht_abs (s\<lparr>tab := t', kobjs := o'\<rparr>) =
        bury obj (ht_abs s\<lparr>sp_map := (sp_map (ht_abs s))(h := None)\<rparr>)"
      using R(2) o1(3) by (auto simp: ht_abs_def bury_def r)
    then show ?thesis
      using sp_remove [of "ht_abs s" h obj] Some R(1) o1(2) r
      by (auto simp: simulated_def ht_inv_iff ht_abs_def)
  qed
qed

lemma inv_alive:
  assumes "table_wf t fs rs" "refs_ok t s held" "handles t h = Some obj"
  shows "m_ref_count s obj \<noteq> 0"
proof -
  have "unat (m_ref_count s obj) \<noteq> 0"
    using assms(2) handles_SomeD(4) [OF assms(3)] table_refs_known [OF assms(1,3)] by (simp add: refs_ok_def)
  then show ?thesis
    by (simp add: unat_eq_0)
qed

lemma handles_GetObjectImpl: "GetObjectImpl t h \<noteq> 0 \<Longrightarrow> handles t h = Some (GetObjectImpl t h)"
  by (simp add: handles_def)

lemma sim_look:
  assumes inv: "ht_inv s" and look: "GetObjectWithoutPseudoHandle token (tab s) h (kobjs s) = Some (obj, o')"
  shows "simulated s (Looked h obj) (s\<lparr>kobjs := o',
    ext_refs := (if obj = 0 then ext_refs s else (ext_refs s)(obj := ext_refs s obj + 1))\<rparr>)"
proof -
  obtain fs where wf: "table_wf (tab s) fs (rsv s)" and ok: "refs_ok (tab s) (kobjs s) (ext_refs s)"
    using inv by (auto simp: ht_inv_iff)
  have op: "KScopedAutoObject obj (kobjs s) = Some o'" "obj \<noteq> 0 \<Longrightarrow> GetObjectImpl (tab s) h = obj"
    using look by (auto simp: GetObjectWithoutPseudoHandle_def Let_def DynamicCast_def bind_eq_Some_conv
        split: option.splits if_splits)
  show ?thesis
  proof (cases "obj = 0")
    case True
    then have "o' = kobjs s"
      using op by (simp add: KScopedAutoObject_def)
    then show ?thesis
      using True inv sp_look_null by (simp add: simulated_def)
  next
    case False
    then have h: "handles (tab s) h = Some obj" and op': "KAutoObject_Open obj (kobjs s) = Some o'"
      using op handles_GetObjectImpl [of "tab s" h] by (simp_all add: KScopedAutoObject_def)
    let ?held = "(ext_refs s)(obj := ext_refs s obj + 1)"
    have ok2: "refs_ok (tab s) o' ?held" "scheduled o' = scheduled (kobjs s)"
      using refs_open [OF ok op' False, of ?held "tab s"] table_refs_known [OF wf h] by simp_all
    have "ht_abs (s\<lparr>kobjs := o', ext_refs := ?held\<rparr>) =
        ht_abs s\<lparr>sp_held := (sp_held (ht_abs s))(obj := sp_held (ht_abs s) obj + 1)\<rparr>"
      using ok2(2) by (simp add: ht_abs_def)
    then show ?thesis
      using sp_look [of "ht_abs s" h obj] h wf ok2(1) False by (auto simp: simulated_def ht_inv_iff)
  qed
qed

lemma sim_look_all:
  assumes inv: "ht_inv s" and look: "GetMultipleObjects token (tab s) hs (kobjs s) = Some (b, out, o')"
  shows "simulated s (LookedAll hs b (if b then out else [])) (s\<lparr>kobjs := o',
    ext_refs := (if b then (\<lambda>x. ext_refs s x + count_list out x) else ext_refs s)\<rparr>)"
proof -
  obtain fs where wf: "table_wf (tab s) fs (rsv s)" and ok: "refs_ok (tab s) (kobjs s) (ext_refs s)"
    using inv by (auto simp: ht_inv_iff)
  have alive: "m_ref_count (kobjs s) (GetObjectImpl (tab s) h) \<noteq> 0" if "GetObjectImpl (tab s) h \<noteq> 0" for h
    using inv_alive [OF wf ok handles_GetObjectImpl [OF that]] .
  obtain out1 s1 where "open_handles token (tab s) hs (kobjs s) = Some (out1, s1)"
    using look by (auto simp: GetMultipleObjects_def bind_eq_Some_conv)
  from GetMultipleObjects_spec [of "tab s" "kobjs s", OF alive this] look
  have G: "b \<longleftrightarrow> (\<forall>h \<in> set hs. of_class token (tab s) (kobjs s) h)"
      "scheduled o' = scheduled (kobjs s)" "b \<Longrightarrow> out = map (GetObjectImpl (tab s)) hs"
      "b \<Longrightarrow> \<forall>x. unat (m_ref_count o' x) = unat (m_ref_count (kobjs s) x) + count_list out x"
      "\<not> b \<Longrightarrow> o' = kobjs s"
    by auto
  show ?thesis
  proof (cases b)
    case False
    then show ?thesis
      using inv sp_look_all_fails G(5) by (simp add: simulated_def)
  next
    case True
    have map: "map (handles (tab s)) hs = map Some out"
      using True G(1,3) handles_GetObjectImpl by (simp add: of_class_def)
    let ?held = "\<lambda>x. ext_refs s x + count_list out x"
    have "m_ref_count o' x = 0" if "x \<in> set (scheduled (kobjs s))" for x
    proof -
      have "m_ref_count (kobjs s) x = 0"
        using that ok by (simp add: refs_ok_def)
      then have "x \<notin> set out"
        using True G(1,3) alive by (auto simp: of_class_def)
      then have "unat (m_ref_count o' x) = 0"
        using G(4) True \<open>m_ref_count (kobjs s) x = 0\<close> by simp
      then show ?thesis
        by (simp add: unat_eq_0)
    qed
    then have ok2: "refs_ok (tab s) o' ?held"
      using ok G(2,4) True by (simp add: refs_ok_def)
    have "ht_abs (s\<lparr>kobjs := o', ext_refs := ?held\<rparr>) =
        ht_abs s\<lparr>sp_held := (\<lambda>x. sp_held (ht_abs s) x + count_list out x)\<rparr>"
      using G(2) by (simp add: ht_abs_def)
    then show ?thesis
      using sp_look_all [of "ht_abs s" hs out] map wf ok2 True by (auto simp: simulated_def ht_inv_iff)
  qed
qed

lemma sim_create:
  assumes inv: "ht_inv s"
    and pre: "obj \<noteq> 0" "m_ref_count (kobjs s) obj = 0" "obj \<notin> set (scheduled (kobjs s))"
  shows "simulated s (Created obj) (s\<lparr>kobjs := KAutoObject_Create obj token (kobjs s),
    ext_refs := (ext_refs s)(obj := 1)\<rparr>)"
proof -
  obtain fs where wf: "table_wf (tab s) fs (rsv s)" and ok: "refs_ok (tab s) (kobjs s) (ext_refs s)"
    using inv by (auto simp: ht_inv_iff)
  have "unat (m_ref_count (kobjs s) obj) = ext_refs s obj + table_refs (tab s) obj"
    using ok pre(1) by (simp add: refs_ok_def)
  then have zero: "ext_refs s obj = 0" "table_refs (tab s) obj = 0"
    using pre(2) by simp_all
  then have "obj \<notin> ran (handles (tab s))"
    using ran_handles [OF wf pre(1)] by simp
  then have "spec_step (ht_abs s) (Created obj) (ht_abs s\<lparr>sp_held := (sp_held (ht_abs s))(obj := 1)\<rparr>)"
    using zero(1) pre(3) by (intro sp_create) simp_all
  moreover have "refs_ok (tab s) (KAutoObject_Create obj token (kobjs s)) ((ext_refs s)(obj := 1))"
    using ok zero pre(3) by (auto simp: refs_ok_def KAutoObject_Create_def)
  moreover have "ht_abs (s\<lparr>kobjs := KAutoObject_Create obj token (kobjs s), ext_refs := (ext_refs s)(obj := 1)\<rparr>) =
      ht_abs s\<lparr>sp_held := (sp_held (ht_abs s))(obj := 1)\<rparr>"
    by (simp add: ht_abs_def KAutoObject_Create_def)
  ultimately show ?thesis
    using wf by (auto simp: simulated_def ht_inv_iff)
qed

lemma sim_close:
  assumes inv: "ht_inv s" and pre: "obj \<noteq> 0" "0 < ext_refs s obj"
    and cl: "KAutoObject_Close obj (kobjs s) = Some o'"
  shows "simulated s (Closed obj) (s\<lparr>kobjs := o', ext_refs := (ext_refs s)(obj := ext_refs s obj - 1)\<rparr>)"
proof -
  obtain fs where wf: "table_wf (tab s) fs (rsv s)" and ok: "refs_ok (tab s) (kobjs s) (ext_refs s)"
    using inv by (auto simp: ht_inv_iff)
  let ?held = "(ext_refs s)(obj := ext_refs s obj - 1)"
  have less: "?held x + table_refs (tab s) x + (if obj = x then 1 else 0) = ext_refs s x + table_refs (tab s) x"
    for x using pre(2) by auto
  have pos: "0 < ext_refs s obj + table_refs (tab s) obj"
    using pre(2) by simp
  have o': "refs_ok (tab s) o' ?held" "set (scheduled o') = set (scheduled (kobjs s)) \<union>
      (if ?held obj + table_refs (tab s) obj = 0 then {obj} else {})"
    using refs_close [OF ok pre(1) pos less] cl by (metis option.inject)+
  have "obj \<in> ran (handles (tab s)) \<longleftrightarrow> 0 < table_refs (tab s) obj"
    using ran_handles [OF wf pre(1)] .
  then have "ht_abs (s\<lparr>kobjs := o', ext_refs := ?held\<rparr>) =
      bury obj (ht_abs s\<lparr>sp_held := (sp_held (ht_abs s))(obj := sp_held (ht_abs s) obj - 1)\<rparr>)"
    using o'(2) by (auto simp: ht_abs_def bury_def)
  then show ?thesis
    using sp_close [of "ht_abs s" obj] pre(2) wf o'(1) by (auto simp: simulated_def ht_inv_iff)
qed

theorem ht_step_simulated:
  assumes "ht_inv s" "ht_step s e s'"
  shows "simulated s e s'"
  using assms(2,1)
proof (cases rule: ht_step.cases)
  case (add obj h t' o')
  then show ?thesis using sim_add [OF assms(1) add(3-5)] by simp
next
  case (add_refused obj e t' o')
  then show ?thesis using sim_add [OF assms(1) add_refused(3-5)] by simp
next
  case (reserve h t')
  then show ?thesis using sim_reserve [OF assms(1) reserve(3)] by simp
next
  case (reserve_refused e t')
  then show ?thesis using sim_reserve [OF assms(1) reserve_refused(3)] by simp
next
  case (register obj h t' o')
  then show ?thesis using sim_register [OF assms(1) register(3-6)] by simp
next
  case (unreserve h)
  then show ?thesis using sim_unreserve [OF assms(1)] by simp
next
  case (remove h b t' o')
  then show ?thesis using sim_remove [OF assms(1) remove(3)] by simp
next
  case (look token h obj o')
  then show ?thesis using sim_look [OF assms(1) look(3)] by simp
next
  case (look_all token hs b out o')
  then show ?thesis using sim_look_all [OF assms(1) look_all(3)] by simp
next
  case (create obj token)
  then show ?thesis using sim_create [OF assms(1) create(3-5)] by simp
next
  case (close obj o')
  then show ?thesis using sim_close [OF assms(1) close(3-5)] by simp
qed

section \<open>The table issues tickets\<close>

definition serial :: "Handle \<Rightarrow> nat" where
  "serial h = unat (HandleLinearId h) - 1"

definition LinearIdCount :: nat where
  "LinearIdCount = 0x7FFF"

definition in_use :: "ht_state \<Rightarrow> Handle set" where
  "in_use s = dom (handles (tab s)) \<union> rsv s"

lemma spec_in_use:
  "spec_step a e a' \<Longrightarrow>
   dom (sp_map a') \<union> sp_reserved a' \<subseteq> dom (sp_map a) \<union> sp_reserved a \<union> set (issued e)"
  by (induction rule: spec_step.induct) (auto simp: bury_def split: if_splits)

lemma serial_next_handle:
  assumes "ht_inv s" "simulated s e s'" "issued e \<noteq> []"
  shows "issued e = [next_handle (tab s)]" "serial (next_handle (tab s)) = unat (m_next_linear_id (tab s)) - 1"
    "unat (m_next_linear_id (tab s')) - 1 = Suc (unat (m_next_linear_id (tab s)) - 1) mod LinearIdCount"
proof -
  obtain fs where wf: "table_wf (tab s) fs (rsv s)"
    using assms(1) by (auto simp: ht_inv_iff)
  show "issued e = [next_handle (tab s)]"
    using assms(2,3) unfolding simulated_def by presburger
  have "m_next_linear_id (tab s) < 0x8000"
    using table_wfD(16) [OF wf] by (simp add: MaxLinearId_eq word_le_nat_alt word_less_nat_alt)
  then show "serial (next_handle (tab s)) = unat (m_next_linear_id (tab s)) - 1"
    by (simp add: serial_def next_handle_def HandleLinearId_Encode)
  show "unat (m_next_linear_id (tab s')) - 1 = Suc (unat (m_next_linear_id (tab s)) - 1) mod LinearIdCount"
    using assms(2,3) next_linear_id_bounds(3) [OF table_wfD(15,16) [OF wf]]
    by (simp add: simulated_def allocated_sel LinearIdCount_def split del: if_split)
qed

interpretation handle_tickets: ticket_issuer ht_step ht_inv issued in_use serial
  "\<lambda>s. unat (m_next_linear_id (tab s)) - 1" LinearIdCount
proof
  fix s e s'
  assume inv: "ht_inv s"
  show "unat (m_next_linear_id (tab s)) - 1 < LinearIdCount"
    using inv table_wfD(16) by (fastforce simp: ht_inv_iff LinearIdCount_def MaxLinearId_eq word_le_nat_alt)
  assume "ht_step s e s'"
  then have sim: "simulated s e s'"
    by (rule ht_step_simulated [OF inv])
  then show "ht_inv s'"
    by (simp add: simulated_def)
  have "spec_step (ht_abs s) e (ht_abs s')"
    using sim by (simp add: simulated_def)
  from spec_in_use [OF this] show "in_use s' \<subseteq> in_use s \<union> set (issued e)"
    by (simp add: in_use_def)
  show "issued e = [] \<and> unat (m_next_linear_id (tab s')) - 1 = unat (m_next_linear_id (tab s)) - 1 \<or>
      (\<exists>t. issued e = [t] \<and> serial t = unat (m_next_linear_id (tab s)) - 1 \<and>
        unat (m_next_linear_id (tab s')) - 1 = Suc (unat (m_next_linear_id (tab s)) - 1) mod LinearIdCount)"
  proof (cases "issued e = []")
    case True
    then show ?thesis
      using sim by (simp add: simulated_def)
  next
    case False
    then show ?thesis
      using serial_next_handle [OF inv sim False] by blast
  qed
qed

end
