(* ===== verification/Kern_HandleTable_Props.thy ===== *)
theory Kern_HandleTable_Props
  imports Kern_HandleTable_Spec
begin

text \<open>
  The properties of \<^verbatim>\<open>KHandleTable\<close>, for tables that start in \<^verbatim>\<open>Initialize\<close>, and a table of one entry
  that shows them at work.
\<close>

section \<open>From an initialized table\<close>

definition start_state :: "KHandleTable \<Rightarrow> KAutoObjects \<Rightarrow> ht_state" where
  "start_state t s = \<lparr>tab = t, kobjs = s, rsv = {}, ext_refs = (\<lambda>_. 0)\<rparr>"

definition start_spec :: "nat \<Rightarrow> ht_spec" where
  "start_spec n = \<lparr>sp_map = Map.empty, sp_reserved = {}, sp_held = (\<lambda>_. 0), sp_dead = {}, sp_capacity = n\<rparr>"

definition untouched :: "KAutoObjects \<Rightarrow> bool" where
  "untouched s \<longleftrightarrow> m_ref_count s = (\<lambda>_. 0) \<and> scheduled s = []"

lemma runs_simulated: "runs ht_step s es s' \<Longrightarrow> ht_inv s \<Longrightarrow> ht_inv s' \<and> runs spec_step (ht_abs s) es (ht_abs s')"
proof (induction rule: runs.induct)
  case (runs_cons s e s' es s'')
  then have sim: "simulated s e s'"
    by (blast intro: ht_step_simulated)
  then have "ht_inv s''" "runs spec_step (ht_abs s') es (ht_abs s'')"
    using runs_cons.IH by (auto simp: simulated_def)
  then show ?case
    using sim runs.runs_cons [of spec_step "ht_abs s" e "ht_abs s'"] by (simp add: simulated_def)
qed (simp add: runs_nil)

lemma start_inv:
  assumes "length (m_entry_infos t0) = MaxTableSize" "length (m_objects t0) = MaxTableSize"
    "KHandleTable_Initialize sz t0 = (Inr (), t)" "untouched s"
  shows "ht_inv (start_state t s)" "ht_abs (start_state t s) = start_spec (requested_size sz)"
proof -
  have "sz \<le> int MaxTableSize"
    using assms(3) by (auto simp: KHandleTable_Initialize_def split: if_splits)
  from Initialize_wf [OF assms(1,2) this] assms(3)
  have wf: "table_wf t (rev [0..<requested_size sz]) {}" "handles t = Map.empty"
      "unat (m_table_size t) = requested_size sz"
    by auto
  have "table_refs t x = 0" if "x \<noteq> 0" for x
    using ran_handles [OF wf(1) that] wf(2) by simp
  then show "ht_inv (start_state t s)"
    using wf(1) assms(4) by (auto simp: ht_inv_iff refs_ok_def start_state_def untouched_def)
  show "ht_abs (start_state t s) = start_spec (requested_size sz)"
    using wf(2,3) assms(4) by (simp add: ht_abs_def start_state_def start_spec_def untouched_def)
qed

lemma Finalize_spec:
  assumes inv: "ht_inv s"
  shows "\<exists>t' o'. KHandleTable_Finalize (tab s) (kobjs s) = Some (t', o') \<and> handles t' = Map.empty \<and>
    (\<forall>x. x \<noteq> 0 \<longrightarrow> unat (m_ref_count o' x) = ext_refs s x) \<and> distinct (scheduled o') \<and>
    set (scheduled o') = set (scheduled (kobjs s)) \<union> {x \<in> ran (handles (tab s)). ext_refs s x = 0}"
proof -
  obtain fs where wf: "table_wf (tab s) fs (rsv s)" and ok: "refs_ok (tab s) (kobjs s) (ext_refs s)"
    using inv by (auto simp: ht_inv_iff)
  let ?xs = "take (unat (m_table_size (tab s))) (m_objects (tab s))"
  have cnt: "unat (m_ref_count (kobjs s) x) = ext_refs s x + count_list ?xs x" if "x \<noteq> 0" for x
    using ok that by (simp add: refs_ok_def table_refs_def)
  then have "count_list ?xs x \<le> unat (m_ref_count (kobjs s) x)" if "x \<noteq> 0" for x
    using that by simp
  from close_all_spec [OF this] obtain s' new where s': "close_all ?xs (kobjs s) = Some s'"
    "\<And>x. x \<noteq> 0 \<Longrightarrow> unat (m_ref_count s' x) + count_list ?xs x = unat (m_ref_count (kobjs s) x)"
    "scheduled s' = scheduled (kobjs s) @ new" "distinct new"
    "set new = {x \<in> set ?xs. x \<noteq> 0 \<and> m_ref_count s' x = 0}"
    by blast
  have held: "unat (m_ref_count s' x) = ext_refs s x" if "x \<noteq> 0" for x
    using s'(2) [OF that] cnt [OF that] by simp
  have ran: "x \<in> set ?xs \<longleftrightarrow> x \<in> ran (handles (tab s))" if "x \<noteq> 0" for x
    using ran_handles [OF wf that] unfolding table_refs_def by (metis count_list_0_iff neq0_conv)
  have nz: "0 \<notin> ran (handles (tab s))"
    using handles_SomeD(4) by (fastforce simp: ran_def)
  have new: "set new = {x \<in> ran (handles (tab s)). ext_refs s x = 0}"
  proof (rule set_eqI)
    fix x
    show "x \<in> set new \<longleftrightarrow> x \<in> {x \<in> ran (handles (tab s)). ext_refs s x = 0}"
    proof (cases "x = 0")
      case True
      then show ?thesis using s'(5) nz by simp
    next
      case False
      then have "m_ref_count s' x = 0 \<longleftrightarrow> ext_refs s x = 0"
        using held [OF False] unat_eq_0 by metis
      then show ?thesis using s'(5) ran [OF False] False by simp
    qed
  qed
  have "x \<notin> set new" if "x \<in> set (scheduled (kobjs s))" for x
  proof -
    have "x \<noteq> 0" "m_ref_count (kobjs s) x = 0"
      using that ok by (auto simp: refs_ok_def)
    then have "count_list ?xs x = 0"
      using cnt [of x] by simp
    then show ?thesis
      using s'(5) by (simp add: count_list_0_iff)
  qed
  then have "distinct (scheduled s')"
    using s'(3,4) ok by (auto simp: refs_ok_def)
  moreover have "handles ((tab s)\<lparr>m_table_size := 0\<rparr>) = Map.empty"
    by (rule ext) (simp add: handles_unfold)
  ultimately show ?thesis
    using s'(1,3) held new by (simp add: KHandleTable_Finalize_def Let_def)
qed

lemma Remove_returns:
  assumes inv: "ht_inv s"
  shows "\<exists>t' o'. KHandleTable_Remove h (tab s) (kobjs s) = Some (handles (tab s) h \<noteq> None, t', o')"
proof -
  obtain fs where wf: "table_wf (tab s) fs (rsv s)" and ok: "refs_ok (tab s) (kobjs s) (ext_refs s)"
    using inv by (auto simp: ht_inv_iff)
  show ?thesis
  proof (cases "handles (tab s) h")
    case None
    then show ?thesis using Remove_unknown by simp
  next
    case (Some obj)
    then show ?thesis
      using Close_Some [OF inv_alive [OF wf ok Some]] Remove_known [OF Some] by auto
  qed
qed

lemma resolves_alive:
  assumes inv: "ht_inv s" and h: "handles (tab s) h = Some x"
  shows "m_ref_count (kobjs s) x \<noteq> 0 \<and> x \<notin> set (scheduled (kobjs s))"
proof -
  obtain fs where wf: "table_wf (tab s) fs (rsv s)" and ok: "refs_ok (tab s) (kobjs s) (ext_refs s)"
    using inv by (auto simp: ht_inv_iff)
  have "m_ref_count (kobjs s) x \<noteq> 0"
    by (rule inv_alive [OF wf ok h])
  then show ?thesis
    using ok by (auto simp: refs_ok_def)
qed

section \<open>A small table\<close>

definition demo_objects :: KAutoObjects where
  "demo_objects = \<lparr>m_ref_count = (\<lambda>_. 0), m_class_token = (\<lambda>_. 1), scheduled = []\<rparr>"

definition demo_raw :: KHandleTable where
  "demo_raw = \<lparr>m_entry_infos = replicate MaxTableSize 0, m_objects = replicate MaxTableSize 0,
     m_free_head_index = - 1, m_table_size = 0, m_max_count = 0, m_next_linear_id = 1, m_count = 0\<rparr>"

definition demo_table :: "u16 \<Rightarrow> nat \<Rightarrow> u16 \<Rightarrow> u16 \<Rightarrow> KHandleTable" where
  "demo_table info obj next_id cnt =
     \<lparr>m_entry_infos = (replicate MaxTableSize 0)[0 := info], m_objects = (replicate MaxTableSize 0)[0 := obj],
      m_free_head_index = (if cnt = 0 then 0 else - 1), m_table_size = 1,
      m_max_count = (if next_id = 1 then 0 else 1), m_next_linear_id = next_id, m_count = cnt\<rparr>"

definition demo_counts :: "u32 \<Rightarrow> KAutoObjects" where
  "demo_counts n = demo_objects\<lparr>m_ref_count := (\<lambda>_. 0)(5 := n)\<rparr>"

definition demo_state :: "KHandleTable \<Rightarrow> u32 \<Rightarrow> ht_state" where
  "demo_state t n = \<lparr>tab = t, kobjs = demo_counts n, rsv = {}, ext_refs = (\<lambda>_. 0)(5 := 1)\<rparr>"

lemma MaxTableSize_pos [simp]: "0 < MaxTableSize"
  by (simp add: MaxTableSize_def)

lemma demo_init: "KHandleTable_Initialize 1 demo_raw = (Inr (), demo_table (- 1) 0 1 0)"
  by (simp add: KHandleTable_Initialize_def Let_def demo_raw_def initialize_entry_def demo_table_def
      MinLinearId_def MaxTableSize_def)

lemma demo_encode: "EncodeHandle 0 1 = 0x8000" "EncodeHandle 0 2 = 0x10000"
  by (simp_all add: EncodeHandle_def BitPack_Set_def BitPack_Mask_def push_bit_eq_mult)

lemma demo_decode:
  "HandleIndex 0x8000 = 0" "HandleLinearId 0x8000 = 1" "HandleReserved 0x8000 = 0"
  "HandleIndex 0x10000 = 0" "HandleLinearId 0x10000 = 2" "HandleReserved 0x10000 = 0"
  by (simp_all add: HandleIndex_def HandleLinearId_def HandleReserved_def BitPack_Get_def BitPack_Mask_def
      push_bit_eq_mult drop_bit_eq_div)

lemma demo_Open: "n \<noteq> 0 \<Longrightarrow> n < n + 1 \<Longrightarrow> KAutoObject_Open 5 (demo_counts n) = Some (demo_counts (n + 1))"
  by (simp add: KAutoObject_Open_def ReferenceCount_Open_def demo_counts_def)

lemma demo_Close: "1 < n \<Longrightarrow> KAutoObject_Close 5 (demo_counts n) = Some (demo_counts (n - 1))"
  by (auto simp: KAutoObject_Close_def ReferenceCount_Close_def demo_counts_def Let_def word_gt_0)

lemma demo_create:
  "ht_step (start_state (demo_table (- 1) 0 1 0) demo_objects) (Created 5) (demo_state (demo_table (- 1) 0 1 0) 1)"
proof -
  let ?s = "start_state (demo_table (- 1) 0 1 0) demo_objects"
  have "demo_state (demo_table (- 1) 0 1 0) 1 =
      ?s\<lparr>kobjs := KAutoObject_Create 5 1 (kobjs ?s), ext_refs := (ext_refs ?s)(5 := 1)\<rparr>"
    by (auto simp: demo_state_def start_state_def KAutoObject_Create_def demo_counts_def demo_objects_def)
  then show ?thesis
    using create [of 5 ?s 1] by (simp add: start_state_def demo_objects_def)
qed

lemma demo_add: "ht_step (demo_state (demo_table (- 1) 0 1 0) 1) (Added 0x8000 5) (demo_state (demo_table 1 5 2 1) 2)"
proof -
  have "KHandleTable_Add 5 (demo_table (- 1) 0 1 0) (demo_counts 1) =
      Some (Inr 0x8000, demo_table 1 5 2 1, demo_counts 2)"
    using demo_Open [of 1]
    by (simp add: KHandleTable_Add_def demo_table_def AllocateLinearId_def AllocateEntry_def Let_def
        MaxLinearId_eq GetNextFreeIndex_def set_entry_def demo_encode)
  then show ?thesis
    using add [of 5 "demo_state (demo_table (- 1) 0 1 0) 1"] by (simp add: demo_state_def)
qed

lemma demo_remove: "ht_step (demo_state (demo_table 1 5 2 1) 2) (Removed 0x8000 True) (demo_state (demo_table (- 1) 0 2 0) 1)"
proof -
  have "KHandleTable_Remove 0x8000 (demo_table 1 5 2 1) (demo_counts 2) =
      Some (True, demo_table (- 1) 0 2 0, demo_counts 1)"
    using demo_Close [of 2]
    by (simp add: KHandleTable_Remove_def demo_table_def IsPseudoHandle_def CurrentProcess_def
        CurrentThread_def IsValidHandle_def demo_decode FreeEntry_def Let_def)
  then show ?thesis
    using remove [of "0x8000" "demo_state (demo_table 1 5 2 1) 2"] by (simp add: demo_state_def)
qed

lemma demo_add_again:
  "ht_step (demo_state (demo_table (- 1) 0 2 0) 1) (Added 0x10000 5) (demo_state (demo_table 2 5 3 1) 2)"
proof -
  have "KHandleTable_Add 5 (demo_table (- 1) 0 2 0) (demo_counts 1) =
      Some (Inr 0x10000, demo_table 2 5 3 1, demo_counts 2)"
    using demo_Open [of 1]
    by (simp add: KHandleTable_Add_def demo_table_def AllocateLinearId_def AllocateEntry_def Let_def
        MaxLinearId_eq GetNextFreeIndex_def set_entry_def demo_encode)
  then show ?thesis
    using add [of 5 "demo_state (demo_table (- 1) 0 2 0) 1"] by (simp add: demo_state_def)
qed

lemma demo_run: "runs ht_step (start_state (demo_table (- 1) 0 1 0) demo_objects)
  [Created 5, Added 0x8000 5, Removed 0x8000 True, Added 0x10000 5] (demo_state (demo_table 2 5 3 1) 2)"
  by (rule runs_cons, rule demo_create, rule runs_cons, rule demo_add, rule runs_cons, rule demo_remove,
      rule runs_cons, rule demo_add_again, rule runs_nil)

lemma demo_raw_ok:
  "length (m_entry_infos demo_raw) = MaxTableSize" "length (m_objects demo_raw) = MaxTableSize" "untouched demo_objects"
  by (simp_all add: demo_raw_def untouched_def demo_objects_def)

lemma demo_start: "ht_inv (start_state (demo_table (- 1) 0 1 0) demo_objects)"
  by (rule start_inv(1) [OF demo_raw_ok(1,2) demo_init demo_raw_ok(3)])

lemma demo_inv: "ht_inv (demo_state (demo_table 2 5 3 1) 2)" "ht_inv (demo_state (demo_table (- 1) 0 1 0) 1)"
  using runs_simulated [OF demo_run demo_start] ht_step_simulated [OF demo_start demo_create]
  by (simp_all add: simulated_def)

lemma demo_handles: "handles (demo_table 2 5 3 1) 0x10000 = Some 5" "handles (demo_table (- 1) 0 2 0) 0x8000 = None"
  by (simp_all add: handles_unfold demo_decode demo_table_def)

section \<open>Properties\<close>

text \<open>
  C32. From \<^verbatim>\<open>Initialize\<close> on, whatever sequence of \<^verbatim>\<open>Add\<close>, \<^verbatim>\<open>Reserve\<close>, \<^verbatim>\<open>Register\<close>, \<^verbatim>\<open>Unreserve\<close>,
  \<^verbatim>\<open>Remove\<close>, lookups, object creations and closes runs, the handle table is a bounded map from
  handles to objects: an issued handle is neither in the map nor reserved, \<^verbatim>\<open>OutOfHandles\<close> is returned
  exactly when the live and the reserved handles fill the table, \<^verbatim>\<open>Remove\<close> succeeds exactly on the
  handles of the map and deletes that one entry, a lookup only returns what the map holds, and an
  object is scheduled for destruction exactly when its last outside reference and its last handle
  are gone.
\<close>

theorem handle_table_refines_map:
  assumes "length (m_entry_infos t0) = MaxTableSize" "length (m_objects t0) = MaxTableSize"
    "KHandleTable_Initialize sz t0 = (Inr (), t)" "untouched s"
    "runs ht_step (start_state t s) es s'"
  shows "ht_inv s' \<and> runs spec_step (start_spec (requested_size sz)) es (ht_abs s')"
  using runs_simulated [OF assms(5) start_inv(1) [OF assms(1-4)]] start_inv(2) [OF assms(1-4)] by simp

theorem handle_table_refines_map_witness:
  "runs spec_step (start_spec (requested_size 1))
     [Created 5, Added 0x8000 5, Removed 0x8000 True, Added 0x10000 5] (ht_abs (demo_state (demo_table 2 5 3 1) 2))"
  using handle_table_refines_map [OF demo_raw_ok(1,2) demo_init demo_raw_ok(3) demo_run] by simp





text \<open>
  C35. \<^verbatim>\<open>GetMultipleObjects\<close> is all or nothing: as long as no count is about to overflow it returns, it
  succeeds exactly when every handle resolves to an object of the class, with one reference opened
  per handle, and on failure every count and the objects scheduled for destruction are as before.
\<close>

theorem GetMultipleObjects_all_or_nothing:
  fixes token :: u16
  assumes "ht_inv s" "\<And>x. unat (m_ref_count (kobjs s) x) + length hs < 2 ^ 32"
  defines "ok \<equiv> \<forall>h \<in> set hs. of_class token (tab s) (kobjs s) h"
  shows "\<exists>out o'. GetMultipleObjects token (tab s) hs (kobjs s) = Some (ok, out, o') \<and>
    scheduled o' = scheduled (kobjs s) \<and>
    (ok \<longrightarrow> map (handles (tab s)) hs = map Some out \<and>
      (\<forall>x. unat (m_ref_count o' x) = unat (m_ref_count (kobjs s) x) + count_list out x)) \<and>
    (\<not> ok \<longrightarrow> o' = kobjs s)"
proof -
  obtain fs where wf: "table_wf (tab s) fs (rsv s)" and refs: "refs_ok (tab s) (kobjs s) (ext_refs s)"
    using assms(1) by (auto simp: ht_inv_iff)
  have alive: "m_ref_count (kobjs s) (GetObjectImpl (tab s) h) \<noteq> 0" if "GetObjectImpl (tab s) h \<noteq> 0" for h
    using inv_alive [OF wf refs handles_GetObjectImpl [OF that]] .
  obtain out s1 where op: "open_handles token (tab s) hs (kobjs s) = Some (out, s1)"
    using open_handles_returns [of "kobjs s" hs "tab s", OF assms(2) alive] by blast
  have "map (handles (tab s)) hs = map Some (map (GetObjectImpl (tab s)) hs)" if ok
    using that handles_GetObjectImpl by (simp add: ok_def of_class_def)
  then show ?thesis
    using GetMultipleObjects_spec [of "tab s" "kobjs s", OF alive op] unfolding ok_def [symmetric] by auto
qed

theorem GetMultipleObjects_all_or_nothing_witness:
  "\<exists>out o'. GetMultipleObjects 1 (demo_table 2 5 3 1) [0x10000, 0x8000] (demo_counts 2) = Some (False, out, o') \<and>
     o' = demo_counts 2"
proof -
  let ?s = "demo_state (demo_table 2 5 3 1) 2"
  have s: "tab ?s = demo_table 2 5 3 1" "kobjs ?s = demo_counts 2"
    by (simp_all add: demo_state_def)
  have "unat (m_ref_count (kobjs ?s) x) + length [0x10000, 0x8000 :: Handle] < 2 ^ 32" for x
    by (simp add: s demo_counts_def demo_objects_def)
  moreover have "\<not> (\<forall>h \<in> set [0x10000, 0x8000]. of_class 1 (demo_table 2 5 3 1) (demo_counts 2) h)"
    by (simp add: of_class_def GetObjectImpl_def IsValidHandle_def demo_decode demo_table_def)
  ultimately show ?thesis
    using GetMultipleObjects_all_or_nothing [OF demo_inv(1), of "[0x10000, 0x8000]" 1] unfolding s by auto
qed

end
