(* ===== verification/Kern_ResourceLimit.thy ===== *)
theory Kern_ResourceLimit
  imports Ams_Prelude
begin

text \<open>
  The resource limit of a process tree (\<^verbatim>\<open>KResourceLimit\<close>, \<^verbatim>\<open>kern_k_resource_limit.cpp\<close>): five counters
  with limits, reserved and released by threads that may have to wait for each other. Values are
  \<^verbatim>\<open>s64\<close>, kept at their width: a sum wraps. A method runs under the object's lock up to where it waits
  on the condition variable, so a call of \<^verbatim>\<open>Reserve\<close> is a first part and one part per wake-up.
\<close>

section \<open>The object\<close>

type_synonym s64 = "64 word"

datatype LimitableResource =
    PhysicalMemoryMax
  | ThreadCountMax
  | EventCountMax
  | TransferMemoryCountMax
  | SessionCountMax

record KResourceLimit =
  m_limit_values :: "LimitableResource \<Rightarrow> s64"
  m_current_values :: "LimitableResource \<Rightarrow> s64"
  m_current_hints :: "LimitableResource \<Rightarrow> s64"
  m_peak_values :: "LimitableResource \<Rightarrow> s64"
  m_waiter_count :: int

definition sle :: "s64 \<Rightarrow> s64 \<Rightarrow> bool" where
  "sle x y \<longleftrightarrow> sint x \<le> sint y"

definition smax :: "s64 \<Rightarrow> s64 \<Rightarrow> s64" where
  "smax x y = (if sle y x then x else y)"

definition KResourceLimit_Initialize :: "KResourceLimit \<Rightarrow> KResourceLimit" where
  "KResourceLimit_Initialize r =
     r\<lparr>m_waiter_count := 0, m_limit_values := (\<lambda>_. 0), m_current_values := (\<lambda>_. 0),
       m_current_hints := (\<lambda>_. 0), m_peak_values := (\<lambda>_. 0)\<rparr>"

definition GetLimitValue :: "LimitableResource \<Rightarrow> KResourceLimit \<Rightarrow> s64" where
  "GetLimitValue which r = m_limit_values r which"

definition GetCurrentValue :: "LimitableResource \<Rightarrow> KResourceLimit \<Rightarrow> s64" where
  "GetCurrentValue which r = m_current_values r which"

definition GetPeakValue :: "LimitableResource \<Rightarrow> KResourceLimit \<Rightarrow> s64" where
  "GetPeakValue which r = m_peak_values r which"

definition GetFreeValue :: "LimitableResource \<Rightarrow> KResourceLimit \<Rightarrow> s64" where
  "GetFreeValue which r = m_limit_values r which - m_current_values r which"

datatype limit_error = InvalidState

definition SetLimitValue :: "LimitableResource \<Rightarrow> s64 \<Rightarrow> KResourceLimit \<Rightarrow> (limit_error + unit) \<times> KResourceLimit" where
  "SetLimitValue which v r =
     (if \<not> sle (m_current_values r which) v then (Inl InvalidState, r)
      else (Inr (), r\<lparr>m_limit_values := (m_limit_values r)(which := v),
                      m_peak_values := (m_peak_values r)(which := m_current_values r which)\<rparr>))"

text \<open>\<^verbatim>\<open>Add\<close>; \<open>None\<close> is an abort.\<close>

definition KResourceLimit_Add :: "LimitableResource \<Rightarrow> s64 \<Rightarrow> KResourceLimit \<Rightarrow> KResourceLimit option" where
  "KResourceLimit_Add which v r =
     (let increased_limit = m_limit_values r which + v;
          increased_current = m_current_values r which + v;
          increased_hint = m_current_hints r which + v
      in if \<not> sle v 0 \<and>
            sle (m_current_values r which) (m_peak_values r which) \<and>
            sle (m_peak_values r which) (m_limit_values r which) \<and>
            sle (m_current_hints r which) (m_current_values r which) \<and>
            \<not> sle increased_limit (m_limit_values r which) \<and>
            \<not> sle increased_current (m_current_values r which) \<and>
            \<not> sle increased_hint (m_current_hints r which)
         then Some (r\<lparr>m_limit_values := (m_limit_values r)(which := increased_limit),
                      m_current_values := (m_current_values r)(which := increased_current),
                      m_current_hints := (m_current_hints r)(which := increased_hint),
                      m_peak_values := (m_peak_values r)(which := smax (m_peak_values r which) increased_current)\<rparr>)
         else None)"

datatype reserve_outcome = Reserved | Refused | Waits

text \<open>One pass through the loop of \<^verbatim>\<open>Reserve\<close>; \<open>tick\<close> is what the hardware timer reads.\<close>

definition Reserve_pass ::
    "LimitableResource \<Rightarrow> s64 \<Rightarrow> s64 \<Rightarrow> s64 \<Rightarrow> KResourceLimit \<Rightarrow> reserve_outcome \<times> KResourceLimit" where
  "Reserve_pass which v timeout tick r =
     (let cur = m_current_values r which
      in if sle (cur + v) cur then (Refused, r)
         else if sle (cur + v) (m_limit_values r which)
         then (Reserved, r\<lparr>m_current_values := (m_current_values r)(which := cur + v),
                           m_current_hints := (m_current_hints r)(which := m_current_hints r which + v),
                           m_peak_values := (m_peak_values r)(which := smax (m_peak_values r which) (cur + v))\<rparr>)
         else if sle (m_current_hints r which + v) (m_limit_values r which) \<and>
                 (\<not> sle 0 timeout \<or> \<not> sle timeout tick)
         then (Waits, r\<lparr>m_waiter_count := m_waiter_count r + 1\<rparr>)
         else (Refused, r))"

definition Reserve_begin ::
    "LimitableResource \<Rightarrow> s64 \<Rightarrow> s64 \<Rightarrow> s64 \<Rightarrow> KResourceLimit \<Rightarrow> reserve_outcome \<times> KResourceLimit" where
  "Reserve_begin which v timeout tick r =
     (if sle (m_limit_values r which) (m_current_hints r which) then (Refused, r)
      else Reserve_pass which v timeout tick r)"

text \<open>After the wait, with the lock held again.\<close>

definition Reserve_wake ::
    "LimitableResource \<Rightarrow> s64 \<Rightarrow> s64 \<Rightarrow> s64 \<Rightarrow> bool \<Rightarrow> KResourceLimit \<Rightarrow> reserve_outcome \<times> KResourceLimit" where
  "Reserve_wake which v timeout tick terminating r =
     (let r = r\<lparr>m_waiter_count := m_waiter_count r - 1\<rparr>
      in if terminating then (Refused, r) else Reserve_pass which v timeout tick r)"

text \<open>\<^verbatim>\<open>Release\<close>, with whether it broadcasts.\<close>

definition Release :: "LimitableResource \<Rightarrow> s64 \<Rightarrow> s64 \<Rightarrow> KResourceLimit \<Rightarrow> bool \<times> KResourceLimit" where
  "Release which v hint r =
     (m_waiter_count r \<noteq> 0,
      r\<lparr>m_current_values := (m_current_values r)(which := m_current_values r which - v),
        m_current_hints := (m_current_hints r)(which := m_current_hints r which - hint)\<rparr>)"

section \<open>Threads using it\<close>

text \<open>
  A grant is what a successful \<^verbatim>\<open>Reserve\<close> or \<^verbatim>\<open>Add\<close> leaves to be released: of which resource, the value
  and the hint that remain. A waiting thread has its arguments and whether it was signalled; it may stop waiting at
  any time, because it was signalled, its time is up or it is terminated.
\<close>

record waiter =
  w_which :: LimitableResource
  w_value :: s64
  w_timeout :: s64
  w_signalled :: bool

record rl_state =
  limits :: KResourceLimit
  grants :: "(LimitableResource \<times> int \<times> int) list"
  waiters :: "(nat \<times> waiter) list"

definition waits :: "nat \<Rightarrow> LimitableResource \<Rightarrow> s64 \<Rightarrow> s64 \<Rightarrow> reserve_outcome \<times> KResourceLimit \<Rightarrow> rl_state \<Rightarrow> rl_state" where
  "waits tid which v timeout res s =
     (case fst res of
        Reserved \<Rightarrow> s\<lparr>limits := snd res, grants := (which, sint v, sint v) # grants s\<rparr>
      | Refused \<Rightarrow> s\<lparr>limits := snd res\<rparr>
      | Waits \<Rightarrow> s\<lparr>limits := snd res,
          waiters := (tid, \<lparr>w_which = which, w_value = v, w_timeout = timeout, w_signalled = False\<rparr>) # waiters s\<rparr>)"

datatype rl_event =
    Reserving nat LimitableResource s64 reserve_outcome
  | Waking nat reserve_outcome
  | Releasing LimitableResource s64 s64
  | SettingLimit LimitableResource s64 bool
  | Adding LimitableResource s64

inductive rl_step :: "rl_state \<Rightarrow> rl_event \<Rightarrow> rl_state \<Rightarrow> bool" where
  reserving: "sle 0 v \<Longrightarrow> tid \<notin> fst ` set (waiters s) \<Longrightarrow> res = Reserve_begin which v timeout tick (limits s) \<Longrightarrow>
    rl_step s (Reserving tid which v (fst res)) (waits tid which v timeout res s)"
| waking: "waiters s = ws1 @ (tid, w) # ws2 \<Longrightarrow>
    res = Reserve_wake (w_which w) (w_value w) (w_timeout w) tick terminating (limits s) \<Longrightarrow>
    rl_step s (Waking tid (fst res))
      (waits tid (w_which w) (w_value w) (w_timeout w) res (s\<lparr>waiters := ws1 @ ws2\<rparr>))"
| releasing: "grants s = gs1 @ (which, a, b) # gs2 \<Longrightarrow> 0 \<le> sint hint \<Longrightarrow> sint hint \<le> b \<Longrightarrow>
    0 \<le> sint v \<Longrightarrow> b - sint hint \<le> a - sint v \<Longrightarrow> Release which v hint (limits s) = (wakes, r') \<Longrightarrow>
    rl_step s (Releasing which v hint)
      (s\<lparr>limits := r', grants := gs1 @ (which, a - sint v, b - sint hint) # gs2,
         waiters := (if wakes then map (apsnd (w_signalled_update (\<lambda>_. True))) (waiters s) else waiters s)\<rparr>)"
| setting: "SetLimitValue which v (limits s) = (e, r') \<Longrightarrow>
    rl_step s (SettingLimit which v (e = Inr ())) (s\<lparr>limits := r'\<rparr>)"
| adding: "KResourceLimit_Add which v (limits s) = Some r' \<Longrightarrow>
    rl_step s (Adding which v) (s\<lparr>limits := r', grants := (which, sint v, sint v) # grants s\<rparr>)"

section \<open>Invariant\<close>

definition granted :: "(LimitableResource \<times> int \<times> int) list \<Rightarrow> LimitableResource \<Rightarrow> int" where
  "granted gs which = (\<Sum>(x, a, b) \<leftarrow> gs. if x = which then a else 0)"

definition hinted :: "(LimitableResource \<times> int \<times> int) list \<Rightarrow> LimitableResource \<Rightarrow> int" where
  "hinted gs which = (\<Sum>(x, a, b) \<leftarrow> gs. if x = which then b else 0)"

definition rl_inv :: "rl_state \<Rightarrow> bool" where
  "rl_inv s \<longleftrightarrow>
     (\<forall>w. sint (m_current_values (limits s) w) = granted (grants s) w \<and>
          sint (m_current_hints (limits s) w) = hinted (grants s) w \<and>
          sint (m_current_values (limits s) w) \<le> sint (m_peak_values (limits s) w) \<and>
          sint (m_peak_values (limits s) w) \<le> sint (m_limit_values (limits s) w)) \<and>
     (\<forall>(x, a, b) \<in> set (grants s). 0 \<le> b \<and> b \<le> a) \<and>
     (\<forall>(tid, w) \<in> set (waiters s). 0 < sint (w_value w)) \<and>
     distinct (map fst (waiters s)) \<and>
     m_waiter_count (limits s) = int (length (waiters s))"

section \<open>Arithmetic\<close>

lemma sint_s64_bounds: "- (2 ^ 63) \<le> sint (x :: s64)" "sint (x :: s64) < 2 ^ 63"
  using sint_range_size [of x] by (auto simp: word_size)

lemma sint_s64_add: "sint (x + y :: s64) =
  (if sint x + sint y < - (2 ^ 63) then sint x + sint y + 2 ^ 64
   else if sint x + sint y < 2 ^ 63 then sint x + sint y else sint x + sint y - 2 ^ 64)"
proof -
  let ?k = "sint x + sint y"
  have "sint (x + y) = take_bit 64 (?k + 2 ^ 63) - 2 ^ 63"
    by (simp add: sint_word_ariths signed_take_bit_eq_take_bit_shift)
  moreover have "take_bit 64 (?k + 2 ^ 63) = ?k + 2 ^ 63 + 2 ^ 64" if "?k < - (2 ^ 63)"
  proof -
    have "(?k + 2 ^ 63) mod 2 ^ 64 = (?k + 2 ^ 63 + 2 ^ 64) mod 2 ^ 64" by (rule mod_add_self2 [symmetric])
    also have "\<dots> = ?k + 2 ^ 63 + 2 ^ 64"
      using that sint_s64_bounds(1) [of x] sint_s64_bounds(1) [of y] by (intro mod_pos_pos_trivial) auto
    finally show ?thesis by (simp add: take_bit_eq_mod)
  qed
  moreover have "take_bit 64 (?k + 2 ^ 63) = ?k + 2 ^ 63" if "\<not> ?k < - (2 ^ 63)" "?k < 2 ^ 63"
    using that by (simp add: take_bit_int_eq_self)
  moreover have "take_bit 64 (?k + 2 ^ 63) = ?k + 2 ^ 63 - 2 ^ 64" if "\<not> ?k < 2 ^ 63"
  proof -
    have "(?k + 2 ^ 63) mod 2 ^ 64 = (?k + 2 ^ 63 - 2 ^ 64) mod 2 ^ 64" by (rule minus_mod_self2 [symmetric])
    also have "\<dots> = ?k + 2 ^ 63 - 2 ^ 64"
      using that sint_s64_bounds(2) [of x] sint_s64_bounds(2) [of y] by (intro mod_pos_pos_trivial) auto
    finally show ?thesis by (simp add: take_bit_eq_mod)
  qed
  ultimately show ?thesis by auto
qed

lemma sint_s64_sub:
  assumes "0 \<le> sint y" "sint y \<le> sint (x :: s64)"
  shows "sint (x - y) = sint x - sint y"
proof -
  have "sint x = sint (x - y) + sint y \<or> sint x = sint (x - y) + sint y - 2 ^ 64"
    using sint_s64_add [of "x - y" y] assms sint_s64_bounds [of "x - y"] by (auto split: if_splits)
  then show ?thesis
    using assms sint_s64_bounds [of "x - y"] sint_s64_bounds [of y] sint_s64_bounds [of x] by auto
qed

text \<open>The test for overflow: the sum is larger exactly when it is the sum.\<close>

lemma overflow_test:
  assumes "0 \<le> sint v" "0 \<le> sint (x :: s64)"
  shows "sle (x + v) x \<longleftrightarrow> sint v = 0 \<or> 2 ^ 63 \<le> sint x + sint v"
    "\<not> sle (x + v) x \<Longrightarrow> sint (x + v) = sint x + sint v"
  using sint_s64_add [of x v] assms sint_s64_bounds [of x] sint_s64_bounds [of v]
  by (auto simp: sle_def split: if_splits)

section \<open>The operations keep the invariant\<close>

lemma granted_simps [simp]:
  "granted [] w = 0" "granted ((x, a, b) # gs) w = (if x = w then a else 0) + granted gs w"
  "granted (gs @ gs') w = granted gs w + granted gs' w"
  by (simp_all add: granted_def)

lemma hinted_simps [simp]:
  "hinted [] w = 0" "hinted ((x, a, b) # gs) w = (if x = w then b else 0) + hinted gs w"
  "hinted (gs @ gs') w = hinted gs w + hinted gs' w"
  by (simp_all add: hinted_def)

lemma hinted_le_granted: "\<forall>(x, a, b) \<in> set gs. 0 \<le> b \<and> b \<le> a \<Longrightarrow> 0 \<le> hinted gs w \<and> hinted gs w \<le> granted gs w"
  by (induction gs) auto

lemma rl_invD:
  assumes "rl_inv s"
  shows "sint (m_current_values (limits s) w) = granted (grants s) w"
    "sint (m_current_hints (limits s) w) = hinted (grants s) w"
    "0 \<le> sint (m_current_hints (limits s) w)"
    "sint (m_current_hints (limits s) w) \<le> sint (m_current_values (limits s) w)"
    "sint (m_current_values (limits s) w) \<le> sint (m_peak_values (limits s) w)"
    "sint (m_peak_values (limits s) w) \<le> sint (m_limit_values (limits s) w)"
    "0 \<le> sint (m_current_values (limits s) w)"
    "\<forall>(x, a, b) \<in> set (grants s). 0 \<le> b \<and> b \<le> a"
    "\<forall>(tid, w) \<in> set (waiters s). 0 < sint (w_value w)"
    "distinct (map fst (waiters s))" "m_waiter_count (limits s) = int (length (waiters s))"
proof -
  show g: "\<forall>(x, a, b) \<in> set (grants s). 0 \<le> b \<and> b \<le> a"
    using assms by (simp add: rl_inv_def)
  show c: "sint (m_current_values (limits s) w) = granted (grants s) w"
    "sint (m_current_hints (limits s) w) = hinted (grants s) w"
    using assms unfolding rl_inv_def by blast+
  show "0 \<le> sint (m_current_hints (limits s) w)"
    "sint (m_current_hints (limits s) w) \<le> sint (m_current_values (limits s) w)"
    "0 \<le> sint (m_current_values (limits s) w)"
    using hinted_le_granted [OF g, of w] by (simp_all add: c)
  show "\<forall>(tid, w) \<in> set (waiters s). 0 < sint (w_value w)"
    "distinct (map fst (waiters s))" "m_waiter_count (limits s) = int (length (waiters s))"
    "sint (m_current_values (limits s) w) \<le> sint (m_peak_values (limits s) w)"
    "sint (m_peak_values (limits s) w) \<le> sint (m_limit_values (limits s) w)"
    using assms unfolding rl_inv_def by blast+
qed

lemma rl_invI:
  assumes "\<And>w. sint (m_current_values (limits s) w) = granted (grants s) w"
    "\<And>w. sint (m_current_hints (limits s) w) = hinted (grants s) w"
    "\<And>w. sint (m_current_values (limits s) w) \<le> sint (m_peak_values (limits s) w)"
    "\<And>w. sint (m_peak_values (limits s) w) \<le> sint (m_limit_values (limits s) w)"
    "\<forall>(x, a, b) \<in> set (grants s). 0 \<le> b \<and> b \<le> a"
    "\<forall>(tid, w) \<in> set (waiters s). 0 < sint (w_value w)"
    "distinct (map fst (waiters s))" "m_waiter_count (limits s) = int (length (waiters s))"
  shows "rl_inv s"
  using assms unfolding rl_inv_def by blast

text \<open>What one pass of \<^verbatim>\<open>Reserve\<close> decides, over the unbounded integers.\<close>

definition decides :: "LimitableResource \<Rightarrow> s64 \<Rightarrow> s64 \<Rightarrow> s64 \<Rightarrow> KResourceLimit \<Rightarrow> reserve_outcome" where
  "decides which v timeout tick r =
     (let c = sint (m_current_values r which) + sint v;
          h = sint (m_current_hints r which) + sint v;
          l = sint (m_limit_values r which)
      in if sint v = 0 then Refused
         else if c \<le> l then Reserved
         else if h \<le> l \<and> c < 2 ^ 63 \<and> (sint timeout < 0 \<or> sint tick < sint timeout) then Waits
         else Refused)"

lemma Reserve_pass_decides:
  assumes inv: "rl_inv s" and v: "0 \<le> sint v"
  shows "fst (Reserve_pass which v timeout tick (limits s)) = decides which v timeout tick (limits s)"
proof -
  note D = rl_invD(1-7) [OF inv, of which]
  let ?c = "m_current_values (limits s) which"
  have l: "sint (m_limit_values (limits s) which) < 2 ^ 63"
    by (rule sint_s64_bounds)
  show ?thesis
  proof (cases "sle (?c + v) ?c")
    case True
    then have "sint v = 0 \<or> 2 ^ 63 \<le> sint ?c + sint v"
      using overflow_test(1) [OF v D(7)] by simp
    then show ?thesis
      using True l v by (auto simp: Reserve_pass_def decides_def Let_def)
  next
    case False
    then have nz: "sint v \<noteq> 0" "sint ?c + sint v < 2 ^ 63"
      using overflow_test(1) [OF v D(7)] by auto
    have c: "sint (?c + v) = sint ?c + sint v"
      by (rule overflow_test(2) [OF v D(7) False])
    have h: "sint (m_current_hints (limits s) which + v) = sint (m_current_hints (limits s) which) + sint v"
      using sint_s64_add [of "m_current_hints (limits s) which" v] D(3,4) nz(2) v by simp
    show ?thesis
      using False nz c h by (auto simp: Reserve_pass_def decides_def Let_def sle_def not_le)
  qed
qed

lemma Reserve_pass_Reserved:
  assumes inv: "rl_inv s" and v: "0 \<le> sint v"
    and res: "fst (Reserve_pass which v timeout tick (limits s)) = Reserved"
  defines "r' \<equiv> snd (Reserve_pass which v timeout tick (limits s))"
  shows "sint (m_current_values r' w) = sint (m_current_values (limits s) w) + (if w = which then sint v else 0)"
    "sint (m_current_hints r' w) = sint (m_current_hints (limits s) w) + (if w = which then sint v else 0)"
    "m_limit_values r' = m_limit_values (limits s)" "m_waiter_count r' = m_waiter_count (limits s)"
    "sint (m_current_values r' w) \<le> sint (m_peak_values r' w)"
    "sint (m_peak_values r' w) \<le> sint (m_limit_values r' w)"
proof -
  note D = rl_invD [OF inv]
  let ?c = "m_current_values (limits s) which"
  have nov: "\<not> sle (?c + v) ?c" and fits: "sle (?c + v) (m_limit_values (limits s) which)"
    using res by (auto simp: Reserve_pass_def Let_def split: if_splits)
  have r': "r' = limits s\<lparr>m_current_values := (m_current_values (limits s))(which := ?c + v),
      m_current_hints := (m_current_hints (limits s))(which := m_current_hints (limits s) which + v),
      m_peak_values := (m_peak_values (limits s))(which := smax (m_peak_values (limits s) which) (?c + v))\<rparr>"
    using nov fits by (simp add: r'_def Reserve_pass_def Let_def)
  have c: "sint (?c + v) = sint ?c + sint v" "sint ?c + sint v < 2 ^ 63"
    using overflow_test [OF v D(7)] nov by auto
  have h: "sint (m_current_hints (limits s) which + v) = sint (m_current_hints (limits s) which) + sint v"
    using sint_s64_add [of "m_current_hints (limits s) which" v] D(3,4) [of which] c(2) v by simp
  show "sint (m_current_values r' w) = sint (m_current_values (limits s) w) + (if w = which then sint v else 0)"
    "sint (m_current_hints r' w) = sint (m_current_hints (limits s) w) + (if w = which then sint v else 0)"
    "m_limit_values r' = m_limit_values (limits s)" "m_waiter_count r' = m_waiter_count (limits s)"
    using c(1) h by (simp_all add: r')
  show "sint (m_current_values r' w) \<le> sint (m_peak_values r' w)"
    using D(5) [of w] by (auto simp: r' smax_def sle_def)
  show "sint (m_peak_values r' w) \<le> sint (m_limit_values r' w)"
    using D(6) [of w] fits by (auto simp: r' smax_def sle_def)
qed

lemma Reserve_pass_other:
  "fst (Reserve_pass which v timeout tick r) = Waits \<Longrightarrow>
     snd (Reserve_pass which v timeout tick r) = r\<lparr>m_waiter_count := m_waiter_count r + 1\<rparr>"
  "fst (Reserve_pass which v timeout tick r) = Refused \<Longrightarrow> snd (Reserve_pass which v timeout tick r) = r"
  by (auto simp: Reserve_pass_def Let_def split: if_splits)

lemma pass_inv:
  assumes inv: "rl_inv s" and v: "0 \<le> sint v" and tid: "tid \<notin> fst ` set (waiters s)"
  shows "rl_inv (waits tid which v timeout (Reserve_pass which v timeout tick (limits s)) s)"
proof (cases "fst (Reserve_pass which v timeout tick (limits s))")
  case Reserved
  note R = Reserve_pass_Reserved [OF inv v Reserved]
  note D = rl_invD [OF inv]
  show ?thesis
    by (rule rl_invI) (use R D(1,2) D(8-11) v in \<open>auto simp: waits_def Reserved\<close>)
next
  case Refused
  then show ?thesis
    using inv Reserve_pass_other(2) [OF Refused] by (simp add: waits_def)
next
  case Waits
  then have "0 < sint v"
    using Reserve_pass_decides [OF inv v, of which timeout tick] v
    by (auto simp: decides_def Let_def split: if_splits)
  moreover note Reserve_pass_other(1) [OF Waits] rl_invD [OF inv]
  ultimately show ?thesis
    by (intro rl_invI) (use tid in \<open>auto simp: waits_def Waits\<close>)
qed

lemma waits_limits [simp]: "waits tid which v timeout res (s\<lparr>limits := r\<rparr>) = waits tid which v timeout res s"
  by (simp add: waits_def split: reserve_outcome.split)

lemma awake_inv:
  assumes "rl_inv s" "waiters s = ws1 @ (tid, w) # ws2"
  shows "rl_inv (s\<lparr>waiters := ws1 @ ws2, limits := limits s\<lparr>m_waiter_count := m_waiter_count (limits s) - 1\<rparr>\<rparr>)"
    "tid \<notin> fst ` set (ws1 @ ws2)" "0 < sint (w_value w)"
proof -
  note D = rl_invD [OF assms(1)]
  show "tid \<notin> fst ` set (ws1 @ ws2)" "0 < sint (w_value w)"
    using D(9,10) assms(2) by auto
  show "rl_inv (s\<lparr>waiters := ws1 @ ws2, limits := limits s\<lparr>m_waiter_count := m_waiter_count (limits s) - 1\<rparr>\<rparr>)"
    by (rule rl_invI) (use D(1,2,5,6) D(8-11) assms(2) in auto)
qed

lemma release_inv:
  assumes inv: "rl_inv s" and g: "grants s = gs1 @ (which, a, b) # gs2"
    and h: "0 \<le> sint hint" "sint hint \<le> b" and v: "0 \<le> sint v" "b - sint hint \<le> a - sint v"
    and rel: "Release which v hint (limits s) = (wakes, r')"
  shows "rl_inv (s\<lparr>limits := r', grants := gs1 @ (which, a - sint v, b - sint hint) # gs2,
    waiters := (if wakes then map (apsnd (w_signalled_update (\<lambda>_. True))) (waiters s) else waiters s)\<rparr>)"
proof -
  note D = rl_invD [OF inv]
  have r': "r' = limits s\<lparr>m_current_values := (m_current_values (limits s))(which := m_current_values (limits s) which - v),
      m_current_hints := (m_current_hints (limits s))(which := m_current_hints (limits s) which - hint)\<rparr>"
    using rel by (auto simp: Release_def)
  have ok: "\<forall>(x, a, b) \<in> set gs1. 0 \<le> b \<and> b \<le> a" "\<forall>(x, a, b) \<in> set gs2. 0 \<le> b \<and> b \<le> a"
    using D(8) g by auto
  have "a \<le> granted (grants s) which" "b \<le> hinted (grants s) which"
    using hinted_le_granted [OF ok(1), of which] hinted_le_granted [OF ok(2), of which] by (simp_all add: g)
  then have le: "sint v \<le> sint (m_current_values (limits s) which)" "sint hint \<le> sint (m_current_hints (limits s) which)"
    using h v D(1,2) by simp_all
  have c: "sint (m_current_values (limits s) which - v) = granted (grants s) which - sint v"
    "sint (m_current_hints (limits s) which - hint) = hinted (grants s) which - sint hint"
    using sint_s64_sub [OF v(1) le(1)] sint_s64_sub [OF h(1) le(2)] D(1,2) by simp_all
  have w: "map (fst \<circ> apsnd f) ws = map fst ws" for f and ws :: "(nat \<times> waiter) list"
    by (induction ws) auto
  show ?thesis
  proof (rule rl_invI)
    fix w
    let ?s = "s\<lparr>limits := r', grants := gs1 @ (which, a - sint v, b - sint hint) # gs2,
      waiters := (if wakes then map (apsnd (w_signalled_update (\<lambda>_. True))) (waiters s) else waiters s)\<rparr>"
    show "sint (m_current_values (limits ?s) w) = granted (grants ?s) w"
      "sint (m_current_hints (limits ?s) w) = hinted (grants ?s) w"
      using c D(1,2) [of w] g by (auto simp: r')
    show "sint (m_current_values (limits ?s) w) \<le> sint (m_peak_values (limits ?s) w)"
      using c(1) D(1,5) [of w] v(1) by (auto simp: r')
  qed (use D(6) D(9-11) ok h v w in \<open>auto simp: r'\<close>)
qed

lemma set_limit_inv:
  assumes inv: "rl_inv s" and set: "SetLimitValue which v (limits s) = (e, r')"
  shows "rl_inv (s\<lparr>limits := r'\<rparr>)"
proof -
  note D = rl_invD [OF inv]
  show ?thesis
    by (rule rl_invI) (use D(1,2,5,6) D(8-11) set in \<open>auto simp: SetLimitValue_def sle_def split: if_splits\<close>)
qed

lemma add_inv:
  assumes inv: "rl_inv s" and add: "KResourceLimit_Add which v (limits s) = Some r'"
  shows "rl_inv (s\<lparr>limits := r', grants := (which, sint v, sint v) # grants s\<rparr>)"
    "sint (m_limit_values r' w) - sint (m_current_values r' w) =
       sint (m_limit_values (limits s) w) - sint (m_current_values (limits s) w)"
proof -
  note D = rl_invD [OF inv]
  let ?l = "m_limit_values (limits s) which" and ?c = "m_current_values (limits s) which"
    and ?h = "m_current_hints (limits s) which"
  have v: "0 < sint v" and ov: "\<not> sle (?l + v) ?l" "\<not> sle (?c + v) ?c" "\<not> sle (?h + v) ?h"
    and r': "r' = limits s\<lparr>m_limit_values := (m_limit_values (limits s))(which := ?l + v),
      m_current_values := (m_current_values (limits s))(which := ?c + v),
      m_current_hints := (m_current_hints (limits s))(which := ?h + v),
      m_peak_values := (m_peak_values (limits s))(which := smax (m_peak_values (limits s) which) (?c + v))\<rparr>"
    using add by (auto simp: KResourceLimit_Add_def Let_def sle_def split: if_splits)
  have nn: "0 \<le> sint v" "0 \<le> sint ?l" "0 \<le> sint ?c" "0 \<le> sint ?h"
    using v D(3,7) [of which] D(5,6) [of which] by linarith+
  have sums: "sint (?l + v) = sint ?l + sint v" "sint (?c + v) = sint ?c + sint v" "sint (?h + v) = sint ?h + sint v"
    using overflow_test(2) [OF nn(1) nn(2) ov(1)] overflow_test(2) [OF nn(1) nn(3) ov(2)]
      overflow_test(2) [OF nn(1) nn(4) ov(3)] .
  show "sint (m_limit_values r' w) - sint (m_current_values r' w) =
      sint (m_limit_values (limits s) w) - sint (m_current_values (limits s) w)"
    using sums by (simp add: r')
  show "rl_inv (s\<lparr>limits := r', grants := (which, sint v, sint v) # grants s\<rparr>)"
  proof (rule rl_invI)
    fix w
    let ?s = "s\<lparr>limits := r', grants := (which, sint v, sint v) # grants s\<rparr>"
    show "sint (m_peak_values (limits ?s) w) \<le> sint (m_limit_values (limits ?s) w)"
      using D(5,6) [of w] sums v by (auto simp: r' smax_def)
    show "sint (m_current_values (limits ?s) w) \<le> sint (m_peak_values (limits ?s) w)"
      using D(5) [of w] by (auto simp: r' smax_def sle_def)
  qed (use D(1,2) D(8-11) sums v in \<open>auto simp: r'\<close>)
qed

lemma Reserve_begin_pass:
  assumes inv: "rl_inv s" and v: "0 \<le> sint v"
  shows "Reserve_begin which v timeout tick (limits s) = Reserve_pass which v timeout tick (limits s)"
proof (cases "sle (m_limit_values (limits s) which) (m_current_hints (limits s) which)")
  case True
  then have "decides which v timeout tick (limits s) = Refused"
    using v rl_invD(4) [OF inv, of which] by (auto simp: decides_def Let_def sle_def)
  then have "fst (Reserve_pass which v timeout tick (limits s)) = Refused"
    using Reserve_pass_decides [OF inv v] by simp
  then show ?thesis
    using True Reserve_pass_other(2) [of which v timeout tick "limits s"]
    by (simp add: Reserve_begin_def prod_eq_iff)
qed (simp add: Reserve_begin_def)

lemma waking_inv:
  fixes tick :: s64 and terminating :: bool
  assumes inv: "rl_inv s" and w: "waiters s = ws1 @ (tid, w) # ws2"
  defines "s' \<equiv> s\<lparr>waiters := ws1 @ ws2, limits := limits s\<lparr>m_waiter_count := m_waiter_count (limits s) - 1\<rparr>\<rparr>"
    and "res \<equiv> Reserve_wake (w_which w) (w_value w) (w_timeout w) tick terminating (limits s)"
  shows "rl_inv (waits tid (w_which w) (w_value w) (w_timeout w) res (s\<lparr>waiters := ws1 @ ws2\<rparr>))"
    "waits tid (w_which w) (w_value w) (w_timeout w) res (s\<lparr>waiters := ws1 @ ws2\<rparr>) =
       (if terminating then s'
        else waits tid (w_which w) (w_value w) (w_timeout w)
          (Reserve_pass (w_which w) (w_value w) (w_timeout w) tick (limits s')) s')"
proof -
  note A = awake_inv [OF inv w, folded s'_def]
  have "s\<lparr>waiters := ws1 @ ws2\<rparr> = s'\<lparr>limits := limits s\<rparr>"
    by (simp add: s'_def)
  then show eq: "waits tid (w_which w) (w_value w) (w_timeout w) res (s\<lparr>waiters := ws1 @ ws2\<rparr>) =
      (if terminating then s'
       else waits tid (w_which w) (w_value w) (w_timeout w)
         (Reserve_pass (w_which w) (w_value w) (w_timeout w) tick (limits s')) s')"
    by (simp add: res_def Reserve_wake_def Let_def) (simp add: s'_def waits_def)
  have "tid \<notin> fst ` set (waiters s')"
    using A(2) by (simp add: s'_def)
  then show "rl_inv (waits tid (w_which w) (w_value w) (w_timeout w) res (s\<lparr>waiters := ws1 @ ws2\<rparr>))"
    using A(1) pass_inv [OF A(1), of "w_value w" tid] A(3) eq by simp
qed

lemma rl_step_inv: "rl_step s e s' \<Longrightarrow> rl_inv s \<Longrightarrow> rl_inv s'"
proof (induction rule: rl_step.induct)
  case (reserving v tid s res which timeout tick)
  have "0 \<le> sint v" using reserving.hyps(1) by (simp add: sle_def)
  then show ?case
    using pass_inv [OF reserving.prems _ reserving.hyps(2)] Reserve_begin_pass [OF reserving.prems] reserving.hyps(3)
    by simp
next
  case (waking s ws1 tid w ws2 res tick terminating)
  then show ?case using waking_inv(1) by blast
next
  case (releasing s gs1 which a b gs2 hint v wakes r')
  then show ?case using release_inv by blast
next
  case (setting which v s e r')
  then show ?case using set_limit_inv by blast
next
  case (adding which v s r')
  then show ?case using add_inv(1) by blast
qed

lemma rl_runs_inv: "runs rl_step s es s' \<Longrightarrow> rl_inv s \<Longrightarrow> rl_inv s'"
  by (induction rule: runs.induct) (auto intro: rl_step_inv)

definition rl_start :: "KResourceLimit \<Rightarrow> rl_state" where
  "rl_start r = \<lparr>limits = KResourceLimit_Initialize r, grants = [], waiters = []\<rparr>"

lemma rl_start_inv: "rl_inv (rl_start r)"
  by (rule rl_invI) (simp_all add: rl_start_def KResourceLimit_Initialize_def)

section \<open>Nobody sleeps who could run\<close>

definition no_sleeper :: "rl_state \<Rightarrow> bool" where
  "no_sleeper s \<longleftrightarrow> (\<forall>(tid, w) \<in> set (waiters s). w_signalled w \<or>
     sint (m_limit_values (limits s) (w_which w)) <
       sint (m_current_values (limits s) (w_which w)) + sint (w_value w))"

lemma no_sleeperI:
  assumes "no_sleeper s" "set ws \<subseteq> set (waiters s)"
    "\<And>w. sint (m_limit_values r w) - sint (m_current_values r w) \<le>
       sint (m_limit_values (limits s) w) - sint (m_current_values (limits s) w)"
  shows "no_sleeper (s'\<lparr>limits := r, waiters := ws\<rparr>)"
proof -
  have "w_signalled w \<or> sint (m_limit_values r (w_which w)) < sint (m_current_values r (w_which w)) + sint (w_value w)"
    if "(tid, w) \<in> set ws" for tid w
    using assms(1,2) assms(3) [of "w_which w"] that unfolding no_sleeper_def by force
  then show ?thesis
    by (auto simp: no_sleeper_def)
qed

lemma pass_no_sleeper:
  assumes inv: "rl_inv s" and v: "0 \<le> sint v" and ns: "no_sleeper s"
  shows "no_sleeper (waits tid which v timeout (Reserve_pass which v timeout tick (limits s)) s)"
proof (cases "fst (Reserve_pass which v timeout tick (limits s))")
  case Reserved
  note R = Reserve_pass_Reserved [OF inv v Reserved]
  let ?r = "snd (Reserve_pass which v timeout tick (limits s))"
  have "waits tid which v timeout (Reserve_pass which v timeout tick (limits s)) s =
      (s\<lparr>grants := (which, sint v, sint v) # grants s\<rparr>)\<lparr>limits := ?r, waiters := waiters s\<rparr>"
    by (simp add: waits_def Reserved)
  also have "no_sleeper \<dots>"
    using v by (intro no_sleeperI [OF ns]) (simp_all add: R(1,3))
  finally show ?thesis .
next
  case Refused
  then show ?thesis
    using ns Reserve_pass_other(2) [OF Refused] by (simp add: waits_def)
next
  case Waits
  then have "sint (m_limit_values (limits s) which) < sint (m_current_values (limits s) which) + sint v"
    using Reserve_pass_decides [OF inv v, of which timeout tick] by (auto simp: decides_def Let_def split: if_splits)
  then show ?thesis
    using ns Reserve_pass_other(1) [OF Waits] by (simp add: waits_def Waits no_sleeper_def)
qed

definition raises :: "rl_event \<Rightarrow> bool" where
  "raises e \<longleftrightarrow> (case e of SettingLimit _ _ ok \<Rightarrow> ok | _ \<Rightarrow> False)"

lemma rl_step_no_sleeper:
  "rl_step s e s' \<Longrightarrow> rl_inv s \<Longrightarrow> no_sleeper s \<Longrightarrow> \<not> raises e \<Longrightarrow> no_sleeper s'"
proof (induction rule: rl_step.induct)
  case (reserving v tid s res which timeout tick)
  have "0 \<le> sint v" using reserving.hyps(1) by (simp add: sle_def)
  then show ?case
    using pass_no_sleeper [OF reserving.prems(1) _ reserving.prems(2)] Reserve_begin_pass [OF reserving.prems(1)]
      reserving.hyps(3) by simp
next
  case (waking s ws1 tid w ws2 res tick terminating)
  let ?s = "s\<lparr>waiters := ws1 @ ws2, limits := limits s\<lparr>m_waiter_count := m_waiter_count (limits s) - 1\<rparr>\<rparr>"
  note A = awake_inv [OF waking.prems(1) waking.hyps(1)]
  have "no_sleeper (s\<lparr>limits := limits s\<lparr>m_waiter_count := m_waiter_count (limits s) - 1\<rparr>, waiters := ws1 @ ws2\<rparr>)"
    using waking.hyps(1) by (intro no_sleeperI [OF waking.prems(2)]) auto
  then have "no_sleeper ?s" by (simp add: no_sleeper_def)
  then show ?case
    using waking_inv(2) [OF waking.prems(1) waking.hyps(1)] pass_no_sleeper [OF A(1), of "w_value w"] A(3) waking.hyps(2)
    by simp
next
  case (releasing s gs1 which a b gs2 hint v wakes r')
  then have "wakes \<longleftrightarrow> waiters s \<noteq> []"
    using rl_invD(11) [OF releasing.prems(1)] by (auto simp: Release_def)
  then show ?case
    by (auto simp: no_sleeper_def)
next
  case (setting which v s e r')
  then have "e \<noteq> Inr ()" by (auto simp: raises_def)
  then have "r' = limits s"
    using setting.hyps by (auto simp: SetLimitValue_def split: if_splits)
  then show ?case using setting.prems by simp
next
  case (adding which v s r')
  have "no_sleeper ((s\<lparr>grants := (which, sint v, sint v) # grants s\<rparr>)\<lparr>limits := r', waiters := waiters s\<rparr>)"
    using add_inv(2) [OF adding.prems(1) adding.hyps] by (intro no_sleeperI [OF adding.prems(2)]) simp_all
  then show ?case by (simp add: no_sleeper_def)
qed

lemma rl_runs_no_sleeper:
  "runs rl_step s es s' \<Longrightarrow> rl_inv s \<Longrightarrow> no_sleeper s \<Longrightarrow> \<not> list_ex raises es \<Longrightarrow> no_sleeper s'"
  by (induction rule: runs.induct) (auto intro: rl_step_inv rl_step_no_sleeper)

section \<open>Two threads and one counter\<close>

definition demo_limits :: "s64 \<Rightarrow> s64 \<Rightarrow> s64 \<Rightarrow> s64 \<Rightarrow> int \<Rightarrow> KResourceLimit" where
  "demo_limits l c h p n =
     \<lparr>m_limit_values = (\<lambda>_. 0)(ThreadCountMax := l), m_current_values = (\<lambda>_. 0)(ThreadCountMax := c),
      m_current_hints = (\<lambda>_. 0)(ThreadCountMax := h), m_peak_values = (\<lambda>_. 0)(ThreadCountMax := p),
      m_waiter_count = n\<rparr>"

definition demo_waiter :: "bool \<Rightarrow> waiter" where
  "demo_waiter b = \<lparr>w_which = ThreadCountMax, w_value = 3, w_timeout = - 1, w_signalled = b\<rparr>"

definition demo_rl :: "KResourceLimit \<Rightarrow> (int \<times> int) list \<Rightarrow> (nat \<times> waiter) list \<Rightarrow> rl_state" where
  "demo_rl r gs ws = \<lparr>limits = r, grants = map (\<lambda>(a, b). (ThreadCountMax, a, b)) gs, waiters = ws\<rparr>"

lemma demo_set: "rl_step (rl_start r) (SettingLimit ThreadCountMax 4 True) (demo_rl (demo_limits 4 0 0 0 0) [] [])"
proof -
  have f: "(\<lambda>_ :: LimitableResource. 0 :: s64)(ThreadCountMax := 0) = (\<lambda>_. 0)" by auto
  have "SetLimitValue ThreadCountMax 4 (KResourceLimit_Initialize r) = (Inr (), demo_limits 4 0 0 0 0)"
    by (simp add: SetLimitValue_def KResourceLimit_Initialize_def demo_limits_def sle_def f)
  then show ?thesis
    using setting [of ThreadCountMax 4 "rl_start r" "Inr ()"] by (simp add: rl_start_def demo_rl_def)
qed

lemma demo_reserve: "rl_step (demo_rl (demo_limits 4 0 0 0 0) [] []) (Reserving 1 ThreadCountMax 3 Reserved)
  (demo_rl (demo_limits 4 3 3 3 0) [(3, 3)] [])"
proof -
  have "Reserve_begin ThreadCountMax 3 (- 1) 0 (demo_limits 4 0 0 0 0) = (Reserved, demo_limits 4 3 3 3 0)"
    by (simp add: Reserve_begin_def Reserve_pass_def Let_def demo_limits_def sle_def smax_def)
  then show ?thesis
    using reserving [OF _ _ refl, of 3 1 "demo_rl (demo_limits 4 0 0 0 0) [] []" ThreadCountMax "- 1" 0]
    by (simp add: sle_def waits_def demo_rl_def)
qed

lemma demo_release_hint: "rl_step (demo_rl (demo_limits 4 3 3 3 0) [(3, 3)] []) (Releasing ThreadCountMax 0 3)
  (demo_rl (demo_limits 4 3 0 3 0) [(3, 0)] [])"
  using releasing [of "demo_rl (demo_limits 4 3 3 3 0) [(3, 3)] []" "[]" ThreadCountMax 3 3 "[]" 3 0 False]
  by (simp add: Release_def demo_rl_def demo_limits_def)

lemma demo_wait: "rl_step (demo_rl (demo_limits 4 3 0 3 0) [(3, 0)] []) (Reserving 2 ThreadCountMax 3 Waits)
  (demo_rl (demo_limits 4 3 0 3 1) [(3, 0)] [(2, demo_waiter False)])"
proof -
  have "Reserve_begin ThreadCountMax 3 (- 1) 0 (demo_limits 4 3 0 3 0) = (Waits, demo_limits 4 3 0 3 1)"
    by (simp add: Reserve_begin_def Reserve_pass_def Let_def demo_limits_def sle_def)
  then show ?thesis
    using reserving [OF _ _ refl, of 3 2 "demo_rl (demo_limits 4 3 0 3 0) [(3, 0)] []" ThreadCountMax "- 1" 0]
    by (simp add: sle_def waits_def demo_rl_def demo_waiter_def)
qed

lemma demo_raise: "rl_step (demo_rl (demo_limits 4 3 0 3 1) [(3, 0)] [(2, demo_waiter False)])
  (SettingLimit ThreadCountMax 6 True) (demo_rl (demo_limits 6 3 0 3 1) [(3, 0)] [(2, demo_waiter False)])"
proof -
  have "SetLimitValue ThreadCountMax 6 (demo_limits 4 3 0 3 1) = (Inr (), demo_limits 6 3 0 3 1)"
    by (simp add: SetLimitValue_def demo_limits_def sle_def)
  then show ?thesis
    using setting [of ThreadCountMax 6 "demo_rl (demo_limits 4 3 0 3 1) [(3, 0)] [(2, demo_waiter False)]" "Inr ()"]
    by (simp add: demo_rl_def)
qed

lemma demo_rl_run: "runs rl_step (rl_start r)
  [SettingLimit ThreadCountMax 4 True, Reserving 1 ThreadCountMax 3 Reserved, Releasing ThreadCountMax 0 3,
   Reserving 2 ThreadCountMax 3 Waits] (demo_rl (demo_limits 4 3 0 3 1) [(3, 0)] [(2, demo_waiter False)])"
  by (rule runs_cons, rule demo_set, rule runs_cons, rule demo_reserve, rule runs_cons, rule demo_release_hint,
      rule runs_cons, rule demo_wait, rule runs_nil)

lemma demo_rl_inv: "rl_inv (demo_rl (demo_limits 4 0 0 0 0) [] [])" "rl_inv (demo_rl (demo_limits 4 3 0 3 0) [(3, 0)] [])"
proof -
  show "rl_inv (demo_rl (demo_limits 4 0 0 0 0) [] [])"
    by (rule rl_step_inv [OF demo_set [of "demo_limits 0 0 0 0 0"] rl_start_inv])
  from rl_step_inv [OF demo_release_hint rl_step_inv [OF demo_reserve this]]
  show "rl_inv (demo_rl (demo_limits 4 3 0 3 0) [(3, 0)] [])" .
qed

text \<open>\<^verbatim>\<open>SetLimitValue\<close> does not signal: a thread may sleep on although the raised limit has room for it.\<close>

lemma raised_limit_leaves_sleeper:
  "\<exists>es s. runs rl_step (rl_start r) es s \<and> (2, demo_waiter False) \<in> set (waiters s) \<and>
     decides ThreadCountMax (w_value (demo_waiter False)) (- 1) 0 (limits s) = Reserved"
proof -
  have "runs rl_step (demo_rl (demo_limits 4 3 0 3 1) [(3, 0)] [(2, demo_waiter False)])
      [SettingLimit ThreadCountMax 6 True] (demo_rl (demo_limits 6 3 0 3 1) [(3, 0)] [(2, demo_waiter False)])"
    by (rule runs_cons, rule demo_raise, rule runs_nil)
  note run = runs_append [OF demo_rl_run this]
  show ?thesis
    by (rule exI, rule exI, rule conjI, rule run)
      (simp add: demo_rl_def decides_def demo_limits_def demo_waiter_def)
qed

section \<open>Properties\<close>

text \<open>
  C36. However threads reserve, wait, are woken, release in parts, and however limits are set and
  added to, the counters of a resource limit add up: the current value is exactly what the grants
  still hold and the hint what they have not announced to release, with
  \<open>0 \<le> hint \<le> current \<le> peak \<le> limit\<close> and no wrap-around, the free value is the limit minus the
  current value, and the waiter count is the number of waiting threads.
\<close>

theorem resource_limit_accounts:
  assumes "runs rl_step (rl_start r) es s"
  shows "sint (GetCurrentValue w (limits s)) = granted (grants s) w \<and>
    sint (m_current_hints (limits s) w) = hinted (grants s) w \<and>
    0 \<le> hinted (grants s) w \<and> hinted (grants s) w \<le> granted (grants s) w \<and>
    granted (grants s) w \<le> sint (GetPeakValue w (limits s)) \<and>
    sint (GetPeakValue w (limits s)) \<le> sint (GetLimitValue w (limits s)) \<and>
    sint (GetFreeValue w (limits s)) = sint (GetLimitValue w (limits s)) - granted (grants s) w \<and>
    m_waiter_count (limits s) = int (length (waiters s))"
proof -
  have inv: "rl_inv s"
    by (rule rl_runs_inv [OF assms rl_start_inv])
  note D = rl_invD(1-7) [OF inv, of w] rl_invD(11) [OF inv]
  have "sint (GetFreeValue w (limits s)) = sint (m_limit_values (limits s) w) - sint (m_current_values (limits s) w)"
    unfolding GetFreeValue_def using D by (intro sint_s64_sub) simp_all
  then show ?thesis
    using D by (simp add: GetCurrentValue_def GetPeakValue_def GetLimitValue_def)
qed

theorem resource_limit_accounts_witness:
  "sint (GetFreeValue ThreadCountMax (demo_limits 4 3 0 3 1)) = 1"
  using resource_limit_accounts [OF demo_rl_run [of "demo_limits 0 0 0 0 0"], of ThreadCountMax]
  by (simp add: demo_rl_def GetLimitValue_def demo_limits_def)

text \<open>
  C37. What \<^verbatim>\<open>Reserve\<close> decides, over the unbounded integers although the code adds 64-bit values that
  wrap: it reserves exactly when the value is positive and the current value plus it is within the
  limit; it waits exactly when that is not so but the hint plus the value is within the limit, the
  sum does not overflow and the time is not up; it refuses otherwise. The early return on an
  exhausted hint changes nothing.
\<close>

theorem Reserve_decides:
  assumes "rl_inv s" "0 \<le> sint v"
  shows "fst (Reserve_begin which v timeout tick (limits s)) = decides which v timeout tick (limits s) \<and>
    (fst (Reserve_begin which v timeout tick (limits s)) = Reserved \<longrightarrow>
       sint (m_current_values (snd (Reserve_begin which v timeout tick (limits s))) which) =
         sint (m_current_values (limits s) which) + sint v) \<and>
    (fst (Reserve_begin which v timeout tick (limits s)) = Refused \<longrightarrow>
       snd (Reserve_begin which v timeout tick (limits s)) = limits s)"
  using Reserve_begin_pass [OF assms] Reserve_pass_decides [OF assms] Reserve_pass_Reserved(1) [OF assms]
    Reserve_pass_other(2) [of which v timeout tick "limits s"] by simp

theorem Reserve_decides_witness:
  "fst (Reserve_begin ThreadCountMax 3 (- 1) 0 (demo_limits 4 3 0 3 0)) = Waits"
  using Reserve_decides [OF demo_rl_inv(2), of 3 ThreadCountMax "- 1" 0]
  by (simp add: demo_rl_def decides_def demo_limits_def)

text \<open>
  C38. No wake-up is lost: after any operations in which no limit is set while threads wait, a waiting
  thread that was not signalled could not proceed, its value still does not fit under the limit. So
  what makes room, the last of the releases, has signalled it.
\<close>

theorem Reserve_no_lost_wakeup:
  assumes "rl_inv s0" "waiters s0 = []" "runs rl_step s0 es s" "\<not> list_ex raises es"
    "(tid, w) \<in> set (waiters s)" "\<not> w_signalled w"
  shows "fst (Reserve_pass (w_which w) (w_value w) timeout tick (limits s)) \<noteq> Reserved"
proof -
  have "no_sleeper s0"
    using assms(2) by (simp add: no_sleeper_def)
  then have "no_sleeper s"
    by (rule rl_runs_no_sleeper [OF assms(3,1) _ assms(4)])
  then have l: "sint (m_limit_values (limits s) (w_which w)) <
      sint (m_current_values (limits s) (w_which w)) + sint (w_value w)"
    using assms(5,6) by (auto simp: no_sleeper_def)
  have inv: "rl_inv s"
    by (rule rl_runs_inv [OF assms(3,1)])
  then have "0 < sint (w_value w)"
    using rl_invD(9) assms(5) by fastforce
  then show ?thesis
    using l Reserve_pass_decides [OF inv, of "w_value w"] by (simp add: decides_def Let_def)
qed

theorem Reserve_no_lost_wakeup_witness:
  "fst (Reserve_pass ThreadCountMax 3 (- 1) 0 (demo_limits 4 3 0 3 1)) \<noteq> Reserved"
proof -
  have "runs rl_step (demo_rl (demo_limits 4 3 0 3 0) [(3, 0)] []) [Reserving 2 ThreadCountMax 3 Waits]
      (demo_rl (demo_limits 4 3 0 3 1) [(3, 0)] [(2, demo_waiter False)])"
    by (rule runs_cons, rule demo_wait, rule runs_nil)
  from Reserve_no_lost_wakeup [OF demo_rl_inv(2) _ this, of 2 "demo_waiter False" "- 1" 0]
  show ?thesis
    by (simp add: demo_rl_def raises_def demo_waiter_def)
qed

end
