(* ===== verification/Kern_PageBitmap.thy ===== *)
theory Kern_PageBitmap
  imports Ams_Prelude
begin

text \<open>
  The hierarchical bitmap of the page heap (\<^verbatim>\<open>KPageBitmap\<close>, \<^verbatim>\<open>kern_k_page_bitmap.hpp\<close>). The bitmap
  words live in the management area, a memory of 64-bit words addressed by their index; each depth
  has a pointer into it. A word of depth \<open>d + 1\<close> that is not zero has its bit set at depth \<open>d\<close>, so
  that a set bit is found by descending from the single word of depth \<open>0\<close>. The counts are exact
  integers: they never exceed the number of bits.
\<close>

unbundle bit_operations_syntax

type_synonym words = "nat \<Rightarrow> u64"

section \<open>Random bits\<close>

text \<open>\<open>gen\<close> is \<^verbatim>\<open>TinyMT::GenerateRandomU32\<close>; what holds, holds for every generator.\<close>

record 'r RandomBitGenerator =
  m_rng :: 'r
  m_entropy :: u32
  m_bits_available :: nat

definition RefreshEntropy :: "('r \<Rightarrow> u32 \<times> 'r) \<Rightarrow> 'r RandomBitGenerator \<Rightarrow> 'r RandomBitGenerator" where
  "RefreshEntropy gen g =
     (let (v, r) = gen (m_rng g) in g\<lparr>m_rng := r, m_entropy := v, m_bits_available := 32\<rparr>)"

definition GenerateRandomBit :: "('r \<Rightarrow> u32 \<times> 'r) \<Rightarrow> 'r RandomBitGenerator \<Rightarrow> bool \<times> 'r RandomBitGenerator" where
  "GenerateRandomBit gen g =
     (let g = (if m_bits_available g = 0 then RefreshEntropy gen g else g)
      in (m_entropy g AND 1 \<noteq> 0,
          g\<lparr>m_entropy := drop_bit 1 (m_entropy g), m_bits_available := m_bits_available g - 1\<rparr>))"

function select_loop ::
    "('r \<Rightarrow> u32 \<times> 'r) \<Rightarrow> u64 \<Rightarrow> nat \<Rightarrow> nat \<Rightarrow> 'r RandomBitGenerator \<Rightarrow> nat \<times> 'r RandomBitGenerator" where
  "select_loop gen bitmap selected cur_num_bits g =
     (if cur_num_bits = 0 then (selected, g)
      else
        (let high = drop_bit cur_num_bits bitmap;
             low = bitmap AND NOT (push_bit cur_num_bits 0xFFFFFFFFFFFFFFFF)
         in if high \<noteq> 0 \<and> low = 0 then select_loop gen high (selected + cur_num_bits) (cur_num_bits div 2) g
            else if high \<noteq> 0
            then (let (b, g) = GenerateRandomBit gen g
                  in if b then select_loop gen high (selected + cur_num_bits) (cur_num_bits div 2) g
                     else select_loop gen low selected (cur_num_bits div 2) g)
            else select_loop gen low selected (cur_num_bits div 2) g))"
  by auto
termination
  by (relation "measure (\<lambda>(_, _, _, n, _). n)") auto

definition SelectRandomBit ::
    "('r \<Rightarrow> u32 \<times> 'r) \<Rightarrow> u64 \<Rightarrow> 'r RandomBitGenerator \<Rightarrow> nat \<times> 'r RandomBitGenerator" where
  "SelectRandomBit gen bitmap g = select_loop gen bitmap 0 (64 div 2) g"

section \<open>The bitmap\<close>

record 'r KPageBitmap =
  m_bit_storages :: "nat list"
  m_bitmap_rng :: "'r RandomBitGenerator"
  m_num_bits :: int
  m_used_depths :: nat

fun GetRequiredDepth :: "nat \<Rightarrow> nat" where
  "GetRequiredDepth region_size =
     (let region_size' = region_size div 64
      in if region_size' = 0 then 1 else Suc (GetRequiredDepth region_size'))"

declare GetRequiredDepth.simps [simp del]

text \<open>The loop that sets the pointers, from the highest depth down.\<close>

fun storage_loop :: "nat \<Rightarrow> nat \<Rightarrow> nat \<Rightarrow> nat list \<Rightarrow> nat list \<times> nat" where
  "storage_loop 0 storage sz ptrs = (ptrs, storage)"
| "storage_loop (Suc depth) storage sz ptrs =
     (let ptrs = ptrs[depth := storage];
          sz = AlignUp sz 64 div 64
      in storage_loop depth (storage + sz) sz ptrs)"

definition KPageBitmap_Initialize :: "nat \<Rightarrow> nat \<Rightarrow> 'r KPageBitmap \<Rightarrow> nat \<times> 'r KPageBitmap" where
  "KPageBitmap_Initialize storage sz bm =
     (let depths = GetRequiredDepth sz;
          (ptrs, storage') = storage_loop depths storage sz (m_bit_storages bm)
      in (storage', bm\<lparr>m_num_bits := 0, m_used_depths := depths, m_bit_storages := ptrs\<rparr>))"

text \<open>\<^verbatim>\<open>__builtin_ctzll\<close>.\<close>

definition ctzll :: "u64 \<Rightarrow> nat" where
  "ctzll v = length (takeWhile (\<lambda>i. \<not> bit v i) [0..<64])"

text \<open>The loops of \<^verbatim>\<open>FindFreeBlock\<close>; \<open>k\<close> depths are left. \<open>None\<close> is the result \<open>-1\<close>.\<close>

fun find_random ::
    "('r \<Rightarrow> u32 \<times> 'r) \<Rightarrow> 'r KPageBitmap \<Rightarrow> words \<Rightarrow> nat \<Rightarrow> nat \<Rightarrow> nat \<Rightarrow> 'r RandomBitGenerator \<Rightarrow>
     nat option \<times> 'r RandomBitGenerator" where
  "find_random gen bm mem 0 depth offset g = (Some offset, g)"
| "find_random gen bm mem (Suc k) depth offset g =
     (let v = mem (m_bit_storages bm ! depth + offset)
      in if v = 0 then (None, g)
         else let (i, g) = SelectRandomBit gen v g in find_random gen bm mem k (depth + 1) (offset * 64 + i) g)"

fun find_first :: "'r KPageBitmap \<Rightarrow> words \<Rightarrow> nat \<Rightarrow> nat \<Rightarrow> nat \<Rightarrow> nat option" where
  "find_first bm mem 0 depth offset = Some offset"
| "find_first bm mem (Suc k) depth offset =
     (let v = mem (m_bit_storages bm ! depth + offset)
      in if v = 0 then None else find_first bm mem k (depth + 1) (offset * 64 + ctzll v))"

definition FindFreeBlock ::
    "('r \<Rightarrow> u32 \<times> 'r) \<Rightarrow> bool \<Rightarrow> 'r KPageBitmap \<Rightarrow> words \<Rightarrow> nat option \<times> 'r KPageBitmap" where
  "FindFreeBlock gen random bm mem =
     (if random
      then (let (r, g) = find_random gen bm mem (m_used_depths bm) 0 0 (m_bitmap_rng bm)
            in (r, bm\<lparr>m_bitmap_rng := g\<rparr>))
      else (find_first bm mem (m_used_depths bm) 0 0, bm))"

text \<open>The private \<^verbatim>\<open>SetBit\<close> and \<^verbatim>\<open>ClearBit\<close>, called with \<open>depth + 1\<close>.\<close>

fun set_bits :: "'r KPageBitmap \<Rightarrow> nat \<Rightarrow> nat \<Rightarrow> words \<Rightarrow> words" where
  "set_bits bm 0 offset mem = mem"
| "set_bits bm (Suc depth) offset mem =
     (let ind = offset div 64;
          mask = push_bit (offset mod 64) 1;
          p = m_bit_storages bm ! depth + ind;
          v = mem p;
          mem = mem(p := v OR mask)
      in if v \<noteq> 0 then mem else set_bits bm depth ind mem)"

fun clear_bits :: "'r KPageBitmap \<Rightarrow> nat \<Rightarrow> nat \<Rightarrow> words \<Rightarrow> words" where
  "clear_bits bm 0 offset mem = mem"
| "clear_bits bm (Suc depth) offset mem =
     (let ind = offset div 64;
          mask = push_bit (offset mod 64) 1;
          p = m_bit_storages bm ! depth + ind;
          v = mem p AND NOT mask;
          mem = mem(p := v)
      in if v \<noteq> 0 then mem else clear_bits bm depth ind mem)"

definition KPageBitmap_SetBit :: "nat \<Rightarrow> 'r KPageBitmap \<Rightarrow> words \<Rightarrow> 'r KPageBitmap \<times> words" where
  "KPageBitmap_SetBit offset bm mem =
     (bm\<lparr>m_num_bits := m_num_bits bm + 1\<rparr>, set_bits bm (m_used_depths bm) offset mem)"

definition KPageBitmap_ClearBit :: "nat \<Rightarrow> 'r KPageBitmap \<Rightarrow> words \<Rightarrow> 'r KPageBitmap \<times> words" where
  "KPageBitmap_ClearBit offset bm mem =
     (bm\<lparr>m_num_bits := m_num_bits bm - 1\<rparr>, clear_bits bm (m_used_depths bm) offset mem)"

text \<open>The two loops of \<^verbatim>\<open>ClearRange\<close> over whole words; \<open>k\<close> words remain.\<close>

fun all_full :: "words \<Rightarrow> nat \<Rightarrow> nat \<Rightarrow> bool" where
  "all_full mem p 0 \<longleftrightarrow> True"
| "all_full mem p (Suc k) \<longleftrightarrow> (if mem p \<noteq> NOT 0 then False else all_full mem (p + 1) k)"

fun clear_words :: "'r KPageBitmap \<Rightarrow> nat \<Rightarrow> nat \<Rightarrow> words \<Rightarrow> words" where
  "clear_words bm bit_ind 0 mem = mem"
| "clear_words bm bit_ind (Suc k) mem =
     (let depth = m_used_depths bm - 1;
          mem = mem(m_bit_storages bm ! depth + bit_ind := 0);
          mem = clear_bits bm depth bit_ind mem
      in clear_words bm (bit_ind + 1) k mem)"

definition ClearRange :: "nat \<Rightarrow> nat \<Rightarrow> 'r KPageBitmap \<Rightarrow> words \<Rightarrow> bool \<times> 'r KPageBitmap \<times> words" where
  "ClearRange offset cnt bm mem =
     (let depth = m_used_depths bm - 1;
          p = m_bit_storages bm ! depth;
          bit_ind = offset div 64
      in if cnt < 64
         then (let mask = push_bit (offset mod 64) (push_bit cnt 1 - 1);
                   v = mem (p + bit_ind)
               in if v AND mask \<noteq> mask then (False, bm, mem)
                  else (let v = v AND NOT mask;
                            mem = mem(p + bit_ind := v);
                            mem = (if v = 0 then clear_bits bm depth bit_ind mem else mem)
                        in (True, bm\<lparr>m_num_bits := m_num_bits bm - int cnt\<rparr>, mem)))
         else if \<not> all_full mem (p + bit_ind) (cnt div 64) then (False, bm, mem)
         else (True, bm\<lparr>m_num_bits := m_num_bits bm - int cnt\<rparr>, clear_words bm bit_ind (cnt div 64) mem))"

text \<open>The loop of \<^verbatim>\<open>CalculateManagementOverheadSize\<close>, and the function.\<close>

fun overhead_loop :: "nat \<Rightarrow> nat \<Rightarrow> nat \<Rightarrow> nat" where
  "overhead_loop 0 region_size overhead_bits = overhead_bits"
| "overhead_loop (Suc depth) region_size overhead_bits =
     (let region_size = AlignUp region_size 64 div 64
      in overhead_loop depth region_size (overhead_bits + region_size))"

definition KPageBitmap_CalculateManagementOverheadSize :: "nat \<Rightarrow> nat" where
  "KPageBitmap_CalculateManagementOverheadSize region_size =
     overhead_loop (GetRequiredDepth region_size) region_size 0 * 8"

section \<open>Words and bits\<close>

definition lbit :: "words \<Rightarrow> nat \<Rightarrow> nat \<Rightarrow> bool" where
  "lbit mem b i \<longleftrightarrow> bit (mem (b + i div 64)) (i mod 64)"

lemma word_nonzero_iff: "v \<noteq> 0 \<longleftrightarrow> (\<exists>i < 64. bit (v :: u64) i)"
proof
  assume "v \<noteq> 0"
  then obtain i where "bit v i"
    by (auto simp: bit_eq_iff)
  then show "\<exists>i < 64. bit v i"
    using bit_imp_le_length [of v i] by auto
qed auto

lemma word_div_mod: "i < 64 \<Longrightarrow> (j * 64 + i) div 64 = j \<and> (j * 64 + i) mod 64 = (i :: nat)"
  by simp

lemma lbit_word: "i < 64 \<Longrightarrow> lbit mem b (j * 64 + i) = bit (mem (b + j)) i"
  by (simp add: lbit_def word_div_mod)

lemma lbit_set:
  "lbit (mem(b + k div 64 := mem (b + k div 64) OR push_bit (k mod 64) 1)) b i \<longleftrightarrow> i = k \<or> lbit mem b i"
proof -
  have "i mod 64 = k mod 64 \<Longrightarrow> i div 64 = k div 64 \<Longrightarrow> i = k"
    by (metis div_mult_mod_eq)
  moreover have "i mod 64 < 64" by simp
  ultimately show ?thesis
    by (auto simp: lbit_def bit_simps)
qed

lemma lbit_clear:
  "lbit (mem(b + k div 64 := mem (b + k div 64) AND NOT (push_bit (k mod 64) 1))) b i \<longleftrightarrow> i \<noteq> k \<and> lbit mem b i"
proof -
  have "i mod 64 = k mod 64 \<Longrightarrow> i div 64 = k div 64 \<Longrightarrow> i = k"
    by (metis div_mult_mod_eq)
  moreover have "i mod 64 < 64" by simp
  ultimately show ?thesis
    by (auto simp: lbit_def bit_simps)
qed

lemma mod_less_64: "k mod 64 < (64 :: nat)"
  by simp

section \<open>The tree of words\<close>

record layout =
  bases :: "nat \<Rightarrow> nat"
  sizes :: "nat \<Rightarrow> nat"
  depths :: nat

definition layout_ok :: "layout \<Rightarrow> bool" where
  "layout_ok l \<longleftrightarrow> 0 < depths l \<and> sizes l 0 = 1 \<and>
     (\<forall>d. Suc d < depths l \<longrightarrow> sizes l (Suc d) \<le> 64 * sizes l d \<and>
        bases l (Suc d) + sizes l (Suc d) = bases l d)"

definition has_layout :: "'r KPageBitmap \<Rightarrow> layout \<Rightarrow> bool" where
  "has_layout bm l \<longleftrightarrow> m_used_depths bm = depths l \<and> (\<forall>d < depths l. m_bit_storages bm ! d = bases l d)"

fun tree :: "layout \<Rightarrow> words \<Rightarrow> nat \<Rightarrow> (nat \<Rightarrow> bool) \<Rightarrow> bool" where
  "tree l mem 0 P \<longleftrightarrow> (\<forall>i < 64 * sizes l 0. lbit mem (bases l 0) i = P i)"
| "tree l mem (Suc d) P \<longleftrightarrow>
     (\<forall>i < 64 * sizes l (Suc d). lbit mem (bases l (Suc d)) i = P i) \<and>
     tree l mem d (\<lambda>j. j < sizes l (Suc d) \<and> mem (bases l (Suc d) + j) \<noteq> 0)"

lemma tree_leaf: "tree l mem d P \<Longrightarrow> i < 64 * sizes l d \<Longrightarrow> lbit mem (bases l d) i = P i"
  by (cases d) auto

lemma tree_pred_cong: "(\<And>i. i < 64 * sizes l d \<Longrightarrow> P i = Q i) \<Longrightarrow> tree l mem d P = tree l mem d Q"
  by (cases d) auto

lemma bases_mono: "layout_ok l \<Longrightarrow> Suc d < depths l \<Longrightarrow> bases l (Suc d) + sizes l (Suc d) = bases l d"
  by (simp add: layout_ok_def)

lemma tree_mem_cong:
  assumes "layout_ok l" "d < depths l" "\<And>a. bases l d \<le> a \<Longrightarrow> a \<le> bases l 0 \<Longrightarrow> mem a = mem' a"
  shows "tree l mem d P = tree l mem' d P"
  using assms(2,3)
proof (induction d arbitrary: P)
  case 0
  then show ?case
    using assms(1) by (simp add: layout_ok_def lbit_def)
next
  case (Suc d)
  have b: "bases l (Suc d) + sizes l (Suc d) = bases l d"
    by (rule bases_mono [OF assms(1) Suc.prems(1)])
  have le: "bases l d \<le> bases l 0"
    using Suc.prems(1)
  proof (induction d)
    case (Suc e)
    then show ?case
      using bases_mono [OF assms(1), of e] by simp
  qed simp
  have eq: "mem (bases l (Suc d) + j) = mem' (bases l (Suc d) + j)" if "j < sizes l (Suc d)" for j
    using Suc.prems(2) [of "bases l (Suc d) + j"] that b le by simp
  have "lbit mem (bases l (Suc d)) i = lbit mem' (bases l (Suc d)) i" if "i < 64 * sizes l (Suc d)" for i
    using eq [of "i div 64"] that by (simp add: lbit_def less_mult_imp_div_less mult.commute)
  moreover have "tree l mem d Q = tree l mem' d Q" for Q
    using Suc.prems b by (intro Suc.IH) auto
  moreover have "(\<lambda>j. j < sizes l (Suc d) \<and> mem (bases l (Suc d) + j) \<noteq> 0) =
      (\<lambda>j. j < sizes l (Suc d) \<and> mem' (bases l (Suc d) + j) \<noteq> 0)"
    using eq by auto
  ultimately show ?case
    by simp
qed

lemma bases_le: "layout_ok l \<Longrightarrow> d < depths l \<Longrightarrow> bases l d \<le> bases l 0"
proof (induction d)
  case (Suc e)
  then show ?case
    using bases_mono [OF Suc.prems] by simp
qed simp

lemma div_64_less: "i < 64 * n \<Longrightarrow> i div 64 < (n :: nat)"
  by (simp add: less_mult_imp_div_less mult.commute)

lemma set_bits_Suc:
  "set_bits bm (Suc d) k mem =
     (let p = m_bit_storages bm ! d + k div 64; m = mem(p := mem p OR push_bit (k mod 64) 1)
      in if mem p \<noteq> 0 then m else set_bits bm d (k div 64) m)"
  by (simp only: set_bits.simps Let_def)

declare set_bits.simps(2) [simp del]

lemma set_bits_tree:
  assumes "layout_ok l" "has_layout bm l" "d < depths l" "k < 64 * sizes l d" "tree l mem d P"
  shows "tree l (set_bits bm (Suc d) k mem) d (P(k := True)) \<and>
    (\<forall>a. a < bases l d \<or> bases l 0 < a \<longrightarrow> set_bits bm (Suc d) k mem a = mem a)"
  using assms(3-5)
proof (induction d arbitrary: k mem P)
  case 0
  have p: "m_bit_storages bm ! 0 = bases l 0" and one: "sizes l 0 = 1"
    using assms(1,2) by (simp_all add: has_layout_def layout_ok_def)
  then have z: "k div 64 = 0" using 0 by simp
  define m where "m = mem(bases l 0 + k div 64 := mem (bases l 0 + k div 64) OR push_bit (k mod 64) 1)"
  have "set_bits bm (Suc 0) k mem = m"
    using p by (simp add: set_bits_Suc Let_def m_def)
  moreover have "lbit m (bases l 0) i \<longleftrightarrow> i = k \<or> lbit mem (bases l 0) i" for i
    unfolding m_def by (rule lbit_set)
  moreover have "m a = mem a" if "a < bases l 0 \<or> bases l 0 < a" for a
    using that z by (auto simp: m_def)
  ultimately show ?case
    using 0 by auto
next
  case (Suc d)
  let ?b = "bases l (Suc d)" and ?n = "sizes l (Suc d)"
  let ?p = "?b + k div 64"
  define m where "m = mem(?p := mem ?p OR push_bit (k mod 64) 1)"
  have p: "m_bit_storages bm ! Suc d = ?b"
    using assms(2) Suc.prems(1) by (simp add: has_layout_def)
  have b: "?b + ?n = bases l d" "?n \<le> 64 * sizes l d"
    using assms(1) Suc.prems(1) by (simp_all add: layout_ok_def)
  have le: "bases l d \<le> bases l 0"
    using bases_le [OF assms(1)] Suc.prems(1) by simp
  have k: "k div 64 < ?n"
    using div_64_less [OF Suc.prems(2)] .
  have other: "m a = mem a" if "a \<noteq> ?p" for a
    using that by (simp add: m_def)
  have nz: "m ?p \<noteq> 0"
    unfolding word_nonzero_iff m_def using mod_less_64 [of k] by (intro exI [of _ "k mod 64"]) (simp add: bit_simps)
  have eq: "set_bits bm (Suc (Suc d)) k mem = (if mem ?p \<noteq> 0 then m else set_bits bm (Suc d) (k div 64) m)"
    using p by (simp only: set_bits_Suc [of bm "Suc d"] Let_def m_def)
  let ?Q = "\<lambda>mem j. j < ?n \<and> mem (?b + j) \<noteq> 0"
  have Q: "?Q m = (?Q mem)(k div 64 := True)"
    using nz k other by (auto simp: fun_eq_iff)
  have leaf: "lbit m ?b i = (P(k := True)) i" if "i < 64 * ?n" for i
    using lbit_set [of mem ?b k i] Suc.prems(3) that unfolding m_def by auto
  have low: "tree l m d R = tree l mem d R" for R
    using b k Suc.prems(1) other by (intro tree_mem_cong [OF assms(1)]) auto
  have old: "tree l mem d (?Q mem)"
    using Suc.prems(3) by simp
  show ?case
  proof (cases "mem ?p = 0")
    case False
    then have "?Q m = ?Q mem"
      using Q k by (auto simp: fun_eq_iff)
    then have "tree l m (Suc d) (P(k := True))"
      using leaf low old by simp
    then show ?thesis
      using False eq other b k le by auto
  next
    case True
    define m' where "m' = set_bits bm (Suc d) (k div 64) m"
    define q where "q = ?Q mem"
    have "tree l m d q" "k div 64 < 64 * sizes l d" "d < depths l"
      using low old k b Suc.prems(1) by (simp_all add: q_def)
    note I = Suc.IH [OF this(3,2,1), folded m'_def]
    have IH: "tree l m' d (q(k div 64 := True))" "\<And>a. a < bases l d \<or> bases l 0 < a \<Longrightarrow> m' a = m a"
      using I by blast+
    have same: "m' (?b + j) = m (?b + j)" if "j < ?n" for j
      using IH(2) [of "?b + j"] that b by simp
    have "lbit m' ?b i = (P(k := True)) i" if "i < 64 * ?n" for i
      using leaf [OF that] same [OF div_64_less [OF that]] by (simp add: lbit_def)
    moreover have "?Q m' = ?Q m"
      using same by (auto simp: fun_eq_iff)
    ultimately have "tree l m' (Suc d) (P(k := True))"
      using IH(1) Q by (simp add: q_def)
    moreover have "m' a = mem a" if "a < ?b \<or> bases l 0 < a" for a
      using IH(2) [of a] other [of a] that b k le by auto
    ultimately show ?thesis
      using True eq unfolding m'_def by simp
  qed
qed

lemma clear_bits_Suc:
  "clear_bits bm (Suc d) k mem =
     (let p = m_bit_storages bm ! d + k div 64; m = mem(p := mem p AND NOT (push_bit (k mod 64) 1))
      in if m p \<noteq> 0 then m else clear_bits bm d (k div 64) m)"
  by (simp only: clear_bits.simps Let_def fun_upd_same)

declare clear_bits.simps(2) [simp del]

lemma clear_bits_tree:
  assumes "layout_ok l" "has_layout bm l" "d < depths l" "k < 64 * sizes l d" "tree l mem d P"
  shows "tree l (clear_bits bm (Suc d) k mem) d (P(k := False)) \<and>
    (\<forall>a. a < bases l d \<or> bases l 0 < a \<longrightarrow> clear_bits bm (Suc d) k mem a = mem a)"
  using assms(3-5)
proof (induction d arbitrary: k mem P)
  case 0
  have p: "m_bit_storages bm ! 0 = bases l 0" and one: "sizes l 0 = 1"
    using assms(1,2) by (simp_all add: has_layout_def layout_ok_def)
  then have z: "k div 64 = 0" using 0 by simp
  define m where "m = mem(bases l 0 + k div 64 := mem (bases l 0 + k div 64) AND NOT (push_bit (k mod 64) 1))"
  have "clear_bits bm (Suc 0) k mem = m"
    using p by (simp add: clear_bits_Suc Let_def m_def)
  moreover have "lbit m (bases l 0) i \<longleftrightarrow> i \<noteq> k \<and> lbit mem (bases l 0) i" for i
    unfolding m_def by (rule lbit_clear)
  moreover have "m a = mem a" if "a < bases l 0 \<or> bases l 0 < a" for a
    using that z by (auto simp: m_def)
  ultimately show ?case
    using 0 by auto
next
  case (Suc d)
  let ?b = "bases l (Suc d)" and ?n = "sizes l (Suc d)"
  let ?p = "?b + k div 64"
  define m where "m = mem(?p := mem ?p AND NOT (push_bit (k mod 64) 1))"
  have p: "m_bit_storages bm ! Suc d = ?b"
    using assms(2) Suc.prems(1) by (simp add: has_layout_def)
  have b: "?b + ?n = bases l d" "?n \<le> 64 * sizes l d"
    using assms(1) Suc.prems(1) by (simp_all add: layout_ok_def)
  have le: "bases l d \<le> bases l 0"
    using bases_le [OF assms(1)] Suc.prems(1) by simp
  have k: "k div 64 < ?n"
    using div_64_less [OF Suc.prems(2)] .
  have other: "m a = mem a" if "a \<noteq> ?p" for a
    using that by (simp add: m_def)
  have eq: "clear_bits bm (Suc (Suc d)) k mem = (if m ?p \<noteq> 0 then m else clear_bits bm (Suc d) (k div 64) m)"
    using p by (simp only: clear_bits_Suc [of bm "Suc d"] Let_def m_def)
  let ?Q = "\<lambda>mem j. j < ?n \<and> mem (?b + j) \<noteq> 0"
  have Q: "?Q m = (?Q mem)(k div 64 := m ?p \<noteq> 0)"
    using k other by (auto simp: fun_eq_iff)
  have sub: "mem ?p \<noteq> 0" if "m ?p \<noteq> 0"
    using that by (auto simp: m_def)
  have leaf: "lbit m ?b i = (P(k := False)) i" if "i < 64 * ?n" for i
    using lbit_clear [of mem ?b k i] Suc.prems(3) that unfolding m_def by auto
  have low: "tree l m d R = tree l mem d R" for R
    using b k Suc.prems(1) other by (intro tree_mem_cong [OF assms(1)]) auto
  have old: "tree l mem d (?Q mem)"
    using Suc.prems(3) by simp
  show ?case
  proof (cases "m ?p = 0")
    case False
    then have "?Q m = ?Q mem"
      using Q k sub by (auto simp: fun_eq_iff)
    then have "tree l m (Suc d) (P(k := False))"
      using leaf low old by simp
    then show ?thesis
      using False eq other b k le by auto
  next
    case True
    define m' where "m' = clear_bits bm (Suc d) (k div 64) m"
    define q where "q = ?Q mem"
    have "tree l m d q" "k div 64 < 64 * sizes l d" "d < depths l"
      using low old k b Suc.prems(1) by (simp_all add: q_def)
    note I = Suc.IH [OF this(3,2,1), folded m'_def]
    have IH: "tree l m' d (q(k div 64 := False))" "\<And>a. a < bases l d \<or> bases l 0 < a \<Longrightarrow> m' a = m a"
      using I by blast+
    have same: "m' (?b + j) = m (?b + j)" if "j < ?n" for j
      using IH(2) [of "?b + j"] that b by simp
    have "lbit m' ?b i = (P(k := False)) i" if "i < 64 * ?n" for i
      using leaf [OF that] same [OF div_64_less [OF that]] by (simp add: lbit_def)
    moreover have "?Q m' = ?Q m"
      using same by (auto simp: fun_eq_iff)
    ultimately have "tree l m' (Suc d) (P(k := False))"
      using IH(1) Q True by (simp add: q_def)
    moreover have "m' a = mem a" if "a < ?b \<or> bases l 0 < a" for a
      using IH(2) [of a] other [of a] that b k le by auto
    ultimately show ?thesis
      using True eq unfolding m'_def by simp
  qed
qed

text \<open>Replacing a word by one that is not zero only if the old one was not.\<close>

definition put_word :: "'r KPageBitmap \<Rightarrow> nat \<Rightarrow> nat \<Rightarrow> u64 \<Rightarrow> words \<Rightarrow> words" where
  "put_word bm d j v mem =
     (let m = mem(m_bit_storages bm ! d + j := v) in if v = 0 then clear_bits bm d j m else m)"

lemma put_word_tree:
  assumes ok: "layout_ok l" "has_layout bm l" "d < depths l" and j: "j < sizes l d"
    and tr: "tree l mem d P" and v: "v \<noteq> 0 \<longrightarrow> mem (bases l d + j) \<noteq> 0"
  shows "tree l (put_word bm d j v mem) d (\<lambda>i. if i div 64 = j then bit v (i mod 64) else P i)"
    "a < bases l d \<or> bases l 0 < a \<Longrightarrow> put_word bm d j v mem a = mem a"
    "k \<noteq> j \<Longrightarrow> k < sizes l d \<Longrightarrow> put_word bm d j v mem (bases l d + k) = mem (bases l d + k)"
proof -
  let ?b = "bases l d"
  let ?P = "\<lambda>i. if i div 64 = j then bit v (i mod 64) else P i"
  define m where "m = mem(?b + j := v)"
  have p: "m_bit_storages bm ! d = ?b"
    using ok(2,3) by (simp add: has_layout_def)
  have put: "put_word bm d j v mem = (if v = 0 then clear_bits bm d j m else m)"
    by (simp add: put_word_def Let_def m_def p)
  have leaf: "lbit m ?b i = ?P i" if "i < 64 * sizes l d" for i
    using tree_leaf [OF tr that] by (simp add: lbit_def m_def)
  have all: "tree l (put_word bm d j v mem) d ?P \<and>
      (\<forall>a. a < ?b \<or> bases l 0 < a \<longrightarrow> put_word bm d j v mem a = mem a) \<and>
      (\<forall>k. k \<noteq> j \<longrightarrow> k < sizes l d \<longrightarrow> put_word bm d j v mem (?b + k) = mem (?b + k))"
  proof (cases d)
    case 0
    then have "j = 0"
      using j ok(1) by (simp add: layout_ok_def)
    then show ?thesis
      using 0 leaf put by (auto simp: m_def)
  next
    case (Suc e)
    let ?Q = "\<lambda>mem j. j < sizes l d \<and> mem (?b + j) \<noteq> 0"
    have b: "?b + sizes l d = bases l e" "sizes l d \<le> 64 * sizes l e" "e < depths l"
      using ok(1,3) Suc by (simp_all add: layout_ok_def)
    have le: "bases l e \<le> bases l 0"
      by (rule bases_le [OF ok(1) b(3)])
    have low: "tree l m e R = tree l mem e R" for R
      using b j by (intro tree_mem_cong [OF ok(1)]) (auto simp: m_def)
    have old: "tree l m e (?Q mem)"
      using tr Suc low by simp
    show ?thesis
    proof (cases "v = 0")
      case False
      then have "?Q m = ?Q mem"
        using v by (auto simp: fun_eq_iff m_def)
      then have "tree l m d ?P"
        using leaf old Suc by simp
      then show ?thesis
        using False put b le j by (auto simp: m_def)
    next
      case True
      define m' where "m' = clear_bits bm (Suc e) j m"
      have "j < 64 * sizes l e"
        using j b by simp
      note C = clear_bits_tree [OF ok(1,2) b(3) this old, folded m'_def]
      have same: "m' (?b + i) = m (?b + i)" if "i < sizes l d" for i
        using C that b by simp
      have "lbit m' ?b i = ?P i" if "i < 64 * sizes l d" for i
        using leaf [OF that] same [OF div_64_less [OF that]] by (simp add: lbit_def)
      moreover have "?Q m' = (?Q mem)(j := False)"
        using same True by (auto simp: fun_eq_iff m_def)
      ultimately have "tree l m' d ?P"
        using C Suc by simp
      moreover have "m' a = mem a" if "a < ?b \<or> bases l 0 < a" for a
        using that b le j C by (auto simp: m_def)
      ultimately show ?thesis
        using True put Suc same unfolding m'_def by (auto simp: m_def)
    qed
  qed
  show "tree l (put_word bm d j v mem) d ?P"
    using all by blast
  show "put_word bm d j v mem a = mem a" if "a < ?b \<or> bases l 0 < a"
    using all that by blast
  show "put_word bm d j v mem (?b + k) = mem (?b + k)" if "k \<noteq> j" "k < sizes l d"
    using all that by blast
qed

section \<open>The bitmap is a set\<close>

definition holds_set :: "layout \<Rightarrow> 'r KPageBitmap \<Rightarrow> words \<Rightarrow> nat \<Rightarrow> nat set \<Rightarrow> bool" where
  "holds_set l bm mem n S \<longleftrightarrow> layout_ok l \<and> has_layout bm l \<and> n \<le> 64 * sizes l (depths l - 1) \<and>
     tree l mem (depths l - 1) (\<lambda>i. i \<in> S) \<and> S \<subseteq> {..<n} \<and> m_num_bits bm = int (card S)"

definition own_words :: "layout \<Rightarrow> nat set" where
  "own_words l = {bases l (depths l - 1)..bases l 0}"

definition leaf_words :: "layout \<Rightarrow> nat" where
  "leaf_words l = sizes l (depths l - 1)"

lemma holds_setD:
  assumes "holds_set l bm mem n S"
  shows "layout_ok l" "has_layout bm l" "n \<le> 64 * sizes l (depths l - 1)"
    "tree l mem (depths l - 1) (\<lambda>i. i \<in> S)" "S \<subseteq> {..<n}" "m_num_bits bm = int (card S)" "finite S"
    "depths l - 1 < depths l" "Suc (depths l - 1) = m_used_depths bm"
  using assms finite_subset [of S "{..<n}"] by (auto simp: holds_set_def layout_ok_def has_layout_def)

lemma holds_set_cong:
  assumes "holds_set l bm mem n S" "\<And>a. a \<in> own_words l \<Longrightarrow> mem' a = mem a"
  shows "holds_set l bm mem' n S"
proof -
  note D = holds_setD [OF assms(1)]
  have "tree l mem' (depths l - 1) (\<lambda>i. i \<in> S) = tree l mem (depths l - 1) (\<lambda>i. i \<in> S)"
    using assms(2) by (intro tree_mem_cong [OF D(1,8)]) (simp add: own_words_def)
  then show ?thesis
    using assms(1) by (simp add: holds_set_def)
qed

lemma has_layout_count [simp]: "has_layout (bm\<lparr>m_num_bits := c\<rparr>) l = has_layout bm l"
  by (simp add: has_layout_def)

lemma SetBit_holds:
  assumes "holds_set l bm mem n S" "k < n" "k \<notin> S" "KPageBitmap_SetBit k bm mem = (bm', mem')"
  shows "holds_set l bm' mem' n (insert k S)" "a \<notin> own_words l \<Longrightarrow> mem' a = mem a"
proof -
  note D = holds_setD [OF assms(1)]
  have r: "bm' = bm\<lparr>m_num_bits := m_num_bits bm + 1\<rparr>" "mem' = set_bits bm (Suc (depths l - 1)) k mem"
    using assms(4) D(9) by (auto simp: KPageBitmap_SetBit_def)
  have "k < 64 * sizes l (depths l - 1)"
    using assms(2) D(3) by simp
  note T = set_bits_tree [OF D(1,2,8) this D(4), folded r(2)]
  have "(\<lambda>i. i \<in> S)(k := True) = (\<lambda>i. i \<in> insert k S)"
    by (rule ext) auto
  then show "holds_set l bm' mem' n (insert k S)"
    using T D assms(2,3) by (simp add: holds_set_def r(1))
  show "mem' a = mem a" if "a \<notin> own_words l"
    using T that by (auto simp: own_words_def)
qed

lemma ClearBit_holds:
  assumes "holds_set l bm mem n S" "k \<in> S" "KPageBitmap_ClearBit k bm mem = (bm', mem')"
  shows "holds_set l bm' mem' n (S - {k})" "a \<notin> own_words l \<Longrightarrow> mem' a = mem a"
proof -
  note D = holds_setD [OF assms(1)]
  have r: "bm' = bm\<lparr>m_num_bits := m_num_bits bm - 1\<rparr>" "mem' = clear_bits bm (Suc (depths l - 1)) k mem"
    using assms(3) D(9) by (auto simp: KPageBitmap_ClearBit_def)
  have "k < 64 * sizes l (depths l - 1)"
    using assms(2) D(3,5) by auto
  note T = clear_bits_tree [OF D(1,2,8) this D(4), folded r(2)]
  have eq: "(\<lambda>i. i \<in> S)(k := False) = (\<lambda>i. i \<in> S - {k})"
    by (rule ext) auto
  have t: "tree l mem' (depths l - 1) (\<lambda>i. i \<in> S - {k})"
    using conjunct1 [OF T] by (simp only: eq)
  have "0 < card S"
    using assms(2) D(7) card_gt_0_iff by blast
  then have "m_num_bits bm' = int (card (S - {k}))"
    using assms(2) D(6) by (simp add: r(1) card_Diff_singleton of_nat_diff)
  moreover have "S - {k} \<subseteq> {..<n}" "has_layout bm' l"
    using D(2,5) by (auto simp: r(1))
  ultimately show "holds_set l bm' mem' n (S - {k})"
    unfolding holds_set_def using t D(1,3) by blast
  show "mem' a = mem a" if "a \<notin> own_words l"
    using conjunct2 [OF T] that unfolding own_words_def by fastforce
qed

section \<open>Clearing a range\<close>

definition bit_range :: "nat \<Rightarrow> nat \<Rightarrow> nat set" where
  "bit_range k c = {k..<k + c}"

lemma range_mask:
  "bit (push_bit s (push_bit c 1 - 1) :: u64) i \<longleftrightarrow> i < 64 \<and> s \<le> i \<and> i < s + c" if "c < 64"
proof -
  have "(push_bit c 1 - 1 :: u64) = mask c"
    by (simp add: mask_eq_exp_minus_1)
  then show ?thesis
    by (auto simp: bit_simps)
qed

lemma and_eq_mask_iff: "(v :: u64) AND w = w \<longleftrightarrow> (\<forall>i < 64. bit w i \<longrightarrow> bit v i)"
  by (auto simp: bit_eq_iff bit_simps)

lemma ClearRange_small:
  assumes h: "holds_set l bm mem n S" and c: "c < 64" "k mod 64 + c \<le> 64" "k div 64 < leaf_words l"
    and r: "ClearRange k c bm mem = (b, bm', mem')"
  shows "b \<longleftrightarrow> bit_range k c \<subseteq> S" "\<not> b \<Longrightarrow> bm' = bm \<and> mem' = mem"
    "b \<Longrightarrow> holds_set l bm' mem' n (S - bit_range k c)" "a \<notin> own_words l \<Longrightarrow> mem' a = mem a"
proof -
  note D = holds_setD [OF h]
  let ?d = "depths l - 1" and ?j = "k div 64"
  let ?m = "push_bit (k mod 64) (push_bit c 1 - 1) :: u64"
  have p: "m_bit_storages bm ! ?d = bases l ?d" and dep: "m_used_depths bm - 1 = ?d"
    using D(2,8) by (auto simp: has_layout_def)
  define v where "v = mem (bases l ?d + ?j)"
  have w: "?j < sizes l ?d"
    using c(3) by (simp add: leaf_words_def)
  have mem: "bit v (i mod 64) \<longleftrightarrow> i \<in> S" if "i div 64 = ?j" for i
  proof -
    have "i < 64 * sizes l ?d"
      using that w by (metis Suc_leI div_less_iff_less_mult less_le_trans mult.commute zero_less_numeral)
    from tree_leaf [OF D(4) this] show ?thesis
      using that by (simp add: lbit_def v_def)
  qed
  have bits: "i \<in> bit_range k c \<longleftrightarrow> i div 64 = ?j \<and> bit ?m (i mod 64)" for i
  proof
    assume i: "i \<in> bit_range k c"
    then have "64 * ?j \<le> i" "i < 64 * ?j + 64"
      using c(2) mult_div_mod_eq [of 64 k] unfolding bit_range_def atLeastLessThan_iff by linarith+
    then have "i div 64 = ?j"
      by (simp add: div_nat_eqI)
    moreover from this have "i = 64 * ?j + i mod 64"
      using mult_div_mod_eq [of 64 i] by simp
    ultimately show "i div 64 = ?j \<and> bit ?m (i mod 64)"
      using i mod_less_64 [of i] mult_div_mod_eq [of 64 k]
      unfolding range_mask [OF c(1)] bit_range_def atLeastLessThan_iff by linarith
  next
    assume i: "i div 64 = ?j \<and> bit ?m (i mod 64)"
    then have "k mod 64 \<le> i mod 64" "i mod 64 < k mod 64 + c"
      unfolding range_mask [OF c(1)] by blast+
    moreover have "i = 64 * ?j + i mod 64"
      using i mult_div_mod_eq [of 64 i] by simp
    ultimately show "i \<in> bit_range k c"
      unfolding bit_range_def atLeastLessThan_iff using mult_div_mod_eq [of 64 k] by linarith
  qed
  have full: "v AND ?m = ?m \<longleftrightarrow> bit_range k c \<subseteq> S"
  proof
    assume "v AND ?m = ?m"
    then have sub: "bit v i" if "i < 64" "bit ?m i" for i
      using that unfolding and_eq_mask_iff by blast
    show "bit_range k c \<subseteq> S"
    proof
      fix i assume "i \<in> bit_range k c"
      then have i: "i div 64 = ?j" "bit ?m (i mod 64)"
        using bits by blast+
      then have "bit v (i mod 64)"
        using sub [OF mod_less_64] by blast
      then show "i \<in> S"
        using mem [OF i(1)] by blast
    qed
  next
    assume sub: "bit_range k c \<subseteq> S"
    show "v AND ?m = ?m"
      unfolding and_eq_mask_iff
    proof (intro allI impI)
      fix i :: nat assume i: "i < 64" "bit ?m i"
      note dm = word_div_mod [OF i(1), of ?j]
      have "?j * 64 + i \<in> bit_range k c"
        using bits [of "?j * 64 + i"] dm i(2) by argo
      then show "bit v i"
        using mem [of "?j * 64 + i"] dm sub by (metis subsetD)
    qed
  qed
  have res: "(b, bm', mem') = (if v AND ?m \<noteq> ?m then (False, bm, mem)
      else (True, bm\<lparr>m_num_bits := m_num_bits bm - int c\<rparr>, put_word bm ?d ?j (v AND NOT ?m) mem))"
    using r c(1) by (simp only: ClearRange_def Let_def dep put_word_def v_def p if_True)
  show b: "b \<longleftrightarrow> bit_range k c \<subseteq> S" and "\<not> b \<Longrightarrow> bm' = bm \<and> mem' = mem"
    using res full by (auto split: if_splits)
  have "v AND NOT ?m \<noteq> 0 \<longrightarrow> mem (bases l ?d + ?j) \<noteq> 0"
    by (auto simp: v_def)
  note P = put_word_tree [where v = "v AND NOT ?m", OF D(1,2,8) w D(4) this]
  show "mem' a = mem a" if "a \<notin> own_words l"
    using res P(2) [where a = a] that by (auto simp: own_words_def split: if_splits)
  assume b
  then have r': "bm' = bm\<lparr>m_num_bits := m_num_bits bm - int c\<rparr>" "mem' = put_word bm ?d ?j (v AND NOT ?m) mem"
      and sub: "bit_range k c \<subseteq> S"
    using res b full by (auto split: if_splits)
  have "(if i div 64 = ?j then bit (v AND NOT ?m) (i mod 64) else i \<in> S) = (i \<in> S - bit_range k c)" for i
    using mem [of i] bits [of i] by (auto simp: bit_and_iff bit_not_iff)
  then have eq: "(\<lambda>i. if i div 64 = ?j then bit (v AND NOT ?m) (i mod 64) else i \<in> S) =
      (\<lambda>i. i \<in> S - bit_range k c)"
    by (rule ext)
  have t: "tree l mem' ?d (\<lambda>i. i \<in> S - bit_range k c)"
    using P(1) by (simp only: r'(2) eq)
  have "card (S - bit_range k c) = card S - c" "c \<le> card S"
    using card_Diff_subset [OF _ sub] card_mono [OF D(7) sub] by (simp_all add: bit_range_def)
  then have "m_num_bits bm' = int (card (S - bit_range k c))"
    using D(6) by (simp add: r'(1) of_nat_diff)
  moreover have "S - bit_range k c \<subseteq> {..<n}" "has_layout bm' l"
    using D(2,5) by (auto simp: r'(1))
  ultimately show "holds_set l bm' mem' n (S - bit_range k c)"
    unfolding holds_set_def using t D(1,3) by blast
qed

lemma all_full_iff: "all_full mem p c \<longleftrightarrow> (\<forall>j < c. mem (p + j) = NOT 0)"
proof (induction c arbitrary: p)
  case (Suc c)
  have "(\<forall>j < Suc c. mem (p + j) = NOT 0) \<longleftrightarrow> mem p = NOT 0 \<and> (\<forall>j < c. mem (p + 1 + j) = NOT 0)"
    by (auto simp: less_Suc_eq_0_disj)
  then show ?case
    using Suc.IH [of "p + 1"] by simp
qed simp

lemma clear_words_tree:
  assumes ok: "layout_ok l" "has_layout bm l" and "j + c \<le> leaf_words l" "tree l mem (depths l - 1) P"
  shows "tree l (clear_words bm j c mem) (depths l - 1) (\<lambda>i. \<not> (j \<le> i div 64 \<and> i div 64 < j + c) \<and> P i) \<and>
    (\<forall>a. a \<notin> own_words l \<longrightarrow> clear_words bm j c mem a = mem a)"
  using assms(3,4)
proof (induction c arbitrary: j mem P)
  case 0
  then show ?case by simp
next
  case (Suc c)
  let ?d = "depths l - 1"
  have d: "?d < depths l" "m_used_depths bm - 1 = ?d"
    using ok by (auto simp: layout_ok_def has_layout_def)
  have j: "j < sizes l ?d"
    using Suc.prems(1) by (simp add: leaf_words_def)
  note P = put_word_tree [where v = 0, OF ok d(1) j Suc.prems(2)]
  define m where "m = put_word bm ?d j 0 mem"
  have step: "clear_words bm j (Suc c) mem = clear_words bm (j + 1) c m"
    by (simp only: clear_words.simps m_def put_word_def Let_def d(2) if_True refl)
  have eq: "(\<lambda>i. if i div 64 = j then bit (0 :: u64) (i mod 64) else P i) = (\<lambda>i. i div 64 \<noteq> j \<and> P i)"
    by (rule ext) simp
  have "tree l m ?d (\<lambda>i. i div 64 \<noteq> j \<and> P i)"
    using P(1) unfolding m_def eq by simp
  note I = Suc.IH [OF _ this, of "j + 1"]
  have "tree l (clear_words bm (j + 1) c m) ?d
      (\<lambda>i. \<not> (j + 1 \<le> i div 64 \<and> i div 64 < j + 1 + c) \<and> i div 64 \<noteq> j \<and> P i)"
    "\<forall>a. a \<notin> own_words l \<longrightarrow> clear_words bm (j + 1) c m a = m a"
    using I Suc.prems(1) by auto
  moreover have "(\<lambda>i. \<not> (j + 1 \<le> i div 64 \<and> i div 64 < j + 1 + c) \<and> i div 64 \<noteq> j \<and> P i) =
      (\<lambda>i. \<not> (j \<le> i div 64 \<and> i div 64 < j + Suc c) \<and> P i)"
    by (rule ext) auto
  moreover have "m a = mem a" if "a \<notin> own_words l" for a
    using P(2) [where a = a] that by (auto simp: m_def own_words_def)
  ultimately show ?case
    unfolding step by simp
qed

lemma ClearRange_large:
  assumes h: "holds_set l bm mem n S" and c: "\<not> c < 64" "64 dvd k" "64 dvd c" "k + c \<le> 64 * leaf_words l"
    and r: "ClearRange k c bm mem = (b, bm', mem')"
  shows "b \<longleftrightarrow> bit_range k c \<subseteq> S" "\<not> b \<Longrightarrow> bm' = bm \<and> mem' = mem"
    "b \<Longrightarrow> holds_set l bm' mem' n (S - bit_range k c)" "a \<notin> own_words l \<Longrightarrow> mem' a = mem a"
proof -
  note D = holds_setD [OF h]
  let ?d = "depths l - 1"
  obtain j e where je: "k = 64 * j" "c = 64 * e"
    using c(2,3) by (auto elim!: dvdE)
  have p: "m_bit_storages bm ! ?d = bases l ?d" and dep: "m_used_depths bm - 1 = ?d"
    using D(2,8) by (auto simp: has_layout_def)
  have dv: "k div 64 = j" "c div 64 = e"
    using je by simp_all
  have w: "j + e \<le> leaf_words l"
    using c(4) je by simp
  have range: "i \<in> bit_range k c \<longleftrightarrow> j \<le> i div 64 \<and> i div 64 < j + e" for i
    by (auto simp: bit_range_def je less_eq_div_iff_mult_less_eq div_less_iff_less_mult algebra_simps)
  have full: "all_full mem (bases l ?d + j) e \<longleftrightarrow> bit_range k c \<subseteq> S"
  proof
    assume f: "all_full mem (bases l ?d + j) e"
    show "bit_range k c \<subseteq> S"
    proof
      fix i assume "i \<in> bit_range k c"
      then have i: "j \<le> i div 64" "i div 64 < j + e" using range by auto
      then obtain q where q: "i div 64 = j + q" "q < e"
        by (metis add_less_cancel_left le_iff_add)
      have "mem (bases l ?d + i div 64) = NOT 0"
        using f q by (simp add: all_full_iff add.assoc)
      then have "lbit mem (bases l ?d) i"
        by (simp add: lbit_def bit_simps)
      moreover have "i < 64 * sizes l ?d"
        using i(2) w by (simp add: leaf_words_def div_less_iff_less_mult)
      ultimately show "i \<in> S"
        using tree_leaf [OF D(4)] by blast
    qed
  next
    assume s: "bit_range k c \<subseteq> S"
    show "all_full mem (bases l ?d + j) e"
      unfolding all_full_iff
    proof (intro allI impI)
      fix q assume q: "q < e"
      show "mem (bases l ?d + j + q) = NOT 0"
      proof (rule bit_word_eqI)
        fix i assume "i < LENGTH(64)"
        then have i: "i < 64" by simp
        let ?x = "(j + q) * 64 + i"
        have "?x \<in> bit_range k c"
          using q word_div_mod [OF i, of "j + q"] range [of ?x] by simp
        then have "?x \<in> S" using s by blast
        moreover have "?x < 64 * sizes l ?d"
          using q w i by (simp add: leaf_words_def)
        ultimately have "lbit mem (bases l ?d) ?x"
          using tree_leaf [OF D(4)] by blast
        then show "bit (mem (bases l ?d + j + q)) i = bit (NOT 0 :: u64) i"
          using lbit_word [OF i, of mem "bases l ?d" "j + q"] i by (simp add: bit_simps add.assoc)
      qed
    qed
  qed
  have res: "(b, bm', mem') = (if \<not> all_full mem (bases l ?d + j) e then (False, bm, mem)
      else (True, bm\<lparr>m_num_bits := m_num_bits bm - int c\<rparr>, clear_words bm j e mem))"
    using r c(1) by (simp only: ClearRange_def Let_def dep p dv if_False)
  show b: "b \<longleftrightarrow> bit_range k c \<subseteq> S" and "\<not> b \<Longrightarrow> bm' = bm \<and> mem' = mem"
    using res full by (auto split: if_splits)
  note T = clear_words_tree [OF D(1,2) w D(4)]
  show "mem' a = mem a" if "a \<notin> own_words l"
    using res T that by (auto split: if_splits)
  assume b
  then have r': "bm' = bm\<lparr>m_num_bits := m_num_bits bm - int c\<rparr>" "mem' = clear_words bm j e mem"
      and sub: "bit_range k c \<subseteq> S"
    using res b full by (auto split: if_splits)
  have "(\<lambda>i. \<not> (j \<le> i div 64 \<and> i div 64 < j + e) \<and> i \<in> S) = (\<lambda>i. i \<in> S - bit_range k c)"
    using range by (intro ext) auto
  then have t: "tree l mem' ?d (\<lambda>i. i \<in> S - bit_range k c)"
    using T by (simp add: r'(2))
  have "card (S - bit_range k c) = card S - c" "c \<le> card S"
    using card_Diff_subset [OF _ sub] card_mono [OF D(7) sub] by (simp_all add: bit_range_def)
  then have "m_num_bits bm' = int (card (S - bit_range k c))"
    using D(6) by (simp add: r'(1) of_nat_diff)
  moreover have "S - bit_range k c \<subseteq> {..<n}" "has_layout bm' l"
    using D(2,5) by (auto simp: r'(1))
  ultimately show "holds_set l bm' mem' n (S - bit_range k c)"
    unfolding holds_set_def using t D(1,3) by blast
qed

section \<open>Finding a bit\<close>

lemma ctzll_bit:
  assumes "v \<noteq> 0"
  shows "ctzll v < 64" "bit v (ctzll v)"
proof -
  obtain i where i: "i < 64" "bit v i"
    using assms word_nonzero_iff by blast
  let ?t = "takeWhile (\<lambda>i. \<not> bit v i) [0..<64]"
  have "?t \<noteq> [0..<64]"
    using i by (auto simp: takeWhile_eq_all_conv)
  then have lt: "length ?t < length [0..<64]"
    by (metis length_takeWhile_le nat_less_le takeWhile_eq_take take_all_iff le_refl)
  then show "ctzll v < 64"
    by (simp add: ctzll_def)
  show "bit v (ctzll v)"
    using nth_length_takeWhile [OF lt] lt by (simp add: ctzll_def)
qed

definition half :: "nat \<Rightarrow> nat" where
  "half k = (if k = 0 then 0 else 2 ^ (k - 1))"

lemma select_loop_spec:
  assumes "bitmap \<noteq> 0" "\<And>i. bit bitmap i \<Longrightarrow> i < 2 ^ k"
  shows "\<exists>i. bit bitmap i \<and> fst (select_loop gen bitmap selected (half k) g) = selected + i"
  using assms
proof (induction k arbitrary: bitmap selected g)
  case 0
  then obtain i where "bit bitmap i"
    using word_nonzero_iff by blast
  then show ?case
    using 0(2) [of i] by (intro exI [of _ i]) (simp add: half_def)
next
  case (Suc k)
  let ?c = "2 ^ k :: nat"
  define high where "high = drop_bit ?c bitmap"
  define low where "low = bitmap AND NOT (push_bit ?c 0xFFFFFFFFFFFFFFFF)"
  have c: "half (Suc k) = ?c" "?c \<noteq> 0" "?c div 2 = half k"
    by (cases k; simp add: half_def)+
  have all: "(0xFFFFFFFFFFFFFFFF :: u64) = NOT 0"
    by simp
  have hb: "bit high i \<longleftrightarrow> bit bitmap (?c + i)" for i
    by (simp add: high_def bit_drop_bit_eq)
  have lb: "bit low i \<longleftrightarrow> bit bitmap i \<and> i < ?c" for i
    unfolding low_def all using bit_imp_le_length [of bitmap i] by (auto simp: bit_simps)
  have H: "\<exists>i. bit bitmap i \<and> fst (select_loop gen high (selected + ?c) (?c div 2) g) = selected + i"
    if "high \<noteq> 0" for g
  proof -
    have "i < ?c" if "bit high i" for i
      using hb Suc.prems(2) [of "?c + i"] that by simp
    from Suc.IH [OF \<open>high \<noteq> 0\<close> this] obtain i where
      "bit high i" "fst (select_loop gen high (selected + ?c) (half k) g) = selected + ?c + i"
      by blast
    then show ?thesis
      using hb c(3) by (intro exI [of _ "?c + i"]) simp
  qed
  have L: "\<exists>i. bit bitmap i \<and> fst (select_loop gen low selected (?c div 2) g) = selected + i"
    if "low \<noteq> 0" for g
  proof -
    have "i < ?c" if "bit low i" for i
      using lb that by simp
    from Suc.IH [OF \<open>low \<noteq> 0\<close> this] obtain i where
      "bit low i" "fst (select_loop gen low selected (half k) g) = selected + i"
      by blast
    then show ?thesis
      using lb c(3) by (intro exI [of _ i]) simp
  qed
  have eq: "select_loop gen bitmap selected (half (Suc k)) g =
      (if high \<noteq> 0 \<and> low = 0 then select_loop gen high (selected + ?c) (?c div 2) g
       else if high \<noteq> 0
       then (let (b, g) = GenerateRandomBit gen g
             in if b then select_loop gen high (selected + ?c) (?c div 2) g
                else select_loop gen low selected (?c div 2) g)
       else select_loop gen low selected (?c div 2) g)"
    unfolding c(1) using c(2) by (subst select_loop.simps) (simp only: if_False Let_def high_def low_def)
  have "low \<noteq> 0" if "high = 0"
  proof -
    obtain j where j: "bit bitmap j"
      using Suc.prems(1) word_nonzero_iff by blast
    have "j < ?c"
      using j hb [of "j - ?c"] that by (cases "j < ?c") auto
    then show ?thesis
      using j lb [of j] by auto
  qed
  then show ?case
    unfolding eq using H L by (cases "high = 0"; cases "low = 0") (simp_all add: split_beta Let_def)
qed

lemma SelectRandomBit_bit:
  assumes "v \<noteq> 0"
  shows "bit v (fst (SelectRandomBit gen v g))" "fst (SelectRandomBit gen v g) < 64"
proof -
  have "i < 2 ^ 6" if "bit v i" for i
    using bit_imp_le_length [OF that] by simp
  from select_loop_spec [OF assms this, of gen 0 g] show b: "bit v (fst (SelectRandomBit gen v g))"
    by (auto simp: SelectRandomBit_def half_def)
  show "fst (SelectRandomBit gen v g) < 64"
    using bit_imp_le_length [OF b] by simp
qed

text \<open>The levels, seen from the root.\<close>

lemma tree_down:
  assumes "tree l mem e P" "d < e" "i < 64 * sizes l d"
  shows "lbit mem (bases l d) i \<longleftrightarrow> i < sizes l (Suc d) \<and> mem (bases l (Suc d) + i) \<noteq> 0"
  using assms
proof (induction e arbitrary: P)
  case (Suc e)
  then show ?case
    using tree_leaf [of l mem e _ i] by (cases "d = e") auto
qed simp

lemma tree_up:
  assumes "layout_ok l" "tree l mem d P" "d < depths l" "i < 64 * sizes l d" "P i"
  shows "mem (bases l 0) \<noteq> 0"
  using assms(2-5)
proof (induction d arbitrary: P i)
  case 0
  then have "lbit mem (bases l 0) i" "i div 64 = 0"
    using assms(1) by (simp_all add: layout_ok_def)
  then show ?case
    by (auto simp: lbit_def)
next
  case (Suc d)
  let ?j = "i div 64"
  have j: "?j < sizes l (Suc d)"
    using div_64_less [OF Suc.prems(3)] .
  have "lbit mem (bases l (Suc d)) i"
    using Suc.prems by simp
  then have "mem (bases l (Suc d) + ?j) \<noteq> 0"
    by (auto simp: lbit_def)
  moreover have "sizes l (Suc d) \<le> 64 * sizes l d"
    using assms(1) Suc.prems(2) by (simp add: layout_ok_def)
  ultimately show ?case
    using Suc.IH [of "\<lambda>j. j < sizes l (Suc d) \<and> mem (bases l (Suc d) + j) \<noteq> 0" ?j] Suc.prems j by simp
qed

lemma descend:
  assumes h: "holds_set l bm mem n S" and d: "depth < depths l" and o: "off < sizes l depth"
    and i: "i < 64" "bit (mem (bases l depth + off)) i"
  shows "depth = depths l - 1 \<Longrightarrow> off * 64 + i \<in> S"
    "Suc depth < depths l \<Longrightarrow> off * 64 + i < sizes l (Suc depth) \<and> mem (bases l (Suc depth) + (off * 64 + i)) \<noteq> 0"
proof -
  note D = holds_setD [OF h]
  have b: "lbit mem (bases l depth) (off * 64 + i)" "off * 64 + i < 64 * sizes l depth"
    using lbit_word [OF i(1)] i o by simp_all
  show "off * 64 + i \<in> S" if "depth = depths l - 1"
    using tree_leaf [OF D(4)] b that by blast
  show "off * 64 + i < sizes l (Suc depth) \<and> mem (bases l (Suc depth) + (off * 64 + i)) \<noteq> 0"
    if "Suc depth < depths l"
  proof -
    have "depth < depths l - 1" using that by simp
    from tree_down [OF D(4) this b(2)] show ?thesis using b(1) by blast
  qed
qed

lemma find_random_spec:
  assumes h: "holds_set l bm mem n S"
  shows "Suc k + depth = depths l \<Longrightarrow> off < sizes l depth \<Longrightarrow> mem (bases l depth + off) \<noteq> 0 \<Longrightarrow>
    \<exists>i g'. find_random gen bm mem (Suc k) depth off g = (Some i, g') \<and> i \<in> S"
proof (induction k arbitrary: depth off g)
  case 0
  have p: "m_bit_storages bm ! depth = bases l depth"
    using holds_setD(2) [OF h] 0 by (simp add: has_layout_def)
  note B = SelectRandomBit_bit [OF 0(3), of gen g]
  have "depth < depths l" "depth = depths l - 1"
    using 0(1) by auto
  from descend(1) [OF h this(1) 0(2) B(2,1) this(2)] show ?case
    using 0(3) p by (simp add: Let_def split_beta)
next
  case (Suc k)
  have p: "m_bit_storages bm ! depth = bases l depth"
    using holds_setD(2) [OF h] Suc.prems(1) by (simp add: has_layout_def)
  note B = SelectRandomBit_bit [OF Suc.prems(3), of gen g]
  have "find_random gen bm mem (Suc (Suc k)) depth off g =
      find_random gen bm mem (Suc k) (depth + 1) (off * 64 + fst (SelectRandomBit gen (mem (bases l depth + off)) g))
        (snd (SelectRandomBit gen (mem (bases l depth + off)) g))"
    using p Suc.prems(3) by (simp only: find_random.simps(2) [of gen bm mem "Suc k"] Let_def split_beta if_False)
  then show ?case
    using descend(2) [OF h _ Suc.prems(2) B(2,1)] Suc.prems(1) Suc.IH [of "depth + 1"] by simp
qed

lemma find_first_spec:
  assumes h: "holds_set l bm mem n S"
  shows "Suc k + depth = depths l \<Longrightarrow> off < sizes l depth \<Longrightarrow> mem (bases l depth + off) \<noteq> 0 \<Longrightarrow>
    \<exists>i. find_first bm mem (Suc k) depth off = Some i \<and> i \<in> S"
proof (induction k arbitrary: depth off)
  case 0
  have p: "m_bit_storages bm ! depth = bases l depth"
    using holds_setD(2) [OF h] 0 by (simp add: has_layout_def)
  have "depth < depths l" "depth = depths l - 1"
    using 0(1) by auto
  from descend(1) [OF h this(1) 0(2) ctzll_bit [OF 0(3)] this(2)] show ?case
    using 0(3) p by (simp add: Let_def)
next
  case (Suc k)
  have p: "m_bit_storages bm ! depth = bases l depth"
    using holds_setD(2) [OF h] Suc.prems(1) by (simp add: has_layout_def)
  have "find_first bm mem (Suc (Suc k)) depth off =
      find_first bm mem (Suc k) (depth + 1) (off * 64 + ctzll (mem (bases l depth + off)))"
    using p Suc.prems(3) by (simp only: find_first.simps(2) [of bm mem "Suc k"] Let_def if_False)
  then show ?case
    using descend(2) [OF h _ Suc.prems(2) ctzll_bit [OF Suc.prems(3)]] Suc.prems(1) Suc.IH [of "depth + 1"] by simp
qed

lemma holds_set_rng [simp]: "holds_set l (bm\<lparr>m_bitmap_rng := g\<rparr>) mem n S = holds_set l bm mem n S"
  by (simp add: holds_set_def has_layout_def)

lemma FindFreeBlock_spec:
  assumes h: "holds_set l bm mem n S"
  shows "case fst (FindFreeBlock gen random bm mem) of None \<Rightarrow> S = {} | Some i \<Rightarrow> i \<in> S"
    "holds_set l (snd (FindFreeBlock gen random bm mem)) mem n S"
proof -
  note D = holds_setD [OF h]
  obtain k where k: "m_used_depths bm = Suc k" "Suc k + 0 = depths l"
    using D(2,9) by (auto simp: has_layout_def)
  have p: "m_bit_storages bm ! 0 = bases l 0" and o: "0 < sizes l 0"
    using D(1,2) by (auto simp: has_layout_def layout_ok_def)
  show "case fst (FindFreeBlock gen random bm mem) of None \<Rightarrow> S = {} | Some i \<Rightarrow> i \<in> S"
  proof (cases "mem (bases l 0) = 0")
    case True
    then have "S = {}"
      using tree_up [OF D(1,4,8)] D(3,5) by fastforce
    then show ?thesis
      using True p k(1) by (simp add: FindFreeBlock_def Let_def)
  next
    case False
    then have nz: "mem (bases l 0 + 0) \<noteq> 0" by simp
    show ?thesis
      using find_random_spec [OF h k(2) o nz, of gen "m_bitmap_rng bm"] find_first_spec [OF h k(2) o nz] k(1)
      by (auto simp: FindFreeBlock_def simp del: find_random.simps find_first.simps)
  qed
  show "holds_set l (snd (FindFreeBlock gen random bm mem)) mem n S"
    using h by (simp add: FindFreeBlock_def split_beta)
qed

section \<open>Initialization\<close>

definition words_for :: "nat \<Rightarrow> nat" where
  "words_for n = AlignUp n 64 div 64"

lemma words_for_eq: "words_for n = (n + 63) div 64"
  using AlignUp_pow2 [of n 6] by (simp add: words_for_def)

lemma words_for_bounds: "n \<le> 64 * words_for n" "64 * words_for n < n + 64" "0 < n \<Longrightarrow> 0 < words_for n"
proof -
  have "64 * ((n + 63) div 64) + (n + 63) mod 64 = n + 63" "(n + 63) mod 64 < 64"
    by simp_all
  then show "n \<le> 64 * words_for n" "64 * words_for n < n + 64"
    unfolding words_for_eq by linarith+
  then show "0 < words_for n" if "0 < n"
    using that by (cases "words_for n") auto
qed

lemma GetRequiredDepth_bound: "n < 64 ^ GetRequiredDepth n" "0 < GetRequiredDepth n"
proof (induction n rule: GetRequiredDepth.induct)
  case (1 n)
  {
    case 1
    show ?case
    proof (cases "n div 64 = 0")
      case True
      then show ?thesis by (subst GetRequiredDepth.simps) (auto simp: div_eq_0_iff)
    next
      case False
      then have "n div 64 < 64 ^ GetRequiredDepth (n div 64)"
        using "1.IH"(1) [OF refl] by blast
      then have "n < 64 * 64 ^ GetRequiredDepth (n div 64)"
        by (simp add: div_less_iff_less_mult mult.commute)
      then show ?thesis
        using False by (subst GetRequiredDepth.simps) (simp add: Let_def)
    qed
  next
    case 2
    show ?case
      by (subst GetRequiredDepth.simps) (simp add: Let_def)
  }
qed

lemma storage_loop_other: "D \<le> e \<Longrightarrow> fst (storage_loop D st sz ptrs) ! e = ptrs ! e"
proof (induction D arbitrary: st sz ptrs)
  case (Suc D)
  then show ?case
    by (simp add: Let_def)
qed simp

lemma storage_loop_layout:
  assumes "0 < sz" "sz \<le> 64 ^ Suc D" "Suc D \<le> length ptrs" "storage_loop (Suc D) st sz ptrs = (ptrs', st')"
  shows "\<exists>l. layout_ok l \<and> depths l = Suc D \<and> (\<forall>d < Suc D. ptrs' ! d = bases l d) \<and>
    sizes l D = words_for sz \<and> bases l D = st \<and> st' = Suc (bases l 0)"
  using assms
proof (induction D arbitrary: st sz ptrs)
  case 0
  have "words_for sz = 1"
    using words_for_bounds [of sz] 0(1,2) by simp
  moreover have "ptrs' = ptrs[0 := st]" "st' = st + words_for sz"
    using 0(4) by (simp_all add: Let_def words_for_def)
  moreover have "0 < length ptrs"
    using 0(3) by linarith
  ultimately show ?case
    by (intro exI [of _ "\<lparr>bases = (\<lambda>_. st), sizes = (\<lambda>_. 1), depths = 1\<rparr>"]) (simp add: layout_ok_def)
next
  case (Suc D)
  let ?w = "words_for sz"
  have loop: "storage_loop (Suc D) (st + ?w) ?w (ptrs[Suc D := st]) = (ptrs', st')"
    using Suc.prems(4) by (simp only: storage_loop.simps(2) [of "Suc D"] Let_def words_for_def)
  have "64 * ?w < 64 * 64 ^ Suc D + 64"
    using words_for_bounds(2) [of sz] Suc.prems(2) by simp
  then have w: "0 < ?w" "?w \<le> 64 ^ Suc D"
    using words_for_bounds(3) Suc.prems(1) by auto
  obtain l where l: "layout_ok l" "depths l = Suc D" "\<forall>d < Suc D. ptrs' ! d = bases l d"
    "sizes l D = words_for ?w" "bases l D = st + ?w" "st' = Suc (bases l 0)"
    using Suc.IH [OF w _ loop] Suc.prems(3) by auto
  let ?l = "\<lparr>bases = (bases l)(Suc D := st), sizes = (sizes l)(Suc D := ?w), depths = Suc (Suc D)\<rparr>"
  have "ptrs' ! Suc D = st"
    using storage_loop_other [of "Suc D" "Suc D" "st + ?w" ?w "ptrs[Suc D := st]"] loop Suc.prems(3) by simp
  moreover have "layout_ok ?l"
    using l(1,2,4,5) words_for_bounds(1) [of ?w] by (auto simp: layout_ok_def less_Suc_eq)
  ultimately show ?case
    using l(3,6) by (intro exI [of _ ?l]) (auto simp: less_Suc_eq)
qed

lemma storage_loop_overhead: "snd (storage_loop D st sz ptrs) + acc = st + overhead_loop D sz acc"
proof (induction D arbitrary: st sz ptrs acc)
  case (Suc D)
  show ?case
    using Suc.IH [of "st + AlignUp sz 64 div 64" "AlignUp sz 64 div 64" "ptrs[D := st]" "acc + AlignUp sz 64 div 64"]
    by (simp add: Let_def)
qed simp

lemma tree_empty:
  assumes "layout_ok l" "d < depths l" "\<And>a. bases l d \<le> a \<Longrightarrow> a \<le> bases l 0 \<Longrightarrow> mem a = 0"
  shows "tree l mem d (\<lambda>_. False)"
  using assms(2,3)
proof (induction d)
  case 0
  then show ?case
    using assms(1) by (simp add: lbit_def layout_ok_def)
next
  case (Suc d)
  have b: "bases l (Suc d) + sizes l (Suc d) = bases l d" "bases l d \<le> bases l 0"
    using bases_mono [OF assms(1) Suc.prems(1)] bases_le [OF assms(1), of d] Suc.prems(1) by simp_all
  have z: "mem (bases l (Suc d) + j) = 0" if "j < sizes l (Suc d)" for j
    using Suc.prems(2) [of "bases l (Suc d) + j"] that b by simp
  then have "(\<lambda>j. j < sizes l (Suc d) \<and> mem (bases l (Suc d) + j) \<noteq> 0) = (\<lambda>_. False)"
    by auto
  moreover have "\<not> lbit mem (bases l (Suc d)) i" if "i < 64 * sizes l (Suc d)" for i
    using z [OF div_64_less [OF that]] by (simp add: lbit_def)
  moreover have "tree l mem d (\<lambda>_. False)"
    using Suc.prems b by (intro Suc.IH) auto
  ultimately show ?case
    by simp
qed

lemma Initialize_holds:
  assumes "0 < n" "GetRequiredDepth n \<le> length (m_bit_storages bm)"
    "KPageBitmap_Initialize st n bm = (st', bm')" "\<And>a. st \<le> a \<Longrightarrow> a < st' \<Longrightarrow> mem a = 0"
  shows "\<exists>l. holds_set l bm' mem n {} \<and> own_words l = {st..<st'} \<and> leaf_words l = words_for n"
    "st' = st + KPageBitmap_CalculateManagementOverheadSize n div 8"
proof -
  obtain D where D: "GetRequiredDepth n = Suc D"
    using GetRequiredDepth_bound(2) [of n] by (cases "GetRequiredDepth n") auto
  obtain ptrs where loop: "storage_loop (Suc D) st n (m_bit_storages bm) = (ptrs, st')"
    and bm': "bm' = bm\<lparr>m_num_bits := 0, m_used_depths := Suc D, m_bit_storages := ptrs\<rparr>"
    using assms(3) D by (cases "storage_loop (Suc D) st n (m_bit_storages bm)")
      (auto simp: KPageBitmap_Initialize_def Let_def simp del: storage_loop.simps)
  have "n \<le> 64 ^ Suc D"
    using GetRequiredDepth_bound(1) [of n] D by simp
  from storage_loop_layout [OF assms(1) this _ loop] obtain l where l: "layout_ok l" "depths l = Suc D"
    "\<forall>d < Suc D. ptrs ! d = bases l d" "sizes l D = words_for n" "bases l D = st" "st' = Suc (bases l 0)"
    using assms(2) D by auto
  have "tree l mem D (\<lambda>_. False)"
    using l(2,5,6) assms(4) by (intro tree_empty [OF l(1)]) auto
  then have "holds_set l bm' mem n {}"
    using l words_for_bounds(1) [of n] by (simp add: holds_set_def has_layout_def bm')
  moreover have "own_words l = {st..<st'}"
    using l(2,5,6) by (auto simp: own_words_def)
  ultimately show "\<exists>l. holds_set l bm' mem n {} \<and> own_words l = {st..<st'} \<and> leaf_words l = words_for n"
    using l(2,4) by (intro exI [of _ l]) (simp add: leaf_words_def)
  show "st' = st + KPageBitmap_CalculateManagementOverheadSize n div 8"
    using storage_loop_overhead [of "Suc D" st n "m_bit_storages bm" 0] loop D
    by (simp add: KPageBitmap_CalculateManagementOverheadSize_def del: storage_loop.simps overhead_loop.simps)
qed

section \<open>The interface the heap uses\<close>

text \<open>
  A set of numbers below a capacity, with a search and the removal of a whole range if it is full.
\<close>

locale page_set =
  fixes valid :: "'b \<Rightarrow> nat set \<Rightarrow> bool"
    and capacity :: nat
    and range_ok :: "nat \<Rightarrow> nat \<Rightarrow> bool"
    and set_bit :: "nat \<Rightarrow> 'b \<Rightarrow> 'b"
    and clear_bit :: "nat \<Rightarrow> 'b \<Rightarrow> 'b"
    and clear_range :: "nat \<Rightarrow> nat \<Rightarrow> 'b \<Rightarrow> bool \<times> 'b"
    and find_bit :: "'b \<Rightarrow> nat option \<times> 'b"
  assumes set_law: "valid b S \<Longrightarrow> k < capacity \<Longrightarrow> k \<notin> S \<Longrightarrow> valid (set_bit k b) (insert k S)"
    and clear_law: "valid b S \<Longrightarrow> k \<in> S \<Longrightarrow> valid (clear_bit k b) (S - {k})"
    and range_law: "valid b S \<Longrightarrow> range_ok k c \<Longrightarrow> clear_range k c b = (r, b') \<Longrightarrow>
      (r \<longleftrightarrow> bit_range k c \<subseteq> S) \<and> valid b' (if r then S - bit_range k c else S)"
    and find_law: "valid b S \<Longrightarrow> find_bit b = (x, b') \<Longrightarrow>
      valid b' S \<and> (case x of None \<Rightarrow> S = {} | Some k \<Rightarrow> k \<in> S)"
begin

lemma pop_law:
  assumes "valid b S" "find_bit b = (Some k, b')"
  shows "k \<in> S \<and> valid (clear_bit k b') (S - {k})"
  using find_law [OF assms] clear_law by simp

lemma push_law:
  assumes "valid b S" "k < capacity" "k \<notin> S" "range_ok q c" "k \<in> bit_range q c"
    "clear_range q c (set_bit k b) = (r, b')"
  shows "r \<longleftrightarrow> bit_range q c - {k} \<subseteq> S" "valid b' (if r then S - bit_range q c else insert k S)"
proof -
  have v: "valid (set_bit k b) (insert k S)"
    by (rule set_law [OF assms(1-3)])
  note R = range_law [OF v assms(4,6)]
  show "r \<longleftrightarrow> bit_range q c - {k} \<subseteq> S"
    using R by blast
  have "insert k S - bit_range q c = S - bit_range q c"
    using assms(5) by blast
  then show "valid b' (if r then S - bit_range q c else insert k S)"
    using R by (auto split: if_splits)
qed

end

definition range_fits :: "layout \<Rightarrow> nat \<Rightarrow> nat \<Rightarrow> bool" where
  "range_fits l k c \<longleftrightarrow>
     (if c < 64 then k mod 64 + c \<le> 64 \<and> k div 64 < leaf_words l
      else 64 dvd k \<and> 64 dvd c \<and> k + c \<le> 64 * leaf_words l)"

lemma ClearRange_holds:
  assumes "holds_set l bm mem n S" "range_fits l k c" "ClearRange k c bm mem = (b, bm', mem')"
  shows "b \<longleftrightarrow> bit_range k c \<subseteq> S" "holds_set l bm' mem' n (if b then S - bit_range k c else S)"
    "a \<notin> own_words l \<Longrightarrow> mem' a = mem a"
proof -
  have "(b \<longleftrightarrow> bit_range k c \<subseteq> S) \<and> holds_set l bm' mem' n (if b then S - bit_range k c else S) \<and>
      (a \<notin> own_words l \<longrightarrow> mem' a = mem a)"
  proof (cases "c < 64")
    case True
    with assms(2) have "k mod 64 + c \<le> 64" "k div 64 < leaf_words l"
      by (simp_all add: range_fits_def)
    from ClearRange_small [OF assms(1) True this assms(3)] show ?thesis
      using assms(1) by auto
  next
    case False
    with assms(2) have "64 dvd k" "64 dvd c" "k + c \<le> 64 * leaf_words l"
      by (simp_all add: range_fits_def)
    from ClearRange_large [OF assms(1) False this assms(3)] show ?thesis
      using assms(1) by auto
  qed
  then show "b \<longleftrightarrow> bit_range k c \<subseteq> S" "holds_set l bm' mem' n (if b then S - bit_range k c else S)"
    "a \<notin> own_words l \<Longrightarrow> mem' a = mem a"
    by blast+
qed

interpretation bitmap: page_set "\<lambda>(bm, mem). holds_set l bm mem n" n "range_fits l"
  "\<lambda>k (bm, mem). KPageBitmap_SetBit k bm mem" "\<lambda>k (bm, mem). KPageBitmap_ClearBit k bm mem"
  "\<lambda>k c (bm, mem). ClearRange k c bm mem"
  "\<lambda>(bm, mem). case FindFreeBlock gen random bm mem of (r, bm) \<Rightarrow> (r, bm, mem)" for l n gen random
proof
  fix b :: "'a KPageBitmap \<times> words" and S k c b'
  obtain bm mem where b: "b = (bm, mem)" by (cases b)
  assume v: "(case b of (bm, mem) \<Rightarrow> holds_set l bm mem n) S"
  then have h: "holds_set l bm mem n S" by (simp add: b)
  show "(case (case b of (bm, mem) \<Rightarrow> KPageBitmap_SetBit k bm mem) of (bm, mem) \<Rightarrow> holds_set l bm mem n) (insert k S)"
    if "k < n" "k \<notin> S"
    using SetBit_holds(1) [OF h that] by (simp add: b split: prod.splits)
  show "(case (case b of (bm, mem) \<Rightarrow> KPageBitmap_ClearBit k bm mem) of (bm, mem) \<Rightarrow> holds_set l bm mem n) (S - {k})"
    if "k \<in> S"
    using ClearBit_holds(1) [OF h that] by (simp add: b split: prod.splits)
  show "(r \<longleftrightarrow> bit_range k c \<subseteq> S) \<and> (case b' of (bm, mem) \<Rightarrow> holds_set l bm mem n) (if r then S - bit_range k c else S)"
    if "range_fits l k c" "(case b of (bm, mem) \<Rightarrow> ClearRange k c bm mem) = (r, b')" for r
    using ClearRange_holds(1,2) [OF h that(1)] that(2) by (cases b') (simp add: b)
  show "(case b' of (bm, mem) \<Rightarrow> holds_set l bm mem n) S \<and> (case x of None \<Rightarrow> S = {} | Some k \<Rightarrow> k \<in> S)"
    if "(case b of (bm, mem) \<Rightarrow> case FindFreeBlock gen random bm mem of (r, bm) \<Rightarrow> (r, bm, mem)) = (x, b')" for x
    using FindFreeBlock_spec [OF h, of gen random] that by (auto simp: b split: prod.splits option.splits)
qed

section \<open>Larger bitmaps need more storage\<close>

lemma GetRequiredDepth_le: "n < 64 ^ Suc D \<Longrightarrow> GetRequiredDepth n \<le> Suc D"
proof (induction D arbitrary: n)
  case 0
  then show ?case by (subst GetRequiredDepth.simps) (simp add: Let_def)
next
  case (Suc D)
  then have "n div 64 < 64 ^ Suc D"
    by (simp add: div_less_iff_less_mult mult.commute)
  from Suc.IH [OF this] show ?case
    by (subst GetRequiredDepth.simps) (simp add: Let_def)
qed

lemma words_for_mono: "n \<le> m \<Longrightarrow> words_for n \<le> words_for m"
  unfolding words_for_eq by (intro div_le_mono) simp

lemma GetRequiredDepth_mono: "n \<le> m \<Longrightarrow> GetRequiredDepth n \<le> GetRequiredDepth m"
proof -
  assume "n \<le> m"
  obtain D where D: "GetRequiredDepth m = Suc D"
    using GetRequiredDepth_bound(2) [of m] by (cases "GetRequiredDepth m") auto
  then have "n < 64 ^ Suc D"
    using GetRequiredDepth_bound(1) [of m] \<open>n \<le> m\<close> by simp
  then show ?thesis
    unfolding D by (rule GetRequiredDepth_le)
qed

lemma overhead_loop_acc: "acc \<le> overhead_loop D n acc"
proof (induction D arbitrary: n acc)
  case (Suc D)
  show ?case
    using Suc.IH [of "acc + words_for n" "words_for n"] by (simp add: Let_def words_for_def)
qed simp

lemma overhead_loop_mono: "n \<le> m \<Longrightarrow> D \<le> E \<Longrightarrow> acc \<le> acc' \<Longrightarrow> overhead_loop D n acc \<le> overhead_loop E m acc'"
proof (induction D arbitrary: E n m acc acc')
  case 0
  then show ?case using overhead_loop_acc [of acc' E m] by simp
next
  case (Suc D)
  then obtain E' where E: "E = Suc E'" "D \<le> E'" by (cases E) auto
  have w: "words_for n \<le> words_for m" using Suc.prems(1) by (rule words_for_mono)
  then have "overhead_loop D (words_for n) (acc + words_for n) \<le> overhead_loop E' (words_for m) (acc' + words_for m)"
    using E(2) Suc.prems(3) by (intro Suc.IH) simp_all
  then show ?case by (simp add: E(1) Let_def words_for_def)
qed

end
