(* ===== verification/Kern_PageBitmap_Props.thy ===== *)
theory Kern_PageBitmap_Props
  imports Kern_PageBitmap
begin

text \<open>
  The page bitmap from initialization on: runs of its operations and the set they maintain.
\<close>

section \<open>Runs of the bitmap\<close>

text \<open>The calls with the answers they give.\<close>

datatype bitmap_event = Bit_set nat | Bit_cleared nat | Range_cleared nat nat bool | Bit_found "nat option"

text \<open>What \<^verbatim>\<open>ClearRange\<close> asserts of its arguments, for a bitmap of \<open>n\<close> bits.\<close>

definition range_in :: "nat \<Rightarrow> nat \<Rightarrow> nat \<Rightarrow> bool" where
  "range_in n k c \<longleftrightarrow>
     (if c < 64 then k mod 64 + c \<le> 64 \<and> k div 64 < words_for n
      else 64 dvd k \<and> 64 dvd c \<and> k + c \<le> 64 * words_for n)"

text \<open>The set beside the bitmap is what the callers know of it: a bit is set once and cleared when it
  is set.\<close>

inductive bitmap_step ::
    "('r \<Rightarrow> u32 \<times> 'r) \<Rightarrow> nat \<Rightarrow> ('r KPageBitmap \<times> words) \<times> nat set \<Rightarrow> bitmap_event \<Rightarrow>
     ('r KPageBitmap \<times> words) \<times> nat set \<Rightarrow> bool"
  for gen n where
  bitmap_set: "k < n \<Longrightarrow> k \<notin> S \<Longrightarrow> KPageBitmap_SetBit k bm mem = b \<Longrightarrow>
    bitmap_step gen n ((bm, mem), S) (Bit_set k) (b, insert k S)"
| bitmap_clear: "k \<in> S \<Longrightarrow> KPageBitmap_ClearBit k bm mem = b \<Longrightarrow>
    bitmap_step gen n ((bm, mem), S) (Bit_cleared k) (b, S - {k})"
| bitmap_range: "range_in n k c \<Longrightarrow> ClearRange k c bm mem = (r, b) \<Longrightarrow>
    bitmap_step gen n ((bm, mem), S) (Range_cleared k c r) (b, if r then S - bit_range k c else S)"
| bitmap_find: "FindFreeBlock gen random bm mem = (x, bm') \<Longrightarrow>
    bitmap_step gen n ((bm, mem), S) (Bit_found x) ((bm', mem), S)"

inductive set_step :: "nat \<Rightarrow> nat set \<Rightarrow> bitmap_event \<Rightarrow> nat set \<Rightarrow> bool" for n where
  set_set: "k < n \<Longrightarrow> k \<notin> S \<Longrightarrow> set_step n S (Bit_set k) (insert k S)"
| set_clear: "k \<in> S \<Longrightarrow> set_step n S (Bit_cleared k) (S - {k})"
| set_range: "bit_range k c \<subseteq> S \<Longrightarrow> set_step n S (Range_cleared k c True) (S - bit_range k c)"
| set_range_kept: "\<not> bit_range k c \<subseteq> S \<Longrightarrow> set_step n S (Range_cleared k c False) S"
| set_found: "k \<in> S \<Longrightarrow> set_step n S (Bit_found (Some k)) S"
| set_none: "set_step n {} (Bit_found None) {}"

definition bitmap_holds :: "layout \<Rightarrow> nat \<Rightarrow> words \<Rightarrow> ('r KPageBitmap \<times> words) \<times> nat set \<Rightarrow> bool" where
  "bitmap_holds l n mem0 = (\<lambda>((bm, mem), S). holds_set l bm mem n S \<and> leaf_words l = words_for n \<and>
     (\<forall>w. w \<notin> own_words l \<longrightarrow> mem w = mem0 w))"

lemma bitmap_step_set:
  assumes "bitmap_step gen n s e s'" "bitmap_holds l n mem0 s"
  shows "bitmap_holds l n mem0 s' \<and> set_step n (snd s) e (snd s')"
  using assms
proof (cases rule: bitmap_step.cases)
  case (bitmap_set k S bm mem b)
  with assms(2) have h: "holds_set l bm mem n S" by (simp add: bitmap_holds_def)
  show ?thesis
    using SetBit_holds [OF h bitmap_set(4,5)] assms(2) bitmap_set set_set
    by (cases b) (auto simp: bitmap_holds_def)
next
  case (bitmap_clear k S bm mem b)
  with assms(2) have h: "holds_set l bm mem n S" by (simp add: bitmap_holds_def)
  show ?thesis
    using ClearBit_holds [OF h bitmap_clear(4)] assms(2) bitmap_clear set_clear
    by (cases b) (auto simp: bitmap_holds_def)
next
  case (bitmap_range k c bm mem r b S)
  obtain bm' mem' where b: "b = (bm', mem')" by (cases b)
  have h: "holds_set l bm mem n S" "range_fits l k c"
    using assms(2) bitmap_range(1,4) by (simp_all add: bitmap_holds_def range_in_def range_fits_def)
  note C = ClearRange_holds [OF h bitmap_range(5) [unfolded b]]
  have "bitmap_holds l n mem0 s'"
    using C(2,3) assms(2) bitmap_range(1,3) by (simp add: bitmap_holds_def b)
  moreover have "set_step n S (Range_cleared k c r) (if r then S - bit_range k c else S)"
    using C(1) set_range set_range_kept by (cases r) simp_all
  ultimately show ?thesis
    using bitmap_range(1-3) by simp
next
  case (bitmap_find random bm mem x bm' S)
  with assms(2) have h: "holds_set l bm mem n S" by (simp add: bitmap_holds_def)
  note F = FindFreeBlock_spec [OF h, of gen random, unfolded bitmap_find(4) fst_conv snd_conv]
  have "set_step n S (Bit_found x) S"
    using F(1) set_found set_none by (cases x) auto
  then show ?thesis
    using F(2) assms(2) bitmap_find by (simp add: bitmap_holds_def)
qed

lemma bitmap_runs_set:
  assumes "runs (bitmap_step gen n) s es s'" "bitmap_holds l n mem0 s"
  shows "bitmap_holds l n mem0 s' \<and> runs (set_step n) (snd s) es (snd s')"
  using assms
proof (induction rule: runs.induct)
  case (runs_cons s e t es u)
  then show ?case
    using bitmap_step_set [OF runs_cons(1)] by (blast intro: runs.runs_cons)
qed (auto intro: runs.runs_nil)

section \<open>A bitmap of two bits\<close>

definition demo_bits :: "int \<Rightarrow> unit KPageBitmap" where
  "demo_bits c = \<lparr>m_bit_storages = [0], m_bitmap_rng = \<lparr>m_rng = (), m_entropy = 0, m_bits_available = 0\<rparr>,
     m_num_bits = c, m_used_depths = 1\<rparr>"

lemma demo_bits_init:
  "GetRequiredDepth 2 \<le> length (m_bit_storages (demo_bits 0))"
  "KPageBitmap_Initialize 0 2 (demo_bits 0) = (1, demo_bits 0)"
proof -
  have "GetRequiredDepth 2 = Suc 0" by (simp add: GetRequiredDepth.simps [of 2])
  then show "GetRequiredDepth 2 \<le> length (m_bit_storages (demo_bits 0))"
    "KPageBitmap_Initialize 0 2 (demo_bits 0) = (1, demo_bits 0)"
    by (simp_all add: KPageBitmap_Initialize_def demo_bits_def AlignUp_def)
qed

lemma demo_bits_set: "KPageBitmap_SetBit 1 (demo_bits 0) (\<lambda>_. 0) = (demo_bits 1, (\<lambda>_. 0)(0 := 2))"
  by (simp add: KPageBitmap_SetBit_def demo_bits_def set_bits.simps)

lemma demo_bits_find: "FindFreeBlock gen False (demo_bits 1) ((\<lambda>_. 0)(0 := 2)) = (Some 1, demo_bits 1)"
  by (simp add: FindFreeBlock_def demo_bits_def find_first.simps ctzll_def upt_rec)

lemma demo_bits_range: "ClearRange 0 2 (demo_bits 1) ((\<lambda>_. 0)(0 := 2)) = (False, demo_bits 1, (\<lambda>_. 0)(0 := 2))"
  by (simp add: ClearRange_def demo_bits_def)

lemma demo_bits_run:
  "runs (bitmap_step gen 2) ((demo_bits 0, \<lambda>_. 0), {})
     [Bit_set 1, Range_cleared 0 2 False, Bit_found (Some 1)] ((demo_bits 1, (\<lambda>_. 0)(0 := 2)), {1})"
proof -
  have "bitmap_step gen 2 ((demo_bits 0, \<lambda>_. 0), {}) (Bit_set 1) ((demo_bits 1, (\<lambda>_. 0)(0 := 2)), {1})"
    by (rule bitmap_set [OF _ _ demo_bits_set]) simp_all
  moreover have "bitmap_step gen 2 ((demo_bits 1, (\<lambda>_. 0)(0 := 2)), {1}) (Range_cleared 0 2 False)
      ((demo_bits 1, (\<lambda>_. 0)(0 := 2)), {1})"
    using bitmap_range [OF _ demo_bits_range, of 2 gen "{1}"] by (simp add: range_in_def words_for_eq)
  moreover have "bitmap_step gen 2 ((demo_bits 1, (\<lambda>_. 0)(0 := 2)), {1}) (Bit_found (Some 1))
      ((demo_bits 1, (\<lambda>_. 0)(0 := 2)), {1})"
    by (rule bitmap_find [OF demo_bits_find])
  ultimately show ?thesis
    by (blast intro: runs_cons runs_nil)
qed

section \<open>Properties\<close>

text \<open>
  C40. Initialized on zeroed storage, the hierarchical page bitmap is a set of numbers below its size:
  after any sequence of \<^verbatim>\<open>SetBit\<close>, \<^verbatim>\<open>ClearBit\<close>, \<^verbatim>\<open>ClearRange\<close> and \<^verbatim>\<open>FindFreeBlock\<close>, a search (deterministic
  or random, whatever the generator returns) finds a member and fails only on the empty set,
  \<^verbatim>\<open>ClearRange\<close> succeeds exactly when the whole range is present and then removes it, else changes
  nothing, \<^verbatim>\<open>GetNumBits\<close> is the number of members, and no word outside the storage that \<^verbatim>\<open>Initialize\<close>
  consumed, which is what \<^verbatim>\<open>CalculateManagementOverheadSize\<close> says, is written.
\<close>

theorem page_bitmap_refines_set:
  assumes "0 < n" "GetRequiredDepth n \<le> length (m_bit_storages bm0)"
    "KPageBitmap_Initialize st n bm0 = (st', bm)" "\<forall>w. st \<le> w \<and> w < st' \<longrightarrow> mem w = 0"
    "runs (bitmap_step gen n) ((bm, mem), {}) es ((bm', mem'), S)"
  shows "runs (set_step n) {} es S \<and> m_num_bits bm' = int (card S) \<and> S \<subseteq> {..<n} \<and>
    (\<forall>w. w \<notin> {st..<st'} \<longrightarrow> mem' w = mem w) \<and>
    8 * (st' - st) = KPageBitmap_CalculateManagementOverheadSize n"
proof -
  have zero: "mem w = 0" if "st \<le> w" "w < st'" for w
    using assms(4) that by simp
  note I = Initialize_holds [where mem = mem, OF assms(1-3) zero]
  obtain l where l: "holds_set l bm mem n {}" "own_words l = {st..<st'}" "leaf_words l = words_for n"
    using I(1) by blast
  then have "bitmap_holds l n mem ((bm, mem), {})" by (simp add: bitmap_holds_def)
  note R = bitmap_runs_set [OF assms(5) this]
  then have "holds_set l bm' mem' n S" by (simp add: bitmap_holds_def)
  note D = holds_setD(5,6) [OF this]
  show ?thesis
    using R D I(2) l(2) by (auto simp: bitmap_holds_def KPageBitmap_CalculateManagementOverheadSize_def)
qed

theorem page_bitmap_refines_set_witness:
  "runs (set_step 2) {} [Bit_set 1, Range_cleared 0 2 False, Bit_found (Some 1)] {1} \<and>
   m_num_bits (demo_bits 1) = int (card {1 :: nat}) \<and> 8 * (1 - 0) = KPageBitmap_CalculateManagementOverheadSize 2"
  using page_bitmap_refines_set [OF _ demo_bits_init _ demo_bits_run [of "Pair 0"]] by simp

end
