(* ===== verification/Kern_PageHeap.thy ===== *)
theory Kern_PageHeap
  imports Kern_PageBitmap
begin

text \<open>
  The page heap (\<^verbatim>\<open>KPageHeap\<close>, \<^verbatim>\<open>kern_k_page_heap.hpp\<close> and \<^verbatim>\<open>kern_k_page_heap.cpp\<close>): free physical memory
  as blocks of seven sizes, one hierarchical bitmap per size. Freed blocks are merged with their
  buddies into the next size, allocation splits a larger block. Addresses are natural numbers, null
  is \<open>0\<close>; the heap lies below \<open>2 ^ 64\<close>, so no sum of the code wraps. The management area that holds
  all bitmaps is the memory \<open>words\<close>.
\<close>

section \<open>Block sizes\<close>

definition PageSize :: nat where
  "PageSize = 0x1000"

definition MemoryBlockPageShifts :: "nat list" where
  "MemoryBlockPageShifts = [0xC, 0x10, 0x15, 0x16, 0x19, 0x1D, 0x1E]"

definition NumMemoryBlockPageShifts :: nat where
  "NumMemoryBlockPageShifts = 7"

definition GetBlockSize :: "nat \<Rightarrow> nat" where
  "GetBlockSize index = 2 ^ (MemoryBlockPageShifts ! index)"

definition GetBlockNumPages :: "nat \<Rightarrow> nat" where
  "GetBlockNumPages index = GetBlockSize index div PageSize"

text \<open>\<open>None\<close> is the result \<open>-1\<close>.\<close>

definition GetAlignedBlockIndex :: "nat \<Rightarrow> nat \<Rightarrow> nat option" where
  "GetAlignedBlockIndex num_pages align_pages =
     (let target_pages = max num_pages align_pages
      in find (\<lambda>i. target_pages \<le> GetBlockNumPages i) [0..<NumMemoryBlockPageShifts])"

definition GetBlockIndex :: "nat \<Rightarrow> nat option" where
  "GetBlockIndex num_pages = find (\<lambda>i. GetBlockNumPages i \<le> num_pages) (rev [0..<NumMemoryBlockPageShifts])"

section \<open>The blocks of one size\<close>

record 'r Block =
  m_bitmap :: "'r KPageBitmap"
  m_block_heap_address :: nat
  m_end_offset :: nat
  m_block_shift :: nat
  m_next_block_shift :: nat

definition Block_GetSize :: "'r Block \<Rightarrow> nat" where
  "Block_GetSize b = 2 ^ m_block_shift b"

definition Block_GetNumPages :: "'r Block \<Rightarrow> nat" where
  "Block_GetNumPages b = Block_GetSize b div PageSize"

definition Block_GetNumFreePages :: "'r Block \<Rightarrow> int" where
  "Block_GetNumFreePages b = m_num_bits (m_bitmap b) * int (Block_GetNumPages b)"

definition block_align :: "nat \<Rightarrow> nat \<Rightarrow> nat" where
  "block_align bs nbs = (if nbs \<noteq> 0 then 2 ^ nbs else 2 ^ bs)"

definition Block_Initialize :: "nat \<Rightarrow> nat \<Rightarrow> nat \<Rightarrow> nat \<Rightarrow> nat \<Rightarrow> 'r Block \<Rightarrow> nat \<times> 'r Block" where
  "Block_Initialize addr sz bs nbs bit_storage b =
     (let stop = addr + sz;
          align = block_align bs nbs;
          addr = AlignDown addr align;
          stop = AlignUp stop align;
          end_offset = (stop - addr) div 2 ^ bs;
          (storage, bm) = KPageBitmap_Initialize bit_storage end_offset (m_bitmap b)
      in (storage, b\<lparr>m_block_shift := bs, m_next_block_shift := nbs, m_block_heap_address := addr,
                     m_end_offset := end_offset, m_bitmap := bm\<rparr>))"

definition PushBlock :: "nat \<Rightarrow> 'r Block \<Rightarrow> words \<Rightarrow> nat \<times> 'r Block \<times> words" where
  "PushBlock address b mem =
     (let offset = drop_bit (m_block_shift b) (address - m_block_heap_address b);
          (bm, mem) = KPageBitmap_SetBit offset (m_bitmap b) mem
      in if m_next_block_shift b \<noteq> 0
         then (let diff = 2 ^ (m_next_block_shift b - m_block_shift b);
                   offset = AlignDown offset diff;
                   (cleared, bm, mem) = ClearRange offset diff bm mem
               in (if cleared then m_block_heap_address b + push_bit (m_block_shift b) offset else 0,
                   b\<lparr>m_bitmap := bm\<rparr>, mem))
         else (0, b\<lparr>m_bitmap := bm\<rparr>, mem))"

definition PopBlock :: "('r \<Rightarrow> u32 \<times> 'r) \<Rightarrow> bool \<Rightarrow> 'r Block \<Rightarrow> words \<Rightarrow> nat \<times> 'r Block \<times> words" where
  "PopBlock gen random b mem =
     (case FindFreeBlock gen random (m_bitmap b) mem of
        (None, bm) \<Rightarrow> (0, b\<lparr>m_bitmap := bm\<rparr>, mem)
      | (Some offset, bm) \<Rightarrow>
          (let (bm, mem) = KPageBitmap_ClearBit offset bm mem
           in (m_block_heap_address b + push_bit (m_block_shift b) offset, b\<lparr>m_bitmap := bm\<rparr>, mem)))"

definition Block_CalculateManagementOverheadSize :: "nat \<Rightarrow> nat \<Rightarrow> nat \<Rightarrow> nat" where
  "Block_CalculateManagementOverheadSize region_size cur_block_shift next_block_shift =
     (let align = block_align cur_block_shift next_block_shift
      in KPageBitmap_CalculateManagementOverheadSize
           ((align * 2 + AlignUp region_size align) div 2 ^ cur_block_shift))"

section \<open>The heap\<close>

record 'r KPageHeap =
  m_heap_address :: nat
  m_heap_size :: nat
  m_initial_used_size :: int
  m_num_blocks :: nat
  m_blocks :: "'r Block list"
  management :: words

definition next_shift :: "nat list \<Rightarrow> nat \<Rightarrow> nat" where
  "next_shift block_shifts i = (if i \<noteq> length block_shifts - 1 then block_shifts ! (i + 1) else 0)"

fun initialize_blocks :: "nat list \<Rightarrow> nat list \<Rightarrow> nat \<Rightarrow> 'r KPageHeap \<Rightarrow> nat \<times> 'r KPageHeap" where
  "initialize_blocks block_shifts [] storage h = (storage, h)"
| "initialize_blocks block_shifts (i # is) storage h =
     (let (storage, b) = Block_Initialize (m_heap_address h) (m_heap_size h) (block_shifts ! i)
            (next_shift block_shifts i) storage (m_blocks h ! i)
      in initialize_blocks block_shifts is storage (h\<lparr>m_blocks := (m_blocks h)[i := b]\<rparr>))"

text \<open>\<^verbatim>\<open>Initialize\<close>; \<open>None\<close> is the abort when the bitmaps do not fit. Management addresses count words.\<close>

definition KPageHeap_Initialize ::
    "nat \<Rightarrow> nat \<Rightarrow> nat \<Rightarrow> nat \<Rightarrow> nat list \<Rightarrow> 'r KPageHeap \<Rightarrow> 'r KPageHeap option" where
  "KPageHeap_Initialize address sz management_address management_size block_shifts h =
     (let h = h\<lparr>m_heap_address := address, m_heap_size := sz, m_num_blocks := length block_shifts\<rparr>;
          (storage, h) = initialize_blocks block_shifts [0..<length block_shifts] management_address h
      in if storage \<le> management_address + management_size then Some h else None)"

definition KPageHeap_GetNumFreePages :: "'r KPageHeap \<Rightarrow> int" where
  "KPageHeap_GetNumFreePages h = (\<Sum>b \<leftarrow> take (m_num_blocks h) (m_blocks h). Block_GetNumFreePages b)"

definition GetFreeSize :: "'r KPageHeap \<Rightarrow> int" where
  "GetFreeSize h = KPageHeap_GetNumFreePages h * int PageSize"

definition SetInitialUsedSize :: "nat \<Rightarrow> 'r KPageHeap \<Rightarrow> 'r KPageHeap option" where
  "SetInitialUsedSize reserved_size h =
     (let free_size = KPageHeap_GetNumFreePages h * int PageSize
      in if free_size + int reserved_size \<le> int (m_heap_size h)
         then Some (h\<lparr>m_initial_used_size := int (m_heap_size h) - free_size - int reserved_size\<rparr>) else None)"

definition with_block :: "nat \<Rightarrow> 'r Block \<Rightarrow> words \<Rightarrow> 'r KPageHeap \<Rightarrow> 'r KPageHeap" where
  "with_block i b mem h = h\<lparr>m_blocks := (m_blocks h)[i := b], management := mem\<rparr>"

lemma length_with_block [simp]: "length (m_blocks (with_block i b mem h)) = length (m_blocks h)"
  by (simp add: with_block_def)

text \<open>The last block size has no next one, so that the loop ends before \<open>index\<close> leaves the array.\<close>

function FreeBlock :: "nat \<Rightarrow> nat \<Rightarrow> 'r KPageHeap \<Rightarrow> 'r KPageHeap" where
  "FreeBlock block index h =
     (if length (m_blocks h) \<le> index then h
      else
        (let (block, b, mem) = PushBlock block (m_blocks h ! index) (management h);
             h = with_block index b mem h
         in if block \<noteq> 0 then FreeBlock block (index + 1) h else h))"
  by auto
termination
  by (relation "measure (\<lambda>(_, i, h). length (m_blocks h) - i)") auto

declare FreeBlock.simps [simp del]

text \<open>The loops of \<^verbatim>\<open>Free\<close>.\<close>

fun find_big :: "'r KPageHeap \<Rightarrow> nat \<Rightarrow> nat \<Rightarrow> nat \<Rightarrow> (nat \<times> nat \<times> nat) option" where
  "find_big h start stop 0 = None"
| "find_big h start stop (Suc big_index) =
     (let block_size = Block_GetSize (m_blocks h ! big_index);
          big_start = AlignUp start block_size;
          big_end = AlignDown stop block_size
      in if big_start < big_end then Some (big_index, big_start, big_end) else find_big h start stop big_index)"

function free_big :: "nat \<Rightarrow> nat \<Rightarrow> nat \<Rightarrow> nat \<Rightarrow> 'r KPageHeap \<Rightarrow> 'r KPageHeap" where
  "free_big block big_end block_size index h =
     (if 0 < block_size \<and> block < big_end
      then free_big (block + block_size) big_end block_size index (FreeBlock block index h) else h)"
  by auto
termination
  by (relation "measure (\<lambda>(b, e, _, _, _). e - b)") auto

function free_upwards :: "nat \<Rightarrow> nat \<Rightarrow> nat \<Rightarrow> nat \<Rightarrow> 'r KPageHeap \<Rightarrow> nat \<times> 'r KPageHeap" where
  "free_upwards block stop block_size index h =
     (if 0 < block_size \<and> block + block_size \<le> stop
      then free_upwards (block + block_size) stop block_size index (FreeBlock block index h)
      else (block, h))"
  by auto
termination
  by (relation "measure (\<lambda>(b, l, _, _, _). l - b)") auto

function free_downwards :: "nat \<Rightarrow> nat \<Rightarrow> nat \<Rightarrow> nat \<Rightarrow> 'r KPageHeap \<Rightarrow> nat \<times> 'r KPageHeap" where
  "free_downwards start before_end block_size index h =
     (if 0 < block_size \<and> start + block_size \<le> before_end
      then free_downwards start (before_end - block_size) block_size index
             (FreeBlock (before_end - block_size) index h)
      else (before_end, h))"
  by auto
termination
  by (relation "measure (\<lambda>(_, e, _, _, _). e)") auto

declare free_big.simps [simp del] free_upwards.simps [simp del] free_downwards.simps [simp del]

fun free_before :: "nat \<Rightarrow> nat \<Rightarrow> nat \<Rightarrow> 'r KPageHeap \<Rightarrow> 'r KPageHeap" where
  "free_before 0 before_start before_end h = h"
| "free_before (Suc i) before_start before_end h =
     (let (before_end, h) = free_downwards before_start before_end (Block_GetSize (m_blocks h ! i)) i h
      in free_before i before_start before_end h)"

fun free_after :: "nat \<Rightarrow> nat \<Rightarrow> nat \<Rightarrow> 'r KPageHeap \<Rightarrow> 'r KPageHeap" where
  "free_after 0 after_start after_end h = h"
| "free_after (Suc i) after_start after_end h =
     (let (after_start, h) = free_upwards after_start after_end (Block_GetSize (m_blocks h ! i)) i h
      in free_after i after_start after_end h)"

definition KPageHeap_Free :: "nat \<Rightarrow> nat \<Rightarrow> 'r KPageHeap \<Rightarrow> 'r KPageHeap" where
  "KPageHeap_Free addr num_pages h =
     (if num_pages = 0 then h
      else
        (let stop = addr + num_pages * PageSize
         in case find_big h addr stop (m_num_blocks h) of
              None \<Rightarrow> h
            | Some (big_index, big_start, big_end) \<Rightarrow>
                (let h = free_big big_start big_end (Block_GetSize (m_blocks h ! big_index)) big_index h;
                     h = free_before big_index addr big_start h
                 in free_after big_index big_end stop h)))"

function allocate_loop ::
    "('r \<Rightarrow> u32 \<times> 'r) \<Rightarrow> bool \<Rightarrow> nat \<Rightarrow> nat \<Rightarrow> 'r KPageHeap \<Rightarrow> nat \<times> 'r KPageHeap" where
  "allocate_loop gen random needed_size i h =
     (if m_num_blocks h \<le> i then (0, h)
      else
        (let (addr, b, mem) = PopBlock gen random (m_blocks h ! i) (management h);
             h = with_block i b mem h
         in if addr \<noteq> 0
            then (let allocated_size = Block_GetSize b
                  in (addr, if needed_size < allocated_size
                            then KPageHeap_Free (addr + needed_size) ((allocated_size - needed_size) div PageSize) h
                            else h))
            else allocate_loop gen random needed_size (i + 1) h))"
  by auto
termination
  by (relation "measure (\<lambda>(_, _, _, i, h). m_num_blocks h - i)") (auto simp: with_block_def)

declare allocate_loop.simps [simp del]

definition AllocateBlock :: "('r \<Rightarrow> u32 \<times> 'r) \<Rightarrow> nat \<Rightarrow> bool \<Rightarrow> 'r KPageHeap \<Rightarrow> nat \<times> 'r KPageHeap" where
  "AllocateBlock gen index random h =
     allocate_loop gen random (Block_GetSize (m_blocks h ! index)) index h"

definition KPageHeap_CalculateManagementOverheadSize :: "nat \<Rightarrow> nat list \<Rightarrow> nat" where
  "KPageHeap_CalculateManagementOverheadSize region_size block_shifts =
     AlignUp (\<Sum>i \<leftarrow> [0..<length block_shifts].
       Block_CalculateManagementOverheadSize region_size (block_shifts ! i) (next_shift block_shifts i)) PageSize"

end
