(* ===== verification/Kern_PageHeap_Inv.thy ===== *)
theory Kern_PageHeap_Inv
  imports Kern_PageHeap
begin

text \<open>
  What the page heap holds: the free bytes, as disjoint aligned blocks of seven sizes in which no
  group of buddies is complete, and what freeing and allocating do to them.
\<close>

section \<open>Geometry\<close>

abbreviation shift :: "nat \<Rightarrow> nat" where
  "shift i \<equiv> MemoryBlockPageShifts ! i"

definition gap :: "nat \<Rightarrow> nat" where
  "gap i = 2 ^ (shift (i + 1) - shift i)"

definition top_shift :: "nat \<Rightarrow> nat" where
  "top_shift i = (if i < 6 then shift (i + 1) else shift i)"

definition block_base :: "nat \<Rightarrow> nat \<Rightarrow> nat" where
  "block_base a i = AlignDown a (2 ^ top_shift i)"

definition block_count :: "nat \<Rightarrow> nat \<Rightarrow> nat \<Rightarrow> nat" where
  "block_count a sz i = (AlignUp (a + sz) (2 ^ top_shift i) - block_base a i) div 2 ^ shift i"

definition block_addr :: "nat \<Rightarrow> nat \<Rightarrow> nat \<Rightarrow> nat" where
  "block_addr a i k = block_base a i + k * 2 ^ shift i"

definition extent :: "nat \<Rightarrow> nat \<Rightarrow> nat set" where
  "extent i x = {x..<x + 2 ^ shift i}"

lemma shift_Suc: "i < 6 \<Longrightarrow> shift i < shift (Suc i) \<and> shift (Suc i) - shift i \<le> 5"
proof -
  assume "i < 6"
  then have "i = 0 \<or> i = 1 \<or> i = 2 \<or> i = 3 \<or> i = 4 \<or> i = 5"
    by linarith
  then show ?thesis
    by (elim disjE) (simp_all add: MemoryBlockPageShifts_def)
qed

lemma shift_mono: "i \<le> j \<Longrightarrow> j < 7 \<Longrightarrow> shift i \<le> shift j"
proof (induction j)
  case (Suc j)
  then show ?case
    using shift_Suc [of j] by (cases "i = Suc j") auto
qed simp

lemma gap_shift: "i < 6 \<Longrightarrow> gap i * 2 ^ shift i = 2 ^ shift (Suc i)"
  using shift_Suc [of i] by (simp add: gap_def flip: power_add)

lemma gap_64: "i < 6 \<Longrightarrow> gap i dvd 64 \<and> gap i < 64 \<and> 0 < gap i"
proof -
  assume "i < 6"
  then have le: "shift (i + 1) - shift i \<le> 5" using shift_Suc [of i] by simp
  then have "gap i dvd 2 ^ 6" unfolding gap_def by (intro le_imp_power_dvd) simp
  moreover have "gap i \<le> 2 ^ 5" unfolding gap_def using le by (intro power_increasing) simp_all
  ultimately show ?thesis by (simp add: gap_def)
qed

lemma block_base_dvd: "2 ^ top_shift i dvd block_base a i" "i < 7 \<Longrightarrow> 2 ^ shift i dvd block_base a i"
proof -
  show d: "2 ^ top_shift i dvd block_base a i"
    by (simp add: block_base_def AlignDown_pow2)
  assume "i < 7"
  then have "shift i \<le> top_shift i"
    using shift_Suc [of i] by (auto simp: top_shift_def)
  then show "2 ^ shift i dvd block_base a i"
    using d by (meson dvd_trans le_imp_power_dvd)
qed

lemma block_base_le: "block_base a i \<le> a"
  by (simp add: block_base_def AlignDown_le)

lemma block_addr_dvd: "i < 7 \<Longrightarrow> 2 ^ shift i dvd block_addr a i k"
  using block_base_dvd(2) [of i a] by (simp add: block_addr_def)

lemma block_addr_inj: "block_addr a i k = block_addr a i k' \<Longrightarrow> k = k'"
  by (simp add: block_addr_def)

text \<open>An aligned address of the heap has an offset.\<close>

definition block_offset :: "nat \<Rightarrow> nat \<Rightarrow> nat \<Rightarrow> nat" where
  "block_offset a i x = (x - block_base a i) div 2 ^ shift i"

lemma block_addr_offset:
  assumes "i < 7" "2 ^ shift i dvd x" "block_base a i \<le> x"
  shows "block_addr a i (block_offset a i x) = x"
proof -
  have "2 ^ shift i dvd x - block_base a i"
    using assms block_base_dvd(2) [OF assms(1), of a] by (simp add: dvd_diff_nat)
  then show ?thesis
    using assms(3) by (simp add: block_addr_def block_offset_def)
qed

lemma block_offset_less:
  assumes "i < 7" "2 ^ shift i dvd x" "extent i x \<subseteq> {a..<a + sz}"
  shows "block_offset a i x < block_count a sz i" "block_base a i \<le> x"
proof -
  have x: "a \<le> x" "x + 2 ^ shift i \<le> a + sz"
    using assms(3) by (auto simp: extent_def)
  then show le: "block_base a i \<le> x"
    using block_base_le [of a i] by simp
  have "x + 2 ^ shift i \<le> AlignUp (a + sz) (2 ^ top_shift i)"
    using x(2) AlignUp_ge [of "a + sz" "2 ^ top_shift i"] by simp
  then have "x - block_base a i + 2 ^ shift i \<le> AlignUp (a + sz) (2 ^ top_shift i) - block_base a i"
    using le by simp
  then have "(x - block_base a i + 2 ^ shift i) div 2 ^ shift i \<le> block_count a sz i"
    unfolding block_count_def by (rule div_le_mono)
  moreover have "(x - block_base a i + 2 ^ shift i) div 2 ^ shift i = block_offset a i x + 1"
    unfolding block_offset_def by (rule div_add_self2) simp
  ultimately show "block_offset a i x < block_count a sz i"
    by linarith
qed

lemma dvd_interval:
  assumes "(d :: nat) dvd x" "d dvd y" "x < y + e" "d dvd e" "0 < d"
  shows "x + d \<le> y + e"
proof -
  obtain p q r where "x = d * p" "y = d * q" "e = d * r"
    using assms(1,2,4) by (auto elim!: dvdE)
  then have "d * p < d * (q + r)" using assms(3) by (simp add: algebra_simps)
  then have "p + 1 \<le> q + r" using assms(5) by simp
  then have "d * (p + 1) \<le> d * (q + r)" by (rule mult_le_mono2)
  then show ?thesis using \<open>x = _\<close> \<open>y = _\<close> \<open>e = _\<close> by (simp add: algebra_simps)
qed

lemma extent_nested:
  assumes "i \<le> j" "j < 7" "2 ^ shift i dvd x" "2 ^ shift j dvd y" "extent i x \<inter> extent j y \<noteq> {}"
  shows "extent i x \<subseteq> extent j y"
proof -
  let ?d = "2 ^ shift i :: nat" and ?e = "2 ^ shift j :: nat"
  have de: "?d dvd ?e"
    using shift_mono [OF assms(1,2)] by (rule le_imp_power_dvd)
  have dy: "?d dvd y"
    using de assms(4) by (rule dvd_trans)
  have meet: "y < x + ?d" "x < y + ?e"
    using assms(5) by (auto simp: extent_def)
  have "y + ?d \<le> x + ?d"
    by (rule dvd_interval [OF dy assms(3) meet(1)]) simp_all
  moreover have "x + ?d \<le> y + ?e"
    by (rule dvd_interval [OF assms(3) dy meet(2) de]) simp
  ultimately show ?thesis
    by (auto simp: extent_def)
qed

lemma extent_same:
  "i < 7 \<Longrightarrow> 2 ^ shift i dvd x \<Longrightarrow> 2 ^ shift i dvd y \<Longrightarrow> extent i x \<inter> extent i y \<noteq> {} \<Longrightarrow> x = y"
  using extent_nested [of i i x y] extent_nested [of i i y x] by (auto simp: extent_def)

lemma extent_nonempty: "x \<in> extent i x"
  by (simp add: extent_def)

text \<open>A group of buddies is a block of the next size.\<close>

lemma group_extent:
  assumes "i < 6" "gap i dvd q"
  shows "(\<Union>k \<in> bit_range q (gap i). extent i (block_addr a i k)) = extent (Suc i) (block_addr a i q)"
    "2 ^ shift (Suc i) dvd block_addr a i q"
proof -
  let ?d = "2 ^ shift i :: nat"
  have g: "gap i * ?d = 2 ^ shift (Suc i)"
    by (rule gap_shift [OF assms(1)])
  show "(\<Union>k \<in> bit_range q (gap i). extent i (block_addr a i k)) = extent (Suc i) (block_addr a i q)"
  proof (intro equalityI subsetI)
    fix z assume "z \<in> (\<Union>k \<in> bit_range q (gap i). extent i (block_addr a i k))"
    then obtain k where k: "q \<le> k" "k < q + gap i" "block_addr a i k \<le> z" "z < block_addr a i k + ?d"
      by (auto simp: bit_range_def extent_def)
    have "q * ?d \<le> k * ?d" "k * ?d + ?d \<le> q * ?d + gap i * ?d"
      using mult_le_mono1 [of q k ?d] mult_le_mono1 [of "k + 1" "q + gap i" ?d] k(1,2)
      by (simp_all add: algebra_simps)
    then show "z \<in> extent (Suc i) (block_addr a i q)"
      using k(3,4) unfolding g extent_def block_addr_def atLeastLessThan_iff by linarith
  next
    fix z assume z: "z \<in> extent (Suc i) (block_addr a i q)"
    define t where "t = (z - block_addr a i q) div ?d"
    have lt: "z - block_addr a i q < gap i * ?d" and le: "block_addr a i q \<le> z"
      using z g by (auto simp: extent_def)
    have "t < gap i"
      unfolding t_def using lt by (simp add: div_less_iff_less_mult)
    then have "q + t \<in> bit_range q (gap i)"
      by (simp add: bit_range_def)
    moreover have "t * ?d + (z - block_addr a i q) mod ?d = z - block_addr a i q" "(z - block_addr a i q) mod ?d < ?d"
      unfolding t_def by (rule div_mult_mod_eq) simp
    then have "t * ?d \<le> z - block_addr a i q" "z - block_addr a i q < t * ?d + ?d"
      by linarith+
    then have "z \<in> extent i (block_addr a i (q + t))"
      using le_add_diff_inverse [OF le] unfolding extent_def block_addr_def atLeastLessThan_iff add_mult_distrib
      by linarith
    ultimately have "q + t \<in> bit_range q (gap i)" "z \<in> extent i (block_addr a i (q + t))"
      by blast+
    then show "z \<in> (\<Union>k \<in> bit_range q (gap i). extent i (block_addr a i k))"
      by blast
  qed
  have "2 ^ shift (Suc i) dvd q * ?d"
    using assms(2) g by (metis dvd_mult2 mult_dvd_mono dvd_refl)
  moreover have "2 ^ shift (Suc i) dvd block_base a i"
    using block_base_dvd(1) [of i a] assms(1) by (simp add: top_shift_def)
  ultimately show "2 ^ shift (Suc i) dvd block_addr a i q"
    by (simp add: block_addr_def)
qed

lemma group_offset:
  assumes "i < 6" "2 ^ shift (Suc i) dvd block_addr a i q"
  shows "gap i dvd q"
proof -
  have "2 ^ shift (Suc i) dvd block_base a i"
    using block_base_dvd(1) [of i a] assms(1) by (simp add: top_shift_def)
  then have "gap i * 2 ^ shift i dvd q * 2 ^ shift i"
    using assms(2) gap_shift [OF assms(1)] by (simp add: block_addr_def dvd_add_right_iff)
  then show ?thesis
    by simp
qed

section \<open>Families of free blocks\<close>

definition free_bytes :: "nat \<Rightarrow> (nat \<Rightarrow> nat set) \<Rightarrow> nat set" where
  "free_bytes a S = (\<Union>i \<in> {..<7}. \<Union>k \<in> S i. extent i (block_addr a i k))"

definition family_ok :: "nat \<Rightarrow> nat \<Rightarrow> (nat \<Rightarrow> nat set) \<Rightarrow> bool" where
  "family_ok a sz S \<longleftrightarrow>
     (\<forall>i < 7. \<forall>k \<in> S i. extent i (block_addr a i k) \<subseteq> {a..<a + sz}) \<and>
     (\<forall>i < 7. \<forall>j < 7. \<forall>k \<in> S i. \<forall>m \<in> S j.
        extent i (block_addr a i k) \<inter> extent j (block_addr a j m) \<noteq> {} \<longrightarrow> i = j \<and> k = m) \<and>
     (\<forall>i < 6. \<forall>q. gap i dvd q \<longrightarrow> \<not> bit_range q (gap i) \<subseteq> S i)"

lemma family_okD:
  assumes "family_ok a sz S"
  shows "i < 7 \<Longrightarrow> k \<in> S i \<Longrightarrow> extent i (block_addr a i k) \<subseteq> {a..<a + sz}"
    "i < 7 \<Longrightarrow> j < 7 \<Longrightarrow> k \<in> S i \<Longrightarrow> m \<in> S j \<Longrightarrow>
       extent i (block_addr a i k) \<inter> extent j (block_addr a j m) \<noteq> {} \<Longrightarrow> i = j \<and> k = m"
    "i < 6 \<Longrightarrow> gap i dvd q \<Longrightarrow> \<not> bit_range q (gap i) \<subseteq> S i"
  using assms unfolding family_ok_def by blast+

lemma family_remove:
  assumes ok: "family_ok a sz S" and i: "i < 7" and T: "T \<subseteq> S i"
  shows "family_ok a sz (S(i := T))"
    "free_bytes a (S(i := T)) = free_bytes a S - (\<Union>k \<in> S i - T. extent i (block_addr a i k))"
proof -
  note D = family_okD [OF ok]
  have sub: "(S(i := T)) j \<subseteq> S j" for j
    using T by simp
  show "family_ok a sz (S(i := T))"
    unfolding family_ok_def using D sub by (meson subsetD subset_trans)
  show "free_bytes a (S(i := T)) = free_bytes a S - (\<Union>k \<in> S i - T. extent i (block_addr a i k))"
  proof (intro equalityI subsetI)
    fix z assume "z \<in> free_bytes a (S(i := T))"
    then obtain j m where m: "j < 7" "m \<in> (S(i := T)) j" "z \<in> extent j (block_addr a j m)"
      by (auto simp: free_bytes_def)
    have "z \<notin> extent i (block_addr a i k)" if "k \<in> S i - T" for k
      using D(2) [OF m(1) i, of m k] m(2,3) that sub [of j] by (auto split: if_splits)
    then show "z \<in> free_bytes a S - (\<Union>k \<in> S i - T. extent i (block_addr a i k))"
      using m sub [of j] by (auto simp: free_bytes_def)
  next
    fix z assume z: "z \<in> free_bytes a S - (\<Union>k \<in> S i - T. extent i (block_addr a i k))"
    then obtain j m where m: "j < 7" "m \<in> S j" "z \<in> extent j (block_addr a j m)"
      by (auto simp: free_bytes_def)
    then have "m \<in> (S(i := T)) j"
      using z by auto
    then show "z \<in> free_bytes a (S(i := T))"
      using m unfolding free_bytes_def by blast
  qed
qed

lemma family_insert:
  assumes ok: "family_ok a sz S" and i: "i < 7"
    and k: "extent i (block_addr a i k) \<subseteq> {a..<a + sz}" "extent i (block_addr a i k) \<inter> free_bytes a S = {}"
    and part: "i < 6 \<Longrightarrow> \<not> bit_range (AlignDown k (gap i)) (gap i) - {k} \<subseteq> S i"
  shows "family_ok a sz (S(i := insert k (S i)))"
    "free_bytes a (S(i := insert k (S i))) = free_bytes a S \<union> extent i (block_addr a i k)"
proof -
  note D = family_okD [OF ok]
  let ?S = "S(i := insert k (S i))"
  have new: "extent i (block_addr a i k) \<inter> extent j (block_addr a j m) = {}" if "j < 7" "m \<in> S j" for j m
    using k(2) that by (auto simp: free_bytes_def)
  have "\<not> bit_range q (gap j) \<subseteq> ?S j" if jq: "j < 6" "gap j dvd q" for j q
  proof
    assume sub: "bit_range q (gap j) \<subseteq> ?S j"
    have g: "0 < gap j" using gap_64 [OF that(1)] by simp
    have kq: "j = i" "k \<in> bit_range q (gap j)"
      using D(3) [OF that] sub by (auto split: if_splits)
    obtain t where t: "q = gap j * t" using jq(2) by (rule dvdE)
    have "t = k div gap j"
      using kq(2) g by (intro div_nat_eqI [symmetric]) (auto simp: bit_range_def t algebra_simps)
    moreover have "AlignDown k (gap j) = k div gap j * gap j"
      unfolding gap_def by (rule AlignDown_pow2)
    ultimately have "q = AlignDown k (gap i)"
      using t kq(1) by simp
    then show False
      using part jq(1) sub kq by auto
  qed
  moreover have "extent j (block_addr a j m) \<subseteq> {a..<a + sz}" if "j < 7" "m \<in> ?S j" for j m
    using D(1) [OF that(1)] that(2) k(1) by (auto split: if_splits)
  moreover have "j = j' \<and> m = m'"
    if "j < 7" "j' < 7" "m \<in> ?S j" "m' \<in> ?S j'" "extent j (block_addr a j m) \<inter> extent j' (block_addr a j' m') \<noteq> {}"
    for j j' m m'
  proof (cases "(j, m) = (i, k) \<or> (j', m') = (i, k)")
    case True
    then show ?thesis
      using that new [of j' m'] new [of j m] by (auto split: if_splits)
  next
    case False
    then have "m \<in> S j" "m' \<in> S j'"
      using that(3,4) by (auto split: if_splits)
    then show ?thesis
      using D(2) that by blast
  qed
  ultimately show "family_ok a sz ?S"
    unfolding family_ok_def by blast
  show "free_bytes a ?S = free_bytes a S \<union> extent i (block_addr a i k)"
  proof (intro equalityI subsetI)
    fix z assume "z \<in> free_bytes a ?S"
    then obtain j m where "j < 7" "m \<in> ?S j" "z \<in> extent j (block_addr a j m)"
      by (auto simp: free_bytes_def)
    then show "z \<in> free_bytes a S \<union> extent i (block_addr a i k)"
      by (cases "(j, m) = (i, k)") (auto simp: free_bytes_def split: if_splits)
  next
    fix z assume "z \<in> free_bytes a S \<union> extent i (block_addr a i k)"
    then consider (old) j m where "j < 7" "m \<in> S j" "z \<in> extent j (block_addr a j m)"
      | (new) "z \<in> extent i (block_addr a i k)"
      by (auto simp: free_bytes_def)
    then show "z \<in> free_bytes a ?S"
    proof cases
      case old
      then have "m \<in> ?S j" by auto
      then show ?thesis
        using old unfolding free_bytes_def by blast
    next
      case new
      then have "k \<in> ?S i" by simp
      then show ?thesis
        using new i unfolding free_bytes_def by blast
    qed
  qed
qed

text \<open>Since buddies are merged, a free aligned range lies in one free block of at least its size.\<close>

lemma family_complete:
  assumes ok: "family_ok a sz S"
  shows "j < 7 \<Longrightarrow> 2 ^ shift j dvd y \<Longrightarrow> extent j y \<subseteq> free_bytes a S \<Longrightarrow>
    \<exists>i k. j \<le> i \<and> i < 7 \<and> k \<in> S i \<and> extent j y \<subseteq> extent i (block_addr a i k)"
proof (induction j arbitrary: y)
  case 0
  have "y \<in> free_bytes a S"
    using 0(3) extent_nonempty by blast
  then obtain i k where "i < 7" "k \<in> S i" "y \<in> extent i (block_addr a i k)"
    by (auto simp: free_bytes_def)
  moreover from this have "extent 0 y \<subseteq> extent i (block_addr a i k)"
    using extent_nested [of 0 i y "block_addr a i k"] 0(2) block_addr_dvd extent_nonempty by blast
  ultimately show ?case
    by blast
next
  case (Suc j)
  show ?case
  proof (rule ccontr)
    assume none: "\<not> ?case"
    have small: "i \<le> j" if "i < 7" "k \<in> S i" "extent i (block_addr a i k) \<inter> extent (Suc j) y \<noteq> {}" for i k
    proof (rule ccontr)
      assume "\<not> i \<le> j"
      then have "extent (Suc j) y \<subseteq> extent i (block_addr a i k)"
        using extent_nested [of "Suc j" i y "block_addr a i k"] that Suc.prems(2) block_addr_dvd by (simp add: Int_commute)
      then show False
        using none that \<open>\<not> i \<le> j\<close> by (meson not_less_eq_eq)
    qed
    have j: "j < 6" "j < 7" using Suc.prems(1) by simp_all
    let ?d = "2 ^ shift j :: nat"
    have dy: "?d dvd y"
      using Suc.prems(2) shift_Suc [OF j(1)] by (meson dvd_trans le_imp_power_dvd less_imp_le)
    have part: "\<exists>k \<in> S j. y + t * ?d = block_addr a j k" if "t < gap j" for t
    proof -
      have "t * ?d + ?d \<le> gap j * ?d"
        using mult_le_mono1 [of "t + 1" "gap j" ?d] that by simp
      then have sub: "extent j (y + t * ?d) \<subseteq> extent (Suc j) y"
        using gap_shift [OF j(1)] by (auto simp: extent_def)
      have dv: "?d dvd y + t * ?d"
        using dy by simp
      have "extent j (y + t * ?d) \<subseteq> free_bytes a S"
        using sub Suc.prems(3) by blast
      from Suc.IH [OF j(2) dv this] obtain i k where
        ik: "j \<le> i" "i < 7" "k \<in> S i" "extent j (y + t * ?d) \<subseteq> extent i (block_addr a i k)"
        by blast
      have "y + t * ?d \<in> extent i (block_addr a i k) \<inter> extent (Suc j) y"
        using ik(4) sub extent_nonempty by blast
      then have "extent i (block_addr a i k) \<inter> extent (Suc j) y \<noteq> {}"
        by (rule ex_in_conv [THEN iffD1, OF exI])
      then have "i = j"
        using small [OF ik(2,3)] ik(1) by simp
      moreover from this have "y + t * ?d = block_addr a j k"
        using extent_same [OF j(2) dv block_addr_dvd [OF j(2)]] ik(4) extent_nonempty by blast
      ultimately show ?thesis
        using ik(3) by blast
    qed
    obtain q where q: "q \<in> S j" "y = block_addr a j q"
      using part [of 0] gap_64 [OF j(1)] by auto
    have "gap j dvd q"
      using group_offset [OF j(1), of a q] Suc.prems(2) q(2) by simp
    moreover have "bit_range q (gap j) \<subseteq> S j"
    proof
      fix m assume "m \<in> bit_range q (gap j)"
      then obtain t where t: "m = q + t" "t < gap j"
        by (auto simp: bit_range_def le_iff_add)
      then obtain k where "k \<in> S j" "y + t * ?d = block_addr a j k"
        using part by blast
      moreover have "block_addr a j m = y + t * ?d"
        by (simp add: q(2) t(1) block_addr_def algebra_simps)
      ultimately show "m \<in> S j"
        using block_addr_inj [of a j m k] by simp
    qed
    ultimately show False
      using family_okD(3) [OF ok j(1)] by blast
  qed
qed

lemma family_card:
  assumes ok: "family_ok a sz S" and fin: "\<And>i. i < 7 \<Longrightarrow> finite (S i)"
  shows "card (free_bytes a S) = (\<Sum>i < 7. card (S i) * 2 ^ shift i)"
proof -
  note D = family_okD [OF ok]
  let ?E = "\<lambda>i. \<Union>k \<in> S i. extent i (block_addr a i k)"
  have finE: "finite (?E i)" if "i < 7" for i
    using fin [OF that] by (simp add: extent_def)
  have level: "card (?E i) = card (S i) * 2 ^ shift i" if "i < 7" for i
  proof -
    have "card (?E i) = (\<Sum>k \<in> S i. card (extent i (block_addr a i k)))"
      using fin [OF that] D(2) [OF that that] by (intro card_UN_disjoint) (auto simp: extent_def)
    then show ?thesis
      by (simp add: extent_def)
  qed
  have "card (\<Union>i \<in> {..<7}. ?E i) = (\<Sum>i < 7. card (?E i))"
  proof (intro card_UN_disjoint ballI impI)
    fix i j :: nat assume ij: "i \<in> {..<7}" "j \<in> {..<7}" "i \<noteq> j"
    show "?E i \<inter> ?E j = {}"
    proof (rule ccontr)
      assume "?E i \<inter> ?E j \<noteq> {}"
      then obtain k m where "k \<in> S i" "m \<in> S j" "extent i (block_addr a i k) \<inter> extent j (block_addr a j m) \<noteq> {}"
        by blast
      then show False
        using D(2) [of i j k m] ij by simp
    qed
  qed (use finE in auto)
  then show ?thesis
    by (simp add: free_bytes_def level)
qed

section \<open>The invariant\<close>

definition block_shape :: "nat \<Rightarrow> nat \<Rightarrow> nat \<Rightarrow> 'r Block \<Rightarrow> bool" where
  "block_shape a sz i b \<longleftrightarrow> m_block_shift b = shift i \<and>
     m_next_block_shift b = (if i < 6 then shift (Suc i) else 0) \<and>
     m_block_heap_address b = block_base a i \<and> m_end_offset b = block_count a sz i"

definition heap_inv :: "'r KPageHeap \<Rightarrow> (nat \<Rightarrow> layout) \<Rightarrow> (nat \<Rightarrow> nat set) \<Rightarrow> bool" where
  "heap_inv h L S \<longleftrightarrow> 0 < m_heap_address h \<and> length (m_blocks h) = 7 \<and> m_num_blocks h = 7 \<and>
     (\<forall>i < 7. block_shape (m_heap_address h) (m_heap_size h) i (m_blocks h ! i)) \<and>
     (\<forall>i < 7. holds_set (L i) (m_bitmap (m_blocks h ! i)) (management h)
        (block_count (m_heap_address h) (m_heap_size h) i) (S i)) \<and>
     (\<forall>i < 7. \<forall>j < 7. i \<noteq> j \<longrightarrow> own_words (L i) \<inter> own_words (L j) = {}) \<and>
     family_ok (m_heap_address h) (m_heap_size h) S"

abbreviation free_set :: "'r KPageHeap \<Rightarrow> (nat \<Rightarrow> nat set) \<Rightarrow> nat set" where
  "free_set h S \<equiv> free_bytes (m_heap_address h) S"

abbreviation region :: "'r KPageHeap \<Rightarrow> nat set" where
  "region h \<equiv> {m_heap_address h..<m_heap_address h + m_heap_size h}"

lemma heap_invD:
  assumes "heap_inv h L S"
  shows "0 < m_heap_address h" "length (m_blocks h) = 7" "m_num_blocks h = 7"
    "i < 7 \<Longrightarrow> block_shape (m_heap_address h) (m_heap_size h) i (m_blocks h ! i)"
    "i < 7 \<Longrightarrow> holds_set (L i) (m_bitmap (m_blocks h ! i)) (management h)
       (block_count (m_heap_address h) (m_heap_size h) i) (S i)"
    "i < 7 \<Longrightarrow> j < 7 \<Longrightarrow> i \<noteq> j \<Longrightarrow> own_words (L i) \<inter> own_words (L j) = {}"
    "family_ok (m_heap_address h) (m_heap_size h) S"
  using assms unfolding heap_inv_def by blast+

lemma with_block_sel [simp]:
  "m_heap_address (with_block i b mem h) = m_heap_address h" "m_heap_size (with_block i b mem h) = m_heap_size h"
  "m_num_blocks (with_block i b mem h) = m_num_blocks h" "management (with_block i b mem h) = mem"
  "m_blocks (with_block i b mem h) = (m_blocks h)[i := b]"
  by (simp_all add: with_block_def)

lemma heap_update:
  assumes inv: "heap_inv h L S" and i: "i < 7"
    and bm: "holds_set (L i) bm mem (block_count (m_heap_address h) (m_heap_size h) i) T"
    and frame: "\<And>w. w \<notin> own_words (L i) \<Longrightarrow> mem w = management h w"
    and ok: "family_ok (m_heap_address h) (m_heap_size h) (S(i := T))"
  shows "heap_inv (with_block i ((m_blocks h ! i)\<lparr>m_bitmap := bm\<rparr>) mem h) L (S(i := T))"
proof -
  note D = heap_invD [OF inv]
  have others: "holds_set (L j) (m_bitmap (m_blocks h ! j)) mem (block_count (m_heap_address h) (m_heap_size h) j) (S j)"
    if "j < 7" "j \<noteq> i" for j
  proof (rule holds_set_cong [OF D(5) [OF that(1)]])
    fix w assume "w \<in> own_words (L j)"
    then show "mem w = management h w"
      using D(6) [OF that(1) i that(2)] frame by blast
  qed
  show ?thesis
    unfolding heap_inv_def
  proof (intro conjI allI impI)
    fix j :: nat assume j: "j < 7"
    let ?b = "(m_blocks h)[i := (m_blocks h ! i)\<lparr>m_bitmap := bm\<rparr>] ! j"
    show "block_shape (m_heap_address (with_block i ((m_blocks h ! i)\<lparr>m_bitmap := bm\<rparr>) mem h))
        (m_heap_size (with_block i ((m_blocks h ! i)\<lparr>m_bitmap := bm\<rparr>) mem h)) j
        (m_blocks (with_block i ((m_blocks h ! i)\<lparr>m_bitmap := bm\<rparr>) mem h) ! j)"
      using D(4) [OF j] D(2) j by (cases "j = i") (simp_all add: block_shape_def)
    show "holds_set (L j) (m_bitmap (m_blocks (with_block i ((m_blocks h ! i)\<lparr>m_bitmap := bm\<rparr>) mem h) ! j))
        (management (with_block i ((m_blocks h ! i)\<lparr>m_bitmap := bm\<rparr>) mem h))
        (block_count (m_heap_address (with_block i ((m_blocks h ! i)\<lparr>m_bitmap := bm\<rparr>) mem h))
          (m_heap_size (with_block i ((m_blocks h ! i)\<lparr>m_bitmap := bm\<rparr>) mem h)) j) ((S(i := T)) j)"
      using others [OF j] bm D(2) i by (cases "j = i") simp_all
  qed (use D ok in simp_all)
qed

lemma gap_range_fits:
  assumes h: "holds_set l bm mem n S" and i: "i < 6" and k: "k < n"
  shows "range_fits l (AlignDown k (gap i)) (gap i)" "k \<in> bit_range (AlignDown k (gap i)) (gap i)"
    "gap i dvd AlignDown k (gap i)"
proof -
  note g = gap_64 [OF i]
  have q: "AlignDown k (gap i) = k div gap i * gap i"
    unfolding gap_def by (rule AlignDown_pow2)
  then show dv: "gap i dvd AlignDown k (gap i)"
    by simp
  have "k div gap i * gap i + k mod gap i = k" "k mod gap i < gap i"
    using g by simp_all
  then show "k \<in> bit_range (AlignDown k (gap i)) (gap i)"
    unfolding bit_range_def q atLeastLessThan_iff by linarith
  have "gap i dvd AlignDown k (gap i) mod 64"
    using dv g by (simp add: dvd_mod)
  then have "AlignDown k (gap i) mod 64 + gap i \<le> 0 + 64"
    using g by (intro dvd_interval) simp_all
  moreover have "AlignDown k (gap i) < 64 * leaf_words l"
    using AlignDown_le [of k "gap i"] k holds_setD(3) [OF h] by (simp add: leaf_words_def)
  then have "AlignDown k (gap i) div 64 < leaf_words l"
    by (rule div_64_less)
  ultimately show "range_fits l (AlignDown k (gap i)) (gap i)"
    using g by (simp add: range_fits_def)
qed

lemma free_bytesI: "i < 7 \<Longrightarrow> k \<in> S i \<Longrightarrow> z \<in> extent i (block_addr a i k) \<Longrightarrow> z \<in> free_bytes a S"
  unfolding free_bytes_def by blast

text \<open>One turn of the loop of \<^verbatim>\<open>FreeBlock\<close>.\<close>

definition pushed :: "'r KPageHeap \<Rightarrow> (nat \<Rightarrow> layout) \<Rightarrow> (nat \<Rightarrow> nat set) \<Rightarrow> nat \<Rightarrow> nat \<Rightarrow> nat \<Rightarrow> 'r KPageHeap \<Rightarrow> bool" where
  "pushed h L S i x x' h' \<longleftrightarrow>
     (if x' = 0
      then (\<exists>S'. heap_inv h' L S' \<and> free_set h S' = free_set h S \<union> extent i x)
      else i < 6 \<and> 2 ^ shift (Suc i) dvd x' \<and> extent i x \<subseteq> extent (Suc i) x' \<and>
        extent (Suc i) x' \<subseteq> region h \<and> extent (Suc i) x' - extent i x \<subseteq> free_set h S \<and>
        (\<exists>S'. heap_inv h' L S' \<and> free_set h S' = free_set h S - extent (Suc i) x'))"

lemma PushBlock_pushed:
  assumes inv: "heap_inv h L S" and i: "i < 7"
    and x: "2 ^ shift i dvd x" "extent i x \<subseteq> region h" "extent i x \<inter> free_set h S = {}"
    and push: "PushBlock x (m_blocks h ! i) (management h) = (x', b, mem)"
  shows "pushed h L S i x x' (with_block i b mem h)"
proof -
  note D = heap_invD [OF inv]
  let ?a = "m_heap_address h" and ?sz = "m_heap_size h" and ?b = "m_blocks h ! i"
  let ?n = "block_count ?a ?sz i" and ?k = "block_offset ?a i x"
  have shape: "m_block_shift ?b = shift i" "m_next_block_shift ?b = (if i < 6 then shift (Suc i) else 0)"
      "m_block_heap_address ?b = block_base ?a i"
    using D(4) [OF i] by (auto simp: block_shape_def)
  note K = block_offset_less [OF i x(1,2)]
  have kx: "block_addr ?a i ?k = x"
    by (rule block_addr_offset [OF i x(1) K(2)])
  have knot: "?k \<notin> S i"
  proof
    assume "?k \<in> S i"
    then have "x \<in> free_set h S"
      using free_bytesI [OF i, of ?k S x ?a] extent_nonempty [of x i] kx by simp
    then show False
      using x(3) extent_nonempty [of x i] by blast
  qed
  have off: "drop_bit (m_block_shift ?b) (x - m_block_heap_address ?b) = ?k"
    by (simp add: shape block_offset_def drop_bit_eq_div)
  obtain bm1 mem1 where set: "KPageBitmap_SetBit ?k (m_bitmap ?b) (management h) = (bm1, mem1)"
    by (cases "KPageBitmap_SetBit ?k (m_bitmap ?b) (management h)")
  note S1 = SetBit_holds [OF D(5) [OF i] K(1) knot set]
  show ?thesis
  proof (cases "i < 6")
    case False
    then have r: "x' = 0" "b = ?b\<lparr>m_bitmap := bm1\<rparr>" "mem = mem1"
      using push off set shape(2) by (simp_all add: PushBlock_def Let_def)
    note F = family_insert [OF D(7) i, of ?k, unfolded kx, OF x(2,3)]
    have "heap_inv (with_block i b mem h) L (S(i := insert ?k (S i)))"
      unfolding r using False F(1) by (intro heap_update [OF inv i S1]) simp_all
    then show ?thesis
      using F(2) False r(1) by (auto simp: pushed_def)
  next
    case True
    let ?q = "AlignDown ?k (gap i)"
    have nz: "shift (Suc i) \<noteq> 0"
      using shift_Suc [OF True] by simp
    have diff: "2 ^ (m_next_block_shift ?b - m_block_shift ?b) = gap i"
      using True by (simp add: shape gap_def)
    obtain r bm2 mem2 where clr: "ClearRange ?q (gap i) bm1 mem1 = (r, bm2, mem2)"
      by (cases "ClearRange ?q (gap i) bm1 mem1")
    have "PushBlock x ?b (management h) =
        (if r then m_block_heap_address ?b + push_bit (m_block_shift ?b) ?q else 0, ?b\<lparr>m_bitmap := bm2\<rparr>, mem2)"
      unfolding PushBlock_def Let_def off set diff using nz True shape(2) clr by simp
    then have res: "x' = (if r then block_addr ?a i ?q else 0)" "b = ?b\<lparr>m_bitmap := bm2\<rparr>" "mem = mem2"
      using push by (simp_all add: shape block_addr_def push_bit_eq_mult)
    note G = gap_range_fits [OF D(5) [OF i] True K(1)]
    have P: "r \<longleftrightarrow> bit_range ?q (gap i) - {?k} \<subseteq> S i"
        "holds_set (L i) bm2 mem2 ?n (if r then S i - bit_range ?q (gap i) else insert ?k (S i))"
      using bitmap.push_law [of "L i" ?n "(m_bitmap ?b, management h)" "S i" ?k ?q "gap i" r "(bm2, mem2)"]
        D(5) [OF i] K(1) knot G(1,2) set clr by simp_all
    have frame: "mem2 w = management h w" if "w \<notin> own_words (L i)" for w
      using ClearRange_holds(3) [OF S1(1) G(1) clr that] S1(2) [OF that] by simp
    show ?thesis
    proof (cases r)
      case False
      then have "\<not> bit_range ?q (gap i) - {?k} \<subseteq> S i"
        using P(1) by blast
      note F = family_insert [OF D(7) i, of ?k, unfolded kx, OF x(2,3) this]
      have "heap_inv (with_block i b mem h) L (S(i := insert ?k (S i)))"
        unfolding res(2,3) using P(2) False F(1) by (intro heap_update [OF inv i _ frame]) simp_all
      then show ?thesis
        using F(2) False res(1) by (auto simp: pushed_def)
    next
      case True
      let ?x = "block_addr ?a i ?q"
      let ?T = "S i - bit_range ?q (gap i)"
      have sub: "bit_range ?q (gap i) - {?k} \<subseteq> S i"
        using P(1) True by blast
      note E = group_extent [OF \<open>i < 6\<close> G(3), of ?a]
      define R where "R = (\<Union>k \<in> bit_range ?q (gap i) - {?k}. extent i (block_addr ?a i k))"
      have "bit_range ?q (gap i) = insert ?k (bit_range ?q (gap i) - {?k})"
        by (rule insert_Diff [symmetric, OF G(2)])
      then have big: "extent (Suc i) ?x = extent i x \<union> R"
        using E(1) UN_insert [of "\<lambda>k. extent i (block_addr ?a i k)" ?k "bit_range ?q (gap i) - {?k}"]
        unfolding kx R_def by argo
      have rest: "R \<subseteq> free_set h S"
        unfolding R_def using sub free_bytesI [OF i] by blast
      have reg: "free_set h S \<subseteq> region h"
        using family_okD(1) [OF D(7)] by (fastforce simp: free_bytes_def)
      have "extent (Suc i) ?x \<subseteq> region h"
        using big rest reg x(2) by blast
      then have "?x \<noteq> 0"
        using extent_nonempty [of ?x "Suc i"] D(1) by fastforce
      note F = family_remove [OF D(7) i, of ?T, OF Diff_subset]
      have "S i - ?T = bit_range ?q (gap i) - {?k}"
        using sub knot by blast
      then have "free_bytes ?a (S(i := ?T)) = free_set h S - R"
        using F(2) unfolding R_def by simp
      also have "\<dots> = free_set h S - extent (Suc i) ?x"
        using x(3) big by blast
      finally have free: "free_bytes ?a (S(i := ?T)) = free_set h S - extent (Suc i) ?x" .
      have inv': "heap_inv (with_block i b mem h) L (S(i := ?T))"
        unfolding res(2,3) using P(2) True F(1) by (intro heap_update [OF inv i _ frame]) simp_all
      have "x' = ?x" using True res(1) by simp
      have ex: "\<exists>S'. heap_inv (with_block i b mem h) L S' \<and> free_set h S' = free_set h S - extent (Suc i) ?x"
        using inv' free by blast
      have parts: "extent i x \<subseteq> extent (Suc i) ?x" "extent (Suc i) ?x - extent i x \<subseteq> free_set h S"
        using big rest by blast+
      show ?thesis
        unfolding pushed_def \<open>x' = ?x\<close>
        using \<open>?x \<noteq> 0\<close> \<open>i < 6\<close> E(2) parts ex \<open>extent (Suc i) ?x \<subseteq> region h\<close> by simp
    qed
  qed
qed

lemma FreeBlock_frees:
  assumes "heap_inv h L S" "i < 7" "2 ^ shift i dvd x" "extent i x \<subseteq> region h" "extent i x \<inter> free_set h S = {}"
  shows "\<exists>S'. heap_inv (FreeBlock x i h) L S' \<and> free_set h S' = free_set h S \<union> extent i x \<and>
    m_heap_address (FreeBlock x i h) = m_heap_address h \<and> m_heap_size (FreeBlock x i h) = m_heap_size h"
  using assms
proof (induction "7 - i" arbitrary: i x h S)
  case 0
  then show ?case by simp
next
  case (Suc n)
  note D = heap_invD [OF Suc.prems(1)]
  obtain x' b mem where push: "PushBlock x (m_blocks h ! i) (management h) = (x', b, mem)"
    by (cases "PushBlock x (m_blocks h ! i) (management h)")
  let ?h = "with_block i b mem h"
  have eq: "FreeBlock x i h = (if x' \<noteq> 0 then FreeBlock x' (i + 1) ?h else ?h)"
    using D(2) Suc.prems(2) push by (subst FreeBlock.simps) (simp add: Let_def)
  note P = PushBlock_pushed [OF Suc.prems push]
  show ?case
  proof (cases "x' = 0")
    case True
    then show ?thesis
      using P eq by (simp add: pushed_def)
  next
    case False
    then obtain S1 where i6: "i < 6" and x': "2 ^ shift (Suc i) dvd x'" "extent i x \<subseteq> extent (Suc i) x'"
      "extent (Suc i) x' \<subseteq> region h" "extent (Suc i) x' - extent i x \<subseteq> free_set h S"
      and S1: "heap_inv ?h L S1" "free_set h S1 = free_set h S - extent (Suc i) x'"
      using P by (auto simp: pushed_def)
    have "n = 7 - Suc i" using Suc.hyps(2) by simp
    from Suc.hyps(1) [OF this S1(1) _ x'(1)] obtain S2 where
      S2: "heap_inv (FreeBlock x' (Suc i) ?h) L S2" "free_set h S2 = free_set h S1 \<union> extent (Suc i) x'"
      "m_heap_address (FreeBlock x' (Suc i) ?h) = m_heap_address h" "m_heap_size (FreeBlock x' (Suc i) ?h) = m_heap_size h"
      using i6 x'(3) S1(2) by auto
    have "free_set h S2 = free_set h S \<union> extent i x"
      using S2(2) S1(2) x'(2,4) by blast
    then show ?thesis
      using S2 False eq by auto
  qed
qed

section \<open>Freeing a range\<close>

definition freed :: "'r KPageHeap \<Rightarrow> (nat \<Rightarrow> layout) \<Rightarrow> (nat \<Rightarrow> nat set) \<Rightarrow> nat set \<Rightarrow> 'r KPageHeap \<Rightarrow> bool" where
  "freed h L S R h' \<longleftrightarrow> (\<exists>S'. heap_inv h' L S' \<and> free_set h S' = free_set h S \<union> R) \<and>
     m_heap_address h' = m_heap_address h \<and> m_heap_size h' = m_heap_size h"

lemma freedE:
  assumes "freed h L S R h'"
  obtains S' where "heap_inv h' L S'" "free_set h' S' = free_set h S \<union> R" "m_heap_address h' = m_heap_address h"
    "m_heap_size h' = m_heap_size h"
  using assms by (auto simp: freed_def)

lemma freed_FreeBlock:
  assumes "heap_inv h L S" "i < 7" "2 ^ shift i dvd x" "extent i x \<subseteq> region h" "extent i x \<inter> free_set h S = {}"
  shows "freed h L S (extent i x) (FreeBlock x i h)"
  using FreeBlock_frees [OF assms] by (auto simp: freed_def)

lemma freed_none: "heap_inv h L S \<Longrightarrow> freed h L S {} h"
  by (auto simp: freed_def)

lemma freed_trans:
  assumes "freed h L S R h1" "\<And>S1. heap_inv h1 L S1 \<Longrightarrow> free_set h1 S1 = free_set h S \<union> R \<Longrightarrow> freed h1 L S1 R' h2"
    "Q = R \<union> R'"
  shows "freed h L S Q h2"
proof -
  obtain S1 where S1: "heap_inv h1 L S1" "free_set h1 S1 = free_set h S \<union> R" "m_heap_address h1 = m_heap_address h"
    "m_heap_size h1 = m_heap_size h"
    using assms(1) by (rule freedE)
  obtain S2 where "heap_inv h2 L S2" "free_set h2 S2 = free_set h1 S1 \<union> R'" "m_heap_address h2 = m_heap_address h1"
    "m_heap_size h2 = m_heap_size h1"
    using assms(2) [OF S1(1,2)] by (rule freedE)
  then show ?thesis
    using S1 assms(3) by (auto simp: freed_def)
qed

lemma block_size: "heap_inv h L S \<Longrightarrow> i < 7 \<Longrightarrow> Block_GetSize (m_blocks h ! i) = 2 ^ shift i"
  using heap_invD(4) by (fastforce simp: Block_GetSize_def block_shape_def)

lemma freed_same:
  assumes "freed h L S R h1"
  shows "m_heap_address h1 = m_heap_address h" "m_heap_size h1 = m_heap_size h"
  using assms by (simp_all add: freed_def)

lemma free_big_freed:
  assumes "heap_inv h L S" "i < 7" "2 ^ shift i dvd x" "2 ^ shift i dvd y" "x \<le> y"
    "{x..<y} \<subseteq> region h" "{x..<y} \<inter> free_set h S = {}"
  shows "freed h L S {x..<y} (free_big x y (2 ^ shift i) i h)"
  using assms
proof (induction "y - x" arbitrary: x h S rule: less_induct)
  case less
  show ?case
  proof (cases "x = y")
    case True
    then show ?thesis
      using freed_none [OF less.prems(1)] by (subst free_big.simps) simp
  next
    case False
    then have "x < y" using less.prems(5) by simp
    let ?d = "2 ^ shift i :: nat" and ?h = "FreeBlock x i h"
    have le: "x + ?d \<le> y"
      using dvd_interval [OF less.prems(3,4), of 0] \<open>x < y\<close> by simp
    have sub: "extent i x \<subseteq> {x..<y}"
      using le by (auto simp: extent_def)
    have one: "freed h L S (extent i x) ?h"
      using sub less.prems by (intro freed_FreeBlock) auto
    have eq: "free_big x y ?d i h = free_big (x + ?d) y ?d i ?h"
      using \<open>x < y\<close> by (subst free_big.simps) simp
    have "0 < ?d" by simp
    then have ms: "y - (x + ?d) < y - x"
      using \<open>x < y\<close> by linarith
    have "freed ?h L S1 {x + ?d..<y} (free_big (x + ?d) y ?d i ?h)"
      if "heap_inv ?h L S1" "free_set ?h S1 = free_set h S \<union> extent i x" for S1
    proof (rule less.hyps [OF ms that(1)])
      show "{x + ?d..<y} \<subseteq> region ?h"
        using less.prems(6) freed_same [OF one] by auto
      have "{x + ?d..<y} \<inter> extent i x = {}" "{x + ?d..<y} \<subseteq> {x..<y}"
        by (auto simp: extent_def)
      then show "{x + ?d..<y} \<inter> free_set ?h S1 = {}"
        using less.prems(7) that(2) by blast
    qed (use less.prems le \<open>x < y\<close> in auto)
    then show ?thesis
      unfolding eq using le by (intro freed_trans [OF one]) (auto simp: extent_def)
  qed
qed

lemma free_upwards_freed:
  assumes "heap_inv h L S" "i < 7" "2 ^ shift i dvd x" "x \<le> y" "{x..<y} \<subseteq> region h" "{x..<y} \<inter> free_set h S = {}"
    "free_upwards x y (2 ^ shift i) i h = (z, h')"
  shows "freed h L S {x..<z} h' \<and> x \<le> z \<and> z \<le> y \<and> y < z + 2 ^ shift i \<and> 2 ^ shift i dvd z"
  using assms
proof (induction "y - x" arbitrary: x h S rule: less_induct)
  case less
  let ?d = "2 ^ shift i :: nat" and ?h = "FreeBlock x i h"
  show ?case
  proof (cases "x + ?d \<le> y")
    case False
    then have "z = x" "h' = h"
      using less.prems(7) by (subst (asm) free_upwards.simps; simp)+
    then show ?thesis
      using False freed_none [OF less.prems(1)] less.prems(3,4) by simp
  next
    case True
    have sub: "extent i x \<subseteq> {x..<y}"
      using True by (auto simp: extent_def)
    have one: "freed h L S (extent i x) ?h"
      using sub less.prems by (intro freed_FreeBlock) auto
    have eq: "free_upwards (x + ?d) y ?d i ?h = (z, h')"
      using True less.prems(7) by (subst (asm) free_upwards.simps) simp
    have "0 < ?d" by simp
    then have ms: "y - (x + ?d) < y - x"
      using True by linarith
    have IH: "freed ?h L S1 {x + ?d..<z} h' \<and> x + ?d \<le> z \<and> z \<le> y \<and> y < z + ?d \<and> ?d dvd z"
      if "heap_inv ?h L S1" "free_set ?h S1 = free_set h S \<union> extent i x" for S1
    proof (rule less.hyps [OF ms that(1)])
      show "{x + ?d..<y} \<subseteq> region ?h"
        using less.prems(5) freed_same [OF one] by auto
      have "{x + ?d..<y} \<inter> extent i x = {}" "{x + ?d..<y} \<subseteq> {x..<y}"
        by (auto simp: extent_def)
      then show "{x + ?d..<y} \<inter> free_set ?h S1 = {}"
        using less.prems(6) that(2) by blast
    qed (use less.prems True eq in auto)
    obtain S1 where "heap_inv ?h L S1" "free_set ?h S1 = free_set h S \<union> extent i x"
      using one by (rule freedE)
    from IH [OF this] have z: "x + ?d \<le> z" "z \<le> y" "y < z + ?d" "?d dvd z"
      by blast+
    have "freed h L S {x..<z} h'"
      using z(1) IH by (intro freed_trans [OF one]) (auto simp: extent_def)
    then show ?thesis
      using z by simp
  qed
qed

lemma free_downwards_freed:
  assumes "heap_inv h L S" "i < 7" "2 ^ shift i dvd y" "x \<le> y" "{x..<y} \<subseteq> region h" "{x..<y} \<inter> free_set h S = {}"
    "free_downwards x y (2 ^ shift i) i h = (z, h')"
  shows "freed h L S {z..<y} h' \<and> x \<le> z \<and> z \<le> y \<and> z < x + 2 ^ shift i \<and> 2 ^ shift i dvd z"
  using assms
proof (induction y arbitrary: h S rule: less_induct)
  case (less y)
  let ?d = "2 ^ shift i :: nat" and ?h = "FreeBlock (y - 2 ^ shift i) i h"
  show ?case
  proof (cases "x + ?d \<le> y")
    case False
    then have "z = y" "h' = h"
      using less.prems(7) by (subst (asm) free_downwards.simps; simp)+
    then show ?thesis
      using False freed_none [OF less.prems(1)] less.prems(3,4) by simp
  next
    case True
    have dv: "?d dvd y - ?d"
      using less.prems(3) by (simp add: dvd_diff_nat)
    have ext: "extent i (y - ?d) = {y - ?d..<y}"
      using True by (auto simp: extent_def)
    have sub: "{y - ?d..<y} \<subseteq> {x..<y}"
      using True by auto
    have one: "freed h L S {y - ?d..<y} ?h"
      using freed_FreeBlock [OF less.prems(1,2) dv] less.prems(5,6) sub unfolding ext by blast
    have eq: "free_downwards x (y - ?d) ?d i ?h = (z, h')"
      using True less.prems(7) by (subst (asm) free_downwards.simps) simp
    have "0 < ?d" by simp
    then have lt: "y - ?d < y"
      using True by linarith
    have IH: "freed ?h L S1 {z..<y - ?d} h' \<and> x \<le> z \<and> z \<le> y - ?d \<and> z < x + ?d \<and> ?d dvd z"
      if "heap_inv ?h L S1" "free_set ?h S1 = free_set h S \<union> {y - ?d..<y}" for S1
    proof (rule less.IH [OF lt that(1) less.prems(2) dv _ _ _ eq])
      show "{x..<y - ?d} \<subseteq> region ?h"
        using less.prems(5) freed_same [OF one] by auto
      have "{x..<y - ?d} \<inter> {y - ?d..<y} = {}" "{x..<y - ?d} \<subseteq> {x..<y}"
        by auto
      then show "{x..<y - ?d} \<inter> free_set ?h S1 = {}"
        using less.prems(6) that(2) by blast
    qed (use True in auto)
    obtain S1 where "heap_inv ?h L S1" "free_set ?h S1 = free_set h S \<union> {y - ?d..<y}"
      using one by (rule freedE)
    from IH [OF this] have z: "x \<le> z" "z \<le> y - ?d" "z < x + ?d" "?d dvd z"
      by blast+
    have "freed h L S {z..<y} h'"
      using z(2) IH by (intro freed_trans [OF one]) auto
    then show ?thesis
      using z by simp
  qed
qed

lemma aligned_below: "i < 7 \<Longrightarrow> j \<le> i \<Longrightarrow> 2 ^ shift i dvd x \<Longrightarrow> 2 ^ shift j dvd (x :: nat)"
  using shift_mono [of j i] by (meson dvd_trans le_imp_power_dvd)

lemma free_before_freed:
  assumes "heap_inv h L S" "k < 7" "2 ^ shift 0 dvd x" "x \<le> y"
    "case k of 0 \<Rightarrow> y = x | Suc i \<Rightarrow> 2 ^ shift i dvd y" "{x..<y} \<subseteq> region h" "{x..<y} \<inter> free_set h S = {}"
  shows "freed h L S {x..<y} (free_before k x y h)"
  using assms
proof (induction k arbitrary: h S y)
  case 0
  then show ?case
    using freed_none [OF 0(1)] by simp
next
  case (Suc i)
  obtain z h1 where d: "free_downwards x y (2 ^ shift i) i h = (z, h1)"
    by (cases "free_downwards x y (2 ^ shift i) i h")
  have i: "i < 7" using Suc.prems(2) by simp
  note F = free_downwards_freed [OF Suc.prems(1) i _ Suc.prems(4,6,7) d]
  have F': "freed h L S {z..<y} h1" "x \<le> z" "z \<le> y" "z < x + 2 ^ shift i" "2 ^ shift i dvd z"
    using F Suc.prems(5) by simp_all
  have "case i of 0 \<Rightarrow> z = x | Suc j \<Rightarrow> 2 ^ shift j dvd z"
  proof (cases i)
    case 0
    have "z \<le> x"
      using dvd_interval [OF F'(5) Suc.prems(3) [folded 0] F'(4)] 0 by simp
    then show ?thesis using F'(2) 0 by simp
  next
    case (Suc j)
    then show ?thesis using aligned_below [OF i _ F'(5), of j] by simp
  qed
  note step = Suc.IH [OF _ i Suc.prems(3) F'(2) this]
  have "freed h1 L S1 {x..<z} (free_before i x z h1)"
    if "heap_inv h1 L S1" "free_set h1 S1 = free_set h S \<union> {z..<y}" for S1
  proof (rule step [OF that(1)])
    have sub: "{x..<z} \<subseteq> {x..<y}" "{x..<z} \<inter> {z..<y} = {}"
      using F'(3) by auto
    show "{x..<z} \<subseteq> region h1"
      using subset_trans [OF sub(1) Suc.prems(6)] by (simp only: freed_same [OF F'(1)])
    show "{x..<z} \<inter> free_set h1 S1 = {}"
      using sub Suc.prems(7) that(2) by blast
  qed
  then have "freed h L S {x..<y} (free_before i x z h1)"
    using F'(2,3) by (intro freed_trans [OF F'(1)]) auto
  then show ?case
    using d block_size [OF Suc.prems(1) i] by simp
qed

lemma free_after_freed:
  assumes "heap_inv h L S" "k < 7" "2 ^ shift 0 dvd y" "x \<le> y"
    "case k of 0 \<Rightarrow> y = x | Suc i \<Rightarrow> 2 ^ shift i dvd x" "{x..<y} \<subseteq> region h" "{x..<y} \<inter> free_set h S = {}"
  shows "freed h L S {x..<y} (free_after k x y h)"
  using assms
proof (induction k arbitrary: h S x)
  case 0
  then show ?case
    using freed_none [OF 0(1)] by simp
next
  case (Suc i)
  obtain z h1 where d: "free_upwards x y (2 ^ shift i) i h = (z, h1)"
    by (cases "free_upwards x y (2 ^ shift i) i h")
  have i: "i < 7" using Suc.prems(2) by simp
  note F = free_upwards_freed [OF Suc.prems(1) i _ Suc.prems(4,6,7) d]
  have F': "freed h L S {x..<z} h1" "x \<le> z" "z \<le> y" "y < z + 2 ^ shift i" "2 ^ shift i dvd z"
    using F Suc.prems(5) by simp_all
  have "case i of 0 \<Rightarrow> y = z | Suc j \<Rightarrow> 2 ^ shift j dvd z"
  proof (cases i)
    case 0
    have "y \<le> z"
      using dvd_interval [OF Suc.prems(3) [folded 0] F'(5,4)] 0 by simp
    then show ?thesis using F'(3) 0 by simp
  next
    case (Suc j)
    then show ?thesis using aligned_below [OF i _ F'(5), of j] by simp
  qed
  note step = Suc.IH [OF _ i Suc.prems(3) F'(3) this]
  have "freed h1 L S1 {z..<y} (free_after i z y h1)"
    if "heap_inv h1 L S1" "free_set h1 S1 = free_set h S \<union> {x..<z}" for S1
  proof (rule step [OF that(1)])
    have sub: "{z..<y} \<subseteq> {x..<y}" "{z..<y} \<inter> {x..<z} = {}"
      using F'(2) by auto
    show "{z..<y} \<subseteq> region h1"
      using subset_trans [OF sub(1) Suc.prems(6)] by (simp only: freed_same [OF F'(1)])
    show "{z..<y} \<inter> free_set h1 S1 = {}"
      using sub Suc.prems(7) that(2) by blast
  qed
  then have "freed h L S {x..<y} (free_after i z y h1)"
    using F'(2,3) by (intro freed_trans [OF F'(1)]) auto
  then show ?case
    using d block_size [OF Suc.prems(1) i] by simp
qed

lemma Align_aligned:
  assumes "2 ^ k dvd x"
  shows "AlignUp x (2 ^ k) = x" "AlignDown x (2 ^ k) = x"
proof -
  have "(0 :: nat) < 2 ^ k" by simp
  then have "AlignUp x (2 ^ k) < x + 2 ^ k"
    using AlignUp_less [of x "2 ^ k"] by linarith
  from dvd_interval [OF AlignUp_dvd assms this] have "AlignUp x (2 ^ k) \<le> x"
    by simp
  then show "AlignUp x (2 ^ k) = x"
    using AlignUp_ge [of x "2 ^ k"] by simp
  show "AlignDown x (2 ^ k) = x"
    using assms by (simp add: AlignDown_pow2)
qed

lemma find_big_spec:
  assumes inv: "heap_inv h L S" and x: "2 ^ shift 0 dvd x" "2 ^ shift 0 dvd y" "x < y"
  shows "Suc k \<le> 7 \<Longrightarrow> \<exists>i. i \<le> k \<and> find_big h x y (Suc k) =
    Some (i, AlignUp x (2 ^ shift i), AlignDown y (2 ^ shift i)) \<and>
    AlignUp x (2 ^ shift i) < AlignDown y (2 ^ shift i)"
proof (induction k)
  case 0
  have "AlignUp x (2 ^ shift 0) = x" "AlignDown y (2 ^ shift 0) = y"
    using x(1,2) by (simp_all add: Align_aligned)
  then show ?case
    using x(3) block_size [OF inv, of 0] by (simp add: Let_def)
next
  case (Suc k)
  then show ?case
    using block_size [OF inv, of "Suc k"]
    by (cases "AlignUp x (2 ^ shift (Suc k)) < AlignDown y (2 ^ shift (Suc k))")
      (auto simp: Let_def simp del: power.simps intro: le_SucI)
qed

lemma PageSize_shift: "PageSize = 2 ^ shift 0"
  by (simp add: PageSize_def MemoryBlockPageShifts_def)

lemma Free_freed:
  assumes inv: "heap_inv h L S" and x: "PageSize dvd x"
    and reg: "{x..<x + n * PageSize} \<subseteq> region h" and dis: "{x..<x + n * PageSize} \<inter> free_set h S = {}"
  shows "freed h L S {x..<x + n * PageSize} (KPageHeap_Free x n h)"
proof (cases "n = 0")
  case True
  then show ?thesis
    using freed_none [OF inv] by (simp add: KPageHeap_Free_def)
next
  case False
  let ?y = "x + n * PageSize"
  have al: "2 ^ shift 0 dvd x" "2 ^ shift 0 dvd ?y" "x < ?y"
    using x False by (simp_all add: PageSize_shift)
  obtain i where i: "i \<le> 6" and big: "find_big h x ?y (Suc 6) = Some (i, AlignUp x (2 ^ shift i), AlignDown ?y (2 ^ shift i))"
    and lt: "AlignUp x (2 ^ shift i) < AlignDown ?y (2 ^ shift i)"
    using find_big_spec [OF inv al, of 6] by auto
  define u where "u = AlignUp x (2 ^ shift i)"
  define v where "v = AlignDown ?y (2 ^ shift i)"
  have uv: "x \<le> u" "u < v" "v \<le> ?y" "2 ^ shift i dvd u" "2 ^ shift i dvd v"
    using lt by (simp_all add: u_def v_def AlignUp_ge AlignDown_le AlignUp_dvd AlignDown_pow2)
  define h1 where "h1 = free_big u v (2 ^ shift i) i h"
  define h2 where "h2 = free_before i x u h1"
  have eq: "KPageHeap_Free x n h = free_after i v ?y h2"
    using False big heap_invD(3) [OF inv] block_size [OF inv, of i] i
    by (simp add: KPageHeap_Free_def Let_def u_def v_def h1_def h2_def del: find_big.simps)
  have i7: "i < 7" using i by simp
  have "{u..<v} \<subseteq> {x..<?y}"
    using uv by auto
  then have f1: "freed h L S {u..<v} h1"
    unfolding h1_def using uv(2) reg dis by (intro free_big_freed [OF inv i7 uv(4,5)]) (simp, blast+)
  have c: "case i of 0 \<Rightarrow> u = x | Suc j \<Rightarrow> 2 ^ shift j dvd u" "case i of 0 \<Rightarrow> ?y = v | Suc j \<Rightarrow> 2 ^ shift j dvd v"
  proof -
    have "u = x" "v = ?y" if "i = 0"
      using al(1,2) that by (simp_all add: u_def v_def Align_aligned)
    then show "case i of 0 \<Rightarrow> u = x | Suc j \<Rightarrow> 2 ^ shift j dvd u" "case i of 0 \<Rightarrow> ?y = v | Suc j \<Rightarrow> 2 ^ shift j dvd v"
      using aligned_below [OF i7 _ uv(4)] aligned_below [OF i7 _ uv(5)] by (auto split: nat.split)
  qed
  have parts: "{x..<u} \<subseteq> {x..<?y}" "{v..<?y} \<subseteq> {x..<?y}" "{x..<u} \<inter> {u..<v} = {}" "{v..<?y} \<inter> ({u..<v} \<union> {x..<u}) = {}"
      "{x..<?y} = ({u..<v} \<union> {x..<u}) \<union> {v..<?y}" "{u..<v} \<union> {x..<u} = {u..<v} \<union> {x..<u}"
    using uv(1-3) by auto
  have f2: "freed h L S ({u..<v} \<union> {x..<u}) h2"
  proof (rule freed_trans [OF f1 _ refl])
    fix S1 assume S1: "heap_inv h1 L S1" "free_set h1 S1 = free_set h S \<union> {u..<v}"
    show "freed h1 L S1 {x..<u} h2"
      unfolding h2_def
    proof (rule free_before_freed [OF S1(1) i7 al(1) uv(1) c(1)])
      show "{x..<u} \<subseteq> region h1"
        using subset_trans [OF parts(1) reg] by (simp only: freed_same [OF f1])
      show "{x..<u} \<inter> free_set h1 S1 = {}"
        using parts(1,3) dis S1(2) by blast
    qed
  qed
  show ?thesis
    unfolding eq
  proof (rule freed_trans [OF f2 _ parts(5)])
    fix S2 assume S2: "heap_inv h2 L S2" "free_set h2 S2 = free_set h S \<union> ({u..<v} \<union> {x..<u})"
    show "freed h2 L S2 {v..<?y} (free_after i v ?y h2)"
    proof (rule free_after_freed [OF S2(1) i7 al(2) uv(3) c(2)])
      show "{v..<?y} \<subseteq> region h2"
        using subset_trans [OF parts(2) reg] by (simp only: freed_same [OF f2])
      show "{v..<?y} \<inter> free_set h2 S2 = {}"
        using parts(2,4) dis S2(2) by blast
    qed
  qed
qed

section \<open>Allocating a block\<close>

lemma PopBlock_pops:
  assumes inv: "heap_inv h L S" and i: "i < 7"
    and pop: "PopBlock gen random (m_blocks h ! i) (management h) = (x, b, mem)"
  shows "if x = 0 then S i = {} \<and> heap_inv (with_block i b mem h) L S
    else 2 ^ shift i dvd x \<and> extent i x \<subseteq> free_set h S \<and>
      (\<exists>S'. heap_inv (with_block i b mem h) L S' \<and> free_set h S' = free_set h S - extent i x)"
    "Block_GetSize b = 2 ^ shift i"
proof -
  note D = heap_invD [OF inv]
  let ?b = "m_blocks h ! i" and ?a = "m_heap_address h"
  have shape: "m_block_shift ?b = shift i" "m_block_heap_address ?b = block_base ?a i"
    using D(4) [OF i] by (auto simp: block_shape_def)
  obtain r bm where f: "FindFreeBlock gen random (m_bitmap ?b) (management h) = (r, bm)"
    by (cases "FindFreeBlock gen random (m_bitmap ?b) (management h)")
  note F = FindFreeBlock_spec [OF D(5) [OF i], of gen random, unfolded f fst_conv snd_conv]
  show "Block_GetSize b = 2 ^ shift i"
    using pop f shape(1) by (auto simp: PopBlock_def Block_GetSize_def split: option.splits prod.splits)
  show "if x = 0 then S i = {} \<and> heap_inv (with_block i b mem h) L S
    else 2 ^ shift i dvd x \<and> extent i x \<subseteq> free_set h S \<and>
      (\<exists>S'. heap_inv (with_block i b mem h) L S' \<and> free_set h S' = free_set h S - extent i x)"
  proof (cases r)
    case None
    then have res: "x = 0" "b = ?b\<lparr>m_bitmap := bm\<rparr>" "mem = management h"
      using pop f by (auto simp: PopBlock_def)
    have "heap_inv (with_block i b mem h) L (S(i := S i))"
      unfolding res using F(2) D(7) by (intro heap_update [OF inv i]) simp_all
    then show ?thesis
      using F(1) None res(1) by simp
  next
    case (Some k)
    obtain bm' mem' where c: "KPageBitmap_ClearBit k bm (management h) = (bm', mem')"
      by (cases "KPageBitmap_ClearBit k bm (management h)")
    have k: "k \<in> S i" using F(1) Some by simp
    note C = ClearBit_holds [OF F(2) k c]
    have res: "x = block_addr ?a i k" "b = ?b\<lparr>m_bitmap := bm'\<rparr>" "mem = mem'"
      using pop f Some c by (auto simp: PopBlock_def shape block_addr_def push_bit_eq_mult)
    note R = family_remove [OF D(7) i, of "S i - {k}", OF Diff_subset]
    have "S i - (S i - {k}) = {k}" using k by blast
    then have free: "free_bytes ?a (S(i := S i - {k})) = free_set h S - extent i x"
      using R(2) res(1) by simp
    have "extent i x \<subseteq> region h"
      using family_okD(1) [OF D(7) i k] res(1) by simp
    then have "x \<noteq> 0"
      using extent_nonempty [of x i] D(1) by fastforce
    moreover have "extent i x \<subseteq> free_set h S"
      using free_bytesI [where S = S, OF i k] res(1) by blast
    moreover have "heap_inv (with_block i b mem h) L (S(i := S i - {k}))"
      unfolding res(2,3) using C R(1) by (intro heap_update [OF inv i]) simp_all
    moreover have "2 ^ shift i dvd x"
      using block_addr_dvd [OF i] res(1) by simp
    ultimately show ?thesis
      using free by auto
  qed
qed

lemma allocate_loop_spec:
  assumes "heap_inv h L S" "j \<le> i" "i \<le> 7" "j < 7" "allocate_loop gen random (2 ^ shift j) i h = (x, h')"
  shows "(if x = 0 then (\<forall>m. i \<le> m \<and> m < 7 \<longrightarrow> S m = {}) \<and> heap_inv h' L S
    else 2 ^ shift j dvd x \<and> extent j x \<subseteq> free_set h S \<and>
      (\<exists>S'. heap_inv h' L S' \<and> free_set h S' = free_set h S - extent j x)) \<and>
    m_heap_address h' = m_heap_address h \<and> m_heap_size h' = m_heap_size h"
  using assms
proof (induction "7 - i" arbitrary: i h)
  case 0
  then have "x = 0" "h' = h"
    using heap_invD(3) [OF 0(2)] by (subst (asm) allocate_loop.simps; simp)+
  then show ?case
    using 0 by auto
next
  case (Suc n)
  have i: "i < 7" using Suc.hyps(2) by simp
  obtain y b mem where pop: "PopBlock gen random (m_blocks h ! i) (management h) = (y, b, mem)"
    by (cases "PopBlock gen random (m_blocks h ! i) (management h)")
  let ?h = "with_block i b mem h"
  let ?d = "2 ^ shift j :: nat" and ?e = "2 ^ shift i :: nat"
  note P = PopBlock_pops [OF Suc.prems(1) i pop]
  have num: "\<not> m_num_blocks h \<le> i"
    using heap_invD(3) [OF Suc.prems(1)] i by simp
  have eq: "(x, h') = (if y \<noteq> 0
      then (y, if ?d < ?e then KPageHeap_Free (y + ?d) ((?e - ?d) div PageSize) ?h else ?h)
      else allocate_loop gen random ?d (i + 1) ?h)"
    unfolding Suc.prems(5) [symmetric]
    by (subst allocate_loop.simps) (simp only: num if_False pop prod.case Let_def P(2))
  show ?case
  proof (cases "y = 0")
    case True
    have "n = 7 - Suc i" using Suc.hyps(2) by simp
    note IH = Suc.hyps(1) [OF this]
    have "(if x = 0 then (\<forall>m. Suc i \<le> m \<and> m < 7 \<longrightarrow> S m = {}) \<and> heap_inv h' L S
        else ?d dvd x \<and> extent j x \<subseteq> free_set h S \<and>
          (\<exists>S'. heap_inv h' L S' \<and> free_set h S' = free_set h S - extent j x)) \<and>
        m_heap_address h' = m_heap_address h \<and> m_heap_size h' = m_heap_size h"
      using IH [of ?h, unfolded with_block_sel] P(1) True eq Suc.prems(2,4) i by simp
    moreover have "\<forall>m. i \<le> m \<and> m < 7 \<longrightarrow> S m = {}" if "\<forall>m. Suc i \<le> m \<and> m < 7 \<longrightarrow> S m = {}"
      using that P(1) True by (metis Suc_leI le_neq_implies_less)
    ultimately show ?thesis
      by (cases "x = 0") simp_all
  next
    case False
    then obtain S1 where y: "?e dvd y" "extent i y \<subseteq> free_set h S" and S1: "heap_inv ?h L S1"
      "free_set h S1 = free_set h S - extent i y"
      using P(1) by auto
    have dy: "?d dvd y" using aligned_below [OF i Suc.prems(2) y(1)] .
    show ?thesis
    proof (cases "?d < ?e")
      case False
      then have "shift i = shift j"
        using shift_mono [OF Suc.prems(2) i] by (simp add: power_increasing_iff not_less)
      then have "extent i y = extent j y" by (simp add: extent_def)
      then show ?thesis
        using eq \<open>y \<noteq> 0\<close> False y dy S1 by auto
    next
      case True
      let ?n = "(?e - ?d) div PageSize"
      have pd: "PageSize dvd ?d" "PageSize dvd ?e"
        unfolding PageSize_shift using shift_mono [of 0 j] shift_mono [of 0 i] Suc.prems(4) i by (auto intro: le_imp_power_dvd)
      then have "PageSize dvd ?e - ?d" by (simp add: dvd_diff_nat)
      then have rng: "{y + ?d..<y + ?d + ?n * PageSize} = extent i y - extent j y"
        using True by (auto simp: extent_def)
      have "freed ?h L S1 (extent i y - extent j y) (KPageHeap_Free (y + ?d) ?n ?h)"
        unfolding rng [symmetric]
      proof (rule Free_freed [OF S1(1)])
        show "PageSize dvd y + ?d"
          using pd y(1) by (meson dvd_add dvd_trans)
        show "{y + ?d..<y + ?d + ?n * PageSize} \<subseteq> region ?h"
          unfolding rng using y(2) family_okD(1) [OF heap_invD(7) [OF Suc.prems(1)]] by (fastforce simp: free_bytes_def)
        show "{y + ?d..<y + ?d + ?n * PageSize} \<inter> free_set ?h S1 = {}"
          unfolding rng using S1(2) by auto
      qed
      then obtain S2 where S2: "heap_inv (KPageHeap_Free (y + ?d) ?n ?h) L S2"
        "free_set h S2 = free_set h S1 \<union> (extent i y - extent j y)"
        "m_heap_address (KPageHeap_Free (y + ?d) ?n ?h) = m_heap_address h"
        "m_heap_size (KPageHeap_Free (y + ?d) ?n ?h) = m_heap_size h"
        by (auto elim!: freedE)
      have ex: "extent j y \<subseteq> extent i y"
        using True by (auto simp: extent_def)
      then have "free_set h S2 = free_set h S - extent j y"
        using S2(2) S1(2) y(2) by blast
      then show ?thesis
        using eq \<open>y \<noteq> 0\<close> True y(2) dy S2 ex by auto
    qed
  qed
qed

lemma AllocateBlock_spec:
  assumes inv: "heap_inv h L S" and j: "j < 7" and alloc: "AllocateBlock gen j random h = (x, h')"
  shows "(x = 0 \<longleftrightarrow> \<not> (\<exists>y. 2 ^ shift j dvd y \<and> extent j y \<subseteq> free_set h S))"
    "x = 0 \<Longrightarrow> heap_inv h' L S"
    "x \<noteq> 0 \<Longrightarrow> 2 ^ shift j dvd x \<and> extent j x \<subseteq> free_set h S \<and>
      (\<exists>S'. heap_inv h' L S' \<and> free_set h S' = free_set h S - extent j x)"
    "m_heap_address h' = m_heap_address h" "m_heap_size h' = m_heap_size h"
proof -
  have "allocate_loop gen random (2 ^ shift j) j h = (x, h')"
    using alloc block_size [OF inv j] by (simp add: AllocateBlock_def)
  note A = allocate_loop_spec [OF inv order_refl _ j this]
  show "(x = 0 \<longleftrightarrow> \<not> (\<exists>y. 2 ^ shift j dvd y \<and> extent j y \<subseteq> free_set h S))"
  proof
    assume "x = 0"
    then have none: "S m = {}" if "j \<le> m" "m < 7" for m
      using A j that by auto
    show "\<not> (\<exists>y. 2 ^ shift j dvd y \<and> extent j y \<subseteq> free_set h S)"
    proof
      assume "\<exists>y. 2 ^ shift j dvd y \<and> extent j y \<subseteq> free_set h S"
      then obtain y where "2 ^ shift j dvd y" "extent j y \<subseteq> free_set h S" by blast
      from family_complete [OF heap_invD(7) [OF inv] j this] show False
        using none by blast
    qed
  next
    assume no: "\<not> (\<exists>y. 2 ^ shift j dvd y \<and> extent j y \<subseteq> free_set h S)"
    show "x = 0"
    proof (rule ccontr)
      assume "x \<noteq> 0"
      then have "2 ^ shift j dvd x \<and> extent j x \<subseteq> free_set h S" using A j by simp
      then show False using no by blast
    qed
  qed
  show "x = 0 \<Longrightarrow> heap_inv h' L S" "m_heap_address h' = m_heap_address h" "m_heap_size h' = m_heap_size h"
    "x \<noteq> 0 \<Longrightarrow> 2 ^ shift j dvd x \<and> extent j x \<subseteq> free_set h S \<and>
      (\<exists>S'. heap_inv h' L S' \<and> free_set h S' = free_set h S - extent j x)"
    using A j by simp_all
qed

end
