(* ===== verification/Kern_PageHeap_Props.thy ===== *)
theory Kern_PageHeap_Props
  imports Kern_PageHeap_Inv
begin

text \<open>
  The page heap from initialization on: \<^verbatim>\<open>Initialize\<close> establishes the invariant with no free block, the
  management area that \<^verbatim>\<open>CalculateManagementOverheadSize\<close> asks for is large enough, \<^verbatim>\<open>GetFreeSize\<close> counts
  the free bytes, and every run of \<^verbatim>\<open>Free\<close> and \<^verbatim>\<open>AllocateBlock\<close> is a run of an allocator that only keeps
  the set of bytes its callers hold.
\<close>

section \<open>Initialization\<close>

definition MaxDepth :: nat where
  "MaxDepth = 4"

lemma block_count_bounds:
  assumes "i < 7" "0 < sz" "sz \<le> 2 ^ 35"
  shows "0 < block_count a sz i" "block_count a sz i < 64 ^ 4"
proof -
  let ?t = "2 ^ top_shift i :: nat" and ?d = "2 ^ shift i :: nat"
  let ?w = "AlignUp (a + sz) ?t - block_base a i"
  have td: "?d dvd ?t"
    using shift_Suc [of i] assms(1) by (auto simp: top_shift_def intro: le_imp_power_dvd)
  have t0: "0 < ?t" by simp
  have le: "?t \<le> 32 * ?d"
  proof (cases "i < 6")
    case True
    have "gap i \<le> 32"
      unfolding gap_def using power_increasing [of "shift (i + 1) - shift i" 5 "2 :: nat"] shift_Suc [OF True] by simp
    then show ?thesis
      using gap_shift [OF True] mult_le_mono1 [of "gap i" 32 ?d] True by (simp add: top_shift_def)
  qed (simp add: top_shift_def)
  have up: "a + sz \<le> AlignUp (a + sz) ?t" "AlignUp (a + sz) ?t < a + sz + ?t"
    using AlignUp_ge [of "a + sz" ?t] AlignUp_less [of "a + sz" ?t] t0 by linarith+
  have "a mod ?t < ?t" "a div ?t * ?t + a mod ?t = a"
    by simp_all (rule div_mult_mod_eq)
  then have dn: "block_base a i \<le> a" "a < block_base a i + ?t"
    unfolding block_base_def AlignDown_pow2 by linarith+
  have "?d dvd ?w"
    using td AlignUp_dvd [of "top_shift i" "a + sz"] block_base_dvd(2) [OF assms(1), of a]
    by (meson dvd_diff_nat dvd_trans)
  then obtain c where c: "?w = ?d * c" by (rule dvdE)
  have cnt: "block_count a sz i = c"
    unfolding block_count_def c by simp
  have "0 < ?w" using up dn assms(2) by linarith
  then show "0 < block_count a sz i"
    unfolding cnt using c by (cases c) auto
  have "2 ^ 12 \<le> ?d"
    using shift_mono [of 0 i] assms(1) by (intro power_increasing) (simp_all add: MemoryBlockPageShifts_def)
  then have "sz \<le> 2 ^ 23 * ?d"
    using assms(3) mult_le_mono2 [of "2 ^ 12" ?d "2 ^ 23"] by simp
  then have "?w < 2 ^ 23 * ?d + 64 * ?d"
    using up dn le by linarith
  then have "?d * c < ?d * (2 ^ 23 + 64)"
    unfolding c by (simp add: algebra_simps)
  then show "block_count a sz i < 64 ^ 4"
    unfolding cnt by simp
qed

lemma next_shift_eq: "i < 7 \<Longrightarrow> next_shift MemoryBlockPageShifts i = (if i < 6 then shift (Suc i) else 0)"
  by (auto simp: next_shift_def MemoryBlockPageShifts_def)

lemma block_align_eq:
  assumes "i < 7"
  shows "block_align (shift i) (if i < 6 then shift (Suc i) else 0) = 2 ^ top_shift i"
  using shift_Suc [of i] by (auto simp: block_align_def top_shift_def)

lemma Block_Initialize_ok:
  assumes i: "i < 7" and sz: "0 < sz" "sz \<le> 2 ^ 35" and len: "length (m_bit_storages (m_bitmap b)) = MaxDepth"
    and init: "Block_Initialize a sz (shift i) (next_shift MemoryBlockPageShifts i) st b = (st', b')"
    and zero: "\<And>w. st \<le> w \<Longrightarrow> w < st' \<Longrightarrow> mem w = 0"
  shows "block_shape a sz i b'" "\<exists>l. holds_set l (m_bitmap b') mem (block_count a sz i) {} \<and> own_words l = {st..<st'}"
proof -
  obtain bm where bm: "KPageBitmap_Initialize st (block_count a sz i) (m_bitmap b) = (st', bm)"
    and b': "b' = b\<lparr>m_block_shift := shift i, m_next_block_shift := (if i < 6 then shift (Suc i) else 0),
      m_block_heap_address := block_base a i, m_end_offset := block_count a sz i, m_bitmap := bm\<rparr>"
    using init unfolding Block_Initialize_def Let_def next_shift_eq [OF i] block_align_eq [OF i]
      block_base_def [symmetric] block_count_def [symmetric] by (auto split: prod.splits)
  show "block_shape a sz i b'"
    by (simp add: b' block_shape_def)
  note C = block_count_bounds [OF i sz]
  have "GetRequiredDepth (block_count a sz i) \<le> length (m_bit_storages (m_bitmap b))"
    using GetRequiredDepth_le [of "block_count a sz i" 3] C(2) len by (simp add: MaxDepth_def)
  note I = Initialize_holds(1) [where mem = mem, OF C(1) this bm zero]
  show "\<exists>l. holds_set l (m_bitmap b') mem (block_count a sz i) {} \<and> own_words l = {st..<st'}"
    using I by (auto simp: b')
qed

lemma Block_Initialize_grows:
  assumes "Block_Initialize a sz bs nbs st b = (st', b')"
  shows "st \<le> st'"
proof -
  have "st \<le> snd (storage_loop D st n ptrs)" for D n ptrs
    using storage_loop_overhead [of D st n ptrs 0] by simp
  then show ?thesis
    using assms by (force simp: Block_Initialize_def KPageBitmap_Initialize_def Let_def split_beta)
qed

lemma initialize_blocks_grows: "initialize_blocks sh is st h = (st', h') \<Longrightarrow> st \<le> st'"
proof (induction "is" arbitrary: st h)
  case (Cons i "is")
  then obtain st1 b where b: "Block_Initialize (m_heap_address h) (m_heap_size h) (sh ! i)
      (next_shift sh i) st (m_blocks h ! i) = (st1, b)"
    by (cases "Block_Initialize (m_heap_address h) (m_heap_size h) (sh ! i) (next_shift sh i) st (m_blocks h ! i)")
  show ?case
    using Block_Initialize_grows [OF b] Cons.IH [of st1] Cons.prems b by force
qed simp

definition initialized :: "nat \<Rightarrow> nat \<Rightarrow> words \<Rightarrow> (nat \<Rightarrow> layout) \<Rightarrow> 'r Block list \<Rightarrow> nat \<Rightarrow> bool" where
  "initialized a sz mem L bs i \<longleftrightarrow> block_shape a sz i (bs ! i) \<and>
     holds_set (L i) (m_bitmap (bs ! i)) mem (block_count a sz i) {}"

lemma initialize_blocks_ok:
  assumes "m \<le> 7" "length (m_blocks h) = 7" "0 < m_heap_size h" "m_heap_size h \<le> 2 ^ 35"
    "\<And>i. i < 7 \<Longrightarrow> length (m_bit_storages (m_bitmap (m_blocks h ! i))) = MaxDepth \<or> i < m"
    "initialize_blocks MemoryBlockPageShifts [m..<7] st h = (st', h')"
    "\<And>w. st \<le> w \<Longrightarrow> w < st' \<Longrightarrow> mem w = 0"
  shows "\<exists>L bs. h' = h\<lparr>m_blocks := bs\<rparr> \<and> length bs = 7 \<and> (\<forall>i < m. bs ! i = m_blocks h ! i) \<and>
    (\<forall>i. m \<le> i \<longrightarrow> i < 7 \<longrightarrow> initialized (m_heap_address h) (m_heap_size h) mem L bs i \<and>
      own_words (L i) \<subseteq> {st..<st'} \<and>
      (\<forall>j. m \<le> j \<longrightarrow> j < i \<longrightarrow> own_words (L i) \<inter> own_words (L j) = {}))"
  using assms
proof (induction "7 - m" arbitrary: m st h)
  case 0
  then have "m = 7" "h' = h" by simp_all
  then show ?case
    using 0(3) by (intro exI [of _ undefined] exI [of _ "m_blocks h"]) auto
next
  case (Suc n)
  have m: "m < 7" using Suc.hyps(2) by simp
  then have upt: "[m..<7] = m # [Suc m..<7]" by (rule upt_conv_Cons)
  obtain st1 b where b: "Block_Initialize (m_heap_address h) (m_heap_size h) (shift m)
      (next_shift MemoryBlockPageShifts m) st (m_blocks h ! m) = (st1, b)"
    by (cases "Block_Initialize (m_heap_address h) (m_heap_size h) (shift m)
      (next_shift MemoryBlockPageShifts m) st (m_blocks h ! m)")
  let ?h = "h\<lparr>m_blocks := (m_blocks h)[m := b]\<rparr>"
  have rest: "initialize_blocks MemoryBlockPageShifts [Suc m..<7] st1 ?h = (st', h')"
    using Suc.prems(6) b unfolding upt by (simp add: Let_def)
  have le: "st \<le> st1" "st1 \<le> st'"
    using Block_Initialize_grows [OF b] initialize_blocks_grows [OF rest] .
  have z: "mem w = 0" if "st \<le> w" "w < st1" for w
    using Suc.prems(7) that le by simp
  have "length (m_bit_storages (m_bitmap (m_blocks h ! m))) = MaxDepth"
    using Suc.prems(5) m by blast
  note B = Block_Initialize_ok [where mem = mem, OF m Suc.prems(3,4) this b z]
  obtain l where l: "holds_set l (m_bitmap b) mem (block_count (m_heap_address h) (m_heap_size h) m) {}"
      "own_words l = {st..<st1}"
    using B(2) by blast
  have "n = 7 - Suc m" using Suc.hyps(2) by simp
  moreover have "Suc m \<le> 7" using m by simp
  moreover have "length (m_blocks ?h) = 7" "0 < m_heap_size ?h" "m_heap_size ?h \<le> 2 ^ 35"
    using Suc.prems(2-4) by simp_all
  moreover have "length (m_bit_storages (m_bitmap (m_blocks ?h ! i))) = MaxDepth \<or> i < Suc m" if "i < 7" for i
    using Suc.prems(5) [OF that] by (cases "i = m") auto
  moreover note rest
  moreover have "mem w = 0" if "st1 \<le> w" "w < st'" for w
    using Suc.prems(7) that le by simp
  ultimately have IH: "\<exists>L bs. h' = ?h\<lparr>m_blocks := bs\<rparr> \<and> length bs = 7 \<and> (\<forall>i < Suc m. bs ! i = m_blocks ?h ! i) \<and>
    (\<forall>i. Suc m \<le> i \<longrightarrow> i < 7 \<longrightarrow> initialized (m_heap_address ?h) (m_heap_size ?h) mem L bs i \<and>
      own_words (L i) \<subseteq> {st1..<st'} \<and>
      (\<forall>j. Suc m \<le> j \<longrightarrow> j < i \<longrightarrow> own_words (L i) \<inter> own_words (L j) = {}))"
    by (rule Suc.hyps(1))
  have sel: "m_heap_address ?h = m_heap_address h" "m_heap_size ?h = m_heap_size h" by simp_all
  obtain L bs where E: "h' = ?h\<lparr>m_blocks := bs\<rparr> \<and> length bs = 7 \<and> (\<forall>i < Suc m. bs ! i = m_blocks ?h ! i) \<and>
    (\<forall>i. Suc m \<le> i \<longrightarrow> i < 7 \<longrightarrow> initialized (m_heap_address ?h) (m_heap_size ?h) mem L bs i \<and>
      own_words (L i) \<subseteq> {st1..<st'} \<and>
      (\<forall>j. Suc m \<le> j \<longrightarrow> j < i \<longrightarrow> own_words (L i) \<inter> own_words (L j) = {}))"
    using IH by (elim exE)
  have h': "h' = ?h\<lparr>m_blocks := bs\<rparr>" "length bs = 7" "\<forall>i < Suc m. bs ! i = m_blocks ?h ! i"
    using E by simp_all
  have L: "initialized (m_heap_address h) (m_heap_size h) mem L bs i" "own_words (L i) \<subseteq> {st1..<st'}"
      "\<forall>j. Suc m \<le> j \<longrightarrow> j < i \<longrightarrow> own_words (L i) \<inter> own_words (L j) = {}" if "Suc m \<le> i" "i < 7" for i
    using E that unfolding sel by blast+
  have bm: "bs ! m = b" using h'(3) Suc.prems(2) m by simp
  have new: "initialized (m_heap_address h) (m_heap_size h) mem (L(m := l)) bs i \<and>
      own_words ((L(m := l)) i) \<subseteq> {st..<st'} \<and>
      (\<forall>j. m \<le> j \<longrightarrow> j < i \<longrightarrow> own_words ((L(m := l)) i) \<inter> own_words ((L(m := l)) j) = {})"
    if "m \<le> i" "i < 7" for i
  proof (cases "i = m")
    case True
    then show ?thesis
      using B(1) l le bm by (auto simp: initialized_def)
  next
    case False
    then have i: "Suc m \<le> i" using that by simp
    have "own_words (L i) \<inter> own_words ((L(m := l)) j) = {}" if "m \<le> j" "j < i" for j
    proof (cases "j = m")
      case True
      have "{st1..<st'} \<inter> {st..<st1} = {}" by auto
      then show ?thesis using L(2) [OF i \<open>i < 7\<close>] l(2) True by auto
    next
      case False
      then show ?thesis using L(3) [OF i \<open>i < 7\<close>] that by simp
    qed
    moreover have "own_words (L i) \<subseteq> {st..<st'}"
      using L(2) [OF i that(2)] le by (meson order_trans ivl_subset order_refl)
    ultimately show ?thesis
      using L(1) [OF i that(2)] False by (simp add: initialized_def)
  qed
  show ?case
    using h' new Suc.prems(2) m by (intro exI [of _ "L(m := l)"] exI [of _ bs]) auto
qed

lemma family_empty: "family_ok a sz (\<lambda>_. {})" "free_bytes a (\<lambda>_. {}) = {}"
proof -
  have "\<not> bit_range q (gap i) \<subseteq> {}" if "i < 6" for i q
    using gap_64 [OF that] by (simp add: bit_range_def)
  then show "family_ok a sz (\<lambda>_. {})" by (simp add: family_ok_def)
  show "free_bytes a (\<lambda>_. {}) = {}" by (simp add: free_bytes_def)
qed

lemma Initialize_heap_inv:
  assumes "0 < a" "0 < sz" "sz \<le> 2 ^ 35" "length (m_blocks h0) = 7"
    "\<And>b. b \<in> set (m_blocks h0) \<Longrightarrow> length (m_bit_storages (m_bitmap b)) = MaxDepth"
    "\<And>w. ma \<le> w \<Longrightarrow> w < ma + ms \<Longrightarrow> management h0 w = 0"
    "KPageHeap_Initialize a sz ma ms MemoryBlockPageShifts h0 = Some h"
  shows "\<exists>L. heap_inv h L (\<lambda>_. {})" "m_heap_address h = a" "m_heap_size h = sz"
proof -
  let ?h = "h0\<lparr>m_heap_address := a, m_heap_size := sz, m_num_blocks := 7\<rparr>"
  have seven: "length MemoryBlockPageShifts = 7" by (simp add: MemoryBlockPageShifts_def)
  obtain st where init: "initialize_blocks MemoryBlockPageShifts [0..<7] ma ?h = (st, h)" and st: "st \<le> ma + ms"
    using assms(7) unfolding KPageHeap_Initialize_def Let_def seven by (auto split: prod.splits if_splits)
  have "\<exists>L bs. h = ?h\<lparr>m_blocks := bs\<rparr> \<and> length bs = 7 \<and> (\<forall>i < 0. bs ! i = m_blocks ?h ! i) \<and>
    (\<forall>i. 0 \<le> i \<longrightarrow> i < 7 \<longrightarrow> initialized (m_heap_address ?h) (m_heap_size ?h) (management h0) L bs i \<and>
      own_words (L i) \<subseteq> {ma..<st} \<and>
      (\<forall>j. 0 \<le> j \<longrightarrow> j < i \<longrightarrow> own_words (L i) \<inter> own_words (L j) = {}))"
    using assms(2-6) st by (intro initialize_blocks_ok [OF _ _ _ _ _ init]) simp_all
  then obtain L bs where E: "h = ?h\<lparr>m_blocks := bs\<rparr> \<and> length bs = 7 \<and> (\<forall>i < 0. bs ! i = m_blocks ?h ! i) \<and>
    (\<forall>i. 0 \<le> i \<longrightarrow> i < 7 \<longrightarrow> initialized (m_heap_address ?h) (m_heap_size ?h) (management h0) L bs i \<and>
      own_words (L i) \<subseteq> {ma..<st} \<and>
      (\<forall>j. 0 \<le> j \<longrightarrow> j < i \<longrightarrow> own_words (L i) \<inter> own_words (L j) = {}))"
    by (elim exE)
  have L: "h = ?h\<lparr>m_blocks := bs\<rparr>" "length bs = 7"
    "\<And>i. i < 7 \<Longrightarrow> initialized a sz (management h0) L bs i"
    "\<And>i j. i < 7 \<Longrightarrow> j < i \<Longrightarrow> own_words (L i) \<inter> own_words (L j) = {}"
    using E by simp_all
  show "m_heap_address h = a" "m_heap_size h = sz"
    using L(1) by simp_all
  have "own_words (L i) \<inter> own_words (L j) = {}" if "i < 7" "j < 7" "i \<noteq> j" for i j
    using L(4) [of i j] L(4) [of j i] that by (cases "i < j") (auto simp: Int_commute)
  then have "heap_inv h L (\<lambda>_. {})"
    using L(1-3) assms(1) family_empty(1) by (simp add: heap_inv_def initialized_def)
  then show "\<exists>L. heap_inv h L (\<lambda>_. {})" by blast
qed

lemma GetFreeSize_card:
  assumes inv: "heap_inv h L S"
  shows "GetFreeSize h = int (card (free_set h S))"
proof -
  note D = heap_invD [OF inv]
  have fin: "finite (S i)" if "i < 7" for i
    using holds_setD(7) [OF D(5) [OF that]] .
  have one: "Block_GetNumFreePages (m_blocks h ! i) * int PageSize = int (card (S i) * 2 ^ shift i)" if "i < 7" for i
  proof -
    have "PageSize dvd 2 ^ shift i"
      unfolding PageSize_shift using shift_mono [of 0 i] that by (intro le_imp_power_dvd) simp
    then have "int (2 ^ shift i div PageSize) * int PageSize = int (2 ^ shift i)"
      by (simp flip: of_nat_mult)
    then show ?thesis
      using holds_setD(6) [OF D(5) [OF that]] block_size [OF inv that]
      by (simp add: Block_GetNumFreePages_def Block_GetNumPages_def)
  qed
  have "GetFreeSize h = (\<Sum>b \<leftarrow> m_blocks h. Block_GetNumFreePages b) * int PageSize"
    by (simp add: GetFreeSize_def KPageHeap_GetNumFreePages_def D(2,3))
  also have "\<dots> = (\<Sum>i < 7. Block_GetNumFreePages (m_blocks h ! i)) * int PageSize"
    by (simp add: sum_list_sum_nth D(2) atLeast0LessThan)
  also have "\<dots> = (\<Sum>i < 7. int (card (S i) * 2 ^ shift i))"
    unfolding sum_distrib_right using one by (intro sum.cong) simp_all
  also have "\<dots> = int (card (free_set h S))"
    using family_card [OF D(7) fin] by simp
  finally show ?thesis .
qed

section \<open>The size of the management area\<close>

lemma block_count_overhead:
  assumes "i < 7"
  shows "block_count a sz i \<le> (2 ^ top_shift i * 2 + AlignUp sz (2 ^ top_shift i)) div 2 ^ shift i"
proof -
  let ?t = "2 ^ top_shift i :: nat"
  have t0: "0 < ?t" by simp
  have up: "AlignUp (a + sz) ?t < a + sz + ?t" "sz \<le> AlignUp sz ?t"
    using AlignUp_less [of "a + sz" ?t] AlignUp_ge [of sz ?t] t0 by linarith+
  have "a mod ?t < ?t" "a div ?t * ?t + a mod ?t = a"
    by simp_all (rule div_mult_mod_eq)
  then have "a < block_base a i + ?t"
    unfolding block_base_def AlignDown_pow2 by linarith
  then have "AlignUp (a + sz) ?t - block_base a i \<le> ?t * 2 + AlignUp sz ?t"
    using up by linarith
  then show ?thesis
    unfolding block_count_def by (rule div_le_mono)
qed

lemma Block_Initialize_storage:
  assumes i: "i < 7"
    and init: "Block_Initialize a sz (shift i) (next_shift MemoryBlockPageShifts i) st b = (st', b')"
  shows "st' * 8 \<le> st * 8 + Block_CalculateManagementOverheadSize sz (shift i) (next_shift MemoryBlockPageShifts i)"
proof -
  let ?n = "block_count a sz i" and ?m = "(2 ^ top_shift i * 2 + AlignUp sz (2 ^ top_shift i)) div 2 ^ shift i"
  have "st' = snd (storage_loop (GetRequiredDepth ?n) st ?n (m_bit_storages (m_bitmap b)))"
    using init unfolding Block_Initialize_def Let_def next_shift_eq [OF i] block_align_eq [OF i]
      block_base_def [symmetric] block_count_def [symmetric] KPageBitmap_Initialize_def by (auto split: prod.splits)
  then have "st' = st + overhead_loop (GetRequiredDepth ?n) ?n 0"
    using storage_loop_overhead [of "GetRequiredDepth ?n" st ?n "m_bit_storages (m_bitmap b)" 0] by simp
  also have "\<dots> \<le> st + overhead_loop (GetRequiredDepth ?m) ?m 0"
    using block_count_overhead [OF i, of a sz] by (intro add_left_mono overhead_loop_mono GetRequiredDepth_mono) simp_all
  finally show ?thesis
    unfolding Block_CalculateManagementOverheadSize_def Let_def next_shift_eq [OF i] block_align_eq [OF i]
      KPageBitmap_CalculateManagementOverheadSize_def by simp
qed

lemma initialize_blocks_storage:
  assumes "set is \<subseteq> {..<7}" "initialize_blocks MemoryBlockPageShifts is st h = (st', h')"
  shows "st' * 8 \<le> st * 8 + (\<Sum>i \<leftarrow> is. Block_CalculateManagementOverheadSize (m_heap_size h) (shift i)
    (next_shift MemoryBlockPageShifts i))"
  using assms
proof (induction "is" arbitrary: st h)
  case (Cons i "is")
  obtain st1 b where b: "Block_Initialize (m_heap_address h) (m_heap_size h) (shift i)
      (next_shift MemoryBlockPageShifts i) st (m_blocks h ! i) = (st1, b)"
    by (cases "Block_Initialize (m_heap_address h) (m_heap_size h) (shift i)
      (next_shift MemoryBlockPageShifts i) st (m_blocks h ! i)")
  have "initialize_blocks MemoryBlockPageShifts is st1 (h\<lparr>m_blocks := (m_blocks h)[i := b]\<rparr>) = (st', h')"
    using Cons.prems(2) b by simp
  from Cons.IH [OF _ this] Block_Initialize_storage [OF _ b] Cons.prems(1) show ?case by simp
qed simp

lemma Initialize_succeeds:
  assumes "KPageHeap_CalculateManagementOverheadSize sz MemoryBlockPageShifts \<le> ms * 8"
  shows "\<exists>h. KPageHeap_Initialize a sz ma ms MemoryBlockPageShifts h0 = Some h"
proof -
  let ?h = "h0\<lparr>m_heap_address := a, m_heap_size := sz, m_num_blocks := 7\<rparr>"
  let ?s = "\<Sum>i \<leftarrow> [0..<7]. Block_CalculateManagementOverheadSize sz (shift i) (next_shift MemoryBlockPageShifts i)"
  have seven: "length MemoryBlockPageShifts = 7" by (simp add: MemoryBlockPageShifts_def)
  obtain st h where init: "initialize_blocks MemoryBlockPageShifts [0..<7] ma ?h = (st, h)"
    by (cases "initialize_blocks MemoryBlockPageShifts [0..<7] ma ?h")
  have "?s \<le> ms * 8"
    using assms AlignUp_ge [of ?s PageSize] unfolding KPageHeap_CalculateManagementOverheadSize_def seven by linarith
  moreover have "st * 8 \<le> ma * 8 + ?s"
    using initialize_blocks_storage [OF _ init] by (simp add: atLeast0LessThan)
  ultimately have "st \<le> ma + ms" by linarith
  then show ?thesis
    using init unfolding KPageHeap_Initialize_def seven Let_def by simp
qed

section \<open>Runs of the heap\<close>

text \<open>The heap and the bytes its callers hold. A caller gives back pages it holds; a request is for one
  block of a size index.\<close>

datatype heap_event = Given nat nat | Taken nat nat | Refused nat

inductive heap_step :: "('r \<Rightarrow> u32 \<times> 'r) \<Rightarrow> 'r KPageHeap \<times> nat set \<Rightarrow> heap_event \<Rightarrow> 'r KPageHeap \<times> nat set \<Rightarrow> bool"
  for gen where
  given: "PageSize dvd x \<Longrightarrow> {x..<x + n * PageSize} \<subseteq> H \<Longrightarrow>
    heap_step gen (h, H) (Given x n) (KPageHeap_Free x n h, H - {x..<x + n * PageSize})"
| taken: "j < NumMemoryBlockPageShifts \<Longrightarrow> AllocateBlock gen j random h = (x, h') \<Longrightarrow> x \<noteq> 0 \<Longrightarrow>
    heap_step gen (h, H) (Taken j x) (h', H \<union> {x..<x + GetBlockSize j})"
| refused: "j < NumMemoryBlockPageShifts \<Longrightarrow> AllocateBlock gen j random h = (0, h') \<Longrightarrow>
    heap_step gen (h, H) (Refused j) (h', H)"

text \<open>The allocator of a region \<open>R\<close> that knows only which bytes are held.\<close>

inductive region_step :: "nat set \<Rightarrow> nat set \<Rightarrow> heap_event \<Rightarrow> nat set \<Rightarrow> bool" for R where
  region_given: "PageSize dvd x \<Longrightarrow> {x..<x + n * PageSize} \<subseteq> H \<Longrightarrow>
    region_step R H (Given x n) (H - {x..<x + n * PageSize})"
| region_taken: "GetBlockSize j dvd x \<Longrightarrow> {x..<x + GetBlockSize j} \<subseteq> R - H \<Longrightarrow>
    region_step R H (Taken j x) (H \<union> {x..<x + GetBlockSize j})"
| region_refused: "\<not> (\<exists>x. GetBlockSize j dvd x \<and> {x..<x + GetBlockSize j} \<subseteq> R - H) \<Longrightarrow>
    region_step R H (Refused j) H"

definition heap_holds :: "nat \<Rightarrow> nat \<Rightarrow> 'r KPageHeap \<times> nat set \<Rightarrow> bool" where
  "heap_holds a sz s \<longleftrightarrow> m_heap_address (fst s) = a \<and> m_heap_size (fst s) = sz \<and> snd s \<subseteq> {a..<a + sz} \<and>
     (\<exists>L S. heap_inv (fst s) L S \<and> free_set (fst s) S = {a..<a + sz} - snd s)"

lemma heap_holdsI:
  assumes "heap_inv h L S" "m_heap_address h = a" "m_heap_size h = sz" "H \<subseteq> {a..<a + sz}"
    "free_bytes a S = {a..<a + sz} - H"
  shows "heap_holds a sz (h, H)"
  using assms by (auto simp: heap_holds_def)

lemma heap_step_region:
  assumes "heap_step gen s e s'" "heap_holds a sz s"
  shows "heap_holds a sz s' \<and> region_step {a..<a + sz} (snd s) e (snd s')"
  using assms
proof (cases rule: heap_step.cases)
  case (given x n H h)
  from assms(2) obtain L S where inv: "heap_inv h L S" and at: "m_heap_address h = a" "m_heap_size h = sz"
    and H: "H \<subseteq> {a..<a + sz}" and F: "free_bytes a S = {a..<a + sz} - H"
    by (auto simp: heap_holds_def given(1))
  have "{x..<x + n * PageSize} \<subseteq> {a..<a + sz}" "{x..<x + n * PageSize} \<inter> free_bytes a S = {}"
    using given(5) H unfolding F by blast+
  then have "freed h L S {x..<x + n * PageSize} (KPageHeap_Free x n h)"
    by (intro Free_freed [OF inv given(4)]) (simp_all only: at)
  from freedE [OF this] obtain S' where S': "heap_inv (KPageHeap_Free x n h) L S'"
    "free_set (KPageHeap_Free x n h) S' = free_set h S \<union> {x..<x + n * PageSize}"
    "m_heap_address (KPageHeap_Free x n h) = a" "m_heap_size (KPageHeap_Free x n h) = sz"
    by (metis at)
  have "free_bytes a S' = {a..<a + sz} - (H - {x..<x + n * PageSize})"
    using S'(2) F H given(5) unfolding S'(3) at by blast
  then have "heap_holds a sz (KPageHeap_Free x n h, H - {x..<x + n * PageSize})"
    using H by (intro heap_holdsI [OF S'(1,3,4)]) auto
  then show ?thesis
    using given region_given by simp
next
  case (taken j random h x h' H)
  from assms(2) obtain L S where inv: "heap_inv h L S" and at: "m_heap_address h = a" "m_heap_size h = sz"
    and H: "H \<subseteq> {a..<a + sz}" and F: "free_bytes a S = {a..<a + sz} - H"
    by (auto simp: heap_holds_def taken(1))
  have j: "j < 7" using taken(4) by (simp add: NumMemoryBlockPageShifts_def)
  note A = AllocateBlock_spec [OF inv j taken(5)]
  from A(3) [OF taken(6)] obtain S' where x: "2 ^ shift j dvd x" "extent j x \<subseteq> free_bytes a S"
    and S': "heap_inv h' L S'" "free_bytes a S' = free_bytes a S - extent j x"
    unfolding at by blast
  have "heap_holds a sz (h', H \<union> extent j x)"
    using A(4,5) at x(2) H F S'(2) by (intro heap_holdsI [OF S'(1)]) auto
  moreover have "region_step {a..<a + sz} H (Taken j x) (H \<union> extent j x)"
    using region_taken [of j x "{a..<a + sz}" H] x F by (simp add: GetBlockSize_def extent_def)
  ultimately show ?thesis
    using taken(1-3) by (simp add: GetBlockSize_def extent_def)
next
  case (refused j random h h' H)
  from assms(2) obtain L S where inv: "heap_inv h L S" and at: "m_heap_address h = a" "m_heap_size h = sz"
    and H: "H \<subseteq> {a..<a + sz}" and F: "free_bytes a S = {a..<a + sz} - H"
    by (auto simp: heap_holds_def refused(1))
  have j: "j < 7" using refused(4) by (simp add: NumMemoryBlockPageShifts_def)
  note A = AllocateBlock_spec [OF inv j refused(5)]
  have "heap_holds a sz (h', H)"
    using A(2,4,5) at H F by (intro heap_holdsI) auto
  moreover have "region_step {a..<a + sz} H (Refused j) H"
    using A(1) F at by (intro region_refused) (simp add: GetBlockSize_def extent_def)
  ultimately show ?thesis
    using refused(1-3) by simp
qed

lemma heap_runs_region:
  assumes "runs (heap_step gen) s es s'" "heap_holds a sz s"
  shows "heap_holds a sz s' \<and> runs (region_step {a..<a + sz}) (snd s) es (snd s')"
  using assms
proof (induction rule: runs.induct)
  case (runs_cons s e t es u)
  then show ?case
    using heap_step_region [OF runs_cons(1)] by (blast intro: runs.runs_cons)
qed (auto intro: runs.runs_nil)

lemma Initialize_heap_holds:
  assumes "0 < a" "0 < sz" "sz \<le> 2 ^ 35" "length (m_blocks h0) = 7"
    "\<And>b. b \<in> set (m_blocks h0) \<Longrightarrow> length (m_bit_storages (m_bitmap b)) = MaxDepth"
    "\<And>w. ma \<le> w \<Longrightarrow> w < ma + ms \<Longrightarrow> management h0 w = 0"
    "KPageHeap_Initialize a sz ma ms MemoryBlockPageShifts h0 = Some h"
  shows "heap_holds a sz (h, {a..<a + sz})"
proof -
  obtain L where inv: "heap_inv h L (\<lambda>_. {})" using Initialize_heap_inv(1) [OF assms] by blast
  show ?thesis
    by (intro heap_holdsI [OF inv] Initialize_heap_inv(2,3) [OF assms]) (simp_all add: family_empty(2))
qed

section \<open>A small heap\<close>

definition demo_block :: "unit Block" where
  "demo_block = \<lparr>m_bitmap = \<lparr>m_bit_storages = replicate MaxDepth 0,
     m_bitmap_rng = \<lparr>m_rng = (), m_entropy = 0, m_bits_available = 0\<rparr>, m_num_bits = 0, m_used_depths = 0\<rparr>,
     m_block_heap_address = 0, m_end_offset = 0, m_block_shift = 0, m_next_block_shift = 0\<rparr>"

definition demo_heap :: "unit KPageHeap" where
  "demo_heap = \<lparr>m_heap_address = 0, m_heap_size = 0, m_initial_used_size = 0, m_num_blocks = 0,
     m_blocks = replicate NumMemoryBlockPageShifts demo_block, management = (\<lambda>_. 0)\<rparr>"

lemma demo_heap_ok:
  "length (m_blocks demo_heap) = NumMemoryBlockPageShifts"
  "\<forall>b \<in> set (m_blocks demo_heap). length (m_bit_storages (m_bitmap b)) = MaxDepth"
  "\<forall>w. 0 \<le> w \<and> w < 0 + 512 \<longrightarrow> management demo_heap w = 0"
  by (simp_all add: demo_heap_def demo_block_def)

lemma demo_block_overhead:
  assumes "14 \<le> k" "s \<le> k" "block_align s n = 2 ^ k"
  shows "Block_CalculateManagementOverheadSize 0x4000 s n = KPageBitmap_CalculateManagementOverheadSize (3 * 2 ^ (k - s))"
proof -
  have "(2 :: nat) ^ 14 \<le> 2 ^ k" using assms(1) by (rule power_increasing) simp
  then have "(0x4000 + (2 ^ k - 1)) div 2 ^ k = Suc ((0x4000 - 1) div (2 :: nat) ^ k)" "(0x4000 - 1) div (2 :: nat) ^ k = 0"
    using div_add_self2 [of "2 ^ k" "0x4000 - 1 :: nat"] by (simp_all add: add.commute)
  then have "AlignUp 0x4000 (2 ^ k) = 2 ^ k"
    unfolding AlignUp_pow2 by simp
  moreover have "2 ^ k = 2 ^ (k - s) * (2 :: nat) ^ s"
    using assms(2) by (simp flip: power_add)
  ultimately show ?thesis
    by (simp add: Block_CalculateManagementOverheadSize_def assms(3))
qed

lemma demo_bitmap_overhead:
  "0 < n \<Longrightarrow> n < 64 \<Longrightarrow> KPageBitmap_CalculateManagementOverheadSize n = 8"
  "KPageBitmap_CalculateManagementOverheadSize 96 = 24"
proof -
  have one: "GetRequiredDepth m = 1" if "m < 64" for m
    using that by (simp add: GetRequiredDepth.simps [of m])
  have "GetRequiredDepth 96 = Suc 1"
    using one [of 1] by (simp add: GetRequiredDepth.simps [of 96])
  then show "KPageBitmap_CalculateManagementOverheadSize 96 = 24"
    by (simp add: KPageBitmap_CalculateManagementOverheadSize_def flip: words_for_def) (simp add: words_for_eq)
  show "KPageBitmap_CalculateManagementOverheadSize n = 8" if "0 < n" "n < 64"
    using one [OF that(2)] that
    by (simp add: KPageBitmap_CalculateManagementOverheadSize_def flip: words_for_def) (simp add: words_for_eq)
qed

lemma demo_overhead: "KPageHeap_CalculateManagementOverheadSize 0x4000 MemoryBlockPageShifts \<le> 512 * 8"
proof -
  have "(\<Sum>i \<leftarrow> [0..<7]. Block_CalculateManagementOverheadSize 0x4000 (shift i) (next_shift MemoryBlockPageShifts i)) = 72"
    by (simp add: upt_rec next_shift_def MemoryBlockPageShifts_def demo_block_overhead [of 16]
        demo_block_overhead [of 21] demo_block_overhead [of 22] demo_block_overhead [of 25]
        demo_block_overhead [of 29] demo_block_overhead [of 30] block_align_def demo_bitmap_overhead)
  moreover have "length MemoryBlockPageShifts = 7" by (simp add: MemoryBlockPageShifts_def)
  ultimately show ?thesis
    using AlignUp_less [of 72 PageSize]
    by (simp add: KPageHeap_CalculateManagementOverheadSize_def PageSize_def AlignUp_def)
qed

section \<open>Properties\<close>

text \<open>
  C39. Initialized on a management area of the size \<^verbatim>\<open>CalculateManagementOverheadSize\<close> computes, the page
  heap does not abort, and every sequence of \<^verbatim>\<open>Free\<close> (of pages the caller holds) and \<^verbatim>\<open>AllocateBlock\<close>, with
  or without random selection, behaves as an allocator that keeps only the set of held bytes: an
  allocated block is aligned to its size, lies in the region and overlaps nothing held, a request is
  refused only when no aligned block of that size is free (whatever splitting and merging took place),
  and \<^verbatim>\<open>GetFreeSize\<close> is the number of bytes not held.
\<close>

theorem page_heap_refines_region:
  assumes "0 < a" "0 < sz" "sz \<le> 2 ^ 35" "length (m_blocks h0) = NumMemoryBlockPageShifts"
    "\<forall>b \<in> set (m_blocks h0). length (m_bit_storages (m_bitmap b)) = MaxDepth"
    "\<forall>w. ma \<le> w \<and> w < ma + ms \<longrightarrow> management h0 w = 0"
    "KPageHeap_CalculateManagementOverheadSize sz MemoryBlockPageShifts \<le> ms * 8"
  shows "\<exists>h. KPageHeap_Initialize a sz ma ms MemoryBlockPageShifts h0 = Some h \<and>
    (\<forall>es h' H'. runs (heap_step gen) (h, {a..<a + sz}) es (h', H') \<longrightarrow>
       runs (region_step {a..<a + sz}) {a..<a + sz} es H' \<and> H' \<subseteq> {a..<a + sz} \<and>
       GetFreeSize h' = int (card ({a..<a + sz} - H')))"
proof -
  obtain h where init: "KPageHeap_Initialize a sz ma ms MemoryBlockPageShifts h0 = Some h"
    using Initialize_succeeds [OF assms(7)] by blast
  have "heap_holds a sz (h, {a..<a + sz})"
    using assms(4-6) by (intro Initialize_heap_holds [OF assms(1-3) _ _ _ init]) (auto simp: NumMemoryBlockPageShifts_def)
  from heap_runs_region [OF _ this, where gen = gen] show ?thesis
    using init by (fastforce simp: heap_holds_def GetFreeSize_card)
qed

theorem page_heap_refines_region_witness:
  "\<exists>h. KPageHeap_Initialize 0x80000000 0x4000 0 512 MemoryBlockPageShifts demo_heap = Some h \<and>
     GetFreeSize (KPageHeap_Free 0x80000000 2 h) = 0x2000"
proof -
  let ?R = "{0x80000000..<0x80000000 + 0x4000 :: nat}" and ?P = "{0x80000000..<0x80000000 + 2 * PageSize}"
  obtain h where init: "KPageHeap_Initialize 0x80000000 0x4000 0 512 MemoryBlockPageShifts demo_heap = Some h"
    and ok: "\<forall>es h' H'. runs (heap_step (Pair 0)) (h, ?R) es (h', H') \<longrightarrow>
      runs (region_step ?R) ?R es H' \<and> H' \<subseteq> ?R \<and> GetFreeSize h' = int (card (?R - H'))"
    using page_heap_refines_region [where a = "0x80000000" and gen = "Pair 0", OF _ _ _ demo_heap_ok demo_overhead] by auto
  have "heap_step (Pair 0) (h, ?R) (Given 0x80000000 2) (KPageHeap_Free 0x80000000 2 h, ?R - ?P)"
    by (rule given) (simp_all add: PageSize_def)
  then have "runs (heap_step (Pair 0)) (h, ?R) [Given 0x80000000 2] (KPageHeap_Free 0x80000000 2 h, ?R - ?P)"
    by (blast intro: runs_cons runs_nil)
  then have "GetFreeSize (KPageHeap_Free 0x80000000 2 h) = int (card (?R - (?R - ?P)))"
    using ok by blast
  moreover have "?R - (?R - ?P) = ?P"
    by (auto simp: PageSize_def)
  ultimately show ?thesis
    using init by (simp add: PageSize_def)
qed

end
