(* ===== verification/Kern_PageGroup.thy ===== *)
theory Kern_PageGroup
  imports Kern_PageHeap
begin

text \<open>
  Page groups (\<^verbatim>\<open>KPageGroup\<close>, \<^verbatim>\<open>kern_k_page_group.hpp\<close> and \<^verbatim>\<open>kern_k_page_group.cpp\<close>): a list of physical
  memory blocks in nodes of a \<^verbatim>\<open>KBlockInfoManager\<close>. The linked list from \<^verbatim>\<open>m_first_block\<close> to
  \<^verbatim>\<open>m_last_block\<close> is the list of its nodes, each with its address. The node allocator is the pair of
  functions \<open>alloc\<close> and \<open>free\<close> on its state; \<open>alloc\<close> returns \<open>0\<close> when no node is left.
\<close>

section \<open>Blocks\<close>

record KBlockInfo =
  m_page_index :: u32
  m_num_pages :: u32

definition KBlockInfo_Initialize :: "nat \<Rightarrow> nat \<Rightarrow> KBlockInfo" where
  "KBlockInfo_Initialize addr np = \<lparr>m_page_index = of_nat (addr div PageSize), m_num_pages = of_nat np\<rparr>"

definition KBlockInfo_GetAddress :: "KBlockInfo \<Rightarrow> nat" where
  "KBlockInfo_GetAddress b = unat (m_page_index b) * PageSize"

definition KBlockInfo_GetNumPages :: "KBlockInfo \<Rightarrow> nat" where
  "KBlockInfo_GetNumPages b = unat (m_num_pages b)"

definition KBlockInfo_GetSize :: "KBlockInfo \<Rightarrow> nat" where
  "KBlockInfo_GetSize b = KBlockInfo_GetNumPages b * PageSize"

text \<open>The sum of the two fields is a \<^verbatim>\<open>u32\<close>.\<close>

definition KBlockInfo_GetEndAddress :: "KBlockInfo \<Rightarrow> nat" where
  "KBlockInfo_GetEndAddress b = unat (m_page_index b + m_num_pages b) * PageSize"

definition KBlockInfo_IsEquivalentTo :: "KBlockInfo \<Rightarrow> KBlockInfo \<Rightarrow> bool" where
  "KBlockInfo_IsEquivalentTo l r \<longleftrightarrow> m_page_index l = m_page_index r \<and> m_num_pages l = m_num_pages r"

definition IsStrictlyBefore :: "KBlockInfo \<Rightarrow> nat \<Rightarrow> bool" where
  "IsStrictlyBefore b addr \<longleftrightarrow>
     (let stop = KBlockInfo_GetEndAddress b in if m_page_index b \<noteq> 0 \<and> stop = 0 then False else stop < addr)"

definition TryConcatenate :: "nat \<Rightarrow> nat \<Rightarrow> KBlockInfo \<Rightarrow> KBlockInfo option" where
  "TryConcatenate addr np b =
     (if addr \<noteq> 0 \<and> addr = KBlockInfo_GetEndAddress b
      then Some (b\<lparr>m_num_pages := m_num_pages b + of_nat np\<rparr>) else None)"

section \<open>Groups\<close>

type_synonym KPageGroup = "(nat \<times> KBlockInfo) list"

datatype mm_error = OutOfMemory | OutOfResource | Busy

definition AddBlock :: "('n \<Rightarrow> nat \<times> 'n) \<Rightarrow> nat \<Rightarrow> nat \<Rightarrow> KPageGroup \<Rightarrow> 'n \<Rightarrow> (mm_error + unit) \<times> KPageGroup \<times> 'n" where
  "AddBlock alloc addr num_pages g ns =
     (if num_pages = 0 then (Inr (), g, ns)
      else
        (case (if g = [] then None else TryConcatenate addr num_pages (snd (last g))) of
           Some b \<Rightarrow> (Inr (), butlast g @ [(fst (last g), b)], ns)
         | None \<Rightarrow>
             (let (new_block, ns) = alloc ns
              in if new_block = 0 then (Inl OutOfResource, g, ns)
                 else (Inr (), g @ [(new_block, KBlockInfo_Initialize addr num_pages)], ns))))"

definition KPageGroup_Finalize :: "(nat \<Rightarrow> 'n \<Rightarrow> 'n) \<Rightarrow> KPageGroup \<Rightarrow> 'n \<Rightarrow> KPageGroup \<times> 'n" where
  "KPageGroup_Finalize free g ns = ([], fold (\<lambda>(node, _). free node) g ns)"

definition KPageGroup_GetNumPages :: "KPageGroup \<Rightarrow> nat" where
  "KPageGroup_GetNumPages g = (\<Sum>(_, b) \<leftarrow> g. KBlockInfo_GetNumPages b)"

fun KPageGroup_IsEquivalentTo :: "KPageGroup \<Rightarrow> KPageGroup \<Rightarrow> bool" where
  "KPageGroup_IsEquivalentTo ((_, b) # g) ((_, c) # h) =
     (if \<not> KBlockInfo_IsEquivalentTo b c then False else KPageGroup_IsEquivalentTo g h)"
| "KPageGroup_IsEquivalentTo g h \<longleftrightarrow> g = [] \<and> h = []"

section \<open>The pages of a group\<close>

text \<open>Blocks are below \<open>2 ^ 44\<close>, where page numbers fit \<^verbatim>\<open>u32\<close>.\<close>

definition block_pages :: "KBlockInfo \<Rightarrow> nat list" where
  "block_pages b = [unat (m_page_index b)..<unat (m_page_index b) + unat (m_num_pages b)]"

definition block_ok :: "KBlockInfo \<Rightarrow> bool" where
  "block_ok b \<longleftrightarrow> 0 < m_num_pages b \<and> unat (m_page_index b) + unat (m_num_pages b) < 2 ^ 32"

definition group_pages :: "KPageGroup \<Rightarrow> nat list" where
  "group_pages g = concat (map (block_pages \<circ> snd) g)"

definition group_ok :: "KPageGroup \<Rightarrow> bool" where
  "group_ok g \<longleftrightarrow> (\<forall>(_, b) \<in> set g. block_ok b)"

lemma length_group_pages: "length (group_pages g) = KPageGroup_GetNumPages g"
  by (induction g) (auto simp: group_pages_def KPageGroup_GetNumPages_def block_pages_def KBlockInfo_GetNumPages_def)

lemma group_pages_simps [simp]:
  "group_pages [] = []" "group_pages (x # g) = block_pages (snd x) @ group_pages g"
  "group_pages (g @ g') = group_pages g @ group_pages g'"
  by (simp_all add: group_pages_def)

lemma group_ok_simps [simp]:
  "group_ok []" "group_ok (x # g) \<longleftrightarrow> block_ok (snd x) \<and> group_ok g" "group_ok (g @ g') \<longleftrightarrow> group_ok g \<and> group_ok g'"
  by (auto simp: group_ok_def)

lemma block_end:
  assumes "block_ok b"
  shows "unat (m_page_index b + m_num_pages b) = unat (m_page_index b) + unat (m_num_pages b)"
  using assms by (subst unat_add_lem [THEN iffD1]) (simp_all add: block_ok_def)

lemma Initialize_block:
  assumes "PageSize dvd addr" "0 < np" "addr + np * PageSize < 2 ^ 44"
  shows "block_ok (KBlockInfo_Initialize addr np)"
    "block_pages (KBlockInfo_Initialize addr np) = [addr div PageSize..<addr div PageSize + np]"
proof -
  obtain k where k: "addr = PageSize * k" using assms(1) by (rule dvdE)
  have "(k + np) * PageSize < 2 ^ 32 * PageSize"
    using assms(3) by (simp add: k PageSize_def algebra_simps)
  then have b: "k + np < 2 ^ 32"
    by (simp add: PageSize_def)
  have d: "addr div PageSize = k"
    by (simp add: k PageSize_def)
  have u: "unat (of_nat k :: u32) = k" "unat (of_nat np :: u32) = np"
    using b by (simp_all add: unat_of_nat take_bit_nat_eq_self_iff)
  have "(of_nat np :: u32) \<noteq> 0"
    using u(2) assms(2) by auto
  then show "block_ok (KBlockInfo_Initialize addr np)"
    using b u by (simp add: block_ok_def KBlockInfo_Initialize_def d word_greater_zero_iff)
  show "block_pages (KBlockInfo_Initialize addr np) = [addr div PageSize..<addr div PageSize + np]"
    by (simp add: block_pages_def KBlockInfo_Initialize_def d u)
qed

lemma TryConcatenate_pages:
  assumes "block_ok b" "TryConcatenate addr np b = Some b'" "addr + np * PageSize < 2 ^ 44"
  shows "block_ok b'" "block_pages b' = block_pages b @ [addr div PageSize..<addr div PageSize + np]"
    "PageSize dvd addr"
proof -
  have a: "addr = unat (m_page_index b + m_num_pages b) * PageSize"
    and b': "b' = b\<lparr>m_num_pages := m_num_pages b + of_nat np\<rparr>"
    using assms(2) by (simp_all add: TryConcatenate_def KBlockInfo_GetEndAddress_def split: if_splits)
  let ?i = "unat (m_page_index b)" and ?n = "unat (m_num_pages b)"
  have d: "addr div PageSize = ?i + ?n"
    using a block_end [OF assms(1)] by (simp add: PageSize_def)
  have "(?i + ?n + np) * PageSize < 2 ^ 32 * PageSize"
    using assms(3) a block_end [OF assms(1)] by (simp add: PageSize_def algebra_simps)
  then have lt: "?i + ?n + np < 2 ^ 32"
    by (simp add: PageSize_def)
  then have np: "unat (of_nat np :: u32) = np"
    by (simp add: unat_of_nat take_bit_nat_eq_self_iff)
  have sum: "unat (m_num_pages b + of_nat np) = ?n + np"
    using lt np by (subst unat_add_lem [THEN iffD1]) simp_all
  show "block_ok b'"
    using assms(1) lt sum by (auto simp: block_ok_def b' word_gt_0 unat_eq_0 [symmetric] add_ac)
  have "[?i..<?i + (?n + np)] = [?i..<?i + ?n] @ [?i + ?n..<?i + ?n + np]"
    using upt_add_eq_append [of ?i "?i + ?n" np] by (simp add: add.assoc)
  then show "block_pages b' = block_pages b @ [addr div PageSize..<addr div PageSize + np]"
    by (simp add: block_pages_def b' sum d)
  show "PageSize dvd addr"
    by (simp add: a)
qed

text \<open>Adding a block appends its pages, merged into the last block or in a new one, or the node allocator
  is exhausted and the group is as before.\<close>

lemma AddBlock_pages:
  assumes "group_ok g" "PageSize dvd addr" "0 < np" "addr + np * PageSize < 2 ^ 44"
    "AddBlock alloc addr np g ns = (r, g', ns')"
  shows "r = Inr () \<Longrightarrow> group_ok g' \<and> group_pages g' = group_pages g @ [addr div PageSize..<addr div PageSize + np]"
    "r \<noteq> Inr () \<Longrightarrow> r = Inl OutOfResource \<and> g' = g \<and> fst (alloc ns) = 0"
proof -
  note I = Initialize_block [OF assms(2-4)]
  show "group_ok g' \<and> group_pages g' = group_pages g @ [addr div PageSize..<addr div PageSize + np]" if "r = Inr ()"
  proof (cases "if g = [] then None else TryConcatenate addr np (snd (last g))")
    case None
    then show ?thesis
      using assms(1,3,5) that I by (auto simp: AddBlock_def split: prod.splits if_splits)
  next
    case (Some b)
    then have ne: "g \<noteq> []" and t: "TryConcatenate addr np (snd (last g)) = Some b"
      by (simp_all split: if_splits)
    have split: "g = butlast g @ [last g]" using ne by simp
    have ok: "group_ok (butlast g)" "block_ok (snd (last g))"
      using assms(1) by (subst (asm) split, simp)+
    have g': "g' = butlast g @ [(fst (last g), b)]"
      using assms(3,5) ne t by (simp add: AddBlock_def)
    have "group_pages g = group_pages (butlast g) @ block_pages (snd (last g))"
      by (subst split) simp
    then show ?thesis
      using TryConcatenate_pages [OF ok(2) t assms(4)] ok(1) by (simp add: g')
  qed
  show "r = Inl OutOfResource \<and> g' = g \<and> fst (alloc ns) = 0" if "r \<noteq> Inr ()"
    using assms(3,5) that by (auto simp: AddBlock_def split: prod.splits if_splits option.splits)
qed

lemma IsEquivalentTo_pages: "KPageGroup_IsEquivalentTo g h \<longleftrightarrow> map snd g = map snd h"
proof (induction g h rule: KPageGroup_IsEquivalentTo.induct)
  case (1 x b g y c h)
  then show ?case
    by (auto simp: KBlockInfo_IsEquivalentTo_def KBlockInfo.equality)
qed auto

end
