(* ===== verification/Kern_MemoryManager.thy ===== *)
theory Kern_MemoryManager
  imports Kern_PageGroup "HOL-Library.Monad_Syntax"
begin

text \<open>
  The memory manager (\<^verbatim>\<open>KMemoryManager\<close>, \<^verbatim>\<open>kern_k_memory_manager.hpp\<close> and \<^verbatim>\<open>kern_k_memory_manager.cpp\<close>):
  physical memory in up to ten regions, each with a page heap, a reference count per page and a
  bitmap of the pages that belong to an optimized process. \<open>None\<close> stands for an abort, an access
  outside an array or a loop that makes no progress. The parts of a manager's management area (the
  bitmap, the counts and the area of its heap) are separate fields. Pointers to managers are their
  indices.
\<close>

section \<open>Pools, options and the memory layout\<close>

type_synonym Pool = nat
type_synonym Direction = nat

definition Pool_Application :: Pool where "Pool_Application = 0"

definition Pool_Applet :: Pool where "Pool_Applet = 1"

definition Pool_System :: Pool where "Pool_System = 2"

definition Pool_SystemNonSecure :: Pool where "Pool_SystemNonSecure = 3"

definition Pool_Count :: nat where "Pool_Count = 4"

definition Direction_FromFront :: Direction where "Direction_FromFront = 0"

definition Direction_FromBack :: Direction where "Direction_FromBack = 1"

definition MaxManagerCount :: nat where "MaxManagerCount = 10"

definition EncodeOption :: "Pool \<Rightarrow> Direction \<Rightarrow> u32" where
  "EncodeOption pool dir = push_bit 4 (of_nat pool) OR push_bit 0 (of_nat dir)"

definition DecodeOption :: "u32 \<Rightarrow> Pool \<times> Direction" where
  "DecodeOption option =
     (unat (drop_bit 4 (option AND push_bit 4 0xF)), unat (drop_bit 0 (option AND push_bit 0 0xF)))"

record KMemoryRegion =
  m_address :: nat
  m_last_address :: nat
  m_attributes :: u32
  m_type_id :: u32

definition KMemoryRegion_GetEndAddress :: "KMemoryRegion \<Rightarrow> nat" where
  "KMemoryRegion_GetEndAddress r = m_last_address r + 1"

definition KMemoryRegion_GetSize :: "KMemoryRegion \<Rightarrow> nat" where
  "KMemoryRegion_GetSize r = KMemoryRegion_GetEndAddress r - m_address r"

definition KMemoryRegion_Contains :: "KMemoryRegion \<Rightarrow> nat \<Rightarrow> bool" where
  "KMemoryRegion_Contains r address \<longleftrightarrow> m_address r \<le> address \<and> address \<le> m_last_address r"

definition IsDerivedFrom :: "u32 \<Rightarrow> u32 \<Rightarrow> bool" where
  "IsDerivedFrom type' type \<longleftrightarrow> type' OR type = type'"

text \<open>The values of the region types, as the source asserts them.\<close>

definition KMemoryRegionType_DramUserPool :: u32 where
  "KMemoryRegionType_DramUserPool = 0x1A6 OR 0x80000000 OR 0x40000000"

definition KMemoryRegionType_DramApplicationPool :: u32 where
  "KMemoryRegionType_DramApplicationPool = 0x7A6 OR 0x80000000 OR 0x40000000"

definition KMemoryRegionType_DramAppletPool :: u32 where
  "KMemoryRegionType_DramAppletPool = 0xBA6 OR 0x80000000 OR 0x40000000"

definition KMemoryRegionType_DramSystemNonSecurePool :: u32 where
  "KMemoryRegionType_DramSystemNonSecurePool = 0xDA6 OR 0x80000000 OR 0x40000000"

definition KMemoryRegionType_DramSystemPool :: u32 where
  "KMemoryRegionType_DramSystemPool = 0x13A6 OR 0x80000000 OR 0x40000000 OR 0x02000000"

definition GetPoolFromMemoryRegionType :: "u32 \<Rightarrow> Pool option" where
  "GetPoolFromMemoryRegionType type =
     (if IsDerivedFrom type KMemoryRegionType_DramApplicationPool then Some Pool_Application
      else if IsDerivedFrom type KMemoryRegionType_DramAppletPool then Some Pool_Applet
      else if IsDerivedFrom type KMemoryRegionType_DramSystemPool then Some Pool_System
      else if IsDerivedFrom type KMemoryRegionType_DramSystemNonSecurePool then Some Pool_SystemNonSecure
      else None)"

text \<open>The region trees in address order.\<close>

record KMemoryLayout =
  s_physical_tree :: "KMemoryRegion list"
  s_physical_linear_tree :: "KMemoryRegion list"

definition GetPhysicalLinearRegion :: "KMemoryLayout \<Rightarrow> nat \<Rightarrow> KMemoryRegion option" where
  "GetPhysicalLinearRegion lay address = find (\<lambda>r. KMemoryRegion_Contains r address) (s_physical_linear_tree lay)"

section \<open>One region\<close>

record 'r Impl =
  m_heap :: "'r KPageHeap"
  m_page_reference_counts :: "nat \<Rightarrow> u16"
  m_optimize_map :: words
  m_management_region :: nat
  m_pool :: Pool
  m_next :: "nat option"
  m_prev :: "nat option"

definition CalculateOptimizedProcessOverheadSize :: "nat \<Rightarrow> nat" where
  "CalculateOptimizedProcessOverheadSize region_size = AlignUp (region_size div PageSize) 64 div 64 * 8"

definition Impl_CalculateManagementOverheadSize :: "nat \<Rightarrow> nat" where
  "Impl_CalculateManagementOverheadSize region_size =
     (let ref_count_size = region_size div PageSize * 2;
          optimize_map_size = AlignUp (region_size div PageSize) 64 div 64 * 8;
          manager_meta_size = AlignUp (optimize_map_size + ref_count_size) PageSize;
          page_heap_size = KPageHeap_CalculateManagementOverheadSize region_size MemoryBlockPageShifts
      in manager_meta_size + page_heap_size)"

definition Impl_Initialize :: "nat \<Rightarrow> nat \<Rightarrow> nat \<Rightarrow> nat \<Rightarrow> Pool \<Rightarrow> 'r Impl \<Rightarrow> (nat \<times> 'r Impl) option" where
  "Impl_Initialize address sz management_start management_end p I =
     (let ref_count_size = sz div PageSize * 2;
          optimize_map_size = CalculateOptimizedProcessOverheadSize sz;
          manager_size = AlignUp (optimize_map_size + ref_count_size) PageSize;
          page_heap_size = KPageHeap_CalculateManagementOverheadSize sz MemoryBlockPageShifts;
          total_management_size = manager_size + page_heap_size
      in if manager_size \<le> total_management_size \<and> management_start + total_management_size \<le> management_end \<and>
            PageSize dvd total_management_size \<and> PageSize dvd management_start
         then do {
           heap \<leftarrow> KPageHeap_Initialize address sz ((management_start + manager_size) div 8) (page_heap_size div 8)
                    MemoryBlockPageShifts (m_heap I);
           Some (total_management_size, I\<lparr>m_pool := p, m_management_region := management_start, m_heap := heap\<rparr>)
         }
         else None)"

definition Impl_AllocateBlock :: "('r \<Rightarrow> u32 \<times> 'r) \<Rightarrow> nat \<Rightarrow> bool \<Rightarrow> 'r Impl \<Rightarrow> nat \<times> 'r Impl" where
  "Impl_AllocateBlock gen index random I =
     (let (block, heap) = AllocateBlock gen index random (m_heap I) in (block, I\<lparr>m_heap := heap\<rparr>))"

definition Impl_Free :: "nat \<Rightarrow> nat \<Rightarrow> 'r Impl \<Rightarrow> 'r Impl" where
  "Impl_Free addr num_pages I = I\<lparr>m_heap := KPageHeap_Free addr num_pages (m_heap I)\<rparr>"

definition Impl_SetInitialUsedHeapSize :: "nat \<Rightarrow> 'r Impl \<Rightarrow> 'r Impl option" where
  "Impl_SetInitialUsedHeapSize reserved_size I =
     do { heap \<leftarrow> SetInitialUsedSize reserved_size (m_heap I); Some (I\<lparr>m_heap := heap\<rparr>) }"

definition Impl_InitializeOptimizedMemory :: "'r Impl \<Rightarrow> 'r Impl" where
  "Impl_InitializeOptimizedMemory I =
     I\<lparr>m_optimize_map := (\<lambda>w. if w < CalculateOptimizedProcessOverheadSize (m_heap_size (m_heap I)) div 8
                              then 0 else m_optimize_map I w)\<rparr>"

definition Impl_GetEndAddress :: "'r Impl \<Rightarrow> nat" where
  "Impl_GetEndAddress I = m_heap_address (m_heap I) + m_heap_size (m_heap I)"

definition GetPageOffset :: "'r Impl \<Rightarrow> nat \<Rightarrow> nat" where
  "GetPageOffset I address = (address - m_heap_address (m_heap I)) div PageSize"

definition GetPageOffsetToEnd :: "'r Impl \<Rightarrow> nat \<Rightarrow> nat" where
  "GetPageOffsetToEnd I address = (Impl_GetEndAddress I - address) div PageSize"

text \<open>The loops over the pages of a range; the first argument counts the pages that remain. The bitmap
  loops run to \<^verbatim>\<open>offset + num_pages - 1\<close> and are called with a positive number of pages.\<close>

fun open_first_loop :: "nat \<Rightarrow> nat \<Rightarrow> (nat \<Rightarrow> u16) \<Rightarrow> (nat \<Rightarrow> u16) option" where
  "open_first_loop 0 index rc = Some rc"
| "open_first_loop (Suc n) index rc =
     (let ref_count = rc index + 1; rc = rc(index := ref_count)
      in if ref_count = 1 then open_first_loop n (index + 1) rc else None)"

fun open_loop :: "nat \<Rightarrow> nat \<Rightarrow> (nat \<Rightarrow> u16) \<Rightarrow> (nat \<Rightarrow> u16) option" where
  "open_loop 0 index rc = Some rc"
| "open_loop (Suc n) index rc =
     (let ref_count = rc index + 1; rc = rc(index := ref_count)
      in if 1 < ref_count then open_loop n (index + 1) rc else None)"

fun close_loop :: "nat \<Rightarrow> nat \<Rightarrow> nat \<Rightarrow> nat \<Rightarrow> 'r Impl \<Rightarrow> 'r Impl option" where
  "close_loop 0 index free_start free_count I =
     Some (if 0 < free_count then Impl_Free (m_heap_address (m_heap I) + free_start * PageSize) free_count I else I)"
| "close_loop (Suc n) index free_start free_count I =
     (if 0 < m_page_reference_counts I index
      then (let ref_count = m_page_reference_counts I index - 1;
                I = I\<lparr>m_page_reference_counts := (m_page_reference_counts I)(index := ref_count)\<rparr>
            in if ref_count = 0
               then (if 0 < free_count then close_loop n (index + 1) free_start (free_count + 1) I
                     else close_loop n (index + 1) index 1 I)
               else if 0 < free_count
               then close_loop n (index + 1) free_start 0
                      (Impl_Free (m_heap_address (m_heap I) + free_start * PageSize) free_count I)
               else close_loop n (index + 1) free_start free_count I)
      else None)"

definition Impl_OpenFirst :: "nat \<Rightarrow> nat \<Rightarrow> 'r Impl \<Rightarrow> 'r Impl option" where
  "Impl_OpenFirst address num_pages I =
     do { rc \<leftarrow> open_first_loop num_pages (GetPageOffset I address) (m_page_reference_counts I);
          Some (I\<lparr>m_page_reference_counts := rc\<rparr>) }"

definition Impl_Open :: "nat \<Rightarrow> nat \<Rightarrow> 'r Impl \<Rightarrow> 'r Impl option" where
  "Impl_Open address num_pages I =
     do { rc \<leftarrow> open_loop num_pages (GetPageOffset I address) (m_page_reference_counts I);
          Some (I\<lparr>m_page_reference_counts := rc\<rparr>) }"

definition Impl_Close :: "nat \<Rightarrow> nat \<Rightarrow> 'r Impl \<Rightarrow> 'r Impl option" where
  "Impl_Close address num_pages I = close_loop num_pages (GetPageOffset I address) 0 0 I"

fun untrack_loop :: "nat \<Rightarrow> nat \<Rightarrow> words \<Rightarrow> words" where
  "untrack_loop 0 offset optimize_map = optimize_map"
| "untrack_loop (Suc n) offset optimize_map =
     untrack_loop n (offset + 1)
       (optimize_map(offset div 64 := optimize_map (offset div 64) AND NOT (push_bit (offset mod 64) 1)))"

fun track_loop :: "nat \<Rightarrow> nat \<Rightarrow> words \<Rightarrow> words" where
  "track_loop 0 offset optimize_map = optimize_map"
| "track_loop (Suc n) offset optimize_map =
     track_loop n (offset + 1)
       (optimize_map(offset div 64 := optimize_map (offset div 64) OR push_bit (offset mod 64) 1))"

definition TrackUnoptimizedAllocation :: "nat \<Rightarrow> nat \<Rightarrow> 'r Impl \<Rightarrow> 'r Impl" where
  "TrackUnoptimizedAllocation block num_pages I =
     I\<lparr>m_optimize_map := untrack_loop num_pages (GetPageOffset I block) (m_optimize_map I)\<rparr>"

definition TrackOptimizedAllocation :: "nat \<Rightarrow> nat \<Rightarrow> 'r Impl \<Rightarrow> 'r Impl" where
  "TrackOptimizedAllocation block num_pages I =
     I\<lparr>m_optimize_map := track_loop num_pages (GetPageOffset I block) (m_optimize_map I)\<rparr>"

text \<open>Physical memory by byte, through the linear mapping of the kernel.\<close>

type_synonym dram = "nat \<Rightarrow> u8"

definition memset :: "nat \<Rightarrow> u8 \<Rightarrow> nat \<Rightarrow> dram \<Rightarrow> dram" where
  "memset address pattern n mem = (\<lambda>x. if address \<le> x \<and> x < address + n then pattern else mem x)"

fun process_loop :: "nat \<Rightarrow> nat \<Rightarrow> u8 \<Rightarrow> 'r Impl \<Rightarrow> bool \<Rightarrow> dram \<Rightarrow> bool \<times> dram" where
  "process_loop 0 offset fill_pattern I any_new mem = (any_new, mem)"
| "process_loop (Suc n) offset fill_pattern I any_new mem =
     (if m_optimize_map I (offset div 64) AND push_bit (offset mod 64) 1 = 0
      then process_loop n (offset + 1) fill_pattern I True
             (memset (m_heap_address (m_heap I) + offset * PageSize) fill_pattern PageSize mem)
      else process_loop n (offset + 1) fill_pattern I any_new mem)"

definition ProcessOptimizedAllocation :: "nat \<Rightarrow> nat \<Rightarrow> u8 \<Rightarrow> 'r Impl \<Rightarrow> dram \<Rightarrow> bool \<times> dram" where
  "ProcessOptimizedAllocation block num_pages fill_pattern I mem =
     process_loop num_pages (GetPageOffset I block) fill_pattern I False mem"

section \<open>The manager\<close>

record 'r KMemoryManager =
  m_pool_managers_head :: "Pool \<Rightarrow> nat option"
  m_pool_managers_tail :: "Pool \<Rightarrow> nat option"
  m_managers :: "'r Impl list"
  m_num_managers :: nat
  m_optimized_process_ids :: "Pool \<Rightarrow> u64"
  m_has_optimized_process :: "Pool \<Rightarrow> bool"
  memory :: dram

definition GetManager :: "KMemoryLayout \<Rightarrow> nat \<Rightarrow> nat option" where
  "GetManager lay address = map_option (\<lambda>r. unat (m_attributes r)) (GetPhysicalLinearRegion lay address)"

definition GetFirstManager :: "Pool \<Rightarrow> Direction \<Rightarrow> 'r KMemoryManager \<Rightarrow> nat option" where
  "GetFirstManager pool dir mm =
     (if dir = Direction_FromBack then m_pool_managers_tail mm pool else m_pool_managers_head mm pool)"

definition GetNextManager :: "nat \<Rightarrow> Direction \<Rightarrow> 'r KMemoryManager \<Rightarrow> nat option" where
  "GetNextManager cur dir mm =
     (if dir = Direction_FromBack then m_prev (m_managers mm ! cur) else m_next (m_managers mm ! cur))"

text \<open>The managers that a loop over a pool visits. The links are set once, at initialization, and every
  manager is in one list, so that \<open>MaxManagerCount\<close> steps reach the last one.\<close>

fun manager_walk :: "nat \<Rightarrow> Direction \<Rightarrow> 'r KMemoryManager \<Rightarrow> nat option \<Rightarrow> nat list" where
  "manager_walk 0 dir mm cur = []"
| "manager_walk (Suc k) dir mm None = []"
| "manager_walk (Suc k) dir mm (Some i) = i # manager_walk k dir mm (GetNextManager i dir mm)"

definition pool_managers :: "Pool \<Rightarrow> Direction \<Rightarrow> 'r KMemoryManager \<Rightarrow> nat list" where
  "pool_managers pool dir mm = manager_walk MaxManagerCount dir mm (GetFirstManager pool dir mm)"

definition with_manager :: "nat \<Rightarrow> ('r Impl \<Rightarrow> 'r Impl) \<Rightarrow> 'r KMemoryManager \<Rightarrow> 'r KMemoryManager" where
  "with_manager i f mm = mm\<lparr>m_managers := (m_managers mm)[i := f (m_managers mm ! i)]\<rparr>"

definition try_manager :: "nat \<Rightarrow> ('r Impl \<Rightarrow> 'r Impl option) \<Rightarrow> 'r KMemoryManager \<Rightarrow> 'r KMemoryManager option" where
  "try_manager i f mm =
     do { I \<leftarrow> f (m_managers mm ! i); Some (mm\<lparr>m_managers := (m_managers mm)[i := I]\<rparr>) }"

definition manager_block :: "('r \<Rightarrow> u32 \<times> 'r) \<Rightarrow> nat \<Rightarrow> bool \<Rightarrow> nat \<Rightarrow> 'r KMemoryManager \<Rightarrow> nat \<times> 'r KMemoryManager" where
  "manager_block gen index random i mm =
     (let (block, I) = Impl_AllocateBlock gen index random (m_managers mm ! i)
      in (block, mm\<lparr>m_managers := (m_managers mm)[i := I]\<rparr>))"

definition InitializeOptimizedMemory :: "u64 \<Rightarrow> Pool \<Rightarrow> 'r KMemoryManager \<Rightarrow> (mm_error + unit) \<times> 'r KMemoryManager" where
  "InitializeOptimizedMemory process_id pool mm =
     (if m_has_optimized_process mm pool then (Inl Busy, mm)
      else
        (let mm = mm\<lparr>m_optimized_process_ids := (m_optimized_process_ids mm)(pool := process_id),
                     m_has_optimized_process := (m_has_optimized_process mm)(pool := True)\<rparr>
         in (Inr (), fold (\<lambda>i. with_manager i Impl_InitializeOptimizedMemory)
                       (pool_managers pool Direction_FromFront mm) mm)))"

definition FinalizeOptimizedMemory :: "u64 \<Rightarrow> Pool \<Rightarrow> 'r KMemoryManager \<Rightarrow> 'r KMemoryManager" where
  "FinalizeOptimizedMemory process_id pool mm =
     (if m_has_optimized_process mm pool \<and> m_optimized_process_ids mm pool = process_id
      then mm\<lparr>m_has_optimized_process := (m_has_optimized_process mm)(pool := False)\<rparr> else mm)"

text \<open>The loop that asks one manager of the pool after the other; the result is the block and its manager.\<close>

fun try_managers ::
    "('r \<Rightarrow> u32 \<times> 'r) \<Rightarrow> nat \<Rightarrow> nat list \<Rightarrow> 'r KMemoryManager \<Rightarrow> (nat \<times> nat) \<times> 'r KMemoryManager" where
  "try_managers gen heap_index [] mm = ((0, 0), mm)"
| "try_managers gen heap_index (i # is) mm =
     (let (allocated_block, mm) = manager_block gen heap_index True i mm
      in if allocated_block \<noteq> 0 then ((allocated_block, i), mm) else try_managers gen heap_index is mm)"

text \<open>A request for which there is no block size reads \<^verbatim>\<open>m_blocks[-1]\<close> of the first manager.\<close>

definition AllocateAndOpenContinuous ::
    "('r \<Rightarrow> u32 \<times> 'r) \<Rightarrow> nat \<Rightarrow> nat \<Rightarrow> u32 \<Rightarrow> 'r KMemoryManager \<Rightarrow> (nat \<times> 'r KMemoryManager) option" where
  "AllocateAndOpenContinuous gen num_pages align_pages option mm =
     (if num_pages = 0 then Some (0, mm)
      else
        (let (pool, dir) = DecodeOption option
         in case GetAlignedBlockIndex num_pages align_pages of
              None \<Rightarrow> if pool_managers pool dir mm = [] then Some (0, mm) else None
            | Some heap_index \<Rightarrow>
                (let ((allocated_block, i), mm) = try_managers gen heap_index (pool_managers pool dir mm) mm
                 in if allocated_block = 0 then Some (0, mm)
                    else
                      (let allocated_pages = GetBlockNumPages heap_index;
                           mm = (if num_pages < allocated_pages
                                 then with_manager i (Impl_Free (allocated_block + num_pages * PageSize)
                                        (allocated_pages - num_pages)) mm
                                 else mm);
                           mm = (if m_has_optimized_process mm pool
                                 then with_manager i (TrackUnoptimizedAllocation allocated_block num_pages) mm
                                 else mm)
                       in do { mm \<leftarrow> try_manager i (Impl_OpenFirst allocated_block num_pages) mm;
                               Some (allocated_block, mm) }))))"

section \<open>Page groups\<close>

text \<open>The inner loop of \<^verbatim>\<open>AllocatePageGroupImpl\<close>, on one manager; the result is the number of pages still to
  allocate.\<close>

function allocate_blocks ::
    "('r \<Rightarrow> u32 \<times> 'r) \<Rightarrow> ('n \<Rightarrow> nat \<times> 'n) \<Rightarrow> nat \<Rightarrow> bool \<Rightarrow> bool \<Rightarrow> nat \<Rightarrow> nat \<Rightarrow>
     KPageGroup \<times> 'n \<times> 'r KMemoryManager \<Rightarrow> (mm_error + nat) \<times> KPageGroup \<times> 'n \<times> 'r KMemoryManager" where
  "allocate_blocks gen alloc index unoptimized random i num_pages (g, ns, mm) =
     (let pages_per_alloc = GetBlockNumPages index
      in if pages_per_alloc \<le> num_pages \<and> 0 < pages_per_alloc
         then (let (allocated_block, mm) = manager_block gen index random i mm
               in if allocated_block = 0 then (Inr num_pages, g, ns, mm)
                  else
                    (case AddBlock alloc allocated_block pages_per_alloc g ns of
                       (Inl e, g, ns) \<Rightarrow>
                         (Inl e, g, ns, with_manager i (Impl_Free allocated_block pages_per_alloc) mm)
                     | (Inr _, g, ns) \<Rightarrow>
                         (let mm = (if unoptimized
                                    then with_manager i (TrackUnoptimizedAllocation allocated_block pages_per_alloc) mm
                                    else mm)
                          in allocate_blocks gen alloc index unoptimized random i (num_pages - pages_per_alloc)
                               (g, ns, mm))))
         else (Inr num_pages, g, ns, mm))"
  by pat_completeness auto
termination
  by (relation "measure (\<lambda>(_, _, _, _, _, _, n, _). n)") auto

declare allocate_blocks.simps [simp del]

fun allocate_managers ::
    "('r \<Rightarrow> u32 \<times> 'r) \<Rightarrow> ('n \<Rightarrow> nat \<times> 'n) \<Rightarrow> nat \<Rightarrow> bool \<Rightarrow> bool \<Rightarrow> nat list \<Rightarrow> nat \<Rightarrow>
     KPageGroup \<times> 'n \<times> 'r KMemoryManager \<Rightarrow> (mm_error + nat) \<times> KPageGroup \<times> 'n \<times> 'r KMemoryManager" where
  "allocate_managers gen alloc index unoptimized random [] num_pages s = (Inr num_pages, s)"
| "allocate_managers gen alloc index unoptimized random (i # is) num_pages s =
     (case allocate_blocks gen alloc index unoptimized random i num_pages s of
        (Inl e, s) \<Rightarrow> (Inl e, s)
      | (Inr num_pages, s) \<Rightarrow> allocate_managers gen alloc index unoptimized random is num_pages s)"

text \<open>The outer loop, from \<open>k - 1\<close> down.\<close>

fun allocate_sizes ::
    "('r \<Rightarrow> u32 \<times> 'r) \<Rightarrow> ('n \<Rightarrow> nat \<times> 'n) \<Rightarrow> bool \<Rightarrow> bool \<Rightarrow> nat list \<Rightarrow> nat \<Rightarrow> nat \<Rightarrow>
     KPageGroup \<times> 'n \<times> 'r KMemoryManager \<Rightarrow> (mm_error + nat) \<times> KPageGroup \<times> 'n \<times> 'r KMemoryManager" where
  "allocate_sizes gen alloc unoptimized random is 0 num_pages s = (Inr num_pages, s)"
| "allocate_sizes gen alloc unoptimized random is (Suc index) num_pages s =
     (if 0 < num_pages
      then (case allocate_managers gen alloc index unoptimized random is num_pages s of
              (Inl e, s) \<Rightarrow> (Inl e, s)
            | (Inr num_pages, s) \<Rightarrow> allocate_sizes gen alloc unoptimized random is index num_pages s)
      else (Inr num_pages, s))"

text \<open>What is undone on a failure.\<close>

fun free_blocks :: "KMemoryLayout \<Rightarrow> KPageGroup \<Rightarrow> 'r KMemoryManager \<Rightarrow> 'r KMemoryManager option" where
  "free_blocks lay [] mm = Some mm"
| "free_blocks lay ((_, b) # g) mm =
     do {
       i \<leftarrow> GetManager lay (KBlockInfo_GetAddress b);
       let num_pages = min (KBlockInfo_GetNumPages b)
             ((Impl_GetEndAddress (m_managers mm ! i) - KBlockInfo_GetAddress b) div PageSize);
       free_blocks lay g (with_manager i (Impl_Free (KBlockInfo_GetAddress b) num_pages) mm)
     }"

definition AllocatePageGroupImpl ::
    "KMemoryLayout \<Rightarrow> ('r \<Rightarrow> u32 \<times> 'r) \<Rightarrow> ('n \<Rightarrow> nat \<times> 'n) \<Rightarrow> (nat \<Rightarrow> 'n \<Rightarrow> 'n) \<Rightarrow> nat \<Rightarrow> Pool \<Rightarrow> Direction \<Rightarrow>
     bool \<Rightarrow> bool \<Rightarrow> KPageGroup \<times> 'n \<times> 'r KMemoryManager \<Rightarrow>
     ((mm_error + unit) \<times> KPageGroup \<times> 'n \<times> 'r KMemoryManager) option" where
  "AllocatePageGroupImpl lay gen alloc free num_pages pool dir unoptimized random s =
     (case GetBlockIndex num_pages of
        None \<Rightarrow> Some (Inl OutOfMemory, s)
      | Some heap_index \<Rightarrow>
          (let (r, g, ns, mm) = allocate_sizes gen alloc unoptimized random
                 (pool_managers pool dir (snd (snd s))) (Suc heap_index) num_pages s
           in if r = Inr 0 then Some (Inr (), g, ns, mm)
              else do {
                mm \<leftarrow> free_blocks lay g mm;
                let (g, ns) = KPageGroup_Finalize free g ns;
                Some (Inl (case r of Inl e \<Rightarrow> e | Inr _ \<Rightarrow> OutOfMemory), g, ns, mm)
              }))"

text \<open>The loop that splits a range of pages among the managers it lies in.\<close>

function for_managers ::
    "KMemoryLayout \<Rightarrow> (nat \<Rightarrow> nat \<Rightarrow> nat \<Rightarrow> 'r KMemoryManager \<Rightarrow> 'r KMemoryManager option) \<Rightarrow> nat \<Rightarrow> nat \<Rightarrow>
     'r KMemoryManager \<Rightarrow> 'r KMemoryManager option" where
  "for_managers lay f address num_pages mm =
     (if num_pages = 0 then Some mm
      else do {
        i \<leftarrow> GetManager lay address;
        let cur_pages = min num_pages (GetPageOffsetToEnd (m_managers mm ! i) address);
        if cur_pages = 0 then None
        else do {
          mm \<leftarrow> f i address cur_pages mm;
          for_managers lay f (address + cur_pages * PageSize) (num_pages - cur_pages) mm
        }
      })"
  by pat_completeness auto
termination
  by (relation "measure (\<lambda>(_, _, _, n, _). n)") auto

declare for_managers.simps [simp del]

fun for_blocks ::
    "KMemoryLayout \<Rightarrow> (nat \<Rightarrow> nat \<Rightarrow> nat \<Rightarrow> 'r KMemoryManager \<Rightarrow> 'r KMemoryManager option) \<Rightarrow> KPageGroup \<Rightarrow>
     'r KMemoryManager \<Rightarrow> 'r KMemoryManager option" where
  "for_blocks lay f [] mm = Some mm"
| "for_blocks lay f ((_, b) # g) mm =
     do { mm \<leftarrow> for_managers lay f (KBlockInfo_GetAddress b) (KBlockInfo_GetNumPages b) mm; for_blocks lay f g mm }"

definition open_first_pages :: "nat \<Rightarrow> nat \<Rightarrow> nat \<Rightarrow> 'r KMemoryManager \<Rightarrow> 'r KMemoryManager option" where
  "open_first_pages i address n = try_manager i (Impl_OpenFirst address n)"

definition KMemoryManager_Open :: "KMemoryLayout \<Rightarrow> nat \<Rightarrow> nat \<Rightarrow> 'r KMemoryManager \<Rightarrow> 'r KMemoryManager option" where
  "KMemoryManager_Open lay = for_managers lay (\<lambda>i address n. try_manager i (Impl_Open address n))"

definition KMemoryManager_Close :: "KMemoryLayout \<Rightarrow> nat \<Rightarrow> nat \<Rightarrow> 'r KMemoryManager \<Rightarrow> 'r KMemoryManager option" where
  "KMemoryManager_Close lay = for_managers lay (\<lambda>i address n. try_manager i (Impl_Close address n))"

definition KPageGroup_Open :: "KMemoryLayout \<Rightarrow> KPageGroup \<Rightarrow> 'r KMemoryManager \<Rightarrow> 'r KMemoryManager option" where
  "KPageGroup_Open lay = for_blocks lay (\<lambda>i address n. try_manager i (Impl_Open address n))"

definition KPageGroup_Close :: "KMemoryLayout \<Rightarrow> KPageGroup \<Rightarrow> 'r KMemoryManager \<Rightarrow> 'r KMemoryManager option" where
  "KPageGroup_Close lay = for_blocks lay (\<lambda>i address n. try_manager i (Impl_Close address n))"

definition KPageGroup_CloseAndReset ::
    "KMemoryLayout \<Rightarrow> (nat \<Rightarrow> 'n \<Rightarrow> 'n) \<Rightarrow> KPageGroup \<times> 'n \<times> 'r KMemoryManager \<Rightarrow>
     (KPageGroup \<times> 'n \<times> 'r KMemoryManager) option" where
  "KPageGroup_CloseAndReset lay free = (\<lambda>(g, ns, mm).
     do { mm \<leftarrow> KPageGroup_Close lay g mm; let (g, ns) = KPageGroup_Finalize free g ns; Some (g, ns, mm) })"

definition AllocateAndOpen ::
    "KMemoryLayout \<Rightarrow> ('r \<Rightarrow> u32 \<times> 'r) \<Rightarrow> ('n \<Rightarrow> nat \<times> 'n) \<Rightarrow> (nat \<Rightarrow> 'n \<Rightarrow> 'n) \<Rightarrow> nat \<Rightarrow> u32 \<Rightarrow>
     KPageGroup \<times> 'n \<times> 'r KMemoryManager \<Rightarrow> ((mm_error + unit) \<times> KPageGroup \<times> 'n \<times> 'r KMemoryManager) option" where
  "AllocateAndOpen lay gen alloc free num_pages option s =
     (if num_pages = 0 then Some (Inr (), s)
      else do {
        let (pool, dir) = DecodeOption option;
        (r, g, ns, mm) \<leftarrow> AllocatePageGroupImpl lay gen alloc free num_pages pool dir
          (m_has_optimized_process (snd (snd s)) pool) True s;
        case r of
          Inl e \<Rightarrow> Some (Inl e, g, ns, mm)
        | Inr _ \<Rightarrow> do { mm \<leftarrow> for_blocks lay open_first_pages g mm; Some (Inr (), g, ns, mm) }
      })"

text \<open>The loops of the optimized case: the fill, which keeps the answer of the last manager, and the
  tracking.\<close>

function fill_managers ::
    "KMemoryLayout \<Rightarrow> u8 \<Rightarrow> nat \<Rightarrow> nat \<Rightarrow> bool \<Rightarrow> 'r KMemoryManager \<Rightarrow> (bool \<times> 'r KMemoryManager) option" where
  "fill_managers lay fill_pattern address num_pages any_new mm =
     (if num_pages = 0 then Some (any_new, mm)
      else do {
        i \<leftarrow> GetManager lay address;
        let cur_pages = min num_pages (GetPageOffsetToEnd (m_managers mm ! i) address);
        if cur_pages = 0 then None
        else (let (any_new, mem) = ProcessOptimizedAllocation address cur_pages fill_pattern (m_managers mm ! i) (memory mm)
              in fill_managers lay fill_pattern (address + cur_pages * PageSize) (num_pages - cur_pages) any_new
                   (mm\<lparr>memory := mem\<rparr>))
      })"
  by pat_completeness auto
termination
  by (relation "measure (\<lambda>(_, _, _, n, _, _). n)") auto

declare fill_managers.simps [simp del]

fun fill_blocks :: "KMemoryLayout \<Rightarrow> u8 \<Rightarrow> KPageGroup \<Rightarrow> 'r KMemoryManager \<Rightarrow> 'r KMemoryManager option" where
  "fill_blocks lay fill_pattern [] mm = Some mm"
| "fill_blocks lay fill_pattern ((_, b) # g) mm =
     (if KBlockInfo_GetNumPages b = 0 then fill_blocks lay fill_pattern g mm
      else do {
        (any_new, mm) \<leftarrow> fill_managers lay fill_pattern (KBlockInfo_GetAddress b) (KBlockInfo_GetNumPages b) False mm;
        mm \<leftarrow> (if any_new
               then for_managers lay (\<lambda>i address n mm. Some (with_manager i (TrackOptimizedAllocation address n) mm))
                      (KBlockInfo_GetAddress b) (KBlockInfo_GetNumPages b) mm
               else Some mm);
        fill_blocks lay fill_pattern g mm
      })"

fun set_blocks :: "u8 \<Rightarrow> KPageGroup \<Rightarrow> dram \<Rightarrow> dram" where
  "set_blocks fill_pattern [] mem = mem"
| "set_blocks fill_pattern ((_, b) # g) mem =
     set_blocks fill_pattern g (memset (KBlockInfo_GetAddress b) fill_pattern (KBlockInfo_GetSize b) mem)"

definition AllocateAndOpenForProcess ::
    "KMemoryLayout \<Rightarrow> ('r \<Rightarrow> u32 \<times> 'r) \<Rightarrow> ('n \<Rightarrow> nat \<times> 'n) \<Rightarrow> (nat \<Rightarrow> 'n \<Rightarrow> 'n) \<Rightarrow> nat \<Rightarrow> u32 \<Rightarrow> u64 \<Rightarrow> u8 \<Rightarrow>
     KPageGroup \<times> 'n \<times> 'r KMemoryManager \<Rightarrow> ((mm_error + unit) \<times> KPageGroup \<times> 'n \<times> 'r KMemoryManager) option" where
  "AllocateAndOpenForProcess lay gen alloc free num_pages option process_id fill_pattern s =
     do {
       let (pool, dir) = DecodeOption option;
       let has_optimized = m_has_optimized_process (snd (snd s)) pool;
       let is_optimized = m_optimized_process_ids (snd (snd s)) pool = process_id;
       (r, g, ns, mm) \<leftarrow> AllocatePageGroupImpl lay gen alloc free num_pages pool dir
         (has_optimized \<and> \<not> is_optimized) False s;
       case r of
         Inl e \<Rightarrow> Some (Inl e, g, ns, mm)
       | Inr _ \<Rightarrow> do {
           mm \<leftarrow> for_blocks lay open_first_pages g mm;
           mm \<leftarrow> (if has_optimized \<and> is_optimized then fill_blocks lay fill_pattern g mm
                  else Some (mm\<lparr>memory := set_blocks fill_pattern g (memory mm)\<rparr>));
           Some (Inr (), g, ns, mm)
         }
     }"

section \<open>Sizes\<close>

definition KMemoryManager_GetSize :: "'r KMemoryManager \<Rightarrow> nat" where
  "KMemoryManager_GetSize mm = (\<Sum>i \<leftarrow> [0..<m_num_managers mm]. m_heap_size (m_heap (m_managers mm ! i)))"

definition KMemoryManager_GetPoolSize :: "Pool \<Rightarrow> 'r KMemoryManager \<Rightarrow> nat" where
  "KMemoryManager_GetPoolSize pool mm =
     (\<Sum>i \<leftarrow> pool_managers pool Direction_FromFront mm. m_heap_size (m_heap (m_managers mm ! i)))"

definition KMemoryManager_GetFreeSize :: "'r KMemoryManager \<Rightarrow> int" where
  "KMemoryManager_GetFreeSize mm = (\<Sum>i \<leftarrow> [0..<m_num_managers mm]. GetFreeSize (m_heap (m_managers mm ! i)))"

definition KMemoryManager_GetPoolFreeSize :: "Pool \<Rightarrow> 'r KMemoryManager \<Rightarrow> int" where
  "KMemoryManager_GetPoolFreeSize pool mm =
     (\<Sum>i \<leftarrow> pool_managers pool Direction_FromFront mm. GetFreeSize (m_heap (m_managers mm ! i)))"

section \<open>Initialization\<close>

text \<open>The extents and the pool of the region with attribute \<open>k\<close>, joined from the regions of the layout. The
  accumulator is \<^verbatim>\<open>region_address\<close>, \<^verbatim>\<open>region_size\<close>, \<^verbatim>\<open>region_pool\<close>. Addresses are far below \<open>2 ^ 64\<close>, so that no end
  address is null.\<close>

fun find_region :: "nat \<Rightarrow> KMemoryRegion list \<Rightarrow> nat \<times> nat \<times> Pool \<Rightarrow> (nat \<times> nat \<times> Pool) option" where
  "find_region k [] acc = Some acc"
| "find_region k (it # its) (region_address, region_size, region_pool) =
     (if \<not> IsDerivedFrom (m_type_id it) KMemoryRegionType_DramUserPool \<or> unat (m_attributes it) \<noteq> k
      then find_region k its (region_address, region_size, region_pool)
      else do {
        pool \<leftarrow> GetPoolFromMemoryRegionType (m_type_id it);
        if region_address = 0 then find_region k its (m_address it, KMemoryRegion_GetSize it, pool)
        else if pool = region_pool
        then find_region k its (region_address, KMemoryRegion_GetEndAddress it - region_address, region_pool)
        else None
      })"

definition insert_manager :: "Pool \<Rightarrow> nat \<Rightarrow> 'r KMemoryManager \<Rightarrow> 'r KMemoryManager" where
  "insert_manager pool i mm =
     (let mm = (case m_pool_managers_tail mm pool of
                  None \<Rightarrow> mm\<lparr>m_pool_managers_head := (m_pool_managers_head mm)(pool := Some i)\<rparr>
                | Some t \<Rightarrow> with_manager i (\<lambda>I. I\<lparr>m_prev := Some t\<rparr>) (with_manager t (\<lambda>I. I\<lparr>m_next := Some i\<rparr>) mm))
      in mm\<lparr>m_pool_managers_tail := (m_pool_managers_tail mm)(pool := Some i)\<rparr>)"

text \<open>The loop that sets up one manager after the other; \<open>n\<close> more fit.\<close>

fun initialize_managers :: "nat \<Rightarrow> KMemoryLayout \<Rightarrow> nat \<Rightarrow> nat \<Rightarrow> 'r KMemoryManager \<Rightarrow> 'r KMemoryManager option" where
  "initialize_managers 0 lay management_region management_region_end mm = Some mm"
| "initialize_managers (Suc n) lay management_region management_region_end mm =
     do {
       (region_address, region_size, region_pool) \<leftarrow> find_region (m_num_managers mm) (s_physical_tree lay) (0, 0, Pool_Count);
       if region_size = 0 then Some mm
       else do {
         let i = m_num_managers mm;
         (cur_size, I) \<leftarrow> Impl_Initialize region_address region_size management_region management_region_end region_pool
           (m_managers mm ! i);
         let mm = mm\<lparr>m_num_managers := i + 1, m_managers := (m_managers mm)[i := I]\<rparr>;
         if management_region + cur_size \<le> management_region_end
         then initialize_managers n lay (management_region + cur_size) management_region_end
                (insert_manager region_pool i mm)
         else None
       }
     }"

definition InitialProcessBinarySizeMax :: nat where
  "InitialProcessBinarySizeMax = 12 * 0x100000"

text \<open>The loop that frees the regions; the memory after the initial processes is freed with its size in
  bytes for the number of pages, as in the source.\<close>

fun free_regions ::
    "nat \<Rightarrow> KMemoryRegion list \<Rightarrow> (nat \<Rightarrow> nat) \<times> 'r KMemoryManager \<Rightarrow> ((nat \<Rightarrow> nat) \<times> 'r KMemoryManager) option" where
  "free_regions ini_start [] s = Some s"
| "free_regions ini_start (it # its) (reserved_sizes, mm) =
     (if \<not> IsDerivedFrom (m_type_id it) KMemoryRegionType_DramUserPool
      then free_regions ini_start its (reserved_sizes, mm)
      else
        (let i = unat (m_attributes it);
             cur_start = m_address it;
             cur_last = m_last_address it;
             cur_end = KMemoryRegion_GetEndAddress it;
             ini_end = ini_start + InitialProcessBinarySizeMax;
             ini_last = ini_end - 1
         in if cur_start \<le> ini_start \<and> ini_last \<le> cur_last
            then do {
              let mm = (if cur_start \<noteq> ini_start
                        then with_manager i (Impl_Free cur_start ((ini_start - cur_start) div PageSize)) mm else mm);
              mm \<leftarrow> try_manager i (Impl_OpenFirst ini_start (InitialProcessBinarySizeMax div PageSize)) mm;
              let mm = (if ini_last \<noteq> cur_last then with_manager i (Impl_Free ini_end (cur_end - ini_end)) mm else mm);
              free_regions ini_start its
                (reserved_sizes(i := reserved_sizes i + InitialProcessBinarySizeMax), mm)
            }
            else if cur_start \<le> ini_last \<and> \<not> cur_last < ini_start then None
            else free_regions ini_start its
                   (reserved_sizes, with_manager i (Impl_Free cur_start (KMemoryRegion_GetSize it div PageSize)) mm)))"

fun set_used_sizes :: "nat list \<Rightarrow> (nat \<Rightarrow> nat) \<Rightarrow> 'r KMemoryManager \<Rightarrow> 'r KMemoryManager option" where
  "set_used_sizes [] reserved_sizes mm = Some mm"
| "set_used_sizes (i # is) reserved_sizes mm =
     do { mm \<leftarrow> try_manager i (Impl_SetInitialUsedHeapSize (reserved_sizes i)) mm; set_used_sizes is reserved_sizes mm }"

definition clear_management :: "'r Impl \<Rightarrow> 'r Impl" where
  "clear_management I =
     I\<lparr>m_page_reference_counts := (\<lambda>_. 0), m_optimize_map := (\<lambda>_. 0), m_heap := (m_heap I)\<lparr>management := (\<lambda>_. 0)\<rparr>\<rparr>"

definition KMemoryManager_Initialize ::
    "KMemoryLayout \<Rightarrow> nat \<Rightarrow> nat \<Rightarrow> nat \<Rightarrow> 'r KMemoryManager \<Rightarrow> 'r KMemoryManager option" where
  "KMemoryManager_Initialize lay ini_start management_region management_region_size mm =
     do {
       let mm = mm\<lparr>m_managers := map clear_management (m_managers mm), m_num_managers := 0\<rparr>;
       mm \<leftarrow> initialize_managers MaxManagerCount lay management_region (management_region + management_region_size) mm;
       (reserved_sizes, mm) \<leftarrow> free_regions ini_start (s_physical_tree lay) (\<lambda>_. 0, mm);
       set_used_sizes [0..<m_num_managers mm] reserved_sizes mm
     }"

end
