(* ===== verification/Kern_MemoryManager_Inv.thy ===== *)
theory Kern_MemoryManager_Inv
  imports Kern_MemoryManager Kern_PageHeap_Props
begin

text \<open>
  The invariant of the memory manager. Memory is seen as pages by number; a set of pages \<open>P\<close> is handed
  out, every region's heap holds the rest, and only pages of \<open>P\<close> have references. Each operation is
  described by what it does to \<open>P\<close>, to the reference counts and to the pages tracked for an optimized
  process.
\<close>

section \<open>Pages and bytes\<close>

lemma PageSize_pos [simp]: "0 < PageSize"
  by (simp add: PageSize_def)

definition page_bytes :: "nat set \<Rightarrow> nat set" where
  "page_bytes P = {x. x div PageSize \<in> P}"

lemma page_bytes_range: "page_bytes {p..<q} = {p * PageSize..<q * PageSize}"
proof -
  have "p \<le> x div PageSize \<longleftrightarrow> p * PageSize \<le> x" for x
    by (simp add: less_eq_div_iff_mult_less_eq)
  moreover have "x div PageSize < q \<longleftrightarrow> x < q * PageSize" for x
    by (simp add: div_less_iff_less_mult)
  ultimately show ?thesis
    by (auto simp: page_bytes_def)
qed

lemma page_bytes_Un: "page_bytes (P \<union> Q) = page_bytes P \<union> page_bytes Q"
  and page_bytes_Diff: "page_bytes (P - Q) = page_bytes P - page_bytes Q"
  and page_bytes_Int: "page_bytes (P \<inter> Q) = page_bytes P \<inter> page_bytes Q"
  by (auto simp: page_bytes_def)

lemma page_bytes_subset_iff: "page_bytes P \<subseteq> page_bytes Q \<longleftrightarrow> P \<subseteq> Q"
proof
  assume sub: "page_bytes P \<subseteq> page_bytes Q"
  show "P \<subseteq> Q"
  proof
    fix p assume "p \<in> P"
    then have "p * PageSize \<in> page_bytes P" by (simp add: page_bytes_def)
    then have "p * PageSize \<in> page_bytes Q" using sub by blast
    then show "p \<in> Q" by (simp add: page_bytes_def)
  qed
qed (auto simp: page_bytes_def)

lemma page_bytes_Union: "page_bytes P = (\<Union>p \<in> P. page_bytes {p})"
  by (simp add: page_bytes_def set_eq_iff)

lemma card_page_bytes:
  assumes "finite P"
  shows "card (page_bytes P) = card P * PageSize"
proof -
  have one: "page_bytes {p} = {p * PageSize..<Suc p * PageSize}" for p
    using page_bytes_range [of p "Suc p"] by (simp only: atLeastLessThanSuc_atLeastAtMost atLeastAtMost_singleton)
  have "card (\<Union>p \<in> P. page_bytes {p}) = (\<Sum>p \<in> P. card (page_bytes {p}))"
  proof (rule card_UN_disjoint [OF assms])
    show "\<forall>p \<in> P. finite (page_bytes {p})" by (simp add: one)
    show "\<forall>p \<in> P. \<forall>q \<in> P. p \<noteq> q \<longrightarrow> page_bytes {p} \<inter> page_bytes {q} = {}" by (auto simp: page_bytes_def)
  qed
  then show ?thesis
    by (subst page_bytes_Union) (simp add: one)
qed

section \<open>One manager\<close>

abbreviation region_base :: "'r Impl \<Rightarrow> nat" where
  "region_base I \<equiv> m_heap_address (m_heap I)"

abbreviation region_size :: "'r Impl \<Rightarrow> nat" where
  "region_size I \<equiv> m_heap_size (m_heap I)"

definition impl_pages :: "'r Impl \<Rightarrow> nat set" where
  "impl_pages I = {region_base I div PageSize..<(region_base I + region_size I) div PageSize}"

text \<open>What no operation changes after initialization.\<close>

definition impl_geom :: "'r Impl \<Rightarrow> nat \<times> nat \<times> Pool \<times> nat option \<times> nat option" where
  "impl_geom I = (region_base I, region_size I, m_pool I, m_next I, m_prev I)"

lemma impl_geomD:
  assumes "impl_geom I' = impl_geom I"
  shows "region_base I' = region_base I" "region_size I' = region_size I" "m_pool I' = m_pool I"
    "m_next I' = m_next I" "m_prev I' = m_prev I" "impl_pages I' = impl_pages I"
  using assms by (simp_all add: impl_geom_def impl_pages_def)

definition aligned_impl :: "'r Impl \<Rightarrow> bool" where
  "aligned_impl I \<longleftrightarrow> PageSize dvd region_base I \<and> PageSize dvd region_size I \<and>
     region_base I + region_size I < 2 ^ 44"

lemma aligned_implD:
  assumes "aligned_impl I"
  shows "region_base I = region_base I div PageSize * PageSize"
    "region_base I + region_size I = (region_base I + region_size I) div PageSize * PageSize"
    "region_base I + region_size I < 2 ^ 44"
    "page_bytes (impl_pages I) = {region_base I..<region_base I + region_size I}"
proof -
  have d: "PageSize dvd region_base I" "PageSize dvd region_base I + region_size I"
    using assms by (simp_all add: aligned_impl_def)
  show e: "region_base I = region_base I div PageSize * PageSize"
    "region_base I + region_size I = (region_base I + region_size I) div PageSize * PageSize"
    using d by simp_all
  show "region_base I + region_size I < 2 ^ 44"
    using assms by (simp add: aligned_impl_def)
  show "page_bytes (impl_pages I) = {region_base I..<region_base I + region_size I}"
    unfolding impl_pages_def page_bytes_range using e by simp
qed

text \<open>A manager whose heap has handed out exactly the pages \<open>P\<close> of its region, and counts references to
  handed out pages only.\<close>

definition impl_ok :: "'r Impl \<Rightarrow> nat set \<Rightarrow> bool" where
  "impl_ok I P \<longleftrightarrow> aligned_impl I \<and>
     heap_holds (region_base I) (region_size I) (m_heap I, page_bytes (P \<inter> impl_pages I)) \<and>
     (\<forall>p \<in> impl_pages I. m_page_reference_counts I (p - region_base I div PageSize) \<noteq> 0 \<longrightarrow> p \<in> P)"

lemma impl_okD:
  assumes "impl_ok I P"
  shows "aligned_impl I" "heap_holds (region_base I) (region_size I) (m_heap I, page_bytes (P \<inter> impl_pages I))"
    "p \<in> impl_pages I \<Longrightarrow> m_page_reference_counts I (p - region_base I div PageSize) \<noteq> 0 \<Longrightarrow> p \<in> P"
  using assms by (auto simp: impl_ok_def)

lemma impl_ok_cong:
  assumes "impl_ok I P" "P' \<inter> impl_pages I = P \<inter> impl_pages I"
  shows "impl_ok I P'"
  using assms by (auto simp: impl_ok_def)

lemma impl_okI:
  assumes "impl_ok I P" "impl_geom I' = impl_geom I"
    "heap_holds (region_base I) (region_size I) (m_heap I', page_bytes (P' \<inter> impl_pages I))"
    "\<And>p. p \<in> impl_pages I \<Longrightarrow> m_page_reference_counts I' (p - region_base I div PageSize) \<noteq> 0 \<Longrightarrow> p \<in> P'"
  shows "impl_ok I' P'"
proof -
  note G = impl_geomD [OF assms(2)]
  have "aligned_impl I'"
    using impl_okD(1) [OF assms(1)] by (simp add: aligned_impl_def G)
  then show ?thesis
    using assms(3,4) by (auto simp: impl_ok_def G)
qed

lemma heap_holdsD:
  assumes "heap_holds a sz (h, H)"
  shows "m_heap_address h = a" "m_heap_size h = sz" "H \<subseteq> {a..<a + sz}"
  using assms by (auto simp: heap_holds_def)

lemma GetBlockSize_pages: "j < 7 \<Longrightarrow> GetBlockSize j = GetBlockNumPages j * PageSize" "j < 7 \<Longrightarrow> 0 < GetBlockNumPages j"
proof -
  assume j: "j < 7"
  have "PageSize dvd GetBlockSize j"
    unfolding PageSize_shift GetBlockSize_def using shift_mono [of 0 j] j by (intro le_imp_power_dvd) simp
  then show "GetBlockSize j = GetBlockNumPages j * PageSize"
    by (simp add: GetBlockNumPages_def)
  moreover have "0 < GetBlockSize j" by (simp add: GetBlockSize_def)
  ultimately show "0 < GetBlockNumPages j" by (cases "GetBlockNumPages j") auto
qed

lemma Impl_AllocateBlock_ok:
  assumes ok: "impl_ok I P" and j: "j < 7" and alloc: "Impl_AllocateBlock gen j random I = (x, I')"
  shows "impl_geom I' = impl_geom I" "m_page_reference_counts I' = m_page_reference_counts I"
    "m_optimize_map I' = m_optimize_map I"
    "x \<noteq> 0 \<Longrightarrow> x = x div PageSize * PageSize \<and> GetBlockSize j dvd x \<and>
      {x div PageSize..<x div PageSize + GetBlockNumPages j} \<subseteq> impl_pages I - P \<and>
      impl_ok I' (P \<union> {x div PageSize..<x div PageSize + GetBlockNumPages j})"
    "x = 0 \<Longrightarrow> impl_ok I' P \<and>
      \<not> (\<exists>p. GetBlockNumPages j dvd p \<and> {p..<p + GetBlockNumPages j} \<subseteq> impl_pages I - P)"
proof -
  let ?a = "region_base I" and ?sz = "region_size I" and ?H = "page_bytes (P \<inter> impl_pages I)" and ?n = "GetBlockNumPages j"
  note B = GetBlockSize_pages [OF j]
  note al = impl_okD(1) [OF ok] and hold = impl_okD(2) [OF ok]
  have reg: "page_bytes (impl_pages I) = {?a..<?a + ?sz}" by (rule aligned_implD(4) [OF al])
  obtain h' where h': "AllocateBlock gen j random (m_heap I) = (x, h')" and I': "I' = I\<lparr>m_heap := h'\<rparr>"
    using alloc by (auto simp: Impl_AllocateBlock_def split: prod.splits)
  have jj: "j < NumMemoryBlockPageShifts" using j by (simp add: NumMemoryBlockPageShifts_def)
  show "m_page_reference_counts I' = m_page_reference_counts I" "m_optimize_map I' = m_optimize_map I"
    by (simp_all add: I')
  have main: "impl_geom I' = impl_geom I \<and>
    (if x = 0 then impl_ok I' P \<and> \<not> (\<exists>p. ?n dvd p \<and> {p..<p + ?n} \<subseteq> impl_pages I - P)
     else x = x div PageSize * PageSize \<and> GetBlockSize j dvd x \<and>
      {x div PageSize..<x div PageSize + ?n} \<subseteq> impl_pages I - P \<and>
      impl_ok I' (P \<union> {x div PageSize..<x div PageSize + ?n}))"
  proof (cases "x = 0")
    case True
    have "heap_step gen (m_heap I, ?H) (Refused j) (h', ?H)"
      using h' True jj by (intro refused) simp_all
    from heap_step_region [OF this hold] have R: "heap_holds ?a ?sz (h', ?H)" "region_step {?a..<?a + ?sz} ?H (Refused j) ?H"
      by simp_all
    have g: "impl_geom I' = impl_geom I"
      using heap_holdsD(1,2) [OF R(1)] by (simp add: impl_geom_def I')
    have "\<not> (\<exists>y. GetBlockSize j dvd y \<and> {y..<y + GetBlockSize j} \<subseteq> page_bytes (impl_pages I) - ?H)"
      using R(2) unfolding reg [symmetric] by (cases rule: region_step.cases) simp
    moreover have "{p * PageSize..<p * PageSize + GetBlockSize j} \<subseteq> page_bytes (impl_pages I) - ?H"
      if "{p..<p + ?n} \<subseteq> impl_pages I - P" for p
    proof -
      have "page_bytes {p..<p + ?n} \<subseteq> page_bytes (impl_pages I - P \<inter> impl_pages I)"
        using that by (auto simp: page_bytes_subset_iff)
      then show ?thesis
        unfolding page_bytes_range page_bytes_Diff B(1) by (simp add: algebra_simps)
    qed
    moreover have "GetBlockSize j dvd p * PageSize" if "?n dvd p" for p
      using that unfolding B(1) by (rule mult_dvd_mono) simp
    moreover have "impl_ok I' P"
      using R(1) impl_okD(3) [OF ok] by (intro impl_okI [OF ok g]) (simp_all add: I')
    ultimately show ?thesis
      using True g by auto
  next
    case False
    let ?p = "x div PageSize"
    have "heap_step gen (m_heap I, ?H) (Taken j x) (h', ?H \<union> {x..<x + GetBlockSize j})"
      using h' False jj by (intro taken) simp_all
    from heap_step_region [OF this hold]
    have R: "heap_holds ?a ?sz (h', ?H \<union> {x..<x + GetBlockSize j})"
        "region_step {?a..<?a + ?sz} ?H (Taken j x) (?H \<union> {x..<x + GetBlockSize j})"
      by simp_all
    have g: "impl_geom I' = impl_geom I"
      using heap_holdsD(1,2) [OF R(1)] by (simp add: impl_geom_def I')
    have S: "GetBlockSize j dvd x" "{x..<x + GetBlockSize j} \<subseteq> page_bytes (impl_pages I) - ?H"
      using R(2) unfolding reg [symmetric] by (cases rule: region_step.cases; simp)+
    have "PageSize dvd x" using S(1) B(1) by (metis dvd_mult_left mult.commute)
    then have x: "x = ?p * PageSize" by simp
    have bytes: "{x..<x + GetBlockSize j} = page_bytes {?p..<?p + ?n}"
      unfolding page_bytes_range B(1) by (subst (1 2) x) (simp add: algebra_simps)
    have sub: "{?p..<?p + ?n} \<subseteq> impl_pages I - P"
      using S(2) unfolding bytes page_bytes_Diff [symmetric] page_bytes_subset_iff by blast
    have "?H \<union> {x..<x + GetBlockSize j} = page_bytes ((P \<union> {?p..<?p + ?n}) \<inter> impl_pages I)"
    proof -
      have "(P \<union> {?p..<?p + ?n}) \<inter> impl_pages I = P \<inter> impl_pages I \<union> {?p..<?p + ?n}"
        using sub by blast
      then show ?thesis by (simp add: bytes page_bytes_Un)
    qed
    then have "impl_ok I' (P \<union> {?p..<?p + ?n})"
      using R(1) impl_okD(3) [OF ok] by (intro impl_okI [OF ok g]) (simp_all add: I')
    then show ?thesis
      using False g x S(1) sub by simp
  qed
  then show "impl_geom I' = impl_geom I" by blast
  show "x = x div PageSize * PageSize \<and> GetBlockSize j dvd x \<and>
      {x div PageSize..<x div PageSize + GetBlockNumPages j} \<subseteq> impl_pages I - P \<and>
      impl_ok I' (P \<union> {x div PageSize..<x div PageSize + GetBlockNumPages j})" if "x \<noteq> 0"
    using main that by presburger
  show "impl_ok I' P \<and>
      \<not> (\<exists>p. GetBlockNumPages j dvd p \<and> {p..<p + GetBlockNumPages j} \<subseteq> impl_pages I - P)" if "x = 0"
    using main that by presburger
qed

lemma Impl_Free_sel [simp]:
  "m_page_reference_counts (Impl_Free x n I) = m_page_reference_counts I"
  "m_optimize_map (Impl_Free x n I) = m_optimize_map I"
  by (simp_all add: Impl_Free_def)

lemma Impl_Free_ok:
  assumes ok: "impl_ok I P" and sub: "{p..<p + n} \<subseteq> impl_pages I \<inter> P"
    and rc: "\<And>q. q \<in> {p..<p + n} \<Longrightarrow> m_page_reference_counts I (q - region_base I div PageSize) = 0"
  shows "impl_ok (Impl_Free (p * PageSize) n I) (P - {p..<p + n})" "impl_geom (Impl_Free (p * PageSize) n I) = impl_geom I"
proof -
  let ?a = "region_base I" and ?sz = "region_size I" and ?H = "page_bytes (P \<inter> impl_pages I)"
  let ?h = "KPageHeap_Free (p * PageSize) n (m_heap I)"
  have bytes: "{p * PageSize..<p * PageSize + n * PageSize} = page_bytes {p..<p + n}"
    unfolding page_bytes_range by (simp add: algebra_simps)
  have "page_bytes {p..<p + n} \<subseteq> ?H"
    using sub unfolding page_bytes_subset_iff by blast
  then have "heap_step undefined (m_heap I, ?H) (Given (p * PageSize) n) (?h, ?H - {p * PageSize..<p * PageSize + n * PageSize})"
    by (intro given) (simp_all add: bytes)
  from heap_step_region [OF this impl_okD(2) [OF ok]]
  have R: "heap_holds ?a ?sz (?h, ?H - page_bytes {p..<p + n})"
    by (simp add: bytes)
  show g: "impl_geom (Impl_Free (p * PageSize) n I) = impl_geom I"
    using heap_holdsD(1,2) [OF R] by (simp add: impl_geom_def Impl_Free_def)
  have "(P - {p..<p + n}) \<inter> impl_pages I = P \<inter> impl_pages I - {p..<p + n}" by blast
  then have "?H - page_bytes {p..<p + n} = page_bytes ((P - {p..<p + n}) \<inter> impl_pages I)"
    by (simp add: page_bytes_Diff)
  then show "impl_ok (Impl_Free (p * PageSize) n I) (P - {p..<p + n})"
    using R impl_okD(3) [OF ok] rc by (intro impl_okI [OF ok g]) (auto simp: Impl_Free_def)
qed

section \<open>Reference counts\<close>

lemma open_first_loop_ok:
  assumes "\<And>j. k \<le> j \<Longrightarrow> j < k + n \<Longrightarrow> rc j = 0"
  shows "open_first_loop n k rc = Some (\<lambda>j. if k \<le> j \<and> j < k + n then 1 else rc j)"
  using assms
proof (induction n arbitrary: k rc)
  case (Suc n)
  have "open_first_loop n (Suc k) (rc(k := 1)) =
      Some (\<lambda>j. if Suc k \<le> j \<and> j < Suc k + n then 1 else (rc(k := 1)) j)"
    using Suc.prems by (intro Suc.IH) simp
  moreover have "rc k = 0" using Suc.prems [of k] by simp
  ultimately show ?case
    by (auto simp: Let_def fun_eq_iff)
qed (auto simp: fun_eq_iff)

lemma open_loop_ok:
  assumes "\<And>j. k \<le> j \<Longrightarrow> j < k + n \<Longrightarrow> 0 < unat (rc j) \<and> unat (rc j) < 2 ^ 16 - 1"
  shows "open_loop n k rc = Some (\<lambda>j. if k \<le> j \<and> j < k + n then rc j + 1 else rc j)"
  using assms
proof (induction n arbitrary: k rc)
  case (Suc n)
  have k: "0 < unat (rc k)" "unat (rc k) < 2 ^ 16 - 1" using Suc.prems [of k] by simp_all
  then have u: "unat (rc k + 1) = unat (rc k) + 1"
    by (subst unat_add_lem [THEN iffD1]) simp_all
  then have "1 < rc k + 1"
    using k by (simp add: word_less_nat_alt)
  moreover have "open_loop n (Suc k) (rc(k := rc k + 1)) =
      Some (\<lambda>j. if Suc k \<le> j \<and> j < Suc k + n then (rc(k := rc k + 1)) j + 1 else (rc(k := rc k + 1)) j)"
    using Suc.prems by (intro Suc.IH) simp
  ultimately show ?case
    by (auto simp: Let_def fun_eq_iff)
qed (auto simp: fun_eq_iff)

text \<open>The state after references to the pages \<open>k\<close> up to \<open>k + n\<close> of a region are dropped.\<close>

definition dropped :: "'r Impl \<Rightarrow> nat \<Rightarrow> nat \<Rightarrow> nat set \<Rightarrow> 'r Impl \<Rightarrow> bool" where
  "dropped I k n P I' \<longleftrightarrow> impl_geom I' = impl_geom I \<and> m_optimize_map I' = m_optimize_map I \<and> impl_ok I' P \<and>
     (\<forall>j. m_page_reference_counts I' j =
        (if k \<le> j \<and> j < k + n then m_page_reference_counts I j - 1 else m_page_reference_counts I j))"

definition last_refs :: "'r Impl \<Rightarrow> nat \<Rightarrow> nat \<Rightarrow> nat set" where
  "last_refs I k n =
     {region_base I div PageSize + j |j. k \<le> j \<and> j < k + n \<and> m_page_reference_counts I j = 1}"

definition drop_ref :: "nat \<Rightarrow> 'r Impl \<Rightarrow> 'r Impl" where
  "drop_ref k I = I\<lparr>m_page_reference_counts := (m_page_reference_counts I)(k := m_page_reference_counts I k - 1)\<rparr>"

lemma drop_ref_sel [simp]:
  "impl_geom (drop_ref k I) = impl_geom I" "impl_pages (drop_ref k I) = impl_pages I" "m_heap (drop_ref k I) = m_heap I"
  "m_optimize_map (drop_ref k I) = m_optimize_map I"
  "m_page_reference_counts (drop_ref k I) j =
     (if j = k then m_page_reference_counts I k - 1 else m_page_reference_counts I j)"
  by (simp_all add: drop_ref_def impl_geom_def impl_pages_def)

lemma drop_ref_ok:
  assumes "impl_ok I P" "m_page_reference_counts I k \<noteq> 0" "region_base I div PageSize + k \<in> impl_pages I"
  shows "impl_ok (drop_ref k I) P" "region_base I div PageSize + k \<in> P"
proof -
  show in_P: "region_base I div PageSize + k \<in> P"
    using impl_okD(3) [OF assms(1,3)] assms(2) by simp
  show "impl_ok (drop_ref k I) P"
  proof (rule impl_okI [OF assms(1)])
    fix p assume p: "p \<in> impl_pages I" "m_page_reference_counts (drop_ref k I) (p - region_base I div PageSize) \<noteq> 0"
    then show "p \<in> P"
      using impl_okD(3) [OF assms(1) p(1)] assms(2) by (auto split: if_splits)
  qed (use impl_okD(2) [OF assms(1)] in simp_all)
qed

lemma dropped_step:
  assumes "dropped J (Suc k) n P I'" "impl_geom J = impl_geom I" "m_optimize_map J = m_optimize_map I"
    "m_page_reference_counts J = m_page_reference_counts (drop_ref k I)"
  shows "dropped I k (Suc n) P I'"
  using assms by (auto simp: dropped_def)

lemma last_refs_step:
  assumes "impl_geom J = impl_geom I" "m_page_reference_counts J = m_page_reference_counts (drop_ref k I)"
  shows "last_refs I k (Suc n) =
    (if m_page_reference_counts I k = 1 then {region_base I div PageSize + k} else {}) \<union> last_refs J (Suc k) n"
  using impl_geomD(1) [OF assms(1)] assms(2) by (auto simp: last_refs_def le_eq_less_or_eq)

text \<open>The pages \<open>fs\<close> up to \<open>fs + fc\<close> have lost their last reference and wait to be freed.\<close>

definition pending :: "'r Impl \<Rightarrow> nat \<Rightarrow> nat \<Rightarrow> nat set" where
  "pending I fs fc = {region_base I div PageSize + fs..<region_base I div PageSize + fs + fc}"

definition pending_ok :: "'r Impl \<Rightarrow> nat set \<Rightarrow> nat \<Rightarrow> nat \<Rightarrow> nat \<Rightarrow> bool" where
  "pending_ok I P k fs fc \<longleftrightarrow> (0 < fc \<longrightarrow> fs + fc = k \<and> pending I fs fc \<subseteq> impl_pages I \<inter> P \<and>
     (\<forall>j. fs \<le> j \<longrightarrow> j < k \<longrightarrow> m_page_reference_counts I j = 0))"

lemma free_pending:
  assumes "impl_ok I P" "pending_ok I P k fs fc" "0 < fc"
  shows "impl_ok (Impl_Free (region_base I + fs * PageSize) fc I) (P - pending I fs fc)"
    "impl_geom (Impl_Free (region_base I + fs * PageSize) fc I) = impl_geom I"
proof -
  let ?p = "region_base I div PageSize + fs"
  have at: "region_base I + fs * PageSize = ?p * PageSize"
    using aligned_implD(1) [OF impl_okD(1) [OF assms(1)]] by (simp add: algebra_simps)
  have sub: "{?p..<?p + fc} \<subseteq> impl_pages I \<inter> P"
    using assms(2,3) by (simp add: pending_ok_def pending_def)
  have rc: "m_page_reference_counts I (q - region_base I div PageSize) = 0" if "q \<in> {?p..<?p + fc}" for q
    using assms(2,3) that by (auto simp: pending_ok_def)
  show "impl_ok (Impl_Free (region_base I + fs * PageSize) fc I) (P - pending I fs fc)"
    "impl_geom (Impl_Free (region_base I + fs * PageSize) fc I) = impl_geom I"
    unfolding at pending_def by (rule Impl_Free_ok [OF assms(1) sub rc], assumption)+
qed

lemma close_loop_Suc:
  assumes "0 < m_page_reference_counts I k"
  shows "close_loop (Suc n) k fs fc I =
    (if m_page_reference_counts I k = 1
     then (if 0 < fc then close_loop n (Suc k) fs (fc + 1) (drop_ref k I) else close_loop n (Suc k) k 1 (drop_ref k I))
     else if 0 < fc
     then close_loop n (Suc k) fs 0 (Impl_Free (region_base I + fs * PageSize) fc (drop_ref k I))
     else close_loop n (Suc k) fs fc (drop_ref k I))"
  using assms by (simp add: Let_def drop_ref_def)

lemma close_loop_ok:
  assumes "impl_ok I P" "\<And>j. k \<le> j \<Longrightarrow> j < k + n \<Longrightarrow>
      region_base I div PageSize + j \<in> impl_pages I \<and> m_page_reference_counts I j \<noteq> 0" "pending_ok I P k fs fc"
  shows "\<exists>I'. close_loop n k fs fc I = Some I' \<and> dropped I k n (P - pending I fs fc - last_refs I k n) I'"
  using assms
proof (induction n arbitrary: k fs fc I P)
  case 0
  have "last_refs I k 0 = {}" by (auto simp: last_refs_def)
  then show ?case
    using free_pending [OF 0(1,3)] 0(1) by (cases "0 < fc") (auto simp: dropped_def pending_def)
next
  case (Suc n)
  let ?b = "region_base I div PageSize" and ?rc = "m_page_reference_counts I" and ?I = "drop_ref k I"
  have nz: "?rc k \<noteq> 0" and inb: "?b + k \<in> impl_pages I" using Suc.prems(2) [of k] by simp_all
  then have gt: "0 < ?rc k" by (simp add: word_gt_0)
  note okI = drop_ref_ok [OF Suc.prems(1) nz inb]
  have rest: "\<And>j. Suc k \<le> j \<Longrightarrow> j < Suc k + n \<Longrightarrow> ?b + j \<in> impl_pages I \<and> ?rc j \<noteq> 0"
    using Suc.prems(2) by simp
  have go: ?case
    if J: "impl_ok J Q" "impl_geom J = impl_geom I" "m_optimize_map J = m_optimize_map I"
        "m_page_reference_counts J = m_page_reference_counts ?I" "pending_ok J Q (Suc k) fs' fc'"
      and run: "close_loop (Suc n) k fs fc I = close_loop n (Suc k) fs' fc' J"
      and eq: "Q - pending J fs' fc' = P - pending I fs fc - (if ?rc k = 1 then {?b + k} else {})" for J Q fs' fc'
  proof -
    note G = impl_geomD(1,6) [OF J(2)]
    have "\<exists>I'. close_loop n (Suc k) fs' fc' J = Some I' \<and> dropped J (Suc k) n (Q - pending J fs' fc' - last_refs J (Suc k) n) I'"
      using rest G J(4) by (intro Suc.IH [OF J(1) _ J(5)]) simp
    moreover have "Q - pending J fs' fc' - last_refs J (Suc k) n = P - pending I fs fc - last_refs I k (Suc n)"
      unfolding eq last_refs_step [OF J(2,4)] by blast
    ultimately show ?case
      unfolding run using dropped_step [OF _ J(2-4)] by metis
  qed
  have pend: "pending ?I x y = pending I x y" for x y by (simp add: pending_def)
  show ?case
  proof (cases "?rc k = 1")
    case True
    show ?thesis
    proof (cases "0 < fc")
      case fc: True
      have f: "fs + fc = k" "pending I fs fc \<subseteq> impl_pages I \<inter> P" "\<forall>j. fs \<le> j \<longrightarrow> j < k \<longrightarrow> ?rc j = 0"
        using Suc.prems(3) fc by (simp_all add: pending_ok_def)
      have p: "pending I fs (fc + 1) = insert (?b + k) (pending I fs fc)"
        using f(1) by (auto simp: pending_def)
      show ?thesis
        by (rule go [OF okI(1), of fs "fc + 1"])
          (use f inb okI(2) True fc gt p in \<open>auto simp: pending_ok_def pend close_loop_Suc less_Suc_eq simp del: close_loop.simps\<close>)
    next
      case fc: False
      have p: "pending I k 1 = {?b + k}" "pending I fs fc = {}" using fc by (auto simp: pending_def)
      show ?thesis
        by (rule go [OF okI(1), of k 1])
          (use inb okI(2) True fc gt p in \<open>auto simp: pending_ok_def pend close_loop_Suc less_Suc_eq simp del: close_loop.simps\<close>)
    qed
  next
    case False
    then have dec: "?rc k - 1 \<noteq> 0" by simp
    show ?thesis
    proof (cases "0 < fc")
      case fc: True
      let ?J = "Impl_Free (region_base I + fs * PageSize) fc ?I"
      have "pending_ok ?I P k fs fc"
        using Suc.prems(3) by (simp add: pending_ok_def pend)
      from free_pending [OF okI(1) this fc]
      have J: "impl_ok ?J (P - pending I fs fc)" "impl_geom ?J = impl_geom I" by (simp_all add: pend)
      show ?thesis
        by (rule go [OF J, of fs 0])
          (use False dec fc gt in \<open>auto simp: pending_ok_def pending_def close_loop_Suc simp del: close_loop.simps\<close>)
    next
      case fc: False
      show ?thesis
        by (rule go [OF okI(1), of fs fc])
          (use False dec fc gt in \<open>auto simp: pending_ok_def pend close_loop_Suc simp del: close_loop.simps\<close>)
    qed
  qed
qed

section \<open>All managers\<close>

abbreviation manager :: "'r KMemoryManager \<Rightarrow> nat \<Rightarrow> 'r Impl" where
  "manager mm i \<equiv> m_managers mm ! i"

text \<open>What the operations on pages leave alone.\<close>

definition config ::
    "'r KMemoryManager \<Rightarrow> nat \<times> (Pool \<Rightarrow> nat option) \<times> (Pool \<Rightarrow> nat option) \<times>
       (nat \<times> nat \<times> Pool \<times> nat option \<times> nat option) list" where
  "config mm = (m_num_managers mm, m_pool_managers_head mm, m_pool_managers_tail mm, map impl_geom (m_managers mm))"

text \<open>The references to each page, and the pages marked as an optimized process's.\<close>

definition refs :: "'r KMemoryManager \<Rightarrow> nat \<Rightarrow> nat" where
  "refs mm p = (\<Sum>i < m_num_managers mm. if p \<in> impl_pages (manager mm i)
     then unat (m_page_reference_counts (manager mm i) (p - region_base (manager mm i) div PageSize)) else 0)"

definition marked :: "'r Impl \<Rightarrow> nat \<Rightarrow> bool" where
  "marked I k \<longleftrightarrow> bit (m_optimize_map I (k div 64)) (k mod 64)"

definition tracked :: "'r KMemoryManager \<Rightarrow> nat set" where
  "tracked mm = {p. \<exists>i < m_num_managers mm. p \<in> impl_pages (manager mm i) \<and>
     marked (manager mm i) (p - region_base (manager mm i) div PageSize)}"

definition pool_pages :: "'r KMemoryManager \<Rightarrow> Pool \<Rightarrow> nat set" where
  "pool_pages mm pool = (\<Union>i \<in> {i. i < m_num_managers mm \<and> m_pool (manager mm i) = pool}. impl_pages (manager mm i))"

definition mm_wf :: "KMemoryLayout \<Rightarrow> 'r KMemoryManager \<Rightarrow> bool" where
  "mm_wf lay mm \<longleftrightarrow> length (m_managers mm) = MaxManagerCount \<and> m_num_managers mm \<le> MaxManagerCount \<and>
     (\<forall>i < m_num_managers mm. \<forall>j < m_num_managers mm. i \<noteq> j \<longrightarrow> impl_pages (manager mm i) \<inter> impl_pages (manager mm j) = {}) \<and>
     (\<forall>i < m_num_managers mm. \<forall>p \<in> impl_pages (manager mm i). GetManager lay (p * PageSize) = Some i) \<and>
     (\<forall>pool < Pool_Count. \<forall>dir. distinct (pool_managers pool dir mm) \<and>
        set (pool_managers pool dir mm) = {i. i < m_num_managers mm \<and> m_pool (manager mm i) = pool})"

definition mm_ok :: "KMemoryLayout \<Rightarrow> 'r KMemoryManager \<Rightarrow> nat set \<Rightarrow> bool" where
  "mm_ok lay mm P \<longleftrightarrow> mm_wf lay mm \<and> (\<forall>i < m_num_managers mm. impl_ok (manager mm i) P)"

lemma mm_okD:
  assumes "mm_ok lay mm P"
  shows "length (m_managers mm) = MaxManagerCount" "m_num_managers mm \<le> MaxManagerCount"
    "i < m_num_managers mm \<Longrightarrow> j < m_num_managers mm \<Longrightarrow> i \<noteq> j \<Longrightarrow>
       impl_pages (manager mm i) \<inter> impl_pages (manager mm j) = {}"
    "i < m_num_managers mm \<Longrightarrow> p \<in> impl_pages (manager mm i) \<Longrightarrow> GetManager lay (p * PageSize) = Some i"
    "pool < Pool_Count \<Longrightarrow> distinct (pool_managers pool dir mm)"
    "pool < Pool_Count \<Longrightarrow> set (pool_managers pool dir mm) = {i. i < m_num_managers mm \<and> m_pool (manager mm i) = pool}"
    "i < m_num_managers mm \<Longrightarrow> impl_ok (manager mm i) P" "i < m_num_managers mm \<Longrightarrow> i < length (m_managers mm)"
  using assms unfolding mm_ok_def mm_wf_def by auto

lemma config_sel:
  assumes "config mm' = config mm"
  shows "m_num_managers mm' = m_num_managers mm" "m_pool_managers_head mm' = m_pool_managers_head mm"
    "m_pool_managers_tail mm' = m_pool_managers_tail mm" "length (m_managers mm') = length (m_managers mm)"
    "i < length (m_managers mm) \<Longrightarrow> impl_geom (manager mm' i) = impl_geom (manager mm i)"
proof -
  have m: "map impl_geom (m_managers mm') = map impl_geom (m_managers mm)"
    using assms by (simp add: config_def)
  show len: "length (m_managers mm') = length (m_managers mm)"
    using arg_cong [OF m, of length] by simp
  show "impl_geom (manager mm' i) = impl_geom (manager mm i)" if "i < length (m_managers mm)"
    using arg_cong [OF m, of "\<lambda>xs. xs ! i"] that len by simp
qed (use assms in \<open>simp_all add: config_def\<close>)

lemma manager_walk_config:
  assumes "config mm' = config mm" "length (m_managers mm) = MaxManagerCount"
    "\<forall>i \<in> set (manager_walk n dir mm cur). i < MaxManagerCount"
  shows "manager_walk n dir mm' cur = manager_walk n dir mm cur"
  using assms(3)
proof (induction n arbitrary: cur)
  case (Suc n)
  show ?case
  proof (cases cur)
    case (Some i)
    then have "i < length (m_managers mm)" using Suc.prems assms(2) by simp
    note G = impl_geomD(4,5) [OF config_sel(5) [OF assms(1) this]]
    have "GetNextManager i dir mm' = GetNextManager i dir mm"
      by (simp add: GetNextManager_def G)
    then show ?thesis using Suc Some by simp
  qed simp
qed simp

lemma pool_managers_config:
  assumes "config mm' = config mm" "mm_wf lay mm" "pool < Pool_Count"
  shows "pool_managers pool dir mm' = pool_managers pool dir mm"
proof -
  have "\<forall>i \<in> set (pool_managers pool dir mm). i < MaxManagerCount"
    using assms(2,3) unfolding mm_wf_def by fastforce
  moreover have "GetFirstManager pool dir mm' = GetFirstManager pool dir mm"
    using config_sel(2,3) [OF assms(1)] by (simp add: GetFirstManager_def)
  ultimately show ?thesis
    unfolding pool_managers_def using assms(2) by (simp add: manager_walk_config [OF assms(1)] mm_wf_def)
qed

lemma config_geom:
  assumes "config mm' = config mm" "mm_wf lay mm" "i < m_num_managers mm"
  shows "impl_pages (manager mm' i) = impl_pages (manager mm i)" "region_base (manager mm' i) = region_base (manager mm i)"
    "m_pool (manager mm' i) = m_pool (manager mm i)" "region_size (manager mm' i) = region_size (manager mm i)"
proof -
  have "i < length (m_managers mm)" using assms(2,3) by (simp add: mm_wf_def)
  note G = impl_geomD [OF config_sel(5) [OF assms(1) this]]
  show "impl_pages (manager mm' i) = impl_pages (manager mm i)" "region_base (manager mm' i) = region_base (manager mm i)"
    "m_pool (manager mm' i) = m_pool (manager mm i)" "region_size (manager mm' i) = region_size (manager mm i)"
    by (rule G)+
qed

lemma mm_wf_config:
  assumes "config mm' = config mm" "mm_wf lay mm"
  shows "mm_wf lay mm'" "pool_pages mm' pool = pool_pages mm pool"
proof -
  note S = config_sel(1,4) [OF assms(1)] and G = config_geom [OF assms]
  have pools: "{i. i < m_num_managers mm \<and> m_pool (manager mm' i) = q} = {i. i < m_num_managers mm \<and> m_pool (manager mm i) = q}" for q
    using G(3) by auto
  show "pool_pages mm' pool = pool_pages mm pool"
    unfolding pool_pages_def S pools using G(1) by auto
  have "\<forall>q < Pool_Count. \<forall>dir. distinct (pool_managers q dir mm') \<and>
      set (pool_managers q dir mm') = {i. i < m_num_managers mm' \<and> m_pool (manager mm' i) = q}"
    using assms(2) pool_managers_config [OF assms] unfolding S pools by (simp add: mm_wf_def)
  then show "mm_wf lay mm'"
    using assms(2) G(1) S unfolding mm_wf_def by simp
qed

lemma refs_at:
  assumes "mm_ok lay mm P" "i < m_num_managers mm" "p \<in> impl_pages (manager mm i)"
  shows "refs mm p = unat (m_page_reference_counts (manager mm i) (p - region_base (manager mm i) div PageSize))"
proof -
  have "p \<notin> impl_pages (manager mm j)" if "j < m_num_managers mm" "j \<noteq> i" for j
    using mm_okD(3) [OF assms(1) that(1) assms(2) that(2)] assms(3) by blast
  then have "refs mm p = (\<Sum>j < m_num_managers mm. if j = i
      then unat (m_page_reference_counts (manager mm i) (p - region_base (manager mm i) div PageSize)) else 0)"
    unfolding refs_def using assms(3) by (intro sum.cong) auto
  then show ?thesis using assms(2) by simp
qed

lemma refs_outside: "(\<And>i. i < m_num_managers mm \<Longrightarrow> p \<notin> impl_pages (manager mm i)) \<Longrightarrow> refs mm p = 0"
  by (simp add: refs_def)

lemma tracked_at:
  assumes "mm_ok lay mm P" "i < m_num_managers mm" "p \<in> impl_pages (manager mm i)"
  shows "p \<in> tracked mm \<longleftrightarrow> marked (manager mm i) (p - region_base (manager mm i) div PageSize)"
proof -
  have "p \<notin> impl_pages (manager mm j)" if "j < m_num_managers mm" "j \<noteq> i" for j
    using mm_okD(3) [OF assms(1) that(1) assms(2) that(2)] assms(3) by blast
  then show ?thesis using assms(2,3) by (auto simp: tracked_def)
qed

lemma refs_held: "mm_ok lay mm P \<Longrightarrow> refs mm p \<noteq> 0 \<Longrightarrow> p \<in> P"
proof -
  assume ok: "mm_ok lay mm P" and nz: "refs mm p \<noteq> 0"
  then obtain i where i: "i < m_num_managers mm" "p \<in> impl_pages (manager mm i)"
    using refs_outside [of mm p] by auto
  have "m_page_reference_counts (manager mm i) (p - region_base (manager mm i) div PageSize) \<noteq> 0"
    using nz unfolding refs_at [OF ok i] by (simp add: unat_eq_0)
  then show "p \<in> P"
    by (rule impl_okD(3) [OF mm_okD(7) [OF ok i(1)] i(2)])
qed

text \<open>Replacing one manager.\<close>

definition put :: "nat \<Rightarrow> 'r Impl \<Rightarrow> 'r KMemoryManager \<Rightarrow> 'r KMemoryManager" where
  "put i I mm = mm\<lparr>m_managers := (m_managers mm)[i := I]\<rparr>"

lemma put_sel [simp]:
  "m_num_managers (put i I mm) = m_num_managers mm" "memory (put i I mm) = memory mm"
  "m_has_optimized_process (put i I mm) = m_has_optimized_process mm"
  "m_optimized_process_ids (put i I mm) = m_optimized_process_ids mm"
  "m_managers (put i I mm) = (m_managers mm)[i := I]"
  by (simp_all add: put_def)

lemma config_put:
  assumes "impl_geom I = impl_geom (manager mm i)"
  shows "config (put i I mm) = config mm"
proof -
  have "map impl_geom ((m_managers mm)[i := I]) = map impl_geom (m_managers mm)"
  proof (cases "i < length (m_managers mm)")
    case True
    then have "(map impl_geom (m_managers mm))[i := impl_geom I] = map impl_geom (m_managers mm)"
      using assms list_update_id [of "map impl_geom (m_managers mm)" i] by simp
    then show ?thesis by (simp add: map_update)
  qed (simp add: not_less list_update_beyond)
  then show ?thesis by (simp add: config_def put_def)
qed

lemma put_ok:
  assumes ok: "mm_ok lay mm P" and i: "i < m_num_managers mm" and g: "impl_geom I = impl_geom (manager mm i)"
    and I: "impl_ok I P'" and same: "\<forall>p. p \<notin> impl_pages (manager mm i) \<longrightarrow> (p \<in> P' \<longleftrightarrow> p \<in> P)"
  shows "mm_ok lay (put i I mm) P'"
    "refs (put i I mm) = (\<lambda>p. if p \<in> impl_pages (manager mm i)
       then unat (m_page_reference_counts I (p - region_base (manager mm i) div PageSize)) else refs mm p)"
    "tracked (put i I mm) = tracked mm - impl_pages (manager mm i) \<union>
       {p \<in> impl_pages (manager mm i). marked I (p - region_base (manager mm i) div PageSize)}"
proof -
  have wf: "mm_wf lay mm" using ok by (simp add: mm_ok_def)
  note c = config_put [OF g] and len = mm_okD(8) [OF ok i]
  have other: "impl_ok (manager mm j) P'" if "j < m_num_managers mm" "j \<noteq> i" for j
  proof (rule impl_ok_cong [OF mm_okD(7) [OF ok that(1)]])
    show "P' \<inter> impl_pages (manager mm j) = P \<inter> impl_pages (manager mm j)"
      using mm_okD(3) [OF ok that(1) i that(2)] same by blast
  qed
  then have "impl_ok (manager (put i I mm) j) P'" if "j < m_num_managers mm" for j
    using that I len by (cases "j = i") simp_all
  then show ok': "mm_ok lay (put i I mm) P'"
    using mm_wf_config(1) [OF c wf] by (simp add: mm_ok_def)
  note G = impl_geomD [OF g]
  show "refs (put i I mm) = (\<lambda>p. if p \<in> impl_pages (manager mm i)
       then unat (m_page_reference_counts I (p - region_base (manager mm i) div PageSize)) else refs mm p)"
  proof
    fix p
    show "refs (put i I mm) p = (if p \<in> impl_pages (manager mm i)
       then unat (m_page_reference_counts I (p - region_base (manager mm i) div PageSize)) else refs mm p)"
    proof (cases "p \<in> impl_pages (manager mm i)")
      case True
      then show ?thesis
        using refs_at [OF ok', of i p] i len G by simp
    next
      case False
      then have "(if p \<in> impl_pages (manager (put i I mm) j) then unat (m_page_reference_counts (manager (put i I mm) j)
           (p - region_base (manager (put i I mm) j) div PageSize)) else 0) =
         (if p \<in> impl_pages (manager mm j) then unat (m_page_reference_counts (manager mm j)
           (p - region_base (manager mm j) div PageSize)) else 0)" for j
        using G len by (cases "j = i") simp_all
      then show ?thesis using False by (simp add: refs_def)
    qed
  qed
  have "marked (manager (put i I mm) j) k = (if j = i then marked I k else marked (manager mm j) k)" for j k
    using len by simp
  then show "tracked (put i I mm) = tracked mm - impl_pages (manager mm i) \<union>
       {p \<in> impl_pages (manager mm i). marked I (p - region_base (manager mm i) div PageSize)}"
    using i len G mm_okD(3) [OF ok _ i]
    by (auto simp: tracked_def nth_list_update split: if_splits) (metis disjoint_iff)+
qed

section \<open>Operations on the pages of one manager\<close>

definition evolves :: "'r KMemoryManager \<Rightarrow> 'r KMemoryManager \<Rightarrow> (nat \<Rightarrow> nat) \<Rightarrow> nat set \<Rightarrow> bool" where
  "evolves mm mm' r T \<longleftrightarrow> config mm' = config mm \<and> memory mm' = memory mm \<and>
     m_optimized_process_ids mm' = m_optimized_process_ids mm \<and> m_has_optimized_process mm' = m_has_optimized_process mm \<and>
     refs mm' = r \<and> tracked mm' = T"

lemma evolvesD:
  assumes "evolves mm mm' r T"
  shows "config mm' = config mm" "memory mm' = memory mm" "m_optimized_process_ids mm' = m_optimized_process_ids mm"
    "m_has_optimized_process mm' = m_has_optimized_process mm" "refs mm' = r" "tracked mm' = T"
  using assms by (simp_all add: evolves_def)

lemma evolves_refl: "evolves mm mm (refs mm) (tracked mm)"
  by (simp add: evolves_def)

lemma evolves_trans: "evolves mm mm1 r1 T1 \<Longrightarrow> evolves mm1 mm2 r2 T2 \<Longrightarrow> evolves mm mm2 r2 T2"
  by (simp add: evolves_def)

lemma evolves_put:
  assumes ok: "mm_ok lay mm P" and i: "i < m_num_managers mm" and g: "impl_geom I = impl_geom (manager mm i)"
    and I: "impl_ok I P'" and same: "\<forall>p. p \<notin> impl_pages (manager mm i) \<longrightarrow> (p \<in> P' \<longleftrightarrow> p \<in> P)"
    and r: "\<And>p. p \<in> impl_pages (manager mm i) \<Longrightarrow>
      unat (m_page_reference_counts I (p - region_base (manager mm i) div PageSize)) = r p"
    and r': "\<And>p. p \<notin> impl_pages (manager mm i) \<Longrightarrow> r p = refs mm p"
    and T: "\<And>p. p \<in> impl_pages (manager mm i) \<Longrightarrow>
      marked I (p - region_base (manager mm i) div PageSize) \<longleftrightarrow> p \<in> T"
    and T': "\<And>p. p \<notin> impl_pages (manager mm i) \<Longrightarrow> p \<in> T \<longleftrightarrow> p \<in> tracked mm"
  shows "mm_ok lay (put i I mm) P' \<and> evolves mm (put i I mm) r T"
proof -
  note A = put_ok [OF ok i g I same]
  have "refs (put i I mm) = r"
    unfolding A(2) using r r' by auto
  moreover have "tracked (put i I mm) = T"
    unfolding A(3) using T T' by blast
  ultimately show ?thesis
    using A(1) config_put [OF g] by (simp add: evolves_def)
qed

lemma manager_block_ok:
  assumes ok: "mm_ok lay mm P" and i: "i < m_num_managers mm" and j: "j < 7"
    and alloc: "manager_block gen j random i mm = (x, mm')"
  shows "evolves mm mm' (refs mm) (tracked mm)"
    "x \<noteq> 0 \<Longrightarrow> x = x div PageSize * PageSize \<and> GetBlockSize j dvd x \<and>
      {x div PageSize..<x div PageSize + GetBlockNumPages j} \<subseteq> impl_pages (manager mm i) - P \<and>
      mm_ok lay mm' (P \<union> {x div PageSize..<x div PageSize + GetBlockNumPages j})"
    "x = 0 \<Longrightarrow> mm_ok lay mm' P \<and>
      \<not> (\<exists>p. GetBlockNumPages j dvd p \<and> {p..<p + GetBlockNumPages j} \<subseteq> impl_pages (manager mm i) - P)"
proof -
  obtain I where I: "Impl_AllocateBlock gen j random (manager mm i) = (x, I)" and mm': "mm' = put i I mm"
    using alloc by (auto simp: manager_block_def put_def split: prod.splits)
  note A = Impl_AllocateBlock_ok [OF mm_okD(7) [OF ok i] j I]
  let ?Q = "if x = 0 then P else P \<union> {x div PageSize..<x div PageSize + GetBlockNumPages j}"
  have okI: "impl_ok I ?Q"
    using A(4,5) by presburger
  have same: "\<forall>p. p \<notin> impl_pages (manager mm i) \<longrightarrow> (p \<in> ?Q \<longleftrightarrow> p \<in> P)"
    using A(4) by (cases "x = 0") auto
  have m: "marked I k = marked (manager mm i) k" for k by (simp add: marked_def A(3))
  have "mm_ok lay (put i I mm) ?Q \<and> evolves mm (put i I mm) (refs mm) (tracked mm)"
    using refs_at [OF ok i] tracked_at [OF ok i]
    by (intro evolves_put [OF ok i A(1) okI same]) (simp_all add: A(2) m)
  then show "evolves mm mm' (refs mm) (tracked mm)"
    "x \<noteq> 0 \<Longrightarrow> x = x div PageSize * PageSize \<and> GetBlockSize j dvd x \<and>
      {x div PageSize..<x div PageSize + GetBlockNumPages j} \<subseteq> impl_pages (manager mm i) - P \<and>
      mm_ok lay mm' (P \<union> {x div PageSize..<x div PageSize + GetBlockNumPages j})"
    "x = 0 \<Longrightarrow> mm_ok lay mm' P \<and>
      \<not> (\<exists>p. GetBlockNumPages j dvd p \<and> {p..<p + GetBlockNumPages j} \<subseteq> impl_pages (manager mm i) - P)"
    using A(4,5) unfolding mm' by auto
qed

lemma with_manager_put: "with_manager i f mm = put i (f (manager mm i)) mm"
  by (simp add: with_manager_def put_def)

lemma try_manager_put: "try_manager i f mm = map_option (\<lambda>I. put i I mm) (f (manager mm i))"
  by (cases "f (manager mm i)") (simp_all add: try_manager_def put_def)

lemma free_pages_ok:
  assumes ok: "mm_ok lay mm P" and i: "i < m_num_managers mm"
    and sub: "{p..<p + n} \<subseteq> impl_pages (manager mm i) \<inter> P" and z: "\<And>q. q \<in> {p..<p + n} \<Longrightarrow> refs mm q = 0"
  shows "mm_ok lay (with_manager i (Impl_Free (p * PageSize) n) mm) (P - {p..<p + n}) \<and>
    evolves mm (with_manager i (Impl_Free (p * PageSize) n) mm) (refs mm) (tracked mm)"
proof -
  let ?I = "Impl_Free (p * PageSize) n (manager mm i)"
  have rc: "m_page_reference_counts (manager mm i) (q - region_base (manager mm i) div PageSize) = 0" if "q \<in> {p..<p + n}" for q
    using z [OF that] refs_at [OF ok i, of q] sub that by (auto simp: unat_eq_0)
  have A: "impl_ok ?I (P - {p..<p + n})" "impl_geom ?I = impl_geom (manager mm i)"
    by (rule Impl_Free_ok [OF mm_okD(7) [OF ok i] sub rc], assumption)+
  have m: "marked ?I k = marked (manager mm i) k" for k by (simp add: marked_def)
  show ?thesis
    unfolding with_manager_put using refs_at [OF ok i] tracked_at [OF ok i] sub
    by (intro evolves_put [OF ok i A(2,1)]) (auto simp: m)
qed

lemma page_offset:
  assumes "impl_ok I P" "p \<in> impl_pages I"
  shows "GetPageOffset I (p * PageSize) = p - region_base I div PageSize" "region_base I div PageSize \<le> p"
    "p < (region_base I + region_size I) div PageSize"
proof -
  show "region_base I div PageSize \<le> p" "p < (region_base I + region_size I) div PageSize"
    using assms(2) by (simp_all add: impl_pages_def)
  have "p * PageSize - region_base I = (p - region_base I div PageSize) * PageSize"
    using aligned_implD(1) [OF impl_okD(1) [OF assms(1)]] by (simp add: diff_mult_distrib)
  then show "GetPageOffset I (p * PageSize) = p - region_base I div PageSize"
    by (simp add: GetPageOffset_def)
qed

lemma put_refs_ok:
  assumes ok: "mm_ok lay mm P" and i: "i < m_num_managers mm"
    and rc: "\<And>q. q \<in> impl_pages (manager mm i) \<Longrightarrow> unat (rc (q - region_base (manager mm i) div PageSize)) = r q"
    and out: "\<And>q. q \<notin> impl_pages (manager mm i) \<Longrightarrow> r q = refs mm q"
    and held: "\<And>q. q \<in> impl_pages (manager mm i) \<Longrightarrow> r q \<noteq> 0 \<Longrightarrow> q \<in> P"
  shows "mm_ok lay (put i ((manager mm i)\<lparr>m_page_reference_counts := rc\<rparr>) mm) P \<and>
    evolves mm (put i ((manager mm i)\<lparr>m_page_reference_counts := rc\<rparr>) mm) r (tracked mm)"
proof -
  let ?I = "manager mm i" and ?J = "(manager mm i)\<lparr>m_page_reference_counts := rc\<rparr>"
  note okI = mm_okD(7) [OF ok i]
  have g: "impl_geom ?J = impl_geom ?I" by (simp add: impl_geom_def)
  have okJ: "impl_ok ?J P"
  proof (rule impl_okI [OF okI g])
    fix q assume q: "q \<in> impl_pages ?I" "m_page_reference_counts ?J (q - region_base ?I div PageSize) \<noteq> 0"
    then have "r q \<noteq> 0" using rc [OF q(1)] by (auto simp: unat_eq_0 [symmetric])
    then show "q \<in> P" by (rule held [OF q(1)])
  qed (use impl_okD(2) [OF okI] in simp)
  have m: "marked ?J k = marked ?I k" for k by (simp add: marked_def)
  show ?thesis
    using rc out tracked_at [OF ok i] by (intro evolves_put [OF ok i g okJ]) (simp_all add: m)
qed

text \<open>The pages of a range and their offsets in the region.\<close>

lemma page_offsets:
  assumes "impl_ok I P" "0 < n" "{p..<p + n} \<subseteq> impl_pages I"
  shows "GetPageOffset I (p * PageSize) = p - region_base I div PageSize"
    "q \<in> impl_pages I \<Longrightarrow> p - region_base I div PageSize \<le> q - region_base I div PageSize \<and>
      q - region_base I div PageSize < p - region_base I div PageSize + n \<longleftrightarrow> q \<in> {p..<p + n}"
    "p - region_base I div PageSize \<le> j \<Longrightarrow> j < p - region_base I div PageSize + n \<Longrightarrow>
      region_base I div PageSize + j \<in> {p..<p + n}"
proof -
  have p: "p \<in> impl_pages I" using assms(2,3) by auto
  note O = page_offset [OF assms(1) p]
  show "GetPageOffset I (p * PageSize) = p - region_base I div PageSize" by (rule O(1))
  show "p - region_base I div PageSize \<le> q - region_base I div PageSize \<and>
      q - region_base I div PageSize < p - region_base I div PageSize + n \<longleftrightarrow> q \<in> {p..<p + n}" if "q \<in> impl_pages I"
    using page_offset(2) [OF assms(1) that] O(2) by auto
  show "region_base I div PageSize + j \<in> {p..<p + n}"
    if "p - region_base I div PageSize \<le> j" "j < p - region_base I div PageSize + n"
    using that O(2) by auto
qed

lemma open_first_pages_ok:
  assumes ok: "mm_ok lay mm P" and i: "i < m_num_managers mm" and n: "0 < n"
    and sub: "{p..<p + n} \<subseteq> impl_pages (manager mm i)" and held: "{p..<p + n} \<subseteq> P"
    and z: "\<And>q. q \<in> {p..<p + n} \<Longrightarrow> refs mm q = 0"
  shows "\<exists>mm'. open_first_pages i (p * PageSize) n mm = Some mm' \<and> mm_ok lay mm' P \<and>
    evolves mm mm' (\<lambda>q. if q \<in> {p..<p + n} then 1 else refs mm q) (tracked mm)"
proof -
  let ?I = "manager mm i" and ?b = "region_base (manager mm i) div PageSize"
  note O = page_offsets [OF mm_okD(7) [OF ok i] n sub]
  have rc: "m_page_reference_counts ?I j = 0" if j: "p - ?b \<le> j" "j < p - ?b + n" for j
    using z [OF O(3) [OF j]] refs_at [OF ok i, of "?b + j"] sub O(3) [OF j] by (auto simp: unat_eq_0)
  let ?rc = "\<lambda>j. if p - ?b \<le> j \<and> j < p - ?b + n then 1 else m_page_reference_counts ?I j"
  let ?r = "\<lambda>q. if q \<in> {p..<p + n} then 1 else refs mm q"
  have run: "open_first_pages i (p * PageSize) n mm = Some (put i (?I\<lparr>m_page_reference_counts := ?rc\<rparr>) mm)"
    unfolding open_first_pages_def try_manager_put Impl_OpenFirst_def O(1) using open_first_loop_ok [OF rc] by simp
  have "mm_ok lay (put i (?I\<lparr>m_page_reference_counts := ?rc\<rparr>) mm) P \<and>
    evolves mm (put i (?I\<lparr>m_page_reference_counts := ?rc\<rparr>) mm) ?r (tracked mm)"
  proof (rule put_refs_ok [OF ok i])
    show "unat (?rc (q - ?b)) = ?r q" if "q \<in> impl_pages ?I" for q
      using refs_at [OF ok i that] unfolding O(2) [OF that] by simp
    show "?r q = refs mm q" if "q \<notin> impl_pages ?I" for q using sub that by auto
    show "q \<in> P" if "?r q \<noteq> 0" for q using held refs_held [OF ok] that by (auto split: if_splits)
  qed
  then show ?thesis using run by blast
qed

lemma open_pages_ok:
  assumes ok: "mm_ok lay mm P" and i: "i < m_num_managers mm" and n: "0 < n"
    and sub: "{p..<p + n} \<subseteq> impl_pages (manager mm i)"
    and z: "\<And>q. q \<in> {p..<p + n} \<Longrightarrow> 0 < refs mm q \<and> refs mm q < 2 ^ 16 - 1"
  shows "\<exists>mm'. try_manager i (Impl_Open (p * PageSize) n) mm = Some mm' \<and> mm_ok lay mm' P \<and>
    evolves mm mm' (\<lambda>q. if q \<in> {p..<p + n} then refs mm q + 1 else refs mm q) (tracked mm)"
proof -
  let ?I = "manager mm i" and ?b = "region_base (manager mm i) div PageSize"
  note O = page_offsets [OF mm_okD(7) [OF ok i] n sub]
  have rc: "0 < unat (m_page_reference_counts ?I j) \<and> unat (m_page_reference_counts ?I j) < 2 ^ 16 - 1"
    if j: "p - ?b \<le> j" "j < p - ?b + n" for j
    using z [OF O(3) [OF j]] refs_at [OF ok i, of "?b + j"] sub O(3) [OF j] by auto
  let ?rc = "\<lambda>j. if p - ?b \<le> j \<and> j < p - ?b + n then m_page_reference_counts ?I j + 1 else m_page_reference_counts ?I j"
  let ?r = "\<lambda>q. if q \<in> {p..<p + n} then refs mm q + 1 else refs mm q"
  have run: "try_manager i (Impl_Open (p * PageSize) n) mm = Some (put i (?I\<lparr>m_page_reference_counts := ?rc\<rparr>) mm)"
    unfolding try_manager_put Impl_Open_def O(1) using open_loop_ok [OF rc] by simp
  have inc: "unat (m_page_reference_counts ?I (q - ?b) + 1) = refs mm q + 1"
    if q: "q \<in> impl_pages ?I" "q \<in> {p..<p + n}" for q
    using z [OF q(2)] refs_at [OF ok i q(1)] by (subst unat_add_lem [THEN iffD1]) simp_all
  have "mm_ok lay (put i (?I\<lparr>m_page_reference_counts := ?rc\<rparr>) mm) P \<and>
    evolves mm (put i (?I\<lparr>m_page_reference_counts := ?rc\<rparr>) mm) ?r (tracked mm)"
  proof (rule put_refs_ok [OF ok i])
    show "unat (?rc (q - ?b)) = ?r q" if "q \<in> impl_pages ?I" for q
      using refs_at [OF ok i that] inc [OF that] unfolding O(2) [OF that] by simp
    show "?r q = refs mm q" if "q \<notin> impl_pages ?I" for q using sub that by auto
    show "q \<in> P" if "?r q \<noteq> 0" for q using z [of q] refs_held [OF ok, of q] that by (auto split: if_splits)
  qed
  then show ?thesis using run by blast
qed

lemma close_pages_ok:
  assumes ok: "mm_ok lay mm P" and i: "i < m_num_managers mm" and n: "0 < n"
    and sub: "{p..<p + n} \<subseteq> impl_pages (manager mm i)" and z: "\<And>q. q \<in> {p..<p + n} \<Longrightarrow> 0 < refs mm q"
  shows "\<exists>mm'. try_manager i (Impl_Close (p * PageSize) n) mm = Some mm' \<and>
    mm_ok lay mm' (P - {q \<in> {p..<p + n}. refs mm q = 1}) \<and>
    evolves mm mm' (\<lambda>q. if q \<in> {p..<p + n} then refs mm q - 1 else refs mm q) (tracked mm)"
proof -
  let ?I = "manager mm i" and ?b = "region_base (manager mm i) div PageSize"
  let ?r = "\<lambda>q. if q \<in> {p..<p + n} then refs mm q - 1 else refs mm q" and ?Q = "P - {q \<in> {p..<p + n}. refs mm q = 1}"
  note okI = mm_okD(7) [OF ok i]
  note O = page_offsets [OF okI n sub]
  have at: "m_page_reference_counts ?I j \<noteq> 0 \<and> ?b + j \<in> impl_pages ?I \<and>
      (m_page_reference_counts ?I j = 1 \<longleftrightarrow> refs mm (?b + j) = 1)" if j: "p - ?b \<le> j" "j < p - ?b + n" for j
  proof -
    have in_pages: "?b + j \<in> impl_pages ?I" using sub O(3) [OF j] by blast
    have "refs mm (?b + j) = unat (m_page_reference_counts ?I j)" using refs_at [OF ok i in_pages] by simp
    moreover have "unat (m_page_reference_counts ?I j) = 1 \<longleftrightarrow> m_page_reference_counts ?I j = 1"
      using word_unat_eq_iff [of "m_page_reference_counts ?I j" 1] by simp
    ultimately show ?thesis using z [OF O(3) [OF j]] in_pages by auto
  qed
  have "last_refs ?I (p - ?b) n = {q \<in> {p..<p + n}. refs mm q = 1}"
  proof (intro set_eqI iffI)
    fix q assume "q \<in> last_refs ?I (p - ?b) n"
    then obtain j where "q = ?b + j" "p - ?b \<le> j" "j < p - ?b + n" "m_page_reference_counts ?I j = 1"
      by (auto simp: last_refs_def)
    then show "q \<in> {q \<in> {p..<p + n}. refs mm q = 1}" using at [of j] O(3) [of j] by simp
  next
    fix q assume q: "q \<in> {q \<in> {p..<p + n}. refs mm q = 1}"
    then have "q \<in> impl_pages ?I" using sub by blast
    then have "p - ?b \<le> q - ?b" "q - ?b < p - ?b + n" "?b + (q - ?b) = q"
      using O(2) [of q] q page_offset(2) [OF okI] by auto
    then show "q \<in> last_refs ?I (p - ?b) n"
      using at [of "q - ?b"] q unfolding last_refs_def by (intro CollectI exI [of _ "q - ?b"]) simp
  qed
  moreover have "\<exists>I'. close_loop n (p - ?b) 0 0 ?I = Some I' \<and>
      dropped ?I (p - ?b) n (P - pending ?I 0 0 - last_refs ?I (p - ?b) n) I'"
    using at by (intro close_loop_ok [OF okI]) (auto simp: pending_ok_def)
  ultimately obtain I' where I': "close_loop n (p - ?b) 0 0 ?I = Some I'" "dropped ?I (p - ?b) n ?Q I'"
    by (auto simp: pending_def)
  have run: "try_manager i (Impl_Close (p * PageSize) n) mm = Some (put i I' mm)"
    unfolding try_manager_put Impl_Close_def O(1) using I'(1) by simp
  have D: "impl_geom I' = impl_geom ?I" "m_optimize_map I' = m_optimize_map ?I" "impl_ok I' ?Q"
    and rc: "\<And>j. m_page_reference_counts I' j = (if p - ?b \<le> j \<and> j < p - ?b + n
       then m_page_reference_counts ?I j - 1 else m_page_reference_counts ?I j)"
    using I'(2) by (simp_all add: dropped_def)
  have dec: "unat (m_page_reference_counts I' (q - ?b)) = ?r q" if q: "q \<in> impl_pages ?I" for q
  proof (cases "q \<in> {p..<p + n}")
    case True
    have nz: "m_page_reference_counts ?I (q - ?b) \<noteq> 0"
      using z [OF True] refs_at [OF ok i q] by auto
    then show ?thesis
      using True refs_at [OF ok i q] unat_minus_one [OF nz] unfolding rc O(2) [OF q] by simp
  next
    case False
    then show ?thesis using refs_at [OF ok i q] unfolding rc O(2) [OF q] by auto
  qed
  have m: "marked I' k = marked ?I k" for k by (simp add: marked_def D(2))
  have "mm_ok lay (put i I' mm) ?Q \<and> evolves mm (put i I' mm) ?r (tracked mm)"
    using sub dec tracked_at [OF ok i] by (intro evolves_put [OF ok i D(1,3)]) (auto simp: m)
  then show ?thesis using run by blast
qed

section \<open>Tracking\<close>

lemma div_mod_eq_iff: "(j :: nat) div 64 = k div 64 \<and> j mod 64 = k mod 64 \<longleftrightarrow> j = k"
  by (metis div_mult_mod_eq)

lemma untrack_loop_bit:
  "bit (untrack_loop n k mp (j div 64)) (j mod 64) \<longleftrightarrow> bit (mp (j div 64)) (j mod 64) \<and> \<not> (k \<le> j \<and> j < k + n)"
proof (induction n arbitrary: k mp)
  case (Suc n)
  define mp' where "mp' = mp(k div 64 := mp (k div 64) AND NOT (push_bit (k mod 64) 1))"
  have bit: "bit (mp' (j div 64)) (j mod 64) \<longleftrightarrow> bit (mp (j div 64)) (j mod 64) \<and> j \<noteq> k"
    unfolding mp'_def using div_mod_eq_iff [of j k] by (auto simp: bit_simps)
  have "untrack_loop (Suc n) k mp = untrack_loop n (k + 1) mp'"
    by (simp only: untrack_loop.simps mp'_def)
  then show ?case
    using Suc.IH [of "k + 1" mp'] bit by auto
qed auto

lemma track_loop_bit:
  "bit (track_loop n k mp (j div 64)) (j mod 64) \<longleftrightarrow> bit (mp (j div 64)) (j mod 64) \<or> k \<le> j \<and> j < k + n"
proof (induction n arbitrary: k mp)
  case (Suc n)
  define mp' where "mp' = mp(k div 64 := mp (k div 64) OR push_bit (k mod 64) 1)"
  have bit: "bit (mp' (j div 64)) (j mod 64) \<longleftrightarrow> bit (mp (j div 64)) (j mod 64) \<or> j = k"
    unfolding mp'_def using div_mod_eq_iff [of j k] by (auto simp: bit_simps)
  have "track_loop (Suc n) k mp = track_loop n (k + 1) mp'"
    by (simp only: track_loop.simps mp'_def)
  then show ?case
    using Suc.IH [of "k + 1" mp'] bit by auto
qed auto

lemma put_marks_ok:
  assumes ok: "mm_ok lay mm P" and i: "i < m_num_managers mm"
    and m: "\<And>q. q \<in> impl_pages (manager mm i) \<Longrightarrow>
      marked ((manager mm i)\<lparr>m_optimize_map := mp\<rparr>) (q - region_base (manager mm i) div PageSize) \<longleftrightarrow> q \<in> T"
    and out: "\<And>q. q \<notin> impl_pages (manager mm i) \<Longrightarrow> q \<in> T \<longleftrightarrow> q \<in> tracked mm"
  shows "mm_ok lay (put i ((manager mm i)\<lparr>m_optimize_map := mp\<rparr>) mm) P \<and>
    evolves mm (put i ((manager mm i)\<lparr>m_optimize_map := mp\<rparr>) mm) (refs mm) T"
proof -
  let ?I = "manager mm i" and ?J = "(manager mm i)\<lparr>m_optimize_map := mp\<rparr>"
  have g: "impl_geom ?J = impl_geom ?I" by (simp add: impl_geom_def)
  have "impl_ok ?J P"
    using impl_okD(2,3) [OF mm_okD(7) [OF ok i]] by (intro impl_okI [OF mm_okD(7) [OF ok i] g]) simp_all
  then show ?thesis
    using m out refs_at [OF ok i] by (intro evolves_put [OF ok i g]) simp_all
qed

lemma untrack_pages_ok:
  assumes ok: "mm_ok lay mm P" and i: "i < m_num_managers mm" and n: "0 < n"
    and sub: "{p..<p + n} \<subseteq> impl_pages (manager mm i)"
  shows "mm_ok lay (with_manager i (TrackUnoptimizedAllocation (p * PageSize) n) mm) P \<and>
    evolves mm (with_manager i (TrackUnoptimizedAllocation (p * PageSize) n) mm) (refs mm) (tracked mm - {p..<p + n})"
proof -
  note O = page_offsets [OF mm_okD(7) [OF ok i] n sub]
  show ?thesis
    unfolding with_manager_put TrackUnoptimizedAllocation_def O(1)
  proof (rule put_marks_ok [OF ok i])
    fix q assume q: "q \<in> impl_pages (manager mm i)"
    show "marked ((manager mm i)\<lparr>m_optimize_map := untrack_loop n (p - region_base (manager mm i) div PageSize)
        (m_optimize_map (manager mm i))\<rparr>) (q - region_base (manager mm i) div PageSize) \<longleftrightarrow> q \<in> tracked mm - {p..<p + n}"
      using tracked_at [OF ok i q] unfolding marked_def by (simp add: untrack_loop_bit O(2) [OF q] del: atLeastLessThan_iff)
  qed (use sub in auto)
qed

lemma track_pages_ok:
  assumes ok: "mm_ok lay mm P" and i: "i < m_num_managers mm" and n: "0 < n"
    and sub: "{p..<p + n} \<subseteq> impl_pages (manager mm i)"
  shows "mm_ok lay (with_manager i (TrackOptimizedAllocation (p * PageSize) n) mm) P \<and>
    evolves mm (with_manager i (TrackOptimizedAllocation (p * PageSize) n) mm) (refs mm) (tracked mm \<union> {p..<p + n})"
proof -
  note O = page_offsets [OF mm_okD(7) [OF ok i] n sub]
  show ?thesis
    unfolding with_manager_put TrackOptimizedAllocation_def O(1)
  proof (rule put_marks_ok [OF ok i])
    fix q assume q: "q \<in> impl_pages (manager mm i)"
    show "marked ((manager mm i)\<lparr>m_optimize_map := track_loop n (p - region_base (manager mm i) div PageSize)
        (m_optimize_map (manager mm i))\<rparr>) (q - region_base (manager mm i) div PageSize) \<longleftrightarrow> q \<in> tracked mm \<union> {p..<p + n}"
      using tracked_at [OF ok i q] unfolding marked_def by (simp add: track_loop_bit O(2) [OF q] del: atLeastLessThan_iff)
  qed (use sub in auto)
qed

section \<open>Ranges that span managers\<close>

definition all_pages :: "'r KMemoryManager \<Rightarrow> nat set" where
  "all_pages mm = (\<Union>i \<in> {..<m_num_managers mm}. impl_pages (manager mm i))"

lemma pool_pages_all: "pool_pages mm pool \<subseteq> all_pages mm"
  by (auto simp: pool_pages_def all_pages_def)

text \<open>The part of a range that the manager of its first page handles.\<close>

lemma chunk:
  assumes ok: "mm_ok lay mm P" and c: "config mm' = config mm" and q: "q \<in> all_pages mm" and n: "0 < n"
  shows "\<exists>i m. GetManager lay (q * PageSize) = Some i \<and> i < m_num_managers mm \<and> 0 < m \<and> m \<le> n \<and>
    min n (GetPageOffsetToEnd (manager mm' i) (q * PageSize)) = m \<and> {q..<q + m} \<subseteq> impl_pages (manager mm i)"
proof -
  from q obtain i where i: "i < m_num_managers mm" and qi: "q \<in> impl_pages (manager mm i)"
    by (auto simp: all_pages_def)
  let ?I = "manager mm i"
  let ?e = "(region_base ?I + region_size ?I) div PageSize"
  note G = config_geom [OF c _ i, of lay]
  have wf: "mm_wf lay mm" using ok by (simp add: mm_ok_def)
  have "Impl_GetEndAddress (manager mm' i) = ?e * PageSize"
    using aligned_implD(2) [OF impl_okD(1) [OF mm_okD(7) [OF ok i]]] G(2,4) [OF wf] by (simp add: Impl_GetEndAddress_def)
  then have off: "GetPageOffsetToEnd (manager mm' i) (q * PageSize) = ?e - q"
    by (simp add: GetPageOffsetToEnd_def flip: diff_mult_distrib)
  have "region_base ?I div PageSize \<le> q" "q < ?e"
    using qi by (simp_all add: impl_pages_def)
  then have "{q..<q + min n (?e - q)} \<subseteq> impl_pages ?I" "0 < min n (?e - q)"
    using n by (auto simp: impl_pages_def)
  then show ?thesis
    using mm_okD(4) [OF ok i qi] i off by (intro exI [of _ i] exI [of _ "min n (?e - q)"]) simp
qed

lemma for_managers_ok:
  assumes ok: "mm_ok lay mm P" and sub: "{p..<p + n} \<subseteq> all_pages mm" and start: "Q 0 mm"
    and conf: "\<And>k mm'. Q k mm' \<Longrightarrow> config mm' = config mm"
    and step: "\<And>k m mm' i. Q k mm' \<Longrightarrow> 0 < m \<Longrightarrow> k + m \<le> n \<Longrightarrow> i < m_num_managers mm \<Longrightarrow>
      {p + k..<p + k + m} \<subseteq> impl_pages (manager mm i) \<Longrightarrow>
      \<exists>mm''. f i ((p + k) * PageSize) m mm' = Some mm'' \<and> Q (k + m) mm''"
  shows "\<exists>mm'. for_managers lay f (p * PageSize) n mm = Some mm' \<and> Q n mm'"
proof -
  have "\<exists>mm''. for_managers lay f ((p + k) * PageSize) (n - k) mm' = Some mm'' \<and> Q n mm''"
    if "Q k mm'" "k \<le> n" for k mm'
    using that
  proof (induction "n - k" arbitrary: k mm' rule: less_induct)
    case less
    show ?case
    proof (cases "k = n")
      case True
      then show ?thesis using less.prems by (simp add: for_managers.simps [of _ _ _ 0])
    next
      case False
      then have k: "k < n" using less.prems by simp
      have "p + k \<in> all_pages mm" using sub k by auto
      moreover have "0 < n - k" using k by simp
      ultimately obtain i m where
        i: "GetManager lay ((p + k) * PageSize) = Some i" "i < m_num_managers mm" and
        m: "0 < m" "m \<le> n - k" "min (n - k) (GetPageOffsetToEnd (manager mm' i) ((p + k) * PageSize)) = m" and
        im: "{p + k..<p + k + m} \<subseteq> impl_pages (manager mm i)"
        using chunk [OF ok conf [OF less.prems(1)]] by blast
      have "k + m \<le> n" using m(2) k by simp
      then obtain mm1 where mm1: "f i ((p + k) * PageSize) m mm' = Some mm1" "Q (k + m) mm1"
        using step [OF less.prems(1) m(1) _ i(2) im] by blast
      have "for_managers lay f ((p + k) * PageSize) (n - k) mm' =
          for_managers lay f ((p + (k + m)) * PageSize) (n - (k + m)) mm1"
        using k i(1) m mm1(1) by (subst for_managers.simps) (simp add: algebra_simps)
      then show ?thesis
        using less.hyps [of "k + m" mm1] mm1(2) m k by simp
    qed
  qed
  from this [OF start] show ?thesis by simp
qed

lemma all_pages_config: "config mm' = config mm \<Longrightarrow> mm_wf lay mm \<Longrightarrow> all_pages mm' = all_pages mm"
  using config_geom(1) config_sel(1) by (fastforce simp: all_pages_def)

lemma refs_all_pages: "0 < refs mm q \<Longrightarrow> q \<in> all_pages mm"
  using refs_outside [of mm q] by (auto simp: all_pages_def)

lemma mm_ok_wf: "mm_ok lay mm P \<Longrightarrow> mm_wf lay mm"
  by (simp add: mm_ok_def)

text \<open>References to a set of pages are added or dropped.\<close>

definition first_refs :: "nat set \<Rightarrow> (nat \<Rightarrow> nat) \<Rightarrow> nat \<Rightarrow> nat" where
  "first_refs A r q = (if q \<in> A then 1 else r q)"

definition more_refs :: "nat set \<Rightarrow> (nat \<Rightarrow> nat) \<Rightarrow> nat \<Rightarrow> nat" where
  "more_refs A r q = (if q \<in> A then r q + 1 else r q)"

definition less_refs :: "nat set \<Rightarrow> (nat \<Rightarrow> nat) \<Rightarrow> nat \<Rightarrow> nat" where
  "less_refs A r q = (if q \<in> A then r q - 1 else r q)"

lemma refs_step:
  "{a..<b} \<inter> A = {} \<Longrightarrow> (\<lambda>q. if q \<in> {a..<b} then 1 else first_refs A r q) = first_refs (A \<union> {a..<b}) r"
  "{a..<b} \<inter> A = {} \<Longrightarrow> (\<lambda>q. if q \<in> {a..<b} then more_refs A r q + 1 else more_refs A r q) = more_refs (A \<union> {a..<b}) r"
  "{a..<b} \<inter> A = {} \<Longrightarrow> (\<lambda>q. if q \<in> {a..<b} then less_refs A r q - 1 else less_refs A r q) = less_refs (A \<union> {a..<b}) r"
  by (auto simp: first_refs_def more_refs_def less_refs_def fun_eq_iff)

lemma refs_none [simp]: "first_refs {} r = r" "more_refs {} r = r" "less_refs {} r = r"
  by (simp_all add: first_refs_def more_refs_def less_refs_def fun_eq_iff)

lemma range_split: "{p..<p + (k + m)} = {p..<p + k} \<union> {p + k..<p + k + m}" "{p + k..<p + k + m} \<inter> {p..<p + k} = {}"
  for p :: nat
  by auto

text \<open>
  An operation on chunks of pages that keeps a property \<open>J\<close> of the pages done so far keeps it over
  a range and over a group.
\<close>

definition chunk_law ::
    "'r KMemoryManager \<Rightarrow> (nat \<Rightarrow> nat \<Rightarrow> nat \<Rightarrow> 'r KMemoryManager \<Rightarrow> 'r KMemoryManager option) \<Rightarrow> nat set \<Rightarrow>
     (nat set \<Rightarrow> 'r KMemoryManager \<Rightarrow> bool) \<Rightarrow> bool" where
  "chunk_law mm0 f R J \<longleftrightarrow> R \<subseteq> all_pages mm0 \<and> (\<forall>A mm. J A mm \<longrightarrow> config mm = config mm0) \<and>
     (\<forall>A mm i p m. J A mm \<longrightarrow> i < m_num_managers mm0 \<longrightarrow> 0 < m \<longrightarrow> {p..<p + m} \<subseteq> R - A \<longrightarrow>
        {p..<p + m} \<subseteq> impl_pages (manager mm0 i) \<longrightarrow>
        (\<exists>mm'. f i (p * PageSize) m mm = Some mm' \<and> J (A \<union> {p..<p + m}) mm'))"

lemma chunk_lawI:
  assumes "R \<subseteq> all_pages mm0" "\<And>A mm. J A mm \<Longrightarrow> config mm = config mm0"
    "\<And>A mm i p m. J A mm \<Longrightarrow> i < m_num_managers mm0 \<Longrightarrow> 0 < m \<Longrightarrow> {p..<p + m} \<subseteq> R - A \<Longrightarrow>
      {p..<p + m} \<subseteq> impl_pages (manager mm0 i) \<Longrightarrow> \<exists>mm'. f i (p * PageSize) m mm = Some mm' \<and> J (A \<union> {p..<p + m}) mm'"
  shows "chunk_law mm0 f R J"
  using assms unfolding chunk_law_def by blast

lemma chunk_lawD:
  assumes "chunk_law mm0 f R J"
  shows "R \<subseteq> all_pages mm0" "J A mm \<Longrightarrow> config mm = config mm0"
    "J A mm \<Longrightarrow> i < m_num_managers mm0 \<Longrightarrow> 0 < m \<Longrightarrow> {p..<p + m} \<subseteq> R - A \<Longrightarrow>
      {p..<p + m} \<subseteq> impl_pages (manager mm0 i) \<Longrightarrow> \<exists>mm'. f i (p * PageSize) m mm = Some mm' \<and> J (A \<union> {p..<p + m}) mm'"
  using assms unfolding chunk_law_def by blast+

lemma range_law:
  assumes law: "chunk_law mm0 f R J" and ok0: "mm_ok lay mm0 P0" and ok: "mm_ok lay mm P" and J: "J A mm"
    and sub: "{p..<p + n} \<subseteq> R - A"
  shows "\<exists>mm'. for_managers lay f (p * PageSize) n mm = Some mm' \<and> J (A \<union> {p..<p + n}) mm'"
proof -
  note c = chunk_lawD(2) [OF law J]
  have "\<exists>mm'. for_managers lay f (p * PageSize) n mm = Some mm' \<and> (\<lambda>k. J (A \<union> {p..<p + k})) n mm'"
  proof (rule for_managers_ok [OF ok])
    show "{p..<p + n} \<subseteq> all_pages mm"
      using sub chunk_lawD(1) [OF law] all_pages_config [OF c mm_ok_wf [OF ok0]] by blast
    show "J (A \<union> {p..<p + 0}) mm" using J by simp
    show "config mm' = config mm" if "J (A \<union> {p..<p + k}) mm'" for k mm'
      using chunk_lawD(2) [OF law that] c by simp
    fix k m mm' i
    assume J': "J (A \<union> {p..<p + k}) mm'" and m: "0 < m" "k + m \<le> n" and i: "i < m_num_managers mm"
      and im: "{p + k..<p + k + m} \<subseteq> impl_pages (manager mm i)"
    have i0: "i < m_num_managers mm0" using i config_sel(1) [OF c] by simp
    have "{p + k..<p + k + m} \<subseteq> {p..<p + n}" using m(2) by auto
    then have "{p + k..<p + k + m} \<subseteq> R - (A \<union> {p..<p + k})" using sub range_split(2) [of p k m] by blast
    moreover have "{p + k..<p + k + m} \<subseteq> impl_pages (manager mm0 i)"
      using im config_geom(1) [OF c mm_ok_wf [OF ok0] i0] by simp
    ultimately show "\<exists>mm''. f i ((p + k) * PageSize) m mm' = Some mm'' \<and> J (A \<union> {p..<p + (k + m)}) mm''"
      using chunk_lawD(3) [OF law J' i0 m(1)] unfolding range_split(1) Un_assoc by blast
  qed
  then show ?thesis by simp
qed

lemma group_law:
  assumes law: "chunk_law mm0 f R J" and ok0: "mm_ok lay mm0 P0"
    and oks: "\<And>A mm. J A mm \<Longrightarrow> \<exists>P. mm_ok lay mm P" and J: "J A mm"
    and g: "distinct (group_pages g)" "set (group_pages g) \<subseteq> R - A"
  shows "\<exists>mm'. for_blocks lay f g mm = Some mm' \<and> J (A \<union> set (group_pages g)) mm'"
  using J g
proof (induction g arbitrary: A mm)
  case (Cons x g)
  obtain node b where x: "x = (node, b)" by (cases x)
  let ?p = "unat (m_page_index b)" and ?n = "unat (m_num_pages b)"
  have bp: "set (block_pages b) = {?p..<?p + ?n}" by (simp add: block_pages_def)
  obtain P where ok: "mm_ok lay mm P" using oks [OF Cons.prems(1)] by blast
  have "{?p..<?p + ?n} \<subseteq> R - A" using Cons.prems(3) bp x by simp
  from range_law [where J = J, OF law ok0 ok Cons.prems(1) this]
  obtain mm1 where mm1: "for_managers lay f (?p * PageSize) ?n mm = Some mm1" "J (A \<union> {?p..<?p + ?n}) mm1"
    by blast
  have "\<exists>mm'. for_blocks lay f g mm1 = Some mm' \<and> J (A \<union> {?p..<?p + ?n} \<union> set (group_pages g)) mm'"
    using Cons.prems(2,3) bp x by (intro Cons.IH [OF mm1(2)]) auto
  then show ?case
    using mm1(1) bp x by (simp add: KBlockInfo_GetAddress_def KBlockInfo_GetNumPages_def Un_assoc)
qed simp

lemma chunk_in:
  assumes "config mm = config mm0" "mm_wf lay mm0" "i < m_num_managers mm0" "A \<subseteq> impl_pages (manager mm0 i)"
  shows "i < m_num_managers mm" "A \<subseteq> impl_pages (manager mm i)"
  using assms config_sel(1) [OF assms(1)] config_geom(1) [OF assms(1-3)] by simp_all

lemma open_first_law:
  assumes ok0: "mm_ok lay mm0 P" and R: "R \<subseteq> all_pages mm0" "R \<subseteq> P" and z: "\<And>q. q \<in> R \<Longrightarrow> refs mm0 q = 0"
  shows "chunk_law mm0 open_first_pages R (\<lambda>A mm. mm_ok lay mm P \<and> evolves mm0 mm (first_refs A (refs mm0)) (tracked mm0))"
    (is "chunk_law _ _ _ ?J")
proof (rule chunk_lawI [OF R(1)])
  show "config mm = config mm0" if "?J A mm" for A mm using that by (simp add: evolves_def)
  fix A mm i p m
  assume J: "?J A mm" and i: "i < m_num_managers mm0" and m: "0 < m" and sub: "{p..<p + m} \<subseteq> R - A"
    and im: "{p..<p + m} \<subseteq> impl_pages (manager mm0 i)"
  note e = evolvesD [OF conjunct2 [OF J]]
  note ch = chunk_in [OF e(1) mm_ok_wf [OF ok0] i im]
  have "refs mm q = 0" if "q \<in> {p..<p + m}" for q
    using that sub z by (auto simp: e(5) first_refs_def)
  then have "\<exists>mm'. open_first_pages i (p * PageSize) m mm = Some mm' \<and> mm_ok lay mm' P \<and>
    evolves mm mm' (\<lambda>q. if q \<in> {p..<p + m} then 1 else refs mm q) (tracked mm)"
    using J sub R(2) by (intro open_first_pages_ok [OF _ ch(1) m ch(2)]) blast+
  moreover have "{p..<p + m} \<inter> A = {}" using sub by blast
  ultimately show "\<exists>mm'. open_first_pages i (p * PageSize) m mm = Some mm' \<and> ?J (A \<union> {p..<p + m}) mm'"
    using evolves_trans [OF conjunct2 [OF J]] unfolding e(5,6) by (auto simp only: refs_step)
qed

lemma open_law:
  assumes ok0: "mm_ok lay mm0 P" and z: "\<And>q. q \<in> R \<Longrightarrow> 0 < refs mm0 q \<and> refs mm0 q < 2 ^ 16 - 1"
  shows "chunk_law mm0 (\<lambda>i address n. try_manager i (Impl_Open address n)) R
    (\<lambda>A mm. mm_ok lay mm P \<and> evolves mm0 mm (more_refs A (refs mm0)) (tracked mm0))" (is "chunk_law _ ?f _ ?J")
proof (rule chunk_lawI)
  show "R \<subseteq> all_pages mm0" using z refs_all_pages by blast
  show "config mm = config mm0" if "?J A mm" for A mm using that by (simp add: evolves_def)
  fix A mm i p m
  assume J: "?J A mm" and i: "i < m_num_managers mm0" and m: "0 < m" and sub: "{p..<p + m} \<subseteq> R - A"
    and im: "{p..<p + m} \<subseteq> impl_pages (manager mm0 i)"
  note e = evolvesD [OF conjunct2 [OF J]]
  note ch = chunk_in [OF e(1) mm_ok_wf [OF ok0] i im]
  have "0 < refs mm q \<and> refs mm q < 2 ^ 16 - 1" if "q \<in> {p..<p + m}" for q
  proof -
    have "q \<in> R" "q \<notin> A" using that sub by blast+
    then show ?thesis using z [of q] by (simp add: e(5) more_refs_def)
  qed
  then have "\<exists>mm'. ?f i (p * PageSize) m mm = Some mm' \<and> mm_ok lay mm' P \<and>
    evolves mm mm' (\<lambda>q. if q \<in> {p..<p + m} then refs mm q + 1 else refs mm q) (tracked mm)"
    using J by (intro open_pages_ok [OF _ ch(1) m ch(2)]) blast+
  moreover have "{p..<p + m} \<inter> A = {}" using sub by blast
  ultimately show "\<exists>mm'. ?f i (p * PageSize) m mm = Some mm' \<and> ?J (A \<union> {p..<p + m}) mm'"
    using evolves_trans [OF conjunct2 [OF J]] unfolding e(5,6) by (auto simp only: refs_step)
qed

lemma close_law:
  assumes ok0: "mm_ok lay mm0 P" and z: "\<And>q. q \<in> R \<Longrightarrow> 0 < refs mm0 q"
  shows "chunk_law mm0 (\<lambda>i address n. try_manager i (Impl_Close address n)) R
    (\<lambda>A mm. mm_ok lay mm (P - {q \<in> A. refs mm0 q = 1}) \<and> evolves mm0 mm (less_refs A (refs mm0)) (tracked mm0))"
    (is "chunk_law _ ?f _ ?J")
proof (rule chunk_lawI)
  show "R \<subseteq> all_pages mm0" using z refs_all_pages by blast
  show "config mm = config mm0" if "?J A mm" for A mm using that by (simp add: evolves_def)
  fix A mm i p m
  assume J: "?J A mm" and i: "i < m_num_managers mm0" and m: "0 < m" and sub: "{p..<p + m} \<subseteq> R - A"
    and im: "{p..<p + m} \<subseteq> impl_pages (manager mm0 i)"
  note e = evolvesD [OF conjunct2 [OF J]]
  note ch = chunk_in [OF e(1) mm_ok_wf [OF ok0] i im]
  have same: "refs mm q = refs mm0 q" if "q \<in> {p..<p + m}" for q
    using that sub by (auto simp: e(5) less_refs_def)
  have "\<exists>mm'. ?f i (p * PageSize) m mm = Some mm' \<and>
    mm_ok lay mm' (P - {q \<in> A. refs mm0 q = 1} - {q \<in> {p..<p + m}. refs mm q = 1}) \<and>
    evolves mm mm' (\<lambda>q. if q \<in> {p..<p + m} then refs mm q - 1 else refs mm q) (tracked mm)"
  proof (rule close_pages_ok [OF conjunct1 [OF J] ch(1) m ch(2)])
    show "0 < refs mm q" if "q \<in> {p..<p + m}" for q using same [OF that] z [of q] sub that by auto
  qed
  moreover have "P - {q \<in> A. refs mm0 q = 1} - {q \<in> {p..<p + m}. refs mm q = 1} =
      P - {q \<in> A \<union> {p..<p + m}. refs mm0 q = 1}"
  proof -
    have "{q \<in> {p..<p + m}. refs mm q = 1} = {q \<in> {p..<p + m}. refs mm0 q = 1}" using same by auto
    then show ?thesis by blast
  qed
  moreover have "{p..<p + m} \<inter> A = {}" using sub by blast
  ultimately show "\<exists>mm'. ?f i (p * PageSize) m mm = Some mm' \<and> ?J (A \<union> {p..<p + m}) mm'"
    using evolves_trans [OF conjunct2 [OF J]] unfolding e(5,6) by (auto simp only: refs_step)
qed

lemma track_law:
  assumes ok0: "mm_ok lay mm0 P" and R: "R \<subseteq> all_pages mm0"
  shows "chunk_law mm0 (\<lambda>i address n mm. Some (with_manager i (TrackOptimizedAllocation address n) mm)) R
    (\<lambda>A mm. mm_ok lay mm P \<and> evolves mm0 mm (refs mm0) (tracked mm0 \<union> A))" (is "chunk_law _ ?f _ ?J")
proof (rule chunk_lawI [OF R])
  show "config mm = config mm0" if "?J A mm" for A mm using that by (simp add: evolves_def)
  fix A mm i p m
  assume J: "?J A mm" and i: "i < m_num_managers mm0" and m: "0 < m" and im: "{p..<p + m} \<subseteq> impl_pages (manager mm0 i)"
  note e = evolvesD [OF conjunct2 [OF J]]
  note ch = chunk_in [OF e(1) mm_ok_wf [OF ok0] i im]
  have "mm_ok lay (with_manager i (TrackOptimizedAllocation (p * PageSize) m) mm) P \<and>
    evolves mm (with_manager i (TrackOptimizedAllocation (p * PageSize) m) mm) (refs mm0) (tracked mm0 \<union> (A \<union> {p..<p + m}))"
    using track_pages_ok [OF conjunct1 [OF J] ch(1) m ch(2)] by (simp only: e(5,6) Un_assoc)
  then show "\<exists>mm'. ?f i (p * PageSize) m mm = Some mm' \<and> ?J (A \<union> {p..<p + m}) mm'"
    using evolves_trans [OF conjunct2 [OF J]] by blast
qed

section \<open>Page contents\<close>

definition filled :: "nat set \<Rightarrow> u8 \<Rightarrow> dram \<Rightarrow> dram" where
  "filled A pattern mem = (\<lambda>x. if x div PageSize \<in> A then pattern else mem x)"

lemma filled_simps [simp]: "filled {} v mem = mem" "filled A v (filled B v mem) = filled (A \<union> B) v mem"
  by (auto simp: filled_def fun_eq_iff)

lemma memset_pages: "memset (p * PageSize) v (n * PageSize) mem = filled {p..<p + n} v mem"
proof -
  have "p * PageSize \<le> x \<and> x < p * PageSize + n * PageSize \<longleftrightarrow> x div PageSize \<in> {p..<p + n}" for x
    using page_bytes_range [of p "p + n"] by (auto simp: page_bytes_def set_eq_iff algebra_simps)
  then show ?thesis
    by (simp add: memset_def filled_def fun_eq_iff del: atLeastLessThan_iff)
qed

lemma bit_test: "k < 64 \<Longrightarrow> v AND push_bit k 1 = 0 \<longleftrightarrow> \<not> bit (v :: u64) k"
proof -
  assume "k < 64"
  then have "bit (v AND push_bit k 1) j \<longleftrightarrow> j = k \<and> bit v k" for j
    by (auto simp: bit_simps)
  then have "v AND push_bit k 1 = 0 \<longleftrightarrow> (\<forall>j. \<not> (j = k \<and> bit v k))"
    by (metis bit_eq_iff bit_0_eq bot_apply bot_bool_def)
  then show ?thesis by blast
qed

lemma process_loop_ok:
  assumes "region_base I = b * PageSize"
  shows "process_loop n k v I new mem =
    (new \<or> (\<exists>j. k \<le> j \<and> j < k + n \<and> \<not> marked I j), filled {b + j |j. k \<le> j \<and> j < k + n \<and> \<not> marked I j} v mem)"
proof (induction n arbitrary: k new mem)
  case 0
  have none: "{b + j |j. k \<le> j \<and> j < k + 0 \<and> \<not> marked I j} = {}" by auto
  show ?case unfolding none by auto
next
  case (Suc n)
  have r: "k \<le> j \<and> j < k + Suc n \<and> \<not> marked I j \<longleftrightarrow>
      j = k \<and> \<not> marked I k \<or> k + 1 \<le> j \<and> j < k + 1 + n \<and> \<not> marked I j" for j
    by (cases "j = k") auto
  have set: "{b + j |j. k \<le> j \<and> j < k + Suc n \<and> \<not> marked I j} =
      (if marked I k then {} else {b + k}) \<union> {b + j |j. k + 1 \<le> j \<and> j < k + 1 + n \<and> \<not> marked I j}"
    unfolding r by auto
  have ex: "(\<exists>j. k \<le> j \<and> j < k + Suc n \<and> \<not> marked I j) \<longleftrightarrow>
      \<not> marked I k \<or> (\<exists>j. k + 1 \<le> j \<and> j < k + 1 + n \<and> \<not> marked I j)"
    unfolding r by blast
  have test: "m_optimize_map I (k div 64) AND push_bit (k mod 64) 1 = 0 \<longleftrightarrow> \<not> marked I k"
    unfolding marked_def by (rule bit_test) simp
  have fill: "memset (region_base I + k * PageSize) v PageSize mem = filled {b + k} v mem"
    using memset_pages [of "b + k" v 1 mem] by (simp add: assms algebra_simps)
  show ?case
    unfolding process_loop.simps test set ex fill Suc.IH by (simp add: Un_commute)
qed

lemma memory_frame:
  "mm_ok lay (mm\<lparr>memory := mem\<rparr>) P = mm_ok lay mm P" "refs (mm\<lparr>memory := mem\<rparr>) = refs mm"
  "tracked (mm\<lparr>memory := mem\<rparr>) = tracked mm" "config (mm\<lparr>memory := mem\<rparr>) = config mm"
proof -
  show c: "config (mm\<lparr>memory := mem\<rparr>) = config mm" by (simp add: config_def)
  have m: "m_managers (mm\<lparr>memory := mem\<rparr>) = m_managers mm" "m_num_managers (mm\<lparr>memory := mem\<rparr>) = m_num_managers mm"
    by simp_all
  show "refs (mm\<lparr>memory := mem\<rparr>) = refs mm" by (rule ext) (simp only: refs_def m)
  show "tracked (mm\<lparr>memory := mem\<rparr>) = tracked mm" by (simp only: tracked_def m)
  have "mm = (mm\<lparr>memory := mem\<rparr>)\<lparr>memory := memory mm\<rparr>" by simp
  then have "mm_wf lay (mm\<lparr>memory := mem\<rparr>) = mm_wf lay mm"
    using mm_wf_config(1) [OF c] mm_wf_config(1) [OF c [symmetric]] by blast
  then show "mm_ok lay (mm\<lparr>memory := mem\<rparr>) P = mm_ok lay mm P"
    by (simp add: mm_ok_def)
qed

lemma Process_ok:
  assumes ok: "mm_ok lay mm P" and i: "i < m_num_managers mm" and n: "0 < n" and sub: "{p..<p + n} \<subseteq> impl_pages (manager mm i)"
  shows "snd (ProcessOptimizedAllocation (p * PageSize) n v (manager mm i) mem) = filled ({p..<p + n} - tracked mm) v mem"
proof -
  let ?I = "manager mm i" and ?b = "region_base (manager mm i) div PageSize"
  note okI = mm_okD(7) [OF ok i]
  note O = page_offsets [OF okI n sub]
  have base: "region_base ?I = ?b * PageSize" by (rule aligned_implD(1) [OF impl_okD(1) [OF okI]])
  have "{?b + j |j. p - ?b \<le> j \<and> j < p - ?b + n \<and> \<not> marked ?I j} = {p..<p + n} - tracked mm" (is "?L = ?R")
  proof (intro set_eqI iffI)
    fix q assume "q \<in> ?L"
    then obtain j where j: "q = ?b + j" "p - ?b \<le> j" "j < p - ?b + n" "\<not> marked ?I j" by blast
    have q: "q \<in> {p..<p + n}" using O(3) [OF j(2,3)] j(1) by simp
    then have "q \<in> impl_pages ?I" using sub by blast
    then show "q \<in> ?R" using q j tracked_at [OF ok i, of q] by simp
  next
    fix q assume q: "q \<in> ?R"
    then have qi: "q \<in> impl_pages ?I" using sub by blast
    have "?b + (q - ?b) = q" using page_offset(2) [OF okI qi] by simp
    then show "q \<in> ?L"
      using q O(2) [OF qi] tracked_at [OF ok i qi] by (intro CollectI exI [of _ "q - ?b"]) simp
  qed
  then show ?thesis
    unfolding ProcessOptimizedAllocation_def O(1) process_loop_ok [OF base] by simp
qed

lemma fill_managers_ok:
  assumes "mm_ok lay mm P" "{p..<p + n} \<subseteq> all_pages mm"
  shows "\<exists>b. fill_managers lay v (p * PageSize) n new mm =
    Some (b, mm\<lparr>memory := filled ({p..<p + n} - tracked mm) v (memory mm)\<rparr>)"
  using assms
proof (induction n arbitrary: p new mm rule: less_induct)
  case (less n)
  show ?case
  proof (cases "n = 0")
    case True
    then show ?thesis by (simp add: fill_managers.simps [of _ _ _ 0])
  next
    case False
    then have n: "0 < n" "p \<in> all_pages mm" using less.prems(2) by auto
    obtain i m where i: "GetManager lay (p * PageSize) = Some i" "i < m_num_managers mm" and
      m: "0 < m" "m \<le> n" "min n (GetPageOffsetToEnd (manager mm i) (p * PageSize)) = m" and
      im: "{p..<p + m} \<subseteq> impl_pages (manager mm i)"
      using chunk [OF less.prems(1) refl n(2,1)] by blast
    obtain b1 mem where pr: "ProcessOptimizedAllocation (p * PageSize) m v (manager mm i) (memory mm) = (b1, mem)"
      by (cases "ProcessOptimizedAllocation (p * PageSize) m v (manager mm i) (memory mm)")
    have mem: "mem = filled ({p..<p + m} - tracked mm) v (memory mm)"
      using Process_ok [OF less.prems(1) i(2) m(1) im, of v "memory mm"] pr by simp
    let ?mm = "mm\<lparr>memory := mem\<rparr>"
    have run: "fill_managers lay v (p * PageSize) n new mm = fill_managers lay v ((p + m) * PageSize) (n - m) b1 ?mm"
      using n i(1) m pr by (subst fill_managers.simps) (simp add: algebra_simps)
    have "{p + m..<p + m + (n - m)} \<subseteq> all_pages ?mm"
      using less.prems(2) m(2) by (auto simp: all_pages_def)
    then have "\<exists>b. fill_managers lay v ((p + m) * PageSize) (n - m) b1 ?mm =
        Some (b, ?mm\<lparr>memory := filled ({p + m..<p + m + (n - m)} - tracked ?mm) v (memory ?mm)\<rparr>)"
      using m n less.prems(1) by (intro less.IH) (simp_all add: memory_frame)
    moreover have "{p + m..<p + m + (n - m)} - tracked mm \<union> ({p..<p + m} - tracked mm) = {p..<p + n} - tracked mm"
      using m(2) by auto
    ultimately show ?thesis
      unfolding run by (simp add: mem memory_frame)
  qed
qed

text \<open>The pages \<open>A\<close> have been filled: those that were not tracked hold the pattern, and at most pages of \<open>A\<close>
  became tracked.\<close>

definition fills :: "KMemoryLayout \<Rightarrow> nat set \<Rightarrow> u8 \<Rightarrow> nat set \<Rightarrow> 'r KMemoryManager \<Rightarrow> 'r KMemoryManager \<Rightarrow> bool" where
  "fills lay P v A mm mm' \<longleftrightarrow> mm_ok lay mm' P \<and> config mm' = config mm \<and> refs mm' = refs mm \<and>
     m_optimized_process_ids mm' = m_optimized_process_ids mm \<and> m_has_optimized_process mm' = m_has_optimized_process mm \<and>
     tracked mm \<subseteq> tracked mm' \<and> tracked mm' \<subseteq> tracked mm \<union> A \<and> memory mm' = filled (A - tracked mm) v (memory mm)"

lemma fills_none: "mm_ok lay mm P \<Longrightarrow> fills lay P v {} mm mm"
  by (simp add: fills_def)

lemma fills_trans:
  assumes "fills lay P v A mm mm1" "fills lay P v B mm1 mm2" "A \<inter> B = {}"
  shows "fills lay P v (A \<union> B) mm mm2"
proof -
  have "B - tracked mm1 = B - tracked mm"
    using assms(1,3) by (auto simp: fills_def)
  then have "B - tracked mm1 \<union> (A - tracked mm) = A \<union> B - tracked mm" by blast
  then show ?thesis
    using assms(1,2) by (auto simp: fills_def)
qed

lemma fill_block_ok:
  assumes ok: "mm_ok lay mm P" and sub: "set (block_pages b) \<subseteq> all_pages mm"
  shows "\<exists>mm'. fills lay P v (set (block_pages b)) mm mm' \<and> (\<forall>g node. fill_blocks lay v ((node, b) # g) mm = fill_blocks lay v g mm')"
proof (cases "KBlockInfo_GetNumPages b = 0")
  case True
  then show ?thesis
    using fills_none [OF ok] by (intro exI [of _ mm]) (simp add: block_pages_def KBlockInfo_GetNumPages_def)
next
  case False
  let ?p = "unat (m_page_index b)" and ?n = "unat (m_num_pages b)"
  let ?R = "{?p..<?p + ?n}" and ?mm1 = "mm\<lparr>memory := filled ({?p..<?p + ?n} - tracked mm) v (memory mm)\<rparr>"
  let ?track = "\<lambda>i address n mm. Some (with_manager i (TrackOptimizedAllocation address n) mm)"
  let ?J = "\<lambda>A mm'. mm_ok lay mm' P \<and> evolves ?mm1 mm' (refs ?mm1) (tracked ?mm1 \<union> A)"
  have R: "set (block_pages b) = ?R" "?R \<subseteq> all_pages ?mm1"
    using sub by (simp_all add: block_pages_def all_pages_def)
  obtain new where fm: "fill_managers lay v (?p * PageSize) ?n False mm = Some (new, ?mm1)"
    using fill_managers_ok [OF ok sub [unfolded R(1)]] by blast
  have ok1: "mm_ok lay ?mm1 P" using ok by (simp add: memory_frame)
  have start: "?J {} ?mm1" using ok1 evolves_refl [of ?mm1] by simp
  have "?R \<subseteq> ?R - {}" by simp
  from range_law [where J = ?J, OF track_law [OF ok1 R(2)] ok1 ok1 start this]
  obtain mmT where T: "for_managers lay ?track (?p * PageSize) ?n ?mm1 = Some mmT \<and> ?J ({} \<union> ?R) mmT"
    by (rule exE)
  then have E: "mm_ok lay mmT P" "evolves ?mm1 mmT (refs ?mm1) (tracked ?mm1 \<union> ?R)" by simp_all
  have "fills lay P v ?R mm mmT"
    using E(1) evolvesD [OF E(2)] unfolding fills_def by (simp add: memory_frame)
  moreover have "fills lay P v ?R mm ?mm1"
    using ok1 unfolding fills_def by (simp add: memory_frame)
  ultimately have "fills lay P v ?R mm (if new then mmT else ?mm1)"
    by (cases new) simp_all
  moreover have "fill_blocks lay v ((node, b) # g) mm = fill_blocks lay v g (if new then mmT else ?mm1)" for g node
    using False fm T by (cases new) (simp_all add: KBlockInfo_GetNumPages_def KBlockInfo_GetAddress_def)
  ultimately show ?thesis unfolding R(1) by blast
qed

lemma fill_blocks_ok:
  assumes "mm_ok lay mm P" "distinct (group_pages g)" "set (group_pages g) \<subseteq> all_pages mm"
  shows "\<exists>mm'. fill_blocks lay v g mm = Some mm' \<and> fills lay P v (set (group_pages g)) mm mm'"
  using assms
proof (induction g arbitrary: mm)
  case (Cons x g)
  obtain node b where x: "x = (node, b)" by (cases x)
  obtain mm1 where mm1: "fills lay P v (set (block_pages b)) mm mm1"
      "fill_blocks lay v (x # g) mm = fill_blocks lay v g mm1"
    using fill_block_ok [OF Cons.prems(1), of b v] Cons.prems(3) x by auto
  have ok1: "mm_ok lay mm1 P" "config mm1 = config mm"
    using mm1(1) by (simp_all add: fills_def)
  note all1 = all_pages_config [OF ok1(2) mm_ok_wf [OF Cons.prems(1)]]
  obtain mm2 where "fill_blocks lay v g mm1 = Some mm2" "fills lay P v (set (group_pages g)) mm1 mm2"
    using Cons.IH [OF ok1(1)] all1 Cons.prems(2,3) x by auto
  then show ?case
    using fills_trans [OF mm1(1)] mm1(2) Cons.prems(2) x by auto
qed (simp add: fills_none)

lemma set_blocks_ok: "set_blocks v g mem = filled (set (group_pages g)) v mem"
proof (induction g arbitrary: mem)
  case (Cons x g)
  obtain node b where x: "x = (node, b)" by (cases x)
  show ?case
    using memset_pages [of "unat (m_page_index b)" v "unat (m_num_pages b)" mem]
    by (simp add: x Cons.IH KBlockInfo_GetAddress_def KBlockInfo_GetSize_def KBlockInfo_GetNumPages_def block_pages_def Un_commute)
qed simp

end
