(* ===== verification/Kern_MemoryManager_Spec.thy ===== *)
theory Kern_MemoryManager_Spec
  imports Kern_MemoryManager_Inv
begin

text \<open>
  The allocation functions of the memory manager, and the manager as a transition system that
  implements a table of pages with reference counts.
\<close>

section \<open>Gathering a group\<close>

lemma impl_pages_below:
  assumes "impl_ok I P" "{p..<p + n} \<subseteq> impl_pages I" "0 < n"
  shows "p * PageSize + n * PageSize < 2 ^ 44"
proof -
  let ?e = "(region_base I + region_size I) div PageSize"
  have "p + n - 1 \<in> impl_pages I" using assms(2,3) by auto
  then have "p + n \<le> ?e" using assms(3) by (auto simp: impl_pages_def)
  then have "(p + n) * PageSize \<le> ?e * PageSize" by (rule mult_le_mono1)
  also have "\<dots> < 2 ^ 44" using aligned_implD(2,3) [OF impl_okD(1) [OF assms(1)]] by simp
  finally show ?thesis by (simp add: algebra_simps)
qed

text \<open>The pages of \<open>g\<close> were allocated from the managers \<open>is\<close>, and \<open>n\<close> pages are still to be found.\<close>

definition gathered ::
    "KMemoryLayout \<Rightarrow> 'r KMemoryManager \<Rightarrow> nat set \<Rightarrow> nat list \<Rightarrow> bool \<Rightarrow> nat \<Rightarrow> KPageGroup \<Rightarrow> nat \<Rightarrow> 'r KMemoryManager \<Rightarrow> bool" where
  "gathered lay mm0 P is unopt total' g n mm \<longleftrightarrow> mm_ok lay mm (P \<union> set (group_pages g)) \<and>
     evolves mm0 mm (refs mm0) (tracked mm0 - (if unopt then set (group_pages g) else {})) \<and>
     group_ok g \<and> distinct (group_pages g) \<and>
     set (group_pages g) \<subseteq> (\<Union>i \<in> set is. impl_pages (manager mm0 i)) - P \<and> length (group_pages g) + n = total'"

text \<open>What a loop of the allocation leaves: more of the group, or the error of the node allocator.\<close>

definition gathers ::
    "KMemoryLayout \<Rightarrow> 'r KMemoryManager \<Rightarrow> nat set \<Rightarrow> nat list \<Rightarrow> bool \<Rightarrow> nat \<Rightarrow> ('n \<Rightarrow> nat \<times> 'n) \<Rightarrow> KPageGroup \<Rightarrow>
     (mm_error + nat) \<times> KPageGroup \<times> 'n \<times> 'r KMemoryManager \<Rightarrow> bool" where
  "gathers lay mm0 P is unopt total' alloc g = (\<lambda>(r, g', ns', mm').
     (\<exists>n'. gathered lay mm0 P is unopt total' g' n' mm' \<and>
        (r = Inr n' \<or> r = Inl OutOfResource \<and> (\<exists>ns. fst (alloc ns) = 0))) \<and>
     set (group_pages g) \<subseteq> set (group_pages g'))"

lemma gathered_take:
  assumes G: "gathered lay mm0 P is unopt t g n mm" and ok0: "mm_wf lay mm0" and i: "i \<in> set is" "i < m_num_managers mm0"
    and j: "j < 7" and n: "GetBlockNumPages j \<le> n" and x: "x \<noteq> 0" and mb: "manager_block gen j random i mm = (x, mm1)"
    and add: "AddBlock alloc x (GetBlockNumPages j) g ns = (r, g', ns')"
  shows "r = Inr () \<Longrightarrow> gathered lay mm0 P is unopt t g' (n - GetBlockNumPages j)
      (if unopt then with_manager i (TrackUnoptimizedAllocation x (GetBlockNumPages j)) mm1 else mm1) \<and>
      set (group_pages g) \<subseteq> set (group_pages g')"
    "r \<noteq> Inr () \<Longrightarrow> r = Inl OutOfResource \<and> g' = g \<and> fst (alloc ns) = 0 \<and>
      gathered lay mm0 P is unopt t g n (with_manager i (Impl_Free x (GetBlockNumPages j)) mm1)"
proof -
  let ?p = "x div PageSize" and ?k = "GetBlockNumPages j" and ?H = "P \<union> set (group_pages g)"
  let ?R = "{x div PageSize..<x div PageSize + GetBlockNumPages j}"
  note G' = G [unfolded gathered_def]
  have ok: "mm_ok lay mm ?H" and ev: "evolves mm0 mm (refs mm0) (tracked mm0 - (if unopt then set (group_pages g) else {}))"
    and g: "group_ok g" "distinct (group_pages g)" "set (group_pages g) \<subseteq> (\<Union>i \<in> set is. impl_pages (manager mm0 i)) - P"
      "length (group_pages g) + n = t"
    using G' by simp_all
  note c = evolvesD(1) [OF ev]
  have im: "i < m_num_managers mm" and same: "impl_pages (manager mm i) = impl_pages (manager mm0 i)"
    using i(2) config_sel(1) [OF c] config_geom(1) [OF c ok0 i(2)] by simp_all
  note k = GetBlockSize_pages(2) [OF j]
  note B = manager_block_ok [OF ok im j mb]
  have X: "x = ?p * PageSize" "?R \<subseteq> impl_pages (manager mm i) - ?H" "mm_ok lay mm1 (?H \<union> ?R)"
    using B(2) [OF x] by blast+
  note e1 = evolvesD [OF B(1)]
  have i1: "i < m_num_managers mm1" "?R \<subseteq> impl_pages (manager mm1 i)"
    using im X(2) config_sel(1) [OF e1(1)] config_geom(1) [OF e1(1) mm_ok_wf [OF ok] im] by auto
  have "?R \<subseteq> impl_pages (manager mm i)" using X(2) by blast
  from impl_pages_below [OF mm_okD(7) [OF ok im] this k]
  have below: "x + ?k * PageSize < 2 ^ 44" by (simp only: X(1) [symmetric])
  have dvd: "PageSize dvd x" by (subst X(1)) simp
  note A = AddBlock_pages [OF g(1) dvd k below add]
  show "gathered lay mm0 P is unopt t g' (n - ?k) (if unopt then with_manager i (TrackUnoptimizedAllocation x ?k) mm1 else mm1) \<and>
      set (group_pages g) \<subseteq> set (group_pages g')" if "r = Inr ()"
  proof -
    have g': "group_ok g'" "group_pages g' = group_pages g @ [?p..<?p + ?k]" using A(1) [OF that] by simp_all
    let ?mm = "if unopt then with_manager i (TrackUnoptimizedAllocation x ?k) mm1 else mm1"
    have U: "mm_ok lay (with_manager i (TrackUnoptimizedAllocation x ?k) mm1) (?H \<union> ?R) \<and>
      evolves mm1 (with_manager i (TrackUnoptimizedAllocation x ?k) mm1) (refs mm1) (tracked mm1 - ?R)"
      using untrack_pages_ok [OF X(3) i1(1) k i1(2)] by (simp flip: X(1))
    have eH: "P \<union> set (group_pages g') = ?H \<union> ?R" using g'(2) by auto
    have T: "tracked mm0 - (if unopt then set (group_pages g') else {}) =
        (if unopt then tracked mm1 - ?R else tracked mm1)"
      using g'(2) e1(6) evolvesD(6) [OF ev] by auto
    have "evolves mm1 ?mm (refs mm0) (tracked mm0 - (if unopt then set (group_pages g') else {}))"
      unfolding T using U evolves_refl [of mm1] e1(5) evolvesD(5) [OF ev] by (cases unopt) simp_all
    from evolves_trans [OF evolves_trans [OF ev B(1)] this]
    have "evolves mm0 ?mm (refs mm0) (tracked mm0 - (if unopt then set (group_pages g') else {}))" .
    moreover have "mm_ok lay ?mm (P \<union> set (group_pages g'))"
      unfolding eH using U X(3) by (cases unopt) simp_all
    moreover have "distinct (group_pages g')" "set (group_pages g') \<subseteq> (\<Union>i \<in> set is. impl_pages (manager mm0 i)) - P"
      using g(2,3) g'(2) X(2) i(1) unfolding same by auto
    moreover have "length (group_pages g') + (n - ?k) = t" using g(4) g'(2) n by simp
    ultimately show ?thesis
      unfolding gathered_def using g' by simp
  qed
  show "r = Inl OutOfResource \<and> g' = g \<and> fst (alloc ns) = 0 \<and>
      gathered lay mm0 P is unopt t g n (with_manager i (Impl_Free x ?k) mm1)" if "r \<noteq> Inr ()"
  proof -
    have "refs mm1 q = 0" if "q \<in> ?R" for q
      using refs_held [OF ok, of q] X(2) that e1(5) by fastforce
    then have F: "mm_ok lay (with_manager i (Impl_Free x ?k) mm1) (?H \<union> ?R - ?R) \<and>
      evolves mm1 (with_manager i (Impl_Free x ?k) mm1) (refs mm1) (tracked mm1)"
      using free_pages_ok [OF X(3) i1(1), of ?p ?k] i1(2) by (simp flip: X(1))
    moreover have "?H \<union> ?R - ?R = ?H" using X(2) by blast
    ultimately have "gathered lay mm0 P is unopt t g n (with_manager i (Impl_Free x ?k) mm1)"
      unfolding gathered_def using g ev evolves_trans [OF evolves_trans [OF ev B(1)]] e1(5,6) evolvesD(5,6) [OF ev] by simp
    then show ?thesis using A(2) [OF that] by simp
  qed
qed

lemma gathered_miss:
  assumes G: "gathered lay mm0 P is unopt t g n mm" and ok0: "mm_wf lay mm0" and i: "i < m_num_managers mm0"
    and j: "j < 7" and mb: "manager_block gen j random i mm = (0, mm1)"
  shows "gathered lay mm0 P is unopt t g n mm1"
    "j = 0 \<Longrightarrow> impl_pages (manager mm0 i) \<subseteq> P \<union> set (group_pages g)"
proof -
  let ?H = "P \<union> set (group_pages g)"
  have ok: "mm_ok lay mm ?H" and ev: "evolves mm0 mm (refs mm0) (tracked mm0 - (if unopt then set (group_pages g) else {}))"
    using G by (simp_all add: gathered_def)
  note c = evolvesD(1) [OF ev]
  have im: "i < m_num_managers mm" and same: "impl_pages (manager mm i) = impl_pages (manager mm0 i)"
    using i config_sel(1) [OF c] config_geom(1) [OF c ok0 i] by simp_all
  note B = manager_block_ok [OF ok im j mb]
  show "gathered lay mm0 P is unopt t g n mm1"
    using G B(3) evolves_trans [OF ev B(1)] evolvesD(5,6) [OF ev] by (simp add: gathered_def)
  show "impl_pages (manager mm0 i) \<subseteq> ?H" if "j = 0"
  proof
    fix p assume p: "p \<in> impl_pages (manager mm0 i)"
    have "GetBlockNumPages 0 = 1"
      by (simp add: GetBlockNumPages_def GetBlockSize_def MemoryBlockPageShifts_def PageSize_def)
    then have "\<not> (\<exists>p. {p..<Suc p} \<subseteq> impl_pages (manager mm i) - ?H)"
      using B(3) that by simp
    then show "p \<in> ?H" using p unfolding same by auto
  qed
qed

text \<open>A loop over the smallest blocks that ends with pages missing has emptied the managers \<open>is'\<close>.\<close>

definition exhausts :: "'r KMemoryManager \<Rightarrow> nat set \<Rightarrow> nat list \<Rightarrow> (mm_error + nat) \<times> KPageGroup \<times> 'x \<Rightarrow> bool" where
  "exhausts mm0 P is' = (\<lambda>(r, g', _). \<forall>n'. r = Inr n' \<longrightarrow> 0 < n' \<longrightarrow>
     (\<forall>i \<in> set is'. impl_pages (manager mm0 i) \<subseteq> P \<union> set (group_pages g')))"

lemma gathers_mono:
  assumes "gathers lay mm0 P is unopt t alloc g' res" "set (group_pages g) \<subseteq> set (group_pages g')"
  shows "gathers lay mm0 P is unopt t alloc g res"
  using assms by (auto simp: gathers_def split: prod.splits)

lemma gathers_stop:
  assumes "gathered lay mm0 P is unopt t g n mm"
  shows "gathers lay mm0 P is unopt t alloc g (Inr n, g, ns, mm)"
  using assms by (auto simp: gathers_def)

lemma GetBlockNumPages_0: "GetBlockNumPages 0 = 1"
  by (simp add: GetBlockNumPages_def GetBlockSize_def MemoryBlockPageShifts_def PageSize_def)

lemma allocate_blocks_ok:
  assumes "gathered lay mm0 P is unopt t g n mm" "mm_wf lay mm0" "i \<in> set is" "i < m_num_managers mm0" "j < 7"
  shows "gathers lay mm0 P is unopt t alloc g (allocate_blocks gen alloc j unopt random i n (g, ns, mm)) \<and>
    (j = 0 \<longrightarrow> exhausts mm0 P [i] (allocate_blocks gen alloc j unopt random i n (g, ns, mm)))"
  using assms(1)
proof (induction n arbitrary: g ns mm rule: less_induct)
  case (less n)
  let ?k = "GetBlockNumPages j"
  have k: "0 < ?k" by (rule GetBlockSize_pages(2) [OF assms(5)])
  show ?case
  proof (cases "?k \<le> n")
    case False
    then have "allocate_blocks gen alloc j unopt random i n (g, ns, mm) = (Inr n, g, ns, mm)"
      by (subst allocate_blocks.simps) simp
    then show ?thesis
      using False gathers_stop [OF less.prems] GetBlockNumPages_0 by (auto simp: exhausts_def)
  next
    case True
    obtain x mm1 where mb: "manager_block gen j random i mm = (x, mm1)" by (cases "manager_block gen j random i mm")
    show ?thesis
    proof (cases "x = 0")
      case x: True
      have "allocate_blocks gen alloc j unopt random i n (g, ns, mm) = (Inr n, g, ns, mm1)"
        using True k mb x by (subst allocate_blocks.simps) simp
      then show ?thesis
        using gathered_miss [OF less.prems assms(2,4,5) mb [unfolded x]] gathers_stop by (auto simp: exhausts_def)
    next
      case x: False
      obtain r g' ns' where add: "AddBlock alloc x ?k g ns = (r, g', ns')" by (cases "AddBlock alloc x ?k g ns") auto
      note T = gathered_take [OF less.prems assms(2-5) True x mb add]
      show ?thesis
      proof (cases r)
        case (Inl e)
        then have "allocate_blocks gen alloc j unopt random i n (g, ns, mm) =
            (Inl e, g', ns', with_manager i (Impl_Free x ?k) mm1)"
          using True k mb x add by (subst allocate_blocks.simps) simp
        then show ?thesis
          using T(2) Inl by (auto simp: gathers_def exhausts_def)
      next
        case (Inr u)
        let ?mm = "if unopt then with_manager i (TrackUnoptimizedAllocation x ?k) mm1 else mm1"
        have run: "allocate_blocks gen alloc j unopt random i n (g, ns, mm) =
            allocate_blocks gen alloc j unopt random i (n - ?k) (g', ns', ?mm)"
          using True k mb x add Inr by (subst allocate_blocks.simps) (simp only: Let_def, simp)
        have T': "gathered lay mm0 P is unopt t g' (n - ?k) ?mm" "set (group_pages g) \<subseteq> set (group_pages g')"
          using T(1) Inr by simp_all
        show ?thesis
          unfolding run
        proof -
          have "n - ?k < n" using k True by simp
          from less.IH [OF this T'(1), of ns'] gathers_mono [OF _ T'(2)]
          show "gathers lay mm0 P is unopt t alloc g (allocate_blocks gen alloc j unopt random i (n - ?k) (g', ns', ?mm)) \<and>
            (j = 0 \<longrightarrow> exhausts mm0 P [i] (allocate_blocks gen alloc j unopt random i (n - ?k) (g', ns', ?mm)))"
            by blast
        qed
      qed
    qed
  qed
qed

lemma allocate_managers_ok:
  assumes "gathered lay mm0 P is unopt t g n mm" "mm_wf lay mm0" "set is' \<subseteq> set is" "\<forall>i \<in> set is. i < m_num_managers mm0" "j < 7"
  shows "gathers lay mm0 P is unopt t alloc g (allocate_managers gen alloc j unopt random is' n (g, ns, mm)) \<and>
    (j = 0 \<longrightarrow> exhausts mm0 P is' (allocate_managers gen alloc j unopt random is' n (g, ns, mm)))"
  using assms(1,3)
proof (induction is' arbitrary: g n ns mm)
  case Nil
  then show ?case using gathers_stop by (auto simp: exhausts_def)
next
  case (Cons i is')
  have i: "i \<in> set is" "i < m_num_managers mm0" using Cons.prems(2) assms(4) by auto
  obtain r g1 ns1 mm1 where ab: "allocate_blocks gen alloc j unopt random i n (g, ns, mm) = (r, g1, ns1, mm1)"
    by (metis prod_cases4)
  have A: "gathers lay mm0 P is unopt t alloc g (r, g1, ns1, mm1)" "j = 0 \<longrightarrow> exhausts mm0 P [i] (r, g1, ns1, mm1)"
    using allocate_blocks_ok [OF Cons.prems(1) assms(2) i assms(5), of alloc gen random ns, unfolded ab] by blast+
  show ?case
  proof (cases r)
    case (Inl e)
    then show ?thesis using A ab by (auto simp: exhausts_def)
  next
    case (Inr n1)
    have g1: "gathered lay mm0 P is unopt t g1 n1 mm1" "set (group_pages g) \<subseteq> set (group_pages g1)"
      using A(1) Inr by (auto simp: gathers_def)
    let ?res = "allocate_managers gen alloc j unopt random is' n1 (g1, ns1, mm1)"
    have run: "allocate_managers gen alloc j unopt random (i # is') n (g, ns, mm) = ?res"
      using ab Inr by simp
    have IH: "gathers lay mm0 P is unopt t alloc g1 ?res" "j = 0 \<longrightarrow> exhausts mm0 P is' ?res"
      using Cons.IH [OF g1(1)] Cons.prems(2) by simp_all
    have "exhausts mm0 P (i # is') ?res" if "j = 0"
    proof -
      obtain r2 g2 x where res: "?res = (r2, g2, x)" by (cases ?res) auto
      have sub: "set (group_pages g1) \<subseteq> set (group_pages g2)" using IH(1) res by (auto simp: gathers_def split: prod.splits)
      have "0 < n1" if "r2 = Inr n2" "0 < n2" for n2
      proof (rule ccontr)
        note n2 = that
        assume "\<not> 0 < n1"
        then have len: "length (group_pages g1) = t" using g1(1) by (simp add: gathered_def)
        obtain mm2 where "gathered lay mm0 P is unopt t g2 n2 mm2"
          using IH(1) unfolding res n2(1) gathers_def by (cases x) auto
        then have "card (set (group_pages g2)) + n2 = t" by (auto simp: gathered_def distinct_card)
        moreover have "card (set (group_pages g1)) = t" using len g1(1) by (auto simp: gathered_def distinct_card)
        moreover have "card (set (group_pages g1)) \<le> card (set (group_pages g2))" using sub by (intro card_mono) auto
        ultimately show False using n2(2) by simp
      qed
      then show ?thesis
        using A(2) IH(2) that Inr res sub by (fastforce simp: exhausts_def)
    qed
    then show ?thesis
      unfolding run using IH(1) gathers_mono [OF _ g1(2)] by blast
  qed
qed

lemma allocate_sizes_ok:
  assumes "gathered lay mm0 P is unopt t g n mm" "mm_wf lay mm0" "\<forall>i \<in> set is. i < m_num_managers mm0" "k \<le> 7"
  shows "gathers lay mm0 P is unopt t alloc g (allocate_sizes gen alloc unopt random is k n (g, ns, mm)) \<and>
    (0 < k \<longrightarrow> exhausts mm0 P is (allocate_sizes gen alloc unopt random is k n (g, ns, mm)))"
  using assms(1,4)
proof (induction k arbitrary: g n ns mm)
  case 0
  then show ?case using gathers_stop by auto
next
  case (Suc j)
  show ?case
  proof (cases "0 < n")
    case False
    then show ?thesis using gathers_stop [OF Suc.prems(1)] by (auto simp: exhausts_def)
  next
    case True
    obtain r g1 ns1 mm1 where am: "allocate_managers gen alloc j unopt random is n (g, ns, mm) = (r, g1, ns1, mm1)"
      by (metis prod_cases4)
    have A: "gathers lay mm0 P is unopt t alloc g (r, g1, ns1, mm1)" "j = 0 \<longrightarrow> exhausts mm0 P is (r, g1, ns1, mm1)"
      using allocate_managers_ok [OF Suc.prems(1) assms(2) order_refl assms(3), of j alloc gen random ns, unfolded am] Suc.prems(2) by simp_all
    show ?thesis
    proof (cases r)
      case (Inl e)
      then show ?thesis using A(1) am True by (auto simp: exhausts_def)
    next
      case (Inr n1)
      have g1: "gathered lay mm0 P is unopt t g1 n1 mm1" "set (group_pages g) \<subseteq> set (group_pages g1)"
        using A(1) Inr by (auto simp: gathers_def)
      let ?res = "allocate_sizes gen alloc unopt random is j n1 (g1, ns1, mm1)"
      have run: "allocate_sizes gen alloc unopt random is (Suc j) n (g, ns, mm) = ?res"
        using am Inr True by simp
      have IH: "gathers lay mm0 P is unopt t alloc g1 ?res" "0 < j \<longrightarrow> exhausts mm0 P is ?res"
        using Suc.IH [OF g1(1)] Suc.prems(2) by simp_all
      have "exhausts mm0 P is ?res"
        using IH(2) A(2) Inr by (cases j) simp_all
      then show ?thesis
        unfolding run using IH(1) gathers_mono [OF _ g1(2)] by blast
    qed
  qed
qed

section \<open>Allocating a group\<close>

text \<open>No two regions are adjacent, so that no block of a group spans two of them.\<close>

definition apart :: "'r KMemoryManager \<Rightarrow> bool" where
  "apart mm \<longleftrightarrow> (\<forall>i < m_num_managers mm. \<forall>j < m_num_managers mm. \<forall>p.
     p \<in> impl_pages (manager mm i) \<longrightarrow> Suc p \<in> impl_pages (manager mm j) \<longrightarrow> i = j)"

lemma apart_range:
  assumes "apart mm" "mm_wf lay mm" "i < m_num_managers mm" "p \<in> impl_pages (manager mm i)" "{p..<p + n} \<subseteq> all_pages mm"
  shows "{p..<p + n} \<subseteq> impl_pages (manager mm i)"
  using assms(5)
proof (induction n)
  case (Suc n)
  show ?case
  proof (cases n)
    case 0
    then show ?thesis using assms(4) by simp
  next
    case (Suc m)
    have sub: "{p..<p + n} \<subseteq> impl_pages (manager mm i)" using Suc.IH order_trans [OF _ Suc.prems, of "{p..<p + n}"] by simp
    then have q: "p + m \<in> impl_pages (manager mm i)" using Suc by auto
    have "p + n \<in> all_pages mm" using Suc.prems by auto
    then obtain j where j: "j < m_num_managers mm" "Suc (p + m) \<in> impl_pages (manager mm j)"
      using Suc by (auto simp: all_pages_def)
    then have "i = j" using assms(1,3) q unfolding apart_def by blast
    then have "p + n \<in> impl_pages (manager mm i)" using j(2) Suc by simp
    then show ?thesis using sub by (auto simp: less_Suc_eq)
  qed
qed simp

lemma div_diff_pages: "(a - p * PageSize) div PageSize = a div PageSize - p"
proof (cases "p * PageSize \<le> a")
  case True
  then obtain d where "a = p * PageSize + d" using le_Suc_ex by blast
  then show ?thesis by simp
next
  case False
  then have "a div PageSize \<le> p" by (simp add: less_mult_imp_div_less order_less_imp_le)
  then show ?thesis using False by simp
qed

lemma range_part:
  assumes "m \<le> (n :: nat)"
  shows "{p..<p + n} = {p..<p + m} \<union> {p + m..<p + n}" "{p..<p + m} \<inter> {p + m..<p + n} = {}"
  using assms by auto

text \<open>What the cleanup keeps of the pages of the group: nothing, unless a block spans two regions.\<close>

lemma free_blocks_ok:
  assumes "mm_ok lay mm (P \<union> set (group_pages g))" "group_ok g" "distinct (group_pages g)" "P \<inter> set (group_pages g) = {}"
    "set (group_pages g) \<subseteq> all_pages mm" "\<forall>q \<in> set (group_pages g). refs mm q = 0"
  shows "\<exists>mm' L. free_blocks lay g mm = Some mm' \<and> mm_ok lay mm' (P \<union> L) \<and> L \<subseteq> set (group_pages g) \<and>
    evolves mm mm' (refs mm) (tracked mm) \<and> (apart mm \<longrightarrow> L = {})"
  using assms
proof (induction g arbitrary: mm P)
  case Nil
  then show ?case using evolves_refl by auto
next
  case (Cons x g)
  obtain node b where x: "x = (node, b)" by (cases x)
  let ?p = "unat (m_page_index b)" and ?n = "unat (m_num_pages b)"
  let ?B = "set (block_pages b)" and ?G = "set (group_pages g)"
  have B: "?B = {?p..<?p + ?n}" by (simp add: block_pages_def)
  have n: "0 < ?n" using Cons.prems(2) x by (simp add: block_ok_def word_less_nat_alt)
  have d: "distinct (group_pages g)" "?B \<inter> ?G = {}" "P \<inter> ?B = {}" "P \<inter> ?G = {}" "?B \<subseteq> all_pages mm" "?G \<subseteq> all_pages mm"
    using Cons.prems(3-5) x by auto
  have ad: "KBlockInfo_GetAddress b = ?p * PageSize" "KBlockInfo_GetNumPages b = ?n"
    by (simp_all add: KBlockInfo_GetAddress_def KBlockInfo_GetNumPages_def)
  have "?p \<in> all_pages mm" using d(5) B n by auto
  from chunk [OF Cons.prems(1) refl this n] obtain i m where
    im: "GetManager lay (?p * PageSize) = Some i" "i < m_num_managers mm" "0 < m" "m \<le> ?n"
      "min ?n (GetPageOffsetToEnd (manager mm i) (?p * PageSize)) = m" "{?p..<?p + m} \<subseteq> impl_pages (manager mm i)"
    by blast
  let ?M = "{?p..<?p + m}" and ?L = "{?p + m..<?p + ?n}" and ?mm = "with_manager i (Impl_Free (?p * PageSize) m) mm"
  have M: "?B = ?M \<union> ?L" "?M \<inter> ?L = {}" unfolding B by (rule range_part [OF im(4)])+
  have run: "free_blocks lay (x # g) mm = free_blocks lay g ?mm"
    using im(1,5) by (simp add: x ad GetPageOffsetToEnd_def Let_def)
  have H: "P \<union> set (group_pages (x # g)) = P \<union> ?B \<union> ?G" using x by auto
  have F: "mm_ok lay ?mm (P \<union> ?B \<union> ?G - ?M)" "evolves mm ?mm (refs mm) (tracked mm)"
    using free_pages_ok [OF Cons.prems(1) im(2), of ?p m] im(6) M(1) Cons.prems(6) H x by auto
  have H': "P \<union> ?B \<union> ?G - ?M = (P \<union> ?L) \<union> ?G" using M d(2,3) by auto
  note c = evolvesD(1) [OF F(2)]
  have "(P \<union> ?L) \<inter> ?G = {}" "?G \<subseteq> all_pages ?mm" "\<forall>q \<in> ?G. refs ?mm q = 0"
    using d(2,4,6) M(1) all_pages_config [OF c mm_ok_wf [OF Cons.prems(1)]] Cons.prems(6) evolvesD(5) [OF F(2)] x by auto
  from Cons.IH [OF F(1) [unfolded H'] _ d(1) this] Cons.prems(2) obtain mm' L where
    I: "free_blocks lay g ?mm = Some mm'" "mm_ok lay mm' (P \<union> ?L \<union> L)" "L \<subseteq> ?G" "evolves ?mm mm' (refs ?mm) (tracked ?mm)"
      "apart ?mm \<longrightarrow> L = {}"
    by auto
  have same: "impl_pages (manager ?mm j) = impl_pages (manager mm j)" if "j < m_num_managers mm" for j
    using config_geom(1) [OF c mm_ok_wf [OF Cons.prems(1)] that] .
  have "apart ?mm \<and> ?L = {}" if a: "apart mm"
  proof
    show "apart ?mm"
      using a same config_sel(1) [OF c] unfolding apart_def by simp
    have "?p \<in> impl_pages (manager mm i)" using im(3,6) by auto
    from apart_range [OF a mm_ok_wf [OF Cons.prems(1)] im(2) this] d(5) B
    have sub: "{?p..<?p + ?n} \<subseteq> impl_pages (manager mm i)" by simp
    have "?p + ?n \<le> (region_base (manager mm i) + region_size (manager mm i)) div PageSize"
      using subsetD [OF sub, of "?p + ?n - 1"] n by (simp add: impl_pages_def) linarith
    moreover have "GetPageOffsetToEnd (manager mm i) (?p * PageSize) =
        (region_base (manager mm i) + region_size (manager mm i)) div PageSize - ?p"
      by (simp add: GetPageOffsetToEnd_def Impl_GetEndAddress_def div_diff_pages)
    ultimately show "?L = {}" using im(5) by auto
  qed
  then have a: "apart mm \<longrightarrow> ?L \<union> L = {}" using I(5) by blast
  have "evolves mm mm' (refs mm) (tracked mm)"
    using evolves_trans [OF F(2) I(4)] evolvesD(5,6) [OF F(2)] by simp
  moreover have "mm_ok lay mm' (P \<union> (?L \<union> L))" using I(2) by (simp add: Un_assoc)
  moreover have "?L \<union> L \<subseteq> set (group_pages (x # g))" using I(3) M(1) x by auto
  ultimately show ?case
    unfolding run using I(1) a by blast
qed

lemma GetBlockIndex_cases:
  "GetBlockIndex n = None \<longleftrightarrow> n = 0" "GetBlockIndex n = Some j \<Longrightarrow> j < 7"
proof -
  show "GetBlockIndex n = None \<longleftrightarrow> n = 0"
  proof
    assume "GetBlockIndex n = None"
    then have "\<not> GetBlockNumPages 0 \<le> n"
      by (auto simp: GetBlockIndex_def find_None_iff NumMemoryBlockPageShifts_def)
    then show "n = 0" using GetBlockNumPages_0 by simp
  next
    assume "n = 0"
    then show "GetBlockIndex n = None"
      using GetBlockSize_pages(2) by (auto simp: GetBlockIndex_def find_None_iff NumMemoryBlockPageShifts_def)
  qed
  show "j < 7" if "GetBlockIndex n = Some j"
    using that by (auto simp: GetBlockIndex_def find_Some_iff NumMemoryBlockPageShifts_def rev_nth)
qed

text \<open>A group of \<open>n\<close> pages of the pool has been taken.\<close>

definition grants ::
    "KMemoryLayout \<Rightarrow> Pool \<Rightarrow> nat \<Rightarrow> bool \<Rightarrow> nat set \<Rightarrow> 'r KMemoryManager \<Rightarrow> KPageGroup \<Rightarrow> 'r KMemoryManager \<Rightarrow> bool" where
  "grants lay pool n unopt P mm g mm' \<longleftrightarrow> group_ok g \<and> distinct (group_pages g) \<and> length (group_pages g) = n \<and>
     set (group_pages g) \<subseteq> pool_pages mm pool - P \<and> mm_ok lay mm' (P \<union> set (group_pages g)) \<and>
     evolves mm mm' (refs mm) (tracked mm - (if unopt then set (group_pages g) else {}))"

text \<open>The request has failed; the pages \<open>L\<close> are lost.\<close>

definition refuses ::
    "KMemoryLayout \<Rightarrow> Pool \<Rightarrow> nat \<Rightarrow> ('n \<Rightarrow> nat \<times> 'n) \<Rightarrow> nat set \<Rightarrow> 'r KMemoryManager \<Rightarrow> mm_error \<Rightarrow> nat set \<Rightarrow> 'r KMemoryManager \<Rightarrow> bool" where
  "refuses lay pool n alloc P mm e L mm' \<longleftrightarrow> mm_ok lay mm' (P \<union> L) \<and> L \<subseteq> pool_pages mm pool - P \<and> (apart mm \<longrightarrow> L = {}) \<and>
     (\<exists>T. tracked mm - (pool_pages mm pool - P) \<subseteq> T \<and> T \<subseteq> tracked mm \<and> evolves mm mm' (refs mm) T) \<and>
     (e = OutOfMemory \<and> (n = 0 \<or> card (pool_pages mm pool - P) < n) \<or>
      e = OutOfResource \<and> (\<exists>ns. fst (alloc ns) = 0))"

lemma finite_pool_pages [simp]: "finite (pool_pages mm pool)"
  by (simp add: pool_pages_def impl_pages_def)

lemma AllocatePageGroupImpl_ok:
  assumes ok: "mm_ok lay mm P" and pool: "pool < Pool_Count"
  shows "\<exists>r g ns' mm'. AllocatePageGroupImpl lay gen alloc free n pool dir unopt random ([], ns, mm) = Some (r, g, ns', mm') \<and>
    (case r of Inr _ \<Rightarrow> 0 < n \<and> grants lay pool n unopt P mm g mm'
     | Inl e \<Rightarrow> g = [] \<and> (\<exists>L. refuses lay pool n alloc P mm e L mm'))"
proof (cases "GetBlockIndex n")
  case None
  then have "n = 0" by (simp add: GetBlockIndex_cases)
  then have "refuses lay pool n alloc P mm OutOfMemory {} mm"
    unfolding refuses_def using ok evolves_refl [of mm] by auto
  then show ?thesis
    using None by (auto simp: AllocatePageGroupImpl_def)
next
  case (Some j)
  let ?is = "pool_managers pool dir mm"
  have j: "Suc j \<le> 7" and n: "0 < n" using GetBlockIndex_cases(2) [OF Some] GetBlockIndex_cases(1) [of n] Some by simp_all
  have is_: "\<forall>i \<in> set ?is. i < m_num_managers mm" "(\<Union>i \<in> set ?is. impl_pages (manager mm i)) = pool_pages mm pool"
    unfolding mm_okD(6) [OF ok pool] pool_pages_def by auto
  have "gathered lay mm P ?is unopt n [] n mm"
    unfolding gathered_def using ok evolves_refl [of mm] by simp
  note S = allocate_sizes_ok [OF this mm_ok_wf [OF ok] is_(1) j, of alloc gen random ns]
  obtain r g ns' mm' where run: "allocate_sizes gen alloc unopt random ?is (Suc j) n ([], ns, mm) = (r, g, ns', mm')"
    by (metis prod_cases4)
  obtain n' where G: "gathered lay mm P ?is unopt n g n' mm'" "r = Inr n' \<or> r = Inl OutOfResource \<and> (\<exists>ns. fst (alloc ns) = 0)"
    using S [unfolded run] unfolding gathers_def by auto
  let ?G = "set (group_pages g)"
  have g: "mm_ok lay mm' (P \<union> ?G)" "evolves mm mm' (refs mm) (tracked mm - (if unopt then ?G else {}))" "group_ok g"
    "distinct (group_pages g)" "?G \<subseteq> pool_pages mm pool - P" "length (group_pages g) + n' = n"
    using G(1) unfolding gathered_def is_(2) by simp_all
  show ?thesis
  proof (cases "r = Inr 0")
    case True
    then have "grants lay pool n unopt P mm g mm'"
      unfolding grants_def using g G(2) by simp
    then show ?thesis
      using Some run True n by (auto simp: AllocatePageGroupImpl_def)
  next
    case False
    have "P \<inter> ?G = {}" "?G \<subseteq> all_pages mm'" "\<forall>q \<in> ?G. refs mm' q = 0"
      using g(5) pool_pages_all [of mm pool] all_pages_config [OF evolvesD(1) [OF g(2)] mm_ok_wf [OF ok]]
        refs_held [OF ok] evolvesD(5) [OF g(2)] by auto
    from free_blocks_ok [OF g(1,3,4) this] obtain mm2 L where
      F: "free_blocks lay g mm' = Some mm2" "mm_ok lay mm2 (P \<union> L)" "L \<subseteq> ?G" "evolves mm' mm2 (refs mm') (tracked mm')"
        "apart mm' \<longrightarrow> L = {}"
      by blast
    let ?e = "case r of Inl e \<Rightarrow> e | Inr _ \<Rightarrow> OutOfMemory"
    have e: "?e = OutOfMemory \<and> card (pool_pages mm pool - P) < n \<or> ?e = OutOfResource \<and> (\<exists>ns. fst (alloc ns) = 0)"
    proof (cases r)
      case (Inr k)
      then have k: "k = n'" "0 < n'" using G(2) False by auto
      then have "pool_pages mm pool \<subseteq> P \<union> ?G"
        using S [unfolded run] Inr unfolding exhausts_def is_(2) [symmetric] by fastforce
      then have "pool_pages mm pool - P \<subseteq> ?G" by blast
      then have "card (pool_pages mm pool - P) \<le> card ?G" by (rule card_mono [rotated]) simp
      then show ?thesis using Inr k(2) g(4,6) by (simp add: distinct_card)
    qed (use G(2) in auto)
    have "apart mm \<longrightarrow> apart mm'"
      using config_geom(1) [OF evolvesD(1) [OF g(2)] mm_ok_wf [OF ok]] config_sel(1) [OF evolvesD(1) [OF g(2)]]
      unfolding apart_def by simp
    moreover have "evolves mm mm2 (refs mm) (tracked mm - (if unopt then ?G else {}))"
      using evolves_trans [OF g(2) F(4)] evolvesD(5,6) [OF g(2)] by simp
    moreover have "tracked mm - (pool_pages mm pool - P) \<subseteq> tracked mm - (if unopt then ?G else {})" using g(5) by auto
    ultimately have "refuses lay pool n alloc P mm ?e L mm2"
      unfolding refuses_def using F(2,3,5) g(5) e by blast
    moreover have "AllocatePageGroupImpl lay gen alloc free n pool dir unopt random ([], ns, mm) =
        Some (Inl ?e, [], fold (\<lambda>(node, _). free node) g ns', mm2)"
      using Some run False F(1) by (simp add: AllocatePageGroupImpl_def KPageGroup_Finalize_def Let_def)
    ultimately show ?thesis by auto
  qed
qed

section \<open>What the manager promises\<close>

text \<open>The abstract state: the pages handed out, how many references each has, the pages whose content an
  optimized process keeps, the memory, and the optimized process of each pool.\<close>

record page_table =
  held :: "nat set"
  count :: "nat \<Rightarrow> nat"
  kept :: "nat set"
  page_content :: dram
  optimized :: "Pool \<Rightarrow> u64 option"

datatype mm_event = Granted Pool nat "nat list" | Assigned u64 u8 Pool nat "nat list" | Placed Pool nat nat nat
  | Denied Pool nat mm_error | NotPlaced Pool nat nat | Shared "nat list" | Released "nat list"
  | Reserved u64 Pool | Occupied Pool | Unreserved u64 Pool | Crashed

definition take_pages :: "nat set \<Rightarrow> page_table \<Rightarrow> page_table" where
  "take_pages A a = a\<lparr>held := held a \<union> A, count := first_refs A (count a)\<rparr>"

definition forget_pages :: "Pool \<Rightarrow> nat set \<Rightarrow> page_table \<Rightarrow> page_table" where
  "forget_pages pool A a = a\<lparr>kept := (if optimized a pool = None then kept a else kept a - A)\<rparr>"

text \<open>
  The steps, over the regions \<open>pp\<close> of each pool; \<open>sep\<close> says that no two regions are adjacent and
  \<open>starved\<close> that the allocator of group nodes may fail. There is no step for a crash.
\<close>

inductive page_step :: "(Pool \<Rightarrow> nat set set) \<Rightarrow> bool \<Rightarrow> bool \<Rightarrow> page_table \<Rightarrow> mm_event \<Rightarrow> page_table \<Rightarrow> bool"
  for pp :: "Pool \<Rightarrow> nat set set" and sep :: bool and starved :: bool where
  granted: "distinct ps \<Longrightarrow> length ps = n \<Longrightarrow> set ps \<subseteq> \<Union> (pp pool) - held a \<Longrightarrow>
    page_step pp sep starved a (Granted pool n ps) (forget_pages pool (set ps) (take_pages (set ps) a))"
| assigned: "distinct ps \<Longrightarrow> length ps = n \<Longrightarrow> set ps \<subseteq> \<Union> (pp pool) - held a \<Longrightarrow> optimized a pool \<noteq> Some pid \<Longrightarrow>
    page_step pp sep starved a (Assigned pid v pool n ps)
      (forget_pages pool (set ps) (take_pages (set ps) (a\<lparr>page_content := filled (set ps) v (page_content a)\<rparr>)))"
| assigned_optimized: "distinct ps \<Longrightarrow> length ps = n \<Longrightarrow> set ps \<subseteq> \<Union> (pp pool) - held a \<Longrightarrow> optimized a pool = Some pid \<Longrightarrow>
    kept a \<subseteq> T \<Longrightarrow> T \<subseteq> kept a \<union> set ps \<Longrightarrow>
    page_step pp sep starved a (Assigned pid v pool n ps)
      (take_pages (set ps) (a\<lparr>page_content := filled (set ps - kept a) v (page_content a), kept := T\<rparr>))"
| placed: "R \<in> pp pool \<Longrightarrow> {p..<p + n} \<subseteq> R - held a \<Longrightarrow> 0 < n \<Longrightarrow> (\<forall>k. align = 2 ^ k \<longrightarrow> align dvd p) \<Longrightarrow>
    page_step pp sep starved a (Placed pool n align p)
      (forget_pages pool {p..<p + n} (take_pages {p..<p + n} a))"
| denied: "e = OutOfMemory \<and> (n = 0 \<or> card (\<Union> (pp pool) - held a) < n) \<or> e = OutOfResource \<and> starved \<Longrightarrow>
    L \<subseteq> \<Union> (pp pool) - held a \<Longrightarrow> (sep \<longrightarrow> L = {}) \<Longrightarrow> T \<subseteq> kept a \<Longrightarrow> kept a - (\<Union> (pp pool) - held a) \<subseteq> T \<Longrightarrow>
    page_step pp sep starved a (Denied pool n e) (a\<lparr>held := held a \<union> L, kept := T\<rparr>)"
| not_placed: "n = 0 \<or> (\<exists>j. GetAlignedBlockIndex n align = Some j \<and>
      (\<forall>R \<in> pp pool. \<forall>p. GetBlockNumPages j dvd p \<longrightarrow> \<not> {p..<p + GetBlockNumPages j} \<subseteq> R - held a)) \<Longrightarrow>
    page_step pp sep starved a (NotPlaced pool n align) a"
| shared: "\<forall>p \<in> set ps. 0 < count a p \<Longrightarrow>
    page_step pp sep starved a (Shared ps) (a\<lparr>count := more_refs (set ps) (count a)\<rparr>)"
| released: "\<forall>p \<in> set ps. 0 < count a p \<Longrightarrow>
    page_step pp sep starved a (Released ps)
      (a\<lparr>held := held a - {p \<in> set ps. count a p = 1}, count := less_refs (set ps) (count a)\<rparr>)"
| reserved: "optimized a pool = None \<Longrightarrow>
    page_step pp sep starved a (Reserved pid pool)
      (a\<lparr>kept := kept a - \<Union> (pp pool), optimized := (optimized a)(pool := Some pid)\<rparr>)"
| occupied: "optimized a pool \<noteq> None \<Longrightarrow> page_step pp sep starved a (Occupied pool) a"
| unreserved: "page_step pp sep starved a (Unreserved pid pool)
    (if optimized a pool = Some pid then a\<lparr>optimized := (optimized a)(pool := None)\<rparr> else a)"

definition pool_regions :: "'r KMemoryManager \<Rightarrow> Pool \<Rightarrow> nat set set" where
  "pool_regions mm pool = {impl_pages (manager mm i) |i. i < m_num_managers mm \<and> m_pool (manager mm i) = pool}"

lemma Union_pool_regions: "\<Union> (pool_regions mm pool) = pool_pages mm pool"
  by (auto simp: pool_regions_def pool_pages_def)

definition reserved_by :: "'r KMemoryManager \<Rightarrow> Pool \<Rightarrow> u64 option" where
  "reserved_by mm pool = (if m_has_optimized_process mm pool then Some (m_optimized_process_ids mm pool) else None)"

lemma reserved_by_cong:
  "m_optimized_process_ids mm' = m_optimized_process_ids mm \<Longrightarrow> m_has_optimized_process mm' = m_has_optimized_process mm \<Longrightarrow>
    reserved_by mm' = reserved_by mm"
  unfolding reserved_by_def fun_eq_iff by (simp only:) simp

text \<open>The abstract state that a manager holds; the regions are those of \<open>mm0\<close>.\<close>

definition represents :: "KMemoryLayout \<Rightarrow> 'r KMemoryManager \<Rightarrow> page_table \<Rightarrow> 'r KMemoryManager \<Rightarrow> bool" where
  "represents lay mm0 a mm \<longleftrightarrow> config mm = config mm0 \<and> mm_ok lay mm (held a) \<and> count a = refs mm \<and> kept a = tracked mm \<and>
     page_content a = memory mm \<and> optimized a = reserved_by mm"

lemma holdsD:
  assumes "represents lay mm0 a mm"
  shows "config mm = config mm0" "mm_ok lay mm (held a)" "count a = refs mm" "kept a = tracked mm" "page_content a = memory mm"
    "optimized a = reserved_by mm"
  using assms by (simp_all add: represents_def)

lemma holds_wf: "represents lay mm0 a mm \<Longrightarrow> mm_wf lay mm0"
  using mm_wf_config(1) [of mm0 mm lay] mm_ok_wf by (auto simp: represents_def)

lemma holds_regions:
  assumes "represents lay mm0 a mm"
  shows "pool_regions mm pool = pool_regions mm0 pool" "pool_pages mm pool = \<Union> (pool_regions mm0 pool)" "apart mm = apart mm0"
proof -
  note c = holdsD(1) [OF assms] and wf = holds_wf [OF assms]
  show r: "pool_regions mm pool = pool_regions mm0 pool"
    using config_geom(1,3) [OF c wf] config_sel(1) [OF c] unfolding pool_regions_def
    by (intro Collect_cong ex_cong1) auto
  show "pool_pages mm pool = \<Union> (pool_regions mm0 pool)"
    unfolding Union_pool_regions [symmetric] r ..
  show "apart mm = apart mm0"
    using config_geom(1) [OF c wf] config_sel(1) [OF c] unfolding apart_def by simp
qed

lemma holds_evolves:
  assumes "represents lay mm0 a mm" "evolves mm mm' r T" "mm_ok lay mm' H"
  shows "represents lay mm0 (a\<lparr>held := H, count := r, kept := T\<rparr>) mm'"
  using assms(1,3) evolvesD [OF assms(2)] reserved_by_cong [of mm' mm] unfolding represents_def by simp
lemma page_table_same: "a\<lparr>held := X, count := count a, kept := T\<rparr> = a\<lparr>held := X, kept := T\<rparr>"
  "a\<lparr>held := held a, count := count a, kept := T\<rparr> = a\<lparr>kept := T\<rparr>"
  "a\<lparr>held := X, count := r, kept := kept a\<rparr> = a\<lparr>held := X, count := r\<rparr>"
  "a\<lparr>held := held a, count := r, kept := kept a\<rparr> = a\<lparr>count := r\<rparr>"
  "a\<lparr>held := held a, count := count a, kept := kept a\<rparr> = a"
  by (cases a; simp)+

lemma open_granted:
  assumes ok: "mm_ok lay mm P" and G: "grants lay pool n unopt P mm g mm1"
  shows "\<exists>mm'. for_blocks lay open_first_pages g mm1 = Some mm' \<and> mm_ok lay mm' (P \<union> set (group_pages g)) \<and>
    evolves mm mm' (first_refs (set (group_pages g)) (refs mm)) (tracked mm - (if unopt then set (group_pages g) else {}))"
proof -
  let ?G = "set (group_pages g)"
  note G' = G [unfolded grants_def]
  have ok1: "mm_ok lay mm1 (P \<union> ?G)" and ev: "evolves mm mm1 (refs mm) (tracked mm - (if unopt then ?G else {}))"
    and sub: "?G \<subseteq> pool_pages mm pool - P" and d: "distinct (group_pages g)"
    using G' by simp_all
  have R: "refs mm1 q = 0" if "q \<in> ?G" for q
    using sub that refs_held [OF ok, of q] evolvesD(5) [OF ev] by auto
  have R1: "?G \<subseteq> all_pages mm1"
    using sub pool_pages_all [of mm pool] all_pages_config [OF evolvesD(1) [OF ev] mm_ok_wf [OF ok]] by auto
  have J: "mm_ok lay mm1 (P \<union> ?G) \<and> evolves mm1 mm1 (first_refs {} (refs mm1)) (tracked mm1)"
    using ok1 evolves_refl [of mm1] by simp
  have "\<exists>mm'. for_blocks lay open_first_pages g mm1 = Some mm' \<and>
      (mm_ok lay mm' (P \<union> ?G) \<and> evolves mm1 mm' (first_refs ({} \<union> ?G) (refs mm1)) (tracked mm1))"
    by (rule group_law [OF open_first_law [OF ok1 R1 Un_upper2 R] ok1 _ J d]) auto
  then obtain mm' where mm': "for_blocks lay open_first_pages g mm1 = Some mm'" "mm_ok lay mm' (P \<union> ?G)"
      "evolves mm1 mm' (first_refs ?G (refs mm1)) (tracked mm1)"
    by auto
  show ?thesis
    using mm'(1,2) evolves_trans [OF ev mm'(3)] unfolding evolvesD(5,6) [OF ev] by blast
qed

lemma holds_granted:
  assumes H: "represents lay mm0 a mm" and ok: "mm_ok lay mm' (held a \<union> A)"
    and ev: "evolves mm mm' (first_refs A (refs mm)) (tracked mm - (if m_has_optimized_process mm pool then A else {}))"
  shows "represents lay mm0 (forget_pages pool A (take_pages A a)) mm'"
proof -
  have "forget_pages pool A (take_pages A a) = a\<lparr>held := held a \<union> A, count := first_refs A (refs mm),
      kept := tracked mm - (if m_has_optimized_process mm pool then A else {})\<rparr>"
    using holdsD(3,4,6) [OF H] by (simp add: forget_pages_def take_pages_def reserved_by_def)
  then show ?thesis using holds_evolves [OF H ev ok] by simp
qed

lemma denied_step:
  assumes H: "represents lay mm0 a mm" and R: "refuses lay pool n alloc (held a) mm e L mm'"
  shows "\<exists>a'. page_step (pool_regions mm0) (apart mm0) (\<exists>ns. fst (alloc ns) = 0) a (Denied pool n e) a' \<and> represents lay mm0 a' mm'"
proof -
  note R' = R [unfolded refuses_def holds_regions(2,3) [OF H]]
  then obtain T where T: "kept a - (\<Union> (pool_regions mm0 pool) - held a) \<subseteq> T" "T \<subseteq> kept a" "evolves mm mm' (refs mm) T"
    unfolding holdsD(4) [OF H] by blast
  have "page_step (pool_regions mm0) (apart mm0) (\<exists>ns. fst (alloc ns) = 0) a (Denied pool n e) (a\<lparr>held := held a \<union> L, kept := T\<rparr>)"
    using R' T(1,2) by (intro page_step.denied) blast+
  moreover have "represents lay mm0 (a\<lparr>held := held a \<union> L, kept := T\<rparr>) mm'"
    using holds_evolves [OF H T(3), of "held a \<union> L"] R' unfolding holdsD(3) [OF H, symmetric] page_table_same by simp
  ultimately show ?thesis by blast
qed

text \<open>What a request returns, as an event.\<close>

lemma AllocateAndOpen_step:
  assumes H: "represents lay mm0 a mm" and pool: "fst (DecodeOption option) < Pool_Count"
  shows "\<exists>r g ns' mm' a'. AllocateAndOpen lay gen alloc free n option ([], ns, mm) = Some (r, g, ns', mm') \<and>
    page_step (pool_regions mm0) (apart mm0) (\<exists>ns. fst (alloc ns) = 0) a
      (case r of Inl e \<Rightarrow> Denied (fst (DecodeOption option)) n e
       | Inr _ \<Rightarrow> Granted (fst (DecodeOption option)) n (group_pages g)) a' \<and> represents lay mm0 a' mm'"
proof (cases "n = 0")
  case True
  have "page_step (pool_regions mm0) (apart mm0) (\<exists>ns. fst (alloc ns) = 0) a (Granted (fst (DecodeOption option)) n [])
      (forget_pages (fst (DecodeOption option)) (set []) (take_pages (set []) a))"
    using True by (intro page_step.granted) auto
  moreover have "forget_pages (fst (DecodeOption option)) (set []) (take_pages (set []) a) = a"
    by (simp add: forget_pages_def take_pages_def)
  ultimately show ?thesis
    using True H by (auto simp: AllocateAndOpen_def)
next
  case False
  obtain pool dir where po: "DecodeOption option = (pool, dir)" by (cases "DecodeOption option")
  let ?u = "m_has_optimized_process mm pool"
  have ok: "mm_ok lay mm (held a)" by (rule holdsD(2) [OF H])
  from AllocatePageGroupImpl_ok [OF ok, of pool gen alloc free n dir ?u True ns] pool po
  obtain r g ns' mm1 where run: "AllocatePageGroupImpl lay gen alloc free n pool dir ?u True ([], ns, mm) = Some (r, g, ns', mm1)"
    and res: "case r of Inr _ \<Rightarrow> 0 < n \<and> grants lay pool n ?u (held a) mm g mm1
     | Inl e \<Rightarrow> g = [] \<and> (\<exists>L. refuses lay pool n alloc (held a) mm e L mm1)"
    by auto
  show ?thesis
  proof (cases r)
    case (Inl e)
    then obtain L where "refuses lay pool n alloc (held a) mm e L mm1" using res by auto
    from denied_step [OF H this] Inl False po run show ?thesis
      by (auto simp: AllocateAndOpen_def)
  next
    case (Inr u)
    then have G: "grants lay pool n ?u (held a) mm g mm1" using res by simp
    from open_granted [OF ok G] obtain mm' where
      mm': "for_blocks lay open_first_pages g mm1 = Some mm'" "mm_ok lay mm' (held a \<union> set (group_pages g))"
        "evolves mm mm' (first_refs (set (group_pages g)) (refs mm)) (tracked mm - (if ?u then set (group_pages g) else {}))"
      by blast
    have "page_step (pool_regions mm0) (apart mm0) (\<exists>ns. fst (alloc ns) = 0) a (Granted pool n (group_pages g))
        (forget_pages pool (set (group_pages g)) (take_pages (set (group_pages g)) a))"
      using G [unfolded grants_def holds_regions(2) [OF H]] by (intro page_step.granted) auto
    moreover have "AllocateAndOpen lay gen alloc free n option ([], ns, mm) = Some (Inr (), g, ns', mm')"
      using False po run Inr mm'(1) by (simp add: AllocateAndOpen_def)
    ultimately show ?thesis
      using holds_granted [OF H mm'(2,3)] po by auto
  qed
qed

lemma pages_sel [simp]:
  "held (take_pages A a) = held a \<union> A" "count (take_pages A a) = first_refs A (count a)" "kept (take_pages A a) = kept a"
  "page_content (take_pages A a) = page_content a" "optimized (take_pages A a) = optimized a"
  "held (forget_pages pool A a) = held a" "count (forget_pages pool A a) = count a" "page_content (forget_pages pool A a) = page_content a"
  "optimized (forget_pages pool A a) = optimized a"
  "kept (forget_pages pool A a) = (if optimized a pool = None then kept a else kept a - A)"
  by (simp_all add: take_pages_def forget_pages_def)

lemma pages_content:
  "take_pages A (a\<lparr>page_content := c, kept := T\<rparr>) = (take_pages A a)\<lparr>page_content := c, kept := T\<rparr>"
  "forget_pages pool A (take_pages A (a\<lparr>page_content := c\<rparr>)) = (forget_pages pool A (take_pages A a))\<lparr>page_content := c\<rparr>"
  by (cases a; simp add: take_pages_def forget_pages_def)+

lemma holds_memory:
  assumes "represents lay mm0 a mm"
  shows "represents lay mm0 (a\<lparr>page_content := mem\<rparr>) (mm\<lparr>memory := mem\<rparr>)"
  using assms reserved_by_cong [of "mm\<lparr>memory := mem\<rparr>" mm] unfolding represents_def memory_frame by simp

lemma holds_fills:
  assumes H: "represents lay mm0 a mm" and F: "fills lay (held a) v A mm mm'"
  shows "represents lay mm0 (a\<lparr>page_content := filled (A - kept a) v (page_content a), kept := tracked mm'\<rparr>) mm'"
  using H F reserved_by_cong [of mm' mm] unfolding represents_def fills_def by simp

lemma AllocateAndOpenForProcess_step:
  assumes H: "represents lay mm0 a mm" and pool: "fst (DecodeOption option) < Pool_Count"
  shows "\<exists>r g ns' mm' a'. AllocateAndOpenForProcess lay gen alloc free n option pid v ([], ns, mm) = Some (r, g, ns', mm') \<and>
    page_step (pool_regions mm0) (apart mm0) (\<exists>ns. fst (alloc ns) = 0) a
      (case r of Inl e \<Rightarrow> Denied (fst (DecodeOption option)) n e
       | Inr _ \<Rightarrow> Assigned pid v (fst (DecodeOption option)) n (group_pages g)) a' \<and> represents lay mm0 a' mm'"
proof -
  obtain pool dir where po: "DecodeOption option = (pool, dir)" by (cases "DecodeOption option")
  let ?has = "m_has_optimized_process mm pool" and ?is = "m_optimized_process_ids mm pool = pid"
  let ?u = "?has \<and> \<not> ?is"
  have ok: "mm_ok lay mm (held a)" by (rule holdsD(2) [OF H])
  from AllocatePageGroupImpl_ok [OF ok, of pool gen alloc free n dir ?u False ns] pool po
  obtain r g ns' mm1 where run: "AllocatePageGroupImpl lay gen alloc free n pool dir ?u False ([], ns, mm) = Some (r, g, ns', mm1)"
    and res: "case r of Inr _ \<Rightarrow> 0 < n \<and> grants lay pool n ?u (held a) mm g mm1
     | Inl e \<Rightarrow> g = [] \<and> (\<exists>L. refuses lay pool n alloc (held a) mm e L mm1)"
    by auto
  show ?thesis
  proof (cases r)
    case (Inl e)
    then obtain L where "refuses lay pool n alloc (held a) mm e L mm1" using res by auto
    from denied_step [OF H this] Inl po run show ?thesis
      by (auto simp: AllocateAndOpenForProcess_def)
  next
    case (Inr u)
    let ?G = "set (group_pages g)"
    have G: "grants lay pool n ?u (held a) mm g mm1" using Inr res by simp
    note G' = G [unfolded grants_def holds_regions(2) [OF H]]
    from open_granted [OF ok G] obtain mm2 where
      mm2: "for_blocks lay open_first_pages g mm1 = Some mm2" "mm_ok lay mm2 (held a \<union> ?G)"
        "evolves mm mm2 (first_refs ?G (refs mm)) (tracked mm - (if ?u then ?G else {}))"
      by blast
    have opt: "optimized a pool = (if ?has then Some (m_optimized_process_ids mm pool) else None)"
      using holdsD(6) [OF H] by (simp add: reserved_by_def)
    show ?thesis
    proof (cases "?has \<and> ?is")
      case True
      have "evolves mm mm2 (first_refs ?G (refs mm)) (tracked mm)" using mm2(3) True by simp
      from holds_evolves [OF H this mm2(2)] have H2: "represents lay mm0 (take_pages ?G a) mm2"
        unfolding holdsD(4) [OF H, symmetric] page_table_same take_pages_def holdsD(3) [OF H] .
      have "?G \<subseteq> all_pages mm2"
        using G' pool_pages_all [of mm pool] all_pages_config [OF evolvesD(1) [OF mm2(3)] mm_ok_wf [OF ok]]
        unfolding holds_regions(2) [OF H] by auto
      from fill_blocks_ok [OF mm2(2) _ this] G' obtain mm3 where
        mm3: "fill_blocks lay v g mm2 = Some mm3" "fills lay (held a \<union> ?G) v ?G mm2 mm3" by blast
      let ?a = "take_pages ?G (a\<lparr>page_content := filled (?G - kept a) v (page_content a), kept := tracked mm3\<rparr>)"
      have "fills lay (held (take_pages ?G a)) v ?G mm2 mm3" using mm3(2) by simp
      from holds_fills [OF H2 this] have H3: "represents lay mm0 ?a mm3" by (simp add: pages_content)
      have "kept a \<subseteq> tracked mm3" "tracked mm3 \<subseteq> kept a \<union> ?G"
        using mm3(2) holdsD(4) [OF H2] unfolding fills_def by auto
      then have "page_step (pool_regions mm0) (apart mm0) (\<exists>ns. fst (alloc ns) = 0) a (Assigned pid v pool n (group_pages g)) ?a"
        using G' opt True by (intro page_step.assigned_optimized) auto
      moreover have "AllocateAndOpenForProcess lay gen alloc free n option pid v ([], ns, mm) = Some (Inr (), g, ns', mm3)"
        using po run Inr mm2(1) mm3(1) True by (simp add: AllocateAndOpenForProcess_def)
      ultimately show ?thesis using H3 po by auto
    next
      case False
      have u: "?u = ?has" using False by blast
      let ?a = "forget_pages pool ?G (take_pages ?G (a\<lparr>page_content := filled ?G v (page_content a)\<rparr>))"
      let ?mm = "mm2\<lparr>memory := set_blocks v g (memory mm2)\<rparr>"
      have "evolves mm mm2 (first_refs ?G (refs mm)) (tracked mm - (if ?has then ?G else {}))"
        using mm2(3) unfolding u .
      from holds_memory [OF holds_granted [OF H mm2(2) this]] have "represents lay mm0 ?a ?mm"
        using holdsD(5) [OF H] evolvesD(2) [OF mm2(3)] by (simp add: set_blocks_ok pages_content)
      moreover have "page_step (pool_regions mm0) (apart mm0) (\<exists>ns. fst (alloc ns) = 0) a (Assigned pid v pool n (group_pages g)) ?a"
        using G' opt False by (intro page_step.assigned) auto
      moreover have "AllocateAndOpenForProcess lay gen alloc free n option pid v ([], ns, mm) = Some (Inr (), g, ns', ?mm)"
        using po run Inr mm2(1) False by (auto simp: AllocateAndOpenForProcess_def)
      ultimately show ?thesis using po by auto
    qed
  qed
qed

section \<open>Contiguous memory\<close>

text \<open>No region of the managers \<open>is\<close> has a free aligned block of size \<open>j\<close>.\<close>

definition no_block :: "nat \<Rightarrow> nat set \<Rightarrow> nat set \<Rightarrow> bool" where
  "no_block j P R \<longleftrightarrow> (\<forall>p. GetBlockNumPages j dvd p \<longrightarrow> \<not> {p..<p + GetBlockNumPages j} \<subseteq> R - P)"

lemma try_managers_ok:
  assumes "mm_ok lay mm P" "j < 7" "\<forall>i \<in> set is. i < m_num_managers mm" "try_managers gen j is mm = ((x, i), mm')"
  shows "evolves mm mm' (refs mm) (tracked mm) \<and>
    (if x = 0 then mm_ok lay mm' P \<and> (\<forall>i \<in> set is. no_block j P (impl_pages (manager mm i)))
     else i \<in> set is \<and> x = x div PageSize * PageSize \<and> GetBlockSize j dvd x \<and>
       {x div PageSize..<x div PageSize + GetBlockNumPages j} \<subseteq> impl_pages (manager mm i) - P \<and>
       mm_ok lay mm' (P \<union> {x div PageSize..<x div PageSize + GetBlockNumPages j}))"
  using assms
proof (induction "is" arbitrary: mm)
  case Nil
  then show ?case using evolves_refl by auto
next
  case (Cons k "is")
  obtain y mm1 where mb: "manager_block gen j True k mm = (y, mm1)" by (cases "manager_block gen j True k mm")
  have k: "k < m_num_managers mm" using Cons.prems(3) by simp
  note B = manager_block_ok [OF Cons.prems(1) k Cons.prems(2) mb]
  show ?case
  proof (cases "y = 0")
    case False
    then have r: "x = y" "i = k" "mm' = mm1" using Cons.prems(4) mb by auto
    show ?thesis unfolding r using B(1,2) False by simp
  next
    case True
    note c = evolvesD(1) [OF B(1)]
    have rest: "try_managers gen j is mm1 = ((x, i), mm')" using Cons.prems(4) mb True by simp
    have m1: "mm_ok lay mm1 P" "no_block j P (impl_pages (manager mm k))" using B(3) True by (auto simp: no_block_def)
    have "\<forall>i \<in> set is. i < m_num_managers mm1" using Cons.prems(3) config_sel(1) [OF c] by simp
    note IH = Cons.IH [OF m1(1) Cons.prems(2) this rest]
    have same: "impl_pages (manager mm1 l) = impl_pages (manager mm l)" if "l \<in> set is" for l
      using config_geom(1) [OF c mm_ok_wf [OF Cons.prems(1)]] Cons.prems(3) that by simp
    have "evolves mm mm' (refs mm) (tracked mm)"
      using evolves_trans [OF B(1)] IH evolvesD(5,6) [OF B(1)] by simp
    then show ?thesis using IH m1(2) same same [of i] by (cases "x = 0") auto
  qed
qed

lemma GetAlignedBlockIndex_some:
  assumes "GetAlignedBlockIndex n align = Some j"
  shows "j < 7" "n \<le> GetBlockNumPages j" "align \<le> GetBlockNumPages j"
  using assms by (auto simp: GetAlignedBlockIndex_def find_Some_iff NumMemoryBlockPageShifts_def Let_def)

lemma block_aligned:
  assumes "j < 7" "GetBlockSize j dvd p * PageSize" "align \<le> GetBlockNumPages j" "align = 2 ^ k"
  shows "align dvd p"
proof -
  have "GetBlockNumPages j dvd p"
    using assms(2) unfolding GetBlockSize_pages(1) [OF assms(1)] by simp
  moreover obtain l where l: "GetBlockNumPages j = 2 ^ l"
  proof -
    have "MemoryBlockPageShifts ! j \<ge> 12"
      using assms(1) by (auto simp: MemoryBlockPageShifts_def less_Suc_eq numeral_eq_Suc)
    then have "GetBlockNumPages j = 2 ^ (MemoryBlockPageShifts ! j - 12)"
      by (simp add: GetBlockNumPages_def GetBlockSize_def PageSize_def power_diff)
    then show ?thesis using that by blast
  qed
  moreover have "k \<le> l" using assms(3,4) unfolding l by (simp add: power_le_imp_le_exp)
  ultimately show ?thesis using assms(4) by (metis dvd_trans le_imp_power_dvd)
qed
text \<open>The rest of the block is given back, the pages are opened.\<close>

lemma trim_block:
  fixes u :: bool
  assumes ok: "mm_ok lay mm (P \<union> {p..<p + k})" and i: "i < m_num_managers mm" and n: "0 < n" "n \<le> k"
    and sub: "{p..<p + k} \<subseteq> impl_pages (manager mm i) - P" and z: "\<And>q. q \<notin> P \<Longrightarrow> refs mm q = 0"
  defines "mm1 \<equiv> if n < k then with_manager i (Impl_Free (p * PageSize + n * PageSize) (k - n)) mm else mm"
  defines "mm2 \<equiv> if u then with_manager i (TrackUnoptimizedAllocation (p * PageSize) n) mm1 else mm1"
  shows "\<exists>mm'. try_manager i (Impl_OpenFirst (p * PageSize) n) mm2 = Some mm' \<and> mm_ok lay mm' (P \<union> {p..<p + n}) \<and>
    evolves mm mm' (first_refs {p..<p + n} (refs mm)) (tracked mm - (if u then {p..<p + n} else {}))"
proof -
  let ?N = "{p..<p + n}" and ?L = "{p + n..<p + k}"
  have split: "{p..<p + k} = ?N \<union> ?L" "?N \<inter> ?L = {}" by (rule range_part [OF n(2)])+
  have m1: "mm_ok lay mm1 (P \<union> ?N) \<and> evolves mm mm1 (refs mm) (tracked mm)"
  proof (cases "n < k")
    case True
    have e: "p * PageSize + n * PageSize = (p + n) * PageSize" by (simp add: algebra_simps)
    have r: "{p + n..<p + n + (k - n)} = ?L" using True by simp
    have "P \<union> {p..<p + k} - ?L = P \<union> ?N" using split sub by auto
    moreover have "?L \<subseteq> impl_pages (manager mm i) \<inter> (P \<union> {p..<p + k})" using split sub by auto
    moreover have "refs mm q = 0" if "q \<in> ?L" for q using z that split sub by auto
    ultimately show ?thesis
      using free_pages_ok [OF ok i, of "p + n" "k - n"] True unfolding mm1_def e r by simp
  next
    case False
    then have "k = n" using n by simp
    then show ?thesis using ok evolves_refl [of mm] by (simp add: mm1_def)
  qed
  note c1 = evolvesD(1) [OF conjunct2 [OF m1]]
  have "?N \<subseteq> impl_pages (manager mm i)" using split sub by auto
  note i1 = chunk_in [OF c1 mm_ok_wf [OF ok] i this]
  have m2: "mm_ok lay mm2 (P \<union> ?N) \<and> evolves mm1 mm2 (refs mm1) (tracked mm1 - (if u then ?N else {}))"
    using untrack_pages_ok [OF conjunct1 [OF m1] i1(1) n(1) i1(2)] m1 evolves_refl [of mm1] by (simp add: mm2_def)
  note ev = evolves_trans [OF conjunct2 [OF m1] conjunct2 [OF m2]]
  have "?N \<subseteq> impl_pages (manager mm i)" using split sub by auto
  note i2 = chunk_in [OF evolvesD(1) [OF ev] mm_ok_wf [OF ok] i this]
  have r1: "refs mm1 = refs mm" "tracked mm1 = tracked mm" using m1 by (simp_all add: evolves_def)
  have "refs mm2 q = 0" if "q \<in> ?N" for q
    using evolvesD(5) [OF ev] r1 z that split sub by auto
  from open_first_pages_ok [OF conjunct1 [OF m2] i2(1) n(1) i2(2) Un_upper2 this] obtain mm' where
    mm': "try_manager i (Impl_OpenFirst (p * PageSize) n) mm2 = Some mm'" "mm_ok lay mm' (P \<union> ?N)"
      "evolves mm2 mm' (\<lambda>q. if q \<in> ?N then 1 else refs mm2 q) (tracked mm2)"
    unfolding open_first_pages_def by blast
  have "(\<lambda>q. if q \<in> ?N then 1 else refs mm2 q) = first_refs ?N (refs mm)"
    unfolding evolvesD(5) [OF ev] r1 by (simp add: first_refs_def fun_eq_iff)
  then show ?thesis
    using mm'(1,2) evolves_trans [OF ev mm'(3)] unfolding evolvesD(6) [OF ev] r1 by auto
qed
lemma AllocateAndOpenContinuous_step:
  assumes H: "represents lay mm0 a mm" and pool: "fst (DecodeOption option) < Pool_Count" and j: "GetAlignedBlockIndex n align \<noteq> None"
  shows "\<exists>x mm' a'. AllocateAndOpenContinuous gen n align option mm = Some (x, mm') \<and>
    page_step (pool_regions mm0) (apart mm0) starved a
      (if x = 0 then NotPlaced (fst (DecodeOption option)) n align
       else Placed (fst (DecodeOption option)) n align (x div PageSize)) a' \<and> represents lay mm0 a' mm'"
proof (cases "n = 0")
  case True
  then show ?thesis using H by (auto simp: AllocateAndOpenContinuous_def intro!: page_step.not_placed)
next
  case False
  obtain pool dir where po: "DecodeOption option = (pool, dir)" by (cases "DecodeOption option")
  obtain j where j: "GetAlignedBlockIndex n align = Some j" using j by auto
  note J = GetAlignedBlockIndex_some [OF j]
  let ?is = "pool_managers pool dir mm" and ?k = "GetBlockNumPages j" and ?u = "m_has_optimized_process mm pool"
  have ok: "mm_ok lay mm (held a)" by (rule holdsD(2) [OF H])
  have is_: "set ?is = {i. i < m_num_managers mm \<and> m_pool (manager mm i) = pool}"
    using mm_okD(6) [OF ok] pool po by simp
  have reg: "pool_regions mm0 pool = {impl_pages (manager mm i) |i. i \<in> set ?is}"
    unfolding holds_regions(1) [OF H, symmetric] unfolding is_ pool_regions_def by simp
  have regions: "impl_pages (manager mm i) \<in> pool_regions mm0 pool" if "i \<in> set ?is" for i
    using that unfolding reg by blast
  obtain x i mm1 where tried: "try_managers gen j ?is mm = ((x, i), mm1)" by (metis surj_pair)
  have "\<forall>i \<in> set ?is. i < m_num_managers mm" unfolding is_ by simp
  note T = try_managers_ok [OF ok J(1) this tried]
  show ?thesis
  proof (cases "x = 0")
    case True
    have none: "no_block j (held a) R" if R: "R \<in> pool_regions mm0 pool" for R
    proof -
      obtain l where "R = impl_pages (manager mm l)" "l \<in> set ?is"
        using R unfolding reg by blast
      then show ?thesis using T True by simp
    qed
    have "page_step (pool_regions mm0) (apart mm0) starved a (NotPlaced pool n align) a"
      by (rule page_step.not_placed) (use j none in \<open>auto simp: no_block_def\<close>)
    moreover have "represents lay mm0 a mm1"
      using holds_evolves [OF H, of mm1 "refs mm" "tracked mm" "held a"] T True
      unfolding holdsD(3,4) [OF H, symmetric] page_table_same by simp
    moreover have "AllocateAndOpenContinuous gen n align option mm = Some (0, mm1)"
      using False po j tried True by (simp add: AllocateAndOpenContinuous_def)
    ultimately show ?thesis using po by auto
  next
    case x: False
    let ?p = "x div PageSize"
    have X: "evolves mm mm1 (refs mm) (tracked mm)" "i \<in> set ?is" "x = ?p * PageSize" "GetBlockSize j dvd x"
      "{?p..<?p + ?k} \<subseteq> impl_pages (manager mm i) - held a" "mm_ok lay mm1 (held a \<union> {?p..<?p + ?k})"
      using T x by simp_all
    have im: "i < m_num_managers mm" using X(2) unfolding is_ by simp
    have i1: "i < m_num_managers mm1" "{?p..<?p + ?k} \<subseteq> impl_pages (manager mm1 i) - held a"
      using chunk_in [OF evolvesD(1) [OF X(1)] mm_ok_wf [OF ok] im, of "{?p..<?p + ?k}"] X(5) by auto
    have z: "refs mm1 q = 0" if "q \<notin> held a" for q
      using refs_held [OF ok] that evolvesD(5) [OF X(1)] by auto
    let ?m1 = "if n < ?k then with_manager i (Impl_Free (x + n * PageSize) (?k - n)) mm1 else mm1"
    let ?m2 = "if ?u then with_manager i (TrackUnoptimizedAllocation x n) ?m1 else ?m1"
    have n: "0 < n" using False by simp
    from trim_block [OF X(6) i1(1) n J(2) i1(2) z, of ?u, folded X(3)]
    obtain mm' where mm': "try_manager i (Impl_OpenFirst x n) ?m2 = Some mm'" "mm_ok lay mm' (held a \<union> {?p..<?p + n})"
        "evolves mm1 mm' (first_refs {?p..<?p + n} (refs mm1)) (tracked mm1 - (if ?u then {?p..<?p + n} else {}))"
      by blast
    have H': "represents lay mm0 (forget_pages pool {?p..<?p + n} (take_pages {?p..<?p + n} a)) mm'"
      by (rule holds_granted [OF H mm'(2)])
        (use evolves_trans [OF X(1) mm'(3)] evolvesD(5,6) [OF X(1)] in simp)
    have hm: "m_has_optimized_process ?m1 = m_has_optimized_process mm"
      using evolvesD(4) [OF X(1)] by (simp add: with_manager_put)
    have "GetBlockSize j dvd ?p * PageSize" by (subst X(3) [symmetric]) (rule X(4))
    then have al: "\<forall>k. align = 2 ^ k \<longrightarrow> align dvd ?p"
      using block_aligned [OF J(1) _ J(3)] by blast
    have sub: "{?p..<?p + n} \<subseteq> impl_pages (manager mm i) - held a"
      using X(5) range_part(1) [OF J(2), of ?p] by auto
    have "page_step (pool_regions mm0) (apart mm0) starved a (Placed pool n align ?p)
        (forget_pages pool {?p..<?p + n} (take_pages {?p..<?p + n} a))"
      by (rule page_step.placed) (fact regions [OF X(2)] sub n al)+
    moreover have "AllocateAndOpenContinuous gen n align option mm = Some (x, mm')"
      unfolding AllocateAndOpenContinuous_def using False po j tried x mm'(1) hm by (simp add: Let_def)
    ultimately show ?thesis using H' po x by auto
  qed
qed

section \<open>References and optimized processes\<close>

text \<open>Over a group, or over one range.\<close>

lemma shared_step:
  assumes H: "represents lay mm0 a mm" and z: "\<forall>q \<in> A. 0 < count a q \<and> count a q < 2 ^ 16 - 1"
  shows "{p..<p + n} = A \<Longrightarrow> \<exists>mm'. KMemoryManager_Open lay (p * PageSize) n mm = Some mm' \<and>
      represents lay mm0 (a\<lparr>count := more_refs A (count a)\<rparr>) mm'"
    "set (group_pages g) = A \<Longrightarrow> distinct (group_pages g) \<Longrightarrow> \<exists>mm'. KPageGroup_Open lay g mm = Some mm' \<and>
      represents lay mm0 (a\<lparr>count := more_refs A (count a)\<rparr>) mm'"
proof -
  let ?J = "\<lambda>A mm'. mm_ok lay mm' (held a) \<and> evolves mm mm' (more_refs A (refs mm)) (tracked mm)"
  have ok: "mm_ok lay mm (held a)" by (rule holdsD(2) [OF H])
  have law: "chunk_law mm (\<lambda>i address n. try_manager i (Impl_Open address n)) A ?J"
    by (rule open_law [OF ok]) (use z holdsD(3) [OF H] in auto)
  have J: "?J {} mm" using ok evolves_refl [of mm] by simp
  have fin: "represents lay mm0 (a\<lparr>count := more_refs A (count a)\<rparr>) mm'" if "?J ({} \<union> A) mm'" for mm'
    using holds_evolves [OF H conjunct2 [OF that] conjunct1 [OF that]]
    unfolding holdsD(3,4) [OF H, symmetric] page_table_same by simp
  show "\<exists>mm'. KMemoryManager_Open lay (p * PageSize) n mm = Some mm' \<and>
      represents lay mm0 (a\<lparr>count := more_refs A (count a)\<rparr>) mm'" if "{p..<p + n} = A"
    unfolding KMemoryManager_Open_def using range_law [where J = ?J, OF law ok ok J, of p n] that fin by auto
  show "\<exists>mm'. KPageGroup_Open lay g mm = Some mm' \<and> represents lay mm0 (a\<lparr>count := more_refs A (count a)\<rparr>) mm'"
    if "set (group_pages g) = A" "distinct (group_pages g)"
    unfolding KPageGroup_Open_def using group_law [where J = ?J, OF law ok _ J that(2)] that(1) fin by auto
qed

lemma released_step:
  assumes H: "represents lay mm0 a mm" and z: "\<forall>q \<in> A. 0 < count a q"
  defines "a' \<equiv> a\<lparr>held := held a - {q \<in> A. count a q = 1}, count := less_refs A (count a)\<rparr>"
  shows "{p..<p + n} = A \<Longrightarrow> \<exists>mm'. KMemoryManager_Close lay (p * PageSize) n mm = Some mm' \<and> represents lay mm0 a' mm'"
    "set (group_pages g) = A \<Longrightarrow> distinct (group_pages g) \<Longrightarrow>
      \<exists>mm'. KPageGroup_Close lay g mm = Some mm' \<and> represents lay mm0 a' mm'"
proof -
  let ?J = "\<lambda>A mm'. mm_ok lay mm' (held a - {q \<in> A. refs mm q = 1}) \<and> evolves mm mm' (less_refs A (refs mm)) (tracked mm)"
  have ok: "mm_ok lay mm (held a)" by (rule holdsD(2) [OF H])
  have law: "chunk_law mm (\<lambda>i address n. try_manager i (Impl_Close address n)) A ?J"
    by (rule close_law [OF ok]) (use z holdsD(3) [OF H] in auto)
  have J: "?J {} mm" using ok evolves_refl [of mm] by simp
  have fin: "represents lay mm0 a' mm'" if "?J ({} \<union> A) mm'" for mm'
    using holds_evolves [OF H conjunct2 [OF that] conjunct1 [OF that]]
    unfolding holdsD(3,4) [OF H, symmetric] page_table_same a'_def by simp
  show "\<exists>mm'. KMemoryManager_Close lay (p * PageSize) n mm = Some mm' \<and> represents lay mm0 a' mm'" if "{p..<p + n} = A"
    unfolding KMemoryManager_Close_def using range_law [where J = ?J, OF law ok ok J, of p n] that fin by auto
  show "\<exists>mm'. KPageGroup_Close lay g mm = Some mm' \<and> represents lay mm0 a' mm'"
    if "set (group_pages g) = A" "distinct (group_pages g)"
    unfolding KPageGroup_Close_def using group_law [where J = ?J, OF law ok _ J that(2)] that(1) fin by auto
qed

lemma clear_marks_ok:
  assumes ok: "mm_ok lay mm P" and i: "i < m_num_managers mm"
  shows "mm_ok lay (with_manager i Impl_InitializeOptimizedMemory mm) P \<and>
    evolves mm (with_manager i Impl_InitializeOptimizedMemory mm) (refs mm) (tracked mm - impl_pages (manager mm i))"
proof -
  let ?I = "manager mm i" and ?b = "region_base (manager mm i) div PageSize"
  let ?n = "CalculateOptimizedProcessOverheadSize (region_size (manager mm i)) div 8"
  let ?mp = "\<lambda>w. if w < ?n then 0 else m_optimize_map ?I w"
  have bound: "(q - ?b) div 64 < ?n" if "q \<in> impl_pages ?I" for q
  proof -
    let ?s = "region_size ?I div PageSize"
    have A: "aligned_impl ?I" by (rule impl_okD(1) [OF mm_okD(7) [OF ok i]])
    have "q < (region_base ?I + region_size ?I) div PageSize" "?b \<le> q" using that by (auto simp: impl_pages_def)
    moreover have "(region_base ?I + region_size ?I) div PageSize = ?b + ?s"
      using A by (simp add: aligned_impl_def div_plus_div_distrib_dvd_left)
    ultimately have "q - ?b < ?s" by simp
    then have "(q - ?b) div 64 < (?s + 63) div 64" by (simp add: div_less_iff_less_mult less_mult_imp_div_less) 
    then show ?thesis
      using AlignUp_pow2 [of ?s 6] by (simp add: CalculateOptimizedProcessOverheadSize_def)
  qed
  have "with_manager i Impl_InitializeOptimizedMemory mm = put i (?I\<lparr>m_optimize_map := ?mp\<rparr>) mm"
    by (simp add: with_manager_put Impl_InitializeOptimizedMemory_def)
  moreover have "mm_ok lay (put i (?I\<lparr>m_optimize_map := ?mp\<rparr>) mm) P \<and>
    evolves mm (put i (?I\<lparr>m_optimize_map := ?mp\<rparr>) mm) (refs mm) (tracked mm - impl_pages ?I)"
    by (rule put_marks_ok [OF ok i]) (use bound in \<open>auto simp: marked_def\<close>)
  ultimately show ?thesis by simp
qed

lemma clear_all_marks:
  assumes "mm_ok lay mm P" "\<forall>i \<in> set is. i < m_num_managers mm"
  shows "mm_ok lay (fold (\<lambda>i. with_manager i Impl_InitializeOptimizedMemory) is mm) P \<and>
    evolves mm (fold (\<lambda>i. with_manager i Impl_InitializeOptimizedMemory) is mm) (refs mm)
      (tracked mm - (\<Union>i \<in> set is. impl_pages (manager mm i)))"
  using assms
proof (induction "is" arbitrary: mm)
  case Nil
  then show ?case using evolves_refl by simp
next
  case (Cons i "is")
  let ?mm = "with_manager i Impl_InitializeOptimizedMemory mm"
  have i: "i < m_num_managers mm" using Cons.prems(2) by simp
  have C: "mm_ok lay ?mm P" "evolves mm ?mm (refs mm) (tracked mm - impl_pages (manager mm i))"
    using clear_marks_ok [OF Cons.prems(1) i] by simp_all
  note c = evolvesD(1) [OF C(2)]
  have "\<forall>i \<in> set is. i < m_num_managers ?mm" using Cons.prems(2) config_sel(1) [OF c] by simp
  from Cons.IH [OF C(1) this]
  have IH: "mm_ok lay (fold (\<lambda>i. with_manager i Impl_InitializeOptimizedMemory) is ?mm) P"
    "evolves ?mm (fold (\<lambda>i. with_manager i Impl_InitializeOptimizedMemory) is ?mm) (refs ?mm)
      (tracked ?mm - (\<Union>i \<in> set is. impl_pages (manager ?mm i)))"
    by simp_all
  have same: "impl_pages (manager ?mm l) = impl_pages (manager mm l)" if "l \<in> set is" for l
    using config_geom(1) [OF c mm_ok_wf [OF Cons.prems(1)]] Cons.prems(2) that by simp
  have "tracked ?mm - (\<Union>i \<in> set is. impl_pages (manager ?mm i)) = tracked mm - (\<Union>i \<in> set (i # is). impl_pages (manager mm i))"
    using same evolvesD(6) [OF C(2)] by auto
  then show ?case
    using IH evolves_trans [OF C(2) IH(2)] evolvesD(5) [OF C(2)] by simp
qed
lemma same_managers:
  assumes "m_managers mm' = m_managers mm" "m_num_managers mm' = m_num_managers mm"
    "m_pool_managers_head mm' = m_pool_managers_head mm" "m_pool_managers_tail mm' = m_pool_managers_tail mm"
  shows "config mm' = config mm" "refs mm' = refs mm" "tracked mm' = tracked mm" "mm_ok lay mm P \<Longrightarrow> mm_ok lay mm' P"
proof -
  show c: "config mm' = config mm" unfolding config_def assms ..
  show "refs mm' = refs mm" "tracked mm' = tracked mm" unfolding refs_def tracked_def fun_eq_iff assms by simp_all
  show "mm_ok lay mm' P" if "mm_ok lay mm P"
    using that mm_wf_config(1) [OF c] unfolding mm_ok_def assms by simp
qed

lemma InitializeOptimizedMemory_step:
  assumes H: "represents lay mm0 a mm" and pool: "pool < Pool_Count" and run: "InitializeOptimizedMemory pid pool mm = (r, mm')"
  shows "\<exists>a'. page_step (pool_regions mm0) sep starved a (case r of Inl _ \<Rightarrow> Occupied pool | Inr _ \<Rightarrow> Reserved pid pool) a' \<and>
    represents lay mm0 a' mm'"
proof (cases "m_has_optimized_process mm pool")
  case True
  then have "r = Inl Busy" "mm' = mm" using run by (simp_all add: InitializeOptimizedMemory_def)
  moreover have "page_step (pool_regions mm0) sep starved a (Occupied pool) a"
    by (rule page_step.occupied) (use True holdsD(6) [OF H] in \<open>simp add: reserved_by_def\<close>)
  ultimately show ?thesis using H by auto
next
  case False
  let ?m = "mm\<lparr>m_optimized_process_ids := (m_optimized_process_ids mm)(pool := pid),
               m_has_optimized_process := (m_has_optimized_process mm)(pool := True)\<rparr>"
  let ?is = "pool_managers pool Direction_FromFront ?m" and ?a = "a\<lparr>optimized := (optimized a)(pool := Some pid)\<rparr>"
  have res: "r = Inr ()" "mm' = fold (\<lambda>i. with_manager i Impl_InitializeOptimizedMemory) ?is ?m"
    using run False by (simp_all add: InitializeOptimizedMemory_def Let_def)
  have "config ?m = config mm" "refs ?m = refs mm" "tracked ?m = tracked mm" "mm_ok lay ?m (held a)"
    using holdsD(2) [OF H] same_managers [of ?m mm] by simp_all
  moreover have "reserved_by ?m = (reserved_by mm)(pool := Some pid)" by (simp add: reserved_by_def fun_eq_iff)
  ultimately have H': "represents lay mm0 ?a ?m" using H by (simp add: represents_def)
  have is_: "set ?is = {i. i < m_num_managers ?m \<and> m_pool (manager ?m i) = pool}"
    by (rule mm_okD(6) [OF holdsD(2) [OF H'] pool])
  then have U: "(\<Union>i \<in> set ?is. impl_pages (manager ?m i)) = \<Union> (pool_regions mm0 pool)"
    unfolding holds_regions(2) [OF H', symmetric] pool_pages_def by simp
  have "\<forall>i \<in> set ?is. i < m_num_managers ?m" unfolding is_ by simp
  from clear_all_marks [OF holdsD(2) [OF H'] this] have
    C: "mm_ok lay mm' (held a)" "evolves ?m mm' (refs ?m) (tracked ?m - \<Union> (pool_regions mm0 pool))"
    unfolding U res(2) [symmetric] by simp_all
  have eq: "?a\<lparr>kept := X\<rparr> = a\<lparr>kept := X, optimized := (optimized a)(pool := Some pid)\<rparr>" for X
    by (cases a) simp
  have "represents lay mm0 (?a\<lparr>kept := kept ?a - \<Union> (pool_regions mm0 pool)\<rparr>) mm'"
    using holds_evolves [OF H' C(2), of "held ?a"] C(1) unfolding holdsD(3,4) [OF H', symmetric] page_table_same by simp
  then have "represents lay mm0 (a\<lparr>kept := kept a - \<Union> (pool_regions mm0 pool), optimized := (optimized a)(pool := Some pid)\<rparr>) mm'"
    unfolding eq by simp
  moreover have "page_step (pool_regions mm0) sep starved a (Reserved pid pool)
      (a\<lparr>kept := kept a - \<Union> (pool_regions mm0 pool), optimized := (optimized a)(pool := Some pid)\<rparr>)"
    by (rule page_step.reserved) (use False holdsD(6) [OF H] in \<open>simp add: reserved_by_def\<close>)
  ultimately show ?thesis using res(1) by auto
qed

lemma FinalizeOptimizedMemory_step:
  assumes H: "represents lay mm0 a mm"
  shows "\<exists>a'. page_step (pool_regions mm0) sep starved a (Unreserved pid pool) a' \<and>
    represents lay mm0 a' (FinalizeOptimizedMemory pid pool mm)"
proof -
  let ?a = "if optimized a pool = Some pid then a\<lparr>optimized := (optimized a)(pool := None)\<rparr> else a"
  have "represents lay mm0 ?a (FinalizeOptimizedMemory pid pool mm)"
  proof (cases "optimized a pool = Some pid")
    case True
    let ?m = "mm\<lparr>m_has_optimized_process := (m_has_optimized_process mm)(pool := False)\<rparr>"
    have "config ?m = config mm" "refs ?m = refs mm" "tracked ?m = tracked mm" "mm_ok lay ?m (held a)"
      using holdsD(2) [OF H] same_managers [of ?m mm] by simp_all
    moreover have "reserved_by ?m = (reserved_by mm)(pool := None)" by (simp add: reserved_by_def fun_eq_iff)
    moreover have "FinalizeOptimizedMemory pid pool mm = ?m"
      using True holdsD(6) [OF H] by (auto simp: FinalizeOptimizedMemory_def reserved_by_def split: if_splits)
    ultimately show ?thesis using H True by (simp add: represents_def)
  next
    case False
    then have "FinalizeOptimizedMemory pid pool mm = mm"
      using holdsD(6) [OF H] by (auto simp: FinalizeOptimizedMemory_def reserved_by_def split: if_splits)
    then show ?thesis using H False by simp
  qed
  then show ?thesis using page_step.unreserved by blast
qed

section \<open>Runs of the manager\<close>

text \<open>The calls of the rest of the kernel.\<close>

datatype mm_request = Continuous nat nat u32 | Allocate nat u32 | AllocateForProcess nat u32 u64 u8
  | OpenRange nat nat | CloseRange nat nat | OpenGroup KPageGroup | CloseGroup KPageGroup
  | Reserve u64 Pool | Unreserve u64 Pool

text \<open>What a caller guarantees: a pool that exists; a contiguous request of a size that there are blocks of; it
  holds a reference to each page that it opens again or closes; no page has \<open>2 ^ 16 - 1\<close> references.\<close>

fun allowed :: "mm_request \<Rightarrow> 'r KMemoryManager \<Rightarrow> bool" where
  "allowed (Continuous n align option) mm \<longleftrightarrow>
     fst (DecodeOption option) < Pool_Count \<and> GetAlignedBlockIndex n align \<noteq> None"
| "allowed (Allocate n option) mm \<longleftrightarrow> fst (DecodeOption option) < Pool_Count"
| "allowed (AllocateForProcess n option pid v) mm \<longleftrightarrow> fst (DecodeOption option) < Pool_Count"
| "allowed (OpenRange p n) mm \<longleftrightarrow> (\<forall>q \<in> {p..<p + n}. 0 < refs mm q \<and> refs mm q < 2 ^ 16 - 1)"
| "allowed (CloseRange p n) mm \<longleftrightarrow> (\<forall>q \<in> {p..<p + n}. 0 < refs mm q)"
| "allowed (OpenGroup g) mm \<longleftrightarrow> distinct (group_pages g) \<and>
     (\<forall>q \<in> set (group_pages g). 0 < refs mm q \<and> refs mm q < 2 ^ 16 - 1)"
| "allowed (CloseGroup g) mm \<longleftrightarrow> distinct (group_pages g) \<and> (\<forall>q \<in> set (group_pages g). 0 < refs mm q)"
| "allowed (Reserve pid pool) mm \<longleftrightarrow> pool < Pool_Count"
| "allowed (Unreserve pid pool) mm \<longleftrightarrow> True"

text \<open>A call and what its caller sees of it; \<open>None\<close> is a failed assertion.\<close>

fun perform ::
    "KMemoryLayout \<Rightarrow> ('r \<Rightarrow> u32 \<times> 'r) \<Rightarrow> ('n \<Rightarrow> nat \<times> 'n) \<Rightarrow> (nat \<Rightarrow> 'n \<Rightarrow> 'n) \<Rightarrow> mm_request \<Rightarrow>
     'n \<times> 'r KMemoryManager \<Rightarrow> (mm_event \<times> 'n \<times> 'r KMemoryManager) option" where
  "perform lay gen alloc free (Continuous n align option) (ns, mm) =
     do {
       (x, mm) \<leftarrow> AllocateAndOpenContinuous gen n align option mm;
       let pool = fst (DecodeOption option);
       Some (if x = 0 then NotPlaced pool n align else Placed pool n align (x div PageSize), ns, mm)
     }"
| "perform lay gen alloc free (Allocate n option) (ns, mm) =
     do {
       (r, g, ns, mm) \<leftarrow> AllocateAndOpen lay gen alloc free n option ([], ns, mm);
       let pool = fst (DecodeOption option);
       Some (case r of Inl e \<Rightarrow> Denied pool n e | Inr _ \<Rightarrow> Granted pool n (group_pages g), ns, mm)
     }"
| "perform lay gen alloc free (AllocateForProcess n option pid v) (ns, mm) =
     do {
       (r, g, ns, mm) \<leftarrow> AllocateAndOpenForProcess lay gen alloc free n option pid v ([], ns, mm);
       let pool = fst (DecodeOption option);
       Some (case r of Inl e \<Rightarrow> Denied pool n e | Inr _ \<Rightarrow> Assigned pid v pool n (group_pages g), ns, mm)
     }"
| "perform lay gen alloc free (OpenRange p n) (ns, mm) =
     do { mm \<leftarrow> KMemoryManager_Open lay (p * PageSize) n mm; Some (Shared [p..<p + n], ns, mm) }"
| "perform lay gen alloc free (CloseRange p n) (ns, mm) =
     do { mm \<leftarrow> KMemoryManager_Close lay (p * PageSize) n mm; Some (Released [p..<p + n], ns, mm) }"
| "perform lay gen alloc free (OpenGroup g) (ns, mm) =
     do { mm \<leftarrow> KPageGroup_Open lay g mm; Some (Shared (group_pages g), ns, mm) }"
| "perform lay gen alloc free (CloseGroup g) (ns, mm) =
     do { (_, ns, mm) \<leftarrow> KPageGroup_CloseAndReset lay free (g, ns, mm); Some (Released (group_pages g), ns, mm) }"
| "perform lay gen alloc free (Reserve pid pool) (ns, mm) =
     (let (r, mm) = InitializeOptimizedMemory pid pool mm
      in Some (case r of Inl _ \<Rightarrow> Occupied pool | Inr _ \<Rightarrow> Reserved pid pool, ns, mm))"
| "perform lay gen alloc free (Unreserve pid pool) (ns, mm) =
     Some (Unreserved pid pool, ns, FinalizeOptimizedMemory pid pool mm)"

inductive mm_step ::
    "KMemoryLayout \<Rightarrow> ('r \<Rightarrow> u32 \<times> 'r) \<Rightarrow> ('n \<Rightarrow> nat \<times> 'n) \<Rightarrow> (nat \<Rightarrow> 'n \<Rightarrow> 'n) \<Rightarrow>
     'n \<times> 'r KMemoryManager \<Rightarrow> mm_event \<Rightarrow> 'n \<times> 'r KMemoryManager \<Rightarrow> bool"
  for lay :: KMemoryLayout and gen :: "'r \<Rightarrow> u32 \<times> 'r" and alloc :: "'n \<Rightarrow> nat \<times> 'n" and free :: "nat \<Rightarrow> 'n \<Rightarrow> 'n" where
  served: "allowed req (snd s) \<Longrightarrow> perform lay gen alloc free req s = Some (e, s') \<Longrightarrow> mm_step lay gen alloc free s e s'"
| crashed: "allowed req (snd s) \<Longrightarrow> perform lay gen alloc free req s = None \<Longrightarrow> mm_step lay gen alloc free s Crashed s"

lemma perform_step:
  assumes H: "represents lay mm0 a mm" and al: "allowed req mm"
  shows "\<exists>e ns' mm' a'. perform lay gen alloc free req (ns, mm) = Some (e, ns', mm') \<and>
    page_step (pool_regions mm0) (apart mm0) (\<exists>ns. fst (alloc ns) = 0) a e a' \<and> represents lay mm0 a' mm'"
proof (cases req)
  case (Continuous n align option)
  have po: "fst (DecodeOption option) < Pool_Count" "GetAlignedBlockIndex n align \<noteq> None" using al Continuous by simp_all
  from AllocateAndOpenContinuous_step [OF H po, of gen "\<exists>ns. fst (alloc ns) = 0"] show ?thesis
    unfolding Continuous by (elim exE conjE) (auto simp: Let_def)
next
  case (Allocate n option)
  have po: "fst (DecodeOption option) < Pool_Count" using al Allocate by simp
  from AllocateAndOpen_step [OF H po, of gen alloc free n ns] show ?thesis
    unfolding Allocate by (elim exE conjE) (auto simp: Let_def)
next
  case (AllocateForProcess n option pid v)
  have po: "fst (DecodeOption option) < Pool_Count" using al AllocateForProcess by simp
  from AllocateAndOpenForProcess_step [OF H po, of gen alloc free n pid v ns] show ?thesis
    unfolding AllocateForProcess by (elim exE conjE) (auto simp: Let_def)
next
  case (OpenRange p n)
  have z: "\<forall>q \<in> {p..<p + n}. 0 < count a q \<and> count a q < 2 ^ 16 - 1" using al OpenRange holdsD(3) [OF H] by simp
  have "page_step (pool_regions mm0) (apart mm0) (\<exists>ns. fst (alloc ns) = 0) a (Shared [p..<p + n])
      (a\<lparr>count := more_refs (set [p..<p + n]) (count a)\<rparr>)"
    using z by (intro page_step.shared) auto
  with shared_step(1) [OF H z refl] show ?thesis unfolding OpenRange by auto
next
  case (CloseRange p n)
  have z: "\<forall>q \<in> {p..<p + n}. 0 < count a q" using al CloseRange holdsD(3) [OF H] by simp
  have "page_step (pool_regions mm0) (apart mm0) (\<exists>ns. fst (alloc ns) = 0) a (Released [p..<p + n])
      (a\<lparr>held := held a - {q \<in> set [p..<p + n]. count a q = 1}, count := less_refs (set [p..<p + n]) (count a)\<rparr>)"
    using z by (intro page_step.released) auto
  with released_step(1) [OF H z refl] show ?thesis unfolding CloseRange by auto
next
  case (OpenGroup g)
  have z: "\<forall>q \<in> set (group_pages g). 0 < count a q \<and> count a q < 2 ^ 16 - 1" and d: "distinct (group_pages g)"
    using al OpenGroup holdsD(3) [OF H] by simp_all
  have "page_step (pool_regions mm0) (apart mm0) (\<exists>ns. fst (alloc ns) = 0) a (Shared (group_pages g))
      (a\<lparr>count := more_refs (set (group_pages g)) (count a)\<rparr>)"
    using z by (intro page_step.shared) auto
  with shared_step(2) [OF H z refl d] show ?thesis unfolding OpenGroup by auto
next
  case (CloseGroup g)
  have z: "\<forall>q \<in> set (group_pages g). 0 < count a q" and d: "distinct (group_pages g)"
    using al CloseGroup holdsD(3) [OF H] by simp_all
  have "page_step (pool_regions mm0) (apart mm0) (\<exists>ns. fst (alloc ns) = 0) a (Released (group_pages g))
      (a\<lparr>held := held a - {q \<in> set (group_pages g). count a q = 1}, count := less_refs (set (group_pages g)) (count a)\<rparr>)"
    using z by (intro page_step.released) auto
  with released_step(2) [OF H z refl d] show ?thesis
    unfolding CloseGroup by (auto simp: KPageGroup_CloseAndReset_def KPageGroup_Finalize_def Let_def)
next
  case (Reserve pid pool)
  obtain r mm' where run: "InitializeOptimizedMemory pid pool mm = (r, mm')" by (cases "InitializeOptimizedMemory pid pool mm")
  have "pool < Pool_Count" using al Reserve by simp
  from InitializeOptimizedMemory_step [OF H this run, of "apart mm0" "\<exists>ns. fst (alloc ns) = 0"] run show ?thesis
    unfolding Reserve by auto
next
  case (Unreserve pid pool)
  from FinalizeOptimizedMemory_step [OF H, of "apart mm0" "\<exists>ns. fst (alloc ns) = 0" pid pool] show ?thesis
    unfolding Unreserve by auto
qed

lemma mm_step_page_step:
  assumes "represents lay mm0 a (snd s)" "mm_step lay gen alloc free s e s'"
  shows "\<exists>a'. page_step (pool_regions mm0) (apart mm0) (\<exists>ns. fst (alloc ns) = 0) a e a' \<and> represents lay mm0 a' (snd s')"
  using assms(2)
proof cases
  case (served req)
  then show ?thesis using perform_step [OF assms(1) served(1), of gen alloc free "fst s"] by auto
next
  case (crashed req)
  then show ?thesis using perform_step [OF assms(1) crashed(3), of gen alloc free "fst s"] by auto
qed

interpretation mm_sim: simulation "mm_step lay gen alloc free"
    "page_step (pool_regions mm0) (apart mm0) (\<exists>ns. fst (alloc ns) = 0)" "\<lambda>s a. represents lay mm0 a (snd s)"
  for lay gen alloc free mm0
  by unfold_locales (rule mm_step_page_step)

end
