(* ===== verification/Kern_MemoryManager_Init.thy ===== *)
theory Kern_MemoryManager_Init
  imports Kern_MemoryManager_Inv
begin

text \<open>
  \<^verbatim>\<open>KMemoryManager::Initialize\<close> on a layout whose user pools are page aligned, disjoint regions numbered
  from zero: it sets up one manager per region, links the managers of a pool in both directions, frees
  everything but the image of the initial processes, and ends in a state that satisfies the invariant.
\<close>

section \<open>The layout\<close>

definition user_regions :: "KMemoryRegion list \<Rightarrow> KMemoryRegion list" where
  "user_regions its = filter (\<lambda>r. IsDerivedFrom (m_type_id r) KMemoryRegionType_DramUserPool) its"

abbreviation region_index :: "KMemoryRegion \<Rightarrow> nat" where
  "region_index r \<equiv> unat (m_attributes r)"

definition region_pages :: "KMemoryRegion \<Rightarrow> nat set" where
  "region_pages r = {m_address r div PageSize..<KMemoryRegion_GetEndAddress r div PageSize}"

definition region_ok :: "KMemoryRegion \<Rightarrow> bool" where
  "region_ok r \<longleftrightarrow> GetPoolFromMemoryRegionType (m_type_id r) \<noteq> None \<and> PageSize dvd m_address r \<and>
     PageSize dvd KMemoryRegion_GetEndAddress r \<and> 0 < m_address r \<and> m_address r \<le> m_last_address r \<and>
     KMemoryRegion_GetSize r \<le> 2 ^ 35 \<and> KMemoryRegion_GetEndAddress r < 2 ^ 44"

text \<open>The user pools are \<open>K\<close> regions, numbered by their attribute, and the linear tree knows them.\<close>

definition layout_ok :: "KMemoryLayout \<Rightarrow> nat \<Rightarrow> bool" where
  "layout_ok lay K \<longleftrightarrow> K \<le> MaxManagerCount \<and> distinct (map region_index (user_regions (s_physical_tree lay))) \<and>
     region_index ` set (user_regions (s_physical_tree lay)) = {..<K} \<and>
     (\<forall>r \<in> set (user_regions (s_physical_tree lay)). region_ok r \<and>
        (\<forall>p \<in> region_pages r. GetManager lay (p * PageSize) = Some (region_index r)))"

definition region_at :: "KMemoryLayout \<Rightarrow> nat \<Rightarrow> KMemoryRegion" where
  "region_at lay k = the (find (\<lambda>r. region_index r = k) (user_regions (s_physical_tree lay)))"

abbreviation region_pool :: "KMemoryRegion \<Rightarrow> Pool" where
  "region_pool r \<equiv> the (GetPoolFromMemoryRegionType (m_type_id r))"

lemma region_at:
  assumes "layout_ok lay K" "k < K"
  shows "region_at lay k \<in> set (user_regions (s_physical_tree lay))" "region_index (region_at lay k) = k"
proof -
  have "k \<in> region_index ` set (user_regions (s_physical_tree lay))" using assms by (simp add: layout_ok_def)
  then have "find (\<lambda>r. region_index r = k) (user_regions (s_physical_tree lay)) \<noteq> None"
    by (auto simp: find_None_iff)
  then obtain r where r: "find (\<lambda>r. region_index r = k) (user_regions (s_physical_tree lay)) = Some r" by auto
  then have "r \<in> set (user_regions (s_physical_tree lay)) \<and> region_index r = k" by (auto simp: find_Some_iff)
  then show "region_at lay k \<in> set (user_regions (s_physical_tree lay))" "region_index (region_at lay k) = k"
    using r by (simp_all add: region_at_def)
qed

lemma region_at_index:
  assumes "layout_ok lay K" "r \<in> set (user_regions (s_physical_tree lay))"
  shows "region_at lay (region_index r) = r" "region_index r < K"
proof -
  show i: "region_index r < K" using assms by (auto simp: layout_ok_def)
  have "inj_on region_index (set (user_regions (s_physical_tree lay)))"
    using assms(1) by (simp add: layout_ok_def distinct_map)
  then show "region_at lay (region_index r) = r"
    using region_at [OF assms(1) i] assms(2) by (auto dest: inj_onD)
qed

lemma layout_region:
  assumes "layout_ok lay K" "r \<in> set (user_regions (s_physical_tree lay))"
  shows "region_ok r" "p \<in> region_pages r \<Longrightarrow> GetManager lay (p * PageSize) = Some (region_index r)"
  using assms by (simp_all add: layout_ok_def)

lemma pool_of_type: "GetPoolFromMemoryRegionType t = Some pool \<Longrightarrow> pool < Pool_Count"
  by (auto simp: GetPoolFromMemoryRegionType_def Pool_Application_def Pool_Applet_def Pool_System_def
      Pool_SystemNonSecure_def Pool_Count_def split: if_splits)

text \<open>The search for the region of a manager.\<close>

lemma find_region_none:
  assumes "\<forall>r \<in> set (user_regions its). region_index r \<noteq> k"
  shows "find_region k its acc = Some acc"
  using assms
proof (induction its)
  case (Cons r its)
  then show ?case by (cases acc) (auto simp: user_regions_def)
qed simp

lemma find_region_ok:
  assumes "distinct (map region_index (user_regions its))" "r \<in> set (user_regions its)" "region_index r = k"
    "GetPoolFromMemoryRegionType (m_type_id r) = Some pool"
  shows "find_region k its (0, sz, pool') = Some (m_address r, KMemoryRegion_GetSize r, pool)"
  using assms(1,2)
proof (induction its)
  case (Cons s its)
  show ?case
  proof (cases "IsDerivedFrom (m_type_id s) KMemoryRegionType_DramUserPool \<and> region_index s = k")
    case True
    have "s = r"
      using Cons.prems True assms(3) by (auto simp: user_regions_def)
    moreover have "\<forall>r \<in> set (user_regions its). region_index r \<noteq> k"
      using Cons.prems(1) True by (simp add: user_regions_def image_iff) metis
    ultimately show ?thesis
      using find_region_none [of its k] True assms(4) by simp
  next
    case False
    then have "r \<in> set (user_regions its)" "distinct (map region_index (user_regions its))"
      using Cons.prems assms(3) by (auto simp: user_regions_def split: if_splits)
    from Cons.IH [OF this(2,1)] show ?thesis using False by auto
  qed
qed (simp add: user_regions_def)

lemma find_region_layout:
  assumes "layout_ok lay K"
  shows "k < K \<Longrightarrow> find_region k (s_physical_tree lay) (0, 0, Pool_Count) =
      Some (m_address (region_at lay k), KMemoryRegion_GetSize (region_at lay k), region_pool (region_at lay k))"
    "find_region K (s_physical_tree lay) (0, 0, Pool_Count) = Some (0, 0, Pool_Count)"
proof -
  show "find_region k (s_physical_tree lay) (0, 0, Pool_Count) =
      Some (m_address (region_at lay k), KMemoryRegion_GetSize (region_at lay k), region_pool (region_at lay k))" if k: "k < K"
    using assms region_at [OF assms k] layout_region(1) [OF assms]
    by (intro find_region_ok) (auto simp: layout_ok_def region_ok_def)
  show "find_region K (s_physical_tree lay) (0, 0, Pool_Count) = Some (0, 0, Pool_Count)"
    using region_at_index(2) [OF assms] by (intro find_region_none) fastforce
qed
section \<open>One manager\<close>

text \<open>A manager before initialization: its arrays have their length, its management area is zero and it is in
  no list.\<close>

definition fresh_impl :: "'r Impl \<Rightarrow> bool" where
  "fresh_impl I \<longleftrightarrow> length (m_blocks (m_heap I)) = 7 \<and>
     (\<forall>b \<in> set (m_blocks (m_heap I)). length (m_bit_storages (m_bitmap b)) = MaxDepth) \<and>
     management (m_heap I) = (\<lambda>_. 0) \<and> m_page_reference_counts I = (\<lambda>_. 0) \<and> m_optimize_map I = (\<lambda>_. 0) \<and>
     m_next I = None \<and> m_prev I = None"

lemma AlignUp_PageSize: "PageSize dvd AlignUp x PageSize"
proof -
  have "PageSize = 2 ^ 12" by (simp add: PageSize_def)
  then show ?thesis using AlignUp_dvd [of 12 x] by metis
qed

lemma overhead_aligned:
  "PageSize dvd KPageHeap_CalculateManagementOverheadSize sz MemoryBlockPageShifts"
  "PageSize dvd Impl_CalculateManagementOverheadSize sz"
  unfolding KPageHeap_CalculateManagementOverheadSize_def Impl_CalculateManagementOverheadSize_def Let_def
  by (simp_all add: AlignUp_PageSize)

lemma Impl_Initialize_ok:
  assumes r: "0 < a" "0 < sz" "sz \<le> 2 ^ 35" "PageSize dvd a" "PageSize dvd sz" "a + sz < 2 ^ 44" and I: "fresh_impl I"
    and st: "PageSize dvd st" "st + Impl_CalculateManagementOverheadSize sz \<le> en"
  shows "\<exists>I'. Impl_Initialize a sz st en pool I = Some (Impl_CalculateManagementOverheadSize sz, I') \<and>
    impl_geom I' = (a, sz, pool, None, None) \<and> impl_ok I' (impl_pages I') \<and>
    m_page_reference_counts I' = (\<lambda>_. 0) \<and> m_optimize_map I' = (\<lambda>_. 0)"
proof -
  let ?hs = "KPageHeap_CalculateManagementOverheadSize sz MemoryBlockPageShifts"
  let ?ms = "AlignUp (CalculateOptimizedProcessOverheadSize sz + sz div PageSize * 2) PageSize"
  have total: "?ms + ?hs = Impl_CalculateManagementOverheadSize sz"
    by (simp add: Impl_CalculateManagementOverheadSize_def CalculateOptimizedProcessOverheadSize_def Let_def)
  have "8 dvd PageSize" by (simp add: PageSize_def)
  then have "8 dvd ?hs" using overhead_aligned(1) dvd_trans by blast
  then have "?hs \<le> ?hs div 8 * 8" by simp
  from Initialize_succeeds [OF this, of a "(st + ?ms) div 8" "m_heap I"]
  obtain h where h: "KPageHeap_Initialize a sz ((st + ?ms) div 8) (?hs div 8) MemoryBlockPageShifts (m_heap I) = Some h" by blast
  have hh: "heap_holds a sz (h, {a..<a + sz})"
    by (rule Initialize_heap_holds [OF r(1-3) _ _ _ h]) (use I in \<open>auto simp: fresh_impl_def\<close>)
  let ?I = "I\<lparr>m_pool := pool, m_management_region := st, m_heap := h\<rparr>"
  have geom: "m_heap_address h = a" "m_heap_size h = sz" using heap_holdsD [OF hh] by simp_all
  have al: "aligned_impl ?I" using r geom by (simp add: aligned_impl_def)
  have "impl_ok ?I (impl_pages ?I)"
    unfolding impl_ok_def using al hh geom aligned_implD(4) [OF al] by simp
  moreover have "Impl_Initialize a sz st en pool I = Some (Impl_CalculateManagementOverheadSize sz, ?I)"
    unfolding Impl_Initialize_def using h st overhead_aligned(2) [of sz] by (simp add: Let_def total)
  ultimately show ?thesis
    using I geom by (auto simp: fresh_impl_def impl_geom_def)
qed

section \<open>The lists of managers\<close>

lemma find_append: "find P (xs @ ys) = (case find P xs of None \<Rightarrow> find P ys | Some x \<Rightarrow> Some x)"
  by (induction xs) auto

lemma find_upt_Suc:
  "a \<le> k \<Longrightarrow> find P [a..<Suc k] = (case find P [a..<k] of None \<Rightarrow> if P k then Some k else None | Some x \<Rightarrow> Some x)"
  "find P (rev [0..<Suc k]) = (if P k then Some k else find P (rev [0..<k]))"
  by (simp_all add: find_append split: option.splits)

text \<open>The links between managers \<open>0\<close> up to \<open>k\<close> of the pools \<open>pl\<close>: each points to the next and to the previous one
  of its pool.\<close>

definition linked :: "(nat \<Rightarrow> Pool) \<Rightarrow> nat \<Rightarrow> 'r KMemoryManager \<Rightarrow> bool" where
  "linked pl k mm \<longleftrightarrow>
     (\<forall>i < k. m_next (manager mm i) = find (\<lambda>j. pl j = pl i) [Suc i..<k] \<and>
        m_prev (manager mm i) = find (\<lambda>j. pl j = pl i) (rev [0..<i])) \<and>
     (\<forall>pool. m_pool_managers_head mm pool = find (\<lambda>j. pl j = pool) [0..<k] \<and>
        m_pool_managers_tail mm pool = find (\<lambda>j. pl j = pool) (rev [0..<k]))"

lemma find_upt_split:
  assumes "find P [a..<k] = Some i"
  shows "filter P [a..<k] = i # filter P [Suc i..<k]" "a \<le> i" "i < k" "P i"
proof -
  show i: "a \<le> i" "i < k" "P i" using assms by (auto simp: find_Some_iff)
  have none: "\<not> P j" if "a \<le> j" "j < i" for j
  proof -
    obtain n where n: "n < k - a" "i = a + n" "\<forall>m < n. \<not> P (a + m)" using assms by (auto simp: find_Some_iff)
    then show ?thesis using spec [OF n(3), of "j - a"] that by simp
  qed
  have "[a..<k] = [a..<i] @ i # [Suc i..<k]"
    using upt_add_eq_append [of a i "k - i"] upt_conv_Cons [of i k] i by simp
  moreover have "filter P [a..<i] = []" using none by (auto simp: filter_empty_conv)
  ultimately show "filter P [a..<k] = i # filter P [Suc i..<k]" using i(3) by simp
qed

lemma find_rev_upt_split:
  assumes "find P (rev [0..<k]) = Some i"
  shows "filter P (rev [0..<k]) = i # filter P (rev [0..<i])" "i < k" "P i"
  using assms by (induction k) (auto split: if_splits)

lemma find_None_filter: "find P xs = None \<longleftrightarrow> filter P xs = []"
  by (induction xs) auto

lemma walk_front:
  assumes "linked pl k mm" "k - a \<le> n" "dir \<noteq> Direction_FromBack"
  shows "manager_walk n dir mm (find (\<lambda>j. pl j = pool) [a..<k]) = filter (\<lambda>j. pl j = pool) [a..<k]"
  using assms(2)
proof (induction n arbitrary: a)
  case (Suc n)
  show ?case
  proof (cases "find (\<lambda>j. pl j = pool) [a..<k]")
    case None
    show ?thesis unfolding None using None [unfolded find_None_filter] by simp
  next
    case (Some i)
    note S = find_upt_split [OF Some]
    have "m_next (manager mm i) = find (\<lambda>j. pl j = pool) [Suc i..<k]" using assms(1) S(3,4) by (simp add: linked_def)
    moreover have "k - Suc i \<le> n" using S(2,3) Suc.prems by simp
    ultimately show ?thesis
      unfolding Some S(1) using Suc.IH [of "Suc i"] assms(3) by (simp add: GetNextManager_def)
  qed
qed simp

lemma walk_back:
  assumes "linked pl k mm" "b \<le> k" "b \<le> n"
  shows "manager_walk n Direction_FromBack mm (find (\<lambda>j. pl j = pool) (rev [0..<b])) = filter (\<lambda>j. pl j = pool) (rev [0..<b])"
  using assms(2,3)
proof (induction n arbitrary: b)
  case (Suc n)
  show ?case
  proof (cases "find (\<lambda>j. pl j = pool) (rev [0..<b])")
    case None
    show ?thesis unfolding None using None [unfolded find_None_filter] by simp
  next
    case (Some i)
    note S = find_rev_upt_split [OF Some]
    have "m_prev (manager mm i) = find (\<lambda>j. pl j = pool) (rev [0..<i])" using assms(1) S(2,3) Suc.prems by (simp add: linked_def)
    then show ?thesis
      unfolding Some S(1) using Suc.IH [of i] S(2) Suc.prems by (simp add: GetNextManager_def)
  qed
qed simp

lemma linked_pool_managers:
  assumes "linked pl k mm" "k \<le> MaxManagerCount"
  shows "distinct (pool_managers pool dir mm)" "set (pool_managers pool dir mm) = {i. i < k \<and> pl i = pool}"
proof -
  have h: "m_pool_managers_head mm pool = find (\<lambda>j. pl j = pool) [0..<k]"
    "m_pool_managers_tail mm pool = find (\<lambda>j. pl j = pool) (rev [0..<k])"
    using assms(1) by (simp_all add: linked_def)
  have "pool_managers pool dir mm = filter (\<lambda>j. pl j = pool) (if dir = Direction_FromBack then rev [0..<k] else [0..<k])"
    using walk_front [OF assms(1), of 0 MaxManagerCount dir pool] walk_back [OF assms(1) order_refl assms(2), of pool] assms(2)
    by (simp add: pool_managers_def GetFirstManager_def h)
  then show "distinct (pool_managers pool dir mm)" "set (pool_managers pool dir mm) = {i. i < k \<and> pl i = pool}"
    by auto
qed
text \<open>What the links do not touch.\<close>

definition relinked :: "'r Impl \<Rightarrow> 'r Impl \<Rightarrow> bool" where
  "relinked I I' \<longleftrightarrow> (\<exists>x y. I' = I\<lparr>m_next := x, m_prev := y\<rparr>)"

lemma relinked_refl: "relinked I I"
  unfolding relinked_def by (cases I) auto

lemma relinked_next: "relinked I (I\<lparr>m_next := x\<rparr>)" and relinked_prev: "relinked I (I\<lparr>m_prev := y\<rparr>)"
  unfolding relinked_def by (cases I; auto)+

lemma relinkedD:
  assumes "relinked I I'"
  shows "m_heap I' = m_heap I" "m_page_reference_counts I' = m_page_reference_counts I" "m_optimize_map I' = m_optimize_map I"
    "m_pool I' = m_pool I" "impl_pages I' = impl_pages I" "impl_ok I' P = impl_ok I P"
  using assms by (auto simp: relinked_def impl_pages_def impl_ok_def aligned_impl_def)

lemma find_rev_Some:
  "find P (rev [0..<k]) = Some t \<longleftrightarrow> t < k \<and> P t \<and> (\<forall>j. t < j \<and> j < k \<longrightarrow> \<not> P j)"
proof (induction k)
  case (Suc k)
  show ?case unfolding find_upt_Suc(2) using Suc.IH by (auto simp: less_Suc_eq)
qed simp

lemma insert_manager_sel:
  "m_num_managers (insert_manager pool k mm) = m_num_managers mm" "length (m_managers (insert_manager pool k mm)) = length (m_managers mm)"
  "memory (insert_manager pool k mm) = memory mm" "m_optimized_process_ids (insert_manager pool k mm) = m_optimized_process_ids mm"
  "m_has_optimized_process (insert_manager pool k mm) = m_has_optimized_process mm"
  "m_pool_managers_tail (insert_manager pool k mm) = (m_pool_managers_tail mm)(pool := Some k)"
  "m_pool_managers_head (insert_manager pool k mm) =
     (if m_pool_managers_tail mm pool = None then (m_pool_managers_head mm)(pool := Some k) else m_pool_managers_head mm)"
  by (auto simp: insert_manager_def with_manager_def Let_def split: option.splits)

lemma insert_manager_nth:
  assumes "k < length (m_managers mm)" "\<forall>t. m_pool_managers_tail mm pool = Some t \<longrightarrow> t < k" "i < length (m_managers mm)"
  shows "manager (insert_manager pool k mm) i =
    (if i = k then (if m_pool_managers_tail mm pool = None then manager mm k
       else (manager mm k)\<lparr>m_prev := m_pool_managers_tail mm pool\<rparr>)
     else if m_pool_managers_tail mm pool = Some i then (manager mm i)\<lparr>m_next := Some k\<rparr> else manager mm i)"
  using assms by (fastforce simp: insert_manager_def with_manager_def Let_def nth_list_update split: option.splits)

lemma insert_manager_linked:
  assumes L: "linked pl k mm" and pl: "pl k = pool" and k: "k < length (m_managers mm)"
    and free: "m_next (manager mm k) = None" "m_prev (manager mm k) = None"
  shows "linked pl (Suc k) (insert_manager pool k mm)"
proof -
  let ?m = "insert_manager pool k mm"
  have tail: "m_pool_managers_tail mm q = find (\<lambda>j. pl j = q) (rev [0..<k])"
    and head: "m_pool_managers_head mm q = find (\<lambda>j. pl j = q) [0..<k]" for q
    using L by (simp_all add: linked_def)
  have t: "m_pool_managers_tail mm pool = Some t \<longleftrightarrow> t < k \<and> pl t = pool \<and> (\<forall>j. t < j \<and> j < k \<longrightarrow> pl j \<noteq> pool)" for t
    unfolding tail by (rule find_rev_Some)
  have none: "find (\<lambda>j. pl j = q) [0..<k] = None \<longleftrightarrow> find (\<lambda>j. pl j = q) (rev [0..<k]) = None" for q
    by (simp add: find_None_iff)
  have "m_next (manager ?m i) = find (\<lambda>j. pl j = pl i) [Suc i..<Suc k] \<and> m_prev (manager ?m i) = find (\<lambda>j. pl j = pl i) (rev [0..<i])"
    if i: "i < Suc k" for i
  proof (cases "i = k")
    case True
    have "m_prev (manager ?m k) = m_pool_managers_tail mm pool" "m_next (manager ?m k) = None"
      using insert_manager_nth [OF k, of pool k] t k free by (auto split: if_splits)
    then show ?thesis using True pl by (simp add: tail)
  next
    case False
    then have ik: "i < k" using i by simp
    have l: "m_next (manager mm i) = find (\<lambda>j. pl j = pl i) [Suc i..<k]" "m_prev (manager mm i) = find (\<lambda>j. pl j = pl i) (rev [0..<i])"
      using L ik by (simp_all add: linked_def)
    have m: "manager ?m i = (if m_pool_managers_tail mm pool = Some i then (manager mm i)\<lparr>m_next := Some k\<rparr> else manager mm i)"
      using insert_manager_nth [OF k, of pool i] t False k ik by auto
    have nx: "find (\<lambda>j. pl j = pl i) [Suc i..<k] = None \<longleftrightarrow> (\<forall>j. i < j \<and> j < k \<longrightarrow> pl j \<noteq> pl i)"
      by (auto simp: find_None_iff)
    show ?thesis
    proof (cases "m_pool_managers_tail mm pool = Some i")
      case True
      then have "find (\<lambda>j. pl j = pl i) [Suc i..<k] = None" "pl k = pl i" using t pl nx by auto
      then show ?thesis using m True l ik by (simp add: find_upt_Suc(1) del: upt_Suc)
    next
      case ne: False
      then have "find (\<lambda>j. pl j = pl i) [Suc i..<k] = None \<Longrightarrow> pl k \<noteq> pl i" using t pl nx ik by auto
      then show ?thesis using m ne l ik by (simp add: find_upt_Suc(1) del: upt_Suc split: option.splits)
    qed
  qed
  moreover have "m_pool_managers_tail ?m q = find (\<lambda>j. pl j = q) (rev [0..<Suc k])" for q
    unfolding insert_manager_sel find_upt_Suc(2) using tail pl by simp
  moreover have "m_pool_managers_head ?m q = find (\<lambda>j. pl j = q) [0..<Suc k]" for q
    unfolding insert_manager_sel find_upt_Suc(1) [OF le0] tail none [symmetric] using head pl
    by (cases "find (\<lambda>j. pl j = pool) [0..<k]") (auto split: option.splits)
  ultimately show ?thesis unfolding linked_def by blast
qed

section \<open>All managers\<close>

definition set_up_impl :: "KMemoryRegion \<Rightarrow> 'r Impl \<Rightarrow> bool" where
  "set_up_impl r I \<longleftrightarrow> region_base I = m_address r \<and> region_size I = KMemoryRegion_GetSize r \<and> m_pool I = region_pool r \<and>
     impl_ok I (impl_pages I) \<and> m_page_reference_counts I = (\<lambda>_. 0) \<and> m_optimize_map I = (\<lambda>_. 0)"

definition set_up :: "KMemoryLayout \<Rightarrow> nat \<Rightarrow> 'r KMemoryManager \<Rightarrow> bool" where
  "set_up lay k mm \<longleftrightarrow> m_num_managers mm = k \<and> length (m_managers mm) = MaxManagerCount \<and>
     linked (\<lambda>i. region_pool (region_at lay i)) k mm \<and> (\<forall>i < k. set_up_impl (region_at lay i) (manager mm i)) \<and>
     (\<forall>i < MaxManagerCount. k \<le> i \<longrightarrow> fresh_impl (manager mm i))"

lemma set_up_relinked: "relinked I I' \<Longrightarrow> set_up_impl r I \<Longrightarrow> set_up_impl r I'"
  unfolding set_up_impl_def by (simp add: relinkedD)

definition overhead :: "KMemoryLayout \<Rightarrow> nat \<Rightarrow> nat" where
  "overhead lay i = Impl_CalculateManagementOverheadSize (KMemoryRegion_GetSize (region_at lay i))"

lemma region_okD:
  assumes "region_ok r"
  shows "0 < m_address r" "0 < KMemoryRegion_GetSize r" "KMemoryRegion_GetSize r \<le> 2 ^ 35" "PageSize dvd m_address r"
    "PageSize dvd KMemoryRegion_GetSize r" "m_address r + KMemoryRegion_GetSize r = KMemoryRegion_GetEndAddress r"
    "KMemoryRegion_GetEndAddress r < 2 ^ 44" "GetPoolFromMemoryRegionType (m_type_id r) = Some (region_pool r)"
  using assms by (auto simp: region_ok_def KMemoryRegion_GetSize_def KMemoryRegion_GetEndAddress_def intro: dvd_diff_nat)

definition same_data :: "'r KMemoryManager \<Rightarrow> 'r KMemoryManager \<Rightarrow> bool" where
  "same_data mm mm' \<longleftrightarrow> memory mm' = memory mm \<and> m_optimized_process_ids mm' = m_optimized_process_ids mm \<and>
     m_has_optimized_process mm' = m_has_optimized_process mm"

lemma set_up_step:
  assumes lay: "layout_ok lay K" and k: "k < K" and S: "set_up lay k mm"
    and st: "PageSize dvd st" "st + overhead lay k \<le> en"
  defines "r \<equiv> region_at lay k"
  shows "\<exists>I. Impl_Initialize (m_address r) (KMemoryRegion_GetSize r) st en (region_pool r) (manager mm k) = Some (overhead lay k, I) \<and>
    set_up lay (Suc k) (insert_manager (region_pool r) k (mm\<lparr>m_num_managers := k + 1, m_managers := (m_managers mm)[k := I]\<rparr>))"
proof -
  have r: "region_ok r" using layout_region(1) [OF lay region_at(1) [OF lay k]] by (simp add: r_def)
  note R = region_okD [OF r]
  have kM: "k < MaxManagerCount" using lay k by (simp add: layout_ok_def)
  have len: "length (m_managers mm) = MaxManagerCount" and fr: "fresh_impl (manager mm k)"
    and L: "linked (\<lambda>i. region_pool (region_at lay i)) k mm"
    using S kM by (simp_all add: set_up_def)
  obtain I where I: "Impl_Initialize (m_address r) (KMemoryRegion_GetSize r) st en (region_pool r) (manager mm k) = Some (overhead lay k, I)"
    "impl_geom I = (m_address r, KMemoryRegion_GetSize r, region_pool r, None, None)" "impl_ok I (impl_pages I)"
    "m_page_reference_counts I = (\<lambda>_. 0)" "m_optimize_map I = (\<lambda>_. 0)"
    using Impl_Initialize_ok [OF R(1-5) _ fr st(1), of en "region_pool r"] R(6,7) st(2) by (auto simp: overhead_def r_def)
  let ?m = "mm\<lparr>m_num_managers := k + 1, m_managers := (m_managers mm)[k := I]\<rparr>" and ?pool = "region_pool r"
  let ?n = "insert_manager ?pool k ?m"
  have kl: "k < length (m_managers ?m)" using kM len by simp
  have L': "linked (\<lambda>i. region_pool (region_at lay i)) k ?m"
    using L unfolding linked_def by simp
  have free: "m_next (manager ?m k) = None" "m_prev (manager ?m k) = None"
    using I(2) kl by (simp_all add: impl_geom_def)
  have lt: "\<forall>t. m_pool_managers_tail ?m ?pool = Some t \<longrightarrow> t < k"
    using L' find_rev_Some by (auto simp: linked_def)
  have rel: "relinked (manager ?m i) (manager ?n i)" if "i < MaxManagerCount" for i
    using insert_manager_nth [OF kl lt, of i] that len by (simp add: relinked_refl relinked_next relinked_prev)
  have later: "manager ?n i = manager mm i" if "k < i" "i < MaxManagerCount" for i
    using insert_manager_nth [OF kl lt, of i] lt that len by auto
  have set_k: "set_up_impl r (manager ?m k)"
    using I(2-5) kl unfolding set_up_impl_def by (simp add: impl_geom_def)
  have "set_up_impl (region_at lay i) (manager ?n i)" if "i < Suc k" for i
  proof -
    have "set_up_impl (region_at lay i) (manager ?m i)"
      using S set_k that by (cases "i = k") (auto simp: set_up_def r_def)
    then show ?thesis using set_up_relinked [OF rel] that kM by simp
  qed
  moreover have "fresh_impl (manager ?n i)" if "i < MaxManagerCount" "Suc k \<le> i" for i
    using S that later [of i] by (simp add: set_up_def)
  moreover have "linked (\<lambda>i. region_pool (region_at lay i)) (Suc k) ?n"
    by (rule insert_manager_linked [OF L' _ kl free]) (simp add: r_def)
  ultimately have "set_up lay (Suc k) ?n"
    unfolding set_up_def using len by (simp add: insert_manager_sel)
  then show ?thesis using I(1) by blast
qed

lemma initialize_managers_ok:
  assumes lay: "layout_ok lay K" and "set_up lay k mm" "k \<le> K" "K \<le> k + n" "PageSize dvd st"
    "st + (\<Sum>i \<in> {k..<K}. overhead lay i) \<le> en"
  shows "\<exists>mm'. initialize_managers n lay st en mm = Some mm' \<and> set_up lay K mm' \<and> same_data mm mm'"
  using assms(2-6)
proof (induction n arbitrary: k st mm)
  case 0
  then show ?case by (auto simp: same_data_def)
next
  case (Suc n)
  have num: "m_num_managers mm = k" using Suc.prems(1) by (simp add: set_up_def)
  show ?case
  proof (cases "k = K")
    case True
    then show ?thesis
      using Suc.prems(1) num find_region_layout(2) [OF lay] by (auto simp: same_data_def)
  next
    case False
    then have k: "k < K" using Suc.prems(2) by simp
    let ?r = "region_at lay k"
    have sum: "(\<Sum>i \<in> {k..<K}. overhead lay i) = overhead lay k + (\<Sum>i \<in> {Suc k..<K}. overhead lay i)"
      using k by (simp add: sum.atLeast_Suc_lessThan)
    then have en: "st + overhead lay k \<le> en" using Suc.prems(5) by simp
    from set_up_step [OF lay k Suc.prems(1,4) en] obtain I where
      I: "Impl_Initialize (m_address ?r) (KMemoryRegion_GetSize ?r) st en (region_pool ?r) (manager mm k) = Some (overhead lay k, I)"
        "set_up lay (Suc k) (insert_manager (region_pool ?r) k (mm\<lparr>m_num_managers := k + 1, m_managers := (m_managers mm)[k := I]\<rparr>))"
      by blast
    let ?m = "insert_manager (region_pool ?r) k (mm\<lparr>m_num_managers := k + 1, m_managers := (m_managers mm)[k := I]\<rparr>)"
    have "0 < KMemoryRegion_GetSize ?r"
      using region_okD(2) [OF layout_region(1) [OF lay region_at(1) [OF lay k]]] .
    then have run: "initialize_managers (Suc n) lay st en mm = initialize_managers n lay (st + overhead lay k) en ?m"
      using find_region_layout(1) [OF lay k] I(1) en by (simp add: num Let_def)
    have "PageSize dvd st + overhead lay k" using Suc.prems(4) overhead_aligned(2) by (simp add: overhead_def)
    from Suc.IH [OF I(2) _ _ this] k Suc.prems(3,5) sum obtain mm' where
      mm': "initialize_managers n lay (st + overhead lay k) en ?m = Some mm'" "set_up lay K mm'" "same_data ?m mm'"
      by (auto simp: add.assoc)
    have "same_data mm mm'" using mm'(3) by (simp add: same_data_def insert_manager_sel)
    then show ?thesis using run mm'(1,2) by auto
  qed
qed

lemma set_up_pages:
  assumes "set_up lay K mm" "i < K"
  shows "impl_pages (manager mm i) = {m_address (region_at lay i) div PageSize..<
      (m_address (region_at lay i) + KMemoryRegion_GetSize (region_at lay i)) div PageSize}"
    "m_pool (manager mm i) = region_pool (region_at lay i)" "set_up_impl (region_at lay i) (manager mm i)"
proof -
  show S: "set_up_impl (region_at lay i) (manager mm i)" using assms by (simp add: set_up_def)
  then show "impl_pages (manager mm i) = {m_address (region_at lay i) div PageSize..<
      (m_address (region_at lay i) + KMemoryRegion_GetSize (region_at lay i)) div PageSize}"
    "m_pool (manager mm i) = region_pool (region_at lay i)"
    by (simp_all add: set_up_impl_def impl_pages_def)
qed

lemma set_up_region_pages:
  assumes "layout_ok lay K" "set_up lay K mm" "i < K"
  shows "impl_pages (manager mm i) = region_pages (region_at lay i)"
  using set_up_pages(1) [OF assms(2,3)] region_okD(6) [OF layout_region(1) [OF assms(1) region_at(1) [OF assms(1,3)]]]
  by (simp add: region_pages_def)

lemma set_up_ok:
  assumes lay: "layout_ok lay K" and S: "set_up lay K mm"
  shows "mm_ok lay mm (all_pages mm)" "refs mm = (\<lambda>_. 0)" "tracked mm = {}"
proof -
  have num: "m_num_managers mm = K" "length (m_managers mm) = MaxManagerCount" "K \<le> MaxManagerCount"
    and L: "linked (\<lambda>i. region_pool (region_at lay i)) K mm"
    using S lay by (simp_all add: set_up_def layout_ok_def)
  have gm: "GetManager lay (p * PageSize) = Some i" if "i < K" "p \<in> impl_pages (manager mm i)" for i p
    using layout_region(2) [OF lay region_at(1) [OF lay that(1)]] region_at(2) [OF lay that(1)] that
      set_up_region_pages [OF lay S that(1)] by simp
  have dis: "impl_pages (manager mm i) \<inter> impl_pages (manager mm j) = {}" if "i < K" "j < K" "i \<noteq> j" for i j
    using gm [OF that(1)] gm [OF that(2)] that(3) by fastforce
  have pools: "{i. i < K \<and> region_pool (region_at lay i) = pool} = {i. i < K \<and> m_pool (manager mm i) = pool}" for pool
    using set_up_pages(2) [OF S] by auto
  have wf: "mm_wf lay mm"
    unfolding mm_wf_def num using dis gm linked_pool_managers [OF L num(3)] pools num(3) by simp
  have "impl_ok (manager mm i) (all_pages mm)" if "i < K" for i
  proof -
    have "impl_ok (manager mm i) (impl_pages (manager mm i))" using set_up_pages(3) [OF S that] by (simp add: set_up_impl_def)
    then show ?thesis
      by (rule impl_ok_cong) (use that num in \<open>auto simp: all_pages_def\<close>)
  qed
  then show "mm_ok lay mm (all_pages mm)" using wf by (simp add: mm_ok_def num)
  show "refs mm = (\<lambda>_. 0)" "tracked mm = {}"
    using set_up_pages(3) [OF S] by (auto simp: refs_def tracked_def num set_up_impl_def marked_def)
qed

section \<open>Freeing the regions\<close>

text \<open>The image of the initial processes lies outside a region or fills it to its end; memory after the
  image is not freed correctly (\<^verbatim>\<open>cur_end - ini_end\<close> is a number of bytes).\<close>

definition ini_ok :: "nat \<Rightarrow> KMemoryRegion \<Rightarrow> bool" where
  "ini_ok ini r \<longleftrightarrow> m_address r \<le> ini \<and> ini + InitialProcessBinarySizeMax = KMemoryRegion_GetEndAddress r \<or>
     KMemoryRegion_GetEndAddress r \<le> ini \<or> ini + InitialProcessBinarySizeMax \<le> m_address r"

definition ini_pages :: "nat \<Rightarrow> nat set" where
  "ini_pages ini = {ini div PageSize..<(ini + InitialProcessBinarySizeMax) div PageSize}"

lemma ini_size: "InitialProcessBinarySizeMax = InitialProcessBinarySizeMax div PageSize * PageSize" "0 < InitialProcessBinarySizeMax div PageSize"
  by (simp_all add: InitialProcessBinarySizeMax_def PageSize_def)

lemma free_region_outside:
  assumes ok: "mm_ok lay mm P" and r: "region_ok r" and i: "region_index r < m_num_managers mm"
    and pg: "impl_pages (manager mm (region_index r)) = region_pages r" and P: "region_pages r \<subseteq> P"
    and z: "\<And>q. q \<in> region_pages r \<Longrightarrow> refs mm q = 0"
  defines "mm' \<equiv> with_manager (region_index r) (Impl_Free (m_address r) (KMemoryRegion_GetSize r div PageSize)) mm"
  shows "mm_ok lay mm' (P - region_pages r) \<and> evolves mm mm' (refs mm) (tracked mm)"
proof -
  note R = region_okD [OF r]
  let ?p = "m_address r div PageSize" and ?n = "KMemoryRegion_GetSize r div PageSize"
  have e: "?p + ?n = KMemoryRegion_GetEndAddress r div PageSize"
    unfolding R(6) [symmetric] using R(4) by (simp add: div_plus_div_distrib_dvd_left)
  then have rng: "{?p..<?p + ?n} = region_pages r" by (simp add: region_pages_def)
  have a: "m_address r = ?p * PageSize" using R(4) by simp
  have "mm' = with_manager (region_index r) (Impl_Free (?p * PageSize) ?n) mm" using a by (simp add: mm'_def)
  then show ?thesis
    using free_pages_ok [OF ok i, of ?p ?n] z P pg unfolding rng by simp
qed

lemma free_region_inside:
  assumes ok: "mm_ok lay mm P" and r: "region_ok r" and i: "region_index r < m_num_managers mm"
    and pg: "impl_pages (manager mm (region_index r)) = region_pages r" and P: "region_pages r \<subseteq> P"
    and z: "\<And>q. q \<in> region_pages r \<Longrightarrow> refs mm q = 0"
    and ini: "PageSize dvd ini" "m_address r \<le> ini" "ini + InitialProcessBinarySizeMax = KMemoryRegion_GetEndAddress r"
  defines "mm1 \<equiv> if m_address r \<noteq> ini
    then with_manager (region_index r) (Impl_Free (m_address r) ((ini - m_address r) div PageSize)) mm else mm"
  shows "\<exists>mm'. try_manager (region_index r) (Impl_OpenFirst ini (InitialProcessBinarySizeMax div PageSize)) mm1 = Some mm' \<and>
    mm_ok lay mm' (P - (region_pages r - ini_pages ini)) \<and> evolves mm mm' (first_refs (ini_pages ini) (refs mm)) (tracked mm) \<and>
    ini_pages ini \<subseteq> region_pages r"
proof -
  note R = region_okD [OF r]
  let ?i = "region_index r" and ?p = "m_address r div PageSize" and ?s = "ini div PageSize" and ?m = "InitialProcessBinarySizeMax div PageSize"
  have ps: "?p \<le> ?s" using ini(2) by (rule div_le_mono)
  have e: "?s + ?m = (ini + InitialProcessBinarySizeMax) div PageSize"
    using ini(1) by (simp add: div_plus_div_distrib_dvd_left)
  have I: "ini_pages ini = {?s..<?s + ?m}" unfolding ini_pages_def e ..
  have split: "region_pages r = {?p..<?s} \<union> {?s..<?s + ?m}"
    unfolding region_pages_def ini(3) [symmetric] e [symmetric] using ps by (simp add: ivl_disj_un_two(3))
  then have rest: "region_pages r - ini_pages ini = {?p..<?s}" unfolding I by auto
  have m1: "mm_ok lay mm1 (P - {?p..<?s}) \<and> evolves mm mm1 (refs mm) (tracked mm)"
  proof (cases "m_address r = ini")
    case True
    then show ?thesis using ok evolves_refl [of mm] by (simp add: mm1_def)
  next
    case False
    let ?n = "(ini - m_address r) div PageSize"
    have n: "?p + ?n = ?s"
      using div_plus_div_distrib_dvd_left [OF R(4), of "ini - m_address r"] ini(2) by simp
    then have rng: "{?p..<?p + ?n} = {?p..<?s}" by simp
    have "mm1 = with_manager ?i (Impl_Free (?p * PageSize) ?n) mm" using False R(4) by (simp add: mm1_def)
    moreover have "{?p..<?s} \<subseteq> impl_pages (manager mm ?i) \<inter> P" using pg P split by auto
    moreover have "refs mm q = 0" if "q \<in> {?p..<?s}" for q using z that split by auto
    ultimately show ?thesis
      using free_pages_ok [OF ok i, of ?p ?n] unfolding rng by simp
  qed
  have sub: "{?s..<?s + ?m} \<subseteq> impl_pages (manager mm ?i)" using pg split by auto
  note C = chunk_in [OF evolvesD(1) [OF conjunct2 [OF m1]] mm_ok_wf [OF ok] i sub]
  have held: "{?s..<?s + ?m} \<subseteq> P - {?p..<?s}" using P split by auto
  have "refs mm1 q = 0" if "q \<in> {?s..<?s + ?m}" for q
    using z split that evolvesD(5) [OF conjunct2 [OF m1]] by auto
  from open_first_pages_ok [OF conjunct1 [OF m1] C(1) ini_size(2) C(2) held this] obtain mm' where
    mm': "open_first_pages ?i (?s * PageSize) ?m mm1 = Some mm'" "mm_ok lay mm' (P - {?p..<?s})"
      "evolves mm1 mm' (\<lambda>q. if q \<in> {?s..<?s + ?m} then 1 else refs mm1 q) (tracked mm1)"
    by blast
  have "(\<lambda>q. if q \<in> {?s..<?s + ?m} then 1 else refs mm1 q) = first_refs (ini_pages ini) (refs mm)" "tracked mm1 = tracked mm"
    using evolvesD(5,6) [OF conjunct2 [OF m1]] by (auto simp: first_refs_def I fun_eq_iff)
  then have "evolves mm mm' (first_refs (ini_pages ini) (refs mm)) (tracked mm)"
    using evolves_trans [OF conjunct2 [OF m1] mm'(3)] by simp
  then show ?thesis
    using mm'(1,2) ini(1) split I unfolding open_first_pages_def rest by auto
qed

lemma free_region_step:
  assumes ok: "mm_ok lay mm P" and r: "region_ok r" and i: "region_index r < m_num_managers mm"
    and pg: "impl_pages (manager mm (region_index r)) = region_pages r" and P: "region_pages r \<subseteq> P"
    and z: "\<And>q. q \<in> region_pages r \<Longrightarrow> refs mm q = 0" and ini: "PageSize dvd ini" "ini_ok ini r"
    and u: "IsDerivedFrom (m_type_id r) KMemoryRegionType_DramUserPool"
  shows "\<exists>mm'. (\<forall>its res. free_regions ini (r # its) (res, mm) = free_regions ini its
      (if region_pages r \<inter> ini_pages ini = {} then res
       else res(region_index r := res (region_index r) + InitialProcessBinarySizeMax), mm')) \<and>
    mm_ok lay mm' (P - (region_pages r - ini_pages ini)) \<and>
    evolves mm mm' (first_refs (region_pages r \<inter> ini_pages ini) (refs mm)) (tracked mm)"
proof (cases "m_address r \<le> ini \<and> ini + InitialProcessBinarySizeMax = KMemoryRegion_GetEndAddress r")
  case True
  from free_region_inside [OF ok r i pg P z ini(1)] True obtain mm' where
    mm': "try_manager (region_index r) (Impl_OpenFirst ini (InitialProcessBinarySizeMax div PageSize))
      (if m_address r \<noteq> ini then with_manager (region_index r) (Impl_Free (m_address r) ((ini - m_address r) div PageSize)) mm else mm) = Some mm'"
    "mm_ok lay mm' (P - (region_pages r - ini_pages ini))" "evolves mm mm' (first_refs (ini_pages ini) (refs mm)) (tracked mm)"
    "ini_pages ini \<subseteq> region_pages r"
    by blast
  have ne: "ini div PageSize \<in> ini_pages ini"
    using ini_size(2) ini(1) by (simp add: ini_pages_def div_plus_div_distrib_dvd_left)
  then have I: "region_pages r \<inter> ini_pages ini = ini_pages ini" "region_pages r \<inter> ini_pages ini \<noteq> {}" using mm'(4) by auto
  have last: "ini + InitialProcessBinarySizeMax - 1 = m_last_address r" using True by (simp add: KMemoryRegion_GetEndAddress_def)
  have "free_regions ini (r # its) (res, mm) = free_regions ini its
      (res(region_index r := res (region_index r) + InitialProcessBinarySizeMax), mm')" for its res
    using u True mm'(1) last by (simp add: Let_def)
  then show ?thesis using mm'(2,3) I by auto
next
  case False
  then have out: "KMemoryRegion_GetEndAddress r \<le> ini \<or> ini + InitialProcessBinarySizeMax \<le> m_address r"
    using ini(2) by (auto simp: ini_ok_def)
  have dis: "region_pages r \<inter> ini_pages ini = {}"
    using out div_le_mono [of "KMemoryRegion_GetEndAddress r" ini PageSize]
      div_le_mono [of "ini + InitialProcessBinarySizeMax" "m_address r" PageSize]
    by (auto simp: region_pages_def ini_pages_def)
  have pos: "0 < InitialProcessBinarySizeMax" "0 < KMemoryRegion_GetSize r" "m_address r \<le> m_last_address r"
    using r region_okD(2) [OF r] by (simp_all add: InitialProcessBinarySizeMax_def region_ok_def)
  have no: "\<not> (m_address r \<le> ini \<and> ini + InitialProcessBinarySizeMax - 1 \<le> m_last_address r)"
    "\<not> (m_address r \<le> ini + InitialProcessBinarySizeMax - 1 \<and> \<not> m_last_address r < ini)"
    using out pos by (auto simp: KMemoryRegion_GetEndAddress_def)
  let ?mm = "with_manager (region_index r) (Impl_Free (m_address r) (KMemoryRegion_GetSize r div PageSize)) mm"
  have "free_regions ini (r # its) (res, mm) = free_regions ini its (res, ?mm)" for its res
    using u no by (auto simp: Let_def)
  moreover have "region_pages r - ini_pages ini = region_pages r" using dis by blast
  ultimately show ?thesis using free_region_outside [OF ok r i pg P z] dis by auto
qed
lemma free_regions_ok:
  assumes "mm_ok lay mm P" "distinct (map region_index (user_regions its))" "PageSize dvd ini"
    "\<forall>r \<in> set (user_regions its). region_ok r \<and> region_index r < m_num_managers mm \<and> ini_ok ini r \<and>
       impl_pages (manager mm (region_index r)) = region_pages r \<and> region_pages r \<subseteq> P \<and> (\<forall>q \<in> region_pages r. refs mm q = 0)"
  defines "U \<equiv> \<Union> (region_pages ` set (user_regions its))"
  shows "\<exists>res' mm'. free_regions ini its (res, mm) = Some (res', mm') \<and> mm_ok lay mm' (P - (U - ini_pages ini)) \<and>
    evolves mm mm' (first_refs (U \<inter> ini_pages ini) (refs mm)) (tracked mm) \<and>
    (\<forall>i. res' i = res i + (if \<exists>r \<in> set (user_regions its). region_index r = i \<and> region_pages r \<inter> ini_pages ini \<noteq> {}
       then InitialProcessBinarySizeMax else 0))"
  using assms(1,2,4) unfolding U_def
proof (induction its arbitrary: mm P res)
  case Nil
  then show ?case using evolves_refl [of mm] by (simp add: user_regions_def)
next
  case (Cons r its)
  show ?case
  proof (cases "IsDerivedFrom (m_type_id r) KMemoryRegionType_DramUserPool")
    case False
    then have ur: "user_regions (r # its) = user_regions its" by (simp add: user_regions_def)
    have run: "free_regions ini (r # its) (res, mm) = free_regions ini its (res, mm)" using False by simp
    show ?thesis unfolding ur run using Cons.IH [OF Cons.prems(1) Cons.prems(2,3) [unfolded ur]] by blast
  next
    case True
    have ur: "user_regions (r # its) = r # user_regions its" using True by (simp add: user_regions_def)
    have d: "distinct (map region_index (user_regions its))" "region_index r \<notin> region_index ` set (user_regions its)"
      using Cons.prems(2) unfolding ur by simp_all
    have good: "region_ok r" "region_index r < m_num_managers mm" "impl_pages (manager mm (region_index r)) = region_pages r"
      "region_pages r \<subseteq> P" "ini_ok ini r" "\<And>q. q \<in> region_pages r \<Longrightarrow> refs mm q = 0"
      using Cons.prems(3) unfolding ur by simp_all
    let ?R = "region_pages r" and ?I = "ini_pages ini" and ?V = "\<Union> (region_pages ` set (user_regions its))"
    from free_region_step [OF Cons.prems(1) good(1-4,6) assms(3) good(5) True] obtain mm1 where
      run: "\<And>its res. free_regions ini (r # its) (res, mm) = free_regions ini its
        (if ?R \<inter> ?I = {} then res else res(region_index r := res (region_index r) + InitialProcessBinarySizeMax), mm1)"
      and ok1: "mm_ok lay mm1 (P - (?R - ?I))" and ev1: "evolves mm mm1 (first_refs (?R \<inter> ?I) (refs mm)) (tracked mm)"
      by blast
    let ?res = "if ?R \<inter> ?I = {} then res else res(region_index r := res (region_index r) + InitialProcessBinarySizeMax)"
    note c = evolvesD(1) [OF ev1]
    have dis: "region_pages s \<inter> ?R = {}" if "s \<in> set (user_regions its)" for s
    proof -
      have "region_index s \<noteq> region_index r" using d(2) that by (metis imageI)
      then show ?thesis
        using mm_okD(3) [OF Cons.prems(1), of "region_index s" "region_index r"] Cons.prems(3) that good(2,3) unfolding ur by simp
    qed
    have "region_ok s \<and> region_index s < m_num_managers mm1 \<and> ini_ok ini s \<and>
        impl_pages (manager mm1 (region_index s)) = region_pages s \<and> region_pages s \<subseteq> P - (?R - ?I) \<and> (\<forall>q \<in> region_pages s. refs mm1 q = 0)"
      if s: "s \<in> set (user_regions its)" for s
    proof -
      have g: "region_ok s" "region_index s < m_num_managers mm" "ini_ok ini s" "impl_pages (manager mm (region_index s)) = region_pages s"
        "region_pages s \<subseteq> P" "\<forall>q \<in> region_pages s. refs mm q = 0"
        using Cons.prems(3) s unfolding ur by simp_all
      have "refs mm1 q = 0" if "q \<in> region_pages s" for q
        using evolvesD(5) [OF ev1] g(6) that dis [OF s] by (auto simp: first_refs_def)
      then show ?thesis
        using g dis [OF s] config_sel(1) [OF c] config_geom(1) [OF c mm_ok_wf [OF Cons.prems(1)] g(2)] by auto
    qed
    from Cons.IH [OF ok1 d(1), of ?res] this obtain res' mm' where
      I: "free_regions ini its (?res, mm1) = Some (res', mm')" "mm_ok lay mm' (P - (?R - ?I) - (?V - ?I))"
        "evolves mm1 mm' (first_refs (?V \<inter> ?I) (refs mm1)) (tracked mm1)"
        "\<forall>i. res' i = ?res i + (if \<exists>r \<in> set (user_regions its). region_index r = i \<and> region_pages r \<inter> ?I \<noteq> {}
          then InitialProcessBinarySizeMax else 0)"
      by blast
    have "P - (?R - ?I) - (?V - ?I) = P - (\<Union> (region_pages ` set (user_regions (r # its))) - ?I)" unfolding ur by auto
    moreover have "first_refs (?V \<inter> ?I) (refs mm1) = first_refs (\<Union> (region_pages ` set (user_regions (r # its))) \<inter> ?I) (refs mm)"
      unfolding ur evolvesD(5) [OF ev1] by (auto simp: first_refs_def fun_eq_iff)
    moreover have "res' i = res i + (if \<exists>s \<in> set (user_regions (r # its)). region_index s = i \<and> region_pages s \<inter> ?I \<noteq> {}
        then InitialProcessBinarySizeMax else 0)" for i
    proof (cases "i = region_index r")
      case True
      then have no: "(\<exists>s \<in> set (user_regions its). region_index s = i \<and> region_pages s \<inter> ?I \<noteq> {}) = False" using d(2) by (metis imageI)
      have "res' i = ?res i" using spec [OF I(4), of i] unfolding no by simp
      moreover have "(\<exists>s \<in> set (user_regions (r # its)). region_index s = i \<and> region_pages s \<inter> ?I \<noteq> {}) \<longleftrightarrow> ?R \<inter> ?I \<noteq> {}"
        unfolding ur using True d(2) by (auto simp: image_iff)
      ultimately show ?thesis using True by simp
    next
      case False
      then show ?thesis using I(4) unfolding ur by simp
    qed
    ultimately show ?thesis
      using I(1-3) evolves_trans [OF ev1 I(3)] unfolding run evolvesD(6) [OF ev1] by auto
  qed
qed

section \<open>The used sizes\<close>

lemma Impl_free_size:
  assumes "impl_ok I P"
  shows "GetFreeSize (m_heap I) = int (card (impl_pages I - P)) * int PageSize"
proof -
  let ?R = "{region_base I..<region_base I + region_size I}"
  note pb = aligned_implD(4) [OF impl_okD(1) [OF assms]]
  obtain L S where LS: "heap_inv (m_heap I) L S" "free_set (m_heap I) S = ?R - page_bytes (P \<inter> impl_pages I)"
    using impl_okD(2) [OF assms] by (auto simp: heap_holds_def)
  have "?R - page_bytes (P \<inter> impl_pages I) = page_bytes (impl_pages I - P)"
    unfolding pb [symmetric] page_bytes_Diff [symmetric] by (rule arg_cong [of _ _ page_bytes]) blast
  moreover have "finite (impl_pages I - P)" by (simp add: impl_pages_def)
  ultimately show ?thesis
    using GetFreeSize_card [OF LS(1)] LS(2) card_page_bytes by simp
qed

lemma heap_holds_used: "heap_holds a sz (h\<lparr>m_initial_used_size := x\<rparr>, H) = heap_holds a sz (h, H)"
  by (simp add: heap_holds_def heap_inv_def)

lemma SetInitialUsed_ok:
  assumes ok: "impl_ok I P" and res: "res \<le> card (impl_pages I \<inter> P) * PageSize"
  shows "\<exists>x. Impl_SetInitialUsedHeapSize res I = Some (I\<lparr>m_heap := (m_heap I)\<lparr>m_initial_used_size := x\<rparr>\<rparr>)"
proof -
  have fin: "finite (impl_pages I)" by (simp add: impl_pages_def)
  have "card (impl_pages I) = card (impl_pages I - P) + card (impl_pages I \<inter> P)"
    using card_Int_Diff [OF fin, of P] by simp
  moreover have "card (impl_pages I) * PageSize = region_size I"
    using card_page_bytes [OF fin] aligned_implD(4) [OF impl_okD(1) [OF ok]] by simp
  ultimately have "card (impl_pages I - P) * PageSize + res \<le> region_size I"
    using res by (simp add: algebra_simps)
  moreover have "KPageHeap_GetNumFreePages (m_heap I) * int PageSize = int (card (impl_pages I - P) * PageSize)"
    using Impl_free_size [OF ok] by (simp add: GetFreeSize_def)
  ultimately have "KPageHeap_GetNumFreePages (m_heap I) * int PageSize + int res \<le> int (region_size I)"
    by (simp only: of_nat_add [symmetric] of_nat_le_iff)
  then show ?thesis
    by (auto simp: Impl_SetInitialUsedHeapSize_def SetInitialUsedSize_def Let_def)
qed

lemma set_used_sizes_ok:
  assumes "mm_ok lay mm P" "\<forall>i \<in> set is. i < m_num_managers mm \<and> res i \<le> card (impl_pages (manager mm i) \<inter> P) * PageSize"
  shows "\<exists>mm'. set_used_sizes is res mm = Some mm' \<and> mm_ok lay mm' P \<and> evolves mm mm' (refs mm) (tracked mm)"
  using assms
proof (induction "is" arbitrary: mm)
  case Nil
  then show ?case using evolves_refl [of mm] by simp
next
  case (Cons i "is")
  let ?I = "manager mm i"
  have i: "i < m_num_managers mm" "res i \<le> card (impl_pages ?I \<inter> P) * PageSize" using Cons.prems(2) by simp_all
  note oki = mm_okD(7) [OF Cons.prems(1) i(1)]
  obtain x where x: "Impl_SetInitialUsedHeapSize (res i) ?I = Some (?I\<lparr>m_heap := (m_heap ?I)\<lparr>m_initial_used_size := x\<rparr>\<rparr>)"
    using SetInitialUsed_ok [OF oki i(2)] by blast
  let ?J = "?I\<lparr>m_heap := (m_heap ?I)\<lparr>m_initial_used_size := x\<rparr>\<rparr>"
  have g: "impl_geom ?J = impl_geom ?I" by (simp add: impl_geom_def)
  have J: "impl_ok ?J P"
    by (rule impl_okI [OF oki g]) (use impl_okD(2,3) [OF oki] in \<open>simp_all add: heap_holds_used\<close>)
  have E: "mm_ok lay (put i ?J mm) P \<and> evolves mm (put i ?J mm) (refs mm) (tracked mm)"
    by (rule evolves_put [OF Cons.prems(1) i(1) g J])
      (simp_all add: refs_at [OF Cons.prems(1) i(1)] tracked_at [OF Cons.prems(1) i(1)] marked_def)
  let ?mm = "put i ?J mm"
  note c = evolvesD(1) [OF conjunct2 [OF E]]
  have "\<forall>i \<in> set is. i < m_num_managers ?mm \<and> res i \<le> card (impl_pages (manager ?mm i) \<inter> P) * PageSize"
    using Cons.prems(2) config_sel(1) [OF c] config_geom(1) [OF c mm_ok_wf [OF Cons.prems(1)]] by simp
  from Cons.IH [OF conjunct1 [OF E] this] obtain mm' where
    mm': "set_used_sizes is res ?mm = Some mm'" "mm_ok lay mm' P" "evolves ?mm mm' (refs ?mm) (tracked ?mm)"
    by blast
  have "set_used_sizes (i # is) res mm = Some mm'" using x mm'(1) by (simp add: try_manager_put)
  then show ?case
    using mm'(2) evolves_trans [OF conjunct2 [OF E] mm'(3)] evolvesD(5,6) [OF conjunct2 [OF E]] by auto
qed

section \<open>Initialization\<close>

text \<open>The manager as the kernel image has it: static storage, zero.\<close>

definition fresh :: "'r KMemoryManager \<Rightarrow> bool" where
  "fresh mm \<longleftrightarrow> length (m_managers mm) = MaxManagerCount \<and>
     (\<forall>I \<in> set (m_managers mm). m_next I = None \<and> m_prev I = None \<and> length (m_blocks (m_heap I)) = 7 \<and>
        (\<forall>b \<in> set (m_blocks (m_heap I)). length (m_bit_storages (m_bitmap b)) = MaxDepth)) \<and>
     (\<forall>pool. m_pool_managers_head mm pool = None \<and> m_pool_managers_tail mm pool = None)"

lemma fresh_set_up:
  assumes "fresh mm"
  shows "set_up lay 0 (mm\<lparr>m_managers := map clear_management (m_managers mm), m_num_managers := 0\<rparr>)"
proof -
  have "fresh_impl (clear_management (manager mm i))" if "i < MaxManagerCount" for i
  proof -
    have "manager mm i \<in> set (m_managers mm)" using assms that by (simp add: fresh_def)
    then show ?thesis using assms by (simp add: fresh_def fresh_impl_def clear_management_def)
  qed
  then show ?thesis
    using assms by (simp add: set_up_def fresh_def linked_def)
qed

definition user_pages :: "KMemoryLayout \<Rightarrow> Pool \<Rightarrow> nat set" where
  "user_pages lay pool = \<Union> (region_pages ` {r \<in> set (user_regions (s_physical_tree lay)). region_pool r = pool})"

lemma set_up_all_pages:
  assumes "layout_ok lay K" "set_up lay K mm"
  shows "all_pages mm = \<Union> (region_pages ` set (user_regions (s_physical_tree lay)))" "pool_pages mm pool = user_pages lay pool"
proof -
  let ?rs = "set (user_regions (s_physical_tree lay))"
  have num: "m_num_managers mm = K" using assms(2) by (simp add: set_up_def)
  have rs: "?rs = region_at lay ` {..<K}"
    using region_at(1) [OF assms(1)] region_at_index [OF assms(1)] by (auto simp: image_iff) (metis lessThan_iff)
  show "all_pages mm = \<Union> (region_pages ` ?rs)"
    unfolding rs all_pages_def num using set_up_region_pages [OF assms] by auto
  show "pool_pages mm pool = user_pages lay pool"
    unfolding pool_pages_def user_pages_def rs num using set_up_region_pages [OF assms] set_up_pages(2) [OF assms(2)] by auto
qed

lemma ini_inside:
  assumes "ini_ok ini r" "region_pages r \<inter> ini_pages ini \<noteq> {}"
  shows "ini_pages ini \<subseteq> region_pages r"
proof -
  have "\<not> (KMemoryRegion_GetEndAddress r \<le> ini)" "\<not> (ini + InitialProcessBinarySizeMax \<le> m_address r)"
    using assms(2) div_le_mono [of "KMemoryRegion_GetEndAddress r" ini PageSize]
      div_le_mono [of "ini + InitialProcessBinarySizeMax" "m_address r" PageSize]
    by (auto simp: region_pages_def ini_pages_def)
  then have "m_address r \<le> ini" "ini + InitialProcessBinarySizeMax = KMemoryRegion_GetEndAddress r"
    using assms(1) by (auto simp: ini_ok_def)
  then show ?thesis
    using div_le_mono [of "m_address r" ini PageSize] by (auto simp: region_pages_def ini_pages_def)
qed

lemma Initialize_ok:
  assumes lay: "layout_ok lay K" and mm: "fresh mm" and st: "PageSize dvd st" "(\<Sum>i < K. overhead lay i) \<le> sz"
    and ini: "PageSize dvd ini" "\<forall>r \<in> set (user_regions (s_physical_tree lay)). ini_ok ini r"
  defines "P \<equiv> ini_pages ini \<inter> \<Union> (region_pages ` set (user_regions (s_physical_tree lay)))"
  shows "\<exists>mm'. KMemoryManager_Initialize lay ini st sz mm = Some mm' \<and> mm_ok lay mm' P \<and>
    refs mm' = (\<lambda>p. if p \<in> P then 1 else 0) \<and> tracked mm' = {} \<and> pool_pages mm' = user_pages lay \<and> same_data mm mm'"
proof -
  let ?rs = "user_regions (s_physical_tree lay)" and ?mm = "mm\<lparr>m_managers := map clear_management (m_managers mm), m_num_managers := 0\<rparr>"
  have K: "K \<le> 0 + MaxManagerCount" and d: "distinct (map region_index ?rs)" using lay by (simp_all add: layout_ok_def)
  have "st + (\<Sum>i \<in> {0..<K}. overhead lay i) \<le> st + sz" using st(2) by (simp add: atLeast0LessThan)
  from initialize_managers_ok [OF lay fresh_set_up [OF mm] le0 K st(1) this] obtain mm1 where
    mm1: "initialize_managers MaxManagerCount lay st (st + sz) ?mm = Some mm1" "set_up lay K mm1" "same_data ?mm mm1"
    by blast
  note S = set_up_ok [OF lay mm1(2)] and A = set_up_all_pages [OF lay mm1(2)]
  have num: "m_num_managers mm1 = K" using mm1(2) by (simp add: set_up_def)
  have "\<forall>r \<in> set ?rs. region_ok r \<and> region_index r < m_num_managers mm1 \<and> ini_ok ini r \<and>
      impl_pages (manager mm1 (region_index r)) = region_pages r \<and> region_pages r \<subseteq> all_pages mm1 \<and> (\<forall>q \<in> region_pages r. refs mm1 q = 0)"
    using layout_region(1) [OF lay] region_at_index [OF lay] ini(2) set_up_region_pages [OF lay mm1(2)] A(1) S(2) num by auto
  from free_regions_ok [OF S(1) d ini(1) this, of "\<lambda>_. 0"] obtain res mm2 where
    mm2: "free_regions ini (s_physical_tree lay) (\<lambda>_. 0, mm1) = Some (res, mm2)"
      "mm_ok lay mm2 (all_pages mm1 - (all_pages mm1 - ini_pages ini))"
      "evolves mm1 mm2 (first_refs (all_pages mm1 \<inter> ini_pages ini) (refs mm1)) (tracked mm1)"
      "\<forall>i. res i = 0 + (if \<exists>r \<in> set ?rs. region_index r = i \<and> region_pages r \<inter> ini_pages ini \<noteq> {}
         then InitialProcessBinarySizeMax else 0)"
    unfolding A(1) by blast
  have P: "all_pages mm1 - (all_pages mm1 - ini_pages ini) = P" "all_pages mm1 \<inter> ini_pages ini = P"
    unfolding A(1) P_def by auto
  note c = evolvesD(1) [OF mm2(3)]
  have "i < m_num_managers mm2 \<and> res i \<le> card (impl_pages (manager mm2 i) \<inter> P) * PageSize" if i: "i < K" for i
  proof -
    let ?r = "region_at lay i"
    have r: "?r \<in> set ?rs" "region_index ?r = i" "impl_pages (manager mm2 i) = region_pages ?r"
      using region_at [OF lay i] set_up_region_pages [OF lay mm1(2) i] config_geom(1) [OF c mm_ok_wf [OF S(1)]] i num by simp_all
    have "res i \<le> card (region_pages ?r \<inter> P) * PageSize"
    proof (cases "region_pages ?r \<inter> ini_pages ini = {}")
      case True
      then have no: "(\<exists>r \<in> set ?rs. region_index r = i \<and> region_pages r \<inter> ini_pages ini \<noteq> {}) = False"
      proof -
        have "s = ?r" if "s \<in> set ?rs" "region_index s = i" for s using region_at_index(1) [OF lay that(1)] that(2) by simp
        then show ?thesis using True by fastforce
      qed
      show ?thesis using spec [OF mm2(4), of i] unfolding no by simp
    next
      case False
      have "ini_pages ini \<subseteq> region_pages ?r" by (rule ini_inside [OF bspec [OF ini(2) r(1)] False])
      then have "region_pages ?r \<inter> P = ini_pages ini" using r(1) by (auto simp: P_def)
      moreover have "card (ini_pages ini) * PageSize = InitialProcessBinarySizeMax"
        using ini(1) ini_size(1) by (simp add: ini_pages_def div_plus_div_distrib_dvd_left)
      ultimately show ?thesis using spec [OF mm2(4), of i] by auto
    qed
    then show ?thesis using r i num config_sel(1) [OF c] by simp
  qed
  then have "\<forall>i \<in> set [0..<m_num_managers mm2]. i < m_num_managers mm2 \<and> res i \<le> card (impl_pages (manager mm2 i) \<inter> P) * PageSize"
    using config_sel(1) [OF c] num by simp
  from set_used_sizes_ok [OF mm2(2) [unfolded P] this] obtain mm3 where
    mm3: "set_used_sizes [0..<m_num_managers mm2] res mm2 = Some mm3" "mm_ok lay mm3 P" "evolves mm2 mm3 (refs mm2) (tracked mm2)"
    by blast
  note ev = evolves_trans [OF mm2(3) mm3(3)]
  have "KMemoryManager_Initialize lay ini st sz mm = Some mm3"
    unfolding KMemoryManager_Initialize_def using mm1(1) mm2(1) mm3(1) by (simp add: Let_def)
  moreover have "refs mm3 = (\<lambda>p. if p \<in> P then 1 else 0)" "tracked mm3 = {}"
    using evolvesD(5,6) [OF ev] evolvesD(5,6) [OF mm2(3)] S(2,3) P(2) by (auto simp: first_refs_def fun_eq_iff)
  moreover have "pool_pages mm3 pool = user_pages lay pool" for pool
    using mm_wf_config(2) [OF evolvesD(1) [OF ev] mm_ok_wf [OF S(1)]] A(2) by simp
  moreover have "same_data mm mm3"
    using mm1(3) evolvesD(2-4) [OF ev] by (simp add: same_data_def)
  ultimately show ?thesis using mm3(2) by (intro exI [of _ mm3]) (simp add: fun_eq_iff)
qed

end
