(* ===== verification/Kern_MemoryManager_Props.thy ===== *)
theory Kern_MemoryManager_Props
  imports Kern_MemoryManager_Spec Kern_MemoryManager_Init
begin

text \<open>
  What every run of the memory manager keeps: the page table that it refines, the balance of the
  references to a page, that a page is given to one owner at a time, that a request succeeds as long as
  there are free pages, and that no process sees what another one left in a page.
\<close>

section \<open>Refinement\<close>

definition table_of :: "'r KMemoryManager \<Rightarrow> nat set \<Rightarrow> page_table" where
  "table_of mm P = \<lparr>held = P, count = refs mm, kept = tracked mm, page_content = memory mm, optimized = reserved_by mm\<rparr>"

lemma table_of_sel [simp]:
  "held (table_of mm P) = P" "count (table_of mm P) = refs mm" "kept (table_of mm P) = tracked mm"
  "page_content (table_of mm P) = memory mm" "optimized (table_of mm P) = reserved_by mm"
  by (simp_all add: table_of_def)

lemma holds_table_of: "represents lay mm0 a mm \<longleftrightarrow> config mm = config mm0 \<and> mm_ok lay mm (held a) \<and> a = table_of mm (held a)"
  by (cases a) (auto simp: represents_def table_of_def)

lemma mm_runs_table:
  assumes "mm_ok lay mm P" "runs (mm_step lay gen alloc free) (ns, mm) es (ns', mm')"
  shows "\<exists>P'. mm_ok lay mm' P' \<and> config mm' = config mm \<and>
    runs (page_step (pool_regions mm) (apart mm) (\<exists>ns. fst (alloc ns) = 0)) (table_of mm P) es (table_of mm' P')"
proof -
  have "represents lay mm (table_of mm P) (snd (ns, mm))" using assms(1) by (simp add: holds_table_of)
  from mm_sim.runs_simulate [OF assms(2) this] obtain a' where
    a': "runs (page_step (pool_regions mm) (apart mm) (\<exists>ns. fst (alloc ns) = 0)) (table_of mm P) es a'" "represents lay mm a' mm'"
    by auto
  have "a' = table_of mm' (held a')" "mm_ok lay mm' (held a')" "config mm' = config mm" using a'(2) by (simp_all add: holds_table_of)
  then show ?thesis using a'(1) by metis
qed

lemma page_step_no_crash: "page_step pp sep starved a e a' \<Longrightarrow> e \<noteq> Crashed"
  by (auto elim: page_step.cases)

lemma page_runs_no_crash: "runs (page_step pp sep starved) a es a' \<Longrightarrow> Crashed \<notin> set es"
  by (induction rule: runs.induct) (auto dest: page_step_no_crash)

text \<open>C3. The memory manager refines the page table: from a state with the pages \<open>P\<close> handed out, every run of
  its operations by callers that keep their side of the contract is a run of the page table with the same
  answers, it ends in a state that satisfies the invariant again, and no assertion of the code fails.\<close>

theorem memory_manager_refines_page_table:
  assumes "mm_ok lay mm P" "runs (mm_step lay gen alloc free) (ns, mm) es (ns', mm')"
  shows "(\<exists>P'. mm_ok lay mm' P' \<and>
      runs (page_step (pool_regions mm) (apart mm) (\<exists>ns. fst (alloc ns) = 0)) (table_of mm P) es (table_of mm' P')) \<and>
    Crashed \<notin> set es"
  using mm_runs_table [OF assms] page_runs_no_crash by blast

section \<open>References\<close>

text \<open>The pages that an event gives to a caller, and what it does to the references of a page.\<close>

fun gives :: "mm_event \<Rightarrow> nat set" where
  "gives (Granted pool n ps) = set ps"
| "gives (Assigned pid v pool n ps) = set ps"
| "gives (Placed pool n align p) = {p..<p + n}"
| "gives _ = {}"

fun balance :: "nat \<Rightarrow> mm_event \<Rightarrow> int" where
  "balance p (Shared ps) = (if p \<in> set ps then 1 else 0)"
| "balance p (Released ps) = (if p \<in> set ps then -1 else 0)"
| "balance p e = (if p \<in> gives e then 1 else 0)"

definition counted :: "page_table \<Rightarrow> bool" where
  "counted a \<longleftrightarrow> (\<forall>p. 0 < count a p \<longrightarrow> p \<in> held a)"

lemma page_step_balance:
  assumes "page_step pp sep starved a e a'" "counted a"
  shows "counted a'" "int (count a' p) = int (count a p) + balance p e" "p \<in> gives e \<Longrightarrow> count a p = 0"
  using assms
  by (cases rule: page_step.cases;
      auto simp: counted_def first_refs_def more_refs_def less_refs_def split: if_splits; fastforce)+

lemma page_runs_balance:
  assumes "runs (page_step pp sep starved) a es a'" "counted a"
  shows "int (count a' p) = int (count a p) + (\<Sum>e \<leftarrow> es. balance p e) \<and>
    (\<forall>es1 e es2. es = es1 @ e # es2 \<longrightarrow> p \<in> gives e \<longrightarrow> int (count a p) + (\<Sum>e \<leftarrow> es1. balance p e) = 0)"
  using assms
proof (induction rule: runs.induct)
  case (runs_nil a)
  then show ?case by simp
next
  case (runs_cons a e a1 es a')
  note S = page_step_balance [OF runs_cons.hyps(1) runs_cons.prems]
  note IH = runs_cons.IH [OF S(1)]
  have "int (count a p) + (\<Sum>e \<leftarrow> es1. balance p e) = 0" if s: "e # es = es1 @ d # es2" "p \<in> gives d" for es1 d es2
  proof (cases es1)
    case Nil
    then show ?thesis using s S(3) by simp
  next
    case (Cons c cs)
    then have c: "es = cs @ d # es2" "c = e" using s(1) by simp_all
    then have "int (count a1 p) + (\<Sum>e \<leftarrow> cs. balance p e) = 0" using conjunct2 [OF IH] s(2) by blast
    then show ?thesis using S(2) [of p] Cons c(2) by simp
  qed
  then show ?case using IH S(2) [of p] by auto
qed

lemma table_counted: "mm_ok lay mm P \<Longrightarrow> counted (table_of mm P)"
  using refs_held by (auto simp: counted_def)

text \<open>C5. Over every run the references of a page are those it had, plus one for each event that gives or
  shares it, minus one for each that releases it; and it is given to a caller only when there are none.\<close>

theorem references_balance:
  assumes "mm_ok lay mm P" "runs (mm_step lay gen alloc free) (ns, mm) es (ns', mm')"
  shows "int (refs mm' p) = int (refs mm p) + (\<Sum>e \<leftarrow> es. balance p e) \<and>
    (\<forall>es1 e es2. es = es1 @ e # es2 \<longrightarrow> p \<in> gives e \<longrightarrow> int (refs mm p) + (\<Sum>e \<leftarrow> es1. balance p e) = 0)"
  using mm_runs_table [OF assms] page_runs_balance [OF _ table_counted [OF assms(1)]] by fastforce
section \<open>Free memory\<close>

lemma pool_free_size:
  assumes ok: "mm_ok lay mm P" and pool: "pool < Pool_Count"
  shows "KMemoryManager_GetPoolFreeSize pool mm = int (card (pool_pages mm pool - P) * PageSize)"
proof -
  let ?is = "pool_managers pool Direction_FromFront mm" and ?f = "\<lambda>i. impl_pages (manager mm i) - P"
  have is_: "distinct ?is" "set ?is = {i. i < m_num_managers mm \<and> m_pool (manager mm i) = pool}"
    by (rule mm_okD(5,6) [OF ok pool])+
  have U: "pool_pages mm pool - P = (\<Union>i \<in> set ?is. ?f i)" unfolding is_ pool_pages_def by blast
  have dis: "?f i \<inter> ?f j = {}" if "i \<in> set ?is" "j \<in> set ?is" "i \<noteq> j" for i j
    using mm_okD(3) [OF ok, of i j] that unfolding is_ by auto
  have "card (pool_pages mm pool - P) = (\<Sum>i \<in> set ?is. card (?f i))"
    unfolding U by (rule card_UN_disjoint) (use dis in \<open>auto simp: impl_pages_def\<close>)
  moreover have "KMemoryManager_GetPoolFreeSize pool mm = (\<Sum>i \<in> set ?is. GetFreeSize (m_heap (manager mm i)))"
    unfolding KMemoryManager_GetPoolFreeSize_def by (simp add: sum_list_distinct_conv_sum_set [OF is_(1)])
  moreover have "GetFreeSize (m_heap (manager mm i)) = int (card (?f i) * PageSize)" if "i \<in> set ?is" for i
    using Impl_free_size [OF mm_okD(7) [OF ok]] that unfolding is_ by simp
  ultimately show ?thesis
    by (simp add: sum_distrib_right)
qed


section \<open>What is left in a page\<close>

text \<open>The process that a page was last given to, \<open>None\<close> if it was given to the kernel.\<close>

fun owner_after :: "mm_event \<Rightarrow> nat \<Rightarrow> u64 option \<Rightarrow> u64 option" where
  "owner_after (Assigned pid v pool n ps) p w = (if p \<in> set ps then Some pid else w)"
| "owner_after e p w = (if p \<in> gives e then None else w)"

definition last_owner :: "mm_event list \<Rightarrow> nat \<Rightarrow> u64 option" where
  "last_owner es p = fold (\<lambda>e. owner_after e p) es None"

definition kept_own :: "(Pool \<Rightarrow> nat set set) \<Rightarrow> page_table \<Rightarrow> (nat \<Rightarrow> u64 option) \<Rightarrow> bool" where
  "kept_own pp a w \<longleftrightarrow> (\<forall>p pool pid. p \<in> kept a \<longrightarrow> p \<in> \<Union> (pp pool) \<longrightarrow> optimized a pool = Some pid \<longrightarrow> w p = Some pid)"

lemma page_step_own:
  assumes step: "page_step pp sep starved a e a'" and own: "kept_own pp a w"
    and dis: "\<And>pool pool'. pool \<noteq> pool' \<Longrightarrow> \<Union> (pp pool) \<inter> \<Union> (pp pool') = {}"
  shows "kept_own pp a' (\<lambda>p. owner_after e p (w p))"
proof -
  have same: "pool' = pool" if "p \<in> \<Union> (pp pool)" "p \<in> \<Union> (pp pool')" for p pool pool'
    using dis [of pool pool'] that by blast
  have o: "w p = Some pid" if "p \<in> kept a" "p \<in> \<Union> (pp pool)" "optimized a pool = Some pid" for p pool pid
    using own that unfolding kept_own_def by blast
  have forget: "kept_own pp (forget_pages pool A b) w'"
    if "A \<subseteq> \<Union> (pp pool) - X" "kept b = kept a" "optimized b = optimized a" "\<And>p. p \<notin> A \<Longrightarrow> w' p = w p" for pool A b w' X
    unfolding kept_own_def
  proof (intro allI impI)
    fix p pool' pid
    assume k: "p \<in> kept (forget_pages pool A b)" and p: "p \<in> \<Union> (pp pool')" and opt: "optimized (forget_pages pool A b) pool' = Some pid"
    have "p \<notin> A"
    proof
      assume "p \<in> A"
      then have "pool' = pool" using same [of p pool pool'] p that(1) by blast
      then show False using k opt \<open>p \<in> A\<close> that(3) by simp
    qed
    moreover have "p \<in> kept a" using k that(2) by (auto split: if_splits)
    ultimately show "w' p = Some pid" using o p opt that(3,4) by simp
  qed
  from step show ?thesis
  proof cases
    case (granted ps n pool)
    show ?thesis unfolding granted(1,2) by (rule forget [OF granted(5)]) simp_all
  next
    case (assigned ps n pool pid v)
    show ?thesis unfolding assigned(1,2) by (rule forget [OF assigned(5)]) simp_all
  next
    case (assigned_optimized ps n pool pid T v)
    show ?thesis unfolding kept_own_def
    proof (intro allI impI)
      fix p pool' pid'
      assume p: "p \<in> kept a'" "p \<in> \<Union> (pp pool')" "optimized a' pool' = Some pid'"
      show "owner_after e p (w p) = Some pid'"
      proof (cases "p \<in> set ps")
        case True
        then have "p \<in> \<Union> (pp pool)" using assigned_optimized(5) by blast
        from same [OF this p(2)] show ?thesis using True p(3) assigned_optimized by simp
      next
        case False
        then have "p \<in> kept a" using p(1) assigned_optimized(2,8) by auto
        from o [OF this p(2)] show ?thesis using False p(3) assigned_optimized by simp
      qed
    qed
  next
    case (placed R pool p n align)
    have "{p..<p + n} \<subseteq> \<Union> (pp pool) - held a" using placed(3,4) by blast
    show ?thesis unfolding placed(1,2) by (rule forget) (fact, auto)
  next
    case (denied er n pool L T)
    have "kept a' \<subseteq> kept a" "optimized a' = optimized a" using denied(2,6) by simp_all
    then show ?thesis unfolding kept_own_def denied(1) using own [unfolded kept_own_def] by (simp, blast)
  next
    case (reserved pool pid)
    show ?thesis unfolding kept_own_def
    proof (intro allI impI)
      fix p pool' pid'
      assume "p \<in> kept a'" "p \<in> \<Union> (pp pool')" "optimized a' pool' = Some pid'"
      then show "owner_after e p (w p) = Some pid'"
        using o [of p pool' pid'] reserved by (cases "pool' = pool") auto
    qed
  qed (use o in \<open>auto simp: kept_own_def split: if_splits\<close>)
qed

lemma page_runs_own:
  assumes "runs (page_step pp sep starved) a es a'" "kept_own pp a w"
    "\<And>pool pool'. pool \<noteq> pool' \<Longrightarrow> \<Union> (pp pool) \<inter> \<Union> (pp pool') = {}"
  shows "kept_own pp a' (\<lambda>p. fold (\<lambda>e. owner_after e p) es (w p))"
  using assms(1,2)
proof (induction arbitrary: w rule: runs.induct)
  case (runs_cons a e a1 es a')
  from runs_cons.IH [OF page_step_own [OF runs_cons.hyps(1) runs_cons.prems assms(3)]] show ?case by simp
qed simp

lemma pools_disjoint:
  assumes "mm_ok lay mm P" "pool \<noteq> pool'"
  shows "\<Union> (pool_regions mm pool) \<inter> \<Union> (pool_regions mm pool') = {}"
proof -
  have "i \<noteq> j" if "m_pool (manager mm i) = pool" "m_pool (manager mm j) = pool'" for i j using that assms(2) by auto
  then show ?thesis
    using mm_okD(3) [OF assms(1)] unfolding Union_pool_regions pool_pages_def by fastforce
qed

text \<open>C4. From a state without optimized processes, after every run, a process that is given pages finds in
  each of them the fill pattern, or the page was last given to that very process: the content of a page
  never reaches another process.\<close>

theorem no_page_leak:
  assumes "mm_ok lay mm P" "\<And>pool. \<not> m_has_optimized_process mm pool"
    "runs (mm_step lay gen alloc free) (ns, mm) es (ns', mm')" "fst (DecodeOption option) < Pool_Count"
    "AllocateAndOpenForProcess lay gen alloc free n option pid v ([], ns', mm') = Some (Inr (), g, ns'', mm'')"
    "p \<in> set (group_pages g)"
  shows "(\<forall>x. x div PageSize = p \<longrightarrow> memory mm'' x = v) \<or> last_owner es p = Some pid"
proof -
  obtain P' where P': "mm_ok lay mm' P'" "config mm' = config mm"
    and run: "runs (page_step (pool_regions mm) (apart mm) (\<exists>ns. fst (alloc ns) = 0)) (table_of mm P) es (table_of mm' P')"
    using mm_runs_table [OF assms(1,3)] by blast
  have own: "kept_own (pool_regions mm) (table_of mm' P') (last_owner es)"
  proof -
    have "kept_own (pool_regions mm) (table_of mm P) (\<lambda>_. None)"
      using assms(2) by (simp add: kept_own_def reserved_by_def)
    from page_runs_own [OF run this pools_disjoint [OF assms(1)]] show ?thesis
      by (simp add: last_owner_def [abs_def])
  qed
  have H: "represents lay mm (table_of mm' P') mm'" using P' by (simp add: holds_table_of)
  from AllocateAndOpenForProcess_step [OF H assms(4), of gen alloc free n pid v ns'] assms(5) obtain a' where
    step: "page_step (pool_regions mm) (apart mm) (\<exists>ns. fst (alloc ns) = 0) (table_of mm' P')
      (Assigned pid v (fst (DecodeOption option)) n (group_pages g)) a'" and H': "represents lay mm a' mm''"
    by auto
  have c: "memory mm'' = page_content a'" by (rule holdsD(5) [OF H', symmetric])
  from step show ?thesis
  proof cases
    case assigned
    then show ?thesis using assms(6) c by (simp add: filled_def)
  next
    case (assigned_optimized T)
    show ?thesis
    proof (cases "p \<in> tracked mm'")
      case True
      moreover have "p \<in> \<Union> (pool_regions mm (fst (DecodeOption option)))" using assigned_optimized(4) assms(6) by blast
      ultimately have "last_owner es p = Some pid"
        using own assigned_optimized(5) unfolding kept_own_def table_of_sel by blast
      then show ?thesis by simp
    next
      case False
      then show ?thesis using assigned_optimized assms(6) c by (simp add: filled_def)
    qed
  qed
qed

section \<open>Initialization\<close>


section \<open>A small system\<close>

text \<open>Two pools of four pages each.\<close>

definition demo_region :: "nat \<Rightarrow> u32 \<Rightarrow> u32 \<Rightarrow> KMemoryRegion" where
  "demo_region address attr type =
     \<lparr>m_address = address, m_last_address = address + 0x3FFF, m_attributes = attr, m_type_id = type\<rparr>"

definition demo_regions :: "KMemoryRegion list" where
  "demo_regions = [demo_region 0x80000000 0 KMemoryRegionType_DramApplicationPool,
     demo_region 0x90000000 1 KMemoryRegionType_DramSystemPool]"

definition demo_layout :: KMemoryLayout where
  "demo_layout = \<lparr>s_physical_tree = demo_regions, s_physical_linear_tree = demo_regions\<rparr>"

definition demo_impl :: "unit Impl" where
  "demo_impl = \<lparr>m_heap = demo_heap, m_page_reference_counts = (\<lambda>_. 0), m_optimize_map = (\<lambda>_. 0), m_management_region = 0,
     m_pool = Pool_Count, m_next = None, m_prev = None\<rparr>"

definition demo_manager :: "unit KMemoryManager" where
  "demo_manager = \<lparr>m_pool_managers_head = (\<lambda>_. None), m_pool_managers_tail = (\<lambda>_. None),
     m_managers = replicate MaxManagerCount demo_impl, m_num_managers = 0, m_optimized_process_ids = (\<lambda>_. 0),
     m_has_optimized_process = (\<lambda>_. False), memory = (\<lambda>_. 0)\<rparr>"

lemma demo_types:
  "IsDerivedFrom KMemoryRegionType_DramApplicationPool KMemoryRegionType_DramUserPool"
  "IsDerivedFrom KMemoryRegionType_DramSystemPool KMemoryRegionType_DramUserPool"
  "GetPoolFromMemoryRegionType KMemoryRegionType_DramApplicationPool = Some 0"
  "GetPoolFromMemoryRegionType KMemoryRegionType_DramSystemPool = Some 2"
  by (simp_all add: IsDerivedFrom_def GetPoolFromMemoryRegionType_def KMemoryRegionType_DramApplicationPool_def
      KMemoryRegionType_DramUserPool_def KMemoryRegionType_DramSystemPool_def KMemoryRegionType_DramAppletPool_def
      KMemoryRegionType_DramSystemNonSecurePool_def Pool_Application_def Pool_System_def)

lemma demo_user_regions: "user_regions (s_physical_tree demo_layout) = demo_regions"
  by (simp add: user_regions_def demo_layout_def demo_regions_def demo_region_def demo_types)

lemma demo_layout_ok: "layout_ok demo_layout 2"
proof -
  have pages: "region_pages (demo_region 0x80000000 a t) = {0x80000..<0x80004}" "region_pages (demo_region 0x90000000 a t) = {0x90000..<0x90004}" for a t
    by (simp_all add: region_pages_def demo_region_def KMemoryRegion_GetEndAddress_def PageSize_def)
  have "GetManager demo_layout (p * PageSize) = Some 0" if "p \<in> {0x80000..<0x80004}" for p
    using that by (auto simp: GetManager_def GetPhysicalLinearRegion_def demo_layout_def demo_regions_def demo_region_def
        KMemoryRegion_Contains_def PageSize_def)
  moreover have "GetManager demo_layout (p * PageSize) = Some 1" if "p \<in> {0x90000..<0x90004}" for p
    using that by (auto simp: GetManager_def GetPhysicalLinearRegion_def demo_layout_def demo_regions_def demo_region_def
        KMemoryRegion_Contains_def PageSize_def)
  moreover have "region_ok r" if "r \<in> set demo_regions" for r
    using that by (auto simp: demo_regions_def demo_region_def region_ok_def demo_types PageSize_def KMemoryRegion_GetEndAddress_def
        KMemoryRegion_GetSize_def)
  moreover have "region_index ` set demo_regions = {..<2}" by (auto simp: demo_regions_def demo_region_def)
  ultimately show ?thesis
    unfolding layout_ok_def demo_user_regions
    by (simp add: demo_regions_def pages MaxManagerCount_def) (simp add: demo_region_def)
qed

lemma demo_management: "(\<Sum>i < 2. overhead demo_layout i) \<le> 0x10000"
proof -
  have "overhead demo_layout i = Impl_CalculateManagementOverheadSize 0x4000" if "i < 2" for i
  proof -
    have "region_at demo_layout i \<in> set demo_regions" using region_at(1) [OF demo_layout_ok that] by (simp add: demo_user_regions)
    then have "KMemoryRegion_GetSize (region_at demo_layout i) = 0x4000"
      by (auto simp: demo_regions_def demo_region_def KMemoryRegion_GetSize_def KMemoryRegion_GetEndAddress_def)
    then show ?thesis by (simp add: overhead_def)
  qed
  moreover have "Impl_CalculateManagementOverheadSize 0x4000 \<le> 0x4000"
    using demo_overhead AlignUp_less [of "AlignUp (0x4000 div PageSize) 64 div 64 * 8 + 0x4000 div PageSize * 2" PageSize]
      AlignUp_less [of "0x4000 div PageSize" 64]
    by (simp add: Impl_CalculateManagementOverheadSize_def Let_def PageSize_def)
  ultimately show ?thesis by (simp add: numeral_2_eq_2)
qed

lemma demo_fresh: "fresh demo_manager"
  by (simp add: fresh_def demo_manager_def demo_impl_def demo_heap_def demo_block_def NumMemoryBlockPageShifts_def)

lemma demo_ini: "\<forall>r \<in> set (user_regions (s_physical_tree demo_layout)). ini_ok 0xA0000000 r"
  by (simp add: demo_user_regions demo_regions_def demo_region_def ini_ok_def KMemoryRegion_GetEndAddress_def)

lemma demo_no_image: "ini_pages 0xA0000000 \<inter> \<Union> (region_pages ` set (user_regions (s_physical_tree demo_layout))) = {}"
  by (auto simp: demo_user_regions demo_regions_def demo_region_def ini_pages_def region_pages_def KMemoryRegion_GetEndAddress_def
      PageSize_def InitialProcessBinarySizeMax_def)

lemma demo_pages: "user_pages demo_layout 0 = {0x80000..<0x80004}"
  by (simp add: user_pages_def demo_user_regions demo_regions_def demo_region_def demo_types region_pages_def
      KMemoryRegion_GetEndAddress_def PageSize_def set_eq_iff conj_disj_distribR ex_disj_distrib)

lemma demo_memory_start:
  "\<exists>mm. KMemoryManager_Initialize demo_layout 0xA0000000 0 0x10000 demo_manager = Some mm \<and> mm_ok demo_layout mm {} \<and>
     refs mm = (\<lambda>_. 0) \<and> pool_pages mm 0 = {0x80000..<0x80004} \<and> (\<forall>pool. \<not> m_has_optimized_process mm pool)"
  using Initialize_ok [OF demo_layout_ok demo_fresh _ demo_management _ demo_ini, of 0] unfolding demo_no_image
  by (auto simp: demo_pages same_data_def demo_manager_def PageSize_def)

abbreviation demo_step :: "unit \<times> unit KMemoryManager \<Rightarrow> mm_event \<Rightarrow> unit \<times> unit KMemoryManager \<Rightarrow> bool" where
  "demo_step \<equiv> mm_step demo_layout (Pair 0) (Pair 1) (\<lambda>_ ns. ns)"

lemma demo_option: "DecodeOption 0 = (0, 0)" "fst (DecodeOption 0) < Pool_Count"
  by (simp_all add: DecodeOption_def Pool_Count_def)

lemma demo_memory_run:
  "\<exists>mm mm' ps. KMemoryManager_Initialize demo_layout 0xA0000000 0 0x10000 demo_manager = Some mm \<and> mm_ok demo_layout mm {} \<and>
     refs mm = (\<lambda>_. 0) \<and> pool_pages mm 0 = {0x80000..<0x80004} \<and> (\<forall>pool. \<not> m_has_optimized_process mm pool) \<and>
     runs demo_step ((), mm) [Granted 0 3 ps] ((), mm') \<and> distinct ps \<and> length ps = 3 \<and> set ps \<subseteq> {0x80000..<0x80004} \<and>
     represents demo_layout mm (forget_pages 0 (set ps) (take_pages (set ps) (table_of mm {}))) mm'"
proof -
  obtain mm where mm: "KMemoryManager_Initialize demo_layout 0xA0000000 0 0x10000 demo_manager = Some mm" "mm_ok demo_layout mm {}"
    "refs mm = (\<lambda>_. 0)" "pool_pages mm 0 = {0x80000..<0x80004}" "\<forall>pool. \<not> m_has_optimized_process mm pool"
    using demo_memory_start by blast
  have H: "represents demo_layout mm (table_of mm {}) mm" using mm(2) by (simp add: holds_table_of)
  have al: "allowed (Allocate 3 0) mm" using demo_option(2) by simp
  obtain r g ns' mm' a' where
    run: "AllocateAndOpen demo_layout (Pair 0) (Pair 1) (\<lambda>_ ns. ns) 3 0 ([], (), mm) = Some (r, g, ns', mm')" and
    step: "page_step (pool_regions mm) (apart mm) (\<exists>ns :: unit. (1 :: nat) = 0) (table_of mm {})
      (case r of Inl e \<Rightarrow> Denied 0 3 e | Inr _ \<Rightarrow> Granted 0 3 (group_pages g)) a'" and H': "represents demo_layout mm a' mm'"
    using AllocateAndOpen_step [OF H demo_option(2), of "Pair 0" "Pair 1" "\<lambda>_ ns. ns" 3 "()"] unfolding demo_option fst_conv
    by (elim exE conjE)
  show ?thesis
  proof (cases r)
    case (Inl e)
    from step [unfolded Inl sum.case] have False
      by cases (simp_all add: Union_pool_regions mm(4))
    then show ?thesis ..
  next
    case (Inr u)
    have "perform demo_layout (Pair 0) (Pair 1) (\<lambda>_ ns. ns) (Allocate 3 0) ((), mm) = Some (Granted 0 3 (group_pages g), (), mm')"
      using run Inr by (simp add: demo_option)
    from mm_step.served [OF _ this] al have "demo_step ((), mm) (Granted 0 3 (group_pages g)) ((), mm')" by simp
    then have "runs demo_step ((), mm) [Granted 0 3 (group_pages g)] ((), mm')"
      by (rule runs_cons [OF _ runs_nil])
    moreover have "distinct (group_pages g) \<and> length (group_pages g) = 3 \<and> set (group_pages g) \<subseteq> {0x80000..<0x80004} \<and>
        a' = forget_pages 0 (set (group_pages g)) (take_pages (set (group_pages g)) (table_of mm {}))"
      using step [unfolded Inr sum.case] by cases (simp_all add: Union_pool_regions mm(4))
    ultimately show ?thesis using mm H' by blast
  qed
qed

theorem memory_manager_refines_page_table_witness:
  "\<exists>mm mm' ps. KMemoryManager_Initialize demo_layout 0xA0000000 0 0x10000 demo_manager = Some mm \<and> mm_ok demo_layout mm {} \<and>
     runs demo_step ((), mm) [Granted 0 3 ps] ((), mm') \<and>
     (\<exists>P'. mm_ok demo_layout mm' P' \<and> runs (page_step (pool_regions mm) (apart mm) (\<exists>ns. fst (Pair (1 :: nat) (ns :: unit)) = 0))
        (table_of mm {}) [Granted 0 3 ps] (table_of mm' P')) \<and> Crashed \<notin> set [Granted 0 3 ps]"
proof -
  obtain mm mm' ps where R: "KMemoryManager_Initialize demo_layout 0xA0000000 0 0x10000 demo_manager = Some mm"
    "mm_ok demo_layout mm {}" "runs demo_step ((), mm) [Granted 0 3 ps] ((), mm')"
    using demo_memory_run by blast
  show ?thesis using R memory_manager_refines_page_table [OF R(2,3)] by blast
qed

theorem references_balance_witness:
  "\<exists>mm mm' ps. mm_ok demo_layout mm {} \<and> runs demo_step ((), mm) [Granted 0 3 ps] ((), mm') \<and> length ps = 3 \<and>
     (\<forall>p \<in> set ps. refs mm' p = 1)"
proof -
  obtain mm mm' ps where R: "mm_ok demo_layout mm {}" "runs demo_step ((), mm) [Granted 0 3 ps] ((), mm')"
    "refs mm = (\<lambda>_. 0)" "length ps = 3"
    using demo_memory_run by blast
  have "refs mm' p = 1" if "p \<in> set ps" for p
    using references_balance [OF R(1,2), of p] R(3) that by simp
  then show ?thesis using R by blast
qed


theorem no_page_leak_witness:
  "\<exists>mm mm' ps g ns'' mm''. runs demo_step ((), mm) [Granted 0 3 ps] ((), mm') \<and> 
     AllocateAndOpenForProcess demo_layout (Pair 0) (Pair 1) (\<lambda>_ ns. ns) 1 0 7 0xAA ([], (), mm') = Some (Inr (), g, ns'', mm'') \<and>
     length (group_pages g) = 1 \<and> (\<forall>p \<in> set (group_pages g). \<forall>x. x div PageSize = p \<longrightarrow> memory mm'' x = 0xAA)"
proof -
  obtain mm mm' ps where mm: "mm_ok demo_layout mm {}" "pool_pages mm 0 = {0x80000..<0x80004}" "\<forall>pool. \<not> m_has_optimized_process mm pool"
    and R: "runs demo_step ((), mm) [Granted 0 3 ps] ((), mm')" "distinct ps" "length ps = 3" "set ps \<subseteq> {0x80000..<0x80004}"
    and H: "represents demo_layout mm (forget_pages 0 (set ps) (take_pages (set ps) (table_of mm {}))) mm'"
    using demo_memory_run by blast
  obtain r g ns'' mm'' a'' where
    run: "AllocateAndOpenForProcess demo_layout (Pair 0) (Pair 1) (\<lambda>_ ns. ns) 1 0 7 0xAA ([], (), mm') = Some (r, g, ns'', mm'')" and
    step: "page_step (pool_regions mm) (apart mm) (\<exists>ns :: unit. (1 :: nat) = 0) (forget_pages 0 (set ps) (take_pages (set ps) (table_of mm {})))
      (case r of Inl e \<Rightarrow> Denied 0 1 e | Inr _ \<Rightarrow> Assigned 7 0xAA 0 1 (group_pages g)) a''"
    using AllocateAndOpenForProcess_step [OF H demo_option(2), of "Pair 0" "Pair 1" "\<lambda>_ ns. ns" 1 7 "0xAA" "()"] unfolding demo_option fst_conv
    by (elim exE conjE)
  have "card ({0x80000..<0x80004} - set ps) = 1"
    using R(2-4) card_Diff_subset [of "set ps" "{0x80000..<0x80004}"] by (simp add: distinct_card)
  then have Inr: "r = Inr ()"
    using step by (cases r) (auto elim: page_step.cases simp: Union_pool_regions mm(2))
  have one: "length (group_pages g) = 1" using step unfolding Inr sum.case by cases simp_all
  have "\<forall>x. x div PageSize = p \<longrightarrow> memory mm'' x = 0xAA" if "p \<in> set (group_pages g)" for p
    using no_page_leak [OF mm(1) _ R(1) demo_option(2) run [unfolded Inr] that] mm(3) by (auto simp: last_owner_def)
  then show ?thesis using R(1) run Inr one by blast
qed


end
