(* ===== verification/Kern_MemoryBlock.thy ===== *)
theory Kern_MemoryBlock
  imports Kern_PageHeap "HOL-Library.Monad_Syntax"
begin

text \<open>
  Memory blocks (\<^verbatim>\<open>KMemoryBlock\<close>, \<^verbatim>\<open>kern_k_memory_block.hpp\<close>): a run of pages of a process's address space
  with the same state, permission and attribute, and the counts and flags that keep a block apart from
  its neighbours. Addresses and page counts are natural numbers, the other fields have the widths of
  the code; a counter that overflows aborts the kernel, which is \<^const>\<open>None\<close> here.
\<close>

section \<open>States, permissions and attributes\<close>

text \<open>Each enumeration of the code is the type of its names and the function that gives their values.\<close>

datatype KMemoryState_Flag =
  FlagCanReprotect | FlagCanDebug | FlagCanUseIpc | FlagCanUseNonDeviceIpc | FlagCanUseNonSecureIpc |
  FlagMapped | FlagCode | FlagCanAlias | FlagCanCodeAlias | FlagCanTransfer | FlagCanQueryPhysical |
  FlagCanDeviceMap | FlagCanAlignedDeviceMap | FlagCanIpcUserBuffer | FlagReferenceCounted |
  FlagCanMapProcess | FlagCanChangeAttribute | FlagCanCodeMemory

fun flag_value :: "KMemoryState_Flag \<Rightarrow> u32" where
  "flag_value FlagCanReprotect = push_bit 8 1"
| "flag_value FlagCanDebug = push_bit 9 1"
| "flag_value FlagCanUseIpc = push_bit 10 1"
| "flag_value FlagCanUseNonDeviceIpc = push_bit 11 1"
| "flag_value FlagCanUseNonSecureIpc = push_bit 12 1"
| "flag_value FlagMapped = push_bit 13 1"
| "flag_value FlagCode = push_bit 14 1"
| "flag_value FlagCanAlias = push_bit 15 1"
| "flag_value FlagCanCodeAlias = push_bit 16 1"
| "flag_value FlagCanTransfer = push_bit 17 1"
| "flag_value FlagCanQueryPhysical = push_bit 18 1"
| "flag_value FlagCanDeviceMap = push_bit 19 1"
| "flag_value FlagCanAlignedDeviceMap = push_bit 20 1"
| "flag_value FlagCanIpcUserBuffer = push_bit 21 1"
| "flag_value FlagReferenceCounted = push_bit 22 1"
| "flag_value FlagCanMapProcess = push_bit 23 1"
| "flag_value FlagCanChangeAttribute = push_bit 24 1"
| "flag_value FlagCanCodeMemory = push_bit 25 1"

definition FlagsData :: u32 where
  "FlagsData =
     flag_value FlagCanReprotect OR flag_value FlagCanUseIpc OR flag_value FlagCanUseNonDeviceIpc OR
     flag_value FlagCanUseNonSecureIpc OR flag_value FlagMapped OR flag_value FlagCanAlias OR
     flag_value FlagCanTransfer OR flag_value FlagCanQueryPhysical OR flag_value FlagCanDeviceMap OR
     flag_value FlagCanAlignedDeviceMap OR flag_value FlagCanIpcUserBuffer OR flag_value FlagReferenceCounted OR
     flag_value FlagCanChangeAttribute"

definition FlagsCode :: u32 where
  "FlagsCode =
     flag_value FlagCanDebug OR flag_value FlagCanUseIpc OR flag_value FlagCanUseNonDeviceIpc OR
     flag_value FlagCanUseNonSecureIpc OR flag_value FlagMapped OR flag_value FlagCode OR
     flag_value FlagCanQueryPhysical OR flag_value FlagCanDeviceMap OR flag_value FlagCanAlignedDeviceMap OR
     flag_value FlagReferenceCounted"

definition FlagsMisc :: u32 where
  "FlagsMisc =
     flag_value FlagMapped OR flag_value FlagReferenceCounted OR flag_value FlagCanQueryPhysical OR
     flag_value FlagCanDeviceMap"

text \<open>The low byte of a state is its \<^verbatim>\<open>svc::MemoryState\<close>.\<close>

datatype KMemoryState =
  KMemoryState_Free | KMemoryState_Io | KMemoryState_Static | KMemoryState_Code | KMemoryState_CodeData |
  KMemoryState_Normal | KMemoryState_Shared | KMemoryState_AliasCode | KMemoryState_AliasCodeData |
  KMemoryState_Ipc | KMemoryState_Stack | KMemoryState_ThreadLocal | KMemoryState_Transfered |
  KMemoryState_SharedTransfered | KMemoryState_SharedCode | KMemoryState_Inaccessible |
  KMemoryState_NonSecureIpc | KMemoryState_NonDeviceIpc | KMemoryState_Kernel | KMemoryState_GeneratedCode |
  KMemoryState_CodeOut | KMemoryState_Coverage

fun state_value :: "KMemoryState \<Rightarrow> u32" where
  "state_value KMemoryState_Free = 0x00"
| "state_value KMemoryState_Io = 0x01 OR flag_value FlagMapped"
| "state_value KMemoryState_Static = 0x02 OR flag_value FlagMapped OR flag_value FlagCanQueryPhysical"
| "state_value KMemoryState_Code = 0x03 OR FlagsCode OR flag_value FlagCanMapProcess"
| "state_value KMemoryState_CodeData = 0x04 OR FlagsData OR flag_value FlagCanMapProcess OR flag_value FlagCanCodeMemory"
| "state_value KMemoryState_Normal = 0x05 OR FlagsData OR flag_value FlagCanCodeMemory"
| "state_value KMemoryState_Shared = 0x06 OR flag_value FlagMapped OR flag_value FlagReferenceCounted"
| "state_value KMemoryState_AliasCode = 0x08 OR FlagsCode OR flag_value FlagCanMapProcess OR flag_value FlagCanCodeAlias"
| "state_value KMemoryState_AliasCodeData = 0x09 OR FlagsData OR flag_value FlagCanMapProcess OR flag_value FlagCanCodeAlias OR
     flag_value FlagCanCodeMemory"
| "state_value KMemoryState_Ipc = 0x0A OR FlagsMisc OR flag_value FlagCanAlignedDeviceMap OR flag_value FlagCanUseIpc OR
     flag_value FlagCanUseNonSecureIpc OR flag_value FlagCanUseNonDeviceIpc"
| "state_value KMemoryState_Stack = 0x0B OR FlagsMisc OR flag_value FlagCanAlignedDeviceMap OR flag_value FlagCanUseIpc OR
     flag_value FlagCanUseNonSecureIpc OR flag_value FlagCanUseNonDeviceIpc"
| "state_value KMemoryState_ThreadLocal = 0x0C OR flag_value FlagMapped OR flag_value FlagReferenceCounted"
| "state_value KMemoryState_Transfered = 0x0D OR FlagsMisc OR flag_value FlagCanAlignedDeviceMap OR
     flag_value FlagCanChangeAttribute OR flag_value FlagCanUseIpc OR
     flag_value FlagCanUseNonSecureIpc OR flag_value FlagCanUseNonDeviceIpc"
| "state_value KMemoryState_SharedTransfered = 0x0E OR FlagsMisc OR flag_value FlagCanAlignedDeviceMap OR
     flag_value FlagCanUseNonSecureIpc OR flag_value FlagCanUseNonDeviceIpc"
| "state_value KMemoryState_SharedCode = 0x0F OR flag_value FlagMapped OR flag_value FlagReferenceCounted OR
     flag_value FlagCanUseNonSecureIpc OR flag_value FlagCanUseNonDeviceIpc"
| "state_value KMemoryState_Inaccessible = 0x10"
| "state_value KMemoryState_NonSecureIpc = 0x11 OR FlagsMisc OR flag_value FlagCanAlignedDeviceMap OR
     flag_value FlagCanUseNonSecureIpc OR flag_value FlagCanUseNonDeviceIpc"
| "state_value KMemoryState_NonDeviceIpc = 0x12 OR FlagsMisc OR flag_value FlagCanUseNonDeviceIpc"
| "state_value KMemoryState_Kernel = 0x13 OR flag_value FlagMapped"
| "state_value KMemoryState_GeneratedCode = 0x14 OR flag_value FlagMapped OR flag_value FlagReferenceCounted OR
     flag_value FlagCanDebug"
| "state_value KMemoryState_CodeOut = 0x15 OR flag_value FlagMapped OR flag_value FlagReferenceCounted"
| "state_value KMemoryState_Coverage = 0x16 OR flag_value FlagMapped"

text \<open>The values that the static assertions of the header require.\<close>

lemma memory_state_values:
  "state_value KMemoryState_Free = 0x00000000"
  "state_value KMemoryState_Io = 0x00002001"
  "state_value KMemoryState_Static = 0x00042002"
  "state_value KMemoryState_Code = 0x00DC7E03"
  "state_value KMemoryState_CodeData = 0x03FEBD04"
  "state_value KMemoryState_Normal = 0x037EBD05"
  "state_value KMemoryState_Shared = 0x00402006"
  "state_value KMemoryState_AliasCode = 0x00DD7E08"
  "state_value KMemoryState_AliasCodeData = 0x03FFBD09"
  "state_value KMemoryState_Ipc = 0x005C3C0A"
  "state_value KMemoryState_Stack = 0x005C3C0B"
  "state_value KMemoryState_ThreadLocal = 0x0040200C"
  "state_value KMemoryState_Transfered = 0x015C3C0D"
  "state_value KMemoryState_SharedTransfered = 0x005C380E"
  "state_value KMemoryState_SharedCode = 0x0040380F"
  "state_value KMemoryState_Inaccessible = 0x00000010"
  "state_value KMemoryState_NonSecureIpc = 0x005C3811"
  "state_value KMemoryState_NonDeviceIpc = 0x004C2812"
  "state_value KMemoryState_Kernel = 0x00002013"
  "state_value KMemoryState_GeneratedCode = 0x00402214"
  "state_value KMemoryState_CodeOut = 0x00402015"
  "state_value KMemoryState_Coverage = 0x00002016"
  by (simp_all add: FlagsData_def FlagsCode_def FlagsMisc_def)

text \<open>Permissions: the user bits are those of \<^verbatim>\<open>svc::MemoryPermission\<close>, the kernel's are shifted by three.\<close>

datatype KMemoryPermission =
  KMemoryPermission_None | KMemoryPermission_KernelRead | KMemoryPermission_KernelWrite |
  KMemoryPermission_KernelExecute | KMemoryPermission_NotMapped | KMemoryPermission_KernelReadWrite |
  KMemoryPermission_KernelReadExecute | KMemoryPermission_UserRead | KMemoryPermission_UserWrite |
  KMemoryPermission_UserExecute | KMemoryPermission_UserReadWrite | KMemoryPermission_UserReadExecute |
  KMemoryPermission_UserMask | KMemoryPermission_IpcLockChangeMask

fun permission_value :: "KMemoryPermission \<Rightarrow> u8" where
  "permission_value KMemoryPermission_None = 0"
| "permission_value KMemoryPermission_KernelRead = push_bit 3 1"
| "permission_value KMemoryPermission_KernelWrite = push_bit 3 2"
| "permission_value KMemoryPermission_KernelExecute = push_bit 3 4"
| "permission_value KMemoryPermission_NotMapped = push_bit (2 * 3) 1"
| "permission_value KMemoryPermission_KernelReadWrite = push_bit 3 1 OR push_bit 3 2"
| "permission_value KMemoryPermission_KernelReadExecute = push_bit 3 1 OR push_bit 3 4"
| "permission_value KMemoryPermission_UserRead = 1 OR push_bit 3 1"
| "permission_value KMemoryPermission_UserWrite = 2 OR push_bit 3 2"
| "permission_value KMemoryPermission_UserExecute = 4"
| "permission_value KMemoryPermission_UserReadWrite = (1 OR push_bit 3 1) OR (2 OR push_bit 3 2)"
| "permission_value KMemoryPermission_UserReadExecute = (1 OR push_bit 3 1) OR 4"
| "permission_value KMemoryPermission_UserMask = 1 OR 2 OR 4"
| "permission_value KMemoryPermission_IpcLockChangeMask = push_bit (2 * 3) 1 OR ((1 OR push_bit 3 1) OR (2 OR push_bit 3 2))"

text \<open>The argument is the \<^verbatim>\<open>svc::MemoryPermission\<close> of a request, of which the code takes the low byte.\<close>

definition ConvertToKMemoryPermission :: "u32 \<Rightarrow> u8" where
  "ConvertToKMemoryPermission perm =
     ucast ((perm AND ucast (permission_value KMemoryPermission_UserMask)) OR ucast (permission_value KMemoryPermission_KernelRead) OR
            push_bit 3 (perm AND ucast (permission_value KMemoryPermission_UserWrite)) OR
            ucast (if perm = 0 then permission_value KMemoryPermission_NotMapped else permission_value KMemoryPermission_None))"

datatype KMemoryAttribute =
  KMemoryAttribute_None | KMemoryAttribute_Locked | KMemoryAttribute_IpcLocked |
  KMemoryAttribute_DeviceShared | KMemoryAttribute_Uncached

fun attribute_value :: "KMemoryAttribute \<Rightarrow> u8" where
  "attribute_value KMemoryAttribute_None = 0"
| "attribute_value KMemoryAttribute_Locked = push_bit 0 1"
| "attribute_value KMemoryAttribute_IpcLocked = push_bit 1 1"
| "attribute_value KMemoryAttribute_DeviceShared = push_bit 2 1"
| "attribute_value KMemoryAttribute_Uncached = push_bit 3 1"

datatype KMemoryBlockDisableMergeAttribute =
  DisableMerge_None | DisableMerge_Normal | DisableMerge_DeviceLeft | DisableMerge_IpcLeft |
  DisableMerge_Locked | DisableMerge_DeviceRight | DisableMerge_AllLeft | DisableMerge_AllRight

fun disable_merge_value :: "KMemoryBlockDisableMergeAttribute \<Rightarrow> u8" where
  "disable_merge_value DisableMerge_None = 0"
| "disable_merge_value DisableMerge_Normal = push_bit 0 1"
| "disable_merge_value DisableMerge_DeviceLeft = push_bit 1 1"
| "disable_merge_value DisableMerge_IpcLeft = push_bit 2 1"
| "disable_merge_value DisableMerge_Locked = push_bit 3 1"
| "disable_merge_value DisableMerge_DeviceRight = push_bit 4 1"
| "disable_merge_value DisableMerge_AllLeft = push_bit 0 1 OR push_bit 1 1 OR push_bit 2 1 OR push_bit 3 1"
| "disable_merge_value DisableMerge_AllRight = push_bit 4 1"

declare flag_value.simps [simp del] state_value.simps [simp del] permission_value.simps [simp del] attribute_value.simps [simp del] disable_merge_value.simps [simp del]

lemmas enumerator_values = memory_state_values permission_value.simps attribute_value.simps disable_merge_value.simps

section \<open>What a block reports\<close>

record svc_MemoryInfo =
  svc_base_address :: nat
  svc_size :: nat
  svc_state :: u32
  svc_attribute :: u32
  svc_permission :: u32
  svc_ipc_count :: u32
  svc_device_count :: u32

record KMemoryInfo =
  info_address :: nat
  info_size :: nat
  info_state :: u32
  info_device_disable_merge_left_count :: u16
  info_device_disable_merge_right_count :: u16
  info_ipc_lock_count :: u16
  info_device_use_count :: u16
  info_ipc_disable_merge_count :: u16
  info_permission :: u8
  info_attribute :: u8
  info_original_permission :: u8
  info_disable_merge_attribute :: u8

definition GetSvcMemoryInfo :: "KMemoryInfo \<Rightarrow> svc_MemoryInfo" where
  "GetSvcMemoryInfo i =
     \<lparr>svc_base_address = info_address i, svc_size = info_size i, svc_state = info_state i AND 0xFF,
      svc_attribute = ucast (info_attribute i AND 0xFF),
      svc_permission = ucast (info_permission i AND permission_value KMemoryPermission_UserMask),
      svc_ipc_count = ucast (info_ipc_lock_count i), svc_device_count = ucast (info_device_use_count i)\<rparr>"

definition info_end :: "KMemoryInfo \<Rightarrow> nat" where
  "info_end i = info_address i + info_size i"

definition info_last :: "KMemoryInfo \<Rightarrow> nat" where
  "info_last i = info_end i - 1"

section \<open>Blocks\<close>

record KMemoryBlock =
  m_device_disable_merge_left_count :: u16
  m_device_disable_merge_right_count :: u16
  m_address :: nat
  m_num_pages :: nat
  m_memory_state :: u32
  m_ipc_lock_count :: u16
  m_device_use_count :: u16
  m_ipc_disable_merge_count :: u16
  m_permission :: u8
  m_original_permission :: u8
  m_attribute :: u8
  m_disable_merge_attribute :: u8

definition KMemoryBlock_GetSize :: "KMemoryBlock \<Rightarrow> nat" where
  "KMemoryBlock_GetSize b = m_num_pages b * PageSize"

definition KMemoryBlock_GetEndAddress :: "KMemoryBlock \<Rightarrow> nat" where
  "KMemoryBlock_GetEndAddress b = m_address b + KMemoryBlock_GetSize b"

definition KMemoryBlock_GetLastAddress :: "KMemoryBlock \<Rightarrow> nat" where
  "KMemoryBlock_GetLastAddress b = KMemoryBlock_GetEndAddress b - 1"

definition KMemoryBlock_Compare :: "KMemoryBlock \<Rightarrow> KMemoryBlock \<Rightarrow> int" where
  "KMemoryBlock_Compare lhs rhs =
     (if m_address lhs < m_address rhs then -1
      else if m_address lhs \<le> KMemoryBlock_GetLastAddress rhs then 0 else 1)"

definition GetMemoryInfo :: "KMemoryBlock \<Rightarrow> KMemoryInfo" where
  "GetMemoryInfo b =
     \<lparr>info_address = m_address b, info_size = KMemoryBlock_GetSize b, info_state = m_memory_state b,
      info_device_disable_merge_left_count = m_device_disable_merge_left_count b,
      info_device_disable_merge_right_count = m_device_disable_merge_right_count b,
      info_ipc_lock_count = m_ipc_lock_count b, info_device_use_count = m_device_use_count b,
      info_ipc_disable_merge_count = m_ipc_disable_merge_count b, info_permission = m_permission b,
      info_attribute = m_attribute b, info_original_permission = m_original_permission b,
      info_disable_merge_attribute = m_disable_merge_attribute b\<rparr>"

text \<open>The constant initializer; all counts are zero.\<close>

definition KMemoryBlock_ConstantInitialize :: "nat \<Rightarrow> nat \<Rightarrow> u32 \<Rightarrow> u8 \<Rightarrow> u8 \<Rightarrow> KMemoryBlock" where
  "KMemoryBlock_ConstantInitialize addr np ms p attr =
     \<lparr>m_device_disable_merge_left_count = 0, m_device_disable_merge_right_count = 0, m_address = addr,
      m_num_pages = np, m_memory_state = ms, m_ipc_lock_count = 0, m_device_use_count = 0,
      m_ipc_disable_merge_count = 0, m_permission = p, m_original_permission = permission_value KMemoryPermission_None,
      m_attribute = attr, m_disable_merge_attribute = 0\<rparr>"

text \<open>\<^verbatim>\<open>Initialize\<close> writes all fields of a constructed block but \<^verbatim>\<open>m_ipc_disable_merge_count\<close>.\<close>

definition KMemoryBlock_Initialize :: "nat \<Rightarrow> nat \<Rightarrow> u32 \<Rightarrow> u8 \<Rightarrow> u8 \<Rightarrow> KMemoryBlock \<Rightarrow> KMemoryBlock" where
  "KMemoryBlock_Initialize addr np ms p attr b =
     b\<lparr>m_device_disable_merge_left_count := 0, m_device_disable_merge_right_count := 0, m_address := addr,
       m_num_pages := np, m_memory_state := ms, m_ipc_lock_count := 0, m_device_use_count := 0, m_permission := p,
       m_original_permission := permission_value KMemoryPermission_None, m_attribute := attr, m_disable_merge_attribute := 0\<rparr>"

definition HasProperties :: "u32 \<Rightarrow> u8 \<Rightarrow> u8 \<Rightarrow> KMemoryBlock \<Rightarrow> bool" where
  "HasProperties s p a b \<longleftrightarrow>
     (let AttributeIgnoreMask = attribute_value KMemoryAttribute_IpcLocked OR attribute_value KMemoryAttribute_DeviceShared
      in m_memory_state b = s \<and> m_permission b = p \<and>
         m_attribute b OR AttributeIgnoreMask = a OR AttributeIgnoreMask)"

definition HasSameProperties :: "KMemoryBlock \<Rightarrow> KMemoryBlock \<Rightarrow> bool" where
  "HasSameProperties b rhs \<longleftrightarrow>
     m_memory_state b = m_memory_state rhs \<and> m_permission b = m_permission rhs \<and>
     m_original_permission b = m_original_permission rhs \<and> m_attribute b = m_attribute rhs \<and>
     m_ipc_lock_count b = m_ipc_lock_count rhs \<and> m_device_use_count b = m_device_use_count rhs"

definition CanMergeWith :: "KMemoryBlock \<Rightarrow> KMemoryBlock \<Rightarrow> bool" where
  "CanMergeWith b rhs \<longleftrightarrow>
     HasSameProperties b rhs \<and> m_disable_merge_attribute b AND disable_merge_value DisableMerge_AllRight = 0 \<and>
     m_disable_merge_attribute rhs AND disable_merge_value DisableMerge_AllLeft = 0"

definition KMemoryBlock_Add :: "KMemoryBlock \<Rightarrow> KMemoryBlock \<Rightarrow> KMemoryBlock" where
  "KMemoryBlock_Add added_block b =
     b\<lparr>m_num_pages := m_num_pages b + m_num_pages added_block,
       m_disable_merge_attribute := m_disable_merge_attribute b OR m_disable_merge_attribute added_block,
       m_device_disable_merge_right_count := m_device_disable_merge_right_count added_block\<rparr>"

definition KMemoryBlock_Update :: "u32 \<Rightarrow> u8 \<Rightarrow> u8 \<Rightarrow> bool \<Rightarrow> u8 \<Rightarrow> u8 \<Rightarrow> KMemoryBlock \<Rightarrow> KMemoryBlock" where
  "KMemoryBlock_Update s p a set_disable_merge_attr set_mask clear_mask b =
     (let b = b\<lparr>m_memory_state := s, m_permission := p,
                m_attribute := a OR (m_attribute b AND (attribute_value KMemoryAttribute_IpcLocked OR attribute_value KMemoryAttribute_DeviceShared))\<rparr>;
          b = (if set_disable_merge_attr \<and> set_mask \<noteq> 0
               then b\<lparr>m_disable_merge_attribute := m_disable_merge_attribute b OR set_mask\<rparr> else b)
      in if clear_mask \<noteq> 0
         then b\<lparr>m_disable_merge_attribute := m_disable_merge_attribute b AND NOT clear_mask\<rparr> else b)"

text \<open>\<^verbatim>\<open>Split\<close> cuts the pages below \<open>addr\<close> off into another block, which is first of the pair.\<close>

definition KMemoryBlock_Split :: "nat \<Rightarrow> KMemoryBlock \<Rightarrow> KMemoryBlock \<times> KMemoryBlock" where
  "KMemoryBlock_Split addr b =
     (let block =
        \<lparr>m_device_disable_merge_left_count = m_device_disable_merge_left_count b,
         m_device_disable_merge_right_count = 0, m_address = m_address b,
         m_num_pages = (addr - m_address b) div PageSize, m_memory_state = m_memory_state b,
         m_ipc_lock_count = m_ipc_lock_count b, m_device_use_count = m_device_use_count b,
         m_ipc_disable_merge_count = m_ipc_disable_merge_count b, m_permission = m_permission b,
         m_original_permission = m_original_permission b, m_attribute = m_attribute b,
         m_disable_merge_attribute = m_disable_merge_attribute b AND disable_merge_value DisableMerge_AllLeft\<rparr>
      in (block,
          b\<lparr>m_address := addr, m_num_pages := m_num_pages b - m_num_pages block, m_ipc_disable_merge_count := 0,
            m_device_disable_merge_left_count := 0,
            m_disable_merge_attribute := m_disable_merge_attribute b AND disable_merge_value DisableMerge_AllRight\<rparr>))"

section \<open>Sharing with devices and locking for messages\<close>

text \<open>The operations that \<^verbatim>\<open>UpdateLock\<close> takes: a permission, and whether the block is the first and the last
  of the range.\<close>

type_synonym lock_func = "u8 \<Rightarrow> bool \<Rightarrow> bool \<Rightarrow> KMemoryBlock \<Rightarrow> KMemoryBlock option"

definition UpdateDeviceDisableMergeStateForShareLeft :: lock_func where
  "UpdateDeviceDisableMergeStateForShareLeft new_perm left right b =
     (if left then
        (let b = b\<lparr>m_disable_merge_attribute := m_disable_merge_attribute b OR disable_merge_value DisableMerge_DeviceLeft,
                   m_device_disable_merge_left_count := m_device_disable_merge_left_count b + 1\<rparr>
         in if m_device_disable_merge_left_count b > 0 then Some b else None)
      else Some b)"

definition UpdateDeviceDisableMergeStateForShareRight :: lock_func where
  "UpdateDeviceDisableMergeStateForShareRight new_perm left right b =
     (if right then
        (let b = b\<lparr>m_disable_merge_attribute := m_disable_merge_attribute b OR disable_merge_value DisableMerge_DeviceRight,
                   m_device_disable_merge_right_count := m_device_disable_merge_right_count b + 1\<rparr>
         in if m_device_disable_merge_right_count b > 0 then Some b else None)
      else Some b)"

definition UpdateDeviceDisableMergeStateForShare :: lock_func where
  "UpdateDeviceDisableMergeStateForShare new_perm left right b = do {
     b \<leftarrow> UpdateDeviceDisableMergeStateForShareLeft new_perm left right b;
     UpdateDeviceDisableMergeStateForShareRight new_perm left right b }"

definition ShareToDevice :: lock_func where
  "ShareToDevice new_perm left right b =
     (let b = b\<lparr>m_device_use_count := m_device_use_count b + 1\<rparr>
      in if m_device_use_count b > 0
         then UpdateDeviceDisableMergeStateForShare new_perm left right
                (b\<lparr>m_attribute := m_attribute b OR attribute_value KMemoryAttribute_DeviceShared\<rparr>)
         else None)"

definition UpdateDeviceDisableMergeStateForUnshareLeft :: "u8 \<Rightarrow> bool \<Rightarrow> bool \<Rightarrow> KMemoryBlock \<Rightarrow> KMemoryBlock" where
  "UpdateDeviceDisableMergeStateForUnshareLeft new_perm left right b =
     (if left \<and> m_device_disable_merge_left_count b = 0 then b
      else
        (let b = (if left then b\<lparr>m_device_disable_merge_left_count := m_device_disable_merge_left_count b - 1\<rparr> else b);
             b = b\<lparr>m_device_disable_merge_left_count := min (m_device_disable_merge_left_count b) (m_device_use_count b)\<rparr>
         in if m_device_disable_merge_left_count b = 0
            then b\<lparr>m_disable_merge_attribute := m_disable_merge_attribute b AND NOT (disable_merge_value DisableMerge_DeviceLeft)\<rparr>
            else b))"

definition UpdateDeviceDisableMergeStateForUnshareRight :: "u8 \<Rightarrow> bool \<Rightarrow> bool \<Rightarrow> KMemoryBlock \<Rightarrow> KMemoryBlock" where
  "UpdateDeviceDisableMergeStateForUnshareRight new_perm left right b =
     (if right then
        (let old_device_disable_merge_right_count = m_device_disable_merge_right_count b;
             b = b\<lparr>m_device_disable_merge_right_count := m_device_disable_merge_right_count b - 1\<rparr>
         in if old_device_disable_merge_right_count = 1
            then b\<lparr>m_disable_merge_attribute := m_disable_merge_attribute b AND NOT (disable_merge_value DisableMerge_DeviceRight)\<rparr>
            else b)
      else b)"

definition UpdateDeviceDisableMergeStateForUnshare :: lock_func where
  "UpdateDeviceDisableMergeStateForUnshare new_perm left right b =
     Some (UpdateDeviceDisableMergeStateForUnshareRight new_perm left right
       (UpdateDeviceDisableMergeStateForUnshareLeft new_perm left right b))"

definition UnshareToDevice :: lock_func where
  "UnshareToDevice new_perm left right b =
     (let old_count = m_device_use_count b;
          b = b\<lparr>m_device_use_count := m_device_use_count b - 1\<rparr>
      in if old_count > 0
         then (let b = (if old_count = 1 then b\<lparr>m_attribute := m_attribute b AND NOT (attribute_value KMemoryAttribute_DeviceShared)\<rparr> else b)
               in UpdateDeviceDisableMergeStateForUnshare new_perm left right b)
         else None)"

definition UnshareToDeviceRight :: lock_func where
  "UnshareToDeviceRight new_perm left right b =
     (let old_count = m_device_use_count b;
          b = b\<lparr>m_device_use_count := m_device_use_count b - 1\<rparr>
      in if old_count > 0
         then (let b = (if old_count = 1 then b\<lparr>m_attribute := m_attribute b AND NOT (attribute_value KMemoryAttribute_DeviceShared)\<rparr> else b)
               in Some (UpdateDeviceDisableMergeStateForUnshareRight new_perm left right b))
         else None)"

definition LockForIpc :: lock_func where
  "LockForIpc new_perm left right b =
     (let b = b\<lparr>m_ipc_lock_count := m_ipc_lock_count b + 1\<rparr>; new_lock_count = m_ipc_lock_count b
      in if new_lock_count > 0
         then
           (let b = (if new_lock_count = 1
                     then b\<lparr>m_original_permission := m_permission b,
                            m_permission := (new_perm AND permission_value KMemoryPermission_IpcLockChangeMask) OR
                                            (m_permission b AND NOT (permission_value KMemoryPermission_IpcLockChangeMask))\<rparr>
                     else b);
                b = b\<lparr>m_attribute := m_attribute b OR attribute_value KMemoryAttribute_IpcLocked\<rparr>
            in if left
               then (let b = b\<lparr>m_disable_merge_attribute := m_disable_merge_attribute b OR disable_merge_value DisableMerge_IpcLeft,
                               m_ipc_disable_merge_count := m_ipc_disable_merge_count b + 1\<rparr>
                     in if m_ipc_disable_merge_count b > 0 then Some b else None)
               else Some b)
         else None)"

definition UnlockForIpc :: lock_func where
  "UnlockForIpc new_perm left right b =
     (let old_lock_count = m_ipc_lock_count b; b = b\<lparr>m_ipc_lock_count := m_ipc_lock_count b - 1\<rparr>
      in if old_lock_count > 0
         then
           (let b = (if old_lock_count = 1
                     then b\<lparr>m_permission := m_original_permission b, m_original_permission := permission_value KMemoryPermission_None,
                            m_attribute := m_attribute b AND NOT (attribute_value KMemoryAttribute_IpcLocked)\<rparr>
                     else b)
            in if left
               then (let old_ipc_disable_merge_count = m_ipc_disable_merge_count b;
                         b = b\<lparr>m_ipc_disable_merge_count := m_ipc_disable_merge_count b - 1\<rparr>
                     in if old_ipc_disable_merge_count = 1
                        then Some (b\<lparr>m_disable_merge_attribute := m_disable_merge_attribute b AND NOT (disable_merge_value DisableMerge_IpcLeft)\<rparr>)
                        else Some b)
               else Some b)
         else None)"

end
