(* ===== verification/Kern_MemoryBlockManager.thy ===== *)
theory Kern_MemoryBlockManager
  imports Kern_MemoryBlock
begin

text \<open>
  The memory block manager (\<^verbatim>\<open>KMemoryBlockManager\<close>, \<^verbatim>\<open>kern_k_memory_block_manager.hpp\<close> and
  \<^verbatim>\<open>kern_k_memory_block_manager.cpp\<close>): the address space of a process as a sequence of blocks in an intrusive
  tree ordered by address. The tree is the list of its nodes in order, each with the address of the
  \<^verbatim>\<open>KMemoryBlock\<close> it is; an iterator is a position, the nodes before it and the nodes from it on. The slab of
  blocks is the pair of functions \<open>alloc\<close> and \<open>free\<close> on its state, and \<open>alloc\<close> returns \<open>0\<close> when it is empty.
  An abort, or an iterator used at the end of the tree, is \<^const>\<open>None\<close>.
\<close>

section \<open>The allocator of an update\<close>

definition MaxBlocks :: nat where
  "MaxBlocks = 2"

record 's UpdateAllocator =
  m_blocks :: "nat list"
  m_index :: nat
  m_slab_manager :: 's

datatype block_error = ResultOutOfResource

fun UpdateAllocator_fill ::
  "('s \<Rightarrow> nat \<times> 's) \<Rightarrow> nat \<Rightarrow> nat \<Rightarrow> 's UpdateAllocator \<Rightarrow> (block_error + unit) \<times> 's UpdateAllocator" where
  "UpdateAllocator_fill alloc 0 i a = (Inr (), a)"
| "UpdateAllocator_fill alloc (Suc n) i a =
     (if i < MaxBlocks
      then
        (let (block, s) = alloc (m_slab_manager a);
             a = a\<lparr>m_blocks := (m_blocks a)[m_index a + i := block], m_slab_manager := s\<rparr>
         in if block \<noteq> 0 then UpdateAllocator_fill alloc n (Suc i) a else (Inl ResultOutOfResource, a))
      else (Inr (), a))"

text \<open>The constructor; at most \<^const>\<open>MaxBlocks\<close> blocks may be asked for.\<close>

definition UpdateAllocator_Initialize ::
  "('s \<Rightarrow> nat \<times> 's) \<Rightarrow> nat \<Rightarrow> 's \<Rightarrow> (block_error + unit) \<times> 's UpdateAllocator" where
  "UpdateAllocator_Initialize alloc num_blocks sm =
     UpdateAllocator_fill alloc num_blocks 0
       \<lparr>m_blocks = replicate MaxBlocks 0, m_index = MaxBlocks - num_blocks, m_slab_manager = sm\<rparr>"

definition UpdateAllocator_destroy :: "(nat \<Rightarrow> 's \<Rightarrow> 's) \<Rightarrow> 's UpdateAllocator \<Rightarrow> 's" where
  "UpdateAllocator_destroy free a =
     fold (\<lambda>block s. if block \<noteq> 0 then free block s else s) (m_blocks a) (m_slab_manager a)"

definition UpdateAllocator_Allocate :: "'s UpdateAllocator \<Rightarrow> (nat \<times> 's UpdateAllocator) option" where
  "UpdateAllocator_Allocate a =
     (if m_index a < MaxBlocks \<and> m_blocks a ! m_index a \<noteq> 0
      then Some (m_blocks a ! m_index a, a\<lparr>m_blocks := (m_blocks a)[m_index a := 0], m_index := m_index a + 1\<rparr>)
      else None)"

definition UpdateAllocator_Free :: "(nat \<Rightarrow> 's \<Rightarrow> 's) \<Rightarrow> nat \<Rightarrow> 's UpdateAllocator \<Rightarrow> 's UpdateAllocator option" where
  "UpdateAllocator_Free free block a =
     (if m_index a \<le> MaxBlocks \<and> block \<noteq> 0
      then
        (if m_index a = 0 then Some (a\<lparr>m_slab_manager := free block (m_slab_manager a)\<rparr>)
         else Some (a\<lparr>m_index := m_index a - 1, m_blocks := (m_blocks a)[m_index a - 1 := block]\<rparr>))
      else None)"

section \<open>The tree\<close>

type_synonym block_nodes = "(nat \<times> KMemoryBlock) list"

record KMemoryBlockManager =
  m_memory_block_tree :: block_nodes
  m_start_address :: nat
  m_end_address :: nat

text \<open>The position of the node that compares equal, or the end.\<close>

definition tree_find :: "KMemoryBlock \<Rightarrow> block_nodes \<Rightarrow> block_nodes \<times> block_nodes" where
  "tree_find key nodes =
     (takeWhile (\<lambda>(_, b). KMemoryBlock_Compare key b \<noteq> 0) nodes,
      dropWhile (\<lambda>(_, b). KMemoryBlock_Compare key b \<noteq> 0) nodes)"

text \<open>Insertion at the place the comparison gives, with the iterator to the new node. A node that compares
  equal keeps the new one out of the tree, and the iterator is then of no use.\<close>

definition insert_block :: "nat \<times> KMemoryBlock \<Rightarrow> block_nodes \<Rightarrow> (block_nodes \<times> block_nodes) option" where
  "insert_block x nodes =
     (let pre = takeWhile (\<lambda>(_, b). KMemoryBlock_Compare (snd x) b > 0) nodes;
          suf = dropWhile (\<lambda>(_, b). KMemoryBlock_Compare (snd x) b > 0) nodes
      in if suf \<noteq> [] \<and> KMemoryBlock_Compare (snd x) (snd (hd suf)) = 0 then None else Some (pre, x # suf))"

definition FindIterator :: "nat \<Rightarrow> block_nodes \<Rightarrow> block_nodes \<times> block_nodes" where
  "FindIterator address nodes =
     tree_find (KMemoryBlock_ConstantInitialize address 1 (state_value KMemoryState_Free) (permission_value KMemoryPermission_None) (attribute_value KMemoryAttribute_None)) nodes"

definition FindBlock :: "nat \<Rightarrow> KMemoryBlockManager \<Rightarrow> (nat \<times> KMemoryBlock) option" where
  "FindBlock address m =
     (case snd (FindIterator address (m_memory_block_tree m)) of [] \<Rightarrow> None | x # _ \<Rightarrow> Some x)"

text \<open>The slab hands out a constructed block, of which no field has been written: \<open>raw\<close>.\<close>

definition KMemoryBlockManager_Initialize ::
  "('s \<Rightarrow> nat \<times> 's) \<Rightarrow> KMemoryBlock \<Rightarrow> nat \<Rightarrow> nat \<Rightarrow> KMemoryBlockManager \<Rightarrow> 's \<Rightarrow>
   (block_error + unit) \<times> KMemoryBlockManager \<times> 's" where
  "KMemoryBlockManager_Initialize alloc raw st nd m s =
     (let (start_block, s) = alloc s
      in if start_block \<noteq> 0
         then
           (let m = m\<lparr>m_start_address := st, m_end_address := nd\<rparr>;
                b = KMemoryBlock_Initialize (m_start_address m) ((m_end_address m - m_start_address m) div PageSize)
                      (state_value KMemoryState_Free) (permission_value KMemoryPermission_None) (attribute_value KMemoryAttribute_None) raw;
                nodes = (case insert_block (start_block, b) (m_memory_block_tree m) of
                           Some (pre, suf) \<Rightarrow> pre @ suf
                         | None \<Rightarrow> m_memory_block_tree m)
            in (Inr (), m\<lparr>m_memory_block_tree := nodes\<rparr>, s))
         else (Inl ResultOutOfResource, m, s))"

fun Finalize_loop :: "(nat \<Rightarrow> 's \<Rightarrow> 's) \<Rightarrow> block_nodes \<Rightarrow> 's \<Rightarrow> block_nodes \<times> 's" where
  "Finalize_loop free [] s = ([], s)"
| "Finalize_loop free ((node, _) # rest) s = Finalize_loop free rest (free node s)"

definition KMemoryBlockManager_Finalize ::
  "(nat \<Rightarrow> 's \<Rightarrow> 's) \<Rightarrow> KMemoryBlockManager \<Rightarrow> 's \<Rightarrow> KMemoryBlockManager \<times> 's" where
  "KMemoryBlockManager_Finalize free m s =
     (let (nodes, s) = Finalize_loop free (m_memory_block_tree m) s in (m\<lparr>m_memory_block_tree := nodes\<rparr>, s))"

section \<open>Searching for free space\<close>

text \<open>Sums of addresses are taken modulo \<open>2 ^ 64\<close>.\<close>

definition wrap64 :: "nat \<Rightarrow> nat" where
  "wrap64 x = x mod 2 ^ 64"

definition free_area_in :: "nat \<Rightarrow> nat \<Rightarrow> nat \<Rightarrow> nat \<Rightarrow> nat \<Rightarrow> nat \<Rightarrow> KMemoryInfo \<Rightarrow> nat option" where
  "free_area_in region_start region_last num_pages alignment offset guard_pages info =
     (let area = (if info_address info \<le> region_start then region_start else info_address info);
          area = wrap64 (area + guard_pages * PageSize);
          offset_area = wrap64 (AlignDown area alignment + offset);
          area = (if area \<le> offset_area then offset_area else wrap64 (offset_area + alignment));
          area_end = wrap64 (area + num_pages * PageSize + guard_pages * PageSize);
          area_last = wrap64 (area_end + (2 ^ 64 - 1))
      in if info_address info \<le> area \<and> area < area_last \<and> area_last \<le> region_last \<and> area_last \<le> info_last info
         then Some area else None)"

fun FindFreeArea_loop :: "nat \<Rightarrow> nat \<Rightarrow> nat \<Rightarrow> nat \<Rightarrow> nat \<Rightarrow> nat \<Rightarrow> block_nodes \<Rightarrow> nat" where
  "FindFreeArea_loop region_start region_last num_pages alignment offset guard_pages [] = 0"
| "FindFreeArea_loop region_start region_last num_pages alignment offset guard_pages ((_, b) # rest) =
     (let info = GetMemoryInfo b
      in if region_last < info_address info then 0
         else if info_state info \<noteq> state_value KMemoryState_Free
         then FindFreeArea_loop region_start region_last num_pages alignment offset guard_pages rest
         else
           (case free_area_in region_start region_last num_pages alignment offset guard_pages info of
              Some area \<Rightarrow> area
            | None \<Rightarrow> FindFreeArea_loop region_start region_last num_pages alignment offset guard_pages rest))"

definition FindFreeArea :: "nat \<Rightarrow> nat \<Rightarrow> nat \<Rightarrow> nat \<Rightarrow> nat \<Rightarrow> nat \<Rightarrow> KMemoryBlockManager \<Rightarrow> nat" where
  "FindFreeArea region_start region_num_pages num_pages alignment offset guard_pages m =
     (if num_pages > 0
      then
        (let region_end = wrap64 (region_start + region_num_pages * PageSize);
             region_last = wrap64 (region_end + (2 ^ 64 - 1))
         in FindFreeArea_loop region_start region_last num_pages alignment offset guard_pages
              (snd (FindIterator region_start (m_memory_block_tree m))))
      else 0)"

section \<open>Updating a range\<close>

fun coalesce_loop ::
  "(nat \<Rightarrow> 's \<Rightarrow> 's) \<Rightarrow> nat \<Rightarrow> block_nodes \<Rightarrow> block_nodes \<Rightarrow> 's UpdateAllocator \<Rightarrow>
   (block_nodes \<times> 's UpdateAllocator) option" where
  "coalesce_loop free stop pre [] a = None"
| "coalesce_loop free stop pre [x] a = Some (pre @ [x], a)"
| "coalesce_loop free stop pre ((node, prev) # (block, it) # rest) a =
     (if CanMergeWith prev it
      then
        (let prev = KMemoryBlock_Add it prev
         in do {
           a \<leftarrow> UpdateAllocator_Free free block a;
           if stop < info_end (GetMemoryInfo prev) then Some (pre @ (node, prev) # rest, a)
           else coalesce_loop free stop pre ((node, prev) # rest) a })
      else if stop < info_end (GetMemoryInfo it) then Some (pre @ (node, prev) # (block, it) # rest, a)
      else coalesce_loop free stop (pre @ [(node, prev)]) ((block, it) # rest) a)"

definition CoalesceForUpdate ::
  "(nat \<Rightarrow> 's \<Rightarrow> 's) \<Rightarrow> nat \<Rightarrow> nat \<Rightarrow> KMemoryBlockManager \<Rightarrow> 's UpdateAllocator \<Rightarrow>
   (KMemoryBlockManager \<times> 's UpdateAllocator) option" where
  "CoalesceForUpdate free address num_pages m a = do {
     let (pre, suf) = FindIterator address (m_memory_block_tree m);
     (pre, suf) \<leftarrow> (if address \<noteq> m_start_address m
                     then (if pre = [] then None else Some (butlast pre, last pre # suf)) else Some (pre, suf));
     (nodes, a) \<leftarrow> coalesce_loop free (address + num_pages * PageSize) pre suf a;
     Some (m\<lparr>m_memory_block_tree := nodes\<rparr>, a) }"

text \<open>
  The three updates walk over the range with the same loop. They differ in the test whether a block is
  to be changed (\<open>change\<close>) and in the change (\<open>upd\<close>, given the current address). \<open>split_before\<close> and
  \<open>split_after\<close> are the two insertions of the loop; each returns the nodes before the current one, the
  current node, and the nodes after it.
\<close>

definition split_before ::
  "nat \<Rightarrow> block_nodes \<Rightarrow> nat \<times> KMemoryBlock \<Rightarrow> block_nodes \<Rightarrow> 's UpdateAllocator \<Rightarrow>
   (block_nodes \<times> (nat \<times> KMemoryBlock) \<times> block_nodes \<times> 's UpdateAllocator) option" where
  "split_before cur_address pre it rest a =
     (if info_address (GetMemoryInfo (snd it)) \<noteq> cur_address
      then do {
        (new_block, a) \<leftarrow> UpdateAllocator_Allocate a;
        let (low, high) = KMemoryBlock_Split cur_address (snd it);
        (pre, suf) \<leftarrow> insert_block (new_block, low) (pre @ (fst it, high) # rest);
        (case suf of
           x # it # rest \<Rightarrow> Some (pre @ [x], it, rest, a)
         | _ \<Rightarrow> None) }
      else Some (pre, it, rest, a))"

definition split_after ::
  "nat \<Rightarrow> nat \<Rightarrow> block_nodes \<Rightarrow> nat \<times> KMemoryBlock \<Rightarrow> block_nodes \<Rightarrow> 's UpdateAllocator \<Rightarrow>
   (block_nodes \<times> (nat \<times> KMemoryBlock) \<times> block_nodes \<times> 's UpdateAllocator) option" where
  "split_after cur_address remaining_size pre it rest a =
     (if info_size (GetMemoryInfo (snd it)) > remaining_size
      then do {
        (new_block, a) \<leftarrow> UpdateAllocator_Allocate a;
        let (low, high) = KMemoryBlock_Split (cur_address + remaining_size) (snd it);
        (pre, suf) \<leftarrow> insert_block (new_block, low) (pre @ (fst it, high) # rest);
        (case suf of
           it # rest \<Rightarrow> Some (pre, it, rest, a)
         | [] \<Rightarrow> None) }
      else Some (pre, it, rest, a))"

partial_function (option) update_loop ::
  "(KMemoryBlock \<Rightarrow> bool) \<Rightarrow> (nat \<Rightarrow> KMemoryBlock \<Rightarrow> KMemoryBlock option) \<Rightarrow> nat \<Rightarrow> nat \<Rightarrow>
   block_nodes \<Rightarrow> block_nodes \<Rightarrow> 's UpdateAllocator \<Rightarrow> (block_nodes \<times> 's UpdateAllocator) option" where
  "update_loop change upd cur_address remaining_pages pre suf a =
     (if remaining_pages = 0 then Some (pre @ suf, a)
      else
        case suf of
          [] \<Rightarrow> None
        | it # rest \<Rightarrow>
            (let remaining_size = remaining_pages * PageSize;
                 cur_info = GetMemoryInfo (snd it)
             in if change (snd it)
                then do {
                  (pre, it, rest, a) \<leftarrow> split_before cur_address pre it rest a;
                  let cur_address = info_address (GetMemoryInfo (snd it));
                  (pre, it, rest, a) \<leftarrow> split_after cur_address remaining_size pre it rest a;
                  let cur_info = GetMemoryInfo (snd it);
                  b \<leftarrow> upd cur_address (snd it);
                  update_loop change upd (cur_address + info_size cur_info)
                    (remaining_pages - info_size cur_info div PageSize) (pre @ [(fst it, b)]) rest a }
                else if cur_address + remaining_size < info_end cur_info
                then update_loop change upd (cur_address + remaining_size) 0 (pre @ [it]) rest a
                else update_loop change upd (info_end cur_info)
                       ((cur_address + remaining_size - info_end cur_info) div PageSize) (pre @ [it]) rest a))"

definition update_range ::
  "(KMemoryBlock \<Rightarrow> bool) \<Rightarrow> (nat \<Rightarrow> KMemoryBlock \<Rightarrow> KMemoryBlock option) \<Rightarrow> (nat \<Rightarrow> 's \<Rightarrow> 's) \<Rightarrow> nat \<Rightarrow> nat \<Rightarrow>
   KMemoryBlockManager \<Rightarrow> 's UpdateAllocator \<Rightarrow> (KMemoryBlockManager \<times> 's UpdateAllocator) option" where
  "update_range change upd free address num_pages m a = do {
     let (pre, suf) = FindIterator address (m_memory_block_tree m);
     (nodes, a) \<leftarrow> update_loop change upd address num_pages pre suf a;
     CoalesceForUpdate free address num_pages (m\<lparr>m_memory_block_tree := nodes\<rparr>) a }"

definition KMemoryBlockManager_Update ::
  "(nat \<Rightarrow> 's \<Rightarrow> 's) \<Rightarrow> nat \<Rightarrow> nat \<Rightarrow> u32 \<Rightarrow> u8 \<Rightarrow> u8 \<Rightarrow> u8 \<Rightarrow> u8 \<Rightarrow>
   KMemoryBlockManager \<Rightarrow> 's UpdateAllocator \<Rightarrow> (KMemoryBlockManager \<times> 's UpdateAllocator) option" where
  "KMemoryBlockManager_Update free address num_pages state perm attr set_disable_attr clear_disable_attr m a =
     update_range (\<lambda>b. \<not> HasProperties state perm attr b)
       (\<lambda>cur_address b. Some (KMemoryBlock_Update state perm attr (cur_address = address) set_disable_attr clear_disable_attr b))
       free address num_pages m a"

definition UpdateIfMatch ::
  "(nat \<Rightarrow> 's \<Rightarrow> 's) \<Rightarrow> nat \<Rightarrow> nat \<Rightarrow> u32 \<Rightarrow> u8 \<Rightarrow> u8 \<Rightarrow> u32 \<Rightarrow> u8 \<Rightarrow> u8 \<Rightarrow>
   KMemoryBlockManager \<Rightarrow> 's UpdateAllocator \<Rightarrow> (KMemoryBlockManager \<times> 's UpdateAllocator) option" where
  "UpdateIfMatch free address num_pages test_state test_perm test_attr state perm attr m a =
     update_range (\<lambda>b. HasProperties test_state test_perm test_attr b \<and> \<not> HasProperties state perm attr b)
       (\<lambda>cur_address b. Some (KMemoryBlock_Update state perm attr False 0 0 b))
       free address num_pages m a"

definition UpdateLock ::
  "(nat \<Rightarrow> 's \<Rightarrow> 's) \<Rightarrow> nat \<Rightarrow> nat \<Rightarrow> lock_func \<Rightarrow> u8 \<Rightarrow>
   KMemoryBlockManager \<Rightarrow> 's UpdateAllocator \<Rightarrow> (KMemoryBlockManager \<times> 's UpdateAllocator) option" where
  "UpdateLock free address num_pages lock_func perm m a =
     (let end_address = address + num_pages * PageSize
      in update_range (\<lambda>b. True)
           (\<lambda>cur_address b. lock_func perm (info_address (GetMemoryInfo b) = address)
              (info_end (GetMemoryInfo b) = end_address) b)
           free address num_pages m a)"

section \<open>The check of the tree\<close>

definition lacks_count :: "KMemoryInfo \<Rightarrow> bool" where
  "lacks_count i \<longleftrightarrow>
     info_attribute i AND attribute_value KMemoryAttribute_IpcLocked \<noteq> 0 \<and> info_ipc_lock_count i = 0 \<or>
     info_attribute i AND attribute_value KMemoryAttribute_DeviceShared \<noteq> 0 \<and> info_device_use_count i = 0"

fun CheckState_loop :: "KMemoryBlock \<Rightarrow> block_nodes \<Rightarrow> bool" where
  "CheckState_loop prev [] \<longleftrightarrow> \<not> lacks_count (GetMemoryInfo prev)"
| "CheckState_loop prev ((_, it) # rest) \<longleftrightarrow>
     (if CanMergeWith prev it then False
      else if info_end (GetMemoryInfo prev) \<noteq> info_address (GetMemoryInfo it) then False
      else if lacks_count (GetMemoryInfo it) then False
      else CheckState_loop it rest)"

text \<open>An empty tree has no first node to start from.\<close>

definition CheckState :: "KMemoryBlockManager \<Rightarrow> bool option" where
  "CheckState m =
     (case m_memory_block_tree m of [] \<Rightarrow> None | (_, b) # rest \<Rightarrow> Some (CheckState_loop b rest))"

end
