(* ===== verification/Kern_MemoryBlockManager_Inv.thy ===== *)
theory Kern_MemoryBlockManager_Inv
  imports Kern_MemoryBlockManager "HOL-Library.Multiset"
begin

text \<open>
  The blocks of \<^verbatim>\<open>KMemoryBlockManager\<close> as a list of pages with their properties: each block covers its pages,
  the blocks cover the address space without gap, and no two neighbours could be one block. The updates of
  a range keep this and change the pages of the range only.
\<close>

unbundle bit_operations_syntax

section \<open>Editing a segment of a list\<close>

definition edit :: "nat \<Rightarrow> nat \<Rightarrow> ('a \<Rightarrow> 'a) \<Rightarrow> 'a list \<Rightarrow> 'a list" where
  "edit k n f xs = take k xs @ map f (take n (drop k xs)) @ drop (k + n) xs"

lemma edit_0 [simp]: "edit k 0 f xs = xs"
  by (simp add: edit_def)

lemma length_edit [simp]: "length (edit k n f xs) = length xs"
  by (simp add: edit_def)

lemma nth_edit: "i < length xs \<Longrightarrow> edit k n f xs ! i = (if k \<le> i \<and> i < k + n then f (xs ! i) else xs ! i)"
  by (auto simp: edit_def nth_append min_def)

lemma edit_eqI:
  "length ys = length xs \<Longrightarrow> (\<And>i. i < length xs \<Longrightarrow> ys ! i = (if k \<le> i \<and> i < k + n then f (xs ! i) else xs ! i)) \<Longrightarrow>
   edit k n f xs = ys"
  by (rule nth_equalityI) (simp_all add: nth_edit)

lemma edit_append_left: "k + n \<le> length xs \<Longrightarrow> edit k n f (xs @ ys) = edit k n f xs @ ys"
  by (simp add: edit_def)

lemma edit_append_right: "length xs \<le> k \<Longrightarrow> edit k n f (xs @ ys) = xs @ edit (k - length xs) n f ys"
  by (simp add: edit_def)

lemma edit_append_across:
  "k \<le> length xs \<Longrightarrow> length xs \<le> k + n \<Longrightarrow>
   edit k n f (xs @ ys) = edit k (length xs - k) f xs @ edit 0 (k + n - length xs) f ys"
  by (simp add: edit_def add.commute)

lemma edit_replicate:
  "k + n \<le> m \<Longrightarrow> edit k n f (replicate m x) = replicate k x @ replicate n (f x) @ replicate (m - (k + n)) x"
  by (simp add: edit_def min_def)

lemma edit_id: "(\<And>x. x \<in> set (take n (drop k xs)) \<Longrightarrow> f x = x) \<Longrightarrow> edit k n f xs = xs"
  by (simp add: edit_def map_idI flip: take_add) (metis append_take_drop_id take_add append_assoc)

lemma set_edit: "set (edit k n f xs) \<subseteq> set xs \<union> f ` set xs"
  by (auto simp: edit_def dest: in_set_takeD in_set_dropD)

lemma edit_edit: "edit k n g (edit k n f xs) = edit k n (g \<circ> f) xs"
  by (rule nth_equalityI) (simp_all add: nth_edit)

section \<open>Properties of the pages\<close>

record page_info =
  page_state :: u32
  page_permission :: u8
  page_original_permission :: u8
  page_attribute :: u8
  page_ipc_lock_count :: u16
  page_device_use_count :: u16

definition properties :: "KMemoryBlock \<Rightarrow> page_info" where
  "properties b =
     \<lparr>page_state = m_memory_state b, page_permission = m_permission b,
      page_original_permission = m_original_permission b, page_attribute = m_attribute b,
      page_ipc_lock_count = m_ipc_lock_count b, page_device_use_count = m_device_use_count b\<rparr>"

lemma HasSameProperties_iff: "HasSameProperties b c \<longleftrightarrow> properties b = properties c"
  by (simp add: HasSameProperties_def properties_def)

definition space :: "block_nodes \<Rightarrow> page_info list" where
  "space nodes = concat (map (\<lambda>(_, b). replicate (m_num_pages b) (properties b)) nodes)"

lemma space_simps [simp]:
  "space [] = []" "space ((n, b) # nodes) = replicate (m_num_pages b) (properties b) @ space nodes"
  "space (xs @ ys) = space xs @ space ys"
  by (simp_all add: space_def)

text \<open>The blocks cover a range without gap.\<close>

fun tiles :: "nat \<Rightarrow> block_nodes \<Rightarrow> nat \<Rightarrow> bool" where
  "tiles s [] e \<longleftrightarrow> s = e"
| "tiles s ((_, b) # nodes) e \<longleftrightarrow> m_address b = s \<and> 0 < m_num_pages b \<and> tiles (s + m_num_pages b * PageSize) nodes e"

lemma tiles_append: "tiles s (xs @ ys) e \<longleftrightarrow> (\<exists>m. tiles s xs m \<and> tiles m ys e)"
  by (induction s xs e rule: tiles.induct) auto

lemma page_size_positive [simp]: "0 < PageSize" "PageSize \<noteq> 0"
  by (simp_all add: PageSize_def)

lemma tiles_length: "tiles s nodes e \<Longrightarrow> e = s + length (space nodes) * PageSize"
  by (induction s nodes e rule: tiles.induct) (auto simp: algebra_simps)

lemma tiles_pos: "tiles s nodes e \<Longrightarrow> (n, b) \<in> set nodes \<Longrightarrow> 0 < m_num_pages b"
  by (induction s nodes e rule: tiles.induct) auto

lemma tiles_addresses: "tiles s nodes e \<Longrightarrow> (n, b) \<in> set nodes \<Longrightarrow> s \<le> m_address b \<and> KMemoryBlock_GetEndAddress b \<le> e"
proof (induction s nodes e rule: tiles.induct)
  case (2 s x c nodes e)
  then show ?case
    using tiles_length [of "s + m_num_pages c * PageSize" nodes e]
    by (auto simp: KMemoryBlock_GetEndAddress_def KMemoryBlock_GetSize_def)
qed simp

lemma memory_info_simps [simp]:
  "info_address (GetMemoryInfo b) = m_address b" "info_size (GetMemoryInfo b) = m_num_pages b * PageSize"
  "info_end (GetMemoryInfo b) = KMemoryBlock_GetEndAddress b" "info_last (GetMemoryInfo b) = KMemoryBlock_GetLastAddress b"
  "info_state (GetMemoryInfo b) = m_memory_state b"
  by (simp_all add: GetMemoryInfo_def info_end_def info_last_def KMemoryBlock_GetSize_def KMemoryBlock_GetEndAddress_def
      KMemoryBlock_GetLastAddress_def)

lemma end_address: "KMemoryBlock_GetEndAddress b = m_address b + m_num_pages b * PageSize"
  by (simp add: KMemoryBlock_GetEndAddress_def KMemoryBlock_GetSize_def)

section \<open>Positions in the tree\<close>

lemma Compare_cases:
  assumes "0 < m_num_pages b"
  shows "KMemoryBlock_Compare k b = 0 \<longleftrightarrow> m_address b \<le> m_address k \<and> m_address k < KMemoryBlock_GetEndAddress b"
    "KMemoryBlock_Compare k b > 0 \<longleftrightarrow> KMemoryBlock_GetEndAddress b \<le> m_address k"
    "KMemoryBlock_Compare k b < 0 \<longleftrightarrow> m_address k < m_address b"
proof -
  obtain z where "KMemoryBlock_GetEndAddress b = m_address b + z" "0 < z"
    using assms by (simp add: end_address)
  then show "KMemoryBlock_Compare k b = 0 \<longleftrightarrow> m_address b \<le> m_address k \<and> m_address k < KMemoryBlock_GetEndAddress b"
    "KMemoryBlock_Compare k b > 0 \<longleftrightarrow> KMemoryBlock_GetEndAddress b \<le> m_address k"
    "KMemoryBlock_Compare k b < 0 \<longleftrightarrow> m_address k < m_address b"
    by (auto simp: KMemoryBlock_Compare_def KMemoryBlock_GetLastAddress_def)
qed

lemma takeWhile_dropWhile_split:
  "(\<And>x. x \<in> set xs \<Longrightarrow> P x) \<Longrightarrow> ys \<noteq> [] \<Longrightarrow> \<not> P (hd ys) \<Longrightarrow> takeWhile P (xs @ ys) = xs \<and> dropWhile P (xs @ ys) = ys"
  by (cases ys) (simp_all add: takeWhile_append dropWhile_append)

text \<open>A search in a covered range finds the block with the address.\<close>

lemma tiles_find:
  "tiles s nodes e \<Longrightarrow> s \<le> addr \<Longrightarrow> addr < e \<Longrightarrow>
   \<exists>pre n b rest. nodes = pre @ (n, b) # rest \<and> m_address b \<le> addr \<and> addr < KMemoryBlock_GetEndAddress b \<and>
     tiles s pre (m_address b)"
proof (induction s nodes e rule: tiles.induct)
  case (2 s x c nodes e)
  show ?case
  proof (cases "addr < KMemoryBlock_GetEndAddress c")
    case True
    then show ?thesis
      using 2 by (intro exI [of _ "[]"] exI [of _ x] exI [of _ c] exI [of _ nodes]) auto
  next
    case False
    then obtain pre n b rest where "nodes = pre @ (n, b) # rest" "m_address b \<le> addr" "addr < KMemoryBlock_GetEndAddress b"
      "tiles (s + m_num_pages c * PageSize) pre (m_address b)"
      using 2 by (auto simp: end_address)
    then show ?thesis
      using 2 by (intro exI [of _ "(x, c) # pre"] exI [of _ n] exI [of _ b] exI [of _ rest]) auto
  qed
qed simp

lemma ConstantInitialize_address [simp]: "m_address (KMemoryBlock_ConstantInitialize a n s p t) = a"
  by (simp add: KMemoryBlock_ConstantInitialize_def)

lemma FindIterator_at:
  assumes "tiles s pre (m_address b)" "m_address b \<le> addr" "addr < KMemoryBlock_GetEndAddress b"
  shows "FindIterator addr (pre @ (n, b) # rest) = (pre, (n, b) # rest)"
proof -
  let ?k = "KMemoryBlock_ConstantInitialize addr 1 (state_value KMemoryState_Free) (permission_value KMemoryPermission_None) (attribute_value KMemoryAttribute_None)"
  have "0 < m_num_pages b" using assms(2,3) by (auto simp: end_address intro: ccontr)
  then have "KMemoryBlock_Compare ?k b = 0" using assms by (simp add: Compare_cases)
  moreover have "KMemoryBlock_Compare ?k c \<noteq> 0" if "(x, c) \<in> set pre" for x c
  proof -
    have "KMemoryBlock_GetEndAddress c \<le> addr" "0 < m_num_pages c"
      using tiles_addresses [OF assms(1) that] assms(1,2) that by (auto simp: tiles_pos)
    then show ?thesis by (simp add: Compare_cases)
  qed
  ultimately show ?thesis
    unfolding FindIterator_def tree_find_def
    by (subst takeWhile_dropWhile_split [THEN conjunct1], auto)
      (subst takeWhile_dropWhile_split [THEN conjunct2], auto)
qed

lemma insert_block_at:
  assumes "tiles s pre (m_address low)" "m_address low < m_address high" "0 < m_num_pages high"
  shows "insert_block (n, low) (pre @ (m, high) # rest) = Some (pre, (n, low) # (m, high) # rest)"
proof -
  have c: "KMemoryBlock_Compare low high < 0"
    using assms(2,3) by (simp add: Compare_cases)
  have pos: "KMemoryBlock_Compare low b > 0" if "(x, b) \<in> set pre" for x b
    using tiles_addresses [OF assms(1) that] tiles_pos [OF assms(1) that] by (simp add: Compare_cases)
  let ?P = "\<lambda>(_, b). KMemoryBlock_Compare low b > 0"
  have "takeWhile ?P (pre @ (m, high) # rest) = pre \<and> dropWhile ?P (pre @ (m, high) # rest) = (m, high) # rest"
    using pos c by (intro takeWhile_dropWhile_split) auto
  then show ?thesis
    using c by (simp add: insert_block_def)
qed

section \<open>Splitting and joining blocks\<close>

lemma and_AllLeft: "(x AND disable_merge_value DisableMerge_AllLeft) AND disable_merge_value DisableMerge_AllLeft = x AND disable_merge_value DisableMerge_AllLeft"
  "(x AND disable_merge_value DisableMerge_AllRight) AND disable_merge_value DisableMerge_AllRight = x AND disable_merge_value DisableMerge_AllRight"
  by (simp_all add: ac_simps)

lemma Split_spec:
  assumes "KMemoryBlock_Split addr b = (low, high)" "addr = m_address b + k * PageSize" "k < m_num_pages b"
  shows "m_address low = m_address b" "m_num_pages low = k" "m_address high = addr"
    "m_num_pages high = m_num_pages b - k" "properties low = properties b" "properties high = properties b"
    "CanMergeWith x low = CanMergeWith x b" "CanMergeWith high y = CanMergeWith b y"
  using assms
  by (auto simp: KMemoryBlock_Split_def Let_def properties_def CanMergeWith_def HasSameProperties_def and_AllLeft)

lemma Add_spec:
  assumes "CanMergeWith p c"
  shows "m_address (KMemoryBlock_Add c p) = m_address p"
    "m_num_pages (KMemoryBlock_Add c p) = m_num_pages p + m_num_pages c"
    "properties (KMemoryBlock_Add c p) = properties p" "properties c = properties p"
    "CanMergeWith x (KMemoryBlock_Add c p) = CanMergeWith x p" "CanMergeWith (KMemoryBlock_Add c p) y = CanMergeWith c y"
  using assms
  by (auto simp: KMemoryBlock_Add_def CanMergeWith_def HasSameProperties_def properties_def bit.conj_disj_distrib2)

section \<open>The allocator\<close>

definition allocator_ok :: "'s UpdateAllocator \<Rightarrow> bool" where
  "allocator_ok a \<longleftrightarrow> length (m_blocks a) = MaxBlocks \<and> m_index a \<le> MaxBlocks \<and>
     (\<forall>i < MaxBlocks. m_blocks a ! i \<noteq> 0 \<longleftrightarrow> m_index a \<le> i)"

definition available :: "'s UpdateAllocator \<Rightarrow> nat" where
  "available a = MaxBlocks - m_index a"

definition held_blocks :: "'s UpdateAllocator \<Rightarrow> nat list" where
  "held_blocks a = drop (m_index a) (m_blocks a)"

lemma allocator_cases:
  assumes "allocator_ok a"
  obtains x y where "m_blocks a = [x, y]" "m_index a = 0" "x \<noteq> 0" "y \<noteq> 0"
  | y where "m_blocks a = [0, y]" "m_index a = 1" "y \<noteq> 0"
  | "m_blocks a = [0, 0]" "m_index a = 2"
proof -
  obtain x y where b: "m_blocks a = [x, y]"
    using assms by (auto simp: allocator_ok_def MaxBlocks_def numeral_2_eq_2 length_Suc_conv)
  have "m_index a = 0 \<or> m_index a = 1 \<or> m_index a = 2"
    using assms by (auto simp: allocator_ok_def MaxBlocks_def)
  moreover have "x \<noteq> 0 \<longleftrightarrow> m_index a \<le> 0" "y \<noteq> 0 \<longleftrightarrow> m_index a \<le> 1"
    using assms b by (simp_all add: allocator_ok_def MaxBlocks_def All_less_Suc numeral_2_eq_2)
  ultimately show ?thesis
    using b that by fastforce
qed

lemmas allocator_defs = allocator_ok_def available_def held_blocks_def MaxBlocks_def

lemma UpdateAllocator_Allocate_ok:
  assumes "allocator_ok a" "0 < available a"
  obtains p a' where "UpdateAllocator_Allocate a = Some (p, a')" "p \<noteq> 0" "allocator_ok a'"
    "available a = Suc (available a')" "m_slab_manager a' = m_slab_manager a" "held_blocks a = p # held_blocks a'"
  using assms(1)
proof (cases rule: allocator_cases)
  case (1 x y)
  then show ?thesis
    using that [of x "a\<lparr>m_blocks := [0, y], m_index := 1\<rparr>"]
    by (simp add: UpdateAllocator_Allocate_def allocator_defs All_less_Suc numeral_2_eq_2)
next
  case (2 y)
  then show ?thesis
    using that [of y "a\<lparr>m_blocks := [0, 0], m_index := 2\<rparr>"]
    by (simp add: UpdateAllocator_Allocate_def allocator_defs All_less_Suc numeral_2_eq_2)
next
  case 3
  then show ?thesis using assms(2) by (simp add: allocator_defs)
qed

lemma UpdateAllocator_Free_ok:
  assumes "allocator_ok a" "p \<noteq> 0"
  obtains a' freed where "UpdateAllocator_Free free p a = Some a'" "allocator_ok a'" "available a \<le> available a'"
    "m_slab_manager a' = fold free freed (m_slab_manager a)"
    "mset (held_blocks a') + mset freed = add_mset p (mset (held_blocks a))"
  using assms(1)
proof (cases rule: allocator_cases)
  case (1 x y)
  then show ?thesis
    using assms that [of "a\<lparr>m_slab_manager := free p (m_slab_manager a)\<rparr>" "[p]"]
    by (simp add: UpdateAllocator_Free_def allocator_defs)
next
  case (2 y)
  then show ?thesis
    using assms that [of "a\<lparr>m_index := 0, m_blocks := [p, y]\<rparr>" "[]"]
    by (simp add: UpdateAllocator_Free_def allocator_defs All_less_Suc numeral_2_eq_2)
next
  case 3
  then show ?thesis
    using assms that [of "a\<lparr>m_index := 1, m_blocks := [0, p]\<rparr>" "[]"]
    by (simp add: UpdateAllocator_Free_def allocator_defs All_less_Suc numeral_2_eq_2)
qed

section \<open>The two splits of the loop\<close>

lemma split_before_ok:
  assumes t: "tiles s pre (m_address b)" and k: "cur = m_address b + k * PageSize" "k < m_num_pages b"
    and a: "allocator_ok a" "cur \<noteq> m_address b \<longrightarrow> 0 < available a"
  obtains L b' a' where "split_before cur pre (n, b) rest a = Some (pre @ L, (n, b'), rest, a')"
    "m_address b' = cur" "m_num_pages b' = m_num_pages b - k" "properties b' = properties b"
    "\<forall>y. CanMergeWith b' y = CanMergeWith b y" "L = [] \<and> k = 0 \<or> (\<exists>p low. L = [(p, low)] \<and> m_address low = m_address b \<and> (\<forall>x. CanMergeWith x low = CanMergeWith x b))"
    "tiles (m_address b) L cur" "space L = replicate k (properties b)" "0 \<notin> fst ` set L"
    "b' = b \<or> b' = snd (KMemoryBlock_Split cur b)" "allocator_ok a'" "m_slab_manager a' = m_slab_manager a"
    "mset (map fst L) + mset (held_blocks a') = mset (held_blocks a)"
    "available a = available a' + (if k = 0 then 0 else 1)"
proof (cases "k = 0")
  case True
  then show ?thesis
    using k a(1) by (intro that [of "[]" b a]) (simp_all add: split_before_def)
next
  case False
  then have ne: "m_address b \<noteq> cur" "m_address b < cur" using k by simp_all
  obtain p a' where A: "UpdateAllocator_Allocate a = Some (p, a')" "p \<noteq> 0" "allocator_ok a'"
    "available a = Suc (available a')" "m_slab_manager a' = m_slab_manager a" "held_blocks a = p # held_blocks a'"
    using UpdateAllocator_Allocate_ok [OF a(1)] a(2) ne by metis
  obtain low high where S: "KMemoryBlock_Split cur b = (low, high)" by fastforce
  note sp = Split_spec [OF S k]
  have "insert_block (p, low) (pre @ (n, high) # rest) = Some (pre, (p, low) # (n, high) # rest)"
    using t ne k by (intro insert_block_at) (simp_all add: sp)
  then have "split_before cur pre (n, b) rest a = Some (pre @ [(p, low)], (n, high), rest, a')"
    using ne(1) by (simp add: split_before_def A S)
  then show ?thesis
    using A k sp S False by (intro that [of "[(p, low)]" high a']) auto
qed

lemma split_after_ok:
  assumes t: "tiles s pre (m_address b)" and pos: "0 < r" "0 < m_num_pages b"
    and a: "allocator_ok a" "r < m_num_pages b \<longrightarrow> 0 < available a"
  obtains n' b' R a' where "split_after (m_address b) (r * PageSize) pre (n, b) rest a = Some (pre, (n', b'), R @ rest, a')"
    "m_address b' = m_address b" "m_num_pages b' = min r (m_num_pages b)" "properties b' = properties b"
    "\<forall>x. CanMergeWith x b' = CanMergeWith x b"
    "R = [] \<and> b' = b \<and> m_num_pages b \<le> r \<or> r < m_num_pages b \<and> (\<exists>high. R = [(n, high)] \<and> (\<forall>y. CanMergeWith high y = CanMergeWith b y))"
    "tiles (m_address b + min r (m_num_pages b) * PageSize) R (KMemoryBlock_GetEndAddress b)"
    "space R = replicate (m_num_pages b - r) (properties b)" "n \<noteq> 0 \<longrightarrow> n' \<noteq> 0 \<and> 0 \<notin> fst ` set R"
    "b' = b \<or> b' = fst (KMemoryBlock_Split (m_address b + r * PageSize) b)" "allocator_ok a'"
    "m_slab_manager a' = m_slab_manager a"
    "add_mset n' (mset (map fst R) + mset (held_blocks a')) = add_mset n (mset (held_blocks a))"
    "available a = available a' + (if r < m_num_pages b then 1 else 0)"
proof (cases "r < m_num_pages b")
  case False
  then have "\<not> r * PageSize < m_num_pages b * PageSize" by simp
  then show ?thesis
    using False a(1) by (intro that [of n b "[]" a]) (simp_all add: split_after_def end_address min_def)
next
  case True
  then have gt: "r * PageSize < m_num_pages b * PageSize" by simp
  obtain p a' where A: "UpdateAllocator_Allocate a = Some (p, a')" "p \<noteq> 0" "allocator_ok a'"
    "available a = Suc (available a')" "m_slab_manager a' = m_slab_manager a" "held_blocks a = p # held_blocks a'"
    using UpdateAllocator_Allocate_ok [OF a(1)] a(2) True by metis
  obtain low high where S: "KMemoryBlock_Split (m_address b + r * PageSize) b = (low, high)" by fastforce
  note sp = Split_spec [OF S refl True]
  have "insert_block (p, low) (pre @ (n, high) # rest) = Some (pre, (p, low) # (n, high) # rest)"
    using t pos(1) True by (intro insert_block_at) (simp_all add: sp)
  then have "split_after (m_address b) (r * PageSize) pre (n, b) rest a = Some (pre, (p, low), [(n, high)] @ rest, a')"
    using gt by (simp add: split_after_def A S)
  moreover have "m_address b + r * PageSize + (m_num_pages b - r) * PageSize = KMemoryBlock_GetEndAddress b"
    using True by (simp add: end_address flip: distrib_right)
  ultimately show ?thesis
    using A sp S True pos by (intro that [of p low "[(n, high)]" a']) (auto simp: min_def)
qed

section \<open>The loop over a range\<close>

text \<open>Neighbours that could be one block are allowed only where the second starts within a range.\<close>

definition apart_outside :: "nat \<Rightarrow> nat \<Rightarrow> nat \<times> KMemoryBlock \<Rightarrow> nat \<times> KMemoryBlock \<Rightarrow> bool" where
  "apart_outside lo hi x y \<longleftrightarrow> lo \<le> m_address (snd y) \<and> m_address (snd y) \<le> hi \<or> \<not> CanMergeWith (snd x) (snd y)"

definition unmerged :: "block_nodes \<Rightarrow> bool" where
  "unmerged nodes \<longleftrightarrow> successively (\<lambda>x y. \<not> CanMergeWith (snd x) (snd y)) nodes"

lemma successively_replace:
  assumes "successively R (pre @ x # rest)" "successively R ys" "ys \<noteq> []"
    "\<And>p. R p x \<Longrightarrow> R p (hd ys)" "rest \<noteq> [] \<Longrightarrow> R x (hd rest) \<Longrightarrow> R (last ys) (hd rest)"
  shows "successively R (pre @ ys @ rest)"
  using assms by (auto simp: successively_append_iff successively_Cons)

text \<open>The ends of a range that are not ends of blocks; each costs a block of the allocator.\<close>

definition is_border :: "nat \<Rightarrow> block_nodes \<Rightarrow> bool" where
  "is_border x nodes \<longleftrightarrow> (\<exists>(n, b) \<in> set nodes. m_address b = x \<or> KMemoryBlock_GetEndAddress b = x)"

lemma tiles_inside_not_border:
  assumes "tiles s ((n, b) # rest) e" "m_address b < x" "x < KMemoryBlock_GetEndAddress b"
  shows "\<not> is_border x ((n, b) # rest)"
proof -
  have t: "tiles (KMemoryBlock_GetEndAddress b) rest e"
    using assms(1) by (simp add: end_address)
  have False if "(m, c) \<in> set rest" "m_address c = x \<or> KMemoryBlock_GetEndAddress c = x" for m c
    using tiles_addresses [OF t that(1)] that(2) assms(3) by (auto simp: end_address)
  then show ?thesis
    using assms(2,3) by (fastforce simp: is_border_def)
qed

text \<open>
  What an update does to a block, for the loop that applies it to a range: the test depends on the
  properties of the pages only, the change keeps the place of the block, and changes its properties by
  \<open>effect\<close>. A block that is \<open>ready\<close> can be changed without an abort, and so can its parts.
\<close>

locale range_update =
  fixes change :: "KMemoryBlock \<Rightarrow> bool"
    and upd :: "nat \<Rightarrow> KMemoryBlock \<Rightarrow> KMemoryBlock option"
    and effect :: "page_info \<Rightarrow> page_info"
    and ready :: "KMemoryBlock \<Rightarrow> bool"
  assumes change_properties: "properties b = properties c \<Longrightarrow> change b = change c"
    and upd_ready: "ready b \<Longrightarrow> \<exists>b'. upd cur b = Some b'"
    and upd_place: "upd cur b = Some b' \<Longrightarrow> m_address b' = m_address b \<and> m_num_pages b' = m_num_pages b"
    and upd_effect: "change b \<Longrightarrow> upd cur b = Some b' \<Longrightarrow> properties b' = effect (properties b)"
    and kept: "\<not> change b \<Longrightarrow> effect (properties b) = properties b"
    and ready_low: "ready b \<Longrightarrow> ready (fst (KMemoryBlock_Split addr b))"
    and ready_high: "ready b \<Longrightarrow> ready (snd (KMemoryBlock_Split addr b))"
begin

text \<open>A block that is changed, with the parts cut off before and after the range.\<close>

lemma changed_block:
  assumes t: "tiles s pre (m_address b)" and k: "cur = m_address b + k * PageSize" "k < m_num_pages b" "0 < r"
    and a: "allocator_ok a" "(if k = 0 then 0 else 1) + (if k + r < m_num_pages b then 1 else 0) \<le> available a"
    and c: "change b" "ready b" "n \<noteq> 0" and lo: "lo \<le> cur" "cur + r * PageSize = hi"
    and ap: "successively (apart_outside lo hi) (pre @ (n, b) # rest)"
    and tr: "tiles (KMemoryBlock_GetEndAddress b) rest e"
  obtains L x R a' where
    "update_loop change upd cur r pre ((n, b) # rest) a =
       update_loop change upd (cur + min r (m_num_pages b - k) * PageSize) (r - min r (m_num_pages b - k)) (pre @ L @ [x]) (R @ rest) a'"
    "tiles (m_address b) (L @ [x]) (cur + min r (m_num_pages b - k) * PageSize)"
    "tiles (cur + min r (m_num_pages b - k) * PageSize) R (KMemoryBlock_GetEndAddress b)"
    "space (L @ x # R) = edit k (min r (m_num_pages b - k)) effect (replicate (m_num_pages b) (properties b))"
    "R = [] \<or> k + r < m_num_pages b" "m_address (snd x) = cur" "0 \<notin> fst ` set (L @ x # R)"
    "successively (apart_outside lo hi) (pre @ L @ x # R @ rest)"
    "allocator_ok a'" "m_slab_manager a' = m_slab_manager a"
    "mset (map fst (L @ x # R)) + mset (held_blocks a') = add_mset n (mset (held_blocks a))"
    "available a = available a' + ((if k = 0 then 0 else 1) + (if k + r < m_num_pages b then 1 else 0))"
proof -
  have av: "cur \<noteq> m_address b \<longrightarrow> 0 < available a"
    using a(2) k(1) by (cases "k = 0") auto
  obtain L b1 a1 where B: "split_before cur pre (n, b) rest a = Some (pre @ L, (n, b1), rest, a1)"
    and b1: "m_address b1 = cur" "m_num_pages b1 = m_num_pages b - k" "properties b1 = properties b"
      "\<forall>y. CanMergeWith b1 y = CanMergeWith b y"
    and L: "L = [] \<and> k = 0 \<or> (\<exists>p low. L = [(p, low)] \<and> m_address low = m_address b \<and> (\<forall>x. CanMergeWith x low = CanMergeWith x b))"
      "tiles (m_address b) L cur" "space L = replicate k (properties b)" "0 \<notin> fst ` set L"
    and r1: "b1 = b \<or> b1 = snd (KMemoryBlock_Split cur b)"
    and a1: "allocator_ok a1" "m_slab_manager a1 = m_slab_manager a"
      "mset (map fst L) + mset (held_blocks a1) = mset (held_blocks a)"
      "available a = available a1 + (if k = 0 then 0 else 1)"
    by (rule split_before_ok [OF t k(1,2) a(1) av, of n rest])
  have t1: "tiles s (pre @ L) (m_address b1)"
    using t L(2) b1(1) by (auto simp: tiles_append)
  have p1: "0 < m_num_pages b1" "r < m_num_pages b1 \<longleftrightarrow> k + r < m_num_pages b"
    using k(2) b1(2) by auto
  have av1: "r < m_num_pages b1 \<longrightarrow> 0 < available a1"
    using a(2) a1(4) p1(2) by (auto split: if_splits)
  obtain n' b2 R a2 where A: "split_after (m_address b1) (r * PageSize) (pre @ L) (n, b1) rest a1 = Some (pre @ L, (n', b2), R @ rest, a2)"
    and b2: "m_address b2 = m_address b1" "m_num_pages b2 = min r (m_num_pages b1)" "properties b2 = properties b1"
      "\<forall>x. CanMergeWith x b2 = CanMergeWith x b1"
    and R: "R = [] \<and> b2 = b1 \<and> m_num_pages b1 \<le> r \<or> r < m_num_pages b1 \<and> (\<exists>high. R = [(n, high)] \<and> (\<forall>y. CanMergeWith high y = CanMergeWith b1 y))"
      "tiles (m_address b1 + min r (m_num_pages b1) * PageSize) R (KMemoryBlock_GetEndAddress b1)"
      "space R = replicate (m_num_pages b1 - r) (properties b1)" "n \<noteq> 0 \<longrightarrow> n' \<noteq> 0 \<and> 0 \<notin> fst ` set R"
    and r2: "b2 = b1 \<or> b2 = fst (KMemoryBlock_Split (m_address b1 + r * PageSize) b1)"
    and a2: "allocator_ok a2" "m_slab_manager a2 = m_slab_manager a1"
      "add_mset n' (mset (map fst R) + mset (held_blocks a2)) = add_mset n (mset (held_blocks a1))"
      "available a1 = available a2 + (if r < m_num_pages b1 then 1 else 0)"
    by (rule split_after_ok [OF t1 k(3) p1(1) a1(1) av1, of n rest])
  have "ready b2"
    using r1 r2 c(2) ready_low ready_high by auto
  then obtain b3 where U: "upd cur b2 = Some b3"
    using upd_ready by blast
  have b3: "m_address b3 = cur" "m_num_pages b3 = min r (m_num_pages b - k)" "properties b3 = effect (properties b)"
    using upd_place [OF U] upd_effect [OF _ U] change_properties [of b2 b] c(1) b1 b2 by simp_all
  let ?m = "min r (m_num_pages b - k)"
  let ?x = "(n', b3)"
  have e1: "KMemoryBlock_GetEndAddress b1 = KMemoryBlock_GetEndAddress b"
    using b1 k by (simp add: end_address diff_mult_distrib)
  have step: "update_loop change upd cur r pre ((n, b) # rest) a =
      update_loop change upd (cur + ?m * PageSize) (r - ?m) (pre @ L @ [?x]) (R @ rest) a2"
    using k(3) c(1) by (subst update_loop.simps) (simp add: B A [unfolded b1(1)] U b1 b2)
  have tl: "tiles (m_address b) (L @ [?x]) (cur + ?m * PageSize)"
    using L(2) b3 k p1(1) b1(2) by (auto simp: tiles_append)
  have tR: "tiles (cur + ?m * PageSize) R (KMemoryBlock_GetEndAddress b)"
    using R(2) by (simp add: b1 e1)
  have sp: "space (L @ ?x # R) = edit k ?m effect (replicate (m_num_pages b) (properties b))"
    using k(2) by (subst edit_replicate) (auto simp: L(3) R(3) b1 b3 min_def)
  have inx: "apart_outside lo hi y ?x" for y
    using lo by (simp add: apart_outside_def b3)
  have ys: "successively (apart_outside lo hi) (L @ ?x # R)"
    using L(1) R(1)
  proof (elim disjE conjE exE)
    fix high assume "r < m_num_pages b1" and R': "R = [(n, high)]"
    then have "?m = r" "m_address high = hi"
      using tR lo b1(2) by (simp_all add: min_def)
    then have "apart_outside lo hi ?x (n, high)"
      using lo by (simp add: apart_outside_def)
    then show "L = [] \<Longrightarrow> ?thesis" "L = [(p, low)] \<Longrightarrow> ?thesis" for p low
      using R' inx by simp_all
  qed (use inx in auto)
  have "successively (apart_outside lo hi) (pre @ (L @ ?x # R) @ rest)"
  proof (rule successively_replace [OF ap ys])
    show "apart_outside lo hi p (hd (L @ ?x # R))" if "apart_outside lo hi p (n, b)" for p
    proof (cases "L = []")
      case False
      then obtain q low where "L = [(q, low)]" "m_address low = m_address b" "CanMergeWith (snd p) low = CanMergeWith (snd p) b"
        using L(1) by blast
      then show ?thesis
        using that by (simp add: apart_outside_def)
    qed (simp add: inx)
    show "apart_outside lo hi (last (L @ ?x # R)) (hd rest)" if "rest \<noteq> []" "apart_outside lo hi (n, b) (hd rest)"
    proof (cases "R = []")
      case True
      then have "?m = m_num_pages b - k" "m_num_pages b - k \<le> r" using R(1) b1(2) by auto
      then have "cur + (m_num_pages b - k) * PageSize = KMemoryBlock_GetEndAddress b" "(m_num_pages b - k) * PageSize \<le> r * PageSize"
        using tR True by simp_all
      then have "KMemoryBlock_GetEndAddress b \<le> hi"
        using lo(2) by linarith
      moreover have "m_address (snd (hd rest)) = KMemoryBlock_GetEndAddress b" "lo \<le> KMemoryBlock_GetEndAddress b"
        using tr that(1) lo k(1,2) by (cases rest; auto simp: end_address intro: order_trans)+
      ultimately show ?thesis
        by (simp add: apart_outside_def)
    next
      case False
      then show ?thesis
        using R(1) that(2) b1(4) by (auto simp: apart_outside_def)
    qed
  qed simp
  then have ap': "successively (apart_outside lo hi) (pre @ L @ ?x # R @ rest)"
    by simp
  have "mset (map fst (L @ ?x # R)) + mset (held_blocks a2) = mset (map fst L) + add_mset n' (mset (map fst R) + mset (held_blocks a2))"
    by (simp add: ac_simps)
  also have "\<dots> = mset (map fst L) + add_mset n (mset (held_blocks a1))"
    by (simp only: a2(3))
  also have "\<dots> = add_mset n (mset (held_blocks a))"
    by (simp flip: a1(3))
  finally have ms: "mset (map fst (L @ ?x # R)) + mset (held_blocks a2) = add_mset n (mset (held_blocks a))" .
  show ?thesis
    using R(1,4) L(4) c(3) p1(2) a1(2,4) a2(2,4)
    by (intro that [OF step tl tR sp _ _ _ ap' a2(1) _ ms]) (auto simp: b3)
qed

text \<open>The result of the loop on the nodes from the iterator on.\<close>

definition loop_result ::
  "nat \<Rightarrow> nat \<Rightarrow> nat \<Rightarrow> nat \<Rightarrow> nat \<Rightarrow> nat \<Rightarrow> block_nodes \<Rightarrow> block_nodes \<Rightarrow> 's UpdateAllocator \<Rightarrow>
   (block_nodes \<times> 's UpdateAllocator) option \<Rightarrow> bool" where
  "loop_result lo hi m e k r pre suf a res \<longleftrightarrow>
     (\<exists>suf' a'. res = Some (pre @ suf', a') \<and> tiles m suf' e \<and> space suf' = edit k r effect (space suf) \<and>
        0 \<notin> fst ` set suf' \<and> successively (apart_outside lo hi) (pre @ suf') \<and>
        (r \<noteq> 0 \<and> suf \<noteq> [] \<and> change (snd (hd suf)) \<longrightarrow> is_border (m + k * PageSize) suf') \<and> allocator_ok a' \<and>
        m_slab_manager a' = m_slab_manager a \<and>
        mset (map fst suf') + mset (held_blocks a') = mset (map fst suf) + mset (held_blocks a))"

lemma loop_result_done:
  assumes "tiles m suf' e" "space suf' = edit k r effect (space suf)" "0 \<notin> fst ` set suf'"
    "successively (apart_outside lo hi) (pre @ suf')"
    "r \<noteq> 0 \<and> suf \<noteq> [] \<and> change (snd (hd suf)) \<longrightarrow> is_border (m + k * PageSize) suf'"
    "allocator_ok a'" "m_slab_manager a' = m_slab_manager a"
    "mset (map fst suf') + mset (held_blocks a') = mset (map fst suf) + mset (held_blocks a)"
    "pre' @ rest' = pre @ suf'"
  shows "loop_result lo hi m e k r pre suf a (update_loop change upd cur 0 pre' rest' a')"
  using assms unfolding loop_result_def by (subst update_loop.simps) auto

text \<open>A result for the nodes after the current one gives the result from the current one on.\<close>

lemma loop_result_Cons:
  assumes rest: "loop_result lo hi (KMemoryBlock_GetEndAddress b) e 0 r' (pre @ ys) rest a1 res"
    and r: "k \<le> m_num_pages b" "r = m_num_pages b - k + r'"
    and t: "tiles m ys (KMemoryBlock_GetEndAddress b)" and z: "0 \<notin> fst ` set ys"
    and sp: "space ys = edit k (m_num_pages b - k) effect (replicate (m_num_pages b) (properties b))"
    and bd: "change b \<longrightarrow> is_border (m + k * PageSize) ys"
    and a1: "m_slab_manager a1 = m_slab_manager a"
      "mset (map fst ys) + mset (held_blocks a1) = add_mset n (mset (held_blocks a))"
  shows "loop_result lo hi m e k r pre ((n, b) # rest) a res"
proof -
  obtain suf' a' where s: "res = Some ((pre @ ys) @ suf', a')" "tiles (KMemoryBlock_GetEndAddress b) suf' e"
    "space suf' = edit 0 r' effect (space rest)" "0 \<notin> fst ` set suf'"
    "successively (apart_outside lo hi) ((pre @ ys) @ suf')" "allocator_ok a'" "m_slab_manager a' = m_slab_manager a1"
    "mset (map fst suf') + mset (held_blocks a') = mset (map fst rest) + mset (held_blocks a1)"
    using rest by (auto simp: loop_result_def)
  have "edit k r effect (space ((n, b) # rest)) =
      edit k (m_num_pages b - k) effect (replicate (m_num_pages b) (properties b)) @ edit 0 r' effect (space rest)"
    using r edit_append_across [of k "replicate (m_num_pages b) (properties b)" r effect "space rest"] by simp
  moreover have "mset (map fst (ys @ suf')) + mset (held_blocks a') = mset (map fst ((n, b) # rest)) + mset (held_blocks a)"
  proof -
    have "mset (map fst (ys @ suf')) + mset (held_blocks a') = mset (map fst ys) + (mset (map fst suf') + mset (held_blocks a'))"
      by (simp add: ac_simps)
    also have "\<dots> = mset (map fst rest) + (mset (map fst ys) + mset (held_blocks a1))"
      by (subst s(8)) (simp only: ac_simps)
    finally show ?thesis
      by (simp only: a1(2)) simp
  qed
  ultimately show ?thesis
    using s t z sp bd a1(1) unfolding loop_result_def
    by (intro exI [of _ "ys @ suf'"] exI [of _ a']) (auto simp: tiles_append is_border_def)
qed

lemma update_loop_ok:
  fixes a :: "'s UpdateAllocator"
  assumes "tiles s pre m" "tiles m suf e" "cur = m + k * PageSize" "r = 0 \<or> suf \<noteq> [] \<and> k < m_num_pages (snd (hd suf))"
    "hi \<le> e" "allocator_ok a"
    "(if r = 0 \<or> k = 0 then 0 else 1) + (if r = 0 \<or> is_border hi suf then 0 else 1) \<le> available a"
    "\<forall>(n, b) \<in> set suf. m_address b < hi \<longrightarrow> ready b" "0 \<notin> fst ` set suf" "lo \<le> cur" "cur + r * PageSize = hi"
    "successively (apart_outside lo hi) (pre @ suf)"
  shows "loop_result lo hi m e k r pre suf a (update_loop change upd cur r pre suf a)"
  using assms
proof (induction suf arbitrary: pre m cur k r a)
  case Nil
  then show ?case
    by (auto intro!: loop_result_done)
next
  case (Cons x rest)
  obtain n b where x: "x = (n, b)" by fastforce
  have m: "m = m_address b" and np: "0 < m_num_pages b" and tr: "tiles (KMemoryBlock_GetEndAddress b) rest e"
    and nz: "n \<noteq> 0" "0 \<notin> fst ` set rest"
    using Cons.prems x by (auto simp: end_address)
  show ?case
  proof (cases "r = 0")
    case True
    then show ?thesis
      using Cons.prems by (auto intro!: loop_result_done)
  next
    case False
    have k: "cur = m_address b + k * PageSize" "k < m_num_pages b" "0 < r"
      using Cons.prems(3,4) False x m by simp_all
    have stop: "KMemoryBlock_GetEndAddress b = cur + (m_num_pages b - k) * PageSize"
      using k by (simp add: end_address diff_mult_distrib)
    have hi: "hi = cur + r * PageSize" "hi < KMemoryBlock_GetEndAddress b \<longleftrightarrow> k + r < m_num_pages b"
      using Cons.prems(11) stop k(2) by (auto simp: less_diff_conv)
    have "m_address b < hi"
      using k hi(1) by (simp add: trans_le_add1)
    then have rd: "ready b"
      using Cons.prems(8) x by auto
    have t: "tiles s pre (m_address b)" using Cons.prems(1) m by simp
    have ap: "successively (apart_outside lo hi) (pre @ (n, b) # rest)" using Cons.prems(12) x by simp
    have border: "\<not> is_border hi ((n, b) # rest)" if "k + r < m_num_pages b"
      using tiles_inside_not_border [of m n b rest e hi] Cons.prems(2) x \<open>m_address b < hi\<close> that hi(2) by simp
    have av: "(if k = 0 then 0 else 1) + (if k + r < m_num_pages b then 1 else 0) \<le> available a"
      using Cons.prems(7) False border x by (auto split: if_splits)
    have IH: "loop_result lo hi (KMemoryBlock_GetEndAddress b) e 0 (r - (m_num_pages b - k)) (pre @ ys) rest a1
        (update_loop change upd (KMemoryBlock_GetEndAddress b) (r - (m_num_pages b - k)) (pre @ ys) rest a1)"
      if np: "\<not> k + r < m_num_pages b" and ys: "tiles (m_address b) ys (KMemoryBlock_GetEndAddress b)"
        "successively (apart_outside lo hi) (pre @ ys @ rest)"
        and a1: "allocator_ok a1" "available a = available a1 + (if k = 0 then 0 else 1) \<or> available a1 = available a"
      for ys and a1 :: "'s UpdateAllocator"
    proof (rule Cons.IH)
      let ?r = "r - (m_num_pages b - k)"
      have d: "(m_num_pages b - k) * PageSize + ?r * PageSize = r * PageSize"
        using np by (simp flip: distrib_right)
      then show e: "KMemoryBlock_GetEndAddress b + ?r * PageSize = hi"
        using hi(1) stop by simp
      show "tiles s (pre @ ys) (KMemoryBlock_GetEndAddress b)"
        using t ys(1) by (auto simp: tiles_append)
      have rest: "rest \<noteq> [] \<and> is_border hi ((n, b) # rest) = is_border hi rest" if "?r \<noteq> 0"
      proof -
        have "KMemoryBlock_GetEndAddress b < hi" using e that by (metis less_add_same_cancel1 mult_pos_pos page_size_positive neq0_conv)
        then show ?thesis
          using tr Cons.prems(5) stop k by (cases rest) (auto simp: is_border_def end_address)
      qed
      then show "?r = 0 \<or> rest \<noteq> [] \<and> 0 < m_num_pages (snd (hd rest))"
        using tr by (cases rest) auto
      show "(if ?r = 0 \<or> (0::nat) = 0 then 0 else 1) + (if ?r = 0 \<or> is_border hi rest then 0 else 1) \<le> available a1"
        using Cons.prems(7) False rest a1(2) x by (auto split: if_splits)
      show "lo \<le> KMemoryBlock_GetEndAddress b"
        using Cons.prems(10) stop by simp
    qed (use tr Cons.prems(5,8) nz ys(2) a1(1) x in auto)
    show ?thesis
    proof (cases "change b")
      case True
      obtain L y R a' where
        step: "update_loop change upd cur r pre ((n, b) # rest) a =
          update_loop change upd (cur + min r (m_num_pages b - k) * PageSize) (r - min r (m_num_pages b - k)) (pre @ L @ [y]) (R @ rest) a'"
        and L: "tiles (m_address b) (L @ [y]) (cur + min r (m_num_pages b - k) * PageSize)"
          "tiles (cur + min r (m_num_pages b - k) * PageSize) R (KMemoryBlock_GetEndAddress b)"
        and sp: "space (L @ y # R) = edit k (min r (m_num_pages b - k)) effect (replicate (m_num_pages b) (properties b))"
        and R: "R = [] \<or> k + r < m_num_pages b" and y: "m_address (snd y) = cur" and R': "0 \<notin> fst ` set (L @ y # R)"
          "successively (apart_outside lo hi) (pre @ L @ y # R @ rest)"
        and a': "allocator_ok a'" "m_slab_manager a' = m_slab_manager a"
          "mset (map fst (L @ y # R)) + mset (held_blocks a') = add_mset n (mset (held_blocks a))"
          "available a = available a' + ((if k = 0 then 0 else 1) + (if k + r < m_num_pages b then 1 else 0))"
        by (rule changed_block [OF t k Cons.prems(6) av True rd nz(1) Cons.prems(10) hi(1) [symmetric] ap tr])
      show ?thesis
      proof (cases "k + r < m_num_pages b")
        case True
        then have min: "min r (m_num_pages b - k) = r" by simp
        have "tiles m ((L @ [y]) @ R @ rest) e"
          using L tr unfolding m tiles_append [of _ "L @ [y]"] tiles_append [of _ R] by blast
        then have "tiles m (L @ y # R @ rest) e"
          by simp
        moreover have "space (L @ y # R @ rest) = edit k r effect (space ((n, b) # rest))"
          using sp True by (cases y) (simp add: edit_append_left min_absorb1)
        moreover have "mset (map fst (L @ y # R @ rest)) + mset (held_blocks a') = mset (map fst ((n, b) # rest)) + mset (held_blocks a)"
          using a'(3) by (simp add: ac_simps)
        moreover have "is_border cur (L @ y # R @ rest)"
          using y by (cases y) (auto simp: is_border_def)
        ultimately show ?thesis
          using R' a' nz(2) k(1) m unfolding x step min by (simp, intro loop_result_done) auto
      next
        case False
        then have R0: "R = []" and min: "min r (m_num_pages b - k) = m_num_pages b - k" using R by auto
        have ty: "tiles m (L @ [y]) (KMemoryBlock_GetEndAddress b)"
          using L(1) unfolding m min stop .
        have "loop_result lo hi (KMemoryBlock_GetEndAddress b) e 0 (r - (m_num_pages b - k)) (pre @ L @ [y]) rest a'
            (update_loop change upd cur r pre ((n, b) # rest) a)"
          using IH [OF False, of "L @ [y]" a'] ty R'(2) a'(1,4) False unfolding step min R0 m stop by simp
        moreover have "is_border (m + k * PageSize) (L @ [y])"
          using y k(1) m by (cases y) (auto simp: is_border_def)
        ultimately show ?thesis
          unfolding x using ty sp R'(1) a'(2,3) k(2) False
          by (intro loop_result_Cons [where ys = "L @ [y]" and r' = "r - (m_num_pages b - k)"]) (simp_all add: R0 min)
      qed
    next
      case nc: False
      have keep: "edit i j effect (replicate (m_num_pages b) (properties b)) = replicate (m_num_pages b) (properties b)" for i j
        using kept [OF nc] by (intro edit_id) (auto dest!: in_set_takeD in_set_dropD)
      show ?thesis
      proof (cases "k + r < m_num_pages b")
        case True
        then have e: "update_loop change upd cur r pre ((n, b) # rest) a = update_loop change upd hi 0 (pre @ [(n, b)]) rest a"
          using k nc hi by (subst update_loop.simps) simp
        have sp: "space ((n, b) # rest) = edit k r effect (space ((n, b) # rest))"
          using True by (simp add: edit_append_left keep)
        show ?thesis
          unfolding x e by (rule loop_result_done [OF Cons.prems(2) [unfolded x] sp _ ap _ Cons.prems(6)]) (use nz nc in auto)
      next
        case False
        then have "(cur + r * PageSize - KMemoryBlock_GetEndAddress b) div PageSize = r - (m_num_pages b - k)"
          by (simp add: stop flip: diff_mult_distrib)
        then have "update_loop change upd cur r pre ((n, b) # rest) a =
            update_loop change upd (KMemoryBlock_GetEndAddress b) (r - (m_num_pages b - k)) (pre @ [(n, b)]) rest a"
          using k nc hi False by (subst update_loop.simps) simp
        moreover have ty: "tiles m [(n, b)] (KMemoryBlock_GetEndAddress b)"
          using np m by (simp add: end_address)
        ultimately have "loop_result lo hi (KMemoryBlock_GetEndAddress b) e 0 (r - (m_num_pages b - k)) (pre @ [(n, b)]) rest a
            (update_loop change upd cur r pre ((n, b) # rest) a)"
          using IH [OF False, of "[(n, b)]" a] ap Cons.prems(6) unfolding m by simp
        then show ?thesis
          unfolding x using ty k(2) False nz(1) nc
          by (intro loop_result_Cons [where ys = "[(n, b)]" and r' = "r - (m_num_pages b - k)"]) (simp_all add: keep)
      qed
    qed
  qed
qed

end

section \<open>Merging the blocks of a range\<close>

definition apart_above :: "nat \<Rightarrow> nat \<times> KMemoryBlock \<Rightarrow> nat \<times> KMemoryBlock \<Rightarrow> bool" where
  "apart_above hi x y \<longleftrightarrow> m_address (snd y) \<le> hi \<or> \<not> CanMergeWith (snd x) (snd y)"

lemma unmerged_above:
  "tiles m nodes e \<Longrightarrow> successively (apart_above hi) nodes \<Longrightarrow> nodes = [] \<or> hi < KMemoryBlock_GetEndAddress (snd (hd nodes)) \<Longrightarrow>
   unmerged nodes"
proof (induction nodes arbitrary: m)
  case (Cons x rest)
  obtain n b where x: "x = (n, b)" by fastforce
  show ?case
  proof (cases rest)
    case (Cons y ys)
    obtain n' c where y: "y = (n', c)" by fastforce
    have c: "m_address c = KMemoryBlock_GetEndAddress b" "hi < KMemoryBlock_GetEndAddress b" "tiles (KMemoryBlock_GetEndAddress b) rest e"
      using Cons.prems(1,3) Cons x y by (auto simp: end_address)
    moreover have "unmerged rest"
      using Cons.prems(2) c Cons y by (intro Cons.IH [OF c(3)]) (auto simp: end_address)
    ultimately show ?thesis
      using Cons.prems(2) Cons x y by (simp add: unmerged_def apart_above_def)
  qed (simp add: unmerged_def)
qed (simp add: unmerged_def)

lemma unmerged_append:
  "unmerged (xs @ [x]) \<Longrightarrow> unmerged (x # ys) \<Longrightarrow> unmerged (xs @ x # ys)"
  by (auto simp: unmerged_def successively_append_iff)

text \<open>What merging does: the pages and their properties stay, and every node that is not needed any more
  goes to the allocator or the slab.\<close>

definition merge_result ::
  "(nat \<Rightarrow> 's \<Rightarrow> 's) \<Rightarrow> nat \<Rightarrow> nat \<Rightarrow> block_nodes \<Rightarrow> 's UpdateAllocator \<Rightarrow> (block_nodes \<times> 's UpdateAllocator) option \<Rightarrow> bool" where
  "merge_result free s e nodes a res \<longleftrightarrow>
     (\<exists>nodes' a' freed. res = Some (nodes', a') \<and> tiles s nodes' e \<and> space nodes' = space nodes \<and> unmerged nodes' \<and>
        0 \<notin> fst ` set nodes' \<and> allocator_ok a' \<and> available a \<le> available a' \<and>
        m_slab_manager a' = fold free freed (m_slab_manager a) \<and>
        mset (map fst nodes') + mset (held_blocks a') + mset freed = mset (map fst nodes) + mset (held_blocks a))"

lemma coalesce_loop_ok:
  assumes "tiles s (pre @ suf) e" "suf \<noteq> []" "unmerged (pre @ [hd suf])" "successively (apart_above hi) suf"
    "0 \<notin> fst ` set (pre @ suf)" "allocator_ok a"
  shows "merge_result free s e (pre @ suf) a (coalesce_loop free hi pre suf a)"
  using assms
proof (induction free hi pre suf a rule: coalesce_loop.induct)
  case (2 free stop pre x a)
  then show ?case
    by (auto simp: merge_result_def intro!: exI [of _ "[]"])
next
  case (3 free stop pre n p m c rest a)
  let ?nodes = "pre @ (n, p) # (m, c) # rest"
  show ?case
  proof (cases "CanMergeWith p c")
    case True
    let ?p = "KMemoryBlock_Add c p"
    note add = Add_spec [OF True]
    have "m \<noteq> 0" using 3 by auto
    then obtain a1 freed where F: "UpdateAllocator_Free free m a = Some a1" "allocator_ok a1" "available a \<le> available a1"
      "m_slab_manager a1 = fold free freed (m_slab_manager a)"
      "mset (held_blocks a1) + mset freed = add_mset m (mset (held_blocks a))"
      using UpdateAllocator_Free_ok [OF 3(8)] by metis
    have t: "tiles s (pre @ (n, ?p) # rest) e"
      using 3(3) by (auto simp: tiles_append add add_mult_distrib add.assoc)
    have sp: "space (pre @ (n, ?p) # rest) = space ?nodes"
      by (simp add: add replicate_add)
    have u: "unmerged (pre @ [(n, ?p)])"
      using 3(5) by (simp add: unmerged_def successively_append_iff add)
    have ab: "successively (apart_above stop) ((n, ?p) # rest)"
      using 3(6) by (auto simp: successively_Cons apart_above_def add)
    have lift: "merge_result free s e ?nodes a res" if R: "merge_result free s e (pre @ (n, ?p) # rest) a1 res" for res
    proof -
      obtain nodes' a' freed' where r: "res = Some (nodes', a')" "tiles s nodes' e" "space nodes' = space ?nodes"
        "unmerged nodes'" "0 \<notin> fst ` set nodes'" "allocator_ok a'" "available a1 \<le> available a'"
        "m_slab_manager a' = fold free freed' (m_slab_manager a1)"
        "mset (map fst nodes') + mset (held_blocks a') + mset freed' = mset (map fst (pre @ (n, ?p) # rest)) + mset (held_blocks a1)"
        using R unfolding merge_result_def sp by blast
      have "mset (map fst nodes') + mset (held_blocks a') + mset (freed @ freed') =
          (mset (map fst nodes') + mset (held_blocks a') + mset freed') + mset freed"
        by (simp add: ac_simps)
      also have "\<dots> = mset (map fst (pre @ (n, ?p) # rest)) + (mset (held_blocks a1) + mset freed)"
        by (subst r(9)) (simp only: add.assoc)
      also have "\<dots> = mset (map fst ?nodes) + mset (held_blocks a)"
        by (simp only: F(5)) simp
      finally show ?thesis
        using r F(3,4) unfolding merge_result_def
        by (intro exI [of _ nodes'] exI [of _ a'] exI [of _ "freed @ freed'"]) auto
    qed
    show ?thesis
    proof (cases "stop < KMemoryBlock_GetEndAddress ?p")
      case stop: True
      have "unmerged ((n, ?p) # rest)"
        using t ab stop by (intro unmerged_above [where hi = stop]) (auto simp: tiles_append)
      then have "merge_result free s e (pre @ (n, ?p) # rest) a1 (Some (pre @ (n, ?p) # rest, a1))"
        using t unmerged_append [OF u] F(2) 3(7) unfolding merge_result_def by (auto intro!: exI [of _ "[]"])
      then show ?thesis
        using lift True F stop by simp
    next
      case False
      have "merge_result free s e (pre @ (n, ?p) # rest) a1 (coalesce_loop free stop pre ((n, ?p) # rest) a1)"
        using 3(1) [OF True refl] F t u ab False 3(7) by simp
      then show ?thesis
        using lift True F False by simp
    qed
  next
    case False
    have u: "unmerged (pre @ [(n, p), (m, c)])"
      using unmerged_append [OF 3(5) [simplified], of "[(m, c)]"] False by (simp add: unmerged_def)
    have ab: "successively (apart_above stop) ((m, c) # rest)"
      using 3(6) by (simp add: successively_Cons)
    show ?thesis
    proof (cases "stop < KMemoryBlock_GetEndAddress c")
      case True
      have "unmerged ((m, c) # rest)"
        using 3(3) ab True by (intro unmerged_above [where hi = stop]) (auto simp: tiles_append)
      then have "unmerged ?nodes"
        using unmerged_append [of "pre @ [(n, p)]" "(m, c)" rest] u by simp
      then show ?thesis
        using 3(3,7,8) False True unfolding merge_result_def by (auto intro!: exI [of _ "[]"])
    next
      case stop: False
      then show ?thesis
        using 3(2) [OF False] 3(3,7,8) False u ab by simp
    qed
  qed
qed simp

section \<open>Updates of a whole manager\<close>

definition manager_ok :: "KMemoryBlockManager \<Rightarrow> bool" where
  "manager_ok m \<longleftrightarrow> PageSize dvd m_start_address m \<and> tiles (m_start_address m) (m_memory_block_tree m) (m_end_address m) \<and>
     unmerged (m_memory_block_tree m) \<and> 0 \<notin> fst ` set (m_memory_block_tree m)"

definition manager_space :: "KMemoryBlockManager \<Rightarrow> page_info list" where
  "manager_space m = space (m_memory_block_tree m)"

definition page_index :: "KMemoryBlockManager \<Rightarrow> nat \<Rightarrow> nat" where
  "page_index m address = (address - m_start_address m) div PageSize"

definition splits_needed :: "KMemoryBlockManager \<Rightarrow> nat \<Rightarrow> nat \<Rightarrow> nat" where
  "splits_needed m address n =
     (if is_border address (m_memory_block_tree m) then 0 else 1) +
     (if is_border (address + n * PageSize) (m_memory_block_tree m) then 0 else 1)"

definition range_ok :: "KMemoryBlockManager \<Rightarrow> nat \<Rightarrow> nat \<Rightarrow> bool" where
  "range_ok m address n \<longleftrightarrow> m_start_address m \<le> address \<and> PageSize dvd address \<and> 0 < n \<and>
     address + n * PageSize \<le> m_end_address m"

text \<open>\<^verbatim>\<open>CoalesceForUpdate\<close> steps back from the block with the start of the range. There must be one before.\<close>

definition has_previous :: "(KMemoryBlock \<Rightarrow> bool) \<Rightarrow> KMemoryBlockManager \<Rightarrow> nat \<Rightarrow> bool" where
  "has_previous change m address \<longleftrightarrow> address = m_start_address m \<or>
     (let b = snd (hd (m_memory_block_tree m)) in KMemoryBlock_GetEndAddress b \<le> address \<or> change b)"

definition nodes_of :: "KMemoryBlockManager \<Rightarrow> nat list" where
  "nodes_of m = map fst (m_memory_block_tree m)"

definition update_result ::
  "(page_info \<Rightarrow> page_info) \<Rightarrow> (nat \<Rightarrow> 's \<Rightarrow> 's) \<Rightarrow> nat \<Rightarrow> nat \<Rightarrow> KMemoryBlockManager \<Rightarrow> 's UpdateAllocator \<Rightarrow>
   (KMemoryBlockManager \<times> 's UpdateAllocator) option \<Rightarrow> bool" where
  "update_result effect free address n m a res \<longleftrightarrow>
     (\<exists>m' a' freed. res = Some (m', a') \<and> manager_ok m' \<and> m_start_address m' = m_start_address m \<and>
        m_end_address m' = m_end_address m \<and> manager_space m' = edit (page_index m address) n effect (manager_space m) \<and>
        allocator_ok a' \<and> m_slab_manager a' = fold free freed (m_slab_manager a) \<and>
        mset (nodes_of m') + mset (held_blocks a') + mset freed = mset (nodes_of m) + mset (held_blocks a))"

lemma tiles_inside_not_border_append:
  assumes "tiles s (pre @ (n, b) # rest) e" "m_address b < x" "x < KMemoryBlock_GetEndAddress b"
  shows "\<not> is_border x (pre @ (n, b) # rest)"
proof -
  obtain m where t: "tiles s pre m" "tiles m ((n, b) # rest) e"
    using assms(1) by (auto simp: tiles_append)
  have "\<not> is_border x pre"
  proof
    assume "is_border x pre"
    then obtain c y where c: "(y, c) \<in> set pre" "m_address c = x \<or> KMemoryBlock_GetEndAddress c = x"
      by (auto simp: is_border_def)
    then have "x \<le> m" using tiles_addresses [OF t(1) c(1)] by (auto simp: end_address)
    then show False using t(2) assms(2) by simp
  qed
  then show ?thesis
    using tiles_inside_not_border [OF t(2) assms(2,3)] by (auto simp: is_border_def)
qed

lemma tiles_address_less:
  assumes "tiles s nodes e" "(n, b) \<in> set nodes"
  shows "m_address b < e"
proof -
  have "0 < m_num_pages b * PageSize" using tiles_pos [OF assms] by simp
  then show ?thesis using tiles_addresses [OF assms] by (simp add: end_address del: nat_0_less_mult_iff)
qed

lemma CoalesceForUpdate_ok:
  fixes a :: "'s UpdateAllocator"
  assumes t: "tiles (m_start_address m) (m_memory_block_tree m) (m_end_address m)"
    and ap: "successively (apart_outside address (address + n * PageSize)) (m_memory_block_tree m)"
    and z: "0 \<notin> fst ` set (m_memory_block_tree m)" and a: "allocator_ok a"
    and r: "m_start_address m \<le> address" "address < m_end_address m"
    and prev: "address = m_start_address m \<or> KMemoryBlock_GetEndAddress (snd (hd (m_memory_block_tree m))) \<le> address"
  obtains nodes' a' where "CoalesceForUpdate free address n m a = Some (m\<lparr>m_memory_block_tree := nodes'\<rparr>, a')"
    "merge_result free (m_start_address m) (m_end_address m) (m_memory_block_tree m) a (Some (nodes', a'))"
proof -
  let ?hi = "address + n * PageSize"
  obtain pre x b rest where nodes: "m_memory_block_tree m = pre @ (x, b) # rest" and b: "m_address b \<le> address"
    "address < KMemoryBlock_GetEndAddress b" "tiles (m_start_address m) pre (m_address b)"
    using tiles_find [OF t r] by blast
  have find: "FindIterator address (m_memory_block_tree m) = (pre, (x, b) # rest)"
    unfolding nodes by (rule FindIterator_at [OF b(3,1,2)])
  have ap': "successively (apart_above ?hi) (m_memory_block_tree m)"
    using ap by (rule successively_mono) (auto simp: apart_outside_def apart_above_def)
  have below: "unmerged pre"
  proof -
    have *: "\<not> CanMergeWith (snd u) (snd v)" if "v \<in> set pre" "apart_outside address ?hi u v" for u v
      using tiles_address_less [OF b(3), of "fst v" "snd v"] that b(1) by (auto simp: apart_outside_def)
    have "successively (apart_outside address ?hi) pre"
      using ap unfolding nodes by (simp add: successively_append_iff)
    then show ?thesis
      unfolding unmerged_def by (rule successively_mono) (rule *)
  qed
  obtain pre' suf where ps: "(if address \<noteq> m_start_address m then (if pre = [] then None else Some (butlast pre, last pre # (x, b) # rest))
      else Some (pre, (x, b) # rest)) = Some (pre', suf)" "pre' @ suf = m_memory_block_tree m" "suf \<noteq> []" "unmerged (pre' @ [hd suf])"
  proof (cases "address = m_start_address m")
    case True
    then have "pre = []"
      using b(1,3) tiles_address_less [OF b(3), of "fst (hd pre)" "snd (hd pre)"] by (cases pre) auto
    then show ?thesis
      using that [of "[]" "(x, b) # rest"] True nodes by (simp add: unmerged_def)
  next
    case False
    then have "pre \<noteq> []"
      using prev b(2) nodes by auto
    then show ?thesis
      using that [of "butlast pre" "last pre # (x, b) # rest"] False nodes below by simp
  qed
  have "successively (apart_above ?hi) suf"
    using ap' unfolding ps(2) [symmetric] by (simp add: successively_append_iff)
  then have M: "merge_result free (m_start_address m) (m_end_address m) (m_memory_block_tree m) a (coalesce_loop free ?hi pre' suf a)"
    using coalesce_loop_ok [of "m_start_address m" pre' suf "m_end_address m" ?hi a free] t z a ps(2-4) by simp
  then obtain nodes' a' where "coalesce_loop free ?hi pre' suf a = Some (nodes', a')"
    unfolding merge_result_def by blast
  then show ?thesis
    using that [of nodes' a'] M ps(1) find by (simp add: CoalesceForUpdate_def)
qed

lemma CoalesceForUpdate_nodes:
  fixes a :: "'s UpdateAllocator"
  assumes "m_memory_block_tree m = nodes" "m_start_address m = s" "m_end_address m = e" "tiles s nodes e"
    "successively (apart_outside address (address + n * PageSize)) nodes" "0 \<notin> fst ` set nodes" "allocator_ok a"
    "s \<le> address" "address < e" "address = s \<or> KMemoryBlock_GetEndAddress (snd (hd nodes)) \<le> address"
  obtains nodes' a' where "CoalesceForUpdate free address n m a = Some (m\<lparr>m_memory_block_tree := nodes'\<rparr>, a')"
    "merge_result free s e nodes a (Some (nodes', a'))"
  using CoalesceForUpdate_ok [of m address n a free] assms by metis

context range_update
begin

theorem update_range_ok:
  fixes a :: "'s UpdateAllocator"
  assumes ok: "manager_ok m" and range: "range_ok m address n" and a: "allocator_ok a" "splits_needed m address n \<le> available a"
    and prev: "has_previous change m address"
    and rd: "\<forall>(x, b) \<in> set (m_memory_block_tree m). m_address b < address + n * PageSize \<and> address < KMemoryBlock_GetEndAddress b \<longrightarrow> ready b"
  shows "update_result effect free address n m a (update_range change upd free address n m a)"
proof -
  let ?s = "m_start_address m" and ?e = "m_end_address m" and ?hi = "address + n * PageSize"
  have t: "tiles ?s (m_memory_block_tree m) ?e" and al: "PageSize dvd ?s"
    and un: "unmerged (m_memory_block_tree m)" and z: "0 \<notin> fst ` set (m_memory_block_tree m)"
    using ok by (simp_all add: manager_ok_def)
  have r: "?s \<le> address" "address < ?e" "PageSize dvd address" "0 < n" "?hi \<le> ?e"
  proof -
    have "0 < n * PageSize" using range by (simp add: range_ok_def)
    then show "address < ?e" using range unfolding range_ok_def by linarith
  qed (use range in \<open>simp_all add: range_ok_def\<close>)
  obtain pre x b rest where nodes: "m_memory_block_tree m = pre @ (x, b) # rest" and b: "m_address b \<le> address"
    "address < KMemoryBlock_GetEndAddress b" "tiles ?s pre (m_address b)"
    using tiles_find [OF t r(1,2)] by blast
  have find: "FindIterator address (m_memory_block_tree m) = (pre, (x, b) # rest)"
    unfolding nodes by (rule FindIterator_at [OF b(3,1,2)])
  have bs: "m_address b = ?s + length (space pre) * PageSize"
    by (rule tiles_length [OF b(3)])
  then have "PageSize dvd m_address b" using al by simp
  then obtain k where k: "address = m_address b + k * PageSize"
    using r(3) b(1) by (metis dvd_diff_nat dvdE le_add_diff_inverse mult.commute)
  have ts: "tiles (m_address b) ((x, b) # rest) ?e"
    using t b(3) unfolding nodes tiles_append by (auto dest!: tiles_length)
  have kb: "k < m_num_pages b"
    using b(2) k by (simp add: end_address)
  have nb: "is_border ?hi ((x, b) # rest) = is_border ?hi (m_memory_block_tree m)"
    using tiles_addresses [OF b(3)] b(1) r(4) by (fastforce simp: nodes is_border_def end_address)
  have "is_border address (m_memory_block_tree m) \<longleftrightarrow> k = 0"
    using tiles_inside_not_border_append [of ?s pre x b rest ?e address] t b(1,2) k
    by (auto simp: nodes is_border_def)
  then have av: "(if n = 0 \<or> k = 0 then 0 else 1) + (if n = 0 \<or> is_border ?hi ((x, b) # rest) then 0 else 1) \<le> available a"
    using a(2) nb by (auto simp: splits_needed_def split: if_splits)
  have rd': "ready c" if "(y, c) \<in> set (m_memory_block_tree m)" "m_address c < ?hi" "address < KMemoryBlock_GetEndAddress c" for y c
    using rd that by blast
  have "address < KMemoryBlock_GetEndAddress c" if "(y, c) \<in> set rest" for y c
    using tiles_addresses [of "KMemoryBlock_GetEndAddress b" rest ?e y c] that ts b(2) by (simp add: end_address)
  then have ready: "\<forall>(y, c) \<in> set ((x, b) # rest). m_address c < ?hi \<longrightarrow> ready c"
    using b(2) rd' by (auto simp: nodes)
  have ap: "successively (apart_outside address ?hi) (pre @ (x, b) # rest)"
    using un unfolding nodes unmerged_def by (rule successively_mono) (simp add: apart_outside_def)
  have "loop_result address ?hi (m_address b) ?e k n pre ((x, b) # rest) a (update_loop change upd address n pre ((x, b) # rest) a)"
    using z r by (intro update_loop_ok [OF b(3) ts k _ _ a(1) av ready _ _ _ ap]) (auto simp: nodes kb)
  then obtain suf' a1 where L: "update_loop change upd address n pre ((x, b) # rest) a = Some (pre @ suf', a1)"
    "tiles (m_address b) suf' ?e" "space suf' = edit k n effect (space ((x, b) # rest))" "0 \<notin> fst ` set suf'"
    "successively (apart_outside address ?hi) (pre @ suf')" "change b \<longrightarrow> is_border address suf'" "allocator_ok a1"
    "m_slab_manager a1 = m_slab_manager a"
    "mset (map fst suf') + mset (held_blocks a1) = mset (map fst ((x, b) # rest)) + mset (held_blocks a)"
    using r(4) unfolding loop_result_def k [symmetric] by auto
  let ?m = "m\<lparr>m_memory_block_tree := pre @ suf'\<rparr>"
  have t1: "tiles ?s (pre @ suf') ?e"
    using b(3) L(2) by (auto simp: tiles_append)
  have prev1: "address = ?s \<or> KMemoryBlock_GetEndAddress (snd (hd (pre @ suf'))) \<le> address"
  proof (cases pre)
    case Nil
    have "address = ?s \<or> change b"
      using prev b(2) Nil by (simp add: has_previous_def nodes)
    moreover have "KMemoryBlock_GetEndAddress (snd (hd suf')) \<le> address" if "address \<noteq> ?s" "change b"
    proof (rule ccontr)
      obtain y c ys where "suf' = (y, c) # ys" using L(2) b(1) r(2) by (cases suf') auto
      moreover assume "\<not> KMemoryBlock_GetEndAddress (snd (hd suf')) \<le> address"
      ultimately show False
        using tiles_inside_not_border_append [of ?s "[]" y c ys ?e address] t1 L(6) that r(1) Nil by simp
    qed
    ultimately show ?thesis
      using Nil by auto
  next
    case (Cons p ps)
    then show ?thesis
      using tiles_addresses [OF b(3), of "fst p" "snd p"] b(1) by simp
  qed
  have z1: "0 \<notin> fst ` set (pre @ suf')"
    using z L(4) by (auto simp: nodes)
  have sel: "m_memory_block_tree ?m = pre @ suf'" "m_start_address ?m = ?s" "m_end_address ?m = ?e"
    by simp_all
  obtain nodes' a' where C: "CoalesceForUpdate free address n ?m a1 = Some (?m\<lparr>m_memory_block_tree := nodes'\<rparr>, a')"
    "merge_result free ?s ?e (pre @ suf') a1 (Some (nodes', a'))"
    by (rule CoalesceForUpdate_nodes [OF sel t1 L(5) z1 L(7) r(1,2) prev1, where free = free])
  then obtain freed where M: "tiles ?s nodes' ?e" "space nodes' = space (pre @ suf')" "unmerged nodes'" "0 \<notin> fst ` set nodes'"
    "allocator_ok a'" "m_slab_manager a' = fold free freed (m_slab_manager a1)"
    "mset (map fst nodes') + mset (held_blocks a') + mset freed = mset (map fst (pre @ suf')) + mset (held_blocks a1)"
    unfolding merge_result_def by blast
  have "space (pre @ suf') = edit (page_index m address) n effect (manager_space m)"
    using bs k by (simp add: L(3) page_index_def manager_space_def nodes edit_append_right flip: distrib_right)
  moreover have "mset (map fst (pre @ suf')) + mset (held_blocks a1) = mset (nodes_of m) + mset (held_blocks a)"
    using L(9) by (simp add: nodes_of_def nodes add.assoc)
  ultimately have "update_result effect free address n m a (Some (?m\<lparr>m_memory_block_tree := nodes'\<rparr>, a'))"
    using M al L(8) unfolding update_result_def
    by (intro exI [of _ "?m\<lparr>m_memory_block_tree := nodes'\<rparr>"] exI [of _ a'] exI [of _ freed])
      (auto simp: manager_ok_def manager_space_def nodes_of_def)
  then show ?thesis
    by (simp add: update_range_def find L(1) C(1))
qed

end

end
