(* ===== verification/Kern_MemoryBlockManager_Spec.thy ===== *)
theory Kern_MemoryBlockManager_Spec
  imports Kern_MemoryBlockManager_Inv
begin

text \<open>
  What the operations of \<^verbatim>\<open>KMemoryBlockManager\<close> do to the pages of an address space: setting properties, locking
  for messages and sharing with devices as updates of a range, the lookup of a block, the search for free
  space, the check of the tree, and the accounting of the blocks between tree, allocator and slab.
\<close>

unbundle bit_operations_syntax

section \<open>Setting the properties of pages\<close>

abbreviation kept_attributes :: u8 where
  "kept_attributes \<equiv> attribute_value KMemoryAttribute_IpcLocked OR attribute_value KMemoryAttribute_DeviceShared"

definition page_matches :: "u32 \<Rightarrow> u8 \<Rightarrow> u8 \<Rightarrow> page_info \<Rightarrow> bool" where
  "page_matches s p t x \<longleftrightarrow> page_state x = s \<and> page_permission x = p \<and> page_attribute x OR kept_attributes = t OR kept_attributes"

definition set_page :: "u32 \<Rightarrow> u8 \<Rightarrow> u8 \<Rightarrow> page_info \<Rightarrow> page_info" where
  "set_page s p t x = x\<lparr>page_state := s, page_permission := p, page_attribute := t OR (page_attribute x AND kept_attributes)\<rparr>"

lemma HasProperties_page: "HasProperties s p t b \<longleftrightarrow> page_matches s p t (properties b)"
  by (simp add: HasProperties_def page_matches_def properties_def Let_def)

lemma set_page_matching:
  assumes "page_matches s p t x" "t AND kept_attributes = 0"
  shows "set_page s p t x = x"
proof -
  have "t OR (page_attribute x AND kept_attributes) = page_attribute x"
  proof (rule bit_word_eqI)
    fix n assume "n < LENGTH(8)"
    have "bit (page_attribute x OR kept_attributes) n \<longleftrightarrow> bit (t OR kept_attributes) n" "\<not> bit (t AND kept_attributes) n"
      using assms by (simp_all only: page_matches_def bit_0_eq) simp
    then show "bit (t OR (page_attribute x AND kept_attributes)) n \<longleftrightarrow> bit (page_attribute x) n"
      by (auto simp: bit_or_iff bit_and_iff)
  qed
  then show ?thesis
    using assms(1) by (simp add: set_page_def page_matches_def)
qed

lemma Update_block [simp]:
  "m_address (KMemoryBlock_Update s p t d x y b) = m_address b"
  "m_num_pages (KMemoryBlock_Update s p t d x y b) = m_num_pages b"
  "properties (KMemoryBlock_Update s p t d x y b) = set_page s p t (properties b)"
  by (simp_all add: KMemoryBlock_Update_def Let_def properties_def set_page_def)

interpretation set_range: range_update "\<lambda>b. \<not> HasProperties s p t b"
    "\<lambda>cur b. Some (KMemoryBlock_Update s p t (cur = address) set_attr clear_attr b)"
    "\<lambda>x. if page_matches s p t x then x else set_page s p t x" "\<lambda>b. True" for s p t address set_attr clear_attr
  by unfold_locales (auto simp: HasProperties_page)

interpretation match_range: range_update "\<lambda>b. HasProperties s0 p0 t0 b \<and> \<not> HasProperties s p t b"
    "\<lambda>cur b. Some (KMemoryBlock_Update s p t False 0 0 b)"
    "\<lambda>x. if page_matches s0 p0 t0 x \<and> \<not> page_matches s p t x then set_page s p t x else x" "\<lambda>b. True" for s0 p0 t0 s p t
  by unfold_locales (auto simp: HasProperties_page)

section \<open>Locks of pages\<close>

text \<open>What the functions given to \<^verbatim>\<open>UpdateLock\<close> do to a page.\<close>

definition lock_page :: "u8 \<Rightarrow> page_info \<Rightarrow> page_info" where
  "lock_page perm x =
     (let count = page_ipc_lock_count x + 1; ch = permission_value KMemoryPermission_IpcLockChangeMask
      in (if count = 1
          then x\<lparr>page_original_permission := page_permission x, page_permission := (perm AND ch) OR (page_permission x AND NOT ch)\<rparr>
          else x)\<lparr>page_ipc_lock_count := count, page_attribute := page_attribute x OR attribute_value KMemoryAttribute_IpcLocked\<rparr>)"

definition unlock_page :: "page_info \<Rightarrow> page_info" where
  "unlock_page x =
     (if page_ipc_lock_count x = 1
      then x\<lparr>page_permission := page_original_permission x, page_original_permission := permission_value KMemoryPermission_None,
             page_attribute := page_attribute x AND NOT (attribute_value KMemoryAttribute_IpcLocked), page_ipc_lock_count := 0\<rparr>
      else x\<lparr>page_ipc_lock_count := page_ipc_lock_count x - 1\<rparr>)"

definition share_page :: "page_info \<Rightarrow> page_info" where
  "share_page x = x\<lparr>page_device_use_count := page_device_use_count x + 1,
     page_attribute := page_attribute x OR attribute_value KMemoryAttribute_DeviceShared\<rparr>"

definition unshare_page :: "page_info \<Rightarrow> page_info" where
  "unshare_page x =
     (if page_device_use_count x = 1
      then x\<lparr>page_device_use_count := 0, page_attribute := page_attribute x AND NOT (attribute_value KMemoryAttribute_DeviceShared)\<rparr>
      else x\<lparr>page_device_use_count := page_device_use_count x - 1\<rparr>)"

text \<open>The contract of a function that \<^verbatim>\<open>UpdateLock\<close> takes, and its use as an update of a range.\<close>

locale page_lock =
  fixes f :: lock_func
    and effect :: "u8 \<Rightarrow> page_info \<Rightarrow> page_info"
    and ready :: "KMemoryBlock \<Rightarrow> bool"
  assumes f_ready: "ready b \<Longrightarrow> \<exists>b'. f perm l r b = Some b'"
    and f_place: "f perm l r b = Some b' \<Longrightarrow> m_address b' = m_address b \<and> m_num_pages b' = m_num_pages b"
    and f_effect: "f perm l r b = Some b' \<Longrightarrow> properties b' = effect perm (properties b)"
    and f_low: "ready b \<Longrightarrow> ready (fst (KMemoryBlock_Split addr b))"
    and f_high: "ready b \<Longrightarrow> ready (snd (KMemoryBlock_Split addr b))"
begin

sublocale lock_range: range_update "\<lambda>b. True"
    "\<lambda>cur b. f perm (info_address (GetMemoryInfo b) = address) (info_end (GetMemoryInfo b) = stop) b" "effect perm" ready
  for perm address stop
  by unfold_locales (auto simp: f_ready f_effect f_low f_high dest: f_place)

lemma UpdateLock_ok:
  assumes "manager_ok m" "range_ok m address n" "allocator_ok a" "splits_needed m address n \<le> available a"
    "\<forall>(x, b) \<in> set (m_memory_block_tree m). m_address b < address + n * PageSize \<and> address < KMemoryBlock_GetEndAddress b \<longrightarrow> ready b"
  shows "update_result (effect perm) free address n m a (UpdateLock free address n f perm m a)"
  unfolding UpdateLock_def Let_def using assms by (intro lock_range.update_range_ok) (auto simp: has_previous_def)

end

lemmas split_simps = KMemoryBlock_Split_def Let_def

lemma ShareLeft_block:
  "UpdateDeviceDisableMergeStateForShareLeft perm l r b = Some b' \<Longrightarrow>
   m_address b' = m_address b \<and> m_num_pages b' = m_num_pages b \<and> properties b' = properties b \<and>
   m_device_disable_merge_right_count b' = m_device_disable_merge_right_count b"
  by (auto simp: UpdateDeviceDisableMergeStateForShareLeft_def Let_def properties_def split: if_splits)

lemma ShareRight_block:
  "UpdateDeviceDisableMergeStateForShareRight perm l r b = Some b' \<Longrightarrow>
   m_address b' = m_address b \<and> m_num_pages b' = m_num_pages b \<and> properties b' = properties b"
  by (auto simp: UpdateDeviceDisableMergeStateForShareRight_def Let_def properties_def split: if_splits)

lemma UnshareLeft_block:
  "m_address (UpdateDeviceDisableMergeStateForUnshareLeft perm l r b) = m_address b"
  "m_num_pages (UpdateDeviceDisableMergeStateForUnshareLeft perm l r b) = m_num_pages b"
  "properties (UpdateDeviceDisableMergeStateForUnshareLeft perm l r b) = properties b"
  by (simp_all add: UpdateDeviceDisableMergeStateForUnshareLeft_def Let_def properties_def)

lemma UnshareRight_block:
  "m_address (UpdateDeviceDisableMergeStateForUnshareRight perm l r b) = m_address b"
  "m_num_pages (UpdateDeviceDisableMergeStateForUnshareRight perm l r b) = m_num_pages b"
  "properties (UpdateDeviceDisableMergeStateForUnshareRight perm l r b) = properties b"
  by (simp_all add: UpdateDeviceDisableMergeStateForUnshareRight_def Let_def properties_def)

lemma Suc_word_pos: "(x + 1 > (0 :: 'a::len word)) \<longleftrightarrow> x \<noteq> - 1"
  by (metis add.commute add.right_inverse add_diff_cancel_right' diff_0 word_gt_0)

definition merge_counts_free :: "KMemoryBlock \<Rightarrow> bool" where
  "merge_counts_free b \<longleftrightarrow> m_device_disable_merge_left_count b \<noteq> -1 \<and> m_device_disable_merge_right_count b \<noteq> -1"

lemma Share_total:
  assumes "merge_counts_free b"
  shows "\<exists>b'. UpdateDeviceDisableMergeStateForShare perm l r b = Some b'"
proof -
  obtain c where c: "UpdateDeviceDisableMergeStateForShareLeft perm l r b = Some c"
    using assms by (cases l) (simp_all add: UpdateDeviceDisableMergeStateForShareLeft_def merge_counts_free_def Suc_word_pos Let_def)
  then have "m_device_disable_merge_right_count c \<noteq> -1"
    using ShareLeft_block [OF c] assms by (simp add: merge_counts_free_def)
  then show ?thesis
    using c by (cases r) (simp_all add: UpdateDeviceDisableMergeStateForShare_def UpdateDeviceDisableMergeStateForShareRight_def
        Suc_word_pos Let_def)
qed

lemma Share_block:
  assumes "UpdateDeviceDisableMergeStateForShare perm l r b = Some b'"
  shows "m_address b' = m_address b \<and> m_num_pages b' = m_num_pages b \<and> properties b' = properties b"
  using assms unfolding UpdateDeviceDisableMergeStateForShare_def
  by (auto simp: bind_eq_Some_conv dest!: ShareLeft_block ShareRight_block)

interpretation share_merge: page_lock UpdateDeviceDisableMergeStateForShare "\<lambda>perm x. x" merge_counts_free
proof
  fix b b' perm l r addr
  show "\<exists>b'. UpdateDeviceDisableMergeStateForShare perm l r b = Some b'" if "merge_counts_free b"
    by (rule Share_total [OF that])
  show "m_address b' = m_address b \<and> m_num_pages b' = m_num_pages b" "properties b' = properties b"
    if "UpdateDeviceDisableMergeStateForShare perm l r b = Some b'"
    using Share_block [OF that] by simp_all
qed (simp_all add: merge_counts_free_def split_simps)

interpretation unshare_merge: page_lock UpdateDeviceDisableMergeStateForUnshare "\<lambda>perm x. x" "\<lambda>b. True"
  by unfold_locales (auto simp: UpdateDeviceDisableMergeStateForUnshare_def UnshareLeft_block UnshareRight_block)

interpretation share: page_lock ShareToDevice "\<lambda>perm. share_page"
    "\<lambda>b. m_device_use_count b \<noteq> -1 \<and> merge_counts_free b"
proof
  fix b b' perm l r addr
  show "\<exists>b'. ShareToDevice perm l r b = Some b'" if "m_device_use_count b \<noteq> -1 \<and> merge_counts_free b"
    using that by (auto simp: ShareToDevice_def Let_def Suc_word_pos merge_counts_free_def intro!: Share_total)
  show "m_address b' = m_address b \<and> m_num_pages b' = m_num_pages b" "properties b' = share_page (properties b)"
    if "ShareToDevice perm l r b = Some b'"
    using that by (auto simp: ShareToDevice_def Let_def share_page_def properties_def split: if_splits dest!: Share_block)
qed (simp_all add: merge_counts_free_def split_simps)

interpretation unshare: page_lock UnshareToDevice "\<lambda>perm. unshare_page" "\<lambda>b. m_device_use_count b \<noteq> 0"
  by unfold_locales
    (auto simp: UnshareToDevice_def Let_def UpdateDeviceDisableMergeStateForUnshare_def UnshareLeft_block UnshareRight_block
      unshare_page_def word_gt_0 split_simps split: if_splits, (auto simp: properties_def)+)

interpretation unshare_right: page_lock UnshareToDeviceRight "\<lambda>perm. unshare_page" "\<lambda>b. m_device_use_count b \<noteq> 0"
  by unfold_locales
    (auto simp: UnshareToDeviceRight_def Let_def UnshareRight_block unshare_page_def word_gt_0 split_simps
      split: if_splits, (auto simp: properties_def)+)

interpretation ipc_lock: page_lock LockForIpc lock_page "\<lambda>b. m_ipc_lock_count b \<noteq> -1 \<and> m_ipc_disable_merge_count b \<noteq> -1"
  by unfold_locales
    (auto simp: LockForIpc_def Let_def lock_page_def Suc_word_pos split_simps properties_def split: if_splits)

interpretation ipc_unlock: page_lock UnlockForIpc "\<lambda>perm. unlock_page" "\<lambda>b. m_ipc_lock_count b \<noteq> 0"
  by unfold_locales
    (auto simp: UnlockForIpc_def Let_def unlock_page_def word_gt_0 split_simps properties_def split: if_splits)

section \<open>Looking up a page\<close>

lemma space_nth:
  "tiles s nodes e \<Longrightarrow> (x, b) \<in> set nodes \<Longrightarrow> m_address b \<le> address \<Longrightarrow> address < KMemoryBlock_GetEndAddress b \<Longrightarrow>
   space nodes ! ((address - s) div PageSize) = properties b"
proof (induction s nodes e rule: tiles.induct)
  case (2 s y c nodes e)
  let ?e = "s + m_num_pages c * PageSize"
  show ?case
  proof (cases "(x, b) \<in> set nodes")
    case True
    then have a: "?e \<le> address"
      using tiles_addresses [of ?e nodes e x b] 2 by auto
    then have "(address - s) div PageSize = m_num_pages c + (address - ?e) div PageSize"
      using div_mult_self1 [of PageSize "address - ?e" "m_num_pages c"] by (simp add: add.commute)
    then show ?thesis
      using 2 True by (simp add: nth_append)
  next
    case False
    then have "b = c" "m_address b = s" using 2 by auto
    moreover have "(address - s) div PageSize < m_num_pages c"
      using 2(4,5) calculation by (intro less_mult_imp_div_less) (simp add: end_address less_diff_conv2)
    ultimately show ?thesis
      by (simp add: nth_append)
  qed
qed simp

lemma FindBlock_page:
  assumes "manager_ok m" "m_start_address m \<le> address" "address < m_end_address m"
  obtains x b where "FindBlock address m = Some (x, b)" "(x, b) \<in> set (m_memory_block_tree m)" "m_address b \<le> address"
    "address < KMemoryBlock_GetEndAddress b" "manager_space m ! page_index m address = properties b"
proof -
  have t: "tiles (m_start_address m) (m_memory_block_tree m) (m_end_address m)"
    using assms(1) by (simp add: manager_ok_def)
  obtain pre x b rest where n: "m_memory_block_tree m = pre @ (x, b) # rest" and b: "m_address b \<le> address"
    "address < KMemoryBlock_GetEndAddress b" "tiles (m_start_address m) pre (m_address b)"
    using tiles_find [OF t assms(2,3)] by blast
  have "FindBlock address m = Some (x, b)"
    by (simp add: FindBlock_def n FindIterator_at [OF b(3,1,2)])
  moreover have "manager_space m ! page_index m address = properties b"
    unfolding manager_space_def page_index_def by (rule space_nth [OF t _ b(1,2), of x]) (simp add: n)
  ultimately show ?thesis
    using that b n by simp
qed

section \<open>The search for free space\<close>

lemma next_aligned:
  fixes base al off :: nat
  assumes "off < al"
  defines "c \<equiv> (let d = base div al * al + off in if base \<le> d then d else d + al)"
  shows "base \<le> c" "c < base + al" "c mod al = off" "base \<le> x \<Longrightarrow> x mod al = off \<Longrightarrow> c \<le> x"
proof -
  obtain d r where b: "base = d + r" "r < al" "base div al * al = d"
    using assms(1) by (metis div_mult_mod_eq mod_less_divisor gr_implies_not0 neq0_conv)
  show "base \<le> c" "c < base + al"
    using b(1,2) assms(1) unfolding c_def Let_def b(3) by auto
  show "c mod al = off"
    using assms(1) by (simp add: c_def Let_def mod_mult_self3)
  assume x: "base \<le> x" "x mod al = off"
  have xd: "x = x div al * al + off" using x(2) by (metis div_mult_mod_eq)
  have q: "base div al \<le> x div al" using x(1) by (rule div_le_mono)
  show "c \<le> x"
  proof (cases "base \<le> base div al * al + off")
    case True
    then show ?thesis using q xd by (simp add: c_def Let_def) (metis add_le_cancel_right mult_le_mono1)
  next
    case False
    have "base div al \<noteq> x div al" using False x(1) xd by metis
    then have "Suc (base div al) * al \<le> x div al * al" using q by (intro mult_le_mono1) simp
    then show ?thesis using False xd by (simp add: c_def Let_def)
  qed
qed

text \<open>An address for \<open>num_pages\<close> pages and their guard pages inside one free block of the region.\<close>

definition area_fits :: "nat \<Rightarrow> nat \<Rightarrow> nat \<Rightarrow> nat \<Rightarrow> nat \<Rightarrow> nat \<Rightarrow> KMemoryBlock \<Rightarrow> nat \<Rightarrow> bool" where
  "area_fits region_start region_end num_pages alignment offset guard_pages b x \<longleftrightarrow>
     m_memory_state b = state_value KMemoryState_Free \<and> x mod alignment = offset \<and>
     max region_start (m_address b) + guard_pages * PageSize \<le> x \<and>
     x + (num_pages + guard_pages) * PageSize \<le> min region_end (KMemoryBlock_GetEndAddress b)"

definition search_bounds :: "nat \<Rightarrow> nat \<Rightarrow> nat \<Rightarrow> nat \<Rightarrow> nat \<Rightarrow> bool" where
  "search_bounds region_end num_pages alignment offset guard_pages \<longleftrightarrow>
     region_end \<le> 2 ^ 62 \<and> 0 < num_pages \<and> (num_pages + guard_pages) * PageSize < 2 ^ 64 \<and> guard_pages * PageSize \<le> 2 ^ 62 \<and>
     (\<exists>j \<le> 62. alignment = 2 ^ j) \<and> offset < alignment"

lemma area_bounds:
  fixes d base al off :: nat
  assumes "d \<le> base" "base \<le> 2 ^ 62 + 2 ^ 62" "al \<le> 2 ^ 62" "off < al"
  shows "base < 2 ^ 64" "d + off < 2 ^ 64" "d + off + al < 2 ^ 64"
  using assms by simp_all

lemma free_area_in_fits:
  assumes sb: "search_bounds region_end n al off g" and rs: "0 < region_start" "region_start \<le> region_end"
    and b: "KMemoryBlock_GetEndAddress b \<le> 2 ^ 62" "0 < m_num_pages b" "m_memory_state b = state_value KMemoryState_Free"
  shows "case free_area_in region_start (region_end - 1) n al off g (GetMemoryInfo b) of
           Some area \<Rightarrow> area_fits region_start region_end n al off g b area
         | None \<Rightarrow> \<forall>x. \<not> area_fits region_start region_end n al off g b x"
proof -
  let ?base = "max region_start (m_address b) + g * PageSize"
  define c where "c = (let d = ?base div al * al + off in if ?base \<le> d then d else d + al)"
  obtain j where j: "al = 2 ^ j" "j \<le> 62" and off: "off < al" and N: "0 < n" "(n + g) * PageSize < 2 ^ 64"
    and re: "region_end \<le> 2 ^ 62" and G: "g * PageSize \<le> 2 ^ 62"
    using sb by (auto simp: search_bounds_def)
  note c = next_aligned [OF off, where base = ?base, folded c_def]
  have al: "al \<le> 2 ^ 62" using power_increasing [of j 62 "2 :: nat"] j by simp
  have eb: "m_address b < KMemoryBlock_GetEndAddress b"
    using b(2) by (simp add: end_address)
  have base: "?base \<le> 2 ^ 62 + 2 ^ 62"
    using rs re G eb b(1) by (intro add_mono) (auto simp: max_def)
  have cb: "c < 2 ^ 64" using c(2) base al by simp
  define S where "S = c + (n + g) * PageSize"
  have S: "c + PageSize \<le> S"
    using N(1) by (cases n) (simp_all add: S_def)
  have S0: "0 < S" using \<open>c + PageSize \<le> S\<close> by (simp add: PageSize_def)
  have last: "KMemoryBlock_GetLastAddress b = KMemoryBlock_GetEndAddress b - 1"
    by (simp add: KMemoryBlock_GetLastAddress_def)
  have area: "free_area_in region_start (region_end - 1) n al off g (GetMemoryInfo b) =
      (let area_last = wrap64 (wrap64 S + (2 ^ 64 - 1))
       in if m_address b \<le> c \<and> c < area_last \<and> area_last \<le> region_end - 1 \<and> area_last \<le> KMemoryBlock_GetEndAddress b - 1
          then Some c else None)"
  proof -
    let ?d = "?base div al * al + off"
    have "?base div al * al \<le> ?base" by simp
    note bounds = area_bounds [OF this base al off]
    have w: "wrap64 ?base = ?base" "wrap64 ?d = ?d" "wrap64 (?d + al) = ?d + al"
      unfolding wrap64_def by (simp_all only: mod_less bounds)
    have m: "(if m_address b \<le> region_start then region_start else m_address b) = max region_start (m_address b)"
      by (simp add: max_def)
    have ad: "AlignDown ?base al = ?base div al * al"
      unfolding j(1) by (rule AlignDown_pow2)
    have "c + n * PageSize + g * PageSize = S"
      by (simp add: S_def add_mult_distrib)
    then show ?thesis
      unfolding free_area_in_def Let_def memory_info_simps m w(1) ad w(2,3) last c_def [unfolded Let_def, symmetric] by simp
  qed
  have "free_area_in region_start (region_end - 1) n al off g (GetMemoryInfo b) =
      (if S \<le> region_end \<and> S \<le> KMemoryBlock_GetEndAddress b then Some c else None)"
  proof (cases "S < 2 ^ 64")
    case True
    obtain T where T: "S = Suc T" using S0 by (cases S) auto
    then have "wrap64 (wrap64 S + (2 ^ 64 - 1)) = S - 1"
      using True by (simp add: wrap64_def mod_if)
    moreover have "m_address b \<le> c" using c(1) by simp
    moreover have "c < S - 1" using S by (simp add: PageSize_def)
    ultimately show ?thesis
      using S0 rs eb unfolding area Let_def by auto
  next
    case False
    then have "wrap64 S = S - 2 ^ 64" "S - 2 ^ 64 < c"
      using cb N(2) by (simp_all add: wrap64_def S_def mod_if)
    then have "c < wrap64 (wrap64 S + (2 ^ 64 - 1)) \<longrightarrow> wrap64 (wrap64 S + (2 ^ 64 - 1)) = 2 ^ 64 - 1"
      using cb by (cases "S - 2 ^ 64") (simp_all add: wrap64_def mod_if)
    then show ?thesis
      using False re unfolding area Let_def by auto
  qed
  moreover have "area_fits region_start region_end n al off g b c" if "S \<le> region_end" "S \<le> KMemoryBlock_GetEndAddress b"
    using that c(1,3) b(3) by (simp add: area_fits_def S_def)
  moreover have "S \<le> region_end \<and> S \<le> KMemoryBlock_GetEndAddress b" if "area_fits region_start region_end n al off g b x" for x
    using that c(4) [of x] by (auto simp: area_fits_def S_def)
  ultimately show ?thesis
    by (auto split: if_splits)
qed

lemma area_fits_inside:
  assumes "area_fits region_start region_end n al off g b x" "0 < n"
  shows "region_start + g * PageSize \<le> x" "m_address b + g * PageSize \<le> x" "x + (n + g) * PageSize \<le> region_end"
    "x + (n + g) * PageSize \<le> KMemoryBlock_GetEndAddress b" "x < region_end" "x < KMemoryBlock_GetEndAddress b"
proof -
  show a: "region_start + g * PageSize \<le> x" "m_address b + g * PageSize \<le> x" "x + (n + g) * PageSize \<le> region_end"
    "x + (n + g) * PageSize \<le> KMemoryBlock_GetEndAddress b"
    using assms(1) by (simp_all add: area_fits_def max_def split: if_splits)
  have "0 < (n + g) * PageSize" using assms(2) by simp
  then show "x < region_end" "x < KMemoryBlock_GetEndAddress b"
    using a(3,4) by linarith+
qed

lemma FindFreeArea_loop_fits:
  assumes "tiles s nodes e" "e \<le> 2 ^ 62" "search_bounds region_end n al off g" "0 < region_start" "region_start < region_end"
  shows "let r = FindFreeArea_loop region_start (region_end - 1) n al off g nodes
    in if r = 0 then \<forall>(y, b) \<in> set nodes. \<forall>x. \<not> area_fits region_start region_end n al off g b x
       else \<exists>(y, b) \<in> set nodes. area_fits region_start region_end n al off g b r"
  using assms(1,2)
proof (induction s nodes e rule: tiles.induct)
  case (2 s y b nodes e)
  let ?fits = "area_fits region_start region_end n al off g"
  have t: "tiles (KMemoryBlock_GetEndAddress b) nodes e" and pos: "0 < m_num_pages b"
    using 2 by (simp_all add: end_address)
  have eb: "KMemoryBlock_GetEndAddress b \<le> 2 ^ 62"
    using tiles_length [OF t] 2 by simp
  have IH: "let r = FindFreeArea_loop region_start (region_end - 1) n al off g nodes
    in if r = 0 then \<forall>(y, b) \<in> set nodes. \<forall>x. \<not> ?fits b x else \<exists>(y, b) \<in> set nodes. ?fits b r"
    using 2 by simp
  have nfree: "\<not> ?fits b x" if "m_memory_state b \<noteq> state_value KMemoryState_Free" for x
    using that by (simp add: area_fits_def)
  show ?case
  proof (cases "region_end - 1 < m_address b")
    case True
    have "\<not> ?fits c x" if "region_end \<le> m_address c" for c x
      using area_fits_inside(2,5) [of region_start region_end n al off g c x] assms(3) that by (auto simp: search_bounds_def)
    moreover have "region_end \<le> m_address c" if "(z, c) \<in> set nodes" for z c
      using tiles_addresses [OF t that] True unfolding end_address by linarith
    ultimately show ?thesis
      using True by (fastforce simp: Let_def)
  next
    case False
    show ?thesis
    proof (cases "m_memory_state b = state_value KMemoryState_Free")
      case free: True
      note F = free_area_in_fits [OF assms(3,4) _ eb pos free]
      show ?thesis
      proof (cases "free_area_in region_start (region_end - 1) n al off g (GetMemoryInfo b)")
        case None
        then show ?thesis
          using IH F assms(5) False free by (auto simp: Let_def split: if_splits)
      next
        case (Some area)
        then have "?fits b area" using F assms(5) by simp
        moreover have "area \<noteq> 0" using calculation assms(4) by (auto simp: area_fits_def)
        ultimately show ?thesis
          using Some False free by (auto simp: Let_def)
      qed
    qed (use IH nfree False in \<open>auto simp: Let_def split: if_splits\<close>)
  qed
qed simp

text \<open>The search is complete: null means that no free block of the region has room.\<close>

lemma FindFreeArea_fits:
  assumes ok: "manager_ok m" "m_end_address m \<le> 2 ^ 62"
    and region: "0 < region_start" "m_start_address m \<le> region_start" "0 < region_num_pages"
      "region_start + region_num_pages * PageSize \<le> m_end_address m"
    and sb: "search_bounds (region_start + region_num_pages * PageSize) n al off g"
  shows "let r = FindFreeArea region_start region_num_pages n al off g m;
             fits = area_fits region_start (region_start + region_num_pages * PageSize) n al off g
    in if r = 0 then \<forall>(y, b) \<in> set (m_memory_block_tree m). \<forall>x. \<not> fits b x
       else \<exists>(y, b) \<in> set (m_memory_block_tree m). fits b r"
proof -
  let ?re = "region_start + region_num_pages * PageSize"
  have t: "tiles (m_start_address m) (m_memory_block_tree m) (m_end_address m)"
    using ok(1) by (simp add: manager_ok_def)
  have lt: "region_start < ?re" using region(3) by simp
  then have "region_start < m_end_address m" using region(4) by linarith
  then obtain pre y b rest where nodes: "m_memory_block_tree m = pre @ (y, b) # rest" and b: "m_address b \<le> region_start"
    "region_start < KMemoryBlock_GetEndAddress b" "tiles (m_start_address m) pre (m_address b)"
    using tiles_find [OF t region(2)] by blast
  have ts: "tiles (m_address b) ((y, b) # rest) (m_end_address m)"
    using t b(3) unfolding nodes tiles_append by (auto dest!: tiles_length)
  have "?re \<le> 2 ^ 62" using region(4) ok(2) by linarith
  then have "wrap64 ?re = ?re" by (simp add: wrap64_def)
  moreover have "wrap64 (?re + (2 ^ 64 - 1)) = ?re - 1"
  proof -
    obtain T where "?re = Suc T" using lt by (cases ?re) auto
    then show ?thesis using \<open>?re \<le> 2 ^ 62\<close> by (simp add: wrap64_def mod_if)
  qed
  ultimately have F: "FindFreeArea region_start region_num_pages n al off g m =
      FindFreeArea_loop region_start (?re - 1) n al off g ((y, b) # rest)"
    using sb by (simp add: FindFreeArea_def Let_def nodes FindIterator_at [OF b(3,1,2)] search_bounds_def del: FindFreeArea_loop.simps)
  have np: "\<not> area_fits region_start ?re n al off g c x" if "(z, c) \<in> set pre" for z c x
    using area_fits_inside(1,6) [of region_start ?re n al off g c x] tiles_addresses [OF b(3) that] b(1) sb
    by (auto simp: search_bounds_def)
  define r where "r = FindFreeArea_loop region_start (?re - 1) n al off g ((y, b) # rest)"
  have "if r = 0 then \<forall>(z, c) \<in> set ((y, b) # rest). \<forall>x. \<not> area_fits region_start ?re n al off g c x
      else \<exists>(z, c) \<in> set ((y, b) # rest). area_fits region_start ?re n al off g c r"
    using FindFreeArea_loop_fits [OF ts ok(2) sb region(1) lt] unfolding Let_def r_def .
  then show ?thesis
    using np unfolding F r_def [symmetric] nodes Let_def set_append by (cases "r = 0") (simp_all, blast+)
qed

section \<open>The check of the tree\<close>

definition page_counted :: "page_info \<Rightarrow> bool" where
  "page_counted x \<longleftrightarrow>
     (page_attribute x AND attribute_value KMemoryAttribute_IpcLocked \<noteq> 0 \<longrightarrow> page_ipc_lock_count x \<noteq> 0) \<and>
     (page_attribute x AND attribute_value KMemoryAttribute_DeviceShared \<noteq> 0 \<longrightarrow> page_device_use_count x \<noteq> 0)"

lemma lacks_count_page: "lacks_count (GetMemoryInfo b) \<longleftrightarrow> \<not> page_counted (properties b)"
  by (auto simp: lacks_count_def page_counted_def GetMemoryInfo_def properties_def)

lemma space_blocks: "tiles s nodes e \<Longrightarrow> set (space nodes) = (properties \<circ> snd) ` set nodes"
  by (induction s nodes e rule: tiles.induct) auto

lemma CheckState_loop_iff:
  assumes "tiles s nodes e"
  shows "CheckState_loop prev nodes \<longleftrightarrow>
    unmerged ((n, prev) # nodes) \<and> (nodes \<noteq> [] \<longrightarrow> KMemoryBlock_GetEndAddress prev = s) \<and>
    (\<forall>x \<in> set (space nodes). page_counted x) \<and> (nodes = [] \<longrightarrow> page_counted (properties prev))"
  using assms
proof (induction s nodes e arbitrary: prev n rule: tiles.induct)
  case (1 s e)
  then show ?case by (simp add: unmerged_def lacks_count_page)
next
  case (2 s y b nodes e)
  then have "CheckState_loop b nodes \<longleftrightarrow> unmerged ((y, b) # nodes) \<and> (\<forall>x \<in> set (space nodes). page_counted x) \<and>
      (nodes = [] \<longrightarrow> page_counted (properties b))"
    by (auto simp: end_address)
  then show ?case
    using 2(2) by (auto simp: unmerged_def lacks_count_page)
qed

text \<open>A well-formed tree with counted pages passes; with more than one block, the counts of the first are not looked at.\<close>

lemma CheckState_ok:
  assumes "manager_ok m" "m_start_address m < m_end_address m" "\<forall>x \<in> set (manager_space m). page_counted x"
  shows "CheckState m = Some True"
proof -
  have t: "tiles (m_start_address m) (m_memory_block_tree m) (m_end_address m)" and u: "unmerged (m_memory_block_tree m)"
    using assms(1) by (simp_all add: manager_ok_def)
  then obtain n b rest where n: "m_memory_block_tree m = (n, b) # rest"
    using assms(2) by (cases "m_memory_block_tree m") auto
  have "tiles (KMemoryBlock_GetEndAddress b) rest (m_end_address m)" "0 < m_num_pages b"
    using t n by (simp_all add: end_address)
  then show ?thesis
    using u assms(3) CheckState_loop_iff [of _ rest _ b n] by (simp add: CheckState_def n manager_space_def)
qed

section \<open>Blocks between tree, allocator and slab\<close>

text \<open>An operation of the page table: an allocator with enough blocks is made, the operation runs, and the
  destructor gives back what is left. Without enough blocks the operation is not tried.\<close>

definition with_allocator ::
  "('s \<Rightarrow> nat \<times> 's) \<Rightarrow> (nat \<Rightarrow> 's \<Rightarrow> 's) \<Rightarrow> nat \<Rightarrow>
   (KMemoryBlockManager \<Rightarrow> 's UpdateAllocator \<Rightarrow> (KMemoryBlockManager \<times> 's UpdateAllocator) option) \<Rightarrow>
   KMemoryBlockManager \<Rightarrow> 's \<Rightarrow> ((block_error + unit) \<times> KMemoryBlockManager \<times> 's) option" where
  "with_allocator alloc free num_blocks f m s =
     (let (r, a) = UpdateAllocator_Initialize alloc num_blocks s
      in case r of
           Inl e \<Rightarrow> Some (Inl e, m, UpdateAllocator_destroy free a)
         | Inr _ \<Rightarrow> do { (m, a) \<leftarrow> f m a; Some (Inr (), m, UpdateAllocator_destroy free a) })"

lemma destroy_fold: "UpdateAllocator_destroy free a = fold free (filter (\<lambda>p. p \<noteq> 0) (m_blocks a)) (m_slab_manager a)"
proof -
  have "fold (\<lambda>p s. if p \<noteq> 0 then free p s else s) ps s = fold free (filter (\<lambda>p. p \<noteq> 0) ps) s" for ps s
    by (induction ps arbitrary: s) auto
  then show ?thesis by (simp add: UpdateAllocator_destroy_def)
qed

lemma destroy_held: "allocator_ok a \<Longrightarrow> UpdateAllocator_destroy free a = fold free (held_blocks a) (m_slab_manager a)"
  unfolding destroy_fold by (erule allocator_cases) (simp_all add: held_blocks_def)

context block_allocator
begin

lemma Initialize_allocator:
  assumes "live s U" "num \<le> MaxBlocks" "UpdateAllocator_Initialize alloc num s = (r, a)"
  shows "r = Inr () \<and> allocator_ok a \<and> available a = num \<and> distinct (held_blocks a) \<and>
      set (held_blocks a) \<inter> U = {} \<and> live (m_slab_manager a) (U \<union> set (held_blocks a)) \<or>
    r = Inl ResultOutOfResource \<and> live (UpdateAllocator_destroy release a) U \<and> card (pool - U) < num"
proof -
  obtain p s1 where p: "alloc s = (p, s1)" by fastforce
  obtain q s2 where q: "alloc s1 = (q, s2)" by fastforce
  have p0: "U = pool" "live s1 U" if "p = 0"
    using alloc_exhausted [OF assms(1) p [unfolded that]] by blast+
  have p1: "p \<notin> U" "live s1 (insert p U)" if "p \<noteq> 0"
    using alloc_fresh [OF assms(1) p that] by auto
  have q0: "insert p U = pool" "live s2 (insert p U)" if "p \<noteq> 0" "q = 0"
    using alloc_exhausted [OF p1(2) [OF that(1)] q [unfolded that(2)]] by blast+
  have q1: "q \<noteq> p" "q \<notin> U" "live s2 (insert q (insert p U))" if "p \<noteq> 0" "q \<noteq> 0"
    using alloc_fresh [OF p1(2) q] that by auto
  have ok: "allocator_ok \<lparr>m_blocks = [0, 0], m_index = 2, m_slab_manager = t\<rparr>"
    "x \<noteq> 0 \<Longrightarrow> allocator_ok \<lparr>m_blocks = [0, x], m_index = 1, m_slab_manager = t\<rparr>"
    "x \<noteq> 0 \<Longrightarrow> y \<noteq> 0 \<Longrightarrow> allocator_ok \<lparr>m_blocks = [x, y], m_index = 0, m_slab_manager = t\<rparr>" for x y and t :: 'h
    by (simp_all add: allocator_ok_def MaxBlocks_def All_less_Suc numeral_2_eq_2)
  note init = assms(3) [unfolded UpdateAllocator_Initialize_def MaxBlocks_def, simplified] and defs = available_def held_blocks_def MaxBlocks_def
  consider "num = 0" | "num = 1" | "num = 2"
    using assms(2) by (auto simp: MaxBlocks_def le_Suc_eq numeral_2_eq_2)
  then show ?thesis
  proof cases
    case 1
    then have "r = Inr ()" "a = \<lparr>m_blocks = [0, 0], m_index = 2, m_slab_manager = s\<rparr>"
      using init by (simp_all add: numeral_2_eq_2)
    then show ?thesis
      using 1 assms(1) ok(1) by (simp add: defs)
  next
    case 2
    show ?thesis
    proof (cases "p = 0")
      case True
      then have "r = Inl ResultOutOfResource" "a = \<lparr>m_blocks = [0, 0], m_index = 1, m_slab_manager = s1\<rparr>"
        using init 2 p by (simp_all add: numeral_2_eq_2 MaxBlocks_def)
      then show ?thesis
        using 2 p0 [OF True] assms(1) by (simp add: destroy_fold)
    next
      case False
      then have "r = Inr ()" "a = \<lparr>m_blocks = [0, p], m_index = 1, m_slab_manager = s1\<rparr>"
        using init 2 p by (simp_all add: numeral_2_eq_2 MaxBlocks_def)
      then show ?thesis
        using 2 p1 [OF False] ok(2) [OF False] by (simp add: defs)
    qed
  next
    case 3
    consider "p = 0" | "p \<noteq> 0" "q = 0" | "p \<noteq> 0" "q \<noteq> 0" by blast
    then show ?thesis
    proof cases
      case 1
      then have "r = Inl ResultOutOfResource" "a = \<lparr>m_blocks = [0, 0], m_index = 0, m_slab_manager = s1\<rparr>"
        using init 3 p by (simp_all add: numeral_2_eq_2 MaxBlocks_def)
      then show ?thesis
        using 3 p0 [OF 1] assms(1) by (simp add: destroy_fold)
    next
      case 2
      then have "r = Inl ResultOutOfResource" "a = \<lparr>m_blocks = [p, 0], m_index = 0, m_slab_manager = s2\<rparr>"
        using init 3 p q by (simp_all add: numeral_2_eq_2 MaxBlocks_def)
      moreover have "pool - U = {p}"
        using q0 [OF 2] p1 [OF 2(1)] by auto
      moreover have "live (release p s2) U"
        using release_live [OF q0(2) [OF 2], of p] p1(1) [OF 2(1)] by simp
      ultimately show ?thesis
        using 2 3 by (simp add: destroy_fold)
    next
      case 3
      then have "r = Inr ()" "a = \<lparr>m_blocks = [p, q], m_index = 0, m_slab_manager = s2\<rparr>"
        using init \<open>num = 2\<close> p q by (simp_all add: numeral_2_eq_2 MaxBlocks_def)
      then show ?thesis
        using \<open>num = 2\<close> p1 [OF 3(1)] q1 [OF 3] ok(3) [OF 3] by (simp add: defs insert_commute)
    qed
  qed
qed

lemma update_keeps_accounts:
  assumes op: "update_result effect release address n m a (Some (m', a'))"
    and a: "allocator_ok a" "live (m_slab_manager a) (set (nodes_of m) \<union> set (held_blocks a))"
    and d: "distinct (nodes_of m @ held_blocks a)"
  shows "live (UpdateAllocator_destroy release a') (set (nodes_of m'))" "distinct (nodes_of m')"
proof -
  obtain freed where f: "allocator_ok a'" "m_slab_manager a' = fold release freed (m_slab_manager a)"
    "mset (nodes_of m') + mset (held_blocks a') + mset freed = mset (nodes_of m) + mset (held_blocks a)"
    using op by (auto simp: update_result_def)
  have ms: "mset (nodes_of m' @ held_blocks a' @ freed) = mset (nodes_of m @ held_blocks a)"
    using f(3) by (simp add: ac_simps)
  then have d': "distinct (nodes_of m' @ held_blocks a' @ freed)"
    using d by (metis mset_eq_imp_distinct_iff)
  have sets: "set (nodes_of m) \<union> set (held_blocks a) = set (nodes_of m') \<union> set (held_blocks a') \<union> set freed"
    using mset_eq_setD [OF ms] by auto
  have "live (m_slab_manager a') (set (nodes_of m) \<union> set (held_blocks a) - set freed)"
    unfolding f(2) using a(2) d' sets by (intro release_all) auto
  then have "live (fold release (held_blocks a') (m_slab_manager a'))
      (set (nodes_of m) \<union> set (held_blocks a) - set freed - set (held_blocks a'))"
    using d' sets by (intro release_all) auto
  moreover have "set (nodes_of m) \<union> set (held_blocks a) - set freed - set (held_blocks a') = set (nodes_of m')"
    using d' unfolding sets by auto
  ultimately show "live (UpdateAllocator_destroy release a') (set (nodes_of m'))"
    by (simp add: destroy_held [OF f(1)])
  show "distinct (nodes_of m')" using d' by simp
qed

end

lemma Finalize_loop_fold: "Finalize_loop free nodes s = ([], fold free (map fst nodes) s)"
  by (induction free nodes s rule: Finalize_loop.induct) auto

context block_allocator
begin

lemma with_allocator_ok:
  assumes m: "manager_ok m" "live s (set (nodes_of m))" "distinct (nodes_of m)" and num: "num \<le> MaxBlocks"
    and op: "\<And>a. allocator_ok a \<Longrightarrow> num \<le> available a \<Longrightarrow> update_result effect release address n m a (f m a)"
  obtains r m' s' where "with_allocator alloc release num f m s = Some (r, m', s')" "manager_ok m'"
    "live s' (set (nodes_of m'))" "distinct (nodes_of m')" "m_start_address m' = m_start_address m" "m_end_address m' = m_end_address m"
    "r = Inr () \<and> manager_space m' = edit (page_index m address) n effect (manager_space m) \<or>
     r = Inl ResultOutOfResource \<and> m' = m \<and> card (pool - set (nodes_of m)) < num"
proof -
  obtain r a where i: "UpdateAllocator_Initialize alloc num s = (r, a)" by fastforce
  from Initialize_allocator [OF m(2) num i] show ?thesis
  proof (elim disjE conjE)
    assume r: "r = Inr ()" and a: "allocator_ok a" "available a = num" "distinct (held_blocks a)"
      "set (held_blocks a) \<inter> set (nodes_of m) = {}" "live (m_slab_manager a) (set (nodes_of m) \<union> set (held_blocks a))"
    then have u: "update_result effect release address n m a (f m a)" by (intro op) simp_all
    then obtain m' a' where f: "f m a = Some (m', a')" "manager_ok m'" "m_start_address m' = m_start_address m"
      "m_end_address m' = m_end_address m" "manager_space m' = edit (page_index m address) n effect (manager_space m)"
      by (auto simp: update_result_def)
    have "distinct (nodes_of m @ held_blocks a)"
      using a m(3) by auto
    from update_keeps_accounts [OF u [unfolded f(1)] a(1,5) this] show ?thesis
      using f that [of "Inr ()" m' "UpdateAllocator_destroy release a'"] by (simp add: with_allocator_def i r)
  next
    assume "r = Inl ResultOutOfResource" "live (UpdateAllocator_destroy release a) (set (nodes_of m))" "card (pool - set (nodes_of m)) < num"
    then show ?thesis
      using m that [of "Inl ResultOutOfResource" m "UpdateAllocator_destroy release a"] by (simp add: with_allocator_def i)
  qed
qed

lemma Initialize_manager:
  assumes "live s {}" "m_memory_block_tree m = []" "PageSize dvd st" "PageSize dvd nd" "st < nd"
    "KMemoryBlockManager_Initialize alloc raw st nd m s = (r, m', s')"
  shows "r = Inr () \<and> manager_ok m' \<and> m_start_address m' = st \<and> m_end_address m' = nd \<and> live s' (set (nodes_of m')) \<and>
      distinct (nodes_of m') \<and> manager_space m' = replicate ((nd - st) div PageSize)
        \<lparr>page_state = state_value KMemoryState_Free, page_permission = permission_value KMemoryPermission_None,
         page_original_permission = permission_value KMemoryPermission_None, page_attribute = attribute_value KMemoryAttribute_None,
         page_ipc_lock_count = 0, page_device_use_count = 0\<rparr> \<or>
    r = Inl ResultOutOfResource \<and> m' = m \<and> live s' {} \<and> pool = {}"
proof -
  obtain p s1 where p: "alloc s = (p, s1)" by fastforce
  obtain k where k: "nd = st + k * PageSize" "0 < k"
    using assms(3-5) by (metis dvd_diff_nat dvdE le_add_diff_inverse less_imp_le_nat mult.commute mult_0_right add_0_right less_irrefl neq0_conv)
  show ?thesis
  proof (cases "p = 0")
    case True
    then show ?thesis
      using assms(6) p alloc_exhausted [OF assms(1)] by (auto simp: KMemoryBlockManager_Initialize_def)
  next
    case False
    have l: "live s1 {p}"
      using alloc_fresh [OF assms(1) p False] by simp
    have r: "r = Inr ()" "s' = s1" and m': "m' = m\<lparr>m_start_address := st, m_end_address := nd,
        m_memory_block_tree := [(p, KMemoryBlock_Initialize st k (state_value KMemoryState_Free) (permission_value KMemoryPermission_None)
          (attribute_value KMemoryAttribute_None) raw)]\<rparr>"
      using assms(2,6) p False k by (auto simp: KMemoryBlockManager_Initialize_def insert_block_def Let_def)
    then show ?thesis
      using k l False assms(3)
      by (auto simp: manager_ok_def manager_space_def nodes_of_def unmerged_def KMemoryBlock_Initialize_def properties_def)
  qed
qed

lemma Finalize_manager:
  assumes "live s (set (nodes_of m))" "distinct (nodes_of m)"
  shows "\<exists>s'. KMemoryBlockManager_Finalize release m s = (m\<lparr>m_memory_block_tree := []\<rparr>, s') \<and> live s' {}"
  using release_all [OF assms subset_refl] by (simp add: KMemoryBlockManager_Finalize_def Finalize_loop_fold nodes_of_def)

end

end
