(* ===== verification/Kern_DynamicSlab.thy ===== *)
theory Kern_DynamicSlab
  imports Kern_PageHeap "HOL-Library.Monad_Syntax"
begin

text \<open>
  The slab of fixed-size objects that the memory blocks and block infos of the kernel come from: a page
  manager over a page bitmap (\<^verbatim>\<open>KDynamicPageManager\<close>, \<^verbatim>\<open>kern_k_dynamic_page_manager.hpp\<close>), the free list of a slab
  (\<^verbatim>\<open>KSlabHeapImpl\<close>, \<^verbatim>\<open>kern_k_slab_heap.hpp\<close>), the slab that grows page by page (\<^verbatim>\<open>KDynamicSlabHeap\<close>,
  \<^verbatim>\<open>kern_k_dynamic_slab_heap.hpp\<close>) and the pair of both (\<^verbatim>\<open>KDynamicResourceManager\<close>). The list nodes are the
  objects themselves; \<open>node_next\<close> is the first word of each; \<open>has_page_allocator\<close> is that the pointer to the
  page manager is not null. What the pages hold, and that freed pages are cleared, is not modelled. The free-list operations are atomic, as
  their exclusive load and store make them. An abort is \<^const>\<open>None\<close>.
\<close>

section \<open>The page manager\<close>

record 'r KDynamicPageManager =
  m_page_bitmap :: "'r KPageBitmap"
  pm_used :: nat
  pm_peak :: nat
  pm_count :: nat
  pm_address :: nat
  pm_size :: nat

definition clear_words_at :: "nat \<Rightarrow> nat \<Rightarrow> words \<Rightarrow> words" where
  "clear_words_at st k mem = (\<lambda>w. if st \<le> w \<and> w < st + k then 0 else mem w)"

text \<open>The loop that frees the pages \<open>i\<close> and up to the bitmap; \<open>k\<close> pages remain.\<close>

fun free_pages_loop :: "nat \<Rightarrow> nat \<Rightarrow> 'r KPageBitmap \<Rightarrow> words \<Rightarrow> 'r KPageBitmap \<times> words" where
  "free_pages_loop i 0 bm mem = (bm, mem)"
| "free_pages_loop i (Suc k) bm mem = (let (bm, mem) = KPageBitmap_SetBit i bm mem in free_pages_loop (Suc i) k bm mem)"

text \<open>The result is whether it succeeds; the error is \<^verbatim>\<open>svc::ResultOutOfMemory\<close>. The management area is
  counted in words.\<close>

definition KDynamicPageManager_Initialize ::
  "nat \<Rightarrow> nat \<Rightarrow> 'r KDynamicPageManager \<Rightarrow> words \<Rightarrow> bool \<times> 'r KDynamicPageManager \<times> words" where
  "KDynamicPageManager_Initialize memory sz pm mem =
     (if sz > 0
      then
        (let management_size = KPageBitmap_CalculateManagementOverheadSize (sz div PageSize);
             allocatable_size = sz - management_size;
             pm = pm\<lparr>pm_address := memory, pm_size := AlignDown allocatable_size PageSize,
                     pm_count := allocatable_size div PageSize\<rparr>
         in if pm_count pm > 0
            then
              (let management_ptr = (pm_address pm + allocatable_size) div 8;
                   mem = clear_words_at management_ptr (management_size div 8) mem;
                   (_, bm) = KPageBitmap_Initialize management_ptr (pm_count pm) (m_page_bitmap pm);
                   (bm, mem) = free_pages_loop 0 (pm_count pm) bm mem
               in (True, pm\<lparr>m_page_bitmap := bm\<rparr>, mem))
            else (False, pm, mem))
      else (False, pm, mem))"

definition KDynamicPageManager_Allocate ::
  "('r \<Rightarrow> u32 \<times> 'r) \<Rightarrow> 'r KDynamicPageManager \<Rightarrow> words \<Rightarrow> nat \<times> 'r KDynamicPageManager \<times> words" where
  "KDynamicPageManager_Allocate gen pm mem =
     (case FindFreeBlock gen True (m_page_bitmap pm) mem of
        (None, bm) \<Rightarrow> (0, pm\<lparr>m_page_bitmap := bm\<rparr>, mem)
      | (Some offset, bm) \<Rightarrow>
          (let (bm, mem) = KPageBitmap_ClearBit offset bm mem;
               used = pm_used pm + 1
           in (pm_address pm + offset * PageSize,
               pm\<lparr>m_page_bitmap := bm, pm_used := used, pm_peak := max (pm_peak pm) used\<rparr>, mem)))"

definition KDynamicPageManager_Free ::
  "nat \<Rightarrow> 'r KDynamicPageManager \<Rightarrow> words \<Rightarrow> 'r KDynamicPageManager \<times> words" where
  "KDynamicPageManager_Free pb pm mem =
     (let offset = (pb - pm_address pm) div PageSize;
          (bm, mem) = KPageBitmap_SetBit offset (m_page_bitmap pm) mem
      in (pm\<lparr>m_page_bitmap := bm, pm_used := pm_used pm - 1\<rparr>, mem))"

section \<open>The slab\<close>

record KDynamicSlabHeap =
  m_head :: nat
  slab_used :: nat
  slab_peak :: nat
  slab_count :: nat
  slab_address :: nat
  slab_size :: nat

record 'r KDynamicResourceManager =
  has_page_allocator :: bool
  m_page_allocator :: "'r KDynamicPageManager"
  m_slab_heap :: KDynamicSlabHeap
  bitmap_words :: words
  node_next :: "nat \<Rightarrow> nat"

definition AllocateFromSlabAtomic :: "'r KDynamicResourceManager \<Rightarrow> nat \<times> 'r KDynamicResourceManager" where
  "AllocateFromSlabAtomic rm =
     (let node = m_head (m_slab_heap rm)
      in if node = 0 then (0, rm)
         else (node, rm\<lparr>m_slab_heap := (m_slab_heap rm)\<lparr>m_head := node_next rm node\<rparr>\<rparr>))"

definition FreeToSlabAtomic :: "nat \<Rightarrow> 'r KDynamicResourceManager \<Rightarrow> 'r KDynamicResourceManager" where
  "FreeToSlabAtomic node rm =
     rm\<lparr>node_next := (node_next rm)(node := m_head (m_slab_heap rm)),
        m_slab_heap := (m_slab_heap rm)\<lparr>m_head := node\<rparr>\<rparr>"

text \<open>The loop \<^verbatim>\<open>KSlabHeapImpl::Free(allocated + i)\<close> over the objects of a page from index \<open>i\<close> on.\<close>

fun free_objects :: "nat \<Rightarrow> nat \<Rightarrow> nat \<Rightarrow> nat \<Rightarrow> 'r KDynamicResourceManager \<Rightarrow> 'r KDynamicResourceManager" where
  "free_objects obj_size allocated i 0 rm = rm"
| "free_objects obj_size allocated i (Suc k) rm =
     free_objects obj_size allocated (Suc i) k (FreeToSlabAtomic (allocated + i * obj_size) rm)"

definition slab_page ::
  "('r \<Rightarrow> u32 \<times> 'r) \<Rightarrow> 'r KDynamicResourceManager \<Rightarrow> nat \<times> 'r KDynamicResourceManager" where
  "slab_page gen rm =
     (let (p, pm, mem) = KDynamicPageManager_Allocate gen (m_page_allocator rm) (bitmap_words rm)
      in (p, rm\<lparr>m_page_allocator := pm, bitmap_words := mem\<rparr>))"

definition count_objects :: "nat \<Rightarrow> 'r KDynamicResourceManager \<Rightarrow> 'r KDynamicResourceManager" where
  "count_objects k rm = rm\<lparr>m_slab_heap := (m_slab_heap rm)\<lparr>slab_count := slab_count (m_slab_heap rm) + k\<rparr>\<rparr>"

partial_function (option) slab_fill ::
  "('r \<Rightarrow> u32 \<times> 'r) \<Rightarrow> nat \<Rightarrow> nat \<Rightarrow> 'r KDynamicResourceManager \<Rightarrow> 'r KDynamicResourceManager option" where
  "slab_fill gen obj_size num_objects rm =
     (if slab_count (m_slab_heap rm) < num_objects
      then
        (let (allocated, rm) = slab_page gen rm
         in if allocated \<noteq> 0
            then slab_fill gen obj_size num_objects
                   (count_objects (PageSize div obj_size) (free_objects obj_size allocated 0 (PageSize div obj_size) rm))
            else None)
      else Some rm)"

text \<open>The cache is queried for what the exclusive operations need: \<open>atomic_valid\<close>.\<close>

definition KDynamicSlabHeap_Initialize ::
  "('r \<Rightarrow> u32 \<times> 'r) \<Rightarrow> bool \<Rightarrow> nat \<Rightarrow> nat \<Rightarrow> 'r KDynamicResourceManager \<Rightarrow> 'r KDynamicResourceManager option" where
  "KDynamicSlabHeap_Initialize gen atomic_valid obj_size num_objects rm =
     (let rm = rm\<lparr>m_slab_heap := (m_slab_heap rm)\<lparr>slab_address := pm_address (m_page_allocator rm),
                                                  slab_size := pm_size (m_page_allocator rm)\<rparr>\<rparr>
      in if m_head (m_slab_heap rm) = 0 \<and> atomic_valid then slab_fill gen obj_size num_objects rm else None)"

definition slab_grow :: "('r \<Rightarrow> u32 \<times> 'r) \<Rightarrow> nat \<Rightarrow> 'r KDynamicResourceManager \<Rightarrow> nat \<times> 'r KDynamicResourceManager" where
  "slab_grow gen obj_size rm =
     (let (allocated, rm) = (if has_page_allocator rm then slab_page gen rm else (0, rm))
      in if allocated \<noteq> 0
         then (allocated, count_objects (PageSize div obj_size) (free_objects obj_size allocated 1 (PageSize div obj_size - 1) rm))
         else (0, rm))"

text \<open>\<^verbatim>\<open>KDynamicResourceManager::Allocate\<close>, which is \<^verbatim>\<open>KDynamicSlabHeap::Allocate\<close> with the page manager.\<close>

definition KDynamicSlabHeap_Allocate ::
  "('r \<Rightarrow> u32 \<times> 'r) \<Rightarrow> nat \<Rightarrow> bool \<Rightarrow> 'r KDynamicResourceManager \<Rightarrow> nat \<times> 'r KDynamicResourceManager" where
  "KDynamicSlabHeap_Allocate gen obj_size ClearNode rm =
     (let (allocated, rm) = AllocateFromSlabAtomic rm;
          rm = (if ClearNode \<and> allocated \<noteq> 0 then rm\<lparr>node_next := (node_next rm)(allocated := 0)\<rparr> else rm);
          (allocated, rm) = (if allocated = 0 then slab_grow gen obj_size rm else (allocated, rm))
      in if allocated \<noteq> 0
         then
           (let used = slab_used (m_slab_heap rm) + 1
            in (allocated, rm\<lparr>m_slab_heap := (m_slab_heap rm)\<lparr>slab_used := used, slab_peak := max (slab_peak (m_slab_heap rm)) used\<rparr>\<rparr>))
         else (0, rm))"

definition KDynamicSlabHeap_Free :: "nat \<Rightarrow> 'r KDynamicResourceManager \<Rightarrow> 'r KDynamicResourceManager" where
  "KDynamicSlabHeap_Free t rm =
     (let rm = FreeToSlabAtomic t rm
      in rm\<lparr>m_slab_heap := (m_slab_heap rm)\<lparr>slab_used := slab_used (m_slab_heap rm) - 1\<rparr>\<rparr>)"

section \<open>The pages of the page manager\<close>

lemma free_pages_loop_holds:
  "holds_set l bm mem n {..<i} \<Longrightarrow> i + k \<le> n \<Longrightarrow> free_pages_loop i k bm mem = (bm', mem') \<Longrightarrow>
   holds_set l bm' mem' n {..<i + k} \<and> (\<forall>w. w \<notin> own_words l \<longrightarrow> mem' w = mem w)"
proof (induction i k bm mem rule: free_pages_loop.induct)
  case (2 i k bm mem)
  obtain bm1 mem1 where s: "KPageBitmap_SetBit i bm mem = (bm1, mem1)" by fastforce
  have "holds_set l bm1 mem1 n (insert i {..<i})" "\<And>w. w \<notin> own_words l \<Longrightarrow> mem1 w = mem w"
    using SetBit_holds [OF 2(2) _ _ s] 2(3) by simp_all
  then show ?case
    using 2(1) [OF s [symmetric] refl] 2(3,4) s by (simp add: lessThan_Suc)
qed simp

text \<open>A page manager that holds the pages \<open>S\<close> of \<open>n\<close> pages from \<open>base\<close> on.\<close>

definition pages_free :: "layout \<Rightarrow> nat \<Rightarrow> nat \<Rightarrow> 'r KDynamicPageManager \<Rightarrow> words \<Rightarrow> nat set \<Rightarrow> bool" where
  "pages_free l n base pm mem S \<longleftrightarrow> holds_set l (m_page_bitmap pm) mem n S \<and> pm_address pm = base \<and> pm_count pm = n"

lemma overhead_mono: "n \<le> k \<Longrightarrow>
   KPageBitmap_CalculateManagementOverheadSize n \<le> KPageBitmap_CalculateManagementOverheadSize k"
  unfolding KPageBitmap_CalculateManagementOverheadSize_def
  by (intro mult_le_mono1 overhead_loop_mono GetRequiredDepth_mono) simp_all

text \<open>Initialization frees every page that the bitmap leaves room for.\<close>

lemma KDynamicPageManager_Initialize_ok:
  assumes d: "GetRequiredDepth (sz div PageSize) \<le> length (m_bit_storages (m_page_bitmap pm))"
    and room: "KPageBitmap_CalculateManagementOverheadSize (sz div PageSize) + PageSize \<le> sz"
    and n: "n = (sz - KPageBitmap_CalculateManagementOverheadSize (sz div PageSize)) div PageSize"
  obtains pm' mem' l where "KDynamicPageManager_Initialize memory sz pm mem = (True, pm', mem')" "0 < n"
    "pages_free l n memory pm' mem' {..<n}"
proof -
  let ?ov = "KPageBitmap_CalculateManagementOverheadSize (sz div PageSize)"
  let ?st = "(memory + (sz - ?ov)) div 8"
  have sz: "0 < sz" "PageSize \<le> sz - ?ov" using room by (simp_all add: PageSize_def)
  then have n0: "0 < n" unfolding n by (simp add: div_greater_zero_iff PageSize_def)
  have le: "n \<le> sz div PageSize" unfolding n by (intro div_le_mono) simp
  let ?pm = "pm\<lparr>pm_address := memory, pm_size := AlignDown (sz - ?ov) PageSize, pm_count := n\<rparr>"
  let ?mem = "clear_words_at ?st (?ov div 8) mem"
  obtain st' bm where I: "KPageBitmap_Initialize ?st n (m_page_bitmap pm) = (st', bm)" by fastforce
  have dn: "GetRequiredDepth n \<le> length (m_bit_storages (m_page_bitmap pm))"
    using GetRequiredDepth_mono [OF le] d by simp
  have st': "st' = ?st + KPageBitmap_CalculateManagementOverheadSize n div 8"
    using Initialize_holds(2) [OF n0 dn I, of "\<lambda>_. 0"] by simp
  then have "st' \<le> ?st + ?ov div 8"
    using overhead_mono [OF le] by (simp add: div_le_mono)
  then obtain l where l: "holds_set l bm ?mem n {}"
    using Initialize_holds(1) [OF n0 dn I, of ?mem] by (auto simp: clear_words_at_def)
  obtain bm' mem' where L: "free_pages_loop 0 n bm ?mem = (bm', mem')" by fastforce
  have "holds_set l bm' mem' n {..<n}"
    using free_pages_loop_holds [of l bm ?mem n 0 n, OF _ _ L] l by simp
  moreover have "KDynamicPageManager_Initialize memory sz pm mem = (True, ?pm\<lparr>m_page_bitmap := bm'\<rparr>, mem')"
    using sz(1) n0 I L by (simp add: KDynamicPageManager_Initialize_def Let_def n [symmetric])
  ultimately show ?thesis
    using that n0 by (simp add: pages_free_def)
qed

lemma KDynamicPageManager_Allocate_ok:
  assumes "pages_free l n base pm mem S" "0 < base" "KDynamicPageManager_Allocate gen pm mem = (p, pm', mem')"
  shows "p = 0 \<and> S = {} \<and> pages_free l n base pm' mem' S \<or>
    (\<exists>k \<in> S. p = base + k * PageSize \<and> pages_free l n base pm' mem' (S - {k}))"
proof (cases "FindFreeBlock gen True (m_page_bitmap pm) mem")
  case (Pair r bm)
  have h: "holds_set l (m_page_bitmap pm) mem n S"
    using assms(1) by (simp add: pages_free_def)
  note F = FindFreeBlock_spec [OF h, of gen True, unfolded Pair fst_conv snd_conv]
  show ?thesis
  proof (cases r)
    case None
    then show ?thesis
      using assms F Pair by (auto simp: KDynamicPageManager_Allocate_def pages_free_def)
  next
    case (Some k)
    obtain bm1 mem1 where c: "KPageBitmap_ClearBit k bm mem = (bm1, mem1)" by fastforce
    have "k \<in> S" using F(1) Some by simp
    then show ?thesis
      using assms ClearBit_holds(1) [OF F(2) _ c] Pair Some c by (auto simp: KDynamicPageManager_Allocate_def pages_free_def)
  qed
qed

lemma KDynamicPageManager_Free_ok:
  assumes "pages_free l n base pm mem S" "k < n" "k \<notin> S"
    "KDynamicPageManager_Free (base + k * PageSize) pm mem = (pm', mem')"
  shows "pages_free l n base pm' mem' (insert k S)"
proof -
  have h: "holds_set l (m_page_bitmap pm) mem n S" "pm_address pm = base"
    using assms(1) by (simp_all add: pages_free_def)
  obtain bm1 mem1 where c: "KPageBitmap_SetBit k (m_page_bitmap pm) mem = (bm1, mem1)" by fastforce
  have "(base + k * PageSize - pm_address pm) div PageSize = k"
    by (simp add: h(2) PageSize_def)
  then show ?thesis
    using assms SetBit_holds(1) [OF h(1) assms(2,3) c] c by (auto simp: KDynamicPageManager_Free_def pages_free_def)
qed

section \<open>The objects of the slab\<close>

definition page_objects :: "nat \<Rightarrow> nat \<Rightarrow> nat \<Rightarrow> nat set" where
  "page_objects base obj_size k = (\<lambda>i. base + k * PageSize + i * obj_size) ` {..<PageSize div obj_size}"

lemma object_inside:
  assumes "0 < sz" "i < PageSize div sz"
  shows "i * sz < PageSize"
  using less_eq_div_iff_mult_less_eq [OF assms(1), of "Suc i" PageSize] assms by simp

lemma page_objects_disjoint:
  assumes "0 < sz" "j \<noteq> k"
  shows "page_objects base sz j \<inter> page_objects base sz k = {}"
proof -
  have "(base + q * PageSize + i * sz - base) div PageSize = q" if "i < PageSize div sz" for q i
    using object_inside [OF assms(1) that] by simp
  then have "(x - base) div PageSize = q" if "x \<in> page_objects base sz q" for x q
    using that by (auto simp: page_objects_def)
  then show ?thesis
    using assms(2) by blast
qed

definition slab_objects :: "nat \<Rightarrow> nat \<Rightarrow> nat set \<Rightarrow> nat set" where
  "slab_objects base obj_size K = (\<Union>k \<in> K. page_objects base obj_size k)"

lemma slab_objects_insert [simp]: "slab_objects base sz (insert k K) = page_objects base sz k \<union> slab_objects base sz K"
  by (simp add: slab_objects_def)

lemma slab_objects_disjoint: "0 < sz \<Longrightarrow> k \<notin> K \<Longrightarrow> page_objects base sz k \<inter> slab_objects base sz K = {}"
  using page_objects_disjoint [of sz k] by (fastforce simp: slab_objects_def)

lemma page_objects_nonzero: "0 < base \<Longrightarrow> 0 \<notin> page_objects base sz k"
  by (auto simp: page_objects_def)

section \<open>The free list\<close>

definition on_free_list :: "'r KDynamicResourceManager \<Rightarrow> nat list \<Rightarrow> bool" where
  "on_free_list rm xs \<longleftrightarrow> chain (node_next rm) (m_head (m_slab_heap rm)) xs \<and> distinct xs"

lemma FreeToSlabAtomic_list:
  "on_free_list rm xs \<Longrightarrow> p \<notin> set xs \<Longrightarrow> p \<noteq> 0 \<Longrightarrow> on_free_list (FreeToSlabAtomic p rm) (p # xs)"
  by (simp add: on_free_list_def FreeToSlabAtomic_def)

lemma free_objects_list:
  "on_free_list rm xs \<Longrightarrow> 0 < sz \<Longrightarrow> 0 < p \<Longrightarrow> (\<forall>j < k. p + (i + j) * sz \<notin> set xs) \<Longrightarrow>
   \<exists>ys. on_free_list (free_objects sz p i k rm) ys \<and> set ys = (\<lambda>j. p + j * sz) ` {i..<i + k} \<union> set xs"
proof (induction sz p i k rm arbitrary: xs rule: free_objects.induct)
  case (2 sz p i k rm)
  have "on_free_list (FreeToSlabAtomic (p + i * sz) rm) ((p + i * sz) # xs)"
    using 2(2-5) by (intro FreeToSlabAtomic_list) (auto dest: spec [of _ 0])
  moreover have "p + (Suc i + j) * sz \<notin> set ((p + i * sz) # xs)" if "j < k" for j
    using 2(3) 2(5) [rule_format, of "Suc j"] that by (simp add: add_mult_distrib)
  ultimately obtain ys where "on_free_list (free_objects sz p (Suc i) k (FreeToSlabAtomic (p + i * sz) rm)) ys"
    "set ys = (\<lambda>j. p + j * sz) ` {Suc i..<Suc i + k} \<union> set ((p + i * sz) # xs)"
    using 2(1,3,4) by blast
  moreover have "{i..<i + Suc k} = insert i {Suc i..<Suc i + k}" by auto
  ultimately show ?case by auto
qed auto

lemma free_objects_frame [simp]:
  "has_page_allocator (free_objects sz p i k rm) = has_page_allocator rm"
  "m_page_allocator (free_objects sz p i k rm) = m_page_allocator rm"
  "bitmap_words (free_objects sz p i k rm) = bitmap_words rm"
  "slab_used (m_slab_heap (free_objects sz p i k rm)) = slab_used (m_slab_heap rm)"
  "slab_count (m_slab_heap (free_objects sz p i k rm)) = slab_count (m_slab_heap rm)"
  by (induction sz p i k rm rule: free_objects.induct) (simp_all add: FreeToSlabAtomic_def)

section \<open>The slab as an allocator of blocks\<close>

text \<open>
  The slab has taken pages of the page manager that others have not: their objects are in use, \<open>U\<close>, or on the
  free list. \<open>others\<close> are the pages that other users of the page manager hold. With no page manager the
  pages are those the slab has.
\<close>

definition slab_core ::
  "layout \<Rightarrow> nat \<Rightarrow> nat \<Rightarrow> nat \<Rightarrow> nat set \<Rightarrow> 'r KDynamicResourceManager \<Rightarrow> nat set \<Rightarrow> nat list \<Rightarrow> bool" where
  "slab_core l n base sz others rm U xs \<longleftrightarrow> 0 < base \<and> 0 < sz \<and> sz \<le> PageSize \<and> on_free_list rm xs \<and> set xs \<inter> U = {} \<and>
     (\<exists>S. (if has_page_allocator rm then pages_free l n base (m_page_allocator rm) (bitmap_words rm) S else S = {}) \<and> S \<inter> others = {} \<and>
        set xs \<union> U = slab_objects base sz ({..<n} - others - S))"

definition slab_live ::
  "layout \<Rightarrow> nat \<Rightarrow> nat \<Rightarrow> nat \<Rightarrow> nat set \<Rightarrow> 'r KDynamicResourceManager \<Rightarrow> nat set \<Rightarrow> bool" where
  "slab_live l n base sz others rm U \<longleftrightarrow> (\<exists>xs. slab_core l n base sz others rm U xs) \<and> slab_used (m_slab_heap rm) = card U"

lemma slab_core_update [simp]:
  "slab_core l n base sz others (rm\<lparr>m_slab_heap := (m_slab_heap rm)\<lparr>slab_used := u\<rparr>\<rparr>) = slab_core l n base sz others rm"
  "slab_core l n base sz others (rm\<lparr>m_slab_heap := (m_slab_heap rm)\<lparr>slab_used := u, slab_peak := v\<rparr>\<rparr>) = slab_core l n base sz others rm"
  "slab_core l n base sz others (count_objects c rm) = slab_core l n base sz others rm"
  by (simp_all add: slab_core_def on_free_list_def count_objects_def fun_eq_iff)

lemma slab_core_pool:
  assumes "slab_core l n base sz others rm U xs"
  shows "U \<subseteq> slab_objects base sz ({..<n} - others)" "finite U" "set xs \<subseteq> slab_objects base sz ({..<n} - others)"
    "0 \<notin> slab_objects base sz K"
proof -
  obtain S where S: "set xs \<union> U = slab_objects base sz ({..<n} - others - S)"
    using assms by (auto simp: slab_core_def)
  have "slab_objects base sz ({..<n} - others - S) \<subseteq> slab_objects base sz ({..<n} - others)"
    by (auto simp: slab_objects_def)
  then show sub: "U \<subseteq> slab_objects base sz ({..<n} - others)" "set xs \<subseteq> slab_objects base sz ({..<n} - others)"
    using S by auto
  show "finite U"
    by (rule finite_subset [OF sub(1)]) (simp add: slab_objects_def page_objects_def)
  show "0 \<notin> slab_objects base sz K"
    using assms by (auto simp: slab_core_def slab_objects_def page_objects_def)
qed

lemma page_objects_split:
  assumes "0 < sz" "sz \<le> PageSize"
  shows "page_objects base sz k = insert (base + k * PageSize)
    ((\<lambda>i. base + k * PageSize + i * sz) ` {1..<1 + (PageSize div sz - 1)})"
proof -
  have "0 < PageSize div sz" using assms by (simp add: div_greater_zero_iff)
  then have "{..<PageSize div sz} = insert 0 {1..<1 + (PageSize div sz - 1)}" by auto
  then show ?thesis by (simp add: page_objects_def)
qed

lemma slab_grow_core:
  assumes core: "slab_core l n base sz others rm U []" and g: "slab_grow gen sz rm = (p, rm')"
  shows "p = 0 \<and> U = slab_objects base sz ({..<n} - others) \<and> (\<exists>xs. slab_core l n base sz others rm' U xs) \<or>
    p \<noteq> 0 \<and> p \<in> slab_objects base sz ({..<n} - others) - U \<and> (\<exists>xs. slab_core l n base sz others rm' (insert p U) xs)"
    "slab_used (m_slab_heap rm') = slab_used (m_slab_heap rm)"
proof -
  show "slab_used (m_slab_heap rm') = slab_used (m_slab_heap rm)"
    using g by (auto simp: slab_grow_def slab_page_def count_objects_def Let_def split: if_splits prod.splits)
  obtain S where S0: "if has_page_allocator rm then pages_free l n base (m_page_allocator rm) (bitmap_words rm) S else S = {}"
      "S \<inter> others = {}" "U = slab_objects base sz ({..<n} - others - S)"
    using core by (auto simp: slab_core_def)
  show "p = 0 \<and> U = slab_objects base sz ({..<n} - others) \<and> (\<exists>xs. slab_core l n base sz others rm' U xs) \<or>
    p \<noteq> 0 \<and> p \<in> slab_objects base sz ({..<n} - others) - U \<and> (\<exists>xs. slab_core l n base sz others rm' (insert p U) xs)"
  proof (cases "has_page_allocator rm")
    case False
    then show ?thesis
      using S0 g core by (auto simp: slab_grow_def)
  next
    case has: True
    have S: "pages_free l n base (m_page_allocator rm) (bitmap_words rm) S" "S \<inter> others = {}"
        "U = slab_objects base sz ({..<n} - others - S)"
      and b: "0 < base" "0 < sz" "sz \<le> PageSize" "on_free_list rm []"
      using core S0 has by (auto simp: slab_core_def)
    obtain q pm mem where A: "KDynamicPageManager_Allocate gen (m_page_allocator rm) (bitmap_words rm) = (q, pm, mem)"
      by (metis prod_cases3)
    let ?rm = "rm\<lparr>m_page_allocator := pm, bitmap_words := mem\<rparr>"
    have fl: "on_free_list ?rm []" using b(4) by (simp add: on_free_list_def)
    from KDynamicPageManager_Allocate_ok [OF S(1) b(1) A]
    show ?thesis
    proof (elim disjE conjE bexE)
      assume q: "q = 0" "S = {}" "pages_free l n base pm mem S"
      then have "p = 0" "rm' = ?rm"
        using g A by (simp_all add: slab_grow_def slab_page_def has)
      moreover have "slab_core l n base sz others ?rm U []"
        using q S b fl has by (auto simp: slab_core_def)
      ultimately show ?thesis
        using q(2) S(3) by auto
    next
      fix k assume k: "k \<in> S" "q = base + k * PageSize" "pages_free l n base pm mem (S - {k})"
      then have q: "q \<noteq> 0" using b(1) by simp
      then have p: "p = q" and rm': "rm' = count_objects (PageSize div sz) (free_objects sz q 1 (PageSize div sz - 1) ?rm)"
        using g A has by (auto simp: slab_grow_def slab_page_def)
      have kn: "k < n" "k \<notin> others"
        using S(1,2) k(1) by (auto simp: pages_free_def dest: holds_setD(5))
      obtain ys where ys: "on_free_list (free_objects sz q 1 (PageSize div sz - 1) ?rm) ys"
        "set ys = (\<lambda>j. q + j * sz) ` {1..<1 + (PageSize div sz - 1)} \<union> set []"
        using free_objects_list [OF fl b(2), of q "PageSize div sz - 1" 1] q by auto
      have new: "page_objects base sz k = insert q (set ys)"
        using page_objects_split [OF b(2,3), of base k] by (simp add: ys(2) k(2))
      have "q \<notin> set ys" using b(2) by (auto simp: ys(2))
      have fresh: "page_objects base sz k \<inter> U = {}"
        unfolding S(3) using k(1) by (intro slab_objects_disjoint [OF b(2)]) simp
      have "{..<n} - others - (S - {k}) = insert k ({..<n} - others - S)"
        using k(1) kn by auto
      then have "set ys \<union> insert q U = slab_objects base sz ({..<n} - others - (S - {k}))"
        using new S(3) by auto
      then have "slab_core l n base sz others rm' (insert q U) ys"
        unfolding rm' slab_core_update using b ys(1) k(3) S(2) \<open>q \<notin> set ys\<close> fresh new has
        by (auto simp: slab_core_def)
      moreover have "q \<in> slab_objects base sz ({..<n} - others) - U"
        using fresh new kn by (auto simp: slab_objects_def)
      ultimately show ?thesis
        using q p by blast
    qed
  qed
qed

lemma slab_Allocate_live:
  assumes "slab_live l n base sz others rm U" "KDynamicSlabHeap_Allocate gen sz cn rm = (p, rm')"
  shows "p = 0 \<Longrightarrow> U = slab_objects base sz ({..<n} - others) \<and> slab_live l n base sz others rm' U"
    "p \<noteq> 0 \<Longrightarrow> p \<in> slab_objects base sz ({..<n} - others) - U \<and> slab_live l n base sz others rm' (insert p U)"
proof -
  obtain xs where core: "slab_core l n base sz others rm U xs" and used: "slab_used (m_slab_heap rm) = card U"
    using assms(1) by (auto simp: slab_live_def)
  have fin: "finite U" by (rule slab_core_pool(2) [OF core])
  have goal: "(p = 0 \<longrightarrow> U = slab_objects base sz ({..<n} - others) \<and> slab_live l n base sz others rm' U) \<and>
    (p \<noteq> 0 \<longrightarrow> p \<in> slab_objects base sz ({..<n} - others) - U \<and> slab_live l n base sz others rm' (insert p U))"
  proof (cases xs)
    case Nil
    then have "m_head (m_slab_heap rm) = 0"
      using core by (simp add: slab_core_def on_free_list_def)
    then have a: "AllocateFromSlabAtomic rm = (0, rm)" by (simp add: AllocateFromSlabAtomic_def)
    obtain q rm1 where g: "slab_grow gen sz rm = (q, rm1)" by fastforce
    note G = slab_grow_core [OF core [unfolded Nil] g]
    show ?thesis
    proof (cases "q = 0")
      case True
      then have "p = 0" "rm' = rm1"
        using assms(2) a g by (simp_all add: KDynamicSlabHeap_Allocate_def)
      then show ?thesis
        using G True used by (auto simp: slab_live_def)
    next
      case False
      then have "p = q" and rm': "rm' = rm1\<lparr>m_slab_heap := (m_slab_heap rm1)\<lparr>slab_used := slab_used (m_slab_heap rm1) + 1,
          slab_peak := max (slab_peak (m_slab_heap rm1)) (slab_used (m_slab_heap rm1) + 1)\<rparr>\<rparr>"
        using assms(2) a g by (simp_all add: KDynamicSlabHeap_Allocate_def Let_def)
      then show ?thesis
        using G False used fin by (simp add: slab_live_def)
    qed
  next
    case (Cons x ys)
    have c: "chain (node_next rm) (m_head (m_slab_heap rm)) (x # ys)" "distinct (x # ys)" "x \<notin> U"
      using core Cons by (auto simp: slab_core_def on_free_list_def)
    then have x: "x \<noteq> 0" "m_head (m_slab_heap rm) = x" "chain (node_next rm) (node_next rm x) ys" "x \<notin> set ys" by auto
    let ?nx = "if cn then (node_next rm)(x := 0) else node_next rm"
    let ?rm = "rm\<lparr>node_next := ?nx, m_slab_heap := (m_slab_heap rm)\<lparr>m_head := node_next rm x\<rparr>\<rparr>"
    have p: "p = x" and rm': "rm' = ?rm\<lparr>m_slab_heap := (m_slab_heap ?rm)\<lparr>slab_used := slab_used (m_slab_heap rm) + 1,
          slab_peak := max (slab_peak (m_slab_heap rm)) (slab_used (m_slab_heap rm) + 1)\<rparr>\<rparr>"
      using assms(2) x(1,2) by (cases rm, auto simp: KDynamicSlabHeap_Allocate_def AllocateFromSlabAtomic_def Let_def)
    have "on_free_list ?rm ys"
      using x c(2) by (simp add: on_free_list_def)
    then have "slab_core l n base sz others ?rm (insert x U) ys"
      using core x(4) c(2) unfolding Cons slab_core_def by auto
    then have "slab_core l n base sz others rm' (insert x U) ys"
      unfolding rm' slab_core_update .
    moreover have "x \<in> slab_objects base sz ({..<n} - others)"
      using slab_core_pool(3) [OF core] Cons by auto
    moreover have "slab_used (m_slab_heap rm') = card (insert x U)"
      using used fin c(3) by (simp add: rm')
    ultimately show ?thesis
      using p x(1) c(3) by (auto simp: slab_live_def)
  qed
  then show "p = 0 \<Longrightarrow> U = slab_objects base sz ({..<n} - others) \<and> slab_live l n base sz others rm' U"
    "p \<noteq> 0 \<Longrightarrow> p \<in> slab_objects base sz ({..<n} - others) - U \<and> slab_live l n base sz others rm' (insert p U)"
    by blast+
qed

lemma slab_Free_live:
  assumes "slab_live l n base sz others rm U" "p \<in> U"
  shows "slab_live l n base sz others (KDynamicSlabHeap_Free p rm) (U - {p})"
proof -
  obtain xs where core: "slab_core l n base sz others rm U xs" and used: "slab_used (m_slab_heap rm) = card U"
    using assms(1) by (auto simp: slab_live_def)
  have p: "p \<notin> set xs" "p \<noteq> 0"
    using core assms(2) slab_core_pool(1,4) [OF core] by (auto simp: slab_core_def)
  have "on_free_list (FreeToSlabAtomic p rm) (p # xs)"
    using core p by (intro FreeToSlabAtomic_list) (simp_all add: slab_core_def)
  then have "slab_core l n base sz others (FreeToSlabAtomic p rm) (U - {p}) (p # xs)"
    using core assms(2) unfolding slab_core_def by (auto simp: FreeToSlabAtomic_def)
  moreover have "card (U - {p}) = card U - 1"
    using assms(2) by (rule card_Diff_singleton)
  ultimately show ?thesis
    using used unfolding slab_live_def KDynamicSlabHeap_Free_def Let_def slab_core_update
    by (auto simp: FreeToSlabAtomic_def)
qed

interpretation slab: block_allocator "slab_objects base sz ({..<n} - others)" "slab_live l n base sz others"
    "KDynamicSlabHeap_Allocate gen sz cn" KDynamicSlabHeap_Free for l n base sz others gen cn
proof
  fix h h' :: "'a KDynamicResourceManager" and U p
  assume live: "slab_live l n base sz others h U"
  then obtain xs where core: "slab_core l n base sz others h U xs" by (auto simp: slab_live_def)
  show "U \<subseteq> slab_objects base sz ({..<n} - others)" "0 \<notin> slab_objects base sz ({..<n} - others)"
    by (rule slab_core_pool [OF core])+
  show "p \<in> slab_objects base sz ({..<n} - others) - U \<and> slab_live l n base sz others h' (insert p U)"
    if "KDynamicSlabHeap_Allocate gen sz cn h = (p, h')" "p \<noteq> 0"
    using slab_Allocate_live(2) [OF live that] .
  show "U = slab_objects base sz ({..<n} - others) \<and> slab_live l n base sz others h' U"
    if "KDynamicSlabHeap_Allocate gen sz cn h = (0, h')"
    using slab_Allocate_live(1) [OF live that refl] .
  show "slab_live l n base sz others (KDynamicSlabHeap_Free p h) (U - {p})" if "p \<in> U"
    by (rule slab_Free_live [OF live that])
qed

section \<open>The slab after initialization\<close>

lemma slab_page_taken:
  assumes core: "slab_core l n base sz others rm {} xs" and has: "has_page_allocator rm"
    and free: "pages_free l n base (m_page_allocator rm) (bitmap_words rm) S" "S \<inter> others = {}" "S \<noteq> {}"
    and xs: "set xs = slab_objects base sz ({..<n} - others - S)"
  obtains p rm1 k ys rm2 where "slab_page gen rm = (p, rm1)" "p \<noteq> 0" "k \<in> S"
    "rm2 = count_objects (PageSize div sz) (free_objects sz p 0 (PageSize div sz) rm1)"
    "slab_core l n base sz others rm2 {} ys" "has_page_allocator rm2"
    "pages_free l n base (m_page_allocator rm2) (bitmap_words rm2) (S - {k})"
    "set ys = slab_objects base sz ({..<n} - others - (S - {k}))"
    "slab_count (m_slab_heap rm2) = slab_count (m_slab_heap rm) + PageSize div sz"
    "slab_used (m_slab_heap rm2) = slab_used (m_slab_heap rm)"
proof -
  have b: "0 < base" "0 < sz" "sz \<le> PageSize" "on_free_list rm xs"
    using core by (auto simp: slab_core_def)
  obtain p pm mem where A: "KDynamicPageManager_Allocate gen (m_page_allocator rm) (bitmap_words rm) = (p, pm, mem)"
    by (metis prod_cases3)
  obtain k where k: "k \<in> S" "p = base + k * PageSize" "pages_free l n base pm mem (S - {k})"
    using KDynamicPageManager_Allocate_ok [OF free(1) b(1) A] free(3) by auto
  let ?rm = "rm\<lparr>m_page_allocator := pm, bitmap_words := mem\<rparr>"
  let ?rm2 = "count_objects (PageSize div sz) (free_objects sz p 0 (PageSize div sz) ?rm)"
  have fresh: "page_objects base sz k \<inter> set xs = {}"
    unfolding xs using k(1) by (intro slab_objects_disjoint [OF b(2)]) simp
  have "p + (0 + j) * sz \<notin> set xs" if "j < PageSize div sz" for j
    using fresh that by (auto simp: page_objects_def k(2))
  moreover have "on_free_list ?rm xs" using b(4) by (simp add: on_free_list_def)
  ultimately obtain ys where ys: "on_free_list (free_objects sz p 0 (PageSize div sz) ?rm) ys"
      "set ys = (\<lambda>j. p + j * sz) ` {0..<0 + PageSize div sz} \<union> set xs"
    using free_objects_list [of ?rm xs sz p "PageSize div sz" 0] b(1,2) k(2) by auto
  have "k < n" using free(1) k(1) by (auto simp: pages_free_def dest: holds_setD(5))
  then have "{..<n} - others - (S - {k}) = insert k ({..<n} - others - S)"
    using k(1) free(2) by auto
  then have objs: "set ys = slab_objects base sz ({..<n} - others - (S - {k}))"
    using ys(2) xs by (simp add: page_objects_def k(2) lessThan_atLeast0)
  have "slab_core l n base sz others ?rm2 {} ys"
    unfolding slab_core_update using b ys(1) k(3) free(2) objs has by (auto simp: slab_core_def)
  then show ?thesis
    using that [of p ?rm k ?rm2 ys] A k b(1) has objs by (simp add: slab_page_def count_objects_def)
qed

text \<open>The slab takes pages until it has the objects asked for, and fails exactly when the pages do not
  suffice.\<close>

lemma slab_fill_ok:
  assumes "slab_core l n base sz others rm {} xs" "has_page_allocator rm"
    "pages_free l n base (m_page_allocator rm) (bitmap_words rm) S" "S \<inter> others = {}"
    "set xs = slab_objects base sz ({..<n} - others - S)"
  shows "case slab_fill gen sz num rm of
      None \<Rightarrow> slab_count (m_slab_heap rm) + card S * (PageSize div sz) < num
    | Some rm' \<Rightarrow> num \<le> slab_count (m_slab_heap rm') \<and> num \<le> slab_count (m_slab_heap rm) + card S * (PageSize div sz) \<and>
        slab_used (m_slab_heap rm') = slab_used (m_slab_heap rm) \<and> (\<exists>ys. slab_core l n base sz others rm' {} ys)"
  using assms
proof (induction "card S" arbitrary: S rm xs rule: less_induct)
  case less
  have fin: "finite S"
    using less(4) by (auto simp: pages_free_def dest: holds_setD(5) intro: finite_subset)
  show ?case
  proof (cases "slab_count (m_slab_heap rm) < num")
    case False
    then show ?thesis
      using less(2) by (subst slab_fill.simps) auto
  next
    case more: True
    show ?thesis
    proof (cases "S = {}")
      case True
      obtain p pm mem where A: "KDynamicPageManager_Allocate gen (m_page_allocator rm) (bitmap_words rm) = (p, pm, mem)"
        by (metis prod_cases3)
      have "0 < base" using less(2) by (simp add: slab_core_def)
      then have "p = 0" using KDynamicPageManager_Allocate_ok [OF less(4) _ A] True by auto
      then have "slab_fill gen sz num rm = None"
        using more A by (subst slab_fill.simps) (simp add: slab_page_def)
      then show ?thesis using more True by simp
    next
      case False
      obtain p rm1 k ys rm2 where k: "slab_page gen rm = (p, rm1)" "p \<noteq> 0" "k \<in> S"
        and rm2: "rm2 = count_objects (PageSize div sz) (free_objects sz p 0 (PageSize div sz) rm1)"
        and c: "slab_core l n base sz others rm2 {} ys" "has_page_allocator rm2"
          "pages_free l n base (m_page_allocator rm2) (bitmap_words rm2) (S - {k})"
          "set ys = slab_objects base sz ({..<n} - others - (S - {k}))"
        and n: "slab_count (m_slab_heap rm2) = slab_count (m_slab_heap rm) + PageSize div sz"
          "slab_used (m_slab_heap rm2) = slab_used (m_slab_heap rm)"
        by (rule slab_page_taken [OF less(2,3,4,5) False less(6), where gen = gen])
      have "slab_fill gen sz num rm = slab_fill gen sz num rm2"
        using more k(1,2) rm2 by (subst slab_fill.simps) simp
      moreover have card: "card S = Suc (card (S - {k}))"
        using fin k(3) by (simp only: card_Suc_Diff1)
      moreover have "(S - {k}) \<inter> others = {}" using less(5) by blast
      ultimately show ?thesis
        using less(1) [OF _ c(1,2,3) _ c(4)] n unfolding card by (simp add: add.assoc split: option.splits)
    qed
  qed
qed

lemma KDynamicSlabHeap_Initialize_ok:
  assumes "0 < base" "0 < sz" "sz \<le> PageSize" "has_page_allocator rm" "m_head (m_slab_heap rm) = 0"
    "slab_count (m_slab_heap rm) = 0" "slab_used (m_slab_heap rm) = 0" "S \<subseteq> {..<n}"
    "pages_free l n base (m_page_allocator rm) (bitmap_words rm) S"
  shows "num \<le> card S * (PageSize div sz) \<Longrightarrow>
      \<exists>rm'. KDynamicSlabHeap_Initialize gen True sz num rm = Some rm' \<and> num \<le> slab_count (m_slab_heap rm') \<and>
        slab_live l n base sz ({..<n} - S) rm' {}"
    "card S * (PageSize div sz) < num \<Longrightarrow> KDynamicSlabHeap_Initialize gen True sz num rm = None"
proof -
  let ?rm = "rm\<lparr>m_slab_heap := (m_slab_heap rm)\<lparr>slab_address := pm_address (m_page_allocator rm),
    slab_size := pm_size (m_page_allocator rm)\<rparr>\<rparr>"
  have none: "{..<n} - ({..<n} - S) - S = {}" "S \<inter> ({..<n} - S) = {}" by auto
  have "slab_core l n base sz ({..<n} - S) ?rm {} []"
    using assms none by (auto simp: slab_core_def on_free_list_def slab_objects_def)
  then have "case slab_fill gen sz num ?rm of
      None \<Rightarrow> slab_count (m_slab_heap ?rm) + card S * (PageSize div sz) < num
    | Some rm' \<Rightarrow> num \<le> slab_count (m_slab_heap rm') \<and> num \<le> slab_count (m_slab_heap ?rm) + card S * (PageSize div sz) \<and>
        slab_used (m_slab_heap rm') = slab_used (m_slab_heap ?rm) \<and> (\<exists>ys. slab_core l n base sz ({..<n} - S) rm' {} ys)"
    using assms(4,9) none by (intro slab_fill_ok [where xs = "[]"]) (auto simp: slab_objects_def)
  then show "num \<le> card S * (PageSize div sz) \<Longrightarrow>
      \<exists>rm'. KDynamicSlabHeap_Initialize gen True sz num rm = Some rm' \<and> num \<le> slab_count (m_slab_heap rm') \<and>
        slab_live l n base sz ({..<n} - S) rm' {}"
    "card S * (PageSize div sz) < num \<Longrightarrow> KDynamicSlabHeap_Initialize gen True sz num rm = None"
    using assms(5,6,7) by (auto simp: KDynamicSlabHeap_Initialize_def slab_live_def split: option.splits)
qed

end
