(* ===== verification/Spec2Isabelle.thy ===== *)
theory Spec2Isabelle
  imports Cheat_VM_Blocks Cheat_Attach Cheat_Frozen_Tree Kern_HandleTable_Props Kern_ResourceLimit
    Kern_PageBitmap_Props Kern_PageHeap_Props Kern_MemoryManager_Props Kern_MemoryBlockManager_Spec Kern_DynamicSlab
begin

text \<open>
  Verification of parts of the Atmosphere sources: the cheat service of the \<^verbatim>\<open>dmnt\<close> system
  module with everything it runs on, from the file parsers to the interpreter of cheat code,
  two data structures of the system libraries below it, and the parts of the kernel that hand out
  handles, quotas and physical memory.

  \<^bold>\<open>Parts and theories.\<close>

  \<^item> \<^verbatim>\<open>Ams_Prelude\<close>: machine words, the byte view of a \<^verbatim>\<open>u64\<close>, and the alignment functions of
    \<^verbatim>\<open>util_alignment.hpp\<close>, with the lemmas on lists and words that all components share.

  \<^item> \<^verbatim>\<open>Cheat_Types\<close>, \<^verbatim>\<open>Cheat_VM_Decode\<close>, \<^verbatim>\<open>Cheat_VM_Exec\<close>: the cheat virtual machine
    (\<^verbatim>\<open>dmnt_cheat_vm.cpp\<close>, \<^verbatim>\<open>dmnt_cheat_vm.hpp\<close>). The machine state is the record
    \<open>CheatVirtualMachine\<close>, an instruction is a constructor of \<open>CheatVmOpcode\<close>, and decoding,
    skipping, loading and executing are functions named as in the source. Registers,
    immediates and addresses keep their widths and wrap. \<open>Execute\<close> is bounded by a number of
    instructions and says when that number was too small; a loop-free program needs at most
    one instruction per opcode.

  \<^item> \<^verbatim>\<open>Cheat_VM_Blocks\<close>: structured cheats (data opcodes, if, if-else, loop) with a big-step
    meaning, and the proof that the machine implements it on the assembled opcodes.

  \<^item> \<^verbatim>\<open>Cheat_Process\<close>: the process the machine reads and writes (the \<^verbatim>\<open>Unsafe\<close> operations of
    \<^verbatim>\<open>CheatProcessManager\<close>), over the debug calls of the kernel as a parameter.

  \<^item> \<^verbatim>\<open>Cheat_Parser\<close>: \<^verbatim>\<open>ParseCheats\<close> and \<^verbatim>\<open>ParseCheatToggles\<close> over a NUL-terminated buffer.

  \<^item> \<^verbatim>\<open>Rb_Tree\<close>, \<^verbatim>\<open>Rb_Map\<close>: the intrusive red-black tree (\<^verbatim>\<open>freebsd/tree.hpp\<close>) as updates of a
    store of left, right and parent pointers and colours, and the container over it
    (\<^verbatim>\<open>util_intrusive_red_black_tree.hpp\<close>). A null dereference and a loop that never ends are
    \<open>None\<close>. The proofs focus on a subtree below a path to the root.

  \<^item> \<^verbatim>\<open>Lmem_UnitHeap\<close>: the unit heap (\<^verbatim>\<open>lmem_impl_unit_heap.cpp\<close>) over a store of next pointers,
    an instance of the locale \<open>block_allocator\<close>.

  \<^item> \<^verbatim>\<open>Cheat_Frozen\<close>, \<^verbatim>\<open>Cheat_Frozen_Tree\<close>: the frozen addresses. The first keeps them as the
    list in address order, an instance of the locale \<open>ordered_map\<close> whose nodes are units of
    the heap; the second proves that the red-black tree of the source implements that list.

  \<^item> \<^verbatim>\<open>Cheat_Manager\<close>, \<^verbatim>\<open>Cheat_Manager_Inv\<close>, \<^verbatim>\<open>Cheat_Service\<close>: \<^verbatim>\<open>CheatProcessManager\<close>
    (\<^verbatim>\<open>dmnt_cheat_api.cpp\<close>) and the IPC commands (\<^verbatim>\<open>dmnt_cheat_service.cpp\<close>). An operation runs
    under the cheat lock, so it is one step; what the system does is the record \<open>cheat_env\<close>.
    \<open>service_run\<close> is the transition relation of the whole service: commands, launches, rounds
    of the virtual machine thread and debug events in any order.

  \<^item> \<^verbatim>\<open>Cheat_Properties\<close>, \<^verbatim>\<open>Cheat_Attach\<close> and this theory: properties of the service as a whole.

  \<^item> \<^verbatim>\<open>Kern_HandleTable\<close> with \<^verbatim>\<open>_Inv\<close>, \<^verbatim>\<open>_Spec\<close> and \<^verbatim>\<open>_Props\<close>: the handle table of the kernel
    (\<^verbatim>\<open>kern_k_handle_table.hpp\<close>, \<^verbatim>\<open>kern_k_handle_table.cpp\<close>) with the reference counts of the objects
    it holds (\<^verbatim>\<open>kern_k_auto_object.hpp\<close>). The table is the record \<open>KHandleTable\<close>, handles are
    packed 32-bit words, linear ids wrap in 16 bits. \<open>ht_step\<close> is the transition relation of the
    table and its users, \<open>spec_step\<close> the one of a bounded map; the locale \<open>ticket_issuer\<close> carries the
    argument that issued handles stay distinct.

  \<^item> \<^verbatim>\<open>Kern_ResourceLimit\<close>: resource limits (\<^verbatim>\<open>kern_k_resource_limit.cpp\<close>) with signed 64-bit
    values. A reservation that waits is one step up to the wait and one per wake-up, so that
    other threads run in between (\<open>rl_step\<close>).

  \<^item> \<^verbatim>\<open>Kern_PageBitmap\<close>, \<^verbatim>\<open>Kern_PageBitmap_Props\<close>: the hierarchical page bitmap
    (\<^verbatim>\<open>kern_k_page_bitmap.hpp\<close>) over the words of the management area, for any random number
    generator. It is an instance of the locale \<open>page_set\<close>.

  \<^item> \<^verbatim>\<open>Kern_PageHeap\<close> with \<^verbatim>\<open>_Inv\<close> and \<^verbatim>\<open>_Props\<close>: the page heap (\<^verbatim>\<open>kern_k_page_heap.cpp\<close>), seven
    bitmaps of blocks of growing size. The invariant says that the free blocks of all sizes are
    disjoint and that no group of blocks that could be one larger block is left unmerged.

  \<^item> \<^verbatim>\<open>Kern_PageGroup\<close>, \<^verbatim>\<open>Kern_MemoryManager\<close> with \<^verbatim>\<open>_Inv\<close>, \<^verbatim>\<open>_Spec\<close>, \<^verbatim>\<open>_Init\<close> and \<^verbatim>\<open>_Props\<close>: page groups
    (\<^verbatim>\<open>kern_k_page_group.cpp\<close>) and the memory manager (\<^verbatim>\<open>kern_k_memory_manager.cpp\<close>), which serves the
    pools from one page heap per region, counts the references to each page in 16 bits, and marks the
    pages an optimized process has had. The manager is the record \<open>KMemoryManager\<close>; the physical memory it
    fills is a function from addresses to bytes; the lists of managers are links between array
    indices. \<open>mm_ok\<close> relates it to the set of pages handed out, \<open>mm_step\<close> is the transition relation of its
    calls and \<open>page_step\<close> the one of a page table. The region trees are lists in address order, and the
    allocator of group nodes and the random generator are parameters.

  \<^bold>\<open>What the lemmas show.\<close> The decoder inverts the documented encodings and stays inside the
  program; runs keep every array bound; loop-free programs end; the only abort of a run is an
  unmatched else; structured cheats mean what they say. Parsing a cheat file stores exactly
  its cheats, and toggles survive a save and a load. The unit heap never hands out a unit
  twice. The red-black tree operations keep the colour and height invariants, never fault and
  always return, and agree with the sequence in key order. The service keeps the manager's
  invariant under any history, refuses commands without a process, keeps frozen values, and
  runs the program that the file on the card spells.
  For the kernel parts, from initialization and under every sequence of operations: the handle
  table is a bounded map, counts references exactly, and a stale handle does not resolve while
  fewer than 32767 further ones are issued; resource accounts are the sums of what was granted and
  no waiter is forgotten; the bitmap is a set; the page heap is an allocator that refuses a
  request only when no aligned block is free; the memory manager, from \<^verbatim>\<open>Initialize\<close> on, hands out each
  page to one owner at a time, frees it with its last reference, refuses a group only when the pool
  is too small, never fails an assertion, and never shows a process the content of another one's
  page. Heaps are at most \<open>2 ^ 35\<close> bytes, which keeps the bitmaps
  within the four levels the source allots; the physical memory of the device is 8 GiB at most.

  \<^bold>\<open>Not modelled.\<close> Thread creation, sleeping and locking; the IPC framing; the debug log file
  (compiled out in the source, its calls are recorded); the kernel and file system calls,
  which are parameters; how the boot code builds the memory regions. The operations of the memory
  manager are atomic in the model; the source fills the pages of a process after it has left the
  lock of the pool. Shifts by 64 or more are undefined in the source; the model takes the amount modulo 64, as the
  shift instructions of the target do. The
  remaining programs of the repository (boot stages, secure monitor, loader, file system and
  the other system modules) are mostly device access and other services' protocols and are
  not part of this development.
\<close>

text \<open>
  C1. From the file on the card to the program that runs. When a launch attaches, the cheat
  file for the application reads as a well-formed file and there is no toggle file, then
  the manager holds exactly the cheats of the file, with the master cheat enabled and the
  others as the default setting says, and has nothing frozen; and when the program they
  describe fits the virtual machine, the first round that ends on the attached process has
  loaded exactly that program.
\<close>

theorem launch_runs_cheat_file:
  assumes "manager_inv units m" "AttachToApplicationProcess env True m = Some (Inr (), m')"
    "\<forall>w. env_OpenRead env w (cheats_path (program_id (m_cheat_process_metadata m'))
       (main_nso_module_id (m_cheat_process_metadata m'))) = Some (text_file (cheat_file mc cs))"
    "\<forall>w. env_OpenRead env w (toggles_path (program_id (m_cheat_process_metadata m'))) = None"
    "list_all cheat_ok cs" "pred_option cheat_ok mc" "length cs < MaxCheatCount"
    "length (cheat_file mc cs) < TextBufferSize"
  shows "m_cheat_entries m' = map (file_entry (m_enable_cheats_by_default m) mc cs) [0..<MaxCheatCount] \<and>
    frozen m' = [] \<and>
    (process_is_active env m' \<and> VirtualMachineThread_round n env kHeld m' = Finished m'' \<and>
     length (file_program (m_enable_cheats_by_default m) mc cs) \<le> MaximumProgramOpcodeCount \<longrightarrow>
     loaded_program (m_cheat_vm m'') = file_program (m_enable_cheats_by_default m) mc cs)"
proof -
  obtain m1 m2 m3 md where st: "loading_inv units m1" "m_cheat_process_metadata m1 = md"
    "LoadCheats env (program_id md) (main_nso_module_id md) m1 = (True, m2)"
    "LoadCheatToggles env (program_id md) m2 = (True, m3)"
    "attach_open env True m3 = Some (Inr (), m')"
    "m_enable_cheats_by_default m1 = m_enable_cheats_by_default m"
    by (rule attach_launch_cases [OF assms(2,1)])
  note op = attach_open_fields [OF st(5)]
  have md3: "m_cheat_process_metadata m3 = m_cheat_process_metadata m1"
    using LoadCheats_metadata [OF st(3)] LoadCheatToggles_metadata [OF st(4)] by simp
  then have md: "m_cheat_process_metadata m' = md"
    using op(2) st(2) by simp
  obtain m2' where m2': "LoadCheats env (program_id md) (main_nso_module_id md) m1 = (True, m2')"
    "m_cheat_entries m2' = map (file_entry (m_enable_cheats_by_default m1) mc cs) [0..<MaxCheatCount]"
    using LoadCheats_file [OF st(1) _ assms(5-8), of env "program_id md" "main_nso_module_id md"] assms(3)
    by (auto simp: md file_entry_def [abs_def])
  have "m3 = m2\<lparr>m_should_save_cheat_toggles := False\<rparr>"
    using st(4) assms(4) by (simp add: md LoadCheatToggles_def Let_def)
  then have es: "m_cheat_entries m' = map (file_entry (m_enable_cheats_by_default m) mc cs) [0..<MaxCheatCount]"
    using op(1) m2' st(3,6) by simp
  have inv: "manager_inv units m'"
    using preservesD [OF preserves_Attach assms(1,2)] .
  note l2 = LoadCheats_spec [OF st(1,3)]
  have fr: "frozen m' = []"
    using op(4) LoadCheatToggles_spec(1) [OF l2(1,2) st(4)] by (simp add: loading_inv_def)
  have prog: "enabled_opcodes (m_cheat_entries m') = file_program (m_enable_cheats_by_default m) mc cs"
    by (simp add: es enabled_opcodes_file [OF assms(5-7)])
  show ?thesis
    using es fr vm_round_effect [OF inv, of env n kHeld m''] prog by auto
qed

theorem launch_runs_cheat_file_witness:
  "\<exists>m'. AttachToApplicationProcess (demo_env (cheat_file None demo_cheat_list)) True (demo_started []) =
      Some (Inr (), m') \<and>
     m_cheat_entries m' = map (file_entry (m_enable_cheats_by_default (demo_started [])) None demo_cheat_list)
       [0..<MaxCheatCount]"
proof -
  let ?env = "demo_env (cheat_file None demo_cheat_list)"
  obtain m' where run: "AttachToApplicationProcess ?env True (demo_started []) = Some (Inr (), m')"
    and md: "program_id (m_cheat_process_metadata m') = 0x0100000000001000"
      "main_nso_module_id (m_cheat_process_metadata m') = replicate 32 0"
    using demo_launch by blast
  have inv: "manager_inv (frozen_units (demo_started [])) (demo_started [])"
    using Initialize_inv(1) [OF demo_started_eq(1)] by simp
  have files: "\<forall>w. env_OpenRead ?env w (cheats_path (program_id (m_cheat_process_metadata m'))
        (main_nso_module_id (m_cheat_process_metadata m'))) = Some (text_file (cheat_file None demo_cheat_list))"
      "\<forall>w. env_OpenRead ?env w (toggles_path (program_id (m_cheat_process_metadata m'))) = None"
    using paths_differ by (simp_all add: md demo_env_def text_file_def)
  have "pred_option cheat_ok None"
    by simp
  from launch_runs_cheat_file [OF inv run files demo_cheat_list_ok(1) this demo_cheat_list_ok(2,3)] run
  show ?thesis
    by blast
qed



end
